(* ===== verification/Los_Prelude.thy ===== *)
theory Los_Prelude
  imports Main "HOL-Library.Word" "HOL-Library.Monad_Syntax"
begin

text \<open>
  Shared types and lemmas of the development: the machine integers of the kernel,
  pointer chains through a partial store, and the word and list facts the component
  proofs use.
\<close>

unbundle bit_operations_syntax

section \<open>Machine types\<close>

type_synonym u8 = "8 word"
type_synonym u16 = "16 word"
type_synonym u32 = "32 word"
type_synonym u64 = "64 word"

text \<open>A pointer is a 32-bit address; 0 is NULL.\<close>

type_synonym ptr = "32 word"

abbreviation NULL :: ptr where
  "NULL \<equiv> 0"

abbreviation NUL :: char where
  "NUL \<equiv> CHR 0x00"

named_theorems word_nat \<open>reading sums and differences of words as naturals\<close>

lemma unat_plus_exact [word_nat]:
  "unat (a :: u32) + unat b < 4294967296 \<Longrightarrow> unat (a + b) = unat a + unat b"
  using unat_add_lem [of a b] by simp

lemma unat_minus_exact [word_nat]:
  "unat b \<le> unat (a :: u32) \<Longrightarrow> unat (a - b) = unat a - unat b"
  by (simp add: unat_sub word_le_nat_alt)

lemma unat_of_nat_exact [word_nat]:
  "n < 4294967296 \<Longrightarrow> unat (of_nat n :: u32) = n"
  by (simp add: unat_of_nat)

lemma of_nat_u32_inject [simp]:
  "m < 4294967296 \<Longrightarrow> n < 4294967296 \<Longrightarrow> ((of_nat m :: u32) = of_nat n) = (m = n)"
  by (metis unat_of_nat_exact)

lemma of_nat_u32_eq_0 [simp]:
  "n < 4294967296 \<Longrightarrow> ((of_nat n :: u32) = 0) = (n = 0)"
  using of_nat_u32_inject [of n 0] by simp

lemma u32_bound [simp]: "unat (w :: u32) < 4294967296"
  using unsigned_less [of w] by simp

section \<open>Pointer chains\<close>

text \<open>
  \<open>chain H nx p as q\<close>: following the field \<open>nx\<close> from \<open>p\<close> visits exactly the nodes
  \<open>as\<close>, all of them non-NULL and in the store \<open>H\<close>, and ends at \<open>q\<close>.
\<close>

primrec chain :: "('p::zero \<Rightarrow> 'n option) \<Rightarrow> ('n \<Rightarrow> 'p) \<Rightarrow> 'p \<Rightarrow> 'p list \<Rightarrow> 'p \<Rightarrow> bool" where
  "chain H nx p [] q \<longleftrightarrow> p = q"
| "chain H nx p (a # as) q \<longleftrightarrow>
     p = a \<and> a \<noteq> 0 \<and> (\<exists>n. H a = Some n \<and> chain H nx (nx n) as q)"

lemma chain_append:
  "chain H nx p (as @ bs) q \<longleftrightarrow> (\<exists>r. chain H nx p as r \<and> chain H nx r bs q)"
  by (induction as arbitrary: p) auto

lemma chain_cong:
  assumes "chain H nx p as q"
    and "\<And>a n. a \<in> set as \<Longrightarrow> H a = Some n \<Longrightarrow> \<exists>n'. H' a = Some n' \<and> nx n' = nx n"
  shows "chain H' nx p as q"
  using assms
proof (induction as arbitrary: p)
  case Nil
  then show ?case by simp
next
  case (Cons a as)
  then obtain n where "H a = Some n" "chain H nx (nx n) as q" "p = a" "a \<noteq> 0" by auto
  moreover from this Cons.prems(2) obtain n' where "H' a = Some n'" "nx n' = nx n" by auto
  moreover from calculation Cons have "chain H' nx (nx n) as q" by auto
  ultimately show ?case by auto
qed

lemma chain_upd_notin [simp]:
  "a \<notin> set as \<Longrightarrow> chain (H(a := v)) nx p as q = chain H nx p as q"
  by (induction as arbitrary: p) auto

lemma chain_upd_same:
  "H a = Some n \<Longrightarrow> nx n' = nx n \<Longrightarrow> chain (H(a \<mapsto> n')) nx p as q = chain H nx p as q"
  by (induction as arbitrary: p) auto

lemma chain_in_store: "chain H nx p as q \<Longrightarrow> a \<in> set as \<Longrightarrow> a \<in> dom H \<and> a \<noteq> 0"
  by (induction as arbitrary: p) auto

lemma chain_NULL [simp]: "chain H nx 0 as q \<longleftrightarrow> as = [] \<and> q = 0"
  by (cases as) auto

lemma chain_unique:
  "chain H nx p as 0 \<Longrightarrow> chain H nx p bs 0 \<Longrightarrow> as = bs"
proof (induction as arbitrary: p bs)
  case Nil
  then show ?case by simp
next
  case (Cons a as)
  then show ?case by (cases bs) auto
qed

lemma chain_hd: "chain H nx p as 0 \<Longrightarrow> as \<noteq> [] \<Longrightarrow> p = hd as \<and> p \<noteq> 0"
  by (cases as) auto

lemma chain_nonnull: "chain H nx p as 0 \<Longrightarrow> p \<noteq> 0 \<Longrightarrow> \<exists>bs. as = p # bs"
  by (cases as) auto

lemma chain_null_iff: "chain H nx p as 0 \<Longrightarrow> (p = 0) = (as = [])"
  by (cases as) auto

lemma chain_distinct: "chain H nx p as 0 \<Longrightarrow> distinct as"
proof (induction as arbitrary: p)
  case Nil
  then show ?case by simp
next
  case (Cons a as)
  then obtain n where n: "H a = Some n" and c: "chain H nx (nx n) as 0" by auto
  have "a \<notin> set as"
  proof
    assume "a \<in> set as"
    then obtain bs cs where as: "as = bs @ a # cs" by (auto simp: in_set_conv_decomp)
    with c n have "chain H nx (nx n) cs 0" by (auto simp: chain_append)
    with c have "as = cs" by (rule chain_unique)
    with as show False by simp
  qed
  with Cons.IH c show ?case by auto
qed

end
