(* ===== verification/Kernel_Mem.thy ===== *)
theory Kernel_Mem
  imports Los_Prelude
begin

text \<open>
  The kernel heap of \<open>kernel/mem.c\<close>: the BIOS memory map, the doubly linked list of
  blocks, \<open>kmalloc\<close>, \<open>kcalloc\<close> and \<open>kfree\<close>.

  Block headers live in a store \<open>hdr\<close> from addresses to headers; reading an address that
  holds no header is undefined in C and is \<open>None\<close> here.  The critical sections
  (\<open>irq_save\<close>/\<open>irq_restore\<close>) make each operation atomic on the one CPU, so an operation is
  one function of the state.  The proofs relate the pointer structure to an abstract heap,
  a list of (payload size, free flag) pairs in address order.
\<close>

section \<open>State\<close>

record e820_entry =
  e_base :: u64
  e_length :: u64
  e_type :: u32
  e_acpi :: u32

record block =
  b_magic :: u32
  b_size :: u32
  b_free :: bool
  b_next :: ptr
  b_prev :: ptr

record mem_state =
  regions :: "e820_entry list"
  region_count :: int
  total_usable :: u64
  hdr :: "ptr \<Rightarrow> block option"
  heap_head :: ptr
  heap_size :: u32
  heap_used :: u32

definition E820_MAX :: u16 where "E820_MAX = 32"
definition E820_TYPE_USABLE :: u32 where "E820_TYPE_USABLE = 1"
definition HEAP_BASE :: u32 where "HEAP_BASE = 0x00200000"
definition HEAP_MAX_SIZE :: u32 where "HEAP_MAX_SIZE = 32 * 1024 * 1024"
definition HEAP_MIN_SIZE :: u32 where "HEAP_MIN_SIZE = 1 * 1024 * 1024"
definition BLOCK_MAGIC :: u32 where "BLOCK_MAGIC = 0x4C4F5342"

text \<open>Two words, a bool padded to a word, and two pointers.\<close>

definition sizeof_block :: u32 where "sizeof_block = 20"

section \<open>Operations\<close>

subsection \<open>The BIOS memory map\<close>

text \<open>
  The bootloader leaves a 16-bit count and the entries at fixed addresses: they are the
  arguments \<open>count\<close> and \<open>src\<close>.
\<close>

fun sum_usable :: "e820_entry list \<Rightarrow> u64 \<Rightarrow> u64" where
  "sum_usable [] acc = acc"
| "sum_usable (r # rs) acc =
     sum_usable rs (if e_type r = E820_TYPE_USABLE then acc + e_length r else acc)"

definition read_memory_map :: "u16 \<Rightarrow> (nat \<Rightarrow> e820_entry) \<Rightarrow> 'a mem_state_scheme \<Rightarrow> 'a mem_state_scheme" where
  "read_memory_map count src s =
     (let count' = (if count > E820_MAX then E820_MAX else count);
          rs = map src [0..<unat count']
      in s\<lparr>regions := rs, total_usable := sum_usable rs (total_usable s),
           region_count := int (unat count')\<rparr>)"

fun usable_heap_size :: "e820_entry list \<Rightarrow> u32" where
  "usable_heap_size [] = HEAP_MIN_SIZE"
| "usable_heap_size (r # rs) =
     (if e_type r \<noteq> E820_TYPE_USABLE then usable_heap_size rs
      else let start = e_base r; stop = e_base r + e_length r; base = (ucast HEAP_BASE :: u64)
           in if start \<le> base \<and> stop > base
              then let available = stop - base
                   in ucast (if available > ucast HEAP_MAX_SIZE then ucast HEAP_MAX_SIZE
                             else available)
              else usable_heap_size rs)"

text \<open>\<open>None\<close>: the kernel panics because there is too little memory for a heap.\<close>

definition mem_init :: "u16 \<Rightarrow> (nat \<Rightarrow> e820_entry) \<Rightarrow> 'a mem_state_scheme \<Rightarrow> 'a mem_state_scheme option" where
  "mem_init count src s =
     (let s1 = read_memory_map count src s;
          sz = usable_heap_size (regions s1);
          s2 = s1\<lparr>heap_size := sz\<rparr>
      in if sz < HEAP_MIN_SIZE then None
         else Some (s2\<lparr>heap_head := HEAP_BASE,
                hdr := (hdr s2)(HEAP_BASE \<mapsto>
                  \<lparr>b_magic = BLOCK_MAGIC, b_size = sz - sizeof_block, b_free = True,
                   b_next = NULL, b_prev = NULL\<rparr>),
                heap_used := 0\<rparr>))"

definition mem_heap_free :: "'a mem_state_scheme \<Rightarrow> u32" where
  "mem_heap_free s = heap_size s - heap_used s"

definition mem_region_info :: "int \<Rightarrow> 'a mem_state_scheme \<Rightarrow> (u64 \<times> u64 \<times> u32) option" where
  "mem_region_info index s =
     (if index < 0 \<or> index \<ge> region_count s then None
      else let r = regions s ! nat index in Some (e_base r, e_length r, e_type r))"

subsection \<open>Allocation\<close>

definition split_block :: "ptr \<Rightarrow> u32 \<Rightarrow> (ptr \<Rightarrow> block option) \<Rightarrow> (ptr \<Rightarrow> block option) option" where
  "split_block blk sz H = do {
     b \<leftarrow> H blk;
     if b_size b < sz + sizeof_block + 16 then Some H
     else do {
       let rest = blk + sizeof_block + sz;
       let H = H(rest \<mapsto> \<lparr>b_magic = BLOCK_MAGIC, b_size = b_size b - sz - sizeof_block,
                          b_free = True, b_next = b_next b, b_prev = blk\<rparr>);
       b \<leftarrow> H blk;
       H \<leftarrow> (if b_next b \<noteq> NULL
             then do { n \<leftarrow> H (b_next b); Some (H(b_next b \<mapsto> n\<lparr>b_prev := rest\<rparr>)) }
             else Some H);
       b \<leftarrow> H blk;
       Some (H(blk \<mapsto> b\<lparr>b_next := rest, b_size := sz\<rparr>))
     }
   }"

text \<open>
  The search loop of \<open>kmalloc\<close>: the first free block that is large enough, NULL when the
  list ends.  It runs over a pointer structure, so it may fail to return (\<open>None\<close>); that it
  always returns on a well-formed heap is part of the correctness proof.
\<close>

partial_function (option) find_fit :: "(ptr \<Rightarrow> block option) \<Rightarrow> u32 \<Rightarrow> ptr \<Rightarrow> ptr option" where
  "find_fit H sz blk =
     (if blk = NULL then Some NULL
      else do {
        b \<leftarrow> H blk;
        if \<not> b_free b \<or> b_size b < sz then find_fit H sz (b_next b) else Some blk
      })"

declare find_fit.simps [code]

definition kmalloc :: "u32 \<Rightarrow> 'a mem_state_scheme \<Rightarrow> (ptr \<times> 'a mem_state_scheme) option" where
  "kmalloc sz s =
     (if sz = 0 then Some (NULL, s)
      else do {
        let sz = (sz + 7) AND NOT 7;
        blk \<leftarrow> find_fit (hdr s) sz (heap_head s);
        if blk = NULL then Some (NULL, s)
        else do {
          H \<leftarrow> split_block blk sz (hdr s);
          b \<leftarrow> H blk;
          Some (blk + sizeof_block,
                s\<lparr>hdr := H(blk \<mapsto> b\<lparr>b_free := False\<rparr>),
                  heap_used := heap_used s + (b_size b + sizeof_block)\<rparr>)
        }
      })"

text \<open>The payload is zeroed; the typed stores of the clients show that as their zero value.\<close>

definition kcalloc :: "u32 \<Rightarrow> u32 \<Rightarrow> 'a mem_state_scheme \<Rightarrow> (ptr \<times> 'a mem_state_scheme) option" where
  "kcalloc count sz s = kmalloc (count * sz) s"

subsection \<open>Release\<close>

definition coalesce :: "ptr \<Rightarrow> (ptr \<Rightarrow> block option) \<Rightarrow> (ptr \<Rightarrow> block option) option" where
  "coalesce blk H = do {
     b \<leftarrow> H blk;
     H \<leftarrow> (if b_next b \<noteq> NULL
           then do {
             n \<leftarrow> H (b_next b);
             if b_free n
             then do {
               let H = H(blk \<mapsto> b\<lparr>b_size := b_size b + (b_size n + sizeof_block), b_next := b_next n\<rparr>);
               if b_next n \<noteq> NULL
               then do { m \<leftarrow> H (b_next n); Some (H(b_next n \<mapsto> m\<lparr>b_prev := blk\<rparr>)) }
               else Some H
             }
             else Some H
           }
           else Some H);
     b \<leftarrow> H blk;
     if b_prev b \<noteq> NULL
     then do {
       p \<leftarrow> H (b_prev b);
       if b_free p
       then do {
         let H = H(b_prev b \<mapsto> p\<lparr>b_size := b_size p + (b_size b + sizeof_block), b_next := b_next b\<rparr>);
         if b_next b \<noteq> NULL
         then do { m \<leftarrow> H (b_next b); Some (H(b_next b \<mapsto> m\<lparr>b_prev := b_prev b\<rparr>)) }
         else Some H
       }
       else Some H
     }
     else Some H
   }"

text \<open>\<open>Inl msg\<close>: the kernel panics with that message.\<close>

definition kfree :: "ptr \<Rightarrow> 'a mem_state_scheme \<Rightarrow> (string + 'a mem_state_scheme) option" where
  "kfree p s =
     (if p = NULL then Some (Inr s)
      else do {
        let blk = p - sizeof_block;
        b \<leftarrow> hdr s blk;
        if b_magic b \<noteq> BLOCK_MAGIC
        then Some (Inl ''kfree() on a pointer that is not a heap block'')
        else if b_free b then Some (Inr s)
        else do {
          H \<leftarrow> coalesce blk ((hdr s)(blk \<mapsto> b\<lparr>b_free := True\<rparr>));
          Some (Inr (s\<lparr>hdr := H, heap_used := heap_used s - (b_size b + sizeof_block)\<rparr>))
        }
      })"

section \<open>The abstract heap\<close>

text \<open>
  A heap is a list of blocks in address order: (payload bytes, free?).  Each block takes 20
  more bytes for its header.
\<close>

type_synonym aheap = "(nat \<times> bool) list"

primrec span :: "aheap \<Rightarrow> nat" where
  "span [] = 0"
| "span (x # xs) = 20 + fst x + span xs"

primrec used_bytes :: "aheap \<Rightarrow> nat" where
  "used_bytes [] = 0"
| "used_bytes (x # xs) = (if snd x then 0 else 20 + fst x) + used_bytes xs"

text \<open>No two neighbouring blocks are both free: the free space is fully coalesced.\<close>

fun coalesced :: "aheap \<Rightarrow> bool" where
  "coalesced (x # y # xs) \<longleftrightarrow> \<not> (snd x \<and> snd y) \<and> coalesced (y # xs)"
| "coalesced _ \<longleftrightarrow> True"

text \<open>The live allocations: payload address to payload size.\<close>

primrec live_of :: "nat \<Rightarrow> aheap \<Rightarrow> ptr \<Rightarrow> nat option" where
  "live_of a [] = Map.empty"
| "live_of a (x # xs) =
     (if snd x then live_of (a + 20 + fst x) xs
      else (live_of (a + 20 + fst x) xs)(of_nat (a + 20) \<mapsto> fst x))"

definition cut_block :: "nat \<Rightarrow> nat \<Rightarrow> aheap" where
  "cut_block k n = (if n < k + 36 then [(n, False)] else [(k, False), (n - k - 20, True)])"

text \<open>First fit: the address of the block found and the heap after the allocation.\<close>

fun heap_alloc :: "nat \<Rightarrow> nat \<Rightarrow> aheap \<Rightarrow> (nat \<times> aheap) option" where
  "heap_alloc k a [] = None"
| "heap_alloc k a (x # xs) =
     (if snd x \<and> k \<le> fst x then Some (a, cut_block k (fst x) @ xs)
      else map_option (\<lambda>(c, ys). (c, x # ys)) (heap_alloc k (a + 20 + fst x) xs))"

text \<open>Freeing the block of size \<open>n\<close> between \<open>ys\<close> and \<open>zs\<close>, merging with both neighbours.\<close>

definition join_next :: "nat \<Rightarrow> aheap \<Rightarrow> aheap" where
  "join_next n zs = (case zs of (m, True) # zs' \<Rightarrow> (n + (m + 20), True) # zs' | _ \<Rightarrow> (n, True) # zs)"

definition join_prev :: "aheap \<Rightarrow> aheap \<Rightarrow> aheap" where
  "join_prev ys zs =
     (if ys \<noteq> [] \<and> snd (last ys)
      then butlast ys @ (fst (last ys) + (fst (hd zs) + 20), True) # tl zs
      else ys @ zs)"

definition heap_free :: "aheap \<Rightarrow> nat \<Rightarrow> aheap \<Rightarrow> aheap" where
  "heap_free ys n zs = join_prev ys (join_next n zs)"

lemma span_append [simp]: "span (xs @ ys) = span xs + span ys"
  by (induction xs) auto

lemma used_bytes_append [simp]: "used_bytes (xs @ ys) = used_bytes xs + used_bytes ys"
  by (induction xs) auto

lemma used_le_span: "used_bytes xs \<le> span xs"
  by (induction xs) auto

lemma coalesced_append:
  "coalesced (xs @ ys) \<longleftrightarrow>
     coalesced xs \<and> coalesced ys \<and> \<not> (xs \<noteq> [] \<and> ys \<noteq> [] \<and> snd (last xs) \<and> snd (hd ys))"
proof (induction xs)
  case Nil
  show ?case by simp
next
  case (Cons x xs)
  then show ?case by (cases xs; cases ys) auto
qed

lemma heap_alloc_Some:
  "heap_alloc k a xs = Some (c, xs') \<Longrightarrow>
     \<exists>ys n zs. xs = ys @ (n, True) # zs \<and> k \<le> n \<and> c = a + span ys \<and>
               xs' = ys @ cut_block k n @ zs"
proof (induction k a xs arbitrary: c xs' rule: heap_alloc.induct)
  case (1 k a)
  then show ?case by simp
next
  case (2 k a x xs)
  show ?case
  proof (cases "snd x \<and> k \<le> fst x")
    case True
    with "2.prems" have "x # xs = [] @ (fst x, True) # xs" "c = a + span []"
      "xs' = [] @ cut_block k (fst x) @ xs" by (auto simp: prod_eq_iff)
    with True show ?thesis by blast
  next
    case False
    with "2.prems" obtain ys' where r: "heap_alloc k (a + 20 + fst x) xs = Some (c, ys')"
      and xs': "xs' = x # ys'" by auto
    from "2.IH" [OF False r] obtain ys n zs where
      "xs = ys @ (n, True) # zs" "k \<le> n" "c = a + 20 + fst x + span ys" "ys' = ys @ cut_block k n @ zs"
      by auto
    then have "x # xs = (x # ys) @ (n, True) # zs" "c = a + span (x # ys)"
      "xs' = (x # ys) @ cut_block k n @ zs" using xs' by auto
    with \<open>k \<le> n\<close> show ?thesis by blast
  qed
qed

lemma heap_alloc_None:
  "heap_alloc k a xs = None \<longleftrightarrow> (\<forall>x\<in>set xs. \<not> (snd x \<and> k \<le> fst x))"
  by (induction k a xs rule: heap_alloc.induct) auto

lemma cut_block_facts:
  assumes "k \<le> n"
  shows "span (cut_block k n) = 20 + n" "cut_block k n \<noteq> []" "\<not> snd (hd (cut_block k n))"
    "coalesced (cut_block k n)"
  using assms by (auto simp: cut_block_def)

lemma hd_append_cut: "hd (cut_block k n @ zs) = hd (cut_block k n)"
  by (simp add: cut_block_def)

lemma coalesced_cut:
  assumes "coalesced (ys @ (n, True) # zs)" "k \<le> n"
  shows "coalesced (ys @ cut_block k n @ zs)"
proof -
  have "\<not> (zs \<noteq> [] \<and> snd (hd zs))" and z: "coalesced zs"
    using assms(1) by (cases zs; auto simp: coalesced_append)+
  then have "coalesced (cut_block k n @ zs)"
    using cut_block_facts [OF assms(2)] by (auto simp: coalesced_append)
  moreover have "coalesced ys" using assms(1) by (simp add: coalesced_append)
  ultimately show ?thesis
    using cut_block_facts(3) [OF assms(2)] by (auto simp: coalesced_append hd_append_cut)
qed

lemma join_next_facts:
  "join_next n zs \<noteq> [] \<and> snd (hd (join_next n zs)) \<and> span (join_next n zs) = 20 + n + span zs \<and>
   used_bytes (join_next n zs) = used_bytes zs"
  by (auto simp: join_next_def split: list.split bool.split)

lemma coalesced_join_next:
  "coalesced zs \<Longrightarrow> coalesced (join_next n zs)"
proof -
  assume c: "coalesced zs"
  show ?thesis
  proof (cases zs)
    case Nil
    then show ?thesis by (simp add: join_next_def)
  next
    case (Cons z zs')
    with c show ?thesis
      by (cases z; cases zs') (auto simp: join_next_def split: bool.split)
  qed
qed

lemma join_prev_facts:
  assumes "zs \<noteq> []" "snd (hd zs)"
  shows "span (join_prev ys zs) = span ys + span zs"
    "used_bytes (join_prev ys zs) = used_bytes ys + used_bytes zs"
proof -
  obtain z zs' where zs: "zs = z # zs'" using assms(1) by (cases zs) auto
  have ys: "ys \<noteq> [] \<Longrightarrow> ys = butlast ys @ [last ys]" by simp
  have "ys \<noteq> [] \<Longrightarrow> span ys = span (butlast ys) + (20 + fst (last ys))"
    by (metis ys add.right_neutral span.simps span_append)
  then show "span (join_prev ys zs) = span ys + span zs"
    by (auto simp: join_prev_def zs)
  have "ys \<noteq> [] \<Longrightarrow> used_bytes ys =
     used_bytes (butlast ys) + (if snd (last ys) then 0 else 20 + fst (last ys))"
    by (metis ys add.right_neutral used_bytes.simps used_bytes_append)
  then show "used_bytes (join_prev ys zs) = used_bytes ys + used_bytes zs"
    using assms(2) by (auto simp: join_prev_def zs)
qed

lemma coalesced_join_prev:
  assumes "coalesced ys" "coalesced zs" "zs \<noteq> []" "snd (hd zs)"
  shows "coalesced (join_prev ys zs)"
proof (cases "ys \<noteq> [] \<and> snd (last ys)")
  case True
  then obtain us n where ys: "ys = us @ [(n, True)]"
    by (metis append_butlast_last_id prod.collapse)
  obtain z zs' where zs: "zs = z # zs'" using assms(3) by (cases zs) auto
  have "coalesced ((n + (fst z + 20), True) # zs')"
    using assms(2,4) zs by (cases zs') auto
  moreover have "us = [] \<or> \<not> snd (last us)" "coalesced us"
    using assms(1) ys by (auto simp: coalesced_append)
  ultimately show ?thesis by (auto simp: join_prev_def ys zs coalesced_append)
next
  case False
  with assms show ?thesis by (auto simp: join_prev_def coalesced_append)
qed

lemma heap_free_facts:
  "span (heap_free ys n zs) = span (ys @ (n, False) # zs)"
  "used_bytes (heap_free ys n zs) + (20 + n) = used_bytes (ys @ (n, False) # zs)"
  "coalesced (ys @ (n, False) # zs) \<Longrightarrow> coalesced (heap_free ys n zs)"
proof -
  show "span (heap_free ys n zs) = span (ys @ (n, False) # zs)"
    by (simp add: heap_free_def join_prev_facts join_next_facts)
  show "used_bytes (heap_free ys n zs) + (20 + n) = used_bytes (ys @ (n, False) # zs)"
    by (simp add: heap_free_def join_prev_facts join_next_facts)
  assume "coalesced (ys @ (n, False) # zs)"
  then have "coalesced ys" "coalesced zs"
    by (cases zs; auto simp: coalesced_append)+
  then show "coalesced (heap_free ys n zs)"
    unfolding heap_free_def
    by (intro coalesced_join_prev coalesced_join_next) (auto simp: join_next_facts)
qed

text \<open>Allocating and freeing again leaves a coalesced heap as it was.\<close>

lemma heap_free_cut:
  assumes "coalesced (ys @ (n, True) # zs)" "k \<le> n"
  shows "\<exists>k' zs'. cut_block k n @ zs = (k', False) # zs' \<and> k \<le> k' \<and>
           heap_free ys k' zs' = ys @ (n, True) # zs"
proof -
  have y: "\<not> (ys \<noteq> [] \<and> snd (last ys))" and z: "\<not> (zs \<noteq> [] \<and> snd (hd zs))"
    using assms(1) by (cases zs; auto simp: coalesced_append)+
  show ?thesis
  proof (cases "n < k + 36")
    case True
    have "join_next n zs = (n, True) # zs"
      using z by (cases zs) (auto simp: join_next_def split: bool.split)
    with True y assms(2) show ?thesis
      by (auto simp: cut_block_def heap_free_def join_prev_def)
  next
    case False
    have "join_next k ((n - k - 20, True) # zs) = (n, True) # zs"
      using False by (simp add: join_next_def)
    with False y assms(2) show ?thesis
      by (auto simp: cut_block_def heap_free_def join_prev_def)
  qed
qed

section \<open>The block list in memory\<close>

text \<open>
  \<open>blocks H e pv a xs m q\<close>: the headers in \<open>H\<close> describe the blocks \<open>xs\<close> laid out without
  gaps from address \<open>a\<close> to address \<open>m\<close>; the first one's back pointer is \<open>pv\<close>, the block
  before \<open>m\<close> is \<open>q\<close>, and the whole heap ends at \<open>e\<close>, where the next pointer is NULL.
\<close>

definition at_or_null :: "nat \<Rightarrow> nat \<Rightarrow> ptr" where
  "at_or_null a e = (if a = e then NULL else of_nat a)"

primrec blocks :: "(ptr \<Rightarrow> block option) \<Rightarrow> nat \<Rightarrow> ptr \<Rightarrow> nat \<Rightarrow> aheap \<Rightarrow> nat \<Rightarrow> ptr \<Rightarrow> bool" where
  "blocks H e pv a [] m q \<longleftrightarrow> a = m \<and> pv = q"
| "blocks H e pv a (x # xs) m q \<longleftrightarrow>
     H (of_nat a) = Some \<lparr>b_magic = BLOCK_MAGIC, b_size = of_nat (fst x), b_free = snd x,
        b_next = at_or_null (a + 20 + fst x) e, b_prev = pv\<rparr> \<and>
     blocks H e (of_nat a) (a + 20 + fst x) xs m q"

lemma blocks_span: "blocks H e pv a xs m q \<Longrightarrow> m = a + span xs"
proof (induction xs arbitrary: pv a)
  case Nil
  then show ?case by simp
next
  case (Cons x xs)
  then have "m = a + 20 + fst x + span xs" by (intro Cons.IH) auto
  then show ?case by simp
qed

lemma blocks_append:
  "blocks H e pv a (xs @ ys) m q \<longleftrightarrow>
     (\<exists>r. blocks H e pv a xs (a + span xs) r \<and> blocks H e r (a + span xs) ys m q)"
  by (induction xs arbitrary: pv a) (auto simp: algebra_simps)

lemma blocks_upd_outside [simp]:
  assumes "c < a \<or> m \<le> c" "c < 4294967296" "m \<le> 4294967296"
  shows "blocks (H(of_nat c := v)) e pv a xs m q = blocks H e pv a xs m q"
  using assms
proof (induction xs arbitrary: pv a)
  case Nil
  then show ?case by simp
next
  case (Cons x xs)
  show ?case
  proof (cases "m = a + span (x # xs)")
    case True
    with Cons.prems have ne: "a \<noteq> c" "a < 4294967296" by auto
    have "blocks (H(of_nat c := v)) e (of_nat a) (a + 20 + fst x) xs m q =
          blocks H e (of_nat a) (a + 20 + fst x) xs m q"
      using Cons.prems by (intro Cons.IH) auto
    moreover have "(of_nat a :: ptr) \<noteq> of_nat c"
      using ne Cons.prems(2) by simp
    ultimately show ?thesis by (simp add: fun_upd_other del: fun_upd_apply)
  next
    case False
    then show ?thesis
      using blocks_span [of "H(of_nat c := v)" e pv a "x # xs" m q]
        blocks_span [of H e pv a "x # xs" m q] by blast
  qed
qed

lemma at_or_null_eq_0: "a < 4294967296 \<Longrightarrow> 0 < a \<Longrightarrow> (at_or_null a e = 0) = (a = e)"
  by (simp add: at_or_null_def)

lemma find_fit_blocks:
  assumes "blocks H e pv a xs e q" "e < 4294967296" "0 < a" "unat k = k'"
  shows "find_fit H k (at_or_null a e) =
           Some (case heap_alloc k' a xs of None \<Rightarrow> NULL | Some (c, _) \<Rightarrow> of_nat c)"
  using assms
proof (induction xs arbitrary: pv a)
  case Nil
  then show ?case by (simp add: at_or_null_def find_fit.simps)
next
  case (Cons x xs)
  have e: "e = a + span (x # xs)" using Cons.prems(1) by (rule blocks_span)
  then have a: "at_or_null a e = of_nat a" "(of_nat a :: ptr) \<noteq> 0"
    using Cons.prems by (auto simp: at_or_null_def)
  have n: "unat (of_nat (fst x) :: u32) = fst x"
    using e Cons.prems(2) by (intro unat_of_nat_exact) simp
  have IH: "find_fit H k (at_or_null (a + 20 + fst x) e) =
     Some (case heap_alloc k' (a + 20 + fst x) xs of None \<Rightarrow> NULL | Some (c, _) \<Rightarrow> of_nat c)"
    using Cons.prems by (intro Cons.IH) auto
  have "(of_nat (fst x) < k) = (fst x < k')"
    using n Cons.prems(4) by (simp add: word_less_nat_alt)
  with Cons.prems(1) a IH show ?case
    by (simp add: find_fit.simps [of H k "of_nat a"]) (auto split: option.split)
qed

text \<open>Rewriting the back pointer of the first block of a segment.\<close>

lemma blocks_set_prev:
  assumes "blocks H e pv a (x # xs) m q" "m \<le> 4294967296"
    and "H (of_nat a) = Some b"
  shows "blocks (H(of_nat a \<mapsto> b\<lparr>b_prev := pv'\<rparr>)) e pv' a (x # xs) m q"
proof -
  have m: "m = a + span (x # xs)" using assms(1) by (rule blocks_span)
  then have "blocks (H(of_nat a \<mapsto> b\<lparr>b_prev := pv'\<rparr>)) e (of_nat a) (a + 20 + fst x) xs m q"
    using assms(1,2) by (subst blocks_upd_outside) auto
  with assms m show ?thesis by simp
qed

text \<open>
  What both halves of \<open>coalesce\<close> and \<open>split_block\<close> do to the rest of the heap: the
  following block, if there is one, gets a new back pointer.
\<close>

definition relink :: "(ptr \<Rightarrow> block option) \<Rightarrow> ptr \<Rightarrow> ptr \<Rightarrow> (ptr \<Rightarrow> block option) option" where
  "relink H nxt pv =
     (if nxt \<noteq> NULL then do { n \<leftarrow> H nxt; Some (H(nxt \<mapsto> n\<lparr>b_prev := pv\<rparr>)) } else Some H)"

lemma relink_blocks:
  assumes "blocks H e r a zs e q" "e < 4294967296" "0 < a"
  shows "\<exists>H' q'. relink H (at_or_null a e) pv = Some H' \<and> blocks H' e pv a zs e q' \<and>
           (\<forall>p. p \<noteq> of_nat a \<longrightarrow> H' p = H p) \<and> (zs = [] \<longrightarrow> H' = H) \<and>
           (\<exists>v. H' = H \<or> H' = H(of_nat a \<mapsto> v) \<and> a < e)"
proof (cases zs)
  case Nil
  with assms show ?thesis by (auto simp: relink_def at_or_null_def)
next
  case (Cons z zs')
  have e: "e = a + span zs" using assms(1) by (rule blocks_span)
  then have a: "at_or_null a e = of_nat a" "(of_nat a :: ptr) \<noteq> 0" "a < e"
    using Cons assms by (auto simp: at_or_null_def)
  obtain b where b: "H (of_nat a) = Some b" using assms(1) Cons by auto
  have "blocks (H(of_nat a \<mapsto> b\<lparr>b_prev := pv\<rparr>)) e pv a zs e q"
    using assms b Cons by (simp only: Cons) (rule blocks_set_prev, auto)
  moreover have "relink H (at_or_null a e) pv = Some (H(of_nat a \<mapsto> b\<lparr>b_prev := pv\<rparr>))"
    using a b by (simp add: relink_def)
  ultimately show ?thesis using a(3) Cons by auto
qed

lemma blocks_cong:
  assumes "blocks H e pv a xs m q"
    and "\<And>c. a \<le> c \<Longrightarrow> c < m \<Longrightarrow> H' (of_nat c) = H (of_nat c)"
  shows "blocks H' e pv a xs m q"
  using assms
proof (induction xs arbitrary: pv a)
  case Nil
  then show ?case by simp
next
  case (Cons x xs)
  have "m = a + span (x # xs)" using Cons.prems(1) by (rule blocks_span)
  then have "H' (of_nat a) = H (of_nat a)" by (intro Cons.prems(2)) auto
  moreover have "blocks H' e (of_nat a) (a + 20 + fst x) xs m q"
    using Cons.prems by (intro Cons.IH) auto
  ultimately show ?case using Cons.prems(1) by simp
qed

section \<open>The allocator refines first fit\<close>

lemma unat_round8: "unat (w AND NOT 7 :: u32) = unat w div 8 * 8"
proof -
  have m: "(mask 3 :: u32) = 7" by (simp add: mask_eq_exp_minus_1)
  have "w AND NOT (mask 3) = push_bit 3 (drop_bit 3 w)"
    by (rule bit_word_eqI)
       (auto simp: bit_and_iff bit_not_iff bit_mask_iff bit_push_bit_iff bit_drop_bit_eq)
  then have "w AND NOT 7 = push_bit 3 (drop_bit 3 w)" by (simp only: m)
  moreover have "unat (drop_bit 3 w) = unat w div 8"
    by (simp only: unat_drop_bit_eq) (simp add: drop_bit_eq_div)
  moreover have "unat w div 8 * 8 < 4294967296"
    using u32_bound [of w] by linarith
  ultimately show ?thesis
    by (simp add: push_bit_eq_mult unat_word_ariths mult.commute)
qed

definition heap_rep :: "'a mem_state_scheme \<Rightarrow> aheap \<Rightarrow> bool" where
  "heap_rep s xs \<longleftrightarrow>
     (let e = unat HEAP_BASE + unat (heap_size s)
      in heap_head s = HEAP_BASE \<and> xs \<noteq> [] \<and> e < 4294967296 \<and>
         (\<exists>q. blocks (hdr s) e NULL (unat HEAP_BASE) xs e q) \<and>
         unat (heap_used s) = used_bytes xs \<and> coalesced xs)"

lemma HEAP_BASE_nat: "unat HEAP_BASE = 2097152" "HEAP_BASE = of_nat 2097152"
  by (simp_all add: HEAP_BASE_def)

lemma sizeof_block_nat [simp]: "of_nat a + sizeof_block = of_nat (a + 20)"
  by (simp add: sizeof_block_def)

lemma split_block_relink:
  "split_block blk sz H = do {
     b \<leftarrow> H blk;
     if b_size b < sz + sizeof_block + 16 then Some H
     else do {
       let rest = blk + sizeof_block + sz;
       let H = H(rest \<mapsto> \<lparr>b_magic = BLOCK_MAGIC, b_size = b_size b - sz - sizeof_block,
                          b_free = True, b_next = b_next b, b_prev = blk\<rparr>);
       b \<leftarrow> H blk;
       H \<leftarrow> relink H (b_next b) rest;
       b \<leftarrow> H blk;
       Some (H(blk \<mapsto> b\<lparr>b_next := rest, b_size := sz\<rparr>))
     }
   }"
  unfolding split_block_def relink_def by (rule refl)

lemma split_block_blocks:
  assumes H: "blocks H e pv c ((n, True) # zs) e q" and e: "e < 4294967296" "36 \<le> c"
    and k: "unat sz = k" "k \<le> n"
  shows "\<exists>H' b q'. split_block (of_nat c) sz H = Some H' \<and> H' (of_nat c) = Some b \<and>
           b_size b = of_nat (fst (hd (cut_block k n))) \<and>
           blocks (H'(of_nat c \<mapsto> b\<lparr>b_free := False\<rparr>)) e pv c (cut_block k n @ zs) e q' \<and>
           (\<forall>a. a < c \<longrightarrow> H' (of_nat a) = H (of_nat a))"
proof -
  have span: "e = c + (20 + n + span zs)" using blocks_span [OF H] by simp
  have n: "unat (of_nat n :: u32) = n" using span e by (intro unat_of_nat_exact) simp
  have sz: "sz = of_nat k" using k(1) by auto
  have small: "(of_nat n < sz + sizeof_block + 16) = (n < k + 36)"
  proof -
    have "unat (sz + sizeof_block + 16) = k + 36"
      using k span e by (simp add: word_nat sizeof_block_def)
    then show ?thesis using n by (simp add: word_less_nat_alt)
  qed
  let ?b = "\<lparr>b_magic = BLOCK_MAGIC, b_size = of_nat n, b_free = True,
     b_next = at_or_null (c + 20 + n) e, b_prev = pv\<rparr>"
  have Hc: "H (of_nat c) = Some ?b" and zs: "blocks H e (of_nat c) (c + 20 + n) zs e q"
    using H by simp_all
  show ?thesis
  proof (cases "n < k + 36")
    case True
    have "blocks (H(of_nat c \<mapsto> ?b\<lparr>b_free := False\<rparr>)) e (of_nat c) (c + 20 + n) zs e q"
      using zs span e by (subst blocks_upd_outside) auto
    with True Hc small show ?thesis
      by (auto simp: split_block_def cut_block_def)
  next
    case False
    define r where "r = c + 20 + k"
    define d where "d = c + 20 + n"
    have lt: "c < r" "r < d" "d \<le> e" "c < 4294967296" "r < 4294967296" "d < 4294967296"
      and d: "d = r + 20 + (n - k - 20)" and de: "d = e \<Longrightarrow> zs = []" and zs_e: "zs = [] \<Longrightarrow> d = e"
      using span e False by (cases zs; auto simp: r_def d_def)+
    have ne: "(of_nat r :: ptr) \<noteq> of_nat c" "(of_nat d :: ptr) \<noteq> of_nat c"
       "(of_nat d :: ptr) \<noteq> of_nat r" "(of_nat c :: ptr) \<noteq> of_nat d" "(of_nat r :: ptr) \<noteq> of_nat d"
       "(of_nat c :: ptr) \<noteq> of_nat r"
      using lt by (simp_all del: of_nat_add)
    have rest: "of_nat c + sizeof_block + sz = (of_nat r :: ptr)"
      by (simp add: r_def sz)
    let ?rb = "\<lparr>b_magic = BLOCK_MAGIC, b_size = of_nat n - sz - sizeof_block, b_free = True,
       b_next = at_or_null d e, b_prev = of_nat c\<rparr>"
    have rsz: "of_nat n - sz - sizeof_block = of_nat (n - k - 20)"
      using False by (simp add: sz sizeof_block_def of_nat_diff)
    let ?H1 = "H(of_nat r \<mapsto> ?rb)"
    have "blocks ?H1 e (of_nat c) d zs e q"
      using zs lt e by (subst blocks_upd_outside) (auto simp: d_def)
    from relink_blocks [OF this e(1), of "of_nat r"] lt
    obtain H2 q' where H2: "relink ?H1 (at_or_null d e) (of_nat r) = Some H2"
      and b2: "blocks H2 e (of_nat r) d zs e q'"
      and same: "\<And>p. p \<noteq> of_nat d \<Longrightarrow> H2 p = ?H1 p"
      by auto
    have H2c: "H2 (of_nat c) = Some ?b" using same [of "of_nat c"] ne Hc by simp
    have H2r: "H2 (of_nat r) = Some ?rb" using same [of "of_nat r"] ne by simp
    let ?H3 = "H2(of_nat c \<mapsto> ?b\<lparr>b_next := of_nat r, b_size := sz\<rparr>)"
    let ?H4 = "?H3(of_nat c \<mapsto> ?b\<lparr>b_next := of_nat r, b_size := sz, b_free := False\<rparr>)"
    have split: "split_block (of_nat c) sz H = Some ?H3"
      using False small Hc ne H2 H2c by (simp add: split_block_relink rest d_def [symmetric] Let_def del: sizeof_block_nat)
    have nr: "at_or_null r e = of_nat r" using lt by (simp add: at_or_null_def)
    have "blocks ?H4 e (of_nat r) d zs e q'"
      using b2 lt e by (simp add: blocks_upd_outside)
    then have "blocks ?H4 e pv c ((k, False) # (n - k - 20, True) # zs) e q'"
      using H2r ne nr d rsz by (simp add: r_def [symmetric] sz del: of_nat_diff)
    moreover have "\<forall>a. a < c \<longrightarrow> ?H3 (of_nat a) = H (of_nat a)"
      using same lt by auto
    ultimately show ?thesis using False split by (auto simp: cut_block_def sz)
  qed
qed

definition round8 :: "u32 \<Rightarrow> nat" where
  "round8 sz = unat ((sz + 7) AND NOT 7)"

lemma round8_exact:
  assumes "unat sz + 7 < 4294967296"
  shows "round8 sz = (unat sz + 7) div 8 * 8" "unat sz \<le> round8 sz"
proof -
  show r: "round8 sz = (unat sz + 7) div 8 * 8"
    using assms unfolding round8_def unat_round8 by (simp add: word_nat)
  show "unat sz \<le> round8 sz" unfolding r by presburger
qed

lemma heap_repD:
  assumes "heap_rep s xs"
  obtains e q where "e = 2097152 + unat (heap_size s)" "e < 4294967296" "2097152 < e"
    "heap_head s = of_nat 2097152" "heap_head s = at_or_null 2097152 e"
    "blocks (hdr s) e NULL 2097152 xs e q" "e = 2097152 + span xs"
    "unat (heap_used s) = used_bytes xs" "coalesced xs" "xs \<noteq> []"
proof -
  define e where "e = 2097152 + unat (heap_size s)"
  obtain q where q: "blocks (hdr s) e NULL 2097152 xs e q"
    using assms by (auto simp: heap_rep_def Let_def HEAP_BASE_nat e_def)
  have x: "xs \<noteq> []" using assms by (simp add: heap_rep_def Let_def)
  have sp: "e = 2097152 + span xs" using q by (rule blocks_span)
  with x have "2097152 < e" by (cases xs) auto
  then have "at_or_null 2097152 e = HEAP_BASE"
    by (simp add: at_or_null_def HEAP_BASE_nat)
  with assms q x sp e_def \<open>2097152 < e\<close> show ?thesis
    by (intro that) (simp_all add: heap_rep_def Let_def HEAP_BASE_nat)
qed

lemma kmalloc_refines:
  assumes rep: "heap_rep s xs" and "sz \<noteq> 0"
  shows "case heap_alloc (round8 sz) (unat HEAP_BASE) xs of
           None \<Rightarrow> kmalloc sz s = Some (NULL, s)
         | Some (c, xs') \<Rightarrow> \<exists>H u. kmalloc sz s = Some (of_nat (c + 20), s\<lparr>hdr := H, heap_used := u\<rparr>) \<and>
             heap_rep (s\<lparr>hdr := H, heap_used := u\<rparr>) xs'"
proof -
  from rep obtain e q where e: "e = 2097152 + unat (heap_size s)" "e < 4294967296" "2097152 < e"
    "heap_head s = of_nat 2097152" "heap_head s = at_or_null 2097152 e"
    "blocks (hdr s) e NULL 2097152 xs e q" "e = 2097152 + span xs"
    "unat (heap_used s) = used_bytes xs" "coalesced xs" "xs \<noteq> []" by (rule heap_repD)
  define w where "w = (sz + 7) AND NOT 7"
  have k: "unat w = round8 sz" by (simp add: w_def round8_def)
  have fit: "find_fit (hdr s) w (heap_head s) = Some (case heap_alloc (round8 sz) 2097152 xs of
      None \<Rightarrow> NULL | Some (c, _) \<Rightarrow> of_nat c)"
    unfolding e(5) by (rule find_fit_blocks [OF e(6,2) _ k]) simp
  show ?thesis
  proof (cases "heap_alloc (round8 sz) 2097152 xs")
    case None
    with fit show ?thesis by (simp add: kmalloc_def HEAP_BASE_nat assms(2) w_def)
  next
    case (Some p)
    then obtain c xs' where al: "heap_alloc (round8 sz) 2097152 xs = Some (c, xs')" by (cases p) auto
    from heap_alloc_Some [OF al] obtain ys n zs where
      xs: "xs = ys @ (n, True) # zs" and kn: "round8 sz \<le> n" and c: "c = 2097152 + span ys"
      and xs': "xs' = ys @ cut_block (round8 sz) n @ zs" by auto
    have lt: "c < e" "c < 4294967296" using e(2,7) c xs by auto
    have "0 < c" using c by simp
    with lt(2) have cz: "(of_nat c :: ptr) \<noteq> 0" by simp
    from e(6) xs c obtain r where pre: "blocks (hdr s) e NULL 2097152 ys c r"
      and post: "blocks (hdr s) e r c ((n, True) # zs) e q" by (auto simp only: blocks_append)
    obtain H' b q' where split: "split_block (of_nat c) w (hdr s) = Some H'" and b: "H' (of_nat c) = Some b"
      and sb: "b_size b = of_nat (fst (hd (cut_block (round8 sz) n)))"
      and bl: "blocks (H'(of_nat c \<mapsto> b\<lparr>b_free := False\<rparr>)) e r c (cut_block (round8 sz) n @ zs) e q'"
      and same: "\<forall>a. a < c \<longrightarrow> H' (of_nat a) = hdr s (of_nat a)"
      using split_block_blocks [OF post e(2) _ k kn] c by auto
    let ?H = "H'(of_nat c \<mapsto> b\<lparr>b_free := False\<rparr>)"
    let ?u = "heap_used s + (b_size b + sizeof_block)"
    have "blocks ?H e NULL 2097152 ys c r"
      using pre by (rule blocks_cong) (use same lt in auto)
    with bl c have all: "blocks ?H e NULL 2097152 xs' e q'"
      unfolding xs' blocks_append [of _ _ _ _ ys] by auto
    have km: "kmalloc sz s = Some (of_nat (c + 20), s\<lparr>hdr := ?H, heap_used := ?u\<rparr>)"
      unfolding kmalloc_def Let_def w_def [symmetric]
      using assms(2) fit al cz split b by (simp del: of_nat_add)
    have cut: "snd (hd (cut_block (round8 sz) n)) = False" "cut_block (round8 sz) n \<noteq> []"
      using cut_block_facts [OF kn] by auto
    have us: "used_bytes xs' = used_bytes xs + (20 + fst (hd (cut_block (round8 sz) n)))"
      by (auto simp: xs xs' cut_block_def)
    have sx: "span xs' = span xs"
      by (simp add: xs xs' cut_block_facts [OF kn])
    have hm: "20 + fst (hd (cut_block (round8 sz) n)) \<le> 20 + n"
      using kn by (auto simp: cut_block_def)
    have "unat ?u = used_bytes xs'"
    proof -
      have "used_bytes xs' \<le> span xs'" by (rule used_le_span)
      then have "used_bytes xs' < 4294967296" using sx e(2,7) by simp
      moreover have "unat (b_size b + sizeof_block) = 20 + fst (hd (cut_block (round8 sz) n))"
        using hm e(2,7) xs unfolding sb sizeof_block_nat
        by (subst unat_of_nat_exact) auto
      ultimately show ?thesis using e(8) us by (simp add: unat_plus_exact)
    qed
    moreover have "coalesced xs'"
      using coalesced_cut [OF _ kn, of ys zs] e(9) xs xs' by simp
    moreover have "xs' \<noteq> []" using cut xs' by simp
    ultimately have "heap_rep (s\<lparr>hdr := ?H, heap_used := ?u\<rparr>) xs'"
      using all e by (auto simp: heap_rep_def Let_def HEAP_BASE_nat)
    with km al show ?thesis by (auto simp: HEAP_BASE_nat)
  qed
qed

subsection \<open>Coalescing\<close>

definition coalesce_next :: "ptr \<Rightarrow> (ptr \<Rightarrow> block option) \<Rightarrow> (ptr \<Rightarrow> block option) option" where
  "coalesce_next blk H = do {
     b \<leftarrow> H blk;
     if b_next b \<noteq> NULL
     then do {
       n \<leftarrow> H (b_next b);
       if b_free n
       then relink (H(blk \<mapsto> b\<lparr>b_size := b_size b + (b_size n + sizeof_block), b_next := b_next n\<rparr>))
              (b_next n) blk
       else Some H
     }
     else Some H
   }"

definition coalesce_prev :: "ptr \<Rightarrow> (ptr \<Rightarrow> block option) \<Rightarrow> (ptr \<Rightarrow> block option) option" where
  "coalesce_prev blk H = do {
     b \<leftarrow> H blk;
     if b_prev b \<noteq> NULL
     then do {
       p \<leftarrow> H (b_prev b);
       if b_free p
       then relink (H(b_prev b \<mapsto> p\<lparr>b_size := b_size p + (b_size b + sizeof_block), b_next := b_next b\<rparr>))
              (b_next b) (b_prev b)
       else Some H
     }
     else Some H
   }"

lemma coalesce_halves:
  "coalesce blk H = do { H \<leftarrow> coalesce_next blk H; coalesce_prev blk H }"
proof (cases "H blk")
  case None
  then show ?thesis by (simp add: coalesce_def coalesce_next_def)
next
  case (Some b)
  then show ?thesis
    unfolding coalesce_def coalesce_next_def coalesce_prev_def relink_def Let_def by simp
qed

lemma coalesce_next_blocks:
  assumes H: "blocks H e r c ((n, True) # zs) e q" and e: "e < 4294967296" "36 \<le> c"
  shows "\<exists>H' q'. coalesce_next (of_nat c) H = Some H' \<and>
           blocks H' e r c (join_next n zs) e q' \<and> (\<forall>a. a < c \<longrightarrow> H' (of_nat a) = H (of_nat a))"
proof -
  define d where "d = c + 20 + n"
  have sp: "e = d + span zs" using blocks_span [OF H] by (simp add: d_def)
  let ?b = "\<lparr>b_magic = BLOCK_MAGIC, b_size = of_nat n, b_free = True, b_next = at_or_null d e, b_prev = r\<rparr>"
  have Hc: "H (of_nat c) = Some ?b" and zs: "blocks H e (of_nat c) d zs e q"
    using H by (simp_all add: d_def)
  have cd: "c < d" by (simp add: d_def)
  show ?thesis
  proof (cases zs)
    case Nil
    with sp Hc H show ?thesis by (auto simp: coalesce_next_def at_or_null_def join_next_def)
  next
    case (Cons z zs')
    obtain m f where z: "z = (m, f)" by (cases z)
    define g where "g = d + 20 + m"
    have ge: "g \<le> e" "d < e" "d < g" using sp Cons z by (auto simp: g_def)
    then have nd: "at_or_null d e = of_nat d" "(of_nat d :: ptr) \<noteq> 0" "(of_nat c :: ptr) \<noteq> of_nat d"
      using cd e by (auto simp: at_or_null_def simp del: of_nat_add)
    have Hd: "H (of_nat d) = Some \<lparr>b_magic = BLOCK_MAGIC, b_size = of_nat m, b_free = f,
        b_next = at_or_null g e, b_prev = of_nat c\<rparr>"
      and zs': "blocks H e (of_nat d) g zs' e q"
      using zs Cons z by (simp_all add: g_def)
    show ?thesis
    proof (cases f)
      case False
      then show ?thesis
        using Hc nd Hd H Cons z by (auto simp: coalesce_next_def join_next_def)
    next
      case True
      let ?H1 = "H(of_nat c \<mapsto> ?b\<lparr>b_size := of_nat n + (of_nat m + sizeof_block), b_next := at_or_null g e\<rparr>)"
      have "blocks ?H1 e (of_nat d) g zs' e q"
        using zs' cd ge e by (subst blocks_upd_outside) auto
      from relink_blocks [OF this e(1), of "of_nat c"] ge
      obtain H2 q' where H2: "relink ?H1 (at_or_null g e) (of_nat c) = Some H2"
        and b2: "blocks H2 e (of_nat c) g zs' e q'"
        and same: "\<And>p. p \<noteq> of_nat g \<Longrightarrow> H2 p = ?H1 p" by auto
      have lt: "c < g" "c < 4294967296" "g < 4294967296" using cd ge e by auto
      then have "H2 (of_nat c) = ?H1 (of_nat c)" by (intro same) (simp del: of_nat_add)
      moreover have "c + 20 + (n + (m + 20)) = g" by (simp add: g_def d_def)
      ultimately have "blocks H2 e r c ((n + (m + 20), True) # zs') e q'"
        using b2 by (simp add: sizeof_block_def)
      moreover have "\<forall>a. a < c \<longrightarrow> H2 (of_nat a) = H (of_nat a)"
        using lt by (auto simp: same)
      moreover have "coalesce_next (of_nat c) H = Some H2"
        using Hc nd Hd True H2 by (simp add: coalesce_next_def)
      ultimately show ?thesis using Cons z True by (auto simp: join_next_def)
    qed
  qed
qed

lemma blocks_snoc_last:
  assumes "blocks H e pv a (us @ [x]) c r"
  shows "r = of_nat (a + span us)" "c = a + span us + 20 + fst x"
    "\<exists>r'. blocks H e pv a us (a + span us) r' \<and> H r = Some \<lparr>b_magic = BLOCK_MAGIC, b_size = of_nat (fst x),
       b_free = snd x, b_next = at_or_null c e, b_prev = r'\<rparr>"
  using assms by (auto simp: blocks_append simp del: of_nat_add)

lemma coalesce_prev_blocks:
  assumes pre: "blocks H e NULL B ys c r" and post: "blocks H e r c ((n, True) # zs) e q"
    and e: "e < 4294967296" "36 \<le> B"
  shows "\<exists>H' q'. coalesce_prev (of_nat c) H = Some H' \<and>
           blocks H' e NULL B (join_prev ys ((n, True) # zs)) e q' \<and> H' (of_nat c) = H (of_nat c)"
proof -
  define d where "d = c + 20 + n"
  have sp: "e = d + span zs" using blocks_span [OF post] by (simp add: d_def)
  have c: "c = B + span ys" using pre by (rule blocks_span)
  have Hc: "H (of_nat c) = Some \<lparr>b_magic = BLOCK_MAGIC, b_size = of_nat n, b_free = True,
      b_next = at_or_null d e, b_prev = r\<rparr>" and zs: "blocks H e (of_nat c) d zs e q"
    using post by (simp_all add: d_def)
  have whole: "blocks H e NULL B (ys @ (n, True) # zs) e q"
    unfolding blocks_append [of _ _ _ _ ys] c [symmetric] using pre post by blast
  show ?thesis
  proof (cases "ys = []")
    case True
    then have "r = NULL" using pre by simp
    with Hc True whole show ?thesis by (auto simp: coalesce_prev_def join_prev_def)
  next
    case False
    then obtain us m f where ys: "ys = us @ [(m, f)]"
      by (metis append_butlast_last_id prod.collapse)
    define p where "p = B + span us"
    obtain r' where r: "r = of_nat p" and cp: "c = p + 20 + m"
      and us: "blocks H e NULL B us p r'"
      and Hr: "H r = Some \<lparr>b_magic = BLOCK_MAGIC, b_size = of_nat m, b_free = f,
         b_next = at_or_null c e, b_prev = r'\<rparr>"
      using blocks_snoc_last [OF pre [unfolded ys]] by (auto simp: p_def)
    have lt: "B \<le> p" "p < c" "c < d" "d \<le> e" "p < d" "p < e" using cp sp by (auto simp: p_def d_def)
    then have r0: "r \<noteq> 0" using r e by (simp del: of_nat_add)
    show ?thesis
    proof (cases f)
      case False
      with Hc r0 Hr whole ys show ?thesis by (auto simp: coalesce_prev_def join_prev_def)
    next
      case True
      let ?H1 = "H(r \<mapsto> \<lparr>b_magic = BLOCK_MAGIC, b_size = of_nat m + (of_nat n + sizeof_block),
         b_free = f, b_next = at_or_null d e, b_prev = r'\<rparr>)"
      have "blocks ?H1 e (of_nat c) d zs e q"
        unfolding r using zs lt e by (subst blocks_upd_outside) auto
      from relink_blocks [OF this e(1), of r] lt e(2)
      obtain H2 q' where H2: "relink ?H1 (at_or_null d e) r = Some H2"
        and b2: "blocks H2 e r d zs e q'"
        and same: "\<And>x. x \<noteq> of_nat d \<Longrightarrow> H2 x = ?H1 x" by auto
      have "r \<noteq> of_nat d" unfolding r using lt e by (simp del: of_nat_add)
      then have "H2 r = ?H1 r" by (rule same)
      moreover have "p + 20 + (m + (n + 20)) = d" by (simp add: d_def cp)
      ultimately have tl: "blocks H2 e r' p ((m + (n + 20), True) # zs) e q'"
        using b2 r True by (simp add: sizeof_block_def)
      have "blocks ?H1 e NULL B us p r'"
        unfolding r using us lt e by (subst blocks_upd_outside) auto
      then have "blocks H2 e NULL B us p r'"
        by (rule blocks_cong) (use same lt e in auto)
      with tl have "blocks H2 e NULL B (us @ (m + (n + 20), True) # zs) e q'"
        unfolding blocks_append p_def by blast
      moreover have "coalesce_prev (of_nat c) H = Some H2"
        using Hc r0 Hr True H2 by (simp add: coalesce_prev_def)
      moreover have "H2 (of_nat c) = H (of_nat c)"
        using lt e unfolding r by (subst same) (simp_all add: r del: of_nat_add)
      ultimately show ?thesis using ys True by (auto simp: join_prev_def)
    qed
  qed
qed

text \<open>Freeing a used block releases exactly that block and merges it with its free neighbours.\<close>

lemma kfree_refines:
  assumes rep: "heap_rep s (ys @ (n, False) # zs)" and "c = unat HEAP_BASE + span ys"
  shows "\<exists>H u. kfree (of_nat (c + 20)) s = Some (Inr (s\<lparr>hdr := H, heap_used := u\<rparr>)) \<and>
           heap_rep (s\<lparr>hdr := H, heap_used := u\<rparr>) (heap_free ys n zs) \<and>
           (\<exists>b. H (of_nat c) = Some b \<and> b_free b \<and> b_magic b = BLOCK_MAGIC)"
proof -
  let ?xs = "ys @ (n, False) # zs"
  from rep obtain e q where e: "e = 2097152 + unat (heap_size s)" "e < 4294967296" "2097152 < e"
    "heap_head s = of_nat 2097152" "blocks (hdr s) e NULL 2097152 ?xs e q" "e = 2097152 + span ?xs"
    "unat (heap_used s) = used_bytes ?xs" "coalesced ?xs" by (rule heap_repD)
  have c_def: "c = 2097152 + span ys" using assms(2) by (simp add: HEAP_BASE_nat)
  define p where "p = c + 20"
  have lt: "c < e" "p < 4294967296" "c < 4294967296" "0 < p" using e by (auto simp: c_def p_def)
  from e(5) obtain r where pre: "blocks (hdr s) e NULL 2097152 ys c r"
    and post: "blocks (hdr s) e r c ((n, False) # zs) e q" by (auto simp only: blocks_append c_def)
  have pb: "(of_nat p :: ptr) - sizeof_block = of_nat c" "(of_nat p :: ptr) \<noteq> 0"
    using lt(2,4) by (simp_all, simp add: p_def sizeof_block_def)
  let ?b = "\<lparr>b_magic = BLOCK_MAGIC, b_size = of_nat n, b_free = False,
      b_next = at_or_null (c + 20 + n) e, b_prev = r\<rparr>"
  have Hc: "hdr s (of_nat c) = Some ?b" using post by simp
  let ?H = "(hdr s)(of_nat c \<mapsto> ?b\<lparr>b_free := True\<rparr>)"
  have "blocks ?H e (of_nat c) (c + 20 + n) zs e q"
    using post lt(3) e(2) by (subst blocks_upd_outside) simp_all
  then have post': "blocks ?H e r c ((n, True) # zs) e q" by simp
  have pre': "blocks ?H e NULL 2097152 ys c r"
    using pre lt by (subst blocks_upd_outside) auto
  from coalesce_next_blocks [OF post' e(2)] obtain H1 q1 where
    H1: "coalesce_next (of_nat c) ?H = Some H1" "blocks H1 e r c (join_next n zs) e q1"
    "\<forall>a. a < c \<longrightarrow> H1 (of_nat a) = ?H (of_nat a)" by (auto simp: c_def)
  have pre1: "blocks H1 e NULL 2097152 ys c r"
    using pre' by (rule blocks_cong) (use H1(3) in auto)
  obtain m zs' where jn: "join_next n zs = (m, True) # zs'"
    using join_next_facts [of n zs] by (cases "join_next n zs") auto
  from coalesce_prev_blocks [OF pre1 H1(2) [unfolded jn] e(2)] obtain H2 q2 where
    H2: "coalesce_prev (of_nat c) H1 = Some H2" "blocks H2 e NULL 2097152 (heap_free ys n zs) e q2"
    and H2c: "H2 (of_nat c) = H1 (of_nat c)"
    by (auto simp: heap_free_def jn)
  have stale: "\<exists>b. H2 (of_nat c) = Some b \<and> b_free b \<and> b_magic b = BLOCK_MAGIC"
    using H1(2) by (simp add: H2c jn)
  let ?u = "heap_used s - (of_nat n + sizeof_block)"
  have kf: "kfree (of_nat p) s = Some (Inr (s\<lparr>hdr := H2, heap_used := ?u\<rparr>))"
    using pb Hc H1 H2 by (simp add: kfree_def coalesce_halves Let_def del: sizeof_block_nat)
  have ub: "used_bytes (heap_free ys n zs) + (20 + n) = used_bytes ?xs"
    by (rule heap_free_facts)
  have "unat (of_nat n + sizeof_block) = 20 + n"
    using e unfolding sizeof_block_nat by (subst unat_of_nat_exact) auto
  then have "unat ?u = used_bytes (heap_free ys n zs)"
    using ub e(7) by (simp add: unat_minus_exact)
  moreover have "span (heap_free ys n zs) = span ?xs" by (rule heap_free_facts)
  then have "heap_free ys n zs \<noteq> []" by auto
  moreover have "coalesced (heap_free ys n zs)" using e(8) by (rule heap_free_facts)
  ultimately have "heap_rep (s\<lparr>hdr := H2, heap_used := ?u\<rparr>) (heap_free ys n zs)"
    using H2(2) e by (auto simp: heap_rep_def Let_def HEAP_BASE_nat)
  then show ?thesis using kf stale by (auto simp: p_def)
qed

section \<open>The allocator interface\<close>

text \<open>
  What the clients of the heap (the file tree, the scheduler) rely on.  \<open>holds s L\<close>: the
  heap of \<open>s\<close> is well formed and \<open>L\<close> maps the address of every live allocation to its size;
  \<open>frame s s'\<close>: only the allocator's own fields differ.
\<close>

locale allocator =
  fixes holds :: "'s \<Rightarrow> (ptr \<Rightarrow> nat option) \<Rightarrow> bool"
    and frame :: "'s \<Rightarrow> 's \<Rightarrow> bool"
    and alloc :: "u32 \<Rightarrow> 's \<Rightarrow> (ptr \<times> 's) option"
    and release :: "ptr \<Rightarrow> 's \<Rightarrow> (string + 's) option"
  assumes frame_refl: "frame s s"
    and frame_trans: "frame s t \<Longrightarrow> frame t u \<Longrightarrow> frame s u"
    and alloc_law: "holds s L \<Longrightarrow> unat n + 7 < 4294967296 \<Longrightarrow>
      \<exists>p s'. alloc n s = Some (p, s') \<and> frame s s' \<and>
        (if p = NULL then s' = s
         else L p = None \<and> (\<exists>k\<ge>unat n. holds s' (L(p \<mapsto> k))))"
    and release_law: "holds s L \<Longrightarrow> L p = Some k \<Longrightarrow>
      \<exists>s'. release p s = Some (Inr s') \<and> frame s s' \<and> holds s' (L(p := None))"
    and null_not_live: "holds s L \<Longrightarrow> L NULL = None"
    and finite_live: "holds s L \<Longrightarrow> finite (dom L)"
    and disjoint_live: "holds s L \<Longrightarrow> L p = Some j \<Longrightarrow> L q = Some k \<Longrightarrow> p \<noteq> q \<Longrightarrow>
      unat p + j \<le> unat q \<or> unat q + k \<le> unat p"
begin

primrec release_all :: "ptr list \<Rightarrow> 's \<Rightarrow> 's option" where
  "release_all [] s = Some s"
| "release_all (p # ps) s =
     (case release p s of Some (Inr s') \<Rightarrow> release_all ps s' | _ \<Rightarrow> None)"

text \<open>Any set of live allocations can be released, in any order, and nothing else is.\<close>

lemma release_all_live:
  assumes "holds s L" "distinct ps" "set ps \<subseteq> dom L"
  shows "\<exists>s'. release_all ps s = Some s' \<and> frame s s' \<and> holds s' (L |` (- set ps))"
  using assms
proof (induction ps arbitrary: s L)
  case Nil
  then show ?case by (simp add: frame_refl)
next
  case (Cons p ps)
  then obtain k where "L p = Some k" by auto
  from release_law [OF Cons.prems(1) this] obtain s1 where
    s1: "release p s = Some (Inr s1)" "frame s s1" "holds s1 (L(p := None))" by blast
  have "\<exists>s'. release_all ps s1 = Some s' \<and> frame s1 s' \<and> holds s' (L(p := None) |` (- set ps))"
  proof (rule Cons.IH)
    show "set ps \<subseteq> dom (L(p := None))" using Cons.prems by auto
  qed (fact s1(3), use Cons.prems(2) in simp)
  moreover have "L(p := None) |` (- set ps) = L |` (- set (p # ps))"
    by (auto simp: restrict_map_def)
  ultimately show ?case using s1 frame_trans by (metis (no_types) option.case(2)
    release_all.simps(2) sum.case(2))
qed

text \<open>A released allocation can be released only once; others stay live.\<close>

lemma release_keeps_others:
  assumes "holds s L" "L p = Some k" "L q = Some j" "p \<noteq> q"
  shows "\<exists>s' L'. release p s = Some (Inr s') \<and> holds s' L' \<and> L' q = Some j \<and> L' p = None"
proof -
  from release_law [OF assms(1,2)] obtain s' where
    "release p s = Some (Inr s')" "holds s' (L(p := None))" by blast
  with assms(3,4) show ?thesis by (intro exI [of _ s'] exI [of _ "L(p := None)"]) auto
qed

end

definition mem_holds :: "'a mem_state_scheme \<Rightarrow> (ptr \<Rightarrow> nat option) \<Rightarrow> bool" where
  "mem_holds s L \<longleftrightarrow> (\<exists>xs. heap_rep s xs \<and> L = live_of (unat HEAP_BASE) xs)"

definition mem_frame :: "'a mem_state_scheme \<Rightarrow> 'a mem_state_scheme \<Rightarrow> bool" where
  "mem_frame s s' \<longleftrightarrow> (\<exists>H u. s' = s\<lparr>hdr := H, heap_used := u\<rparr>)"

lemma mem_frame_refl: "mem_frame s s"
  unfolding mem_frame_def by (intro exI [of _ "hdr s"] exI [of _ "heap_used s"]) simp

lemma mem_frame_trans: "mem_frame s t \<Longrightarrow> mem_frame t u \<Longrightarrow> mem_frame s u"
  by (auto simp: mem_frame_def) metis

lemma live_of_Some:
  "live_of a xs p = Some k \<Longrightarrow> \<exists>ys zs. xs = ys @ (k, False) # zs \<and> p = of_nat (a + span ys + 20)"
proof (induction xs arbitrary: a)
  case Nil
  then show ?case by simp
next
  case (Cons x xs)
  show ?case
  proof (cases "\<not> snd x \<and> p = of_nat (a + 20)")
    case True
    with Cons.prems have "x = (k, False)" by (auto simp: prod_eq_iff)
    with True have "x # xs = [] @ (k, False) # xs \<and> p = of_nat (a + span [] + 20)" by simp
    then show ?thesis by blast
  next
    case False
    with Cons.prems have "live_of (a + 20 + fst x) xs p = Some k" by (auto split: if_splits)
    from Cons.IH [OF this] obtain ys zs where
      "xs = ys @ (k, False) # zs" "p = of_nat (a + 20 + fst x + span ys + 20)" by blast
    then have "x # xs = (x # ys) @ (k, False) # zs \<and> p = of_nat (a + span (x # ys) + 20)"
      by (simp add: algebra_simps)
    then show ?thesis by blast
  qed
qed

lemma live_of_append: "live_of a (xs @ ys) = live_of (a + span xs) ys ++ live_of a xs"
  by (induction xs arbitrary: a) (simp_all add: add.assoc)

text \<open>Addresses are not reused inside a heap that fits the address space.\<close>

lemma live_of_outside:
  assumes "b < a + 20 \<or> a + span xs < b" "b < 4294967296" "a + span xs < 4294967296"
  shows "live_of a xs (of_nat b) = None"
proof (rule ccontr)
  assume "live_of a xs (of_nat b) \<noteq> None"
  then obtain k where "live_of a xs (of_nat b) = Some k" by auto
  then obtain ys zs where *: "xs = ys @ (k, False) # zs" "(of_nat b :: ptr) = of_nat (a + span ys + 20)"
    using live_of_Some by blast
  then have "b = a + span ys + 20"
    using assms by (subst (asm) of_nat_u32_inject) auto
  with * assms show False by auto
qed

lemma live_of_middle:
  assumes "a + span (ys @ (n, False) # zs) < 4294967296"
  shows "live_of a (ys @ (n, False) # zs) (of_nat (a + span ys + 20)) = Some n"
proof -
  have "live_of a ys (of_nat (a + span ys + 20)) = None"
    using assms by (intro live_of_outside) auto
  moreover have "live_of (a + span ys) ((n, False) # zs) (of_nat (a + span ys + 20)) = Some n"
    by (simp del: of_nat_add)
  ultimately show ?thesis by (simp only: live_of_append map_add_def) simp
qed

lemma live_of_alloc:
  assumes "heap_alloc k a xs = Some (c, xs')" "a + span xs < 4294967296"
  shows "\<exists>j\<ge>k. live_of a xs' = (live_of a xs)(of_nat (c + 20) \<mapsto> j) \<and>
           live_of a xs (of_nat (c + 20)) = None"
proof -
  from heap_alloc_Some [OF assms(1)] obtain ys n zs where
    xs: "xs = ys @ (n, True) # zs" "k \<le> n" "c = a + span ys" "xs' = ys @ cut_block k n @ zs" by auto
  define j where "j = (if n < k + 36 then n else k)"
  have j: "k \<le> j" using xs(2) by (simp add: j_def)
  have cut: "live_of c (cut_block k n @ zs) = (live_of (c + 20 + n) zs)(of_nat (c + 20) \<mapsto> j)"
    using xs(2) by (auto simp: cut_block_def j_def algebra_simps)
  have "live_of a ys (of_nat (c + 20)) = None" "live_of (c + 20 + n) zs (of_nat (c + 20)) = None"
    using assms(2) xs by (intro live_of_outside; simp)+
  moreover from this have "live_of a xs' = (live_of a xs)(of_nat (c + 20) \<mapsto> j)"
    unfolding xs(1,4) live_of_append [of a ys] xs(3) [symmetric] cut
    by (auto simp: fun_eq_iff map_add_def split: option.split)
  ultimately show ?thesis using j
    unfolding xs(1) live_of_append [of a ys] xs(3) [symmetric]
    by (intro exI [of _ j]) (auto simp: map_add_def algebra_simps)
qed

lemma live_of_free:
  assumes "a + span (ys @ (n, False) # zs) < 4294967296"
  shows "live_of a (heap_free ys n zs) =
           (live_of a (ys @ (n, False) # zs))(of_nat (a + span ys + 20) := None)"
proof -
  let ?p = "of_nat (a + span ys + 20) :: ptr"
  define b where "b = a + span ys"
  have out: "live_of a ys ?p = None" "live_of (b + 20 + n) zs ?p = None"
    using assms by (intro live_of_outside; simp add: b_def)+
  have jn: "live_of b (join_next n zs) = live_of (b + 20 + n) zs"
    by (auto simp: join_next_def algebra_simps split: list.split bool.split)
  have "live_of a (join_prev ys (join_next n zs)) = live_of (b + 20 + n) zs ++ live_of a ys"
  proof (cases "ys \<noteq> [] \<and> snd (last ys)")
    case True
    then obtain us m where ys: "ys = us @ [(m, True)]"
      by (metis append_butlast_last_id prod.collapse)
    obtain h t where ht: "join_next n zs = (h, True) # t"
      using join_next_facts [of n zs] by (cases "join_next n zs") auto
    have "live_of (b + 20 + h) t = live_of (b + 20 + n) zs" using jn ht by simp
    then show ?thesis
      by (simp add: join_prev_def ys ht live_of_append b_def algebra_simps)
  next
    case False
    then show ?thesis by (auto simp: join_prev_def live_of_append jn [unfolded b_def] b_def)
  qed
  then show ?thesis
    using out unfolding heap_free_def live_of_append b_def [symmetric]
    by (auto simp: fun_eq_iff map_add_def b_def algebra_simps split: option.split)
qed

lemma heap_rep_span: "heap_rep s xs \<Longrightarrow> unat HEAP_BASE + span xs < 4294967296"
  by (erule heap_repD) (simp add: HEAP_BASE_nat)

lemma finite_live_of: "finite (dom (live_of a xs))"
  by (induction xs arbitrary: a) auto

lemma kmalloc_alloc_law:
  assumes "mem_holds s L" "unat n + 7 < 4294967296"
  shows "\<exists>p s'. kmalloc n s = Some (p, s') \<and> mem_frame s s' \<and>
    (if p = NULL then s' = s else L p = None \<and> (\<exists>k\<ge>unat n. mem_holds s' (L(p \<mapsto> k))))"
proof (cases "n = 0")
  case True
  then show ?thesis by (simp add: kmalloc_def mem_frame_refl)
next
  case False
  obtain xs where rep: "heap_rep s xs" and L: "L = live_of (unat HEAP_BASE) xs"
    using assms(1) by (auto simp: mem_holds_def)
  show ?thesis
  proof (cases "heap_alloc (round8 n) (unat HEAP_BASE) xs")
    case None
    with kmalloc_refines [OF rep False] show ?thesis by (simp add: mem_frame_refl)
  next
    case (Some cx)
    then obtain c xs' where al: "heap_alloc (round8 n) (unat HEAP_BASE) xs = Some (c, xs')"
      by (cases cx) auto
    with kmalloc_refines [OF rep False] obtain H u where
      km: "kmalloc n s = Some (of_nat (c + 20), s\<lparr>hdr := H, heap_used := u\<rparr>)"
      "heap_rep (s\<lparr>hdr := H, heap_used := u\<rparr>) xs'" by auto
    obtain j where j: "round8 n \<le> j" "live_of (unat HEAP_BASE) xs' = L(of_nat (c + 20) \<mapsto> j)"
      "L (of_nat (c + 20)) = None"
      using live_of_alloc [OF al heap_rep_span [OF rep]] L by auto
    define p where "p = c + 20"
    have p: "0 < p" "p < 4294967296"
      using heap_alloc_Some [OF al] heap_rep_span [OF rep] by (auto simp: p_def)
    have nz: "(of_nat p :: ptr) \<noteq> 0" using p by simp
    have "unat n \<le> j" using round8_exact(2) [OF assms(2)] j(1) by simp
    moreover have "mem_holds (s\<lparr>hdr := H, heap_used := u\<rparr>) (L(of_nat p \<mapsto> j))"
      using km(2) j(2) by (auto simp: mem_holds_def p_def)
    moreover have "mem_frame s (s\<lparr>hdr := H, heap_used := u\<rparr>)" by (auto simp: mem_frame_def)
    ultimately show ?thesis using km(1) j(3) nz unfolding p_def by metis
  qed
qed

lemma kfree_release_law:
  assumes "mem_holds s L" "L p = Some k"
  shows "\<exists>s'. kfree p s = Some (Inr s') \<and> mem_frame s s' \<and> mem_holds s' (L(p := None))"
proof -
  obtain xs where rep: "heap_rep s xs" and L: "L = live_of (unat HEAP_BASE) xs"
    using assms(1) by (auto simp: mem_holds_def)
  from assms(2) L obtain ys zs where xs: "xs = ys @ (k, False) # zs"
    and p: "p = of_nat (unat HEAP_BASE + span ys + 20)" using live_of_Some by blast
  from kfree_refines [OF rep [unfolded xs] refl] obtain H u where
    kf: "kfree p s = Some (Inr (s\<lparr>hdr := H, heap_used := u\<rparr>))"
    "heap_rep (s\<lparr>hdr := H, heap_used := u\<rparr>) (heap_free ys k zs)" unfolding p by blast
  have "live_of (unat HEAP_BASE) (heap_free ys k zs) = L(p := None)"
    unfolding L xs p using heap_rep_span [OF rep] xs by (intro live_of_free) simp
  then have "mem_holds (s\<lparr>hdr := H, heap_used := u\<rparr>) (L(p := None))"
    using kf(2) by (auto simp: mem_holds_def)
  with kf(1) show ?thesis by (auto simp: mem_frame_def)
qed

lemma live_disjoint:
  assumes "mem_holds s L" "L p = Some j" "L q = Some k" "p \<noteq> q"
  shows "unat p + j \<le> unat q \<or> unat q + k \<le> unat p"
proof -
  obtain xs where rep: "heap_rep s xs" and L: "L = live_of (unat HEAP_BASE) xs"
    using assms(1) by (auto simp: mem_holds_def)
  let ?B = "unat HEAP_BASE"
  from assms(2,3) L obtain ys zs ys' zs' where
    p: "xs = ys @ (j, False) # zs" "p = of_nat (?B + span ys + 20)" and
    q: "xs = ys' @ (k, False) # zs'" "q = of_nat (?B + span ys' + 20)" using live_of_Some by metis
  have lt: "?B + span xs < 4294967296" using rep by (rule heap_rep_span)
  have "unat p = ?B + span ys + 20"
    unfolding p(2) using lt [unfolded p(1)] by (intro unat_of_nat_exact) simp
  moreover have "unat q = ?B + span ys' + 20"
    unfolding q(2) using lt [unfolded q(1)] by (intro unat_of_nat_exact) simp
  ultimately have up: "unat p = ?B + span ys + 20" "unat q = ?B + span ys' + 20" .
  from p(1) q(1) have "ys @ (j, False) # zs = ys' @ (k, False) # zs'" by simp
  then consider "\<exists>us. ys' = ys @ (j, False) # us" | "\<exists>us. ys = ys' @ (k, False) # us" | "ys = ys'"
    by (auto simp: append_eq_append_conv2 append_eq_Cons_conv Cons_eq_append_conv)
  then show ?thesis using up assms(4) p(2) q(2) by cases auto
qed

lemma live_null:
  assumes "mem_holds s L" shows "L NULL = None"
proof (rule ccontr)
  assume "L NULL \<noteq> None"
  then obtain k where "L NULL = Some k" by auto
  obtain xs where rep: "heap_rep s xs" and L: "L = live_of (unat HEAP_BASE) xs"
    using assms(1) by (auto simp: mem_holds_def)
  with \<open>L NULL = Some k\<close> obtain ys zs where xs: "xs = ys @ (k, False) # zs"
    and p: "NULL = of_nat (unat HEAP_BASE + span ys + 20)" using live_of_Some by blast
  define c where "c = unat HEAP_BASE + span ys + 20"
  have "0 < c" "c < 4294967296" using heap_rep_span [OF rep] xs by (auto simp: c_def)
  then have "(of_nat c :: ptr) \<noteq> 0" by simp
  with p show False by (simp add: c_def)
qed

interpretation kheap: allocator mem_holds mem_frame kmalloc kfree
proof unfold_locales
  show "mem_holds s L \<Longrightarrow> finite (dom L)" for s :: "'a mem_state_scheme" and L
    by (auto simp: mem_holds_def finite_live_of)
qed (fact mem_frame_refl mem_frame_trans kmalloc_alloc_law kfree_release_law live_null live_disjoint)+

section \<open>Properties\<close>

text \<open>A machine with the smallest heap, used to show that hypotheses can hold.\<close>

definition boot_mem :: mem_state where
  "boot_mem = \<lparr>regions = [], region_count = 0, total_usable = 0,
     hdr = [HEAP_BASE \<mapsto> \<lparr>b_magic = BLOCK_MAGIC, b_size = HEAP_MIN_SIZE - sizeof_block, b_free = True,
        b_next = NULL, b_prev = NULL\<rparr>],
     heap_head = HEAP_BASE, heap_size = HEAP_MIN_SIZE, heap_used = 0\<rparr>"

lemma boot_mem_rep: "heap_rep boot_mem [(1048556, True)]"
  by (simp add: heap_rep_def boot_mem_def HEAP_BASE_def HEAP_MIN_SIZE_def sizeof_block_def
      Let_def at_or_null_def)

lemma boot_mem_holds: "mem_holds boot_mem Map.empty"
  unfolding mem_holds_def by (intro exI [of _ "[(1048556, True)]"] conjI boot_mem_rep) simp

lemma usable_heap_size_le: "unat (usable_heap_size rs) \<le> 33554432"
proof (induction rs)
  case Nil
  then show ?case by (simp add: HEAP_MIN_SIZE_def)
next
  case (Cons r rs)
  have trunc: "unat (ucast w :: u32) \<le> unat w" for w :: u64
    by (simp add: unsigned_ucast_eq take_bit_eq_mod)
  have "\<not> (w > ucast HEAP_MAX_SIZE) \<Longrightarrow> unat (ucast w :: u32) \<le> 33554432" for w :: u64
    using trunc [of w] by (simp add: HEAP_MAX_SIZE_def word_less_nat_alt)
  with Cons show ?case by (auto simp: Let_def HEAP_MAX_SIZE_def)
qed

lemma mem_init_ok:
  assumes "mem_init count src s = Some s'"
  shows "1048576 \<le> unat (heap_size s') \<and> unat (heap_size s') \<le> 33554432 \<and>
    heap_rep s' [(unat (heap_size s') - 20, True)] \<and> mem_holds s' Map.empty \<and>
    mem_heap_free s' = heap_size s'"
proof -
  define sz where "sz = usable_heap_size (regions (read_memory_map count src s))"
  have hi: "unat sz \<le> 33554432" unfolding sz_def by (rule usable_heap_size_le)
  from assms have lo: "1048576 \<le> unat sz"
    by (auto simp: mem_init_def sz_def Let_def HEAP_MIN_SIZE_def word_less_nat_alt split: if_splits)
  have "sz - 20 = of_nat (unat sz - 20)" using lo by (simp add: of_nat_diff)
  moreover have s': "heap_size s' = sz" "heap_head s' = HEAP_BASE" "heap_used s' = 0"
    "hdr s' HEAP_BASE = Some \<lparr>b_magic = BLOCK_MAGIC, b_size = sz - 20, b_free = True,
       b_next = NULL, b_prev = NULL\<rparr>"
    using assms by (auto simp: mem_init_def Let_def sz_def sizeof_block_def split: if_splits)
  ultimately have "heap_rep s' [(unat sz - 20, True)]"
    using lo hi by (simp add: heap_rep_def Let_def HEAP_BASE_def at_or_null_def)
  moreover from this have "mem_holds s' Map.empty"
    unfolding mem_holds_def by (intro exI conjI) (assumption, simp)
  ultimately show ?thesis using lo hi s' by (simp add: mem_heap_free_def)
qed

text \<open>Property C9: \<open>mem_init\<close> either panics for lack of memory or sets up a heap of between 1
  and 32 MiB that is one free block, with nothing allocated.\<close>

theorem mem_init_heap:
  assumes "mem_init count src s = Some s'"
  shows "1048576 \<le> unat (heap_size s') \<and> unat (heap_size s') \<le> 33554432 \<and>
    heap_rep s' [(unat (heap_size s') - 20, True)] \<and> mem_holds s' Map.empty \<and>
    mem_heap_free s' = heap_size s'"
  by (rule mem_init_ok [OF assms])

theorem mem_init_heap_witness:
  "\<exists>s'. mem_init 1 (\<lambda>_. \<lparr>e_base = 0, e_length = 0x1000000, e_type = 1, e_acpi = 0\<rparr>) boot_mem = Some s' \<and>
     heap_rep s' [(unat (heap_size s') - 20, True)]"
proof -
  let ?src = "\<lambda>_. \<lparr>e_base = 0, e_length = 0x1000000, e_type = 1, e_acpi = 0\<rparr>"
  have "mem_init 1 ?src boot_mem \<noteq> None"
    by (simp add: mem_init_def read_memory_map_def Let_def E820_MAX_def E820_TYPE_USABLE_def
        HEAP_BASE_def HEAP_MAX_SIZE_def HEAP_MIN_SIZE_def)
  then obtain s' where "mem_init 1 ?src boot_mem = Some s'" by auto
  with mem_init_heap [OF this] show ?thesis by auto
qed

text \<open>Property C6: on every well-formed heap \<open>kmalloc\<close> returns, and does what first fit on the
  list of blocks does: NULL and no change if no free block has the rounded size, else the
  payload of the first one that has, split when the rest can hold a block of its own.\<close>

theorem kmalloc_first_fit:
  assumes "heap_rep s xs" "sz \<noteq> 0"
  shows "case heap_alloc (round8 sz) (unat HEAP_BASE) xs of
           None \<Rightarrow> kmalloc sz s = Some (NULL, s)
         | Some (c, xs') \<Rightarrow> \<exists>s'. kmalloc sz s = Some (of_nat (c + 20), s') \<and> heap_rep s' xs'"
  using kmalloc_refines [OF assms] by (auto split: option.splits)

theorem kmalloc_first_fit_witness:
  "\<exists>s'. kmalloc 100 boot_mem = Some (0x200014, s') \<and>
     heap_rep s' [(104, False), (1048432, True)]"
proof -
  have "round8 100 = 104" by (subst round8_exact) simp_all
  then show ?thesis
    using kmalloc_first_fit [OF boot_mem_rep, of 100]
    by (simp add: HEAP_BASE_nat cut_block_def)
qed

text \<open>Property C8: \<open>kfree\<close> of an allocated block never panics; it frees exactly that block,
  merges it with a free block on either side, and the heap stays fully coalesced.\<close>

theorem kfree_coalesces:
  assumes "heap_rep s (ys @ (n, False) # zs)"
  shows "\<exists>s'. kfree (of_nat (unat HEAP_BASE + span ys + 20)) s = Some (Inr s') \<and>
     heap_rep s' (heap_free ys n zs) \<and> coalesced (heap_free ys n zs) \<and>
     unat (heap_used s) = unat (heap_used s') + (n + 20)"
proof -
  from kfree_refines [OF assms refl] obtain H u where
    k: "kfree (of_nat (unat HEAP_BASE + span ys + 20)) s = Some (Inr (s\<lparr>hdr := H, heap_used := u\<rparr>))"
    and r: "heap_rep (s\<lparr>hdr := H, heap_used := u\<rparr>) (heap_free ys n zs)" by blast
  have "unat (heap_used s) = used_bytes (ys @ (n, False) # zs)"
    using assms by (rule heap_repD)
  moreover have "unat u = used_bytes (heap_free ys n zs)" "coalesced (heap_free ys n zs)"
    using r by (rule heap_repD, simp)+
  ultimately show ?thesis using k r heap_free_facts(2) [of ys n zs] by auto
qed

theorem kfree_coalesces_witness:
  "\<exists>(s :: mem_state) s'. heap_rep s [(104, False), (1048432, True)] \<and> kfree 0x200014 s = Some (Inr s') \<and>
     heap_rep s' [(1048556, True)]"
proof -
  have "round8 100 = 104" by (subst round8_exact) simp_all
  then obtain s :: mem_state where s: "heap_rep s [(104, False), (1048432, True)]"
    using kmalloc_refines [OF boot_mem_rep, of 100]
    by (auto simp: HEAP_BASE_nat cut_block_def)
  with kfree_coalesces [of s "[]" 104 "[(1048432, True)]"] show ?thesis
    by (auto simp: HEAP_BASE_nat heap_free_def join_next_def join_prev_def)
qed

text \<open>Freeing what \<open>kmalloc\<close> just returned gives back the heap of before, block
  for block: no space is lost to fragmentation by an allocate/free pair.\<close>

theorem kmalloc_kfree_roundtrip:
  assumes "heap_rep s xs" "kmalloc sz s = Some (p, s')" "p \<noteq> NULL"
  shows "\<exists>s''. kfree p s' = Some (Inr s'') \<and> heap_rep s'' xs \<and> heap_used s'' = heap_used s"
proof -
  from assms(2,3) have "sz \<noteq> 0" by (auto simp: kmalloc_def)
  from kmalloc_refines [OF assms(1) this] assms(2,3) obtain c xs' where
    al: "heap_alloc (round8 sz) (unat HEAP_BASE) xs = Some (c, xs')"
    and p: "p = of_nat (c + 20)" and r: "heap_rep s' xs'"
    by (auto split: option.splits)
  from heap_alloc_Some [OF al] obtain ys n zs where
    xs: "xs = ys @ (n, True) # zs" "round8 sz \<le> n" "c = unat HEAP_BASE + span ys"
      "xs' = ys @ cut_block (round8 sz) n @ zs" by auto
  have "coalesced (ys @ (n, True) # zs)" using assms(1) unfolding xs(1) by (rule heap_repD)
  from heap_free_cut [OF this xs(2)] obtain k zs' where
    "cut_block (round8 sz) n @ zs = (k, False) # zs'" "heap_free ys k zs' = xs" using xs(1) by auto
  with r xs kfree_refines [of s' ys k zs' c] p obtain H u where
    k: "kfree p s' = Some (Inr (s'\<lparr>hdr := H, heap_used := u\<rparr>))"
    and r': "heap_rep (s'\<lparr>hdr := H, heap_used := u\<rparr>) xs" by auto
  have "unat u = used_bytes xs" using r' by (rule heap_repD) simp
  moreover have "unat (heap_used s) = used_bytes xs" using assms(1) by (rule heap_repD)
  ultimately have "u = heap_used s" by (simp add: word_unat_eq_iff)
  with k r' show ?thesis by auto
qed

theorem kmalloc_kfree_roundtrip_witness:
  "\<exists>p s' s''. kmalloc 100 boot_mem = Some (p, s') \<and> kfree p s' = Some (Inr s'') \<and>
     heap_rep s'' [(1048556, True)]"
proof -
  have "round8 100 = 104" by (subst round8_exact) simp_all
  then obtain s' where s': "kmalloc 100 boot_mem = Some (0x200014, s')"
    using kmalloc_refines [OF boot_mem_rep, of 100]
    by (auto simp: HEAP_BASE_nat cut_block_def)
  from kmalloc_kfree_roundtrip [OF boot_mem_rep s'] s' show ?thesis by auto
qed

text \<open>An allocation never overlaps one that is already live, and leaves every live
  allocation live: on a well-formed heap the bytes handed out by \<open>kmalloc\<close> are the caller's
  alone.\<close>

theorem kmalloc_disjoint:
  assumes "mem_holds s L" "unat n + 7 < 4294967296"
    and "kmalloc n s = Some (p, s')" "p \<noteq> NULL" "L q = Some k"
  shows "(unat p + unat n \<le> unat q \<or> unat q + k \<le> unat p) \<and>
     (\<exists>j\<ge>unat n. mem_holds s' (L(p \<mapsto> j)))"
proof -
  from kheap.alloc_law [OF assms(1,2)] assms(3,4) obtain j where
    j: "L p = None" "unat n \<le> j" "mem_holds s' (L(p \<mapsto> j))" by auto
  with assms(5) have "p \<noteq> q" by auto
  with j assms(5) have "unat p + j \<le> unat q \<or> unat q + k \<le> unat p"
    by (intro kheap.disjoint_live [OF j(3)]) auto
  with j show ?thesis by (auto intro: exI [of _ j])
qed

theorem kmalloc_disjoint_witness:
  "\<exists>p s1 q s2. kmalloc 100 boot_mem = Some (p, s1) \<and> kmalloc 60 s1 = Some (q, s2) \<and>
     (unat q + 60 \<le> unat p \<or> unat p + 104 \<le> unat q)"
proof -
  have r: "round8 100 = 104" "round8 60 = 64" by (subst round8_exact; simp)+
  then obtain s1 where s1: "kmalloc 100 boot_mem = Some (0x200014, s1)"
    "heap_rep s1 [(104, False), (1048432, True)]"
    using kmalloc_refines [OF boot_mem_rep, of 100]
    by (auto simp: HEAP_BASE_nat cut_block_def)
  have "mem_holds s1 [0x200014 \<mapsto> 104]"
    unfolding mem_holds_def by (intro exI conjI, rule s1(2)) (simp add: HEAP_BASE_nat)
  moreover obtain s2 where s2: "kmalloc 60 s1 = Some (0x200090, s2)"
    using kmalloc_refines [OF s1(2), of 60] r by (auto simp: HEAP_BASE_nat cut_block_def)
  ultimately have "unat (0x200090 :: ptr) + unat (60 :: u32) \<le> unat (0x200014 :: ptr) \<or>
      unat (0x200014 :: ptr) + 104 \<le> unat (0x200090 :: ptr)"
    using kmalloc_disjoint [of s1 "[0x200014 \<mapsto> 104]" 60 "0x200090" s2 "0x200014" 104] by simp
  with s1 s2 show ?thesis by auto
qed

text \<open>Freeing the same pointer twice in a row is harmless: the second \<open>kfree\<close>
  finds a free header with the right magic and changes nothing.\<close>

theorem kfree_twice:
  assumes "mem_holds s L" "L p = Some k" "kfree p s = Some (Inr s')"
  shows "kfree p s' = Some (Inr s')"
proof -
  obtain xs where rep: "heap_rep s xs" and L: "L = live_of (unat HEAP_BASE) xs"
    using assms(1) by (auto simp: mem_holds_def)
  from assms(2) L obtain ys zs where xs: "xs = ys @ (k, False) # zs"
    and p: "p = of_nat (unat HEAP_BASE + span ys + 20)" using live_of_Some by blast
  define c where "c = unat HEAP_BASE + span ys"
  from kfree_refines [OF rep [unfolded xs] c_def] assms(3) obtain b where
    b: "hdr s' (of_nat c) = Some b" "b_free b" "b_magic b = BLOCK_MAGIC"
    unfolding p c_def by auto
  have "p - sizeof_block = of_nat c" by (simp add: p c_def sizeof_block_def)
  with b show ?thesis by (simp add: kfree_def)
qed

theorem kfree_twice_witness:
  "\<exists>p s1 s2. kmalloc 100 boot_mem = Some (p, s1) \<and> kfree p s1 = Some (Inr s2) \<and>
     kfree p s2 = Some (Inr s2)"
proof -
  have "round8 100 = 104" by (subst round8_exact) simp_all
  then obtain s1 where s1: "kmalloc 100 boot_mem = Some (0x200014, s1)"
    "heap_rep s1 [(104, False), (1048432, True)]"
    using kmalloc_refines [OF boot_mem_rep, of 100]
    by (auto simp: HEAP_BASE_nat cut_block_def)
  have h: "mem_holds s1 [0x200014 \<mapsto> 104]"
    unfolding mem_holds_def by (intro exI conjI, rule s1(2)) (simp add: HEAP_BASE_nat)
  from kheap.release_law [OF this, of "0x200014" 104] obtain s2 where
    s2: "kfree 0x200014 s1 = Some (Inr s2)" by auto
  with kfree_twice [OF h _ s2] s1 show ?thesis by auto
qed

text \<open>For a request within 7 bytes of 4 GiB the rounding of \<open>kmalloc\<close> wraps to 0,
  so instead of failing it hands out the first free block, however small the heap is.\<close>

theorem kmalloc_wraps:
  assumes "heap_rep s xs" "\<exists>n. (n, True) \<in> set xs" "4294967289 \<le> unat sz"
  shows "\<exists>p s'. kmalloc sz s = Some (p, s') \<and> p \<noteq> NULL \<and> unat (heap_size s) < unat sz"
proof -
  have "unat (7 :: u32) = 7" by simp
  then have "unat (sz + 7) = unat sz + 7 - 4294967296"
    using unat_plus_if' [of sz 7] assms(3) by simp
  then have "unat (sz + 7) < 8" using u32_bound [of sz] by linarith
  then have r0: "round8 sz = 0" unfolding round8_def unat_round8 by simp
  have "sz \<noteq> 0" using assms(3) by auto
  moreover have "heap_alloc (round8 sz) (unat HEAP_BASE) xs \<noteq> None"
  proof -
    from assms(2) obtain n where "(n, True) \<in> set xs" by auto
    then have "\<exists>x\<in>set xs. snd x" by (intro bexI [of _ "(n, True)"]) simp_all
    then show ?thesis by (simp add: heap_alloc_None r0)
  qed
  then obtain c xs' where al: "heap_alloc (round8 sz) (unat HEAP_BASE) xs = Some (c, xs')" by auto
  ultimately obtain s' where s': "kmalloc sz s = Some (of_nat (c + 20), s')"
    using kmalloc_refines [OF assms(1), of sz] by auto
  define p where "p = c + 20"
  have "0 < p" "p < 4294967296"
    using heap_alloc_Some [OF al] heap_rep_span [OF assms(1)] by (auto simp: p_def)
  then have "(of_nat p :: ptr) \<noteq> NULL" by simp
  moreover have "unat (heap_size s) < unat sz"
    using assms(1,3) by (auto elim!: heap_repD)
  ultimately show ?thesis using s' by (auto simp: p_def simp del: of_nat_add)
qed

theorem kmalloc_wraps_witness:
  "\<exists>p s'. kmalloc 0xFFFFFFFF boot_mem = Some (p, s') \<and> p \<noteq> NULL"
  using kmalloc_wraps [OF boot_mem_rep, of "0xFFFFFFFF"] by auto

end
