(* ===== verification/Lib_Printf.thy ===== *)
theory Lib_Printf
  imports Los_Prelude
begin

text \<open>
  The formatter of \<open>lib/printf.c\<close>: the output sink shared by \<open>kprintf\<close> and \<open>ksnprintf\<close>, the
  number formatter, the padding and the format interpreter.

  A C string argument is the list of its characters before the terminator.  Variable
  arguments are a list of tagged values.  \<open>None\<close> is undefined behaviour: a missing or
  wrongly typed argument, a scratch buffer overrun, the negation of the least integer, or a
  format string whose scan runs past its terminator.
\<close>

section \<open>Operations\<close>

datatype vararg = VInt u32 | VStr "string option"

text \<open>
  \<open>Buffer\<close> is a sink with a buffer of fixed size and the position of the next character,
  which keeps counting when the buffer is full; \<open>Console\<close> holds what was sent to the screen
  and the serial line.
\<close>

datatype sink = Buffer string nat | Console string

fun sink_putc :: "sink \<Rightarrow> char \<Rightarrow> sink" where
  "sink_putc (Buffer buf pos) c =
     Buffer (if pos + 1 < length buf then buf[pos := c] else buf) (pos + 1)"
| "sink_putc (Console out) c = Console (out @ [c])"

fun sink_puts :: "sink \<Rightarrow> string \<Rightarrow> sink" where
  "sink_puts s [] = s"
| "sink_puts s (c # cs) = sink_puts (sink_putc s c) cs"

definition digits_lower :: string where "digits_lower = ''0123456789abcdef''"
definition digits_upper :: string where "digits_upper = ''0123456789ABCDEF''"

text \<open>
  The digit loop of \<open>format_uint\<close>: \<open>room\<close> is the space left in \<open>tmp[36]\<close>; the digits come
  out least significant first.
\<close>

fun format_digits :: "nat \<Rightarrow> string \<Rightarrow> u32 \<Rightarrow> u32 \<Rightarrow> string option" where
  "format_digits room digits val base =
     (if val = 0 then Some []
      else case room of 0 \<Rightarrow> None
        | Suc room' \<Rightarrow> map_option (Cons (digits ! unat (val mod base)))
                         (format_digits room' digits (val div base) base))"

definition format_uint :: "u32 \<Rightarrow> u32 \<Rightarrow> bool \<Rightarrow> string option" where
  "format_uint val base upper =
     (let digits = (if upper then digits_upper else digits_lower)
      in if val = 0 then Some ''0''
         else map_option rev (format_digits 36 digits val base))"

definition emit_padded :: "sink \<Rightarrow> string \<Rightarrow> nat \<Rightarrow> char \<Rightarrow> bool \<Rightarrow> sink" where
  "emit_padded s txt width pad left =
     (if left then sink_puts (sink_puts s txt) (replicate (width - length txt) (CHR '' ''))
      else sink_puts (sink_puts s (replicate (width - length txt) pad)) txt)"

definition is_digit :: "char \<Rightarrow> bool" where
  "is_digit c \<longleftrightarrow> 48 \<le> (of_char c :: nat) \<and> (of_char c :: nat) \<le> 57"

fun parse_width :: "nat \<Rightarrow> string \<Rightarrow> nat \<times> string" where
  "parse_width width [] = (width, [])"
| "parse_width width (c # p) =
     (if is_digit c
      then parse_width (width * 10 + (of_char c - 48)) p
      else (width, c # p))"

lemma parse_width_length: "length (snd (parse_width w p)) \<le> length p"
  by (induction w p rule: parse_width.induct) auto

text \<open>One conversion: the character after the flags and the width.\<close>

fun convert :: "sink \<Rightarrow> char \<Rightarrow> bool \<Rightarrow> char \<Rightarrow> nat \<Rightarrow> vararg list \<Rightarrow> (sink \<times> vararg list) option" where
  "convert s d left pad width args =
     (if d = CHR ''c'' then
        (case args of VInt v # rest \<Rightarrow> Some (sink_putc s (char_of (unat v)), rest) | _ \<Rightarrow> None)
      else if d = CHR ''s'' then
        (case args of VStr str # rest \<Rightarrow>
             Some (emit_padded s (case str of Some x \<Rightarrow> x | None \<Rightarrow> ''(null)'') width (CHR '' '') left, rest)
         | _ \<Rightarrow> None)
      else if d = CHR ''d'' \<or> d = CHR ''i'' then
        (case args of VInt v # rest \<Rightarrow>
             if v = 0x80000000 then None
             else if sint v < 0
             then do { t \<leftarrow> format_uint (- v) 10 False;
                       Some (emit_padded (sink_putc s (CHR ''-'')) t width pad left, rest) }
             else do { t \<leftarrow> format_uint v 10 False; Some (emit_padded s t width pad left, rest) }
         | _ \<Rightarrow> None)
      else if d = CHR ''u'' then
        (case args of VInt v # rest \<Rightarrow>
             do { t \<leftarrow> format_uint v 10 False; Some (emit_padded s t width pad left, rest) }
         | _ \<Rightarrow> None)
      else if d = CHR ''x'' then
        (case args of VInt v # rest \<Rightarrow>
             do { t \<leftarrow> format_uint v 16 False; Some (emit_padded s t width pad left, rest) }
         | _ \<Rightarrow> None)
      else if d = CHR ''X'' then
        (case args of VInt v # rest \<Rightarrow>
             do { t \<leftarrow> format_uint v 16 True; Some (emit_padded s t width pad left, rest) }
         | _ \<Rightarrow> None)
      else if d = CHR ''p'' then
        (case args of VInt v # rest \<Rightarrow>
             do { t \<leftarrow> format_uint v 16 False;
                  Some (emit_padded (sink_puts s ''0x'') t 8 (CHR ''0'') False, rest) }
         | _ \<Rightarrow> None)
      else if d = CHR ''%'' then Some (sink_putc s (CHR ''%''), args)
      else Some (sink_putc (sink_putc s (CHR ''%'')) d, args))"

declare convert.simps [simp del]

text \<open>
  The scan over the format.  When the format ends after the flags or the width, the C code
  prints the terminator and steps over it: the next read is outside the string.
\<close>

definition flag_left :: "string \<Rightarrow> bool \<times> string" where
  "flag_left p = (case p of [] \<Rightarrow> (False, p) | c # p' \<Rightarrow> if c = CHR ''-'' then (True, p') else (False, p))"

definition flag_zero :: "string \<Rightarrow> char \<times> string" where
  "flag_zero p = (case p of [] \<Rightarrow> (CHR '' '', p)
                  | c # p' \<Rightarrow> if c = CHR ''0'' then (CHR ''0'', p') else (CHR '' '', p))"

definition directive :: "string \<Rightarrow> bool \<times> char \<times> nat \<times> string" where
  "directive p =
     (let (left, p1) = flag_left p; (pad, p2) = flag_zero p1; (width, p3) = parse_width 0 p2
      in (left, pad, width, p3))"

lemma directive_length: "directive p = (left, pad, width, q) \<Longrightarrow> length q \<le> length p"
  using parse_width_length [of 0 "snd (flag_zero (snd (flag_left p)))"]
  by (auto simp: directive_def flag_left_def flag_zero_def split: prod.splits list.splits if_splits)

function format :: "sink \<Rightarrow> string \<Rightarrow> vararg list \<Rightarrow> sink option" where
  "format s [] args = Some s"
| "format s (c # p) args =
     (if c \<noteq> CHR ''%'' then format (sink_putc s c) p args
      else if p = [] then Some s
      else case directive p of (left, pad, width, q) \<Rightarrow>
        (case q of [] \<Rightarrow> None
         | d # rest \<Rightarrow>
             (case convert s d left pad width args of
                None \<Rightarrow> None
              | Some (s', args') \<Rightarrow> format s' rest args')))"
  by pat_completeness auto
termination
  by (relation "measure (\<lambda>(s, p, args). length p)") (auto dest!: directive_length [OF sym])

definition kprintf :: "string \<Rightarrow> vararg list \<Rightarrow> string option" where
  "kprintf fmt args =
     (case format (Console []) fmt args of Some (Console out) \<Rightarrow> Some out | _ \<Rightarrow> None)"

text \<open>The buffer's old contents matter only in that its length is \<open>size\<close>.\<close>

definition kvsnprintf :: "string \<Rightarrow> string \<Rightarrow> vararg list \<Rightarrow> string option" where
  "kvsnprintf buf fmt args =
     (case format (Buffer buf 0) fmt args of
        Some (Buffer buf' pos) \<Rightarrow>
          Some (if buf' \<noteq> [] then buf'[if pos < length buf' then pos else length buf' - 1 := NUL] else buf')
      | _ \<Rightarrow> None)"

text \<open>\<open>ksnprintf\<close>, as the C string its buffer holds afterwards.\<close>

definition ksnprintf :: "nat \<Rightarrow> string \<Rightarrow> vararg list \<Rightarrow> string option" where
  "ksnprintf sz fmt args =
     map_option (takeWhile (\<lambda>c. c \<noteq> NUL)) (kvsnprintf (replicate sz NUL) fmt args)"

section \<open>Properties\<close>

subsection \<open>Numbers\<close>

text \<open>The value of a digit string, read from the left.\<close>

definition digit_value :: "string \<Rightarrow> char \<Rightarrow> nat" where
  "digit_value digits c = length (takeWhile (\<lambda>d. d \<noteq> c) digits)"

definition number_value :: "nat \<Rightarrow> string \<Rightarrow> string \<Rightarrow> nat" where
  "number_value base digits ds = foldl (\<lambda>n c. n * base + digit_value digits c) 0 ds"

definition digit_table :: "bool \<Rightarrow> string" where
  "digit_table upper = (if upper then digits_upper else digits_lower)"

lemma digit_value_nth:
  assumes "d < 16"
  shows "digit_value (digit_table upper) (digit_table upper ! d) = d"
proof -
  have "\<forall>u \<in> {True, False}. \<forall>e \<in> set [0..<16]. digit_value (digit_table u) (digit_table u ! e) = e"
    by code_simp
  then have "\<forall>e \<in> set [0..<16]. digit_value (digit_table upper) (digit_table upper ! e) = e"
    by (cases upper) auto
  moreover have "d \<in> set [0..<16]" using assms by simp
  ultimately show ?thesis by blast
qed

lemma digit_table_nonzero:
  assumes "d < 16" "digit_table upper ! d = CHR ''0''"
  shows "d = 0"
proof -
  have "digit_value (digit_table upper) (CHR ''0'') = 0"
    by (cases upper) (simp_all add: digit_value_def digit_table_def digits_upper_def digits_lower_def)
  with digit_value_nth [OF assms(1), of upper] assms(2) show ?thesis by simp
qed

lemma number_value_snoc:
  "number_value b digits (ds @ [c]) = number_value b digits ds * b + digit_value digits c"
  by (simp add: number_value_def)

declare format_digits.simps [simp del]

lemma format_digits_Suc:
  "format_digits (Suc r) t v b =
     (if v = 0 then Some [] else map_option (Cons (t ! unat (v mod b))) (format_digits r t (v div b) b))"
  by (simp add: format_digits.simps)

lemma format_digits_more:
  "format_digits r t w b = Some xs \<Longrightarrow> r \<le> r' \<Longrightarrow> format_digits r' t w b = Some xs"
proof (induction r arbitrary: r' w xs)
  case 0
  then have "w = 0" "xs = []" by (simp_all add: format_digits.simps split: if_splits)
  then show ?case by (simp add: format_digits.simps)
next
  case (Suc r)
  from Suc.prems(2) obtain r'' where r': "r' = Suc r''" "r \<le> r''" by (cases r') auto
  show ?case
  proof (cases "w = 0")
    case True
    with Suc.prems r' show ?thesis by (simp add: format_digits_Suc)
  next
    case False
    with Suc.prems(1) obtain ys where ys: "format_digits r t (w div b) b = Some ys"
      "xs = t ! unat (w mod b) # ys" by (auto simp: format_digits_Suc)
    from Suc.IH [OF ys(1) r'(2)] False ys(2) r'(1) show ?thesis by (simp add: format_digits_Suc)
  qed
qed

lemma format_digits_correct:
  assumes "2 \<le> unat b" "unat b \<le> 16" "unat v < 2 ^ room"
  shows "\<exists>ds. format_digits room (digit_table upper) v b = Some ds \<and> length ds \<le> room \<and>
    number_value (unat b) (digit_table upper) (rev ds) = unat v \<and>
    (ds = [] \<longleftrightarrow> v = 0) \<and> (ds \<noteq> [] \<longrightarrow> last ds \<noteq> CHR ''0'')"
  using assms(3)
proof (induction room arbitrary: v)
  case 0
  then show ?case by (simp add: unat_eq_zero format_digits.simps number_value_def)
next
  case (Suc room)
  show ?case
  proof (cases "v = 0")
    case True
    then show ?thesis by (simp add: format_digits.simps number_value_def)
  next
    case False
    have dv: "unat (v div b) = unat v div unat b" and md: "unat (v mod b) = unat v mod unat b"
      by (simp_all add: unat_div unat_mod)
    have "unat v div unat b \<le> unat v div 2" using assms(1) by (intro div_le_mono2) auto
    moreover have "unat v div 2 < 2 ^ room" using Suc.prems by auto
    ultimately have "unat (v div b) < 2 ^ room" by (simp only: dv)
    from Suc.IH [OF this] obtain ds where ds:
      "format_digits room (digit_table upper) (v div b) b = Some ds" "length ds \<le> room"
      "number_value (unat b) (digit_table upper) (rev ds) = unat v div unat b"
      "ds = [] \<longleftrightarrow> v div b = 0" "ds \<noteq> [] \<longrightarrow> last ds \<noteq> CHR ''0''"
      unfolding dv by blast
    let ?c = "digit_table upper ! unat (v mod b)"
    have m16: "unat (v mod b) < 16" using mod_less_divisor [of "unat b" "unat v"] assms(1,2) unfolding md by linarith
    have "number_value (unat b) (digit_table upper) (rev (?c # ds)) = unat v"
      using ds(3) digit_value_nth [OF m16, of upper] by (simp add: number_value_snoc md)
    moreover have "last (?c # ds) \<noteq> CHR ''0''"
    proof (cases "ds = []")
      case True
      with ds(4) have "unat v div unat b = 0" using dv by simp
      then have "unat (v mod b) = unat v" using md by (metis div_eq_0_iff mod_by_0 mod_less)
      with False m16 digit_table_nonzero [OF m16] True show ?thesis by (auto simp: unat_eq_zero)
    qed (use ds(5) in simp)
    ultimately show ?thesis
      using False ds(1,2) by (subst format_digits.simps) simp
  qed
qed

lemma format_uint_correct:
  assumes "2 \<le> unat b" "unat b \<le> 16"
  shows "\<exists>ds. format_uint v b upper = Some ds \<and> ds \<noteq> [] \<and> length ds \<le> 35 \<and>
    number_value (unat b) (digit_table upper) ds = unat v \<and> (hd ds = CHR ''0'' \<longrightarrow> v = 0)"
proof (cases "v = 0")
  case True
  have "digit_value (digit_table upper) (CHR ''0'') = 0"
    by (cases upper) (simp_all add: digit_value_def digit_table_def digits_upper_def digits_lower_def)
  with True show ?thesis by (auto simp: format_uint_def number_value_def Let_def)
next
  case False
  have "unat v < 2 ^ 32" using unsigned_less [of v] by simp
  from format_digits_correct [OF assms this, of upper] obtain ds where
    ds: "format_digits 32 (digit_table upper) v b = Some ds" "length ds \<le> 32"
    "number_value (unat b) (digit_table upper) (rev ds) = unat v" "ds \<noteq> []" "last ds \<noteq> CHR ''0''"
    using False by blast
  have "format_digits 36 (digit_table upper) v b = Some ds" by (rule format_digits_more [OF ds(1)]) simp
  with False ds(2-5) show ?thesis
    by (auto simp: format_uint_def digit_table_def Let_def hd_rev)
qed

text \<open>In any base from 2 to 16 \<open>format_uint\<close> fits its scratch buffer and prints a
  numeral without leading zeros whose value is the number; 0 is printed as one digit.\<close>

theorem format_uint_roundtrip:
  assumes "2 \<le> unat b" "unat b \<le> 16"
  shows "\<exists>ds. format_uint v b upper = Some ds \<and> ds \<noteq> [] \<and> length ds \<le> 35 \<and>
    number_value (unat b) (digit_table upper) ds = unat v \<and> (hd ds = CHR ''0'' \<longrightarrow> v = 0)"
  by (rule format_uint_correct [OF assms])

theorem format_uint_roundtrip_witness:
  "\<exists>ds. format_uint 0xFFFFFFFF 16 False = Some ds \<and> ds \<noteq> [] \<and> length ds \<le> 35 \<and>
    number_value (unat (16 :: u32)) (digit_table False) ds = unat (0xFFFFFFFF :: u32) \<and>
    (hd ds = CHR ''0'' \<longrightarrow> (0xFFFFFFFF :: u32) = 0)"
  by (rule format_uint_roundtrip) simp_all

subsection \<open>The two sinks\<close>

text \<open>
  A buffer sink simulates the console: \<open>into_buffer buf\<close> maps a console to the sink of
  \<open>buf\<close> after the same output, and every operation commutes with it.
\<close>

definition fill_buffer :: "string \<Rightarrow> string \<Rightarrow> string" where
  "fill_buffer buf out = take (length buf - 1) out @ drop (min (length out) (length buf - 1)) buf"

fun into_buffer :: "string \<Rightarrow> sink \<Rightarrow> sink" where
  "into_buffer buf (Console out) = Buffer (fill_buffer buf out) (length out)"
| "into_buffer buf (Buffer b pos) = Buffer b pos"

lemma length_fill_buffer [simp]: "length (fill_buffer buf out) = length buf"
  by (simp add: fill_buffer_def)

lemma fill_buffer_snoc:
  "fill_buffer buf (out @ [c]) =
     (if length out + 1 < length buf then (fill_buffer buf out)[length out := c] else fill_buffer buf out)"
proof (cases "length out + 1 < length buf")
  case True
  then have "drop (length out) buf = buf ! length out # drop (Suc (length out)) buf"
    by (intro Cons_nth_drop_Suc [symmetric]) simp
  moreover have "length out \<le> length buf - 1" "Suc (length out) \<le> length buf - 1" using True by simp_all
  ultimately show ?thesis using True by (simp add: fill_buffer_def list_update_append min_absorb1)
next
  case False
  then have "length buf - 1 \<le> length out" "length buf - 1 \<le> Suc (length out)" by linarith+
  with False show ?thesis by (simp add: fill_buffer_def min_absorb2)
qed

lemma fill_buffer_terminated:
  assumes "buf \<noteq> []"
  shows "(fill_buffer buf out)[if length out < length buf then length out else length buf - 1 := NUL] =
    take (length buf - 1) out @ NUL # drop (Suc (min (length out) (length buf - 1))) buf"
proof -
  define k where "k = min (length out) (length buf - 1)"
  have "k < length buf" using assms by (simp add: k_def min_def) (metis One_nat_def Suc_pred length_greater_0_conv less_Suc_eq_le nat_le_linear)
  then have d: "drop k buf = buf ! k # drop (Suc k) buf" by (intro Cons_nth_drop_Suc [symmetric])
  have l: "length (take (length buf - 1) out) = k" by (simp add: k_def min.commute)
  have "(if length out < length buf then length out else length buf - 1) = k"
    using assms by (cases buf) (auto simp: k_def min_def)
  then show ?thesis
    using l d by (simp add: fill_buffer_def flip: k_def) (simp add: list_update_append)
qed

lemma sink_putc_into [simp]: "sink_putc (into_buffer buf s) c = into_buffer buf (sink_putc s c)"
  by (cases s) (simp_all add: fill_buffer_snoc)

lemma sink_puts_into [simp]: "sink_puts (into_buffer buf s) cs = into_buffer buf (sink_puts s cs)"
  by (induction cs arbitrary: s) simp_all

lemma emit_padded_into [simp]:
  "emit_padded (into_buffer buf s) txt w p l = into_buffer buf (emit_padded s txt w p l)"
  by (simp add: emit_padded_def)

lemma convert_into:
  "convert (into_buffer buf s) d l p w args =
     map_option (apfst (into_buffer buf)) (convert s d l p w args)"
  by (simp add: convert.simps split: list.split vararg.split Option.bind_split)

lemma format_into: "format (into_buffer buf s) p args = map_option (into_buffer buf) (format s p args)"
proof (induction s p args rule: format.induct)
  case (1 s args)
  then show ?case by simp
next
  case (2 s c p args)
  then show ?case
    by (simp add: convert_into split: prod.split list.split option.split)
qed

lemma sink_puts_Console [simp]: "sink_puts (Console out) cs = Console (out @ cs)"
  by (induction cs arbitrary: out) simp_all

lemma emit_padded_Console:
  "emit_padded (Console out) txt w p l =
     Console (out @ (if l then txt @ replicate (w - length txt) (CHR '' '')
                     else replicate (w - length txt) p @ txt))"
  by (simp add: emit_padded_def)

lemma convert_Console:
  "convert (Console out) d l p w args = Some (s', args') \<Longrightarrow> \<exists>out'. s' = Console out'"
  by (auto simp: convert.simps emit_padded_Console split: list.splits vararg.splits if_splits
      Option.bind_splits)

lemma format_Console:
  "format s p args = Some s' \<Longrightarrow> s = Console out \<Longrightarrow> \<exists>out'. s' = Console out'"
proof (induction s p args arbitrary: out rule: format.induct)
  case (1 s args)
  then show ?case by auto
next
  case (2 s c p args)
  show ?case
  proof (cases "c \<noteq> CHR ''%'' \<or> p = []")
    case True
    with "2.prems" "2.IH"(1) [of "out @ [c]"] show ?thesis by (auto split: if_splits)
  next
    case False
    obtain left pad width q where d: "directive p = (left, pad, width, q)" by (cases "directive p") auto
    with False "2.prems" obtain e rest s1 args1 where
      q: "q = e # rest" and c: "convert s e left pad width args = Some (s1, args1)"
      and f: "format s1 rest args1 = Some s'"
      by (auto split: list.splits option.splits)
    from c "2.prems"(2) convert_Console obtain out1 where "s1 = Console out1" by blast
    with "2.IH"(2) [OF _ _ d [symmetric] refl refl q c refl f] False show ?thesis by blast
  qed
qed

lemma kvsnprintf_console:
  "kvsnprintf buf fmt args =
     map_option (\<lambda>out. if buf = [] then []
                       else take (length buf - 1) out @ NUL # drop (Suc (min (length out) (length buf - 1))) buf)
       (kprintf fmt args)"
proof -
  have e: "Buffer buf 0 = into_buffer buf (Console [])" by (simp add: fill_buffer_def)
  show ?thesis
  proof (cases "format (Console []) fmt args")
    case None
    then show ?thesis unfolding kvsnprintf_def kprintf_def e by (simp only: format_into) simp
  next
    case (Some s')
    with format_Console [OF Some refl] obtain out where s': "s' = Console out" by blast
    let ?b = "fill_buffer buf out"
    have "kvsnprintf buf fmt args =
        Some (if ?b \<noteq> [] then ?b[if length out < length ?b then length out else length ?b - 1 := NUL] else ?b)"
      unfolding kvsnprintf_def e by (simp only: format_into Some s') simp
    moreover have "kprintf fmt args = Some out" by (simp add: kprintf_def Some s')
    moreover have "?b \<noteq> [] \<longleftrightarrow> buf \<noteq> []" by (simp flip: length_greater_0_conv)
    ultimately show ?thesis
      using fill_buffer_terminated [of buf out]
      by (cases "buf = []") (simp_all only: length_fill_buffer option.map if_True if_False simp_thms)

  qed
qed

text \<open>Property C14: \<open>kvsnprintf\<close> writes what \<open>kprintf\<close> would print with the same format and
  arguments, cut to the buffer less one, then the terminator, and leaves the rest of the
  buffer as it was; it touches nothing of an empty buffer, and is defined when \<open>kprintf\<close> is.\<close>

theorem kvsnprintf_truncates:
  "kvsnprintf buf fmt args =
     map_option (\<lambda>out. if buf = [] then []
                       else take (length buf - 1) out @ NUL # drop (Suc (min (length out) (length buf - 1))) buf)
       (kprintf fmt args)"
  by (rule kvsnprintf_console)

text \<open>Padding of negative numbers: a negative number in a field is printed sign first, then the padding: with
  \<open>%5d\<close> the blanks stand between the sign and the digits.\<close>

theorem negative_padding:
  assumes "sint v < 0" "v \<noteq> 0x80000000"
  shows "\<exists>t. format_uint (- v) 10 False = Some t \<and>
    convert (Console out) (CHR ''d'') False pad w (VInt v # args) =
      Some (Console (out @ ''-'' @ replicate (w - length t) pad @ t), args)"
proof -
  obtain t where "format_uint (- v) 10 False = Some t"
    using format_uint_correct [of 10 "- v" False] by auto
  with assms show ?thesis by (auto simp: convert.simps emit_padded_Console)
qed

theorem negative_padding_witness:
  "\<exists>t. format_uint 5 10 False = Some t \<and>
     convert (Console []) (CHR ''d'') False (CHR '' '') 5 [VInt (- 5)] =
       Some (Console (''-'' @ replicate (5 - length t) (CHR '' '') @ t), [])"
  using negative_padding [of "- 5" "[]" "CHR '' ''" 5 "[]"] by simp

end
