(* ===== verification/Ramfs.thy ===== *)
theory Ramfs
  imports Kernel_Mem Lib_Printf
begin

text \<open>
  The in-memory filesystem of \<open>fs/ramfs.c\<close>, at the level of its pointers: nodes are heap
  allocations linked through \<open>parent\<close>, \<open>children\<close> and \<open>next\<close>, file contents are heap
  buffers, and every operation runs the code's loops over them.

  The store is typed: \<open>nodes\<close> maps an address to the \<open>fs_node_t\<close> that lives there, \<open>bufs\<close>
  an address to a character buffer (its allocated size and the part of it written so far).
  Reading a node or a byte that is not there, writing past an allocation, a panic of the
  heap and an endless loop are \<open>None\<close>.
\<close>

section \<open>State\<close>

datatype fs_type = FS_FILE | FS_DIR

record fs_node =
  n_name :: string
  n_type :: fs_type
  n_data :: ptr
  n_size :: u32
  n_capacity :: u32
  n_parent :: ptr
  n_children :: ptr
  n_next :: ptr

record fs_state = mem_state +
  nodes :: "ptr \<Rightarrow> fs_node option"
  bufs :: "ptr \<Rightarrow> (nat \<times> string) option"
  root_node :: ptr
  current_dir :: ptr
  node_count :: int

definition FS_NAME_MAX :: nat where "FS_NAME_MAX = 32"
definition FS_PATH_MAX :: nat where "FS_PATH_MAX = 256"

text \<open>A name of 32 bytes and seven words.\<close>

definition sizeof_fs_node :: u32 where "sizeof_fs_node = 60"

definition LOS_NAME :: string where "LOS_NAME = ''LightningOS''"
definition LOS_RELEASE :: string where "LOS_RELEASE = ''v1.0.0.0''"
definition LOS_CODENAME :: string where "LOS_CODENAME = ''Thunderbolt''"
definition LOS_ARCH :: string where "LOS_ARCH = ''i386''"

abbreviation LF :: char where
  "LF \<equiv> CHR 0x0A"

section \<open>Nodes\<close>

partial_function (option) last_sibling :: "(ptr \<Rightarrow> fs_node option) \<Rightarrow> ptr \<Rightarrow> ptr option" where
  "last_sibling N last_ptr = do {
     n \<leftarrow> N last_ptr;
     if n_next n \<noteq> NULL then last_sibling N (n_next n) else Some last_ptr
   }"

declare last_sibling.simps [code]

definition link_last :: "ptr \<Rightarrow> ptr \<Rightarrow> (ptr \<Rightarrow> fs_node option) \<Rightarrow> (ptr \<Rightarrow> fs_node option) option" where
  "link_last p parent N =
     (if parent = NULL then Some N
      else do {
        d \<leftarrow> N parent;
        if n_children d = NULL then Some (N(parent \<mapsto> d\<lparr>n_children := p\<rparr>))
        else do {
          l \<leftarrow> last_sibling N (n_children d);
          n \<leftarrow> N l;
          Some (N(l \<mapsto> n\<lparr>n_next := p\<rparr>))
        }
      })"

definition node_new :: "string \<Rightarrow> fs_type \<Rightarrow> ptr \<Rightarrow> 'a fs_state_scheme \<Rightarrow> (ptr \<times> 'a fs_state_scheme) option" where
  "node_new name ty parent s = do {
     (p, s) \<leftarrow> kcalloc 1 sizeof_fs_node s;
     if p = NULL then Some (NULL, s)
     else do {
       N \<leftarrow> link_last p parent ((nodes s)(p \<mapsto>
              \<lparr>n_name = take (FS_NAME_MAX - 1) name, n_type = ty, n_data = NULL, n_size = 0,
               n_capacity = 0, n_parent = parent, n_children = NULL, n_next = NULL\<rparr>));
       Some (p, s\<lparr>nodes := N, node_count := node_count s + 1\<rparr>)
     }
   }"

partial_function (option) find_sibling :: "(ptr \<Rightarrow> fs_node option) \<Rightarrow> string \<Rightarrow> ptr \<Rightarrow> ptr option" where
  "find_sibling N name child =
     (if child = NULL then Some NULL
      else do {
        n \<leftarrow> N child;
        if n_name n = name then Some child else find_sibling N name (n_next n)
      })"

declare find_sibling.simps [code]

definition find_child :: "(ptr \<Rightarrow> fs_node option) \<Rightarrow> ptr \<Rightarrow> string \<Rightarrow> ptr option" where
  "find_child N dir name =
     (if dir = NULL then Some NULL
      else do {
        d \<leftarrow> N dir;
        if n_type d \<noteq> FS_DIR then Some NULL else find_sibling N name (n_children d)
      })"

section \<open>Walking a path\<close>

definition not_slash :: "char \<Rightarrow> bool" where
  "not_slash c \<longleftrightarrow> c \<noteq> CHR ''/''"

lemma rest_shorter:
  assumes "dropWhile (\<lambda>c. \<not> not_slash c) buf \<noteq> []"
  shows "length (dropWhile not_slash (dropWhile (\<lambda>c. \<not> not_slash c) buf)) < length buf"
proof -
  let ?b = "dropWhile (\<lambda>c. \<not> not_slash c) buf"
  obtain c cs where b: "?b = c # cs" using assms by (cases ?b) auto
  with hd_dropWhile [OF assms] have "not_slash c" by simp
  then have "length (dropWhile not_slash ?b) < length ?b"
    by (simp add: b length_dropWhile_le le_imp_less_Suc)
  also have "\<dots> \<le> length buf" by (rule length_dropWhile_le)
  finally show ?thesis .
qed

text \<open>
  \<open>buf\<close> is the part of the path buffer from index \<open>i\<close> on.  The result is the node and the
  contents of \<open>last\<close>, which is used only when the walk stops before the last component.
\<close>

function walk_loop :: "'a fs_state_scheme \<Rightarrow> bool \<Rightarrow> ptr \<Rightarrow> string \<Rightarrow> (ptr \<times> string) option" where
  "walk_loop s stop_before_last node buf =
     (if buf = [] then Some (node, [])
      else let buf1 = dropWhile (\<lambda>c. \<not> not_slash c) buf in
        if buf1 = [] then Some (node, [])
        else let component = take (FS_NAME_MAX - 1) (takeWhile not_slash buf1);
                 rest = dropWhile not_slash buf1;
                 is_last = (dropWhile (\<lambda>c. \<not> not_slash c) rest = [])
          in if is_last \<and> stop_before_last then Some (node, component)
             else if component = ''.'' then walk_loop s stop_before_last node rest
             else if component = ''..'' then do {
               n \<leftarrow> nodes s node;
               walk_loop s stop_before_last (if n_parent n \<noteq> NULL then n_parent n else root_node s) rest
             }
             else do {
               child \<leftarrow> find_child (nodes s) node component;
               if child = NULL then Some (NULL, [])
               else walk_loop s stop_before_last child rest
             })"
  by pat_completeness auto

termination
  by (relation "measure (\<lambda>(s, stop, node, buf). length buf)") (auto simp: rest_shorter)

declare walk_loop.simps [simp del]

definition walk :: "'a fs_state_scheme \<Rightarrow> string \<Rightarrow> bool \<Rightarrow> (ptr \<times> string) option" where
  "walk s path stop_before_last =
     (if path = [] then Some (NULL, [])
      else let buffer = take (FS_PATH_MAX - 1) path
        in if hd buffer = CHR ''/'' then walk_loop s stop_before_last (root_node s) (tl buffer)
           else walk_loop s stop_before_last (current_dir s) buffer)"

definition fs_resolve :: "string \<Rightarrow> 'a fs_state_scheme \<Rightarrow> ptr option" where
  "fs_resolve path s =
     (if path = [] then Some (current_dir s)
      else if path = ''/'' then Some (root_node s)
      else map_option fst (walk s path False))"

definition fs_set_cwd :: "ptr \<Rightarrow> 'a fs_state_scheme \<Rightarrow> 'a fs_state_scheme option" where
  "fs_set_cwd dir s =
     (if dir = NULL then Some s
      else do { n \<leftarrow> nodes s dir; Some (if n_type n = FS_DIR then s\<lparr>current_dir := dir\<rparr> else s) })"

definition fs_count_nodes :: "'a fs_state_scheme \<Rightarrow> int" where
  "fs_count_nodes s = node_count s"

section \<open>Creating\<close>

text \<open>
  \<open>fs_create\<close> passes \<open>char name[32]\<close>, uninitialised, to \<open>walk\<close>, which copies at most 31
  characters into it: after a component of 31 characters the last byte keeps the value \<open>r\<close>
  it had.
\<close>

definition name_buf :: "string \<Rightarrow> char \<Rightarrow> string" where
  "name_buf component r =
     (if length component = FS_NAME_MAX - 1 \<and> r \<noteq> NUL then component @ [r] else component)"

definition fs_create :: "char \<Rightarrow> string \<Rightarrow> fs_type \<Rightarrow> 'a fs_state_scheme \<Rightarrow> (ptr \<times> 'a fs_state_scheme) option" where
  "fs_create r path ty s = do {
     (parent, component) \<leftarrow> walk s path True;
     let name = name_buf component r;
     if parent = NULL then Some (NULL, s)
     else do {
       d \<leftarrow> nodes s parent;
       if n_type d \<noteq> FS_DIR \<or> name = [] then Some (NULL, s)
       else do {
         c \<leftarrow> find_child (nodes s) parent name;
         if c \<noteq> NULL then Some (NULL, s) else node_new name ty parent s
       }
     }
   }"

section \<open>Writing\<close>

definition buf_read :: "ptr \<Rightarrow> nat \<Rightarrow> 'a fs_state_scheme \<Rightarrow> string option" where
  "buf_read b len s = do { (cap, c) \<leftarrow> bufs s b; if len \<le> length c then Some (take len c) else None }"

definition buf_write :: "ptr \<Rightarrow> nat \<Rightarrow> string \<Rightarrow> 'a fs_state_scheme \<Rightarrow> 'a fs_state_scheme option" where
  "buf_write b off bs s = do {
     (cap, c) \<leftarrow> bufs s b;
     if off \<le> length c \<and> off + length bs \<le> cap
     then Some (s\<lparr>bufs := (bufs s)(b \<mapsto> (cap, take off c @ bs @ drop (off + length bs) c))\<rparr>)
     else None
   }"

definition heap_release :: "ptr \<Rightarrow> 'a fs_state_scheme \<Rightarrow> 'a fs_state_scheme option" where
  "heap_release p s = (case kfree p s of Some (Inr s') \<Rightarrow> Some s' | _ \<Rightarrow> None)"

definition release_data :: "ptr \<Rightarrow> 'a fs_state_scheme \<Rightarrow> 'a fs_state_scheme option" where
  "release_data b s =
     (if b = NULL then Some s
      else do { s \<leftarrow> heap_release b s; Some (s\<lparr>bufs := (bufs s)(b := None)\<rparr>) })"

text \<open>The branch that moves the contents to a larger buffer; \<open>False\<close>: no memory.\<close>

definition grow_buffer :: "ptr \<Rightarrow> u32 \<Rightarrow> u32 \<Rightarrow> 'a fs_state_scheme \<Rightarrow> (bool \<times> 'a fs_state_scheme) option" where
  "grow_buffer file base needed s = do {
     n \<leftarrow> nodes s file;
     let capacity = needed + 64;
     (b, s) \<leftarrow> kmalloc capacity s;
     if b = NULL then Some (False, s)
     else do {
       let s = s\<lparr>bufs := (bufs s)(b \<mapsto> (unat capacity, []))\<rparr>;
       s \<leftarrow> (if base \<noteq> 0 \<and> n_data n \<noteq> NULL
             then do { old \<leftarrow> buf_read (n_data n) (unat base) s; buf_write b 0 old s }
             else Some s);
       s \<leftarrow> release_data (n_data n) s;
       Some (True, s\<lparr>nodes := (nodes s)(file \<mapsto> n\<lparr>n_data := b, n_capacity := capacity\<rparr>)\<rparr>)
     }
   }"

definition store_text :: "ptr \<Rightarrow> u32 \<Rightarrow> string \<Rightarrow> 'a fs_state_scheme \<Rightarrow> 'a fs_state_scheme option" where
  "store_text file base bytes s = do {
     n \<leftarrow> nodes s file;
     s \<leftarrow> buf_write (n_data n) (unat base) bytes s;
     let sz = base + of_nat (length bytes);
     let s = s\<lparr>nodes := (nodes s)(file \<mapsto> n\<lparr>n_size := sz\<rparr>)\<rparr>;
     buf_write (n_data n) (unat sz) [NUL] s
   }"

definition fs_write_n :: "ptr \<Rightarrow> string \<Rightarrow> bool \<Rightarrow> 'a fs_state_scheme \<Rightarrow> (int \<times> 'a fs_state_scheme) option" where
  "fs_write_n file bytes append_mode s =
     (if file = NULL then Some (-1, s)
      else do {
        n \<leftarrow> nodes s file;
        if n_type n \<noteq> FS_FILE then Some (-1, s)
        else do {
          let base = (if append_mode then n_size n else 0);
          let needed = base + of_nat (length bytes) + 1;
          (ok, s) \<leftarrow> (if needed > n_capacity n then grow_buffer file base needed s else Some (True, s));
          if \<not> ok then Some (-1, s)
          else do { s \<leftarrow> store_text file base bytes s; Some (0, s) }
        }
      })"

definition fs_write :: "ptr \<Rightarrow> string \<Rightarrow> bool \<Rightarrow> 'a fs_state_scheme \<Rightarrow> (int \<times> 'a fs_state_scheme) option" where
  "fs_write file txt append_mode s = fs_write_n file txt append_mode s"

section \<open>Removing\<close>

definition free_node :: "ptr \<Rightarrow> 'a fs_state_scheme \<Rightarrow> 'a fs_state_scheme option" where
  "free_node p s = do {
     n \<leftarrow> nodes s p;
     s \<leftarrow> release_data (n_data n) s;
     s \<leftarrow> heap_release p s;
     Some (s\<lparr>nodes := (nodes s)(p := None), node_count := node_count s - 1\<rparr>)
   }"

text \<open>
  The loop of \<open>free_subtree\<close> over the children, with the recursive call written out:
  \<open>free_siblings child\<close> frees \<open>child\<close>, everything below it, and its later siblings.
\<close>

partial_function (option) free_siblings :: "ptr \<Rightarrow> 'a fs_state_scheme \<Rightarrow> 'a fs_state_scheme option" where
  "free_siblings child s =
     (if child = NULL then Some s
      else do {
        n \<leftarrow> nodes s child;
        s \<leftarrow> free_siblings (n_children n) s;
        s \<leftarrow> free_node child s;
        free_siblings (n_next n) s
      })"

declare free_siblings.simps [code]

definition free_subtree :: "ptr \<Rightarrow> 'a fs_state_scheme \<Rightarrow> 'a fs_state_scheme option" where
  "free_subtree node s = do {
     n \<leftarrow> nodes s node;
     s \<leftarrow> free_siblings (n_children n) s;
     free_node node s
   }"

partial_function (option) find_prev :: "(ptr \<Rightarrow> fs_node option) \<Rightarrow> ptr \<Rightarrow> ptr \<Rightarrow> ptr option" where
  "find_prev N node prev =
     (if prev = NULL then Some NULL
      else do { n \<leftarrow> N prev; if n_next n \<noteq> node then find_prev N node (n_next n) else Some prev })"

declare find_prev.simps [code]

text \<open>Taking a node out of its parent's list; \<open>False\<close>: it is not in the list.\<close>

definition unlink_node :: "ptr \<Rightarrow> ptr \<Rightarrow> (ptr \<Rightarrow> fs_node option) \<Rightarrow> (bool \<times> (ptr \<Rightarrow> fs_node option)) option" where
  "unlink_node parent node N = do {
     d \<leftarrow> N parent;
     n \<leftarrow> N node;
     if n_children d = node then Some (True, N(parent \<mapsto> d\<lparr>n_children := n_next n\<rparr>))
     else do {
       p \<leftarrow> find_prev N node (n_children d);
       if p = NULL then Some (False, N)
       else do { q \<leftarrow> N p; Some (True, N(p \<mapsto> q\<lparr>n_next := n_next n\<rparr>)) }
     }
   }"

definition fs_remove :: "string \<Rightarrow> 'a fs_state_scheme \<Rightarrow> (int \<times> 'a fs_state_scheme) option" where
  "fs_remove path s = do {
     node \<leftarrow> fs_resolve path s;
     if node = NULL \<or> node = root_node s then Some (-1, s)
     else if node = current_dir s then Some (-2, s)
     else do {
       n \<leftarrow> nodes s node;
       if n_parent n = NULL then Some (-1, s)
       else do {
         (ok, N) \<leftarrow> unlink_node (n_parent n) node (nodes s);
         if \<not> ok then Some (-1, s)
         else do { s \<leftarrow> free_subtree node (s\<lparr>nodes := N\<rparr>); Some (0, s) }
       }
     }
   }"

section \<open>Starting up\<close>

definition fs_reset :: "'a fs_state_scheme \<Rightarrow> 'a fs_state_scheme option" where
  "fs_reset s = do {
     s \<leftarrow> (if root_node s \<noteq> NULL
           then do {
             n \<leftarrow> nodes s (root_node s);
             s \<leftarrow> free_siblings (n_children n) s;
             n \<leftarrow> nodes s (root_node s);
             Some (s\<lparr>nodes := (nodes s)(root_node s \<mapsto> n\<lparr>n_children := NULL\<rparr>)\<rparr>)
           }
           else do {
             (p, s) \<leftarrow> node_new ''/'' FS_DIR NULL s;
             Some (s\<lparr>root_node := p\<rparr>)
           });
     Some (s\<lparr>current_dir := root_node s\<rparr>)
   }"

fun create_dirs :: "char \<Rightarrow> string list \<Rightarrow> 'a fs_state_scheme \<Rightarrow> 'a fs_state_scheme option" where
  "create_dirs r [] s = Some s"
| "create_dirs r (path # ps) s = do { (p, s) \<leftarrow> fs_create r path FS_DIR s; create_dirs r ps s }"

definition motd_text :: string where
  "motd_text = ''Welcome to LightningOS.'' @ [LF]
     @ ''32-bit protected mode, preemptive tasks, ATA disk, no paging yet.'' @ [LF]
     @ ''Type '' @ [CHR 0x27] @ ''help'' @ [CHR 0x27] @ '' to see what the shell can do.'' @ [LF]"

definition version_format :: string where
  "version_format = ''%s %s'' @ [LF] @ ''codename %s'' @ [LF] @ ''arch %s'' @ [LF] @ ''built %s'' @ [LF]"

text \<open>
  \<open>stamp\<close> is the build stamp.  The two updates of the globals come after the root is made;
  \<open>r\<close> is the stack residue as in \<open>fs_create\<close>.
\<close>

definition fs_init :: "char \<Rightarrow> string \<Rightarrow> 'a fs_state_scheme \<Rightarrow> 'a fs_state_scheme option" where
  "fs_init r stamp s = do {
     (p, s) \<leftarrow> node_new ''/'' FS_DIR NULL s;
     let s = s\<lparr>root_node := p, current_dir := p\<rparr>;
     s \<leftarrow> create_dirs r [''/bin'', ''/etc'', ''/dev'', ''/tmp'', ''/home'', ''/root''] s;
     (file, s) \<leftarrow> fs_create r ''/etc/motd'' FS_FILE s;
     (rc, s) \<leftarrow> fs_write file motd_text False s;
     (file, s) \<leftarrow> fs_create r ''/etc/hostname'' FS_FILE s;
     (rc, s) \<leftarrow> fs_write file (''lightning'' @ [LF]) False s;
     (file, s) \<leftarrow> fs_create r ''/etc/version'' FS_FILE s;
     line \<leftarrow> ksnprintf 160 version_format
       [VStr (Some LOS_NAME), VStr (Some LOS_RELEASE), VStr (Some LOS_CODENAME),
        VStr (Some LOS_ARCH), VStr (Some stamp)];
     (rc, s) \<leftarrow> fs_write file line False s;
     (file, s) \<leftarrow> fs_create r ''/etc/passwd'' FS_FILE s;
     Some s
   }"

section \<open>The path of a node\<close>

text \<open>The parts, from the node upwards, at most \<open>k\<close> of them.\<close>

fun abs_parts :: "(ptr \<Rightarrow> fs_node option) \<Rightarrow> ptr \<Rightarrow> nat \<Rightarrow> string list option" where
  "abs_parts N p 0 = Some []"
| "abs_parts N p (Suc k) =
     (if p = NULL then Some []
      else do {
        n \<leftarrow> N p;
        if n_parent n = NULL then Some []
        else do { ps \<leftarrow> abs_parts N (n_parent n) k; Some (n_name n # ps) }
      })"

fun join_parts :: "nat \<Rightarrow> string \<Rightarrow> string list \<Rightarrow> string" where
  "join_parts sz out [] = out"
| "join_parts sz out (x # xs) =
     (if length out + length x + 2 \<ge> sz then out else join_parts sz (out @ ''/'' @ x) xs)"

text \<open>\<open>out\<close> is the string the buffer holds before the call.\<close>

definition fs_abspath :: "ptr \<Rightarrow> string \<Rightarrow> nat \<Rightarrow> 'a fs_state_scheme \<Rightarrow> string option" where
  "fs_abspath node out sz s =
     (if node = NULL \<or> sz = 0 then Some out
      else do {
        ps \<leftarrow> abs_parts (nodes s) node 32;
        Some (if ps = [] then take (sz - 1) ''/'' else join_parts sz [] (rev ps))
      })"

end
