(* ===== verification/Ramfs_Tree.thy ===== *)
theory Ramfs_Tree
  imports Ramfs
begin

text \<open>
  The shape of the node graph: a tree of sibling lists, the paths into it, and what linking
  and unlinking a node do to it.  \<open>K p\<close> is the list of children of \<open>p\<close> in order and \<open>d p\<close>
  its depth; both are ghosts, determined by the pointers.
\<close>

section \<open>The loops over sibling lists\<close>

abbreviation name_at :: "(ptr \<Rightarrow> fs_node option) \<Rightarrow> ptr \<Rightarrow> string" where
  "name_at N p \<equiv> n_name (the (N p))"

lemma find_sibling_chain:
  "chain N n_next p as 0 \<Longrightarrow>
     \<exists>q. find_sibling N name p = Some q \<and>
       (q = 0 \<longrightarrow> (\<forall>a\<in>set as. name_at N a \<noteq> name)) \<and> (q \<noteq> 0 \<longrightarrow> q \<in> set as \<and> name_at N q = name)"
proof (induction as arbitrary: p)
  case Nil
  then show ?case by (simp add: find_sibling.simps)
next
  case (Cons a as)
  then obtain n where n: "N a = Some n" "p = a" "a \<noteq> 0" and c: "chain N n_next (n_next n) as 0" by auto
  show ?case
  proof (cases "n_name n = name")
    case True
    with n have "find_sibling N name p = Some a" by (simp add: find_sibling.simps)
    with True n show ?thesis by (intro exI [of _ a]) simp
  next
    case False
    with n have "find_sibling N name p = find_sibling N name (n_next n)" by (simp add: find_sibling.simps)
    moreover from Cons.IH [OF c] obtain q where "find_sibling N name (n_next n) = Some q"
      "q = 0 \<longrightarrow> (\<forall>b\<in>set as. name_at N b \<noteq> name)" "q \<noteq> 0 \<longrightarrow> q \<in> set as \<and> name_at N q = name" by blast
    ultimately show ?thesis using False n by (intro exI [of _ q]) simp
  qed
qed

lemma last_sibling_chain:
  "chain N n_next p as 0 \<Longrightarrow> as \<noteq> [] \<Longrightarrow> last_sibling N p = Some (last as)"
proof (induction as arbitrary: p)
  case Nil
  then show ?case by simp
next
  case (Cons a as)
  then obtain n where n: "N a = Some n" "p = a" and c: "chain N n_next (n_next n) as 0" by auto
  from chain_null_iff [OF c] Cons.IH [OF c] n show ?case by (simp add: last_sibling.simps)
qed

lemma find_prev_chain:
  "chain N n_next p (xs @ a # node # ys) 0 \<Longrightarrow> find_prev N node p = Some a"
proof (induction xs arbitrary: p)
  case Nil
  then show ?case by (auto simp: find_prev.simps)
next
  case (Cons x xs)
  then obtain n where n: "N x = Some n" "p = x" "x \<noteq> 0"
    and c: "chain N n_next (n_next n) (xs @ a # node # ys) 0" by auto
  from chain_distinct [OF c] have "n_next n \<noteq> node" using c by (cases xs) auto
  with Cons.IH [OF c] n show ?case by (simp add: find_prev.simps)
qed

section \<open>The tree\<close>

definition tree_ok :: "(ptr \<Rightarrow> fs_node option) \<Rightarrow> ptr \<Rightarrow> (ptr \<Rightarrow> ptr list) \<Rightarrow> (ptr \<Rightarrow> nat) \<Rightarrow> bool" where
  "tree_ok N r K d \<longleftrightarrow>
     finite (dom N) \<and> 0 \<notin> dom N \<and>
     (\<exists>n. N r = Some n \<and> n_parent n = 0 \<and> n_type n = FS_DIR) \<and> d r = 0 \<and>
     (\<forall>p n. N p = Some n \<longrightarrow>
        chain N n_next (n_children n) (K p) 0 \<and> (n_type n = FS_FILE \<longrightarrow> K p = []) \<and>
        (\<forall>c\<in>set (K p). \<exists>m. N c = Some m \<and> n_parent m = p \<and> d c = Suc (d p)) \<and>
        (p \<noteq> r \<longrightarrow> n_parent n \<in> dom N \<and> p \<in> set (K (n_parent n))))"

definition name_ok :: "string \<Rightarrow> bool" where
  "name_ok nm \<longleftrightarrow> nm \<noteq> [] \<and> length nm < FS_NAME_MAX \<and> CHR ''/'' \<notin> set nm \<and> NUL \<notin> set nm"

definition names_ok :: "(ptr \<Rightarrow> fs_node option) \<Rightarrow> (ptr \<Rightarrow> ptr list) \<Rightarrow> bool" where
  "names_ok N K \<longleftrightarrow>
     (\<forall>p\<in>dom N. inj_on (name_at N) (set (K p)) \<and> (\<forall>c\<in>set (K p). name_ok (name_at N c)))"

lemma tree_finite: "tree_ok N r K d \<Longrightarrow> finite (dom N)" by (simp add: tree_ok_def)
lemma tree_null: "tree_ok N r K d \<Longrightarrow> N 0 = None" by (auto simp: tree_ok_def)

lemma tree_root:
  "tree_ok N r K d \<Longrightarrow> \<exists>n. N r = Some n \<and> n_parent n = 0 \<and> n_type n = FS_DIR \<and> r \<noteq> 0"
  by (force simp: tree_ok_def)

lemma tree_root_depth: "tree_ok N r K d \<Longrightarrow> d r = 0"
  by (simp add: tree_ok_def)

lemma tree_chain: "tree_ok N r K d \<Longrightarrow> N p = Some n \<Longrightarrow> chain N n_next (n_children n) (K p) 0"
  by (simp add: tree_ok_def)

lemma tree_kid:
  assumes "tree_ok N r K d" "p \<in> dom N" "c \<in> set (K p)"
  shows "\<exists>m. N c = Some m \<and> n_parent m = p \<and> d c = Suc (d p) \<and> c \<noteq> r \<and> c \<noteq> 0"
proof -
  from assms obtain m where m: "N c = Some m" "n_parent m = p" "d c = Suc (d p)"
    unfolding tree_ok_def by blast
  moreover have "c \<noteq> r" using m tree_root_depth [OF assms(1)] by auto
  moreover have "c \<noteq> 0" using m tree_null [OF assms(1)] by auto
  ultimately show ?thesis by blast
qed

lemma tree_file_kids: "tree_ok N r K d \<Longrightarrow> N p = Some n \<Longrightarrow> n_type n = FS_FILE \<Longrightarrow> K p = []"
  by (simp add: tree_ok_def)

lemma tree_parent:
  "tree_ok N r K d \<Longrightarrow> N p = Some n \<Longrightarrow> p \<noteq> r \<Longrightarrow> n_parent n \<in> dom N \<and> p \<in> set (K (n_parent n))"
  by (simp add: tree_ok_def)

lemma tree_parent_nonnull:
  assumes "tree_ok N r K d" "N p = Some n" shows "n_parent n = 0 \<longleftrightarrow> p = r"
  using tree_parent [OF assms] tree_root [OF assms(1)] tree_null [OF assms(1)] assms(2)
  by (metis domIff option.sel)

lemma tree_parent_dir:
  assumes "tree_ok N r K d" "N p = Some n" "p \<noteq> r"
  shows "\<exists>m. N (n_parent n) = Some m \<and> n_type m = FS_DIR"
proof -
  from tree_parent [OF assms] obtain m where m: "N (n_parent n) = Some m" "p \<in> set (K (n_parent n))" by auto
  with tree_file_kids [OF assms(1) m(1)] have "n_type m \<noteq> FS_FILE" by auto
  with m(1) show ?thesis by (cases "n_type m") auto
qed

lemma tree_distinct: "tree_ok N r K d \<Longrightarrow> p \<in> dom N \<Longrightarrow> distinct (K p)"
  using chain_distinct tree_chain by blast

lemma tree_kid_parent:
  "tree_ok N r K d \<Longrightarrow> p \<in> dom N \<Longrightarrow> c \<in> set (K p) \<Longrightarrow> N c = Some m \<Longrightarrow> n_parent m = p"
  using tree_kid [of N r K d p c] by auto

lemma tree_kids_disjoint:
  assumes "tree_ok N r K d" "p \<in> dom N" "q \<in> dom N" "c \<in> set (K p)" "c \<in> set (K q)"
  shows "p = q"
  using tree_kid [OF assms(1,2,4)] tree_kid [OF assms(1,3,5)] by auto

lemma find_child_tree:
  assumes "tree_ok N r K d" "p \<in> dom N"
  shows "\<exists>q. find_child N p c = Some q \<and>
    (q = 0 \<longrightarrow> (\<forall>a\<in>set (K p). name_at N a \<noteq> c)) \<and> (q \<noteq> 0 \<longrightarrow> q \<in> set (K p) \<and> name_at N q = c)"
proof -
  from assms(2) obtain n where n: "N p = Some n" by auto
  then have "p \<noteq> 0" using tree_null [OF assms(1)] by auto
  show ?thesis
  proof (cases "n_type n = FS_DIR")
    case True
    then show ?thesis
      using find_sibling_chain [OF tree_chain [OF assms(1) n], of c] n \<open>p \<noteq> 0\<close>
      by (simp add: find_child_def)
  next
    case False
    then have "n_type n = FS_FILE" by (cases "n_type n") auto
    with tree_file_kids [OF assms(1) n] n \<open>p \<noteq> 0\<close> show ?thesis by (simp add: find_child_def)
  qed
qed

text \<open>With distinct names the lookup finds the one child of that name.\<close>

lemma find_child_iff:
  assumes "tree_ok N r K d" "names_ok N K" "p \<in> dom N"
  shows "find_child N p c = Some q \<and> q \<noteq> 0 \<longleftrightarrow> q \<in> set (K p) \<and> name_at N q = c"
proof -
  from find_child_tree [OF assms(1,3), of c] obtain q' where
    q': "find_child N p c = Some q'" "q' = 0 \<longrightarrow> (\<forall>a\<in>set (K p). name_at N a \<noteq> c)"
    "q' \<noteq> 0 \<longrightarrow> q' \<in> set (K p) \<and> name_at N q' = c" by blast
  have "inj_on (name_at N) (set (K p))" using assms(2,3) by (simp add: names_ok_def)
  moreover have "c' \<in> set (K p) \<Longrightarrow> c' \<noteq> 0" for c' using tree_kid [OF assms(1,3)] by blast
  ultimately show ?thesis using q' by (auto dest: inj_onD)
qed

section \<open>Paths into the tree\<close>

fun descend :: "(ptr \<Rightarrow> fs_node option) \<Rightarrow> ptr \<Rightarrow> string list \<Rightarrow> ptr option" where
  "descend N p [] = Some p"
| "descend N p (c # cs) =
     (case find_child N p c of None \<Rightarrow> None | Some q \<Rightarrow> if q = 0 then None else descend N q cs)"

lemma descend_append:
  "descend N p (xs @ ys) = (case descend N p xs of None \<Rightarrow> None | Some q \<Rightarrow> descend N q ys)"
  by (induction xs arbitrary: p) (auto split: option.split)

lemma descend_snoc:
  assumes "tree_ok N r K d" "names_ok N K" "descend N p xs = Some q'" "q' \<in> dom N"
  shows "descend N p (xs @ [c]) = Some q \<longleftrightarrow> q \<in> set (K q') \<and> name_at N q = c"
  using find_child_iff [OF assms(1,2,4), of c q] assms(3)
  by (auto simp: descend_append split: option.splits if_splits)

lemma descend_dom:
  "tree_ok N r K d \<Longrightarrow> p \<in> dom N \<Longrightarrow> descend N p xs = Some q \<Longrightarrow> q \<in> dom N \<and> d q = d p + length xs"
proof (induction xs arbitrary: p)
  case Nil
  then show ?case by simp
next
  case (Cons c cs)
  from find_child_tree [OF Cons.prems(1,2), of c] Cons.prems(3) obtain p' where
    p': "p' \<in> set (K p)" "descend N p' cs = Some q" by (auto split: if_splits)
  from tree_kid [OF Cons.prems(1,2) p'(1)] have "p' \<in> dom N" "d p' = Suc (d p)" by auto
  with Cons.IH [OF Cons.prems(1) this(1) p'(2)] show ?case by simp
qed

lemma descend_inj:
  assumes "tree_ok N r K d" "names_ok N K" "p \<in> dom N"
  shows "descend N p xs = Some q \<Longrightarrow> descend N p ys = Some q \<Longrightarrow> xs = ys"
proof (induction xs arbitrary: q ys rule: rev_induct)
  case Nil
  then have "d q = d p" by simp
  with descend_dom [OF assms(1,3) Nil(2)] show ?case by simp
next
  case (snoc x xs)
  have "length ys = Suc (length xs)"
    using descend_dom [OF assms(1,3) snoc.prems(1)] descend_dom [OF assms(1,3) snoc.prems(2)] by simp
  then obtain y zs where ys: "ys = zs @ [y]" by (metis length_Suc_conv_rev)
  from snoc.prems(1) obtain u where u: "descend N p xs = Some u" by (auto simp: descend_append split: option.splits)
  from snoc.prems(2) ys obtain v where v: "descend N p zs = Some v" by (auto simp: descend_append split: option.splits)
  have ud: "u \<in> dom N" "v \<in> dom N" using u v descend_dom [OF assms(1,3)] by blast+
  have "q \<in> set (K u)" "name_at N q = x" using descend_snoc [OF assms(1,2) u ud(1)] snoc.prems(1) by blast+
  moreover have "q \<in> set (K v)" "name_at N q = y"
    using descend_snoc [OF assms(1,2) v ud(2)] snoc.prems(2) ys by blast+
  ultimately have "u = v" "x = y" using tree_kids_disjoint [OF assms(1) ud] by auto
  with snoc.IH [OF u] v ys show ?case by simp
qed

lemma path_exists:
  assumes "tree_ok N r K d" "names_ok N K"
  shows "p \<in> dom N \<Longrightarrow> \<exists>xs. descend N r xs = Some p"
proof (induction "d p" arbitrary: p rule: less_induct)
  case less
  show ?case
  proof (cases "p = r")
    case True
    then have "descend N r [] = Some p" by simp
    then show ?thesis by blast
  next
    case False
    from less.prems obtain n where n: "N p = Some n" by auto
    from tree_parent [OF assms(1) n False] have pp: "n_parent n \<in> dom N" "p \<in> set (K (n_parent n))" by auto
    from tree_kid [OF assms(1) this] have "d (n_parent n) < d p" by auto
    from less.hyps [OF this pp(1)] obtain xs where xs: "descend N r xs = Some (n_parent n)" by blast
    from descend_snoc [OF assms xs pp(1)] pp(2) have "descend N r (xs @ [n_name n]) = Some p"
      using n by simp
    then show ?thesis by blast
  qed
qed

definition below :: "(ptr \<Rightarrow> fs_node option) \<Rightarrow> ptr \<Rightarrow> ptr set" where
  "below N p = {q. \<exists>xs. descend N p xs = Some q}"

lemma below_self [simp]: "p \<in> below N p"
  unfolding below_def by (auto intro: exI [of _ "[]"])

lemma below_subset: "tree_ok N r K d \<Longrightarrow> p \<in> dom N \<Longrightarrow> below N p \<subseteq> dom N"
  using descend_dom by (fastforce simp: below_def)

lemma below_kids:
  assumes "tree_ok N r K d" "names_ok N K" "p \<in> dom N"
  shows "below N p = insert p (\<Union>c\<in>set (K p). below N c)"
proof (intro equalityI subsetI)
  fix q assume "q \<in> below N p"
  then obtain xs where xs: "descend N p xs = Some q" by (auto simp: below_def)
  show "q \<in> insert p (\<Union>c\<in>set (K p). below N c)"
  proof (cases xs)
    case Nil
    with xs show ?thesis by simp
  next
    case (Cons x ys)
    with xs obtain c where c: "find_child N p x = Some c" "c \<noteq> 0" "descend N c ys = Some q"
      by (auto split: option.splits if_splits)
    with find_child_iff [OF assms] have "c \<in> set (K p)" by blast
    with c(3) show ?thesis by (auto simp: below_def)
  qed
next
  fix q assume "q \<in> insert p (\<Union>c\<in>set (K p). below N c)"
  then consider "q = p" | c ys where "c \<in> set (K p)" "descend N c ys = Some q"
    by (auto simp: below_def)
  then show "q \<in> below N p"
  proof cases
    case 1
    then show ?thesis by simp
  next
    case 2
    with find_child_iff [OF assms, of "name_at N c" c] have "descend N p (name_at N c # ys) = Some q"
      by simp
    then show ?thesis unfolding below_def by blast
  qed
qed

lemma below_disjoint:
  assumes "tree_ok N r K d" "names_ok N K" "p \<in> dom N" "a \<in> set (K p)" "b \<in> set (K p)" "a \<noteq> b"
  shows "below N a \<inter> below N b = {}"
proof (rule ccontr)
  assume "\<not> ?thesis"
  then obtain q xs ys where q: "descend N a xs = Some q" "descend N b ys = Some q"
    by (auto simp: below_def)
  have "descend N p (name_at N a # xs) = Some q" "descend N p (name_at N b # ys) = Some q"
    using q find_child_iff [OF assms(1-3), of "name_at N a" a]
      find_child_iff [OF assms(1-3), of "name_at N b" b] assms(4,5) by auto
  then have "name_at N a = name_at N b" using descend_inj [OF assms(1-3)] by blast
  moreover have "inj_on (name_at N) (set (K p))" using assms(2,3) by (simp add: names_ok_def)
  ultimately show False using assms(4-6) by (auto dest: inj_onD)
qed

lemma below_parent:
  assumes "tree_ok N r K d" "names_ok N K" "p \<in> dom N" "q \<in> below N p" "q \<noteq> p" "N q = Some n"
  shows "n_parent n \<in> below N p"
proof -
  from assms(4) obtain xs where xs: "descend N p xs = Some q" by (auto simp: below_def)
  with assms(5) obtain y ys where ys: "xs = ys @ [y]" by (cases xs rule: rev_cases) auto
  with xs obtain u where u: "descend N p ys = Some u" by (auto simp: descend_append split: option.splits)
  have ud: "u \<in> dom N" using descend_dom [OF assms(1,3) u] by simp
  have "q \<in> set (K u)" using descend_snoc [OF assms(1,2) u ud] xs ys by blast
  from tree_kid_parent [OF assms(1) ud this assms(6)] have "n_parent n = u" .
  with u show ?thesis by (auto simp: below_def)
qed

section \<open>Subtrees as values\<close>

text \<open>A list of siblings and everything under them, as the recursion of \<open>free_subtree\<close> meets them.\<close>

datatype gtree = GT ptr "gtree list"

fun reps :: "(ptr \<Rightarrow> fs_node option) \<Rightarrow> ptr \<Rightarrow> gtree list \<Rightarrow> bool" where
  "reps N p [] \<longleftrightarrow> p = 0"
| "reps N p (GT a cs # ts) \<longleftrightarrow>
     p = a \<and> a \<noteq> 0 \<and> (\<exists>n. N a = Some n \<and> reps N (n_children n) cs \<and> reps N (n_next n) ts)"

fun addrs :: "gtree list \<Rightarrow> ptr list" where
  "addrs [] = []"
| "addrs (GT a cs # ts) = a # addrs cs @ addrs ts"

lemma reps_cong:
  "reps N p ts \<Longrightarrow> (\<And>a. a \<in> set (addrs ts) \<Longrightarrow> N' a = N a) \<Longrightarrow> reps N' p ts"
proof (induction N p ts rule: reps.induct)
  case (1 N p)
  then show ?case by simp
next
  case (2 N p a cs ts)
  from "2.prems"(1) obtain n where n: "N a = Some n" "reps N (n_children n) cs" "reps N (n_next n) ts" "p = a" "a \<noteq> 0"
    by auto
  have "N' a = Some n" using "2.prems"(2) [of a] n by simp
  with n "2.IH"(1) [OF n(2)] "2.IH"(2) [OF n(3)] "2.prems"(2) show ?case by auto
qed

lemma reps_dom: "reps N p ts \<Longrightarrow> set (addrs ts) \<subseteq> dom N"
proof (induction N p ts rule: reps.induct)
  case (1 N p)
  then show ?case by simp
next
  case (2 N p a cs ts)
  from "2.prems" obtain n where n: "N a = Some n" "reps N (n_children n) cs" "reps N (n_next n) ts" by auto
  with "2.IH"(1) [OF n(2)] "2.IH"(2) [OF n(3)] show ?case by auto
qed

lemma reps_of_chain:
  "chain N n_next q as 0 \<Longrightarrow> (\<And>c n. c \<in> set as \<Longrightarrow> N c = Some n \<Longrightarrow> reps N (n_children n) (f c)) \<Longrightarrow>
     reps N q (map (\<lambda>c. GT c (f c)) as)"
  by (induction as arbitrary: q) auto

lemma set_addrs_map: "set (addrs (map (\<lambda>c. GT c (f c)) as)) = (\<Union>c\<in>set as. insert c (set (addrs (f c))))"
  by (induction as) auto

lemma distinct_addrs_map:
  "distinct as \<Longrightarrow> (\<And>c. c \<in> set as \<Longrightarrow> c \<notin> set (addrs (f c)) \<and> distinct (addrs (f c))) \<Longrightarrow>
   (\<And>a b. a \<in> set as \<Longrightarrow> b \<in> set as \<Longrightarrow> a \<noteq> b \<Longrightarrow>
      insert a (set (addrs (f a))) \<inter> insert b (set (addrs (f b))) = {}) \<Longrightarrow>
   distinct (addrs (map (\<lambda>c. GT c (f c)) as))"
proof (induction as)
  case Nil
  then show ?case by simp
next
  case (Cons c as)
  have "insert c (set (addrs (f c))) \<inter> insert b (set (addrs (f b))) = {}" if "b \<in> set as" for b
    using Cons.prems(1) Cons.prems(3) [of c b] that by auto
  then have "insert c (set (addrs (f c))) \<inter> set (addrs (map (\<lambda>c. GT c (f c)) as)) = {}"
    unfolding set_addrs_map by blast
  moreover have "distinct (addrs (map (\<lambda>c. GT c (f c)) as))"
    using Cons.prems by (intro Cons.IH) auto
  ultimately show ?case using Cons.prems(2) [of c] by auto
qed

lemma below_self_notin_kid:
  assumes "tree_ok N r K d" "p \<in> dom N" "c \<in> set (K p)"
  shows "p \<notin> below N c"
proof
  assume "p \<in> below N c"
  then obtain xs where xs: "descend N c xs = Some p" by (auto simp: below_def)
  from tree_kid [OF assms] have "c \<in> dom N" "d c = Suc (d p)" by auto
  with descend_dom [OF assms(1) this(1) xs] show False by simp
qed

lemma reps_exists:
  assumes t: "tree_ok N r K d" and nm: "names_ok N K"
  shows "N p = Some n \<Longrightarrow> \<exists>ts. reps N (n_children n) ts \<and> set (addrs ts) = below N p - {p} \<and> distinct (addrs ts)"
proof -
  obtain M where M: "\<And>q. q \<in> dom N \<Longrightarrow> d q \<le> M"
    using finite_imageI [OF tree_finite [OF t], of d] by (meson Max_ge image_eqI)
  show "N p = Some n \<Longrightarrow> \<exists>ts. reps N (n_children n) ts \<and> set (addrs ts) = below N p - {p} \<and> distinct (addrs ts)"
  proof (induction "M - d p" arbitrary: p n rule: less_induct)
    case less
    have p: "p \<in> dom N" using less.prems by auto
    have "\<exists>ts. \<forall>m. N c = Some m \<longrightarrow> reps N (n_children m) ts \<and> set (addrs ts) = below N c - {c} \<and> distinct (addrs ts)"
      if c: "c \<in> set (K p)" for c
    proof -
      from tree_kid [OF t p c] obtain m where m: "N c = Some m" "d c = Suc (d p)" by auto
      then have "c \<in> dom N" by auto
      with M [OF this] m(2) have "M - d c < M - d p" by auto
      from less.hyps [OF this m(1)] m(1) show ?thesis by auto
    qed
    then obtain f where f: "\<And>c m. c \<in> set (K p) \<Longrightarrow> N c = Some m \<Longrightarrow>
        reps N (n_children m) (f c) \<and> set (addrs (f c)) = below N c - {c} \<and> distinct (addrs (f c))"
      by metis
    have f': "set (addrs (f c)) = below N c - {c} \<and> distinct (addrs (f c))" if "c \<in> set (K p)" for c
      using f [OF that] tree_kid [OF t p that] by auto
    then have ins: "insert c (set (addrs (f c))) = below N c" if "c \<in> set (K p)" for c
      using that by auto
    let ?ts = "map (\<lambda>c. GT c (f c)) (K p)"
    have "reps N (n_children n) ?ts"
      using tree_chain [OF t less.prems] f by (intro reps_of_chain) auto
    moreover have "set (addrs ?ts) = (\<Union>c\<in>set (K p). below N c)"
      unfolding set_addrs_map using ins by auto
    then have "set (addrs ?ts) = below N p - {p}"
      using below_kids [OF t nm p] below_self_notin_kid [OF t p] by auto
    moreover have "distinct (addrs ?ts)"
      using tree_distinct [OF t p] f' ins below_disjoint [OF t nm p]
      by (intro distinct_addrs_map) auto
    ultimately show ?case by blast
  qed
qed

section \<open>Linking and unlinking\<close>

text \<open>\<open>N'\<close> has the nodes of \<open>N\<close>, with other list pointers.\<close>

definition relinked :: "(ptr \<Rightarrow> fs_node option) \<Rightarrow> (ptr \<Rightarrow> fs_node option) \<Rightarrow> bool" where
  "relinked N N' \<longleftrightarrow> dom N' = dom N \<and>
     (\<forall>q n. N q = Some n \<longrightarrow> (\<exists>c x. N' q = Some (n\<lparr>n_children := c, n_next := x\<rparr>)))"

lemma relinked_D: "relinked N N' \<Longrightarrow> N q = Some n \<Longrightarrow> \<exists>c x. N' q = Some (n\<lparr>n_children := c, n_next := x\<rparr>)"
  by (simp add: relinked_def)

lemma relinked_children: "N p = Some n \<Longrightarrow> relinked N (N(p \<mapsto> n\<lparr>n_children := c\<rparr>))"
  unfolding relinked_def
proof (intro conjI allI impI)
  assume p: "N p = Some n"
  then show "dom (N(p \<mapsto> n\<lparr>n_children := c\<rparr>)) = dom N" by auto
  fix q m assume "N q = Some m"
  with p show "\<exists>c' x. (N(p \<mapsto> n\<lparr>n_children := c\<rparr>)) q = Some (m\<lparr>n_children := c', n_next := x\<rparr>)"
    by (cases "q = p"; cases m) auto
qed

lemma relinked_next: "N p = Some n \<Longrightarrow> relinked N (N(p \<mapsto> n\<lparr>n_next := c\<rparr>))"
  unfolding relinked_def
proof (intro conjI allI impI)
  assume p: "N p = Some n"
  then show "dom (N(p \<mapsto> n\<lparr>n_next := c\<rparr>)) = dom N" by auto
  fix q m assume "N q = Some m"
  with p show "\<exists>c' x. (N(p \<mapsto> n\<lparr>n_next := c\<rparr>)) q = Some (m\<lparr>n_children := c', n_next := x\<rparr>)"
    by (cases "q = p"; cases m) auto
qed

lemma relinked_name: "relinked N N' \<Longrightarrow> q \<in> dom N \<Longrightarrow> name_at N' q = name_at N q"
  using relinked_D by fastforce

text \<open>The part of \<open>tree_ok\<close> that does not speak of the list pointers.\<close>

definition tree_shape :: "(ptr \<Rightarrow> fs_node option) \<Rightarrow> ptr \<Rightarrow> (ptr \<Rightarrow> ptr list) \<Rightarrow> (ptr \<Rightarrow> nat) \<Rightarrow> bool" where
  "tree_shape N r K d \<longleftrightarrow>
     finite (dom N) \<and> 0 \<notin> dom N \<and>
     (\<exists>n. N r = Some n \<and> n_parent n = 0 \<and> n_type n = FS_DIR) \<and> d r = 0 \<and>
     (\<forall>p n. N p = Some n \<longrightarrow>
        (n_type n = FS_FILE \<longrightarrow> K p = []) \<and>
        (\<forall>c\<in>set (K p). \<exists>m. N c = Some m \<and> n_parent m = p \<and> d c = Suc (d p)) \<and>
        (p \<noteq> r \<longrightarrow> n_parent n \<in> dom N \<and> p \<in> set (K (n_parent n))))"

lemma tree_ok_shape:
  "tree_ok N r K d \<longleftrightarrow>
     tree_shape N r K d \<and> (\<forall>p n. N p = Some n \<longrightarrow> chain N n_next (n_children n) (K p) 0)"
  unfolding tree_ok_def tree_shape_def by blast

lemma shape_relinked:
  assumes re: "relinked N N'" and sh: "tree_shape N r K d" shows "tree_shape N' r K d"
proof -
  have dom: "dom N' = dom N" using re by (simp add: relinked_def)
  have down: "\<exists>m. N q = Some m \<and> n_type m = n_type n \<and> n_parent m = n_parent n" if "N' q = Some n" for q n
  proof -
    from that dom obtain m where m: "N q = Some m" by blast
    from relinked_D [OF re m] that m show ?thesis by auto
  qed
  have fore: "\<exists>m. N' q = Some m \<and> n_type m = n_type n \<and> n_parent m = n_parent n" if "N q = Some n" for q n
    using relinked_D [OF re that] by auto
  show ?thesis
    unfolding tree_shape_def dom
  proof (intro conjI allI impI)
    show "\<exists>n. N' r = Some n \<and> n_parent n = 0 \<and> n_type n = FS_DIR"
      using sh fore unfolding tree_shape_def by metis
    fix p n assume p: "N' p = Some n"
    then obtain m where m: "N p = Some m" "n_type m = n_type n" "n_parent m = n_parent n" using down by blast
    show "K p = []" if "n_type n = FS_FILE" using sh m that unfolding tree_shape_def by metis
    show "\<forall>c\<in>set (K p). \<exists>m. N' c = Some m \<and> n_parent m = p \<and> d c = Suc (d p)"
      using sh m(1) fore unfolding tree_shape_def by metis
    show "n_parent n \<in> dom N" if "p \<noteq> r" using sh m that unfolding tree_shape_def by metis
    show "p \<in> set (K (n_parent n))" if "p \<noteq> r" using sh m that unfolding tree_shape_def by metis
  qed (use sh in \<open>simp_all add: tree_shape_def\<close>)
qed

text \<open>A new leaf at the end of a directory.\<close>

lemma shape_add:
  assumes t: "tree_ok N r K d" and pd: "N u = Some pd" "n_type pd = FS_DIR"
    and p: "p \<notin> dom N" "p \<noteq> 0" and leaf: "n_parent leaf = u"
  shows "tree_shape (N(p \<mapsto> leaf)) r (K(u := K u @ [p], p := [])) (d(p := Suc (d u)))"
proof -
  have pu: "p \<noteq> u" "p \<noteq> r" using p pd tree_root [OF t] by auto
  have kp: "c \<noteq> p" if "q \<in> dom N" "c \<in> set (K q)" for q c using tree_kid [OF t that] p by auto
  show ?thesis
    unfolding tree_shape_def
  proof (intro conjI allI impI)
    show "\<exists>n. (N(p \<mapsto> leaf)) r = Some n \<and> n_parent n = 0 \<and> n_type n = FS_DIR"
      using tree_root [OF t] pu by auto
    show "(d(p := Suc (d u))) r = 0" using tree_root_depth [OF t] pu by simp
    fix q n assume q: "(N(p \<mapsto> leaf)) q = Some n"
    show "(K(u := K u @ [p], p := [])) q = []" if "n_type n = FS_FILE"
      using q that tree_file_kids [OF t] pd pu by (auto split: if_splits)
    show "\<forall>c\<in>set ((K(u := K u @ [p], p := [])) q).
        \<exists>m. (N(p \<mapsto> leaf)) c = Some m \<and> n_parent m = q \<and> (d(p := Suc (d u))) c = Suc ((d(p := Suc (d u))) q)"
    proof
      fix c assume c: "c \<in> set ((K(u := K u @ [p], p := [])) q)"
      then have qp: "q \<noteq> p" by auto
      with q have qd: "q \<in> dom N" by auto
      show "\<exists>m. (N(p \<mapsto> leaf)) c = Some m \<and> n_parent m = q \<and> (d(p := Suc (d u))) c = Suc ((d(p := Suc (d u))) q)"
      proof (cases "c = p")
        case True
        with c kp qd qp have "q = u" by (auto split: if_splits)
        with True leaf qp show ?thesis by simp
      next
        case False
        with c qp have "c \<in> set (K q)" by (auto split: if_splits)
        with tree_kid [OF t qd] False qp show ?thesis by fastforce
      qed
    qed
    assume qr: "q \<noteq> r"
    show "n_parent n \<in> dom (N(p \<mapsto> leaf))"
      using q leaf pd tree_parent [OF t _ qr] by (auto split: if_splits)
    show "q \<in> set ((K(u := K u @ [p], p := [])) (n_parent n))"
    proof (cases "q = p")
      case True
      with q leaf pu show ?thesis by auto
    next
      case False
      with q have "N q = Some n" by simp
      with tree_parent [OF t this qr] p show ?thesis by auto
    qed
  qed (use tree_finite [OF t] tree_null [OF t] p in auto)
qed

lemma link_last_tree:
  assumes t: "tree_ok N r K d" and pd: "N u = Some pd" "n_type pd = FS_DIR"
    and p: "p \<notin> dom N" "p \<noteq> 0"
    and leaf: "n_parent leaf = u" "n_children leaf = 0" "n_next leaf = 0"
  shows "\<exists>N'. link_last p u (N(p \<mapsto> leaf)) = Some N' \<and> relinked (N(p \<mapsto> leaf)) N' \<and> N' p = Some leaf \<and>
    tree_ok N' r (K(u := K u @ [p], p := [])) (d(p := Suc (d u)))"
proof -
  let ?N = "N(p \<mapsto> leaf)" and ?K = "K(u := K u @ [p], p := [])" and ?d = "d(p := Suc (d u))"
  have pu: "p \<noteq> u" "u \<noteq> 0" using p pd tree_null [OF t] by auto
  have pk: "p \<notin> set (K q)" if "q \<in> dom N" for q using tree_kid [OF t that] p by blast
  have ch: "chain N n_next (n_children n) (K q) 0" if "N q = Some n" for q n using tree_chain [OF t that] .
  have sh: "tree_shape ?N r ?K ?d" using shape_add [OF t pd p leaf(1)] .
  show ?thesis
  proof (cases "n_children pd = 0")
    case True
    let ?M = "?N(u \<mapsto> pd\<lparr>n_children := p\<rparr>)"
    have "K u = []" using ch [OF pd(1)] True by simp
    have re: "relinked ?N ?M" using pd pu by (intro relinked_children) simp
    moreover have "chain ?M n_next (n_children n) (?K q) 0" if q: "?M q = Some n" for q n
    proof -
      consider "q = p" | "q = u" | "q \<noteq> p" "q \<noteq> u" by blast
      then show ?thesis
      proof cases
        case 1
        with q leaf pu show ?thesis by auto
      next
        case 2
        with q leaf pu p \<open>K u = []\<close> show ?thesis by auto
      next
        case 3
        with q have n: "N q = Some n" by simp
        then have "p \<notin> set (K q)" using pk by blast
        moreover have "chain (?N(u \<mapsto> pd\<lparr>n_children := p\<rparr>)) n_next (n_children n) (K q) 0 =
            chain ?N n_next (n_children n) (K q) 0"
          by (rule chain_upd_same) (use pd pu in simp_all)
        ultimately show ?thesis using ch [OF n] 3 by simp
      qed
    qed
    ultimately have "tree_ok ?M r ?K ?d" using shape_relinked [OF re sh] unfolding tree_ok_shape by blast
    moreover have "link_last p u ?N = Some ?M" using True pd pu by (simp add: link_last_def)
    moreover have "?M p = Some leaf" using pu by simp
    ultimately show ?thesis using re by blast
  next
    case False
    with chain_null_iff [OF ch [OF pd(1)]] obtain as l where K: "K u = as @ [l]"
      by (cases "K u" rule: rev_cases) auto
    then have lu: "l \<in> set (K u)" by simp
    from tree_kid [OF t _ lu] pd obtain ln where ln: "N l = Some ln" "l \<noteq> 0" by auto
    have pl: "p \<noteq> l" using ln p by auto
    let ?M = "?N(l \<mapsto> ln\<lparr>n_next := p\<rparr>)"
    have chu: "chain ?N n_next (n_children pd) (K u) 0" using ch [OF pd(1)] pk [OF domI, of u pd] pd(1) by simp
    have last: "last_sibling ?N (n_children pd) = Some l"
      using last_sibling_chain [OF chu] K by simp
    have re: "relinked ?N ?M" using ln pl by (intro relinked_next) simp
    moreover have "chain ?M n_next (n_children n) (?K q) 0" if q: "?M q = Some n" for q n
    proof (cases "q = p")
      case True
      with q leaf pl show ?thesis by auto
    next
      case qp: False
      have "\<exists>m. N q = Some m \<and> n_children m = n_children n"
        using q qp ln by (cases "q = l") auto
      then obtain m where m: "N q = Some m" "n_children m = n_children n" by blast
      show ?thesis
      proof (cases "q = u")
        case True
        have dist: "distinct (as @ [l])" using tree_distinct [OF t, of u] pd K by auto
        have "chain ?N n_next (n_children n) as l" using chu K m True pd by (auto simp: chain_append)
        then have "chain ?M n_next (n_children n) as l" using dist by simp
        then show ?thesis using True K qp ln pl leaf p by (auto simp: chain_append)
      next
        case False
        have "l \<notin> set (K q)"
        proof
          assume "l \<in> set (K q)"
          with tree_kids_disjoint [OF t _ _ this lu] m(1) pd(1) False show False by auto
        qed
        moreover have "p \<notin> set (K q)" using pk m(1) by blast
        ultimately show ?thesis using ch [OF m(1)] m(2) qp False by simp
      qed
    qed
    ultimately have "tree_ok ?M r ?K ?d" using shape_relinked [OF re sh] unfolding tree_ok_shape by blast
    moreover have "link_last p u ?N = Some ?M" using False pd pu last ln pl by (simp add: link_last_def)
    moreover have "?M p = Some leaf" using pl by simp
    ultimately show ?thesis using re by blast
  qed
qed

text \<open>Taking out a node with everything below it.\<close>

lemma below_trans: "q \<in> below N u \<Longrightarrow> u \<in> below N p \<Longrightarrow> q \<in> below N p"
proof -
  assume "q \<in> below N u" "u \<in> below N p"
  then obtain xs ys where "descend N u xs = Some q" "descend N p ys = Some u" by (auto simp: below_def)
  then have "descend N p (ys @ xs) = Some q" by (simp add: descend_append)
  then show ?thesis unfolding below_def by blast
qed

lemma below_closed_up:
  assumes t: "tree_ok N r K d" and nm: "names_ok N K" and p: "p \<in> dom N"
    and q: "q \<in> dom N" "q \<notin> below N p" and c: "c \<in> set (K q)" "c \<in> below N p"
  shows "c = p"
proof (rule ccontr)
  assume "c \<noteq> p"
  from tree_kid [OF t q(1) c(1)] obtain m where m: "N c = Some m" "n_parent m = q" by auto
  with below_parent [OF t nm p c(2) \<open>c \<noteq> p\<close> m(1)] q(2) show False by simp
qed

lemma parent_not_below:
  assumes t: "tree_ok N r K d" and p: "N p = Some n" "p \<noteq> r"
  shows "n_parent n \<notin> below N p"
  using below_self_notin_kid [OF t] tree_parent [OF t p] by blast

lemma root_not_below:
  assumes t: "tree_ok N r K d" and p: "p \<in> dom N" "p \<noteq> r"
  shows "r \<notin> below N p"
proof
  assume "r \<in> below N p"
  then obtain xs where xs: "descend N p xs = Some r" by (auto simp: below_def)
  with descend_dom [OF t p(1) xs] tree_root_depth [OF t] have "xs = []" by simp
  with xs p(2) show False by simp
qed

lemma shape_remove:
  assumes t: "tree_ok N r K d" and nm: "names_ok N K" and p: "N p = Some n" "p \<noteq> r"
  shows "tree_shape (N |` (- below N p)) r (K(n_parent n := remove1 p (K (n_parent n)))) d"
proof -
  let ?B = "below N p" and ?u = "n_parent n"
  let ?K = "K(?u := remove1 p (K ?u))"
  have pd: "p \<in> dom N" using p by auto
  have dist: "distinct (K ?u)" using tree_distinct [OF t] tree_parent [OF t p] by blast
  show ?thesis
    unfolding tree_shape_def
  proof (intro conjI allI impI)
    show "\<exists>n. (N |` (- ?B)) r = Some n \<and> n_parent n = 0 \<and> n_type n = FS_DIR"
      using tree_root [OF t] root_not_below [OF t pd p(2)] by auto
    fix q m assume q: "(N |` (- ?B)) q = Some m"
    then have qn: "N q = Some m" "q \<notin> ?B" by (auto simp: restrict_map_def split: if_splits)
    then have qd: "q \<in> dom N" by auto
    show "?K q = []" if "n_type m = FS_FILE"
      using tree_file_kids [OF t qn(1) that] by auto
    show "\<forall>c\<in>set (?K q). \<exists>m. (N |` (- ?B)) c = Some m \<and> n_parent m = q \<and> d c = Suc (d q)"
    proof
      fix c assume c: "c \<in> set (?K q)"
      have cK: "c \<in> set (K q)" using c set_remove1_subset [of p "K ?u"] by (auto split: if_splits)
      have "c \<noteq> p"
      proof
        assume "c = p"
        then have "?u = q" using tree_kid_parent [OF t qd cK] p by simp
        with c \<open>c = p\<close> dist show False by simp
      qed
      then have "c \<notin> ?B" using below_closed_up [OF t nm pd qd qn(2) cK] by blast
      with tree_kid [OF t qd cK] show "\<exists>m. (N |` (- ?B)) c = Some m \<and> n_parent m = q \<and> d c = Suc (d q)"
        by auto
    qed
    assume qr: "q \<noteq> r"
    from tree_parent [OF t qn(1) qr] have up: "n_parent m \<in> dom N" "q \<in> set (K (n_parent m))" by auto
    have qp: "q \<noteq> p" using qn(2) by auto
    have "n_parent m \<notin> ?B"
    proof
      assume "n_parent m \<in> ?B"
      have "q \<in> below N (n_parent m)" using below_kids [OF t nm up(1)] up(2) by fastforce
      then have "q \<in> ?B" using \<open>n_parent m \<in> ?B\<close> by (rule below_trans)
      with qn(2) show False by simp
    qed
    with up(1) show "n_parent m \<in> dom (N |` (- ?B))" by auto
    show "q \<in> set (?K (n_parent m))" using up(2) qp by auto
  qed (use tree_finite [OF t] tree_null [OF t] tree_root_depth [OF t] in auto)
qed

lemma shape_restrict_relinked:
  assumes re: "relinked N N1" and t: "tree_ok N r K d" and nm: "names_ok N K"
    and p: "N p = Some n" "p \<noteq> r"
  shows "tree_shape (N1 |` (- below N p)) r (K(n_parent n := remove1 p (K (n_parent n)))) d"
proof -
  have "relinked (N |` (- below N p)) (N1 |` (- below N p))"
    using re unfolding relinked_def dom_restrict by (simp add: restrict_map_def)
  from shape_relinked [OF this shape_remove [OF t nm p]] show ?thesis .
qed

lemma unlink_tree:
  assumes t: "tree_ok N r K d" and nm: "names_ok N K" and p: "N p = Some n" "p \<noteq> r"
  shows "\<exists>N1. unlink_node (n_parent n) p N = Some (True, N1) \<and> relinked N N1 \<and>
    (\<forall>q\<in>below N p. N1 q = N q) \<and>
    tree_ok (N1 |` (- below N p)) r (K(n_parent n := remove1 p (K (n_parent n)))) d"
proof -
  let ?B = "below N p" and ?u = "n_parent n"
  let ?K = "K(?u := remove1 p (K ?u))"
  have pd: "p \<in> dom N" using p by auto
  from tree_parent [OF t p] obtain ud where ud: "N ?u = Some ud" and pk: "p \<in> set (K ?u)" by auto
  have udom: "?u \<in> dom N" using ud by auto
  have uB: "?u \<notin> ?B" using parent_not_below [OF t p] .
  have dist: "distinct (K ?u)" using tree_distinct [OF t udom] .
  have chu: "chain N n_next (n_children ud) (K ?u) 0" using tree_chain [OF t ud] .
  have outB: "c \<notin> ?B" if "q \<in> dom N" "q \<notin> ?B" "c \<in> set (K q)" "c \<noteq> p" for q c
    using below_closed_up [OF t nm pd that(1-3)] that(4) by blast
  from pk obtain xs ys where K: "K ?u = xs @ p # ys" by (auto simp: in_set_conv_decomp)
  with dist have rem: "remove1 p (K ?u) = xs @ ys" by (simp add: remove1_append)
  have sub: "chain (N1 |` (- ?B)) n_next q as 0"
    if "chain N1 n_next q as 0" "set as \<inter> ?B = {}" for N1 q as
  proof (rule chain_cong [OF that(1)])
    fix a m assume "a \<in> set as" "N1 a = Some m"
    moreover from this that(2) have "a \<notin> ?B" by blast
    ultimately show "\<exists>m'. (N1 |` (- ?B)) a = Some m' \<and> n_next m' = n_next m" by simp
  qed
  have others: "set (K q) \<inter> ?B = {}" if "q \<in> dom N" "q \<notin> ?B" "q \<noteq> ?u" for q
  proof -
    have "p \<notin> set (K q)" using tree_kids_disjoint [OF t that(1) udom _ pk] that(3) by blast
    then show ?thesis using outB [OF that(1,2)] by blast
  qed
  have same: "set (xs @ ys) \<inter> ?B = {}" using outB [OF udom uB] K dist by auto
  have chy: "chain N n_next (n_next n) ys 0" and chx: "chain N n_next (n_children ud) xs p"
    using chu K p by (auto simp: chain_append)
  show ?thesis
  proof (cases xs rule: rev_cases)
    case Nil
    let ?M = "N(?u \<mapsto> ud\<lparr>n_children := n_next n\<rparr>)"
    have re: "relinked N ?M" using ud by (rule relinked_children)
    have ul: "unlink_node ?u p N = Some (True, ?M)" using ud p chx Nil by (simp add: unlink_node_def)
    have keep: "chain ?M n_next q as 0 = chain N n_next q as 0" for q as
      by (rule chain_upd_same [where n = ud]) (simp_all add: ud)
    have "chain (?M |` (- ?B)) n_next (n_children m) (?K q) 0" if q: "(?M |` (- ?B)) q = Some m" for q m
    proof -
      from q have q': "?M q = Some m" "q \<notin> ?B" by (auto simp: restrict_map_def split: if_splits)
      show ?thesis
      proof (cases "q = ?u")
        case True
        with q' rem Nil chy same show ?thesis by (intro sub) (auto simp: keep)
      next
        case False
        with q' have qn: "N q = Some m" by simp
        with False others [of q] tree_chain [OF t qn] q'(2) show ?thesis by (intro sub) (auto simp: keep)
      qed
    qed
    then have "tree_ok (?M |` (- ?B)) r ?K d"
      unfolding tree_ok_shape using shape_restrict_relinked [OF re t nm p] by blast
    moreover have "\<forall>q\<in>?B. ?M q = N q" using uB by auto
    ultimately show ?thesis using re ul by blast
  next
    case (snoc us v)
    have vk: "v \<in> set (K ?u)" "v \<noteq> p" using K snoc dist by auto
    from tree_kid [OF t udom vk(1)] obtain vn where vn: "N v = Some vn" "v \<noteq> 0" by auto
    let ?M = "N(v \<mapsto> vn\<lparr>n_next := n_next n\<rparr>)"
    have re: "relinked N ?M" using vn(1) by (rule relinked_next)
    have vB: "v \<notin> ?B" using outB [OF udom uB vk] .
    have "find_prev N p (n_children ud) = Some v"
      using chu K snoc by (intro find_prev_chain [of _ _ us v p ys]) simp
    moreover have "n_children ud \<noteq> p"
      using chx snoc dist K by (cases us) auto
    ultimately have ul: "unlink_node ?u p N = Some (True, ?M)"
      using ud p vn by (simp add: unlink_node_def)
    have "chain (?M |` (- ?B)) n_next (n_children m) (?K q) 0" if q: "(?M |` (- ?B)) q = Some m" for q m
    proof -
      from q have q': "?M q = Some m" "q \<notin> ?B" by (auto simp: restrict_map_def split: if_splits)
      then obtain m' where qn: "N q = Some m'" "n_children m' = n_children m"
        using vn by (cases "q = v") auto
      show ?thesis
      proof (cases "q = ?u")
        case True
        have "chain N n_next (n_children ud) us v" "v \<notin> set us" "v \<notin> set ys"
          using chx snoc dist K by (auto simp: chain_append)
        then have "chain ?M n_next (n_children ud) (us @ v # ys) 0"
          using vn chy by (auto simp: chain_append)
        with True qn ud rem snoc same show ?thesis by (intro sub) auto
      next
        case False
        then have "v \<notin> set (K q)" using tree_kids_disjoint [OF t _ udom _ vk(1)] qn(1) by blast
        with False others [of q] tree_chain [OF t qn(1)] qn q'(2) show ?thesis by (intro sub) auto
      qed
    qed
    then have "tree_ok (?M |` (- ?B)) r ?K d"
      unfolding tree_ok_shape using shape_restrict_relinked [OF re t nm p] by blast
    moreover have "\<forall>q\<in>?B. ?M q = N q" using vB by auto
    ultimately show ?thesis using re ul by blast
  qed
qed

section \<open>Paths before and after\<close>

text \<open>\<open>N\<close> is a part of \<open>N'\<close> that is closed under parents.\<close>

definition part_of ::
  "(ptr \<Rightarrow> fs_node option) \<Rightarrow> (ptr \<Rightarrow> ptr list) \<Rightarrow> (ptr \<Rightarrow> fs_node option) \<Rightarrow> (ptr \<Rightarrow> ptr list) \<Rightarrow> bool" where
  "part_of N K N' K' \<longleftrightarrow> dom N \<subseteq> dom N' \<and>
     (\<forall>q\<in>dom N. name_at N' q = name_at N q \<and> n_parent (the (N' q)) = n_parent (the (N q)) \<and>
        set (K q) = set (K' q) \<inter> dom N)"

lemma descend_part:
  assumes t: "tree_ok N r K d" "tree_ok N' r K' d'" and nm: "names_ok N K" "names_ok N' K'"
    and part: "part_of N K N' K'"
  shows "descend N r xs = Some q \<longleftrightarrow> descend N' r xs = Some q \<and> q \<in> dom N"
proof (induction xs arbitrary: q rule: rev_induct)
  case Nil
  then show ?case using tree_root [OF t(1)] by auto
next
  case (snoc x xs)
  have r: "r \<in> dom N" "r \<in> dom N'" using tree_root [OF t(1)] tree_root [OF t(2)] by auto
  show ?case
  proof
    assume *: "descend N r (xs @ [x]) = Some q"
    then obtain u where u: "descend N r xs = Some u" by (auto simp: descend_append split: option.splits)
    with descend_dom [OF t(1) r(1) u] have ud: "u \<in> dom N" by simp
    with descend_snoc [OF t(1) nm(1) u] * have q: "q \<in> set (K u)" "name_at N q = x" by blast+
    have qd: "q \<in> dom N" using tree_kid [OF t(1) ud q(1)] by auto
    have "descend N' r xs = Some u" using snoc.IH u by blast
    moreover have "q \<in> set (K' u)" "name_at N' q = x" using part ud q qd by (auto simp: part_of_def)
    moreover have "u \<in> dom N'" using part ud by (auto simp: part_of_def)
    ultimately have "descend N' r (xs @ [x]) = Some q" using descend_snoc [OF t(2) nm(2)] by blast
    with qd show "descend N' r (xs @ [x]) = Some q \<and> q \<in> dom N" by simp
  next
    assume *: "descend N' r (xs @ [x]) = Some q \<and> q \<in> dom N"
    then obtain u where u: "descend N' r xs = Some u" by (auto simp: descend_append split: option.splits)
    with descend_dom [OF t(2) r(2) u] have ud: "u \<in> dom N'" by simp
    with descend_snoc [OF t(2) nm(2) u] * have q: "q \<in> set (K' u)" "name_at N' q = x" by blast+
    from tree_kid [OF t(2) ud q(1)] obtain m' where m': "N' q = Some m'" "n_parent m' = u" "q \<noteq> r" by auto
    from * obtain m where m: "N q = Some m" by auto
    have "n_parent (the (N' q)) = n_parent (the (N q))"
      using part * unfolding part_of_def by blast
    then have "n_parent m = u" using m m' by simp
    with tree_parent [OF t(1) m m'(3)] have "u \<in> dom N" "q \<in> set (K u)" by auto
    moreover have "name_at N q = x" using part * q(2) by (auto simp: part_of_def)
    moreover have "descend N r xs = Some u" using snoc.IH u \<open>u \<in> dom N\<close> by blast
    ultimately show "descend N r (xs @ [x]) = Some q" using descend_snoc [OF t(1) nm(1)] by blast
  qed
qed

end
