(* ===== verification/Ramfs_Own.thy ===== *)
theory Ramfs_Own
  imports Ramfs_Tree
begin

text \<open>
  The invariant of the filesystem, with the ownership of its heap allocations, and the freeing
  of subtrees: \<open>free_subtree\<close> returns, gives back every allocation below a node exactly once,
  and touches nothing else.
\<close>

section \<open>Ownership\<close>

definition data_ok :: "(ptr \<Rightarrow> (nat \<times> string) option) \<Rightarrow> fs_node \<Rightarrow> bool" where
  "data_ok B n \<longleftrightarrow>
     (if n_data n = 0 then n_size n = 0 \<and> n_capacity n = 0
      else n_type n = FS_FILE \<and>
        (\<exists>c. B (n_data n) = Some (unat (n_capacity n), c) \<and> unat (n_size n) < unat (n_capacity n) \<and>
             unat (n_size n) < length c \<and> c ! unat (n_size n) = NUL))"

definition owned ::
  "(ptr \<Rightarrow> fs_node option) \<Rightarrow> (ptr \<Rightarrow> (nat \<times> string) option) \<Rightarrow> (ptr \<Rightarrow> nat option) \<Rightarrow> bool" where
  "owned N B L \<longleftrightarrow>
     (\<forall>p\<in>dom N. \<exists>k. L p = Some k \<and> 60 \<le> k) \<and>
     (\<forall>b cap c. B b = Some (cap, c) \<longrightarrow> (\<exists>k. L b = Some k \<and> cap \<le> k)) \<and>
     dom N \<inter> dom B = {} \<and> 0 \<notin> dom B \<and>
     (\<forall>p n. N p = Some n \<longrightarrow> data_ok B n) \<and>
     (\<forall>p q n m. N p = Some n \<longrightarrow> N q = Some m \<longrightarrow> n_data n = n_data m \<longrightarrow> n_data n \<noteq> 0 \<longrightarrow> p = q) \<and>
     (\<forall>b\<in>dom B. \<exists>p n. N p = Some n \<and> n_data n = b)"

text \<open>The allocations that are not the filesystem's.\<close>

definition others :: "'a fs_state_scheme \<Rightarrow> (ptr \<Rightarrow> nat option) \<Rightarrow> ptr \<Rightarrow> nat option" where
  "others s L = L |` (- (dom (nodes s) \<union> dom (bufs s)))"

definition fs_inv :: "'a fs_state_scheme \<Rightarrow> (ptr \<Rightarrow> nat option) \<Rightarrow> bool" where
  "fs_inv s L \<longleftrightarrow> mem_holds s L \<and> owned (nodes s) (bufs s) L \<and>
     (\<exists>K d. tree_ok (nodes s) (root_node s) K d \<and> names_ok (nodes s) K) \<and>
     node_count s = int (card (dom (nodes s)))"

text \<open>The parts of the state the filesystem may change besides its globals.\<close>

definition fs_frame :: "'a fs_state_scheme \<Rightarrow> 'a fs_state_scheme \<Rightarrow> bool" where
  "fs_frame s s' \<longleftrightarrow> (\<exists>H u N B c. s' = s\<lparr>hdr := H, heap_used := u, nodes := N, bufs := B, node_count := c\<rparr>)"

lemma fs_frame_refl: "fs_frame s s"
  unfolding fs_frame_def
  by (rule exI [of _ "hdr s"], rule exI [of _ "heap_used s"], rule exI [of _ "nodes s"],
      rule exI [of _ "bufs s"], rule exI [of _ "node_count s"]) simp

lemma fs_frame_trans: "fs_frame s t \<Longrightarrow> fs_frame t u \<Longrightarrow> fs_frame s u"
  unfolding fs_frame_def by (elim exE, simp, (rule exI)+, rule refl)

lemma fs_frame_mem: "mem_frame s s' \<Longrightarrow> fs_frame s s'"
  unfolding mem_frame_def fs_frame_def
proof (elim exE)
  fix H u assume "s' = s\<lparr>hdr := H, heap_used := u\<rparr>"
  then show "\<exists>H u N B c. s' = s\<lparr>hdr := H, heap_used := u, nodes := N, bufs := B, node_count := c\<rparr>"
    by (intro exI [of _ H] exI [of _ u] exI [of _ "nodes s"] exI [of _ "bufs s"]
        exI [of _ "node_count s"]) simp
qed

lemma fs_frame_nodes: "fs_frame s (s\<lparr>nodes := N\<rparr>)"
  unfolding fs_frame_def
  by (rule exI [of _ "hdr s"], rule exI [of _ "heap_used s"], rule exI [of _ N],
      rule exI [of _ "bufs s"], rule exI [of _ "node_count s"]) simp

lemma fs_frame_bufs: "fs_frame s (s\<lparr>bufs := B\<rparr>)"
  unfolding fs_frame_def
  by (rule exI [of _ "hdr s"], rule exI [of _ "heap_used s"], rule exI [of _ "nodes s"],
      rule exI [of _ B], rule exI [of _ "node_count s"]) simp

lemma fs_frame_count: "fs_frame s (s\<lparr>nodes := N, node_count := c\<rparr>)"
  unfolding fs_frame_def
  by (rule exI [of _ "hdr s"], rule exI [of _ "heap_used s"], rule exI [of _ N],
      rule exI [of _ "bufs s"], rule exI [of _ c]) simp

lemma fs_frame_globals:
  "fs_frame s s' \<Longrightarrow> root_node s' = root_node s \<and> current_dir s' = current_dir s"
  unfolding fs_frame_def by auto

lemma mem_frame_fs:
  "mem_frame s s' \<Longrightarrow> nodes s' = nodes s \<and> bufs s' = bufs s \<and> node_count s' = node_count s \<and>
     root_node s' = root_node s \<and> current_dir s' = current_dir s"
  unfolding mem_frame_def by auto

lemma mem_holds_upd [simp]:
  "mem_holds (s\<lparr>nodes := N\<rparr>) L = mem_holds s L" "mem_holds (s\<lparr>bufs := B\<rparr>) L = mem_holds s L"
  "mem_holds (s\<lparr>node_count := c\<rparr>) L = mem_holds s L" "mem_holds (s\<lparr>root_node := r\<rparr>) L = mem_holds s L"
  "mem_holds (s\<lparr>current_dir := r\<rparr>) L = mem_holds s L"
  by (simp_all add: mem_holds_def heap_rep_def)

lemma owned_node: "owned N B L \<Longrightarrow> N p = Some n \<Longrightarrow> \<exists>k. L p = Some k \<and> 60 \<le> k"
  unfolding owned_def by blast

lemma owned_buf: "owned N B L \<Longrightarrow> B b = Some (cap, c) \<Longrightarrow> \<exists>k. L b = Some k \<and> cap \<le> k"
  unfolding owned_def by blast

lemma owned_data: "owned N B L \<Longrightarrow> N p = Some n \<Longrightarrow> data_ok B n"
  unfolding owned_def by blast

lemma owned_disjoint: "owned N B L \<Longrightarrow> p \<in> dom N \<Longrightarrow> p \<in> dom B \<Longrightarrow> False"
  unfolding owned_def by blast

lemma owned_null: "owned N B L \<Longrightarrow> B 0 = None"
  unfolding owned_def by blast

lemma owned_sole:
  "owned N B L \<Longrightarrow> N p = Some n \<Longrightarrow> N q = Some m \<Longrightarrow> n_data n = n_data m \<Longrightarrow> n_data n \<noteq> 0 \<Longrightarrow> p = q"
  unfolding owned_def by blast

lemma owned_owner: "owned N B L \<Longrightarrow> B b = Some c \<Longrightarrow> \<exists>p n. N p = Some n \<and> n_data n = b"
  unfolding owned_def by blast

lemma owned_data_buf:
  "owned N B L \<Longrightarrow> N p = Some n \<Longrightarrow> n_data n \<noteq> 0 \<Longrightarrow> \<exists>c. B (n_data n) = Some (unat (n_capacity n), c)"
  using owned_data [of N B L p n] by (auto simp: data_ok_def)

section \<open>Freeing\<close>

definition data_of :: "(ptr \<Rightarrow> fs_node option) \<Rightarrow> ptr set \<Rightarrow> ptr set" where
  "data_of N A = {n_data n | p n. p \<in> A \<and> N p = Some n \<and> n_data n \<noteq> 0}"

text \<open>\<open>s'\<close> is \<open>s\<close> without the nodes \<open>A\<close> and their buffers.\<close>

definition freed :: "ptr set \<Rightarrow> 'a fs_state_scheme \<Rightarrow> (ptr \<Rightarrow> nat option) \<Rightarrow> 'a fs_state_scheme \<Rightarrow> bool" where
  "freed A s L s' \<longleftrightarrow> fs_frame s s' \<and>
     nodes s' = nodes s |` (- A) \<and> bufs s' = bufs s |` (- data_of (nodes s) A) \<and>
     node_count s' = node_count s - int (card A) \<and>
     mem_holds s' (L |` (- (A \<union> data_of (nodes s) A)))"

lemma owned_restrict:
  assumes "owned N B L"
  shows "owned (N |` (- A)) (B |` (- data_of N A)) (L |` (- (A \<inter> dom N \<union> data_of N A)))"
proof -
  have nd: "p \<notin> data_of N A" if "N p = Some n" for p n
  proof
    assume "p \<in> data_of N A"
    then obtain q m where "N q = Some m" "n_data m = p" "p \<noteq> 0" by (auto simp: data_of_def)
    with owned_data_buf [OF assms] have "p \<in> dom B" by blast
    with owned_disjoint [OF assms] that show False by blast
  qed
  have bd: "b \<notin> dom N" if "B b = Some c" for b c using owned_disjoint [OF assms] that by blast
  have keep: "n_data n \<notin> data_of N A" if "N p = Some n" "p \<notin> A" for p n
  proof
    assume "n_data n \<in> data_of N A"
    then obtain q m where "q \<in> A" "N q = Some m" "n_data m = n_data n" "n_data n \<noteq> 0"
      by (auto simp: data_of_def)
    with owned_sole [OF assms \<open>N q = Some m\<close> that(1)] that(2) show False by auto
  qed
  show ?thesis
    unfolding owned_def
  proof (intro conjI allI impI ballI)
    fix p assume "p \<in> dom (N |` (- A))"
    then show "\<exists>k. (L |` (- (A \<inter> dom N \<union> data_of N A))) p = Some k \<and> 60 \<le> k"
      using owned_node [OF assms] nd by (auto simp: restrict_map_def split: if_splits)
  next
    fix b cap c assume "(B |` (- data_of N A)) b = Some (cap, c)"
    then show "\<exists>k. (L |` (- (A \<inter> dom N \<union> data_of N A))) b = Some k \<and> cap \<le> k"
      using owned_buf [OF assms] bd by (auto simp: restrict_map_def split: if_splits)
  next
    show "0 \<notin> dom (B |` (- data_of N A))" using owned_null [OF assms] by auto
  next
    show "dom (N |` (- A)) \<inter> dom (B |` (- data_of N A)) = {}" using owned_disjoint [OF assms] by auto
  next
    fix p n assume p: "(N |` (- A)) p = Some n"
    then have "N p = Some n" "p \<notin> A" by (auto simp: restrict_map_def split: if_splits)
    with owned_data [OF assms] keep show "data_ok (B |` (- data_of N A)) n"
      by (auto simp: data_ok_def split: if_splits)
  next
    fix p q n m
    assume "(N |` (- A)) p = Some n" "(N |` (- A)) q = Some m" "n_data n = n_data m" "n_data n \<noteq> 0"
    then show "p = q" using owned_sole [OF assms] by (auto simp: restrict_map_def split: if_splits)
  next
    fix b assume b: "b \<in> dom (B |` (- data_of N A))"
    then obtain c where bc: "B b = Some c" "b \<notin> data_of N A" by auto
    from owned_owner [OF assms bc(1)] obtain p n where p: "N p = Some n" "n_data n = b" by blast
    have "b \<noteq> 0 \<Longrightarrow> p \<notin> A" using p bc(2) by (auto simp: data_of_def)
    moreover have "b \<noteq> 0" using bc(1) owned_null [OF assms] by auto
    ultimately show "\<exists>p n. (N |` (- A)) p = Some n \<and> n_data n = b"
      using p by (intro exI [of _ p] exI [of _ n]) simp
  qed
qed

lemma data_of_insert:
  "N p = Some n \<Longrightarrow> data_of N {p} = (if n_data n = 0 then {} else {n_data n})"
  by (auto simp: data_of_def)

lemma data_of_Un: "data_of N (A \<union> B) = data_of N A \<union> data_of N B"
  by (auto simp: data_of_def)

lemma data_of_restrict: "A \<inter> B = {} \<Longrightarrow> data_of (N |` (- A)) B = data_of N B"
proof -
  assume "A \<inter> B = {}"
  then have "(N |` (- A)) p = N p" if "p \<in> B" for p using that by (intro restrict_in) blast
  then show ?thesis unfolding data_of_def by metis
qed

lemma restrict_map_UNIV [simp]: "m |` UNIV = m"
  by (simp add: restrict_map_def)

lemma heap_release_ok:
  assumes "mem_holds s L" "L p = Some k"
  shows "\<exists>s'. heap_release p s = Some s' \<and> mem_frame s s' \<and> mem_holds s' (L(p := None))"
  using kheap.release_law [OF assms] by (auto simp: heap_release_def)

lemma release_data_ok:
  assumes "mem_holds s L" "owned (nodes s) (bufs s) L" "nodes s p = Some n"
  shows "\<exists>s'. release_data (n_data n) s = Some s' \<and> fs_frame s s' \<and> nodes s' = nodes s \<and>
    node_count s' = node_count s \<and>
    bufs s' = bufs s |` (- data_of (nodes s) {p}) \<and> mem_holds s' (L |` (- data_of (nodes s) {p}))"
proof (cases "n_data n = 0")
  case True
  then show ?thesis
    using assms by (simp add: release_data_def data_of_insert fs_frame_refl)
next
  case False
  from owned_data_buf [OF assms(2,3) False] obtain c where "bufs s (n_data n) = Some (unat (n_capacity n), c)" by blast
  from owned_buf [OF assms(2) this] obtain k where "L (n_data n) = Some k" by blast
  from heap_release_ok [OF assms(1) this] obtain s1 where s1: "heap_release (n_data n) s = Some s1"
    "mem_frame s s1" "mem_holds s1 (L(n_data n := None))" by blast
  let ?s = "s1\<lparr>bufs := (bufs s1)(n_data n := None)\<rparr>"
  have "release_data (n_data n) s = Some ?s" using False s1 by (simp add: release_data_def)
  moreover have "fs_frame s ?s" using fs_frame_trans [OF fs_frame_mem [OF s1(2)] fs_frame_bufs] .
  moreover have "L |` (- data_of (nodes s) {p}) = L(n_data n := None)"
    using False assms(3) by (auto simp: data_of_insert [where n = n] restrict_map_def fun_eq_iff)
  moreover have "bufs ?s = bufs s |` (- data_of (nodes s) {p})"
    using False assms(3) mem_frame_fs [OF s1(2)] by (auto simp: data_of_insert [where n = n] restrict_map_def fun_eq_iff)
  ultimately show ?thesis using s1 mem_frame_fs [OF s1(2)] by auto
qed

lemma free_node_freed:
  assumes "mem_holds s L" "owned (nodes s) (bufs s) L" "nodes s p = Some n"
  shows "\<exists>s'. free_node p s = Some s' \<and> freed {p} s L s'"
proof -
  from release_data_ok [OF assms] obtain s1 where s1: "release_data (n_data n) s = Some s1"
    "fs_frame s s1" "nodes s1 = nodes s" "node_count s1 = node_count s"
    "bufs s1 = bufs s |` (- data_of (nodes s) {p})" "mem_holds s1 (L |` (- data_of (nodes s) {p}))" by blast
  have "p \<notin> data_of (nodes s) {p}"
  proof
    assume "p \<in> data_of (nodes s) {p}"
    then have "n_data n = p" "p \<noteq> 0" using assms(3) by (auto simp: data_of_def)
    with owned_data_buf [OF assms(2,3)] owned_disjoint [OF assms(2), of p] assms(3) show False by auto
  qed
  moreover from owned_node [OF assms(2,3)] obtain k where "L p = Some k" by blast
  ultimately have "(L |` (- data_of (nodes s) {p})) p = Some k" by simp
  from heap_release_ok [OF s1(6) this] obtain s2 where s2: "heap_release p s1 = Some s2" "mem_frame s1 s2"
    "mem_holds s2 ((L |` (- data_of (nodes s) {p}))(p := None))" by blast
  let ?s = "s2\<lparr>nodes := (nodes s2)(p := None), node_count := node_count s2 - 1\<rparr>"
  have "free_node p s = Some ?s" using assms(3) s1(1) s2(1) by (simp add: free_node_def)
  moreover have "fs_frame s ?s"
    using fs_frame_trans [OF s1(2) fs_frame_trans [OF fs_frame_mem [OF s2(2)] fs_frame_count]] .
  moreover have "(L |` (- data_of (nodes s) {p}))(p := None) = L |` (- ({p} \<union> data_of (nodes s) {p}))"
    by (auto simp: restrict_map_def fun_eq_iff)
  moreover have "(nodes s)(p := None) = nodes s |` (- {p})" by (auto simp: restrict_map_def fun_eq_iff)
  ultimately show ?thesis
    using s1 s2(3) mem_frame_fs [OF s2(2)] unfolding freed_def
    by (intro exI [of _ ?s]) simp
qed

lemma freed_Un:
  assumes 1: "freed A s L s1" and 2: "freed B s1 L1 s2" and L1: "L1 = L |` (- (A \<union> data_of (nodes s) A))"
    and dis: "A \<inter> B = {}" "finite A" "finite B"
  shows "freed (A \<union> B) s L s2"
proof -
  have d: "data_of (nodes s1) B = data_of (nodes s) B"
    using 1 data_of_restrict [OF dis(1)] by (simp add: freed_def)
  have "card (A \<union> B) = card A + card B" using dis by (rule card_Un_disjoint [rotated 2])
  moreover have "L1 |` (- (B \<union> data_of (nodes s) B)) = L |` (- (A \<union> B \<union> data_of (nodes s) (A \<union> B)))"
    unfolding L1 by (auto simp: restrict_map_def data_of_Un fun_eq_iff)
  moreover have "(bufs s |` (- data_of (nodes s) A)) |` (- data_of (nodes s) B) = bufs s |` (- data_of (nodes s) (A \<union> B))"
    by (auto simp: restrict_map_def data_of_Un fun_eq_iff)
  moreover have "(nodes s |` (- A)) |` (- B) = nodes s |` (- (A \<union> B))"
    by (auto simp: restrict_map_def fun_eq_iff)
  ultimately show ?thesis
    using 1 2 fs_frame_trans unfolding freed_def d by auto
qed

lemma freed_owned:
  assumes "owned (nodes s) (bufs s) L" "freed A s L s'" "A \<subseteq> dom (nodes s)"
  shows "owned (nodes s') (bufs s') (L |` (- (A \<union> data_of (nodes s) A)))"
  using owned_restrict [OF assms(1), of A] assms(2,3) by (simp add: freed_def Int_absorb2)

text \<open>\<open>free_siblings\<close> returns, and frees the subtrees it is given and nothing else.\<close>

lemma free_siblings_freed:
  "reps (nodes s) p ts \<Longrightarrow> distinct (addrs ts) \<Longrightarrow> mem_holds s L \<Longrightarrow> owned (nodes s) (bufs s) L \<Longrightarrow>
     \<exists>s'. free_siblings p s = Some s' \<and> freed (set (addrs ts)) s L s'"
proof (induction ts arbitrary: p s L rule: addrs.induct)
  case 1
  then show ?case
    by (simp add: free_siblings.simps freed_def fs_frame_refl data_of_def restrict_map_def)
next
  case (2 a cs ts)
  from "2.prems"(1) obtain n where n: "nodes s a = Some n" "reps (nodes s) (n_children n) cs"
    "reps (nodes s) (n_next n) ts" and pa: "p = a" "a \<noteq> 0" by auto
  let ?C = "set (addrs cs)" and ?T = "set (addrs ts)"
  have dis: "a \<notin> ?C" "a \<notin> ?T" "?C \<inter> ?T = {}" "distinct (addrs cs)" "distinct (addrs ts)"
    using "2.prems"(2) by auto
  from "2.IH"(1) [OF n(2) dis(4) "2.prems"(3,4)] obtain s1 where
    s1: "free_siblings (n_children n) s = Some s1" "freed ?C s L s1" by blast
  define L1 where "L1 = L |` (- (?C \<union> data_of (nodes s) ?C))"
  have h1: "mem_holds s1 L1" using s1(2) by (simp add: freed_def L1_def)
  have o1: "owned (nodes s1) (bufs s1) L1"
    unfolding L1_def using freed_owned [OF "2.prems"(4) s1(2) reps_dom [OF n(2)]] .
  have na: "nodes s1 a = Some n" using s1(2) n(1) dis(1) by (simp add: freed_def)
  from free_node_freed [OF h1 o1 na] obtain s2 where
    s2: "free_node a s1 = Some s2" "freed {a} s1 L1 s2" by blast
  have f12: "freed (?C \<union> {a}) s L s2"
    using freed_Un [OF s1(2) s2(2) L1_def] dis(1) by simp
  define L2 where "L2 = L |` (- (?C \<union> {a} \<union> data_of (nodes s) (?C \<union> {a})))"
  have h2: "mem_holds s2 L2" using f12 by (simp add: freed_def L2_def)
  have "?C \<union> {a} \<subseteq> dom (nodes s)" using reps_dom [OF n(2)] n(1) by auto
  then have o2: "owned (nodes s2) (bufs s2) L2"
    unfolding L2_def using freed_owned [OF "2.prems"(4) f12] by blast
  have "reps (nodes s2) (n_next n) ts"
    using dis f12 by (intro reps_cong [OF n(3)]) (auto simp: freed_def restrict_map_def)
  from "2.IH"(2) [OF this dis(5) h2 o2] obtain s3 where
    s3: "free_siblings (n_next n) s2 = Some s3" "freed ?T s2 L2 s3" by blast
  have "freed (?C \<union> {a} \<union> ?T) s L s3"
    using freed_Un [OF f12 s3(2) L2_def] dis by auto
  moreover have "free_siblings p s = Some s3"
    using n(1) pa s1(1) s2(1) s3(1) by (subst free_siblings.simps) simp
  moreover have "set (addrs (GT a cs # ts)) = ?C \<union> {a} \<union> ?T" by auto
  ultimately show ?case by simp
qed

lemma free_subtree_freed:
  assumes "nodes s p = Some n" "reps (nodes s) (n_children n) ts" "distinct (addrs ts)" "p \<notin> set (addrs ts)"
    and "mem_holds s L" "owned (nodes s) (bufs s) L"
  shows "\<exists>s'. free_subtree p s = Some s' \<and> freed (insert p (set (addrs ts))) s L s'"
proof -
  let ?C = "set (addrs ts)"
  from free_siblings_freed [OF assms(2,3,5,6)] obtain s1 where
    s1: "free_siblings (n_children n) s = Some s1" "freed ?C s L s1" by blast
  define L1 where "L1 = L |` (- (?C \<union> data_of (nodes s) ?C))"
  have h1: "mem_holds s1 L1" using s1(2) by (simp add: freed_def L1_def)
  have o1: "owned (nodes s1) (bufs s1) L1"
    unfolding L1_def using freed_owned [OF assms(6) s1(2) reps_dom [OF assms(2)]] .
  have na: "nodes s1 p = Some n" using s1(2) assms(1,4) by (simp add: freed_def)
  from free_node_freed [OF h1 o1 na] obtain s2 where
    s2: "free_node p s1 = Some s2" "freed {p} s1 L1 s2" by blast
  have "freed (?C \<union> {p}) s L s2" using freed_Un [OF s1(2) s2(2) L1_def] assms(4) by simp
  then show ?thesis using assms(1) s1(1) s2(1) by (simp add: free_subtree_def)
qed

end
