(* ===== verification/Ramfs_Paths.thy ===== *)
theory Ramfs_Paths
  imports Ramfs_Own
begin

text \<open>
  The filesystem as a map from paths to entries, and the proof that the pointer operations
  implement the operations on that map: each returns on every state that satisfies the
  invariant, keeps it, and acts on the map as the specification says.
\<close>

section \<open>The abstract filesystem\<close>

datatype entry = Dir | File string

type_synonym afs = "string list \<Rightarrow> entry option"

definition contents :: "'a fs_state_scheme \<Rightarrow> fs_node \<Rightarrow> string" where
  "contents s n = (case bufs s (n_data n) of None \<Rightarrow> [] | Some (cap, c) \<Rightarrow> take (unat (n_size n)) c)"

definition entry_of :: "'a fs_state_scheme \<Rightarrow> fs_node \<Rightarrow> entry" where
  "entry_of s n = (if n_type n = FS_DIR then Dir else File (contents s n))"

definition node_path :: "'a fs_state_scheme \<Rightarrow> string list \<Rightarrow> ptr \<Rightarrow> bool" where
  "node_path s xs p \<longleftrightarrow> descend (nodes s) (root_node s) xs = Some p"

definition fs_view :: "'a fs_state_scheme \<Rightarrow> afs" where
  "fs_view s xs =
     (case descend (nodes s) (root_node s) xs of None \<Rightarrow> None | Some p \<Rightarrow> map_option (entry_of s) (nodes s p))"

text \<open>The components of a path; the tail of an over-long one is cut off.\<close>

function components :: "string \<Rightarrow> string list" where
  "components buf =
     (let buf1 = dropWhile (\<lambda>c. \<not> not_slash c) buf
      in if buf1 = [] then []
         else take (FS_NAME_MAX - 1) (takeWhile not_slash buf1) # components (dropWhile not_slash buf1))"
  by pat_completeness auto
termination by (relation "measure length") (auto simp: rest_shorter)

declare components.simps [simp del]

definition path_comps :: "string \<Rightarrow> string list" where
  "path_comps path = components (take (FS_PATH_MAX - 1) path)"

fun abs_walk :: "afs \<Rightarrow> string list \<Rightarrow> string list \<Rightarrow> string list option" where
  "abs_walk V cur [] = Some cur"
| "abs_walk V cur (c # cs) =
     (if c = ''.'' then abs_walk V cur cs
      else if c = ''..'' then abs_walk V (butlast cur) cs
      else if V (cur @ [c]) = None then None else abs_walk V (cur @ [c]) cs)"

definition abs_start :: "string list \<Rightarrow> string \<Rightarrow> string list" where
  "abs_start cwd path = (if path \<noteq> [] \<and> hd path = CHR ''/'' then [] else cwd)"

definition abs_resolve :: "afs \<Rightarrow> string list \<Rightarrow> string \<Rightarrow> string list option" where
  "abs_resolve V cwd path = abs_walk V (abs_start cwd path) (path_comps path)"

text \<open>The place a new node goes to: the last component is taken literally.\<close>

definition abs_target :: "afs \<Rightarrow> string list \<Rightarrow> string \<Rightarrow> string list option" where
  "abs_target V cwd path =
     (let cs = path_comps path
      in if cs = [] then None
         else map_option (\<lambda>xs. xs @ [last cs]) (abs_walk V (abs_start cwd path) (butlast cs)))"

lemma fs_inv_tree:
  assumes "fs_inv s L"
  obtains K d where "tree_ok (nodes s) (root_node s) K d" "names_ok (nodes s) K"
  using assms by (auto simp: fs_inv_def)

lemma fs_inv_mem: "fs_inv s L \<Longrightarrow> mem_holds s L" by (simp add: fs_inv_def)
lemma fs_inv_owned: "fs_inv s L \<Longrightarrow> owned (nodes s) (bufs s) L" by (simp add: fs_inv_def)

lemma fs_inv_null: "fs_inv s L \<Longrightarrow> nodes s 0 = None"
  using tree_null by (auto simp: fs_inv_def)

lemma fs_inv_root:
  "fs_inv s L \<Longrightarrow> \<exists>n. nodes s (root_node s) = Some n \<and> n_parent n = 0 \<and> n_type n = FS_DIR \<and> root_node s \<noteq> 0"
  using tree_root by (auto simp: fs_inv_def)

lemma node_path_dom:
  assumes "fs_inv s L" "node_path s xs p" shows "\<exists>n. nodes s p = Some n"
  using assms descend_dom fs_inv_root [OF assms(1)] unfolding node_path_def
  by (elim fs_inv_tree) (metis domD domI)

lemma node_path_inj:
  assumes "fs_inv s L" "node_path s xs p" "node_path s ys p" shows "xs = ys"
  using assms descend_inj fs_inv_root [OF assms(1)] unfolding node_path_def
  by (elim fs_inv_tree) (metis domI)

lemma node_path_fun: "node_path s xs p \<Longrightarrow> node_path s xs q \<Longrightarrow> p = q"
  by (simp add: node_path_def)

lemma node_path_root [simp]: "node_path s [] p \<longleftrightarrow> p = root_node s"
  by (auto simp: node_path_def)

lemma node_path_exists:
  assumes "fs_inv s L" "nodes s p = Some n" shows "\<exists>xs. node_path s xs p"
  using assms path_exists unfolding node_path_def by (elim fs_inv_tree) (metis domI)

lemma fs_view_node:
  "node_path s xs p \<Longrightarrow> nodes s p = Some n \<Longrightarrow> fs_view s xs = Some (entry_of s n)"
  by (simp add: node_path_def fs_view_def)

lemma fs_view_Some:
  "fs_view s xs = Some e \<longleftrightarrow> (\<exists>p n. node_path s xs p \<and> nodes s p = Some n \<and> e = entry_of s n)"
  by (auto simp: fs_view_def node_path_def split: option.splits)

lemma fs_view_None:
  assumes "fs_inv s L" shows "fs_view s xs = None \<longleftrightarrow> (\<nexists>p. node_path s xs p)"
  using node_path_dom [OF assms] by (auto simp: fs_view_def node_path_def split: option.splits)

lemma fs_view_snoc:
  assumes "fs_inv s L" "node_path s xs u"
  shows "\<exists>q. find_child (nodes s) u c = Some q \<and>
    (if q = 0 then fs_view s (xs @ [c]) = None else node_path s (xs @ [c]) q)"
proof -
  obtain K d where t: "tree_ok (nodes s) (root_node s) K d" and nm: "names_ok (nodes s) K"
    using assms(1) by (rule fs_inv_tree)
  have ud: "u \<in> dom (nodes s)" using node_path_dom [OF assms] by auto
  obtain q where q: "find_child (nodes s) u c = Some q"
    using find_child_tree [OF t ud] by blast
  with assms(2) show ?thesis by (simp add: node_path_def fs_view_def descend_append)
qed

lemma node_path_parent:
  assumes "fs_inv s L" "node_path s xs p" "nodes s p = Some n"
  shows "node_path s (butlast xs) (if n_parent n = 0 then root_node s else n_parent n)"
proof -
  obtain K d where t: "tree_ok (nodes s) (root_node s) K d" and nm: "names_ok (nodes s) K"
    using assms(1) by (rule fs_inv_tree)
  show ?thesis
  proof (cases xs rule: rev_cases)
    case Nil
    with assms fs_inv_root [OF assms(1)] show ?thesis by auto
  next
    case (snoc ys y)
    with assms(2) obtain u where u: "descend (nodes s) (root_node s) ys = Some u"
      by (auto simp: node_path_def descend_append split: option.splits)
    have ud: "u \<in> dom (nodes s)" using descend_dom [OF t _ u] fs_inv_root [OF assms(1)] by auto
    have "p \<in> set (K u)"
      using descend_snoc [OF t nm u ud, of y p] assms(2) snoc by (simp add: node_path_def)
    from tree_kid_parent [OF t ud this assms(3)] have "n_parent n = u" .
    moreover have "u \<noteq> 0" using ud tree_null [OF t] by auto
    ultimately show ?thesis using u snoc by (simp add: node_path_def)
  qed
qed

section \<open>Resolving a path\<close>

lemma components_Nil: "components buf = [] \<longleftrightarrow> dropWhile (\<lambda>c. \<not> not_slash c) buf = []"
  by (subst components.simps) (simp add: Let_def)

lemma components_Cons:
  assumes "dropWhile (\<lambda>c. \<not> not_slash c) buf \<noteq> []"
  shows "components buf =
    take (FS_NAME_MAX - 1) (takeWhile not_slash (dropWhile (\<lambda>c. \<not> not_slash c) buf)) #
      components (dropWhile not_slash (dropWhile (\<lambda>c. \<not> not_slash c) buf))"
  using assms by (subst components.simps) (simp add: Let_def)

lemma walk_loop_done:
  "dropWhile (\<lambda>c. \<not> not_slash c) buf = [] \<Longrightarrow> walk_loop s stop node buf = Some (node, [])"
  by (subst walk_loop.simps) (simp add: Let_def)

lemma walk_loop_step:
  assumes "dropWhile (\<lambda>c. \<not> not_slash c) buf \<noteq> []"
    and "component = take (FS_NAME_MAX - 1) (takeWhile not_slash (dropWhile (\<lambda>c. \<not> not_slash c) buf))"
    and "rest = dropWhile not_slash (dropWhile (\<lambda>c. \<not> not_slash c) buf)"
  shows "walk_loop s stop node buf =
    (if components rest = [] \<and> stop then Some (node, component)
     else if component = ''.'' then walk_loop s stop node rest
     else if component = ''..'' then do {
       n \<leftarrow> nodes s node;
       walk_loop s stop (if n_parent n \<noteq> NULL then n_parent n else root_node s) rest
     }
     else do {
       child \<leftarrow> find_child (nodes s) node component;
       if child = NULL then Some (NULL, []) else walk_loop s stop child rest
     })"
proof -
  have "buf \<noteq> []" using assms(1) by auto
  with assms show ?thesis
    by (subst walk_loop.simps) (simp only: Let_def components_Nil if_False)
qed

lemma walk_step_case:
  assumes inv: "fs_inv s L" and cur: "node_path s cur node"
  shows "\<exists>n q. nodes s node = Some n \<and> find_child (nodes s) node c = Some q \<and>
    node_path s (butlast cur) (if n_parent n \<noteq> NULL then n_parent n else root_node s) \<and>
    (if q = 0 then fs_view s (cur @ [c]) = None
     else node_path s (cur @ [c]) q \<and> fs_view s (cur @ [c]) \<noteq> None)"
proof -
  from node_path_dom [OF inv cur] obtain n where n: "nodes s node = Some n" by blast
  from fs_view_snoc [OF inv cur, of c] obtain q where q: "find_child (nodes s) node c = Some q"
    "if q = 0 then fs_view s (cur @ [c]) = None else node_path s (cur @ [c]) q" by blast
  then have "q \<noteq> 0 \<Longrightarrow> fs_view s (cur @ [c]) \<noteq> None" using fs_view_None [OF inv] by auto
  with n q node_path_parent [OF inv cur n] show ?thesis by (auto split: if_splits)
qed

lemma walk_loop_all:
  assumes inv: "fs_inv s L"
  shows "node_path s cur node \<Longrightarrow>
    (case abs_walk (fs_view s) cur (components buf) of
       None \<Rightarrow> walk_loop s False node buf = Some (0, [])
     | Some xs \<Rightarrow> \<exists>q. walk_loop s False node buf = Some (q, []) \<and> node_path s xs q)"
proof (induction buf arbitrary: node cur rule: components.induct)
  case (1 buf)
  show ?case
  proof (cases "dropWhile (\<lambda>c. \<not> not_slash c) buf = []")
    case True
    with "1.prems" show ?thesis by (simp add: walk_loop_done components_Nil [THEN iffD2])
  next
    case False
    define c where "c = take (FS_NAME_MAX - 1) (takeWhile not_slash (dropWhile (\<lambda>c. \<not> not_slash c) buf))"
    define rest where "rest = dropWhile not_slash (dropWhile (\<lambda>c. \<not> not_slash c) buf)"
    have cs: "components buf = c # components rest"
      using components_Cons [OF False] by (simp add: c_def rest_def)
    note IH = "1.IH" [OF refl False, folded rest_def]
    note step = walk_loop_step [OF False c_def rest_def, of s False node]
    from walk_step_case [OF inv "1.prems", of c] obtain n q where
      n: "nodes s node = Some n" "find_child (nodes s) node c = Some q"
      "node_path s (butlast cur) (if n_parent n \<noteq> NULL then n_parent n else root_node s)"
      "if q = 0 then fs_view s (cur @ [c]) = None
       else node_path s (cur @ [c]) q \<and> fs_view s (cur @ [c]) \<noteq> None" by blast
    consider "c = ''.''" | "c = ''..''" | "c \<noteq> ''.''" "c \<noteq> ''..''" "q = 0" | "c \<noteq> ''.''" "c \<noteq> ''..''" "q \<noteq> 0"
      by blast
    then show ?thesis
    proof cases
      case 1
      with IH [OF "1.prems"] step cs show ?thesis by (auto split: option.splits)
    next
      case 2
      with IH [OF n(3)] step cs n(1) show ?thesis by (auto simp del: if_split split: option.splits)
    next
      case 3
      with step cs n show ?thesis by simp
    next
      case 4
      with n(4) have "node_path s (cur @ [c]) q" "fs_view s (cur @ [c]) \<noteq> None" by auto
      with IH [OF this(1)] step cs n(2) 4 show ?thesis by (auto split: option.splits)
    qed
  qed
qed

lemma walk_loop_last:
  assumes inv: "fs_inv s L"
  shows "node_path s cur node \<Longrightarrow>
    (if components buf = [] then walk_loop s True node buf = Some (node, [])
     else case abs_walk (fs_view s) cur (butlast (components buf)) of
       None \<Rightarrow> walk_loop s True node buf = Some (0, [])
     | Some xs \<Rightarrow> \<exists>q. walk_loop s True node buf = Some (q, last (components buf)) \<and> node_path s xs q)"
proof (induction buf arbitrary: node cur rule: components.induct)
  case (1 buf)
  show ?case
  proof (cases "dropWhile (\<lambda>c. \<not> not_slash c) buf = []")
    case True
    then show ?thesis by (simp add: walk_loop_done components_Nil [THEN iffD2])
  next
    case False
    define c where "c = take (FS_NAME_MAX - 1) (takeWhile not_slash (dropWhile (\<lambda>c. \<not> not_slash c) buf))"
    define rest where "rest = dropWhile not_slash (dropWhile (\<lambda>c. \<not> not_slash c) buf)"
    have cs: "components buf = c # components rest"
      using components_Cons [OF False] by (simp add: c_def rest_def)
    note IH = "1.IH" [OF refl False, folded rest_def]
    note step = walk_loop_step [OF False c_def rest_def, of s True node]
    show ?thesis
    proof (cases "components rest = []")
      case True
      with step cs "1.prems" show ?thesis by simp
    next
      case more: False
      from walk_step_case [OF inv "1.prems", of c] obtain n q where
        n: "nodes s node = Some n" "find_child (nodes s) node c = Some q"
        "node_path s (butlast cur) (if n_parent n \<noteq> NULL then n_parent n else root_node s)"
        "if q = 0 then fs_view s (cur @ [c]) = None
         else node_path s (cur @ [c]) q \<and> fs_view s (cur @ [c]) \<noteq> None" by blast
      consider "c = ''.''" | "c = ''..''" | "c \<noteq> ''.''" "c \<noteq> ''..''" "q = 0" | "c \<noteq> ''.''" "c \<noteq> ''..''" "q \<noteq> 0"
        by blast
      then show ?thesis
      proof cases
        case 1
        with IH [OF "1.prems"] step cs more show ?thesis by (auto split: option.splits)
      next
        case 2
        with IH [OF n(3)] step cs n(1) more show ?thesis by (auto simp del: if_split split: option.splits)
      next
        case 3
        with step cs n more show ?thesis by simp
      next
        case 4
        with n(4) have "node_path s (cur @ [c]) q" "fs_view s (cur @ [c]) \<noteq> None" by auto
        with IH [OF this(1)] step cs n(2) 4 more show ?thesis by (auto split: option.splits)
      qed
    qed
  qed
qed

lemma components_tl: "hd buf = CHR ''/'' \<Longrightarrow> components (tl buf) = components buf"
proof (cases buf)
  case (Cons c cs)
  assume "hd buf = CHR ''/''"
  with Cons have "dropWhile (\<lambda>c. \<not> not_slash c) buf = dropWhile (\<lambda>c. \<not> not_slash c) (tl buf)"
    by (simp add: not_slash_def)
  then show ?thesis by (simp add: components.simps [of buf] components.simps [of "tl buf"])
qed simp

lemma walk_start:
  assumes "fs_inv s L" "node_path s cwd (current_dir s)" "path \<noteq> []"
  shows "\<exists>node buf. walk s path stop = walk_loop s stop node buf \<and>
    node_path s (abs_start cwd path) node \<and> components buf = path_comps path"
proof -
  let ?b = "take (FS_PATH_MAX - 1) path"
  have hd: "hd ?b = hd path" using assms(3) by (cases path) (simp_all add: FS_PATH_MAX_def)
  show ?thesis
  proof (cases "hd path = CHR ''/''")
    case True
    then have "walk s path stop = walk_loop s stop (root_node s) (tl ?b)"
      "components (tl ?b) = path_comps path"
      using assms(3) hd components_tl [of ?b] by (simp_all add: walk_def path_comps_def Let_def)
    with True assms(3) show ?thesis by (auto simp: abs_start_def)
  next
    case False
    then have "walk s path stop = walk_loop s stop (current_dir s) ?b"
      using assms(3) hd by (simp add: walk_def Let_def)
    with False assms(2) show ?thesis by (auto simp: abs_start_def path_comps_def)
  qed
qed

lemma path_comps_Nil: "path_comps [] = []"
  by (simp add: path_comps_def components_Nil)

lemma fs_resolve_ok:
  assumes "fs_inv s L" "node_path s cwd (current_dir s)"
  shows "\<exists>q. fs_resolve path s = Some q \<and>
    (case abs_resolve (fs_view s) cwd path of None \<Rightarrow> q = 0 | Some xs \<Rightarrow> q \<noteq> 0 \<and> node_path s xs q)"
proof -
  have nz: "node_path s xs q \<Longrightarrow> q \<noteq> 0" for xs q
    using node_path_dom [OF assms(1)] fs_inv_null [OF assms(1)] by fastforce
  consider "path = []" | "path = ''/''" | "path \<noteq> []" "path \<noteq> ''/''" by blast
  then show ?thesis
  proof cases
    case 1
    with assms(2) nz show ?thesis by (auto simp: fs_resolve_def abs_resolve_def path_comps_Nil abs_start_def)
  next
    case 2
    then have "path_comps path = []"
      by (simp add: path_comps_def components_Nil FS_PATH_MAX_def not_slash_def)
    with 2 nz [of "[]" "root_node s"] show ?thesis by (simp add: fs_resolve_def abs_resolve_def abs_start_def)
  next
    case 3
    from walk_start [OF assms 3(1), of False] obtain node buf where
      w: "walk s path False = walk_loop s False node buf" "node_path s (abs_start cwd path) node"
      "components buf = path_comps path" by blast
    from walk_loop_all [OF assms(1) w(2), of buf] 3 w nz show ?thesis
      by (auto simp: fs_resolve_def abs_resolve_def split: option.splits)
  qed
qed

section \<open>Creating a node\<close>

lemma view_part:
  assumes t: "tree_ok (nodes s) (root_node s) K d" "tree_ok (nodes s') (root_node s) K' d'"
    and nm: "names_ok (nodes s) K" "names_ok (nodes s') K'"
    and part: "part_of (nodes s) K (nodes s') K'" and root: "root_node s' = root_node s"
    and same: "\<And>q n n'. nodes s q = Some n \<Longrightarrow> nodes s' q = Some n' \<Longrightarrow> entry_of s' n' = entry_of s n"
  shows "fs_view s ys = (case descend (nodes s') (root_node s) ys of
           Some q \<Rightarrow> if q \<in> dom (nodes s) then fs_view s' ys else None | None \<Rightarrow> None)"
proof -
  note D = descend_part [OF t nm part]
  show ?thesis
  proof (cases "descend (nodes s) (root_node s) ys")
    case None
    with D [of ys] show ?thesis by (auto simp: fs_view_def split: option.split)
  next
    case (Some q)
    with D [of ys q] have q: "descend (nodes s') (root_node s) ys = Some q" "q \<in> dom (nodes s)" by auto
    then obtain n n' where "nodes s q = Some n" "nodes s' q = Some n'"
      using part by (auto simp: part_of_def)
    with q Some root same show ?thesis by (auto simp: fs_view_def)
  qed
qed

lemma relinked_data:
  "relinked N N' \<Longrightarrow> N' q = Some n' \<Longrightarrow>
     \<exists>n. N q = Some n \<and> n_data n' = n_data n \<and> n_size n' = n_size n \<and> n_capacity n' = n_capacity n \<and>
       n_type n' = n_type n \<and> n_parent n' = n_parent n \<and> n_name n' = n_name n"
proof -
  assume re: "relinked N N'" and q: "N' q = Some n'"
  then obtain n where n: "N q = Some n" unfolding relinked_def by blast
  from relinked_D [OF re n] q n show ?thesis by auto
qed

lemma data_ok_cong:
  "n_data n' = n_data n \<Longrightarrow> n_size n' = n_size n \<Longrightarrow> n_capacity n' = n_capacity n \<Longrightarrow> n_type n' = n_type n \<Longrightarrow>
     data_ok B n' = data_ok B n"
  by (simp add: data_ok_def)

lemma owned_relinked:
  assumes re: "relinked N N'" and ow: "owned N B L" shows "owned N' B L"
proof -
  have dom: "dom N' = dom N" using re by (simp add: relinked_def)
  show ?thesis
    unfolding owned_def dom
  proof (intro conjI allI impI)
    fix p n assume "N' p = Some n"
    from relinked_data [OF re this] owned_data [OF ow] data_ok_cong show "data_ok B n" by metis
  next
    fix p q n m assume "N' p = Some n" "N' q = Some m" "n_data n = n_data m" "n_data n \<noteq> 0"
    with relinked_data [OF re this(1)] relinked_data [OF re this(2)] owned_sole [OF ow] show "p = q" by metis
  next
    show "\<forall>b\<in>dom B. \<exists>p n. N' p = Some n \<and> n_data n = b"
    proof
      fix b assume "b \<in> dom B"
      then obtain p n where p: "N p = Some n" "n_data n = b" using owned_owner [OF ow] by blast
      from relinked_D [OF re p(1)] p(2) show "\<exists>p n. N' p = Some n \<and> n_data n = b" by fastforce
    qed
  qed (use ow in \<open>simp_all add: owned_def\<close>)
qed

lemma owned_add:
  assumes ow: "owned N B L" and p: "N p = None" "L p = None" "60 \<le> k"
    and leaf: "n_data leaf = 0" "n_size leaf = 0" "n_capacity leaf = 0"
  shows "owned (N(p \<mapsto> leaf)) B (L(p \<mapsto> k))"
proof -
  have pB: "B p = None" using owned_buf [OF ow, of p] p(2) by (cases "B p") auto
  show ?thesis
    unfolding owned_def
  proof (intro conjI allI impI)
    show "\<forall>q\<in>dom (N(p \<mapsto> leaf)). \<exists>j. (L(p \<mapsto> k)) q = Some j \<and> 60 \<le> j"
      using owned_node [OF ow] p(3) by auto
    show "dom (N(p \<mapsto> leaf)) \<inter> dom B = {}" using owned_disjoint [OF ow] pB by auto
    fix b cap c assume "B b = Some (cap, c)"
    with owned_buf [OF ow this] pB show "\<exists>j. (L(p \<mapsto> k)) b = Some j \<and> cap \<le> j" by auto
  next
    fix q n assume "(N(p \<mapsto> leaf)) q = Some n"
    then show "data_ok B n" using owned_data [OF ow] leaf by (auto simp: data_ok_def split: if_splits)
  next
    fix q q' n m
    assume "(N(p \<mapsto> leaf)) q = Some n" "(N(p \<mapsto> leaf)) q' = Some m" "n_data n = n_data m" "n_data n \<noteq> 0"
    then show "q = q'" using owned_sole [OF ow] leaf by (auto split: if_splits)
  next
    show "\<forall>b\<in>dom B. \<exists>q n. (N(p \<mapsto> leaf)) q = Some n \<and> n_data n = b"
    proof
      fix b assume "b \<in> dom B"
      then obtain q n where q: "N q = Some n" "n_data n = b" using owned_owner [OF ow] by blast
      with p(1) have "q \<noteq> p" by auto
      with q show "\<exists>q n. (N(p \<mapsto> leaf)) q = Some n \<and> n_data n = b"
        by (intro exI [of _ q] exI [of _ n]) simp
    qed
  qed (use owned_null [OF ow] in auto)
qed

definition new_entry :: "fs_type \<Rightarrow> entry" where
  "new_entry ty = (if ty = FS_DIR then Dir else File [])"

lemma node_new_ok:
  assumes inv: "fs_inv s L" and u: "node_path s xs u" "nodes s u = Some ud" "n_type ud = FS_DIR"
    and name: "name_ok name" "fs_view s (xs @ [name]) = None"
  shows "\<exists>p s'. node_new name ty u s = Some (p, s') \<and> fs_frame s s' \<and>
    (if p = 0 then s' = s \<and> kcalloc 1 sizeof_fs_node s = Some (0, s)
     else (\<exists>k. fs_inv s' (L(p \<mapsto> k)) \<and> L p = None \<and> others s' (L(p \<mapsto> k)) = others s L) \<and>
       dom (nodes s') = insert p (dom (nodes s)) \<and> bufs s' = bufs s \<and>
       fs_view s' = (fs_view s)(xs @ [name] \<mapsto> new_entry ty) \<and> node_path s' (xs @ [name]) p \<and>
       (\<forall>q ys. node_path s ys q \<longrightarrow> node_path s' ys q))"
proof -
  have "unat (1 * sizeof_fs_node) + 7 < 4294967296" by (simp add: sizeof_fs_node_def)
  from kheap.alloc_law [OF fs_inv_mem [OF inv] this] obtain p s1 where
    km: "kcalloc 1 sizeof_fs_node s = Some (p, s1)" "mem_frame s s1"
    "if p = 0 then s1 = s else L p = None \<and> (\<exists>k\<ge>unat (1 * sizeof_fs_node). mem_holds s1 (L(p \<mapsto> k)))"
    unfolding kcalloc_def by blast
  show ?thesis
  proof (cases "p = 0")
    case True
    with km show ?thesis by (simp add: node_new_def fs_frame_refl)
  next
    case False
    with km(3) obtain k where k: "L p = None" "60 \<le> k" "mem_holds s1 (L(p \<mapsto> k))"
      by (auto simp: sizeof_fs_node_def)
    note g = mem_frame_fs [OF km(2)]
    obtain K d where t: "tree_ok (nodes s) (root_node s) K d" and nm: "names_ok (nodes s) K"
      using inv by (rule fs_inv_tree)
    note ow = fs_inv_owned [OF inv]
    have pN: "nodes s p = None" using owned_node [OF ow, of p] k(1) by (cases "nodes s p") auto
    have pB: "bufs s p = None" using owned_buf [OF ow, of p] k(1) by (cases "bufs s p") auto
    define leaf where "leaf = \<lparr>n_name = name, n_type = ty, n_data = NULL, n_size = 0, n_capacity = 0,
      n_parent = u, n_children = NULL, n_next = NULL\<rparr>"
    have tk: "take (FS_NAME_MAX - 1) name = name" using name(1) by (simp add: name_ok_def FS_NAME_MAX_def)
    have "p \<notin> dom (nodes s)" using pN by auto
    from link_last_tree [OF t u(2,3) this False, of leaf] obtain N' where
      N': "link_last p u ((nodes s)(p \<mapsto> leaf)) = Some N'" "relinked ((nodes s)(p \<mapsto> leaf)) N'"
      "N' p = Some leaf"
      "tree_ok N' (root_node s) (K(u := K u @ [p], p := [])) (d(p := Suc (d u)))"
      by (auto simp: leaf_def)
    let ?K = "K(u := K u @ [p], p := [])"
    let ?s = "s1\<lparr>nodes := N', node_count := node_count s1 + 1\<rparr>"
    have dom: "dom N' = insert p (dom (nodes s))" using N'(2) by (auto simp: relinked_def)
    have ud: "u \<in> dom (nodes s)" "u \<noteq> p" using u(2) pN by auto
    have nodeq: "\<exists>c x. N' q = Some (n\<lparr>n_children := c, n_next := x\<rparr>)" if "nodes s q = Some n" for q n
      using relinked_D [OF N'(2), of q n] that pN by (cases "q = p") auto
    have part: "part_of (nodes s) K N' ?K"
      unfolding part_of_def
    proof (intro conjI ballI)
      fix q assume "q \<in> dom (nodes s)"
      then obtain n where n: "nodes s q = Some n" by auto
      with nodeq [OF n] show "name_at N' q = name_at (nodes s) q" "n_parent (the (N' q)) = n_parent (the (nodes s q))"
        by auto
      have "q \<noteq> p" using n pN by auto
      moreover have "set (K q) \<subseteq> dom (nodes s)" using tree_kid [OF t, of q] n by auto
      ultimately show "set (K q) = set (?K q) \<inter> dom (nodes s)" using pN by auto
    qed (use dom in auto)
    have nmN: "name_at N' q = name_at (nodes s) q" if "q \<in> dom (nodes s)" for q
      using part that by (simp add: part_of_def)
    have sub: "c \<in> dom (nodes s)" if "q \<in> dom (nodes s)" "c \<in> set (K q)" for q c
      using tree_kid [OF t that] by auto
    have fresh: "name_at (nodes s) c \<noteq> name" if "c \<in> set (K u)" for c
    proof
      assume "name_at (nodes s) c = name"
      with descend_snoc [OF t nm _ ud(1)] u(1) that have "node_path s (xs @ [name]) c"
        by (simp add: node_path_def)
      with name(2) fs_view_None [OF inv] show False by blast
    qed
    have "names_ok N' ?K"
      unfolding names_ok_def dom
    proof (intro ballI conjI)
      fix q assume q: "q \<in> insert p (dom (nodes s))"
      have qk: "inj_on (name_at (nodes s)) (set (K q))" "\<And>c. c \<in> set (K q) \<Longrightarrow> name_ok (name_at (nodes s) c)"
        if "q \<noteq> p" using nm q that by (auto simp: names_ok_def)
      have inj': "inj_on (name_at N') (set (K q))" if "q \<noteq> p"
      proof -
        have "q \<in> dom (nodes s)" using q that by simp
        then show ?thesis using qk(1) [OF that] nmN sub by (metis (mono_tags, lifting) inj_on_cong)
      qed
      show "inj_on (name_at N') (set (?K q))"
      proof (cases "q = p \<or> q \<noteq> u")
        case True
        then show ?thesis using inj' by auto
      next
        case False
        then have "name \<notin> name_at N' ` (set (K u) - {p})" using fresh nmN sub [OF ud(1)] by auto
        with False inj' N'(3) show ?thesis by (simp add: leaf_def inj_on_insert)
      qed
      fix c assume c: "c \<in> set (?K q)"
      then have "q \<noteq> p" by auto
      show "name_ok (name_at N' c)"
      proof (cases "c = p")
        case True
        with N'(3) name(1) show ?thesis by (simp add: leaf_def)
      next
        case False
        with c \<open>q \<noteq> p\<close> have "c \<in> set (K q)" by (auto split: if_splits)
        with qk(2) [OF \<open>q \<noteq> p\<close> this] nmN sub q \<open>q \<noteq> p\<close> show ?thesis by auto
      qed
    qed
    note nm' = this
    have own: "owned N' (bufs s) (L(p \<mapsto> k))"
      using owned_relinked [OF N'(2)] owned_add [OF ow pN k(1,2), of leaf] by (simp add: leaf_def)
    have inv': "fs_inv ?s (L(p \<mapsto> k))"
      unfolding fs_inv_def
    proof (intro conjI)
      show "mem_holds ?s (L(p \<mapsto> k))" using k(3) by simp
      show "owned (nodes ?s) (bufs ?s) (L(p \<mapsto> k))" using own g by simp
      show "\<exists>K d. tree_ok (nodes ?s) (root_node ?s) K d \<and> names_ok (nodes ?s) K"
        using N'(4) nm' g by auto
      have "card (insert p (dom (nodes s))) = Suc (card (dom (nodes s)))"
        using tree_finite [OF t] pN by (intro card_insert_disjoint) auto
      then show "node_count ?s = int (card (dom (nodes ?s)))"
        using inv g dom by (simp add: fs_inv_def)
    qed
    have same: "entry_of ?s n' = entry_of s n" if "nodes s q = Some n" "nodes ?s q = Some n'" for q n n'
      using nodeq [OF that(1)] that(2) g by (auto simp: entry_of_def contents_def split: option.split)
    note D = descend_part [OF t N'(4) nm nm' part]
    have rd: "root_node s \<in> dom N'" using tree_root [OF N'(4)] by auto
    have path_up: "node_path ?s ys q" if "node_path s ys q" for q ys
      using D [of ys q] that g by (simp add: node_path_def)
    have "node_path ?s xs u" using path_up u(1) .
    moreover have "name_at N' p = name" "p \<in> set (?K u)" using N'(3) ud by (simp_all add: leaf_def)
    ultimately have new: "node_path ?s (xs @ [name]) p"
      using descend_snoc [OF N'(4) nm', of "root_node s" xs u name p] ud(1) dom g by (simp add: node_path_def)
    have "fs_view ?s ys = ((fs_view s)(xs @ [name] \<mapsto> new_entry ty)) ys" for ys
    proof (cases "ys = xs @ [name]")
      case True
      have "entry_of ?s leaf = new_entry ty"
        using g owned_null [OF ow] by (auto simp: entry_of_def leaf_def new_entry_def contents_def split: option.split)
      with True fs_view_node [OF new, of leaf] N'(3) show ?thesis by simp
    next
      case False
      have "fs_view s ys = (case descend N' (root_node s) ys of
           Some q \<Rightarrow> if q \<in> dom (nodes s) then fs_view ?s ys else None | None \<Rightarrow> None)"
        using view_part [of s K d ?s] t N'(4) nm nm' part g same by simp
      moreover have "q \<in> dom (nodes s)" if "descend N' (root_node s) ys = Some q" for q
      proof -
        have "q \<noteq> p"
          using descend_inj [OF N'(4) nm' rd] that new False g by (auto simp: node_path_def)
        with descend_dom [OF N'(4) rd that] dom show ?thesis by simp
      qed
      moreover have "fs_view ?s ys = None" if "descend N' (root_node s) ys = None"
        using that g by (simp add: fs_view_def)
      ultimately show ?thesis using False by (auto split: option.splits)
    qed
    then have view: "fs_view ?s = (fs_view s)(xs @ [name] \<mapsto> new_entry ty)" by blast
    have oth: "others ?s (L(p \<mapsto> k)) = others s L"
      using dom g pN pB k(1) by (auto simp: others_def restrict_map_def fun_eq_iff)
    have "node_new name ty u s = Some (p, ?s)"
      using km(1) False N'(1) g using tk by (simp add: node_new_def leaf_def)
    moreover have "fs_frame s ?s" using fs_frame_trans [OF fs_frame_mem [OF km(2)] fs_frame_count] .
    ultimately show ?thesis using False inv' k(1) oth dom g view new path_up by auto
  qed
qed

lemma components_ok: "c \<in> set (components buf) \<Longrightarrow> NUL \<notin> set buf \<Longrightarrow> name_ok c"
proof (induction buf rule: components.induct)
  case (1 buf)
  define b where "b = dropWhile (\<lambda>c. \<not> not_slash c) buf"
  show ?case
  proof (cases "b = []")
    case True
    with "1.prems" show ?thesis by (simp add: components.simps [of buf] b_def)
  next
    case False
    have sub: "set b \<subseteq> set buf" unfolding b_def by (auto dest: set_dropWhileD)
    have cs: "components buf = take (FS_NAME_MAX - 1) (takeWhile not_slash b) # components (dropWhile not_slash b)"
      using False components_Cons unfolding b_def by blast
    have "not_slash (hd b)" using hd_dropWhile [of "\<lambda>c. \<not> not_slash c" buf] False by (simp add: b_def)
    with False have "takeWhile not_slash b \<noteq> []" by (cases b) auto
    moreover have "set (take n (takeWhile not_slash b)) \<subseteq> {c. not_slash c} \<inter> set b" for n
      using set_take_subset by (fastforce dest: set_takeWhileD)
    ultimately have "name_ok (take (FS_NAME_MAX - 1) (takeWhile not_slash b))"
      using sub "1.prems"(2) by (fastforce simp: name_ok_def FS_NAME_MAX_def not_slash_def)
    moreover have "name_ok c" if "c \<in> set (components (dropWhile not_slash b))"
      using "1.IH" [OF refl False [unfolded b_def], folded b_def] that "1.prems"(2) sub
      by (auto dest: set_dropWhileD)
    ultimately show ?thesis using "1.prems"(1) cs by auto
  qed
qed

lemma path_comps_ok: "c \<in> set (path_comps path) \<Longrightarrow> NUL \<notin> set path \<Longrightarrow> name_ok c"
  unfolding path_comps_def by (erule components_ok) (auto dest: in_set_takeD)

text \<open>\<open>V'\<close> is \<open>V\<close> with a new node at \<open>xs\<close>, or \<open>V\<close> itself when there is no memory for it.\<close>

lemma fs_create_ok:
  assumes inv: "fs_inv s L" and cwd: "node_path s cwd (current_dir s)"
    and path: "NUL \<notin> set path"
    and res: "r = NUL \<or> (\<forall>c\<in>set (path_comps path). length c < FS_NAME_MAX - 1)"
  shows "\<exists>p s'. fs_create r path ty s = Some (p, s') \<and> fs_frame s s' \<and>
    (p = 0 \<longrightarrow> s' = s \<and>
       (\<forall>xs. abs_target (fs_view s) cwd path = Some xs \<and> fs_view s (butlast xs) = Some Dir \<and>
          fs_view s xs = None \<longrightarrow> kcalloc 1 sizeof_fs_node s = Some (0, s))) \<and>
    (p \<noteq> 0 \<longrightarrow> (\<exists>xs. abs_target (fs_view s) cwd path = Some xs \<and>
       fs_view s (butlast xs) = Some Dir \<and> fs_view s xs = None \<and>
       fs_view s' = (fs_view s)(xs \<mapsto> new_entry ty) \<and> node_path s' xs p \<and>
       (\<forall>q ys. node_path s ys q \<longrightarrow> node_path s' ys q) \<and>
       dom (nodes s') = insert p (dom (nodes s)) \<and> bufs s' = bufs s \<and>
       (\<exists>k. fs_inv s' (L(p \<mapsto> k)) \<and> L p = None \<and> others s' (L(p \<mapsto> k)) = others s L)))"
proof -
  have none: ?thesis if "fs_create r path ty s = Some (0, s)"
    "\<forall>xs. abs_target (fs_view s) cwd path = Some xs \<longrightarrow> fs_view s (butlast xs) \<noteq> Some Dir \<or> fs_view s xs \<noteq> None"
    using that by (intro exI [of _ 0] exI [of _ s]) (auto simp: fs_frame_refl)
  show ?thesis
  proof (cases "path_comps path = []")
    case True
    have "fs_create r path ty s = Some (0, s)"
    proof (cases "path = []")
      case True
      then show ?thesis by (simp add: fs_create_def walk_def)
    next
      case False
      from walk_start [OF inv cwd this, of True] obtain node buf where
        w: "walk s path True = walk_loop s True node buf" "node_path s (abs_start cwd path) node"
        "components buf = path_comps path" by blast
      from node_path_dom [OF inv w(2)] obtain n where "nodes s node = Some n" by blast
      with walk_loop_last [OF inv w(2), of buf] w True show ?thesis
        by (simp add: fs_create_def name_buf_def FS_NAME_MAX_def)
    qed
    then show ?thesis by (rule none) (simp add: abs_target_def True)
  next
    case False
    then have pn: "path \<noteq> []" by (auto simp: path_comps_Nil)
    from walk_start [OF inv cwd pn, of True] obtain node buf where
      w: "walk s path True = walk_loop s True node buf" "node_path s (abs_start cwd path) node"
      "components buf = path_comps path" by blast
    let ?c = "last (path_comps path)"
    have c: "name_ok ?c" using path_comps_ok [OF _ path] False by simp
    have "?c \<in> set (path_comps path)" using False by simp
    then have nb: "name_buf ?c r = ?c" "?c \<noteq> []" using res c by (auto simp: name_buf_def name_ok_def)
    show ?thesis
    proof (cases "abs_walk (fs_view s) (abs_start cwd path) (butlast (path_comps path))")
      case None
      with walk_loop_last [OF inv w(2), of buf] w False have "walk s path True = Some (0, [])" by simp
      then have "fs_create r path ty s = Some (0, s)" by (simp add: fs_create_def Let_def)
      then show ?thesis by (rule none) (simp add: abs_target_def None Let_def)
    next
      case (Some xs)
      with walk_loop_last [OF inv w(2), of buf] w False obtain u where
        u: "walk s path True = Some (u, ?c)" "node_path s xs u" by auto
      from node_path_dom [OF inv u(2)] obtain ud where ud: "nodes s u = Some ud" by blast
      then have u0: "u \<noteq> 0" using fs_inv_null [OF inv] by auto
      from fs_view_snoc [OF inv u(2), of ?c] obtain q where
        q: "find_child (nodes s) u ?c = Some q"
        "if q = 0 then fs_view s (xs @ [?c]) = None else node_path s (xs @ [?c]) q" by blast
      have tgt: "abs_target (fs_view s) cwd path = Some (xs @ [?c])"
        using Some False by (simp add: abs_target_def Let_def)
      have cr: "fs_create r path ty s =
          (if n_type ud \<noteq> FS_DIR \<or> q \<noteq> 0 then Some (0, s) else node_new ?c ty u s)"
        using u(1) u0 ud q(1) nb by (simp add: fs_create_def Let_def)
      show ?thesis
      proof (cases "n_type ud \<noteq> FS_DIR \<or> q \<noteq> 0")
        case True
        have "n_type ud \<noteq> FS_DIR \<Longrightarrow> fs_view s xs \<noteq> Some Dir"
          using fs_view_node [OF u(2) ud] by (simp add: entry_of_def)
        moreover have "q \<noteq> 0 \<Longrightarrow> fs_view s (xs @ [?c]) \<noteq> None" using q(2) fs_view_None [OF inv] by auto
        ultimately show ?thesis using cr True tgt by (intro none) auto
      next
        case False
        with q(2) have fresh: "fs_view s (xs @ [?c]) = None" and ty: "n_type ud = FS_DIR" by auto
        have "fs_view s xs = Some Dir" using fs_view_node [OF u(2) ud] ty by (simp add: entry_of_def)
        moreover from node_new_ok [OF inv u(2) ud ty c fresh] obtain p s' where
          "node_new ?c ty u s = Some (p, s')" "fs_frame s s'"
          "if p = 0 then s' = s \<and> kcalloc 1 sizeof_fs_node s = Some (0, s)
           else (\<exists>k. fs_inv s' (L(p \<mapsto> k)) \<and> L p = None \<and> others s' (L(p \<mapsto> k)) = others s L) \<and>
             dom (nodes s') = insert p (dom (nodes s)) \<and> bufs s' = bufs s \<and>
             fs_view s' = (fs_view s)(xs @ [?c] \<mapsto> new_entry ty) \<and> node_path s' (xs @ [?c]) p \<and>
             (\<forall>q ys. node_path s ys q \<longrightarrow> node_path s' ys q)" by blast
        ultimately show ?thesis
          using cr False tgt fresh
          by (intro exI [of _ p] exI [of _ s'] conjI impI exI [of _ "xs @ [?c]"]) (simp_all split: if_splits)
      qed
    qed
  qed
qed

end
