(* ===== verification/Ramfs_Data.thy ===== *)
theory Ramfs_Data
  imports Ramfs_Paths
begin

text \<open>
  Writing files: \<open>fs_write_n\<close> returns, never writes outside a buffer, keeps the invariant of
  the filesystem and changes its view at one path.
\<close>

section \<open>Changing the data of a node\<close>

lemma tree_ok_update:
  assumes t: "tree_ok N r K d" and f: "N f = Some n"
    and n': "n_parent n' = n_parent n" "n_children n' = n_children n" "n_next n' = n_next n" "n_type n' = n_type n"
  shows "tree_ok (N(f \<mapsto> n')) r K d"
  unfolding tree_ok_def
proof (intro conjI allI impI)
  show "\<exists>m. (N(f \<mapsto> n')) r = Some m \<and> n_parent m = 0 \<and> n_type m = FS_DIR"
    using tree_root [OF t] f n' by (cases "r = f") auto
  fix p m assume "(N(f \<mapsto> n')) p = Some m"
  then obtain m' where m: "N p = Some m'" "n_parent m = n_parent m'" "n_children m = n_children m'"
    "n_type m = n_type m'" using f n' by (cases "p = f") auto
  show "chain (N(f \<mapsto> n')) n_next (n_children m) (K p) 0"
    using tree_chain [OF t m(1)] chain_upd_same [of N f n n_next n', OF f n'(3)] m(3) by simp
  show "K p = []" if "n_type m = FS_FILE" using tree_file_kids [OF t m(1)] that m(4) by simp
  show "\<forall>c\<in>set (K p). \<exists>m. (N(f \<mapsto> n')) c = Some m \<and> n_parent m = p \<and> d c = Suc (d p)"
  proof
    fix c assume "c \<in> set (K p)"
    with tree_kid [OF t, of p c] m(1) obtain mc where "N c = Some mc" "n_parent mc = p" "d c = Suc (d p)"
      by auto
    then show "\<exists>m. (N(f \<mapsto> n')) c = Some m \<and> n_parent m = p \<and> d c = Suc (d p)"
      using f n'(1) by (cases "c = f") auto
  qed
  assume "p \<noteq> r"
  then show "n_parent m \<in> dom (N(f \<mapsto> n'))" "p \<in> set (K (n_parent m))"
    using tree_parent [OF t m(1)] m(2) by auto
qed (use tree_finite [OF t] tree_null [OF t] tree_root_depth [OF t] f in auto)

lemma names_ok_update:
  assumes "names_ok N K" "N f = Some n" "n_name n' = n_name n" "\<And>q. q \<in> dom N \<Longrightarrow> set (K q) \<subseteq> dom N"
  shows "names_ok (N(f \<mapsto> n')) K"
proof -
  have same: "name_at (N(f \<mapsto> n')) q = name_at N q" for q using assms(2,3) by simp
  have "dom (N(f \<mapsto> n')) = dom N" using assms(2) by auto
  with assms(1) show ?thesis by (simp add: names_ok_def same del: fun_upd_apply)
qed

lemma descend_update:
  assumes t: "tree_ok N r K d" and nm: "names_ok N K" and f: "N f = Some n"
    and n': "n_parent n' = n_parent n" "n_children n' = n_children n" "n_next n' = n_next n"
      "n_type n' = n_type n" "n_name n' = n_name n"
  shows "descend (N(f \<mapsto> n')) r xs = descend N r xs"
proof -
  have t': "tree_ok (N(f \<mapsto> n')) r K d" by (rule tree_ok_update [OF t f n'(1-4)])
  have K: "set (K q) \<subseteq> dom N" if "q \<in> dom N" for q using tree_kid [OF t that] by auto
  have nm': "names_ok (N(f \<mapsto> n')) K" by (rule names_ok_update [OF nm f n'(5) K])
  have "part_of N K (N(f \<mapsto> n')) K"
    unfolding part_of_def using f n' K by (intro conjI ballI) auto
  note D = descend_part [OF t t' nm nm' this]
  have "part_of (N(f \<mapsto> n')) K N K"
    unfolding part_of_def using f n' K by (intro conjI ballI) auto
  note D' = descend_part [OF t' t nm' nm this]
  show ?thesis
  proof (cases "descend N r xs")
    case None
    then show ?thesis using D' [of xs] by (cases "descend (N(f \<mapsto> n')) r xs") auto
  next
    case (Some q)
    then show ?thesis using D [of xs q] by simp
  qed
qed

lemma owned_set_data:
  assumes ow: "owned N B L" and f: "N f = Some n" and null: "N 0 = None"
    and b: "b = n_data n \<or> b \<notin> dom N \<and> b \<notin> dom B" "b \<noteq> 0"
    and n': "n_data n' = b" "data_ok (B(n_data n := None, b \<mapsto> (cap, c))) n'"
    and L': "L' b = Some k" "cap \<le> k" "\<And>q. q \<noteq> b \<Longrightarrow> q \<noteq> n_data n \<Longrightarrow> L' q = L q"
  shows "owned (N(f \<mapsto> n')) (B(n_data n := None, b \<mapsto> (cap, c))) L'"
proof -
  let ?B = "B(n_data n := None, b \<mapsto> (cap, c))"
  have old: "n_data n \<noteq> 0 \<Longrightarrow> n_data n \<in> dom B" using owned_data_buf [OF ow f] by auto
  have ndN: "q \<noteq> n_data n" "q \<noteq> b" if "q \<in> dom N" for q
  proof -
    show "q \<noteq> n_data n"
      using that old owned_disjoint [OF ow that] null by (cases "n_data n = 0") auto
    then show "q \<noteq> b" using b(1) that by auto
  qed
  show ?thesis
    unfolding owned_def
  proof (intro conjI allI impI ballI)
    fix q assume "q \<in> dom (N(f \<mapsto> n'))"
    then have "q \<in> dom N" using f by auto
    with owned_node [OF ow, of q] ndN [of q] L'(3) show "\<exists>k. L' q = Some k \<and> 60 \<le> k" by auto
  next
    fix q cp x assume "?B q = Some (cp, x)"
    then show "\<exists>k. L' q = Some k \<and> cp \<le> k"
    proof (cases "q = b")
      case True
      with \<open>?B q = Some (cp, x)\<close> L'(1,2) show ?thesis by simp
    next
      case False
      with \<open>?B q = Some (cp, x)\<close> have q: "q \<noteq> n_data n" "B q = Some (cp, x)" by (auto split: if_splits)
      from owned_buf [OF ow q(2)] L'(3) [OF False q(1)] show ?thesis by simp
    qed
  next
    have "q \<notin> dom ?B" if "q \<in> dom N" for q
    proof -
      have "B q = None" using owned_disjoint [OF ow that] by (cases "B q") auto
      with ndN [OF that] show ?thesis by (simp add: domIff)
    qed
    moreover have "dom (N(f \<mapsto> n')) = dom N" using f by auto
    ultimately show "dom (N(f \<mapsto> n')) \<inter> dom ?B = {}" by blast
    show "0 \<notin> dom ?B" using b(2) owned_null [OF ow] by auto
  next
    fix p m assume p: "(N(f \<mapsto> n')) p = Some m"
    show "data_ok ?B m"
    proof (cases "p = f")
      case True
      with p n' show ?thesis by simp
    next
      case False
      with p have pm: "N p = Some m" by simp
      have "n_data m \<noteq> n_data n" "n_data m \<noteq> b" if "n_data m \<noteq> 0"
        using owned_sole [OF ow pm f _ that] False b(1) owned_data_buf [OF ow pm that] by auto
      with owned_data [OF ow pm] show ?thesis by (auto simp: data_ok_def)
    qed
  next
    fix p q m m'
    assume pq: "(N(f \<mapsto> n')) p = Some m" "(N(f \<mapsto> n')) q = Some m'" "n_data m = n_data m'" "n_data m \<noteq> 0"
    have nb: "n_data x \<noteq> b" if "N y = Some x" "y \<noteq> f" "n_data x \<noteq> 0" for x y
      using owned_sole [OF ow that(1) f _ that(3)] that(2) b(1) owned_data_buf [OF ow that(1,3)] by auto
    consider "p = f" "q = f" | "p = f" "q \<noteq> f" | "p \<noteq> f" "q = f" | "p \<noteq> f" "q \<noteq> f" by blast
    then show "p = q"
    proof cases
      case 2
      with pq n'(1) nb [of q m'] show ?thesis by simp
    next
      case 3
      with pq n'(1) nb [of p m] show ?thesis by simp
    next
      case 4
      with pq owned_sole [OF ow, of p m q m'] show ?thesis by simp
    qed simp
  next
    fix q assume q: "q \<in> dom ?B"
    show "\<exists>p m. (N(f \<mapsto> n')) p = Some m \<and> n_data m = q"
    proof (cases "q = b")
      case True
      with n'(1) show ?thesis by (intro exI [of _ f] exI [of _ n']) simp
    next
      case False
      with q obtain x where x: "B q = Some x" "q \<noteq> n_data n" by (auto split: if_splits)
      from owned_owner [OF ow x(1)] obtain p m where "N p = Some m" "n_data m = q" by blast
      moreover from this x(2) f have "p \<noteq> f" by auto
      ultimately show ?thesis by (intro exI [of _ p] exI [of _ m]) simp
    qed
  qed
qed

section \<open>Writing a file\<close>

lemma buf_write_Some:
  "bufs s b = Some (cap, c) \<Longrightarrow> off \<le> length c \<Longrightarrow> off + length bs \<le> cap \<Longrightarrow>
     buf_write b off bs s = Some (s\<lparr>bufs := (bufs s)(b \<mapsto> (cap, take off c @ bs @ drop (off + length bs) c))\<rparr>)"
  by (simp add: buf_write_def)

lemma file_data:
  assumes "fs_inv s L" "nodes s f = Some n" "n_data n \<noteq> 0"
  shows "\<exists>c. bufs s (n_data n) = Some (unat (n_capacity n), c) \<and> unat (n_size n) < unat (n_capacity n) \<and>
    unat (n_size n) < length c \<and> contents s n = take (unat (n_size n)) c"
  using owned_data [OF fs_inv_owned [OF assms(1)] assms(2)] assms(3)
  by (auto simp: data_ok_def contents_def)

lemma grow_ok:
  assumes inv: "fs_inv s L" and f: "nodes s f = Some n"
    and base: "unat base \<le> unat (n_size n)" and cap: "unat cp + 7 < 4294967296" "cp = needed + 64"
      "unat base \<le> unat cp"
  shows "grow_buffer f base needed s = Some (False, s) \<and> kmalloc cp s = Some (0, s) \<or>
    (\<exists>b s1 k. grow_buffer f base needed s = Some (True, s1) \<and> fs_frame s s1 \<and>
       nodes s1 = (nodes s)(f \<mapsto> n\<lparr>n_data := b, n_capacity := cp\<rparr>) \<and>
       bufs s1 = (bufs s)(n_data n := None, b \<mapsto> (unat cp, take (unat base) (contents s n))) \<and>
       b \<noteq> 0 \<and> b \<notin> dom (nodes s) \<and> b \<notin> dom (bufs s) \<and> b \<noteq> n_data n \<and> node_count s1 = node_count s \<and>
       mem_holds s1 ((L(b \<mapsto> k))(n_data n := None)) \<and> unat cp \<le> k \<and> L b = None)"
proof -
  from kheap.alloc_law [OF fs_inv_mem [OF inv] cap(1)] obtain b sa where
    km: "kmalloc cp s = Some (b, sa)" "mem_frame s sa"
    "if b = 0 then sa = s else L b = None \<and> (\<exists>k\<ge>unat cp. mem_holds sa (L(b \<mapsto> k)))" by blast
  note g = mem_frame_fs [OF km(2)] and ow = fs_inv_owned [OF inv]
  show ?thesis
  proof (cases "b = 0")
    case True
    with km f cap(2) show ?thesis by (simp add: grow_buffer_def)
  next
    case False
    with km(3) obtain k where k: "L b = None" "unat cp \<le> k" "mem_holds sa (L(b \<mapsto> k))" by auto
    have bN: "b \<notin> dom (nodes s)" "b \<notin> dom (bufs s)"
      using owned_node [OF ow, of b] owned_buf [OF ow, of b] k(1) by auto
    have L0: "L 0 = None" using kheap.null_not_live [OF fs_inv_mem [OF inv]] .
    have bd: "b \<noteq> n_data n"
      using bN(2) owned_data_buf [OF ow f] False by (cases "n_data n = 0") auto
    define sb where "sb = sa\<lparr>bufs := (bufs sa)(b \<mapsto> (unat cp, []))\<rparr>"
    define sc where "sc = sa\<lparr>bufs := (bufs sa)(b \<mapsto> (unat cp, take (unat base) (contents s n)))\<rparr>"
    have copy: "(if base \<noteq> 0 \<and> n_data n \<noteq> 0
        then do { old \<leftarrow> buf_read (n_data n) (unat base) sb; buf_write b 0 old sb } else Some sb) = Some sc"
    proof (cases "base \<noteq> 0 \<and> n_data n \<noteq> 0")
      case True
      then obtain c where c: "bufs s (n_data n) = Some (unat (n_capacity n), c)"
        "unat (n_size n) < length c" "contents s n = take (unat (n_size n)) c"
        using file_data [OF inv f] by blast
      have tk: "take (unat base) (contents s n) = take (unat base) c"
        using c(3) base by (simp add: min_def)
      have "buf_read (n_data n) (unat base) sb = Some (take (unat base) c)"
        using c g bd base by (simp add: buf_read_def sb_def)
      moreover have "buf_write b 0 (take (unat base) c) sb = Some sc"
        using cap(3) c(2) base by (subst buf_write_Some [of _ _ "unat cp" "[]"]) (simp_all add: sb_def sc_def tk min_def)
      ultimately show ?thesis using True by simp
    next
      case none: False
      have "take (unat base) (contents s n) = []"
      proof (cases "base = 0")
        case False
        with none have "n_data n = 0" by simp
        with owned_null [OF ow] show ?thesis by (simp add: contents_def)
      qed simp
      with none show ?thesis by (auto simp: sb_def sc_def)
    qed
    have "\<exists>sd. release_data (n_data n) sc = Some sd \<and> fs_frame sc sd \<and> nodes sd = nodes sc \<and>
        node_count sd = node_count sc \<and> bufs sd = (bufs sc)(n_data n := None) \<and>
        mem_holds sd ((L(b \<mapsto> k))(n_data n := None))"
    proof (cases "n_data n = 0")
      case True
      have "(bufs sc)(0 := None) = bufs sc" "(L(b \<mapsto> k))(0 := None) = L(b \<mapsto> k)"
        using False g owned_null [OF ow] L0 by (auto simp: sc_def fun_eq_iff)
      with True k(3) show ?thesis by (simp add: release_data_def fs_frame_refl sc_def)
    next
      case nz: False
      from owned_data_buf [OF ow f nz] obtain c where "bufs s (n_data n) = Some (unat (n_capacity n), c)" by blast
      with owned_buf [OF ow this] bd obtain j where j: "(L(b \<mapsto> k)) (n_data n) = Some j" by auto
      have "mem_holds sc (L(b \<mapsto> k))" using k(3) by (simp add: sc_def)
      from heap_release_ok [OF this j] obtain sd where
        sd: "heap_release (n_data n) sc = Some sd" "mem_frame sc sd" "mem_holds sd ((L(b \<mapsto> k))(n_data n := None))"
        by blast
      with mem_frame_fs [OF sd(2)] nz fs_frame_trans [OF fs_frame_mem [OF sd(2)] fs_frame_bufs] show ?thesis
        by (simp add: release_data_def)
    qed
    then obtain sd where sd: "release_data (n_data n) sc = Some sd" "fs_frame sc sd" "nodes sd = nodes sc"
      "node_count sd = node_count sc" "bufs sd = (bufs sc)(n_data n := None)"
      "mem_holds sd ((L(b \<mapsto> k))(n_data n := None))" by blast
    define s1 where "s1 = sd\<lparr>nodes := (nodes sd)(f \<mapsto> n\<lparr>n_data := b, n_capacity := cp\<rparr>)\<rparr>"
    have "grow_buffer f base needed s = Some (True, s1)"
      unfolding grow_buffer_def cap(2) [symmetric]
      by (simp only: f km(1) Option.bind.bind_lunit Let_def prod.case False if_False sb_def [symmetric] copy sd(1))
        (simp add: s1_def)
    moreover have "fs_frame s s1"
      unfolding s1_def
      using fs_frame_trans [OF fs_frame_mem [OF km(2)] fs_frame_bufs [of sa]] sd(2) fs_frame_nodes
        fs_frame_trans unfolding sc_def by blast
    moreover have "bufs s1 = (bufs s)(n_data n := None, b \<mapsto> (unat cp, take (unat base) (contents s n)))"
      using sd(5) g bd by (auto simp: s1_def sc_def fun_eq_iff)
    moreover have "nodes s1 = (nodes s)(f \<mapsto> n\<lparr>n_data := b, n_capacity := cp\<rparr>)"
      using sd(3) g by (simp add: s1_def sc_def)
    moreover have "node_count s1 = node_count s" using sd(4) g by (simp add: s1_def sc_def)
    moreover have "mem_holds s1 ((L(b \<mapsto> k))(n_data n := None))" using sd(6) by (simp add: s1_def)
    ultimately show ?thesis using False bN bd k(1,2) by blast
  qed
qed

text \<open>The state before the text is stored: \<open>f\<close> has a buffer \<open>b\<close> of \<open>cp\<close> bytes.\<close>

definition ready ::
  "'a fs_state_scheme \<Rightarrow> (ptr \<Rightarrow> nat option) \<Rightarrow> ptr \<Rightarrow> fs_node \<Rightarrow> nat \<Rightarrow> ptr \<Rightarrow> u32 \<Rightarrow> string \<Rightarrow>
     'a fs_state_scheme \<Rightarrow> (ptr \<Rightarrow> nat option) \<Rightarrow> bool" where
  "ready s L f n base b cp c s1 L1 \<longleftrightarrow> fs_frame s s1 \<and>
     nodes s1 = (nodes s)(f \<mapsto> n\<lparr>n_data := b, n_capacity := cp\<rparr>) \<and>
     bufs s1 = (bufs s)(n_data n := None, b \<mapsto> (unat cp, c)) \<and> node_count s1 = node_count s \<and>
     b \<noteq> 0 \<and> (b = n_data n \<or> b \<notin> dom (nodes s) \<and> b \<notin> dom (bufs s)) \<and>
     mem_holds s1 L1 \<and> (\<exists>k. L1 b = Some k \<and> unat cp \<le> k) \<and>
     (\<forall>q. q \<noteq> b \<longrightarrow> q \<noteq> n_data n \<longrightarrow> L1 q = L q) \<and> (b \<noteq> n_data n \<longrightarrow> L1 (n_data n) = None) \<and>
     (b \<noteq> n_data n \<longrightarrow> L b = None) \<and>
     base \<le> length c \<and> take base c = take base (contents s n)"

lemma room_ok:
  assumes inv: "fs_inv s L" and f: "nodes s f = Some n" and base: "unat base \<le> unat (n_size n)"
    and small: "unat base + len + 72 < 4294967296" and needed: "needed = base + of_nat len + 1"
  shows "unat needed = unat base + len + 1 \<and>
    ((if needed > n_capacity n then grow_buffer f base needed s else Some (True, s)) = Some (False, s) \<and>
       kmalloc (needed + 64) s = Some (0, s) \<or>
     (\<exists>b cp c s1 L1. (if needed > n_capacity n then grow_buffer f base needed s else Some (True, s)) = Some (True, s1) \<and>
        ready s L f n (unat base) b cp c s1 L1 \<and> unat needed \<le> unat cp))"
proof -
  have len: "unat (of_nat len :: u32) = len" using small by (intro unat_of_nat_exact) simp
  have un1: "unat (base + of_nat len) = unat base + len"
    using small len by (subst unat_plus_exact) simp_all
  have un: "unat needed = unat base + len + 1"
    unfolding needed using un1 small by (subst unat_plus_exact) simp_all
  have un64: "unat (needed + 64) = unat base + len + 65"
    using un small by (subst unat_plus_exact) simp_all
  show ?thesis
  proof (cases "needed > n_capacity n")
    case True
    have "unat (needed + 64) + 7 < 4294967296" "unat base \<le> unat (needed + 64)"
      unfolding un64 using small by linarith+
    from grow_ok [OF inv f base this(1) refl this(2)]
    consider "grow_buffer f base needed s = Some (False, s)" "kmalloc (needed + 64) s = Some (0, s)"
      | b s1 k where "grow_buffer f base needed s = Some (True, s1)" "fs_frame s s1"
       "nodes s1 = (nodes s)(f \<mapsto> n\<lparr>n_data := b, n_capacity := needed + 64\<rparr>)"
       "bufs s1 = (bufs s)(n_data n := None, b \<mapsto> (unat (needed + 64), take (unat base) (contents s n)))"
       "b \<noteq> 0" "b \<notin> dom (nodes s)" "b \<notin> dom (bufs s)" "b \<noteq> n_data n" "node_count s1 = node_count s"
       "mem_holds s1 ((L(b \<mapsto> k))(n_data n := None))" "unat (needed + 64) \<le> k" "L b = None" by blast
    then show ?thesis
    proof cases
      case 1
      with un True show ?thesis by simp
    next
      case (2 b s1 k)
      have "length (contents s n) \<ge> unat base"
      proof (cases "n_data n = 0")
        case True
        then have "n_size n = 0" using owned_data [OF fs_inv_owned [OF inv] f] by (simp add: data_ok_def)
        with base show ?thesis by simp
      next
        case False
        from file_data [OF inv f False] base show ?thesis by auto
      qed
      then have "ready s L f n (unat base) b (needed + 64) (take (unat base) (contents s n)) s1
          ((L(b \<mapsto> k))(n_data n := None))"
        unfolding ready_def using 2 by simp
      moreover have "unat needed \<le> unat (needed + 64)" unfolding un un64 by simp
      ultimately show ?thesis using un True 2(1) by (intro conjI disjI2) auto
    qed
  next
    case False
    then have le: "unat needed \<le> unat (n_capacity n)" by (simp add: word_le_nat_alt not_less)
    with un have "n_data n \<noteq> 0" using owned_data [OF fs_inv_owned [OF inv] f] by (auto simp: data_ok_def)
    from file_data [OF inv f this] obtain c where c: "bufs s (n_data n) = Some (unat (n_capacity n), c)"
      "unat (n_size n) < length c" "contents s n = take (unat (n_size n)) c" by blast
    from owned_buf [OF fs_inv_owned [OF inv] c(1)] obtain k where k: "L (n_data n) = Some k" "unat (n_capacity n) \<le> k"
      by blast
    have "(bufs s)(n_data n := None, n_data n \<mapsto> (unat (n_capacity n), c)) = bufs s"
      using c(1) by (auto simp: fun_eq_iff)
    moreover have "(nodes s)(f \<mapsto> n\<lparr>n_data := n_data n, n_capacity := n_capacity n\<rparr>) = nodes s"
      using f by (auto simp: fun_eq_iff)
    ultimately have "ready s L f n (unat base) (n_data n) (n_capacity n) c s L"
      unfolding ready_def using c k base \<open>n_data n \<noteq> 0\<close> fs_inv_mem [OF inv]
      by (simp add: fs_frame_refl min_def)
    with le un False show ?thesis by (intro conjI disjI2) auto
  qed
qed

lemma store_text_ok:
  assumes rd: "ready s L f n (unat base) b cp c s1 L1"
    and room: "unat base + length bytes + 1 \<le> unat cp" "unat base \<le> unat (n_size n)"
      "unat base + length bytes < 4294967296"
  shows "\<exists>s2 c2 sz. store_text f base bytes s1 = Some s2 \<and> fs_frame s s2 \<and> node_count s2 = node_count s \<and>
    nodes s2 = (nodes s)(f \<mapsto> n\<lparr>n_data := b, n_capacity := cp, n_size := sz\<rparr>) \<and>
    bufs s2 = (bufs s)(n_data n := None, b \<mapsto> (unat cp, c2)) \<and> mem_holds s2 L1 \<and>
    unat sz = unat base + length bytes \<and> unat sz < length c2 \<and> c2 ! unat sz = NUL \<and>
    take (unat sz) c2 = take (unat base) (contents s n) @ bytes"
proof -
  define sz where "sz = base + of_nat (length bytes)"
  have sz: "unat sz = unat base + length bytes"
    unfolding sz_def using room(3) by (subst unat_plus_exact) (simp_all add: unat_of_nat_exact)
  have c: "bufs s1 b = Some (unat cp, c)" "unat base \<le> length c"
    "take (unat base) c = take (unat base) (contents s n)" and f1: "nodes s1 f = Some (n\<lparr>n_data := b, n_capacity := cp\<rparr>)"
    using rd by (simp_all add: ready_def)
  define c1 where "c1 = take (unat base) c @ bytes @ drop (unat base + length bytes) c"
  define c2 where "c2 = take (unat sz) c1 @ [NUL] @ drop (unat sz + 1) c1"
  define sa where "sa = s1\<lparr>bufs := (bufs s1)(b \<mapsto> (unat cp, c1))\<rparr>"
  define sb where "sb = sa\<lparr>nodes := (nodes sa)(f \<mapsto> n\<lparr>n_data := b, n_capacity := cp, n_size := sz\<rparr>)\<rparr>"
  define s2 where "s2 = sb\<lparr>bufs := (bufs sb)(b \<mapsto> (unat cp, c2))\<rparr>"
  have l1: "unat sz \<le> length c1" and t1: "take (unat sz) c1 = take (unat base) c @ bytes"
    using c(2) by (simp_all add: c1_def sz)
  have "buf_write b (unat base) bytes s1 = Some sa"
    unfolding sa_def c1_def using c(1,2) room(1) by (intro buf_write_Some) auto
  moreover have "buf_write b (unat sz) [NUL] sb = Some s2"
    unfolding s2_def using buf_write_Some [of sb b "unat cp" c1 "unat sz" "[NUL]"] room(1) l1 sz
    by (simp add: sb_def sa_def c2_def)
  ultimately have "store_text f base bytes s1 = Some s2"
    using f1 unfolding store_text_def by (simp add: Let_def flip: sz_def) (simp add: sb_def sa_def)
  moreover have "fs_frame s s2"
  proof -
    have "fs_frame s s1" using rd by (simp add: ready_def)
    moreover have "fs_frame s1 sa" unfolding sa_def by (rule fs_frame_bufs)
    moreover have "fs_frame sa sb" unfolding sb_def by (rule fs_frame_nodes)
    moreover have "fs_frame sb s2" unfolding s2_def by (rule fs_frame_bufs)
    ultimately show ?thesis using fs_frame_trans by blast
  qed
  moreover have "nodes s2 = (nodes s)(f \<mapsto> n\<lparr>n_data := b, n_capacity := cp, n_size := sz\<rparr>)"
    "bufs s2 = (bufs s)(n_data n := None, b \<mapsto> (unat cp, c2))" "node_count s2 = node_count s" "mem_holds s2 L1"
    using rd by (simp_all add: ready_def s2_def sb_def sa_def)
  moreover have "length (take (unat sz) c1) = unat sz" using l1 by simp
  then have "unat sz < length c2" "c2 ! unat sz = NUL" "take (unat sz) c2 = take (unat sz) c1"
    unfolding c2_def by (simp_all only: length_append nth_append take_append) simp_all
  moreover have "take (unat sz) c1 = take (unat base) (contents s n) @ bytes" using t1 c(3) by simp
  ultimately show ?thesis using sz
    by (intro exI [of _ s2] exI [of _ c2] exI [of _ sz] conjI) simp_all
qed

lemma fs_write_n_ok:
  assumes inv: "fs_inv s L" and path: "node_path s xs f" and f: "nodes s f = Some n" "n_type n = FS_FILE"
    and small: "(if app then unat (n_size n) else 0) + length bytes + 72 < 4294967296"
  shows "\<exists>rc s'. fs_write_n f bytes app s = Some (rc, s') \<and> fs_frame s s' \<and>
    (rc = -1 \<and> s' = s \<and>
       kmalloc ((if app then n_size n else 0) + of_nat (length bytes) + 1 + 64) s = Some (0, s) \<or>
     rc = 0 \<and> (\<exists>L'. fs_inv s' L' \<and> others s' L' = others s L) \<and> dom (nodes s') = dom (nodes s) \<and>
       fs_view s' = (fs_view s)(xs \<mapsto> File ((if app then contents s n else []) @ bytes)) \<and>
       (\<forall>ys q. node_path s' ys q = node_path s ys q))"
proof -
  define base where "base = (if app then n_size n else 0)"
  define needed where "needed = base + of_nat (length bytes) + 1"
  have f0: "f \<noteq> 0" using f fs_inv_null [OF inv] by auto
  have base: "unat base \<le> unat (n_size n)" "unat base + length bytes + 72 < 4294967296"
    using small by (auto simp: base_def)
  from room_ok [OF inv f(1) base needed_def] have un: "unat needed = unat base + length bytes + 1" by blast
  from room_ok [OF inv f(1) base needed_def]
  consider "(if needed > n_capacity n then grow_buffer f base needed s else Some (True, s)) = Some (False, s)"
      "kmalloc (needed + 64) s = Some (0, s)"
    | b cp c s1 L1 where
      "(if needed > n_capacity n then grow_buffer f base needed s else Some (True, s)) = Some (True, s1)"
      "ready s L f n (unat base) b cp c s1 L1" "unat needed \<le> unat cp" by blast
  then show ?thesis
  proof cases
    case 1
    have "fs_write_n f bytes app s = Some (-1, s)"
      unfolding fs_write_n_def
      by (simp only: f0 f if_False Option.bind.bind_lunit Let_def base_def [symmetric] needed_def [symmetric] 1
          prod.case simp_thms if_True)
    with 1(2) show ?thesis by (auto simp: fs_frame_refl base_def needed_def)
  next
    case (2 b cp c s1 L1)
    have room: "unat base + length bytes + 1 \<le> unat cp" "unat base + length bytes < 4294967296"
      using 2(3) un base(2) by linarith+
    from store_text_ok [OF 2(2) room(1) base(1) room(2)] obtain s2 c2 sz where
      s2: "store_text f base bytes s1 = Some s2" "fs_frame s s2" "node_count s2 = node_count s"
      "nodes s2 = (nodes s)(f \<mapsto> n\<lparr>n_data := b, n_capacity := cp, n_size := sz\<rparr>)"
      "bufs s2 = (bufs s)(n_data n := None, b \<mapsto> (unat cp, c2))" "mem_holds s2 L1"
      and sz: "unat sz = unat base + length bytes" "unat sz < length c2" "c2 ! unat sz = NUL"
      "take (unat sz) c2 = take (unat base) (contents s n) @ bytes" by blast
    let ?n = "n\<lparr>n_data := b, n_capacity := cp, n_size := sz\<rparr>"
    have run: "fs_write_n f bytes app s = Some (0, s2)"
      unfolding fs_write_n_def
      by (simp only: f0 f if_False Option.bind.bind_lunit Let_def base_def [symmetric] needed_def [symmetric] 2(1)
          prod.case simp_thms if_True s2(1))
    note rd = 2(2) [unfolded ready_def]
    from rd have b: "b = n_data n \<or> b \<notin> dom (nodes s) \<and> b \<notin> dom (bufs s)" "b \<noteq> 0" by blast+
    from rd obtain k where k: "L1 b = Some k" "unat cp \<le> k" by blast
    obtain K d where t: "tree_ok (nodes s) (root_node s) K d" and nm: "names_ok (nodes s) K"
      using inv by (rule fs_inv_tree)
    note g = fs_frame_globals [OF s2(2)]
    have "sz < cp" using room(1) sz(1) by (simp add: word_less_nat_alt)
    then have dok: "data_ok ((bufs s)(n_data n := None, b \<mapsto> (unat cp, c2))) ?n"
      using b(2) f(2) sz by (simp add: data_ok_def word_less_nat_alt)
    have own: "owned (nodes s2) (bufs s2) L1"
      unfolding s2(4,5)
      by (rule owned_set_data [where n = n and k = k and L = L], rule fs_inv_owned [OF inv], rule f(1),
          rule fs_inv_null [OF inv], rule b(1), rule b(2), simp, rule dok, rule k(1), rule k(2))
        (use rd in simp)
    have t': "tree_ok (nodes s2) (root_node s) K d"
      unfolding s2(4) by (rule tree_ok_update [OF t f(1)]) simp_all
    have nm': "names_ok (nodes s2) K"
      unfolding s2(4) using tree_kid [OF t] by (intro names_ok_update [OF nm f(1)]) auto
    have inv': "fs_inv s2 L1"
      unfolding fs_inv_def using s2(3,6) own t' nm' g f(1) inv s2(4)
      by (auto simp: fs_inv_def insert_absorb domI)
    have desc: "descend (nodes s2) (root_node s) ys = descend (nodes s) (root_node s) ys" for ys
      unfolding s2(4) by (rule descend_update [OF t nm f(1)]) simp_all
    have paths: "node_path s2 ys q = node_path s ys q" for ys q
      using desc g by (simp add: node_path_def)
    have "contents s2 ?n = take (unat base) (contents s n) @ bytes"
      using sz(4) by (simp add: contents_def s2(5))
    moreover have "take (unat base) (contents s n) = (if app then contents s n else [])"
      by (simp add: base_def contents_def split: option.split)
    ultimately have ent: "entry_of s2 ?n = File ((if app then contents s n else []) @ bytes)"
      using f(2) by (simp add: entry_of_def)
    have view: "fs_view s2 ys = ((fs_view s)(xs \<mapsto> File ((if app then contents s n else []) @ bytes))) ys" for ys
    proof (cases "node_path s ys f")
      case True
      then have "ys = xs" using node_path_inj [OF inv] path by blast
      moreover have "fs_view s2 ys = Some (entry_of s2 ?n)"
        using True paths s2(4) by (intro fs_view_node [of _ _ f]) simp_all
      ultimately show ?thesis using ent by simp
    next
      case False
      then have ne: "ys \<noteq> xs" using path by auto
      have same: "entry_of s2 m = entry_of s m" if m: "nodes s q = Some m" "q \<noteq> f" for q m
      proof -
        have "n_data m = n_data n \<Longrightarrow> n_data m = 0"
          using owned_sole [OF fs_inv_owned [OF inv] m(1) f(1)] m(2) by blast
        moreover have "n_data m \<noteq> 0 \<Longrightarrow> n_data m \<in> dom (bufs s)"
          using owned_data_buf [OF fs_inv_owned [OF inv] m(1)] by auto
        moreover have "bufs s 0 = None" using owned_null [OF fs_inv_owned [OF inv]] .
        ultimately have "bufs s2 (n_data m) = bufs s (n_data m)" using b by (auto simp: s2(5))
        then show ?thesis by (simp add: entry_of_def contents_def)
      qed
      show ?thesis
      proof (cases "descend (nodes s) (root_node s) ys")
        case None
        with ne desc g show ?thesis by (simp add: fs_view_def)
      next
        case (Some q)
        with False have "q \<noteq> f" by (auto simp: node_path_def)
        with Some ne desc g s2(4) same [of q] show ?thesis by (simp add: fs_view_def) (cases "nodes s q"; simp)
      qed
    qed
    have L0: "L 0 = None" using kheap.null_not_live [OF fs_inv_mem [OF inv]] .
    have buf: "n_data n \<noteq> 0 \<Longrightarrow> \<exists>x. bufs s (n_data n) = Some x"
      using owned_data_buf [OF fs_inv_owned [OF inv] f(1)] by auto
    have dm: "dom (nodes s2) = dom (nodes s)" using s2(4) f(1) by auto
    have "others s2 L1 q = others s L q" for q
    proof -
      consider "q = b" "b = n_data n" | "q = b" "b \<noteq> n_data n" | "q \<noteq> b" "q = n_data n" | "q \<noteq> b" "q \<noteq> n_data n"
        by blast
      then show ?thesis
      proof cases
        case 1
        with buf b(2) s2(5) show ?thesis by (auto simp: others_def restrict_map_def)
      next
        case 2
        with rd s2(5) show ?thesis by (auto simp: others_def restrict_map_def)
      next
        case 3
        with rd L0 buf show ?thesis by (cases "n_data n = 0") (auto simp: others_def restrict_map_def)
      next
        case 4
        with rd have "L1 q = L q" by blast
        with 4 dm s2(5) show ?thesis by (auto simp: others_def restrict_map_def)
      qed
    qed
    then have "others s2 L1 = others s L" by blast
    moreover have "dom (nodes s2) = dom (nodes s)" using s2(4) f(1) by auto
    ultimately show ?thesis using run s2(2) inv' view paths by blast
  qed
qed

end
