(* ===== verification/Ramfs_Remove.thy ===== *)
theory Ramfs_Remove
  imports Ramfs_Data "HOL-Library.Sublist"
begin

text \<open>
  Removing subtrees, starting over and starting up: each operation returns, keeps the
  invariant of the filesystem and acts on its view as specified.
\<close>

section \<open>Removing\<close>

lemma below_paths:
  assumes inv: "fs_inv s L" and p: "node_path s xs p"
  shows "q \<in> below (nodes s) p \<longleftrightarrow> (\<exists>ys. node_path s (xs @ ys) q)"
  using p by (auto simp: below_def node_path_def descend_append)

lemma names_ok_sub:
  assumes "names_ok N K" "dom N' \<subseteq> dom N" "\<And>q. q \<in> dom N' \<Longrightarrow> set (K' q) \<subseteq> set (K q)"
    "\<And>q c. q \<in> dom N' \<Longrightarrow> c \<in> set (K' q) \<Longrightarrow> name_at N' c = name_at N c"
  shows "names_ok N' K'"
  unfolding names_ok_def
proof (intro ballI conjI)
  fix q assume q: "q \<in> dom N'"
  then have "q \<in> dom N" using assms(2) by blast
  then have "inj_on (name_at N) (set (K q))" using assms(1) unfolding names_ok_def by blast
  then have "inj_on (name_at N) (set (K' q))" using assms(3) [OF q] by (rule inj_on_subset)
  moreover have "inj_on (name_at N') (set (K' q)) = inj_on (name_at N) (set (K' q))"
    by (rule inj_on_cong) (rule assms(4) [OF q])
  ultimately show "inj_on (name_at N') (set (K' q))" by simp
  fix c assume c: "c \<in> set (K' q)"
  with assms(3) [OF q] have "c \<in> set (K q)" by blast
  with \<open>q \<in> dom N\<close> assms(1) have "name_ok (name_at N c)" unfolding names_ok_def by blast
  with assms(4) [OF q c] show "name_ok (name_at N' c)" by simp
qed

lemma remove_subtree_ok:
  assumes inv: "fs_inv s L" and p: "node_path s xs p" "nodes s p = Some n" "xs \<noteq> []"
  shows "\<exists>N1 s'. unlink_node (n_parent n) p (nodes s) = Some (True, N1) \<and>
    free_subtree p (s\<lparr>nodes := N1\<rparr>) = Some s' \<and> fs_frame s s' \<and>
    fs_inv s' (L |` (- (below (nodes s) p \<union> data_of (nodes s) (below (nodes s) p)))) \<and>
    others s' (L |` (- (below (nodes s) p \<union> data_of (nodes s) (below (nodes s) p)))) = others s L \<and>
    (\<forall>ys q. node_path s' ys q \<longleftrightarrow> node_path s ys q \<and> \<not> prefix xs ys) \<and>
    fs_view s' = (\<lambda>ys. if prefix xs ys then None else fs_view s ys)"
proof -
  let ?B = "below (nodes s) p"
  obtain K d where t: "tree_ok (nodes s) (root_node s) K d" and nm: "names_ok (nodes s) K"
    using inv by (rule fs_inv_tree)
  note ow = fs_inv_owned [OF inv]
  have pr: "p \<noteq> root_node s" using node_path_inj [OF inv p(1), of "[]"] p(3) by auto
  have pd: "p \<in> dom (nodes s)" using p(2) by auto
  let ?K = "K(n_parent n := remove1 p (K (n_parent n)))"
  from unlink_tree [OF t nm p(2) pr] obtain N1 where N1:
    "unlink_node (n_parent n) p (nodes s) = Some (True, N1)" "relinked (nodes s) N1"
    "\<forall>q\<in>?B. N1 q = nodes s q" "tree_ok (N1 |` (- ?B)) (root_node s) ?K d" by blast
  define s1 where "s1 = s\<lparr>nodes := N1\<rparr>"
  from reps_exists [OF t nm p(2)] obtain ts where ts: "reps (nodes s) (n_children n) ts"
    "set (addrs ts) = ?B - {p}" "distinct (addrs ts)" by blast
  have r1: "reps (nodes s1) (n_children n) ts"
    using ts(2) N1(3) by (intro reps_cong [OF ts(1)]) (auto simp: s1_def)
  have n1: "nodes s1 p = Some n" using N1(3) p(2) by (simp add: s1_def)
  have ow1: "owned (nodes s1) (bufs s1) L" using owned_relinked [OF N1(2) ow] by (simp add: s1_def)
  have h1: "mem_holds s1 L" using fs_inv_mem [OF inv] by (simp add: s1_def)
  have B: "insert p (set (addrs ts)) = ?B" unfolding ts(2) by (simp add: insert_absorb)
  have "p \<notin> set (addrs ts)" unfolding ts(2) by simp
  from free_subtree_freed [OF n1 r1 ts(3) this h1 ow1, unfolded B]
  obtain s' where fr: "free_subtree p s1 = Some s'" "freed ?B s1 L s'" by blast
  have Bsub: "?B \<subseteq> dom (nodes s)" using below_subset [OF t pd] .
  have dom1: "dom (nodes s1) = dom (nodes s)" using N1(2) by (simp add: relinked_def s1_def)
  have dat: "data_of (nodes s1) ?B = data_of (nodes s) ?B" 
  proof -
    have "nodes s1 q = nodes s q" if "q \<in> ?B" for q using N1(3) that by (simp add: s1_def)
    then show ?thesis unfolding data_of_def by metis
  qed
  let ?L = "L |` (- (?B \<union> data_of (nodes s) ?B))"
  have n': "nodes s' = N1 |` (- ?B)" using fr(2) by (simp add: freed_def s1_def)
  have frame: "fs_frame s s'"
    using fr(2) fs_frame_nodes fs_frame_trans unfolding freed_def s1_def by blast
  note g = fs_frame_globals [OF frame]
  have domn: "dom (nodes s') = dom (nodes s) - ?B" using n' dom1 by (auto simp: s1_def)
  have nameq: "name_at (nodes s') q = name_at (nodes s) q" "n_parent (the (nodes s' q)) = n_parent (the (nodes s q))"
    if "q \<in> dom (nodes s')" for q
  proof -
    from that domn obtain m where m: "nodes s q = Some m" "q \<notin> ?B" by auto
    with relinked_D [OF N1(2) m(1)] n'
    show "name_at (nodes s') q = name_at (nodes s) q" "n_parent (the (nodes s' q)) = n_parent (the (nodes s q))"
      by auto
  qed
  have t': "tree_ok (nodes s') (root_node s) ?K d" using N1(4) n' by simp
  have Ksub: "set (?K q) \<subseteq> set (K q)" for q using set_remove1_subset [of p "K (n_parent n)"] by auto
  have kid': "c \<in> dom (nodes s')" if "q \<in> dom (nodes s')" "c \<in> set (?K q)" for q c
    using tree_kid [OF t' that] by auto
  have nm': "names_ok (nodes s') ?K"
  proof (rule names_ok_sub [OF nm])
    show "dom (nodes s') \<subseteq> dom (nodes s)" unfolding domn by blast
    show "set (?K q) \<subseteq> set (K q)" for q by (rule Ksub)
    show "name_at (nodes s') c = name_at (nodes s) c" if "q \<in> dom (nodes s')" "c \<in> set (?K q)" for q c
      by (rule nameq(1) [OF kid' [OF that]])
  qed
  have part: "part_of (nodes s') ?K (nodes s) K"
    unfolding part_of_def
  proof (intro conjI ballI)
    fix q assume q: "q \<in> dom (nodes s')"
    show "name_at (nodes s) q = name_at (nodes s') q" "n_parent (the (nodes s q)) = n_parent (the (nodes s' q))"
      using nameq [OF q] by auto
    show "set (?K q) = set (K q) \<inter> dom (nodes s')"
    proof (intro equalityI subsetI)
      fix c assume "c \<in> set (?K q)"
      with Ksub kid' [OF q] show "c \<in> set (K q) \<inter> dom (nodes s')" by blast
    next
      fix c assume c: "c \<in> set (K q) \<inter> dom (nodes s')"
      then have "c \<noteq> p" using domn by auto
      with c show "c \<in> set (?K q)" by auto
    qed
  qed (use domn in auto)
  have inv': "fs_inv s' ?L"
    unfolding fs_inv_def
  proof (intro conjI)
    show "mem_holds s' ?L" using fr(2) dat by (simp add: freed_def)
    show "owned (nodes s') (bufs s') ?L"
      using freed_owned [OF ow1 fr(2)] Bsub dom1 dat by simp
    show "\<exists>K d. tree_ok (nodes s') (root_node s') K d \<and> names_ok (nodes s') K"
      using t' nm' g by metis
    have "node_count s' = node_count s - int (card ?B)" using fr(2) by (simp add: freed_def s1_def)
    moreover have "card (dom (nodes s) - ?B) = card (dom (nodes s)) - card ?B" "card ?B \<le> card (dom (nodes s))"
      using tree_finite [OF t] Bsub by (auto intro: card_Diff_subset finite_subset card_mono)
    ultimately show "node_count s' = int (card (dom (nodes s')))"
      using inv domn by (simp add: fs_inv_def of_nat_diff)
  qed
  note D = descend_part [OF t' t nm' nm part]
  have notin: "q \<in> dom (nodes s') \<longleftrightarrow> \<not> prefix xs ys" if "node_path s ys q" for ys q
  proof -
    have "q \<in> ?B \<longleftrightarrow> prefix xs ys"
    proof
      assume "q \<in> ?B"
      then obtain zs where "node_path s (xs @ zs) q" using below_paths [OF inv p(1)] by blast
      with node_path_inj [OF inv that] show "prefix xs ys" by auto
    next
      assume "prefix xs ys"
      then obtain zs where "ys = xs @ zs" by (auto simp: prefix_def)
      with that below_paths [OF inv p(1)] show "q \<in> ?B" by blast
    qed
    moreover have "q \<in> dom (nodes s)" using node_path_dom [OF inv that] by auto
    ultimately show ?thesis using domn by blast
  qed
  have paths: "node_path s' ys q \<longleftrightarrow> node_path s ys q \<and> \<not> prefix xs ys" for ys q
    using D [of ys q] notin [of ys q] g by (auto simp: node_path_def)
  have same: "entry_of s m = entry_of s' m'" if m: "nodes s' q = Some m'" "nodes s q = Some m" for q m m'
  proof -
    have "q \<notin> ?B" using m(1) domn by auto
    with relinked_D [OF N1(2) m(2)] n' m(1) have e: "n_data m' = n_data m" "n_size m' = n_size m" "n_type m' = n_type m"
      by auto
    have "n_data m \<notin> data_of (nodes s) ?B"
    proof
      assume "n_data m \<in> data_of (nodes s) ?B"
      then obtain x y where "x \<in> ?B" "nodes s x = Some y" "n_data y = n_data m" "n_data m \<noteq> 0"
        by (auto simp: data_of_def)
      with owned_sole [OF ow this(2) m(2)] \<open>q \<notin> ?B\<close> show False by auto
    qed
    then have "bufs s' (n_data m) = bufs s (n_data m)" using fr(2) dat by (simp add: freed_def s1_def)
    with e show ?thesis by (simp add: entry_of_def contents_def split: option.split)
  qed
  have view: "fs_view s' ys = (if prefix xs ys then None else fs_view s ys)" for ys
  proof -
    have "fs_view s' ys = (case descend (nodes s) (root_node s') ys of
           Some q \<Rightarrow> if q \<in> dom (nodes s') then fs_view s ys else None | None \<Rightarrow> None)"
    proof (rule view_part [OF _ _ nm' nm part])
      show "tree_ok (nodes s') (root_node s') ?K d" "tree_ok (nodes s) (root_node s') K d"
        using t t' g by simp_all
    qed (use g same in simp_all)
    moreover have "descend (nodes s) (root_node s') ys = None \<Longrightarrow> fs_view s ys = None"
      using g by (simp add: fs_view_def)
    ultimately show ?thesis using notin [of ys] g by (auto simp: node_path_def split: option.splits)
  qed
  have oth: "others s' ?L = others s L"
  proof
    fix q
    have "bufs s' = bufs s |` (- data_of (nodes s) ?B)" using fr(2) dat by (simp add: freed_def s1_def)
    moreover have "data_of (nodes s) ?B \<subseteq> dom (bufs s)"
      using owned_data_buf [OF ow] by (auto simp: data_of_def)
    ultimately show "others s' ?L q = others s L q"
      using domn Bsub by (auto simp: others_def restrict_map_def)
  qed
  show ?thesis using N1(1) fr(1) frame inv' oth paths view unfolding s1_def by blast
qed

text \<open>What \<open>fs_remove\<close> does to the view.\<close>

lemma fs_remove_ok:
  assumes inv: "fs_inv s L" and cwd: "node_path s cwd (current_dir s)"
  shows "\<exists>rc s'. fs_remove path s = Some (rc, s') \<and> fs_frame s s' \<and>
    (case abs_resolve (fs_view s) cwd path of
       None \<Rightarrow> rc = -1 \<and> s' = s
     | Some xs \<Rightarrow>
         if xs = [] then rc = -1 \<and> s' = s
         else if xs = cwd then rc = -2 \<and> s' = s
         else rc = 0 \<and> (\<exists>A. fs_inv s' (L |` (- A)) \<and> others s' (L |` (- A)) = others s L) \<and>
           (\<forall>ys q. node_path s' ys q \<longleftrightarrow> node_path s ys q \<and> \<not> prefix xs ys) \<and>
           fs_view s' = (\<lambda>ys. if prefix xs ys then None else fs_view s ys))"
proof -
  from fs_resolve_ok [OF inv cwd, of path] obtain p where p: "fs_resolve path s = Some p"
    "case abs_resolve (fs_view s) cwd path of None \<Rightarrow> p = 0 | Some xs \<Rightarrow> p \<noteq> 0 \<and> node_path s xs p" by blast
  show ?thesis
  proof (cases "abs_resolve (fs_view s) cwd path")
    case None
    with p show ?thesis by (simp add: fs_remove_def fs_frame_refl)
  next
    case (Some xs)
    with p have px: "p \<noteq> 0" "node_path s xs p" by auto
    from node_path_dom [OF inv px(2)] obtain n where n: "nodes s p = Some n" by blast
    have r: "p = root_node s \<longleftrightarrow> xs = []"
      using node_path_inj [OF inv px(2), of "[]"] px(2) by (auto simp: node_path_def)
    have c: "p = current_dir s \<longleftrightarrow> xs = cwd"
      using node_path_inj [OF inv px(2), of cwd] cwd px(2) node_path_fun by blast
    consider "xs = []" | "xs \<noteq> []" "xs = cwd" | "xs \<noteq> []" "xs \<noteq> cwd" by blast
    then show ?thesis
    proof cases
      case 1
      with p(1) r Some show ?thesis by (simp add: fs_remove_def fs_frame_refl)
    next
      case 2
      with p(1) r c Some px(1) show ?thesis by (simp add: fs_remove_def fs_frame_refl)
    next
      case 3
      obtain K d where t: "tree_ok (nodes s) (root_node s) K d" using inv by (rule fs_inv_tree)
      have "n_parent n \<noteq> 0" using tree_parent_nonnull [OF t n] r 3(1) by simp
      moreover from remove_subtree_ok [OF inv px(2) n 3(1)] obtain N1 s' where rm:
        "unlink_node (n_parent n) p (nodes s) = Some (True, N1)" "free_subtree p (s\<lparr>nodes := N1\<rparr>) = Some s'"
        "fs_frame s s'"
        "fs_inv s' (L |` (- (below (nodes s) p \<union> data_of (nodes s) (below (nodes s) p))))"
        "others s' (L |` (- (below (nodes s) p \<union> data_of (nodes s) (below (nodes s) p)))) = others s L"
        "\<forall>ys q. node_path s' ys q \<longleftrightarrow> node_path s ys q \<and> \<not> prefix xs ys"
        "fs_view s' = (\<lambda>ys. if prefix xs ys then None else fs_view s ys)" by blast
      ultimately have "fs_remove path s = Some (0, s')"
        using p(1) px(1) r c 3 n by (simp add: fs_remove_def)
      moreover have "\<exists>A. fs_inv s' (L |` (- A)) \<and> others s' (L |` (- A)) = others s L"
        using rm(4,5) by blast
      ultimately show ?thesis using rm(3,6,7) 3 Some
        by (intro exI [of _ 0] exI [of _ s']) (simp only: option.case if_False simp_thms)
    qed
  qed
qed

section \<open>Starting over\<close>

lemma below_root:
  assumes "tree_ok N r K d" "names_ok N K" shows "below N r = dom N"
proof
  show "below N r \<subseteq> dom N" using below_subset [OF assms(1)] tree_root [OF assms(1)] by auto
  show "dom N \<subseteq> below N r" using path_exists [OF assms] by (auto simp: below_def)
qed

text \<open>A tree that is one directory.\<close>

lemma tree_single:
  assumes "N = [r \<mapsto> n]" "r \<noteq> 0" "n_parent n = 0" "n_type n = FS_DIR" "n_children n = 0"
  shows "tree_ok N r (\<lambda>_. []) (\<lambda>_. 0) \<and> names_ok N (\<lambda>_. [])"
  using assms by (auto simp: tree_ok_def names_ok_def)

lemma descend_single:
  assumes "N = [r \<mapsto> n]" "r \<noteq> 0" "n_parent n = 0" "n_type n = FS_DIR" "n_children n = 0"
  shows "descend N r ys = (if ys = [] then Some r else None)"
  using find_child_tree [of N r "\<lambda>_. []" "\<lambda>_. 0" r] tree_single [OF assms] assms(1)
  by (cases ys) fastforce+

lemma view_single:
  assumes "nodes s = [root_node s \<mapsto> n]" "root_node s \<noteq> 0" "n_parent n = 0" "n_type n = FS_DIR" "n_children n = 0"
  shows "fs_view s = [[] \<mapsto> Dir]"
proof
  fix ys
  show "fs_view s ys = [[] \<mapsto> Dir] ys"
    using descend_single [OF assms] assms(1,4) by (simp add: fs_view_def entry_of_def)
qed

lemma inv_single:
  assumes "nodes s = [root_node s \<mapsto> n]" "root_node s \<noteq> 0" "n_parent n = 0" "n_type n = FS_DIR" "n_children n = 0"
    "n_data n = 0" "n_size n = 0" "n_capacity n = 0"
    "bufs s = Map.empty" "mem_holds s L" "L (root_node s) = Some k" "60 \<le> k" "node_count s = 1"
  shows "fs_inv s L"
  unfolding fs_inv_def
proof (intro conjI)
  show "owned (nodes s) (bufs s) L" using assms by (auto simp: owned_def data_ok_def)
  show "\<exists>K d. tree_ok (nodes s) (root_node s) K d \<and> names_ok (nodes s) K"
    using tree_single [OF assms(1-5)] by blast
qed (use assms in simp_all)

lemma root_data:
  assumes "fs_inv s L" "nodes s (root_node s) = Some n"
  shows "n_data n = 0 \<and> n_size n = 0 \<and> n_capacity n = 0"
  using owned_data [OF fs_inv_owned [OF assms(1)] assms(2)] fs_inv_root [OF assms(1)] assms(2)
  by (auto simp: data_ok_def split: if_splits)

lemma fs_reset_ok:
  assumes inv: "fs_inv s L"
  shows "\<exists>s' A. fs_reset s = Some s' \<and> fs_inv s' (L |` (- A)) \<and> others s' (L |` (- A)) = others s L \<and>
    fs_view s' = [[] \<mapsto> Dir] \<and> root_node s' = root_node s \<and> current_dir s' = root_node s \<and>
    dom (nodes s') = {root_node s} \<and> bufs s' = Map.empty \<and> fs_frame s (s'\<lparr>current_dir := current_dir s\<rparr>)"
proof -
  let ?r = "root_node s"
  obtain K d where t: "tree_ok (nodes s) ?r K d" and nm: "names_ok (nodes s) K"
    using inv by (rule fs_inv_tree)
  note ow = fs_inv_owned [OF inv]
  from fs_inv_root [OF inv] obtain n where n: "nodes s ?r = Some n" "n_parent n = 0" "n_type n = FS_DIR" "?r \<noteq> 0"
    by blast
  let ?A = "dom (nodes s) - {?r}"
  from reps_exists [OF t nm n(1)] obtain ts where ts: "reps (nodes s) (n_children n) ts"
    "set (addrs ts) = ?A" "distinct (addrs ts)" unfolding below_root [OF t nm] by blast
  from free_siblings_freed [OF ts(1,3) fs_inv_mem [OF inv] ow] obtain s1 where
    s1: "free_siblings (n_children n) s = Some s1" "freed ?A s L s1" unfolding ts(2) by blast
  have "nodes s1 = nodes s |` (- ?A)" using s1(2) by (simp add: freed_def)
  moreover have "nodes s q = None" if "q \<notin> ?A" "q \<noteq> ?r" for q using that by auto
  ultimately have n1: "nodes s1 = [?r \<mapsto> n]" using n(1) by (auto simp: restrict_map_def fun_eq_iff)
  have g: "root_node s1 = ?r" using s1(2) fs_frame_globals by (auto simp: freed_def)
  let ?D = "?A \<union> data_of (nodes s) ?A"
  have all: "dom (bufs s) \<subseteq> data_of (nodes s) ?A"
  proof
    fix b assume "b \<in> dom (bufs s)"
    then obtain c where b: "bufs s b = Some c" by blast
    from owned_owner [OF ow b] obtain q m where q: "nodes s q = Some m" "n_data m = b" by blast
    have "b \<noteq> 0" using b owned_null [OF ow] by auto
    with q root_data [OF inv n(1)] n(1) have "q \<noteq> ?r" by auto
    with q \<open>b \<noteq> 0\<close> show "b \<in> data_of (nodes s) ?A" by (auto simp: data_of_def)
  qed
  have "bufs s1 = bufs s |` (- data_of (nodes s) ?A)" using s1(2) by (simp add: freed_def)
  then have b1: "bufs s1 = Map.empty" using all by (auto simp: restrict_map_def fun_eq_iff)
  have dsub: "data_of (nodes s) ?A \<subseteq> dom (bufs s)" using owned_data_buf [OF ow] by (auto simp: data_of_def)
  have rD: "?r \<notin> ?D" using dsub owned_disjoint [OF ow, of ?r] n(1) by auto
  define s2 where "s2 = s1\<lparr>nodes := (nodes s1)(?r \<mapsto> n\<lparr>n_children := NULL\<rparr>), current_dir := ?r\<rparr>"
  have run: "fs_reset s = Some s2" using n s1(1) n1 g by (simp add: fs_reset_def s2_def)
  have n2: "nodes s2 = [?r \<mapsto> n\<lparr>n_children := NULL\<rparr>]" "root_node s2 = ?r" using n1 g by (simp_all add: s2_def)
  from owned_node [OF ow n(1)] obtain k where k: "L ?r = Some k" "60 \<le> k" by blast
  have card: "int (card (dom (nodes s))) = int (card ?A) + 1"
    using card_Suc_Diff1 [OF tree_finite [OF t], of ?r] n(1) by (simp add: domI)
  have "node_count s2 = 1"
    using s1(2) inv card by (simp add: s2_def freed_def fs_inv_def)
  moreover have "mem_holds s2 (L |` (- ?D))" using s1(2) by (simp add: s2_def freed_def)
  moreover have "(L |` (- ?D)) ?r = Some k" using k(1) rD by simp
  ultimately have inv': "fs_inv s2 (L |` (- ?D))"
    using n2 n root_data [OF inv n(1)] k(2) b1
    by (intro inv_single [where n = "n\<lparr>n_children := NULL\<rparr>" and k = k]) (simp_all add: s2_def)
  moreover have "fs_view s2 = [[] \<mapsto> Dir]"
    using n2 n by (intro view_single [where n = "n\<lparr>n_children := NULL\<rparr>"]) simp_all
  moreover have "others s2 (L |` (- ?D)) = others s L"
  proof
    fix q
    show "others s2 (L |` (- ?D)) q = others s L q"
      using n2(1) n(1) b1 dsub all by (auto simp: others_def restrict_map_def s2_def)
  qed
  moreover have "current_dir s2 = ?r" "dom (nodes s2) = {?r}" "bufs s2 = Map.empty"
    using n2 b1 by (simp_all add: s2_def)
  moreover have "fs_frame s (s2\<lparr>current_dir := current_dir s\<rparr>)"
  proof -
    have fr: "fs_frame s s1" using s1(2) by (simp add: freed_def)
    then have "current_dir s1 = current_dir s" by (simp add: fs_frame_globals)
    then have "s2\<lparr>current_dir := current_dir s\<rparr> = s1\<lparr>nodes := (nodes s1)(?r \<mapsto> n\<lparr>n_children := NULL\<rparr>)\<rparr>" by (simp add: s2_def)
    with fs_frame_trans [OF fr fs_frame_nodes] show ?thesis by simp
  qed
  ultimately show ?thesis using run n2(2) by blast
qed

text \<open>The first directory, on a state without nodes.\<close>

definition fs_fresh :: "'a fs_state_scheme \<Rightarrow> (ptr \<Rightarrow> nat option) \<Rightarrow> bool" where
  "fs_fresh s L \<longleftrightarrow> mem_holds s L \<and> nodes s = Map.empty \<and> bufs s = Map.empty \<and> node_count s = 0"

lemma root_new_ok:
  assumes "fs_fresh s L"
  shows "\<exists>p s1. node_new ''/'' FS_DIR NULL s = Some (p, s1) \<and>
    (if p = 0 then s1 = s \<and> kcalloc 1 sizeof_fs_node s = Some (0, s)
     else \<exists>k. L p = None \<and> fs_frame s s1 \<and> (\<forall>c. fs_inv (s1\<lparr>root_node := p, current_dir := c\<rparr>) (L(p \<mapsto> k)) \<and>
       others (s1\<lparr>root_node := p, current_dir := c\<rparr>) (L(p \<mapsto> k)) = L \<and>
       fs_view (s1\<lparr>root_node := p, current_dir := c\<rparr>) = [[] \<mapsto> Dir]))"
proof -
  have fr: "mem_holds s L" "nodes s = Map.empty" "bufs s = Map.empty" "node_count s = 0"
    using assms by (simp_all add: fs_fresh_def)
  have "unat (1 * sizeof_fs_node) + 7 < 4294967296" by (simp add: sizeof_fs_node_def)
  from kheap.alloc_law [OF fr(1) this] obtain p s1 where
    km: "kcalloc 1 sizeof_fs_node s = Some (p, s1)" "mem_frame s s1"
    "if p = 0 then s1 = s else L p = None \<and> (\<exists>k\<ge>unat (1 * sizeof_fs_node). mem_holds s1 (L(p \<mapsto> k)))"
    unfolding kcalloc_def by blast
  show ?thesis
  proof (cases "p = 0")
    case True
    with km show ?thesis by (simp add: node_new_def)
  next
    case False
    with km(3) obtain k where k: "L p = None" "60 \<le> k" "mem_holds s1 (L(p \<mapsto> k))"
      by (auto simp: sizeof_fs_node_def)
    note g = mem_frame_fs [OF km(2)]
    define leaf where "leaf = \<lparr>n_name = take (FS_NAME_MAX - 1) ''/'', n_type = FS_DIR, n_data = NULL, n_size = 0,
      n_capacity = 0, n_parent = NULL, n_children = NULL, n_next = NULL\<rparr>"
    define s2 where "s2 = s1\<lparr>nodes := [p \<mapsto> leaf], node_count := 1\<rparr>"
    have "node_new ''/'' FS_DIR NULL s = Some (p, s2)"
      using km(1) False g fr by (simp add: node_new_def link_last_def leaf_def s2_def)
    moreover have "fs_inv (s2\<lparr>root_node := p, current_dir := c\<rparr>) (L(p \<mapsto> k)) \<and>
      others (s2\<lparr>root_node := p, current_dir := c\<rparr>) (L(p \<mapsto> k)) = L \<and>
      fs_view (s2\<lparr>root_node := p, current_dir := c\<rparr>) = [[] \<mapsto> Dir]" for c
    proof (intro conjI)
      show "fs_inv (s2\<lparr>root_node := p, current_dir := c\<rparr>) (L(p \<mapsto> k))"
        using False g fr k by (intro inv_single [where n = leaf and k = k]) (simp_all add: s2_def leaf_def)
      show "fs_view (s2\<lparr>root_node := p, current_dir := c\<rparr>) = [[] \<mapsto> Dir]"
        using False by (intro view_single [where n = leaf]) (simp_all add: s2_def leaf_def)
      show "others (s2\<lparr>root_node := p, current_dir := c\<rparr>) (L(p \<mapsto> k)) = L"
        using g fr k(1) by (auto simp: others_def s2_def restrict_map_def fun_eq_iff)
    qed
    moreover from km(2) obtain H u where "s2 = s\<lparr>hdr := H, heap_used := u, nodes := [p \<mapsto> leaf], bufs := bufs s, node_count := 1\<rparr>"
      by (auto simp: mem_frame_def s2_def)
    then have "fs_frame s s2" unfolding fs_frame_def by blast
    ultimately show ?thesis using False k(1) by auto
  qed
qed

end
