(* ===== verification/Ramfs_Spec.thy ===== *)
theory Ramfs_Spec
  imports Ramfs_Remove
begin

text \<open>
  The properties of the filesystem: start-up, and what each operation does to the map from
  paths to entries, with the behaviours at the limits of the code.
\<close>

section \<open>Printing the path of a node\<close>

definition path_string :: "string list \<Rightarrow> string" where
  "path_string xs = (if xs = [] then ''/'' else concat (map (\<lambda>x. CHR ''/'' # x) xs))"

lemma abs_parts_path:
  assumes inv: "fs_inv s L"
  shows "node_path s xs p \<Longrightarrow> abs_parts (nodes s) p k = Some (take k (rev xs))"
proof (induction k arbitrary: xs p)
  case 0
  then show ?case by simp
next
  case (Suc k)
  from node_path_dom [OF inv Suc.prems] obtain n where n: "nodes s p = Some n" by blast
  obtain K d where t: "tree_ok (nodes s) (root_node s) K d" and nm: "names_ok (nodes s) K"
    using inv by (rule fs_inv_tree)
  have p0: "p \<noteq> 0" using n fs_inv_null [OF inv] by auto
  have r: "p = root_node s \<longleftrightarrow> xs = []"
    using node_path_inj [OF inv Suc.prems, of "[]"] Suc.prems by (auto simp: node_path_def)
  show ?case
  proof (cases xs rule: rev_cases)
    case Nil
    with r n tree_parent_nonnull [OF t n] p0 show ?thesis by simp
  next
    case (snoc ys y)
    then have "n_parent n \<noteq> 0" using tree_parent_nonnull [OF t n] r by simp
    with node_path_parent [OF inv Suc.prems n] snoc have u: "node_path s ys (n_parent n)" by simp
    from node_path_dom [OF inv u] have ud: "n_parent n \<in> dom (nodes s)" by auto
    have "n_name n = y"
      using descend_snoc [OF t nm _ ud, of "root_node s" ys y p] u Suc.prems snoc n by (simp add: node_path_def)
    with Suc.IH [OF u] n p0 \<open>n_parent n \<noteq> 0\<close> snoc show ?thesis by simp
  qed
qed

lemma join_parts_fits:
  "length out + length (concat (map (\<lambda>x. CHR ''/'' # x) xs)) + 1 < sz \<Longrightarrow>
     join_parts sz out xs = out @ concat (map (\<lambda>x. CHR ''/'' # x) xs)"
  by (induction sz out xs rule: join_parts.induct) auto

lemma fs_abspath_path:
  assumes inv: "fs_inv s L" and p: "node_path s xs p" and fits: "length xs \<le> 32" "length (path_string xs) + 1 < sz"
  shows "fs_abspath p out sz s = Some (path_string xs)"
proof -
  from node_path_dom [OF inv p] fs_inv_null [OF inv] have "p \<noteq> 0" by auto
  with abs_parts_path [OF inv p, of 32] fits join_parts_fits [of "[]" xs sz] show ?thesis
    by (simp add: fs_abspath_def path_string_def take_Cons' split: if_splits)
qed

lemma components_join:
  "\<forall>x\<in>set xs. name_ok x \<Longrightarrow> components (concat (map (\<lambda>x. CHR ''/'' # x) xs)) = xs"
proof (induction xs)
  case Nil
  then show ?case by (simp add: components_Nil)
next
  case (Cons x xs)
  let ?r = "concat (map (\<lambda>x. CHR ''/'' # x) xs)"
  let ?b = "CHR ''/'' # x @ ?r"
  have x: "x \<noteq> []" "\<forall>c\<in>set x. not_slash c" "length x \<le> FS_NAME_MAX - 1"
    using Cons.prems by (auto simp: name_ok_def not_slash_def FS_NAME_MAX_def)
  have "dropWhile (\<lambda>c. \<not> not_slash c) ?b = x @ ?r" using x by (cases x) (auto simp: not_slash_def)
  moreover have "takeWhile not_slash ?r = []" "dropWhile not_slash ?r = ?r"
    by (cases xs; simp add: not_slash_def)+
  then have "takeWhile not_slash (x @ ?r) = x" "dropWhile not_slash (x @ ?r) = ?r"
    using x(2) by (simp_all add: takeWhile_append2 dropWhile_append2)
  ultimately have "components ?b = take (FS_NAME_MAX - 1) x # components ?r"
    using x(1) components_Cons [of ?b] by simp
  with x(3) Cons show ?case by simp
qed

lemma path_comps_string:
  "\<forall>x\<in>set xs. name_ok x \<Longrightarrow> length (path_string xs) < FS_PATH_MAX \<Longrightarrow> path_comps (path_string xs) = xs"
  using components_join [of xs]
  by (cases "xs = []") (simp_all add: path_comps_def path_string_def FS_PATH_MAX_def components_Nil not_slash_def)

lemma abs_walk_path:
  assumes inv: "fs_inv s L"
  shows "node_path s (cur @ xs) p \<Longrightarrow> ''.'' \<notin> set xs \<Longrightarrow> ''..'' \<notin> set xs \<Longrightarrow> abs_walk (fs_view s) cur xs = Some (cur @ xs)"
proof (induction xs arbitrary: cur)
  case Nil
  then show ?case by simp
next
  case (Cons x xs)
  from Cons.prems(1) obtain q where "node_path s (cur @ [x]) q"
    using descend_append [of "nodes s" "root_node s" "cur @ [x]" xs]
    by (auto simp: node_path_def split: option.splits)
  then have "fs_view s (cur @ [x]) \<noteq> None" using fs_view_None [OF inv] by blast
  with Cons.IH [of "cur @ [x]"] Cons.prems show ?case by auto
qed

lemma node_path_names:
  assumes inv: "fs_inv s L"
  shows "node_path s xs p \<Longrightarrow> \<forall>x\<in>set xs. name_ok x"
proof (induction xs arbitrary: p rule: rev_induct)
  case Nil
  then show ?case by simp
next
  case (snoc x xs)
  obtain K d where t: "tree_ok (nodes s) (root_node s) K d" and nm: "names_ok (nodes s) K"
    using inv by (rule fs_inv_tree)
  from snoc.prems obtain u where u: "node_path s xs u"
    by (auto simp: node_path_def descend_append split: option.splits)
  from node_path_dom [OF inv u] have ud: "u \<in> dom (nodes s)" by auto
  have "p \<in> set (K u)" "name_at (nodes s) p = x"
    using descend_snoc [OF t nm _ ud, of "root_node s" xs x p] u snoc.prems by (simp_all add: node_path_def)
  then have "name_ok x" using nm ud by (auto simp: names_ok_def)
  with snoc.IH [OF u] show ?case by simp
qed

section \<open>A concrete filesystem\<close>

text \<open>A machine with the smallest heap and no filesystem yet.\<close>

definition boot_fs :: fs_state where
  "boot_fs = \<lparr>regions = [], region_count = 0, total_usable = 0,
     hdr = [HEAP_BASE \<mapsto> \<lparr>b_magic = BLOCK_MAGIC, b_size = HEAP_MIN_SIZE - sizeof_block, b_free = True,
        b_next = NULL, b_prev = NULL\<rparr>],
     heap_head = HEAP_BASE, heap_size = HEAP_MIN_SIZE, heap_used = 0,
     nodes = Map.empty, bufs = Map.empty, root_node = NULL, current_dir = NULL, node_count = 0\<rparr>"

lemma boot_fs_fresh: "fs_fresh boot_fs Map.empty"
proof -
  have "heap_rep boot_fs [(1048556, True)]"
    by (simp add: heap_rep_def boot_fs_def HEAP_BASE_def HEAP_MIN_SIZE_def sizeof_block_def
        Let_def at_or_null_def)
  then have "mem_holds boot_fs Map.empty"
    unfolding mem_holds_def by (intro exI [of _ "[(1048556, True)]"] conjI) simp_all
  then show ?thesis by (simp add: fs_fresh_def boot_fs_def)
qed

lemma demo_run:
  "do { s0 \<leftarrow> fs_reset boot_fs; (p, s1) \<leftarrow> fs_create NUL ''/d'' FS_DIR s0;
        (q, s2) \<leftarrow> fs_create NUL ''/d/f'' FS_FILE s1; (r, s3) \<leftarrow> fs_create NUL ''/d/e'' FS_DIR s2;
        Some (root_node s0, p, q, r) } =
     Some (0x200014, 0x200068, 0x2000BC, 0x200110)"
  by code_simp

text \<open>A filesystem with a directory \<open>/d\<close> that holds an empty file \<open>/d/f\<close> and a
  directory \<open>/d/e\<close>.\<close>

lemma demo_fs:
  "\<exists>(s :: fs_state) L. fs_inv s L \<and> node_path s [] (current_dir s) \<and> node_path s [''d''] 0x200068 \<and>
     node_path s [''d'', ''f''] 0x2000BC \<and> node_path s [''d'', ''e''] 0x200110 \<and>
     fs_view s = [[] \<mapsto> Dir, [''d''] \<mapsto> Dir, [''d'', ''f''] \<mapsto> File [], [''d'', ''e''] \<mapsto> Dir]"
proof -
  from demo_run obtain s0 s1 s2 s3 where run: "fs_reset boot_fs = Some s0" "root_node s0 = 0x200014"
    "fs_create NUL ''/d'' FS_DIR s0 = Some (0x200068, s1)"
    "fs_create NUL ''/d/f'' FS_FILE s1 = Some (0x2000BC, s2)"
    "fs_create NUL ''/d/e'' FS_DIR s2 = Some (0x200110, s3)"
    by (auto simp: Option.bind_eq_Some_conv)
  from root_new_ok [OF boot_fs_fresh] obtain p s where new:
    "node_new ''/'' FS_DIR NULL boot_fs = Some (p, s)"
    "p \<noteq> 0 \<Longrightarrow> \<exists>k. fs_inv (s\<lparr>root_node := p, current_dir := p\<rparr>) [p \<mapsto> k] \<and>
       fs_view (s\<lparr>root_node := p, current_dir := p\<rparr>) = [[] \<mapsto> Dir]" by fastforce
  have "fs_reset boot_fs = Some (s\<lparr>root_node := p, current_dir := p\<rparr>)"
    using new(1) by (simp add: fs_reset_def boot_fs_def)
  then have s0: "s0 = s\<lparr>root_node := p, current_dir := p\<rparr>" "p = 0x200014" using run(1,2) by auto
  with new(2) obtain k where i0: "fs_inv s0 [p \<mapsto> k]" "fs_view s0 = [[] \<mapsto> Dir]" "current_dir s0 = root_node s0"
    by auto
  have c0: "node_path s0 [] (current_dir s0)" using i0(3) by simp
  have pc: "path_comps ''/d'' = [''d'']" "path_comps ''/d/f'' = [''d'', ''f'']"
    "path_comps ''/d/e'' = [''d'', ''e'']" by code_simp+
  from fs_create_ok [OF i0(1) c0, of "''/d''" NUL FS_DIR] run(3) obtain xs L1 where
    c1: "abs_target (fs_view s0) [] ''/d'' = Some xs" "fs_view s1 = (fs_view s0)(xs \<mapsto> Dir)"
    "node_path s1 xs 0x200068" "fs_inv s1 L1" "fs_frame s0 s1"
    "\<forall>q ys. node_path s0 ys q \<longrightarrow> node_path s1 ys q"
    by (auto simp: new_entry_def)
  have xs: "xs = [''d'']" using c1(1) by (simp add: abs_target_def pc abs_start_def)
  have g1: "current_dir s1 = root_node s1" using fs_frame_globals [OF c1(5)] i0(3) by simp
  have v1: "fs_view s1 = [[] \<mapsto> Dir, [''d''] \<mapsto> Dir]" using c1(2) i0(2) xs by simp
  have c1': "node_path s1 [] (current_dir s1)" using g1 by simp
  from fs_create_ok [OF c1(4) c1', of "''/d/f''" NUL FS_FILE] run(4) obtain ys L2 where
    c2: "abs_target (fs_view s1) [] ''/d/f'' = Some ys" "fs_view s2 = (fs_view s1)(ys \<mapsto> File [])"
    "node_path s2 ys 0x2000BC" "fs_inv s2 L2" "fs_frame s1 s2"
    "\<forall>q zs. node_path s1 zs q \<longrightarrow> node_path s2 zs q"
    by (auto simp: new_entry_def)
  have ys: "ys = [''d'', ''f'']" using c2(1) by (simp add: abs_target_def pc abs_start_def v1)
  have g2: "current_dir s2 = root_node s2" using fs_frame_globals [OF c2(5)] g1 by simp
  have v2: "fs_view s2 = [[] \<mapsto> Dir, [''d''] \<mapsto> Dir, [''d'', ''f''] \<mapsto> File []]" using c2(2) v1 ys by simp
  have c2': "node_path s2 [] (current_dir s2)" using g2 by simp
  from fs_create_ok [OF c2(4) c2', of "''/d/e''" NUL FS_DIR] run(5) obtain zs L3 where
    c3: "abs_target (fs_view s2) [] ''/d/e'' = Some zs" "fs_view s3 = (fs_view s2)(zs \<mapsto> Dir)"
    "node_path s3 zs 0x200110" "fs_inv s3 L3" "fs_frame s2 s3"
    "\<forall>q zs. node_path s2 zs q \<longrightarrow> node_path s3 zs q"
    by (auto simp: new_entry_def)
  have zs: "zs = [''d'', ''e'']" using c3(1) by (simp add: abs_target_def pc abs_start_def v2)
  have "current_dir s3 = root_node s3" using fs_frame_globals [OF c3(5)] g2 by simp
  then show ?thesis
    using c3(3,4,6) c2(3,6) c1(3) v2 c3(2) unfolding zs ys xs
    by (intro exI [of _ s3] exI [of _ L3]) simp
qed

lemma demo_names: "path_comps ''/d/f'' = [''d'', ''f'']" "path_comps ''/d'' = [''d'']" "path_comps ''/d/g'' = [''d'', ''g'']"
  by code_simp+

section \<open>Start-up\<close>

lemma version_line:
  "\<exists>line. ksnprintf 160 version_format
     [VStr (Some LOS_NAME), VStr (Some LOS_RELEASE), VStr (Some LOS_CODENAME),
      VStr (Some LOS_ARCH), VStr (Some stamp)] = Some line \<and> length line \<le> 160"
proof -
  let ?args = "[VStr (Some LOS_NAME), VStr (Some LOS_RELEASE), VStr (Some LOS_CODENAME),
      VStr (Some LOS_ARCH), VStr (Some stamp)]"
  have "\<exists>out. kprintf version_format ?args = Some out"
    by (simp add: kprintf_def version_format_def directive_def flag_left_def flag_zero_def is_digit_def
        convert.simps emit_padded_Console)
  then obtain out where o: "kprintf version_format ?args = Some out" by blast
  let ?buf = "replicate 160 NUL"
  have "kvsnprintf ?buf version_format ?args =
      Some (take 159 out @ NUL # drop (Suc (min (length out) 159)) ?buf)"
    unfolding kvsnprintf_console o by simp
  moreover have "length (takeWhile (\<lambda>c. c \<noteq> NUL) (take 159 out @ NUL # drop (Suc (min (length out) 159)) ?buf)) \<le> 160"
    by (rule order_trans [OF length_takeWhile_le]) simp
  ultimately show ?thesis unfolding ksnprintf_def by simp
qed

text \<open>The state during start-up: the working directory is the root.\<close>

definition starting :: "'a fs_state_scheme \<Rightarrow> (ptr \<Rightarrow> nat option) \<Rightarrow> (ptr \<Rightarrow> nat option) \<Rightarrow> bool" where
  "starting s L R \<longleftrightarrow> fs_inv s L \<and> others s L = R \<and> current_dir s = root_node s"

definition short_path :: "string \<Rightarrow> bool" where
  "short_path path \<longleftrightarrow> NUL \<notin> set path \<and> (\<forall>c\<in>set (path_comps path). length c < FS_NAME_MAX - 1)"

lemma create_starting:
  assumes "starting s L R" "short_path path"
  shows "\<exists>p s' L'. fs_create r path ty s = Some (p, s') \<and> starting s' L' R \<and> fs_frame s s' \<and>
    (p \<noteq> 0 \<longrightarrow> (\<exists>xs n. node_path s' xs p \<and> nodes s' p = Some n \<and> n_type n = ty \<and> n_size n = 0))"
proof -
  have inv: "fs_inv s L" and cwd: "node_path s [] (current_dir s)" and R: "others s L = R"
    using assms(1) by (simp_all add: starting_def)
  from fs_create_ok [OF inv cwd, of path r ty] assms(2) obtain p s' where
    c: "fs_create r path ty s = Some (p, s')" "fs_frame s s'" "p = 0 \<longrightarrow> s' = s"
    "p \<noteq> 0 \<longrightarrow> (\<exists>xs. fs_view s' = (fs_view s)(xs \<mapsto> new_entry ty) \<and> node_path s' xs p \<and>
       dom (nodes s') = insert p (dom (nodes s)) \<and> bufs s' = bufs s \<and>
       (\<exists>k. fs_inv s' (L(p \<mapsto> k)) \<and> L p = None \<and> others s' (L(p \<mapsto> k)) = others s L))"
    by (auto simp: short_path_def)
  show ?thesis
  proof (cases "p = 0")
    case True
    with c(1-3) assms(1) show ?thesis by auto
  next
    case False
    with c(4) obtain xs k where k: "fs_view s' = (fs_view s)(xs \<mapsto> new_entry ty)" "node_path s' xs p"
      "fs_inv s' (L(p \<mapsto> k))" "others s' (L(p \<mapsto> k)) = R" "bufs s' = bufs s" "L p = None" using R by auto
    from node_path_dom [OF k(3,2)] obtain n where n: "nodes s' p = Some n" by blast
    have e: "entry_of s' n = new_entry ty" using fs_view_node [OF k(2) n] k(1) by simp
    then have ty: "n_type n = ty" by (cases "n_type n"; cases ty) (simp_all add: entry_of_def new_entry_def)
    have "n_size n = 0"
    proof (cases "n_data n = 0")
      case True
      with owned_data [OF fs_inv_owned [OF k(3)] n] show ?thesis by (simp add: data_ok_def)
    next
      case False
      from file_data [OF k(3) n False] obtain x where "contents s' n = take (unat (n_size n)) x"
        "unat (n_size n) < length x" by blast
      moreover have "contents s' n = []"
        using e ty False owned_data [OF fs_inv_owned [OF k(3)] n]
        by (auto simp: entry_of_def new_entry_def data_ok_def split: if_splits)
      ultimately show ?thesis by (auto simp: unat_eq_zero)
    qed
    moreover have "starting s' (L(p \<mapsto> k)) R"
      using k fs_frame_globals [OF c(2)] assms(1) by (simp add: starting_def)
    ultimately show ?thesis using c(1,2) k(2) n ty by blast
  qed
qed

lemma write_starting:
  assumes "starting s L R" "p = 0 \<or> (\<exists>xs n. node_path s xs p \<and> nodes s p = Some n \<and> n_type n = FS_FILE \<and> n_size n = 0)"
    "length txt \<le> 1000"
  shows "\<exists>rc s' L'. fs_write p txt False s = Some (rc, s') \<and> starting s' L' R \<and> fs_frame s s'"
proof (cases "p = 0")
  case True
  with assms(1) fs_frame_refl show ?thesis by (auto simp: fs_write_def fs_write_n_def)
next
  case False
  with assms(2) obtain xs n where n: "node_path s xs p" "nodes s p = Some n" "n_type n = FS_FILE" by blast
  have inv: "fs_inv s L" and R: "others s L = R" "current_dir s = root_node s"
    using assms(1) by (simp_all add: starting_def)
  from fs_write_n_ok [OF inv n, of False "txt"] assms(3) obtain rc s' where
    w: "fs_write_n p txt False s = Some (rc, s')" "fs_frame s s'"
    "s' = s \<or> (\<exists>L'. fs_inv s' L' \<and> others s' L' = others s L)" by auto
  from w(3) inv obtain L' where "fs_inv s' L'" "others s' L' = others s L" by blast
  with R fs_frame_globals [OF w(2)] have "starting s' L' R" by (simp add: starting_def)
  with w(1,2) show ?thesis unfolding fs_write_def by blast
qed

lemma create_dirs_starting:
  assumes "starting s L R" "\<forall>p\<in>set ps. short_path p"
  shows "\<exists>s' L'. create_dirs r ps s = Some s' \<and> starting s' L' R \<and> fs_frame s s'"
  using assms
proof (induction ps arbitrary: s L)
  case Nil
  then show ?case using fs_frame_refl by auto
next
  case (Cons p ps)
  from create_starting [OF Cons.prems(1), of p r FS_DIR] Cons.prems(2) obtain q s1 L1 where
    1: "fs_create r p FS_DIR s = Some (q, s1)" "starting s1 L1 R" "fs_frame s s1" by auto
  from Cons.IH [OF 1(2)] Cons.prems(2) 1(1) fs_frame_trans [OF 1(3)] show ?case by auto
qed

lemma short_paths:
  "short_path ''/bin''" "short_path ''/etc''" "short_path ''/dev''" "short_path ''/tmp''"
  "short_path ''/home''" "short_path ''/root''" "short_path ''/etc/motd''" "short_path ''/etc/hostname''"
  "short_path ''/etc/version''" "short_path ''/etc/passwd''"
  by code_simp+

lemma fs_init_starting:
  assumes "fs_fresh s L" "kcalloc 1 sizeof_fs_node s \<noteq> Some (0, s)"
  shows "\<exists>s' L' p. fs_init r stamp s = Some s' \<and> starting s' L' L \<and> fs_frame (s\<lparr>root_node := p, current_dir := p\<rparr>) s'"
proof -
  from root_new_ok [OF assms(1)] assms(2) obtain p s0 k where
    n0: "node_new ''/'' FS_DIR NULL s = Some (p, s0)" "p \<noteq> 0" "fs_frame s s0"
    "fs_inv (s0\<lparr>root_node := p, current_dir := p\<rparr>) (L(p \<mapsto> k))"
    "others (s0\<lparr>root_node := p, current_dir := p\<rparr>) (L(p \<mapsto> k)) = L" by (auto split: if_splits)
  define s1 where "s1 = s0\<lparr>root_node := p, current_dir := p\<rparr>"
  have 1: "starting s1 (L(p \<mapsto> k)) L" using n0 by (simp add: starting_def s1_def)
  from n0(3) obtain H u N B c where "s0 = s\<lparr>hdr := H, heap_used := u, nodes := N, bufs := B, node_count := c\<rparr>" unfolding fs_frame_def by blast
  then have "s1 = s\<lparr>root_node := p, current_dir := p, hdr := H, heap_used := u, nodes := N, bufs := B, node_count := c\<rparr>" by (simp add: s1_def)
  then have f1: "fs_frame (s\<lparr>root_node := p, current_dir := p\<rparr>) s1" unfolding fs_frame_def by blast
  from create_dirs_starting [OF 1, of "[''/bin'', ''/etc'', ''/dev'', ''/tmp'', ''/home'', ''/root'']" r]
  obtain s2 L2 where 2: "create_dirs r [''/bin'', ''/etc'', ''/dev'', ''/tmp'', ''/home'', ''/root''] s1 = Some s2"
    "starting s2 L2 L" "fs_frame s1 s2" using short_paths by auto
  from create_starting [OF 2(2) short_paths(7), of r FS_FILE] obtain p3 s3 L3 where
    3: "fs_create r ''/etc/motd'' FS_FILE s2 = Some (p3, s3)" "starting s3 L3 L" "fs_frame s2 s3"
    "p3 = 0 \<or> (\<exists>xs n. node_path s3 xs p3 \<and> nodes s3 p3 = Some n \<and> n_type n = FS_FILE \<and> n_size n = 0)" by blast
  have "length motd_text \<le> 1000" by (simp add: motd_text_def)
  from write_starting [OF 3(2,4) this] obtain r4 s4 L4 where
    4: "fs_write p3 motd_text False s3 = Some (r4, s4)" "starting s4 L4 L" "fs_frame s3 s4" by blast
  from create_starting [OF 4(2) short_paths(8), of r FS_FILE] obtain p5 s5 L5 where
    5: "fs_create r ''/etc/hostname'' FS_FILE s4 = Some (p5, s5)" "starting s5 L5 L" "fs_frame s4 s5"
    "p5 = 0 \<or> (\<exists>xs n. node_path s5 xs p5 \<and> nodes s5 p5 = Some n \<and> n_type n = FS_FILE \<and> n_size n = 0)" by blast
  from write_starting [OF 5(2,4), of "''lightning'' @ [LF]"] obtain r6 s6 L6 where
    6: "fs_write p5 (''lightning'' @ [LF]) False s5 = Some (r6, s6)" "starting s6 L6 L" "fs_frame s5 s6" by auto
  from create_starting [OF 6(2) short_paths(9), of r FS_FILE] obtain p7 s7 L7 where
    7: "fs_create r ''/etc/version'' FS_FILE s6 = Some (p7, s7)" "starting s7 L7 L" "fs_frame s6 s7"
    "p7 = 0 \<or> (\<exists>xs n. node_path s7 xs p7 \<and> nodes s7 p7 = Some n \<and> n_type n = FS_FILE \<and> n_size n = 0)" by blast
  from version_line [of stamp] obtain line where v: "ksnprintf 160 version_format
     [VStr (Some LOS_NAME), VStr (Some LOS_RELEASE), VStr (Some LOS_CODENAME),
      VStr (Some LOS_ARCH), VStr (Some stamp)] = Some line" "length line \<le> 160" by blast
  then have "length line \<le> 1000" by simp
  from write_starting [OF 7(2,4) this] obtain r8 s8 L8 where
    8: "fs_write p7 line False s7 = Some (r8, s8)" "starting s8 L8 L" "fs_frame s7 s8" by blast
  from create_starting [OF 8(2) short_paths(10), of r FS_FILE] obtain p9 s9 L9 where
    9: "fs_create r ''/etc/passwd'' FS_FILE s8 = Some (p9, s9)" "starting s9 L9 L" "fs_frame s8 s9" by blast
  have "fs_init r stamp s = Some s9"
    unfolding fs_init_def
    by (simp only: n0(1) 2(1) 3(1) 4(1) 5(1) 6(1) 7(1) v(1) 8(1) 9(1) s1_def [symmetric]
        Option.bind.bind_lunit Let_def prod.case)
  moreover have "fs_frame (s\<lparr>root_node := p, current_dir := p\<rparr>) s9"
    by (rule fs_frame_trans [OF f1 fs_frame_trans [OF 2(3) fs_frame_trans [OF 3(3) fs_frame_trans [OF 4(3) fs_frame_trans [OF 5(3) fs_frame_trans [OF 6(3) fs_frame_trans [OF 7(3) fs_frame_trans [OF 8(3) 9(3)]]]]]]]])
  ultimately show ?thesis using 9(2) by blast
qed

section \<open>Properties\<close>

text \<open>Property C12: \<open>fs_init\<close> on a heap with room for one node returns, whatever fails later for
  lack of memory, with a well-formed tree whose working directory is the root, and without
  touching an allocation that is not the filesystem's.\<close>

theorem fs_init_boots:
  assumes "fs_fresh s L" "kcalloc 1 sizeof_fs_node s \<noteq> Some (0, s)"
  shows "\<exists>s' L'. fs_init r stamp s = Some s' \<and> fs_inv s' L' \<and> others s' L' = L \<and>
    current_dir s' = root_node s'"
  using fs_init_starting [OF assms] unfolding starting_def by blast

theorem fs_init_boots_witness:
  "\<exists>s' L'. fs_init NUL ''2024-01-01'' boot_fs = Some s' \<and> fs_inv s' L' \<and> others s' L' = Map.empty \<and>
     current_dir s' = root_node s'"
proof (rule fs_init_boots [OF boot_fs_fresh])
  have "map_option fst (kcalloc 1 sizeof_fs_node boot_fs) \<noteq> Some 0" by code_simp
  then show "kcalloc 1 sizeof_fs_node boot_fs \<noteq> Some (0, boot_fs)" by auto
qed

text \<open>On a well-formed filesystem \<open>fs_resolve\<close> returns, and finds exactly the
  node that the abstract path walk arrives at: from the root or the working directory,
  component by component, with \<open>.\<close> and \<open>..\<close>, NULL where a component does not exist.\<close>

theorem fs_resolve_refines:
  assumes "fs_inv s L" "node_path s cwd (current_dir s)"
  shows "case abs_resolve (fs_view s) cwd path of
           None \<Rightarrow> fs_resolve path s = Some 0
         | Some xs \<Rightarrow> \<exists>p. fs_resolve path s = Some p \<and> p \<noteq> 0 \<and> node_path s xs p"
  using fs_resolve_ok [OF assms, of path] by (auto split: option.splits)

theorem fs_resolve_refines_witness:
  "\<exists>(s :: fs_state) L p. fs_inv s L \<and> fs_resolve ''/d/f'' s = Some p \<and> node_path s [''d'', ''f''] p"
proof -
  obtain s :: fs_state and L where d: "fs_inv s L" "node_path s [] (current_dir s)"
    "fs_view s = [[] \<mapsto> Dir, [''d''] \<mapsto> Dir, [''d'', ''f''] \<mapsto> File [], [''d'', ''e''] \<mapsto> Dir]" using demo_fs by blast
  have "abs_resolve (fs_view s) [] ''/d/f'' = Some [''d'', ''f'']"
    by (simp add: abs_resolve_def demo_names abs_start_def d(3))
  with fs_resolve_refines [OF d(1,2), of "''/d/f''"] d(1) show ?thesis by auto
qed

text \<open>Property C10: \<open>fs_create\<close> returns. When the byte \<open>r\<close> that it leaves uninitialised after the last
  component is NUL, or every component of the path is shorter than 31 characters, it refuses, changing
  nothing, exactly when the target
  has no name, its parent is not a directory, something is there already, or \<open>kcalloc\<close> has
  no memory; otherwise the new node is the only change to the map of paths, every other
  node keeps its path, and only the new allocation is added to the heap.  Without that condition the
  claim is false of the code: a component of 31 characters or more is compared with that byte behind it,
  and a name that is taken can be created again (\<open>fs_create_duplicate\<close>).\<close>

theorem fs_create_refines:
  assumes "fs_inv s L" "node_path s cwd (current_dir s)" "NUL \<notin> set path"
    "r = NUL \<or> (\<forall>c\<in>set (path_comps path). length c < FS_NAME_MAX - 1)"
  shows "\<exists>p s'. fs_create r path ty s = Some (p, s') \<and>
    (if p = 0
     then s' = s \<and> (\<forall>xs. abs_target (fs_view s) cwd path = Some xs \<longrightarrow> fs_view s (butlast xs) = Some Dir \<longrightarrow>
            fs_view s xs = None \<longrightarrow> kcalloc 1 sizeof_fs_node s = Some (0, s))
     else \<exists>xs k. abs_target (fs_view s) cwd path = Some xs \<and> fs_view s (butlast xs) = Some Dir \<and>
            fs_view s xs = None \<and> fs_view s' = (fs_view s)(xs \<mapsto> new_entry ty) \<and> node_path s' xs p \<and>
            (\<forall>q ys. node_path s ys q \<longrightarrow> node_path s' ys q) \<and> node_path s' cwd (current_dir s') \<and>
            fs_inv s' (L(p \<mapsto> k)) \<and> L p = None \<and> others s' (L(p \<mapsto> k)) = others s L)"
proof -
  from fs_create_ok [OF assms, of ty] obtain p s' where c: "fs_create r path ty s = Some (p, s')" "fs_frame s s'"
    "p = 0 \<longrightarrow> s' = s \<and>
       (\<forall>xs. abs_target (fs_view s) cwd path = Some xs \<and> fs_view s (butlast xs) = Some Dir \<and>
          fs_view s xs = None \<longrightarrow> kcalloc 1 sizeof_fs_node s = Some (0, s))"
    "p \<noteq> 0 \<longrightarrow> (\<exists>xs. abs_target (fs_view s) cwd path = Some xs \<and>
       fs_view s (butlast xs) = Some Dir \<and> fs_view s xs = None \<and>
       fs_view s' = (fs_view s)(xs \<mapsto> new_entry ty) \<and> node_path s' xs p \<and>
       (\<forall>q ys. node_path s ys q \<longrightarrow> node_path s' ys q) \<and>
       dom (nodes s') = insert p (dom (nodes s)) \<and> bufs s' = bufs s \<and>
       (\<exists>k. fs_inv s' (L(p \<mapsto> k)) \<and> L p = None \<and> others s' (L(p \<mapsto> k)) = others s L))" by blast
  show ?thesis
  proof (cases "p = 0")
    case True
    with c(1,3) show ?thesis by (intro exI [of _ p] exI [of _ s']) simp
  next
    case False
    with c(4) obtain xs k where x: "abs_target (fs_view s) cwd path = Some xs" "fs_view s (butlast xs) = Some Dir"
      "fs_view s xs = None" "fs_view s' = (fs_view s)(xs \<mapsto> new_entry ty)" "node_path s' xs p"
      "\<forall>q ys. node_path s ys q \<longrightarrow> node_path s' ys q" "fs_inv s' (L(p \<mapsto> k))" "L p = None"
      "others s' (L(p \<mapsto> k)) = others s L" by blast
    moreover have "node_path s' cwd (current_dir s')"
      using x(6) assms(2) fs_frame_globals [OF c(2)] by simp
    ultimately show ?thesis using c(1) False by auto
  qed
qed

theorem fs_create_refines_witness:
  "\<exists>(s :: fs_state) L p s'. fs_inv s L \<and> fs_create NUL ''/d'' FS_DIR s = Some (p, s') \<and> p = 0 \<and> s' = s"
proof -
  obtain s :: fs_state and L where d: "fs_inv s L" "node_path s [] (current_dir s)"
    "fs_view s = [[] \<mapsto> Dir, [''d''] \<mapsto> Dir, [''d'', ''f''] \<mapsto> File [], [''d'', ''e''] \<mapsto> Dir]" using demo_fs by blast
  have t: "abs_target (fs_view s) [] ''/d'' = Some [''d'']"
    by (simp add: abs_target_def demo_names abs_start_def Let_def)
  from fs_create_refines [OF d(1,2), of "''/d''" NUL FS_DIR] obtain p s' where
    c: "fs_create NUL ''/d'' FS_DIR s = Some (p, s')" "p = 0 \<longrightarrow> s' = s"
    "p \<noteq> 0 \<longrightarrow> (\<exists>xs. abs_target (fs_view s) [] ''/d'' = Some xs \<and> fs_view s xs = None)"
    by (auto split: if_splits)
  with t d(3) have "p = 0" by auto
  with c d(1) show ?thesis by blast
qed

text \<open>Property C11: \<open>fs_write_n\<close> returns and never reads or writes outside a buffer. It fails,
  changing nothing, only when \<open>kmalloc\<close> has no memory for the larger buffer; otherwise the
  file holds the old contents (when appending) followed by the new, no other file changes,
  and the old buffer is given back to the heap.\<close>

theorem fs_write_refines:
  assumes "fs_inv s L" "node_path s xs f" "nodes s f = Some n" "n_type n = FS_FILE"
    "(if app then unat (n_size n) else 0) + length bytes + 72 < 4294967296"
  shows "\<exists>rc s'. fs_write_n f bytes app s = Some (rc, s') \<and>
    (rc = -1 \<and> s' = s \<and>
       kmalloc ((if app then n_size n else 0) + of_nat (length bytes) + 65) s = Some (0, s) \<or>
     rc = 0 \<and> (\<exists>L'. fs_inv s' L' \<and> others s' L' = others s L) \<and>
       fs_view s' = (fs_view s)(xs \<mapsto> File ((if app then contents s n else []) @ bytes)) \<and>
       (\<forall>ys q. node_path s' ys q = node_path s ys q) \<and> current_dir s' = current_dir s)"
proof -
  have a: "w + v + 1 + 64 = w + v + (65 :: u32)" for w v by simp
  from fs_write_n_ok [OF assms] obtain rc s' where w: "fs_write_n f bytes app s = Some (rc, s')" "fs_frame s s'"
    "rc = -1 \<and> s' = s \<and>
       kmalloc ((if app then n_size n else 0) + of_nat (length bytes) + 1 + 64) s = Some (0, s) \<or>
     rc = 0 \<and> (\<exists>L'. fs_inv s' L' \<and> others s' L' = others s L) \<and> dom (nodes s') = dom (nodes s) \<and>
       fs_view s' = (fs_view s)(xs \<mapsto> File ((if app then contents s n else []) @ bytes)) \<and>
       (\<forall>ys q. node_path s' ys q = node_path s ys q)" by blast
  from w(3) have "rc = -1 \<and> s' = s \<and>
       kmalloc ((if app then n_size n else 0) + of_nat (length bytes) + 65) s = Some (0, s) \<or>
     rc = 0 \<and> (\<exists>L'. fs_inv s' L' \<and> others s' L' = others s L) \<and>
       fs_view s' = (fs_view s)(xs \<mapsto> File ((if app then contents s n else []) @ bytes)) \<and>
       (\<forall>ys q. node_path s' ys q = node_path s ys q) \<and> current_dir s' = current_dir s"
    unfolding a using fs_frame_globals [OF w(2)] by blast
  with w(1) show ?thesis by blast
qed

theorem fs_write_refines_witness:
  "\<exists>(s :: fs_state) L f rc s'. fs_inv s L \<and> node_path s [''d'', ''f''] f \<and> fs_write_n f ''hello'' True s = Some (rc, s') \<and>
     (rc = -1 \<and> s' = s \<or> rc = 0 \<and> fs_view s' [''d'', ''f''] = Some (File ''hello''))"
proof -
  obtain s :: fs_state and L where d: "fs_inv s L" "node_path s [''d'', ''f''] 0x2000BC"
    "fs_view s = [[] \<mapsto> Dir, [''d''] \<mapsto> Dir, [''d'', ''f''] \<mapsto> File [], [''d'', ''e''] \<mapsto> Dir]" using demo_fs by blast
  from node_path_dom [OF d(1,2)] obtain n where n: "nodes s 0x2000BC = Some n" by blast
  have e: "entry_of s n = File []" using fs_view_node [OF d(2) n] d(3) by simp
  then have ty: "n_type n = FS_FILE" and c: "contents s n = []"
    by (cases "n_type n"; simp add: entry_of_def)+
  have "unat (n_size n) + length ''hello'' + 72 < 4294967296"
  proof (cases "n_data n = 0")
    case True
    with owned_data [OF fs_inv_owned [OF d(1)] n] show ?thesis by (simp add: data_ok_def)
  next
    case False
    from file_data [OF d(1) n False] c show ?thesis by auto
  qed
  with fs_write_refines [OF d(1,2) n ty, of True "''hello''"] c obtain rc s' where
    "fs_write_n 0x2000BC ''hello'' True s = Some (rc, s')"
    "rc = -1 \<and> s' = s \<or> rc = 0 \<and> fs_view s' [''d'', ''f''] = Some (File ''hello'')" by auto
  with d(1,2) show ?thesis by blast
qed

text \<open>Property C7: \<open>fs_remove\<close> returns. It gives -1 for a path that does not exist and for the
  root, -2 for the working directory; otherwise exactly the node and everything below it
  disappear from the map, every other node keeps its path, and exactly the allocations of the
  removed nodes leave the heap: nothing is leaked and nothing freed twice.\<close>

theorem fs_remove_refines:
  assumes "fs_inv s L" "node_path s cwd (current_dir s)"
  shows "\<exists>rc s'. fs_remove path s = Some (rc, s') \<and>
    (case abs_resolve (fs_view s) cwd path of
       None \<Rightarrow> rc = -1 \<and> s' = s
     | Some xs \<Rightarrow>
         if xs = [] then rc = -1 \<and> s' = s
         else if xs = cwd then rc = -2 \<and> s' = s
         else rc = 0 \<and> (\<exists>A. fs_inv s' (L |` (- A)) \<and> others s' (L |` (- A)) = others s L) \<and>
           (\<forall>ys q. node_path s' ys q \<longleftrightarrow> node_path s ys q \<and> \<not> prefix xs ys) \<and>
           fs_view s' = (\<lambda>ys. if prefix xs ys then None else fs_view s ys))"
  using fs_remove_ok [OF assms, of path] by blast

theorem fs_remove_refines_witness:
  "\<exists>(s :: fs_state) L s'. fs_inv s L \<and> fs_remove ''/d'' s = Some (0, s') \<and> fs_view s' = [[] \<mapsto> Dir]"
proof -
  obtain s :: fs_state and L where d: "fs_inv s L" "node_path s [] (current_dir s)"
    "fs_view s = [[] \<mapsto> Dir, [''d''] \<mapsto> Dir, [''d'', ''f''] \<mapsto> File [], [''d'', ''e''] \<mapsto> Dir]" using demo_fs by blast
  have "abs_resolve (fs_view s) [] ''/d'' = Some [''d'']"
    by (simp add: abs_resolve_def demo_names abs_start_def d(3))
  with fs_remove_refines [OF d(1,2), of "''/d''"] obtain s' where
    s': "fs_remove ''/d'' s = Some (0, s')"
    "fs_view s' = (\<lambda>ys. if prefix [''d''] ys then None else fs_view s ys)" by auto
  moreover have "fs_view s' = [[] \<mapsto> Dir]" unfolding s'(2) d(3) by (auto simp: fun_eq_iff)
  ultimately show ?thesis using d(1) by blast
qed

text \<open>Removing a directory above the working directory is not refused: the call
  succeeds and leaves the working directory pointing at a freed node.\<close>

theorem fs_remove_dangling_cwd:
  assumes "fs_inv s L" "node_path s cwd (current_dir s)"
    "abs_resolve (fs_view s) cwd path = Some xs" "xs \<noteq> []" "strict_prefix xs cwd"
  shows "\<exists>s'. fs_remove path s = Some (0, s') \<and> nodes s' (current_dir s') = None"
proof -
  from assms(5) have "xs \<noteq> cwd" by auto
  with fs_remove_ok [OF assms(1,2), of path] assms(3,4) obtain s' A where
    s': "fs_remove path s = Some (0, s')" "fs_frame s s'" "fs_inv s' (L |` (- A))"
    "\<forall>ys q. node_path s' ys q \<longleftrightarrow> node_path s ys q \<and> \<not> prefix xs ys" by auto
  have "nodes s' (current_dir s) = None"
  proof (rule ccontr)
    assume "nodes s' (current_dir s) \<noteq> None"
    then obtain n where "nodes s' (current_dir s) = Some n" by auto
    from node_path_exists [OF s'(3) this] obtain ys where "node_path s' ys (current_dir s)" by blast
    with s'(4) have "node_path s ys (current_dir s)" "\<not> prefix xs ys" by auto
    with node_path_inj [OF assms(1) _ assms(2)] assms(5) show False by (auto simp: strict_prefix_def)
  qed
  with s'(1) fs_frame_globals [OF s'(2)] show ?thesis by auto
qed

theorem fs_remove_dangling_cwd_witness:
  "\<exists>(s :: fs_state) L s'. fs_inv s L \<and> node_path s [''d'', ''e''] (current_dir s) \<and>
     fs_remove ''/d'' s = Some (0, s') \<and> nodes s' (current_dir s') = None"
proof -
  obtain s :: fs_state and L where d: "fs_inv s L" "node_path s [''d'', ''e''] 0x200110"
    "fs_view s = [[] \<mapsto> Dir, [''d''] \<mapsto> Dir, [''d'', ''f''] \<mapsto> File [], [''d'', ''e''] \<mapsto> Dir]" using demo_fs by blast
  define t where "t = s\<lparr>current_dir := 0x200110\<rparr>"
  have i: "fs_inv t L" using d(1) by (simp add: fs_inv_def t_def)
  have c: "node_path t [''d'', ''e''] (current_dir t)" using d(2) by (simp add: node_path_def t_def)
  have "entry_of t = entry_of s" by (simp add: t_def entry_of_def contents_def fun_eq_iff)
  moreover have "nodes t = nodes s" "root_node t = root_node s" by (simp_all add: t_def)
  ultimately have "fs_view t = fs_view s" by (intro ext) (simp only: fs_view_def)
  then have "abs_resolve (fs_view t) [''d'', ''e''] ''/d'' = Some [''d'']"
    by (simp add: abs_resolve_def demo_names abs_start_def d(3))
  from fs_remove_dangling_cwd [OF i c this] i c show ?thesis by (auto simp: strict_prefix_def)
qed

text \<open>\<open>fs_reset\<close> on a well-formed filesystem returns with a tree that is the root
  alone, the working directory at the root, no file buffer left, and every allocation of the
  filesystem but the root's given back.\<close>

theorem fs_reset_bare:
  assumes "fs_inv s L"
  shows "\<exists>s' A. fs_reset s = Some s' \<and> fs_inv s' (L |` (- A)) \<and> others s' (L |` (- A)) = others s L \<and>
    fs_view s' = [[] \<mapsto> Dir] \<and> root_node s' = root_node s \<and> current_dir s' = root_node s \<and>
    dom (nodes s') = {root_node s} \<and> bufs s' = Map.empty"
  using fs_reset_ok [OF assms] by blast

theorem fs_reset_bare_witness:
  "\<exists>(s :: fs_state) L s'. fs_inv s L \<and> fs_view s [''d''] = Some Dir \<and> fs_reset s = Some s' \<and> fs_view s' = [[] \<mapsto> Dir]"
proof -
  obtain s :: fs_state and L where d: "fs_inv s L"
    "fs_view s = [[] \<mapsto> Dir, [''d''] \<mapsto> Dir, [''d'', ''f''] \<mapsto> File [], [''d'', ''e''] \<mapsto> Dir]" using demo_fs by blast
  from fs_reset_bare [OF d(1)] obtain s' where "fs_reset s = Some s'" "fs_view s' = [[] \<mapsto> Dir]" by blast
  moreover have "fs_view s [''d''] = Some Dir" using d(2) by simp
  ultimately show ?thesis using d(1) by blast
qed

text \<open>Property C13: for a node at most 32 levels deep whose path fits the buffer and has no
  component \<open>.\<close> or \<open>..\<close>, \<open>fs_abspath\<close> writes a path that \<open>fs_resolve\<close> leads back to the node.\<close>

theorem fs_abspath_resolves:
  assumes "fs_inv s L" "node_path s cwd (current_dir s)" "node_path s xs p"
    "length xs \<le> 32" "length (path_string xs) + 1 < FS_PATH_MAX" "''.'' \<notin> set xs" "''..'' \<notin> set xs"
  shows "\<exists>path. fs_abspath p out FS_PATH_MAX s = Some path \<and> fs_resolve path s = Some p"
proof -
  have names: "\<forall>x\<in>set xs. name_ok x" using node_path_names [OF assms(1,3)] .
  have pc: "path_comps (path_string xs) = xs" using path_comps_string [OF names] assms(5) by simp
  have "abs_start cwd (path_string xs) = []"
    by (cases xs) (simp_all add: abs_start_def path_string_def)
  moreover have "abs_walk (fs_view s) [] xs = Some xs" using abs_walk_path [OF assms(1), of "[]" xs p] assms(3,6,7) by simp
  ultimately have "abs_resolve (fs_view s) cwd (path_string xs) = Some xs" by (simp add: abs_resolve_def pc)
  with fs_resolve_ok [OF assms(1,2), of "path_string xs"] obtain q where
    "fs_resolve (path_string xs) s = Some q" "node_path s xs q" by auto
  with node_path_fun [OF assms(3)] fs_abspath_path [OF assms(1,3-5)] show ?thesis by auto
qed

theorem fs_abspath_resolves_witness:
  "\<exists>(s :: fs_state) L path. fs_inv s L \<and> node_path s [''d'', ''f''] 0x2000BC \<and>
     fs_abspath 0x2000BC [] FS_PATH_MAX s = Some path \<and> fs_resolve path s = Some 0x2000BC"
proof -
  obtain s :: fs_state and L where d: "fs_inv s L" "node_path s [] (current_dir s)"
    "node_path s [''d'', ''f''] 0x2000BC" using demo_fs by blast
  from fs_abspath_resolves [OF d, of "[]"] d(1,3) show ?thesis
    by (auto simp: path_string_def FS_PATH_MAX_def)
qed

text \<open>When the last component of a path has 31 characters, \<open>fs_create\<close> reads the
  uninitialised last byte of its name buffer. If that byte is not 0 the check for an
  existing node fails, and a second node of the same name appears in the same directory.\<close>

theorem fs_create_duplicate:
  assumes "fs_inv s L" "node_path s xs u" "walk s path True = Some (u, name)" "length name = 31"
    "nodes s q = Some m" "n_parent m = u" "n_name m = name" "u \<noteq> 0" "r \<noteq> NUL"
  shows "\<exists>p s'. fs_create r path ty s = Some (p, s') \<and>
    (p \<noteq> 0 \<longrightarrow> p \<noteq> q \<and> (\<exists>n m'. nodes s' p = Some n \<and> n_name n = name \<and> n_parent n = u \<and>
                         nodes s' q = Some m' \<and> n_name m' = name \<and> n_parent m' = u))"
proof -
  obtain K d where t: "tree_ok (nodes s) (root_node s) K d" and nm: "names_ok (nodes s) K"
    using assms(1) by (rule fs_inv_tree)
  from node_path_dom [OF assms(1,2)] obtain ud where ud: "nodes s u = Some ud" by blast
  have udom: "u \<in> dom (nodes s)" using ud by auto
  have "q \<noteq> root_node s" using tree_parent_nonnull [OF t assms(5)] assms(6,8) by auto
  from tree_parent [OF t assms(5) this] assms(6) have "q \<in> set (K u)" by simp
  with tree_file_kids [OF t ud] have ty: "n_type ud = FS_DIR" by (cases "n_type ud") auto
  from find_child_tree [OF t udom, of "name @ [r]"] obtain c where c:
    "find_child (nodes s) u (name @ [r]) = Some c" "c \<noteq> 0 \<longrightarrow> c \<in> set (K u) \<and> name_at (nodes s) c = name @ [r]"
    by blast
  have c0: "c = 0"
  proof (rule ccontr)
    assume "c \<noteq> 0"
    with c(2) have c': "c \<in> set (K u)" "name_at (nodes s) c = name @ [r]" by auto
    with nm udom have "name_ok (name_at (nodes s) c)" unfolding names_ok_def by blast
    with c'(2) assms(4) show False by (simp add: name_ok_def FS_NAME_MAX_def)
  qed
  have cr: "fs_create r path ty s = node_new (name @ [r]) ty u s"
    using assms(3,4,8,9) ud ty c c0 by (auto simp: fs_create_def name_buf_def FS_NAME_MAX_def Let_def)
  have "unat (1 * sizeof_fs_node) + 7 < 4294967296" by (simp add: sizeof_fs_node_def)
  from kheap.alloc_law [OF fs_inv_mem [OF assms(1)] this] obtain p s1 where
    km: "kcalloc 1 sizeof_fs_node s = Some (p, s1)" "mem_frame s s1" "p \<noteq> 0 \<longrightarrow> L p = None" "p = 0 \<longrightarrow> s1 = s"
    unfolding kcalloc_def by (metis (no_types, lifting))
  show ?thesis
  proof (cases "p = 0")
    case True
    with km cr show ?thesis by (simp add: node_new_def)
  next
    case False
    with km(3) owned_node [OF fs_inv_owned [OF assms(1)], of p] have pN: "nodes s p = None" by (cases "nodes s p") auto
    define leaf where "leaf = \<lparr>n_name = take (FS_NAME_MAX - 1) (name @ [r]), n_type = ty, n_data = NULL, n_size = 0,
      n_capacity = 0, n_parent = u, n_children = NULL, n_next = NULL\<rparr>"
    have "p \<notin> dom (nodes s)" using pN by auto
    from link_last_tree [OF t ud ty this False, of leaf] obtain N' where
      N': "link_last p u ((nodes s)(p \<mapsto> leaf)) = Some N'" "relinked ((nodes s)(p \<mapsto> leaf)) N'" "N' p = Some leaf"
      by (auto simp: leaf_def)
    have pq: "p \<noteq> q" using pN assms(5) by auto
    with relinked_D [OF N'(2), of q m] assms(5) obtain m' where
      "N' q = Some m'" "n_name m' = n_name m" "n_parent m' = n_parent m" by auto
    moreover have "n_name leaf = name" "n_parent leaf = u" using assms(4) by (simp_all add: leaf_def FS_NAME_MAX_def)
    moreover have "node_new (name @ [r]) ty u s = Some (p, s1\<lparr>nodes := N', node_count := node_count s1 + 1\<rparr>)"
      using km(1) False N'(1) mem_frame_fs [OF km(2)] by (simp add: node_new_def leaf_def)
    ultimately show ?thesis using cr pq N'(3) assms(6,7) by auto
  qed
qed

text \<open>A path with one component of 31 characters.\<close>

definition long_name :: string where
  "long_name = replicate 31 (CHR ''a'')"

lemma long_run:
  "do { s0 \<leftarrow> fs_reset boot_fs; (p, s1) \<leftarrow> fs_create NUL (CHR ''/'' # long_name) FS_FILE s0;
        w \<leftarrow> walk s1 (CHR ''/'' # long_name) True; n \<leftarrow> nodes s1 p;
        Some (root_node s0, p, w, n_parent n, n_name n, root_node s1) } =
     Some (0x200014, 0x200068, (0x200014, long_name), 0x200014, long_name, 0x200014)"
  by code_simp

theorem fs_create_duplicate_witness:
  "\<exists>(s :: fs_state) L p s'. fs_inv s L \<and> name_at (nodes s) 0x200068 = long_name \<and>
     fs_create (CHR ''x'') (CHR ''/'' # long_name) FS_FILE s = Some (p, s') \<and>
     (p \<noteq> 0 \<longrightarrow> p \<noteq> 0x200068 \<and> name_at (nodes s') p = long_name)"
proof -
  from long_run obtain s0 s1 n where run: "fs_reset boot_fs = Some s0" "root_node s0 = 0x200014"
    "fs_create NUL (CHR ''/'' # long_name) FS_FILE s0 = Some (0x200068, s1)"
    "walk s1 (CHR ''/'' # long_name) True = Some (0x200014, long_name)"
    "nodes s1 0x200068 = Some n" "n_parent n = 0x200014" "n_name n = long_name" "root_node s1 = 0x200014"
    by (auto simp: Option.bind_eq_Some_conv)
  from root_new_ok [OF boot_fs_fresh] obtain p s where new:
    "node_new ''/'' FS_DIR NULL boot_fs = Some (p, s)"
    "p \<noteq> 0 \<Longrightarrow> \<exists>k. fs_inv (s\<lparr>root_node := p, current_dir := p\<rparr>) [p \<mapsto> k]" by fastforce
  have "fs_reset boot_fs = Some (s\<lparr>root_node := p, current_dir := p\<rparr>)"
    using new(1) by (simp add: fs_reset_def boot_fs_def)
  then have s0: "s0 = s\<lparr>root_node := p, current_dir := p\<rparr>" "p = 0x200014" using run(1,2) by auto
  with new(2) obtain k where i0: "fs_inv s0 [p \<mapsto> k]" "node_path s0 [] (current_dir s0)" by auto
  have "NUL \<notin> set (CHR ''/'' # long_name)" by (simp add: long_name_def)
  from fs_create_ok [OF i0 this, of NUL FS_FILE] run(3) obtain L1 where i1: "fs_inv s1 L1" by auto
  have r: "node_path s1 [] 0x200014" using run(8) by simp
  have "length long_name = 31" by (simp add: long_name_def)
  from fs_create_duplicate [OF i1 r run(4) this run(5-7), of "CHR ''x''" FS_FILE] obtain q s' where
    "fs_create (CHR ''x'') (CHR ''/'' # long_name) FS_FILE s1 = Some (q, s')"
    "q \<noteq> 0 \<longrightarrow> q \<noteq> 0x200068 \<and> name_at (nodes s') q = long_name" by auto
  with i1 run(5,7) show ?thesis by auto
qed

end
