(* ===== verification/Task.thy ===== *)
theory Task
  imports Kernel_Mem
begin

text \<open>
  The scheduler of \<open>kernel/task.c\<close>: the table of sixteen tasks, the circular run list threaded
  through it, creation, switching, sleeping, exit, kill and the reaper.

  A \<open>task_t *\<close> is an index into the table, or \<open>None\<close> for NULL.  \<open>None\<close> as the result of an
  operation is undefined behaviour, a panic or a list walk that does not end.  The critical
  sections make each operation atomic; the interrupt that \<open>task_yield\<close> raises is
  \<open>task_schedule\<close>, with the stack pointer of the interrupted context as its argument.  A timer
  tick that comes between the critical section of \<open>task_sleep_ms\<close>, \<open>task_exit\<close> or \<open>task_kill\<close>
  and the yield does what the yield does, at an earlier time; the yield that follows when a
  sleeper is resumed is one more \<open>task_schedule\<close>.
\<close>

section \<open>State\<close>

datatype task_status = TASK_UNUSED | TASK_READY | TASK_SLEEPING | TASK_DEAD

record task =
  tk_esp :: u32
  tk_id :: u32
  tk_name :: string
  tk_state :: task_status
  tk_entry :: u32
  tk_arg :: u32
  tk_stack :: ptr
  tk_wake_at :: u64
  tk_cpu_ticks :: u64
  tk_switches :: u64
  tk_next :: "nat option"

record boot_frame =
  bf_ds :: u32
  bf_edi :: u32
  bf_esi :: u32
  bf_ebp :: u32
  bf_esp_dummy :: u32
  bf_ebx :: u32
  bf_edx :: u32
  bf_ecx :: u32
  bf_eax :: u32
  bf_int_no :: u32
  bf_err_code :: u32
  bf_eip :: u32
  bf_cs :: u32
  bf_eflags :: u32

text \<open>\<open>frames\<close> holds the frames written to the stacks of new tasks.\<close>

record sched =
  tasks :: "task list"
  current :: "nat option"
  idle :: "nat option"
  started :: bool
  next_id :: u32
  frames :: "ptr \<Rightarrow> boot_frame option"

definition TASK_NAME_MAX :: nat where "TASK_NAME_MAX = 24"
definition TASK_MAX :: nat where "TASK_MAX = 16"
definition TASK_STACK_SIZE :: u32 where "TASK_STACK_SIZE = 16384"
definition KERNEL_CODE_SEG :: u32 where "KERNEL_CODE_SEG = 0x08"
definition KERNEL_DATA_SEG :: u32 where "KERNEL_DATA_SEG = 0x10"
definition EFLAGS_IF :: u32 where "EFLAGS_IF = 0x0200"
definition EFLAGS_RESERVED :: u32 where "EFLAGS_RESERVED = 0x0002"
definition sizeof_boot_frame :: u32 where "sizeof_boot_frame = 56"
definition TIMER_HZ :: u32 where "TIMER_HZ = 100"

text \<open>What \<open>memset(task, 0, sizeof(*task))\<close> leaves.\<close>

definition zero_task :: task where
  "zero_task = \<lparr>tk_esp = 0, tk_id = 0, tk_name = [], tk_state = TASK_UNUSED, tk_entry = 0, tk_arg = 0,
     tk_stack = NULL, tk_wake_at = 0, tk_cpu_ticks = 0, tk_switches = 0, tk_next = None\<rparr>"

definition zero_frame :: boot_frame where
  "zero_frame = \<lparr>bf_ds = 0, bf_edi = 0, bf_esi = 0, bf_ebp = 0, bf_esp_dummy = 0, bf_ebx = 0, bf_edx = 0,
     bf_ecx = 0, bf_eax = 0, bf_int_no = 0, bf_err_code = 0, bf_eip = 0, bf_cs = 0, bf_eflags = 0\<rparr>"

definition task_get :: "task list \<Rightarrow> nat option \<Rightarrow> task option" where
  "task_get T r = (case r of None \<Rightarrow> None | Some i \<Rightarrow> if i < length T then Some (T ! i) else None)"

section \<open>Operations\<close>

subsection \<open>The run list\<close>

definition alloc_task :: "sched \<Rightarrow> nat option" where
  "alloc_task t = find (\<lambda>i. tk_state (tasks t ! i) = TASK_UNUSED) [0..<TASK_MAX]"

definition list_insert :: "nat \<Rightarrow> sched \<Rightarrow> sched option" where
  "list_insert i t =
     (case current t of
        None \<Rightarrow> Some (t\<lparr>tasks := (tasks t)[i := (tasks t ! i)\<lparr>tk_next := Some i\<rparr>]\<rparr>)
      | Some c \<Rightarrow> do {
          cur \<leftarrow> task_get (tasks t) (Some c);
          let T = (tasks t)[i := (tasks t ! i)\<lparr>tk_next := tk_next cur\<rparr>];
          cur \<leftarrow> task_get T (Some c);
          Some (t\<lparr>tasks := T[c := cur\<lparr>tk_next := Some i\<rparr>]\<rparr>)
        })"

partial_function (option) ring_prev :: "task list \<Rightarrow> nat \<Rightarrow> nat \<Rightarrow> nat option" where
  "ring_prev T i prev = do {
     p \<leftarrow> task_get T (Some prev);
     if tk_next p = Some i then Some prev
     else do { nx \<leftarrow> tk_next p; ring_prev T i nx }
   }"

declare ring_prev.simps [code]

definition list_remove :: "nat \<Rightarrow> task list \<Rightarrow> task list option" where
  "list_remove i T = do {
     prev \<leftarrow> ring_prev T i i;
     x \<leftarrow> task_get T (Some i);
     let T = T[prev := (T ! prev)\<lparr>tk_next := tk_next x\<rparr>];
     Some (T[i := (T ! i)\<lparr>tk_next := None\<rparr>])
   }"

subsection \<open>Creation\<close>

text \<open>\<open>bootstrap\<close> is the address of \<open>task_bootstrap\<close>, which the linker chooses.\<close>

definition task_spawn ::
  "u32 \<Rightarrow> string \<Rightarrow> u32 \<Rightarrow> u32 \<Rightarrow> 'a mem_state_scheme \<Rightarrow> sched \<Rightarrow>
     (nat option \<times> 'a mem_state_scheme \<times> sched) option" where
  "task_spawn bootstrap name entry arg m t =
     (case alloc_task t of
        None \<Rightarrow> Some (None, m, t)
      | Some i \<Rightarrow> do {
          (stack, m) \<leftarrow> kmalloc TASK_STACK_SIZE m;
          if stack = NULL then Some (None, m, t)
          else do {
            let ident = next_id t + 1;
            let frame = stack + TASK_STACK_SIZE - 16 - sizeof_boot_frame;
            let fr = zero_frame\<lparr>bf_ds := KERNEL_DATA_SEG, bf_cs := KERNEL_CODE_SEG, bf_eip := bootstrap,
                                bf_eflags := EFLAGS_IF OR EFLAGS_RESERVED\<rparr>;
            let x = zero_task\<lparr>tk_name := take (TASK_NAME_MAX - 1) name, tk_id := ident, tk_entry := entry,
                              tk_arg := arg, tk_stack := stack, tk_state := TASK_READY, tk_esp := frame\<rparr>;
            t \<leftarrow> list_insert i (t\<lparr>tasks := (tasks t)[i := x], next_id := ident,
                                 frames := (frames t)(frame \<mapsto> fr)\<rparr>);
            Some (Some i, m, t)
          }
        })"

definition task_init :: "sched \<Rightarrow> sched" where
  "task_init t =
     t\<lparr>tasks := (replicate TASK_MAX zero_task)
         [0 := zero_task\<lparr>tk_name := take (TASK_NAME_MAX - 1) ''idle'', tk_id := 0, tk_state := TASK_READY,
                         tk_next := Some 0\<rparr>],
       idle := Some 0, current := Some 0, started := True\<rparr>"

definition task_running :: "sched \<Rightarrow> bool" where "task_running t = started t"
definition task_current :: "sched \<Rightarrow> nat option" where "task_current t = current t"

subsection \<open>Switching\<close>

definition wake :: "u64 \<Rightarrow> task \<Rightarrow> task" where
  "wake now x = (if tk_state x = TASK_SLEEPING \<and> now \<ge> tk_wake_at x then x\<lparr>tk_state := TASK_READY\<rparr> else x)"

partial_function (option) wake_loop :: "u64 \<Rightarrow> nat \<Rightarrow> nat \<Rightarrow> task list \<Rightarrow> task list option" where
  "wake_loop now start i T = do {
     x \<leftarrow> task_get T (Some i);
     let T = T[i := wake now x];
     nx \<leftarrow> tk_next x;
     if nx \<noteq> start then wake_loop now start nx T else Some T
   }"

declare wake_loop.simps [code]

definition wake_sleepers :: "u64 \<Rightarrow> sched \<Rightarrow> sched option" where
  "wake_sleepers now t = do {
     c \<leftarrow> current t;
     T \<leftarrow> wake_loop now c c (tasks t);
     Some (t\<lparr>tasks := T\<rparr>)
   }"

partial_function (option) pick_loop :: "task list \<Rightarrow> nat option \<Rightarrow> nat \<Rightarrow> nat \<Rightarrow> nat option option" where
  "pick_loop T idl start i = do {
     x \<leftarrow> task_get T (Some i);
     if Some i \<noteq> idl \<and> tk_state x = TASK_READY then Some (Some i)
     else do {
       nx \<leftarrow> tk_next x;
       if nx \<noteq> start then pick_loop T idl start nx else Some idl
     }
   }"

declare pick_loop.simps [code]

definition pick_next :: "sched \<Rightarrow> nat option option" where
  "pick_next t = do {
     cur \<leftarrow> task_get (tasks t) (current t);
     start \<leftarrow> tk_next cur;
     pick_loop (tasks t) (idle t) start start
   }"

text \<open>The result is the stack pointer to resume on.\<close>

definition task_schedule :: "u64 \<Rightarrow> u32 \<Rightarrow> sched \<Rightarrow> (u32 \<times> sched) option" where
  "task_schedule now esp t =
     (if \<not> started t then Some (esp, t)
      else do {
        c \<leftarrow> current t;
        cur \<leftarrow> task_get (tasks t) (Some c);
        t \<leftarrow> wake_sleepers now (t\<lparr>tasks := (tasks t)[c := cur\<lparr>tk_esp := esp\<rparr>]\<rparr>);
        nx \<leftarrow> pick_next t;
        if nx = Some c then Some (esp, t)
        else do {
          n \<leftarrow> nx;
          x \<leftarrow> task_get (tasks t) (Some n);
          Some (tk_esp x, t\<lparr>tasks := (tasks t)[n := x\<lparr>tk_switches := tk_switches x + 1\<rparr>], current := Some n\<rparr>)
        }
      })"

definition task_account_tick :: "sched \<Rightarrow> sched option" where
  "task_account_tick t =
     (if started t \<and> current t \<noteq> None
      then do {
        c \<leftarrow> current t;
        cur \<leftarrow> task_get (tasks t) (Some c);
        Some (t\<lparr>tasks := (tasks t)[c := cur\<lparr>tk_cpu_ticks := tk_cpu_ticks cur + 1\<rparr>]\<rparr>)
      }
      else Some t)"

definition task_yield :: "u64 \<Rightarrow> u32 \<Rightarrow> sched \<Rightarrow> (u32 \<times> sched) option" where
  "task_yield now esp t = (if \<not> started t then Some (esp, t) else task_schedule now esp t)"

subsection \<open>Sleeping, leaving, killing\<close>

definition sleep_deadline :: "u64 \<Rightarrow> u32 \<Rightarrow> u64" where
  "sleep_deadline now ms = now + ucast (ms div (1000 div TIMER_HZ))"

text \<open>
  Before the scheduler runs, \<open>task_sleep_ms\<close> waits for the timer without touching the tasks.
  \<open>now\<close> is the time of the call, \<open>now'\<close> that of the interrupt the yield raises.
\<close>

definition task_sleep_ms :: "u32 \<Rightarrow> u64 \<Rightarrow> u64 \<Rightarrow> u32 \<Rightarrow> sched \<Rightarrow> (u32 \<times> sched) option" where
  "task_sleep_ms ms now now' esp t =
     (if \<not> started t then Some (esp, t)
      else do {
        c \<leftarrow> current t;
        cur \<leftarrow> task_get (tasks t) (Some c);
        task_yield now' esp (t\<lparr>tasks := (tasks t)[c :=
          cur\<lparr>tk_wake_at := sleep_deadline now ms, tk_state := TASK_SLEEPING\<rparr>]\<rparr>)
      })"

text \<open>\<open>None\<close>: the idle task tried to exit, a panic.  The calling context does not resume.\<close>

definition task_exit :: "u64 \<Rightarrow> u32 \<Rightarrow> sched \<Rightarrow> (u32 \<times> sched) option" where
  "task_exit now esp t =
     (if current t = idle t then None
      else do {
        c \<leftarrow> current t;
        cur \<leftarrow> task_get (tasks t) (Some c);
        task_yield now esp (t\<lparr>tasks := (tasks t)[c := cur\<lparr>tk_state := TASK_DEAD\<rparr>]\<rparr>)
      })"

partial_function (option) kill_loop :: "task list \<Rightarrow> u32 \<Rightarrow> nat \<Rightarrow> nat \<Rightarrow> nat option option" where
  "kill_loop T ident start i = do {
     x \<leftarrow> task_get T (Some i);
     if tk_id x = ident \<and> tk_state x \<noteq> TASK_UNUSED \<and> tk_state x \<noteq> TASK_DEAD then Some (Some i)
     else do {
       nx \<leftarrow> tk_next x;
       if nx \<noteq> start then kill_loop T ident start nx else Some None
     }
   }"

declare kill_loop.simps [code]

text \<open>The result, the state, and the stack pointer to resume on when a task kills itself.\<close>

definition task_kill :: "u32 \<Rightarrow> u64 \<Rightarrow> u32 \<Rightarrow> sched \<Rightarrow> (int \<times> u32 \<times> sched) option" where
  "task_kill ident now esp t = do {
     c \<leftarrow> current t;
     found \<leftarrow> kill_loop (tasks t) ident c c;
     case found of
       None \<Rightarrow> Some (-1, esp, t)
     | Some i \<Rightarrow>
         if Some i = idle t then Some (-2, esp, t)
         else do {
           let t = t\<lparr>tasks := (tasks t)[i := (tasks t ! i)\<lparr>tk_state := TASK_DEAD\<rparr>]\<rparr>;
           if i = c then do { (esp', t) \<leftarrow> task_yield now esp t; Some (0, esp', t) }
           else Some (0, esp, t)
         }
   }"

subsection \<open>Reaping\<close>

partial_function (option) reap_loop ::
  "nat \<Rightarrow> nat \<Rightarrow> 'a mem_state_scheme \<Rightarrow> task list \<Rightarrow> ('a mem_state_scheme \<times> task list) option" where
  "reap_loop c i m T =
     (if i = c then Some (m, T)
      else do {
        x \<leftarrow> task_get T (Some i);
        nx \<leftarrow> tk_next x;
        if tk_state x = TASK_DEAD
        then do {
          T \<leftarrow> list_remove i T;
          m \<leftarrow> (if tk_stack x \<noteq> NULL
                then (case kfree (tk_stack x) m of Some (Inr m') \<Rightarrow> Some m' | _ \<Rightarrow> None)
                else Some m);
          reap_loop c nx m (T[i := (T ! i)\<lparr>tk_state := TASK_UNUSED, tk_stack := NULL\<rparr>])
        }
        else reap_loop c nx m T
      })"

declare reap_loop.simps [code]

definition task_reap :: "'a mem_state_scheme \<Rightarrow> sched \<Rightarrow> ('a mem_state_scheme \<times> sched) option" where
  "task_reap m t = do {
     c \<leftarrow> current t;
     cur \<leftarrow> task_get (tasks t) (Some c);
     nx \<leftarrow> tk_next cur;
     (m, T) \<leftarrow> reap_loop c nx m (tasks t);
     Some (m, t\<lparr>tasks := T\<rparr>)
   }"

subsection \<open>Looking at the table\<close>

definition task_count :: "sched \<Rightarrow> int" where
  "task_count t = int (length (filter (\<lambda>i. tk_state (tasks t ! i) \<noteq> TASK_UNUSED) [0..<TASK_MAX]))"

fun task_at_loop :: "task list \<Rightarrow> nat list \<Rightarrow> int \<Rightarrow> int \<Rightarrow> nat option" where
  "task_at_loop T [] index seen = None"
| "task_at_loop T (i # is) index seen =
     (if tk_state (T ! i) = TASK_UNUSED then task_at_loop T is index seen
      else if seen = index then Some i
      else task_at_loop T is index (seen + 1))"

definition task_at :: "int \<Rightarrow> sched \<Rightarrow> nat option" where
  "task_at index t = task_at_loop (tasks t) [0..<TASK_MAX] index 0"

fun task_state_name :: "task_status \<Rightarrow> string" where
  "task_state_name TASK_READY = ''ready''"
| "task_state_name TASK_SLEEPING = ''sleeping''"
| "task_state_name TASK_DEAD = ''dead''"
| "task_state_name TASK_UNUSED = ''unused''"

end
