(* ===== verification/Task_Ring.thy ===== *)
theory Task_Ring
  imports Task
begin

text \<open>
  The run list as a ring of table indices, and what the loops over it compute.
\<close>

section \<open>The ring\<close>

text \<open>\<open>links T as z\<close>: each task of \<open>as\<close> points to the one after it, the last to \<open>z\<close>.\<close>

fun links :: "task list \<Rightarrow> nat list \<Rightarrow> nat \<Rightarrow> bool" where
  "links T [] z \<longleftrightarrow> True"
| "links T (a # as) z \<longleftrightarrow> a < length T \<and> tk_next (T ! a) = Some (hd (as @ [z])) \<and> links T as z"

definition used :: "task list \<Rightarrow> nat set" where
  "used T = {i. i < length T \<and> tk_state (T ! i) \<noteq> TASK_UNUSED}"

text \<open>The ring from \<open>c\<close> on, with exactly the tasks in use.\<close>

definition ring :: "task list \<Rightarrow> nat \<Rightarrow> nat list \<Rightarrow> bool" where
  "ring T c rest \<longleftrightarrow> links T (c # rest) c \<and> distinct (c # rest) \<and> set (c # rest) = used T"

lemma links_append: "links T (as @ bs) z \<longleftrightarrow> links T as (hd (bs @ [z])) \<and> links T bs z"
  by (induction as) (auto simp: hd_append)

lemma links_upd [simp]: "i \<notin> set as \<Longrightarrow> links (T[i := x]) as z = links T as z"
  by (induction as) auto

lemma links_upd_same: "tk_next x = tk_next (T ! i) \<Longrightarrow> links (T[i := x]) as z = links T as z"
proof -
  assume x: "tk_next x = tk_next (T ! i)"
  then have "tk_next (T[i := x] ! a) = tk_next (T ! a)" for a
    by (cases "i < length T"; cases "a = i") (auto simp: list_update_beyond)
  then show ?thesis by (induction as) simp_all
qed

lemma links_map: "(\<And>x. tk_next (f x) = tk_next x) \<Longrightarrow> links (map f T) as z = links T as z"
  by (induction as) auto

lemma ring_current: "ring T c rest \<Longrightarrow> c < length T \<and> tk_next (T ! c) = Some (hd (rest @ [c]))"
  by (simp add: ring_def)

lemma ring_used: "ring T c rest \<Longrightarrow> i \<in> set (c # rest) \<longleftrightarrow> i < length T \<and> tk_state (T ! i) \<noteq> TASK_UNUSED"
  by (auto simp: ring_def used_def)

lemma ring_order: "ring T c rest \<Longrightarrow> links T (rest @ [c]) (hd (rest @ [c])) \<and> distinct (rest @ [c])"
proof (cases rest)
  case Nil
  assume "ring T c rest"
  with Nil show ?thesis by (simp add: ring_def)
next
  case (Cons a as)
  assume "ring T c rest"
  then have r: "links T (c # rest) c" "distinct (c # rest)" by (simp_all add: ring_def)
  then have "links T rest c" "c < length T" "tk_next (T ! c) = Some a" using Cons by simp_all
  with Cons have "links T (rest @ [c]) a" unfolding links_append by simp
  moreover have "hd (rest @ [c]) = a" using Cons by simp
  ultimately show ?thesis using r(2) by simp
qed

lemma ring_rotate:
  assumes "ring T c rest" "c # rest = xs @ n # ys"
  shows "ring T n (ys @ xs)"
proof -
  have l: "links T (xs @ n # ys) c" and d: "distinct (xs @ n # ys)" and u: "set (xs @ n # ys) = used T"
    using assms by (simp_all add: ring_def)
  show ?thesis
  proof (cases xs)
    case Nil
    with assms show ?thesis by simp
  next
    case (Cons x xs')
    with assms(2) have x: "x = c" by simp
    from l have "links T xs n" "links T (n # ys) c" by (auto simp: links_append)
    moreover have "hd (xs @ [n]) = c" using x Cons by simp
    ultimately have "links T ((n # ys) @ xs) n" by (simp only: links_append)
    with d u show ?thesis by (auto simp: ring_def)
  qed
qed

lemma ring_at:
  assumes "ring T c rest" "n \<in> set (c # rest)" shows "\<exists>rest'. ring T n rest'"
proof -
  from assms(2) obtain xs ys where "c # rest = xs @ n # ys" by (meson split_list)
  with ring_rotate [OF assms(1)] show ?thesis by blast
qed

lemma ring_upd:
  assumes "ring T c rest" "i < length T" "tk_next x = tk_next (T ! i)"
    "(tk_state x = TASK_UNUSED) = (tk_state (T ! i) = TASK_UNUSED)"
  shows "ring (T[i := x]) c rest"
proof -
  have "used (T[i := x]) = used T" using assms(2,4) by (auto simp: used_def nth_list_update split: if_splits)
  with assms(1) show ?thesis by (simp only: ring_def links_upd_same [OF assms(3)])
qed

lemma ring_map:
  assumes "ring T c rest" "\<And>x. tk_next (f x) = tk_next x"
    "\<And>x. (tk_state (f x) = TASK_UNUSED) = (tk_state x = TASK_UNUSED)"
  shows "ring (map f T) c rest"
proof -
  have "used (map f T) = used T" unfolding used_def by (rule Collect_cong) (simp add: assms(3) cong: conj_cong)
  with assms(1) show ?thesis by (simp only: ring_def links_map [OF assms(2)])
qed

section \<open>The loops\<close>

lemma task_get_Some [simp]: "i < length T \<Longrightarrow> task_get T (Some i) = Some (T ! i)"
  by (simp add: task_get_def)

lemma ring_prev_links:
  "links T (a # as) i \<Longrightarrow> i \<notin> set as \<Longrightarrow> ring_prev T i a = Some (last (a # as))"
proof (induction as arbitrary: a)
  case Nil
  then show ?case by (simp add: ring_prev.simps)
next
  case (Cons b bs)
  then show ?case by (subst ring_prev.simps) auto
qed

definition wake_list :: "u64 \<Rightarrow> task list \<Rightarrow> nat list \<Rightarrow> task list" where
  "wake_list now T is = foldl (\<lambda>T i. T[i := wake now (T ! i)]) T is"

lemma length_wake_list [simp]: "length (wake_list now T is) = length T"
  unfolding wake_list_def by (induction "is" arbitrary: T) auto

lemma wake_list_nth:
  "distinct is \<Longrightarrow> j < length T \<Longrightarrow> wake_list now T is ! j = (if j \<in> set is then wake now (T ! j) else T ! j)"
  unfolding wake_list_def
proof (induction "is" arbitrary: T)
  case Nil
  then show ?case by simp
next
  case (Cons a as)
  then show ?case by (cases "a = j") auto
qed

lemma wake_keeps [simp]:
  "tk_next (wake now x) = tk_next x" "tk_esp (wake now x) = tk_esp x" "tk_id (wake now x) = tk_id x"
  "tk_stack (wake now x) = tk_stack x"
  "tk_state (wake now x) = TASK_UNUSED \<longleftrightarrow> tk_state x = TASK_UNUSED"
  "tk_state (wake now x) = TASK_DEAD \<longleftrightarrow> tk_state x = TASK_DEAD"
  by (auto simp: wake_def)

lemma wake_ready: "tk_state x = TASK_READY \<Longrightarrow> wake now x = x"
  by (simp add: wake_def)

lemma wake_loop_links:
  "links T (a # as) s \<Longrightarrow> s \<notin> set as \<Longrightarrow> distinct (a # as) \<Longrightarrow>
     wake_loop now s a T = Some (wake_list now T (a # as))"
proof (induction as arbitrary: a T)
  case Nil
  then show ?case by (simp add: wake_loop.simps wake_list_def)
next
  case (Cons b bs)
  let ?T = "T[a := wake now (T ! a)]"
  have "links ?T (b # bs) s" using Cons.prems by simp
  with Cons.IH [of ?T b] Cons.prems have "wake_loop now s b ?T = Some (wake_list now ?T (b # bs))" by simp
  with Cons.prems show ?case by (subst wake_loop.simps) (auto simp: wake_list_def)
qed

lemma wake_sleepers_ring:
  assumes "ring (tasks t) c rest" "current t = Some c"
  shows "wake_sleepers now t = Some (t\<lparr>tasks := map (wake now) (tasks t)\<rparr>)"
proof -
  have "wake_loop now c c (tasks t) = Some (wake_list now (tasks t) (c # rest))"
    using assms(1) by (intro wake_loop_links) (auto simp: ring_def)
  moreover have "wake_list now (tasks t) (c # rest) = map (wake now) (tasks t)"
  proof (rule nth_equalityI)
    fix j assume "j < length (wake_list now (tasks t) (c # rest))"
    then have j: "j < length (tasks t)" by simp
    have "distinct (c # rest)" using assms(1) by (simp add: ring_def)
    moreover have "j \<notin> set (c # rest) \<Longrightarrow> wake now (tasks t ! j) = tasks t ! j"
      using ring_used [OF assms(1), of j] j by (auto simp: wake_def)
    ultimately show "wake_list now (tasks t) (c # rest) ! j = map (wake now) (tasks t) ! j"
      using j by (simp add: wake_list_nth del: set_simps)
  qed simp
  ultimately show ?thesis using assms(2) by (simp add: wake_sleepers_def)
qed

definition runnable :: "task list \<Rightarrow> nat option \<Rightarrow> nat \<Rightarrow> bool" where
  "runnable T idl i \<longleftrightarrow> Some i \<noteq> idl \<and> tk_state (T ! i) = TASK_READY"

definition next_of :: "task list \<Rightarrow> nat option \<Rightarrow> nat list \<Rightarrow> nat option" where
  "next_of T idl is = (case find (runnable T idl) is of Some i \<Rightarrow> Some i | None \<Rightarrow> idl)"

lemma pick_loop_links:
  "links T (a # as) s \<Longrightarrow> s \<notin> set as \<Longrightarrow> pick_loop T idl s a = Some (next_of T idl (a # as))"
proof (induction as arbitrary: a)
  case Nil
  then show ?case by (simp add: pick_loop.simps next_of_def runnable_def)
next
  case (Cons b bs)
  then show ?case
    by (subst pick_loop.simps) (auto simp: next_of_def runnable_def)
qed

lemma pick_next_ring:
  assumes "ring (tasks t) c rest" "current t = Some c"
  shows "pick_next t = Some (next_of (tasks t) (idle t) (rest @ [c]))"
proof -
  obtain a as where o: "rest @ [c] = a # as" by (cases rest) auto
  have "links (tasks t) (a # as) a" "distinct (a # as)"
    using ring_order [OF assms(1)] unfolding o by auto
  then have "pick_loop (tasks t) (idle t) a a = Some (next_of (tasks t) (idle t) (a # as))"
    by (intro pick_loop_links) auto
  moreover have "tk_next (tasks t ! c) = Some a" "c < length (tasks t)"
    using ring_current [OF assms(1)] o by auto
  ultimately show ?thesis using assms(2) o by (simp add: pick_next_def)
qed

lemma find_SomeD: "find P xs = Some x \<Longrightarrow> x \<in> set xs \<and> P x"
  by (induction xs) (auto split: if_splits)

lemma next_of_cases:
  "next_of T idl is = idl \<or> (\<exists>i\<in>set is. next_of T idl is = Some i \<and> runnable T idl i)"
  unfolding next_of_def by (auto split: option.split dest: find_SomeD)

lemma kill_loop_links:
  "links T (a # as) s \<Longrightarrow> s \<notin> set as \<Longrightarrow>
     kill_loop T ident s a = Some (find (\<lambda>i. tk_id (T ! i) = ident \<and> tk_state (T ! i) \<noteq> TASK_UNUSED \<and>
       tk_state (T ! i) \<noteq> TASK_DEAD) (a # as))"
proof (induction as arbitrary: a)
  case Nil
  then show ?case by (simp add: kill_loop.simps)
next
  case (Cons b bs)
  then show ?case by (subst kill_loop.simps) auto
qed

end
