(* ===== verification/Task_Spec.thy ===== *)
theory Task_Spec
  imports Task_Ring
begin

text \<open>
  The scheduler's invariant and the properties of its operations: the run list stays one ring
  of exactly the tasks in use, every task but the idle one owns a stack of its own, and
  switching is round robin.
\<close>

section \<open>The invariant\<close>

definition table_ok :: "sched \<Rightarrow> bool" where
  "table_ok t \<longleftrightarrow> length (tasks t) = TASK_MAX \<and> started t \<and> idle t = Some 0 \<and>
     tk_state (tasks t ! 0) \<noteq> TASK_UNUSED \<and> tk_state (tasks t ! 0) \<noteq> TASK_DEAD"

definition sched_ok :: "sched \<Rightarrow> bool" where
  "sched_ok t \<longleftrightarrow> table_ok t \<and>
     (\<exists>c rest. current t = Some c \<and> ring (tasks t) c rest \<and> (c = 0 \<or> tk_state (tasks t ! c) = TASK_READY))"

definition stacks_ok :: "task list \<Rightarrow> (ptr \<Rightarrow> nat option) \<Rightarrow> bool" where
  "stacks_ok T L \<longleftrightarrow> tk_stack (T ! 0) = NULL \<and>
     (\<forall>i\<in>used T - {0}. \<exists>k. L (tk_stack (T ! i)) = Some k \<and> unat TASK_STACK_SIZE \<le> k) \<and>
     inj_on (\<lambda>i. tk_stack (T ! i)) (used T - {0})"

definition task_inv :: "'a mem_state_scheme \<Rightarrow> sched \<Rightarrow> (ptr \<Rightarrow> nat option) \<Rightarrow> bool" where
  "task_inv m t L \<longleftrightarrow> mem_holds m L \<and> sched_ok t \<and> stacks_ok (tasks t) L"

lemma stacks_live:
  "stacks_ok T L \<Longrightarrow> i \<in> used T \<Longrightarrow> i \<noteq> 0 \<Longrightarrow> \<exists>k. L (tk_stack (T ! i)) = Some k \<and> unat TASK_STACK_SIZE \<le> k"
  unfolding stacks_ok_def by blast

lemma stacks_inj:
  "stacks_ok T L \<Longrightarrow> i \<in> used T \<Longrightarrow> j \<in> used T \<Longrightarrow> i \<noteq> 0 \<Longrightarrow> j \<noteq> 0 \<Longrightarrow>
     tk_stack (T ! i) = tk_stack (T ! j) \<Longrightarrow> i = j"
  unfolding stacks_ok_def inj_on_def by blast

lemma stacks_idle: "stacks_ok T L \<Longrightarrow> tk_stack (T ! 0) = NULL"
  unfolding stacks_ok_def by blast

lemma stacks_ok_cong:
  assumes "stacks_ok T L" "used T' = used T" "\<And>i. i \<in> used T \<Longrightarrow> tk_stack (T' ! i) = tk_stack (T ! i)"
    "tk_stack (T' ! 0) = tk_stack (T ! 0)"
  shows "stacks_ok T' L"
proof -
  have "inj_on (\<lambda>i. tk_stack (T' ! i)) (used T - {0}) = inj_on (\<lambda>i. tk_stack (T ! i)) (used T - {0})"
    by (rule inj_on_cong) (use assms(3) in auto)
  with assms show ?thesis unfolding stacks_ok_def by auto
qed

lemma used_upd:
  "i < length T \<Longrightarrow> (tk_state x = TASK_UNUSED) = (tk_state (T ! i) = TASK_UNUSED) \<Longrightarrow> used (T[i := x]) = used T"
  by (auto simp: used_def nth_list_update split: if_splits)

lemma stacks_ok_upd:
  assumes "stacks_ok T L" "i < length T" "(tk_state x = TASK_UNUSED) = (tk_state (T ! i) = TASK_UNUSED)"
    "tk_stack x = tk_stack (T ! i)"
  shows "stacks_ok (T[i := x]) L"
  by (rule stacks_ok_cong [OF assms(1) used_upd [OF assms(2,3)]])
    (use assms(2,4) in \<open>auto simp: nth_list_update\<close>)

section \<open>Switching\<close>

text \<open>The table when \<open>c\<close> is interrupted at time \<open>now\<close> with stack pointer \<open>esp\<close>.\<close>

definition interrupted :: "u64 \<Rightarrow> u32 \<Rightarrow> nat \<Rightarrow> task list \<Rightarrow> task list" where
  "interrupted now esp c T = map (wake now) (T[c := (T ! c)\<lparr>tk_esp := esp\<rparr>])"

lemma interrupted_facts:
  assumes "c < length T"
  shows "length (interrupted now esp c T) = length T"
    "i < length T \<Longrightarrow> tk_stack (interrupted now esp c T ! i) = tk_stack (T ! i)"
    "i < length T \<Longrightarrow> (tk_state (interrupted now esp c T ! i) = TASK_UNUSED) = (tk_state (T ! i) = TASK_UNUSED)"
    "i < length T \<Longrightarrow> (tk_state (interrupted now esp c T ! i) = TASK_DEAD) = (tk_state (T ! i) = TASK_DEAD)"
    "i < length T \<Longrightarrow> tk_state (T ! i) = TASK_READY \<Longrightarrow> tk_state (interrupted now esp c T ! i) = TASK_READY"
    "i < length T \<Longrightarrow> tk_id (interrupted now esp c T ! i) = tk_id (T ! i)"
    "tk_esp (interrupted now esp c T ! c) = esp"
    "i < length T \<Longrightarrow> i \<noteq> c \<Longrightarrow> tk_esp (interrupted now esp c T ! i) = tk_esp (T ! i)"
    "i < length T \<Longrightarrow> i \<noteq> c \<Longrightarrow> interrupted now esp c T ! i = wake now (T ! i)"
  using assms by (auto simp: interrupted_def nth_list_update wake_def)

lemma ring_interrupted: "ring T c rest \<Longrightarrow> ring (interrupted now esp c T) c rest"
  unfolding interrupted_def
  by (intro ring_map ring_upd) (simp_all add: ring_current)

lemma task_schedule_run:
  fixes now :: u64 and esp :: u32
  assumes ok: "table_ok t" and c: "current t = Some c" and r: "ring (tasks t) c rest"
  defines "T \<equiv> interrupted now esp c (tasks t)"
  shows "\<exists>n t'. next_of T (Some 0) (rest @ [c]) = Some n \<and> n \<in> set (c # rest) \<and>
    task_schedule now esp t = Some (tk_esp (T ! n), t') \<and>
    t' = t\<lparr>tasks := (if n = c then T else T[n := (T ! n)\<lparr>tk_switches := tk_switches (T ! n) + 1\<rparr>]),
           current := Some n\<rparr>"
proof -
  have cl: "c < length (tasks t)" using ring_current [OF r] by simp
  have rT: "ring T c rest" unfolding T_def by (rule ring_interrupted [OF r])
  have len: "length T = length (tasks t)" unfolding T_def using interrupted_facts(1) [OF cl] .
  have z: "0 \<in> set (c # rest)" using ok ring_used [OF r, of 0] by (simp add: table_ok_def TASK_MAX_def)
  obtain n where n: "next_of T (Some 0) (rest @ [c]) = Some n" "n \<in> set (c # rest)"
    using next_of_cases [of T "Some 0" "rest @ [c]"] z by auto
  have nl: "n < length T" using n(2) ring_used [OF rT] by blast
  have w: "wake_sleepers now (t\<lparr>tasks := (tasks t)[c := (tasks t ! c)\<lparr>tk_esp := esp\<rparr>]\<rparr>) = Some (t\<lparr>tasks := T\<rparr>)"
    using wake_sleepers_ring [of "t\<lparr>tasks := (tasks t)[c := (tasks t ! c)\<lparr>tk_esp := esp\<rparr>]\<rparr>" c rest now]
      ring_upd [OF r cl] c by (simp add: T_def interrupted_def)
  have p: "pick_next (t\<lparr>tasks := T\<rparr>) = Some (Some n)"
    using pick_next_ring [of "t\<lparr>tasks := T\<rparr>" c rest] rT c ok n(1) by (simp add: table_ok_def)
  have e: "tk_esp (T ! c) = esp" unfolding T_def by (rule interrupted_facts(7) [OF cl])
  have "task_schedule now esp t = Some (tk_esp (T ! n),
      t\<lparr>tasks := (if n = c then T else T[n := (T ! n)\<lparr>tk_switches := tk_switches (T ! n) + 1\<rparr>]), current := Some n\<rparr>)"
    using ok c cl w p e nl by (auto simp: task_schedule_def table_ok_def)
  with n show ?thesis by blast
qed

lemma schedule_table:
  assumes ok: "table_ok t" and c: "current t = Some c" and r: "ring (tasks t) c rest"
    and st: "stacks_ok (tasks t) L"
  shows "\<exists>e t' n. task_schedule now esp t = Some (e, t') \<and> sched_ok t' \<and> stacks_ok (tasks t') L \<and>
    current t' = Some n \<and> (n = c \<longrightarrow> c = 0 \<or> tk_state (interrupted now esp c (tasks t) ! c) = TASK_READY) \<and>
    (\<forall>j<16. (tk_state (tasks t' ! j) = TASK_DEAD) = (tk_state (tasks t ! j) = TASK_DEAD))"
proof -
  let ?T = "interrupted now esp c (tasks t)"
  from task_schedule_run [OF ok c r, where now = now and esp = esp] obtain n t' where n:
    "next_of ?T (Some 0) (rest @ [c]) = Some n" "n \<in> set (c # rest)"
    "task_schedule now esp t = Some (tk_esp (?T ! n), t')"
    "t' = t\<lparr>tasks := (if n = c then ?T else ?T[n := (?T ! n)\<lparr>tk_switches := tk_switches (?T ! n) + 1\<rparr>]),
            current := Some n\<rparr>" by blast
  have cl: "c < length (tasks t)" using ring_current [OF r] by simp
  note f = interrupted_facts [OF cl, where now = now and esp = esp]
  have rT: "ring ?T c rest" by (rule ring_interrupted [OF r])
  have nl: "n < length ?T" using n(2) ring_used [OF rT] by blast
  have rT': "ring (tasks t') c rest"
    using rT n(4) ring_upd [OF rT nl, of "(?T ! n)\<lparr>tk_switches := tk_switches (?T ! n) + 1\<rparr>"] by simp
  from ring_at [OF rT' n(2)] obtain rest' where rn: "ring (tasks t') n rest'" by blast
  have ready: "n = 0 \<or> tk_state (?T ! n) = TASK_READY"
    using next_of_cases [of ?T "Some 0" "rest @ [c]"] n(1) by (auto simp: runnable_def)
  have stn: "tk_state (tasks t' ! i) = tk_state (?T ! i)" for i
    using n(4) nl by (cases "i = n") auto
  have l16: "length (tasks t) = 16" using ok by (simp add: table_ok_def TASK_MAX_def)
  have "table_ok t'"
    using ok n(4) f(1) f(3) [of 0] f(4) [of 0] stn l16 by (simp add: table_ok_def)
  then have "sched_ok t'" unfolding sched_ok_def using rn ready stn n(4) by auto
  moreover have "stacks_ok ?T L"
  proof (rule stacks_ok_cong [OF st])
    show "used ?T = used (tasks t)" using f(1,3) by (auto simp: used_def)
    show "tk_stack (?T ! i) = tk_stack (tasks t ! i)" if "i \<in> used (tasks t)" for i
      using f(2) [of i] that by (simp add: used_def)
    show "tk_stack (?T ! 0) = tk_stack (tasks t ! 0)" using f(2) [of 0] l16 by simp
  qed
  then have "stacks_ok (tasks t') L"
    using n(4) stacks_ok_upd [of ?T L n "(?T ! n)\<lparr>tk_switches := tk_switches (?T ! n) + 1\<rparr>"] nl by simp
  moreover have "\<forall>j<16. (tk_state (tasks t' ! j) = TASK_DEAD) = (tk_state (tasks t ! j) = TASK_DEAD)"
    using stn f(4) l16 by simp
  ultimately show ?thesis using n(3,4) ready by auto
qed

section \<open>Creation\<close>

lemma sched_okD:
  assumes "sched_ok t"
  obtains c rest where "table_ok t" "current t = Some c" "ring (tasks t) c rest"
    "c = 0 \<or> tk_state (tasks t ! c) = TASK_READY" "c < length (tasks t)" "length (tasks t) = 16"
proof -
  from assms obtain c rest where "table_ok t" "current t = Some c" "ring (tasks t) c rest"
    "c = 0 \<or> tk_state (tasks t ! c) = TASK_READY" by (auto simp: sched_ok_def)
  moreover from ring_current [OF calculation(3)] calculation(1) have "c < length (tasks t)" "length (tasks t) = 16"
    by (auto simp: table_ok_def TASK_MAX_def)
  ultimately show thesis by (rule that)
qed

lemma task_init_ok:
  assumes "mem_holds m L" shows "task_inv m (task_init t) L"
proof -
  have n: "tk_state (tasks (task_init t) ! i) = (if i = 0 then TASK_READY else TASK_UNUSED)" if "i < 16" for i
    using that by (cases "i = 0") (simp_all add: task_init_def TASK_MAX_def zero_task_def del: replicate.simps)
  have "length (tasks (task_init t)) = 16" by (simp add: task_init_def TASK_MAX_def)
  with n have u: "used (tasks (task_init t)) = {0}" by (auto simp: used_def split: if_splits)
  have "ring (tasks (task_init t)) 0 []"
    unfolding ring_def u by (simp add: task_init_def TASK_MAX_def)
  moreover have "table_ok (task_init t)" by (simp add: table_ok_def task_init_def TASK_MAX_def)
  moreover have "stacks_ok (tasks (task_init t)) L"
    unfolding stacks_ok_def u by (simp add: task_init_def TASK_MAX_def zero_task_def)
  ultimately show ?thesis using assms by (auto simp: task_inv_def sched_ok_def task_init_def)
qed

lemma ring_insert:
  assumes r: "ring T c rest" and i: "i < length T" "tk_state (T ! i) = TASK_UNUSED"
    and x: "tk_next x = tk_next (T ! c)" "tk_state x \<noteq> TASK_UNUSED"
  shows "ring (T[i := x, c := (T ! c)\<lparr>tk_next := Some i\<rparr>]) c (i # rest)"
proof -
  let ?T = "T[i := x, c := (T ! c)\<lparr>tk_next := Some i\<rparr>]"
  have ni: "i \<notin> set (c # rest)" using ring_used [OF r, of i] i(2) by simp
  have l: "links T (c # rest) c" "distinct (c # rest)" "set (c # rest) = used T" "c < length T"
    using r ring_current [OF r] by (auto simp: ring_def)
  have "links T rest c" using l(1) by simp
  then have "links ?T rest c" using ni l(2) by simp
  moreover have "?T ! i = x" using ni i(1) by auto
  moreover have "tk_next x = Some (hd (rest @ [c]))" using x(1) l(1) by simp
  ultimately have "links ?T (c # i # rest) c" using i(1) l(4) ni by simp
  moreover have "tk_state (T ! c) \<noteq> TASK_UNUSED" using ring_used [OF r, of c] by simp
  then have "used ?T = insert i (used T)"
    using i x(2) l(4) ni by (auto simp: used_def nth_list_update split: if_splits)
  ultimately show ?thesis using l(2,3) ni by (auto simp: ring_def)
qed

lemma find_None_all: "find P xs = None \<longleftrightarrow> (\<forall>x\<in>set xs. \<not> P x)"
  by (induction xs) auto

lemma task_spawn_ok:
  assumes inv: "task_inv m t L"
  shows "\<exists>r m' t'. task_spawn boot nm entry arg m t = Some (r, m', t') \<and> mem_frame m m' \<and>
    (case r of
       None \<Rightarrow> m' = m \<and> t' = t \<and>
         ((\<forall>i<16. tk_state (tasks t ! i) \<noteq> TASK_UNUSED) \<or> kmalloc TASK_STACK_SIZE m = Some (0, m))
     | Some i \<Rightarrow> i < 16 \<and> tk_state (tasks t ! i) = TASK_UNUSED \<and> current t' = current t \<and>
         (\<exists>stack k. tk_stack (tasks t' ! i) = stack \<and> L stack = None \<and> unat TASK_STACK_SIZE \<le> k \<and>
            task_inv m' t' (L(stack \<mapsto> k)) \<and>
            tk_state (tasks t' ! i) = TASK_READY \<and> tk_name (tasks t' ! i) = take 23 nm \<and>
            tk_entry (tasks t' ! i) = entry \<and> tk_arg (tasks t' ! i) = arg \<and>
            tk_id (tasks t' ! i) = next_id t + 1 \<and>
            tk_esp (tasks t' ! i) = stack + 16312 \<and>
            frames t' (stack + 16312) =
              Some (zero_frame\<lparr>bf_ds := 0x10, bf_cs := 0x08, bf_eip := boot, bf_eflags := 0x202\<rparr>)))"
proof -
  have mh: "mem_holds m L" and so: "sched_ok t" and st: "stacks_ok (tasks t) L"
    using inv by (simp_all add: task_inv_def)
  from so obtain c rest where c: "table_ok t" "current t = Some c" "ring (tasks t) c rest"
    "c = 0 \<or> tk_state (tasks t ! c) = TASK_READY" "c < length (tasks t)" "length (tasks t) = 16"
    by (rule sched_okD)
  show ?thesis
  proof (cases "alloc_task t")
    case None
    then have "\<forall>i<16. tk_state (tasks t ! i) \<noteq> TASK_UNUSED"
      by (auto simp: alloc_task_def find_None_all TASK_MAX_def)
    with None show ?thesis by (simp add: task_spawn_def mem_frame_refl)
  next
    case (Some i)
    then have i: "i < 16" "tk_state (tasks t ! i) = TASK_UNUSED"
      using find_SomeD by (fastforce simp: alloc_task_def TASK_MAX_def)+
    have "unat TASK_STACK_SIZE + 7 < 4294967296" by (simp add: TASK_STACK_SIZE_def)
    from kheap.alloc_law [OF mh this] obtain stack m1 where
      km: "kmalloc TASK_STACK_SIZE m = Some (stack, m1)" "mem_frame m m1"
      "if stack = NULL then m1 = m else L stack = None \<and> (\<exists>k\<ge>unat TASK_STACK_SIZE. mem_holds m1 (L(stack \<mapsto> k)))"
      by blast
    show ?thesis
    proof (cases "stack = NULL")
      case True
      with Some km show ?thesis by (simp add: task_spawn_def)
    next
      case False
      with km(3) obtain k where k: "L stack = None" "unat TASK_STACK_SIZE \<le> k" "mem_holds m1 (L(stack \<mapsto> k))" by auto
      define x where "x = zero_task\<lparr>tk_name := take (TASK_NAME_MAX - 1) nm, tk_id := next_id t + 1, tk_entry := entry,
        tk_arg := arg, tk_stack := stack, tk_state := TASK_READY, tk_esp := stack + TASK_STACK_SIZE - 16 - sizeof_boot_frame\<rparr>"
      define fr where "fr = zero_frame\<lparr>bf_ds := KERNEL_DATA_SEG, bf_cs := KERNEL_CODE_SEG, bf_eip := boot,
        bf_eflags := EFLAGS_IF OR EFLAGS_RESERVED\<rparr>"
      define y where "y = x\<lparr>tk_next := tk_next (tasks t ! c)\<rparr>"
      have ci: "c \<noteq> i" using ring_used [OF c(3), of c] i(2) by auto
      define t1 where "t1 = t\<lparr>tasks := (tasks t)[i := y, c := (tasks t ! c)\<lparr>tk_next := Some i\<rparr>],
        next_id := next_id t + 1,
        frames := (frames t)(stack + TASK_STACK_SIZE - 16 - sizeof_boot_frame \<mapsto> fr)\<rparr>"
      have ins: "list_insert i (t\<lparr>tasks := (tasks t)[i := x], next_id := next_id t + 1,
          frames := (frames t)(stack + TASK_STACK_SIZE - 16 - sizeof_boot_frame \<mapsto> fr)\<rparr>) = Some t1"
        using c(2,5,6) i(1) ci by (simp add: list_insert_def t1_def y_def)
      have run: "task_spawn boot nm entry arg m t = Some (Some i, m1, t1)"
        unfolding task_spawn_def using Some km(1) False ins
        by (simp add: Let_def x_def fr_def)
      have rT: "ring (tasks t1) c (i # rest)"
        unfolding t1_def using c(3,6) i by (simp add: y_def x_def ring_insert)
      have ti: "tasks t1 ! i = y" using ci i(1) c(6) by (simp add: t1_def)
      have tj: "tk_state (tasks t1 ! j) = tk_state (tasks t ! j)" "tk_stack (tasks t1 ! j) = tk_stack (tasks t ! j)"
        if "j \<noteq> i" for j
        using that c(5) by (cases "j = c"; simp add: t1_def)+
      have i0: "i \<noteq> 0" using i(2) c(1) by (cases "i = 0") (auto simp: table_ok_def)
      have u: "used (tasks t1) = insert i (used (tasks t))"
        using rT c(3) unfolding ring_def by auto
      have ni: "i \<notin> used (tasks t)" using i(2) by (simp add: used_def)
      have so1: "sched_ok t1"
        using c(1,4) rT tj(1) [of 0] tj(1) [of c] i0 ci c(2)
        unfolding sched_ok_def by (auto simp: table_ok_def t1_def)
      have stk: "tk_stack (tasks t1 ! i) = stack" by (simp add: ti y_def x_def)
      have "stacks_ok (tasks t1) (L(stack \<mapsto> k))"
        unfolding stacks_ok_def
      proof (intro conjI ballI)
        show "tk_stack (tasks t1 ! 0) = NULL" using st tj(2) [of 0] i0 by (simp add: stacks_ok_def)
        fix j assume j: "j \<in> used (tasks t1) - {0}"
        show "\<exists>k'. (L(stack \<mapsto> k)) (tk_stack (tasks t1 ! j)) = Some k' \<and> unat TASK_STACK_SIZE \<le> k'"
        proof (cases "j = i")
          case True
          with stk k(2) show ?thesis by simp
        next
          case False
          with j u st tj(2) [OF False] show ?thesis using k(2) by (auto simp: stacks_ok_def)
        qed
      next
        have old: "tk_stack (tasks t ! j) \<noteq> stack" if "j \<in> used (tasks t) - {0}" for j
          using stacks_live [OF st, of j] that k(1) by auto
        show "inj_on (\<lambda>j. tk_stack (tasks t1 ! j)) (used (tasks t1) - {0})"
        proof (rule inj_onI)
          fix a b assume ab: "a \<in> used (tasks t1) - {0}" "b \<in> used (tasks t1) - {0}"
            "tk_stack (tasks t1 ! a) = tk_stack (tasks t1 ! b)"
          show "a = b"
          proof (cases "a = i \<or> b = i")
            case True
            with ab u stk old tj(2) show ?thesis by (metis DiffE DiffI insertE)
          next
            case False
            with ab u tj(2) have "a \<in> used (tasks t) - {0}" "b \<in> used (tasks t) - {0}"
              "tk_stack (tasks t ! a) = tk_stack (tasks t ! b)" by auto
            with st show ?thesis unfolding stacks_ok_def by (auto dest: inj_onD)
          qed
        qed
      qed
      with k(3) so1 have inv1: "task_inv m1 t1 (L(stack \<mapsto> k))" by (simp add: task_inv_def)
      have esp: "stack + TASK_STACK_SIZE - 16 - sizeof_boot_frame = stack + 16312"
        by (simp add: TASK_STACK_SIZE_def sizeof_boot_frame_def)
      have fr: "frames t1 (stack + 16312) =
          Some (zero_frame\<lparr>bf_ds := 0x10, bf_cs := 0x08, bf_eip := boot, bf_eflags := 0x202\<rparr>)"
        unfolding esp [symmetric]
        by (simp add: t1_def fr_def KERNEL_DATA_SEG_def KERNEL_CODE_SEG_def EFLAGS_IF_def EFLAGS_RESERVED_def)
      have "\<exists>stack k. tk_stack (tasks t1 ! i) = stack \<and> L stack = None \<and> unat TASK_STACK_SIZE \<le> k \<and>
            task_inv m1 t1 (L(stack \<mapsto> k)) \<and>
            tk_state (tasks t1 ! i) = TASK_READY \<and> tk_name (tasks t1 ! i) = take 23 nm \<and>
            tk_entry (tasks t1 ! i) = entry \<and> tk_arg (tasks t1 ! i) = arg \<and>
            tk_id (tasks t1 ! i) = next_id t + 1 \<and>
            tk_esp (tasks t1 ! i) = stack + 16312 \<and>
            frames t1 (stack + 16312) =
              Some (zero_frame\<lparr>bf_ds := 0x10, bf_cs := 0x08, bf_eip := boot, bf_eflags := 0x202\<rparr>)"
        by (rule exI [of _ stack], rule exI [of _ k], intro conjI stk k(1,2) inv1 fr)
          (simp_all add: ti y_def x_def esp TASK_NAME_MAX_def)
      moreover have "current t1 = current t" by (simp add: t1_def)
      ultimately show ?thesis
        using run km(2) i by (intro exI [of _ "Some i"] exI [of _ m1] exI [of _ t1]) simp
    qed
  qed
qed

section \<open>Sleeping, leaving, killing\<close>

text \<open>Changing the state of the running task and giving up the processor.\<close>

lemma block_current_ok:
  assumes inv: "task_inv m t L" and c: "current t = Some c"
    and x: "tk_next x = tk_next (tasks t ! c)" "tk_stack x = tk_stack (tasks t ! c)"
      "tk_state x \<noteq> TASK_UNUSED" "c = 0 \<Longrightarrow> tk_state x \<noteq> TASK_DEAD"
  shows "\<exists>e t' n. task_yield now esp (t\<lparr>tasks := (tasks t)[c := x]\<rparr>) = Some (e, t') \<and> task_inv m t' L \<and>
    current t' = Some n \<and> (n = c \<longrightarrow> c = 0 \<or> tk_state (interrupted now esp c ((tasks t)[c := x]) ! c) = TASK_READY) \<and>
    (\<forall>j<16. (tk_state (tasks t' ! j) = TASK_DEAD) = (tk_state ((tasks t)[c := x] ! j) = TASK_DEAD))"
proof -
  have mh: "mem_holds m L" and so: "sched_ok t" and st: "stacks_ok (tasks t) L"
    using inv by (simp_all add: task_inv_def)
  from so c obtain rest where r: "table_ok t" "ring (tasks t) c rest" "c < length (tasks t)" "length (tasks t) = 16"
    by (auto elim!: sched_okD)
  have us: "tk_state (tasks t ! c) \<noteq> TASK_UNUSED" using ring_used [OF r(2), of c] by simp
  let ?t = "t\<lparr>tasks := (tasks t)[c := x]\<rparr>"
  have tok: "table_ok ?t" using r(1,3,4) x(3,4) by (cases "c = 0") (auto simp: table_ok_def)
  moreover have "ring (tasks ?t) c rest" using ring_upd [OF r(2,3) x(1)] x(3) us by simp
  moreover have "stacks_ok (tasks ?t) L" using stacks_ok_upd [OF st r(3)] x(2,3) us by simp
  moreover have "current ?t = Some c" using c by simp
  ultimately obtain e t' n where "task_schedule now esp ?t = Some (e, t')" "sched_ok t'" "stacks_ok (tasks t') L"
    "current t' = Some n" "n = c \<longrightarrow> c = 0 \<or> tk_state (interrupted now esp c (tasks ?t) ! c) = TASK_READY"
    "\<forall>j<16. (tk_state (tasks t' ! j) = TASK_DEAD) = (tk_state (tasks ?t ! j) = TASK_DEAD)"
    using schedule_table [of ?t c rest L now esp] by blast
  with tok mh show ?thesis by (simp add: task_yield_def table_ok_def task_inv_def)
qed

lemma task_schedule_ok:
  assumes inv: "task_inv m t L"
  shows "\<exists>e t'. task_schedule now esp t = Some (e, t') \<and> task_inv m t' L"
proof -
  have mh: "mem_holds m L" and so: "sched_ok t" and st: "stacks_ok (tasks t) L"
    using inv by (simp_all add: task_inv_def)
  from so obtain c rest where "table_ok t" "current t = Some c" "ring (tasks t) c rest" by (rule sched_okD)
  from schedule_table [OF this st, of now esp] mh show ?thesis by (auto simp: task_inv_def)
qed

lemma task_sleep_ok:
  assumes inv: "task_inv m t L"
  shows "\<exists>e t'. task_sleep_ms ms now now' esp t = Some (e, t') \<and> task_inv m t' L"
proof -
  from inv obtain c where c: "current t = Some c" "table_ok t" "c < length (tasks t)"
    by (auto simp: task_inv_def elim: sched_okD)
  from block_current_ok [OF inv c(1), of "(tasks t ! c)\<lparr>tk_wake_at := sleep_deadline now ms, tk_state := TASK_SLEEPING\<rparr>" now' esp]
  show ?thesis using c by (auto simp: task_sleep_ms_def table_ok_def)
qed

lemma task_exit_ok:
  assumes inv: "task_inv m t L" and ne: "current t \<noteq> idle t"
  shows "\<exists>e t' c. current t = Some c \<and> task_exit now esp t = Some (e, t') \<and> task_inv m t' L \<and> current t' \<noteq> Some c \<and>
    tk_state (tasks t' ! c) = TASK_DEAD"
proof -
  from inv obtain c where c: "current t = Some c" "table_ok t" "c < length (tasks t)"
    by (auto simp: task_inv_def elim: sched_okD)
  have c0: "c \<noteq> 0" using ne c by (auto simp: table_ok_def)
  let ?x = "(tasks t ! c)\<lparr>tk_state := TASK_DEAD\<rparr>"
  from block_current_ok [OF inv c(1), of ?x now esp] c0 obtain e t' n where
    y: "task_yield now esp (t\<lparr>tasks := (tasks t)[c := ?x]\<rparr>) = Some (e, t')" "task_inv m t' L"
    "current t' = Some n" "n = c \<longrightarrow> c = 0 \<or> tk_state (interrupted now esp c ((tasks t)[c := ?x]) ! c) = TASK_READY"
    "\<forall>j<16. (tk_state (tasks t' ! j) = TASK_DEAD) = (tk_state ((tasks t)[c := ?x] ! j) = TASK_DEAD)"
    by auto
  have "tk_state (interrupted now esp c ((tasks t)[c := ?x]) ! c) = TASK_DEAD"
    using c(3) by (simp add: interrupted_def wake_def)
  with y(4) c0 have "n \<noteq> c" by auto
  moreover have "tk_state (tasks t' ! c) = TASK_DEAD" using y(5) c by (simp add: table_ok_def TASK_MAX_def)
  ultimately show ?thesis using y(1-3) c ne by (auto simp: task_exit_def)
qed

lemma mark_dead:
  assumes inv: "task_inv m t L" and i: "i \<in> used (tasks t)" "i \<noteq> 0" "current t \<noteq> Some i"
  shows "task_inv m (t\<lparr>tasks := (tasks t)[i := (tasks t ! i)\<lparr>tk_state := TASK_DEAD\<rparr>]\<rparr>) L"
proof -
  let ?x = "(tasks t ! i)\<lparr>tk_state := TASK_DEAD\<rparr>"
  let ?t = "t\<lparr>tasks := (tasks t)[i := ?x]\<rparr>"
  from inv obtain c rest where c: "current t = Some c" "table_ok t" "ring (tasks t) c rest"
    "c = 0 \<or> tk_state (tasks t ! c) = TASK_READY" "length (tasks t) = 16"
    by (auto simp: task_inv_def elim: sched_okD)
  have st: "stacks_ok (tasks t) L" and mh: "mem_holds m L" using inv by (simp_all add: task_inv_def)
  have il: "i < length (tasks t)" "tk_state (tasks t ! i) \<noteq> TASK_UNUSED" using i(1) by (simp_all add: used_def)
  have "ring (tasks ?t) c rest" using ring_upd [OF c(3) il(1), of ?x] il(2) by simp
  then have "sched_ok ?t" using c i unfolding sched_ok_def table_ok_def by (intro conjI exI [of _ c] exI [of _ rest]) auto
  moreover have "stacks_ok (tasks ?t) L" using stacks_ok_upd [OF st il(1), of ?x] il(2) by simp
  ultimately show ?thesis using mh by (simp add: task_inv_def)
qed

lemma task_kill_ok:
  assumes inv: "task_inv m t L"
  shows "\<exists>res e t'. task_kill ident now esp t = Some (res, e, t') \<and> task_inv m t' L \<and>
    (res = -1 \<and> t' = t \<and> e = esp \<and>
       (\<forall>i\<in>used (tasks t). tk_id (tasks t ! i) = ident \<longrightarrow> tk_state (tasks t ! i) = TASK_DEAD) \<or>
     (\<exists>i\<in>used (tasks t). tk_id (tasks t ! i) = ident \<and> tk_state (tasks t ! i) \<noteq> TASK_DEAD \<and>
       (i = 0 \<and> res = -2 \<and> t' = t \<and> e = esp \<or>
        i \<noteq> 0 \<and> res = 0 \<and> tk_state (tasks t' ! i) = TASK_DEAD \<and> current t' \<noteq> Some i)))"
proof -
  let ?P = "\<lambda>i. tk_id (tasks t ! i) = ident \<and> tk_state (tasks t ! i) \<noteq> TASK_UNUSED \<and> tk_state (tasks t ! i) \<noteq> TASK_DEAD"
  from inv obtain c rest where c: "current t = Some c" "table_ok t" "ring (tasks t) c rest"
    "c = 0 \<or> tk_state (tasks t ! c) = TASK_READY" "c < length (tasks t)" "length (tasks t) = 16"
    by (auto simp: task_inv_def elim: sched_okD)
  have st: "stacks_ok (tasks t) L" and mh: "mem_holds m L" using inv by (simp_all add: task_inv_def)
  have set: "set (c # rest) = used (tasks t)" using c(3) by (simp add: ring_def)
  have loop: "kill_loop (tasks t) ident c c = Some (find ?P (c # rest))"
    using c(3) by (intro kill_loop_links) (auto simp: ring_def)
  show ?thesis
  proof (cases "find ?P (c # rest)")
    case None
    then have "\<forall>i\<in>used (tasks t). tk_id (tasks t ! i) = ident \<longrightarrow> tk_state (tasks t ! i) = TASK_DEAD"
      unfolding find_None_all set by (auto simp: used_def)
    moreover have "task_kill ident now esp t = Some (-1, esp, t)"
      using c(1) loop None by (simp add: task_kill_def)
    ultimately show ?thesis using inv by (intro exI [of _ "-1"] exI [of _ esp] exI [of _ t]) simp
  next
    case (Some i)
    from find_SomeD [OF this] have i: "i \<in> used (tasks t)" "tk_id (tasks t ! i) = ident"
      "tk_state (tasks t ! i) \<noteq> TASK_DEAD" "tk_state (tasks t ! i) \<noteq> TASK_UNUSED" "i < 16"
      using set c(6) by (auto simp: used_def)
    let ?x = "(tasks t ! i)\<lparr>tk_state := TASK_DEAD\<rparr>"
    consider "i = 0" | "i \<noteq> 0" "i = c" | "i \<noteq> 0" "i \<noteq> c" by blast
    then show ?thesis
    proof cases
      case 1
      then have "task_kill ident now esp t = Some (-2, esp, t)"
        using c(1,2) loop Some by (simp add: task_kill_def table_ok_def)
      with 1 i inv show ?thesis by (intro exI [of _ "-2"] exI [of _ esp] exI [of _ t]) auto
    next
      case 2
      from block_current_ok [OF inv c(1), of ?x now esp] 2 obtain e t' n where
        y: "task_yield now esp (t\<lparr>tasks := (tasks t)[c := ?x]\<rparr>) = Some (e, t')" "task_inv m t' L"
        "current t' = Some n" "n = c \<longrightarrow> c = 0 \<or> tk_state (interrupted now esp c ((tasks t)[c := ?x]) ! c) = TASK_READY"
        "\<forall>j<16. (tk_state (tasks t' ! j) = TASK_DEAD) = (tk_state ((tasks t)[c := ?x] ! j) = TASK_DEAD)"
        by auto
      have "tk_state (interrupted now esp c ((tasks t)[c := ?x]) ! c) = TASK_DEAD"
        using c(5) 2 by (simp add: interrupted_def wake_def)
      with y(4) 2 have "n \<noteq> c" by auto
      moreover have "task_kill ident now esp t = Some (0, e, t')"
        using c(1,2) loop Some 2 y(1) by (simp add: task_kill_def table_ok_def)
      moreover have "tk_state (tasks t' ! i) = TASK_DEAD" using y(5) i(5) 2 c(5) by simp
      ultimately show ?thesis using y(2,3) i 2 by (intro exI [of _ 0] exI [of _ e] exI [of _ t']) auto
    next
      case 3
      let ?t = "t\<lparr>tasks := (tasks t)[i := ?x]\<rparr>"
      have il: "i < length (tasks t)" using i(5) c(6) by simp
      have "task_kill ident now esp t = Some (0, esp, ?t)"
        using c(1,2) loop Some 3 by (simp add: task_kill_def table_ok_def)
      moreover have "task_inv m ?t L" by (rule mark_dead [OF inv i(1)]) (use 3 c(1) in auto)
      ultimately show ?thesis using i 3 il c(1)
        by (intro exI [of _ 0] exI [of _ esp] exI [of _ ?t]) auto
    qed
  qed
qed

section \<open>Reaping\<close>

lemma ring_remove:
  assumes r: "ring T c (ds @ a # as)" and x: "tk_state x = TASK_UNUSED"
  defines "p \<equiv> last (c # ds)"
  shows "list_remove a T = Some (T[p := (T ! p)\<lparr>tk_next := tk_next (T ! a)\<rparr>, a := (T ! a)\<lparr>tk_next := None\<rparr>]) \<and>
    p \<noteq> a \<and> p < length T \<and> a < length T \<and>
    ring (T[p := (T ! p)\<lparr>tk_next := tk_next (T ! a)\<rparr>, a := x]) c (ds @ as)"
proof -
  have l: "links T (c # ds @ a # as) c" and d: "distinct (c # ds @ a # as)" and u: "set (c # ds @ a # as) = used T"
    using r by (simp_all add: ring_def)
  obtain us where us: "c # ds = us @ [p]" unfolding p_def by (metis append_butlast_last_id list.distinct(1))
  have pin: "p \<in> set (c # ds)" using us by auto
  have pa: "p \<noteq> a" using pin d by auto
  have "p \<in> used T" "a \<in> used T" using pin u by auto
  then have pl: "p < length T" "a < length T" "tk_state (T ! p) \<noteq> TASK_UNUSED" by (simp_all add: used_def)
  have l1: "links T (c # ds) a" and l2: "links T (a # as) c"
    using l links_append [of T "c # ds" "a # as" c] by simp_all
  have "ring T a (as @ c # ds)" using ring_rotate [OF r, of "c # ds" a as] by simp
  then have "links T (a # as @ c # ds) a" "a \<notin> set (as @ c # ds)" by (simp_all add: ring_def)
  from ring_prev_links [OF this] have "ring_prev T a a = Some p" unfolding p_def by simp
  then have rm: "list_remove a T = Some (T[p := (T ! p)\<lparr>tk_next := tk_next (T ! a)\<rparr>, a := (T ! a)\<lparr>tk_next := None\<rparr>])"
    using pl pa by (simp add: list_remove_def)
  let ?T = "T[p := (T ! p)\<lparr>tk_next := tk_next (T ! a)\<rparr>, a := x]"
  have dis: "p \<notin> set us" "a \<notin> set us" "p \<notin> set as" "a \<notin> set as"
    using d us by (auto simp: Cons_eq_append_conv)
  have "links T us p" using l1 unfolding us links_append by simp
  then have "links ?T us p" using dis by simp
  moreover have "links ?T [p] (hd (as @ [c]))" using l2 pl pa by simp
  ultimately have "links ?T (c # ds) (hd (as @ [c]))" unfolding us links_append by simp
  moreover have "links ?T as c" using l2 dis by simp
  ultimately have "links ?T (c # ds @ as) c" using links_append [of ?T "c # ds" as c] by simp
  moreover have "used ?T = used T - {a}" using pl pa x by (auto simp: used_def nth_list_update split: if_splits)
  ultimately show ?thesis using rm pa pl d u by (auto simp: ring_def)
qed

definition dead_stacks :: "task list \<Rightarrow> nat list \<Rightarrow> ptr set" where
  "dead_stacks T is = (\<lambda>i. tk_stack (T ! i)) ` {i \<in> set is. tk_state (T ! i) = TASK_DEAD}"

lemma dead_stacks_cong:
  "(\<And>i. i \<in> set is \<Longrightarrow> T' ! i = T ! i) \<Longrightarrow> dead_stacks T' is = dead_stacks T is"
  unfolding dead_stacks_def by (rule image_cong) auto

lemma stacks_ok_remove:
  assumes st: "stacks_ok T L" and a: "a \<in> used T" "a \<noteq> 0"
    and u: "used T' = used T - {a}" and same: "\<And>j. j \<noteq> a \<Longrightarrow> tk_stack (T' ! j) = tk_stack (T ! j)"
  shows "stacks_ok T' (L(tk_stack (T ! a) := None))"
  unfolding stacks_ok_def
proof (intro conjI ballI)
  show "tk_stack (T' ! 0) = NULL" using stacks_idle [OF st] same [of 0] a(2) by simp
  fix j assume j: "j \<in> used T' - {0}"
  then have j': "j \<in> used T" "j \<noteq> 0" "j \<noteq> a" using u by auto
  with stacks_inj [OF st j'(1) a(1)] a(2) have "tk_stack (T ! j) \<noteq> tk_stack (T ! a)" by auto
  with stacks_live [OF st j'(1,2)] same [OF j'(3)]
  show "\<exists>k. (L(tk_stack (T ! a) := None)) (tk_stack (T' ! j)) = Some k \<and> unat TASK_STACK_SIZE \<le> k" by simp
next
  show "inj_on (\<lambda>i. tk_stack (T' ! i)) (used T' - {0})"
  proof (rule inj_onI)
    fix i j assume ij: "i \<in> used T' - {0}" "j \<in> used T' - {0}" "tk_stack (T' ! i) = tk_stack (T' ! j)"
    then have "i \<in> used T" "j \<in> used T" "i \<noteq> 0" "j \<noteq> 0" "i \<noteq> a" "j \<noteq> a" using u by auto
    with stacks_inj [OF st] same ij(3) show "i = j" by metis
  qed
qed

lemma reap_loop_ok:
  "ring T c (ds @ as) \<Longrightarrow> mem_holds m L \<Longrightarrow> stacks_ok T L \<Longrightarrow> tk_state (T ! 0) \<noteq> TASK_DEAD \<Longrightarrow>
   \<exists>m' T'. reap_loop c (hd (as @ [c])) m T = Some (m', T') \<and> mem_frame m m' \<and>
     ring T' c (ds @ filter (\<lambda>i. tk_state (T ! i) \<noteq> TASK_DEAD) as) \<and>
     mem_holds m' (L |` (- dead_stacks T as)) \<and> stacks_ok T' (L |` (- dead_stacks T as)) \<and>
     length T' = length T \<and>
     (\<forall>j. j \<in> set as \<and> tk_state (T ! j) = TASK_DEAD \<longrightarrow> tk_state (T' ! j) = TASK_UNUSED) \<and>
     (\<forall>j. j \<notin> set as \<or> tk_state (T ! j) \<noteq> TASK_DEAD \<longrightarrow> (\<exists>n. T' ! j = (T ! j)\<lparr>tk_next := n\<rparr>))"
proof (induction as arbitrary: T m L ds)
  case Nil
  have "\<exists>n. x = x\<lparr>tk_next := n\<rparr>" for x :: task by (rule exI [of _ "tk_next x"]) simp
  moreover have "reap_loop c (hd ([] @ [c])) m T = Some (m, T)" by (simp add: reap_loop.simps)
  moreover have "dead_stacks T [] = {}" by (simp add: dead_stacks_def)
  moreover have "L |` UNIV = L" by (simp add: restrict_map_def)
  ultimately show ?case using Nil
    by (intro exI [of _ m] exI [of _ T]) (simp add: mem_frame_refl)
next
  case (Cons a as)
  note r = Cons.prems(1)
  have d: "distinct (c # ds @ a # as)" and u: "set (c # ds @ a # as) = used T" using r by (simp_all add: ring_def)
  have au: "a \<in> used T" "a < length T" "a \<noteq> c" using u d by (auto simp: used_def)
  have "links T (a # as) c" using r links_append [of T "c # ds" "a # as" c] by (simp add: ring_def)
  then have na: "tk_next (T ! a) = Some (hd (as @ [c]))" by simp
  show ?case
  proof (cases "tk_state (T ! a) = TASK_DEAD")
    case False
    have "ring T c ((ds @ [a]) @ as)" using r by simp
    from Cons.IH [OF this Cons.prems(2-4)] False
    have "\<exists>m' T'. reap_loop c (hd (as @ [c])) m T = Some (m', T') \<and> mem_frame m m' \<and>
       ring T' c (ds @ filter (\<lambda>i. tk_state (T ! i) \<noteq> TASK_DEAD) (a # as)) \<and>
       mem_holds m' (L |` (- dead_stacks T as)) \<and> stacks_ok T' (L |` (- dead_stacks T as)) \<and>
       length T' = length T \<and>
       (\<forall>j. j \<in> set as \<and> tk_state (T ! j) = TASK_DEAD \<longrightarrow> tk_state (T' ! j) = TASK_UNUSED) \<and>
       (\<forall>j. j \<notin> set as \<or> tk_state (T ! j) \<noteq> TASK_DEAD \<longrightarrow> (\<exists>n. T' ! j = (T ! j)\<lparr>tk_next := n\<rparr>))"
      by simp
    moreover have "dead_stacks T (a # as) = dead_stacks T as" using False by (auto simp: dead_stacks_def)
    moreover have "reap_loop c (hd ((a # as) @ [c])) m T = reap_loop c (hd (as @ [c])) m T"
      using au na False by (subst reap_loop.simps) simp
    ultimately show ?thesis using False by auto
  next
    case True
    have a0: "a \<noteq> 0" using True Cons.prems(4) by (cases "a = 0") auto
    define p where "p = last (c # ds)"
    define x where "x = (T ! a)\<lparr>tk_next := None, tk_state := TASK_UNUSED, tk_stack := NULL\<rparr>"
    define T2 where "T2 = T[p := (T ! p)\<lparr>tk_next := tk_next (T ! a)\<rparr>, a := x]"
    have xs: "tk_state x = TASK_UNUSED" by (simp add: x_def)
    from ring_remove [OF r xs, folded p_def] have rm:
      "list_remove a T = Some (T[p := (T ! p)\<lparr>tk_next := tk_next (T ! a)\<rparr>, a := (T ! a)\<lparr>tk_next := None\<rparr>])"
      "p \<noteq> a" "p < length T" "ring T2 c (ds @ as)" unfolding T2_def by blast+
    have pc: "p \<in> set (c # ds)" unfolding p_def by (rule last_in_set) simp
    from stacks_live [OF Cons.prems(3) au(1) a0] obtain k where k: "L (tk_stack (T ! a)) = Some k" by blast
    from kheap.release_law [OF Cons.prems(2) k] obtain m1 where
      m1: "kfree (tk_stack (T ! a)) m = Some (Inr m1)" "mem_frame m m1" "mem_holds m1 (L(tk_stack (T ! a) := None))"
      by blast
    have nz: "tk_stack (T ! a) \<noteq> NULL" using k kheap.null_not_live [OF Cons.prems(2)] by auto
    have T2j: "T2 ! j = (if j = a then x else if j = p then (T ! p)\<lparr>tk_next := tk_next (T ! a)\<rparr> else T ! j)" for j
      using rm(2,3) au(2) unfolding T2_def by (cases "j = a"; cases "j = p") auto
    have u2: "used T2 = used T - {a}"
    proof -
      have "set (c # ds @ as) = used T2" using rm(4) by (simp add: ring_def)
      then show ?thesis using u d by auto
    qed
    have st2: "stacks_ok T2 (L(tk_stack (T ! a) := None))"
      using T2j by (intro stacks_ok_remove [OF Cons.prems(3) au(1) a0 u2]) auto
    have z2: "tk_state (T2 ! 0) \<noteq> TASK_DEAD" using Cons.prems(4) a0 T2j [of 0] by auto
    have asT: "T2 ! j = T ! j" if "j \<in> set as" for j
    proof -
      have "j \<noteq> a" "j \<noteq> p" using that d pc by auto
      then show ?thesis using T2j [of j] by simp
    qed
    have dsT: "dead_stacks T2 as = dead_stacks T as" by (rule dead_stacks_cong) (rule asT)
    have fl: "filter (\<lambda>i. tk_state (T2 ! i) \<noteq> TASK_DEAD) as = filter (\<lambda>i. tk_state (T ! i) \<noteq> TASK_DEAD) (a # as)"
      using asT True by (auto intro!: filter_cong)
    have Lr: "(L(tk_stack (T ! a) := None)) |` (- dead_stacks T as) = L |` (- dead_stacks T (a # as))"
      using True by (auto simp: dead_stacks_def restrict_map_def fun_eq_iff)
    from Cons.IH [OF rm(4) m1(3) st2 z2, unfolded dsT fl Lr] obtain m' T' where
      IH: "reap_loop c (hd (as @ [c])) m1 T2 = Some (m', T')" "mem_frame m1 m'"
      "ring T' c (ds @ filter (\<lambda>i. tk_state (T ! i) \<noteq> TASK_DEAD) (a # as))"
      "mem_holds m' (L |` (- dead_stacks T (a # as)))" "stacks_ok T' (L |` (- dead_stacks T (a # as)))"
      "length T' = length T2"
      "\<forall>j. j \<in> set as \<and> tk_state (T2 ! j) = TASK_DEAD \<longrightarrow> tk_state (T' ! j) = TASK_UNUSED"
      "\<forall>j. j \<notin> set as \<or> tk_state (T2 ! j) \<noteq> TASK_DEAD \<longrightarrow> (\<exists>n. T' ! j = (T2 ! j)\<lparr>tk_next := n\<rparr>)" by blast
    have ow: "T[p := (T ! p)\<lparr>tk_next := tk_next (T ! a)\<rparr>, a := (T ! a)\<lparr>tk_next := None\<rparr>,
        a := ((T ! a)\<lparr>tk_next := None\<rparr>)\<lparr>tk_state := TASK_UNUSED, tk_stack := NULL\<rparr>] = T2"
      by (simp add: T2_def x_def)
    have "reap_loop c (hd ((a # as) @ [c])) m T = reap_loop c (hd (as @ [c])) m1 T2"
      using au na True rm(1) m1(1) nz ow by (subst reap_loop.simps) simp
    moreover have "\<forall>j. j \<in> set (a # as) \<and> tk_state (T ! j) = TASK_DEAD \<longrightarrow> tk_state (T' ! j) = TASK_UNUSED"
    proof (intro allI impI)
      fix j assume j: "j \<in> set (a # as) \<and> tk_state (T ! j) = TASK_DEAD"
      show "tk_state (T' ! j) = TASK_UNUSED"
      proof (cases "j = a")
        case True
        have "a \<notin> set as" using d by simp
        with IH(8) True obtain n where "T' ! j = (T2 ! a)\<lparr>tk_next := n\<rparr>" by blast
        with T2j [of a] xs show ?thesis by simp
      next
        case False
        with j asT [of j] IH(7) show ?thesis by auto
      qed
    qed
    moreover have "\<forall>j. j \<notin> set (a # as) \<or> tk_state (T ! j) \<noteq> TASK_DEAD \<longrightarrow> (\<exists>n. T' ! j = (T ! j)\<lparr>tk_next := n\<rparr>)"
    proof (intro allI impI)
      fix j assume j: "j \<notin> set (a # as) \<or> tk_state (T ! j) \<noteq> TASK_DEAD"
      then have ja: "j \<noteq> a" using True by auto
      have "j \<notin> set as \<or> tk_state (T2 ! j) \<noteq> TASK_DEAD" using j asT [of j] by auto
      with IH(8) obtain n where "T' ! j = (T2 ! j)\<lparr>tk_next := n\<rparr>" by blast
      with T2j [of j] ja show "\<exists>n. T' ! j = (T ! j)\<lparr>tk_next := n\<rparr>" by auto
    qed
    moreover have "length T' = length T" using IH(6) by (simp add: T2_def)
    ultimately show ?thesis using IH(1,3-5) mem_frame_trans [OF m1(2) IH(2)]
      by (intro exI [of _ m'] exI [of _ T']) (simp only: simp_thms)
  qed
qed

lemma task_reap_ok:
  assumes inv: "task_inv m t L" and c: "current t = Some c" "tk_state (tasks t ! c) \<noteq> TASK_DEAD"
  shows "\<exists>m' t'. task_reap m t = Some (m', t') \<and>
    task_inv m' t' (L |` (- dead_stacks (tasks t) [0..<TASK_MAX])) \<and> current t' = current t \<and>
    (\<forall>i<16. if tk_state (tasks t ! i) = TASK_DEAD then tk_state (tasks t' ! i) = TASK_UNUSED
            else \<exists>n. tasks t' ! i = (tasks t ! i)\<lparr>tk_next := n\<rparr>)"
proof -
  have mh: "mem_holds m L" and so: "sched_ok t" and st: "stacks_ok (tasks t) L"
    using inv by (simp_all add: task_inv_def)
  from so c(1) obtain rest where r: "table_ok t" "ring (tasks t) c rest" "c < length (tasks t)" "length (tasks t) = 16"
    "c = 0 \<or> tk_state (tasks t ! c) = TASK_READY" by (auto elim!: sched_okD)
  have z: "tk_state (tasks t ! 0) \<noteq> TASK_DEAD" using r(1) by (simp add: table_ok_def)
  from reap_loop_ok [of "tasks t" c "[]" rest m L] r(2) mh st z obtain m' T' where
    l: "reap_loop c (hd (rest @ [c])) m (tasks t) = Some (m', T')" "ring T' c (filter (\<lambda>i. tk_state (tasks t ! i) \<noteq> TASK_DEAD) rest)"
    "mem_holds m' (L |` (- dead_stacks (tasks t) rest))" "stacks_ok T' (L |` (- dead_stacks (tasks t) rest))"
    "length T' = length (tasks t)"
    "\<forall>j. j \<in> set rest \<and> tk_state (tasks t ! j) = TASK_DEAD \<longrightarrow> tk_state (T' ! j) = TASK_UNUSED"
    "\<forall>j. j \<notin> set rest \<or> tk_state (tasks t ! j) \<noteq> TASK_DEAD \<longrightarrow> (\<exists>n. T' ! j = (tasks t ! j)\<lparr>tk_next := n\<rparr>)" by auto
  have dead: "i \<in> set rest" if "tk_state (tasks t ! i) = TASK_DEAD" "i < 16" for i
    using ring_used [OF r(2), of i] that c(2) r(4) by auto
  have ds: "dead_stacks (tasks t) rest = dead_stacks (tasks t) [0..<TASK_MAX]"
  proof -
    have "{i \<in> set rest. tk_state (tasks t ! i) = TASK_DEAD} = {i \<in> set [0..<TASK_MAX]. tk_state (tasks t ! i) = TASK_DEAD}"
      using dead ring_used [OF r(2)] r(4) by (auto simp: TASK_MAX_def)
    then show ?thesis by (simp only: dead_stacks_def)
  qed
  have run: "task_reap m t = Some (m', t\<lparr>tasks := T'\<rparr>)"
    using c(1) ring_current [OF r(2)] l(1) by (simp add: task_reap_def)
  obtain nc where nc: "T' ! c = (tasks t ! c)\<lparr>tk_next := nc\<rparr>" using l(7) c(2) by blast
  obtain n0 where n0: "T' ! 0 = (tasks t ! 0)\<lparr>tk_next := n0\<rparr>" using l(7) z by blast
  have "sched_ok (t\<lparr>tasks := T'\<rparr>)"
    using r(1,5) l(2,5) c(1) nc n0 unfolding sched_ok_def by (auto simp: table_ok_def)
  then have inv': "task_inv m' (t\<lparr>tasks := T'\<rparr>) (L |` (- dead_stacks (tasks t) [0..<TASK_MAX]))"
    using l(3,4) by (simp add: task_inv_def ds)
  have "\<forall>i<16. if tk_state (tasks t ! i) = TASK_DEAD then tk_state (T' ! i) = TASK_UNUSED
            else \<exists>n. T' ! i = (tasks t ! i)\<lparr>tk_next := n\<rparr>"
    using l(6,7) dead by auto
  with run inv' show ?thesis by (intro exI [of _ m'] exI [of _ "t\<lparr>tasks := T'\<rparr>"]) simp
qed

section \<open>The scheduler as a transition system\<close>

inductive sched_step ::
  "'a mem_state_scheme \<times> sched \<Rightarrow> 'a mem_state_scheme \<times> sched \<Rightarrow> bool" where
  step_spawn: "task_spawn boot nm entry arg m t = Some (r, m', t') \<Longrightarrow> sched_step (m, t) (m', t')"
| step_tick: "task_account_tick t = Some t' \<Longrightarrow> sched_step (m, t) (m, t')"
| step_schedule: "task_schedule now esp t = Some (e, t') \<Longrightarrow> sched_step (m, t) (m, t')"
| step_sleep: "task_sleep_ms ms now now' esp t = Some (e, t') \<Longrightarrow> sched_step (m, t) (m, t')"
| step_exit: "task_exit now esp t = Some (e, t') \<Longrightarrow> sched_step (m, t) (m, t')"
| step_kill: "task_kill ident now esp t = Some (res, e, t') \<Longrightarrow> sched_step (m, t) (m, t')"
| step_reap: "current t = idle t \<Longrightarrow> task_reap m t = Some (m', t') \<Longrightarrow> sched_step (m, t) (m', t')"

inductive_cases sched_stepE: "sched_step (m, t) (m', t')"

lemma task_tick_ok:
  assumes inv: "task_inv m t L"
  shows "\<exists>t'. task_account_tick t = Some t' \<and> task_inv m t' L"
proof -
  have mh: "mem_holds m L" and so: "sched_ok t" and st: "stacks_ok (tasks t) L"
    using inv by (simp_all add: task_inv_def)
  from so obtain c rest where c: "table_ok t" "current t = Some c" "ring (tasks t) c rest"
    "c = 0 \<or> tk_state (tasks t ! c) = TASK_READY" "c < length (tasks t)" "length (tasks t) = 16"
    by (rule sched_okD)
  let ?x = "(tasks t ! c)\<lparr>tk_cpu_ticks := tk_cpu_ticks (tasks t ! c) + 1\<rparr>"
  let ?t = "t\<lparr>tasks := (tasks t)[c := ?x]\<rparr>"
  have "task_account_tick t = Some ?t" using c(1,2,5) by (simp add: task_account_tick_def table_ok_def)
  moreover have "ring (tasks ?t) c rest" using ring_upd [OF c(3,5), of ?x] by simp
  then have "sched_ok ?t"
    using c unfolding sched_ok_def table_ok_def
    by (intro conjI exI [of _ c] exI [of _ rest]) (auto simp: nth_list_update)
  moreover have "stacks_ok (tasks ?t) L" using stacks_ok_upd [OF st c(5), of ?x] by simp
  ultimately show ?thesis using mh by (auto simp: task_inv_def)
qed

lemma task_reap_idle_ok:
  assumes inv: "task_inv m t L" and c: "current t = idle t"
  shows "\<exists>m' t'. task_reap m t = Some (m', t') \<and> task_inv m' t' (L |` (- dead_stacks (tasks t) [0..<TASK_MAX]))"
proof -
  from inv have "idle t = Some 0" "tk_state (tasks t ! 0) \<noteq> TASK_DEAD"
    by (auto simp: task_inv_def sched_ok_def table_ok_def)
  with task_reap_ok [OF inv, of 0] c show ?thesis by auto
qed

lemma sched_step_inv:
  assumes step: "sched_step (m, t) (m', t')" and inv: "task_inv m t L"
  shows "\<exists>L'. task_inv m' t' L'"
proof (rule sched_stepE [OF step])
  fix boot nm entry arg r
  assume "task_spawn boot nm entry arg m t = Some (r, m', t')"
  with task_spawn_ok [OF inv, of boot nm entry arg] inv show ?thesis by (cases r) auto
next
  assume "task_account_tick t = Some t'" "m' = m"
  with task_tick_ok [OF inv] show ?thesis by auto
next
  fix now esp e
  assume "task_schedule now esp t = Some (e, t')" "m' = m"
  with task_schedule_ok [OF inv, of now esp] show ?thesis by auto
next
  fix ms now now' esp e
  assume "task_sleep_ms ms now now' esp t = Some (e, t')" "m' = m"
  with task_sleep_ok [OF inv, of ms now now' esp] show ?thesis by auto
next
  fix now esp e
  assume x: "task_exit now esp t = Some (e, t')" "m' = m"
  then have "current t \<noteq> idle t" by (auto simp: task_exit_def)
  from task_exit_ok [OF inv this, of now esp] x show ?thesis by auto
next
  fix ident now esp res e
  assume "task_kill ident now esp t = Some (res, e, t')" "m' = m"
  with task_kill_ok [OF inv, of ident now esp] show ?thesis by auto
next
  assume "current t = idle t" "task_reap m t = Some (m', t')"
  with task_reap_idle_ok [OF inv] show ?thesis by auto
qed

section \<open>Round robin\<close>

fun run_schedules :: "(u64 \<times> u32) list \<Rightarrow> sched \<Rightarrow> sched option" where
  "run_schedules [] t = Some t"
| "run_schedules (ev # evs) t =
     (case task_schedule (fst ev) (snd ev) t of None \<Rightarrow> None | Some (e, t') \<Rightarrow> run_schedules evs t')"

lemma ring_turn:
  assumes r: "ring T c rest" and o: "rest @ [c] = us @ n # ws"
  shows "ring T n (ws @ us)"
proof (cases rest)
  case Nil
  with o have "us = []" "n = c" "ws = []" by (auto simp: Cons_eq_append_conv append_eq_Cons_conv)
  with r Nil show ?thesis by simp
next
  case (Cons a as)
  with r have "ring T a (as @ [c])" using ring_rotate [OF r, of "[c]" a as] by simp
  with Cons o show ?thesis using ring_rotate [of T a "as @ [c]" us n ws] by simp
qed

lemma find_append: "find P (xs @ ys) = (case find P xs of None \<Rightarrow> find P ys | Some x \<Rightarrow> Some x)"
  by (induction xs) auto

lemma fair_turn:
  "table_ok t \<Longrightarrow> current t = Some c \<Longrightarrow> ring (tasks t) c rest \<Longrightarrow> rest @ [c] = xs @ i # ys \<Longrightarrow>
   i \<noteq> 0 \<Longrightarrow> tk_state (tasks t ! i) = TASK_READY \<Longrightarrow> length xs < length evs \<Longrightarrow>
   \<exists>k t'. 0 < k \<and> k \<le> Suc (length xs) \<and> run_schedules (take k evs) t = Some t' \<and> current t' = Some i"
proof (induction evs arbitrary: t c rest xs ys)
  case Nil
  then show ?case by simp
next
  case (Cons ev evs)
  note r = Cons.prems(3) and o = Cons.prems(4)
  let ?T = "interrupted (fst ev) (snd ev) c (tasks t)"
  have cl: "c < length (tasks t)" using ring_current [OF r] by simp
  note f = interrupted_facts [OF cl, where now = "fst ev" and esp = "snd ev"]
  have "i \<in> set (c # rest)" using arg_cong [OF o, of set] by auto
  then have il: "i < length (tasks t)" using ring_used [OF r] by blast
  have "runnable ?T (Some 0) i" using Cons.prems(5,6) f(5) [OF il] by (simp add: runnable_def)
  then have nx: "next_of ?T (Some 0) (xs @ i # ys) =
      Some (case find (runnable ?T (Some 0)) xs of None \<Rightarrow> i | Some n \<Rightarrow> n)"
    by (simp add: next_of_def find_append split: option.split)
  from task_schedule_run [OF Cons.prems(1-3), where now = "fst ev" and esp = "snd ev"] obtain n t' where
    n: "next_of ?T (Some 0) (rest @ [c]) = Some n" "n \<in> set (c # rest)"
    "task_schedule (fst ev) (snd ev) t = Some (tk_esp (?T ! n), t')"
    "t' = t\<lparr>tasks := (if n = c then ?T else ?T[n := (?T ! n)\<lparr>tk_switches := tk_switches (?T ! n) + 1\<rparr>]),
            current := Some n\<rparr>" by blast
  show ?case
  proof (cases "find (runnable ?T (Some 0)) xs")
    case None
    with nx n(1) o have "n = i" by simp
    with n(3,4) have "run_schedules (take 1 (ev # evs)) t = Some t'" "current t' = Some i" by simp_all
    then show ?thesis by (intro exI [of _ 1] exI [of _ t']) simp
  next
    case (Some x)
    with nx n(1) o have "n = x" by simp
    with find_SomeD [OF Some] have "n \<in> set xs" by simp
    then obtain us vs where xs: "xs = us @ n # vs" by (meson split_list)
    have "distinct (rest @ [c])" using ring_order [OF r] by simp
    with o xs have nc: "n \<noteq> c" by (cases ys rule: rev_cases) auto
    have rT: "ring ?T c rest" by (rule ring_interrupted [OF r])
    have nl: "n < length ?T" using n(2) ring_used [OF rT] by blast
    have "ring (tasks t') c rest"
      using n(4) nc ring_upd [OF rT nl, of "(?T ! n)\<lparr>tk_switches := tk_switches (?T ! n) + 1\<rparr>"] by simp
    from ring_turn [OF this, of us n "vs @ i # ys"] o xs
    have r': "ring (tasks t') n ((vs @ i # ys) @ us)" by simp
    have stn: "tk_state (tasks t' ! j) = tk_state (?T ! j)" for j
      using n(4) nl nc by (cases "j = n") auto
    have l16: "length (tasks t) = 16" using Cons.prems(1) by (simp add: table_ok_def TASK_MAX_def)
    have "table_ok t'"
      using Cons.prems(1) n(4) f(1) f(3) [of 0] f(4) [of 0] stn l16 by (simp add: table_ok_def)
    moreover have "current t' = Some n" using n(4) by simp
    moreover have "((vs @ i # ys) @ us) @ [n] = vs @ i # (ys @ us @ [n])" by simp
    moreover have "tk_state (tasks t' ! i) = TASK_READY" using stn f(5) [OF il] Cons.prems(6) by simp
    moreover have "length vs < length evs" using Cons.prems(7) xs by simp
    ultimately obtain k u where k: "0 < k" "k \<le> Suc (length vs)" "run_schedules (take k evs) t' = Some u"
      "current u = Some i" using Cons.IH [of t' n _ vs "ys @ us @ [n]"] r' Cons.prems(5) by blast
    then have "run_schedules (take (Suc k) (ev # evs)) t = Some u" using n(3) by simp
    with k xs show ?thesis by (intro exI [of _ "Suc k"] exI [of _ u]) simp
  qed
qed

lemma run_schedules_inv:
  "task_inv m t L \<Longrightarrow> \<exists>t'. run_schedules evs t = Some t' \<and> task_inv m t' L"
proof (induction evs arbitrary: t)
  case Nil
  then show ?case by simp
next
  case (Cons ev evs)
  from task_schedule_ok [OF Cons.prems, of "fst ev" "snd ev"] obtain e t1 where
    "task_schedule (fst ev) (snd ev) t = Some (e, t1)" "task_inv m t1 L" by blast
  with Cons.IH [OF this(2)] show ?case by simp
qed

text \<open>A dead task stays dead, and is never the current one.\<close>

lemma dead_not_current:
  assumes "task_inv m t L" "tk_state (tasks t ! c) = TASK_DEAD" shows "current t \<noteq> Some c"
proof
  assume "current t = Some c"
  with assms have "c = 0 \<or> tk_state (tasks t ! c) = TASK_READY" "tk_state (tasks t ! 0) \<noteq> TASK_DEAD"
    by (auto simp: task_inv_def sched_ok_def table_ok_def)
  with assms(2) show False by (cases "c = 0") auto
qed

lemma dead_stays:
  "task_inv m t L \<Longrightarrow> c < 16 \<Longrightarrow> tk_state (tasks t ! c) = TASK_DEAD \<Longrightarrow>
     \<exists>t'. run_schedules evs t = Some t' \<and> task_inv m t' L \<and> tk_state (tasks t' ! c) = TASK_DEAD"
proof (induction evs arbitrary: t)
  case Nil
  then show ?case by simp
next
  case (Cons ev evs)
  have mh: "mem_holds m L" and so: "sched_ok t" and st: "stacks_ok (tasks t) L"
    using Cons.prems(1) by (simp_all add: task_inv_def)
  from so obtain a rest where "table_ok t" "current t = Some a" "ring (tasks t) a rest" by (rule sched_okD)
  from schedule_table [OF this st, of "fst ev" "snd ev"] obtain e t1 where
    t1: "task_schedule (fst ev) (snd ev) t = Some (e, t1)" "sched_ok t1" "stacks_ok (tasks t1) L"
    "\<forall>j<16. (tk_state (tasks t1 ! j) = TASK_DEAD) = (tk_state (tasks t ! j) = TASK_DEAD)" by blast
  then have "task_inv m t1 L" "tk_state (tasks t1 ! c) = TASK_DEAD" using mh Cons.prems(2,3) by (auto simp: task_inv_def)
  from Cons.IH [OF this(1) Cons.prems(2) this(2)] t1(1) show ?case by simp
qed

text \<open>A sleeping task whose time has not come stays asleep.\<close>

lemma schedule_keeps_sleeper:
  assumes ok: "table_ok t" "current t = Some a" "ring (tasks t) a rest"
    and run: "task_schedule now esp t = Some (e, t')"
    and j: "j < 16" "tk_state (tasks t ! j) = TASK_SLEEPING" "now < tk_wake_at (tasks t ! j)"
  shows "tk_state (tasks t' ! j) = TASK_SLEEPING \<and> tk_wake_at (tasks t' ! j) = tk_wake_at (tasks t ! j)"
proof -
  let ?T = "interrupted now esp a (tasks t)"
  from task_schedule_run [OF ok, where now = now and esp = esp] run obtain n where n:
    "n \<in> set (a # rest)"
    "t' = t\<lparr>tasks := (if n = a then ?T else ?T[n := (?T ! n)\<lparr>tk_switches := tk_switches (?T ! n) + 1\<rparr>]),
            current := Some n\<rparr>" by auto
  have "a < length (tasks t)" "length (tasks t) = 16"
    using ring_current [OF ok(3)] ok(1) by (simp_all add: table_ok_def TASK_MAX_def)
  then have "tk_state (?T ! j) = TASK_SLEEPING" "tk_wake_at (?T ! j) = tk_wake_at (tasks t ! j)" "length ?T = 16"
    using j by (cases "j = a"; simp add: interrupted_def wake_def)+
  then show ?thesis using n(2) j(1) by (cases "n = a"; cases "j = n") simp_all
qed

lemma sleeper_not_current:
  "task_inv m t L \<Longrightarrow> c \<noteq> 0 \<Longrightarrow> tk_state (tasks t ! c) = TASK_SLEEPING \<Longrightarrow> current t \<noteq> Some c"
  by (auto simp: task_inv_def sched_ok_def)

lemma sleeper_stays:
  "task_inv m t L \<Longrightarrow> c < 16 \<Longrightarrow> tk_state (tasks t ! c) = TASK_SLEEPING \<Longrightarrow> tk_wake_at (tasks t ! c) = d \<Longrightarrow>
     \<forall>ev\<in>set evs. fst ev < d \<Longrightarrow>
     \<exists>t'. run_schedules evs t = Some t' \<and> task_inv m t' L \<and> tk_state (tasks t' ! c) = TASK_SLEEPING"
proof (induction evs arbitrary: t)
  case Nil
  then show ?case by simp
next
  case (Cons ev evs)
  from Cons.prems(1) obtain a rest where a: "table_ok t" "current t = Some a" "ring (tasks t) a rest"
    by (auto simp: task_inv_def elim: sched_okD)
  from task_schedule_ok [OF Cons.prems(1), of "fst ev" "snd ev"] obtain e t1 where
    t1: "task_schedule (fst ev) (snd ev) t = Some (e, t1)" "task_inv m t1 L" by blast
  from schedule_keeps_sleeper [OF a t1(1) Cons.prems(2,3)] Cons.prems(4,5)
  have "tk_state (tasks t1 ! c) = TASK_SLEEPING" "tk_wake_at (tasks t1 ! c) = d" by simp_all
  from Cons.IH [OF t1(2) Cons.prems(2) this] Cons.prems(5) t1(1) show ?case by simp
qed

lemma task_sleep_asleep:
  assumes inv: "task_inv m t L" and c: "current t = Some c" and d: "now' < sleep_deadline now ms"
  shows "\<exists>e t'. task_sleep_ms ms now now' esp t = Some (e, t') \<and> task_inv m t' L \<and>
    tk_state (tasks t' ! c) = TASK_SLEEPING \<and> tk_wake_at (tasks t' ! c) = sleep_deadline now ms"
proof -
  from inv c obtain rest where r: "table_ok t" "ring (tasks t) c rest" "c < length (tasks t)" "length (tasks t) = 16"
    by (auto simp: task_inv_def elim!: sched_okD)
  let ?x = "(tasks t ! c)\<lparr>tk_wake_at := sleep_deadline now ms, tk_state := TASK_SLEEPING\<rparr>"
  let ?t = "t\<lparr>tasks := (tasks t)[c := ?x]\<rparr>"
  from task_sleep_ok [OF inv, of ms now now' esp] obtain e t' where
    s: "task_sleep_ms ms now now' esp t = Some (e, t')" "task_inv m t' L" by blast
  have st: "started t" "task_get (tasks t) (Some c) = Some (tasks t ! c)" using r by (simp_all add: table_ok_def task_get_def)
  then have run: "task_schedule now' esp ?t = Some (e, t')" using s(1) c by (simp add: task_sleep_ms_def task_yield_def)
  have "tk_state (tasks t ! c) \<noteq> TASK_UNUSED" using ring_used [OF r(2), of c] by simp
  then have "ring (tasks ?t) c rest" using ring_upd [OF r(2,3), of ?x] by simp
  moreover have "table_ok ?t" using r(1,3) by (cases "c = 0") (auto simp: table_ok_def)
  ultimately show ?thesis
    using schedule_keeps_sleeper [of ?t c rest now' esp e t' c] run c s d r(3,4) by simp
qed

section \<open>A concrete table\<close>

definition no_sched :: sched where
  "no_sched = \<lparr>tasks = [], current = None, idle = None, started = False, next_id = 0, frames = Map.empty\<rparr>"

lemma boot_tasks: "task_inv boot_mem (task_init no_sched) Map.empty"
  by (rule task_init_ok [OF boot_mem_holds])

lemma boot_stack: "kmalloc TASK_STACK_SIZE boot_mem \<noteq> Some (0, boot_mem)"
proof -
  have "map_option fst (kmalloc TASK_STACK_SIZE boot_mem) \<noteq> Some 0" by code_simp
  then show ?thesis by auto
qed

lemma demo_tasks:
  "\<exists>(m :: mem_state) t L i. task_inv m t L \<and> current t = Some 0 \<and> i \<noteq> 0 \<and> i < 16 \<and>
     tk_state (tasks t ! i) = TASK_READY"
proof -
  have init: "tk_state (tasks (task_init no_sched) ! 1) = TASK_UNUSED"
    "tk_state (tasks (task_init no_sched) ! 0) = TASK_READY" "current (task_init no_sched) = Some 0"
    by (simp_all add: task_init_def TASK_MAX_def zero_task_def)
  from task_spawn_ok [OF boot_tasks, of 0 "''session''" 0 0] obtain r and m :: mem_state and t where
    s: "task_spawn 0 ''session'' 0 0 boot_mem (task_init no_sched) = Some (r, m, t)"
    "r = None \<longrightarrow> (\<forall>i<16. tk_state (tasks (task_init no_sched) ! i) \<noteq> TASK_UNUSED) \<or>
       kmalloc TASK_STACK_SIZE boot_mem = Some (0, boot_mem)"
    "\<And>i. r = Some i \<Longrightarrow> i < 16 \<and> tk_state (tasks (task_init no_sched) ! i) = TASK_UNUSED \<and>
       current t = current (task_init no_sched) \<and> tk_state (tasks t ! i) = TASK_READY \<and> (\<exists>L. task_inv m t L)"
    by (fastforce split: option.splits)
  have "r \<noteq> None" using s(2) init(1) boot_stack by auto
  then obtain i where i: "r = Some i" by auto
  from s(3) [OF i] obtain L where L: "task_inv m t L" by blast
  have "i \<noteq> 0" using s(3) [OF i] init(2) by (cases "i = 0") auto
  moreover have "current t = Some 0" "i < 16" "tk_state (tasks t ! i) = TASK_READY" using s(3) [OF i] init(3) by simp_all
  ultimately show ?thesis using L by blast
qed

lemma used_ready: "task_inv m t L \<Longrightarrow> i < 16 \<Longrightarrow> tk_state (tasks t ! i) = TASK_READY \<Longrightarrow> i \<in> used (tasks t)"
  by (auto simp: task_inv_def sched_ok_def table_ok_def TASK_MAX_def used_def)

lemma fair_ring:
  assumes inv: "task_inv m t L" and i: "i < 16" "i \<noteq> 0" "tk_state (tasks t ! i) = TASK_READY"
    and evs: "length evs = 16"
  shows "\<exists>k t'. 0 < k \<and> k \<le> 16 \<and> run_schedules (take k evs) t = Some t' \<and> current t' = Some i"
proof -
  from inv obtain c rest where c: "table_ok t" "current t = Some c" "ring (tasks t) c rest" "length (tasks t) = 16"
    by (auto simp: task_inv_def elim: sched_okD)
  have "set (rest @ [c]) = used (tasks t)" using c(3) by (auto simp: ring_def)
  with used_ready [OF inv i(1,3)] obtain xs ys where o: "rest @ [c] = xs @ i # ys" by (metis split_list)
  have "distinct (rest @ [c])" "set (rest @ [c]) \<subseteq> {..<16}"
    using ring_order [OF c(3)] c(3,4) by (auto simp: ring_def used_def)
  then have "length (rest @ [c]) \<le> 16"
    using card_mono [of "{..<16}" "set (rest @ [c])"] distinct_card [of "rest @ [c]"] by simp
  then have "length xs < 16" using o by simp
  with fair_turn [OF c(1-3) o i(2,3), of evs] evs obtain k t' where
    "0 < k" "k \<le> Suc (length xs)" "run_schedules (take k evs) t = Some t'" "current t' = Some i" by auto
  with \<open>length xs < 16\<close> show ?thesis by (intro exI [of _ k] exI [of _ t']) simp
qed

lemma demo_dead:
  "\<exists>(m :: mem_state) t L i. task_inv m t L \<and> current t = Some 0 \<and> i < 16 \<and> tk_state (tasks t ! i) = TASK_DEAD"
proof -
  obtain m :: mem_state and t L i where d: "task_inv m t L" "i \<noteq> 0" "i < 16" "tk_state (tasks t ! i) = TASK_READY"
    "current t = Some 0" using demo_tasks by blast
  have l: "length (tasks t) = 16" using d(1) by (simp add: task_inv_def sched_ok_def table_ok_def TASK_MAX_def)
  let ?t = "t\<lparr>tasks := (tasks t)[i := (tasks t ! i)\<lparr>tk_state := TASK_DEAD\<rparr>]\<rparr>"
  have "task_inv m ?t L" by (rule mark_dead [OF d(1) used_ready [OF d(1,3,4)] d(2)]) (use d(2,5) in simp)
  moreover have "current ?t = Some 0" "tk_state (tasks ?t ! i) = TASK_DEAD" using d(3,5) l by simp_all
  ultimately show ?thesis using d(3) by blast
qed

lemma demo_running:
  "\<exists>(m :: mem_state) t L i. task_inv m t L \<and> current t = Some i \<and> i \<noteq> 0 \<and> i < 16 \<and> idle t = Some 0"
proof -
  obtain m :: mem_state and t L i where d: "task_inv m t L" "i \<noteq> 0" "i < 16" "tk_state (tasks t ! i) = TASK_READY"
    using demo_tasks by blast
  from fair_ring [OF d(1,3,2,4), where evs = "replicate 16 (0, 0)"] obtain k t' where
    k: "run_schedules (take k (replicate 16 (0, 0))) t = Some t'" "current t' = Some i" by auto
  from run_schedules_inv [OF d(1), where evs = "take k (replicate 16 (0, 0))"] k(1) have inv: "task_inv m t' L" by simp
  then have "idle t' = Some 0" by (simp add: task_inv_def sched_ok_def table_ok_def)
  with inv k(2) d(2,3) show ?thesis by blast
qed

lemma sched_steps_inv:
  assumes "sched_step\<^sup>*\<^sup>* x y" "\<exists>L. task_inv (fst x) (snd x) L" shows "\<exists>L. task_inv (fst y) (snd y) L"
  using assms
proof (induction rule: rtranclp_induct)
  case base
  then show ?case .
next
  case (step y z)
  then obtain L where "task_inv (fst y) (snd y) L" by blast
  with step.hyps(2) sched_step_inv [of "fst y" "snd y"] show ?case by (cases y; cases z; force)
qed

section \<open>Properties\<close>

text \<open>Property C5: in every state that the scheduler's operations reach from \<open>task_init\<close>, in any
  order, the run list is one ring of exactly the tasks in use, the current task is ready or
  the idle one, the idle task is alive, and every other task owns a live stack of its own.\<close>

theorem sched_reachable:
  assumes "mem_holds m0 L0" "sched_step\<^sup>*\<^sup>* (m0, task_init t0) (m, t)"
  shows "\<exists>L. task_inv m t L"
  using sched_steps_inv [OF assms(2)] task_init_ok [OF assms(1)] by auto

theorem sched_reachable_witness:
  "\<exists>m t L. sched_step (boot_mem, task_init no_sched) (m, t) \<and> task_inv m t L"
proof -
  from task_schedule_ok [OF boot_tasks, of 5 "0x9000"] obtain e t where
    "task_schedule 5 0x9000 (task_init no_sched) = Some (e, t)" by blast
  then have s: "sched_step (boot_mem, task_init no_sched) (boot_mem, t)" by (rule step_schedule)
  from s have "sched_step\<^sup>*\<^sup>* (boot_mem, task_init no_sched) (boot_mem, t)" by (rule r_into_rtranclp)
  from sched_reachable [OF boot_mem_holds this] s show ?thesis by blast
qed

text \<open>Property C15: every ready task but the idle task gets the processor within one round: after at most
  sixteen calls of \<open>task_schedule\<close>, at whatever times and with whatever stack pointers, it is the
  current task, and each of these calls returns.  The idle task, task 0, is always ready and is resumed only
  when no other task is (\<open>task_schedule_switches\<close>), so nothing is claimed of it here.\<close>

theorem round_robin_fair:
  assumes "task_inv m t L" "i < 16" "i \<noteq> 0" "tk_state (tasks t ! i) = TASK_READY" "length evs = 16"
  shows "\<exists>k t'. 0 < k \<and> k \<le> 16 \<and> run_schedules (take k evs) t = Some t' \<and> current t' = Some i"
  by (rule fair_ring [OF assms])

theorem round_robin_fair_witness:
  "\<exists>(m :: mem_state) t L i k t'. task_inv m t L \<and> tk_state (tasks t ! i) = TASK_READY \<and> i \<noteq> 0 \<and>
     run_schedules (take k (replicate 16 (0, 0))) t = Some t' \<and> current t' = Some i"
proof -
  obtain m :: mem_state and t L i where d: "task_inv m t L" "i \<noteq> 0" "i < 16" "tk_state (tasks t ! i) = TASK_READY"
    using demo_tasks by blast
  from round_robin_fair [OF d(1,3,2,4), where evs = "replicate 16 (0, 0)"] obtain k t' where
    "run_schedules (take k (replicate 16 (0, 0))) t = Some t'" "current t' = Some i" by (auto simp del: take_replicate)
  with d(1,2,4) show ?thesis by blast
qed

text \<open>Property C16: \<open>task_schedule\<close> saves the stack pointer of the interrupted task, wakes every
  sleeper whose deadline has come and no other, and resumes the first ready task after the
  current one in ring order, the idle task when there is none, on the stack pointer that
  task was interrupted with.\<close>

theorem task_schedule_switches:
  assumes "table_ok t" "current t = Some c" "ring (tasks t) c rest"
  shows "\<exists>n t'. next_of (interrupted now esp c (tasks t)) (Some 0) (rest @ [c]) = Some n \<and>
    task_schedule now esp t = Some (tk_esp (interrupted now esp c (tasks t) ! n), t') \<and> current t' = Some n \<and>
    (\<forall>i<16. tk_state (tasks t' ! i) = tk_state (wake now (tasks t ! i)) \<and>
       tk_esp (tasks t' ! i) = (if i = c then esp else tk_esp (tasks t ! i)))"
proof -
  let ?T = "interrupted now esp c (tasks t)"
  from task_schedule_run [OF assms, where now = now and esp = esp] obtain n t' where n:
    "next_of ?T (Some 0) (rest @ [c]) = Some n" "n \<in> set (c # rest)"
    "task_schedule now esp t = Some (tk_esp (?T ! n), t')"
    "t' = t\<lparr>tasks := (if n = c then ?T else ?T[n := (?T ! n)\<lparr>tk_switches := tk_switches (?T ! n) + 1\<rparr>]),
            current := Some n\<rparr>" by blast
  have cl: "c < length (tasks t)" using ring_current [OF assms(3)] by simp
  have l16: "length (tasks t) = 16" using assms(1) by (simp add: table_ok_def TASK_MAX_def)
  have nl: "n < length ?T" using n(2) ring_used [OF ring_interrupted [OF assms(3)]] by blast
  have same: "tk_state (tasks t' ! i) = tk_state (?T ! i)" "tk_esp (tasks t' ! i) = tk_esp (?T ! i)" for i
    using n(4) nl by (cases "i = n"; simp)+
  have "tk_state (?T ! i) = tk_state (wake now (tasks t ! i))" if "i < 16" for i
    using that cl l16 by (cases "i = c") (auto simp: interrupted_def wake_def)
  moreover have "tk_esp (?T ! i) = (if i = c then esp else tk_esp (tasks t ! i))" if "i < 16" for i
    using that cl l16 interrupted_facts(7,8) [OF cl, where now = now and esp = esp] by auto
  ultimately show ?thesis using n(1,3,4) same by auto
qed

theorem task_schedule_switches_witness:
  "\<exists>n t'. task_schedule 5 0x9000 (task_init no_sched) =
     Some (tk_esp (interrupted 5 0x9000 0 (tasks (task_init no_sched)) ! n), t') \<and> current t' = Some n"
proof -
  have inv: "sched_ok (task_init no_sched)" using boot_tasks by (simp add: task_inv_def)
  then obtain c rest where "table_ok (task_init no_sched)" "current (task_init no_sched) = Some c"
    "ring (tasks (task_init no_sched)) c rest" by (rule sched_okD)
  moreover from this have "c = 0" by (simp add: task_init_def)
  ultimately show ?thesis
    using task_schedule_switches [of "task_init no_sched" 0 rest 5 "0x9000"] by auto
qed

text \<open>Property C17: \<open>task_spawn\<close> returns; it fails, changing nothing, exactly when the table is full or
  the heap has no stack left, and otherwise takes an unused slot, gives it a stack no other
  task has, the name cut to 23 characters, the next id, and at the top of that stack the frame
  from which \<open>task_schedule\<close> first resumes it: interrupts enabled, at \<open>task_bootstrap\<close>.\<close>

theorem task_spawn_isolated:
  assumes "task_inv m t L"
  shows "\<exists>r m' t'. task_spawn boot nm entry arg m t = Some (r, m', t') \<and>
    (case r of
       None \<Rightarrow> m' = m \<and> t' = t \<and>
         ((\<forall>i<16. tk_state (tasks t ! i) \<noteq> TASK_UNUSED) \<or> kmalloc TASK_STACK_SIZE m = Some (0, m))
     | Some i \<Rightarrow> i < 16 \<and> tk_state (tasks t ! i) = TASK_UNUSED \<and> current t' = current t \<and>
         (\<exists>stack k. tk_stack (tasks t' ! i) = stack \<and> L stack = None \<and> unat TASK_STACK_SIZE \<le> k \<and>
            task_inv m' t' (L(stack \<mapsto> k)) \<and>
            tk_state (tasks t' ! i) = TASK_READY \<and> tk_name (tasks t' ! i) = take 23 nm \<and>
            tk_entry (tasks t' ! i) = entry \<and> tk_arg (tasks t' ! i) = arg \<and>
            tk_id (tasks t' ! i) = next_id t + 1 \<and>
            tk_esp (tasks t' ! i) = stack + 16312 \<and>
            frames t' (stack + 16312) =
              Some (zero_frame\<lparr>bf_ds := 0x10, bf_cs := 0x08, bf_eip := boot, bf_eflags := 0x202\<rparr>)))"
  using task_spawn_ok [OF assms, of boot nm entry arg] by blast

theorem task_spawn_isolated_witness:
  "\<exists>i (m' :: mem_state) t'. task_spawn 7 ''session'' 1 2 boot_mem (task_init no_sched) = Some (Some i, m', t') \<and>
     tk_name (tasks t' ! i) = ''session'' \<and> tk_entry (tasks t' ! i) = 1"
proof -
  have one16: "(1 :: nat) < 16" by simp
  have free: "tk_state (tasks (task_init no_sched) ! 1) = TASK_UNUSED" by (simp add: task_init_def TASK_MAX_def zero_task_def)
  from task_spawn_isolated [OF boot_tasks, of 7 "''session''" 1 2] obtain r and m' :: mem_state and t' where
    s: "task_spawn 7 ''session'' 1 2 boot_mem (task_init no_sched) = Some (r, m', t')"
    "r = None \<Longrightarrow> (\<forall>i<16. tk_state (tasks (task_init no_sched) ! i) \<noteq> TASK_UNUSED) \<or>
       kmalloc TASK_STACK_SIZE boot_mem = Some (0, boot_mem)"
    "\<And>i. r = Some i \<Longrightarrow> tk_name (tasks t' ! i) = take 23 ''session'' \<and> tk_entry (tasks t' ! i) = 1"
    by (fastforce split: option.splits)
  have "r \<noteq> None" using s(2) free boot_stack one16 by blast
  then obtain i where i: "r = Some i" by auto
  from s(3) [OF i] have "tk_name (tasks t' ! i) = ''session''" "tk_entry (tasks t' ! i) = 1" by simp_all
  with s(1) i show ?thesis by blast
qed

text \<open>Property C18: a task that exits is left for good: \<open>task_exit\<close> returns on another task, and however
  often the scheduler runs after it, it returns and never makes the dead task current again.\<close>

theorem task_exit_final:
  assumes "task_inv m t L" "current t = Some c" "c \<noteq> 0"
  shows "\<exists>e t1 t2. task_exit now esp t = Some (e, t1) \<and> current t1 \<noteq> Some c \<and>
    run_schedules evs t1 = Some t2 \<and> current t2 \<noteq> Some c \<and> task_inv m t2 L"
proof -
  from assms(1) have "idle t = Some 0" by (simp add: task_inv_def sched_ok_def table_ok_def)
  with assms have "current t \<noteq> idle t" by simp
  from task_exit_ok [OF assms(1) this, of now esp] assms(2) obtain e t1 where t1:
    "task_exit now esp t = Some (e, t1)" "task_inv m t1 L" "tk_state (tasks t1 ! c) = TASK_DEAD" by auto
  have "c < 16" using assms(1,2) by (auto simp: task_inv_def elim: sched_okD)
  from dead_stays [OF t1(2) this t1(3), of evs] obtain t2 where
    "run_schedules evs t1 = Some t2" "task_inv m t2 L" "tk_state (tasks t2 ! c) = TASK_DEAD" by blast
  with t1 dead_not_current [OF t1(2,3)] dead_not_current [OF this(2,3)] show ?thesis by blast
qed

theorem task_exit_final_witness:
  "\<exists>(m :: mem_state) t L c e t1. task_inv m t L \<and> current t = Some c \<and> c \<noteq> 0 \<and>
     task_exit 3 0x9000 t = Some (e, t1) \<and> current t1 \<noteq> Some c"
proof -
  obtain m :: mem_state and t L c where d: "task_inv m t L" "current t = Some c" "c \<noteq> 0"
    using demo_running by blast
  from task_exit_final [OF this, of 3 "0x9000" "[]"] d show ?thesis by blast
qed

text \<open>\<open>task_kill\<close> returns for every id: -1, changing nothing, when no task that is alive
  has the id, -2, changing nothing, for the idle task, and otherwise it marks one task with the
  id dead and, when that is the caller itself, switches away from it.\<close>

theorem task_kill_result:
  assumes "task_inv m t L"
  shows "\<exists>res e t'. task_kill ident now esp t = Some (res, e, t') \<and> task_inv m t' L \<and>
    (res = -1 \<and> t' = t \<and> e = esp \<and>
       (\<forall>i\<in>used (tasks t). tk_id (tasks t ! i) = ident \<longrightarrow> tk_state (tasks t ! i) = TASK_DEAD) \<or>
     (\<exists>i\<in>used (tasks t). tk_id (tasks t ! i) = ident \<and> tk_state (tasks t ! i) \<noteq> TASK_DEAD \<and>
       (i = 0 \<and> res = -2 \<and> t' = t \<and> e = esp \<or>
        i \<noteq> 0 \<and> res = 0 \<and> tk_state (tasks t' ! i) = TASK_DEAD \<and> current t' \<noteq> Some i)))"
  by (rule task_kill_ok [OF assms])

theorem task_kill_result_witness:
  "\<exists>res e t'. task_kill 0 3 0x9000 (task_init no_sched) = Some (res, e, t') \<and> res \<noteq> -1"
proof -
  from task_kill_result [OF boot_tasks, of 0 3 "0x9000"] obtain res e t' where
    k: "task_kill 0 3 0x9000 (task_init no_sched) = Some (res, e, t')"
    "res = -1 \<longrightarrow> (\<forall>i\<in>used (tasks (task_init no_sched)).
       tk_id (tasks (task_init no_sched) ! i) = 0 \<longrightarrow> tk_state (tasks (task_init no_sched) ! i) = TASK_DEAD)"
    by force
  have "0 \<in> used (tasks (task_init no_sched))" "tk_id (tasks (task_init no_sched) ! 0) = 0"
    "tk_state (tasks (task_init no_sched) ! 0) \<noteq> TASK_DEAD"
    by (simp_all add: used_def task_init_def TASK_MAX_def zero_task_def)
  with k show ?thesis by blast
qed

text \<open>Property C19: \<open>task_reap\<close>, which the idle loop calls, returns; it unlinks every dead task from
  the ring, gives its stack back to the heap and makes its slot free for \<open>task_spawn\<close>, and
  leaves every other task and allocation alone.\<close>

theorem task_reap_frees:
  assumes "task_inv m t L" "current t = idle t"
  shows "\<exists>m' t'. task_reap m t = Some (m', t') \<and>
    task_inv m' t' (L |` (- dead_stacks (tasks t) [0..<TASK_MAX])) \<and> current t' = current t \<and>
    (\<forall>i<16. if tk_state (tasks t ! i) = TASK_DEAD then tk_state (tasks t' ! i) = TASK_UNUSED
            else \<exists>n. tasks t' ! i = (tasks t ! i)\<lparr>tk_next := n\<rparr>)"
proof -
  from assms have "current t = Some 0" "tk_state (tasks t ! 0) \<noteq> TASK_DEAD"
    by (simp_all add: task_inv_def sched_ok_def table_ok_def)
  from task_reap_ok [OF assms(1) this] show ?thesis .
qed

theorem task_reap_frees_witness:
  "\<exists>(m :: mem_state) t L c m' t'. task_inv m t L \<and> c < 16 \<and> tk_state (tasks t ! c) = TASK_DEAD \<and>
     task_reap m t = Some (m', t') \<and> tk_state (tasks t' ! c) = TASK_UNUSED"
proof -
  obtain m :: mem_state and t L c where d: "task_inv m t L" "current t = Some 0" "c < 16"
    "tk_state (tasks t ! c) = TASK_DEAD"
    using demo_dead by blast
  then have "current t = idle t" by (simp add: task_inv_def sched_ok_def table_ok_def)
  from task_reap_frees [OF d(1) this] d(3,4) obtain m' t' where
    "task_reap m t = Some (m', t')" "tk_state (tasks t' ! c) = TASK_UNUSED" by fastforce
  with d(1,3,4) show ?thesis by blast
qed

text \<open>A task that goes to sleep is not resumed early: \<open>task_sleep_ms\<close> switches away from
  it, and as long as the timer stays below the deadline, ms / 10 ticks after the call, no
  scheduling makes it current; it stays in the ring, asleep.\<close>

theorem task_sleep_not_early:
  assumes "task_inv m t L" "current t = Some c" "c \<noteq> 0" "now' < sleep_deadline now ms"
    and "\<forall>ev\<in>set evs. fst ev < sleep_deadline now ms"
  shows "\<exists>e t1 t2. task_sleep_ms ms now now' esp t = Some (e, t1) \<and> current t1 \<noteq> Some c \<and>
    run_schedules evs t1 = Some t2 \<and> current t2 \<noteq> Some c \<and> tk_state (tasks t2 ! c) = TASK_SLEEPING \<and>
    task_inv m t2 L"
proof -
  from task_sleep_asleep [OF assms(1,2,4), of esp] obtain e t1 where t1:
    "task_sleep_ms ms now now' esp t = Some (e, t1)" "task_inv m t1 L" "tk_state (tasks t1 ! c) = TASK_SLEEPING"
    "tk_wake_at (tasks t1 ! c) = sleep_deadline now ms" by blast
  have "c < 16" using assms(1,2) by (auto simp: task_inv_def elim: sched_okD)
  from sleeper_stays [OF t1(2) this t1(3,4) assms(5)] obtain t2 where t2:
    "run_schedules evs t1 = Some t2" "task_inv m t2 L" "tk_state (tasks t2 ! c) = TASK_SLEEPING" by blast
  from t1 t2 sleeper_not_current [OF t1(2) assms(3) t1(3)] sleeper_not_current [OF t2(2) assms(3) t2(3)]
  show ?thesis by blast
qed

theorem task_sleep_not_early_witness:
  "\<exists>(m :: mem_state) t L c e t1. task_inv m t L \<and> current t = Some c \<and> c \<noteq> 0 \<and>
     task_sleep_ms 50 100 101 0x9000 t = Some (e, t1) \<and> current t1 \<noteq> Some c"
proof -
  obtain m :: mem_state and t L c where d: "task_inv m t L" "current t = Some c" "c \<noteq> 0"
    using demo_running by blast
  have "sleep_deadline 100 50 = 105" by (simp add: sleep_deadline_def TIMER_HZ_def)
  then have "101 < sleep_deadline 100 50" "\<forall>ev\<in>set [(104, 0 :: u32)]. fst ev < sleep_deadline 100 50" by simp_all
  from task_sleep_not_early [OF d this, of "0x9000"] d show ?thesis by blast
qed

end
