(* ===== verification/Lib_String.thy ===== *)
theory Lib_String
  imports Los_Prelude
begin

text \<open>
  The memory and string routines of \<open>lib/string.c\<close> on a byte-addressed memory, and what they
  compute for NUL-terminated strings and for overlapping areas.  \<open>None\<close> is a scan that never
  meets a terminator.
\<close>

type_synonym ram = "ptr \<Rightarrow> u8"

section \<open>The routines\<close>

subsection \<open>Memory\<close>

primrec memset_loop :: "nat \<Rightarrow> u8 \<Rightarrow> ptr \<Rightarrow> ram \<Rightarrow> ram" where
  "memset_loop 0 v p M = M"
| "memset_loop (Suc n) v p M = memset_loop n v (p + 1) (M(p := v))"

definition memset :: "ptr \<Rightarrow> u32 \<Rightarrow> u32 \<Rightarrow> ram \<Rightarrow> ptr \<times> ram" where
  "memset dst v count M = (dst, memset_loop (unat count) (ucast v) dst M)"

primrec copy_up :: "nat \<Rightarrow> ptr \<Rightarrow> ptr \<Rightarrow> ram \<Rightarrow> ram" where
  "copy_up 0 d s M = M"
| "copy_up (Suc n) d s M = copy_up n (d + 1) (s + 1) (M(d := M s))"

primrec copy_down :: "nat \<Rightarrow> ptr \<Rightarrow> ptr \<Rightarrow> ram \<Rightarrow> ram" where
  "copy_down 0 d s M = M"
| "copy_down (Suc n) d s M = copy_down n (d - 1) (s - 1) (M(d - 1 := M (s - 1)))"

definition memcpy :: "ptr \<Rightarrow> ptr \<Rightarrow> u32 \<Rightarrow> ram \<Rightarrow> ptr \<times> ram" where
  "memcpy dst src count M = (dst, copy_up (unat count) dst src M)"

definition memmove :: "ptr \<Rightarrow> ptr \<Rightarrow> u32 \<Rightarrow> ram \<Rightarrow> ptr \<times> ram" where
  "memmove d s count M =
     (if d = s \<or> count = 0 then (d, M)
      else if d < s then (d, copy_up (unat count) d s M)
      else (d, copy_down (unat count) (d + count) (s + count) M))"

primrec memcmp_loop :: "nat \<Rightarrow> ptr \<Rightarrow> ptr \<Rightarrow> ram \<Rightarrow> int" where
  "memcmp_loop 0 x y M = 0"
| "memcmp_loop (Suc n) x y M =
     (if M x \<noteq> M y then uint (M x) - uint (M y) else memcmp_loop n (x + 1) (y + 1) M)"

definition memcmp :: "ptr \<Rightarrow> ptr \<Rightarrow> u32 \<Rightarrow> ram \<Rightarrow> int" where
  "memcmp a b count M = memcmp_loop (unat count) a b M"

subsection \<open>Strings\<close>

partial_function (option) strlen_loop :: "ram \<Rightarrow> ptr \<Rightarrow> u32 \<Rightarrow> u32 option" where
  "strlen_loop M s n = (if M (s + n) \<noteq> 0 then strlen_loop M s (n + 1) else Some n)"

definition strlen :: "ptr \<Rightarrow> ram \<Rightarrow> u32 option" where
  "strlen s M = strlen_loop M s 0"

partial_function (option) strcmp :: "ptr \<Rightarrow> ptr \<Rightarrow> ram \<Rightarrow> int option" where
  "strcmp a b M =
     (if M a \<noteq> 0 \<and> M a = M b then strcmp (a + 1) (b + 1) M else Some (uint (M a) - uint (M b)))"

primrec strncmp_loop :: "nat \<Rightarrow> ptr \<Rightarrow> ptr \<Rightarrow> ram \<Rightarrow> int" where
  "strncmp_loop 0 a b M = 0"
| "strncmp_loop (Suc n) a b M =
     (if M a \<noteq> 0 \<and> M a = M b then strncmp_loop n (a + 1) (b + 1) M else uint (M a) - uint (M b))"

definition strncmp :: "ptr \<Rightarrow> ptr \<Rightarrow> u32 \<Rightarrow> ram \<Rightarrow> int" where
  "strncmp a b n M = strncmp_loop (unat n) a b M"

partial_function (option) strcpy_loop :: "ptr \<Rightarrow> ptr \<Rightarrow> ram \<Rightarrow> ram option" where
  "strcpy_loop dst src M =
     (let c = M src; M = M(dst := c) in if c \<noteq> 0 then strcpy_loop (dst + 1) (src + 1) M else Some M)"

definition strcpy :: "ptr \<Rightarrow> ptr \<Rightarrow> ram \<Rightarrow> (ptr \<times> ram) option" where
  "strcpy dst src M = do { M \<leftarrow> strcpy_loop dst src M; Some (dst, M) }"

text \<open>Both loops of \<open>strncpy\<close>: copy up to the terminator, then pad.\<close>

primrec strncpy_loop :: "nat \<Rightarrow> ptr \<Rightarrow> ptr \<Rightarrow> ram \<Rightarrow> ram" where
  "strncpy_loop 0 dst src M = M"
| "strncpy_loop (Suc n) dst src M =
     (if M src \<noteq> 0 then strncpy_loop n (dst + 1) (src + 1) (M(dst := M src)) else memset_loop (Suc n) 0 dst M)"

definition strncpy :: "ptr \<Rightarrow> ptr \<Rightarrow> u32 \<Rightarrow> ram \<Rightarrow> ptr \<times> ram" where
  "strncpy dst src n M = (dst, strncpy_loop (unat n) dst src M)"

partial_function (option) find_end :: "ram \<Rightarrow> ptr \<Rightarrow> ptr option" where
  "find_end M p = (if M p \<noteq> 0 then find_end M (p + 1) else Some p)"

definition strcat :: "ptr \<Rightarrow> ptr \<Rightarrow> ram \<Rightarrow> (ptr \<times> ram) option" where
  "strcat dst src M = do { e \<leftarrow> find_end M dst; M \<leftarrow> strcpy_loop e src M; Some (dst, M) }"

partial_function (option) strchr :: "ptr \<Rightarrow> u32 \<Rightarrow> ram \<Rightarrow> ptr option" where
  "strchr s c M =
     (if M s \<noteq> 0 then (if M s = ucast c then Some s else strchr (s + 1) c M)
      else Some (if c = 0 then s else NULL))"

partial_function (option) strrchr_loop :: "ptr \<Rightarrow> u32 \<Rightarrow> ptr \<Rightarrow> ram \<Rightarrow> ptr option" where
  "strrchr_loop s c found M =
     (if M s \<noteq> 0 then strrchr_loop (s + 1) c (if M s = ucast c then s else found) M else Some found)"

definition strrchr :: "ptr \<Rightarrow> u32 \<Rightarrow> ram \<Rightarrow> ptr option" where
  "strrchr s c M = strrchr_loop s c NULL M"

subsection \<open>Splitting a line\<close>

definition is_space :: "u8 \<Rightarrow> bool" where
  "is_space c \<longleftrightarrow> c = 0x20 \<or> c = 0x09"

partial_function (option) clear_spaces :: "ptr \<Rightarrow> ram \<Rightarrow> (ptr \<times> ram) option" where
  "clear_spaces line M = (if is_space (M line) then clear_spaces (line + 1) (M(line := 0)) else Some (line, M))"

partial_function (option) skip_token :: "ptr \<Rightarrow> ram \<Rightarrow> ptr option" where
  "skip_token line M = (if M line \<noteq> 0 \<and> \<not> is_space (M line) then skip_token (line + 1) M else Some line)"

text \<open>\<open>argv\<close> is the part of the array that has been written, so \<open>argc\<close> is its length.\<close>

partial_function (option) split_loop ::
  "int \<Rightarrow> ptr \<Rightarrow> ptr list \<Rightarrow> ram \<Rightarrow> (ptr list \<times> ram) option" where
  "split_loop max_args line argv M =
     (if M line \<noteq> 0 \<and> int (length argv) < max_args
      then do {
        (line, M) \<leftarrow> clear_spaces line M;
        if M line = 0 then Some (argv, M)
        else do {
          line' \<leftarrow> skip_token line M;
          split_loop max_args line' (argv @ [line]) M
        }
      }
      else Some (argv, M))"

declare strlen_loop.simps [code] strcmp.simps [code] strcpy_loop.simps [code] find_end.simps [code]
  strchr.simps [code] strrchr_loop.simps [code] clear_spaces.simps [code] skip_token.simps [code]
  split_loop.simps [code]

definition str_split :: "ptr \<Rightarrow> int \<Rightarrow> ram \<Rightarrow> (int \<times> ptr list \<times> ram) option" where
  "str_split line max_args M = do {
     (argv, M) \<leftarrow> split_loop max_args line [] M;
     Some (int (length argv), argv, M)
   }"

section \<open>Areas and strings in memory\<close>

text \<open>\<open>area M p n\<close> reads the \<open>n\<close> bytes at \<open>p\<close>; \<open>span p n\<close> is the set of their addresses.\<close>

primrec area :: "ram \<Rightarrow> ptr \<Rightarrow> nat \<Rightarrow> u8 list" where
  "area M p 0 = []"
| "area M p (Suc n) = M p # area M (p + 1) n"

primrec span :: "ptr \<Rightarrow> nat \<Rightarrow> ptr set" where
  "span p 0 = {}"
| "span p (Suc n) = insert p (span (p + 1) n)"

primrec cstr :: "ram \<Rightarrow> ptr \<Rightarrow> u8 list \<Rightarrow> bool" where
  "cstr M p [] \<longleftrightarrow> M p = 0"
| "cstr M p (c # cs) \<longleftrightarrow> M p = c \<and> c \<noteq> 0 \<and> cstr M (p + 1) cs"

lemma in_span: "a \<in> span p n \<longleftrightarrow> (\<exists>i<n. a = p + of_nat i)"
proof (induction n arbitrary: p)
  case 0
  then show ?case by simp
next
  case (Suc n)
  have "(\<exists>i<Suc n. a = p + of_nat i) \<longleftrightarrow> a = p \<or> (\<exists>i<n. a = p + 1 + of_nat i)"
    unfolding Ex_less_Suc2 by (simp add: ac_simps)
  with Suc show ?case by simp
qed

lemma span_last: "span p (Suc n) = insert (p + of_nat n) (span p n)"
  by (rule set_eqI) (simp only: in_span insert_iff less_Suc_eq, blast)

lemma span_split: "span p (m + n) = span p m \<union> span (p + of_nat m) n"
  by (induction m arbitrary: p) (auto simp: add.assoc [symmetric])

lemma span_disjoint:
  assumes "m + n \<le> 4294967296" shows "span p m \<inter> span (p + of_nat m) n = {}"
proof -
  have "p + of_nat i \<noteq> p + of_nat m + of_nat j" if "i < m" "j < n" for i j
  proof
    assume "p + of_nat i = p + of_nat m + of_nat j"
    then have "(of_nat i :: u32) = of_nat (m + j)" by (simp add: add.assoc)
    moreover have "i < 4294967296" "m + j < 4294967296" using that assms by simp_all
    ultimately have "i = m + j" by (simp only: of_nat_u32_inject)
    with that show False by simp
  qed
  then show ?thesis by (auto simp: in_span)
qed

lemma notin_span_next: "n < 4294967296 \<Longrightarrow> p \<notin> span (p + 1) (n - 1)"
proof
  assume n: "n < 4294967296" "p \<in> span (p + 1) (n - 1)"
  then obtain i where "i < n - 1" "p = p + 1 + of_nat i" by (auto simp: in_span)
  then have "(of_nat (Suc i) :: u32) = 0" by (simp add: ac_simps)
  with n(1) \<open>i < n - 1\<close> show False by (simp del: of_nat_Suc)
qed

lemma notin_span_tail: "n < 4294967295 \<Longrightarrow> p \<notin> span (p + 1) n"
  using notin_span_next [of "Suc n" p] by simp

lemma area_cong: "(\<And>a. a \<in> span p n \<Longrightarrow> M' a = M a) \<Longrightarrow> area M' p n = area M p n"
  by (induction n arbitrary: p) auto

lemma cstr_cong: "(\<And>a. a \<in> span p (Suc (length cs)) \<Longrightarrow> M' a = M a) \<Longrightarrow> cstr M' p cs = cstr M p cs"
proof (induction cs arbitrary: p)
  case Nil
  then show ?case by simp
next
  case (Cons c cs)
  have "cstr M' (p + 1) cs = cstr M (p + 1) cs" by (rule Cons.IH) (use Cons.prems in simp)
  with Cons.prems [of p] show ?case by simp
qed

lemma cstr_nth: "cstr M p cs \<Longrightarrow> i < length cs \<Longrightarrow> M (p + of_nat i) = cs ! i"
  by (induction cs arbitrary: p i) (auto simp: nth_Cons add.assoc [symmetric] split: nat.splits)

lemma cstr_nonzero: "cstr M p cs \<Longrightarrow> 0 \<notin> set cs"
  by (induction cs arbitrary: p) auto

lemma cstr_end: "cstr M p cs \<Longrightarrow> M (p + of_nat (length cs)) = 0"
  by (induction cs arbitrary: p) (auto simp: add.assoc [symmetric])

lemma cstr_unique: "cstr M p as \<Longrightarrow> cstr M p bs \<Longrightarrow> as = bs"
proof (induction as arbitrary: p bs)
  case Nil
  then show ?case by (cases bs) auto
next
  case (Cons a as)
  then show ?case by (cases bs) auto
qed

lemma cstr_drop: "cstr M p (as @ bs) \<Longrightarrow> cstr M (p + of_nat (length as)) bs"
  by (induction as arbitrary: p) (auto simp: add.assoc [symmetric])

lemma area_conv: "area M p n = map (\<lambda>i. M (p + of_nat i)) [0..<n]"
proof (induction n arbitrary: p)
  case 0
  then show ?case by simp
next
  case (Suc n)
  have "map (\<lambda>i. M (p + of_nat i)) [0..<Suc n] = M p # map (\<lambda>i. M (p + 1 + of_nat i)) [0..<n]"
    unfolding upt_conv_Cons [OF zero_less_Suc] map_Suc_upt [symmetric] by (simp add: add.assoc)
  with Suc show ?case by simp
qed

lemma area_nth [simp]: "i < n \<Longrightarrow> area M p n ! i = M (p + of_nat i)"
  by (simp add: area_conv)

lemma length_area [simp]: "length (area M p n) = n"
  by (simp add: area_conv)

section \<open>Copying\<close>

lemma unat_offset: "unat (p :: u32) + i < 4294967296 \<Longrightarrow> unat (p + of_nat i) = unat p + i"
  using unat_plus_exact [of p "of_nat i"] unat_of_nat_exact [of i] by simp

lemma copy_up_frame: "a \<notin> span d n \<Longrightarrow> copy_up n d s M a = M a"
  by (induction n arbitrary: d s M) auto

lemma copy_up_moves:
  assumes "unat s + n \<le> 4294967296" "d < s" "i < n"
  shows "copy_up n d s M (d + of_nat i) = M (s + of_nat i)"
  using assms
proof (induction n arbitrary: d s M i)
  case 0
  then show ?case by simp
next
  case (Suc n)
  show ?case
  proof (cases i)
    case 0
    have "unat d < unat s" using Suc.prems(2) by (simp add: word_less_nat_alt)
    then have "n < 4294967295" using Suc.prems(1) by simp
    from notin_span_tail [OF this] 0 show ?thesis by (simp add: copy_up_frame)
  next
    case (Suc j)
    have s1: "unat (s + 1) = unat s + 1" using unat_offset [of s 1] Suc.prems(1,3) Suc by simp
    have d1: "unat (d + 1) = unat d + 1"
      using unat_offset [of d 1] Suc.prems(1-3) Suc by (simp add: word_less_nat_alt)
    have lt: "d + 1 < s + 1" using s1 d1 Suc.prems(2) by (simp add: word_less_nat_alt)
    have "unat (s + 1 + of_nat j) = unat s + 1 + j"
      using unat_offset [of "s + 1" j] s1 Suc.prems(1,3) Suc by simp
    then have "s + 1 + of_nat j \<noteq> d" using Suc.prems(2) by (auto simp: word_less_nat_alt)
    moreover have "copy_up n (d + 1) (s + 1) (M(d := M s)) (d + 1 + of_nat j) = (M(d := M s)) (s + 1 + of_nat j)"
      by (rule Suc.IH) (use lt s1 Suc.prems(1,3) Suc in simp_all)
    ultimately show ?thesis using Suc by (simp add: add.assoc)
  qed
qed

lemma copy_down_correct:
  assumes "unat d + n \<le> 4294967296" "s < d"
  shows "copy_down n (d + of_nat n) (s + of_nat n) M a =
    (if a \<in> span d n then M (s + (a - d)) else M a)"
  using assms(1)
proof (induction n arbitrary: M)
  case 0
  then show ?case by simp
next
  case (Suc n)
  let ?M = "M(d + of_nat n := M (s + of_nat n))"
  have p: "d + of_nat (Suc n) - 1 = d + of_nat n" "s + of_nat (Suc n) - 1 = s + of_nat n" by simp_all
  have "copy_down (Suc n) (d + of_nat (Suc n)) (s + of_nat (Suc n)) M a =
      copy_down n (d + of_nat n) (s + of_nat n) ?M a"
    by (simp only: copy_down.simps p)
  also have "\<dots> = (if a \<in> span d n then ?M (s + (a - d)) else ?M a)" by (rule Suc.IH) (use Suc.prems in simp)
  also have "\<dots> = (if a \<in> span d (Suc n) then M (s + (a - d)) else M a)"
  proof (cases "a \<in> span d n")
    case True
    then obtain i where i: "i < n" "a = d + of_nat i" by (auto simp: in_span)
    have "unat s < unat d" using assms(2) by (simp add: word_less_nat_alt)
    then have "unat (s + of_nat i) = unat s + i" "unat (d + of_nat n) = unat d + n"
      using unat_offset [of s i] unat_offset [of d n] Suc.prems i(1) by simp_all
    with \<open>unat s < unat d\<close> i(1) have "s + of_nat i \<noteq> d + of_nat n" by auto
    moreover have "a \<in> span d (Suc n)" using i less_SucI unfolding in_span by blast
    ultimately show ?thesis using True i(2) by simp
  next
    case False
    then show ?thesis unfolding span_last by auto
  qed
  finally show ?case .
qed

lemma memmove_area:
  assumes "unat s + unat count \<le> 4294967296" "unat d + unat count \<le> 4294967296"
  shows "\<exists>M'. memmove d s count M = (d, M') \<and> area M' d (unat count) = area M s (unat count) \<and>
    (\<forall>a. a \<notin> span d (unat count) \<longrightarrow> M' a = M a)"
proof -
  consider "d = s \<or> count = 0" | "d < s" "count \<noteq> 0" | "s < d" "count \<noteq> 0" by fastforce
  then show ?thesis
  proof cases
    case 1
    then show ?thesis by (auto simp: memmove_def)
  next
    case 2
    let ?M = "copy_up (unat count) d s M"
    have "area ?M d (unat count) = area M s (unat count)"
      using copy_up_moves [OF assms(1) 2(1)] by (simp add: area_conv)
    with 2 show ?thesis by (intro exI [of _ ?M]) (auto simp: memmove_def copy_up_frame)
  next
    case 3
    let ?M = "copy_down (unat count) (d + count) (s + count) M"
    have c: "?M a = (if a \<in> span d (unat count) then M (s + (a - d)) else M a)" for a
      using copy_down_correct [OF assms(2) 3(1), of M a] by simp
    then have "area ?M d (unat count) = area M s (unat count)" by (auto simp: area_conv in_span)
    with 3 c show ?thesis by (intro exI [of _ ?M]) (auto simp: memmove_def)
  qed
qed

section \<open>Comparing and measuring\<close>

lemma strlen_loop_cstr:
  "cstr M (s + n) cs \<Longrightarrow> strlen_loop M s n = Some (n + of_nat (length cs))"
proof (induction cs arbitrary: n)
  case Nil
  then show ?case by (subst strlen_loop.simps) simp
next
  case (Cons c cs)
  then have "strlen_loop M s (n + 1) = Some (n + 1 + of_nat (length cs))" by (simp add: add.assoc)
  with Cons.prems show ?case by (subst strlen_loop.simps) simp
qed

lemma strlen_cstr: "cstr M s cs \<Longrightarrow> strlen s M = Some (of_nat (length cs))"
  using strlen_loop_cstr [of M s 0 cs] by (simp add: strlen_def)

text \<open>The order of byte strings that \<open>strcmp\<close> decides.\<close>

fun compares :: "u8 list \<Rightarrow> u8 list \<Rightarrow> int \<Rightarrow> bool" where
  "compares as bs r \<longleftrightarrow> (r = 0 \<longleftrightarrow> as = bs) \<and> (r < 0 \<longleftrightarrow> ord_class.lexordp as bs)"

lemma uint_u8:
  "(uint (a :: u8) = uint b) = (a = b)" "(0 < uint a) = (a \<noteq> 0)" "(uint a = 0) = (a = 0)"
  "a \<noteq> b \<Longrightarrow> (\<not> uint b < uint a) = (uint a < uint b)"
  by (auto simp: word_uint_eq_iff uint_ge_0 order.strict_iff_order less_le)

lemma strcmp_compares:
  "cstr M a as \<Longrightarrow> cstr M b bs \<Longrightarrow> \<exists>r. strcmp a b M = Some r \<and> compares as bs r"
proof (induction as arbitrary: a b bs)
  case Nil
  then show ?case by (subst strcmp.simps) (cases bs; auto simp: uint_u8)
next
  case (Cons c as)
  show ?case
  proof (cases bs)
    case Nil
    with Cons.prems show ?thesis by (subst strcmp.simps) (auto simp: uint_u8)
  next
    case (Cons d ds)
    show ?thesis
    proof (cases "c = d")
      case True
      with Cons.IH [of "a + 1" "b + 1" ds] Cons.prems Cons show ?thesis
        by (subst strcmp.simps) auto
    next
      case False
      with Cons.prems Cons show ?thesis by (subst strcmp.simps) (auto simp: word_less_def uint_u8)
    qed
  qed
qed

lemma strncmp_compares:
  "cstr M a as \<Longrightarrow> cstr M b bs \<Longrightarrow> compares (take n as) (take n bs) (strncmp_loop n a b M)"
proof (induction n arbitrary: a b as bs)
  case 0
  then show ?case by simp
next
  case (Suc n)
  then show ?case
    by (cases as; cases bs) (auto simp: word_less_def uint_u8)
qed

section \<open>Copying strings\<close>

lemma memset_frame: "a \<notin> span p n \<Longrightarrow> memset_loop n v p M a = M a"
  by (induction n arbitrary: p M) auto

lemma memset_inside: "a \<in> span p n \<Longrightarrow> memset_loop n v p M a = v"
proof (induction n arbitrary: p M)
  case 0
  then show ?case by simp
next
  case (Suc n)
  then show ?case by (cases "a \<in> span (p + 1) n") (auto simp: memset_frame)
qed

lemma strncpy_frame: "a \<notin> span dst n \<Longrightarrow> strncpy_loop n dst src M a = M a"
  by (induction n arbitrary: dst src M) (auto simp: memset_frame)

text \<open>A source outside the field: the field gets the first \<open>n\<close> bytes, padded with zeros.\<close>

lemma strncpy_field:
  assumes "cstr M src cs" "span src (Suc (length cs)) \<inter> span dst n = {}" "n < 4294967296"
  shows "area (strncpy_loop n dst src M) dst n = take n cs @ replicate (n - length cs) 0"
  using assms
proof (induction n arbitrary: dst src cs M)
  case 0
  then show ?case by simp
next
  case (Suc n)
  show ?case
  proof (cases cs)
    case Nil
    then have "strncpy_loop (Suc n) dst src M = memset_loop (Suc n) 0 dst M" using Suc.prems(1) by simp
    moreover have "area \<dots> dst (Suc n) = replicate (Suc n) 0"
      by (rule nth_equalityI)
        (auto intro!: memset_inside simp: in_span simp del: area.simps memset_loop.simps span.simps replicate_Suc)
    ultimately show ?thesis using Nil by simp
  next
    case (Cons c ds)
    let ?M = "M(dst := M src)"
    have c: "M src = c" "c \<noteq> 0" "cstr M (src + 1) ds" using Suc.prems(1) Cons by auto
    have "cstr ?M (src + 1) ds"
      by (subst cstr_cong [where M = M]) (use Suc.prems(2) Cons c(3) in auto)
    moreover have "span (src + 1) (Suc (length ds)) \<inter> span (dst + 1) n = {}" using Suc.prems(2) Cons by auto
    ultimately have "area (strncpy_loop n (dst + 1) (src + 1) ?M) (dst + 1) n = take n ds @ replicate (n - length ds) 0"
      by (rule Suc.IH) (use Suc.prems(3) in simp)
    moreover have "dst \<notin> span (dst + 1) n" using notin_span_tail [of n dst] Suc.prems(3) by simp
    ultimately show ?thesis using Cons c by (simp add: strncpy_frame)
  qed
qed

section \<open>Splitting\<close>

lemma cstr_cut:
  "cstr M p (as @ bs) \<Longrightarrow> \<forall>a\<in>span p (length as). M' a = M a \<Longrightarrow> M' (p + of_nat (length as)) = 0 \<Longrightarrow> cstr M' p as"
  by (induction as arbitrary: p) (auto simp: add.assoc [symmetric])

text \<open>The words of a line, at most \<open>n\<close> of them; the last one of the \<open>n\<close> takes the whole rest.\<close>

primrec split_args :: "nat \<Rightarrow> u8 list \<Rightarrow> u8 list list" where
  "split_args 0 cs = []"
| "split_args (Suc n) cs =
     (case dropWhile is_space cs of
        [] \<Rightarrow> []
      | d # ds \<Rightarrow> if n = 0 then [d # ds]
                  else takeWhile (\<lambda>c. \<not> is_space c) (d # ds) #
                       split_args n (dropWhile (\<lambda>c. \<not> is_space c) (d # ds)))"

lemma not_space_zero [simp]: "\<not> is_space 0"
  by (simp add: is_space_def)

lemma clear_spaces_cstr:
  assumes "cstr M p cs" "length cs < 4294967295"
  shows "\<exists>q M'. clear_spaces p M = Some (q, M') \<and> q = p + of_nat (length (takeWhile is_space cs)) \<and>
    cstr M' q (dropWhile is_space cs) \<and>
    (\<forall>a. M' a = (if a \<in> span p (length (takeWhile is_space cs)) then 0 else M a))"
  using assms
proof (induction cs arbitrary: p M)
  case Nil
  then show ?case by (subst clear_spaces.simps) simp
next
  case (Cons c cs)
  show ?case
  proof (cases "is_space c")
    case True
    let ?M = "M(p := 0)"
    have "p \<notin> span (p + 1) (Suc (length cs))" by (rule notin_span_tail) (use Cons.prems(2) in simp)
    then have "cstr ?M (p + 1) cs" by (subst cstr_cong [where M = M]) (use Cons.prems(1) in auto)
    moreover have "length cs < 4294967295" using Cons.prems(2) by simp
    ultimately obtain q M' where r:
      "clear_spaces (p + 1) ?M = Some (q, M')" "q = p + 1 + of_nat (length (takeWhile is_space cs))"
      "cstr M' q (dropWhile is_space cs)"
      "\<forall>a. M' a = (if a \<in> span (p + 1) (length (takeWhile is_space cs)) then 0 else ?M a)"
      using Cons.IH by blast
    have "clear_spaces p M = Some (q, M')"
      using True Cons.prems(1) r(1) by (subst clear_spaces.simps) simp
    moreover have "q = p + of_nat (length (takeWhile is_space (c # cs)))" using r(2) True by (simp add: add.assoc)
    moreover have "\<forall>a. M' a = (if a \<in> span p (length (takeWhile is_space (c # cs))) then 0 else M a)"
      using r(4) True by simp
    moreover have "cstr M' q (dropWhile is_space (c # cs))" using r(3) True by simp
    ultimately show ?thesis by blast
  next
    case False
    with Cons.prems(1) show ?thesis by (subst clear_spaces.simps) auto
  qed
qed

lemma skip_token_cstr:
  "cstr M p cs \<Longrightarrow> skip_token p M = Some (p + of_nat (length (takeWhile (\<lambda>c. \<not> is_space c) cs)))"
proof (induction cs arbitrary: p)
  case Nil
  then show ?case by (subst skip_token.simps) simp
next
  case (Cons c cs)
  then show ?case by (subst skip_token.simps) (auto simp: add.assoc)
qed

text \<open>What \<open>split_loop\<close> leaves behind a line that starts at \<open>p\<close>: strings at the new pointers, a
  terminator at \<open>p\<close> when the line was empty or began with a space, the rest of memory as it was.\<close>

lemma split_loop_args:
  assumes "cstr M p cs" "length cs < 4294967295"
  shows "\<exists>as M'. split_loop (int (length argv + n)) p argv M = Some (argv @ as, M') \<and>
    list_all2 (cstr M') as (split_args n cs) \<and>
    (\<forall>a. a \<notin> span p (length cs) \<longrightarrow> M' a = M a) \<and>
    (0 < n \<longrightarrow> cs = [] \<or> is_space (hd cs) \<longrightarrow> M' p = 0)"
  using assms
proof (induction n arbitrary: M p cs argv)
  case 0
  then show ?case by (subst split_loop.simps) simp
next
  case (Suc n)
  let ?sp = "takeWhile is_space cs" and ?ds = "dropWhile is_space cs"
  from clear_spaces_cstr [OF Suc.prems] obtain q M1 where r:
    "clear_spaces p M = Some (q, M1)" "q = p + of_nat (length ?sp)" "cstr M1 q ?ds"
    "\<forall>a. M1 a = (if a \<in> span p (length ?sp) then 0 else M a)" by blast
  have len: "length cs = length ?sp + length ?ds" by (metis length_append takeWhile_dropWhile_id)
  have z: "cs = [] \<or> is_space (hd cs) \<longrightarrow> M1 p = 0"
    using r(4) Suc.prems(1) by (cases cs) auto
  have f1: "M1 a = M a" if "a \<notin> span p (length cs)" for a
    using that r(4) unfolding len span_split by simp
  show ?case
  proof (cases "?ds")
    case Nil
    with r(3) have q: "M1 q = 0" by (metis cstr.simps(1))
    have "split_loop (int (length argv + Suc n)) p argv M = Some (argv, if M p = 0 then M else M1)"
      using r(1) q by (subst split_loop.simps) simp
    moreover have "M p = 0 \<longrightarrow> cs = []" using Suc.prems(1) by (cases cs) auto
    moreover have "split_args (Suc n) cs = []" by (simp only: split_args.simps Nil list.case)
    ultimately show ?thesis using z f1 Suc.prems(1)
      by (intro exI [of _ "[]"] exI [of _ "if M p = 0 then M else M1"]) (auto simp del: split_args.simps)
  next
    case (Cons d ds)
    let ?t = "takeWhile (\<lambda>c. \<not> is_space c) ?ds" and ?r = "dropWhile (\<lambda>c. \<not> is_space c) ?ds"
    let ?e = "q + of_nat (length ?t)"
    have d: "M1 q \<noteq> 0" "M p \<noteq> 0" using r(3) Cons Suc.prems(1) by (cases cs; auto)+
    have step: "split_loop (int (length argv + Suc n)) p argv M =
        split_loop (int (length (argv @ [q]) + n)) ?e (argv @ [q]) M1"
      using d r(1) skip_token_cstr [OF r(3)] by (subst split_loop.simps) simp
    have lr: "length ?ds = length ?t + length ?r" by (metis length_append takeWhile_dropWhile_id)
    have e: "cstr M1 ?e ?r" using cstr_drop [of M1 q ?t ?r] r(3) by simp
    have "length ?r < 4294967295" using lr len Suc.prems(2) by linarith
    from Suc.IH [OF e this, of "argv @ [q]"] obtain as M2 where i:
      "split_loop (int (length (argv @ [q]) + n)) ?e (argv @ [q]) M1 = Some ((argv @ [q]) @ as, M2)"
      "list_all2 (cstr M2) as (split_args n ?r)" "\<forall>a. a \<notin> span ?e (length ?r) \<longrightarrow> M2 a = M1 a"
      "0 < n \<longrightarrow> ?r = [] \<or> is_space (hd ?r) \<longrightarrow> M2 ?e = 0" by (elim exE conjE)
    have hd: "?r = [] \<or> is_space (hd ?r)" using hd_dropWhile [of "\<lambda>c. \<not> is_space c" ?ds] by blast
    have dis: "span q (length ?t) \<inter> span ?e (length ?r) = {}" "span p (length ?sp) \<inter> span q (length ?ds) = {}"
      using span_disjoint [of "length ?t" "length ?r" q] span_disjoint [of "length ?sp" "length ?ds" p]
        lr len Suc.prems(2) r(2) by simp_all
    have sub: "span ?e (length ?r) \<subseteq> span q (length ?ds)" "span q (length ?ds) \<subseteq> span p (length cs)"
      using span_split [of q "length ?t" "length ?r"] span_split [of p "length ?sp" "length ?ds"] lr len r(2) by auto
    have f2: "\<forall>a. a \<notin> span p (length cs) \<longrightarrow> M2 a = M a" 
    proof (intro allI impI)
      fix a assume a: "a \<notin> span p (length cs)"
      with sub have "a \<notin> span ?e (length ?r)" by blast
      with i(3) f1 [OF a] show "M2 a = M a" by simp
    qed
    have z2: "cs = [] \<or> is_space (hd cs) \<longrightarrow> M2 p = 0"
    proof
      assume h: "cs = [] \<or> is_space (hd cs)"
      with Cons have "p \<in> span p (length ?sp)" by (cases cs) auto
      with dis(2) sub(1) have "p \<notin> span ?e (length ?r)" by blast
      with i(3) z h show "M2 p = 0" by simp
    qed
    have tok: "cstr M2 q (if n = 0 then ?ds else ?t)"
    proof (cases "n = 0")
      case True
      with i(1) have "M2 = M1" by (subst (asm) split_loop.simps) simp
      with r(3) True show ?thesis by simp
    next
      case False
      then have "M2 ?e = 0" using i(4) hd by blast
      moreover have "\<forall>a\<in>span q (length ?t). M2 a = M1 a" using i(3) dis(1) by blast
      ultimately show ?thesis using cstr_cut [of M1 q ?t ?r M2] r(3) False by simp
    qed
    have "list_all2 (cstr M2) (q # as) (split_args (Suc n) cs)"
      using tok i(2) Cons by (cases "n = 0") simp_all
    with step i(1) f2 z2 show ?thesis by (intro exI [of _ "q # as"] exI [of _ M2]) simp
  qed
qed

lemma split_args_length: "length (split_args n cs) \<le> n"
  by (induction n arbitrary: cs) (auto split: list.splits)

section \<open>Properties\<close>

text \<open>A few concrete bytes.\<close>

definition poke :: "ptr \<Rightarrow> u8 list \<Rightarrow> ram \<Rightarrow> ram" where
  "poke p bs M = (\<lambda>a. if unat (a - p) < length bs then bs ! unat (a - p) else M a)"

text \<open>Property C20: \<open>memmove\<close> copies correctly whichever way the two areas overlap: afterwards the
  destination holds what the source held before, and nothing else has changed.\<close>

theorem memmove_overlap:
  assumes "unat s + unat count \<le> 4294967296" "unat d + unat count \<le> 4294967296"
  shows "\<exists>M'. memmove d s count M = (d, M') \<and> area M' d (unat count) = area M s (unat count) \<and>
    (\<forall>a. a \<notin> span d (unat count) \<longrightarrow> M' a = M a)"
  by (rule memmove_area [OF assms])

theorem memmove_overlap_witness:
  "\<exists>M'. memmove 0x1002 0x1000 4 (poke 0x1000 [1, 2, 3, 4] (\<lambda>_. 0)) = (0x1002, M') \<and> area M' 0x1002 4 = [1, 2, 3, 4]"
proof -
  have "area (poke 0x1000 [1, 2, 3, 4] (\<lambda>_. 0)) 0x1000 4 = [1, 2, 3, 4]" by code_simp
  then show ?thesis
    using memmove_overlap [of "0x1000" 4 "0x1002" "poke 0x1000 [1, 2, 3, 4] (\<lambda>_. 0)"] by auto
qed

text \<open>\<open>strcmp\<close> returns for any two strings, 0 exactly for equal ones and a negative
  number exactly when the first comes first in the lexicographic order of unsigned bytes.\<close>

theorem strcmp_order:
  assumes "cstr M a as" "cstr M b bs"
  shows "\<exists>r. strcmp a b M = Some r \<and> (r = 0 \<longleftrightarrow> as = bs) \<and> (r < 0 \<longleftrightarrow> ord_class.lexordp as bs)"
  using strcmp_compares [OF assms] by simp

theorem strcmp_order_witness:
  "\<exists>r. strcmp 0 8 (poke 0 [97, 98, 0] (poke 8 [97, 200, 0] (\<lambda>_. 0))) = Some r \<and> r < 0"
proof -
  let ?M = "poke 0 [97, 98, 0] (poke 8 [97, 200, 0] (\<lambda>_. 0))"
  have "cstr ?M 0 [97, 98]" "cstr ?M 8 [97, 200]" by code_simp+
  from strcmp_order [OF this] show ?thesis by auto
qed

text \<open>Property C21: \<open>str_split\<close> returns for every line, in place: the pointers it stores are those of
  the words of the line, in order, each terminated; of \<open>max_args\<close> words the last one keeps the
  whole rest of the line; and no byte outside the line changes.\<close>

theorem str_split_words:
  assumes "cstr M p cs" "length cs < 4294967295"
  shows "\<exists>argv M'. str_split p (int n) M = Some (int (length (split_args n cs)), argv, M') \<and>
    list_all2 (cstr M') argv (split_args n cs) \<and> (\<forall>a. a \<notin> span p (length cs) \<longrightarrow> M' a = M a)"
proof -
  from split_loop_args [OF assms, of "[]" n] obtain as M' where
    r: "split_loop (int n) p [] M = Some (as, M')" "list_all2 (cstr M') as (split_args n cs)"
    "\<forall>a. a \<notin> span p (length cs) \<longrightarrow> M' a = M a" by auto
  moreover have "length as = length (split_args n cs)" using r(2) by (rule list_all2_lengthD)
  ultimately show ?thesis by (simp add: str_split_def)
qed

theorem str_split_words_witness:
  "\<exists>argv M'. str_split 16 8 (poke 16 [32, 108, 115, 32, 32, 97, 32, 0] (\<lambda>_. 0)) = Some (2, argv, M') \<and>
     list_all2 (cstr M') argv [[108, 115], [97]]"
proof -
  have "cstr (poke 16 [32, 108, 115, 32, 32, 97, 32, 0] (\<lambda>_. 0)) 16 [32, 108, 115, 32, 32, 97, 32]" by code_simp
  moreover have "split_args 8 [32, 108, 115, 32, 32, 97, 32] = [[108, 115], [97]]" by code_simp
  ultimately show ?thesis
    using str_split_words [of "poke 16 [32, 108, 115, 32, 32, 97, 32, 0] (\<lambda>_. 0)" 16 "[32, 108, 115, 32, 32, 97, 32]" 8]
    by auto
qed

end
