(* ===== verification/Keyboard.thy ===== *)
theory Keyboard
  imports Los_Prelude
begin

text \<open>
  The keyboard driver of \<open>drivers/keyboard.c\<close>: the scancode decoder that runs in the interrupt
  handler, and the ring buffer it shares with \<open>keyboard_poll\<close>.  A \<open>char\<close> is its byte.
\<close>

section \<open>State\<close>

record kbd =
  buffer :: "int list"
  head :: int
  tail :: int
  shift_down :: bool
  caps_lock :: bool
  ctrl_down :: bool
  extended :: bool

definition BUFFER_LEN :: int where "BUFFER_LEN = 128"

definition KEY_UP :: int where "KEY_UP = 0x101"
definition KEY_DOWN :: int where "KEY_DOWN = 0x102"
definition KEY_LEFT :: int where "KEY_LEFT = 0x103"
definition KEY_RIGHT :: int where "KEY_RIGHT = 0x104"
definition KEY_HOME :: int where "KEY_HOME = 0x105"
definition KEY_END :: int where "KEY_END = 0x106"
definition KEY_DELETE :: int where "KEY_DELETE = 0x107"
definition KEY_PAGEUP :: int where "KEY_PAGEUP = 0x108"
definition KEY_PAGEDOWN :: int where "KEY_PAGEDOWN = 0x109"

definition keymap :: "u8 list" where
  "keymap = [
     0, 27, 49, 50, 51, 52, 53, 54, 55, 56, 57, 48, 45, 61, 8,
     9, 113, 119, 101, 114, 116, 121, 117, 105, 111, 112, 91, 93, 10, 0,
     97, 115, 100, 102, 103, 104, 106, 107, 108, 59, 39, 96, 0, 92, 122,
     120, 99, 118, 98, 110, 109, 44, 46, 47, 0, 42, 0, 32] @ replicate 70 0"

definition keymap_shift :: "u8 list" where
  "keymap_shift = [
     0, 27, 33, 64, 35, 36, 37, 94, 38, 42, 40, 41, 95, 43, 8,
     9, 81, 87, 69, 82, 84, 89, 85, 73, 79, 80, 123, 125, 10, 0,
     65, 83, 68, 70, 71, 72, 74, 75, 76, 58, 34, 126, 0, 124, 90,
     88, 67, 86, 66, 78, 77, 60, 62, 63, 0, 42, 0, 32] @ replicate 70 0"

section \<open>Operations\<close>

definition push :: "int \<Rightarrow> kbd \<Rightarrow> kbd" where
  "push key k =
     (let nx = (head k + 1) mod BUFFER_LEN
      in if nx = tail k then k
         else k\<lparr>buffer := (buffer k)[nat (head k) := key], head := nx\<rparr>)"

definition extended_key :: "u8 \<Rightarrow> int option" where
  "extended_key sc =
     (if sc = 0x48 then Some KEY_UP
      else if sc = 0x50 then Some KEY_DOWN
      else if sc = 0x4B then Some KEY_LEFT
      else if sc = 0x4D then Some KEY_RIGHT
      else if sc = 0x47 then Some KEY_HOME
      else if sc = 0x4F then Some KEY_END
      else if sc = 0x53 then Some KEY_DELETE
      else if sc = 0x49 then Some KEY_PAGEUP
      else if sc = 0x51 then Some KEY_PAGEDOWN
      else None)"

definition is_lower :: "u8 \<Rightarrow> bool" where "is_lower c \<longleftrightarrow> 0x61 \<le> c \<and> c \<le> 0x7A"
definition is_upper :: "u8 \<Rightarrow> bool" where "is_upper c \<longleftrightarrow> 0x41 \<le> c \<and> c \<le> 0x5A"

definition apply_caps :: "u8 \<Rightarrow> u8" where
  "apply_caps c = (if is_lower c then c - 0x61 + 0x41 else if is_upper c then c - 0x41 + 0x61 else c)"

definition apply_ctrl :: "u8 \<Rightarrow> u8" where
  "apply_ctrl c = (if is_lower c then c - 0x61 + 1 else if is_upper c then c - 0x41 + 1 else c)"

text \<open>
  \<open>decode\<close> is the body of \<open>keyboard_callback\<close>: the modifier state after the scancode, and the
  key it pushes, if any.
\<close>

definition decode :: "u8 \<Rightarrow> kbd \<Rightarrow> kbd \<times> int option" where
  "decode sc k =
     (if sc = 0xE0 then (k\<lparr>extended := True\<rparr>, None)
      else if extended k then
        (let k = k\<lparr>extended := False\<rparr>
         in if sc AND 0x80 = 0 then (k, extended_key sc) else (k, None))
      else if sc AND 0x80 \<noteq> 0 then
        (let made = sc AND 0x7F
         in if made = 0x2A \<or> made = 0x36 then (k\<lparr>shift_down := False\<rparr>, None)
            else if made = 0x1D then (k\<lparr>ctrl_down := False\<rparr>, None)
            else (k, None))
      else if sc = 0x2A \<or> sc = 0x36 then (k\<lparr>shift_down := True\<rparr>, None)
      else if sc = 0x1D then (k\<lparr>ctrl_down := True\<rparr>, None)
      else if sc = 0x3A then (k\<lparr>caps_lock := \<not> caps_lock k\<rparr>, None)
      else if sc \<ge> 128 then (k, None)
      else
        (let c = (if shift_down k then keymap_shift ! unat sc else keymap ! unat sc)
         in if c = 0 then (k, None)
            else
              (let c = (if caps_lock k then apply_caps c else c);
                   c = (if ctrl_down k then apply_ctrl c else c)
               in (k, Some (uint c)))))"

definition keyboard_callback :: "u8 \<Rightarrow> kbd \<Rightarrow> kbd" where
  "keyboard_callback sc k =
     (case decode sc k of (k, None) \<Rightarrow> k | (k, Some key) \<Rightarrow> push key k)"

definition keyboard_init :: "kbd \<Rightarrow> kbd" where
  "keyboard_init k = k\<lparr>head := 0, tail := 0\<rparr>"

definition keyboard_poll :: "kbd \<Rightarrow> int \<times> kbd" where
  "keyboard_poll k =
     (if head k = tail k then (0, k)
      else (buffer k ! nat (tail k), k\<lparr>tail := (tail k + 1) mod BUFFER_LEN\<rparr>))"

text \<open>
  \<open>waits\<close> lists, for each time the caller sleeps or halts, the scancodes of the interrupts that
  come meanwhile; \<open>None\<close> is a caller that still waits when they are used up.
\<close>

fun keyboard_getchar :: "u8 list list \<Rightarrow> kbd \<Rightarrow> (int \<times> kbd \<times> u8 list list) option" where
  "keyboard_getchar waits k =
     (case keyboard_poll k of (key, k) \<Rightarrow>
        if key \<noteq> 0 then Some (key, k, waits)
        else (case waits of
                [] \<Rightarrow> None
              | scs # waits \<Rightarrow> keyboard_getchar waits (fold keyboard_callback scs k)))"

declare keyboard_getchar.simps [simp del]

section \<open>The queue\<close>

definition queued :: "kbd \<Rightarrow> int list" where
  "queued k = map (\<lambda>i. buffer k ! nat ((tail k + int i) mod BUFFER_LEN))
                [0..<nat ((head k - tail k) mod BUFFER_LEN)]"

definition is_key :: "int \<Rightarrow> bool" where
  "is_key c \<longleftrightarrow> 0 < c \<and> c < 0x100 \<or> 0x101 \<le> c \<and> c \<le> 0x109"

definition kbd_ok :: "kbd \<Rightarrow> bool" where
  "kbd_ok k \<longleftrightarrow> length (buffer k) = 128 \<and> 0 \<le> head k \<and> head k < 128 \<and> 0 \<le> tail k \<and> tail k < 128 \<and>
     (\<forall>c\<in>set (queued k). is_key c)"

lemma ring_arith:
  fixes h t :: int
  assumes "0 \<le> h" "h < 128" "0 \<le> t" "t < 128"
  shows "(h - t) mod 128 = (if t \<le> h then h - t else h - t + 128)"
    and "(h + 1) mod 128 = (if h = 127 then 0 else h + 1)"
    and "0 \<le> i \<Longrightarrow> i < 128 \<Longrightarrow> (t + i) mod 128 = (if t + i < 128 then t + i else t + i - 128)"
proof -
  show "(h - t) mod 128 = (if t \<le> h then h - t else h - t + 128)"
    using assms mod_pos_pos_trivial [of "h - t" 128] mod_pos_pos_trivial [of "h - t + 128" 128] by auto
  show "(h + 1) mod 128 = (if h = 127 then 0 else h + 1)"
    using assms by (auto intro: mod_pos_pos_trivial)
  show "(t + i) mod 128 = (if t + i < 128 then t + i else t + i - 128)" if "0 \<le> i" "i < 128"
    using assms that mod_pos_pos_trivial [of "t + i" 128] mod_pos_pos_trivial [of "t + i - 128" 128] by auto
qed

lemma queued_length: "kbd_ok k \<Longrightarrow> length (queued k) = nat ((head k - tail k) mod 128)"
  by (simp add: queued_def BUFFER_LEN_def)

lemma queued_nil: "kbd_ok k \<Longrightarrow> (queued k = []) = (head k = tail k)"
  using ring_arith(1) [of "head k" "tail k"] by (auto simp: queued_def BUFFER_LEN_def kbd_ok_def split: if_splits)

lemma queued_push:
  assumes ok: "kbd_ok k" and c: "is_key c"
  shows "kbd_ok (push c k)" "queued (push c k) = (if length (queued k) < 127 then queued k @ [c] else queued k)"
proof -
  have b: "0 \<le> head k" "head k < 128" "0 \<le> tail k" "tail k < 128" "length (buffer k) = 128"
    using ok by (auto simp: kbd_ok_def)
  let ?n = "nat ((head k - tail k) mod 128)" and ?h = "(head k + 1) mod 128"
  have n: "?n < 127 \<longleftrightarrow> ?h \<noteq> tail k" using b by (auto simp: ring_arith split: if_splits)
  have q: "queued (push c k) = (if length (queued k) < 127 then queued k @ [c] else queued k)"
  proof (cases "?h = tail k")
    case True
    with n show ?thesis by (simp add: push_def BUFFER_LEN_def queued_length [OF ok])
  next
    case False
    let ?k = "k\<lparr>buffer := (buffer k)[nat (head k) := c], head := ?h\<rparr>"
    have p: "push c k = ?k" using False by (simp add: push_def BUFFER_LEN_def)
    have "nat ((?h - tail k) mod 128) = Suc ?n" using b False by (auto simp: ring_arith split: if_splits)
    then have "queued ?k = map (\<lambda>i. (buffer k)[nat (head k) := c] ! nat ((tail k + int i) mod 128)) [0..<Suc ?n]"
      by (simp add: queued_def BUFFER_LEN_def)
    also have "\<dots> = map (\<lambda>i. (buffer k)[nat (head k) := c] ! nat ((tail k + int i) mod 128)) [0..<?n] @
        [(buffer k)[nat (head k) := c] ! nat ((tail k + int ?n) mod 128)]" by simp
    also have "(tail k + int ?n) mod 128 = head k" using b by (auto simp: ring_arith split: if_splits)
    also have "map (\<lambda>i. (buffer k)[nat (head k) := c] ! nat ((tail k + int i) mod 128)) [0..<?n] = queued k"
    proof -
      have "nat (head k) \<noteq> nat ((tail k + int i) mod 128)" if "i < ?n" for i
        using that b by (auto simp: ring_arith split: if_splits)
      then show ?thesis by (auto simp: queued_def BUFFER_LEN_def)
    qed
    finally show ?thesis using p n False b by (simp add: queued_length [OF ok])
  qed
  moreover have "kbd_ok (push c k)"
    using ok c q b unfolding kbd_ok_def by (auto simp: push_def BUFFER_LEN_def Let_def split: if_splits)
  ultimately show "kbd_ok (push c k)" "queued (push c k) = (if length (queued k) < 127 then queued k @ [c] else queued k)"
    by simp_all
qed

lemma queued_tail:
  assumes ok: "kbd_ok k" and q: "queued k = c # cs"
  shows "buffer k ! nat (tail k) = c" "kbd_ok (k\<lparr>tail := (tail k + 1) mod 128\<rparr>)"
    "queued (k\<lparr>tail := (tail k + 1) mod 128\<rparr>) = cs" "head k \<noteq> tail k"
proof -
  have b: "0 \<le> head k" "head k < 128" "0 \<le> tail k" "tail k < 128" "length (buffer k) = 128"
    using ok by (auto simp: kbd_ok_def)
  show ne: "head k \<noteq> tail k" using queued_nil [OF ok] q by simp
  let ?n = "nat ((head k - tail k) mod 128)" and ?t = "(tail k + 1) mod 128"
  have n: "?n = Suc (nat ((head k - ?t) mod 128))" using b ne by (auto simp: ring_arith split: if_splits)
  have "queued k = map (\<lambda>i. buffer k ! nat ((tail k + int i) mod 128)) [0..<?n]"
    by (simp add: queued_def BUFFER_LEN_def)
  also have "\<dots> = buffer k ! nat (tail k mod 128) #
      map (\<lambda>i. buffer k ! nat ((tail k + int (Suc i)) mod 128)) [0..<nat ((head k - ?t) mod 128)]"
    unfolding n upt_conv_Cons [OF zero_less_Suc] map_Suc_upt [symmetric] by simp
  also have "map (\<lambda>i. buffer k ! nat ((tail k + int (Suc i)) mod 128)) [0..<nat ((head k - ?t) mod 128)] =
      queued (k\<lparr>tail := ?t\<rparr>)"
    by (simp add: queued_def BUFFER_LEN_def mod_add_left_eq add.assoc)
  finally have e: "queued k = buffer k ! nat (tail k) # queued (k\<lparr>tail := ?t\<rparr>)" using b by simp
  with q show "buffer k ! nat (tail k) = c" and t: "queued (k\<lparr>tail := ?t\<rparr>) = cs" by simp_all
  then show "kbd_ok (k\<lparr>tail := ?t\<rparr>)" using ok q by (simp add: kbd_ok_def)
qed

lemma poll_queued:
  "kbd_ok k \<Longrightarrow> queued k = [] \<Longrightarrow> keyboard_poll k = (0, k)"
  "kbd_ok k \<Longrightarrow> queued k = c # cs \<Longrightarrow> \<exists>k'. keyboard_poll k = (c, k') \<and> kbd_ok k' \<and> queued k' = cs"
  using queued_nil [of k] queued_tail [of k c cs] by (auto simp: keyboard_poll_def BUFFER_LEN_def)

section \<open>The decoder\<close>

lemma decode_frame:
  assumes "decode sc k = (k', r)"
  shows "buffer k' = buffer k" "head k' = head k" "tail k' = tail k"
  using assms by (auto simp: decode_def Let_def split: if_splits)

lemma queued_cong:
  "buffer k' = buffer k \<Longrightarrow> head k' = head k \<Longrightarrow> tail k' = tail k \<Longrightarrow> queued k' = queued k \<and> kbd_ok k' = kbd_ok k"
  by (simp add: queued_def kbd_ok_def)

lemma letter_offset:
  fixes c :: u8
  shows "c - 0x61 + 0x41 = 0 \<Longrightarrow> c = 0x20" "c - 0x41 + 0x61 = 0 \<Longrightarrow> c = 0xE0"
    "c - 0x61 + 1 = 0 \<Longrightarrow> c = 0x60" "c - 0x41 + 1 = 0 \<Longrightarrow> c = 0x40"
proof -
  have e: "c = (c - 0x61 + 0x41) + 0x20" "c = (c - 0x41 + 0x61) - 0x20" "c = (c - 0x61 + 1) + 0x60"
    "c = (c - 0x41 + 1) + 0x40" by simp_all
  show "c - 0x61 + 0x41 = 0 \<Longrightarrow> c = 0x20" by (subst e(1)) simp
  show "c - 0x41 + 0x61 = 0 \<Longrightarrow> c = 0xE0" by (subst e(2)) simp
  show "c - 0x61 + 1 = 0 \<Longrightarrow> c = 0x60" by (subst e(3)) simp
  show "c - 0x41 + 1 = 0 \<Longrightarrow> c = 0x40" by (subst e(4)) simp
qed

lemma modified_nonzero:
  assumes "c \<noteq> 0" shows "apply_caps c \<noteq> 0" "apply_ctrl c \<noteq> 0"
proof -
  show "apply_caps c \<noteq> 0"
    using assms letter_offset(1,2) [of c] by (auto simp: apply_caps_def is_lower_def is_upper_def)
  show "apply_ctrl c \<noteq> 0"
    using assms letter_offset(3,4) [of c] by (auto simp: apply_ctrl_def is_lower_def is_upper_def)
qed

lemma decode_key:
  assumes "decode sc k = (k', Some c)" shows "is_key c"
proof -
  have "0 < uint (c :: u8)" if "c \<noteq> 0" for c
    using that uint_ge_0 [of c] uint_0_iff [of c] by linarith
  moreover have "uint (c :: u8) < 256" for c using uint_lt2p [of c] by simp
  ultimately show ?thesis using assms modified_nonzero
    by (auto simp: decode_def is_key_def extended_key_def KEY_UP_def KEY_DOWN_def KEY_LEFT_def KEY_RIGHT_def
        KEY_HOME_def KEY_END_def KEY_DELETE_def KEY_PAGEUP_def KEY_PAGEDOWN_def Let_def split: if_splits)
qed

text \<open>What a scancode adds to the queue: its key, unless there is none or the queue is full.\<close>

definition accepted :: "u8 \<Rightarrow> kbd \<Rightarrow> int list" where
  "accepted sc k =
     (case snd (decode sc k) of None \<Rightarrow> [] | Some c \<Rightarrow> if length (queued k) < 127 then [c] else [])"

lemma callback_queued:
  assumes "kbd_ok k"
  shows "kbd_ok (keyboard_callback sc k)" "queued (keyboard_callback sc k) = queued k @ accepted sc k"
proof -
  obtain k' r where d: "decode sc k = (k', r)" by (cases "decode sc k")
  have ok: "kbd_ok k'" and q: "queued k' = queued k"
    using queued_cong [OF decode_frame [OF d]] assms by simp_all
  show "kbd_ok (keyboard_callback sc k)"
    using d ok queued_push(1) [OF ok decode_key] by (auto simp: keyboard_callback_def split: option.splits)
  show "queued (keyboard_callback sc k) = queued k @ accepted sc k"
    using d q ok queued_push(2) [OF ok decode_key]
    by (auto simp: keyboard_callback_def accepted_def split: option.splits)
qed

section \<open>The queue as an interface\<close>

text \<open>A bounded queue: \<open>put\<close> reports by \<open>taken\<close> what it added, \<open>get\<close> is 0 on the empty queue.\<close>

locale key_queue =
  fixes ok :: "'s \<Rightarrow> bool"
    and items :: "'s \<Rightarrow> int list"
    and taken :: "'e \<Rightarrow> 's \<Rightarrow> int list"
    and put :: "'e \<Rightarrow> 's \<Rightarrow> 's"
    and get :: "'s \<Rightarrow> int \<times> 's"
  assumes put_ok: "ok s \<Longrightarrow> ok (put e s)"
    and put_items: "ok s \<Longrightarrow> items (put e s) = items s @ taken e s"
    and get_empty: "ok s \<Longrightarrow> items s = [] \<Longrightarrow> get s = (0, s)"
    and get_first: "ok s \<Longrightarrow> items s = c # cs \<Longrightarrow> \<exists>s'. get s = (c, s') \<and> ok s' \<and> items s' = cs"
    and nonzero: "ok s \<Longrightarrow> 0 \<notin> set (items s)"
begin

lemma get_zero: "ok s \<Longrightarrow> get s = (c, s') \<Longrightarrow> (c = 0) = (items s = [])"
  using get_empty [of s] get_first [of s] nonzero [of s] by (cases "items s") fastforce+

lemma get_items: "ok s \<Longrightarrow> get s = (c, s') \<Longrightarrow> ok s' \<and> items s = (if c = 0 then [] else [c]) @ items s'"
  using get_empty [of s] get_first [of s] nonzero [of s] by (cases "items s") fastforce+

lemma puts_items:
  "ok s \<Longrightarrow> ok (fold put es s) \<and> (\<exists>new. items (fold put es s) = items s @ new)"
proof (induction es arbitrary: s)
  case Nil
  then show ?case by simp
next
  case (Cons e es)
  from Cons.IH [OF put_ok [OF Cons.prems, of e]] obtain new where
    "ok (fold put es (put e s))" "items (fold put es (put e s)) = items (put e s) @ new" by blast
  with put_items [OF Cons.prems, of e] show ?case by simp
qed

end

interpretation kq: key_queue kbd_ok queued accepted keyboard_callback keyboard_poll
proof unfold_locales
  fix s assume ok: "kbd_ok s"
  show "kbd_ok (keyboard_callback e s)" "queued (keyboard_callback e s) = queued s @ accepted e s" for e
    by (rule callback_queued [OF ok])+
  show "queued s = [] \<Longrightarrow> keyboard_poll s = (0, s)" by (rule poll_queued(1) [OF ok])
  show "queued s = c # cs \<Longrightarrow> \<exists>s'. keyboard_poll s = (c, s') \<and> kbd_ok s' \<and> queued s' = cs" for c cs
    by (rule poll_queued(2) [OF ok])
  show "0 \<notin> set (queued s)" using ok by (auto simp: kbd_ok_def is_key_def)
qed

section \<open>Polling while interrupts arrive\<close>

text \<open>
  \<open>keyboard_poll\<close> runs with interrupts on.  Its three accesses to the shared state are steps of
  their own: the test, the read of the slot, the store to \<open>tail\<close>; the handler runs between any
  two of them.  (\<open>tail\<close> is written by the reader alone, so the test happens when \<open>head\<close> is read.)
  \<open>got\<close> and \<open>sent\<close> record the keys returned and the keys the handler queued.
\<close>

datatype poll_pc = Poll_start | Poll_found | Poll_read int

record kbd_run =
  kb :: kbd
  pc :: poll_pc
  got :: "int list"
  sent :: "int list"

inductive kbd_step :: "kbd_run \<Rightarrow> kbd_run \<Rightarrow> bool" where
  step_irq: "kbd_step r (r\<lparr>kb := keyboard_callback sc (kb r), sent := sent r @ accepted sc (kb r)\<rparr>)"
| step_empty: "pc r = Poll_start \<Longrightarrow> head (kb r) = tail (kb r) \<Longrightarrow> kbd_step r r"
| step_test: "pc r = Poll_start \<Longrightarrow> head (kb r) \<noteq> tail (kb r) \<Longrightarrow> kbd_step r (r\<lparr>pc := Poll_found\<rparr>)"
| step_read: "pc r = Poll_found \<Longrightarrow> kbd_step r (r\<lparr>pc := Poll_read (buffer (kb r) ! nat (tail (kb r)))\<rparr>)"
| step_take: "pc r = Poll_read c \<Longrightarrow>
    kbd_step r (r\<lparr>kb := (kb r)\<lparr>tail := (tail (kb r) + 1) mod BUFFER_LEN\<rparr>, pc := Poll_start, got := got r @ [c]\<rparr>)"

inductive_cases kbd_stepE: "kbd_step r r'"

text \<open>Without an interrupt the steps of the reader are a run of \<open>keyboard_poll\<close>.\<close>

lemma poll_uninterrupted:
  assumes "pc r = Poll_start" "keyboard_poll (kb r) = (c, k)"
  shows "if head (kb r) = tail (kb r) then c = 0 \<and> k = kb r \<and> kbd_step r r else kbd_step\<^sup>*\<^sup>* r (r\<lparr>kb := k, got := got r @ [c]\<rparr>)"
proof (cases "head (kb r) = tail (kb r)")
  case True
  with assms step_empty show ?thesis by (auto simp: keyboard_poll_def)
next
  case False
  let ?f = "r\<lparr>pc := Poll_found\<rparr>" and ?c = "buffer (kb r) ! nat (tail (kb r))"
  have 1: "kbd_step r ?f" using step_test [OF assms(1) False] .
  have 2: "kbd_step ?f (r\<lparr>pc := Poll_read ?c\<rparr>)" using step_read [of ?f] by simp
  have 3: "kbd_step (r\<lparr>pc := Poll_read ?c\<rparr>) (r\<lparr>kb := (kb r)\<lparr>tail := (tail (kb r) + 1) mod BUFFER_LEN\<rparr>, pc := Poll_start, got := got r @ [?c]\<rparr>)"
    using step_take [of "r\<lparr>pc := Poll_read ?c\<rparr>" ?c] by simp
  have "r\<lparr>kb := (kb r)\<lparr>tail := (tail (kb r) + 1) mod BUFFER_LEN\<rparr>, pc := Poll_start, got := got r @ [?c]\<rparr> = r\<lparr>kb := k, got := got r @ [c]\<rparr>"
    using assms False by (cases r) (auto simp: keyboard_poll_def)
  with 1 2 3 False show ?thesis by (metis (no_types, lifting) r_into_rtranclp rtranclp.rtrancl_into_rtrancl)
qed

definition run_ok :: "kbd_run \<Rightarrow> bool" where
  "run_ok r \<longleftrightarrow> kbd_ok (kb r) \<and> got r @ queued (kb r) = sent r \<and>
     (case pc r of Poll_start \<Rightarrow> True | Poll_found \<Rightarrow> queued (kb r) \<noteq> []
      | Poll_read c \<Rightarrow> \<exists>cs. queued (kb r) = c # cs)"

lemma kbd_step_ok:
  assumes "kbd_step r r'" "run_ok r" shows "run_ok r'"
proof (rule kbd_stepE [OF assms(1)])
  have ok: "kbd_ok (kb r)" and log: "got r @ queued (kb r) = sent r" using assms(2) by (simp_all add: run_ok_def)
  fix sc assume "r' = r\<lparr>kb := keyboard_callback sc (kb r), sent := sent r @ accepted sc (kb r)\<rparr>"
  with assms(2) callback_queued [OF ok, of sc] log show ?thesis
    by (auto simp: run_ok_def simp flip: append_assoc split: poll_pc.splits)
next
  assume "r' = r" with assms(2) show ?thesis by simp
next
  assume "r' = r\<lparr>pc := Poll_found\<rparr>" "head (kb r) \<noteq> tail (kb r)"
  with assms(2) queued_nil [of "kb r"] show ?thesis by (simp add: run_ok_def)
next
  assume r: "r' = r\<lparr>pc := Poll_read (buffer (kb r) ! nat (tail (kb r)))\<rparr>" "pc r = Poll_found"
  with assms(2) obtain c cs where q: "kbd_ok (kb r)" "queued (kb r) = c # cs" by (auto simp: run_ok_def neq_Nil_conv)
  from queued_tail(1) [OF this] assms(2) q r show ?thesis by (simp add: run_ok_def)
next
  fix c assume r: "pc r = Poll_read c"
    "r' = r\<lparr>kb := (kb r)\<lparr>tail := (tail (kb r) + 1) mod BUFFER_LEN\<rparr>, pc := Poll_start, got := got r @ [c]\<rparr>"
  with assms(2) obtain cs where q: "kbd_ok (kb r)" "queued (kb r) = c # cs" by (auto simp: run_ok_def)
  from queued_tail(2,3) [OF this] assms(2) q r show ?thesis by (simp add: run_ok_def BUFFER_LEN_def)
qed

lemma kbd_steps_ok: "kbd_step\<^sup>*\<^sup>* r r' \<Longrightarrow> run_ok r \<Longrightarrow> run_ok r'"
  by (induction rule: rtranclp_induct) (auto intro: kbd_step_ok)

section \<open>Waiting for a key\<close>

lemma getchar_first:
  assumes "kbd_ok k" "queued k \<noteq> []"
  shows "\<exists>k'. keyboard_getchar waits k = Some (hd (queued k), k', waits) \<and> kbd_ok k' \<and> queued k' = tl (queued k)"
proof -
  obtain c cs where q: "queued k = c # cs" using assms(2) by (cases "queued k") auto
  from poll_queued(2) [OF assms(1) this] obtain k' where p: "keyboard_poll k = (c, k')" "kbd_ok k'" "queued k' = cs" by blast
  moreover have "c \<noteq> 0" using kq.get_zero [OF assms(1) p(1)] q by simp
  ultimately show ?thesis using q by (subst keyboard_getchar.simps) simp
qed

lemma getchar_waits:
  assumes "kbd_ok k" "queued k = []"
  shows "keyboard_getchar [] k = None"
    "keyboard_getchar (scs # waits) k = keyboard_getchar waits (fold keyboard_callback scs k)"
  using poll_queued(1) [OF assms] by (simp_all add: keyboard_getchar.simps)

lemma getchar_returns:
  assumes "kbd_ok k" "queued (fold keyboard_callback (concat waits) k) \<noteq> []"
  shows "\<exists>c k' rest. keyboard_getchar waits k = Some (c, k', rest) \<and> kbd_ok k' \<and> is_key c"
  using assms
proof (induction waits arbitrary: k)
  case Nil
  then have ne: "queued k \<noteq> []" by simp
  from getchar_first [OF Nil.prems(1) ne, of "[]"] obtain k' where
    "keyboard_getchar [] k = Some (hd (queued k), k', [])" "kbd_ok k'" by blast
  moreover have "is_key (hd (queued k))" using Nil.prems(1) ne by (auto simp: kbd_ok_def)
  ultimately show ?case by blast
next
  case (Cons scs waits)
  show ?case
  proof (cases "queued k = []")
    case True
    have "kbd_ok (fold keyboard_callback scs k)" using kq.puts_items [OF Cons.prems(1)] by blast
    from Cons.IH [OF this] Cons.prems(2) getchar_waits(2) [OF Cons.prems(1) True] show ?thesis by simp
  next
    case False
    from getchar_first [OF Cons.prems(1) this, of "scs # waits"] obtain k' where
      "keyboard_getchar (scs # waits) k = Some (hd (queued k), k', scs # waits)" "kbd_ok k'" by blast
    moreover have "is_key (hd (queued k))" using Cons.prems(1) False by (auto simp: kbd_ok_def)
    ultimately show ?thesis by blast
  qed
qed

section \<open>Letters\<close>

lemma keymap_letters:
  "\<forall>n\<in>set [0..<128]. (of_nat n :: u8) AND 0x80 = 0 \<and>
     (is_lower (keymap ! n) \<longrightarrow> keymap_shift ! n = keymap ! n - 0x20 \<and> n \<notin> {0x2A, 0x36, 0x1D, 0x3A})"
  unfolding Ball_set list_all_iff [symmetric] by code_simp

section \<open>Properties\<close>

definition no_kbd :: kbd where
  "no_kbd = \<lparr>buffer = replicate 128 0, head = 5, tail = 0, shift_down = False, caps_lock = False,
     ctrl_down = False, extended = False\<rparr>"

definition boot_kbd :: kbd where "boot_kbd = keyboard_init no_kbd"

lemma boot_kbd_ok: "kbd_ok boot_kbd" "queued boot_kbd = []"
  by (simp_all add: kbd_ok_def boot_kbd_def keyboard_init_def no_kbd_def queued_def)

text \<open>Property C22: no key is lost, invented, repeated or overtaken between the interrupt handler and
  \<open>keyboard_poll\<close>, however the handler's runs fall between the reader's accesses to the ring: at
  any moment the keys returned so far, followed by those still queued, are exactly the keys the
  handler found room for, in order; all of them are key codes, none is 0; and a reader that has
  seen the ring non-empty reads the oldest of them.  The steps of \<open>kbd_step\<close> are the runs of the
  handler and the accesses of \<open>keyboard_poll\<close> one by one; together they are \<open>keyboard_poll\<close>
  (\<open>poll_uninterrupted\<close>).\<close>

theorem kbd_interleaved_fifo:
  assumes "kbd_step\<^sup>*\<^sup>* \<lparr>kb = keyboard_init k, pc = Poll_start, got = [], sent = []\<rparr> r" "length (buffer k) = 128"
  shows "got r @ queued (kb r) = sent r \<and> (\<forall>c\<in>set (queued (kb r)). is_key c) \<and> length (queued (kb r)) \<le> 127 \<and>
    (\<forall>c. pc r = Poll_read c \<longrightarrow> queued (kb r) \<noteq> [] \<and> c = hd (queued (kb r)))"
proof -
  have "run_ok \<lparr>kb = keyboard_init k, pc = Poll_start, got = [], sent = []\<rparr>"
    using assms(2) by (simp add: run_ok_def kbd_ok_def keyboard_init_def queued_def)
  from kbd_steps_ok [OF assms(1) this] have r: "run_ok r" .
  then have ok: "kbd_ok (kb r)" by (simp add: run_ok_def)
  then have "length (queued (kb r)) \<le> 127"
    by (auto simp: queued_length [OF ok] kbd_ok_def ring_arith split: if_splits)
  with r ok show ?thesis by (auto simp: run_ok_def kbd_ok_def)
qed

theorem kbd_interleaved_fifo_witness:
  "\<exists>r. kbd_step \<lparr>kb = keyboard_init no_kbd, pc = Poll_start, got = [], sent = []\<rparr> r \<and> queued (kb r) = [97]"
proof -
  let ?r = "\<lparr>kb = keyboard_init no_kbd, pc = Poll_start, got = [], sent = []\<rparr>"
  have a: "accepted 0x1E (keyboard_init no_kbd) = [97]" by code_simp
  from step_irq [of ?r "0x1E"] have st: "kbd_step ?r (?r\<lparr>kb := keyboard_callback 0x1E (keyboard_init no_kbd), sent := [97]\<rparr>)"
    by (simp add: a)
  then have "kbd_step\<^sup>*\<^sup>* ?r (?r\<lparr>kb := keyboard_callback 0x1E (keyboard_init no_kbd), sent := [97]\<rparr>)" by blast
  from kbd_interleaved_fifo [OF this] st show ?thesis by (force simp: no_kbd_def)
qed

text \<open>A letter key gives its capital exactly when one of Shift and Caps Lock is on,
  its small letter otherwise, and with Ctrl its control code 1 to 26 whatever Shift and Caps
  Lock say; the modifiers stay as they are.\<close>

theorem decode_letters:
  assumes "n < 128" "is_lower (keymap ! n)" "\<not> extended k"
  shows "decode (of_nat n) k = (k, Some (if ctrl_down k then uint (keymap ! n - 0x60)
    else if shift_down k \<noteq> caps_lock k then uint (keymap ! n - 0x20) else uint (keymap ! n)))"
proof -
  have m: "(of_nat n :: u8) AND 0x80 = 0" "keymap_shift ! n = keymap ! n - 0x20"
    "n \<noteq> 0x2A" "n \<noteq> 0x36" "n \<noteq> 0x1D" "n \<noteq> 0x3A"
    using keymap_letters assms(1,2) by auto
  have u: "unat (of_nat n :: u8) = n" using assms(1) by (simp add: unat_of_nat)
  have ne: "(of_nat n :: u8) = w \<longleftrightarrow> n = unat w" for w using u by auto
  have lt: "\<not> (of_nat n :: u8) \<ge> 128" using assms(1) u by (simp add: word_le_nat_alt)
  define c where "c = keymap ! n"
  have c: "0x61 \<le> c" "c \<le> 0x7A" using assms(2) by (simp_all add: c_def is_lower_def)
  then have cu: "0x61 \<le> unat c" "unat c \<le> 0x7A" by (simp_all add: word_le_nat_alt)
  have su: "unat (c - 0x20) = unat c - 0x20" using cu by (simp add: unat_sub word_le_nat_alt)
  have low: "is_lower c" "\<not> is_upper c" "is_upper (c - 0x20)" "\<not> is_lower (c - 0x20)" "c \<noteq> 0" "c - 0x20 \<noteq> 0"
    using cu su by (auto simp: is_lower_def is_upper_def word_le_nat_alt unat_eq_0 [symmetric])
  have caps: "apply_caps c = c - 0x20" "apply_caps (c - 0x20) = c" using low by (simp_all add: apply_caps_def)
  have ctrl: "apply_ctrl c = c - 0x60" "apply_ctrl (c - 0x20) = c - 0x60" using low by (simp_all add: apply_ctrl_def)
  show ?thesis unfolding c_def [symmetric]
    using m assms(1,3) u ne lt low caps ctrl by (simp add: decode_def c_def [symmetric] Let_def)
qed

theorem decode_letters_witness:
  "decode 0x10 (boot_kbd\<lparr>shift_down := True\<rparr>) = (boot_kbd\<lparr>shift_down := True\<rparr>, Some 81)"
proof -
  have "is_lower (keymap ! 0x10)" "keymap ! 0x10 = 0x71" by code_simp+
  then show ?thesis using decode_letters [of "0x10" "boot_kbd\<lparr>shift_down := True\<rparr>"]
    by (simp add: boot_kbd_def keyboard_init_def no_kbd_def)
qed

end
