(* ===== verification/Vga.thy ===== *)
theory Vga
  imports Los_Prelude
begin

text \<open>
  The text console of \<open>drivers/vga.c\<close>: the shadow screen, the scrollback ring, the view into
  them, video memory and the cursor of the display controller.  A \<open>char\<close> is its byte.  An
  index outside an array would be undefined behaviour; the invariant \<open>vga_ok\<close> excludes it.
\<close>

section \<open>State\<close>

definition VGA_WIDTH :: int where "VGA_WIDTH = 80"
definition VGA_HEIGHT :: int where "VGA_HEIGHT = 25"
definition SCROLLBACK_LINES :: int where "SCROLLBACK_LINES = 512"
definition VGA_BLACK :: u8 where "VGA_BLACK = 0"
definition VGA_LIGHT_GREY :: u8 where "VGA_LIGHT_GREY = 7"

text \<open>\<open>crtc\<close> holds the registers of the display controller, written through its port pair.\<close>

record vga =
  vram :: "u16 list"
  crtc :: "u8 \<Rightarrow> u8"
  screen :: "u16 list list"
  scrollback :: "u16 list list"
  scrollback_head :: int
  scrollback_count :: int
  view_offset :: int
  cursor_row :: int
  cursor_col :: int
  attribute :: u8

section \<open>Operations\<close>

definition cell :: "u8 \<Rightarrow> u8 \<Rightarrow> u16" where
  "cell c attr = ucast c OR push_bit 8 (ucast attr)"

text \<open>The two \<open>outb\<close> calls that select a register and store into it.\<close>

definition crtc_write :: "u8 \<Rightarrow> u8 \<Rightarrow> vga \<Rightarrow> vga" where
  "crtc_write reg v s = s\<lparr>crtc := (crtc s)(reg := v)\<rparr>"

definition move_hardware_cursor :: "vga \<Rightarrow> vga" where
  "move_hardware_cursor s =
     (let pos = (if view_offset s > 0 then word_of_int (VGA_WIDTH * VGA_HEIGHT)
                 else word_of_int (cursor_row s * VGA_WIDTH + cursor_col s) :: u16);
          s = crtc_write 0x0F (ucast (pos AND 0xFF)) s
      in crtc_write 0x0E (ucast (drop_bit 8 pos AND 0xFF)) s)"

definition scrollback_line :: "vga \<Rightarrow> int \<Rightarrow> u16 list" where
  "scrollback_line s index =
     scrollback s ! nat ((scrollback_head s - scrollback_count s + index + SCROLLBACK_LINES) mod SCROLLBACK_LINES)"

definition view_line :: "vga \<Rightarrow> nat \<Rightarrow> u16 list" where
  "view_line s row =
     (let index = scrollback_count s - view_offset s + int row
      in if index < scrollback_count s then scrollback_line s index
         else screen s ! nat (index - scrollback_count s))"

definition copy_row :: "nat \<Rightarrow> u16 list \<Rightarrow> u16 list \<Rightarrow> u16 list" where
  "copy_row row line v = fold (\<lambda>col v. v[row * nat VGA_WIDTH + col := line ! col]) [0..<nat VGA_WIDTH] v"

definition repaint :: "vga \<Rightarrow> vga" where
  "repaint s = move_hardware_cursor
     (s\<lparr>vram := fold (\<lambda>row v. copy_row row (view_line s row) v) [0..<nat VGA_HEIGHT] (vram s)\<rparr>)"

definition push_scrollback :: "u16 list \<Rightarrow> vga \<Rightarrow> vga" where
  "push_scrollback line s =
     s\<lparr>scrollback := (scrollback s)[nat (scrollback_head s) := line],
       scrollback_head := (scrollback_head s + 1) mod SCROLLBACK_LINES,
       scrollback_count := (if scrollback_count s < SCROLLBACK_LINES then scrollback_count s + 1 else scrollback_count s)\<rparr>"

definition fill_row :: "u16 \<Rightarrow> u16 list \<Rightarrow> u16 list" where
  "fill_row x line = fold (\<lambda>col l. l[col := x]) [0..<nat VGA_WIDTH] line"

definition scroll_up_one :: "vga \<Rightarrow> vga" where
  "scroll_up_one s =
     (let s = push_scrollback (screen s ! 0) s;
          scr = fold (\<lambda>row S. S[row - 1 := S ! row]) [1..<nat VGA_HEIGHT] (screen s);
          bottom = nat VGA_HEIGHT - 1
      in s\<lparr>screen := scr[bottom := fill_row (cell 0x20 (attribute s)) (scr ! bottom)],
           cursor_row := VGA_HEIGHT - 1\<rparr>)"

definition vga_set_color :: "u8 \<Rightarrow> u8 \<Rightarrow> vga \<Rightarrow> vga" where
  "vga_set_color fg bg s = s\<lparr>attribute := fg OR push_bit 4 bg\<rparr>"

definition vga_get_color :: "vga \<Rightarrow> u8 \<times> u8" where
  "vga_get_color s = (attribute s AND 0x0F, drop_bit 4 (attribute s) AND 0x0F)"

text \<open>\<open>last_row\<close> is \<open>last\<close> at the end of the first loop of \<open>archive_screen\<close>.\<close>

definition row_used :: "u16 list \<Rightarrow> bool" where
  "row_used line = list_ex (\<lambda>x. (ucast x :: u8) \<noteq> 0x20 \<and> (ucast x :: u8) \<noteq> 0) (take (nat VGA_WIDTH) line)"

definition last_row :: "vga \<Rightarrow> int" where
  "last_row s = fold (\<lambda>row last. if row_used (screen s ! row) then int row else last) [0..<nat VGA_HEIGHT] (-1)"

definition archive_screen :: "vga \<Rightarrow> vga" where
  "archive_screen s = fold (\<lambda>row. push_scrollback (screen s ! row)) [0..<nat (last_row s + 1)] s"

definition vga_clear :: "vga \<Rightarrow> vga" where
  "vga_clear s =
     (let s = archive_screen s
      in repaint (s\<lparr>screen := fold (\<lambda>row S. S[row := fill_row (cell 0x20 (attribute s)) (S ! row)])
                              [0..<nat VGA_HEIGHT] (screen s),
                    cursor_row := 0, cursor_col := 0, view_offset := 0\<rparr>))"

definition vga_init :: "vga \<Rightarrow> vga" where
  "vga_init s =
     (let s = vga_set_color VGA_LIGHT_GREY VGA_BLACK s;
          s = vga_clear (s\<lparr>scrollback_head := 0, scrollback_count := 0, view_offset := 0\<rparr>)
      in crtc_write 0x0B 15 (crtc_write 0x0A 14 s))"

text \<open>Storing a cell on the shadow screen and in video memory.\<close>

definition put_cell :: "u8 \<Rightarrow> vga \<Rightarrow> vga" where
  "put_cell c s =
     (let r = nat (cursor_row s); k = nat (cursor_col s); x = cell c (attribute s)
      in s\<lparr>screen := (screen s)[r := (screen s ! r)[k := x]],
           vram := (vram s)[nat (cursor_row s * VGA_WIDTH + cursor_col s) := x]\<rparr>)"

text \<open>The \<open>switch\<close> of \<open>vga_putc\<close>.\<close>

definition put_char :: "u8 \<Rightarrow> vga \<Rightarrow> vga" where
  "put_char c s =
     (if c = 0x0A then s\<lparr>cursor_col := 0, cursor_row := cursor_row s + 1\<rparr>
      else if c = 0x0D then s\<lparr>cursor_col := 0\<rparr>
      else if c = 0x09 then s\<lparr>cursor_col := (cursor_col s + 4) AND NOT 3\<rparr>
      else if c = 0x08 then
        put_cell 0x20
          (if cursor_col s > 0 then s\<lparr>cursor_col := cursor_col s - 1\<rparr>
           else if cursor_row s > 0 then s\<lparr>cursor_row := cursor_row s - 1, cursor_col := VGA_WIDTH - 1\<rparr>
           else s)
      else (let s = put_cell c s in s\<lparr>cursor_col := cursor_col s + 1\<rparr>))"

definition vga_putc :: "u8 \<Rightarrow> vga \<Rightarrow> vga" where
  "vga_putc c s =
     (let s = (if view_offset s \<noteq> 0 then repaint (s\<lparr>view_offset := 0\<rparr>) else s);
          s = put_char c s;
          s = (if cursor_col s \<ge> VGA_WIDTH then s\<lparr>cursor_col := 0, cursor_row := cursor_row s + 1\<rparr> else s)
      in if cursor_row s \<ge> VGA_HEIGHT then repaint (scroll_up_one s) else move_hardware_cursor s)"

definition vga_write :: "u8 list \<Rightarrow> vga \<Rightarrow> vga" where
  "vga_write cs s = fold vga_putc cs s"

definition vga_set_cursor :: "int \<Rightarrow> int \<Rightarrow> vga \<Rightarrow> vga" where
  "vga_set_cursor row col s =
     (let row = (if row < 0 then 0 else row);
          col = (if col < 0 then 0 else col);
          row = (if row \<ge> VGA_HEIGHT then VGA_HEIGHT - 1 else row);
          col = (if col \<ge> VGA_WIDTH then VGA_WIDTH - 1 else col)
      in move_hardware_cursor (s\<lparr>cursor_row := row, cursor_col := col\<rparr>))"

definition vga_scroll_view :: "int \<Rightarrow> vga \<Rightarrow> vga" where
  "vga_scroll_view lines s =
     (let target = view_offset s + lines;
          target = (if target < 0 then 0 else target);
          target = (if target > scrollback_count s then scrollback_count s else target)
      in if target = view_offset s then s else repaint (s\<lparr>view_offset := target\<rparr>))"

definition vga_scroll_to_bottom :: "vga \<Rightarrow> vga" where
  "vga_scroll_to_bottom s = (if view_offset s = 0 then s else repaint (s\<lparr>view_offset := 0\<rparr>))"

section \<open>What the display shows\<close>

text \<open>The kept lines, oldest first, and the window of the lines the view is at.\<close>

definition kept :: "vga \<Rightarrow> u16 list list" where
  "kept s = map (\<lambda>i. scrollback_line s (int i)) [0..<nat (scrollback_count s)]"

definition window :: "vga \<Rightarrow> u16 list list" where
  "window s = take 25 (drop (nat (scrollback_count s - view_offset s)) (kept s @ screen s))"

definition grid :: "nat \<Rightarrow> u16 list list \<Rightarrow> bool" where
  "grid n S \<longleftrightarrow> length S = n \<and> (\<forall>l\<in>set S. length l = 80)"

definition vga_ok :: "vga \<Rightarrow> bool" where
  "vga_ok s \<longleftrightarrow> length (vram s) = 2000 \<and> grid 25 (screen s) \<and> grid 512 (scrollback s) \<and>
     0 \<le> scrollback_head s \<and> scrollback_head s < 512 \<and> 0 \<le> scrollback_count s \<and> scrollback_count s \<le> 512 \<and>
     0 \<le> view_offset s \<and> view_offset s \<le> scrollback_count s \<and>
     0 \<le> cursor_row s \<and> cursor_row s < 25 \<and> 0 \<le> cursor_col s \<and> cursor_col s < 80"

definition cursor_shown :: "vga \<Rightarrow> bool" where
  "cursor_shown s \<longleftrightarrow> uint (crtc s 0x0E) * 256 + uint (crtc s 0x0F) =
     (if view_offset s > 0 then 2000 else cursor_row s * 80 + cursor_col s)"

lemmas vga_consts = VGA_WIDTH_def VGA_HEIGHT_def SCROLLBACK_LINES_def

section \<open>Painting\<close>

lemma fold_blit:
  "k \<le> length line \<Longrightarrow> b + k \<le> length v \<Longrightarrow>
     fold (\<lambda>col v. v[b + col := line ! col]) [0..<k] v = take b v @ take k line @ drop (b + k) v"
proof (induction k)
  case 0
  then show ?case by simp
next
  case (Suc k)
  have "drop (b + k) v = v ! (b + k) # drop (Suc (b + k)) v" using Suc.prems by (simp add: Cons_nth_drop_Suc)
  with Suc show ?case by (simp add: list_update_append take_Suc_conv_app_nth)
qed

lemma copy_row_eq:
  "length line = 80 \<Longrightarrow> row * 80 + 80 \<le> length v \<Longrightarrow>
     copy_row row line v = take (row * 80) v @ line @ drop (row * 80 + 80) v"
  by (simp add: copy_row_def VGA_WIDTH_def fold_blit)

lemma length_rows: "\<forall>row<n. length (f row) = 80 \<Longrightarrow> length (concat (map f [0..<n])) = n * 80"
  by (induction n) auto

lemma fold_copy_rows:
  "\<forall>row<n. length (f row) = 80 \<Longrightarrow> n * 80 \<le> length v \<Longrightarrow>
     fold (\<lambda>row v. copy_row row (f row) v) [0..<n] v = concat (map f [0..<n]) @ drop (n * 80) v"
proof (induction n)
  case 0
  then show ?case by simp
next
  case (Suc n)
  have l: "length (concat (map f [0..<n])) = n * 80" by (rule length_rows) (use Suc.prems(1) in simp)
  with Suc show ?case by (simp add: copy_row_eq add.commute)
qed

lemma fill_row_eq: "length line = 80 \<Longrightarrow> fill_row x line = replicate 80 x"
proof -
  have "fold (\<lambda>col l. l[col := x]) [0..<k] line = replicate k x @ drop k line" if "k \<le> length line" for k
    using that
  proof (induction k)
    case (Suc k)
    then have "drop k line = line ! k # drop (Suc k) line" by (simp add: Cons_nth_drop_Suc)
    with Suc show ?case by (simp add: list_update_append replicate_append_same)
  qed simp
  from this [of 80] show "length line = 80 \<Longrightarrow> fill_row x line = replicate 80 x"
    by (simp add: fill_row_def VGA_WIDTH_def)
qed

lemma move_fields [simp]:
  "vram (move_hardware_cursor s) = vram s" "screen (move_hardware_cursor s) = screen s"
  "scrollback (move_hardware_cursor s) = scrollback s" "scrollback_head (move_hardware_cursor s) = scrollback_head s"
  "scrollback_count (move_hardware_cursor s) = scrollback_count s" "view_offset (move_hardware_cursor s) = view_offset s"
  "cursor_row (move_hardware_cursor s) = cursor_row s" "cursor_col (move_hardware_cursor s) = cursor_col s"
  "attribute (move_hardware_cursor s) = attribute s"
  by (simp_all add: move_hardware_cursor_def crtc_write_def Let_def)

lemma repaint_fields [simp]:
  "screen (repaint s) = screen s" "scrollback (repaint s) = scrollback s" "scrollback_head (repaint s) = scrollback_head s"
  "scrollback_count (repaint s) = scrollback_count s" "view_offset (repaint s) = view_offset s"
  "cursor_row (repaint s) = cursor_row s" "cursor_col (repaint s) = cursor_col s" "attribute (repaint s) = attribute s"
  by (simp_all add: repaint_def)

lemma kept_cong:
  "scrollback s' = scrollback s \<Longrightarrow> scrollback_head s' = scrollback_head s \<Longrightarrow>
     scrollback_count s' = scrollback_count s \<Longrightarrow> kept s' = kept s"
  by (simp add: kept_def scrollback_line_def)

lemma low_byte: "uint (ucast (w AND 0xFF) :: u8) = uint (w :: u16) mod 256"
proof -
  have m: "(0xFF :: u16) = mask 8" by (simp add: mask_eq_exp_minus_1)
  have "(ucast (w AND mask 8) :: u8) = ucast w" by (auto intro!: bit_word_eqI simp: bit_simps)
  with m have "(ucast (w AND 0xFF) :: u8) = ucast w" by simp
  then show ?thesis by (simp add: unsigned_ucast_eq take_bit_eq_mod)
qed

lemma high_byte: "uint (ucast (drop_bit 8 w AND 0xFF) :: u8) = uint (w :: u16) div 256"
proof -
  have "uint w div 256 < 256" using uint_lt2p [of w] by (simp add: div_less_iff_less_mult)
  moreover have "uint (drop_bit 8 w) = uint w div 256" by (simp add: drop_bit_eq_div uint_div_distrib)
  moreover have "0 \<le> uint w div 256" by (simp add: pos_imp_zdiv_nonneg_iff)
  ultimately show ?thesis by (simp add: low_byte mod_pos_pos_trivial)
qed

lemma move_cursor_shown:
  assumes "0 \<le> cursor_row s" "cursor_row s < 25" "0 \<le> cursor_col s" "cursor_col s < 80"
  shows "cursor_shown (move_hardware_cursor s)"
proof -
  let ?p = "if view_offset s > 0 then 2000 else cursor_row s * 80 + cursor_col s"
  have "0 \<le> ?p" "?p < 65536" using assms by auto
  then have w: "uint (word_of_int ?p :: u16) = ?p"
    by (simp add: uint_word_of_int take_bit_eq_mod mod_pos_pos_trivial del: if_split)
  have c: "crtc (move_hardware_cursor s) 0x0E = ucast (drop_bit 8 (word_of_int ?p :: u16) AND 0xFF)"
    "crtc (move_hardware_cursor s) 0x0F = ucast ((word_of_int ?p :: u16) AND 0xFF)"
    by (simp_all add: move_hardware_cursor_def crtc_write_def vga_consts Let_def)
  have "uint (crtc (move_hardware_cursor s) 0x0E) = ?p div 256" by (simp only: c(1) high_byte w)
  moreover have "uint (crtc (move_hardware_cursor s) 0x0F) = ?p mod 256" by (simp only: c(2) low_byte w)
  ultimately show ?thesis using div_mult_mod_eq [of ?p 256]
    by (simp only: cursor_shown_def move_fields)
qed

text \<open>A repaint makes video memory the window of the view and moves the cursor there.\<close>

lemma kept_length: "length (kept s) = nat (scrollback_count s)"
  by (simp add: kept_def)

lemma scrollback_line_length:
  assumes "vga_ok s" shows "length (scrollback_line s i) = 80"
proof -
  have "nat ((scrollback_head s - scrollback_count s + i + 512) mod 512) < 512"
    using pos_mod_bound [of 512 "scrollback_head s - scrollback_count s + i + 512"]
      pos_mod_sign [of 512 "scrollback_head s - scrollback_count s + i + 512"] by linarith
  with assms show ?thesis by (simp add: scrollback_line_def vga_consts vga_ok_def grid_def)
qed

lemma window_lines:
  assumes ok: "vga_ok s" shows "window s = map (view_line s) [0..<25]" "\<forall>row<25. length (view_line s row) = 80"
proof -
  define c b where "c = nat (scrollback_count s)" and "b = nat (view_offset s)"
  then have b: "b \<le> c" "scrollback_count s = int c" "view_offset s = int b" "grid 25 (screen s)"
    using ok by (auto simp: vga_ok_def)
  have l: "length (kept s @ screen s) = c + 25" using b(2,4) by (simp add: kept_length grid_def)
  have v: "view_line s row = (kept s @ screen s) ! (c - b + row)" if "row < 25" for row
  proof (cases "row < b")
    case True
    then have "int (c - b + row) = int c - int b + int row" "c - b + row < c" using b(1) by auto
    then show ?thesis using True b(2,3) by (simp add: view_line_def kept_def nth_append Let_def algebra_simps)
  next
    case False
    then have "nat (int c - int b + int row - int c) = row - b" "\<not> c - b + row < c" "c - b + row - c = row - b"
      "\<not> int c - int b + int row < int c" using b(1) by auto
    then show ?thesis using False b(2,3) by (simp add: view_line_def kept_def nth_append Let_def)
  qed
  show "window s = map (view_line s) [0..<25]"
    by (rule nth_equalityI) (use l b v in \<open>simp_all add: window_def nat_diff_distrib del: take_append drop_append\<close>)
  have "\<forall>x\<in>set (kept s @ screen s). length x = 80"
    using b(4) scrollback_line_length [OF ok] by (auto simp: kept_def grid_def)
  then have "length ((kept s @ screen s) ! j) = 80" if "j < c + 25" for j
    using that nth_mem [of j "kept s @ screen s"] unfolding l by blast
  then show "\<forall>row<25. length (view_line s row) = 80" using v b(1) by simp
qed

lemma repaint_paints:
  assumes ok: "vga_ok s"
  shows "vga_ok (repaint s)" "vram (repaint s) = concat (window (repaint s))" "cursor_shown (repaint s)"
    "window (repaint s) = window s" "kept (repaint s) = kept s"
proof -
  have v: "vram (repaint s) = concat (window s)"
    using ok window_lines [OF ok] fold_copy_rows [of 25 "view_line s" "vram s"]
    by (simp add: repaint_def VGA_HEIGHT_def vga_ok_def)
  have "length (concat (window s)) = 2000"
    using window_lines [OF ok] length_rows [of 25 "view_line s"] by simp
  with v show "vga_ok (repaint s)" using ok by (simp add: vga_ok_def)
  show k: "kept (repaint s) = kept s" by (rule kept_cong) simp_all
  then show w: "window (repaint s) = window s" by (simp add: window_def)
  with v show "vram (repaint s) = concat (window (repaint s))" by simp
  show "cursor_shown (repaint s)"
    unfolding repaint_def by (rule move_cursor_shown) (use ok in \<open>simp_all add: vga_ok_def\<close>)
qed

section \<open>The scrollback ring\<close>

definition keep :: "'a list \<Rightarrow> 'a list" where
  "keep ls = drop (length ls - 512) ls"

lemma push_fields [simp]:
  "vram (push_scrollback l s) = vram s" "screen (push_scrollback l s) = screen s"
  "view_offset (push_scrollback l s) = view_offset s" "cursor_row (push_scrollback l s) = cursor_row s"
  "cursor_col (push_scrollback l s) = cursor_col s" "attribute (push_scrollback l s) = attribute s"
  "crtc (push_scrollback l s) = crtc s"
  by (simp_all add: push_scrollback_def)

lemma head_slot: "((h + 1) mod 512 + d) mod 512 = (h + 1 + d) mod (512 :: int)"
  by (simp add: mod_simps)

text \<open>The slots of the kept lines before and after a line is stored at the head.\<close>

lemma ring_slot:
  fixes h c i :: int
  assumes "0 \<le> h" "h < 512" "0 \<le> c" "c \<le> 512" "0 \<le> i" "i < c"
  shows "c < 512 \<Longrightarrow> (h - c + i + 512) mod 512 \<noteq> h"
    and "((h + 1) mod 512 - (c + 1) + i + 512) mod 512 = (h - c + i + 512) mod 512"
    and "((h + 1) mod 512 - 512 + i + 512) mod 512 = (h - 512 + (i + 1) + 512) mod 512"
    and "i < 511 \<Longrightarrow> (h - 512 + (i + 1) + 512) mod 512 \<noteq> h"
    and "((h + 1) mod 512 - 1 + 512) mod 512 = h"
proof -
  have m: "(h + d) mod 512 \<noteq> h" if "0 < d \<or> d < 0" "- 512 < d" "d < 512" for d
  proof
    assume "(h + d) mod 512 = h"
    then have "(h + d) mod 512 = h mod 512" using assms(1,2) by (simp add: mod_pos_pos_trivial)
    then have "512 dvd d" by (metis add.commute add_diff_cancel_right' mod_eq_dvd_iff)
    with that show False by (auto dest: zdvd_imp_le [of 512 d] zdvd_imp_le [of 512 "- d"])
  qed
  have e: "(h - c + i + 512) mod 512 = (h + (i - c)) mod 512"
    using mod_add_self2 [of "h + (i - c)" 512] by (simp add: algebra_simps)
  show "c < 512 \<Longrightarrow> (h - c + i + 512) mod 512 \<noteq> h" unfolding e by (rule m) (use assms in auto)
  have "(h - 512 + (i + 1) + 512) = h + (i + 1)" by simp
  then show "i < 511 \<Longrightarrow> (h - 512 + (i + 1) + 512) mod 512 \<noteq> h" by (simp only:) (rule m; use assms in auto)
  show "((h + 1) mod 512 - (c + 1) + i + 512) mod 512 = (h - c + i + 512) mod 512"
    using head_slot [of h "i + 511 - c"] by (simp add: algebra_simps)
  show "((h + 1) mod 512 - 512 + i + 512) mod 512 = (h - 512 + (i + 1) + 512) mod 512"
    using head_slot [of h i] by (simp add: algebra_simps)
  show "((h + 1) mod 512 - 1 + 512) mod 512 = h"
    using head_slot [of h 511] assms(1,2) by (simp add: algebra_simps mod_pos_pos_trivial)
qed

lemma map_upt_shift:
  "(\<And>i. i < n \<Longrightarrow> f i = g (Suc i)) \<Longrightarrow> map f [0..<Suc n] = tl (map g [0..<Suc n]) @ [f n]"
proof -
  assume f: "\<And>i. i < n \<Longrightarrow> f i = g (Suc i)"
  have "map g [0..<Suc n] = g 0 # map (\<lambda>i. g (Suc i)) [0..<n]"
    unfolding upt_conv_Cons [OF zero_less_Suc] map_Suc_upt [symmetric] by simp
  with f show ?thesis by simp
qed

lemma kept_push:
  assumes ok: "vga_ok s"
  shows "kept (push_scrollback l s) = keep (kept s @ [l])"
proof -
  let ?h = "scrollback_head s" and ?c = "scrollback_count s" and ?s = "push_scrollback l s"
  have b: "0 \<le> ?h" "?h < 512" "0 \<le> ?c" "?c \<le> 512" "length (scrollback s) = 512"
    using ok by (auto simp: vga_ok_def grid_def)
  have upd: "scrollback ?s ! nat j = (if j = ?h then l else scrollback s ! nat j)" if "0 \<le> j" for j
    using b that by (auto simp: push_scrollback_def nth_list_update nat_eq_iff2)
  have pos: "0 \<le> j mod 512" for j :: int by simp
  have head: "scrollback_head ?s = (?h + 1) mod 512" by (simp add: push_scrollback_def SCROLLBACK_LINES_def)
  show ?thesis
  proof (cases "?c < 512")
    case True
    have c: "scrollback_count ?s = ?c + 1" using True by (simp add: push_scrollback_def SCROLLBACK_LINES_def)
    have old: "scrollback_line ?s i = scrollback_line s i" if "0 \<le> i" "i < ?c" for i
      using ring_slot(1,2) [OF b(1-4) that] True upd [OF pos]
      by (simp only: scrollback_line_def head c SCROLLBACK_LINES_def if_False)
    have "((?h + 1) mod 512 - (?c + 1) + ?c + 512) mod 512 = ?h"
      using head_slot [of ?h 511] b(1,2) by (simp add: algebra_simps mod_pos_pos_trivial)
    then have new: "scrollback_line ?s ?c = l"
      using upd [OF b(1)] by (simp add: scrollback_line_def head c SCROLLBACK_LINES_def)
    have "kept ?s = kept s @ [l]"
      using b(3) old new by (simp add: kept_def c nat_add_distrib)
    then show ?thesis using True b(3) by (simp add: keep_def kept_length)
  next
    case False
    then have c: "?c = 512" "scrollback_count ?s = 512" using b(4) by (simp_all add: push_scrollback_def SCROLLBACK_LINES_def)
    have old: "scrollback_line ?s (int i) = scrollback_line s (int (Suc i))" if "i < 511" for i
      using ring_slot(3,4) [of ?h 512 "int i"] b(1,2) that upd [OF pos]
      by (simp add: scrollback_line_def head c SCROLLBACK_LINES_def)
    have new: "scrollback_line ?s 511 = l"
      using ring_slot(5) [of ?h 512 0] b(1,2) upd [OF b(1)] by (simp add: scrollback_line_def head c SCROLLBACK_LINES_def)
    have n: "nat 512 = Suc 511" by simp
    have "kept ?s = tl (kept s) @ [scrollback_line ?s (int 511)]"
      unfolding kept_def c n by (rule map_upt_shift) (rule old)
    moreover have "length (kept s) = 512" using c by (simp add: kept_length)
    ultimately show ?thesis using new by (cases "kept s") (simp_all add: keep_def)
  qed
qed

lemma grid_update: "grid n S \<Longrightarrow> length l = 80 \<Longrightarrow> grid n (S[i := l])"
  by (auto simp: grid_def dest: set_update_subset_insert [THEN subsetD])

lemma push_ok:
  assumes "vga_ok s" "length l = 80" shows "vga_ok (push_scrollback l s)"
  using assms grid_update [of 512 "scrollback s" l]
  by (auto simp: vga_ok_def push_scrollback_def SCROLLBACK_LINES_def)

section \<open>Scrolling and clearing\<close>

lemma shift_up: "fold (\<lambda>row S. S[row - 1 := S ! row]) [1..<Suc n] S = take n (tl S) @ drop n S" if "n < length S"
  using that
proof (induction n)
  case 0
  then show ?case by simp
next
  case (Suc n)
  then have "drop n S = S ! n # S ! Suc n # drop (Suc (Suc n)) S" "drop (Suc n) S = S ! Suc n # drop (Suc (Suc n)) S"
    by (simp_all add: Cons_nth_drop_Suc)
  moreover have "take (Suc n) (tl S) = take n (tl S) @ [S ! Suc n]" using Suc.prems by (simp add: take_Suc_conv_app_nth nth_tl)
  moreover have "length (take n (tl S)) = n" using Suc.prems by simp
  ultimately show ?case using Suc by (simp add: nth_append list_update_append)
qed

lemma scroll_up_eq:
  assumes ok: "vga_ok (s\<lparr>cursor_row := 0\<rparr>)" and v: "view_offset s = 0"
  shows "screen (scroll_up_one s) = tl (screen s) @ [replicate 80 (cell 0x20 (attribute s))]"
    "kept (scroll_up_one s) = keep (kept s @ [hd (screen s)])"
    "cursor_row (scroll_up_one s) = 24" "cursor_col (scroll_up_one s) = cursor_col s"
    "view_offset (scroll_up_one s) = 0" "attribute (scroll_up_one s) = attribute s" "vga_ok (scroll_up_one s)"
proof -
  let ?p = "push_scrollback (screen s ! 0) s"
  have g: "grid 25 (screen s)" using ok by (simp add: vga_ok_def)
  then have l: "length (screen s) = 25" "\<forall>x\<in>set (screen s). length x = 80" by (simp_all add: grid_def)
  have "screen s ! 0 \<in> set (screen s)" "screen s ! 24 \<in> set (screen s)" using l(1) by simp_all
  then have l0: "length (screen s ! 0) = 80" "length (screen s ! 24) = 80" using l(2) by simp_all
  have h: "hd (screen s) = screen s ! 0" using l(1) by (cases "screen s") auto
  have d: "drop 24 (screen s) = [screen s ! 24]" using Cons_nth_drop_Suc [of 24 "screen s"] l(1) by simp
  have f: "fold (\<lambda>row S. S[row - 1 := S ! row]) [1..<25] (screen s) = tl (screen s) @ [screen s ! 24]"
    using shift_up [of 24 "screen s"] l(1) d by simp
  show scr: "screen (scroll_up_one s) = tl (screen s) @ [replicate 80 (cell 0x20 (attribute s))]"
    using f l(1) l0(2) by (simp add: scroll_up_one_def Let_def VGA_HEIGHT_def fill_row_eq nth_append list_update_append)
  have k: "kept (scroll_up_one s) = kept ?p"
    by (rule kept_cong) (simp_all add: scroll_up_one_def Let_def)
  have "kept (s\<lparr>cursor_row := 0\<rparr>) = kept s" "kept (push_scrollback (screen s ! 0) (s\<lparr>cursor_row := 0\<rparr>)) = kept ?p"
    by (rule kept_cong; simp add: push_scrollback_def)+
  with kept_push [OF ok, of "screen s ! 0"] k h show "kept (scroll_up_one s) = keep (kept s @ [hd (screen s)])" by simp
  show "cursor_row (scroll_up_one s) = 24" "cursor_col (scroll_up_one s) = cursor_col s"
    "view_offset (scroll_up_one s) = 0" "attribute (scroll_up_one s) = attribute s"
    using v by (simp_all add: scroll_up_one_def Let_def VGA_HEIGHT_def)
  have "grid 25 (screen (scroll_up_one s))"
    unfolding scr using l by (auto simp: grid_def dest: list.set_sel(2) [rotated])
  then show "vga_ok (scroll_up_one s)"
    using push_ok [OF ok l0(1)] v
    by (auto simp: vga_ok_def scroll_up_one_def push_scrollback_def Let_def VGA_HEIGHT_def split: if_splits)
qed

lemma last_row_bounds: "length (screen s) = 25 \<Longrightarrow> -1 \<le> last_row s \<and> last_row s < 25"
proof -
  have "-1 \<le> fold (\<lambda>row last. if P row then int row else last) [0..<n] (-1) \<and>
      fold (\<lambda>row last. if P row then int row else last) [0..<n] (-1) < int n" for P n
    by (induction n) auto
  from this [of "\<lambda>row. row_used (screen s ! row)" 25] show ?thesis by (simp add: last_row_def VGA_HEIGHT_def)
qed

lemma keep_keep: "keep (keep xs @ ys) = keep (xs @ ys)"
  by (cases "length xs \<le> 512") (auto simp: keep_def add.commute)

text \<open>Storing the first rows of the screen one after the other.\<close>

lemma archive_rows:
  assumes ok: "vga_ok s" and "n \<le> 25"
  shows "vga_ok (fold (\<lambda>row. push_scrollback (screen s ! row)) [0..<n] s) \<and>
    kept (fold (\<lambda>row. push_scrollback (screen s ! row)) [0..<n] s) = keep (kept s @ take n (screen s)) \<and>
    screen (fold (\<lambda>row. push_scrollback (screen s ! row)) [0..<n] s) = screen s \<and>
    attribute (fold (\<lambda>row. push_scrollback (screen s ! row)) [0..<n] s) = attribute s"
  using assms(2)
proof (induction n)
  case 0
  have "length (kept s) \<le> 512" using ok by (auto simp: kept_length vga_ok_def)
  with ok show ?case by (simp add: keep_def)
next
  case (Suc n)
  let ?s = "fold (\<lambda>row. push_scrollback (screen s ! row)) [0..<n] s"
  have i: "vga_ok ?s" "kept ?s = keep (kept s @ take n (screen s))" "screen ?s = screen s"
    "attribute ?s = attribute s" using Suc by simp_all
  have l: "length (screen s) = 25" "length (screen s ! n) = 80" using ok Suc.prems by (simp_all add: vga_ok_def grid_def)
  then have "take (Suc n) (screen s) = take n (screen s) @ [screen s ! n]" using Suc.prems by (simp add: take_Suc_conv_app_nth)
  then show ?case using i l push_ok [OF i(1) l(2)] kept_push [OF i(1)] keep_keep [of "kept s @ take n (screen s)"]
    by simp
qed

lemma clear_rows:
  "\<forall>x\<in>set S. length x = 80 \<Longrightarrow> n \<le> length S \<Longrightarrow>
     fold (\<lambda>row S. S[row := fill_row x (S ! row)]) [0..<n] S = replicate n (replicate 80 x) @ drop n S"
proof (induction n)
  case 0
  then show ?case by simp
next
  case (Suc n)
  then have "drop n S = S ! n # drop (Suc n) S" "length (S ! n) = 80" by (simp_all add: Cons_nth_drop_Suc)
  with Suc show ?case by (simp add: nth_append list_update_append fill_row_eq replicate_append_same)
qed

definition blank_screen :: "u8 \<Rightarrow> u16 list list" where
  "blank_screen attr = replicate 25 (replicate 80 (cell 0x20 attr))"

lemma vga_clear_eq:
  assumes ok: "vga_ok s"
  shows "screen (vga_clear s) = blank_screen (attribute s)"
    "kept (vga_clear s) = keep (kept s @ take (nat (last_row s + 1)) (screen s))"
    "cursor_row (vga_clear s) = 0" "cursor_col (vga_clear s) = 0" "view_offset (vga_clear s) = 0"
    "attribute (vga_clear s) = attribute s" "vga_ok (vga_clear s)"
    "vram (vga_clear s) = concat (window (vga_clear s))" "cursor_shown (vga_clear s)"
proof -
  let ?a = "archive_screen s"
  have "nat (last_row s + 1) \<le> 25" using last_row_bounds [of s] ok by (auto simp: vga_ok_def grid_def)
  from archive_rows [OF ok this] have a: "vga_ok ?a" "kept ?a = keep (kept s @ take (nat (last_row s + 1)) (screen s))"
    "screen ?a = screen s" "attribute ?a = attribute s" by (simp_all add: archive_screen_def)
  have g: "length (screen s) = 25" "\<forall>x\<in>set (screen s). length x = 80" using ok by (simp_all add: vga_ok_def grid_def)
  let ?c = "?a\<lparr>screen := blank_screen (attribute s), cursor_row := 0, cursor_col := 0, view_offset := 0\<rparr>"
  have c: "vga_clear s = repaint ?c"
    using a g clear_rows [OF g(2), of 25] by (simp add: vga_clear_def Let_def VGA_HEIGHT_def blank_screen_def)
  have okc: "vga_ok ?c" using a(1) by (simp add: vga_ok_def grid_def blank_screen_def)
  have "kept ?c = kept ?a" by (rule kept_cong) simp_all
  with a show "kept (vga_clear s) = keep (kept s @ take (nat (last_row s + 1)) (screen s))"
    unfolding c using repaint_paints(5) [OF okc] by simp
  show "vga_ok (vga_clear s)" "vram (vga_clear s) = concat (window (vga_clear s))" "cursor_shown (vga_clear s)"
    unfolding c by (rule repaint_paints [OF okc])+
  show "screen (vga_clear s) = blank_screen (attribute s)" "cursor_row (vga_clear s) = 0" "cursor_col (vga_clear s) = 0"
    "view_offset (vga_clear s) = 0" "attribute (vga_clear s) = attribute s"
    unfolding c using a by simp_all
qed

section \<open>The terminal\<close>

text \<open>
  The abstract terminal: a screen of 25 lines, the last 512 lines that left it, and a cursor.
  Nothing of the ring, the shadow copy, the view or the hardware is left in it.
\<close>

record terminal =
  t_kept :: "u16 list list"
  t_screen :: "u16 list list"
  t_row :: nat
  t_col :: nat

definition set_cell :: "nat \<Rightarrow> nat \<Rightarrow> u16 \<Rightarrow> u16 list list \<Rightarrow> u16 list list" where
  "set_cell r k x S = S[r := (S ! r)[k := x]]"

definition t_step_back :: "terminal \<Rightarrow> terminal" where
  "t_step_back t =
     (if t_col t > 0 then t\<lparr>t_col := t_col t - 1\<rparr>
      else if t_row t > 0 then t\<lparr>t_row := t_row t - 1, t_col := 79\<rparr>
      else t)"

definition t_char :: "u8 \<Rightarrow> u8 \<Rightarrow> terminal \<Rightarrow> terminal" where
  "t_char attr c t =
     (if c = 0x0A then t\<lparr>t_row := t_row t + 1, t_col := 0\<rparr>
      else if c = 0x0D then t\<lparr>t_col := 0\<rparr>
      else if c = 0x09 then t\<lparr>t_col := (t_col t div 4 + 1) * 4\<rparr>
      else if c = 0x08 then
        (let t = t_step_back t in t\<lparr>t_screen := set_cell (t_row t) (t_col t) (cell 0x20 attr) (t_screen t)\<rparr>)
      else t\<lparr>t_screen := set_cell (t_row t) (t_col t) (cell c attr) (t_screen t), t_col := t_col t + 1\<rparr>)"

definition t_wrap :: "terminal \<Rightarrow> terminal" where
  "t_wrap t = (if t_col t < 80 then t else t\<lparr>t_row := t_row t + 1, t_col := 0\<rparr>)"

definition t_scroll :: "u8 \<Rightarrow> terminal \<Rightarrow> terminal" where
  "t_scroll attr t =
     (if t_row t < 25 then t
      else t\<lparr>t_kept := keep (t_kept t @ [hd (t_screen t)]),
             t_screen := tl (t_screen t) @ [replicate 80 (cell 0x20 attr)], t_row := 24\<rparr>)"

definition t_putc :: "u8 \<Rightarrow> u8 \<Rightarrow> terminal \<Rightarrow> terminal" where
  "t_putc attr c t = t_scroll attr (t_wrap (t_char attr c t))"

definition terminal_of :: "vga \<Rightarrow> terminal" where
  "terminal_of s = \<lparr>t_kept = kept s, t_screen = screen s, t_row = nat (cursor_row s), t_col = nat (cursor_col s)\<rparr>"

text \<open>The state between two operations: video memory is the window, the cursor is where it belongs.\<close>

definition vga_inv :: "vga \<Rightarrow> bool" where
  "vga_inv s \<longleftrightarrow> vga_ok s \<and> vram s = concat (window s) \<and> cursor_shown s"

lemma window_bottom: "vga_ok s \<Longrightarrow> view_offset s = 0 \<Longrightarrow> window s = screen s"
  by (auto simp: window_def kept_length vga_ok_def grid_def)

lemma concat_set_cell:
  "\<forall>l\<in>set S. length l = 80 \<Longrightarrow> r < length S \<Longrightarrow> k < 80 \<Longrightarrow>
     concat (set_cell r k x S) = (concat S)[r * 80 + k := x]"
proof (induction S arbitrary: r)
  case Nil
  then show ?case by simp
next
  case (Cons l S)
  then show ?case by (cases r) (auto simp: set_cell_def list_update_append add.assoc)
qed

lemma tab_stop: "0 \<le> k \<Longrightarrow> (k + 4) AND NOT 3 = (k div 4 + 1) * (4 :: int)"
proof -
  have e: "x AND NOT (mask m) = push_bit m (drop_bit m x)" for x :: int and m
    by (rule bit_eqI) (auto simp: bit_simps)
  have "(k + 4) AND NOT 3 = (k + 4) AND NOT (mask 2)" by (simp add: mask_eq_exp_minus_1)
  also have "\<dots> = push_bit 2 (drop_bit 2 (k + 4))" by (rule e)
  also have "\<dots> = (k + 4) div 4 * 4" by (simp add: push_bit_eq_mult drop_bit_eq_div)
  also have "(k + 4) div 4 = k div 4 + 1" by simp
  finally show "(k + 4) AND NOT 3 = (k div 4 + 1) * 4" .
qed

text \<open>Being within the screen but for a cursor that may have run off its right or bottom edge.\<close>

definition vga_mid :: "vga \<Rightarrow> bool" where
  "vga_mid s \<longleftrightarrow> vga_ok (s\<lparr>cursor_row := 0, cursor_col := 0\<rparr>) \<and> view_offset s = 0 \<and> vram s = concat (screen s) \<and>
     0 \<le> cursor_row s \<and> cursor_row s \<le> 25 \<and> 0 \<le> cursor_col s \<and> cursor_col s \<le> 80 \<and>
     (cursor_col s = 80 \<longrightarrow> cursor_row s < 25)"

lemma put_cell_mid:
  assumes ok: "vga_ok s" "view_offset s = 0" "vram s = concat (screen s)"
  shows "vga_ok (put_cell c s)" "vram (put_cell c s) = concat (screen (put_cell c s))"
    "screen (put_cell c s) = set_cell (nat (cursor_row s)) (nat (cursor_col s)) (cell c (attribute s)) (screen s)"
    "kept (put_cell c s) = kept s" "cursor_row (put_cell c s) = cursor_row s" "cursor_col (put_cell c s) = cursor_col s"
    "view_offset (put_cell c s) = 0" "attribute (put_cell c s) = attribute s"
proof -
  show f: "screen (put_cell c s) = set_cell (nat (cursor_row s)) (nat (cursor_col s)) (cell c (attribute s)) (screen s)"
    "cursor_row (put_cell c s) = cursor_row s" "cursor_col (put_cell c s) = cursor_col s"
    "view_offset (put_cell c s) = 0" "attribute (put_cell c s) = attribute s"
    using ok(2) by (simp_all add: put_cell_def set_cell_def Let_def)
  show "kept (put_cell c s) = kept s" by (rule kept_cong) (simp_all add: put_cell_def Let_def)
  have b: "nat (cursor_row s) < 25" "nat (cursor_col s) < 80" "length (screen s) = 25" "\<forall>l\<in>set (screen s). length l = 80"
    "nat (cursor_row s * 80 + cursor_col s) = nat (cursor_row s) * 80 + nat (cursor_col s)"
    using ok(1) by (auto simp: vga_ok_def grid_def nat_add_distrib nat_mult_distrib)
  then show "vram (put_cell c s) = concat (screen (put_cell c s))"
    unfolding f using concat_set_cell [of "screen s" "nat (cursor_row s)" "nat (cursor_col s)"] ok(3)
    by (simp add: put_cell_def Let_def VGA_WIDTH_def)
  have "length ((screen s ! nat (cursor_row s))[nat (cursor_col s) := cell c (attribute s)]) = 80" using b by simp
  with ok(1) have "grid 25 (screen (put_cell c s))"
    unfolding f set_cell_def by (intro grid_update) (simp_all add: vga_ok_def)
  with ok(1) show "vga_ok (put_cell c s)" by (simp add: vga_ok_def put_cell_def Let_def)
qed

lemma put_char_mid:
  assumes ok: "vga_ok s" "view_offset s = 0" "vram s = concat (screen s)"
  shows "vga_mid (put_char c s)" "terminal_of (put_char c s) = t_char (attribute s) c (terminal_of s)"
    "attribute (put_char c s) = attribute s"
proof -
  have b: "0 \<le> cursor_row s" "cursor_row s < 25" "0 \<le> cursor_col s" "cursor_col s < 80"
    using ok(1) by (auto simp: vga_ok_def)
  have cur: "vga_ok (s\<lparr>cursor_row := r, cursor_col := k\<rparr>)" if "0 \<le> r" "r < 25" "0 \<le> k" "k < 80" for r k
    using ok(1) that by (simp add: vga_ok_def)
  have mid: "vga_mid (t\<lparr>cursor_row := r, cursor_col := k\<rparr>)"
    if "vga_ok t" "view_offset t = 0" "vram t = concat (screen t)" "0 \<le> r" "r \<le> 25" "0 \<le> k" "k \<le> 80" "k = 80 \<longrightarrow> r < 25" for t r k
    using that by (simp add: vga_mid_def vga_ok_def)
  have kc: "kept (s\<lparr>cursor_row := r, cursor_col := k\<rparr>) = kept s" for r k by (rule kept_cong) simp_all
  consider "c = 0x0A" | "c = 0x0D" | "c = 0x09" | "c = 0x08" | "c \<noteq> 0x0A" "c \<noteq> 0x0D" "c \<noteq> 0x09" "c \<noteq> 0x08" by blast
  then have "vga_mid (put_char c s) \<and> terminal_of (put_char c s) = t_char (attribute s) c (terminal_of s) \<and>
      attribute (put_char c s) = attribute s"
  proof cases
    case 1
    then have "put_char c s = s\<lparr>cursor_row := cursor_row s + 1, cursor_col := 0\<rparr>" by (simp add: put_char_def)
    with 1 mid [OF ok, of "cursor_row s + 1" 0] b kc show ?thesis by (simp add: t_char_def terminal_of_def nat_add_distrib)
  next
    case 2
    then have "put_char c s = s\<lparr>cursor_row := cursor_row s, cursor_col := 0\<rparr>" by (simp add: put_char_def)
    moreover have "kept (s\<lparr>cursor_col := 0\<rparr>) = kept s" by (rule kept_cong) simp_all
    ultimately show ?thesis using 2 mid [OF ok, of "cursor_row s" 0] b
      by (simp add: t_char_def terminal_of_def)
  next
    case 3
    let ?k = "(cursor_col s div 4 + 1) * 4"
    have "put_char c s = s\<lparr>cursor_row := cursor_row s, cursor_col := ?k\<rparr>"
      using 3 tab_stop [OF b(3)] by (simp add: put_char_def)
    moreover have "cursor_col s div 4 < 20" using b(4) by simp
    then have "?k \<le> 80" "0 \<le> ?k" "nat ?k = (nat (cursor_col s) div 4 + 1) * 4"
      using b(3) by (simp_all add: nat_mult_distrib nat_add_distrib nat_div_distrib pos_imp_zdiv_nonneg_iff)
    moreover have "kept (s\<lparr>cursor_col := ?k\<rparr>) = kept s" by (rule kept_cong) simp_all
    ultimately show ?thesis
      using 3 mid [OF ok, of "cursor_row s" ?k] b kc by (simp add: t_char_def terminal_of_def del: distrib_right_numeral)
  next
    case 4
    define r k where "r = (if cursor_col s > 0 \<or> cursor_row s = 0 then cursor_row s else cursor_row s - 1)"
      and "k = (if cursor_col s > 0 then cursor_col s - 1 else if cursor_row s > 0 then 79 else 0)"
    let ?s = "s\<lparr>cursor_row := r, cursor_col := k\<rparr>"
    have rk: "0 \<le> r" "r < 25" "0 \<le> k" "k < 80" using b by (auto simp: r_def k_def)
    have "(if cursor_col s > 0 then s\<lparr>cursor_col := cursor_col s - 1\<rparr>
           else if cursor_row s > 0 then s\<lparr>cursor_row := cursor_row s - 1, cursor_col := VGA_WIDTH - 1\<rparr> else s) = ?s"
      using b by (auto simp: r_def k_def VGA_WIDTH_def)
    then have p: "put_char c s = put_cell 0x20 ?s" using 4 by (simp add: put_char_def)
    have t: "t_step_back (terminal_of s) = (terminal_of s)\<lparr>t_row := nat r, t_col := nat k\<rparr>"
      using b by (auto simp: t_step_back_def terminal_of_def r_def k_def nat_diff_distrib)
    note q = put_cell_mid [OF cur [OF rk], of "0x20"]
    have "vga_mid (put_cell 0x20 ?s)" using q(1,2,5-7) rk ok(2,3) by (simp add: vga_mid_def vga_ok_def)
    moreover have "terminal_of (put_cell 0x20 ?s) = t_char (attribute s) c (terminal_of s)"
      using q(3-6) ok(2,3) 4 t kc by (simp add: t_char_def terminal_of_def Let_def)
    ultimately show ?thesis unfolding p using q(8) ok(2,3) by simp
  next
    case 5
    then have p: "put_char c s = put_cell c s\<lparr>cursor_row := cursor_row s, cursor_col := cursor_col s + 1\<rparr>"
      using put_cell_mid(5,6) [OF ok, of c] by (simp add: put_char_def Let_def)
    note q = put_cell_mid [OF ok, of c]
    have "kept (put_char c s) = kept s" unfolding p q(4) [symmetric] by (rule kept_cong) simp_all
    then have "terminal_of (put_char c s) = t_char (attribute s) c (terminal_of s)"
      using 5 q(3) b unfolding p by (simp add: t_char_def terminal_of_def nat_add_distrib)
    with mid [OF q(1,7,2), of "cursor_row s" "cursor_col s + 1"] b q(8) show ?thesis unfolding p by simp
  qed
  then show "vga_mid (put_char c s)" "terminal_of (put_char c s) = t_char (attribute s) c (terminal_of s)"
    "attribute (put_char c s) = attribute s" by simp_all
qed

lemma to_bottom:
  assumes inv: "vga_inv s" and a: "a = (if view_offset s \<noteq> 0 then repaint (s\<lparr>view_offset := 0\<rparr>) else s)"
  shows "vga_inv a" "view_offset a = 0" "terminal_of a = terminal_of s" "attribute a = attribute s"
    "vram a = concat (screen a)" "screen a = screen s"
proof -
  have "vga_ok s" using inv by (simp add: vga_inv_def)
  then have "vga_ok (s\<lparr>view_offset := 0\<rparr>)" by (simp add: vga_ok_def)
  note r = repaint_paints [OF this]
  have k: "kept (s\<lparr>view_offset := 0\<rparr>) = kept s" by (rule kept_cong) simp_all
  show i: "vga_inv a" using r(1-3) inv a by (simp add: vga_inv_def)
  show v: "view_offset a = 0" "screen a = screen s" "attribute a = attribute s" using a by simp_all
  show "terminal_of a = terminal_of s" using r(5) k a by (simp add: terminal_of_def)
  show "vram a = concat (screen a)" using i window_bottom [of a] v(1) by (simp add: vga_inv_def)
qed

lemma vga_putc_terminal:
  assumes inv: "vga_inv s"
  shows "vga_inv (vga_putc c s)" "terminal_of (vga_putc c s) = t_putc (attribute s) c (terminal_of s)"
    "view_offset (vga_putc c s) = 0" "attribute (vga_putc c s) = attribute s"
proof -
  let ?a = "if view_offset s \<noteq> 0 then repaint (s\<lparr>view_offset := 0\<rparr>) else s"
  note a = to_bottom [OF inv refl]
  have ok: "vga_ok ?a" "vram ?a = concat (screen ?a)" using a(1,5) unfolding vga_inv_def by blast+
  define p where "p = put_char c ?a"
  define w where "w = (if cursor_col p \<ge> VGA_WIDTH then p\<lparr>cursor_col := 0, cursor_row := cursor_row p + 1\<rparr> else p)"
  have put: "vga_putc c s = (if cursor_row w \<ge> VGA_HEIGHT then repaint (scroll_up_one w) else move_hardware_cursor w)"
    by (simp only: vga_putc_def Let_def p_def w_def)
  from put_char_mid [OF ok(1) a(2) ok(2), of c] have p: "vga_mid p" "terminal_of p = t_char (attribute s) c (terminal_of s)"
    "attribute p = attribute s" unfolding p_def a(3,4) by simp_all
  then have pm: "vga_ok (p\<lparr>cursor_row := 0, cursor_col := 0\<rparr>)" "view_offset p = 0" "vram p = concat (screen p)"
    "0 \<le> cursor_row p" "cursor_row p \<le> 25" "0 \<le> cursor_col p" "cursor_col p \<le> 80"
    "cursor_col p = 80 \<longrightarrow> cursor_row p < 25" by (simp_all add: vga_mid_def)
  have kw: "kept w = kept p" by (rule kept_cong) (simp_all add: w_def)
  have w: "vga_ok (w\<lparr>cursor_row := 0\<rparr>)" "view_offset w = 0" "vram w = concat (screen w)" "attribute w = attribute s"
    "0 \<le> cursor_row w" "cursor_row w \<le> 25" "0 \<le> cursor_col w" "cursor_col w < 80"
    "terminal_of w = t_wrap (t_char (attribute s) c (terminal_of s))"
    using pm p(3) kw p(2) [symmetric]
    by (auto simp: w_def VGA_WIDTH_def vga_ok_def t_wrap_def terminal_of_def nat_add_distrib)
  have "vga_inv (vga_putc c s) \<and> terminal_of (vga_putc c s) = t_putc (attribute s) c (terminal_of s) \<and>
      view_offset (vga_putc c s) = 0 \<and> attribute (vga_putc c s) = attribute s"
  proof (cases "cursor_row w \<ge> 25")
    case True
    note u = scroll_up_eq [OF w(1,2)]
    note r = repaint_paints [OF u(7)]
    have "terminal_of (repaint (scroll_up_one w)) = t_scroll (attribute s) (terminal_of w)"
      using u r(5) True w(4) by (simp add: terminal_of_def t_scroll_def)
    with True r(1-3) u(5,6) w(4,9) show ?thesis by (simp add: put VGA_HEIGHT_def vga_inv_def t_putc_def)
  next
    case False
    have okw: "vga_ok w" using w(1,5,7,8) False by (simp add: vga_ok_def)
    have km: "kept (move_hardware_cursor w) = kept w" by (rule kept_cong) simp_all
    then have "window (move_hardware_cursor w) = window w" by (simp add: window_def)
    moreover have "vga_ok (move_hardware_cursor w)" using okw by (simp add: vga_ok_def)
    moreover have "cursor_shown (move_hardware_cursor w)" by (rule move_cursor_shown) (use okw in \<open>simp_all add: vga_ok_def\<close>)
    moreover have "t_scroll (attribute s) (terminal_of w) = terminal_of w" using False w(5) by (simp add: t_scroll_def terminal_of_def)
    ultimately show ?thesis
      using False w(2-4,9) window_bottom [OF okw w(2)] km by (simp add: put VGA_HEIGHT_def vga_inv_def t_putc_def terminal_of_def)
  qed
  then show "vga_inv (vga_putc c s)" "terminal_of (vga_putc c s) = t_putc (attribute s) c (terminal_of s)"
    "view_offset (vga_putc c s) = 0" "attribute (vga_putc c s) = attribute s" by simp_all
qed

section \<open>The other operations\<close>

lemma vga_inv_view:
  assumes inv: "vga_inv s" and v: "0 \<le> v" "v \<le> scrollback_count s"
  shows "vga_inv (repaint (s\<lparr>view_offset := v\<rparr>))" "kept (repaint (s\<lparr>view_offset := v\<rparr>)) = kept s"
proof -
  have "vga_ok s" using inv by (simp add: vga_inv_def)
  then have "vga_ok (s\<lparr>view_offset := v\<rparr>)" using v by (simp add: vga_ok_def)
  note r = repaint_paints [OF this]
  show "vga_inv (repaint (s\<lparr>view_offset := v\<rparr>))" using r(1-3) by (simp add: vga_inv_def)
  have "kept (s\<lparr>view_offset := v\<rparr>) = kept s" by (rule kept_cong) simp_all
  then show "kept (repaint (s\<lparr>view_offset := v\<rparr>)) = kept s" using r(5) by simp
qed

lemma vga_scroll_view_inv:
  assumes inv: "vga_inv s"
  shows "vga_inv (vga_scroll_view n s)" "terminal_of (vga_scroll_view n s) = terminal_of s"
    "view_offset (vga_scroll_view n s) = max 0 (min (scrollback_count s) (view_offset s + n))"
proof -
  let ?t = "max 0 (min (scrollback_count s) (view_offset s + n))"
  have c: "0 \<le> scrollback_count s" using inv by (simp add: vga_inv_def vga_ok_def)
  then have d: "vga_scroll_view n s = (if ?t = view_offset s then s else repaint (s\<lparr>view_offset := ?t\<rparr>))"
    by (auto simp: vga_scroll_view_def Let_def)
  note r = vga_inv_view [OF inv, of ?t]
  show "vga_inv (vga_scroll_view n s)" unfolding d using r(1) inv c by simp
  show "terminal_of (vga_scroll_view n s) = terminal_of s"
    unfolding d using r(2) c by (simp add: terminal_of_def)
  show "view_offset (vga_scroll_view n s) = ?t" unfolding d by simp
qed

lemma vga_scroll_to_bottom_inv:
  "vga_inv s \<Longrightarrow> vga_inv (vga_scroll_to_bottom s)" "vga_inv s \<Longrightarrow> terminal_of (vga_scroll_to_bottom s) = terminal_of s"
  "view_offset (vga_scroll_to_bottom s) = 0"
  using vga_inv_view [of s 0] by (auto simp: vga_scroll_to_bottom_def terminal_of_def vga_inv_def vga_ok_def)

lemma vga_set_cursor_inv:
  assumes inv: "vga_inv s"
  shows "vga_inv (vga_set_cursor r c s)"
    "terminal_of (vga_set_cursor r c s) = (terminal_of s)\<lparr>t_row := nat (max 0 (min 24 r)), t_col := nat (max 0 (min 79 c))\<rparr>"
proof -
  let ?s = "s\<lparr>cursor_row := max 0 (min 24 r), cursor_col := max 0 (min 79 c)\<rparr>"
  have d: "vga_set_cursor r c s = move_hardware_cursor ?s" by (auto simp: vga_set_cursor_def vga_consts Let_def)
  have ok: "vga_ok s" using inv by (simp add: vga_inv_def)
  have k: "kept (move_hardware_cursor ?s) = kept s" by (rule kept_cong) simp_all
  then have w: "window (move_hardware_cursor ?s) = window s" by (simp add: window_def)
  have "cursor_shown (move_hardware_cursor ?s)" by (rule move_cursor_shown) auto
  moreover have "vga_ok (move_hardware_cursor ?s)" using ok by (auto simp: vga_ok_def)
  ultimately show "vga_inv (vga_set_cursor r c s)" unfolding d using inv w by (simp add: vga_inv_def)
  show "terminal_of (vga_set_cursor r c s) = (terminal_of s)\<lparr>t_row := nat (max 0 (min 24 r)), t_col := nat (max 0 (min 79 c))\<rparr>"
    unfolding d using k by (simp add: terminal_of_def)
qed

lemma vga_set_color_inv:
  "vga_inv s \<Longrightarrow> vga_inv (vga_set_color fg bg s)" "terminal_of (vga_set_color fg bg s) = terminal_of s"
proof -
  have k: "kept (vga_set_color fg bg s) = kept s" by (rule kept_cong) (simp_all add: vga_set_color_def)
  then show "terminal_of (vga_set_color fg bg s) = terminal_of s" by (simp add: terminal_of_def vga_set_color_def)
  from k have "window (vga_set_color fg bg s) = window s"
    unfolding window_def by (simp only:) (simp add: vga_set_color_def)
  moreover have "vga_ok (vga_set_color fg bg s) = vga_ok s" "cursor_shown (vga_set_color fg bg s) = cursor_shown s"
    by (simp_all add: vga_ok_def cursor_shown_def vga_set_color_def)
  ultimately show "vga_inv s \<Longrightarrow> vga_inv (vga_set_color fg bg s)" by (simp add: vga_inv_def vga_set_color_def)
qed

lemma vga_clear_inv: "vga_inv s \<Longrightarrow> vga_inv (vga_clear s)"
  using vga_clear_eq [of s] by (simp add: vga_inv_def)

text \<open>Before \<open>vga_init\<close> nothing is known of the state but the sizes of its arrays.\<close>

definition vga_arrays :: "vga \<Rightarrow> bool" where
  "vga_arrays s \<longleftrightarrow> length (vram s) = 2000 \<and> grid 25 (screen s) \<and> grid 512 (scrollback s) \<and>
     0 \<le> cursor_row s \<and> cursor_row s < 25 \<and> 0 \<le> cursor_col s \<and> cursor_col s < 80"

lemma vga_init_inv:
  assumes "vga_arrays s"
  shows "vga_inv (vga_init s)" "screen (vga_init s) = blank_screen 7" "view_offset (vga_init s) = 0"
    "attribute (vga_init s) = 7" "cursor_row (vga_init s) = 0" "cursor_col (vga_init s) = 0"
    "kept (vga_init s) = keep (take (nat (last_row s + 1)) (screen s))"
proof -
  let ?s = "(vga_set_color VGA_LIGHT_GREY VGA_BLACK s)\<lparr>scrollback_head := 0, scrollback_count := 0, view_offset := 0\<rparr>"
  have ok: "vga_ok ?s" using assms by (simp add: vga_ok_def vga_arrays_def vga_set_color_def)
  note c = vga_clear_eq [OF ok]
  let ?i = "vga_init s"
  have d: "?i = crtc_write 0x0B 15 (crtc_write 0x0A 14 (vga_clear ?s))" by (simp add: vga_init_def Let_def)
  have f: "vram ?i = vram (vga_clear ?s)" "screen ?i = screen (vga_clear ?s)" "view_offset ?i = view_offset (vga_clear ?s)"
    "attribute ?i = attribute (vga_clear ?s)" "cursor_row ?i = cursor_row (vga_clear ?s)" "cursor_col ?i = cursor_col (vga_clear ?s)"
    "vga_ok ?i = vga_ok (vga_clear ?s)" "cursor_shown ?i = cursor_shown (vga_clear ?s)"
    unfolding d by (simp_all add: crtc_write_def vga_ok_def cursor_shown_def)
  have k: "kept ?i = kept (vga_clear ?s)" unfolding d by (rule kept_cong) (simp_all add: crtc_write_def)
  then have "window ?i = window (vga_clear ?s)" unfolding d by (simp add: window_def crtc_write_def)
  with c f show "vga_inv ?i" by (simp add: vga_inv_def)
  show "screen ?i = blank_screen 7" "view_offset ?i = 0" "attribute ?i = 7" "cursor_row ?i = 0" "cursor_col ?i = 0"
    using c f by (simp_all add: vga_set_color_def VGA_LIGHT_GREY_def VGA_BLACK_def)
  have "kept ?s = []" by (simp add: kept_def)
  moreover have "last_row ?s = last_row s" by (simp add: last_row_def vga_set_color_def)
  ultimately show "kept ?i = keep (take (nat (last_row s + 1)) (screen s))"
    using c(2) k by (simp add: vga_set_color_def)
qed

section \<open>Properties\<close>

datatype vga_op =
    Put u8
  | Clear
  | Color u8 u8
  | Cursor int int
  | View int
  | Bottom

fun vga_do :: "vga_op \<Rightarrow> vga \<Rightarrow> vga" where
  "vga_do (Put c) = vga_putc c"
| "vga_do Clear = vga_clear"
| "vga_do (Color fg bg) = vga_set_color fg bg"
| "vga_do (Cursor r c) = vga_set_cursor r c"
| "vga_do (View n) = vga_scroll_view n"
| "vga_do Bottom = vga_scroll_to_bottom"

lemma vga_do_inv: "vga_inv s \<Longrightarrow> vga_inv (vga_do op s)"
  using vga_putc_terminal(1) vga_clear_inv vga_set_color_inv(1) vga_set_cursor_inv(1) vga_scroll_view_inv(1)
    vga_scroll_to_bottom_inv(1) by (cases op) simp_all

definition raw_vga :: vga where
  "raw_vga = \<lparr>vram = replicate 2000 0, crtc = (\<lambda>_. 0), screen = replicate 25 (replicate 80 0),
     scrollback = replicate 512 (replicate 80 0), scrollback_head = 9, scrollback_count = 9, view_offset = 9,
     cursor_row = 0, cursor_col = 0, attribute = 0\<rparr>"

lemma raw_vga_arrays: "vga_arrays raw_vga"
  by (simp add: vga_arrays_def raw_vga_def grid_def)

text \<open>Property C23: whatever calls of the driver follow \<open>vga_init\<close>, in whatever order: the cursor
  and the view stay in range, video memory shows exactly the 25 lines of scrollback and
  screen that the view is at, and the display controller has the cursor at its place, or off
  the screen while the view is scrolled back.\<close>

theorem vga_mirrors:
  assumes "vga_arrays s0" "s = fold vga_do ops (vga_init s0)"
  shows "vga_ok s \<and> vram s = concat (take 25 (drop (nat (scrollback_count s - view_offset s)) (kept s @ screen s))) \<and>
    uint (crtc s 0x0E) * 256 + uint (crtc s 0x0F) =
      (if view_offset s > 0 then 80 * 25 else cursor_row s * 80 + cursor_col s)"
proof -
  have "vga_inv (fold vga_do ops (vga_init s0))"
  proof (induction ops rule: rev_induct)
    case Nil
    then show ?case using vga_init_inv(1) [OF assms(1)] by simp
  next
    case (snoc op ops)
    then show ?case using vga_do_inv by simp
  qed
  then show ?thesis unfolding assms(2) vga_inv_def window_def cursor_shown_def by simp
qed

theorem vga_mirrors_witness:
  "vga_ok (fold vga_do [Put 0x41, View 3, Put 0x0A] (vga_init raw_vga))"
  using vga_mirrors [OF raw_vga_arrays refl] by blast

text \<open>Property C24: \<open>vga_putc\<close> is the terminal step: it brings the view back to the live screen,
  writes, moves and wraps the cursor as the character says, and at the bottom moves the top
  line, unchanged, to the end of the scrollback, of which it keeps the last 512 lines; and
  video memory then holds the screen.\<close>

theorem vga_putc_refines:
  assumes "vga_inv s"
  shows "vga_inv (vga_putc c s) \<and> terminal_of (vga_putc c s) = t_putc (attribute s) c (terminal_of s) \<and>
    view_offset (vga_putc c s) = 0 \<and> vram (vga_putc c s) = concat (screen (vga_putc c s))"
proof -
  note p = vga_putc_terminal [OF assms, of c]
  have "vga_ok (vga_putc c s)" "vram (vga_putc c s) = concat (window (vga_putc c s))"
    using p(1) by (simp_all add: vga_inv_def)
  with p window_bottom show ?thesis by metis
qed

theorem vga_putc_refines_witness:
  "t_screen (terminal_of (vga_putc 0x41 (vga_init raw_vga))) ! 0 ! 0 = cell 0x41 7"
proof -
  note i = vga_init_inv [OF raw_vga_arrays]
  from vga_putc_refines [OF i(1), of "0x41"] i(2,4-6) show ?thesis
    by (simp add: t_putc_def t_char_def t_wrap_def t_scroll_def terminal_of_def set_cell_def blank_screen_def)
qed

end
