(* ===== verification/Console.thy ===== *)
theory Console
  imports Vga Keyboard
begin

text \<open>
  The line editor of \<open>kernel/console.c\<close> and its history.  The keys are what the successive calls of
  \<open>keyboard_getchar\<close> return; the screen is the state of the VGA driver.  A buffer is the C string
  it holds.
\<close>

section \<open>The history\<close>

definition LINE_MAX :: nat where "LINE_MAX = 256"
definition HISTORY_MAX :: int where "HISTORY_MAX = 16"
definition SCROLL_STEP :: int where "SCROLL_STEP = 3"
definition PAGE_STEP :: int where "PAGE_STEP = VGA_HEIGHT - 2"

record console =
  history :: "string list"
  history_total :: int

definition console_history_push :: "string option \<Rightarrow> console \<Rightarrow> console" where
  "console_history_push line c =
     (case line of None \<Rightarrow> c | Some l \<Rightarrow>
        if l = [] then c
        else if history_total c > 0 \<and> history c ! nat ((history_total c - 1) mod HISTORY_MAX) = l then c
        else c\<lparr>history := (history c)[nat (history_total c mod HISTORY_MAX) := take (LINE_MAX - 1) l],
               history_total := history_total c + 1\<rparr>)"

definition console_history_count :: "console \<Rightarrow> int" where
  "console_history_count c = history_total c"

definition console_history_at :: "int \<Rightarrow> console \<Rightarrow> string option" where
  "console_history_at index c =
     (if index < 0 \<or> index \<ge> history_total c then None
      else if history_total c > HISTORY_MAX \<and> index < history_total c - HISTORY_MAX then None
      else Some (history c ! nat (index mod HISTORY_MAX)))"

section \<open>Echo\<close>

datatype console_echo_t = CONSOLE_ECHO_PLAIN | CONSOLE_ECHO_HIDDEN | CONSOLE_ECHO_STARS

definition echo_char :: "console_echo_t \<Rightarrow> char \<Rightarrow> vga \<Rightarrow> vga" where
  "echo_char echo c v =
     (if echo = CONSOLE_ECHO_PLAIN then vga_putc (of_char c) v
      else if echo = CONSOLE_ECHO_STARS then vga_putc (of_char (CHR ''*'')) v
      else v)"

definition echo_string :: "console_echo_t \<Rightarrow> string \<Rightarrow> vga \<Rightarrow> vga" where
  "echo_string echo s v = fold (echo_char echo) s v"

definition redraw :: "console_echo_t \<Rightarrow> string \<Rightarrow> int \<Rightarrow> vga \<Rightarrow> vga \<times> int" where
  "redraw echo line drawn v =
     (let v = ((vga_putc 0x08) ^^ nat drawn) v;
          v = echo_string echo line v
      in (v, if echo = CONSOLE_ECHO_HIDDEN then 0 else int (length line)))"

section \<open>Reading a line\<close>

text \<open>The locals of \<open>console_read_line\<close>, and the screen.\<close>

record edit =
  ed_vga :: vga
  ed_out :: string
  ed_length :: int
  ed_drawn :: int
  ed_browse :: int

text \<open>Storing a terminator at \<open>out[length]\<close>.\<close>

definition cut_out :: "edit \<Rightarrow> edit" where
  "cut_out e = e\<lparr>ed_out := take (nat (ed_length e)) (ed_out e)\<rparr>"

definition show_line :: "console_echo_t \<Rightarrow> string \<Rightarrow> edit \<Rightarrow> edit" where
  "show_line echo line e = (let (v, d) = redraw echo line (ed_drawn e) (ed_vga e) in e\<lparr>ed_vga := v, ed_drawn := d\<rparr>)"

definition on_vga :: "(vga \<Rightarrow> vga) \<Rightarrow> edit \<Rightarrow> edit" where
  "on_vga f e = e\<lparr>ed_vga := f (ed_vga e)\<rparr>"

definition read_arrow :: "console \<Rightarrow> int \<Rightarrow> console_echo_t \<Rightarrow> bool \<Rightarrow> int \<Rightarrow> edit \<Rightarrow> edit" where
  "read_arrow c limit echo use_history key e =
     (if \<not> use_history then on_vga (vga_scroll_view (if key = KEY_UP then SCROLL_STEP else - SCROLL_STEP)) e
      else let target = (if key = KEY_UP then ed_browse e - 1 else ed_browse e + 1)
      in if target < 0 then e
         else if target \<ge> history_total c
         then (show_line echo [] (e\<lparr>ed_browse := history_total c\<rparr>))\<lparr>ed_out := [], ed_length := 0\<rparr>
         else case console_history_at target c of
             None \<Rightarrow> e
           | Some entry \<Rightarrow>
               let out = take (nat limit) entry
               in show_line echo out (e\<lparr>ed_browse := target, ed_out := out, ed_length := int (length out)\<rparr>))"

text \<open>
  One turn of the loop: \<open>Some\<close> is the result \<open>console_read_line\<close> returns, \<open>None\<close> that it goes on.
\<close>

definition read_key ::
  "console \<Rightarrow> int \<Rightarrow> console_echo_t \<Rightarrow> bool \<Rightarrow> (vga \<Rightarrow> vga) option \<Rightarrow> int \<Rightarrow> edit \<Rightarrow> bool option \<times> edit" where
  "read_key c limit echo use_history prompt key e =
     (if key = 10 then (Some True, cut_out (on_vga (vga_putc 0x0A) (on_vga vga_scroll_to_bottom e)))
      else if key = 8 then
        (None, if ed_length e > 0
               then let e = cut_out (e\<lparr>ed_length := ed_length e - 1\<rparr>)
                    in if echo \<noteq> CONSOLE_ECHO_HIDDEN
                       then (on_vga (vga_putc 0x08) e)\<lparr>ed_drawn := ed_drawn e - 1\<rparr> else e
               else e)
      else if key = 3 then
        (Some False, (on_vga (vga_write (map of_char (''^C'' @ [CHR 0x0A]))) (on_vga vga_scroll_to_bottom e))\<lparr>ed_out := []\<rparr>)
      else if key = 12 then
        (None, let e = on_vga vga_clear e;
                   e = (case prompt of None \<Rightarrow> e | Some p \<Rightarrow> on_vga p e)
               in show_line echo (ed_out e) (e\<lparr>ed_drawn := 0\<rparr>))
      else if key = 21 then (None, (show_line echo [] e)\<lparr>ed_out := [], ed_length := 0\<rparr>)
      else if key = KEY_PAGEUP then (None, on_vga (vga_scroll_view PAGE_STEP) e)
      else if key = KEY_PAGEDOWN then (None, on_vga (vga_scroll_view (- PAGE_STEP)) e)
      else if key = KEY_UP \<or> key = KEY_DOWN then (None, read_arrow c limit echo use_history key e)
      else if key < 32 \<or> key > 126 then (None, e)
      else if ed_length e < limit then
        (None, let k = char_of (nat key);
                   e = on_vga vga_scroll_to_bottom e;
                   e = e\<lparr>ed_out := take (nat (ed_length e)) (ed_out e) @ [k], ed_length := ed_length e + 1\<rparr>;
                   e = on_vga (echo_char echo k) e
               in if echo \<noteq> CONSOLE_ECHO_HIDDEN then e\<lparr>ed_drawn := ed_drawn e + 1\<rparr> else e)
      else (None, e))"

text \<open>The loop; the keys run out (\<open>None\<close>) while it waits for one.\<close>

fun read_keys ::
  "console \<Rightarrow> int \<Rightarrow> console_echo_t \<Rightarrow> bool \<Rightarrow> (vga \<Rightarrow> vga) option \<Rightarrow> int list \<Rightarrow> edit \<Rightarrow> (bool \<times> edit \<times> int list) option" where
  "read_keys c limit echo use_history prompt [] e = None"
| "read_keys c limit echo use_history prompt (k # ks) e =
     (case read_key c limit echo use_history prompt k e of
        (Some b, e) \<Rightarrow> Some (b, e, ks)
      | (None, e) \<Rightarrow> read_keys c limit echo use_history prompt ks e)"

definition console_read_line ::
  "nat \<Rightarrow> console_echo_t \<Rightarrow> bool \<Rightarrow> (vga \<Rightarrow> vga) option \<Rightarrow> int list \<Rightarrow> console \<Rightarrow> vga \<Rightarrow>
     (bool \<times> string \<times> vga \<times> int list) option" where
  "console_read_line sz echo use_history prompt keys c v =
     (let limit = int (if sz < LINE_MAX then sz else LINE_MAX) - 1
      in case read_keys c limit echo use_history prompt keys
                \<lparr>ed_vga = v, ed_out = [], ed_length = 0, ed_drawn = 0, ed_browse = history_total c\<rparr> of
           None \<Rightarrow> None
         | Some (b, e, ks) \<Rightarrow> Some (b, ed_out e, ed_vga e, ks))"

section \<open>The history as a list\<close>

text \<open>The lines that can be recalled, oldest first.\<close>

definition recent :: "console \<Rightarrow> string list" where
  "recent c = map (\<lambda>i. history c ! nat (i mod HISTORY_MAX)) [max 0 (history_total c - HISTORY_MAX)..history_total c - 1]"

definition console_ok :: "console \<Rightarrow> bool" where
  "console_ok c \<longleftrightarrow> length (history c) = 16 \<and> 0 \<le> history_total c \<and> (\<forall>l\<in>set (recent c). l \<noteq> [] \<and> length l < LINE_MAX)"

definition last16 :: "'a list \<Rightarrow> 'a list" where
  "last16 xs = drop (length xs - 16) xs"

lemma recent_length: "console_ok c \<Longrightarrow> length (recent c) = nat (min (history_total c) 16)"
  by (auto simp: recent_def console_ok_def HISTORY_MAX_def)

lemma recent_nth:
  "console_ok c \<Longrightarrow> i < length (recent c) \<Longrightarrow>
     recent c ! i = history c ! nat ((max 0 (history_total c - 16) + int i) mod 16)"
  by (simp add: recent_def HISTORY_MAX_def)

lemma history_at_recent:
  assumes "console_ok c"
  shows "console_history_at index c =
    (let i = index - (history_total c - int (length (recent c))) in if 0 \<le> i \<and> i < int (length (recent c)) then Some (recent c ! nat i) else None)"
proof -
  have l: "int (length (recent c)) = min (history_total c) 16" using assms recent_length [OF assms] by (simp add: console_ok_def)
  let ?i = "index - (history_total c - int (length (recent c)))"
  show ?thesis
  proof (cases "0 \<le> ?i \<and> ?i < int (length (recent c))")
    case True
    then have "nat ?i < length (recent c)" by linarith
    from recent_nth [OF assms this] True have "recent c ! nat ?i = history c ! nat (index mod 16)"
      by (simp add: l min_def max_def split: if_splits)
    with True l assms show ?thesis by (auto simp: console_history_at_def HISTORY_MAX_def console_ok_def Let_def min_def split: if_splits)
  next
    case False
    with l assms show ?thesis by (auto simp: console_history_at_def HISTORY_MAX_def console_ok_def Let_def min_def split: if_splits)
  qed
qed

lemma upto_snoc: "i \<le> j \<Longrightarrow> [i..j] = [i..j - 1] @ [j]"
  by (rule upto_rec2)

lemma ring_other: "0 \<le> (i :: int) \<Longrightarrow> i < n \<Longrightarrow> n - 16 < i \<Longrightarrow> i mod 16 \<noteq> n mod 16"
proof
  assume "0 \<le> i" "i < n" "n - 16 < i" "i mod 16 = n mod 16"
  then have "(n - i) mod 16 = 0" by (metis mod_eq_dvd_iff dvd_eq_mod_eq_0)
  moreover have "(n - i) mod 16 = n - i" using \<open>i < n\<close> \<open>n - 16 < i\<close> by (simp add: mod_pos_pos_trivial)
  ultimately show False using \<open>i < n\<close> by simp
qed

lemma push_recent:
  assumes ok: "console_ok c"
  shows "recent (console_history_push (Some l) c) =
      (if l = [] \<or> recent c \<noteq> [] \<and> last (recent c) = l then recent c else last16 (recent c @ [take 255 l]))"
    "console_ok (console_history_push (Some l) c)"
proof -
  let ?n = "history_total c" and ?h = "history c"
  have n: "0 \<le> ?n" "length ?h = 16" using ok by (simp_all add: console_ok_def)
  have ne: "recent c \<noteq> [] \<longleftrightarrow> ?n > 0" by (auto simp: recent_def HISTORY_MAX_def)
  have lst: "last (recent c) = ?h ! nat ((?n - 1) mod 16)" if "?n > 0"
    using that by (subst recent_def) (simp add: HISTORY_MAX_def upto_snoc)
  show *: "recent (console_history_push (Some l) c) =
      (if l = [] \<or> recent c \<noteq> [] \<and> last (recent c) = l then recent c else last16 (recent c @ [take 255 l]))"
  proof (cases "l = [] \<or> recent c \<noteq> [] \<and> last (recent c) = l")
    case True
    then have "console_history_push (Some l) c = c"
      using ne lst by (auto simp: console_history_push_def HISTORY_MAX_def)
    with True show ?thesis by simp
  next
    case False
    let ?h' = "?h[nat (?n mod 16) := take 255 l]"
    have p: "console_history_push (Some l) c = c\<lparr>history := ?h', history_total := ?n + 1\<rparr>"
      using False ne lst by (auto simp: console_history_push_def HISTORY_MAX_def LINE_MAX_def)
    have lt: "nat (?n mod 16) < length ?h" using n by simp
    let ?a = "max 0 (?n + 1 - 16)"
    have "recent (console_history_push (Some l) c) = map (\<lambda>i. ?h' ! nat (i mod 16)) [?a..?n]"
      unfolding p by (simp add: recent_def HISTORY_MAX_def)
    also have "[?a..?n] = [?a..?n - 1] @ [?n]" using n by (intro upto_snoc) auto
    also have "map (\<lambda>i. ?h' ! nat (i mod 16)) ([?a..?n - 1] @ [?n]) = map (\<lambda>i. ?h ! nat (i mod 16)) [?a..?n - 1] @ [take 255 l]"
    proof -
      have "?h' ! nat (i mod 16) = ?h ! nat (i mod 16)" if "i \<in> set [?a..?n - 1]" for i
      proof -
        from that have "0 \<le> i" "i < ?n" "?n - 16 < i" by auto
        then have "nat (i mod 16) \<noteq> nat (?n mod 16)" using ring_other [of i ?n] by (simp add: nat_eq_iff)
        then show ?thesis by simp
      qed
      then have "map (\<lambda>i. ?h' ! nat (i mod 16)) [?a..?n - 1] = map (\<lambda>i. ?h ! nat (i mod 16)) [?a..?n - 1]" by (intro map_cong) simp_all
      then show ?thesis using lt by simp
    qed
    also have "map (\<lambda>i. ?h ! nat (i mod 16)) [?a..?n - 1] = drop (length (recent c) - 15) (recent c)"
    proof (cases "?n < 16")
      case True
      then have "?a = max 0 (?n - 16)" "length (recent c) \<le> 15" using recent_length [OF ok] n by auto
      then show ?thesis by (simp add: recent_def HISTORY_MAX_def)
    next
      case False
      have "[?n - 16..?n - 1] = (?n - 16) # [?n - 15..?n - 1]" using upto_rec1 [of "?n - 16" "?n - 1"] by simp
      with False show ?thesis using recent_length [OF ok] by (simp add: recent_def HISTORY_MAX_def max_def)
    qed
    finally show ?thesis using False by (auto simp: last16_def)
  qed
  have sub: "x \<in> set (last16 xs) \<Longrightarrow> x \<in> set xs" for x and xs :: "string list" unfolding last16_def by (rule in_set_dropD)
  have "\<forall>x\<in>set (recent (console_history_push (Some l) c)). x \<noteq> [] \<and> length x < LINE_MAX"
  proof (cases "l = [] \<or> recent c \<noteq> [] \<and> last (recent c) = l")
    case True
    then show ?thesis unfolding * using ok by (simp add: console_ok_def)
  next
    case False
    show ?thesis
    proof (intro ballI)
      fix x assume "x \<in> set (recent (console_history_push (Some l) c))"
      then have "x \<in> set (recent c @ [take 255 l])" unfolding * if_not_P [OF False] by (rule sub)
      then show "x \<noteq> [] \<and> length x < LINE_MAX" using ok False by (auto simp: console_ok_def LINE_MAX_def)
    qed
  qed
  moreover have "length (history (console_history_push (Some l) c)) = 16" "0 \<le> history_total (console_history_push (Some l) c)"
    using n by (auto simp: console_history_push_def)
  ultimately show "console_ok (console_history_push (Some l) c)" by (simp add: console_ok_def)
qed


section \<open>The editor without the screen\<close>

text \<open>
  The line typed so far and the place in the list of recent lines \<open>hs\<close>; the place after the last
  of them is the new line.
\<close>

definition edit_step :: "string list \<Rightarrow> nat \<Rightarrow> bool \<Rightarrow> int \<Rightarrow> string \<times> nat \<Rightarrow> string \<times> nat" where
  "edit_step hs limit use_history key st =
     (let (t, j) = st
      in if key = 8 then (butlast t, j)
         else if key = 21 then ([], j)
         else if key = KEY_UP then (if use_history \<and> 0 < j then (take limit (hs ! (j - 1)), j - 1) else st)
         else if key = KEY_DOWN then
           (if \<not> use_history then st
            else if length hs \<le> j + 1 then ([], length hs) else (take limit (hs ! (j + 1)), j + 1))
         else if 32 \<le> key \<and> key \<le> 126 \<and> length t < limit then (t @ [char_of (nat key)], j)
         else st)"

definition ends_line :: "int \<Rightarrow> bool" where
  "ends_line key \<longleftrightarrow> key = 10 \<or> key = 3"

definition edit_line :: "string list \<Rightarrow> nat \<Rightarrow> bool \<Rightarrow> int list \<Rightarrow> string \<times> nat \<Rightarrow> string \<times> nat" where
  "edit_line hs limit use_history keys st = fold (edit_step hs limit use_history) keys st"

text \<open>The locals of \<open>console_read_line\<close> hold that state, and the screen is in order.\<close>

definition edits :: "console \<Rightarrow> nat \<Rightarrow> console_echo_t \<Rightarrow> edit \<Rightarrow> string \<times> nat \<Rightarrow> bool" where
  "edits c limit echo e st \<longleftrightarrow> ed_out e = fst st \<and> ed_length e = int (length (fst st)) \<and> length (fst st) \<le> limit \<and>
     ed_drawn e = (if echo = CONSOLE_ECHO_HIDDEN then 0 else int (length (fst st))) \<and>
     snd st \<le> length (recent c) \<and> ed_browse e = history_total c - int (length (recent c)) + int (snd st) \<and> vga_inv (ed_vga e)"

lemma vga_inv_ops:
  assumes "vga_inv v"
  shows "vga_inv (vga_putc c v)" "vga_inv (vga_write cs v)" "vga_inv (vga_scroll_view n v)" "vga_inv (vga_scroll_to_bottom v)"
    "vga_inv (vga_clear v)" "vga_inv (((vga_putc c) ^^ k) v)" "vga_inv (echo_char echo x v)" "vga_inv (echo_string echo s v)"
proof -
  have p: "vga_inv w \<Longrightarrow> vga_inv (vga_putc c w)" for c w using vga_putc_terminal by blast
  then show "vga_inv (vga_putc c v)" using assms by blast
  show "vga_inv (vga_write cs v)" unfolding vga_write_def using assms p by (induction cs arbitrary: v) simp_all
  show "vga_inv (vga_scroll_view n v)" "vga_inv (vga_scroll_to_bottom v)" "vga_inv (vga_clear v)"
    using assms vga_scroll_view_inv vga_scroll_to_bottom_inv vga_clear_inv by blast+
  show "vga_inv (((vga_putc c) ^^ k) v)" using assms p by (induction k) simp_all
  have e: "vga_inv w \<Longrightarrow> vga_inv (echo_char echo x w)" for x w using p by (simp add: echo_char_def)
  then show "vga_inv (echo_char echo x v)" using assms by blast
  show "vga_inv (echo_string echo s v)" unfolding echo_string_def using assms e by (induction s arbitrary: v) simp_all
qed

lemma show_line_fields:
  "ed_out (show_line echo l e) = ed_out e" "ed_length (show_line echo l e) = ed_length e" "ed_browse (show_line echo l e) = ed_browse e"
  "ed_drawn (show_line echo l e) = (if echo = CONSOLE_ECHO_HIDDEN then 0 else int (length l))"
  "vga_inv (ed_vga e) \<Longrightarrow> vga_inv (ed_vga (show_line echo l e))"
  by (simp_all add: show_line_def redraw_def Let_def vga_inv_ops)

lemmas key_defs = KEY_UP_def KEY_DOWN_def KEY_PAGEUP_def KEY_PAGEDOWN_def

lemma arrow_edits:
  assumes ok: "console_ok c" and e: "edits c limit echo e st" and key: "key = KEY_UP \<or> key = KEY_DOWN"
  shows "edits c limit echo (read_arrow c (int limit) echo use_history key e) (edit_step (recent c) limit use_history key st)"
proof -
  obtain t j where st: "st = (t, j)" by force
  define n where "n = length (recent c)"
  have n: "int n \<le> history_total c" using recent_length [OF ok] ok by (simp add: n_def console_ok_def)
  have b: "ed_browse e = history_total c - int n + int j" "j \<le> n" "vga_inv (ed_vga e)"
    using e by (simp_all add: edits_def st n_def)
  have at: "console_history_at (history_total c - int n + i) c = (if 0 \<le> i \<and> i < int n then Some (recent c ! nat i) else None)" for i
    using history_at_recent [OF ok, of "history_total c - int n + i"] by (simp add: Let_def n_def)
  show ?thesis
  proof (cases use_history)
    case False
    with e key show ?thesis by (auto simp: read_arrow_def edit_step_def edits_def st on_vga_def key_defs vga_inv_ops)
  next
    case True
    show ?thesis
    proof (cases "key = KEY_UP")
      case up: True
      show ?thesis
      proof (cases "j = 0")
        case True
        then have "read_arrow c (int limit) echo use_history key e = e"
          using b at [of "-1"] up n \<open>use_history\<close> by (auto simp: read_arrow_def Let_def)
        with e up True st \<open>use_history\<close> show ?thesis by (simp add: edit_step_def key_defs)
      next
        case False
        then have i: "ed_browse e - 1 = history_total c - int n + int (j - 1)" "j - 1 < n" using b by auto
        then have "read_arrow c (int limit) echo use_history key e =
            (let out = take limit (recent c ! (j - 1)) in show_line echo out
               (e\<lparr>ed_browse := ed_browse e - 1, ed_out := out, ed_length := int (length out)\<rparr>))"
          using at [of "int (j - 1)"] up n \<open>use_history\<close> by (simp add: read_arrow_def Let_def)
        with False \<open>use_history\<close> up st i b(3) show ?thesis
          by (simp add: edits_def edit_step_def show_line_fields Let_def key_defs n_def)
      qed
    next
      case down: False
      then have kd: "key = KEY_DOWN" using key by simp
      show ?thesis
      proof (cases "n \<le> j + 1")
        case True
        then have "ed_browse e + 1 \<ge> history_total c" using b by simp
        then have "read_arrow c (int limit) echo use_history key e =
            (show_line echo [] (e\<lparr>ed_browse := history_total c\<rparr>))\<lparr>ed_out := [], ed_length := 0\<rparr>"
          using \<open>use_history\<close> down kd n b by (auto simp: read_arrow_def Let_def)
        with True kd st b(3) \<open>use_history\<close> show ?thesis
          by (simp add: edits_def edit_step_def show_line_fields key_defs n_def)
      next
        case False
        then have i: "ed_browse e + 1 = history_total c - int n + int (j + 1)" "j + 1 < n" using b by auto
        then have "read_arrow c (int limit) echo use_history key e =
            (let out = take limit (recent c ! (j + 1)) in show_line echo out
               (e\<lparr>ed_browse := ed_browse e + 1, ed_out := out, ed_length := int (length out)\<rparr>))"
          using at [of "int (j + 1)"] down n \<open>use_history\<close> unfolding read_arrow_def i(1) by (simp del: of_nat_add of_nat_Suc add: Let_def)
        with False kd st i b(3) \<open>use_history\<close> show ?thesis
          by (simp add: edits_def edit_step_def show_line_fields Let_def key_defs n_def)
      qed
    qed
  qed
qed

lemma read_key_edits:
  assumes ok: "console_ok c" and e: "edits c limit echo e st" and p: "\<forall>f v. prompt = Some f \<longrightarrow> vga_inv v \<longrightarrow> vga_inv (f v)"
    and key: "\<not> ends_line key"
  shows "\<exists>e'. read_key c (int limit) echo use_history prompt key e = (None, e') \<and> edits c limit echo e' (edit_step (recent c) limit use_history key st)"
proof -
  obtain t j where st: "st = (t, j)" by force
  have k: "key \<noteq> 10" "key \<noteq> 3" using key by (simp_all add: ends_line_def)
  consider "key = 8" | "key = 12" | "key = 21" | "key = KEY_PAGEUP \<or> key = KEY_PAGEDOWN" | "key = KEY_UP \<or> key = KEY_DOWN"
    | "key \<notin> {8, 12, 21, KEY_PAGEUP, KEY_PAGEDOWN, KEY_UP, KEY_DOWN}" by blast
  then show ?thesis
  proof cases
    case 1
    show ?thesis
    proof (cases t rule: rev_cases)
      case Nil
      then have "read_key c (int limit) echo use_history prompt key e = (None, e)" using 1 e st by (simp add: read_key_def edits_def)
      with Nil 1 e st show ?thesis by (simp add: edit_step_def)
    next
      case (snoc u x)
      with 1 e st show ?thesis by (cases "echo = CONSOLE_ECHO_HIDDEN") (simp_all add: read_key_def edits_def edit_step_def cut_out_def on_vga_def vga_inv_ops Let_def)
    qed
  next
    case 2
    with e st p show ?thesis
      by (auto simp: read_key_def edits_def edit_step_def on_vga_def vga_inv_ops Let_def show_line_fields key_defs split: option.splits)
  next
    case 3
    with e st show ?thesis by (simp add: read_key_def edits_def edit_step_def vga_inv_ops show_line_fields)
  next
    case 4
    then show ?thesis
    proof
      assume "key = KEY_PAGEUP"
      with e st show ?thesis by (simp add: read_key_def edits_def edit_step_def on_vga_def vga_inv_ops key_defs)
    next
      assume "key = KEY_PAGEDOWN"
      with e st show ?thesis by (simp add: read_key_def edits_def edit_step_def on_vga_def vga_inv_ops key_defs)
    qed
  next
    case 5
    with arrow_edits [OF ok e 5] k show ?thesis by (auto simp: read_key_def key_defs)
  next
    case 6
    show ?thesis
    proof (cases "32 \<le> key \<and> key \<le> 126")
      case False
      then have "read_key c (int limit) echo use_history prompt key e = (None, e)" using 6 k by (auto simp: read_key_def)
      moreover have "edit_step (recent c) limit use_history key st = st" using 6 False st by (auto simp: edit_step_def)
      ultimately show ?thesis using e by simp
    next
      case True
      show ?thesis
      proof (cases "length t < limit")
        case False
        then have "read_key c (int limit) echo use_history prompt key e = (None, e)" using 6 k True e st by (simp add: read_key_def edits_def)
        moreover have "edit_step (recent c) limit use_history key st = st" using 6 False st by (simp add: edit_step_def)
        ultimately show ?thesis using e by simp
      next
        case lt: True
        then have "edit_step (recent c) limit use_history key st = (t @ [char_of (nat key)], j)" using 6 True st by (simp add: edit_step_def)
        then show ?thesis using 6 k True lt e st
          by (cases "echo = CONSOLE_ECHO_HIDDEN") (simp_all add: read_key_def edits_def on_vga_def vga_inv_ops Let_def)
      qed
    qed
  qed
qed

lemma read_keys_edits:
  assumes ok: "console_ok c" and p: "\<forall>f v. prompt = Some f \<longrightarrow> vga_inv v \<longrightarrow> vga_inv (f v)"
  shows "edits c limit echo e st \<Longrightarrow>
    (case dropWhile (\<lambda>k. \<not> ends_line k) keys of
       [] \<Rightarrow> read_keys c (int limit) echo use_history prompt keys e = None
     | k # ks \<Rightarrow> \<exists>e'. read_keys c (int limit) echo use_history prompt keys e = Some (k = 10, e', ks) \<and> vga_inv (ed_vga e') \<and>
         ed_out e' = (if k = 10 then fst (edit_line (recent c) limit use_history (takeWhile (\<lambda>k. \<not> ends_line k) keys) st) else []) \<and>
         length (ed_out e') \<le> limit)"
proof (induction keys arbitrary: e st)
  case Nil
  then show ?case by simp
next
  case (Cons k ks)
  show ?case
  proof (cases "ends_line k")
    case True
    then have "k = 10 \<or> k = 3" by (simp add: ends_line_def)
    then show ?thesis
    proof
      assume "k = 10"
      with Cons.prems True show ?thesis by (simp add: read_key_def edits_def cut_out_def on_vga_def vga_inv_ops edit_line_def)
    next
      assume "k = 3"
      with Cons.prems True show ?thesis by (simp add: read_key_def edits_def on_vga_def vga_inv_ops)
    qed
  next
    case False
    from read_key_edits [OF ok Cons.prems p False] obtain e' where
      e': "read_key c (int limit) echo use_history prompt k e = (None, e')" "edits c limit echo e' (edit_step (recent c) limit use_history k st)" by blast
    have step: "read_keys c (int limit) echo use_history prompt (k # ks) e = read_keys c (int limit) echo use_history prompt ks e'"
      "dropWhile (\<lambda>k. \<not> ends_line k) (k # ks) = dropWhile (\<lambda>k. \<not> ends_line k) ks"
      "edit_line (recent c) limit use_history (takeWhile (\<lambda>k. \<not> ends_line k) (k # ks)) st =
       edit_line (recent c) limit use_history (takeWhile (\<lambda>k. \<not> ends_line k) ks) (edit_step (recent c) limit use_history k st)"
      using e'(1) False by (simp_all add: edit_line_def)
    from Cons.IH [OF e'(2)] show ?thesis unfolding step .
  qed
qed

lemma console_read_line_edits:
  assumes ok: "console_ok c" "vga_inv v" and sz: "0 < sz"
    and prompt: "\<forall>f w. prompt = Some f \<longrightarrow> vga_inv w \<longrightarrow> vga_inv (f w)"
  shows "case dropWhile (\<lambda>k. \<not> ends_line k) keys of
      [] \<Rightarrow> console_read_line sz echo use_history prompt keys c v = None
    | k # ks \<Rightarrow> \<exists>line v'. console_read_line sz echo use_history prompt keys c v = Some (k = 10, line, v', ks) \<and>
        line = (if k = 10 then fst (edit_line (recent c) (min sz LINE_MAX - 1) use_history
                                      (takeWhile (\<lambda>k. \<not> ends_line k) keys) ([], length (recent c)))
                else []) \<and>
        length line < sz \<and> length line < LINE_MAX \<and> vga_inv v'"
proof -
  let ?l = "min sz LINE_MAX - 1"
  let ?e = "\<lparr>ed_vga = v, ed_out = [], ed_length = 0, ed_drawn = 0, ed_browse = history_total c\<rparr>"
  have lim: "int (if sz < LINE_MAX then sz else LINE_MAX) - 1 = int ?l" using sz by (simp add: LINE_MAX_def min_def)
  have p: "\<forall>f v. prompt = Some f \<longrightarrow> vga_inv v \<longrightarrow> vga_inv (f v)" using prompt by blast
  have e: "edits c ?l echo ?e ([], length (recent c))" using ok by (simp add: edits_def)
  have lt: "n < sz \<and> n < LINE_MAX" if "n \<le> ?l" for n using that sz by (cases "sz \<le> 256") (simp_all add: LINE_MAX_def, linarith)
  have d: "console_read_line sz echo use_history prompt keys c v =
      (case read_keys c (int ?l) echo use_history prompt keys ?e of None \<Rightarrow> None | Some (b, e, ks) \<Rightarrow> Some (b, ed_out e, ed_vga e, ks))"
    by (simp only: console_read_line_def Let_def lim)
  show ?thesis
  proof (cases "dropWhile (\<lambda>k. \<not> ends_line k) keys")
    case Nil
    with read_keys_edits [OF ok(1) p e, where keys = keys and use_history = use_history] show ?thesis unfolding d Nil by (simp del: One_nat_def)
  next
    case (Cons k ks)
    with read_keys_edits [OF ok(1) p e, where keys = keys and use_history = use_history] obtain e' where
      "read_keys c (int ?l) echo use_history prompt keys ?e = Some (k = 10, e', ks)" "vga_inv (ed_vga e')"
      "ed_out e' = (if k = 10 then fst (edit_line (recent c) ?l use_history (takeWhile (\<lambda>k. \<not> ends_line k) keys) ([], length (recent c))) else [])"
      "length (ed_out e') \<le> ?l" by auto
    with Cons lt [OF this(4)] show ?thesis unfolding d by (simp del: One_nat_def)
  qed
qed

section \<open>Properties\<close>

text \<open>The 16 lines of the ring are a list, oldest first.  Pushing a line that is neither
  empty nor the line last entered appends its first 255 characters and drops the oldest line past 16;
  \<open>console_history_at\<close> is the list indexed by the number of the line since boot, and gives no line
  for one that is gone or not yet entered.\<close>

theorem history_is_recent:
  assumes "console_ok c"
  shows "console_ok (console_history_push line c) \<and>
    recent (console_history_push line c) =
      (case line of None \<Rightarrow> recent c
       | Some l \<Rightarrow> if l = [] \<or> recent c \<noteq> [] \<and> last (recent c) = l then recent c else last16 (recent c @ [take 255 l])) \<and>
    (\<forall>index. console_history_at index c =
      (let first = console_history_count c - int (length (recent c))
       in if first \<le> index \<and> index < console_history_count c then Some (recent c ! nat (index - first)) else None))"
proof -
  have "console_history_at index c =
      (let first = console_history_count c - int (length (recent c))
       in if first \<le> index \<and> index < console_history_count c then Some (recent c ! nat (index - first)) else None)" for index
    using history_at_recent [OF assms, of index] by (simp add: Let_def console_history_count_def)
  moreover have "console_history_push None c = c" by (simp add: console_history_push_def)
  ultimately show ?thesis using assms push_recent [OF assms] by (cases line) (simp_all del: Let_def)
qed

definition fresh_console :: console where
  "fresh_console = \<lparr>history = replicate 16 [], history_total = 0\<rparr>"

lemma fresh_console_ok: "console_ok fresh_console" "recent fresh_console = []"
  by (simp_all add: console_ok_def recent_def fresh_console_def HISTORY_MAX_def)

theorem history_is_recent_witness:
  "recent (console_history_push (Some ''ls'') fresh_console) = [''ls'']"
  using history_is_recent [OF fresh_console_ok(1), of "Some ''ls''"] by (simp add: fresh_console_ok last16_def)

text \<open>Property C33: the line editor returns at the first newline or Ctrl-C among the keys and leaves the
  later keys alone; without one it goes on waiting.  The buffer then holds the line that the abstract
  editor makes of the keys before (erasing, discarding, recalling recent lines cut to the buffer, and
  appending printable keys while there is room), or the empty string after Ctrl-C, it never overruns
  the buffer, and the screen stays consistent throughout.\<close>

theorem read_line_edits:
  assumes ok: "console_ok c" "vga_inv v" and sz: "0 < sz"
    and prompt: "\<And>f w. prompt = Some f \<Longrightarrow> vga_inv w \<Longrightarrow> vga_inv (f w)"
  shows "case dropWhile (\<lambda>k. \<not> ends_line k) keys of
      [] \<Rightarrow> console_read_line sz echo use_history prompt keys c v = None
    | k # ks \<Rightarrow> \<exists>line v'. console_read_line sz echo use_history prompt keys c v = Some (k = 10, line, v', ks) \<and>
        line = (if k = 10 then fst (edit_line (recent c) (min sz LINE_MAX - 1) use_history
                                      (takeWhile (\<lambda>k. \<not> ends_line k) keys) ([], length (recent c)))
                else []) \<and>
        length line < sz \<and> length line < LINE_MAX \<and> vga_inv v'"
  using assms by (intro console_read_line_edits) blast+

theorem read_line_edits_witness:
  "\<exists>v'. console_read_line 8 CONSOLE_ECHO_PLAIN True None [104, 105, 8, 33, 10, 120] fresh_console (vga_init raw_vga) =
     Some (True, ''h!'', v', [120])"
proof -
  have keys: "dropWhile (\<lambda>k. \<not> ends_line k) [104, 105, 8, 33, 10, 120] = [10, 120]"
    "takeWhile (\<lambda>k. \<not> ends_line k) [104, 105, 8, 33, 10, 120] = [104, 105, 8, 33]" by (simp_all add: ends_line_def)
  have line: "edit_line [] (min 8 LINE_MAX - 1) True [104, 105, 8, 33] ([], length ([] :: string list)) = (''h!'', 0)" by code_simp
  from read_line_edits [OF fresh_console_ok(1) vga_init_inv(1) [OF raw_vga_arrays], of 8 None CONSOLE_ECHO_PLAIN True "[104, 105, 8, 33, 10, 120]"]
  show ?thesis unfolding keys fresh_console_ok(2) line by auto
qed

end
