(* ===== verification/Io.thy ===== *)
theory Io
  imports Los_Prelude
begin

text \<open>
  Port input and output (\<open>include/io.h\<close>).  The instructions act on the hardware, which is a
  parameter of the model: \<open>'d\<close> is its state, and a value of \<open>'d ports\<close> says what the instructions
  do to it.
\<close>

record 'd ports =
  inb :: "u16 \<Rightarrow> 'd \<Rightarrow> u8 \<times> 'd"
  outb :: "u16 \<Rightarrow> u8 \<Rightarrow> 'd \<Rightarrow> 'd"
  inw :: "u16 \<Rightarrow> 'd \<Rightarrow> u16 \<times> 'd"
  outw :: "u16 \<Rightarrow> u16 \<Rightarrow> 'd \<Rightarrow> 'd"

end
