(* ===== verification/Rtc.thy ===== *)
theory Rtc
  imports Io
begin

text \<open>
  The reader of the CMOS clock, \<open>drivers/rtc.c\<close>, and what it makes of the times a clock chip can
  show in its four modes.  \<open>None\<close> is a chip that never leaves its update.
\<close>

section \<open>Operations\<close>

definition CMOS_ADDRESS :: u16 where "CMOS_ADDRESS = 0x70"
definition CMOS_DATA :: u16 where "CMOS_DATA = 0x71"

record rtc_time =
  t_second :: u8
  t_minute :: u8
  t_hour :: u8
  t_day :: u8
  t_month :: u8
  t_year :: u16

definition cmos_read :: "'d ports \<Rightarrow> u8 \<Rightarrow> 'd \<Rightarrow> u8 \<times> 'd" where
  "cmos_read P reg d = inb P CMOS_DATA (outb P CMOS_ADDRESS reg d)"

definition update_in_progress :: "'d ports \<Rightarrow> 'd \<Rightarrow> u8 \<times> 'd" where
  "update_in_progress P d = (let (v, d) = cmos_read P 0x0A d in (v AND 0x80, d))"

definition from_bcd :: "u8 \<Rightarrow> u8" where
  "from_bcd value = (value AND 0x0F) + drop_bit 4 value * 10"

partial_function (option) wait_update :: "'d ports \<Rightarrow> 'd \<Rightarrow> 'd option" where
  "wait_update P d =
     (let (busy, d) = update_in_progress P d in if busy \<noteq> 0 then wait_update P d else Some d)"

declare wait_update.simps [code]

text \<open>What \<open>rtc_read\<close> does with the bytes it has read.\<close>

definition decode_time :: "u8 \<Rightarrow> u8 \<Rightarrow> u8 \<Rightarrow> u8 \<Rightarrow> u8 \<Rightarrow> u8 \<Rightarrow> u8 \<Rightarrow> u8 \<Rightarrow> rtc_time" where
  "decode_time second minute hour day month year century registerB =
     (let bcd = (registerB AND 0x04 = 0);
          second = (if bcd then from_bcd second else second);
          minute = (if bcd then from_bcd minute else minute);
          hour = (if bcd then from_bcd (hour AND 0x7F) OR (hour AND 0x80) else hour);
          day = (if bcd then from_bcd day else day);
          month = (if bcd then from_bcd month else month);
          year = (if bcd then from_bcd year else year);
          century = (if bcd then from_bcd century else century);
          hour = (if registerB AND 0x02 = 0 \<and> hour AND 0x80 \<noteq> 0
                  then of_nat ((unat (hour AND 0x7F) + 12) mod 24) else hour)
      in \<lparr>t_second = second, t_minute = minute, t_hour = hour, t_day = day, t_month = month,
          t_year = (if 19 \<le> century \<and> century \<le> 21 then of_nat (unat century * 100 + unat year) else of_nat (2000 + unat year))\<rparr>)"

definition rtc_read :: "'d ports \<Rightarrow> 'd \<Rightarrow> (rtc_time \<times> 'd) option" where
  "rtc_read P d = do {
     d \<leftarrow> wait_update P d;
     let (second, d) = cmos_read P 0x00 d;
     let (minute, d) = cmos_read P 0x02 d;
     let (hour, d) = cmos_read P 0x04 d;
     let (day, d) = cmos_read P 0x07 d;
     let (month, d) = cmos_read P 0x08 d;
     let (year, d) = cmos_read P 0x09 d;
     let (century, d) = cmos_read P 0x32 d;
     let (registerB, d) = cmos_read P 0x0B d;
     Some (decode_time second minute hour day month year century registerB, d)
   }"

section \<open>A clock chip\<close>

text \<open>
  The documented behaviour of the chip: the address port selects a register, the data port reads it;
  bit 7 of register A is set while an update runs, which ends after finitely many looks, and the
  registers hold still while they are read after it.
\<close>

definition clock_chip :: "'d ports \<Rightarrow> ('d \<Rightarrow> u8) \<Rightarrow> ('d \<Rightarrow> nat) \<Rightarrow> (u8 \<Rightarrow> u8) \<Rightarrow> bool" where
  "clock_chip P sel upd regs \<longleftrightarrow>
     (\<forall>d reg. sel (outb P CMOS_ADDRESS reg d) = reg \<and> upd (outb P CMOS_ADDRESS reg d) = upd d) \<and>
     (\<forall>d. (sel d \<noteq> 0x0A \<longrightarrow> upd d = 0 \<longrightarrow> fst (inb P CMOS_DATA d) = regs (sel d) \<and> upd (snd (inb P CMOS_DATA d)) = 0) \<and>
       (sel d = 0x0A \<longrightarrow> (fst (inb P CMOS_DATA d) AND 0x80 = 0) = (upd d = 0) \<and> upd (snd (inb P CMOS_DATA d)) = upd d - 1))"

lemma chip_read:
  assumes "clock_chip P sel upd regs" "upd d = 0" "reg \<noteq> 0x0A"
  shows "\<exists>d'. cmos_read P reg d = (regs reg, d') \<and> upd d' = 0"
  using assms unfolding clock_chip_def cmos_read_def by (metis prod.collapse)

lemma chip_wait:
  assumes chip: "clock_chip P sel upd regs"
  shows "\<exists>d'. wait_update P d = Some d' \<and> upd d' = 0"
proof (induction "upd d" arbitrary: d)
  case 0
  obtain v d' where r: "update_in_progress P d = (v AND 0x80, d')" "cmos_read P 0x0A d = (v, d')"
    by (cases "cmos_read P 0x0A d") (simp add: update_in_progress_def)
  then have "v AND 0x80 = 0" "upd d' = 0" using chip 0 unfolding clock_chip_def cmos_read_def by (metis fst_conv snd_conv diff_0_eq_0)+
  with r show ?case by (subst wait_update.simps) simp
next
  case (Suc n)
  obtain v d' where r: "update_in_progress P d = (v AND 0x80, d')" "cmos_read P 0x0A d = (v, d')"
    by (cases "cmos_read P 0x0A d") (simp add: update_in_progress_def)
  then have "v AND 0x80 \<noteq> 0" "n = upd d'" using chip Suc.hyps(2) unfolding clock_chip_def cmos_read_def
    by (metis fst_conv snd_conv nat.distinct(1) diff_Suc_1)+
  from Suc.hyps(1) [OF this(2)] this(1) r show ?case by (subst wait_update.simps) simp
qed

lemma rtc_read_chip:
  assumes chip: "clock_chip P sel upd regs"
  shows "\<exists>d'. rtc_read P d = Some (decode_time (regs 0) (regs 2) (regs 4) (regs 7) (regs 8) (regs 9) (regs 0x32) (regs 0x0B), d')"
proof -
  from chip_wait [OF chip] obtain d0 where d0: "wait_update P d = Some d0" "upd d0 = 0" by blast
  from chip_read [OF chip d0(2), of 0] obtain d1 where d1: "cmos_read P 0 d0 = (regs 0, d1)" "upd d1 = 0" by auto
  from chip_read [OF chip d1(2), of 2] obtain d2 where d2: "cmos_read P 2 d1 = (regs 2, d2)" "upd d2 = 0" by auto
  from chip_read [OF chip d2(2), of 4] obtain d3 where d3: "cmos_read P 4 d2 = (regs 4, d3)" "upd d3 = 0" by auto
  from chip_read [OF chip d3(2), of 7] obtain d4 where d4: "cmos_read P 7 d3 = (regs 7, d4)" "upd d4 = 0" by auto
  from chip_read [OF chip d4(2), of 8] obtain d5 where d5: "cmos_read P 8 d4 = (regs 8, d5)" "upd d5 = 0" by auto
  from chip_read [OF chip d5(2), of 9] obtain d6 where d6: "cmos_read P 9 d5 = (regs 9, d6)" "upd d6 = 0" by auto
  from chip_read [OF chip d6(2), of "0x32"] obtain d7 where d7: "cmos_read P 0x32 d6 = (regs 0x32, d7)" "upd d7 = 0" by auto
  from chip_read [OF chip d7(2), of "0x0B"] obtain d8 where d8: "cmos_read P 0x0B d7 = (regs 0x0B, d8)" by auto
  show ?thesis by (simp add: rtc_read_def d0 d1 d2 d3 d4 d5 d6 d7 d8)
qed

section \<open>The times it can show\<close>

definition to_bcd :: "nat \<Rightarrow> u8" where
  "to_bcd n = of_nat (n div 10 * 16 + n mod 10)"

definition encode_byte :: "bool \<Rightarrow> nat \<Rightarrow> u8" where
  "encode_byte bcd n = (if bcd then to_bcd n else of_nat n)"

definition encode_hour :: "bool \<Rightarrow> bool \<Rightarrow> nat \<Rightarrow> u8" where
  "encode_hour bcd h24 h =
     (if h24 then encode_byte bcd h
      else encode_byte bcd (if h mod 12 = 0 then 12 else h mod 12) OR (if h < 12 then 0 else 0x80))"

text \<open>The registers of a chip in a given mode at \<open>h:mi:s\<close> of the day \<open>day\<close> of \<open>mo\<close> in \<open>y\<close>.\<close>

definition shows_time :: "bool \<Rightarrow> bool \<Rightarrow> nat \<Rightarrow> nat \<Rightarrow> nat \<Rightarrow> nat \<Rightarrow> nat \<Rightarrow> nat \<Rightarrow> (u8 \<Rightarrow> u8) \<Rightarrow> bool" where
  "shows_time bcd h24 y mo day h mi s regs \<longleftrightarrow>
     regs 0 = encode_byte bcd s \<and> regs 2 = encode_byte bcd mi \<and> regs 4 = encode_hour bcd h24 h \<and>
     regs 7 = encode_byte bcd day \<and> regs 8 = encode_byte bcd mo \<and> regs 9 = encode_byte bcd (y mod 100) \<and>
     regs 0x32 = encode_byte bcd (y div 100) \<and> (regs 0x0B AND 0x04 = 0) = bcd \<and> (regs 0x0B AND 0x02 = 0) = (\<not> h24)"

lemma below_code: "(\<forall>n<k. Q n) \<longleftrightarrow> list_all Q [0..<k]"
  by (auto simp: list_all_iff)

lemma from_bcd_code: "\<forall>n<100. from_bcd (to_bcd n) = of_nat n"
  unfolding below_code by code_simp

lemma from_bcd_to_bcd: "n < 100 \<Longrightarrow> from_bcd (to_bcd n) = of_nat n"
  using from_bcd_code by blast

definition hour_byte :: "bool \<Rightarrow> bool \<Rightarrow> u8 \<Rightarrow> u8" where
  "hour_byte bcd h24 hour =
     (let hour = (if bcd then from_bcd (hour AND 0x7F) OR (hour AND 0x80) else hour)
      in if \<not> h24 \<and> hour AND 0x80 \<noteq> 0 then of_nat ((unat (hour AND 0x7F) + 12) mod 24) else hour)"

definition hour_shown :: "bool \<Rightarrow> nat \<Rightarrow> nat" where
  "hour_shown h24 h = (if h24 then h else if h = 0 then 12 else if h = 12 then 0 else h)"

lemma hour_byte_code:
  "list_all (\<lambda>b. list_all (\<lambda>h24. list_all (\<lambda>h. hour_byte b h24 (encode_hour b h24 h) = of_nat (hour_shown h24 h))
     [0..<24]) [True, False]) [True, False]"
  by code_simp

lemma hour_byte_shown: "h < 24 \<Longrightarrow> hour_byte b h24 (encode_hour b h24 h) = of_nat (hour_shown h24 h)"
  using hour_byte_code by (cases b; cases h24) (auto simp: list_all_iff)

lemma decode_time_hour:
  "t_hour (decode_time s mi h d mo y c b) = hour_byte (b AND 4 = 0) (b AND 2 \<noteq> 0) h"
  by (simp add: decode_time_def hour_byte_def Let_def)

text \<open>A chip with the 12-hour clock in BCD, at noon and 34 minutes on a leap day, three looks into an update.\<close>

definition demo_regs :: "u8 \<Rightarrow> u8" where
  "demo_regs r = (if r = 0 then 0x56 else if r = 2 then 0x34 else if r = 4 then 0x92 else if r = 7 then 0x29
     else if r = 8 then 2 else if r = 9 then 0x24 else if r = 0x32 then 0x20 else 0)"

definition demo_chip :: "(u8 \<times> nat) ports" where
  "demo_chip = \<lparr>
     inb = (\<lambda>p (a, n). if p \<noteq> CMOS_DATA then (0, (a, n))
       else if a = 0x0A then ((if n = 0 then 0x26 else 0xA6), (a, n - 1)) else (demo_regs a, (a, n))),
     outb = (\<lambda>p v (a, n). if p = CMOS_ADDRESS then (v, n) else (a, n)),
     inw = (\<lambda>p d. (0, d)), outw = (\<lambda>p v d. d)\<rparr>"

lemma demo_chip_ok: "clock_chip demo_chip fst snd demo_regs"
  by (auto simp: clock_chip_def demo_chip_def)

lemma demo_time: "shows_time True False 2024 2 29 12 34 56 demo_regs"
  by code_simp

text \<open>Property C34: \<open>rtc_read\<close> waits for the end of an update and returns; for every date from 1900 to 2199
  and every time of day, in BCD or binary, it returns exactly what a chip with the 24-hour clock shows.
  With the 12-hour clock every hour is right but two: midnight (12 AM) is returned as 12 and noon
  (12 PM) as 0.\<close>

theorem rtc_read_time:
  assumes chip: "clock_chip P sel upd regs" and time: "shows_time bcd h24 y mo day h mi s regs"
    and range: "1900 \<le> y" "y < 2200" "mo \<le> 12" "day \<le> 31" "h < 24" "mi < 60" "s < 60"
  shows "\<exists>d'. rtc_read P d = Some (\<lparr>t_second = of_nat s, t_minute = of_nat mi,
      t_hour = of_nat (if h24 then h else if h = 0 then 12 else if h = 12 then 0 else h),
      t_day = of_nat day, t_month = of_nat mo, t_year = of_nat y\<rparr>, d')"
proof -
  have e: "(if regs 0x0B AND 4 = 0 then from_bcd (encode_byte bcd n) else encode_byte bcd n) = of_nat n" if "n < 100" for n
    using time that by (cases bcd) (simp_all add: shows_time_def encode_byte_def from_bcd_to_bcd)
  have c: "of_nat (y div 100) = (19 :: u8) \<or> of_nat (y div 100) = (20 :: u8) \<or> of_nat (y div 100) = (21 :: u8)"
  proof -
    have "19 \<le> y div 100 \<and> y div 100 < 22" using range(1,2) by auto
    then have "y div 100 = 19 \<or> y div 100 = 20 \<or> y div 100 = 21" by linarith
    then show ?thesis by auto
  qed
  have u: "unat (of_nat (y div 100) :: u8) = y div 100" "unat (of_nat (y mod 100) :: u8) = y mod 100"
    using range(1,2) by (simp_all add: unat_of_nat)
  have ce: "(19 :: u8) \<le> of_nat (y div 100) \<and> of_nat (y div 100) \<le> (21 :: u8)"
    using c by (elim disjE) simp_all
  have yr: "y div 100 * 100 + y mod 100 = y" by simp
  have h: "hour_byte (regs 0x0B AND 4 = 0) (regs 0x0B AND 2 \<noteq> 0) (regs 4) = of_nat (hour_shown h24 h)"
    using time hour_byte_shown [OF range(5), of bcd h24] by (simp add: shows_time_def)
  have "decode_time (regs 0) (regs 2) (regs 4) (regs 7) (regs 8) (regs 9) (regs 0x32) (regs 0x0B) =
     \<lparr>t_second = of_nat s, t_minute = of_nat mi, t_hour = of_nat (hour_shown h24 h),
      t_day = of_nat day, t_month = of_nat mo, t_year = of_nat y\<rparr>"
  proof (rule rtc_time.equality)
  qed (use time h e [of s] e [of mi] e [of day] e [of mo] e [of "y mod 100"] e [of "y div 100"] range u ce yr in
     \<open>simp_all add: decode_time_hour, simp_all add: decode_time_def Let_def shows_time_def\<close>)
  with rtc_read_chip [OF chip, of d] show ?thesis by (simp add: hour_shown_def)
qed

theorem rtc_read_time_witness:
  "\<exists>d'. rtc_read demo_chip (0, 3) = Some (\<lparr>t_second = 56, t_minute = 34, t_hour = 0, t_day = 29, t_month = 2, t_year = 2024\<rparr>, d')"
  using rtc_read_time [OF demo_chip_ok demo_time, of "(0, 3)"] by simp

end
