(* ===== verification/Serial.thy ===== *)
theory Serial
  imports Io
begin

text \<open>
  The serial line of \<open>drivers/serial.c\<close>, and what goes out of the UART.  \<open>None\<close> is a transmitter that
  never becomes empty.
\<close>

section \<open>Operations\<close>

definition COM1 :: u16 where "COM1 = 0x3F8"

definition serial_init :: "'d ports \<Rightarrow> 'd \<Rightarrow> bool \<times> 'd" where
  "serial_init P d =
     (let d = outb P (COM1 + 1) 0x00 d;
          d = outb P (COM1 + 3) 0x80 d;
          d = outb P (COM1 + 0) 0x03 d;
          d = outb P (COM1 + 1) 0x00 d;
          d = outb P (COM1 + 3) 0x03 d;
          d = outb P (COM1 + 2) 0xC7 d;
          d = outb P (COM1 + 4) 0x0B d
      in (True, d))"

definition transmit_empty :: "'d ports \<Rightarrow> 'd \<Rightarrow> u8 \<times> 'd" where
  "transmit_empty P d = (let (v, d) = inb P (COM1 + 5) d in (v AND 0x20, d))"

partial_function (option) wait_transmit :: "'d ports \<Rightarrow> 'd \<Rightarrow> 'd option" where
  "wait_transmit P d = (let (v, d) = transmit_empty P d in if v = 0 then wait_transmit P d else Some d)"

declare wait_transmit.simps [code]

text \<open>A line feed is preceded by a carriage return.\<close>

partial_function (option) serial_putc :: "'d ports \<Rightarrow> bool \<Rightarrow> char \<Rightarrow> 'd \<Rightarrow> 'd option" where
  "serial_putc P ready c d =
     (if \<not> ready then Some d
      else do {
        d \<leftarrow> (if c = CHR 0x0A then serial_putc P ready (CHR 0x0D) d else Some d);
        d \<leftarrow> wait_transmit P d;
        Some (outb P COM1 (of_char c) d)
      })"

declare serial_putc.simps [code]

fun serial_write :: "'d ports \<Rightarrow> bool \<Rightarrow> string \<Rightarrow> 'd \<Rightarrow> 'd option" where
  "serial_write P ready [] d = Some d"
| "serial_write P ready (c # s) d = do { d \<leftarrow> serial_putc P ready c d; serial_write P ready s d }"

section \<open>The line\<close>

text \<open>
  The documented behaviour of the transmitter: the line status has its bit 5 set when the transmitter
  is empty, which it is after finitely many looks; a byte written then goes out.  \<open>sent\<close> are the bytes
  that went out, the last one first.
\<close>

definition uart :: "'d ports \<Rightarrow> ('d \<Rightarrow> u8 list) \<Rightarrow> ('d \<Rightarrow> nat) \<Rightarrow> bool" where
  "uart P sent busy \<longleftrightarrow> (\<forall>d.
     (fst (inb P (COM1 + 5) d) AND 0x20 = 0) = (busy d \<noteq> 0) \<and> sent (snd (inb P (COM1 + 5) d)) = sent d \<and>
     busy (snd (inb P (COM1 + 5) d)) = busy d - 1 \<and>
     (\<forall>v. busy d = 0 \<longrightarrow> sent (outb P COM1 v d) = v # sent d))"

lemma wait_transmit_ends:
  assumes u: "uart P sent busy"
  shows "\<exists>d'. wait_transmit P d = Some d' \<and> busy d' = 0 \<and> sent d' = sent d"
proof (induction "busy d" arbitrary: d)
  case 0
  obtain v d' where r: "inb P (COM1 + 5) d = (v, d')" by (rule prod.exhaust)
  have "v AND 0x20 \<noteq> 0" "busy d' = 0" "sent d' = sent d" using u 0 r unfolding uart_def by (metis fst_conv snd_conv diff_0_eq_0)+
  with r show ?case by (subst wait_transmit.simps) (simp add: transmit_empty_def)
next
  case (Suc n)
  obtain v d' where r: "inb P (COM1 + 5) d = (v, d')" by (rule prod.exhaust)
  have s: "v AND 0x20 = 0" "n = busy d'" "sent d' = sent d" using u Suc.hyps(2) r unfolding uart_def
    by (metis fst_conv snd_conv nat.distinct(1) diff_Suc_1)+
  from Suc.hyps(1) [OF s(2)] s(1,3) r show ?case by (subst wait_transmit.simps) (simp add: transmit_empty_def)
qed

definition crlf :: "string \<Rightarrow> u8 list" where
  "crlf s = concat (map (\<lambda>c. if c = CHR 0x0A then [0x0D, 0x0A] else [of_char c]) s)"

lemma serial_putc_sends:
  assumes u: "uart P sent busy"
  shows "\<exists>d'. serial_putc P True c d = Some d' \<and> sent d' = rev (crlf [c]) @ sent d"
proof -
  have plain: "\<exists>d'. serial_putc P True c d = Some d' \<and> sent d' = of_char c # sent d" if "c \<noteq> CHR 0x0A" for c d
  proof -
    from wait_transmit_ends [OF u, of d] obtain d' where w: "wait_transmit P d = Some d'" "busy d' = 0" "sent d' = sent d" by blast
    then have "sent (outb P COM1 (of_char c) d') = of_char c # sent d" using u unfolding uart_def by simp
    with w(1) that show ?thesis by (subst serial_putc.simps) simp
  qed
  show ?thesis
  proof (cases "c = CHR 0x0A")
    case True
    from plain [of "CHR 0x0D" d] obtain d1 where 1: "serial_putc P True (CHR 0x0D) d = Some d1" "sent d1 = 0x0D # sent d" by auto
    from wait_transmit_ends [OF u, of d1] obtain d2 where w: "wait_transmit P d1 = Some d2" "busy d2 = 0" "sent d2 = sent d1" by blast
    then have "sent (outb P COM1 0x0A d2) = 0x0A # 0x0D # sent d" using u 1(2) unfolding uart_def by simp
    with 1(1) w(1) True show ?thesis by (subst serial_putc.simps) (simp add: crlf_def)
  next
    case False
    with plain [OF False, of d] show ?thesis by (simp add: crlf_def)
  qed
qed

text \<open>\<open>serial_write\<close> returns and sends the text with a carriage return before every line feed.\<close>

theorem serial_write_sends:
  assumes u: "uart P sent busy"
  shows "\<exists>d'. serial_write P True s d = Some d' \<and> sent d' = rev (crlf s) @ sent d"
proof (induction s arbitrary: d)
  case Nil
  then show ?case by (simp add: crlf_def)
next
  case (Cons c s)
  from serial_putc_sends [OF u, of c d] obtain d1 where d1: "serial_putc P True c d = Some d1" "sent d1 = rev (crlf [c]) @ sent d" by blast
  from Cons.IH [of d1] obtain d2 where "serial_write P True s d1 = Some d2" "sent d2 = rev (crlf s) @ sent d1" by blast
  with d1 show ?case by (auto simp: crlf_def)
qed

end
