(* ===== verification/Interrupts.thy ===== *)
theory Interrupts
  imports Io
begin

text \<open>
  The descriptor tables of \<open>kernel/gdt.c\<close> and \<open>kernel/idt.c\<close>, the two interrupt controllers and the
  table of handlers.  A stub or a handler is its address; loading the tables into the processor
  (\<open>gdt_flush\<close>, \<open>idt_flush\<close>, assembly) is not part of the state.
\<close>

section \<open>The segments\<close>

record gdt_entry =
  g_limit_low :: u16
  g_base_low :: u16
  g_base_middle :: u8
  g_access :: u8
  g_granularity :: u8
  g_base_high :: u8

record gdt_state =
  gdt :: "gdt_entry list"
  gdt_limit :: u16
  gdt_base :: u32

definition GDT_ENTRIES :: nat where "GDT_ENTRIES = 5"

definition gdt_set_gate :: "nat \<Rightarrow> u32 \<Rightarrow> u32 \<Rightarrow> u8 \<Rightarrow> u8 \<Rightarrow> gdt_state \<Rightarrow> gdt_state" where
  "gdt_set_gate index base limit acc gran g =
     g\<lparr>gdt := (gdt g)[index :=
       \<lparr>g_limit_low = ucast (limit AND 0xFFFF), g_base_low = ucast (base AND 0xFFFF),
        g_base_middle = ucast (drop_bit 16 base AND 0xFF), g_access = acc,
        g_granularity = ucast (drop_bit 16 limit AND 0x0F) OR (gran AND 0xF0),
        g_base_high = ucast (drop_bit 24 base AND 0xFF)\<rparr>]\<rparr>"

text \<open>\<open>table\<close> is the address of the table; an entry has eight bytes.\<close>

definition gdt_init :: "u32 \<Rightarrow> gdt_state \<Rightarrow> gdt_state" where
  "gdt_init table g =
     (let g = g\<lparr>gdt_limit := of_nat (GDT_ENTRIES * 8 - 1), gdt_base := table\<rparr>;
          g = gdt_set_gate 0 0 0x00000000 0x00 0x00 g;
          g = gdt_set_gate 1 0 0x000FFFFF 0x9A 0xCF g;
          g = gdt_set_gate 2 0 0x000FFFFF 0x92 0xCF g;
          g = gdt_set_gate 3 0 0x000FFFFF 0xFA 0xCF g
      in gdt_set_gate 4 0 0x000FFFFF 0xF2 0xCF g)"

section \<open>The gates and the controllers\<close>

record idt_entry =
  i_base_low :: u16
  i_selector :: u16
  i_always0 :: u8
  i_flags :: u8
  i_base_high :: u16

record idt_state =
  idt :: "idt_entry list"
  idt_limit :: u16
  idt_base :: u32
  irq_handlers :: "ptr list"

definition IDT_ENTRIES :: nat where "IDT_ENTRIES = 256"
definition PIC1_COMMAND :: u16 where "PIC1_COMMAND = 0x20"
definition PIC1_DATA :: u16 where "PIC1_DATA = 0x21"
definition PIC2_COMMAND :: u16 where "PIC2_COMMAND = 0xA0"
definition PIC2_DATA :: u16 where "PIC2_DATA = 0xA1"
definition VECTOR_YIELD :: nat where "VECTOR_YIELD = 0x30"

definition zero_gate :: idt_entry where
  "zero_gate = \<lparr>i_base_low = 0, i_selector = 0, i_always0 = 0, i_flags = 0, i_base_high = 0\<rparr>"

definition idt_set_gate :: "nat \<Rightarrow> u32 \<Rightarrow> u16 \<Rightarrow> u8 \<Rightarrow> idt_state \<Rightarrow> idt_state" where
  "idt_set_gate index base selector fl s =
     s\<lparr>idt := (idt s)[index :=
       \<lparr>i_base_low = ucast (base AND 0xFFFF), i_selector = selector, i_always0 = 0, i_flags = fl,
        i_base_high = ucast (drop_bit 16 base AND 0xFFFF)\<rparr>]\<rparr>"

definition io_wait :: "'d ports \<Rightarrow> 'd \<Rightarrow> 'd" where "io_wait P = outb P 0x80 0"

definition pic_remap :: "'d ports \<Rightarrow> 'd \<Rightarrow> 'd" where
  "pic_remap P d =
     (let (mask1, d) = inb P PIC1_DATA d;
          (mask2, d) = inb P PIC2_DATA d;
          d = io_wait P (outb P PIC1_COMMAND 0x11 d);
          d = io_wait P (outb P PIC2_COMMAND 0x11 d);
          d = io_wait P (outb P PIC1_DATA 0x20 d);
          d = io_wait P (outb P PIC2_DATA 0x28 d);
          d = io_wait P (outb P PIC1_DATA 0x04 d);
          d = io_wait P (outb P PIC2_DATA 0x02 d);
          d = io_wait P (outb P PIC1_DATA 0x01 d);
          d = io_wait P (outb P PIC2_DATA 0x01 d);
          d = outb P PIC1_DATA mask1 d
      in outb P PIC2_DATA mask2 d)"

text \<open>\<open>stubs\<close> are the 48 entry points of the assembly, \<open>yield_entry\<close> that of the yield gate.\<close>

definition idt_init :: "'d ports \<Rightarrow> u32 \<Rightarrow> u32 list \<Rightarrow> u32 \<Rightarrow> idt_state \<Rightarrow> 'd \<Rightarrow> idt_state \<times> 'd" where
  "idt_init P table stubs yield_entry s d =
     (let s = s\<lparr>idt_limit := of_nat (IDT_ENTRIES * 8 - 1), idt_base := table,
                idt := replicate IDT_ENTRIES zero_gate, irq_handlers := replicate 16 NULL\<rparr>;
          d = pic_remap P d;
          s = fold (\<lambda>i. idt_set_gate i (stubs ! i) 0x08 0x8E) [0..<48] s;
          s = idt_set_gate VECTOR_YIELD yield_entry 0x08 0x8E s;
          d = outb P PIC1_DATA (NOT 0x07) d
      in (s, outb P PIC2_DATA 0xFF d))"

definition irq_set_masked :: "'d ports \<Rightarrow> int \<Rightarrow> bool \<Rightarrow> 'd \<Rightarrow> 'd" where
  "irq_set_masked P irq masked d =
     (if irq < 0 \<or> irq \<ge> 16 then d
      else let (port, b) = (if irq < 8 then (PIC1_DATA, nat irq) else (PIC2_DATA, nat (irq - 8)));
               (mask, d) = inb P port d;
               mask = (if masked then mask OR push_bit b 1 else mask AND NOT (push_bit b 1))
           in outb P port mask d)"

definition irq_install_handler :: "int \<Rightarrow> ptr \<Rightarrow> idt_state \<Rightarrow> idt_state" where
  "irq_install_handler irq handler s =
     (if irq \<ge> 0 \<and> irq < 16 then s\<lparr>irq_handlers := (irq_handlers s)[nat irq := handler]\<rparr> else s)"

definition irq_uninstall_handler :: "int \<Rightarrow> idt_state \<Rightarrow> idt_state" where
  "irq_uninstall_handler irq s =
     (if irq \<ge> 0 \<and> irq < 16 then s\<lparr>irq_handlers := (irq_handlers s)[nat irq := NULL]\<rparr> else s)"

section \<open>What the tables say\<close>

text \<open>The base, the limit and the flags the processor reads from a descriptor.\<close>

definition gdt_decode :: "gdt_entry \<Rightarrow> u32 \<times> u32 \<times> u8 \<times> u8" where
  "gdt_decode e =
     (ucast (g_base_low e) OR push_bit 16 (ucast (g_base_middle e)) OR push_bit 24 (ucast (g_base_high e)),
      ucast (g_limit_low e) OR push_bit 16 (ucast (g_granularity e AND 0x0F)),
      g_access e, g_granularity e AND 0xF0)"

definition gate_target :: "idt_entry \<Rightarrow> u32" where
  "gate_target e = ucast (i_base_low e) OR push_bit 16 (ucast (i_base_high e))"

lemma base_parts:
  fixes b :: u32
  shows "ucast (ucast (b AND 0xFFFF) :: u16) OR push_bit 16 (ucast (ucast (drop_bit 16 b AND 0xFF) :: u8)) OR
      push_bit 24 (ucast (ucast (drop_bit 24 b AND 0xFF) :: u8)) = b"
    "ucast (ucast (b AND 0xFFFF) :: u16) OR push_bit 16 (ucast (ucast (drop_bit 16 b AND 0xFFFF) :: u16)) = b"
proof -
  have m: "(0xFFFF :: u32) = mask 16" "(0xFF :: u32) = mask 8" by (simp_all add: mask_eq_exp_minus_1)
  show "ucast (ucast (b AND 0xFFFF) :: u16) OR push_bit 16 (ucast (ucast (drop_bit 16 b AND 0xFF) :: u8)) OR
      push_bit 24 (ucast (ucast (drop_bit 24 b AND 0xFF) :: u8)) = b"
    unfolding m
  proof (rule bit_word_eqI)
    fix n assume "n < LENGTH(32)"
    then show "bit (ucast (ucast (b AND mask 16) :: u16) OR push_bit 16 (ucast (ucast (drop_bit 16 b AND mask 8) :: u8)) OR
      push_bit 24 (ucast (ucast (drop_bit 24 b AND mask 8) :: u8)) :: u32) n = bit b n"
      by (cases "24 \<le> n") (auto simp: bit_simps)
  qed
  show "ucast (ucast (b AND 0xFFFF) :: u16) OR push_bit 16 (ucast (ucast (drop_bit 16 b AND 0xFFFF) :: u16)) = b"
    unfolding m by (rule bit_word_eqI) (auto simp: bit_simps)
qed

lemma limit_parts:
  fixes l :: u32 and g :: u8
  assumes "l AND mask 20 = l"
  shows "ucast (ucast (l AND 0xFFFF) :: u16) OR push_bit 16 (ucast ((ucast (drop_bit 16 l AND 0x0F) OR (g AND 0xF0)) AND 0x0F :: u8)) = l"
    "(ucast (drop_bit 16 l AND 0x0F) OR (g AND 0xF0)) AND 0xF0 = g AND 0xF0"
proof -
  have m: "(0xFFFF :: u32) = mask 16" "(0x0F :: u32) = mask 4" "(0x0F :: u8) = mask 4" "(0xF0 :: u8) = push_bit 4 (mask 4)"
    by (simp_all add: mask_eq_exp_minus_1)
  have h: "bit l n \<Longrightarrow> n < 20" for n using assms by (metis bit_and_iff bit_mask_iff)
  show "ucast (ucast (l AND 0xFFFF) :: u16) OR push_bit 16 (ucast ((ucast (drop_bit 16 l AND 0x0F) OR (g AND 0xF0)) AND 0x0F :: u8)) = l"
    unfolding m by (rule bit_word_eqI) (auto simp: bit_simps dest: h)
  show "(ucast (drop_bit 16 l AND 0x0F) OR (g AND 0xF0)) AND 0xF0 = g AND 0xF0"
    unfolding m by (rule bit_word_eqI) (auto simp: bit_simps)
qed


subsection \<open>The controllers\<close>

text \<open>
  An 8259A as its data sheet describes it: command 0x11 starts its initialisation, which clears the
  mask and takes three more bytes through the data port, the first of them the vector of its line 0;
  otherwise a byte written to the data port is the mask, and reading that port gives the mask.
\<close>

record pic =
  steps_left :: nat
  vector :: u8
  imr :: u8

definition pic_command :: "u8 \<Rightarrow> pic \<Rightarrow> pic" where
  "pic_command v c = (if v = 0x11 then c\<lparr>steps_left := 3, imr := 0\<rparr> else c)"

definition pic_data :: "u8 \<Rightarrow> pic \<Rightarrow> pic" where
  "pic_data v c =
     (if steps_left c = 3 then c\<lparr>steps_left := 2, vector := v AND 0xF8\<rparr>
      else if steps_left c > 0 then c\<lparr>steps_left := steps_left c - 1\<rparr>
      else c\<lparr>imr := v\<rparr>)"

definition pic_chips :: "'d ports \<Rightarrow> ('d \<Rightarrow> pic) \<Rightarrow> ('d \<Rightarrow> pic) \<Rightarrow> bool" where
  "pic_chips P chip1 chip2 \<longleftrightarrow> (\<forall>d v.
     chip1 (outb P PIC1_COMMAND v d) = pic_command v (chip1 d) \<and> chip2 (outb P PIC1_COMMAND v d) = chip2 d \<and>
     chip1 (outb P PIC2_COMMAND v d) = chip1 d \<and> chip2 (outb P PIC2_COMMAND v d) = pic_command v (chip2 d) \<and>
     chip1 (outb P PIC1_DATA v d) = pic_data v (chip1 d) \<and> chip2 (outb P PIC1_DATA v d) = chip2 d \<and>
     chip1 (outb P PIC2_DATA v d) = chip1 d \<and> chip2 (outb P PIC2_DATA v d) = pic_data v (chip2 d) \<and>
     chip1 (outb P 0x80 v d) = chip1 d \<and> chip2 (outb P 0x80 v d) = chip2 d \<and>
     chip1 (snd (inb P PIC1_DATA d)) = chip1 d \<and> chip2 (snd (inb P PIC1_DATA d)) = chip2 d \<and>
     chip1 (snd (inb P PIC2_DATA d)) = chip1 d \<and> chip2 (snd (inb P PIC2_DATA d)) = chip2 d \<and>
     (steps_left (chip1 d) = 0 \<longrightarrow> fst (inb P PIC1_DATA d) = imr (chip1 d)) \<and>
     (steps_left (chip2 d) = 0 \<longrightarrow> fst (inb P PIC2_DATA d) = imr (chip2 d)))"

lemma pic_remap_chips:
  assumes "pic_chips P chip1 chip2"
  shows "steps_left (chip1 (pic_remap P d)) = 0" "vector (chip1 (pic_remap P d)) = 0x20"
    "steps_left (chip2 (pic_remap P d)) = 0" "vector (chip2 (pic_remap P d)) = 0x28"
  using assms unfolding pic_chips_def
  by (simp_all add: pic_remap_def io_wait_def pic_command_def pic_data_def Let_def case_prod_unfold)

lemma set_gates:
  "length (idt s) = 256 \<Longrightarrow> n \<le> 256 \<Longrightarrow>
     (let s' = fold (\<lambda>i. idt_set_gate i (f i) sel fl) [0..<n] s
      in length (idt s') = 256 \<and> irq_handlers s' = irq_handlers s \<and> idt_limit s' = idt_limit s \<and> idt_base s' = idt_base s \<and>
        (\<forall>j<256. idt s' ! j = (if j < n then \<lparr>i_base_low = ucast (f j AND 0xFFFF), i_selector = sel, i_always0 = 0, i_flags = fl,
           i_base_high = ucast (drop_bit 16 (f j) AND 0xFFFF)\<rparr> else idt s ! j)))"
  by (induction n) (auto simp: Let_def idt_set_gate_def nth_list_update less_Suc_eq)

section \<open>Properties\<close>

text \<open>After \<open>gdt_init\<close> the processor reads from the five descriptors the null segment and,
  for ring 0 and ring 3, a code and a data segment with base 0 and a limit of \<open>0xFFFFF\<close> pages of 4 KiB.\<close>

theorem gdt_flat:
  assumes "length (gdt g) = 5"
  shows "map gdt_decode (gdt (gdt_init table g)) =
      [(0, 0, 0, 0), (0, 0xFFFFF, 0x9A, 0xC0), (0, 0xFFFFF, 0x92, 0xC0), (0, 0xFFFFF, 0xFA, 0xC0), (0, 0xFFFFF, 0xF2, 0xC0)] \<and>
    gdt_base (gdt_init table g) = table \<and> unat (gdt_limit (gdt_init table g)) = 5 * 8 - 1"
proof -
  obtain a b c d e where g: "gdt g = [a, b, c, d, e]" using assms by (auto simp: length_Suc_conv numeral_eq_Suc)
  show ?thesis by (simp add: gdt_init_def gdt_set_gate_def g gdt_decode_def Let_def GDT_ENTRIES_def)
qed

text \<open>Property C35: after \<open>idt_init\<close> the first 48 gates and the yield gate lead, as ring-0 interrupt gates
  of the kernel code segment, to the full 32-bit address of their stub, and no other gate is present;
  no handler is installed; whatever state they were in, the controllers deliver their lines at
  vectors 0x20 and 0x28, with only the timer, the keyboard and the cascade let through.\<close>

theorem idt_init_gates:
  assumes pic: "pic_chips P chip1 chip2" and n: "length stubs = 48"
    and i: "idt_init P table stubs yield_entry s d = (s', d')"
  shows "(\<forall>v<48. gate_target (idt s' ! v) = stubs ! v \<and> i_selector (idt s' ! v) = 0x08 \<and> i_flags (idt s' ! v) = 0x8E) \<and>
    gate_target (idt s' ! 48) = yield_entry \<and> i_selector (idt s' ! 48) = 0x08 \<and> i_flags (idt s' ! 48) = 0x8E \<and>
    (\<forall>v<256. 48 < v \<longrightarrow> i_flags (idt s' ! v) = 0) \<and> length (idt s') = 256 \<and> idt_base s' = table \<and>
    irq_handlers s' = replicate 16 NULL \<and>
    vector (chip1 d') = 0x20 \<and> imr (chip1 d') = 0xF8 \<and> steps_left (chip1 d') = 0 \<and>
    vector (chip2 d') = 0x28 \<and> imr (chip2 d') = 0xFF \<and> steps_left (chip2 d') = 0"
proof -
  let ?s = "s\<lparr>idt_limit := of_nat (IDT_ENTRIES * 8 - 1), idt_base := table, idt := replicate IDT_ENTRIES zero_gate,
    irq_handlers := replicate 16 NULL\<rparr>"
  let ?f = "fold (\<lambda>i. idt_set_gate i (stubs ! i) 0x08 0x8E) [0..<48] ?s"
  have s': "s' = idt_set_gate 48 yield_entry 0x08 0x8E ?f" and d': "d' = outb P PIC2_DATA 0xFF (outb P PIC1_DATA (NOT 0x07) (pic_remap P d))"
    using i by (simp_all add: idt_init_def VECTOR_YIELD_def Let_def)
  from set_gates [of ?s 48 "\<lambda>i. stubs ! i" "0x08" "0x8E"] have
    f: "length (idt ?f) = 256" "irq_handlers ?f = replicate 16 NULL" "idt_base ?f = table"
    "\<forall>j<256. idt ?f ! j = (if j < 48 then \<lparr>i_base_low = ucast (stubs ! j AND 0xFFFF), i_selector = 0x08, i_always0 = 0, i_flags = 0x8E,
           i_base_high = ucast (drop_bit 16 (stubs ! j) AND 0xFFFF)\<rparr> else zero_gate)"
    by (auto simp: Let_def IDT_ENTRIES_def)
  have g: "idt s' = (idt ?f)[48 := \<lparr>i_base_low = ucast (yield_entry AND 0xFFFF), i_selector = 0x08, i_always0 = 0, i_flags = 0x8E,
      i_base_high = ucast (drop_bit 16 yield_entry AND 0xFFFF)\<rparr>]" "irq_handlers s' = irq_handlers ?f" "idt_base s' = idt_base ?f"
    unfolding s' by (simp_all add: idt_set_gate_def)
  have c: "vector (chip1 d') = 0x20 \<and> imr (chip1 d') = 0xF8 \<and> steps_left (chip1 d') = 0 \<and>
    vector (chip2 d') = 0x28 \<and> imr (chip2 d') = 0xFF \<and> steps_left (chip2 d') = 0"
    using pic unfolding d' pic_chips_def by (simp add: pic_remap_chips [OF pic] pic_data_def)
  show ?thesis
    using f c unfolding g by (simp add: gate_target_def base_parts nth_list_update zero_gate_def)
qed

text \<open>Two controllers that have just been switched on, still mapped over the exceptions.\<close>

definition demo_pics :: "(pic \<times> pic) ports" where
  "demo_pics = \<lparr>
     inb = (\<lambda>p (a, b). (if p = PIC1_DATA then imr a else if p = PIC2_DATA then imr b else 0, (a, b))),
     outb = (\<lambda>p v (a, b). if p = PIC1_COMMAND then (pic_command v a, b) else if p = PIC2_COMMAND then (a, pic_command v b)
        else if p = PIC1_DATA then (pic_data v a, b) else if p = PIC2_DATA then (a, pic_data v b) else (a, b)),
     inw = (\<lambda>p d. (0, d)), outw = (\<lambda>p v d. d)\<rparr>"

lemma demo_pics_ok: "pic_chips demo_pics fst snd"
  by (auto simp: pic_chips_def demo_pics_def PIC1_COMMAND_def PIC1_DATA_def PIC2_COMMAND_def PIC2_DATA_def)

definition raw_pic :: pic where "raw_pic = \<lparr>steps_left = 0, vector = 8, imr = 0\<rparr>"

definition no_idt :: idt_state where
  "no_idt = \<lparr>idt = [], idt_limit = 0, idt_base = 0, irq_handlers = []\<rparr>"

theorem gdt_flat_witness:
  "gdt_decode (gdt (gdt_init 0x5000 \<lparr>gdt = replicate 5 \<lparr>g_limit_low = 1, g_base_low = 2, g_base_middle = 3, g_access = 4,
     g_granularity = 5, g_base_high = 6\<rparr>, gdt_limit = 0, gdt_base = 0\<rparr>) ! 1) = (0, 0xFFFFF, 0x9A, 0xC0)"
proof -
  let ?g = "\<lparr>gdt = replicate 5 \<lparr>g_limit_low = 1, g_base_low = 2, g_base_middle = 3, g_access = 4,
     g_granularity = 5, g_base_high = 6\<rparr>, gdt_limit = 0, gdt_base = 0\<rparr>"
  have "map gdt_decode (gdt (gdt_init 0x5000 ?g)) =
      [(0, 0, 0, 0), (0, 0xFFFFF, 0x9A, 0xC0), (0, 0xFFFFF, 0x92, 0xC0), (0, 0xFFFFF, 0xFA, 0xC0), (0, 0xFFFFF, 0xF2, 0xC0)]"
    using gdt_flat [of ?g "0x5000"] by simp
  then have "map gdt_decode (gdt (gdt_init 0x5000 ?g)) ! 1 = (0, 0xFFFFF, 0x9A, 0xC0)"
    and "1 < length (gdt (gdt_init 0x5000 ?g))" by (simp_all add: gdt_init_def gdt_set_gate_def)
  then show ?thesis by (simp only: nth_map)
qed

theorem idt_init_gates_witness:
  "\<exists>s' d'. idt_init demo_pics 0x8000 (map (\<lambda>i. of_nat (0x10000 + 16 * i)) [0..<48]) 0x20000 no_idt (raw_pic, raw_pic) = (s', d') \<and>
     gate_target (idt s' ! 33) = 0x10210 \<and> vector (fst d') = 0x20"
proof -
  let ?st = "map (\<lambda>i. of_nat (0x10000 + 16 * i) :: u32) [0..<48]"
  obtain s' d' where i: "idt_init demo_pics 0x8000 ?st 0x20000 no_idt (raw_pic, raw_pic) = (s', d')" by (rule prod.exhaust)
  have "length ?st = 48" by simp
  from idt_init_gates [OF demo_pics_ok this i] have "gate_target (idt s' ! 33) = ?st ! 33" "vector (fst d') = 0x20" by simp_all
  moreover have "?st ! 33 = 0x10210" by simp
  ultimately show ?thesis using i by simp
qed

end
