(* ===== verification/Mouse.thy ===== *)
theory Mouse
  imports Vga Interrupts
begin

text \<open>
  The PS/2 mouse driver of \<open>drivers/mouse.c\<close>: the handshake with the 8042 controller, the detection of
  a wheel and the packet decoder of the interrupt handler, which scrolls the console.  \<open>None\<close> is an
  access outside the packet buffer.
\<close>

section \<open>State\<close>

record mouse =
  packet :: "u8 list"
  packet_index :: int
  packet_size :: int
  device_id :: int
  present_mouse :: bool

definition PS2_DATA :: u16 where "PS2_DATA = 0x60"
definition PS2_STATUS :: u16 where "PS2_STATUS = 0x64"
definition PS2_COMMAND :: u16 where "PS2_COMMAND = 0x64"
definition STATUS_OUTPUT_FULL :: u8 where "STATUS_OUTPUT_FULL = 0x01"
definition STATUS_INPUT_FULL :: u8 where "STATUS_INPUT_FULL = 0x02"
definition LINES_PER_NOTCH :: int where "LINES_PER_NOTCH = 3"

section \<open>The handshake\<close>

primrec wait_writable_loop :: "'d ports \<Rightarrow> nat \<Rightarrow> 'd \<Rightarrow> bool \<times> 'd" where
  "wait_writable_loop P 0 d = (False, d)"
| "wait_writable_loop P (Suc n) d =
     (let (status, d) = inb P PS2_STATUS d
      in if status AND STATUS_INPUT_FULL = 0 then (True, d) else wait_writable_loop P n d)"

definition wait_writable :: "'d ports \<Rightarrow> 'd \<Rightarrow> bool \<times> 'd" where
  "wait_writable P = wait_writable_loop P 100000"

primrec wait_readable_loop :: "'d ports \<Rightarrow> nat \<Rightarrow> 'd \<Rightarrow> bool \<times> 'd" where
  "wait_readable_loop P 0 d = (False, d)"
| "wait_readable_loop P (Suc n) d =
     (let (status, d) = inb P PS2_STATUS d
      in if status AND STATUS_OUTPUT_FULL \<noteq> 0 then (True, d) else wait_readable_loop P n d)"

definition wait_readable :: "'d ports \<Rightarrow> 'd \<Rightarrow> bool \<times> 'd" where
  "wait_readable P = wait_readable_loop P 100000"

definition read_data :: "'d ports \<Rightarrow> 'd \<Rightarrow> int \<times> 'd" where
  "read_data P d =
     (let (ready, d) = wait_readable P d
      in if \<not> ready then (-1, d) else let (v, d) = inb P PS2_DATA d in (uint v, d))"

definition mouse_command :: "'d ports \<Rightarrow> u8 \<Rightarrow> 'd \<Rightarrow> int \<times> 'd" where
  "mouse_command P value d =
     (let (ready, d) = wait_writable P d
      in if \<not> ready then (-1, d)
         else let d = outb P PS2_COMMAND 0xD4 d;
                  (ready, d) = wait_writable P d
              in if \<not> ready then (-1, d) else read_data P (outb P PS2_DATA value d))"

definition set_sample_rate :: "'d ports \<Rightarrow> u8 \<Rightarrow> 'd \<Rightarrow> int \<times> 'd" where
  "set_sample_rate P rate d =
     (let (ack, d) = mouse_command P 0xF3 d
      in if ack \<noteq> 0xFA then (-1, d) else mouse_command P rate d)"

definition enable_wheel :: "'d ports \<Rightarrow> mouse \<Rightarrow> 'd \<Rightarrow> mouse \<times> 'd" where
  "enable_wheel P m d =
     (let d = snd (set_sample_rate P 200 d);
          d = snd (set_sample_rate P 100 d);
          d = snd (set_sample_rate P 80 d);
          (ack, d) = mouse_command P 0xF2 d
      in if ack \<noteq> 0xFA then (m, d)
         else let (i, d) = read_data P d;
                  m = m\<lparr>device_id := i\<rparr>
              in (if i = 3 then m\<lparr>packet_size := 4\<rparr> else m, d))"

text \<open>\<open>callback\<close> is the address of \<open>mouse_callback\<close>.\<close>

definition mouse_init :: "'d ports \<Rightarrow> ptr \<Rightarrow> mouse \<Rightarrow> idt_state \<Rightarrow> 'd \<Rightarrow> mouse \<times> idt_state \<times> 'd" where
  "mouse_init P callback m s d =
     (let (ready, d) = wait_writable P d
      in if \<not> ready then (m, s, d)
      else let d = outb P PS2_COMMAND 0xA8 d;
               (ready, d) = wait_writable P d
      in if \<not> ready then (m, s, d)
      else let d = outb P PS2_COMMAND 0x20 d;
               (config, d) = read_data P d
      in if config < 0 then (m, s, d)
      else let status = word_of_int config OR 0x02;
               status = status AND NOT 0x20;
               (ready, d) = wait_writable P d
      in if \<not> ready then (m, s, d)
      else let d = outb P PS2_COMMAND 0x60 d;
               (ready, d) = wait_writable P d
      in if \<not> ready then (m, s, d)
      else let d = outb P PS2_DATA status d;
               (ack, d) = mouse_command P 0xF6 d
      in if ack \<noteq> 0xFA then (m, s, d)
      else let (m, d) = enable_wheel P m d;
               (ack, d) = mouse_command P 0xF4 d
      in if ack \<noteq> 0xFA then (m, s, d)
      else let m = m\<lparr>present_mouse := True, packet_index := 0\<rparr>;
               s = irq_install_handler 12 callback s
      in (m, s, irq_set_masked P 12 False d))"

definition mouse_device_id :: "mouse \<Rightarrow> int" where "mouse_device_id m = device_id m"
definition mouse_present :: "mouse \<Rightarrow> bool" where "mouse_present m = present_mouse m"

section \<open>Packets\<close>

text \<open>A byte that was read: the driver, and the lines the view moves by.\<close>

definition mouse_byte :: "u8 \<Rightarrow> mouse \<Rightarrow> (mouse \<times> int option) option" where
  "mouse_byte b m =
     (if packet_index m = 0 \<and> b AND 0x08 = 0 then Some (m, None)
      else if packet_index m < 0 \<or> packet_index m \<ge> int (length (packet m)) then None
      else let m = m\<lparr>packet := (packet m)[nat (packet_index m) := b], packet_index := packet_index m + 1\<rparr>
      in if packet_index m < packet_size m then Some (m, None)
      else let m = m\<lparr>packet_index := 0\<rparr>
      in if packet_size m < 4 then Some (m, None)
      else let z = packet m ! 3 AND 0x0F;
               z = (if z AND 0x08 \<noteq> 0 then z OR 0xF0 else z)
      in Some (m, if z = 0 then None else Some (- sint z * LINES_PER_NOTCH)))"

definition mouse_callback :: "'d ports \<Rightarrow> mouse \<Rightarrow> vga \<Rightarrow> 'd \<Rightarrow> (mouse \<times> vga \<times> 'd) option" where
  "mouse_callback P m v d =
     (let (status, d) = inb P PS2_STATUS d
      in if status AND STATUS_OUTPUT_FULL = 0 then Some (m, v, d)
         else do {
           let (b, d) = inb P PS2_DATA d;
           (m, scroll) \<leftarrow> mouse_byte b m;
           Some (m, (case scroll of None \<Rightarrow> v | Some n \<Rightarrow> vga_scroll_view n v), d)
         })"

section \<open>Streams of bytes\<close>

text \<open>The driver as it is after \<open>mouse_init\<close>, and while packets arrive.\<close>

definition mouse_ok :: "mouse \<Rightarrow> bool" where
  "mouse_ok m \<longleftrightarrow> length (packet m) = 4 \<and> (packet_size m = 3 \<or> packet_size m = 4) \<and> 0 \<le> packet_index m \<and> packet_index m < packet_size m"

fun mouse_bytes :: "u8 list \<Rightarrow> mouse \<Rightarrow> (mouse \<times> int list) option" where
  "mouse_bytes [] m = Some (m, [])"
| "mouse_bytes (b # bs) m = do {
     (m, scroll) \<leftarrow> mouse_byte b m;
     (m, scrolls) \<leftarrow> mouse_bytes bs m;
     Some (m, (case scroll of None \<Rightarrow> scrolls | Some n \<Rightarrow> n # scrolls))
   }"

lemma mouse_byte_ok: "mouse_ok m \<Longrightarrow> \<exists>m' n. mouse_byte b m = Some (m', n) \<and> mouse_ok m' \<and> packet_size m' = packet_size m"
  by (auto simp: mouse_byte_def mouse_ok_def Let_def)

lemma mouse_bytes_ok: "mouse_ok m \<Longrightarrow> \<exists>m' ns. mouse_bytes bs m = Some (m', ns) \<and> mouse_ok m' \<and> packet_size m' = packet_size m"
proof (induction bs arbitrary: m)
  case Nil
  then show ?case by simp
next
  case (Cons b bs)
  from mouse_byte_ok [OF Cons.prems, of b] obtain m1 n where 1: "mouse_byte b m = Some (m1, n)" "mouse_ok m1" "packet_size m1 = packet_size m" by blast
  from Cons.IH [OF 1(2)] 1 show ?case by auto
qed

text \<open>The signed number in the low half of a byte.\<close>

definition nibble :: "u8 \<Rightarrow> int" where
  "nibble b = (let n = uint (b AND 0x0F) in if n < 8 then n else n - 16)"

lemma nibble_code: "list_all (\<lambda>n. let z = (of_nat n :: u8) AND 0x0F; z = (if z AND 0x08 \<noteq> 0 then z OR 0xF0 else z) in sint z = nibble (of_nat n)) [0..<256]"
  by code_simp

lemma sint_nibble: "sint (if (b AND 0x0F) AND 0x08 \<noteq> 0 then (b AND 0x0F) OR 0xF0 else b AND (0x0F :: u8)) = nibble b"
proof -
  have b: "of_nat (unat b) = b" "unat b < 256" using unsigned_less [of b] by simp_all
  then have "unat b \<in> set [0..<256]" by simp
  with nibble_code have "let z = (of_nat (unat b) :: u8) AND 0x0F; z = (if z AND 0x08 \<noteq> 0 then z OR 0xF0 else z) in sint z = nibble (of_nat (unat b))"
    unfolding list_all_iff by blast
  then show ?thesis unfolding b(1) Let_def .
qed

lemma mouse_packet:
  assumes ok: "mouse_ok m" and m: "packet_index m = 0" "packet_size m = 4" and b: "b0 AND 0x08 \<noteq> 0"
  shows "\<exists>m'. mouse_bytes [b0, b1, b2, b3] m = Some (m', if nibble b3 = 0 then [] else [- nibble b3 * LINES_PER_NOTCH]) \<and> packet_index m' = 0"
proof -
  let ?z = "if (b3 AND 0x0F) AND 0x08 \<noteq> 0 then (b3 AND 0x0F) OR 0xF0 else b3 AND 0x0F"
  obtain p0 p1 p2 p3 where p: "packet m = [p0, p1, p2, p3]" using ok by (auto simp: mouse_ok_def length_Suc_conv numeral_eq_Suc)
  have z: "(?z = 0) = (nibble b3 = 0)" unfolding sint_nibble [symmetric] by (simp only: signed_eq_0_iff)
  have 1: "mouse_byte b0 m = Some (m\<lparr>packet := [b0, p1, p2, p3], packet_index := 1\<rparr>, None)" using m b p by (simp add: mouse_byte_def)
  have 2: "mouse_byte b1 (m\<lparr>packet := [b0, p1, p2, p3], packet_index := 1\<rparr>) = Some (m\<lparr>packet := [b0, b1, p2, p3], packet_index := 2\<rparr>, None)"
    using m by (simp add: mouse_byte_def)
  have 3: "mouse_byte b2 (m\<lparr>packet := [b0, b1, p2, p3], packet_index := 2\<rparr>) = Some (m\<lparr>packet := [b0, b1, b2, p3], packet_index := 3\<rparr>, None)"
    using m by (simp add: mouse_byte_def)
  have 4: "mouse_byte b3 (m\<lparr>packet := [b0, b1, b2, p3], packet_index := 3\<rparr>) =
      Some (m\<lparr>packet := [b0, b1, b2, b3], packet_index := 0\<rparr>, if ?z = 0 then None else Some (- sint ?z * LINES_PER_NOTCH))"
    using m by (simp add: mouse_byte_def Let_def)
  show ?thesis unfolding mouse_bytes.simps 1 bind.bind_lunit prod.case 2 3 4 sint_nibble z by simp
qed


section \<open>Properties\<close>

text \<open>Property C36: the driver never runs past its packet buffer, whatever bytes the mouse sends, and stays
  between 0 and the packet size; whenever it stands at the start of a packet, a byte without the
  always-set bit is dropped, and the four bytes of a wheel packet scroll the view by three lines for
  each notch of the signed wheel count in their last byte, and leave it at the start of the next
  packet.\<close>

theorem mouse_stream:
  assumes "mouse_ok m"
  shows "\<exists>m' ns. mouse_bytes bs m = Some (m', ns) \<and> 0 \<le> packet_index m' \<and> packet_index m' < packet_size m \<and>
    (packet_index m' = 0 \<longrightarrow>
       (\<forall>b0 b1 b2 b3. if b0 AND 0x08 = 0 then mouse_bytes [b0] m' = Some (m', [])
          else packet_size m = 4 \<longrightarrow>
            (\<exists>m''. mouse_bytes [b0, b1, b2, b3] m' = Some (m'', if nibble b3 = 0 then [] else [- nibble b3 * 3]) \<and> packet_index m'' = 0)))"
proof -
  from mouse_bytes_ok [OF assms, of bs] obtain m' ns where
    m: "mouse_bytes bs m = Some (m', ns)" "mouse_ok m'" "packet_size m' = packet_size m" by blast
  have "mouse_bytes [b0] m' = Some (m', [])" if "packet_index m' = 0" "b0 AND 0x08 = 0" for b0
    using that by (simp add: mouse_byte_def)
  moreover have "\<exists>m''. mouse_bytes [b0, b1, b2, b3] m' = Some (m'', if nibble b3 = 0 then [] else [- nibble b3 * 3]) \<and> packet_index m'' = 0"
    if "packet_index m' = 0" "packet_size m = 4" "b0 AND 0x08 \<noteq> 0" for b0 b1 b2 b3
    using mouse_packet [OF m(2) that(1) _ that(3), of b1 b2 b3] that(2) m(3) by (simp only: LINES_PER_NOTCH_def)
  moreover have "0 \<le> packet_index m'" "packet_index m' < packet_size m" using m(2,3) by (simp_all add: mouse_ok_def)
  ultimately show ?thesis using m(1) by (intro exI [of _ m'] exI [of _ ns]) (simp del: mouse_bytes.simps)
qed

definition wheel_mouse :: mouse where
  "wheel_mouse = \<lparr>packet = [0, 0, 0, 0], packet_index = 0, packet_size = 4, device_id = 3, present_mouse = True\<rparr>"

theorem mouse_stream_witness:
  "\<exists>m. mouse_bytes [0x08, 0, 0, 0x0F] wheel_mouse = Some (m, [3])"
proof -
  have "mouse_ok wheel_mouse" by (simp add: mouse_ok_def wheel_mouse_def)
  from mouse_stream [OF this, of "[]"] obtain m' ns where q: "mouse_bytes [] wheel_mouse = Some (m', ns)"
    "packet_index m' = 0 \<longrightarrow>
       (\<forall>b0 b1 b2 b3. if b0 AND 0x08 = 0 then mouse_bytes [b0] m' = Some (m', [])
          else packet_size wheel_mouse = 4 \<longrightarrow>
            (\<exists>m''. mouse_bytes [b0, b1, b2, b3] m' = Some (m'', if nibble b3 = 0 then [] else [- nibble b3 * 3]) \<and> packet_index m'' = 0))"
    by blast
  have "m' = wheel_mouse" "packet_index wheel_mouse = 0" "packet_size wheel_mouse = 4" "(0x08 :: u8) AND 0x08 \<noteq> 0" "nibble 0x0F = -1"
    using q(1) by (auto simp: wheel_mouse_def nibble_def)
  with q(2) [THEN mp, THEN spec [of _ "0x08"], THEN spec [of _ 0], THEN spec [of _ 0], THEN spec [of _ "0x0F"]]
  show ?thesis by (simp del: mouse_bytes.simps) blast
qed

end
