(* ===== verification/Board.thy ===== *)
theory Board
  imports Mouse Keyboard Task_Spec
begin

text \<open>
  The interrupts at work: the timer of \<open>drivers/timer.c\<close>, and the dispatchers of \<open>kernel/idt.c\<close>, which
  acknowledge the controllers, run the handler of the line and let the scheduler choose the context to
  resume.  \<open>None\<close> is undefined behaviour, such as a handler at an address where there is none.
\<close>

section \<open>State\<close>

record 'd board =
  b_hw :: 'd
  b_idt :: idt_state
  b_ticks :: u64
  b_kbd :: kbd
  b_mouse :: mouse
  b_screen :: vga
  b_sched :: sched

text \<open>The addresses the linker gave to the three handlers.\<close>

record handlers =
  timer_at :: ptr
  keyboard_at :: ptr
  mouse_at :: ptr

section \<open>The timer\<close>

definition PIT_CHANNEL0 :: u16 where "PIT_CHANNEL0 = 0x40"
definition PIT_COMMAND :: u16 where "PIT_COMMAND = 0x43"
definition PIT_BASE_HZ :: u32 where "PIT_BASE_HZ = 1193182"

definition timer_callback :: "'d board \<Rightarrow> 'd board option" where
  "timer_callback b = do {
     t \<leftarrow> task_account_tick (b_sched b);
     Some (b\<lparr>b_ticks := b_ticks b + 1, b_sched := t\<rparr>)
   }"

definition timer_init :: "'d ports \<Rightarrow> ptr \<Rightarrow> 'd board \<Rightarrow> 'd board" where
  "timer_init P callback b =
     (let divisor = PIT_BASE_HZ div TIMER_HZ;
          d = outb P PIT_COMMAND 0x36 (b_hw b);
          d = outb P PIT_CHANNEL0 (ucast (divisor AND 0xFF)) d;
          d = outb P PIT_CHANNEL0 (ucast (drop_bit 8 divisor AND 0xFF)) d
      in b\<lparr>b_hw := d, b_idt := irq_install_handler 0 callback (b_idt b)\<rparr>)"

definition timer_ticks :: "'d board \<Rightarrow> u64" where "timer_ticks b = b_ticks b"

definition timer_uptime_ms :: "'d board \<Rightarrow> u64" where
  "timer_uptime_ms b = b_ticks b * ucast (1000 div TIMER_HZ :: u32)"

text \<open>
  The wait before the scheduler runs: \<open>seen\<close> are the tick counts after the successive halts, and
  the result those not needed.
\<close>

fun sleep_loop :: "u64 \<Rightarrow> u64 \<Rightarrow> u64 list \<Rightarrow> u64 list option" where
  "sleep_loop target now seen =
     (if now < target then (case seen of [] \<Rightarrow> None | t # ts \<Rightarrow> sleep_loop target t ts) else Some seen)"

definition sleep_ms :: "u32 \<Rightarrow> u64 list \<Rightarrow> u64 \<Rightarrow> u32 \<Rightarrow> 'd board \<Rightarrow> (u64 list \<times> 'd board) option" where
  "sleep_ms ms seen now' esp b =
     (if task_running (b_sched b)
      then do { (e, t) \<leftarrow> task_sleep_ms ms (b_ticks b) now' esp (b_sched b); Some (seen, b\<lparr>b_sched := t\<rparr>) }
      else do { rest \<leftarrow> sleep_loop (b_ticks b + ucast (ms div (1000 div TIMER_HZ))) (b_ticks b) seen; Some (rest, b) })"

section \<open>Dispatch\<close>

definition keyboard_isr :: "'d ports \<Rightarrow> 'd board \<Rightarrow> 'd board" where
  "keyboard_isr P b = (let (scancode, d) = inb P 0x60 (b_hw b) in b\<lparr>b_hw := d, b_kbd := keyboard_callback scancode (b_kbd b)\<rparr>)"

definition run_handler :: "'d ports \<Rightarrow> handlers \<Rightarrow> ptr \<Rightarrow> 'd board \<Rightarrow> 'd board option" where
  "run_handler P H h b =
     (if h = timer_at H then timer_callback b
      else if h = keyboard_at H then Some (keyboard_isr P b)
      else if h = mouse_at H then do {
        (m, v, d) \<leftarrow> mouse_callback P (b_mouse b) (b_screen b) (b_hw b);
        Some (b\<lparr>b_mouse := m, b_screen := v, b_hw := d\<rparr>)
      }
      else None)"

definition irq_handler :: "'d ports \<Rightarrow> handlers \<Rightarrow> u32 \<Rightarrow> u32 \<Rightarrow> 'd board \<Rightarrow> (u32 \<times> 'd board) option" where
  "irq_handler P H int_no esp b = do {
     let irq = sint int_no - 32;
     let b = (if irq \<ge> 8 then b\<lparr>b_hw := outb P PIC2_COMMAND 0x20 (b_hw b)\<rparr> else b);
     let b = b\<lparr>b_hw := outb P PIC1_COMMAND 0x20 (b_hw b)\<rparr>;
     b \<leftarrow> (if 0 \<le> irq \<and> irq < 16 \<and> irq_handlers (b_idt b) ! nat irq \<noteq> NULL
           then run_handler P H (irq_handlers (b_idt b) ! nat irq) b else Some b);
     (e, t) \<leftarrow> task_schedule (b_ticks b) esp (b_sched b);
     Some (e, b\<lparr>b_sched := t\<rparr>)
   }"

definition yield_handler :: "u32 \<Rightarrow> 'd board \<Rightarrow> (u32 \<times> 'd board) option" where
  "yield_handler esp b = do { (e, t) \<leftarrow> task_schedule (b_ticks b) esp (b_sched b); Some (e, b\<lparr>b_sched := t\<rparr>) }"

section \<open>The invariant\<close>

text \<open>The handlers that may be installed on each line, at three different addresses.\<close>

definition handlers_ok :: "handlers \<Rightarrow> idt_state \<Rightarrow> bool" where
  "handlers_ok H s \<longleftrightarrow> distinct [timer_at H, keyboard_at H, mouse_at H] \<and> length (irq_handlers s) = 16 \<and>
     irq_handlers s ! 0 = timer_at H \<and> irq_handlers s ! 1 = keyboard_at H \<and>
     irq_handlers s ! 12 \<in> {NULL, mouse_at H} \<and>
     (\<forall>i<16. i \<notin> {0, 1, 12} \<longrightarrow> irq_handlers s ! i = NULL) \<and> NULL \<notin> {timer_at H, keyboard_at H, mouse_at H}"

definition board_ok :: "'a mem_state_scheme \<Rightarrow> (ptr \<Rightarrow> nat option) \<Rightarrow> handlers \<Rightarrow> 'd board \<Rightarrow> bool" where
  "board_ok m L H b \<longleftrightarrow> handlers_ok H (b_idt b) \<and> mouse_ok (b_mouse b) \<and> vga_inv (b_screen b) \<and> task_inv m (b_sched b) L"

lemma mouse_callback_ok:
  assumes "mouse_ok m" "vga_inv v"
  shows "\<exists>m' v' d'. mouse_callback P m v d = Some (m', v', d') \<and> mouse_ok m' \<and> vga_inv v'"
proof -
  obtain st d1 where 1: "inb P PS2_STATUS d = (st, d1)" by (rule prod.exhaust)
  obtain b d2 where 2: "inb P PS2_DATA d1 = (b, d2)" by (rule prod.exhaust)
  from mouse_byte_ok [OF assms(1), of b] obtain m' n where m: "mouse_byte b m = Some (m', n)" "mouse_ok m'" by blast
  show ?thesis using assms 1 2 m vga_scroll_view_inv(1) by (simp add: mouse_callback_def Let_def split: option.split)
qed

text \<open>What the handler of line \<open>i\<close> does, when one is installed: the timer's counts the tick and charges
  the current task, the keyboard's passes the byte of port \<open>0x60\<close> to the decoder, the mouse's runs
  \<open>mouse_callback\<close>; the rest of the machine is left alone.\<close>

definition served :: "'d ports \<Rightarrow> nat \<Rightarrow> 'd board \<Rightarrow> 'd board \<Rightarrow> bool" where
  "served P i b b' \<longleftrightarrow> b_idt b' = b_idt b \<and> b_ticks b' = b_ticks b + (if i = 0 then 1 else 0) \<and>
     (if i = 0 then task_account_tick (b_sched b) = Some (b_sched b') else b_sched b' = b_sched b) \<and>
     b_kbd b' = (if i = 1 then keyboard_callback (fst (inb P 0x60 (b_hw b))) (b_kbd b) else b_kbd b) \<and>
     (if i = 12 then mouse_callback P (b_mouse b) (b_screen b) (b_hw b) = Some (b_mouse b', b_screen b', b_hw b')
      else b_mouse b' = b_mouse b \<and> b_screen b' = b_screen b \<and> b_hw b' = (if i = 1 then snd (inb P 0x60 (b_hw b)) else b_hw b))"

lemma run_handler_ok:
  assumes ok: "board_ok m L H b" and i: "i < 16"
  shows "if irq_handlers (b_idt b) ! i = NULL then i \<notin> {0, 1} else
    \<exists>b'. run_handler P H (irq_handlers (b_idt b) ! i) b = Some b' \<and> board_ok m L H b' \<and> served P i b b'"
proof -
  have h: "handlers_ok H (b_idt b)" and mo: "mouse_ok (b_mouse b)" and vi: "vga_inv (b_screen b)" and ti: "task_inv m (b_sched b) L"
    using ok by (simp_all add: board_ok_def)
  consider "i = 0" | "i = 1" | "i = 12" | "i \<notin> {0, 1, 12}" by blast
  then show ?thesis
  proof cases
    case 1
    from task_tick_ok [OF ti] obtain t where "task_account_tick (b_sched b) = Some t" "task_inv m t L" by blast
    with 1 h mo vi show ?thesis by (auto simp: handlers_ok_def run_handler_def timer_callback_def board_ok_def served_def)
  next
    case 2
    obtain sc d where "inb P 0x60 (b_hw b) = (sc, d)" by (rule prod.exhaust)
    with 2 h mo vi ti show ?thesis by (auto simp: handlers_ok_def run_handler_def keyboard_isr_def board_ok_def served_def)
  next
    case 3
    from mouse_callback_ok [OF mo vi, of P "b_hw b"] obtain m' v' d' where
      "mouse_callback P (b_mouse b) (b_screen b) (b_hw b) = Some (m', v', d')" "mouse_ok m'" "vga_inv v'" by blast
    with 3 h ti show ?thesis by (auto simp: handlers_ok_def run_handler_def board_ok_def served_def)
  next
    case 4
    with h i show ?thesis by (auto simp: handlers_ok_def)
  qed
qed

text \<open>The controllers acknowledged: the slave first, for the lines it serves.\<close>

definition acknowledged :: "'d ports \<Rightarrow> u32 \<Rightarrow> 'd \<Rightarrow> 'd" where
  "acknowledged P int_no d = outb P 0x20 0x20 (if 40 \<le> unat int_no then outb P 0xA0 0x20 d else d)"

lemma schedule_resumes:
  assumes inv: "task_inv m t L" and s: "task_schedule now esp t = Some (e, t')"
  shows "\<exists>c. current t' = Some c \<and> e = tk_esp (tasks t' ! c)"
proof -
  have so: "sched_ok t" using inv by (simp add: task_inv_def)
  from so obtain c rest where t: "table_ok t" "current t = Some c" "ring (tasks t) c rest" "c < length (tasks t)" by (rule sched_okD)
  let ?T = "interrupted now esp c (tasks t)"
  from task_schedule_run [OF t(1-3), of now esp] obtain n t1 where n: "n \<in> set (c # rest)"
    "task_schedule now esp t = Some (tk_esp (?T ! n), t1)"
    "t1 = t\<lparr>tasks := (if n = c then ?T else ?T[n := (?T ! n)\<lparr>tk_switches := tk_switches (?T ! n) + 1\<rparr>]), current := Some n\<rparr>" by blast
  have "n < length ?T" using n(1) ring_used [OF ring_interrupted [OF t(3)]] by blast
  with n(2,3) s show ?thesis by auto
qed

text \<open>A machine whose ports give zeros.\<close>

definition quiet_ports :: "unit ports" where
  "quiet_ports = \<lparr>inb = (\<lambda>p d. (0, d)), outb = (\<lambda>p v d. d), inw = (\<lambda>p d. (0, d)), outw = (\<lambda>p v d. d)\<rparr>"

definition demo_handlers :: handlers where
  "demo_handlers = \<lparr>timer_at = 0x1000, keyboard_at = 0x2000, mouse_at = 0x3000\<rparr>"

section \<open>Properties\<close>

text \<open>Property C37: a hardware interrupt on any of the sixteen lines returns, having acknowledged the
  controllers and run exactly the handler of its line.  Vector 32 counts one tick and charges it to the
  current task, vector 33 hands the byte read from port \<open>0x60\<close> to the keyboard decoder, vector 44 runs
  \<open>mouse_callback\<close> when the mouse has installed it, and every other vector runs nothing: what a
  handler does not own keeps its value, down to the state of the hardware.  The handler table, the
  screen, the mouse decoder, the task table and the stacks stay well formed.  Then \<open>task_schedule\<close>
  runs on the scheduler the handler leaves, at the new tick, and what is resumed is the saved stack
  pointer of the task that is current afterwards.\<close>

theorem irq_serves_and_schedules:
  assumes ok: "board_ok m L H b" and irq: "32 \<le> unat int_no" "unat int_no < 48"
  shows "\<exists>e b' t. irq_handler P H int_no esp b = Some (e, b') \<and> board_ok m L H b' \<and> b_idt b' = b_idt b \<and>
    b_ticks b' = b_ticks b + (if int_no = 32 then 1 else 0) \<and>
    (if int_no = 32 then task_account_tick (b_sched b) = Some t else t = b_sched b) \<and>
    b_kbd b' = (if int_no = 33 then keyboard_callback (fst (inb P 0x60 (acknowledged P int_no (b_hw b)))) (b_kbd b) else b_kbd b) \<and>
    (if int_no = 44 \<and> irq_handlers (b_idt b) ! 12 = mouse_at H
     then mouse_callback P (b_mouse b) (b_screen b) (acknowledged P int_no (b_hw b)) = Some (b_mouse b', b_screen b', b_hw b')
     else b_mouse b' = b_mouse b \<and> b_screen b' = b_screen b \<and>
       b_hw b' = (if int_no = 33 then snd (inb P 0x60 (acknowledged P int_no (b_hw b))) else acknowledged P int_no (b_hw b))) \<and>
    task_schedule (b_ticks b') esp t = Some (e, b_sched b') \<and>
    (\<exists>c. current (b_sched b') = Some c \<and> e = tk_esp (tasks (b_sched b') ! c))"
proof -
  define i where "i = unat int_no - 32"
  have i: "i < 16" "int_no = of_nat (i + 32)" using irq by (simp_all add: i_def)
  have ge: "i \<ge> 8 \<longleftrightarrow> 40 \<le> unat int_no" using irq(1) by (auto simp: i_def)
  have si: "sint int_no - 32 = int i"
  proof -
    have "i \<in> set [0..<16]" using i(1) by simp
    moreover have "list_all (\<lambda>i. sint (of_nat (i + 32) :: u32) - 32 = int i) [0..<16]" by code_simp
    ultimately show ?thesis unfolding i(2) list_all_iff by blast
  qed
  define b0 where "b0 = b\<lparr>b_hw := acknowledged P int_no (b_hw b)\<rparr>"
  have ok0: "board_ok m L H b0" using ok by (simp add: b0_def board_ok_def)
  let ?h = "irq_handlers (b_idt b0) ! i"
  from run_handler_ok [OF ok0 i(1), of P] obtain b1 where
    b1: "(if ?h \<noteq> NULL then run_handler P H ?h b0 else Some b0) = Some b1" "board_ok m L H b1"
      "if ?h = NULL then i \<notin> {0, 1} \<and> b1 = b0 else served P i b0 b1"
    by (cases "?h = NULL") (auto simp: ok0)
  have ti: "task_inv m (b_sched b1) L" using b1(2) by (simp add: board_ok_def)
  from task_schedule_ok [OF ti, of "b_ticks b1" esp] obtain e t where
    s: "task_schedule (b_ticks b1) esp (b_sched b1) = Some (e, t)" "task_inv m t L" by auto
  have run: "irq_handler P H int_no esp b = Some (e, b1\<lparr>b_sched := t\<rparr>)"
  proof -
    have "irq_handler P H int_no esp b = do {
        b \<leftarrow> (if ?h \<noteq> NULL then run_handler P H ?h b0 else Some b0);
        (e, t) \<leftarrow> task_schedule (b_ticks b) esp (b_sched b);
        Some (e, b\<lparr>b_sched := t\<rparr>) }"
      using i(1) by (simp add: irq_handler_def si b0_def acknowledged_def ge [symmetric] PIC1_COMMAND_def PIC2_COMMAND_def Let_def)
    then show ?thesis unfolding b1(1) by (simp add: s(1))
  qed
  have c: "\<exists>c. current t = Some c \<and> e = tk_esp (tasks t ! c)" by (rule schedule_resumes [OF ti s(1)])
  have n: "int_no = 32 \<longleftrightarrow> i = 0" "int_no = 33 \<longleftrightarrow> i = 1" "int_no = 44 \<longleftrightarrow> i = 12"
  proof -
    have "int_no = of_nat k \<longleftrightarrow> i + 32 = k" if "k < 48" for k
      unfolding i(2) using of_nat_u32_inject [of "i + 32" k] i(1) that by simp
    from this [of 32] this [of 33] this [of 44] show "int_no = 32 \<longleftrightarrow> i = 0" "int_no = 33 \<longleftrightarrow> i = 1" "int_no = 44 \<longleftrightarrow> i = 12" by auto
  qed
  have h12: "irq_handlers (b_idt b) ! 12 = mouse_at H \<longleftrightarrow> irq_handlers (b_idt b) ! 12 \<noteq> NULL"
    using ok by (auto simp: board_ok_def handlers_ok_def)
  have ok': "board_ok m L H (b1\<lparr>b_sched := t\<rparr>)" using b1(2) s(2) by (simp add: board_ok_def)
  show ?thesis
    by (intro exI [of _ e] exI [of _ "b1\<lparr>b_sched := t\<rparr>"] exI [of _ "b_sched b1"])
      (use run ok' s(1) c b1(3) in \<open>auto simp: served_def b0_def n h12 split: if_splits\<close>)
qed

theorem irq_serves_and_schedules_witness:
  "\<exists>(b :: unit board) e b'. irq_handler quiet_ports demo_handlers 32 0x9000 b = Some (e, b') \<and> b_ticks b' = b_ticks b + 1"
proof -
  obtain s0 :: vga where v: "vga_inv s0" using vga_init_inv(1) [OF raw_vga_arrays] by blast
  let ?b = "\<lparr>b_hw = (), b_idt = \<lparr>idt = [], idt_limit = 0, idt_base = 0,
      irq_handlers = (replicate 16 NULL)[0 := 0x1000, 1 := 0x2000]\<rparr>, b_ticks = 7, b_kbd = no_kbd, b_mouse = wheel_mouse,
      b_screen = s0, b_sched = task_init no_sched\<rparr>"
  have "board_ok boot_mem Map.empty demo_handlers ?b"
    using v boot_tasks by (auto simp: board_ok_def handlers_ok_def demo_handlers_def mouse_ok_def wheel_mouse_def nth_list_update)
  from irq_serves_and_schedules [OF this, of 32 quiet_ports "0x9000"] obtain e b' where
    "irq_handler quiet_ports demo_handlers 32 0x9000 ?b = Some (e, b')" "b_ticks b' = b_ticks ?b + 1" by auto
  then show ?thesis by blast
qed

end
