(* ===== verification/Fs_Service.thy ===== *)
theory Fs_Service
  imports Ramfs_Spec
begin

text \<open>
  What the users of the filesystem rely on, as an interface: the operations return, keep the
  filesystem well formed, touch nothing else of the state, and a node once found stays valid
  while nothing is removed.
\<close>

section \<open>The interface\<close>

locale file_service =
  fixes ok :: "'s \<Rightarrow> bool"
    and valid :: "'s \<Rightarrow> ptr \<Rightarrow> bool"
    and keeps :: "'s \<Rightarrow> 's \<Rightarrow> bool"
    and fits :: "string \<Rightarrow> bool"
    and resolve :: "string \<Rightarrow> 's \<Rightarrow> ptr option"
    and create :: "string \<Rightarrow> fs_type \<Rightarrow> 's \<Rightarrow> (ptr \<times> 's) option"
    and put :: "ptr \<Rightarrow> string \<Rightarrow> bool \<Rightarrow> 's \<Rightarrow> (int \<times> 's) option"
  assumes keeps_refl: "keeps s s"
    and keeps_trans: "keeps s t \<Longrightarrow> keeps t u \<Longrightarrow> keeps s u"
    and resolve_law: "ok s \<Longrightarrow> \<exists>p. resolve path s = Some p \<and> (p = NULL \<or> valid s p)"
    and create_law: "ok s \<Longrightarrow> fits path \<Longrightarrow>
      \<exists>p s'. create path ty s = Some (p, s') \<and> ok s' \<and> keeps s s' \<and> (p = NULL \<or> valid s' p) \<and>
        (\<forall>q. valid s q \<longrightarrow> valid s' q)"
    and put_law: "ok s \<Longrightarrow> p = NULL \<or> valid s p \<Longrightarrow> length bytes \<le> 1000000 \<Longrightarrow>
      \<exists>rc s'. put p bytes app s = Some (rc, s') \<and> ok s' \<and> keeps s s' \<and> (\<forall>q. valid s q \<longrightarrow> valid s' q)"
begin

lemma open_or_create:
  assumes "ok s" "fits path"
  shows "\<exists>p s'. (do { p \<leftarrow> resolve path s; if p = NULL then create path ty s else Some (p, s) }) = Some (p, s') \<and>
    ok s' \<and> keeps s s' \<and> (p = NULL \<or> valid s' p)"
proof -
  from resolve_law [OF assms(1)] obtain p where p: "resolve path s = Some p" "p = NULL \<or> valid s p" by blast
  show ?thesis
  proof (cases "p = NULL")
    case True
    with create_law [OF assms, of ty] p(1) show ?thesis by fastforce
  next
    case False
    with p assms(1) keeps_refl show ?thesis by auto
  qed
qed

text \<open>Creating a node and writing to it, whether or not the creation succeeded.\<close>

lemma create_and_put:
  assumes "ok s" "fits path" "length bytes \<le> 1000000"
  shows "\<exists>s'. (do { (p, s) \<leftarrow> create path ty s; (rc, s) \<leftarrow> put p bytes app s; Some s }) = Some s' \<and> ok s' \<and> keeps s s'"
proof -
  from create_law [OF assms(1,2), of ty] obtain p s1 where c:
    "create path ty s = Some (p, s1)" "ok s1" "keeps s s1" "p = NULL \<or> valid s1 p" by blast
  from put_law [OF c(2,4) assms(3), of app] obtain rc s2 where "put p bytes app s1 = Some (rc, s2)" "ok s2" "keeps s1 s2" by blast
  with c(1,3) keeps_trans show ?thesis by fastforce
qed

end

section \<open>The filesystem provides it\<close>

text \<open>\<open>A\<close> are the allocations of the others, which stay as they are.\<close>

definition files_ok :: "(ptr \<Rightarrow> nat option) \<Rightarrow> 'a fs_state_scheme \<Rightarrow> bool" where
  "files_ok A s \<longleftrightarrow> (\<exists>L cwd. fs_inv s L \<and> others s L = A \<and> node_path s cwd (current_dir s))"

definition path_fits :: "char \<Rightarrow> string \<Rightarrow> bool" where
  "path_fits r path \<longleftrightarrow> NUL \<notin> set path \<and> (r = NUL \<or> (\<forall>c\<in>set (path_comps path). length c < FS_NAME_MAX - 1))"

lemma live_size:
  assumes "mem_holds s L" "L p = Some k" shows "k + 2097172 < 4294967296"
proof -
  obtain xs where rep: "heap_rep s xs" and L: "L = live_of (unat HEAP_BASE) xs"
    using assms(1) by (auto simp: mem_holds_def)
  from live_of_Some [of "unat HEAP_BASE" xs p k] assms(2) L obtain ys zs where x: "xs = ys @ (k, False) # zs" by auto
  have "unat HEAP_BASE + span xs < 4294967296" by (rule heap_rep_span [OF rep])
  then show ?thesis unfolding x by (simp add: HEAP_BASE_nat)
qed

lemma file_size:
  assumes inv: "fs_inv s L" and n: "nodes s f = Some n" shows "unat (n_size n) + 2097172 < 4294967296"
proof (cases "n_data n = 0")
  case True
  with fs_inv_owned [OF inv] n show ?thesis by (auto simp: owned_def data_ok_def)
next
  case False
  with fs_inv_owned [OF inv] n obtain c where c: "bufs s (n_data n) = Some (unat (n_capacity n), c)"
    "unat (n_size n) < unat (n_capacity n)" by (force simp: owned_def data_ok_def)
  from owned_buf [OF fs_inv_owned [OF inv] c(1)] obtain k where "L (n_data n) = Some k" "unat (n_capacity n) \<le> k" by blast
  with live_size [OF fs_inv_mem [OF inv]] c(2) show ?thesis by fastforce
qed

lemma files_resolve:
  assumes "files_ok A s" shows "\<exists>p. fs_resolve path s = Some p \<and> (p = NULL \<or> p \<in> dom (nodes s))"
proof -
  from assms obtain L cwd where s: "fs_inv s L" "node_path s cwd (current_dir s)" by (auto simp: files_ok_def)
  from fs_resolve_ok [OF s, of path] node_path_dom [OF s(1)] show ?thesis by (fastforce split: option.splits)
qed

lemma files_create:
  assumes ok: "files_ok A s" and fits: "path_fits r path"
  shows "\<exists>p s'. fs_create r path ty s = Some (p, s') \<and> files_ok A s' \<and> fs_frame s s' \<and>
    (p = NULL \<or> p \<in> dom (nodes s')) \<and> (\<forall>q. q \<in> dom (nodes s) \<longrightarrow> q \<in> dom (nodes s'))"
proof -
  from ok obtain L cwd where s: "fs_inv s L" "node_path s cwd (current_dir s)" "others s L = A" by (auto simp: files_ok_def)
  have f: "NUL \<notin> set path" "r = NUL \<or> (\<forall>c\<in>set (path_comps path). length c < FS_NAME_MAX - 1)"
    using fits by (simp_all add: path_fits_def)
  from fs_create_ok [OF s(1,2) f, of ty] obtain p s' where c: "fs_create r path ty s = Some (p, s')" "fs_frame s s'"
    "p = 0 \<longrightarrow> s' = s"
    "p \<noteq> 0 \<longrightarrow> (\<forall>q ys. node_path s ys q \<longrightarrow> node_path s' ys q) \<and> dom (nodes s') = insert p (dom (nodes s)) \<and>
       (\<exists>k. fs_inv s' (L(p \<mapsto> k)) \<and> others s' (L(p \<mapsto> k)) = others s L)" by blast
  show ?thesis
  proof (cases "p = 0")
    case True
    with c ok show ?thesis by simp
  next
    case False
    with c(4) obtain k where k: "fs_inv s' (L(p \<mapsto> k))" "others s' (L(p \<mapsto> k)) = A"
      "dom (nodes s') = insert p (dom (nodes s))" "node_path s' cwd (current_dir s)" using s(2,3) by metis
    then have "files_ok A s'" using fs_frame_globals [OF c(2)] unfolding files_ok_def by metis
    with c(1,2) k(3) show ?thesis by auto
  qed
qed

lemma files_write:
  assumes ok: "files_ok A s" and p: "p = NULL \<or> p \<in> dom (nodes s)" and small: "length bytes \<le> 1000000"
  shows "\<exists>rc s'. fs_write p bytes app s = Some (rc, s') \<and> files_ok A s' \<and> fs_frame s s' \<and>
    (\<forall>q. q \<in> dom (nodes s) \<longrightarrow> q \<in> dom (nodes s'))"
proof -
  from ok obtain L cwd where s: "fs_inv s L" "node_path s cwd (current_dir s)" "others s L = A" by (auto simp: files_ok_def)
  consider "p = NULL" | n where "p \<noteq> NULL" "nodes s p = Some n" "n_type n \<noteq> FS_FILE"
    | n where "p \<noteq> NULL" "nodes s p = Some n" "n_type n = FS_FILE" using p by (cases "nodes s p") auto
  then show ?thesis
  proof cases
    case 1
    then show ?thesis using ok fs_frame_refl by (simp add: fs_write_def fs_write_n_def)
  next
    case 2
    then show ?thesis using ok fs_frame_refl by (simp add: fs_write_def fs_write_n_def)
  next
    case 3
    have "p \<in> dom (nodes s)" using 3 by auto
    with node_path_exists [OF s(1)] obtain xs where xs: "node_path s xs p" by blast
    have "(if app then unat (n_size n) else 0) + length bytes + 72 < 4294967296"
      using file_size [OF s(1) 3(2)] small by simp
    from fs_write_n_ok [OF s(1) xs 3(2,3) this] obtain rc s' where w: "fs_write_n p bytes app s = Some (rc, s')" "fs_frame s s'"
      "s' = s \<or> (\<exists>L'. fs_inv s' L' \<and> others s' L' = others s L) \<and> dom (nodes s') = dom (nodes s) \<and>
         (\<forall>ys q. node_path s' ys q = node_path s ys q)" by blast
    have "files_ok A s' \<and> dom (nodes s') = dom (nodes s)"
      using w(3) ok s(2,3) fs_frame_globals [OF w(2)] unfolding files_ok_def by metis
    with w(1,2) show ?thesis by (simp add: fs_write_def)
  qed
qed

interpretation files: file_service "files_ok A" "\<lambda>s p. p \<in> dom (nodes s)" fs_frame "path_fits r" fs_resolve "fs_create r" fs_write
  for A r
  by unfold_locales (fact fs_frame_refl fs_frame_trans files_resolve files_create files_write)+

end
