(* ===== verification/Users.thy ===== *)
theory Users
  imports Fs_Service
begin

text \<open>
  The account database of \<open>kernel/users.c\<close> on top of the filesystem.  A \<open>user_t *\<close> is an index
  into the table.  \<open>r\<close> is the residual byte of the uninitialised name buffer of \<open>fs_create\<close>;
  a password argument is \<open>None\<close> for NULL.  \<open>None\<close> as a result is undefined behaviour, or an
  interactive part that still waits for input.  Messages and colours are not part of the state.
\<close>

section \<open>State\<close>

record user =
  u_name :: string
  u_home :: string
  u_uid :: u32
  u_gid :: u32
  u_hash :: u32
  u_active :: bool

record users_state = fs_state +
  users :: "user list"
  logged_in :: "nat option"
  next_uid :: u32

definition USER_NAME_MAX :: nat where "USER_NAME_MAX = 32"
definition USER_HOME_MAX :: nat where "USER_HOME_MAX = 64"
definition USER_MAX :: nat where "USER_MAX = 8"
definition PASSWORD_MIN :: nat where "PASSWORD_MIN = 4"

definition zero_user :: user where
  "zero_user = \<lparr>u_name = [], u_home = [], u_uid = 0, u_gid = 0, u_hash = 0, u_active = False\<rparr>"

section \<open>Operations\<close>

subsection \<open>Passwords\<close>

definition hash_salt :: string where "hash_salt = ''LightningOS/v2''"

definition hash_byte :: "char \<Rightarrow> u32 \<Rightarrow> u32" where
  "hash_byte c hash = (hash XOR of_char c) * 16777619"

definition hash_round :: "nat \<Rightarrow> u32 \<Rightarrow> u32" where
  "hash_round i hash = (let hash = hash XOR drop_bit 13 hash; hash = hash * 16777619 in hash XOR of_nat i)"

definition hash_password :: "string \<Rightarrow> u32" where
  "hash_password password =
     (let hash = fold hash_byte hash_salt 2166136261;
          hash = fold hash_byte password hash;
          hash = fold hash_round [0..<4096] hash
      in if hash \<noteq> 0 then hash else 1)"

subsection \<open>The table\<close>

definition free_slot :: "user list \<Rightarrow> nat option" where
  "free_slot us = find (\<lambda>i. \<not> u_active (us ! i)) [0..<USER_MAX]"

definition users_count :: "'a users_state_scheme \<Rightarrow> int" where
  "users_count s = int (length (filter (\<lambda>i. u_active (users s ! i)) [0..<USER_MAX]))"

definition users_setup_needed :: "'a users_state_scheme \<Rightarrow> bool" where
  "users_setup_needed s \<longleftrightarrow> users_count s = 0"

fun users_at_loop :: "user list \<Rightarrow> nat list \<Rightarrow> int \<Rightarrow> int \<Rightarrow> nat option" where
  "users_at_loop us [] index seen = None"
| "users_at_loop us (i # is) index seen =
     (if \<not> u_active (us ! i) then users_at_loop us is index seen
      else if seen = index then Some i
      else users_at_loop us is index (seen + 1))"

definition users_at :: "int \<Rightarrow> 'a users_state_scheme \<Rightarrow> nat option" where
  "users_at index s = users_at_loop (users s) [0..<USER_MAX] index 0"

definition users_find :: "string \<Rightarrow> 'a users_state_scheme \<Rightarrow> nat option" where
  "users_find name s =
     (if name = [] then None
      else find (\<lambda>i. u_active (users s ! i) \<and> u_name (users s ! i) = name) [0..<USER_MAX])"

definition users_is_root :: "'a users_state_scheme \<Rightarrow> bool" where
  "users_is_root s = (case logged_in s of None \<Rightarrow> False | Some i \<Rightarrow> u_uid (users s ! i) = 0)"

definition users_check_password :: "user option \<Rightarrow> string option \<Rightarrow> bool" where
  "users_check_password user password =
     (case user of None \<Rightarrow> False
      | Some u \<Rightarrow> u_hash u = hash_password (case password of Some p \<Rightarrow> p | None \<Rightarrow> []))"

definition name_char :: "char \<Rightarrow> bool" where
  "name_char c = (let n = of_char c :: nat
     in 97 \<le> n \<and> n \<le> 122 \<or> 65 \<le> n \<and> n \<le> 90 \<or> 48 \<le> n \<and> n \<le> 57 \<or> c = CHR ''_'' \<or> c = CHR ''-'')"

definition valid_name :: "string \<Rightarrow> bool" where
  "valid_name name \<longleftrightarrow> name \<noteq> [] \<and> length name < USER_NAME_MAX \<and> list_all name_char name \<and> \<not> is_digit (hd name)"

subsection \<open>The copy in the filesystem\<close>

definition passwd_path :: string where "passwd_path = ''/etc/passwd''"

definition passwd_line :: "user \<Rightarrow> string option" where
  "passwd_line u = ksnprintf 160 (''%s:x:%u:%u:%s:%s:/bin/lsh'' @ [LF])
     [VStr (Some (u_name u)), VInt (u_uid u), VInt (u_gid u), VStr (Some (u_name u)), VStr (Some (u_home u))]"

fun write_passwd :: "ptr \<Rightarrow> user list \<Rightarrow> bool \<Rightarrow> 'a fs_state_scheme \<Rightarrow> 'a fs_state_scheme option" where
  "write_passwd file [] first s =
     (if first then do { (rc, s) \<leftarrow> fs_write file [] False s; Some s } else Some s)"
| "write_passwd file (u # us) first s =
     (if \<not> u_active u then write_passwd file us first s
      else do {
        line \<leftarrow> passwd_line u;
        (rc, s) \<leftarrow> fs_write file line (\<not> first) s;
        write_passwd file us False s
      })"

definition sync_passwd_file :: "char \<Rightarrow> 'a users_state_scheme \<Rightarrow> 'a users_state_scheme option" where
  "sync_passwd_file r s = do {
     (file, s) \<leftarrow> (do { p \<leftarrow> fs_resolve passwd_path s;
                        if p = NULL then fs_create r passwd_path FS_FILE s else Some (p, s) });
     if file = NULL then Some s else write_passwd file (users s) True s
   }"

subsection \<open>Accounts\<close>

definition users_init :: "'a users_state_scheme \<Rightarrow> 'a users_state_scheme" where
  "users_init s = s\<lparr>users := replicate USER_MAX zero_user, logged_in := None, next_uid := 1000\<rparr>"

definition readme_text :: "bool \<Rightarrow> string" where
  "readme_text disk =
     (if disk
      then ''Changes here are written to the data disk after every'' @ [LF] @
        ''command, so they survive a reboot. '' @ [CHR 0x27] @ ''df'' @ [CHR 0x27] @ '' shows the disk.'' @ [LF]
      else ''No data disk is attached, so this directory lives in RAM'' @ [LF] @
        ''and is gone on reboot.'' @ [LF]) @
     ''You may write here and in /tmp; the rest of the tree is'' @ [LF] @
     ''read-only unless you are root.'' @ [LF] @
     ''Try: echo hello > note.txt, then cat note.txt'' @ [LF]"

definition make_home :: "char \<Rightarrow> bool \<Rightarrow> string \<Rightarrow> 'a fs_state_scheme \<Rightarrow> 'a fs_state_scheme option" where
  "make_home r disk home s = do {
     h \<leftarrow> fs_resolve home s;
     if h \<noteq> NULL then Some s
     else do {
       (p, s) \<leftarrow> fs_create r home FS_DIR s;
       path \<leftarrow> ksnprintf FS_PATH_MAX ''%s/readme.txt'' [VStr (Some home)];
       (readme, s) \<leftarrow> fs_create r path FS_FILE s;
       (rc, s) \<leftarrow> fs_write readme (readme_text disk) False s;
       Some s
     }
   }"

text \<open>\<open>disk\<close> is the answer of \<open>persist_available\<close>.\<close>

definition users_add ::
  "char \<Rightarrow> bool \<Rightarrow> string \<Rightarrow> string option \<Rightarrow> bool \<Rightarrow> 'a users_state_scheme \<Rightarrow> (int \<times> 'a users_state_scheme) option" where
  "users_add r disk name password admin s =
     (if \<not> valid_name name then Some (-1, s)
      else if users_find name s \<noteq> None then Some (-2, s)
      else case password of None \<Rightarrow> Some (-3, s) | Some pw \<Rightarrow>
        if length pw < PASSWORD_MIN then Some (-3, s)
        else case free_slot (users s) of None \<Rightarrow> Some (-4, s) | Some slot \<Rightarrow> do {
          let uid = (if admin then 0 else next_uid s);
          home \<leftarrow> (if admin then Some ''/root'' else ksnprintf USER_HOME_MAX ''/home/%s'' [VStr (Some name)]);
          let u = \<lparr>u_name = take (USER_NAME_MAX - 1) name, u_home = home, u_uid = uid, u_gid = uid,
                   u_hash = hash_password pw, u_active = True\<rparr>;
          let s = s\<lparr>users := (users s)[slot := u], next_uid := (if admin then next_uid s else next_uid s + 1)\<rparr>;
          s \<leftarrow> make_home r disk home s;
          s \<leftarrow> sync_passwd_file r s;
          Some (0, s)
        })"

definition users_import ::
  "char \<Rightarrow> string \<Rightarrow> string \<Rightarrow> u32 \<Rightarrow> u32 \<Rightarrow> u32 \<Rightarrow> 'a users_state_scheme \<Rightarrow> (int \<times> 'a users_state_scheme) option" where
  "users_import r name home uid gid pw_hash s =
     (if \<not> valid_name name \<or> users_find name s \<noteq> None then Some (-1, s)
      else case free_slot (users s) of None \<Rightarrow> Some (-4, s) | Some slot \<Rightarrow> do {
        let u = \<lparr>u_name = take (USER_NAME_MAX - 1) name, u_home = take (USER_HOME_MAX - 1) home,
                 u_uid = uid, u_gid = gid, u_hash = pw_hash, u_active = True\<rparr>;
        s \<leftarrow> sync_passwd_file r
          (s\<lparr>users := (users s)[slot := u], next_uid := (if uid \<ge> next_uid s then uid + 1 else next_uid s)\<rparr>);
        Some (0, s)
      })"

definition users_delete :: "char \<Rightarrow> string \<Rightarrow> 'a users_state_scheme \<Rightarrow> (int \<times> 'a users_state_scheme) option" where
  "users_delete r name s =
     (case users_find name s of None \<Rightarrow> Some (-1, s)
      | Some i \<Rightarrow>
          if u_uid (users s ! i) = 0 then Some (-2, s)
          else if logged_in s = Some i then Some (-3, s)
          else do {
            s \<leftarrow> sync_passwd_file r (s\<lparr>users := (users s)[i := (users s ! i)\<lparr>u_active := False\<rparr>]\<rparr>);
            Some (0, s)
          })"

definition users_set_password :: "string \<Rightarrow> string option \<Rightarrow> 'a users_state_scheme \<Rightarrow> int \<times> 'a users_state_scheme" where
  "users_set_password name password s =
     (case users_find name s of None \<Rightarrow> (-1, s)
      | Some i \<Rightarrow>
          (case password of None \<Rightarrow> (-3, s) | Some pw \<Rightarrow>
             if length pw < PASSWORD_MIN then (-3, s)
             else (0, s\<lparr>users := (users s)[i := (users s ! i)\<lparr>u_hash := hash_password pw\<rparr>]\<rparr>)))"

definition users_switch :: "string \<Rightarrow> string option \<Rightarrow> 'a users_state_scheme \<Rightarrow> (int \<times> 'a users_state_scheme) option" where
  "users_switch name password s =
     (case users_find name s of None \<Rightarrow> Some (-1, s)
      | Some i \<Rightarrow>
          if \<not> users_check_password (Some (users s ! i)) password then Some (-2, s)
          else do {
            let s = s\<lparr>logged_in := Some i\<rparr>;
            home \<leftarrow> fs_resolve (u_home (users s ! i)) s;
            s \<leftarrow> fs_set_cwd home s;
            Some (0, s)
          })"

definition users_logout :: "'a users_state_scheme \<Rightarrow> 'a users_state_scheme" where
  "users_logout s = s\<lparr>logged_in := None\<rparr>"

text \<open>\<open>strncmp (path, dir, strlen (dir)) = 0\<close>, and the path ends or goes on with a slash there.\<close>

definition inside :: "string \<Rightarrow> string \<Rightarrow> bool" where
  "inside dir path \<longleftrightarrow> take (length dir) path = dir \<and>
     (drop (length dir) path = [] \<or> hd (drop (length dir) path) = CHR ''/'')"

definition users_may_write :: "string \<Rightarrow> 'a users_state_scheme \<Rightarrow> bool" where
  "users_may_write abspath s =
     (if users_is_root s then True
      else case logged_in s of None \<Rightarrow> False
        | Some i \<Rightarrow> inside (u_home (users s ! i)) abspath \<or> inside ''/tmp'' abspath)"

subsection \<open>The interactive parts\<close>

text \<open>
  They take what the successive calls of \<open>console_read_line\<close> return: the line, or \<open>None\<close> when it
  was cancelled with Ctrl-C, which leaves the empty string in the buffer.  The results carry the
  replies not yet read.
\<close>

type_synonym replies = "string option list"

fun ask_new_password :: "replies \<Rightarrow> (string option \<times> replies) option" where
  "ask_new_password [] = None"
| "ask_new_password (None # rs) = Some (None, rs)"
| "ask_new_password (Some p # rs) =
     (if length p < PASSWORD_MIN then ask_new_password rs
      else case rs of
          [] \<Rightarrow> None
        | None # rs \<Rightarrow> Some (None, rs)
        | Some again # rs \<Rightarrow> if p \<noteq> again then ask_new_password rs else Some (Some p, rs))"

partial_function (option) ask_root_password :: "replies \<Rightarrow> (string \<times> replies) option" where
  "ask_root_password rs = do {
     (password, rs) \<leftarrow> ask_new_password rs;
     (case password of None \<Rightarrow> ask_root_password rs | Some p \<Rightarrow> Some (p, rs))
   }"

partial_function (option) add_everyday_user ::
  "char \<Rightarrow> bool \<Rightarrow> replies \<Rightarrow> 'a users_state_scheme \<Rightarrow> (replies \<times> 'a users_state_scheme) option" where
  "add_everyday_user r disk rs s =
     (case rs of
        [] \<Rightarrow> None
      | None # rs \<Rightarrow> Some (rs, s)
      | Some name # rs \<Rightarrow>
          if name = [] then Some (rs, s)
          else if \<not> valid_name name then add_everyday_user r disk rs s
          else if users_find name s \<noteq> None then add_everyday_user r disk rs s
          else do {
            (password, rs) \<leftarrow> ask_new_password rs;
            (case password of
               None \<Rightarrow> add_everyday_user r disk rs s
             | Some p \<Rightarrow> do { (rc, s) \<leftarrow> users_add r disk name (Some p) False s; Some (rs, s) })
          })"

definition users_setup_wizard ::
  "char \<Rightarrow> bool \<Rightarrow> replies \<Rightarrow> 'a users_state_scheme \<Rightarrow> (replies \<times> 'a users_state_scheme) option" where
  "users_setup_wizard r disk rs s = do {
     (password, rs) \<leftarrow> ask_root_password rs;
     (rc, s) \<leftarrow> users_add r disk ''root'' (Some password) True s;
     (rs, s) \<leftarrow> add_everyday_user r disk rs s;
     (case rs of [] \<Rightarrow> None | _ # rs \<Rightarrow> Some (rs, s))
   }"

partial_function (option) users_login :: "replies \<Rightarrow> 'a users_state_scheme \<Rightarrow> (replies \<times> 'a users_state_scheme) option" where
  "users_login rs s =
     (case rs of
        [] \<Rightarrow> None
      | None # rs \<Rightarrow> users_login rs s
      | Some name # rs \<Rightarrow>
          if name = [] then users_login rs s
          else case rs of
              [] \<Rightarrow> None
            | password # rs \<Rightarrow> do {
                (rc, s) \<leftarrow> users_switch name (Some (case password of Some p \<Rightarrow> p | None \<Rightarrow> [])) s;
                if rc = 0 then Some (rs, s) else users_login rs s
              })"

declare ask_root_password.simps [code] add_everyday_user.simps [code] users_login.simps [code]

end
