(* ===== verification/Users_Spec.thy ===== *)
theory Users_Spec
  imports Users
begin

text \<open>
  The invariant of the account table and the properties of its operations: names stay valid and
  unique, the logged-in account is a live one, nobody logs in without the password, and what an
  imported user id can do to the accounts created after it.
\<close>

section \<open>Formatting\<close>

lemma format_uint_Some: "\<exists>ds. format_uint v 10 False = Some ds"
  using format_uint_correct [of 10 v False] by auto

lemma ksnprintf_Some:
  assumes "kprintf fmt args = Some out" "0 < n"
  shows "ksnprintf n fmt args = Some (takeWhile (\<lambda>c. c \<noteq> NUL) (take (n - 1) out))"
proof -
  have t: "takeWhile (\<lambda>c. c \<noteq> NUL) (xs @ NUL # ys) = takeWhile (\<lambda>c. c \<noteq> NUL) xs" for xs ys
    by (induction xs) auto
  show ?thesis using assms by (simp add: ksnprintf_def kvsnprintf_console t)
qed

lemma takeWhile_no_NUL: "NUL \<notin> set xs \<Longrightarrow> takeWhile (\<lambda>c. c \<noteq> NUL) xs = xs"
  by (induction xs) auto

lemmas printf_simps = kprintf_def directive_def flag_left_def flag_zero_def is_digit_def convert.simps
  emit_padded_Console

lemma passwd_line_Some: "\<exists>line. passwd_line u = Some line \<and> length line \<le> 160"
proof -
  obtain d where d: "format_uint (u_uid u) 10 False = Some d" using format_uint_Some by blast
  obtain e where e: "format_uint (u_gid u) 10 False = Some e" using format_uint_Some by blast
  have "\<exists>out. kprintf (''%s:x:%u:%u:%s:%s:/bin/lsh'' @ [LF])
     [VStr (Some (u_name u)), VInt (u_uid u), VInt (u_gid u), VStr (Some (u_name u)), VStr (Some (u_home u))] = Some out"
    by (simp add: printf_simps d e)
  then obtain out where o: "kprintf (''%s:x:%u:%u:%s:%s:/bin/lsh'' @ [LF])
     [VStr (Some (u_name u)), VInt (u_uid u), VInt (u_gid u), VStr (Some (u_name u)), VStr (Some (u_home u))] = Some out"
    by blast
  show ?thesis unfolding passwd_line_def ksnprintf_Some [OF o zero_less_numeral]
    using length_takeWhile_le [of "\<lambda>c. c \<noteq> NUL" "take (160 - 1) out"] by simp
qed

lemma home_path: "NUL \<notin> set name \<Longrightarrow> length name < 57 \<Longrightarrow>
    ksnprintf USER_HOME_MAX ''/home/%s'' [VStr (Some name)] = Some (''/home/'' @ name)"
proof -
  assume a: "NUL \<notin> set name" "length name < 57"
  have "kprintf ''/home/%s'' [VStr (Some name)] = Some (''/home/'' @ name)" by (simp add: printf_simps)
  from ksnprintf_Some [OF this, of 64] a show ?thesis by (simp add: USER_HOME_MAX_def takeWhile_no_NUL)
qed

lemma readme_path: "NUL \<notin> set home \<Longrightarrow> length home < 200 \<Longrightarrow>
    ksnprintf FS_PATH_MAX ''%s/readme.txt'' [VStr (Some home)] = Some (home @ ''/readme.txt'')"
proof -
  assume a: "NUL \<notin> set home" "length home < 200"
  have "kprintf ''%s/readme.txt'' [VStr (Some home)] = Some (home @ ''/readme.txt'')" by (simp add: printf_simps)
  from ksnprintf_Some [OF this, of 256] a show ?thesis by (simp add: FS_PATH_MAX_def takeWhile_no_NUL)
qed

section \<open>The files\<close>

lemma write_passwd_ok:
  "files_ok A s \<Longrightarrow> f \<in> dom (nodes s) \<Longrightarrow>
     \<exists>s'. write_passwd f us first s = Some s' \<and> files_ok A s' \<and> fs_frame s s'"
proof (induction us arbitrary: first s)
  case Nil
  from files_write [OF Nil.prems(1), where p = f and bytes = "[]" and app = False] Nil.prems(2) Nil.prems(1) show ?case
    using fs_frame_refl by fastforce
next
  case (Cons u us)
  obtain line where l: "passwd_line u = Some line" "length line \<le> 160" using passwd_line_Some by blast
  from files_write [OF Cons.prems(1) disjI2 [OF Cons.prems(2)], where bytes = line and app = "\<not> first"] l(2)
  obtain rc s1 where w: "fs_write f line (\<not> first) s = Some (rc, s1)" "files_ok A s1" "fs_frame s s1"
    "\<forall>q. q \<in> dom (nodes s) \<longrightarrow> q \<in> dom (nodes s1)" by fastforce
  have "f \<in> dom (nodes s1)" using w(4) Cons.prems(2) by blast
  from Cons.IH [OF w(2) this, of False] obtain s2 where
    "write_passwd f us False s1 = Some s2" "files_ok A s2" "fs_frame s1 s2" by blast
  with w(1,3) l(1) Cons.IH [OF Cons.prems, of first] fs_frame_trans show ?case by (cases "u_active u") auto
qed

lemma fs_frame_users:
  "fs_frame s s' \<Longrightarrow> users s' = users s \<and> logged_in s' = logged_in s \<and> next_uid s' = next_uid s"
  by (auto simp: fs_frame_def)

lemma passwd_fits: "path_fits r passwd_path"
proof -
  have "NUL \<notin> set passwd_path" "path_comps passwd_path = [''etc'', ''passwd'']" by code_simp+
  then show ?thesis by (simp add: path_fits_def FS_NAME_MAX_def)
qed

lemma sync_ok:
  assumes "files_ok A s"
  shows "\<exists>s'. sync_passwd_file r s = Some s' \<and> files_ok A s' \<and> fs_frame s s'"
proof -
  from files.open_or_create [OF assms passwd_fits, of r FS_FILE] obtain p s1 where
    o: "(do { p \<leftarrow> fs_resolve passwd_path s; if p = NULL then fs_create r passwd_path FS_FILE s else Some (p, s) }) = Some (p, s1)"
    "files_ok A s1" "fs_frame s s1" "p = NULL \<or> p \<in> dom (nodes s1)" by blast
  have d: "sync_passwd_file r s = (if p = NULL then Some s1 else write_passwd p (users s1) True s1)"
    unfolding sync_passwd_file_def o(1) by simp
  show ?thesis
  proof (cases "p = NULL")
    case True
    with o d show ?thesis by simp
  next
    case False
    with write_passwd_ok [OF o(2), of p "users s1" True] o(3,4) d fs_frame_trans show ?thesis by fastforce
  qed
qed

text \<open>A path the filesystem takes as it is: short components, or no residual byte to fear.\<close>

lemma make_home_ok:
  assumes ok: "files_ok A s" and home: "path_fits r home" "path_fits r (home @ ''/readme.txt'')" "length home < 200"
  shows "\<exists>s'. make_home r disk home s = Some s' \<and> files_ok A s' \<and> fs_frame s s'"
proof -
  from files_resolve [OF ok, of home] obtain h where h: "fs_resolve home s = Some h" by blast
  show ?thesis
  proof (cases "h = NULL")
    case True
    from files_create [OF ok home(1), of FS_DIR] obtain p s1 where
      c: "fs_create r home FS_DIR s = Some (p, s1)" "files_ok A s1" "fs_frame s s1" by blast
    have "length (readme_text disk) \<le> 1000000" by (simp add: readme_text_def)
    from files.create_and_put [OF c(2) home(2) this, of FS_FILE False] obtain s2 where
      w: "(do { (p, s) \<leftarrow> fs_create r (home @ ''/readme.txt'') FS_FILE s1; (rc, s) \<leftarrow> fs_write p (readme_text disk) False s; Some s }) = Some s2"
      "files_ok A s2" "fs_frame s1 s2" by blast
    have "NUL \<notin> set home" using home(1) by (simp add: path_fits_def)
    then have "make_home r disk home s = Some s2"
      using h True c(1) w(1) readme_path [OF _ home(3)] by (simp add: make_home_def)
    with w(2,3) c(3) fs_frame_trans show ?thesis by blast
  next
    case False
    with h ok fs_frame_refl show ?thesis by (auto simp: make_home_def)
  qed
qed

lemma name_char_ok: "name_char c \<Longrightarrow> c \<noteq> NUL \<and> c \<noteq> CHR ''/''"
  by (auto simp: name_char_def Let_def)

lemma valid_name_ok:
  assumes "valid_name name" shows "name_ok name" "NUL \<notin> set name" "CHR ''/'' \<notin> set name" "length name < 32" "name \<noteq> []"
proof -
  have v: "list_all name_char name" "length name < 32" "name \<noteq> []" using assms by (simp_all add: valid_name_def USER_NAME_MAX_def)
  then show c: "NUL \<notin> set name" "CHR ''/'' \<notin> set name" using name_char_ok by (auto simp: list_all_iff)
  show "length name < 32" "name \<noteq> []" by (rule v)+
  then show "name_ok name" using c by (simp add: name_ok_def FS_NAME_MAX_def)
qed

lemma home_fits:
  assumes "valid_name name" "r = NUL \<or> length name < FS_NAME_MAX - 1"
  shows "path_fits r (''/home/'' @ name)" "path_fits r ((''/home/'' @ name) @ ''/readme.txt'')"
proof -
  note v = valid_name_ok [OF assms(1)]
  have h: "name_ok ''home''" "name_ok ''readme.txt''" by (simp_all add: name_ok_def FS_NAME_MAX_def)
  have "path_comps (path_string [''home'', name]) = [''home'', name]"
    "path_comps (path_string [''home'', name, ''readme.txt'']) = [''home'', name, ''readme.txt'']"
    using h v by (intro path_comps_string; simp add: path_string_def FS_PATH_MAX_def)+
  then have "path_comps (''/home/'' @ name) = [''home'', name]"
    "path_comps ((''/home/'' @ name) @ ''/readme.txt'') = [''home'', name, ''readme.txt'']" by (simp_all add: path_string_def)
  then show "path_fits r (''/home/'' @ name)" "path_fits r ((''/home/'' @ name) @ ''/readme.txt'')"
    using assms(2) v(2) by (auto simp: path_fits_def FS_NAME_MAX_def)
qed

lemma root_fits: "path_fits r ''/root''" "path_fits r (''/root'' @ ''/readme.txt'')"
proof -
  have "path_comps ''/root'' = [''root'']" "path_comps (''/root'' @ ''/readme.txt'') = [''root'', ''readme.txt'']" by code_simp+
  then show "path_fits r ''/root''" "path_fits r (''/root'' @ ''/readme.txt'')" by (simp_all add: path_fits_def FS_NAME_MAX_def)
qed

section \<open>The table\<close>

definition users_ok :: "'a users_state_scheme \<Rightarrow> bool" where
  "users_ok s \<longleftrightarrow> length (users s) = USER_MAX \<and>
     (\<forall>i<USER_MAX. u_active (users s ! i) \<longrightarrow> valid_name (u_name (users s ! i)) \<and> length (u_home (users s ! i)) < USER_HOME_MAX) \<and>
     (\<forall>i<USER_MAX. \<forall>j<USER_MAX. u_active (users s ! i) \<longrightarrow> u_active (users s ! j) \<longrightarrow>
        u_name (users s ! i) = u_name (users s ! j) \<longrightarrow> i = j) \<and>
     (\<forall>i. logged_in s = Some i \<longrightarrow> i < USER_MAX \<and> u_active (users s ! i))"

lemma find_upt_Some: "find P [0..<n] = Some i \<Longrightarrow> i < n \<and> P i"
  by (auto simp: find_Some_iff)

lemma find_upt_None: "find P [0..<n] = None \<longleftrightarrow> (\<forall>i<n. \<not> P i)"
  by (auto simp: find_None_iff)

lemma users_find_Some:
  "users_find name s = Some i \<Longrightarrow> i < USER_MAX \<and> u_active (users s ! i) \<and> u_name (users s ! i) = name"
  by (auto simp: users_find_def dest: find_upt_Some split: if_splits)

lemma users_find_None:
  "name \<noteq> [] \<Longrightarrow> users_find name s = None \<longleftrightarrow> (\<forall>i<USER_MAX. u_active (users s ! i) \<longrightarrow> u_name (users s ! i) \<noteq> name)"
  by (auto simp: users_find_def find_upt_None)

lemma users_find_unique:
  "users_ok s \<Longrightarrow> name \<noteq> [] \<Longrightarrow> i < USER_MAX \<Longrightarrow> u_active (users s ! i) \<Longrightarrow> u_name (users s ! i) = name \<Longrightarrow>
     users_find name s = Some i"
  using users_find_None [of name s] users_find_Some [of name s] unfolding users_ok_def by (cases "users_find name s") metis+

lemma users_ok_enter:
  assumes ok: "users_ok s" and slot: "free_slot (users s) = Some i"
    and u: "u_active u" "valid_name (u_name u)" "length (u_home u) < USER_HOME_MAX" "users_find (u_name u) s = None"
  shows "users_ok (s\<lparr>users := (users s)[i := u], next_uid := n\<rparr>)" "i < USER_MAX" "\<not> u_active (users s ! i)"
proof -
  show i: "i < USER_MAX" "\<not> u_active (users s ! i)" using slot by (auto simp: free_slot_def dest: find_upt_Some)
  have "\<forall>j<USER_MAX. u_active (users s ! j) \<longrightarrow> u_name (users s ! j) \<noteq> u_name u"
    using u(2,4) users_find_None [of "u_name u" s] valid_name_ok(5) by blast
  then show "users_ok (s\<lparr>users := (users s)[i := u], next_uid := n\<rparr>)"
    using ok i u(1-3) by (auto simp: users_ok_def nth_list_update)
qed

lemma users_ok_cong:
  "users s' = users s \<Longrightarrow> logged_in s' = logged_in s \<Longrightarrow> users_ok s' = users_ok s"
  by (simp add: users_ok_def)

lemma users_frame_ok: "fs_frame s s' \<Longrightarrow> users_ok s' = users_ok s"
  using fs_frame_users users_ok_cong by metis

lemma files_ok_cong:
  assumes "hdr s' = hdr s" "heap_head s' = heap_head s" "heap_size s' = heap_size s" "heap_used s' = heap_used s"
    "nodes s' = nodes s" "bufs s' = bufs s" "root_node s' = root_node s" "current_dir s' = current_dir s" "node_count s' = node_count s"
  shows "files_ok A s' = files_ok A s"
  using assms by (simp add: files_ok_def fs_inv_def mem_holds_def heap_rep_def others_def node_path_def)

section \<open>The operations\<close>

definition account :: "string \<Rightarrow> string \<Rightarrow> bool \<Rightarrow> u32 \<Rightarrow> user" where
  "account name pw admin uid =
     \<lparr>u_name = name, u_home = (if admin then ''/root'' else ''/home/'' @ name), u_uid = uid, u_gid = uid,
       u_hash = hash_password pw, u_active = True\<rparr>"

lemma users_add_full:
  assumes fok: "files_ok A s" and uok: "users_ok s" and fits: "r = NUL \<or> length name < FS_NAME_MAX - 1"
  shows "\<exists>rc s'. users_add r disk name (Some pw) admin s = Some (rc, s') \<and> files_ok A s' \<and> users_ok s' \<and>
    rc = (if \<not> valid_name name then -1 else if users_find name s \<noteq> None then -2
          else if length pw < PASSWORD_MIN then -3 else if free_slot (users s) = None then -4 else 0) \<and>
    (if rc = 0
     then \<exists>i uid. free_slot (users s) = Some i \<and> uid = (if admin then 0 else next_uid s) \<and>
       users s' = (users s)[i := account name pw admin uid] \<and>
       next_uid s' = (if admin then next_uid s else next_uid s + 1) \<and> logged_in s' = logged_in s
     else s' = s) \<and> (\<exists>us n. fs_frame (s\<lparr>users := us, next_uid := n\<rparr>) s')"
proof -
  consider "\<not> valid_name name" | "valid_name name" "users_find name s \<noteq> None"
    | "valid_name name" "users_find name s = None" "length pw < PASSWORD_MIN"
    | "valid_name name" "users_find name s = None" "\<not> length pw < PASSWORD_MIN" "free_slot (users s) = None"
    | i where "valid_name name" "users_find name s = None" "\<not> length pw < PASSWORD_MIN" "free_slot (users s) = Some i"
    by (cases "free_slot (users s)") blast+
  moreover have same: "\<exists>us n. fs_frame (s\<lparr>users := us, next_uid := n\<rparr>) s"
    using fs_frame_refl [of s] by (intro exI [of _ "users s"] exI [of _ "next_uid s"]) simp
  ultimately show ?thesis
  proof cases
    case 5
    note v = valid_name_ok [OF 5(1)]
    let ?uid = "if admin then 0 else next_uid s" and ?next = "if admin then next_uid s else next_uid s + 1"
    let ?home = "if admin then ''/root'' else ''/home/'' @ name"
    let ?u = "account name pw admin ?uid"
    let ?s = "s\<lparr>users := (users s)[i := ?u], next_uid := ?next\<rparr>"
    have u: "u_active ?u" "valid_name (u_name ?u)" "length (u_home ?u) < USER_HOME_MAX" "users_find (u_name ?u) s = None"
      using 5 v(4) by (simp_all add: account_def USER_HOME_MAX_def)
    have "files_ok A ?s" using fok by (subst files_ok_cong [where s = s]) simp_all
    moreover have "path_fits r ?home" "path_fits r (?home @ ''/readme.txt'')" "length ?home < 200"
      using home_fits [OF 5(1) fits] root_fits v(4) by (cases admin; simp)+
    ultimately obtain s1 where m: "make_home r disk ?home ?s = Some s1" "files_ok A s1" "fs_frame ?s s1"
      using make_home_ok by blast
    from sync_ok [OF m(2), of r] obtain s2 where y: "sync_passwd_file r s1 = Some s2" "files_ok A s2" "fs_frame s1 s2" by blast
    have fr: "fs_frame ?s s2" using m(3) y(3) by (rule fs_frame_trans)
    have "(if admin then Some ''/root'' else ksnprintf USER_HOME_MAX ''/home/%s'' [VStr (Some name)]) = Some ?home"
      using home_path [OF v(2)] v(4) by simp
    moreover have "\<lparr>u_name = take (USER_NAME_MAX - 1) name, u_home = ?home, u_uid = ?uid, u_gid = ?uid,
        u_hash = hash_password pw, u_active = True\<rparr> = ?u"
      using v(4) by (simp add: account_def USER_NAME_MAX_def)
    ultimately have "users_add r disk name (Some pw) admin s = Some (0, s2)"
      using 5 m(1) y(1) by (simp add: users_add_def)
    moreover have "users_ok s2" using users_ok_enter(1) [OF uok 5(4) u] users_frame_ok [OF fr] by simp
    moreover have "users s2 = (users s)[i := ?u]" "next_uid s2 = ?next" "logged_in s2 = logged_in s"
      using fs_frame_users [OF fr] by simp_all
    moreover have "\<exists>us n. fs_frame (s\<lparr>users := us, next_uid := n\<rparr>) s2" using fr by blast
    ultimately show ?thesis using 5 y(2) by (intro exI [of _ 0] exI [of _ s2]) simp
  qed (use fok uok same in \<open>simp_all add: users_add_def\<close>)
qed

lemma users_add_ok:
  assumes fok: "files_ok A s" and uok: "users_ok s" and fits: "r = NUL \<or> length name < FS_NAME_MAX - 1"
  shows "\<exists>rc s'. users_add r disk name (Some pw) admin s = Some (rc, s') \<and> files_ok A s' \<and> users_ok s' \<and>
    rc = (if \<not> valid_name name then -1 else if users_find name s \<noteq> None then -2
          else if length pw < PASSWORD_MIN then -3 else if free_slot (users s) = None then -4 else 0) \<and>
    (if rc = 0
     then \<exists>i uid. free_slot (users s) = Some i \<and> uid = (if admin then 0 else next_uid s) \<and>
       users s' = (users s)[i := account name pw admin uid] \<and>
       next_uid s' = (if admin then next_uid s else next_uid s + 1) \<and> logged_in s' = logged_in s
     else s' = s)"
  using users_add_full [OF assms, of disk pw admin] by blast

lemma users_import_ok:
  assumes fok: "files_ok A s" and uok: "users_ok s"
  shows "\<exists>rc s'. users_import r name home uid gid h s = Some (rc, s') \<and> files_ok A s' \<and> users_ok s' \<and>
    rc = (if \<not> valid_name name \<or> users_find name s \<noteq> None then -1 else if free_slot (users s) = None then -4 else 0) \<and>
    (if rc = 0
     then \<exists>i. free_slot (users s) = Some i \<and>
       users s' = (users s)[i := \<lparr>u_name = name, u_home = take 63 home, u_uid = uid, u_gid = gid, u_hash = h, u_active = True\<rparr>] \<and>
       next_uid s' = (if uid \<ge> next_uid s then uid + 1 else next_uid s) \<and> logged_in s' = logged_in s
     else s' = s)"
proof -
  consider "\<not> valid_name name \<or> users_find name s \<noteq> None"
    | "valid_name name" "users_find name s = None" "free_slot (users s) = None"
    | i where "valid_name name" "users_find name s = None" "free_slot (users s) = Some i"
    by (cases "free_slot (users s)") blast+
  then show ?thesis
  proof cases
    case 3
    let ?u = "\<lparr>u_name = name, u_home = take 63 home, u_uid = uid, u_gid = gid, u_hash = h, u_active = True\<rparr>"
    let ?next = "if uid \<ge> next_uid s then uid + 1 else next_uid s"
    let ?s = "s\<lparr>users := (users s)[i := ?u], next_uid := ?next\<rparr>"
    have u: "u_active ?u" "valid_name (u_name ?u)" "length (u_home ?u) < USER_HOME_MAX" "users_find (u_name ?u) s = None"
      using 3 by (simp_all add: USER_HOME_MAX_def)
    have "files_ok A ?s" using fok by (subst files_ok_cong [where s = s]) simp_all
    from sync_ok [OF this, of r] obtain s2 where y: "sync_passwd_file r ?s = Some s2" "files_ok A s2" "fs_frame ?s s2" by blast
    have "users_import r name home uid gid h s = Some (0, s2)"
      using 3 y(1) valid_name_ok(4) [OF 3(1)] by (simp add: users_import_def USER_NAME_MAX_def USER_HOME_MAX_def)
    moreover have "users_ok s2" using users_ok_enter(1) [OF uok 3(3) u] users_frame_ok [OF y(3)] by simp
    moreover have "users s2 = (users s)[i := ?u]" "next_uid s2 = ?next" "logged_in s2 = logged_in s"
      using fs_frame_users [OF y(3)] by simp_all
    ultimately show ?thesis using 3 y(2) by (intro exI [of _ 0] exI [of _ s2]) simp
  qed (use fok uok in \<open>auto simp: users_import_def\<close>)
qed

lemma users_delete_full:
  assumes fok: "files_ok A s" and uok: "users_ok s"
  shows "\<exists>rc s'. users_delete r name s = Some (rc, s') \<and> files_ok A s' \<and> users_ok s' \<and>
    (if rc = 0
     then \<exists>i. users_find name s = Some i \<and> u_uid (users s ! i) \<noteq> 0 \<and> logged_in s \<noteq> Some i \<and>
       users s' = (users s)[i := (users s ! i)\<lparr>u_active := False\<rparr>] \<and> logged_in s' = logged_in s
     else s' = s) \<and> (\<exists>us. fs_frame (s\<lparr>users := us\<rparr>) s')"
proof -
  have same: "\<exists>us. fs_frame (s\<lparr>users := us\<rparr>) s" using fs_frame_refl [of s] by (intro exI [of _ "users s"]) simp
  show ?thesis
  proof (cases "users_find name s")
  case None
  with fok uok same show ?thesis by (simp add: users_delete_def)
next
  case (Some i)
  show ?thesis
  proof (cases "u_uid (users s ! i) = 0 \<or> logged_in s = Some i")
    case True
    with Some fok uok same show ?thesis by (auto simp: users_delete_def)
  next
    case False
    let ?s = "s\<lparr>users := (users s)[i := (users s ! i)\<lparr>u_active := False\<rparr>]\<rparr>"
    have "files_ok A ?s" using fok by (subst files_ok_cong [where s = s]) simp_all
    from sync_ok [OF this, of r] obtain s2 where y: "sync_passwd_file r ?s = Some s2" "files_ok A s2" "fs_frame ?s s2" by blast
    have "users_ok ?s" using uok False users_find_Some [OF Some] by (auto simp: users_ok_def nth_list_update)
    then have "users_ok s2" using users_frame_ok [OF y(3)] by simp
    moreover have "\<exists>us. fs_frame (s\<lparr>users := us\<rparr>) s2" using y(3) by blast
    ultimately show ?thesis using y Some False fs_frame_users [OF y(3)]
      by (intro exI [of _ 0] exI [of _ s2]) (simp add: users_delete_def)
  qed
  qed
qed

lemma users_delete_ok:
  assumes fok: "files_ok A s" and uok: "users_ok s"
  shows "\<exists>rc s'. users_delete r name s = Some (rc, s') \<and> files_ok A s' \<and> users_ok s' \<and>
    (if rc = 0
     then \<exists>i. users_find name s = Some i \<and> u_uid (users s ! i) \<noteq> 0 \<and> logged_in s \<noteq> Some i \<and>
       users s' = (users s)[i := (users s ! i)\<lparr>u_active := False\<rparr>] \<and> logged_in s' = logged_in s
     else s' = s)"
  using users_delete_full [OF assms, of r name] by blast

lemma users_set_password_ok:
  assumes fok: "files_ok A s" and uok: "users_ok s"
  shows "\<exists>rc s'. users_set_password name pw s = (rc, s') \<and> files_ok A s' \<and> users_ok s'"
proof -
  have f: "files_ok A (s\<lparr>users := us\<rparr>)" for us using fok by (subst files_ok_cong [where s = s]) simp_all
  show ?thesis
  proof (cases "users_find name s")
    case None
    with fok uok show ?thesis by (simp add: users_set_password_def)
  next
    case (Some i)
    then have i: "i < USER_MAX" using users_find_Some [OF Some] by simp
    have "users_ok (s\<lparr>users := (users s)[i := (users s ! i)\<lparr>u_hash := h\<rparr>]\<rparr>)" for h
      using uok i unfolding users_ok_def by (simp add: nth_list_update) blast
    with Some f fok uok show ?thesis by (cases pw) (simp_all add: users_set_password_def)
  qed
qed

lemma set_cwd_ok:
  assumes ok: "files_ok A s" and p: "fs_resolve path s = Some p"
  shows "\<exists>s'. fs_set_cwd p s = Some s' \<and> files_ok A s' \<and> users s' = users s \<and> logged_in s' = logged_in s \<and> next_uid s' = next_uid s"
proof -
  from ok obtain L cwd where s: "fs_inv s L" "others s L = A" "node_path s cwd (current_dir s)" by (auto simp: files_ok_def)
  show ?thesis
  proof (cases "p = NULL")
    case True
    with ok show ?thesis by (simp add: fs_set_cwd_def)
  next
    case False
    with fs_resolve_ok [OF s(1,3), of path] p obtain xs where xs: "node_path s xs p" by (auto split: option.splits)
    from node_path_dom [OF s(1) xs] obtain n where n: "nodes s p = Some n" by blast
    have "fs_inv (s\<lparr>current_dir := p\<rparr>) L" "node_path (s\<lparr>current_dir := p\<rparr>) xs p" "others (s\<lparr>current_dir := p\<rparr>) L = A"
      using s xs by (simp_all add: fs_inv_def mem_holds_def heap_rep_def others_def node_path_def)
    then have "files_ok A (s\<lparr>current_dir := p\<rparr>)" unfolding files_ok_def by (intro exI [of _ L] exI [of _ xs]) simp
    with False n ok show ?thesis by (simp add: fs_set_cwd_def)
  qed
qed

lemma users_switch_ok:
  assumes fok: "files_ok A s" and uok: "users_ok s"
  shows "\<exists>rc s'. users_switch name (Some pw) s = Some (rc, s') \<and> files_ok A s' \<and> users_ok s' \<and> users s' = users s \<and>
    next_uid s' = next_uid s \<and>
    (if rc = 0
     then \<exists>i. users_find name s = Some i \<and> u_hash (users s ! i) = hash_password pw \<and> logged_in s' = Some i
     else s' = s)"
proof (cases "users_find name s")
  case None
  with fok uok show ?thesis by (simp add: users_switch_def)
next
  case (Some i)
  show ?thesis
  proof (cases "u_hash (users s ! i) = hash_password pw")
    case False
    with Some fok uok show ?thesis by (simp add: users_switch_def users_check_password_def)
  next
    case True
    let ?s = "s\<lparr>logged_in := Some i\<rparr>"
    have f: "files_ok A ?s" using fok by (subst files_ok_cong [where s = s]) simp_all
    from files_resolve [OF f, of "u_home (users s ! i)"] obtain p where p: "fs_resolve (u_home (users s ! i)) ?s = Some p" by blast
    from set_cwd_ok [OF f p] obtain s' where c: "fs_set_cwd p ?s = Some s'" "files_ok A s'" "users s' = users s"
      "logged_in s' = Some i" "next_uid s' = next_uid s" by auto
    have "users_ok ?s" using uok users_find_Some [OF Some] by (auto simp: users_ok_def)
    then have "users_ok s'" using users_ok_cong [of s' ?s] c by simp
    with c p True Some show ?thesis
      by (intro exI [of _ 0] exI [of _ s']) (simp add: users_switch_def users_check_password_def)
  qed
qed

text \<open>The operations as steps; a new account's name fits the name buffer of the filesystem.\<close>

inductive users_step :: "'a users_state_scheme \<Rightarrow> 'a users_state_scheme \<Rightarrow> bool" where
  step_add: "users_add r disk name (Some pw) admin s = Some (rc, s') \<Longrightarrow> r = NUL \<or> length name < FS_NAME_MAX - 1 \<Longrightarrow>
    users_step s s'"
| step_import: "users_import r name home uid gid h s = Some (rc, s') \<Longrightarrow> users_step s s'"
| step_delete: "users_delete r name s = Some (rc, s') \<Longrightarrow> users_step s s'"
| step_passwd: "users_set_password name pw s = (rc, s') \<Longrightarrow> users_step s s'"
| step_switch: "users_switch name (Some pw) s = Some (rc, s') \<Longrightarrow> users_step s s'"
| step_logout: "users_step s (users_logout s)"

lemma users_logout_ok: "files_ok A s \<Longrightarrow> users_ok s \<Longrightarrow> files_ok A (users_logout s) \<and> users_ok (users_logout s)"
  unfolding users_logout_def by (subst files_ok_cong [where s = s]) (simp_all add: users_ok_def)

lemma users_step_ok:
  assumes "users_step s s'" and ok: "files_ok A s" "users_ok s"
  shows "files_ok A s' \<and> users_ok s'"
  using assms(1)
proof cases
  case (step_add r disk name pw admin rc)
  from users_add_ok [OF ok step_add(2), of disk pw admin] step_add(1) show ?thesis by auto
next
  case (step_import r name home uid gid h rc)
  with users_import_ok [OF ok, of r name home uid gid h] show ?thesis by auto
next
  case (step_delete r name rc)
  with users_delete_ok [OF ok, of r name] show ?thesis by auto
next
  case (step_passwd name pw rc)
  with users_set_password_ok [OF ok, of name pw] show ?thesis by auto
next
  case (step_switch name pw rc)
  with users_switch_ok [OF ok, of name pw] show ?thesis by auto
next
  case step_logout
  with users_logout_ok [OF ok] show ?thesis by simp
qed

lemma users_steps_ok: "users_step\<^sup>*\<^sup>* s s' \<Longrightarrow> files_ok A s \<Longrightarrow> users_ok s \<Longrightarrow> files_ok A s' \<and> users_ok s'"
  by (induction rule: rtranclp_induct) (auto dest: users_step_ok)

lemma users_init_ok: "files_ok A s \<Longrightarrow> files_ok A (users_init s) \<and> users_ok (users_init s)"
  unfolding users_init_def by (subst files_ok_cong [where s = s]) (simp_all add: users_ok_def zero_user_def USER_MAX_def)

section \<open>Logging in\<close>

definition typed :: "string option \<Rightarrow> string" where
  "typed reply = (case reply of Some p \<Rightarrow> p | None \<Rightarrow> [])"

lemma users_login_step:
  "users_login [] s = None"
  "users_login (None # rs) s = users_login rs s"
  "users_login (Some [] # rs) s = users_login rs s"
  "name \<noteq> [] \<Longrightarrow> users_login [Some name] s = None"
  "name \<noteq> [] \<Longrightarrow> users_login (Some name # p # rs) s =
     do { (rc, s) \<leftarrow> users_switch name (Some (typed p)) s; if rc = 0 then Some (rs, s) else users_login rs s }"
  by (subst users_login.simps; simp add: typed_def)+

lemma reply_cases:
  "rs = [] \<or> (\<exists>t. rs = None # t) \<or> (\<exists>t. rs = Some [] # t) \<or> (\<exists>name. rs = [Some name] \<and> name \<noteq> []) \<or>
     (\<exists>name p t. rs = Some name # p # t \<and> name \<noteq> [])" for rs :: replies
  by (cases rs; cases "hd rs"; cases "tl rs") auto

lemma users_login_result:
  assumes "files_ok A s" "users_ok s" "users_login rs s = Some (rest, s')"
  shows "\<exists>pre name p i. rs = pre @ Some name # p # rest \<and> users_find name s = Some i \<and>
    u_hash (users s ! i) = hash_password (typed p) \<and> logged_in s' = Some i \<and> users s' = users s \<and>
    files_ok A s' \<and> users_ok s'"
  using assms(3)
proof (induction "length rs" arbitrary: rs rule: less_induct)
  case less
  consider "rs = []" | t where "rs = None # t" | t where "rs = Some [] # t"
    | name where "rs = [Some name]" "name \<noteq> []" | name p t where "rs = Some name # p # t" "name \<noteq> []"
    using reply_cases [of rs] by blast
  then show ?case
  proof cases
    case 1
    with less.prems show ?thesis by (simp add: users_login_step)
  next
    case (2 t)
    with less.prems have "users_login t s = Some (rest, s')" by (simp add: users_login_step)
    from less.hyps [OF _ this] 2 obtain pre name p i where "t = pre @ Some name # p # rest" "users_find name s = Some i"
      "u_hash (users s ! i) = hash_password (typed p)" "logged_in s' = Some i" "users s' = users s" "files_ok A s'" "users_ok s'"
      by auto
    with 2 show ?thesis by (intro exI [of _ "None # pre"] exI [of _ name] exI [of _ p] exI [of _ i]) simp
  next
    case (3 t)
    with less.prems have "users_login t s = Some (rest, s')" by (simp add: users_login_step)
    from less.hyps [OF _ this] 3 obtain pre name p i where "t = pre @ Some name # p # rest" "users_find name s = Some i"
      "u_hash (users s ! i) = hash_password (typed p)" "logged_in s' = Some i" "users s' = users s" "files_ok A s'" "users_ok s'"
      by auto
    with 3 show ?thesis by (intro exI [of _ "Some [] # pre"] exI [of _ name] exI [of _ p] exI [of _ i]) simp
  next
    case (4 name)
    with less.prems show ?thesis by (simp add: users_login_step)
  next
    case (5 name p t)
    from users_switch_ok [OF assms(1,2), of name "typed p"] obtain rc s1 where
      sw: "users_switch name (Some (typed p)) s = Some (rc, s1)" "files_ok A s1" "users_ok s1" "users s1 = users s"
      "if rc = 0 then \<exists>i. users_find name s = Some i \<and> u_hash (users s ! i) = hash_password (typed p) \<and> logged_in s1 = Some i
       else s1 = s" by blast
    show ?thesis
    proof (cases "rc = 0")
      case True
      with sw less.prems 5 have "rest = t" "s' = s1" by (simp_all add: users_login_step)
      with sw 5 True show ?thesis by (intro exI [of _ "[]"] exI [of _ name] exI [of _ p]) auto
    next
      case False
      with sw less.prems 5 have "users_login t s = Some (rest, s')" by (simp add: users_login_step)
      from less.hyps [OF _ this] 5 obtain pre nm q i where "t = pre @ Some nm # q # rest" "users_find nm s = Some i"
        "u_hash (users s ! i) = hash_password (typed q)" "logged_in s' = Some i" "users s' = users s" "files_ok A s'" "users_ok s'"
        by auto
      with 5 show ?thesis by (intro exI [of _ "Some name # p # pre"] exI [of _ nm] exI [of _ q] exI [of _ i]) simp
    qed
  qed
qed

section \<open>A concrete system\<close>

definition boot_users :: "fs_state \<Rightarrow> users_state" where
  "boot_users s = users_init (fs_state.extend s \<lparr>users = [], logged_in = None, next_uid = 0\<rparr>)"

lemma boot_users_ok:
  assumes "files_ok A s" shows "files_ok A (boot_users s)" "users_ok (boot_users s)"
proof -
  let ?e = "fs_state.extend s \<lparr>users = [], logged_in = None, next_uid = 0\<rparr>"
  have "files_ok A ?e"
    using assms by (simp add: files_ok_def fs_inv_def mem_holds_def heap_rep_def others_def node_path_def fs_state.defs)
  from users_init_ok [OF this] show "files_ok A (boot_users s)" "users_ok (boot_users s)"
    by (simp_all add: boot_users_def)
qed

lemma demo_users: "\<exists>A (s :: users_state). files_ok A s \<and> users_ok s \<and> users s = replicate 8 zero_user \<and> logged_in s = None"
proof -
  obtain s :: fs_state and L where "fs_inv s L" "node_path s [] (current_dir s)" using demo_fs by blast
  then have "files_ok (others s L) s" unfolding files_ok_def by blast
  note ok = boot_users_ok [OF this]
  have "users (boot_users s) = replicate 8 zero_user" "logged_in (boot_users s) = None"
    by (simp_all add: boot_users_def users_init_def USER_MAX_def)
  with ok show ?thesis by blast
qed

lemma demo_admin:
  "\<exists>A s. files_ok A s \<and> users_ok (s :: users_state) \<and> users_find ''root'' s = Some 0 \<and> u_uid (users s ! 0) = 0 \<and>
     u_hash (users s ! 0) = hash_password ''thunder'' \<and> free_slot (users s) = Some 1 \<and>
     users_find ''bob'' s = None \<and> users_find ''eve'' s = None"
proof -
  obtain A and s :: users_state where s: "files_ok A s" "users_ok s" "users s = replicate 8 zero_user" using demo_users by blast
  have v: "valid_name ''root''" by (simp add: valid_name_def USER_NAME_MAX_def name_char_def is_digit_def)
  have f: "users_find name s = None" for name
    by (cases "name = []") (simp_all add: users_find_None s(3) zero_user_def USER_MAX_def, simp add: users_find_def)
  have sl: "free_slot (users s) = Some 0"
    by (simp add: free_slot_def s(3) zero_user_def USER_MAX_def upt_conv_Cons)
  from users_add_ok [OF s(1,2), of NUL "''root''" False "''thunder''" True] obtain s1 :: users_state where
    a: "files_ok A s1" "users_ok s1" "users s1 = (users s)[0 := account ''root'' ''thunder'' True 0]"
    using v f sl by (auto simp: PASSWORD_MIN_def)
  have "users_find ''root'' s1 = Some 0" "free_slot (users s1) = Some 1" "users_find ''bob'' s1 = None" "users_find ''eve'' s1 = None"
    unfolding users_find_def free_slot_def a(3) s(3) USER_MAX_def
    by (simp_all add: account_def zero_user_def upt_conv_Cons nth_Cons' numeral_eq_Suc)
  with a(1,2) show ?thesis unfolding a(3) by (intro exI [of _ A] exI [of _ s1]) (simp add: a(3) s(3) account_def)
qed

section \<open>Properties\<close>



text \<open>Property C26: \<open>users_add\<close> returns: -1 for a name that is not valid, -2 for one that is taken, -3 for
  a password of less than four characters, -4 when the table is full, each without any effect;
  otherwise 0, with the account in the first free slot, user id 0 and \<open>/root\<close> for an administrator,
  the next user id and \<open>/home/name\<close> for the others, and only the hash of the password kept.  A name of 31
  characters must not meet the byte that \<open>fs_create\<close> leaves uninitialised.\<close>

theorem users_add_result:
  assumes "files_ok A s" "users_ok s" "r = NUL \<or> length name < 31"
  shows "\<exists>rc s'. users_add r disk name (Some pw) admin s = Some (rc, s') \<and> files_ok A s' \<and> users_ok s' \<and>
    rc = (if \<not> valid_name name then -1 else if users_find name s \<noteq> None then -2
          else if length pw < 4 then -3 else if free_slot (users s) = None then -4 else 0) \<and>
    (if rc = 0
     then \<exists>i uid. free_slot (users s) = Some i \<and> uid = (if admin then 0 else next_uid s) \<and>
       users s' = (users s)[i := \<lparr>u_name = name, u_home = (if admin then ''/root'' else ''/home/'' @ name),
         u_uid = uid, u_gid = uid, u_hash = hash_password pw, u_active = True\<rparr>] \<and>
       next_uid s' = (if admin then next_uid s else next_uid s + 1) \<and> logged_in s' = logged_in s
     else s' = s)"
proof -
  have "r = NUL \<or> length name < FS_NAME_MAX - 1" using assms(3) by (simp add: FS_NAME_MAX_def)
  from users_add_ok [OF assms(1,2) this, of disk pw admin] show ?thesis unfolding account_def PASSWORD_MIN_def .
qed

theorem users_add_result_witness:
  "\<exists>(s :: users_state) s'. users_add NUL True ''bob'' (Some ''secret'') False s = Some (0, s') \<and> u_home (users s' ! 1) = ''/home/bob''"
proof -
  obtain A and s :: users_state where s: "files_ok A s" "users_ok s" "free_slot (users s) = Some 1" "users_find ''bob'' s = None"
    using demo_admin by blast
  have "valid_name ''bob''" by (simp add: valid_name_def USER_NAME_MAX_def name_char_def is_digit_def)
  moreover have "length (users s) = 8" using s(2) by (simp add: users_ok_def USER_MAX_def)
  ultimately obtain s' where "users_add NUL True ''bob'' (Some ''secret'') False s = Some (0, s')" "u_home (users s' ! 1) = ''/home/bob''"
    using users_add_result [OF s(1,2), of NUL "''bob''" True "''secret''" False] s(3,4) by auto
  then show ?thesis by blast
qed

text \<open>Property C27: the login loop ends only with the name of an account and its password: the last
  two replies it read were that name and a password with the hash of the account, which is then
  the one logged in.  And it does end there: given an account's name and password it returns.\<close>

theorem login_authenticates:
  assumes "files_ok A s" "users_ok s"
  shows "(\<forall>rs rest s'. users_login rs s = Some (rest, s') \<longrightarrow>
      (\<exists>pre name p i. rs = pre @ Some name # p # rest \<and> users_find name s = Some i \<and>
         u_hash (users s ! i) = hash_password (typed p) \<and> logged_in s' = Some i)) \<and>
    (\<forall>name i p rest. users_find name s = Some i \<longrightarrow> u_hash (users s ! i) = hash_password p \<longrightarrow>
       (\<exists>s'. users_login (Some name # Some p # rest) s = Some (rest, s') \<and> logged_in s' = Some i))"
proof (intro conjI allI impI)
  fix rs rest s' assume "users_login rs s = Some (rest, s')"
  from users_login_result [OF assms this] show "\<exists>pre name p i. rs = pre @ Some name # p # rest \<and>
    users_find name s = Some i \<and> u_hash (users s ! i) = hash_password (typed p) \<and> logged_in s' = Some i" by blast
next
  fix name i p rest assume a: "users_find name s = Some i" "u_hash (users s ! i) = hash_password p"
  from users_switch_ok [OF assms, of name p] obtain rc s' where s': "users_switch name (Some p) s = Some (rc, s')"
    "rc = 0 \<Longrightarrow> logged_in s' = Some i" using a(1) by (auto split: if_splits)
  have "rc = 0" using s'(1) a by (auto simp: users_switch_def users_check_password_def bind_eq_Some_conv Let_def)
  moreover have "name \<noteq> []" using a(1) by (auto simp: users_find_def)
  ultimately show "\<exists>s'. users_login (Some name # Some p # rest) s = Some (rest, s') \<and> logged_in s' = Some i"
    using s' by (simp add: users_login_step typed_def)
qed

theorem login_authenticates_witness:
  "\<exists>(s :: users_state) s'. users_login [Some ''root'', Some ''thunder''] s = Some ([], s') \<and> logged_in s' = Some 0"
proof -
  obtain A and s :: users_state where s: "files_ok A s" "users_ok s" "users_find ''root'' s = Some 0"
    "u_hash (users s ! 0) = hash_password ''thunder''" using demo_admin by blast
  from login_authenticates [OF s(1,2)] s(3,4) show ?thesis by blast
qed

text \<open>A saved account with the largest user id wraps the next user id around to 0: the
  next everyday account that is created after importing it is an administrator.\<close>

theorem users_import_uid_wraps:
  assumes "files_ok A s" "users_ok s" "length name < 31"
    and "users_import r saved home 0xFFFFFFFF gid h s = Some (0, s1)"
    and "users_add r disk name (Some pw) False s1 = Some (0, s2)"
  shows "\<exists>s3. users_switch name (Some pw) s2 = Some (0, s3) \<and> users_is_root s3"
proof -
  from users_import_ok [OF assms(1,2), of r saved home "0xFFFFFFFF" gid h] assms(4) have
    s1: "files_ok A s1" "users_ok s1" "next_uid s1 = (if 0xFFFFFFFF \<ge> next_uid s then 0 else next_uid s)" by auto
  have m: "(- 1 :: u32) = 0xFFFFFFFF" by simp
  have "next_uid s \<le> 0xFFFFFFFF" unfolding m [symmetric] by (rule word_n1_ge)
  with s1(3) have n: "next_uid s1 = 0" by simp
  have fits: "r = NUL \<or> length name < FS_NAME_MAX - 1" using assms(3) by (simp add: FS_NAME_MAX_def)
  from users_add_ok [OF s1(1,2) fits, of disk pw False] assms(5) obtain i where
    s2: "files_ok A s2" "users_ok s2" "valid_name name" "free_slot (users s1) = Some i"
    "users s2 = (users s1)[i := account name pw False 0]" by (auto simp: n split: if_splits)
  have i: "i < USER_MAX" "length (users s1) = USER_MAX" using s2(4) s1(2)
    by (auto simp: free_slot_def users_ok_def dest: find_upt_Some)
  have f: "users_find name s2 = Some i"
    using users_find_unique [OF s2(2) valid_name_ok(5) [OF s2(3)] i(1)] i by (simp add: s2(5) account_def)
  from users_switch_ok [OF s2(1,2), of name pw] obtain rc s3 where s3: "users_switch name (Some pw) s2 = Some (rc, s3)"
    "users s3 = users s2" "rc = 0 \<Longrightarrow> logged_in s3 = Some i" using f by (auto split: if_splits)
  have h: "u_hash (users s2 ! i) = hash_password pw" "u_uid (users s2 ! i) = 0" using i by (simp_all add: s2(5) account_def)
  have "rc = 0" using s3(1) f h by (auto simp: users_switch_def users_check_password_def bind_eq_Some_conv Let_def)
  with s3 h(2) show ?thesis by (auto simp: users_is_root_def)
qed

theorem users_import_uid_wraps_witness:
  "\<exists>(s1 :: users_state) s2 s3. users_add NUL True ''bob'' (Some ''secret'') False s1 = Some (0, s2) \<and>
     users_switch ''bob'' (Some ''secret'') s2 = Some (0, s3) \<and> users_is_root s3"
proof -
  obtain A and s :: users_state where s: "files_ok A s" "users_ok s" "free_slot (users s) = Some 0" "users s = replicate 8 zero_user"
    using demo_users by (fastforce simp: free_slot_def zero_user_def USER_MAX_def upt_conv_Cons)
  have v: "valid_name ''eve''" "valid_name ''bob''" by (simp_all add: valid_name_def USER_NAME_MAX_def name_char_def is_digit_def)
  have f: "users_find ''eve'' s = None" by (simp add: users_find_None s(4) zero_user_def USER_MAX_def)
  from users_import_ok [OF s(1,2), of NUL "''eve''" "''/home/eve''" "0xFFFFFFFF" 7 9] v(1) f s(3) obtain s1 :: users_state where
    s1: "users_import NUL ''eve'' ''/home/eve'' 0xFFFFFFFF 7 9 s = Some (0, s1)" "files_ok A s1" "users_ok s1"
    "users s1 = (users s)[0 := \<lparr>u_name = ''eve'', u_home = ''/home/eve'', u_uid = 0xFFFFFFFF, u_gid = 7, u_hash = 9, u_active = True\<rparr>]"
    by auto
  have f1: "users_find ''bob'' s1 = None" "free_slot (users s1) = Some 1"
    unfolding users_find_def free_slot_def s1(4) s(4) USER_MAX_def
    by (simp_all add: zero_user_def upt_conv_Cons nth_Cons' numeral_eq_Suc)
  from users_add_ok [OF s1(2,3), of NUL "''bob''" True "''secret''" False] v(2) f1 obtain s2 :: users_state where
    s2: "users_add NUL True ''bob'' (Some ''secret'') False s1 = Some (0, s2)" by (auto simp: PASSWORD_MIN_def)
  have "length ''bob'' < 31" by simp
  from users_import_uid_wraps [OF s(1,2) this s1(1) s2] s2 show ?thesis by blast
qed

end
