(* ===== verification/Ata.thy ===== *)
theory Ata
  imports Io
begin

text \<open>
  The disk driver of \<open>drivers/ata.c\<close>: polled transfers on the primary channel.  The drives
  are reached through the ports only.  A buffer is the list of its 16-bit words, and an offset
  into it stands for the moving pointer; \<open>None\<close> is an access outside the buffer.
\<close>

section \<open>State\<close>

definition ATA_CTRL_BASE :: u16 where "ATA_CTRL_BASE = 0x3F6"
definition ATA_REG_DATA :: u16 where "ATA_REG_DATA = 0x1F0"
definition ATA_REG_FEATURES :: u16 where "ATA_REG_FEATURES = 0x1F1"
definition ATA_REG_SECCOUNT :: u16 where "ATA_REG_SECCOUNT = 0x1F2"
definition ATA_REG_LBA_LOW :: u16 where "ATA_REG_LBA_LOW = 0x1F3"
definition ATA_REG_LBA_MID :: u16 where "ATA_REG_LBA_MID = 0x1F4"
definition ATA_REG_LBA_HIGH :: u16 where "ATA_REG_LBA_HIGH = 0x1F5"
definition ATA_REG_DRIVE :: u16 where "ATA_REG_DRIVE = 0x1F6"
definition ATA_REG_STATUS :: u16 where "ATA_REG_STATUS = 0x1F7"
definition ATA_REG_COMMAND :: u16 where "ATA_REG_COMMAND = 0x1F7"
definition ATA_SR_BSY :: u8 where "ATA_SR_BSY = 0x80"
definition ATA_SR_DF :: u8 where "ATA_SR_DF = 0x20"
definition ATA_SR_DRQ :: u8 where "ATA_SR_DRQ = 0x08"
definition ATA_SR_ERR :: u8 where "ATA_SR_ERR = 0x01"
definition ATA_CMD_READ_PIO :: u8 where "ATA_CMD_READ_PIO = 0x20"
definition ATA_CMD_WRITE_PIO :: u8 where "ATA_CMD_WRITE_PIO = 0x30"
definition ATA_CMD_CACHE_FLUSH :: u8 where "ATA_CMD_CACHE_FLUSH = 0xE7"
definition ATA_CMD_IDENTIFY :: u8 where "ATA_CMD_IDENTIFY = 0xEC"
definition POLL_LIMIT :: nat where "POLL_LIMIT = 1000000"
definition ATA_MASTER :: nat where "ATA_MASTER = 0"
definition ATA_SLAVE :: nat where "ATA_SLAVE = 1"

record drive_info =
  present :: bool
  sectors :: u32
  model :: string

record 'd ata =
  hw :: 'd
  drives :: "drive_info list"

section \<open>Operations\<close>

subsection \<open>Polling\<close>

definition io_delay_400ns :: "'d ports \<Rightarrow> 'd \<Rightarrow> 'd" where
  "io_delay_400ns P d = ((\<lambda>d. snd (inb P ATA_CTRL_BASE d)) ^^ 4) d"

definition select_drive :: "'d ports \<Rightarrow> nat \<Rightarrow> u32 \<Rightarrow> 'd \<Rightarrow> 'd" where
  "select_drive P drive lba d =
     (let value = (if drive = ATA_SLAVE then 0xF0 else 0xE0) OR ucast (drop_bit 24 lba AND 0x0F)
      in io_delay_400ns P (outb P ATA_REG_DRIVE value d))"

primrec wait_not_busy_loop :: "'d ports \<Rightarrow> nat \<Rightarrow> 'd \<Rightarrow> int \<times> 'd" where
  "wait_not_busy_loop P 0 d = (-1, d)"
| "wait_not_busy_loop P (Suc n) d =
     (let (status, d) = inb P ATA_REG_STATUS d
      in if status AND ATA_SR_BSY = 0 then (0, d) else wait_not_busy_loop P n d)"

definition wait_not_busy :: "'d ports \<Rightarrow> 'd \<Rightarrow> int \<times> 'd" where
  "wait_not_busy P = wait_not_busy_loop P POLL_LIMIT"

primrec wait_drq_loop :: "'d ports \<Rightarrow> nat \<Rightarrow> 'd \<Rightarrow> int \<times> 'd" where
  "wait_drq_loop P 0 d = (-1, d)"
| "wait_drq_loop P (Suc n) d =
     (let (status, d) = inb P ATA_REG_STATUS d
      in if status AND (ATA_SR_ERR OR ATA_SR_DF) \<noteq> 0 then (-1, d)
         else if status AND ATA_SR_BSY = 0 \<and> status AND ATA_SR_DRQ \<noteq> 0 then (0, d)
         else wait_drq_loop P n d)"

definition wait_drq :: "'d ports \<Rightarrow> 'd \<Rightarrow> int \<times> 'd" where
  "wait_drq P = wait_drq_loop P POLL_LIMIT"

subsection \<open>Identification\<close>

fun blank_tail :: "nat \<Rightarrow> string \<Rightarrow> string" where
  "blank_tail 0 dst = dst"
| "blank_tail (Suc i) dst =
     (if dst ! i = CHR '' '' \<or> dst ! i = NUL then blank_tail i (dst[i := NUL]) else dst)"

definition copy_model :: "u16 list \<Rightarrow> string" where
  "copy_model ident =
     (let dst = concat (map (\<lambda>i. [char_of (unat (drop_bit 8 (ident ! (27 + i)))), char_of (unat (ident ! (27 + i) AND 0xFF))]) [0..<20]) @ [NUL]
      in blank_tail 40 dst)"

text \<open>The successive words of the data port, as the loops of the driver read and write them.\<close>

primrec read_words :: "'d ports \<Rightarrow> nat list \<Rightarrow> nat \<Rightarrow> u16 list \<Rightarrow> 'd \<Rightarrow> (u16 list \<times> 'd) option" where
  "read_words P [] base words d = Some (words, d)"
| "read_words P (i # is) base words d =
     (if base + i < length words
      then let (w, d) = inw P ATA_REG_DATA d in read_words P is base (words[base + i := w]) d
      else None)"

primrec write_words :: "'d ports \<Rightarrow> nat list \<Rightarrow> nat \<Rightarrow> u16 list \<Rightarrow> 'd \<Rightarrow> 'd option" where
  "write_words P [] base words d = Some d"
| "write_words P (i # is) base words d =
     (if base + i < length words then write_words P is base words (outw P ATA_REG_DATA (words ! (base + i)) d)
      else None)"

definition identify :: "'d ports \<Rightarrow> nat \<Rightarrow> 'd ata \<Rightarrow> 'd ata option" where
  "identify P drive s =
     (let info = drives s ! drive;
          s = s\<lparr>drives := (drives s)[drive := info\<lparr>present := False\<rparr>]\<rparr>;
          d = select_drive P drive 0 (hw s);
          d = outb P ATA_REG_SECCOUNT 0 d;
          d = outb P ATA_REG_LBA_LOW 0 d;
          d = outb P ATA_REG_LBA_MID 0 d;
          d = outb P ATA_REG_LBA_HIGH 0 d;
          d = outb P ATA_REG_COMMAND ATA_CMD_IDENTIFY d;
          d = io_delay_400ns P d;
          (status, d) = inb P ATA_REG_STATUS d
      in if status = 0 then Some (s\<lparr>hw := d\<rparr>)
         else let (rc, d) = wait_not_busy P d
         in if rc \<noteq> 0 then Some (s\<lparr>hw := d\<rparr>)
         else let (mid, d) = inb P ATA_REG_LBA_MID d
         in if mid \<noteq> 0 then Some (s\<lparr>hw := d\<rparr>)
         else let (high, d) = inb P ATA_REG_LBA_HIGH d
         in if high \<noteq> 0 then Some (s\<lparr>hw := d\<rparr>)
         else let (rc, d) = wait_drq P d
         in if rc \<noteq> 0 then Some (s\<lparr>hw := d\<rparr>)
         else do {
           (ident, d) \<leftarrow> read_words P [0..<256] 0 (replicate 256 0) d;
           let n = (ucast (ident ! 60) OR push_bit 16 (ucast (ident ! 61)) :: u32);
           let info = (drives s ! drive)\<lparr>sectors := n\<rparr>;
           Some (s\<lparr>hw := d, drives := (drives s)[drive :=
             (if n = 0 then info else info\<lparr>model := copy_model ident, present := True\<rparr>)]\<rparr>)
         })"

definition no_drive :: drive_info where
  "no_drive = \<lparr>present = False, sectors = 0, model = replicate 41 NUL\<rparr>"

definition ata_init :: "'d ports \<Rightarrow> 'd ata \<Rightarrow> 'd ata option" where
  "ata_init P s = do {
     let s = s\<lparr>drives := replicate 2 no_drive, hw := outb P ATA_CTRL_BASE 0x02 (hw s)\<rparr>;
     s \<leftarrow> identify P ATA_MASTER s;
     identify P ATA_SLAVE s
   }"

definition ata_present :: "nat \<Rightarrow> 'd ata \<Rightarrow> bool" where
  "ata_present drive s \<longleftrightarrow> drive \<le> ATA_SLAVE \<and> present (drives s ! drive)"

definition ata_sector_count :: "nat \<Rightarrow> 'd ata \<Rightarrow> u32" where
  "ata_sector_count drive s = (if ata_present drive s then sectors (drives s ! drive) else 0)"

definition ata_model :: "nat \<Rightarrow> 'd ata \<Rightarrow> string" where
  "ata_model drive s = (if ata_present drive s then takeWhile (\<lambda>c. c \<noteq> NUL) (model (drives s ! drive)) else [])"

subsection \<open>Transfers\<close>

primrec sector_loop :: "'d ports \<Rightarrow> bool \<Rightarrow> nat list \<Rightarrow> nat \<Rightarrow> u16 list \<Rightarrow> 'd \<Rightarrow> (int \<times> u16 list \<times> 'd) option" where
  "sector_loop P writing [] base words d = Some (0, words, d)"
| "sector_loop P writing (i # is) base words d =
     (let (rc, d) = wait_drq P d
      in if rc \<noteq> 0 then Some (-1, words, d)
         else if writing then do {
           d \<leftarrow> write_words P [0..<256] (base + i * 256) words d;
           sector_loop P writing is base words d
         } else do {
           (words, d) \<leftarrow> read_words P [0..<256] (base + i * 256) words d;
           sector_loop P writing is base words d
         })"

definition transfer_chunk ::
  "'d ports \<Rightarrow> nat \<Rightarrow> u32 \<Rightarrow> u8 \<Rightarrow> nat \<Rightarrow> u16 list \<Rightarrow> bool \<Rightarrow> 'd \<Rightarrow> (int \<times> u16 list \<times> 'd) option" where
  "transfer_chunk P drive lba count base words writing d =
     (let (rc, d) = wait_not_busy P d
      in if rc \<noteq> 0 then Some (-1, words, d)
         else let
           d = select_drive P drive lba d;
           d = outb P ATA_REG_FEATURES 0 d;
           d = outb P ATA_REG_SECCOUNT count d;
           d = outb P ATA_REG_LBA_LOW (ucast (lba AND 0xFF)) d;
           d = outb P ATA_REG_LBA_MID (ucast (drop_bit 8 lba AND 0xFF)) d;
           d = outb P ATA_REG_LBA_HIGH (ucast (drop_bit 16 lba AND 0xFF)) d;
           d = outb P ATA_REG_COMMAND (if writing then ATA_CMD_WRITE_PIO else ATA_CMD_READ_PIO) d
         in do {
           (rc, words, d) \<leftarrow> sector_loop P writing [0..<(if count = 0 then 256 else unat count)] base words d;
           if rc \<noteq> 0 then Some (-1, words, d)
           else if \<not> writing then Some (0, words, d)
           else let (rc, d) = wait_not_busy P d
           in if rc \<noteq> 0 then Some (-1, words, d)
           else let d = outb P ATA_REG_COMMAND ATA_CMD_CACHE_FLUSH d; (rc, d) = wait_not_busy P d
           in if rc \<noteq> 0 then Some (-1, words, d) else Some (0, words, d)
         })"

function transfer_loop ::
  "'d ports \<Rightarrow> nat \<Rightarrow> u32 \<Rightarrow> u32 \<Rightarrow> nat \<Rightarrow> u16 list \<Rightarrow> bool \<Rightarrow> 'd \<Rightarrow> (int \<times> u16 list \<times> 'd) option" where
  "transfer_loop P drive lba count base words writing d =
     (if count = 0 then Some (0, words, d)
      else let chunk = (if count > 255 then 255 else count)
      in do {
        (rc, words, d) \<leftarrow> transfer_chunk P drive lba (ucast chunk) base words writing d;
        if rc \<noteq> 0 then Some (-1, words, d)
        else transfer_loop P drive (lba + chunk) (count - chunk) (base + unat chunk * 256) words writing d
      })"
  by pat_completeness auto
termination
proof (relation "measure (\<lambda>(P, drive, lba, count, base, words, writing, d). unat count)", goal_cases)
  case 1
  then show ?case by simp
next
  case (2 P drive lba count base words writing d chunk)
  then have "unat chunk \<le> unat count" "chunk \<noteq> 0" by (auto split: if_splits simp: word_le_nat_alt word_less_nat_alt)
  then have "unat (count - chunk) < unat count"
    by (metis unat_minus_exact diff_less unat_gt_0 order_less_le_trans)
  then show ?case by simp
qed

declare transfer_loop.simps [simp del]

definition transfer ::
  "'d ports \<Rightarrow> nat \<Rightarrow> u32 \<Rightarrow> u32 \<Rightarrow> u16 list \<Rightarrow> bool \<Rightarrow> 'd ata \<Rightarrow> (int \<times> u16 list \<times> 'd ata) option" where
  "transfer P drive lba count words writing s =
     (if \<not> ata_present drive s then Some (-1, words, s)
      else if count = 0 then Some (0, words, s)
      else if lba + count > sectors (drives s ! drive) then Some (-1, words, s)
      else do {
        (rc, words, d) \<leftarrow> transfer_loop P drive lba count 0 words writing (hw s);
        Some (rc, words, s\<lparr>hw := d\<rparr>)
      })"

definition ata_read :: "'d ports \<Rightarrow> nat \<Rightarrow> u32 \<Rightarrow> u32 \<Rightarrow> u16 list \<Rightarrow> 'd ata \<Rightarrow> (int \<times> u16 list \<times> 'd ata) option" where
  "ata_read P drive lba count buffer s = transfer P drive lba count buffer False s"

definition ata_write :: "'d ports \<Rightarrow> nat \<Rightarrow> u32 \<Rightarrow> u32 \<Rightarrow> u16 list \<Rightarrow> 'd ata \<Rightarrow> (int \<times> 'd ata) option" where
  "ata_write P drive lba count buffer s = do {
     (rc, words, s) \<leftarrow> transfer P drive lba count buffer True s;
     Some (rc, s)
   }"

end
