(* ===== verification/Ata_Spec.thy ===== *)
theory Ata_Spec
  imports Ata
begin

text \<open>
  What a pair of ATA drives does at its ports, as the ATA standard documents it, and what the
  driver achieves on such drives: identification, and reads and writes of whole sectors.
\<close>

section \<open>The drives\<close>

text \<open>
  The state of the drives as the standard describes it: the register file, the identification
  data of each drive (\<open>None\<close> for an empty slot), the contents of its sectors, and the transfer
  under way.  \<open>DataIn ws ss\<close> has the words \<open>ws\<close> of the current sector and the sectors \<open>ss\<close> still
  to be read; \<open>DataOut lba n ws\<close> has taken the words \<open>ws\<close> of the first of \<open>n\<close> sectors.
\<close>

datatype phase = Idle | DataIn "u16 list" "u16 list list" | DataOut nat nat "u16 list"

record ata_view =
  v_drive :: u8
  v_count :: u8
  v_low :: u8
  v_mid :: u8
  v_high :: u8
  v_ident :: "nat \<Rightarrow> u16 list option"
  v_media :: "nat \<Rightarrow> nat \<Rightarrow> u16 list"
  v_phase :: phase

definition v_sel :: "ata_view \<Rightarrow> nat" where
  "v_sel v = (if v_drive v AND 0x10 = 0 then 0 else 1)"

definition v_lba :: "ata_view \<Rightarrow> nat" where
  "v_lba v = unat (v_drive v AND 0x0F) * 16777216 + unat (v_high v) * 65536 + unat (v_mid v) * 256 + unat (v_low v)"

definition v_n :: "ata_view \<Rightarrow> nat" where
  "v_n v = (if v_count v = 0 then 256 else unat (v_count v))"

definition ident_sectors :: "u16 list \<Rightarrow> u32" where
  "ident_sectors ident = ucast (ident ! 60) OR push_bit 16 (ucast (ident ! 61))"

definition v_size :: "ata_view \<Rightarrow> nat \<Rightarrow> nat" where
  "v_size v drive = (case v_ident v drive of None \<Rightarrow> 0 | Some ident \<Rightarrow> unat (ident_sectors ident))"

definition spec_reg :: "u16 \<Rightarrow> u8 \<Rightarrow> ata_view \<Rightarrow> ata_view" where
  "spec_reg p x v =
     (if p = 0x1F2 then v\<lparr>v_count := x\<rparr> else if p = 0x1F3 then v\<lparr>v_low := x\<rparr>
      else if p = 0x1F4 then v\<lparr>v_mid := x\<rparr> else if p = 0x1F5 then v\<lparr>v_high := x\<rparr>
      else if p = 0x1F6 then v\<lparr>v_drive := x\<rparr> else v)"

definition start_in :: "u16 list list \<Rightarrow> ata_view \<Rightarrow> ata_view" where
  "start_in ss v = v\<lparr>v_phase := (case ss of [] \<Rightarrow> Idle | s # ss \<Rightarrow> DataIn s ss)\<rparr>"

definition spec_command :: "u8 \<Rightarrow> ata_view \<Rightarrow> ata_view" where
  "spec_command x v =
     (case v_ident v (v_sel v) of
        None \<Rightarrow> v
      | Some ident \<Rightarrow>
          if x = 0x20 then start_in (map (v_media v (v_sel v)) [v_lba v..<v_lba v + v_n v]) v
          else if x = 0x30 then v\<lparr>v_phase := DataOut (v_lba v) (v_n v) []\<rparr>
          else if x = 0xEC then start_in [ident] v
          else v)"

definition spec_in :: "ata_view \<Rightarrow> u16 \<times> ata_view" where
  "spec_in v =
     (case v_phase v of
        DataIn (w # ws) ss \<Rightarrow> (w, if ws \<noteq> [] then v\<lparr>v_phase := DataIn ws ss\<rparr> else start_in ss v)
      | _ \<Rightarrow> (0, v))"

definition put_sector :: "nat \<Rightarrow> u16 list \<Rightarrow> (nat \<Rightarrow> u16 list) \<Rightarrow> nat \<Rightarrow> u16 list" where
  "put_sector lba ws m = m(lba := ws)"

definition on_media :: "nat \<Rightarrow> ((nat \<Rightarrow> u16 list) \<Rightarrow> nat \<Rightarrow> u16 list) \<Rightarrow> ata_view \<Rightarrow> ata_view" where
  "on_media drive f v = v\<lparr>v_media := (v_media v)(drive := f (v_media v drive))\<rparr>"

definition spec_out :: "u16 \<Rightarrow> ata_view \<Rightarrow> ata_view" where
  "spec_out w v =
     (case v_phase v of
        DataOut lba n ws \<Rightarrow>
          if length ws < 255 then v\<lparr>v_phase := DataOut lba n (ws @ [w])\<rparr>
          else (on_media (v_sel v) (put_sector lba (ws @ [w])) v)
                 \<lparr>v_phase := (if n \<le> 1 then Idle else DataOut (lba + 1) (n - 1) [])\<rparr>
      | _ \<Rightarrow> v)"

definition view_ok :: "ata_view \<Rightarrow> bool" where
  "view_ok v \<longleftrightarrow> (\<forall>drive lba. length (v_media v drive lba) = 256) \<and>
     (\<forall>drive ident. v_ident v drive = Some ident \<longrightarrow> length ident = 256 \<and> unat (ident_sectors ident) < 268435456) \<and>
     (\<forall>lba n ws. v_phase v = DataOut lba n ws \<longrightarrow> length ws < 256)"

text \<open>
  The status register: only BSY counts while the drive is busy, the other bits may be anything; a ready
  drive reports neither an error nor a fault, and DRQ exactly while it transfers; an empty slot reads
  as zero.
\<close>

definition status_ok :: "ata_view \<Rightarrow> nat \<Rightarrow> u8 \<Rightarrow> bool" where
  "status_ok v busy st \<longleftrightarrow>
     (if 0 < busy then st AND 0x80 \<noteq> 0
      else if v_ident v (v_sel v) = None then st = 0
      else st AND 0x80 = 0 \<and> st AND 0x21 = 0 \<and> st \<noteq> 0 \<and> (st AND 0x08 \<noteq> 0) = (v_phase v \<noteq> Idle))"

text \<open>
  \<open>busy d\<close> bounds the status reads until BSY clears.  Reading the status, also through the
  alternate register, changes nothing else.  An empty slot is never busy.
\<close>

definition status_law :: "'d ports \<Rightarrow> ('d \<Rightarrow> ata_view) \<Rightarrow> ('d \<Rightarrow> nat) \<Rightarrow> bool" where
  "status_law P view busy \<longleftrightarrow>
     (\<forall>d. status_ok (view d) (busy d) (fst (inb P 0x1F7 d)) \<and> view (snd (inb P 0x1F7 d)) = view d \<and>
        (0 < busy d \<longrightarrow> busy (snd (inb P 0x1F7 d)) < busy d) \<and> (busy d = 0 \<longrightarrow> busy (snd (inb P 0x1F7 d)) = 0)) \<and>
     (\<forall>d. view (snd (inb P 0x3F6 d)) = view d \<and> busy (snd (inb P 0x3F6 d)) \<le> busy d) \<and>
     (\<forall>d. v_ident (view d) (v_sel (view d)) = None \<longrightarrow> busy d = 0)"

text \<open>A drive that is ready and not transferring keeps what is stored into its registers.\<close>

definition register_law :: "'d ports \<Rightarrow> ('d \<Rightarrow> ata_view) \<Rightarrow> ('d \<Rightarrow> nat) \<Rightarrow> bool" where
  "register_law P view busy \<longleftrightarrow>
     (\<forall>d. busy d = 0 \<longrightarrow> fst (inb P 0x1F4 d) = v_mid (view d) \<and> view (snd (inb P 0x1F4 d)) = view d \<and> busy (snd (inb P 0x1F4 d)) = 0) \<and>
     (\<forall>d. busy d = 0 \<longrightarrow> fst (inb P 0x1F5 d) = v_high (view d) \<and> view (snd (inb P 0x1F5 d)) = view d \<and> busy (snd (inb P 0x1F5 d)) = 0) \<and>
     (\<forall>d p x. busy d = 0 \<longrightarrow> v_phase (view d) = Idle \<longrightarrow> p \<in> {0x1F1, 0x1F2, 0x1F3, 0x1F4, 0x1F5, 0x1F6, 0x3F6} \<longrightarrow>
        view (outb P p x d) = spec_reg p x (view d) \<and> busy (outb P p x d) = 0)"

text \<open>It accepts commands; a transfer has to lie within the drive.\<close>

definition command_law :: "'d ports \<Rightarrow> ('d \<Rightarrow> ata_view) \<Rightarrow> ('d \<Rightarrow> nat) \<Rightarrow> bool" where
  "command_law P view busy \<longleftrightarrow>
     (\<forall>d x. busy d = 0 \<longrightarrow> v_phase (view d) = Idle \<longrightarrow> x \<in> {0x20, 0x30, 0xE7, 0xEC} \<longrightarrow>
        (x \<in> {0x20, 0x30} \<longrightarrow> v_lba (view d) + v_n (view d) \<le> v_size (view d) (v_sel (view d))) \<longrightarrow>
        view (outb P 0x1F7 x d) = spec_command x (view d))"

text \<open>It hands out and takes the words of a sector without a pause, but may be busy after each
  sector but the last that is read.\<close>

definition data_law :: "'d ports \<Rightarrow> ('d \<Rightarrow> ata_view) \<Rightarrow> ('d \<Rightarrow> nat) \<Rightarrow> bool" where
  "data_law P view busy \<longleftrightarrow>
     (\<forall>d w ws ss. busy d = 0 \<longrightarrow> v_phase (view d) = DataIn (w # ws) ss \<longrightarrow>
        fst (inw P 0x1F0 d) = w \<and> view (snd (inw P 0x1F0 d)) = snd (spec_in (view d)) \<and>
        (ws \<noteq> [] \<or> ss = [] \<longrightarrow> busy (snd (inw P 0x1F0 d)) = 0)) \<and>
     (\<forall>d lba n ws x. busy d = 0 \<longrightarrow> v_phase (view d) = DataOut lba n ws \<longrightarrow>
        view (outw P 0x1F0 x d) = spec_out x (view d) \<and> (length ws < 255 \<longrightarrow> busy (outw P 0x1F0 x d) = 0))"

text \<open>
  \<open>documented P view busy\<close>: through the ports \<open>P\<close> the hardware behaves like the drives \<open>view\<close> as the
  standard documents them, and is never busy for longer than the poll limit.  \<open>steady P busy\<close> is more
  than the standard promises: ERR and DF read as zero also while a drive is busy, when \<open>wait_drq\<close>
  already looks at them.  \<open>healthy\<close> drives are both.
\<close>

definition documented :: "'d ports \<Rightarrow> ('d \<Rightarrow> ata_view) \<Rightarrow> ('d \<Rightarrow> nat) \<Rightarrow> bool" where
  "documented P view busy \<longleftrightarrow> (\<forall>d. view_ok (view d) \<and> busy d < POLL_LIMIT) \<and>
     status_law P view busy \<and> register_law P view busy \<and> command_law P view busy \<and> data_law P view busy"

definition steady :: "'d ports \<Rightarrow> ('d \<Rightarrow> nat) \<Rightarrow> bool" where
  "steady P busy \<longleftrightarrow> (\<forall>d. 0 < busy d \<longrightarrow> fst (inb P 0x1F7 d) AND 0x21 = 0)"

definition healthy :: "'d ports \<Rightarrow> ('d \<Rightarrow> ata_view) \<Rightarrow> ('d \<Rightarrow> nat) \<Rightarrow> bool" where
  "healthy P view busy \<longleftrightarrow> documented P view busy \<and> steady P busy"

lemmas ata_ports = ATA_CTRL_BASE_def ATA_REG_DATA_def ATA_REG_FEATURES_def ATA_REG_SECCOUNT_def
  ATA_REG_LBA_LOW_def ATA_REG_LBA_MID_def ATA_REG_LBA_HIGH_def ATA_REG_DRIVE_def ATA_REG_STATUS_def
  ATA_REG_COMMAND_def ATA_SR_BSY_def ATA_SR_DF_def ATA_SR_DRQ_def ATA_SR_ERR_def
  ATA_CMD_READ_PIO_def ATA_CMD_WRITE_PIO_def ATA_CMD_CACHE_FLUSH_def ATA_CMD_IDENTIFY_def

section \<open>Polling\<close>

lemma healthy_view [simp]: "healthy P view busy \<Longrightarrow> view_ok (view d)"
  by (simp add: healthy_def documented_def)

lemma healthy_status:
  assumes "healthy P view busy" "inb P 0x1F7 d = (st, d')"
  shows "status_ok (view d) (busy d) st" "view d' = view d"
    and "0 < busy d \<Longrightarrow> busy d' < busy d" "busy d = 0 \<Longrightarrow> busy d' = 0"
  using assms unfolding healthy_def documented_def status_law_def by (metis fst_conv snd_conv)+

lemma healthy_steady: "healthy P view busy \<Longrightarrow> 0 < busy d \<Longrightarrow> inb P 0x1F7 d = (st, d') \<Longrightarrow> st AND 0x21 = 0"
  unfolding healthy_def steady_def by (metis fst_conv)

lemma healthy_delay:
  assumes "healthy P view busy"
  shows "view (io_delay_400ns P d) = view d \<and> busy (io_delay_400ns P d) \<le> busy d"
proof -
  have "view (((\<lambda>d. snd (inb P ATA_CTRL_BASE d)) ^^ n) d) = view d \<and>
     busy (((\<lambda>d. snd (inb P ATA_CTRL_BASE d)) ^^ n) d) \<le> busy d" for n
  proof (induction n)
    case (Suc n)
    have "view (snd (inb P ATA_CTRL_BASE d)) = view d \<and> busy (snd (inb P ATA_CTRL_BASE d)) \<le> busy d" for d
      using assms by (simp add: healthy_def documented_def status_law_def ATA_CTRL_BASE_def)
    with Suc show ?case by (simp, meson order_trans)
  qed simp
  then show ?thesis by (simp only: io_delay_400ns_def)
qed

lemma wait_not_busy_loop_ok:
  "healthy P view busy \<Longrightarrow> busy d < n \<Longrightarrow>
     \<exists>d'. wait_not_busy_loop P n d = (0, d') \<and> view d' = view d \<and> busy d' = 0"
proof (induction n arbitrary: d)
  case (Suc n)
  obtain st d1 where i: "inb P 0x1F7 d = (st, d1)" by force
  note s = healthy_status [OF Suc.prems(1) i]
  show ?case
  proof (cases "busy d = 0")
    case True
    with s have "st AND 0x80 = 0" by (auto simp: status_ok_def split: if_splits)
    with i s True show ?thesis by (simp add: ata_ports)
  next
    case False
    with s(1) have b: "st AND 0x80 \<noteq> 0" by (simp add: status_ok_def)
    from False s(3) Suc.prems(2) have "busy d1 < n" by simp
    from Suc.IH [OF Suc.prems(1) this] i b s(2) show ?thesis by (simp add: ata_ports)
  qed
qed simp

lemma wait_not_busy_ok:
  "healthy P view busy \<Longrightarrow> \<exists>d'. wait_not_busy P d = (0, d') \<and> view d' = view d \<and> busy d' = 0"
  using wait_not_busy_loop_ok [of P view busy d POLL_LIMIT] by (simp add: wait_not_busy_def healthy_def documented_def)

lemma wait_drq_loop_ok:
  "healthy P view busy \<Longrightarrow> busy d < n \<Longrightarrow> v_ident (view d) (v_sel (view d)) \<noteq> None \<Longrightarrow> v_phase (view d) \<noteq> Idle \<Longrightarrow>
     \<exists>d'. wait_drq_loop P n d = (0, d') \<and> view d' = view d \<and> busy d' = 0"
proof (induction n arbitrary: d)
  case (Suc n)
  obtain st d1 where i: "inb P 0x1F7 d = (st, d1)" by force
  note s = healthy_status [OF Suc.prems(1) i]
  show ?case
  proof (cases "busy d = 0")
    case True
    with s(1) Suc.prems(3,4) have "st AND 0x80 = 0" "st AND 0x21 = 0" "st AND 0x08 \<noteq> 0" by (auto simp: status_ok_def)
    with i s True show ?thesis by (simp add: ata_ports)
  next
    case False
    with s(1) healthy_steady [OF Suc.prems(1) _ i] have b: "st AND 0x80 \<noteq> 0" "st AND 0x21 = 0" by (simp_all add: status_ok_def)
    from False s(3) Suc.prems(2) have "busy d1 < n" by simp
    from Suc.IH [OF Suc.prems(1) this] i b s(2) Suc.prems(3,4) show ?thesis by (simp add: ata_ports)
  qed
qed simp

lemma wait_drq_ok:
  assumes "healthy P view busy" "v_ident (view d) (v_sel (view d)) \<noteq> None" "v_phase (view d) \<noteq> Idle"
  shows "\<exists>d'. wait_drq P d = (0, d') \<and> view d' = view d \<and> busy d' = 0"
  using wait_drq_loop_ok [OF assms(1) _ assms(2,3), of POLL_LIMIT] assms(1) by (simp add: wait_drq_def healthy_def documented_def)

section \<open>Registers\<close>

lemma reg_write:
  assumes "healthy P view busy" "busy d = 0" "v_phase (view d) = Idle" "p \<in> {0x1F1, 0x1F2, 0x1F3, 0x1F4, 0x1F5, 0x1F6, 0x3F6}"
  shows "view (outb P p x d) = spec_reg p x (view d) \<and> busy (outb P p x d) = 0"
proof -
  from assms(1) have "\<forall>d p x. busy d = 0 \<longrightarrow> v_phase (view d) = Idle \<longrightarrow> p \<in> {0x1F1, 0x1F2, 0x1F3, 0x1F4, 0x1F5, 0x1F6, 0x3F6} \<longrightarrow>
        view (outb P p x d) = spec_reg p x (view d) \<and> busy (outb P p x d) = 0"
    unfolding healthy_def documented_def register_law_def by (elim conjE)
  from this [rule_format, OF assms(2-4)] show ?thesis .
qed

lemma select_ok:
  assumes "healthy P view busy" "busy d = 0" "v_phase (view d) = Idle"
  shows "view (select_drive P drive lba d) =
      (view d)\<lparr>v_drive := (if drive = 1 then 0xF0 else 0xE0) OR ucast (drop_bit 24 lba AND 0x0F)\<rparr> \<and>
    busy (select_drive P drive lba d) = 0"
proof -
  let ?x = "(if drive = 1 then 0xF0 else 0xE0) OR ucast (drop_bit 24 lba AND 0x0F) :: u8"
  have "view (outb P 0x1F6 ?x d) = spec_reg 0x1F6 ?x (view d) \<and> busy (outb P 0x1F6 ?x d) = 0"
    by (rule reg_write [OF assms]) simp
  with healthy_delay [OF assms(1), of "outb P 0x1F6 ?x d"] show ?thesis
    by (simp only: select_drive_def ata_ports ATA_SLAVE_def spec_reg_def Let_def) simp
qed

lemma drive_reg:
  fixes x :: u8
  assumes "x = ucast (y AND 0x0F :: u32)"
  shows "(0xF0 OR x) AND 0x0F = x" "(0xE0 OR x) AND 0x0F = x" "(0xF0 OR x) AND 0x10 = 0x10" "(0xE0 OR x) AND 0x10 = 0"
proof -
  have x: "x = ucast y AND 0x0F" unfolding assms by (simp add: unsigned_and_eq)
  show "(0xF0 OR x) AND 0x0F = x" "(0xE0 OR x) AND 0x0F = x" "(0xF0 OR x) AND 0x10 = 0x10" "(0xE0 OR x) AND 0x10 = 0"
    unfolding x by (simp_all add: bit.conj_disj_distrib2 and.assoc)
qed

lemma split_lba:
  fixes lba :: u32
  assumes "unat lba < 268435456"
  shows "unat (ucast (drop_bit 24 lba AND 0x0F) :: u8) * 16777216 + unat (ucast (drop_bit 16 lba AND 0xFF) :: u8) * 65536 +
     unat (ucast (drop_bit 8 lba AND 0xFF) :: u8) * 256 + unat (ucast (lba AND 0xFF) :: u8) = unat lba"
proof -
  have byte: "unat (ucast (drop_bit n lba AND 0xFF) :: u8) = unat lba div 2 ^ n mod 256" for n
  proof -
    have m: "(0xFF :: u32) = mask 8" by (simp add: mask_eq_exp_minus_1)
    have "(ucast (drop_bit n lba AND mask 8) :: u8) = ucast (drop_bit n lba)" by (auto intro!: bit_word_eqI simp: bit_simps)
    then have "unat (ucast (drop_bit n lba AND mask 8) :: u8) = take_bit LENGTH(8) (unat (drop_bit n lba))"
      by (simp only: unsigned_ucast_eq)
    also have "\<dots> = unat lba div 2 ^ n mod 256"
      by (simp only: unat_drop_bit_eq) (simp add: take_bit_eq_mod drop_bit_eq_div)
    finally show ?thesis unfolding m .
  qed
  have nib: "unat (ucast (drop_bit 24 lba AND 0x0F) :: u8) = unat lba div 2 ^ 24"
  proof -
    have m: "(0x0F :: u32) = mask 4" by (simp add: mask_eq_exp_minus_1)
    have "unat (drop_bit 24 lba AND mask 4) = unat lba div 2 ^ 24 mod 16"
      by (simp only: take_bit_eq_mask [symmetric] unsigned_take_bit_eq unat_drop_bit_eq) (simp add: take_bit_eq_mod drop_bit_eq_div)
    then have "unat (drop_bit 24 lba AND mask 4) = unat lba div 2 ^ 24" using assms by simp
    then show ?thesis unfolding m using assms by (simp add: unsigned_ucast_eq take_bit_eq_mod)
  qed
  have digits: "x div 16777216 * 16777216 + x div 65536 mod 256 * 65536 + x div 256 mod 256 * 256 + x mod 256 = x" for x :: nat
  proof -
    have sum: "c3 * 16777216 + m2 * 65536 + m1 * 256 + m0 = x"
      if "c3 * 256 + m2 = c2" "c2 * 256 + m1 = c1" "c1 * 256 + m0 = x" for c1 c2 c3 m0 m1 m2 :: nat using that by simp
    have "x div 65536 = x div 256 div 256" "x div 16777216 = x div 256 div 256 div 256" by (simp_all only: div_mult2_eq [symmetric]) simp_all
    then show ?thesis using sum [OF div_mult_mod_eq div_mult_mod_eq div_mult_mod_eq] by simp
  qed
  from byte [of 0] byte [of 8] byte [of 16] nib digits [of "unat lba"] show ?thesis by simp
qed

text \<open>The register file with a drive, a sector and a count selected.\<close>

definition addressed :: "nat \<Rightarrow> u32 \<Rightarrow> u8 \<Rightarrow> ata_view \<Rightarrow> ata_view" where
  "addressed drive lba count v =
     v\<lparr>v_drive := (if drive = 1 then 0xF0 else 0xE0) OR ucast (drop_bit 24 lba AND 0x0F), v_count := count,
       v_low := ucast (lba AND 0xFF), v_mid := ucast (drop_bit 8 lba AND 0xFF), v_high := ucast (drop_bit 16 lba AND 0xFF)\<rparr>"

lemma addressed_fields [simp]:
  "v_ident (addressed drive lba count v) = v_ident v" "v_media (addressed drive lba count v) = v_media v"
  "v_phase (addressed drive lba count v) = v_phase v" "v_count (addressed drive lba count v) = count"
  "drive \<le> 1 \<Longrightarrow> v_sel (addressed drive lba count v) = drive"
  "unat lba < 268435456 \<Longrightarrow> v_lba (addressed drive lba count v) = unat lba"
  "v_n (addressed drive lba count v) = (if count = 0 then 256 else unat count)"
proof -
  let ?x = "ucast (drop_bit 24 lba AND 0x0F) :: u8"
  note x = drive_reg [of ?x, OF refl]
  show "drive \<le> 1 \<Longrightarrow> v_sel (addressed drive lba count v) = drive"
    using x by (cases "drive = 1") (auto simp: addressed_def v_sel_def)
  show "v_lba (addressed drive lba count v) = unat lba" if "unat lba < 268435456"
    using split_lba [OF that] x by (cases "drive = 1") (auto simp: addressed_def v_lba_def)
qed (simp_all add: addressed_def v_n_def)

lemma setup_ok:
  assumes h: "healthy P view busy" and i: "busy d = 0" "v_phase (view d) = Idle"
  shows "view (outb P 0x1F5 (ucast (drop_bit 16 lba AND 0xFF)) (outb P 0x1F4 (ucast (drop_bit 8 lba AND 0xFF))
      (outb P 0x1F3 (ucast (lba AND 0xFF)) (outb P 0x1F2 count (outb P 0x1F1 0 (select_drive P drive lba d)))))) =
      addressed drive lba count (view d) \<and>
    busy (outb P 0x1F5 (ucast (drop_bit 16 lba AND 0xFF)) (outb P 0x1F4 (ucast (drop_bit 8 lba AND 0xFF))
      (outb P 0x1F3 (ucast (lba AND 0xFF)) (outb P 0x1F2 count (outb P 0x1F1 0 (select_drive P drive lba d)))))) = 0"
proof -
  let ?d1 = "select_drive P drive lba d"
  let ?d2 = "outb P 0x1F1 0 ?d1"
  let ?d3 = "outb P 0x1F2 count ?d2"
  let ?d4 = "outb P 0x1F3 (ucast (lba AND 0xFF)) ?d3"
  let ?d5 = "outb P 0x1F4 (ucast (drop_bit 8 lba AND 0xFF)) ?d4"
  let ?d6 = "outb P 0x1F5 (ucast (drop_bit 16 lba AND 0xFF)) ?d5"
  have 1: "view ?d1 = (view d)\<lparr>v_drive := (if drive = 1 then 0xF0 else 0xE0) OR ucast (drop_bit 24 lba AND 0x0F)\<rparr>" "busy ?d1 = 0"
    using select_ok [OF h i, of drive lba] by auto
  have 2: "view ?d2 = view ?d1" "busy ?d2 = 0"
    using reg_write [OF h 1(2), of "0x1F1" 0] 1 i(2) by (simp_all add: spec_reg_def)
  have 3: "view ?d3 = (view ?d1)\<lparr>v_count := count\<rparr>" "busy ?d3 = 0"
    using reg_write [OF h 2(2), of "0x1F2" count] 1 2 i(2) by (simp_all add: spec_reg_def)
  have 4: "view ?d4 = (view ?d3)\<lparr>v_low := ucast (lba AND 0xFF)\<rparr>" "busy ?d4 = 0"
    using reg_write [OF h 3(2), of "0x1F3"] 1 3 i(2) by (simp_all add: spec_reg_def)
  have 5: "view ?d5 = (view ?d4)\<lparr>v_mid := ucast (drop_bit 8 lba AND 0xFF)\<rparr>" "busy ?d5 = 0"
    using reg_write [OF h 4(2), of "0x1F4"] 1 3 4 i(2) by (simp_all add: spec_reg_def)
  have 6: "view ?d6 = (view ?d5)\<lparr>v_high := ucast (drop_bit 16 lba AND 0xFF)\<rparr>" "busy ?d6 = 0"
    using reg_write [OF h 5(2), of "0x1F5"] 1 3 4 5 i(2) by (simp_all add: spec_reg_def)
  from 1 3 4 5 6 show "view ?d6 = addressed drive lba count (view d) \<and> busy ?d6 = 0" by (simp add: addressed_def)
qed

section \<open>Data\<close>

lemma start_in_same [simp]: "start_in ss (v\<lparr>v_phase := x\<rparr>) = start_in ss v"
  by (simp add: start_in_def)

lemma word_in:
  assumes "healthy P view busy" "busy d = 0" "v_phase (view d) = DataIn (w # ws) ss"
  obtains d' where "inw P 0x1F0 d = (w, d')" "view d' = (if ws \<noteq> [] then (view d)\<lparr>v_phase := DataIn ws ss\<rparr> else start_in ss (view d))"
    "ws \<noteq> [] \<or> ss = [] \<Longrightarrow> busy d' = 0"
proof -
  from assms(1) have "\<forall>d w ws ss. busy d = 0 \<longrightarrow> v_phase (view d) = DataIn (w # ws) ss \<longrightarrow>
        fst (inw P 0x1F0 d) = w \<and> view (snd (inw P 0x1F0 d)) = snd (spec_in (view d)) \<and>
        (ws \<noteq> [] \<or> ss = [] \<longrightarrow> busy (snd (inw P 0x1F0 d)) = 0)" unfolding healthy_def documented_def data_law_def by (elim conjE)
  from this [rule_format, OF assms(2,3)] assms(3) that [of "snd (inw P 0x1F0 d)"] show thesis
    by (auto simp: spec_in_def prod_eq_iff)
qed

lemma read_words_ok:
  "healthy P view busy \<Longrightarrow> busy d = 0 \<Longrightarrow> v_phase (view d) = DataIn ws ss \<Longrightarrow> ws \<noteq> [] \<Longrightarrow>
     base + k + length ws \<le> length words \<Longrightarrow>
     \<exists>d'. read_words P [k..<k + length ws] base words d =
         Some (take (base + k) words @ ws @ drop (base + k + length ws) words, d') \<and> view d' = start_in ss (view d) \<and>
       (ss = [] \<longrightarrow> busy d' = 0)"
proof (induction ws arbitrary: k d words)
  case (Cons w ws)
  obtain d1 where i: "inw P 0x1F0 d = (w, d1)"
    "view d1 = (if ws \<noteq> [] then (view d)\<lparr>v_phase := DataIn ws ss\<rparr> else start_in ss (view d))"
    "ws \<noteq> [] \<or> ss = [] \<Longrightarrow> busy d1 = 0"
    using word_in [OF Cons.prems(1-3)] by blast
  have u: "[k..<k + length (w # ws)] = k # [Suc k..<Suc k + length ws]" by (subst upt_conv_Cons) simp_all
  have r: "read_words P [k..<k + length (w # ws)] base words d =
      read_words P [Suc k..<Suc k + length ws] base (words[base + k := w]) d1"
    unfolding u using Cons.prems(5) i(1) by (simp add: ATA_REG_DATA_def)
  have s: "words[base + k := w] = take (base + k) words @ w # drop (Suc (base + k)) words"
    using Cons.prems(5) by (simp add: upd_conv_take_nth_drop)
  show ?case
  proof (cases "ws = []")
    case True
    with r i(2,3) s show ?thesis by simp
  next
    case False
    from Cons.IH [OF Cons.prems(1) i(3) [OF disjI1 [OF False]] _ False, of "Suc k" "words[base + k := w]"] i(2) False Cons.prems(5)
    obtain d2 where "read_words P [Suc k..<Suc k + length ws] base (words[base + k := w]) d1 =
         Some (take (base + Suc k) (words[base + k := w]) @ ws @ drop (base + Suc k + length ws) (words[base + k := w]), d2)"
      "view d2 = start_in ss (view d1)" "ss = [] \<longrightarrow> busy d2 = 0" by auto
    moreover have "take (base + Suc k) (words[base + k := w]) = take (base + k) words @ [w]"
      using Cons.prems(5) by (simp add: take_Suc_conv_app_nth)
    ultimately show ?thesis using r i(2) False by simp
  qed
qed simp

lemma on_media_fields [simp]:
  "v_ident (on_media drive f v) = v_ident v" "v_phase (on_media drive f v) = v_phase v" "v_sel (on_media drive f v) = v_sel v"
  "v_sel (v\<lparr>v_phase := x\<rparr>) = v_sel v"
  "on_media drive f (v\<lparr>v_phase := x\<rparr>) = (on_media drive f v)\<lparr>v_phase := x\<rparr>"
  "on_media drive f (on_media drive g v) = on_media drive (f \<circ> g) v"
  by (simp_all add: on_media_def v_sel_def)

lemma on_media_id [simp]: "on_media drive (\<lambda>m. m) v = v"
  by (simp add: on_media_def)

lemma v_media_on [simp]: "v_media (on_media drive f v) = (v_media v)(drive := f (v_media v drive))"
  by (simp add: on_media_def)

lemma word_out:
  assumes "healthy P view busy" "busy d = 0" "v_phase (view d) = DataOut lba n ws"
  shows "view (outw P 0x1F0 x d) = spec_out x (view d)" "length ws < 255 \<Longrightarrow> busy (outw P 0x1F0 x d) = 0"
proof -
  from assms(1) have "\<forall>d lba n ws x. busy d = 0 \<longrightarrow> v_phase (view d) = DataOut lba n ws \<longrightarrow>
        view (outw P 0x1F0 x d) = spec_out x (view d) \<and> (length ws < 255 \<longrightarrow> busy (outw P 0x1F0 x d) = 0)"
    unfolding healthy_def documented_def data_law_def by (elim conjE)
  from this [rule_format, OF assms(2,3), of x] show "view (outw P 0x1F0 x d) = spec_out x (view d)"
    "length ws < 255 \<Longrightarrow> busy (outw P 0x1F0 x d) = 0" by simp_all
qed

lemma write_words_ok:
  "healthy P view busy \<Longrightarrow> busy d = 0 \<Longrightarrow> v_phase (view d) = DataOut lba n zs \<Longrightarrow> length zs + Suc m = 256 \<Longrightarrow>
     base + k + Suc m \<le> length words \<Longrightarrow>
     \<exists>d'. write_words P [k..<k + Suc m] base words d = Some d' \<and>
       view d' = (on_media (v_sel (view d)) (put_sector lba (zs @ take (Suc m) (drop (base + k) words))) (view d))
         \<lparr>v_phase := (if n \<le> 1 then Idle else DataOut (lba + 1) (n - 1) [])\<rparr>"
proof (induction m arbitrary: k d zs)
  case 0
  then have t: "take (Suc 0) (drop (base + k) words) = [words ! (base + k)]" by (simp add: take_Suc hd_drop_conv_nth)
  from word_out(1) [OF 0(1-3), of "words ! (base + k)"] 0 t show ?case
    by (simp add: ATA_REG_DATA_def spec_out_def)
next
  case (Suc m)
  let ?w = "words ! (base + k)" and ?d1 = "outw P 0x1F0 (words ! (base + k)) d"
  have v: "view ?d1 = (view d)\<lparr>v_phase := DataOut lba n (zs @ [?w])\<rparr>" "busy ?d1 = 0"
    using word_out [OF Suc.prems(1-3), of ?w] Suc.prems(3,4) by (simp_all add: spec_out_def)
  have u: "[k..<k + Suc (Suc m)] = k # [Suc k..<Suc k + Suc m]" by (subst upt_conv_Cons) simp_all
  have s: "take (Suc (Suc m)) (drop (base + k) words) = ?w # take (Suc m) (drop (base + Suc k) words)"
    using Suc.prems(5) by (simp add: Cons_nth_drop_Suc [symmetric])
  from Suc.IH [OF Suc.prems(1) v(2), of "zs @ [?w]" "Suc k"] v(1) Suc.prems(4,5) obtain d' where
    "write_words P [Suc k..<Suc k + Suc m] base words ?d1 = Some d'"
    "view d' = (on_media (v_sel (view d)) (put_sector lba (zs @ ?w # take (Suc m) (drop (base + Suc k) words))) (view d))
         \<lparr>v_phase := (if n \<le> 1 then Idle else DataOut (lba + 1) (n - 1) [])\<rparr>" by auto
  then show ?case unfolding u s using Suc.prems(5) by (simp add: ATA_REG_DATA_def)
qed

section \<open>Sectors\<close>

lemma start_in_fields [simp]:
  "v_ident (start_in ss v) = v_ident v" "v_media (start_in ss v) = v_media v" "v_sel (start_in ss v) = v_sel v"
  by (simp_all add: start_in_def v_sel_def)

lemma sectors_in_ok:
  "healthy P view busy \<Longrightarrow> view d = start_in ss v \<Longrightarrow> v_ident v (v_sel v) \<noteq> None \<Longrightarrow> \<forall>s\<in>set ss. length s = 256 \<Longrightarrow>
     base + (j + length ss) * 256 \<le> length words \<Longrightarrow>
     \<exists>d'. sector_loop P False [j..<j + length ss] base words d =
         Some (0, take (base + j * 256) words @ concat ss @ drop (base + (j + length ss) * 256) words, d') \<and>
       view d' = v\<lparr>v_phase := Idle\<rparr>"
proof (induction ss arbitrary: j d words)
  case Nil
  then show ?case by (simp add: start_in_def)
next
  case (Cons s ss)
  have "v_phase (view d) = DataIn s ss" using Cons.prems(2) by (simp add: start_in_def)
  with wait_drq_ok [OF Cons.prems(1), of d] Cons.prems(2,3) obtain d1 where
    w: "wait_drq P d = (0, d1)" "view d1 = view d" "busy d1 = 0" by auto
  have l: "length s = 256" "s \<noteq> []" using Cons.prems(4) by auto
  from read_words_ok [OF Cons.prems(1) w(3), of s ss "base + j * 256" 0 words] w(2) Cons.prems(2,5) l obtain d2 where
    r: "read_words P [0..<256] (base + j * 256) words d1 =
       Some (take (base + j * 256) words @ s @ drop (base + j * 256 + 256) words, d2)" "view d2 = start_in ss v"
    by (auto simp: start_in_def)
  let ?w = "take (base + j * 256) words @ s @ drop (base + j * 256 + 256) words"
  have n: "length ?w = length words" using Cons.prems(5) l by simp
  have m: "base + (Suc j + length ss) * 256 \<le> length ?w" using Cons.prems(5) l by simp
  from Cons.IH [OF Cons.prems(1) r(2) Cons.prems(3) _ m] Cons.prems(4) obtain d3 where
    x: "sector_loop P False [Suc j..<Suc j + length ss] base ?w d2 =
         Some (0, take (base + Suc j * 256) ?w @ concat ss @ drop (base + (Suc j + length ss) * 256) ?w, d3)"
       "view d3 = v\<lparr>v_phase := Idle\<rparr>" by auto
  have u: "[j..<j + length (s # ss)] = j # [Suc j..<Suc j + length ss]" by (subst upt_conv_Cons) simp_all
  have "take (base + Suc j * 256) ?w = take (base + j * 256) words @ s"
    "drop (base + (Suc j + length ss) * 256) ?w = drop (base + (j + length (s # ss)) * 256) words"
    using Cons.prems(5) l by (simp_all add: algebra_simps)
  with x w r u show ?case by (simp add: Let_def)
qed

text \<open>Sectors \<open>lba\<close> to \<open>lba + n\<close> of one drive overwritten with the words of a buffer.\<close>

definition store_sectors :: "nat \<Rightarrow> nat \<Rightarrow> u16 list \<Rightarrow> (nat \<Rightarrow> u16 list) \<Rightarrow> nat \<Rightarrow> u16 list" where
  "store_sectors lba n words m = (\<lambda>l. if lba \<le> l \<and> l < lba + n then take 256 (drop ((l - lba) * 256) words) else m l)"

lemma store_sectors_0: "store_sectors lba 0 words = (\<lambda>m. m)"
  by (intro ext) (auto simp: store_sectors_def)

lemma store_sectors_Suc:
  "store_sectors lba (Suc n) words = store_sectors (lba + 1) n (drop 256 words) \<circ> put_sector lba (take 256 words)"
proof (intro ext)
  fix m l
  consider "l < lba" | "l = lba" | i where "l = lba + 1 + i" by (metis Suc_eq_plus1 less_iff_Suc_add linorder_less_linear add_Suc_right add_Suc)
  then show "store_sectors lba (Suc n) words m l = (store_sectors (lba + 1) n (drop 256 words) \<circ> put_sector lba (take 256 words)) m l"
    by cases (simp_all add: store_sectors_def put_sector_def add.commute)
qed

lemma store_sectors_add:
  "store_sectors lba (m + n) words = store_sectors (lba + m) n (drop (m * 256) words) \<circ> store_sectors lba m words"
proof (induction m arbitrary: lba words)
  case 0
  show ?case by (simp add: store_sectors_0 comp_def)
next
  case (Suc m)
  then show ?case by (simp add: store_sectors_Suc add.commute comp_assoc)
qed

lemma sectors_out_ok:
  "healthy P view busy \<Longrightarrow> view d = v\<lparr>v_phase := (if n = 0 then Idle else DataOut lba n [])\<rparr> \<Longrightarrow> v_ident v (v_sel v) \<noteq> None \<Longrightarrow>
     base + (j + n) * 256 \<le> length words \<Longrightarrow>
     \<exists>d'. sector_loop P True [j..<j + n] base words d = Some (0, words, d') \<and>
       view d' = (on_media (v_sel v) (store_sectors lba n (drop (base + j * 256) words)) v)\<lparr>v_phase := Idle\<rparr>"
proof (induction n arbitrary: j d v lba)
  case 0
  then show ?case by (simp add: store_sectors_0)
next
  case (Suc n)
  have p: "v_phase (view d) = DataOut lba (Suc n) []" using Suc.prems(2) by simp
  from wait_drq_ok [OF Suc.prems(1), of d] p Suc.prems(2,3) obtain d1 where
    w: "wait_drq P d = (0, d1)" "view d1 = view d" "busy d1 = 0" by auto
  let ?v = "on_media (v_sel v) (put_sector lba (take 256 (drop (base + j * 256) words))) v"
  from write_words_ok [OF Suc.prems(1) w(3), of lba "Suc n" "[]" 255 "base + j * 256" 0 words] w(2) p Suc.prems(2,4) obtain d2 where
    r: "write_words P [0..<256] (base + j * 256) words d1 = Some d2"
       "view d2 = ?v\<lparr>v_phase := (if n = 0 then Idle else DataOut (lba + 1) n [])\<rparr>" by auto
  have c: "v_ident ?v (v_sel ?v) \<noteq> None" "base + (Suc j + n) * 256 \<le> length words"
    using Suc.prems(3,4) by simp_all
  from Suc.IH [OF Suc.prems(1) r(2) c] obtain d3 where
    x: "sector_loop P True [Suc j..<Suc j + n] base words d2 = Some (0, words, d3)"
       "view d3 = (on_media (v_sel v) (store_sectors (lba + 1) n (drop (base + Suc j * 256) words)) ?v)\<lparr>v_phase := Idle\<rparr>" by auto
  have u: "[j..<j + Suc n] = j # [Suc j..<Suc j + n]" by (subst upt_conv_Cons) simp_all
  have "drop 256 (drop (base + j * 256) words) = drop (base + Suc j * 256) words" by (simp add: algebra_simps)
  with x(2) have "view d3 = (on_media (v_sel v) (store_sectors lba (Suc n) (drop (base + j * 256) words)) v)\<lparr>v_phase := Idle\<rparr>"
    by (simp add: store_sectors_Suc)
  with u w(1) r(1) x(1) show ?case by (simp add: Let_def)
qed

section \<open>Commands\<close>

lemma command_ok:
  assumes "healthy P view busy" "busy d = 0" "v_phase (view d) = Idle" "x \<in> {0x20, 0x30, 0xE7, 0xEC}"
    and "x \<in> {0x20, 0x30} \<longrightarrow> v_lba (view d) + v_n (view d) \<le> v_size (view d) (v_sel (view d))"
  shows "view (outb P 0x1F7 x d) = spec_command x (view d)"
proof -
  from assms(1) have "\<forall>d x. busy d = 0 \<longrightarrow> v_phase (view d) = Idle \<longrightarrow> x \<in> {0x20, 0x30, 0xE7, 0xEC} \<longrightarrow>
        (x \<in> {0x20, 0x30} \<longrightarrow> v_lba (view d) + v_n (view d) \<le> v_size (view d) (v_sel (view d))) \<longrightarrow>
        view (outb P 0x1F7 x d) = spec_command x (view d)"
    unfolding healthy_def documented_def command_law_def by (elim conjE)
  from this [rule_format, OF assms(2-4)] assms(5) show ?thesis by simp
qed

lemma flush_ok:
  assumes "healthy P view busy" "busy d = 0" "v_phase (view d) = Idle"
  shows "view (outb P 0x1F7 0xE7 d) = view d"
  using command_ok [OF assms, of "0xE7"] by (auto simp: spec_command_def split: option.splits)

text \<open>Where a drive is between two requests, apart from its registers.\<close>

definition at_rest :: "ata_view \<Rightarrow> (nat \<Rightarrow> u16 list option) \<Rightarrow> (nat \<Rightarrow> nat \<Rightarrow> u16 list) \<Rightarrow> bool" where
  "at_rest v ident media \<longleftrightarrow> v_phase v = Idle \<and> v_ident v = ident \<and> v_media v = media"

definition in_range :: "(nat \<Rightarrow> u16 list option) \<Rightarrow> nat \<Rightarrow> nat \<Rightarrow> nat \<Rightarrow> bool" where
  "in_range ident drive lba n \<longleftrightarrow> drive \<le> 1 \<and>
     (case ident drive of None \<Rightarrow> False | Some w \<Rightarrow> lba + n \<le> unat (ident_sectors w) \<and> lba + n \<le> 268435456)"

definition sectors_of :: "(nat \<Rightarrow> nat \<Rightarrow> u16 list) \<Rightarrow> nat \<Rightarrow> nat \<Rightarrow> nat \<Rightarrow> u16 list" where
  "sectors_of media drive lba n = concat (map (media drive) [lba..<lba + n])"

lemma in_range_mono: "in_range ident drive lba n \<Longrightarrow> lba' + n' \<le> lba + n \<Longrightarrow> in_range ident drive lba' n'"
  by (auto simp: in_range_def split: option.splits)

lemma chunk_command:
  assumes h: "healthy P view busy" and r: "at_rest (view d) ident media" and n: "n = (if count = 0 then 256 else unat (count :: u8))"
    and rng: "in_range ident drive (unat lba) n" and x: "x \<in> {0x20, 0x30}"
  obtains d1 d2 where "wait_not_busy P d = (0, d1)"
    "outb P 0x1F7 x (outb P 0x1F5 (ucast (drop_bit 16 lba AND 0xFF)) (outb P 0x1F4 (ucast (drop_bit 8 lba AND 0xFF))
      (outb P 0x1F3 (ucast (lba AND 0xFF)) (outb P 0x1F2 count (outb P 0x1F1 0 (select_drive P drive lba d1)))))) = d2"
    "view d2 = spec_command x (addressed drive lba count (view d))" "v_sel (addressed drive lba count (view d)) = drive"
    "v_lba (addressed drive lba count (view d)) = unat lba" "v_n (addressed drive lba count (view d)) = n"
proof -
  from wait_not_busy_ok [OF h, of d] obtain d1 where w: "wait_not_busy P d = (0, d1)" "view d1 = view d" "busy d1 = 0" by blast
  have i: "v_phase (view d1) = Idle" using r w(2) by (simp add: at_rest_def)
  let ?d = "outb P 0x1F5 (ucast (drop_bit 16 lba AND 0xFF)) (outb P 0x1F4 (ucast (drop_bit 8 lba AND 0xFF))
      (outb P 0x1F3 (ucast (lba AND 0xFF)) (outb P 0x1F2 count (outb P 0x1F1 0 (select_drive P drive lba d1)))))"
  let ?v = "addressed drive lba count (view d)"
  have v: "view ?d = ?v" "busy ?d = 0" using setup_ok [OF h w(3) i, of lba count drive] w(2) by simp_all
  have pos: "0 < n" unfolding n by (simp add: unat_gt_0)
  have l: "drive \<le> 1" "unat lba < 268435456" using rng pos by (auto simp: in_range_def split: option.splits)
  have a: "v_sel ?v = drive" "v_lba ?v = unat lba" "v_n ?v = n" using l n by simp_all
  have "v_lba ?v + v_n ?v \<le> v_size ?v (v_sel ?v)" unfolding a using rng r
    by (auto simp: in_range_def v_size_def at_rest_def split: option.splits)
  with command_ok [OF h v(2), of x] v(1) x r have "view (outb P 0x1F7 x ?d) = spec_command x ?v" by (auto simp: at_rest_def)
  with that [OF w(1) refl] a show thesis by blast
qed

lemma chunk_read_ok:
  assumes h: "healthy P view busy" and r: "at_rest (view d) ident media" and n: "n = (if count = 0 then 256 else unat (count :: u8))"
    and rng: "in_range ident drive (unat lba) n" and len: "base + n * 256 \<le> length words"
  shows "\<exists>d'. transfer_chunk P drive lba count base words False d =
      Some (0, take base words @ sectors_of media drive (unat lba) n @ drop (base + n * 256) words, d') \<and> at_rest (view d') ident media"
proof -
  obtain d1 d2 where c: "wait_not_busy P d = (0, d1)"
    "outb P 0x1F7 0x20 (outb P 0x1F5 (ucast (drop_bit 16 lba AND 0xFF)) (outb P 0x1F4 (ucast (drop_bit 8 lba AND 0xFF))
      (outb P 0x1F3 (ucast (lba AND 0xFF)) (outb P 0x1F2 count (outb P 0x1F1 0 (select_drive P drive lba d1)))))) = d2"
    "view d2 = spec_command 0x20 (addressed drive lba count (view d))" "v_sel (addressed drive lba count (view d)) = drive"
    "v_lba (addressed drive lba count (view d)) = unat lba" "v_n (addressed drive lba count (view d)) = n"
    using chunk_command [OF h r n rng, of "0x20"] by blast
  let ?v = "addressed drive lba count (view d)" and ?ss = "map (media drive) [unat lba..<unat lba + n]"
  have idt: "ident drive \<noteq> None" using rng by (auto simp: in_range_def split: option.splits)
  then have s: "view d2 = start_in ?ss ?v" "v_ident ?v (v_sel ?v) \<noteq> None"
    using c(3-6) r by (auto simp: spec_command_def at_rest_def split: option.splits)
  have ok: "\<forall>s\<in>set ?ss. length s = 256" using healthy_view [OF h, of d] r by (auto simp: view_ok_def at_rest_def)
  have len': "base + (0 + length ?ss) * 256 \<le> length words" using len by simp
  from sectors_in_ok [OF h s ok len'] obtain d3 where
    l: "sector_loop P False [0..<n] base words d2 = Some (0, take base words @ concat ?ss @ drop (base + n * 256) words, d3)"
      "view d3 = ?v\<lparr>v_phase := Idle\<rparr>" by auto
  have "transfer_chunk P drive lba count base words False d =
      Some (0, take base words @ concat ?ss @ drop (base + n * 256) words, d3)"
    using c(1,2) l(1) n by (simp add: transfer_chunk_def ata_ports)
  with l(2) r show ?thesis by (simp add: sectors_of_def at_rest_def)
qed

lemma chunk_write_ok:
  assumes h: "healthy P view busy" and r: "at_rest (view d) ident media" and n: "n = (if count = 0 then 256 else unat (count :: u8))"
    and rng: "in_range ident drive (unat lba) n" and len: "base + n * 256 \<le> length words"
  shows "\<exists>d'. transfer_chunk P drive lba count base words True d = Some (0, words, d') \<and>
      at_rest (view d') ident (media(drive := store_sectors (unat lba) n (drop base words) (media drive)))"
proof -
  obtain d1 d2 where c: "wait_not_busy P d = (0, d1)"
    "outb P 0x1F7 0x30 (outb P 0x1F5 (ucast (drop_bit 16 lba AND 0xFF)) (outb P 0x1F4 (ucast (drop_bit 8 lba AND 0xFF))
      (outb P 0x1F3 (ucast (lba AND 0xFF)) (outb P 0x1F2 count (outb P 0x1F1 0 (select_drive P drive lba d1)))))) = d2"
    "view d2 = spec_command 0x30 (addressed drive lba count (view d))" "v_sel (addressed drive lba count (view d)) = drive"
    "v_lba (addressed drive lba count (view d)) = unat lba" "v_n (addressed drive lba count (view d)) = n"
    using chunk_command [OF h r n rng, of "0x30"] by blast
  let ?v = "addressed drive lba count (view d)"
  have pos: "n \<noteq> 0" unfolding n by (simp add: unat_gt_0)
  have idt: "ident drive \<noteq> None" using rng by (auto simp: in_range_def split: option.splits)
  then have s: "view d2 = ?v\<lparr>v_phase := (if n = 0 then Idle else DataOut (unat lba) n [])\<rparr>" "v_ident ?v (v_sel ?v) \<noteq> None"
    using c(3-6) r pos by (auto simp: spec_command_def at_rest_def split: option.splits)
  have len': "base + (0 + n) * 256 \<le> length words" using len by simp
  from sectors_out_ok [OF h s len'] obtain d3 where
    l: "sector_loop P True [0..<n] base words d2 = Some (0, words, d3)"
      "view d3 = (on_media (v_sel ?v) (store_sectors (unat lba) n (drop base words)) ?v)\<lparr>v_phase := Idle\<rparr>" by auto
  from wait_not_busy_ok [OF h, of d3] obtain d4 where f: "wait_not_busy P d3 = (0, d4)" "view d4 = view d3" "busy d4 = 0" by blast
  from wait_not_busy_ok [OF h, of "outb P 0x1F7 0xE7 d4"] obtain d5 where
    g: "wait_not_busy P (outb P 0x1F7 0xE7 d4) = (0, d5)" "view d5 = view (outb P 0x1F7 0xE7 d4)" by blast
  have "view d5 = view d3" using g(2) flush_ok [OF h f(3)] f(2) l(2) by simp
  moreover have "transfer_chunk P drive lba count base words True d = Some (0, words, d5)"
    using c(1,2) l(1) n f(1) g(1) by (simp add: transfer_chunk_def ata_ports)
  ultimately show ?thesis using l(2) r c(4) by (simp add: at_rest_def)
qed

section \<open>Whole transfers\<close>

lemma store_sectors_length: "\<forall>l. length (m l) = 256 \<Longrightarrow> n * 256 \<le> length words \<Longrightarrow> length (store_sectors lba n words m l) = 256"
proof -
  assume a: "\<forall>l. length (m l) = 256" "n * 256 \<le> length words"
  have "256 \<le> length words - (l - lba) * 256" if "lba \<le> l" "l < lba + n"
  proof -
    from that obtain k where k: "l = lba + k" "k + 1 \<le> n" by (metis Suc_eq_plus1 add_less_cancel_left less_eq_Suc_le le_Suc_ex)
    then have "(k + 1) * 256 \<le> n * 256" by simp
    with a(2) k(1) show ?thesis by simp
  qed
  with a(1) show ?thesis by (simp add: store_sectors_def)
qed

lemma sectors_of_add: "sectors_of media drive lba (m + n) = sectors_of media drive lba m @ sectors_of media drive (lba + m) n"
  using upt_add_eq_append [of lba "lba + m" n] by (simp add: sectors_of_def add.assoc)

text \<open>The chunks of the loop: each is at most 255 sectors and never wraps around.\<close>

lemma chunk_arith:
  fixes lba count :: u32
  assumes "count \<noteq> 0" "unat lba + unat count \<le> 268435456" and c: "chunk = (if count > 255 then 255 else count)"
  shows "unat (ucast chunk :: u8) = unat chunk" "unat (lba + chunk) = unat lba + unat chunk"
    "unat (count - chunk) = unat count - unat chunk" "0 < unat chunk" "unat chunk \<le> unat count" "(ucast chunk :: u8) \<noteq> 0"
proof -
  have u: "unat chunk \<le> 255" "unat chunk \<le> unat count" "0 < unat chunk"
    using assms(1) c by (auto simp: word_less_nat_alt unat_gt_0 split: if_splits)
  then show "unat (ucast chunk :: u8) = unat chunk" by (simp add: unsigned_ucast_eq take_bit_eq_mod)
  with u(3) show "(ucast chunk :: u8) \<noteq> 0" by (metis unat_0 less_irrefl)
  show "unat (lba + chunk) = unat lba + unat chunk" using assms(2) u(2) by (simp add: unat_plus_exact)
  show "unat (count - chunk) = unat count - unat chunk" using u(2) by (simp add: unat_minus_exact)
  show "0 < unat chunk" "unat chunk \<le> unat count" using u by simp_all
qed

lemma transfer_read_ok:
  assumes h: "healthy P view busy"
  shows "at_rest (view d) ident media \<Longrightarrow> in_range ident drive (unat lba) (unat count) \<Longrightarrow> base + unat count * 256 \<le> length words \<Longrightarrow>
     \<exists>d'. transfer_loop P drive lba count base words False d =
       Some (0, take base words @ sectors_of media drive (unat lba) (unat count) @ drop (base + unat count * 256) words, d') \<and>
       at_rest (view d') ident media"
proof (induction "unat count" arbitrary: lba count base words d rule: less_induct)
  case less
  show ?case
  proof (cases "count = 0")
    case True
    with less.prems show ?thesis by (auto simp: sectors_of_def transfer_loop.simps)
  next
    case False
    define chunk :: u32 where c: "chunk = (if count > 255 then 255 else count)"
    have "unat lba + unat count \<le> 268435456" using less.prems(2) by (auto simp: in_range_def split: option.splits)
    note a = chunk_arith [OF False this c]
    let ?k = "unat chunk"
    have rng: "in_range ident drive (unat lba) ?k" by (rule in_range_mono [OF less.prems(2)]) (use a(5) in simp)
    have len: "base + ?k * 256 \<le> length words" using less.prems(3) a(5) by (meson add_le_mono mult_le_mono1 order_refl order_trans)
    let ?w = "take base words @ sectors_of media drive (unat lba) ?k @ drop (base + ?k * 256) words"
    from chunk_read_ok [OF h less.prems(1) _ rng len, of "ucast chunk"] a(1,6) obtain d1 where
      r: "transfer_chunk P drive lba (ucast chunk) base words False d = Some (0, ?w, d1)" "at_rest (view d1) ident media" by auto
    have sl: "length (sectors_of media drive l n) = n * 256" for l n
    proof -
      have "\<forall>l. length (media drive l) = 256" using healthy_view [OF h, of d] less.prems(1) by (simp add: view_ok_def at_rest_def)
      then show ?thesis by (induction n) (simp_all add: sectors_of_def)
    qed
    have lw: "length ?w = length words" using len sl by simp
    have rng': "in_range ident drive (unat (lba + chunk)) (unat (count - chunk))"
      by (rule in_range_mono [OF less.prems(2)]) (use a in simp)
    have kk: "base + ?k * 256 + (unat count - ?k) * 256 = base + unat count * 256"
      using a(5) by (simp add: add_mult_distrib [symmetric])
    have len': "base + ?k * 256 + unat (count - chunk) * 256 \<le> length ?w" unfolding lw a(3) kk by (rule less.prems(3))
    have "unat (count - chunk) < unat count" using a(3,4,5) by simp
    from less.hyps [OF this r(2) rng' len'] obtain d2 where
      x: "transfer_loop P drive (lba + chunk) (count - chunk) (base + ?k * 256) ?w False d1 =
        Some (0, take (base + ?k * 256) ?w @ sectors_of media drive (unat lba + ?k) (unat count - ?k) @ drop (base + unat count * 256) ?w, d2)"
        "at_rest (view d2) ident media" unfolding a(2,3) kk by blast
    have t: "take (base + ?k * 256) ?w = take base words @ sectors_of media drive (unat lba) ?k" using len sl by simp
    have dd: "drop (base + unat count * 256) ?w = drop (base + unat count * 256) words" unfolding kk [symmetric] using len sl by (simp add: add.commute)
    have "transfer_loop P drive lba count base words False d =
        Some (0, take base words @ (sectors_of media drive (unat lba) ?k @ sectors_of media drive (unat lba + ?k) (unat count - ?k)) @
          drop (base + unat count * 256) words, d2)"
      by (subst transfer_loop.simps) (use False r(1) x(1) t dd c in \<open>simp add: Let_def\<close>)
    also have "sectors_of media drive (unat lba) ?k @ sectors_of media drive (unat lba + ?k) (unat count - ?k) =
        sectors_of media drive (unat lba) (unat count)"
      using sectors_of_add [of media drive "unat lba" ?k "unat count - ?k"] a(5) by simp
    finally show ?thesis using x(2) by blast
  qed
qed

lemma transfer_write_ok:
  assumes h: "healthy P view busy"
  shows "at_rest (view d) ident media \<Longrightarrow> in_range ident drive (unat lba) (unat count) \<Longrightarrow> base + unat count * 256 \<le> length words \<Longrightarrow>
     \<exists>d'. transfer_loop P drive lba count base words True d = Some (0, words, d') \<and>
       at_rest (view d') ident (media(drive := store_sectors (unat lba) (unat count) (drop base words) (media drive)))"
proof (induction "unat count" arbitrary: lba count base media d rule: less_induct)
  case less
  show ?case
  proof (cases "count = 0")
    case True
    with less.prems show ?thesis by (auto simp: store_sectors_0 transfer_loop.simps)
  next
    case False
    define chunk :: u32 where c: "chunk = (if count > 255 then 255 else count)"
    have "unat lba + unat count \<le> 268435456" using less.prems(2) by (auto simp: in_range_def split: option.splits)
    note a = chunk_arith [OF False this c]
    let ?k = "unat chunk"
    have rng: "in_range ident drive (unat lba) ?k" by (rule in_range_mono [OF less.prems(2)]) (use a(5) in simp)
    have len: "base + ?k * 256 \<le> length words" using less.prems(3) a(5) by (meson add_le_mono mult_le_mono1 order_refl order_trans)
    let ?m = "media(drive := store_sectors (unat lba) ?k (drop base words) (media drive))"
    from chunk_write_ok [OF h less.prems(1) _ rng len, of "ucast chunk"] a(1,6) obtain d1 where
      r: "transfer_chunk P drive lba (ucast chunk) base words True d = Some (0, words, d1)" "at_rest (view d1) ident ?m" by auto
    have rng': "in_range ident drive (unat (lba + chunk)) (unat (count - chunk))"
      by (rule in_range_mono [OF less.prems(2)]) (use a in simp)
    have kk: "base + ?k * 256 + (unat count - ?k) * 256 = base + unat count * 256"
      using a(5) by (simp add: add_mult_distrib [symmetric])
    have len': "base + ?k * 256 + unat (count - chunk) * 256 \<le> length words" unfolding a(3) kk by (rule less.prems(3))
    have "unat (count - chunk) < unat count" using a(3,4,5) by simp
    from less.hyps [OF this r(2) rng' len'] obtain d2 where
      x: "transfer_loop P drive (lba + chunk) (count - chunk) (base + ?k * 256) words True d1 = Some (0, words, d2)"
        "at_rest (view d2) ident (?m(drive := store_sectors (unat lba + ?k) (unat count - ?k) (drop (base + ?k * 256) words) (?m drive)))"
      unfolding a(2,3) by blast
    have "store_sectors (unat lba) (unat count) (drop base words) (media drive) =
        store_sectors (unat lba + ?k) (unat count - ?k) (drop (base + ?k * 256) words) (store_sectors (unat lba) ?k (drop base words) (media drive))"
      using store_sectors_add [of "unat lba" ?k "unat count - ?k" "drop base words"] a(5) by (simp add: add.commute)
    with x(2) have "at_rest (view d2) ident (media(drive := store_sectors (unat lba) (unat count) (drop base words) (media drive)))" by simp
    moreover have "transfer_loop P drive lba count base words True d = Some (0, words, d2)"
      by (subst transfer_loop.simps) (use False r(1) x(1) c in \<open>simp add: Let_def\<close>)
    ultimately show ?thesis by blast
  qed
qed

section \<open>The driver\<close>

definition content :: "('d \<Rightarrow> ata_view) \<Rightarrow> 'd ata \<Rightarrow> nat \<Rightarrow> nat \<Rightarrow> u16 list" where
  "content view s = v_media (view (hw s))"

text \<open>Between two calls: the drives rest, and the table tells the truth about them.\<close>

definition ata_ok :: "'d ports \<Rightarrow> ('d \<Rightarrow> ata_view) \<Rightarrow> ('d \<Rightarrow> nat) \<Rightarrow> 'd ata \<Rightarrow> bool" where
  "ata_ok P view busy s \<longleftrightarrow> healthy P view busy \<and> v_phase (view (hw s)) = Idle \<and> length (drives s) = 2 \<and>
     (\<forall>i\<le>1. present (drives s ! i) \<longrightarrow>
        (\<exists>w. v_ident (view (hw s)) i = Some w \<and> sectors (drives s ! i) = ident_sectors w))"

lemma ata_ok_range:
  assumes "ata_ok P view busy s" "ata_present drive s" "unat lba + unat count \<le> unat (ata_sector_count drive s)"
  shows "in_range (v_ident (view (hw s))) drive (unat lba) (unat count)" "\<not> lba + count > sectors (drives s ! drive)"
proof -
  from assms(1,2) obtain w where w: "v_ident (view (hw s)) drive = Some w" "sectors (drives s ! drive) = ident_sectors w"
    "drive \<le> 1" "healthy P view busy" by (auto simp: ata_ok_def ata_present_def ATA_SLAVE_def)
  from healthy_view [OF w(4), of "hw s"] w(1) have b: "unat (ident_sectors w) < 268435456" by (auto simp: view_ok_def)
  have n: "unat lba + unat count \<le> unat (ident_sectors w)" using assms(2,3) w(2) by (simp add: ata_sector_count_def)
  with b w show "in_range (v_ident (view (hw s))) drive (unat lba) (unat count)" by (simp add: in_range_def)
  show "\<not> lba + count > sectors (drives s ! drive)"
    using n b w(2) by (simp add: word_less_nat_alt unat_plus_exact)
qed

lemma ata_ok_cong:
  "ata_ok P view busy s \<Longrightarrow> at_rest (view d) (v_ident (view (hw s))) media \<Longrightarrow>
     ata_ok P view busy (s\<lparr>hw := d\<rparr>) \<and> content view (s\<lparr>hw := d\<rparr>) = media \<and>
     v_ident (view (hw (s\<lparr>hw := d\<rparr>))) = v_ident (view (hw s))"
  by (simp add: ata_ok_def at_rest_def content_def)

lemma ata_ok_rest: "ata_ok P view busy s \<Longrightarrow> at_rest (view (hw s)) (v_ident (view (hw s))) (content view s)"
  by (simp add: ata_ok_def at_rest_def content_def)

lemma ata_read_sectors:
  assumes ok: "ata_ok P view busy s" and p: "ata_present drive s" and rng: "unat lba + unat count \<le> unat (ata_sector_count drive s)"
    and len: "unat count * 256 \<le> length words"
  shows "\<exists>s'. ata_read P drive lba count words s =
      Some (0, sectors_of (content view s) drive (unat lba) (unat count) @ drop (unat count * 256) words, s') \<and>
    ata_ok P view busy s' \<and> content view s' = content view s \<and> drives s' = drives s \<and> v_ident (view (hw s')) = v_ident (view (hw s))"
proof (cases "count = 0")
  case True
  with ok p show ?thesis by (simp add: ata_read_def transfer_def sectors_of_def)
next
  case False
  have h: "healthy P view busy" using ok by (simp add: ata_ok_def)
  note r = ata_ok_range [OF ok p rng]
  from transfer_read_ok [OF h ata_ok_rest [OF ok] r(1), of 0 words] len obtain d' where
    t: "transfer_loop P drive lba count 0 words False (hw s) =
       Some (0, sectors_of (content view s) drive (unat lba) (unat count) @ drop (unat count * 256) words, d')"
      "at_rest (view d') (v_ident (view (hw s))) (content view s)" by auto
  with ata_ok_cong [OF ok t(2)] False r(2) p show ?thesis by (simp add: ata_read_def transfer_def)
qed

lemma ata_write_sectors:
  assumes ok: "ata_ok P view busy s" and p: "ata_present drive s" and rng: "unat lba + unat count \<le> unat (ata_sector_count drive s)"
    and len: "unat count * 256 \<le> length words"
  shows "\<exists>s'. ata_write P drive lba count words s = Some (0, s') \<and> ata_ok P view busy s' \<and> drives s' = drives s \<and>
    v_ident (view (hw s')) = v_ident (view (hw s)) \<and>
    content view s' = (content view s)(drive := store_sectors (unat lba) (unat count) words (content view s drive))"
proof (cases "count = 0")
  case True
  with ok p show ?thesis by (simp add: ata_write_def transfer_def store_sectors_0)
next
  case False
  have h: "healthy P view busy" using ok by (simp add: ata_ok_def)
  note r = ata_ok_range [OF ok p rng]
  from transfer_write_ok [OF h ata_ok_rest [OF ok] r(1), of 0 words] len obtain d' where
    t: "transfer_loop P drive lba count 0 words True (hw s) = Some (0, words, d')"
      "at_rest (view d') (v_ident (view (hw s)))
         ((content view s)(drive := store_sectors (unat lba) (unat count) words (content view s drive)))" by auto
  have "ata_write P drive lba count words s = Some (0, s\<lparr>hw := d'\<rparr>)" "drives (s\<lparr>hw := d'\<rparr>) = drives s"
    using t(1) False r(2) p by (simp_all add: ata_write_def transfer_def)
  with ata_ok_cong [OF ok t(2)] show ?thesis by blast
qed

lemma ata_refuses:
  assumes "\<not> ata_present drive s \<or> (count \<noteq> 0 \<and> unat lba + unat count < 4294967296 \<and> unat (ata_sector_count drive s) < unat lba + unat count)"
  shows "transfer P drive lba count words writing s = Some (-1, words, s)"
  using assms by (auto simp: transfer_def ata_sector_count_def word_less_nat_alt unat_plus_exact)

section \<open>Identification\<close>

definition found :: "u16 list option \<Rightarrow> drive_info" where
  "found ident = (case ident of
       None \<Rightarrow> no_drive
     | Some w \<Rightarrow> if ident_sectors w = 0 then no_drive
                 else \<lparr>present = True, sectors = ident_sectors w, model = copy_model w\<rparr>)"

lemma healthy_absent: "healthy P view busy \<Longrightarrow> v_ident (view d) (v_sel (view d)) = None \<Longrightarrow> busy d = 0"
  by (simp add: healthy_def documented_def status_law_def)

lemma reg_read:
  assumes "healthy P view busy" "busy d = 0"
  shows "\<exists>d'. inb P 0x1F4 d = (v_mid (view d), d') \<and> view d' = view d \<and> busy d' = 0"
    "\<exists>d'. inb P 0x1F5 d = (v_high (view d), d') \<and> view d' = view d \<and> busy d' = 0"
  using assms unfolding healthy_def documented_def register_law_def by (metis prod.collapse)+

lemma identify_ok:
  assumes h: "healthy P view busy" and i: "busy (hw s) = 0" and r: "at_rest (view (hw s)) ident media" and dr: "drive \<le> 1"
    and z: "drives s ! drive = no_drive" "length (drives s) = 2"
  shows "\<exists>s'. identify P drive s = Some s' \<and> busy (hw s') = 0 \<and> at_rest (view (hw s')) ident media \<and>
    drives s' = (drives s)[drive := found (ident drive)]"
proof -
  have idle: "v_phase (view (hw s)) = Idle" using r by (simp add: at_rest_def)
  let ?d0 = "select_drive P drive 0 (hw s)"
  let ?d1 = "outb P 0x1F2 0 ?d0"
  let ?d2 = "outb P 0x1F3 0 ?d1"
  let ?d3 = "outb P 0x1F4 0 ?d2"
  let ?d4 = "outb P 0x1F5 0 ?d3"
  let ?v = "addressed drive 0 0 (view (hw s))"
  have 0: "view ?d0 = (view (hw s))\<lparr>v_drive := (if drive = 1 then 0xF0 else 0xE0)\<rparr>" "busy ?d0 = 0"
    using select_ok [OF h i idle, of drive 0] by auto
  have 1: "view ?d1 = (view ?d0)\<lparr>v_count := 0\<rparr>" "busy ?d1 = 0"
    using reg_write [OF h 0(2), of "0x1F2"] 0 idle by (simp_all add: spec_reg_def)
  have 2: "view ?d2 = (view ?d1)\<lparr>v_low := 0\<rparr>" "busy ?d2 = 0"
    using reg_write [OF h 1(2), of "0x1F3"] 0 1 idle by (simp_all add: spec_reg_def)
  have 3: "view ?d3 = (view ?d2)\<lparr>v_mid := 0\<rparr>" "busy ?d3 = 0"
    using reg_write [OF h 2(2), of "0x1F4"] 0 1 2 idle by (simp_all add: spec_reg_def)
  have 4: "view ?d4 = (view ?d3)\<lparr>v_high := 0\<rparr>" "busy ?d4 = 0"
    using reg_write [OF h 3(2), of "0x1F5"] 0 1 2 3 idle by (simp_all add: spec_reg_def)
  have v: "view ?d4 = ?v" using 0 1 2 3 4 by (simp add: addressed_def)
  have a: "v_sel ?v = drive" "v_phase ?v = Idle" "v_ident ?v = ident" "v_media ?v = media" "v_mid ?v = 0" "v_high ?v = 0"
    using dr r by (simp_all add: at_rest_def, simp_all add: addressed_def)
  let ?d5 = "outb P 0x1F7 0xEC ?d4"
  have c: "view ?d5 = spec_command 0xEC ?v" using command_ok [OF h 4(2), of "0xEC"] v a(2) by simp
  let ?d6 = "io_delay_400ns P ?d5"
  have d6: "view ?d6 = view ?d5" "busy ?d6 \<le> busy ?d5" using healthy_delay [OF h, of ?d5] by simp_all
  obtain st d7 where s7: "inb P 0x1F7 ?d6 = (st, d7)" by force
  note s = healthy_status [OF h s7]
  let ?s = "s\<lparr>drives := (drives s)[drive := (drives s ! drive)\<lparr>present := False\<rparr>]\<rparr>"
  have upd: "(drives s)[drive := no_drive] = drives s" using z(1) list_update_id by metis
  moreover have "no_drive\<lparr>present := False\<rparr> = no_drive" by (simp add: no_drive_def)
  ultimately have z': "drives ?s = drives s" using z(1) by simp
  show ?thesis
  proof (cases "ident drive")
    case None
    with c a have vc: "view ?d6 = ?v" using d6 by (simp add: spec_command_def)
    have b6: "busy ?d6 = 0" by (rule healthy_absent [OF h]) (use vc a None in simp)
    have "st = 0" using s(1) b6 vc a None by (simp add: status_ok_def)
    then have "identify P drive s = Some (?s\<lparr>hw := d7\<rparr>)" using s7 by (simp add: identify_def ata_ports)
    moreover have "at_rest (view d7) ident media" "busy d7 = 0" using s(2,4) b6 vc a by (simp_all add: at_rest_def)
    moreover have "(drives s)[drive := found (ident drive)] = drives s" using upd None by (simp add: found_def)
    ultimately show ?thesis using z' by simp
  next
    case (Some w)
    have w: "length w = 256" using healthy_view [OF h, of "hw s"] r Some by (auto simp: view_ok_def at_rest_def)
    have vc: "view ?d6 = start_in [w] ?v" using c a Some d6 by (simp add: spec_command_def)
    have st: "st \<noteq> 0" using s(1) vc a Some by (auto simp: status_ok_def split: if_splits)
    obtain d8 where d8: "wait_not_busy P d7 = (0, d8)" "view d8 = view d7" "busy d8 = 0" using wait_not_busy_ok [OF h] by blast
    have v8: "view d8 = start_in [w] ?v" using d8(2) s(2) vc by simp
    have mh: "v_mid (start_in [w] ?v) = 0" "v_high (start_in [w] ?v) = 0" using a(5,6) by (simp_all add: start_in_def)
    obtain d9 where d9: "inb P 0x1F4 d8 = (0, d9)" "view d9 = view d8" "busy d9 = 0" using reg_read(1) [OF h d8(3)] v8 mh by auto
    obtain d10 where d10: "inb P 0x1F5 d9 = (0, d10)" "view d10 = view d9" "busy d10 = 0" using reg_read(2) [OF h d9(3)] v8 d9(2) mh by auto
    have v10: "view d10 = start_in [w] ?v" using d10(2) d9(2) v8 by simp
    obtain d11 where d11: "wait_drq P d10 = (0, d11)" "view d11 = view d10" "busy d11 = 0"
      using wait_drq_ok [OF h, of d10] v10 a Some by (auto simp: start_in_def)
    have "w \<noteq> []" using w by auto
    with read_words_ok [OF h d11(3), of w "[]" 0 0 "replicate 256 0"] d11(2) v10 w obtain d12 where
      d12: "read_words P [0..<256] 0 (replicate 256 0) d11 = Some (w, d12)" "view d12 = start_in [] ?v" "busy d12 = 0"
      by (auto simp: start_in_def)
    define info where "info = (drives ?s ! drive)\<lparr>sectors := ident_sectors w\<rparr>"
    have e: "identify P drive s = Some (?s\<lparr>hw := d12, drives := (drives ?s)[drive :=
        (if ident_sectors w = 0 then info else info\<lparr>model := copy_model w, present := True\<rparr>)]\<rparr>)"
      unfolding info_def ident_sectors_def
      using s7 st d8(1) d9(1) d10(1) d11(1) d12(1) by (simp add: identify_def ata_ports)
    have "(if ident_sectors w = 0 then info else info\<lparr>model := copy_model w, present := True\<rparr>) = found (ident drive)"
    proof -
      have "info = no_drive\<lparr>sectors := ident_sectors w\<rparr>" unfolding info_def by (subst z') (simp only: z(1))
      then show ?thesis using Some by (simp add: found_def no_drive_def)
    qed
    moreover have "at_rest (view d12) ident media" using d12(2) a by (simp add: at_rest_def start_in_def)
    ultimately show ?thesis using e d12(3) z' by simp
  qed
qed

lemma ata_init_found:
  assumes h: "healthy P view busy" and i: "busy (hw s) = 0" and r: "at_rest (view (hw s)) ident media"
  shows "\<exists>s'. ata_init P s = Some s' \<and> drives s' = map found (map ident [0, 1]) \<and> ata_ok P view busy s' \<and>
    content view s' = media \<and> v_ident (view (hw s')) = ident"
proof -
  let ?s0 = "s\<lparr>drives := replicate 2 no_drive, hw := outb P ATA_CTRL_BASE 0x02 (hw s)\<rparr>"
  have 0: "busy (hw ?s0) = 0" "at_rest (view (hw ?s0)) ident media"
    using reg_write [OF h i, of "0x3F6" "0x02"] r by (simp_all add: at_rest_def ATA_CTRL_BASE_def spec_reg_def)
  from identify_ok [OF h 0, of 0] obtain s1 where 1: "identify P 0 ?s0 = Some s1" "busy (hw s1) = 0"
    "at_rest (view (hw s1)) ident media" "drives s1 = [found (ident 0), no_drive]" by (auto simp: numeral_2_eq_2)
  from identify_ok [OF h 1(2,3), of 1] 1(4) obtain s2 where 2: "identify P 1 s1 = Some s2"
    "at_rest (view (hw s2)) ident media" "drives s2 = [found (ident 0), found (ident 1)]" by auto
  have "ata_ok P view busy s2"
    using h 2(2,3) by (auto simp: ata_ok_def at_rest_def found_def no_drive_def le_Suc_eq split: option.splits if_splits)
  with 1(1) 2 show ?thesis by (simp add: ata_init_def ATA_MASTER_def ATA_SLAVE_def content_def at_rest_def)
qed

section \<open>On any hardware\<close>

lemma read_words_any:
  "\<forall>i\<in>set is. base + i < length words \<Longrightarrow> \<exists>ws d'. read_words P is base words d = Some (ws, d') \<and> length ws = length words"
proof (induction "is" arbitrary: words d)
  case (Cons i "is")
  obtain w d1 where w: "inw P ATA_REG_DATA d = (w, d1)" by force
  have "\<forall>i\<in>set is. base + i < length (words[base + k := w])" for k using Cons.prems by simp
  from Cons.IH [OF this] w Cons.prems show ?case by fastforce
qed simp

lemma write_words_any:
  "\<forall>i\<in>set is. base + i < length words \<Longrightarrow> \<exists>d'. write_words P is base words d = Some d'"
  by (induction "is" arbitrary: d) auto

lemma sector_loop_any:
  "\<forall>i\<in>set is. base + (i + 1) * 256 \<le> length words \<Longrightarrow>
     \<exists>rc ws d'. sector_loop P writing is base words d = Some (rc, ws, d') \<and> (rc = 0 \<or> rc = -1) \<and> length ws = length words \<and>
       (writing \<longrightarrow> ws = words)"
proof (induction "is" arbitrary: words d)
  case (Cons i "is")
  obtain rc d1 where w: "wait_drq P d = (rc, d1)" by force
  have b: "\<forall>k\<in>set [0..<256]. base + i * 256 + k < length words" using Cons.prems by auto
  show ?case
  proof (cases "rc = 0")
    case False
    with w show ?thesis by simp
  next
    case True
    note rc = this
    show ?thesis
    proof (cases writing)
      case True
      from write_words_any [OF b, of P d1] obtain d2 where "write_words P [0..<256] (base + i * 256) words d1 = Some d2" by blast
      with Cons w rc True show ?thesis by simp
    next
      case False
      from read_words_any [OF b, of P d1] obtain ws d2 where r: "read_words P [0..<256] (base + i * 256) words d1 = Some (ws, d2)"
        "length ws = length words" by blast
      have "\<forall>i\<in>set is. base + (i + 1) * 256 \<le> length ws" using Cons.prems r(2) by simp
      from Cons.IH [OF this, of d2] w rc r False show ?thesis by fastforce
    qed
  qed
qed simp

lemma transfer_chunk_any:
  assumes "base + (if count = 0 then 256 else unat (count :: u8)) * 256 \<le> length words"
  shows "\<exists>rc ws d'. transfer_chunk P drive lba count base words writing d = Some (rc, ws, d') \<and> (rc = 0 \<or> rc = -1) \<and>
    length ws = length words \<and> (writing \<longrightarrow> ws = words)"
proof -
  let ?n = "if count = 0 then 256 else unat count"
  have "\<forall>i\<in>set [0..<?n]. base + (i + 1) * 256 \<le> length words"
  proof
    fix i assume "i \<in> set [0..<?n]"
    then have "(i + 1) * 256 \<le> ?n * 256" by (intro mult_le_mono1) auto
    with assms show "base + (i + 1) * 256 \<le> length words" by linarith
  qed
  note loop = sector_loop_any [OF this, of P writing]
  obtain rc0 d0 where w: "wait_not_busy P d = (rc0, d0)" by force
  let ?d1 = "outb P ATA_REG_COMMAND (if writing then ATA_CMD_WRITE_PIO else ATA_CMD_READ_PIO)
      (outb P ATA_REG_LBA_HIGH (ucast (drop_bit 16 lba AND 0xFF)) (outb P ATA_REG_LBA_MID (ucast (drop_bit 8 lba AND 0xFF))
      (outb P ATA_REG_LBA_LOW (ucast (lba AND 0xFF)) (outb P ATA_REG_SECCOUNT count (outb P ATA_REG_FEATURES 0 (select_drive P drive lba d0))))))"
  from loop [of ?d1] obtain rc ws d2 where l: "sector_loop P writing [0..<?n] base words ?d1 = Some (rc, ws, d2)"
    "length ws = length words" "writing \<longrightarrow> ws = words" by blast
  obtain rc3 d3 where f: "wait_not_busy P d2 = (rc3, d3)" by force
  obtain rc4 d4 where g: "wait_not_busy P (outb P ATA_REG_COMMAND ATA_CMD_CACHE_FLUSH d3) = (rc4, d4)" by force
  show ?thesis
  proof (cases "rc0 = 0")
    case False
    with w show ?thesis by (simp add: transfer_chunk_def)
  next
    case True
    have "transfer_chunk P drive lba count base words writing d =
       (if rc \<noteq> 0 then Some (-1, ws, d2) else if \<not> writing then Some (0, ws, d2)
        else if rc3 \<noteq> 0 then Some (-1, ws, d3) else if rc4 \<noteq> 0 then Some (-1, ws, d4) else Some (0, ws, d4))"
      using w True l(1) f g by (simp add: transfer_chunk_def Let_def)
    with l(2,3) show ?thesis by simp
  qed
qed

lemma transfer_loop_any:
  "base + unat count * 256 \<le> length words \<Longrightarrow>
     \<exists>rc ws d'. transfer_loop P drive lba count base words writing d = Some (rc, ws, d') \<and> (rc = 0 \<or> rc = -1) \<and>
       length ws = length words \<and> (writing \<longrightarrow> ws = words)"
proof (induction "unat count" arbitrary: lba count base words d rule: less_induct)
  case less
  show ?case
  proof (cases "count = 0")
    case True
    then show ?thesis by (simp add: transfer_loop.simps)
  next
    case False
    define chunk :: u32 where c: "chunk = (if count > 255 then 255 else count)"
    have u: "unat chunk \<le> 255" "unat chunk \<le> unat count" "0 < unat chunk"
      using False c by (auto simp: word_less_nat_alt unat_gt_0 split: if_splits)
    have b: "unat (ucast chunk :: u8) = unat chunk" using u(1) by (simp add: unsigned_ucast_eq take_bit_eq_mod)
    then have nz: "(ucast chunk :: u8) \<noteq> 0" using u(3) by (metis unat_0 less_irrefl)
    have s: "unat (count - chunk) = unat count - unat chunk" using u(2) by (simp add: unat_minus_exact)
    have kk: "base + unat chunk * 256 + (unat count - unat chunk) * 256 = base + unat count * 256"
      using u(2) by (simp add: add_mult_distrib [symmetric])
    have "base + (if (ucast chunk :: u8) = 0 then 256 else unat (ucast chunk :: u8)) * 256 \<le> length words"
      using less.prems kk nz b by simp
    from transfer_chunk_any [OF this, of P drive lba writing d] obtain rc ws d1 where
      t: "transfer_chunk P drive lba (ucast chunk) base words writing d = Some (rc, ws, d1)" "rc = 0 \<or> rc = -1"
        "length ws = length words" "writing \<longrightarrow> ws = words" by blast
    have l: "base + unat chunk * 256 + unat (count - chunk) * 256 \<le> length ws" unfolding s kk t(3) by (rule less.prems)
    have "unat (count - chunk) < unat count" using s u by simp
    from less.hyps [OF this l, of "lba + chunk" d1] t show ?thesis
      by (subst transfer_loop.simps) (use False c in \<open>auto simp: Let_def\<close>)
  qed
qed

lemma ata_any:
  assumes "unat count * 256 \<le> length words"
  shows "\<exists>rc ws s'. transfer P drive lba count words writing s = Some (rc, ws, s') \<and> (rc = 0 \<or> rc = -1) \<and>
    length ws = length words \<and> drives s' = drives s \<and> (writing \<longrightarrow> ws = words)"
proof -
  have "0 + unat count * 256 \<le> length words" using assms by simp
  from transfer_loop_any [OF this, of P drive lba writing "hw s"] show ?thesis by (auto simp: transfer_def)
qed

section \<open>As a block device\<close>

lemma sectors_stored:
  "n * 256 \<le> length words \<Longrightarrow>
     sectors_of (media(drive := store_sectors lba n words (media drive))) drive lba n = take (n * 256) words"
proof (induction n arbitrary: lba words media)
  case 0
  then show ?case by (simp add: sectors_of_def)
next
  case (Suc n)
  let ?m = "media(drive := put_sector lba (take 256 words) (media drive))"
  have "sectors_of (?m(drive := store_sectors (lba + 1) n (drop 256 words) (?m drive))) drive (lba + 1) n = take (n * 256) (drop 256 words)"
    by (rule Suc.IH) (use Suc.prems in simp)
  moreover have f: "?m(drive := store_sectors (lba + 1) n (drop 256 words) (?m drive)) = media(drive := store_sectors lba (Suc n) words (media drive))"
    (is "_ = ?f") by (simp add: store_sectors_Suc)
  ultimately have "sectors_of ?f drive (lba + 1) n = take (n * 256) (drop 256 words)" by (simp only:)
  moreover have "?f drive lba = take 256 words" by (simp add: store_sectors_def)
  moreover have "sectors_of ?f drive lba (Suc n) = ?f drive lba @ sectors_of ?f drive (lba + 1) n"
    using sectors_of_add [of ?f drive lba 1 n] by (simp add: sectors_of_def)
  moreover have "take (Suc n * 256) words = take 256 words @ take (n * 256) (drop 256 words)" by (simp add: take_add)
  ultimately show ?case by (simp only:)
qed

lemma sectors_kept:
  "lba' + n' \<le> lba \<or> lba + n \<le> lba' \<Longrightarrow>
     sectors_of (media(drive := store_sectors lba n words (media drive))) drive lba' n' = sectors_of media drive lba' n'"
  unfolding sectors_of_def by (rule arg_cong [where f = concat], rule map_cong) (auto simp: store_sectors_def)

text \<open>
  What the users of a disk rely on: a request within a drive succeeds, reading returns what is
  stored and writing replaces just the sectors named.
\<close>

locale block_device =
  fixes ok :: "'s \<Rightarrow> bool"
    and size :: "'s \<Rightarrow> nat \<Rightarrow> nat"
    and stored :: "'s \<Rightarrow> nat \<Rightarrow> nat \<Rightarrow> u16 list"
    and label :: "'s \<Rightarrow> 'l"
    and rd :: "nat \<Rightarrow> u32 \<Rightarrow> u32 \<Rightarrow> u16 list \<Rightarrow> 's \<Rightarrow> (int \<times> u16 list \<times> 's) option"
    and wr :: "nat \<Rightarrow> u32 \<Rightarrow> u32 \<Rightarrow> u16 list \<Rightarrow> 's \<Rightarrow> (int \<times> 's) option"
  assumes rd_law: "ok s \<Longrightarrow> 0 < size s drive \<Longrightarrow> unat lba + unat n \<le> size s drive \<Longrightarrow> unat n * 256 \<le> length buf \<Longrightarrow>
      \<exists>s'. rd drive lba n buf s = Some (0, sectors_of (stored s) drive (unat lba) (unat n) @ drop (unat n * 256) buf, s') \<and>
        ok s' \<and> size s' = size s \<and> label s' = label s \<and> stored s' = stored s"
    and wr_law: "ok s \<Longrightarrow> 0 < size s drive \<Longrightarrow> unat lba + unat n \<le> size s drive \<Longrightarrow> unat n * 256 \<le> length buf \<Longrightarrow>
      \<exists>s'. wr drive lba n buf s = Some (0, s') \<and> ok s' \<and> size s' = size s \<and> label s' = label s \<and>
        stored s' = (stored s)(drive := store_sectors (unat lba) (unat n) buf (stored s drive))"
begin

lemma wr_rd:
  assumes "ok s" "0 < size s drive" "unat lba + unat n \<le> size s drive" "length buf = unat n * 256" "length buf' = unat n * 256"
  shows "\<exists>s' s''. wr drive lba n buf s = Some (0, s') \<and> rd drive lba n buf' s' = Some (0, buf, s'') \<and> ok s''"
proof -
  from wr_law [OF assms(1-3)] assms(4) obtain s' where w: "wr drive lba n buf s = Some (0, s')" "ok s'" "size s' = size s" "label s' = label s"
    "stored s' = (stored s)(drive := store_sectors (unat lba) (unat n) buf (stored s drive))" by (metis order_refl)
  from rd_law [OF w(2), of drive lba n buf'] w(3,5) assms(2,3,5) obtain s'' where
    "rd drive lba n buf' s' = Some (0, sectors_of (stored s') drive (unat lba) (unat n), s'')" "ok s''" by auto
  moreover have "sectors_of (stored s') drive (unat lba) (unat n) = buf" unfolding w(5) using assms(4) by (simp add: sectors_stored)
  ultimately show ?thesis using w(1) by auto
qed

text \<open>Two writes of areas that do not overlap, the order a snapshot is written in.\<close>

lemma wr_wr:
  assumes "ok s" "0 < size s drive" "unat lba + unat n \<le> size s drive" "length buf = unat n * 256"
    and "unat lba' + unat n' \<le> size s drive" "length buf' = unat n' * 256"
    and "unat lba + unat n \<le> unat lba' \<or> unat lba' + unat n' \<le> unat lba"
  shows "\<exists>s' s''. wr drive lba n buf s = Some (0, s') \<and> wr drive lba' n' buf' s' = Some (0, s'') \<and> ok s'' \<and> size s'' = size s \<and> label s'' = label s \<and>
    sectors_of (stored s'') drive (unat lba) (unat n) = buf \<and> sectors_of (stored s'') drive (unat lba') (unat n') = buf' \<and>
    (\<forall>i. i \<noteq> drive \<longrightarrow> stored s'' i = stored s i) \<and>
    (\<forall>l. l < unat lba \<and> l < unat lba' \<longrightarrow> stored s'' drive l = stored s drive l)"
proof -
  from wr_law [OF assms(1-3)] assms(4) obtain s' where w: "wr drive lba n buf s = Some (0, s')" "ok s'" "size s' = size s" "label s' = label s"
    "stored s' = (stored s)(drive := store_sectors (unat lba) (unat n) buf (stored s drive))" by (metis order_refl)
  from wr_law [OF w(2), of drive lba' n' buf'] w(3) assms(2,5,6) obtain s'' where x: "wr drive lba' n' buf' s' = Some (0, s'')" "ok s''"
    "size s'' = size s" "label s'' = label s'" "stored s'' = (stored s')(drive := store_sectors (unat lba') (unat n') buf' (stored s' drive))" by auto
  have "sectors_of (stored s'') drive (unat lba') (unat n') = buf'" unfolding x(5) using assms(6) by (simp add: sectors_stored)
  moreover have "sectors_of (stored s'') drive (unat lba) (unat n) = sectors_of (stored s') drive (unat lba) (unat n)"
    unfolding x(5) by (rule sectors_kept) (use assms(7) in auto)
  moreover have "sectors_of (stored s') drive (unat lba) (unat n) = buf" unfolding w(5) using assms(4) by (simp add: sectors_stored)
  moreover have "l < unat lba \<and> l < unat lba' \<longrightarrow> stored s'' drive l = stored s drive l" for l
    using w(5) x(5) by (simp add: store_sectors_def)
  moreover have "i \<noteq> drive \<longrightarrow> stored s'' i = stored s i" for i using w(5) x(5) by simp
  ultimately show ?thesis using w(1) x(1-4) w(4) by auto
qed

end

interpretation disk: block_device "ata_ok P view busy" "\<lambda>s drive. unat (ata_sector_count drive s)" "content view"
    "\<lambda>s. (drives s, v_ident (view (hw s)))" "ata_read P" "ata_write P"
  for P view busy
proof (unfold_locales, goal_cases)
  case (1 s drive lba n buf)
  from 1(2) have p: "ata_present drive s" by (auto simp: ata_sector_count_def split: if_splits)
  from ata_read_sectors [OF 1(1) p 1(3,4)] obtain s' where
    "ata_read P drive lba n buf s = Some (0, sectors_of (content view s) drive (unat lba) (unat n) @ drop (unat n * 256) buf, s')"
    "ata_ok P view busy s'" "content view s' = content view s" "drives s' = drives s" "v_ident (view (hw s')) = v_ident (view (hw s))" by blast
  then show ?case by (auto simp: ata_sector_count_def ata_present_def)
next
  case (2 s drive lba n buf)
  from 2(2) have p: "ata_present drive s" by (auto simp: ata_sector_count_def split: if_splits)
  from ata_write_sectors [OF 2(1) p 2(3,4)] obtain s' where
    "ata_write P drive lba n buf s = Some (0, s')" "ata_ok P view busy s'" "drives s' = drives s" "v_ident (view (hw s')) = v_ident (view (hw s))"
    "content view s' = (content view s)(drive := store_sectors (unat lba) (unat n) buf (content view s drive))" by blast
  then show ?case by (auto simp: ata_sector_count_def ata_present_def)
qed

section \<open>Drives that meet the documentation\<close>

text \<open>Two small drives, always ready; they show that the hypotheses on the hardware can hold.\<close>

definition demo_ident :: "u16 list" where
  "demo_ident = (replicate 256 0)[60 := 1000]"

definition demo_view :: ata_view where
  "demo_view = \<lparr>v_drive = 0, v_count = 0, v_low = 0, v_mid = 0, v_high = 0, v_ident = (\<lambda>i. if i \<le> 1 then Some demo_ident else None),
     v_media = (\<lambda>drive lba. replicate 256 0), v_phase = Idle\<rparr>"

definition sane :: "ata_view \<Rightarrow> ata_view" where
  "sane v = (if view_ok v then v else demo_view)"

definition demo_ports :: "ata_view ports" where
  "demo_ports = \<lparr>inb = (\<lambda>p d. let v = sane d in
       (if p = 0x1F7 then (if v_ident v (v_sel v) = None then 0 else if v_phase v = Idle then 0x50 else 0x58)
        else if p = 0x1F4 then v_mid v else if p = 0x1F5 then v_high v else 0, v)),
     outb = (\<lambda>p x d. if p = 0x1F7 then spec_command x (sane d) else spec_reg p x (sane d)),
     inw = (\<lambda>p d. spec_in (sane d)), outw = (\<lambda>p x d. spec_out x (sane d))\<rparr>"

lemma demo_size: "unat (ident_sectors demo_ident) = 1000"
  by (simp add: ident_sectors_def demo_ident_def nth_list_update)

lemma sane_ok: "view_ok (sane v)"
proof -
  have "view_ok demo_view" using demo_size by (simp add: view_ok_def demo_view_def) (simp add: demo_ident_def)
  then show ?thesis by (simp add: sane_def)
qed

lemma sane_id [simp]: "view_ok v \<Longrightarrow> sane v = v"
  by (simp add: sane_def)

lemma spec_view_ok:
  assumes "view_ok v"
  shows "view_ok (spec_reg p x v)" "view_ok (spec_command x v)" "view_ok (snd (spec_in v))" "view_ok (spec_out w v)"
proof -
  have s: "view_ok (start_in ss v)" for ss using assms by (auto simp: view_ok_def start_in_def split: list.splits)
  show "view_ok (spec_reg p x v)" using assms by (simp add: view_ok_def spec_reg_def)
  show "view_ok (spec_command x v)" using assms s by (auto simp: view_ok_def spec_command_def split: option.splits)
  show "view_ok (snd (spec_in v))" using assms s by (auto simp: view_ok_def spec_in_def split: phase.splits list.splits)
  show "view_ok (spec_out w v)"
  proof (cases "v_phase v")
    case (DataOut lba n ws)
    with assms have "length ws < 256" by (auto simp: view_ok_def)
    then have "\<not> length ws < 255 \<Longrightarrow> length (ws @ [w]) = 256" by simp
    with DataOut assms show ?thesis by (auto simp: view_ok_def spec_out_def put_sector_def)
  qed (use assms in \<open>simp_all add: spec_out_def\<close>)
qed

lemma demo_healthy: "healthy demo_ports sane (\<lambda>_. 0)"
proof -
  have p: "0 < POLL_LIMIT" by (simp add: POLL_LIMIT_def)
  have s: "status_law demo_ports sane (\<lambda>_. 0)"
    by (auto simp: status_law_def demo_ports_def status_ok_def sane_ok Let_def)
  have r: "register_law demo_ports sane (\<lambda>_. 0)"
    by (auto simp: register_law_def demo_ports_def sane_ok spec_view_ok Let_def)
  have c: "command_law demo_ports sane (\<lambda>_. 0)"
    by (simp add: command_law_def demo_ports_def sane_ok spec_view_ok)
  have d: "data_law demo_ports sane (\<lambda>_. 0)"
    by (simp add: data_law_def demo_ports_def sane_ok spec_view_ok) (auto simp: spec_in_def)
  from p s r c d show ?thesis by (simp add: healthy_def documented_def steady_def sane_ok)
qed

lemma demo_start: "view_ok demo_view" "at_rest demo_view (\<lambda>i. if i \<le> 1 then Some demo_ident else None) (\<lambda>_ _. replicate 256 0)"
  using demo_size by (simp_all add: view_ok_def demo_view_def at_rest_def) (simp add: demo_ident_def)

definition demo_ata :: "ata_view ata" where
  "demo_ata = \<lparr>hw = demo_view, drives = replicate 2 (found (Some demo_ident))\<rparr>"

lemma demo_ata_ok: "ata_ok demo_ports sane (\<lambda>_. 0) demo_ata" "ata_present i demo_ata = (i \<le> 1)"
  "unat (ata_sector_count 0 demo_ata) = 1000" "unat (ata_sector_count 1 demo_ata) = 1000"
proof -
  have f: "found (Some demo_ident) = \<lparr>present = True, sectors = ident_sectors demo_ident, model = copy_model demo_ident\<rparr>"
    using demo_size by (auto simp: found_def)
  show "ata_ok demo_ports sane (\<lambda>_. 0) demo_ata"
    using demo_healthy demo_start by (auto simp: ata_ok_def demo_ata_def f at_rest_def nth_replicate)
  show "ata_present i demo_ata = (i \<le> 1)" by (auto simp: ata_present_def demo_ata_def f ATA_SLAVE_def)
  show "unat (ata_sector_count 0 demo_ata) = 1000" "unat (ata_sector_count 1 demo_ata) = 1000"
    using demo_size by (simp_all add: ata_sector_count_def ata_present_def demo_ata_def f ATA_SLAVE_def)
qed

section \<open>Drives that show more than BSY\<close>

text \<open>
  A documented drive may show anything beside BSY while it is busy.  \<open>steadied P busy\<close> are the same
  ports with ERR and DF masked during that time: the driver runs on them as on \<open>P\<close>, except where
  \<open>wait_drq\<close> takes one of the two bits for an error.
\<close>

definition steadied :: "'d ports \<Rightarrow> ('d \<Rightarrow> nat) \<Rightarrow> 'd ports" where
  "steadied P busy = P\<lparr>inb := (\<lambda>p d. if p = 0x1F7 \<and> 0 < busy d then (fst (inb P p d) AND NOT 0x21, snd (inb P p d)) else inb P p d)\<rparr>"

lemma masked_status: "(st AND - 34) AND 0x80 = st AND (0x80 :: u8)" "(st AND - 34) AND 0x21 = (0 :: u8)"
  by (simp_all add: and.assoc)

lemma unmasked_status: "st AND 0x21 = 0 \<Longrightarrow> st AND NOT 0x21 = (st :: u8)"
proof -
  assume "st AND 0x21 = 0"
  moreover have "st = (st AND 0x21) OR (st AND NOT 0x21)" by (auto intro: bit_word_eqI simp: bit_simps)
  ultimately show ?thesis by (metis or.left_neutral)
qed

lemma steadied_steady: "steady (steadied P busy) busy"
  by (simp add: steady_def steadied_def masked_status)

lemma steadied_healthy:
  assumes "documented P view busy"
  shows "healthy (steadied P busy) view busy"
proof -
  have s: "status_law (steadied P busy) view busy"
  proof -
    have l: "status_law P view busy" using assms by (simp add: documented_def)
    have "status_ok (view d) (busy d) (fst (inb (steadied P busy) 0x1F7 d))" for d
    proof -
      have "status_ok (view d) (busy d) (fst (inb P 0x1F7 d))" using l by (simp add: status_law_def)
      then show ?thesis by (cases "busy d = 0") (simp_all add: steadied_def status_ok_def masked_status)
    qed
    moreover have "snd (inb (steadied P busy) p d) = snd (inb P p d)" for p d by (simp add: steadied_def)
    ultimately show ?thesis using l by (simp add: status_law_def)
  qed
  have "register_law (steadied P busy) view busy" "command_law (steadied P busy) view busy" "data_law (steadied P busy) view busy"
    using assms by (simp_all add: documented_def register_law_def command_law_def data_law_def steadied_def)
  with s assms steadied_steady show ?thesis by (simp add: healthy_def documented_def)
qed

lemma steadied_ops [simp]:
  "outb (steadied P busy) = outb P" "inw (steadied P busy) = inw P" "outw (steadied P busy) = outw P"
  "io_delay_400ns (steadied P busy) = io_delay_400ns P" "select_drive (steadied P busy) = select_drive P"
proof -
  show o: "outb (steadied P busy) = outb P" "inw (steadied P busy) = inw P" "outw (steadied P busy) = outw P"
    by (simp_all add: steadied_def)
  show d: "io_delay_400ns (steadied P busy) = io_delay_400ns P"
    by (intro ext) (simp add: io_delay_400ns_def steadied_def ATA_CTRL_BASE_def)
  show "select_drive (steadied P busy) = select_drive P" by (intro ext) (simp add: select_drive_def o d)
qed

lemma steadied_words [simp]:
  "read_words (steadied P busy) is base words d = read_words P is base words d"
  "write_words (steadied P busy) is base words d = write_words P is base words d"
  by (induction "is" arbitrary: words d) (auto split: prod.splits)

lemma steadied_wait [simp]: "wait_not_busy (steadied P busy) = wait_not_busy P"
proof -
  have "wait_not_busy_loop (steadied P busy) n d = wait_not_busy_loop P n d" for n d
  proof (induction n arbitrary: d)
    case (Suc n)
    obtain st d1 where "inb P 0x1F7 d = (st, d1)" by force
    with Suc show ?case by (simp add: steadied_def ata_ports masked_status)
  qed simp
  then show ?thesis by (intro ext) (simp add: wait_not_busy_def)
qed

lemma wait_drq_loop_steadied:
  "wait_drq_loop P n d = wait_drq_loop (steadied P busy) n d \<or> fst (wait_drq_loop P n d) = -1 \<and> \<not> steady P busy"
proof (induction n arbitrary: d)
  case (Suc n)
  obtain st d1 where i: "inb P 0x1F7 d = (st, d1)" by force
  show ?case
  proof (cases "0 < busy d \<and> st AND 0x21 \<noteq> 0")
    case True
    then have "\<not> steady P busy" using i by (auto simp: steady_def)
    with True i show ?thesis by (simp add: ata_ports)
  next
    case False
    then have "inb (steadied P busy) 0x1F7 d = (st, d1)" using i unmasked_status [of st] by (auto simp: steadied_def)
    with i Suc.IH [of d1] show ?thesis by (simp add: ata_ports)
  qed
qed simp

lemma wait_drq_steadied: "wait_drq P d = wait_drq (steadied P busy) d \<or> fst (wait_drq P d) = -1 \<and> \<not> steady P busy"
  by (simp add: wait_drq_def wait_drq_loop_steadied)

text \<open>A run that meets the bits ends there.\<close>

definition aborted :: "'d ports \<Rightarrow> ('d \<Rightarrow> nat) \<Rightarrow> (int \<times> u16 list \<times> 'd) option \<Rightarrow> bool" where
  "aborted P busy r \<longleftrightarrow> \<not> steady P busy \<and> (\<exists>ws d. r = Some (-1, ws, d))"

lemma sector_loop_steadied:
  "sector_loop P writing is base words d = sector_loop (steadied P busy) writing is base words d \<or>
     aborted P busy (sector_loop P writing is base words d)"
proof (induction "is" arbitrary: words d)
  case (Cons i "is")
  obtain rc d1 where w: "wait_drq P d = (rc, d1)" by force
  from wait_drq_steadied [of P d busy] consider "wait_drq (steadied P busy) d = (rc, d1)" | "rc = -1" "\<not> steady P busy"
    unfolding w by auto
  then show ?case
  proof cases
    case 1
    with w Cons.IH show ?thesis
      by (fastforce simp: Let_def aborted_def split: Option.bind_splits)
  next
    case 2
    with w show ?thesis by (simp add: aborted_def)
  qed
qed simp

lemma transfer_chunk_steadied:
  "transfer_chunk P drive lba count base words writing d = transfer_chunk (steadied P busy) drive lba count base words writing d \<or>
     aborted P busy (transfer_chunk P drive lba count base words writing d)"
proof -
  obtain rc d1 where w: "wait_not_busy P d = (rc, d1)" by force
  let ?d2 = "outb P ATA_REG_COMMAND (if writing then ATA_CMD_WRITE_PIO else ATA_CMD_READ_PIO)
      (outb P ATA_REG_LBA_HIGH (ucast (drop_bit 16 lba AND 0xFF)) (outb P ATA_REG_LBA_MID (ucast (drop_bit 8 lba AND 0xFF))
      (outb P ATA_REG_LBA_LOW (ucast (lba AND 0xFF)) (outb P ATA_REG_SECCOUNT count (outb P ATA_REG_FEATURES 0 (select_drive P drive lba d1))))))"
  let ?run = "\<lambda>P. sector_loop P writing [0..<(if count = 0 then 256 else unat count)] base words ?d2"
  let ?tail = "\<lambda>(rc, words, d). if rc \<noteq> 0 then Some (-1, words, d) else if \<not> writing then Some (0, words, d)
      else let (rc, d) = wait_not_busy P d
        in if rc \<noteq> 0 then Some (-1, words, d)
           else let d = outb P ATA_REG_COMMAND ATA_CMD_CACHE_FLUSH d; (rc, d) = wait_not_busy P d
             in if rc \<noteq> 0 then Some (-1, words, d) else Some (0, words, d)"
  have p: "transfer_chunk P drive lba count base words writing d = (if rc \<noteq> 0 then Some (-1, words, d1) else ?run P \<bind> ?tail)"
    unfolding transfer_chunk_def w by (simp only: Let_def prod.case)
  have q: "transfer_chunk (steadied P busy) drive lba count base words writing d =
      (if rc \<noteq> 0 then Some (-1, words, d1) else ?run (steadied P busy) \<bind> ?tail)"
    unfolding transfer_chunk_def steadied_ops steadied_wait w by (simp only: Let_def prod.case)
  from sector_loop_steadied [of P writing "[0..<(if count = 0 then 256 else unat count)]" base words ?d2 busy]
  consider "?run P = ?run (steadied P busy)" | "aborted P busy (?run P)" by (elim disjE)
  then show ?thesis
  proof cases
    case 1
    then show ?thesis unfolding p q by simp
  next
    case 2
    then obtain ws d3 where "?run P = Some (-1, ws, d3)" "\<not> steady P busy" unfolding aborted_def by blast
    then show ?thesis unfolding p q by (simp add: aborted_def)
  qed
qed

lemma transfer_loop_steadied:
  "transfer_loop P drive lba count base words writing d = transfer_loop (steadied P busy) drive lba count base words writing d \<or>
     aborted P busy (transfer_loop P drive lba count base words writing d)"
proof (induction "unat count" arbitrary: lba count base words d rule: less_induct)
  case less
  show ?case
  proof (cases "count = 0")
    case True
    then show ?thesis by (simp add: transfer_loop.simps)
  next
    case False
    define chunk :: u32 where c: "chunk = (if count > 255 then 255 else count)"
    have u: "unat chunk \<le> unat count" "0 < unat chunk"
      using False c by (auto simp: word_less_nat_alt unat_gt_0 split: if_splits)
    then have l: "unat (count - chunk) < unat count" by (simp add: unat_minus_exact)
    have t: "transfer_loop Q drive lba count base words writing d = do {
        (rc, words, d) \<leftarrow> transfer_chunk Q drive lba (ucast chunk) base words writing d;
        if rc \<noteq> 0 then Some (-1, words, d)
        else transfer_loop Q drive (lba + chunk) (count - chunk) (base + unat chunk * 256) words writing d }" for Q
      by (subst transfer_loop.simps) (simp add: False c [symmetric] Let_def)
    from transfer_chunk_steadied [of P drive lba "ucast chunk" base words writing d busy] less.hyps [OF l]
    show ?thesis unfolding t by (fastforce simp: aborted_def split: Option.bind_splits prod.splits)
  qed
qed

lemma transfer_steadied:
  "transfer P drive lba count words writing s = transfer (steadied P busy) drive lba count words writing s \<or>
     \<not> steady P busy \<and> (\<exists>ws s'. transfer P drive lba count words writing s = Some (-1, ws, s') \<and> drives s' = drives s)"
  using transfer_loop_steadied [of P drive lba count 0 words writing "hw s" busy]
  by (auto simp: transfer_def aborted_def)

text \<open>Between two calls, on drives that are only as the standard documents them.\<close>

definition ata_ready :: "'d ports \<Rightarrow> ('d \<Rightarrow> ata_view) \<Rightarrow> ('d \<Rightarrow> nat) \<Rightarrow> 'd ata \<Rightarrow> bool" where
  "ata_ready P view busy s \<longleftrightarrow> documented P view busy \<and> v_phase (view (hw s)) = Idle \<and> length (drives s) = 2 \<and>
     (\<forall>i\<le>1. present (drives s ! i) \<longrightarrow>
        (\<exists>w. v_ident (view (hw s)) i = Some w \<and> sectors (drives s ! i) = ident_sectors w))"

lemma ata_ok_ready: "ata_ok P view busy s \<longleftrightarrow> ata_ready P view busy s \<and> steady P busy"
  by (auto simp: ata_ok_def ata_ready_def healthy_def)

lemma ata_ready_ok: "ata_ready P view busy s \<longleftrightarrow> documented P view busy \<and> ata_ok (steadied P busy) view busy s"
  using steadied_healthy [of P view busy] by (auto simp: ata_ok_def ata_ready_def)

text \<open>
  Two drives that are busy for three status reads after a command and for two after a sector, and
  show \<open>x\<close> as their status meanwhile.
\<close>

definition slow_busy :: "ata_view \<times> nat \<Rightarrow> nat" where
  "slow_busy d = (if v_ident (sane (fst d)) (v_sel (sane (fst d))) = None then 0 else min (snd d) 3)"

definition slow_ports :: "u8 \<Rightarrow> (ata_view \<times> nat) ports" where
  "slow_ports x = \<lparr>inb = (\<lambda>p d. if p = 0x1F7 \<and> 0 < slow_busy d then (x, fst d, slow_busy d - 1)
       else (fst (inb demo_ports p (fst d)), snd (inb demo_ports p (fst d)), slow_busy d)),
     outb = (\<lambda>p y d. (outb demo_ports p y (fst d), if p = 0x1F7 then 3 else 0)),
     inw = (\<lambda>p d. let (w, v) = inw demo_ports p (fst d)
       in (w, v, case v_phase (sane (fst d)) of DataIn [w] (s # ss) \<Rightarrow> 2 | _ \<Rightarrow> 0)),
     outw = (\<lambda>p y d. (outw demo_ports p y (fst d), case v_phase (sane (fst d)) of DataOut l n ws \<Rightarrow> if length ws < 255 then 0 else 2 | _ \<Rightarrow> 0))\<rparr>"

lemma slow_documented:
  assumes "x AND 0x80 \<noteq> 0"
  shows "documented (slow_ports x) (\<lambda>d. sane (fst d)) slow_busy"
proof -
  have p: "slow_busy d < POLL_LIMIT" for d by (auto simp: slow_busy_def POLL_LIMIT_def min_def)
  have dl: "status_law demo_ports sane (\<lambda>_. 0)" "register_law demo_ports sane (\<lambda>_. 0)" "command_law demo_ports sane (\<lambda>_. 0)"
    "data_law demo_ports sane (\<lambda>_. 0)" using demo_healthy by (simp_all add: healthy_def documented_def)
  have v: "sane (snd (inb demo_ports p v)) = sane v" for p v using sane_ok by (simp add: demo_ports_def Let_def)
  have b: "slow_busy (snd (inb demo_ports p (fst d)), slow_busy d) = slow_busy d" for p d
    unfolding slow_busy_def fst_conv snd_conv v by simp
  have b1: "slow_busy (fst d, slow_busy d - 1) = slow_busy d - 1" for d by (simp add: slow_busy_def)
  have z: "slow_busy (v, 0) = 0" for v by (simp add: slow_busy_def)
  have absent: "v_ident (sane (fst d)) (v_sel (sane (fst d))) = None \<Longrightarrow> slow_busy d = 0" for d by (simp add: slow_busy_def)
  have "status_law (slow_ports x) (\<lambda>d. sane (fst d)) slow_busy"
  proof -
    have "status_ok (sane (fst d)) (slow_busy d) (fst (inb (slow_ports x) 0x1F7 d))" for d
      using dl(1) assms by (cases "slow_busy d = 0") (simp_all add: status_law_def slow_ports_def status_ok_def)
    moreover have "sane (fst (snd (inb (slow_ports x) p d))) = sane (fst d)" for p d by (simp add: slow_ports_def v)
    moreover have "0 < slow_busy d \<Longrightarrow> slow_busy (snd (inb (slow_ports x) 0x1F7 d)) < slow_busy d" for d
      using b1 [of d] by (simp add: slow_ports_def)
    moreover have "slow_busy (snd (inb (slow_ports x) 0x3F6 d)) = slow_busy d"
      "slow_busy d = 0 \<Longrightarrow> slow_busy (snd (inb (slow_ports x) 0x1F7 d)) = 0" for d by (simp_all add: slow_ports_def b z)
    ultimately show ?thesis using absent unfolding status_law_def by simp
  qed
  moreover have "register_law (slow_ports x) (\<lambda>d. sane (fst d)) slow_busy"
    using dl(2) by (simp add: register_law_def slow_ports_def v z)
  moreover have "command_law (slow_ports x) (\<lambda>d. sane (fst d)) slow_busy"
    using dl(3) by (simp add: command_law_def slow_ports_def)
  moreover have "data_law (slow_ports x) (\<lambda>d. sane (fst d)) slow_busy"
    using dl(4) by (auto simp: data_law_def slow_ports_def z Let_def split_beta split: list.splits)
  ultimately show ?thesis using p sane_ok by (simp add: documented_def)
qed

lemma slow_steady: "x AND 0x21 = 0 \<Longrightarrow> steady (slow_ports x) slow_busy"
  by (auto simp: steady_def slow_ports_def)

definition slow_ata :: "(ata_view \<times> nat) ata" where
  "slow_ata = \<lparr>hw = (demo_view, 0), drives = replicate 2 (found (Some demo_ident))\<rparr>"

lemma slow_ready:
  assumes "x AND 0x80 \<noteq> 0"
  shows "ata_ready (slow_ports x) (\<lambda>d. sane (fst d)) slow_busy slow_ata" "ata_present i slow_ata = (i \<le> 1)"
    "unat (ata_sector_count 0 slow_ata) = 1000" "content (\<lambda>d. sane (fst d)) slow_ata = (\<lambda>_ _. replicate 256 0)"
proof -
  have d: "drives slow_ata = drives demo_ata" by (simp add: slow_ata_def demo_ata_def)
  show "ata_present i slow_ata = (i \<le> 1)" "unat (ata_sector_count 0 slow_ata) = 1000"
  proof -
    have p: "ata_present i slow_ata = ata_present i demo_ata" for i by (simp add: ata_present_def d)
    show "ata_present i slow_ata = (i \<le> 1)" unfolding p by (rule demo_ata_ok(2))
    show "unat (ata_sector_count 0 slow_ata) = 1000" using demo_ata_ok(3) by (simp only: ata_sector_count_def p d)
  qed
  show "ata_ready (slow_ports x) (\<lambda>d. sane (fst d)) slow_busy slow_ata"
    using slow_documented [OF assms] demo_ata_ok(1) demo_start(1) unfolding ata_ready_def ata_ok_def d by (simp add: slow_ata_def demo_ata_def)
  show "content (\<lambda>d. sane (fst d)) slow_ata = (\<lambda>_ _. replicate 256 0)"
    using demo_start by (simp add: content_def slow_ata_def at_rest_def)
qed

text \<open>
  The defect behind the condition: \<open>wait_drq\<close> looks at ERR and DF before it looks at BSY.  A drive that
  leaves ERR set until it has dealt with a new command, which the standard allows as the bit does not
  count while BSY is set, makes a read fail that has nothing wrong with it.
\<close>

theorem ata_read_premature_error:
  "ata_ready (slow_ports 0x81) (\<lambda>d. sane (fst d)) slow_busy slow_ata \<and> ata_present 0 slow_ata \<and>
   (\<exists>ws s'. ata_read (slow_ports 0x81) 0 5 1 (replicate 256 0) slow_ata = Some (-1, ws, s'))"
proof -
  let ?P = "slow_ports 0x81" and ?view = "\<lambda>d. sane (fst d)"
  let ?Q = "steadied ?P slow_busy" and ?d = "hw slow_ata"
  have x: "(0x81 :: u8) AND 0x80 \<noteq> 0" by simp
  note r = slow_ready [OF x]
  have ok: "ata_ok ?Q ?view slow_busy slow_ata" using r(1) by (simp add: ata_ready_ok)
  then have h: "healthy ?Q ?view slow_busy" by (simp add: ata_ok_def)
  have rng: "in_range (v_ident (?view ?d)) 0 (unat (5 :: u32)) 1" "\<not> (5 :: u32) + 1 > sectors (drives slow_ata ! 0)"
    using ata_ok_range [OF ok, of 0 5 1] r(2,3) by simp_all
  obtain d1 d2 where c: "wait_not_busy ?Q ?d = (0, d1)"
    "outb ?Q 0x1F7 0x20 (outb ?Q 0x1F5 (ucast (drop_bit 16 (5 :: u32) AND 0xFF)) (outb ?Q 0x1F4 (ucast (drop_bit 8 (5 :: u32) AND 0xFF))
      (outb ?Q 0x1F3 (ucast ((5 :: u32) AND 0xFF)) (outb ?Q 0x1F2 1 (outb ?Q 0x1F1 0 (select_drive ?Q 0 5 d1)))))) = d2"
    "?view d2 = spec_command 0x20 (addressed 0 5 1 (?view ?d))" "v_sel (addressed 0 5 1 (?view ?d)) = 0"
    by (rule chunk_command [OF h ata_ok_rest [OF ok] _ rng(1), of 1 "0x20"]) simp_all
  have i: "v_ident (?view ?d) 0 \<noteq> None" using rng(1) by (auto simp: in_range_def split: option.splits)
  have "v_ident (?view d2) (v_sel (?view d2)) \<noteq> None"
    using c(3,4) i by (auto simp: spec_command_def split: option.splits)
  moreover have "snd d2 = 3" using c(2) by (auto simp: slow_ports_def)
  ultimately have "slow_busy d2 = 3" by (simp add: slow_busy_def)
  then have "inb ?P 0x1F7 d2 = (0x81, fst d2, 2)" by (simp add: slow_ports_def)
  then have "wait_drq_loop ?P (Suc n) d2 = (-1, fst d2, 2)" for n by (simp add: ata_ports)
  from this [of 999999] have w: "wait_drq ?P d2 = (-1, fst d2, 2)" by (simp add: wait_drq_def POLL_LIMIT_def)
  have "transfer_chunk ?P 0 5 1 0 (replicate 256 0) False ?d = Some (-1, replicate 256 0, fst d2, 2)"
    using c(1,2) w by (simp add: transfer_chunk_def ata_ports)
  then have "transfer_loop ?P 0 5 1 0 (replicate 256 0) False ?d = Some (-1, replicate 256 0, fst d2, 2)"
    by (subst transfer_loop.simps) simp
  then have "ata_read ?P 0 5 1 (replicate 256 0) slow_ata = Some (-1, replicate 256 0, slow_ata\<lparr>hw := (fst d2, 2)\<rparr>)"
    using r(2) rng(2) by (simp add: ata_read_def transfer_def)
  with r(1,2) show ?thesis by blast
qed

section \<open>Properties\<close>

text \<open>On drives that behave as documented \<open>ata_init\<close> returns with the table of the drives
  that are there: present with the sector count and the model of their identification data, and
  absent for an empty slot or a drive of no sectors; the contents of the drives are untouched.\<close>

theorem ata_init_identifies:
  assumes "healthy P view busy" "busy (hw s) = 0" "at_rest (view (hw s)) ident media"
  shows "\<exists>s'. ata_init P s = Some s' \<and> drives s' = map found [ident ATA_MASTER, ident ATA_SLAVE] \<and>
    ata_ok P view busy s' \<and> content view s' = media"
  using ata_init_found [OF assms] by (auto simp: ATA_MASTER_def ATA_SLAVE_def)

theorem ata_init_identifies_witness:
  "\<exists>s'. ata_init demo_ports demo_ata = Some s' \<and> drives s' = map found [Some demo_ident, Some demo_ident] \<and>
     ata_ok demo_ports sane (\<lambda>_. 0) s' \<and> content sane s' = (\<lambda>_ _. replicate 256 0)"
  using ata_init_identifies [OF demo_healthy, of demo_ata "\<lambda>i. if i \<le> 1 then Some demo_ident else None" "\<lambda>_ _. replicate 256 0"] demo_start
  by (simp add: demo_ata_def ATA_MASTER_def ATA_SLAVE_def)

text \<open>Property C28: on drives that behave as documented a request within a present drive, whatever its size,
  succeeds, or is given up with -1 because a status read while the drive was busy showed ERR or DF; a
  drive on which these bits stay clear until BSY does never makes it fail.  When it succeeds,
  \<open>ata_read\<close> has filled the buffer with exactly the sectors named and changed nothing, and \<open>ata_write\<close>
  has replaced exactly the sectors named by the words of the buffer; the drives are ready for the next
  request.\<close>

theorem ata_transfers:
  assumes "ata_ready P view busy s" "ata_present drive s" "unat lba + unat count \<le> unat (ata_sector_count drive s)"
    and "length words = unat count * 256"
  shows "(\<exists>rc ws s'. ata_read P drive lba count words s = Some (rc, ws, s') \<and> drives s' = drives s \<and>
      (if rc = 0 then ws = sectors_of (content view s) drive (unat lba) (unat count) \<and> ata_ready P view busy s' \<and>
         content view s' = content view s
       else rc = -1 \<and> \<not> steady P busy)) \<and>
    (\<exists>rc s'. ata_write P drive lba count words s = Some (rc, s') \<and> drives s' = drives s \<and>
      (if rc = 0 then ata_ready P view busy s' \<and>
         (\<forall>i l. content view s' i l = (if i = drive \<and> unat lba \<le> l \<and> l < unat lba + unat count
            then take 256 (drop ((l - unat lba) * 256) words) else content view s i l))
       else rc = -1 \<and> \<not> steady P busy))"
proof -
  let ?Q = "steadied P busy"
  have len: "unat count * 256 \<le> length words" using assms(4) by simp
  have ok: "ata_ok ?Q view busy s" and d: "documented P view busy" using assms(1) by (simp_all add: ata_ready_ok)
  from ata_read_sectors [OF ok assms(2,3) len] assms(4) obtain s1 where
    rd1: "ata_read ?Q drive lba count words s = Some (0, sectors_of (content view s) drive (unat lba) (unat count), s1)"
      "ata_ok ?Q view busy s1" "content view s1 = content view s" "drives s1 = drives s" by auto
  from ata_write_sectors [OF ok assms(2,3) len] obtain s2 where
    wr2: "ata_write ?Q drive lba count words s = Some (0, s2)" "ata_ok ?Q view busy s2" "drives s2 = drives s"
      "content view s2 = (content view s)(drive := store_sectors (unat lba) (unat count) words (content view s drive))" by blast
  have r: "ata_ready P view busy s1" "ata_ready P view busy s2" using rd1(2) wr2(2) d by (simp_all add: ata_ready_ok)
  have rd: "ata_read P drive lba count words s = ata_read ?Q drive lba count words s \<or>
      \<not> steady P busy \<and> (\<exists>ws s'. ata_read P drive lba count words s = Some (-1, ws, s') \<and> drives s' = drives s)"
    using transfer_steadied [of P drive lba count words False s busy] by (simp add: ata_read_def)
  have wr: "ata_write P drive lba count words s = ata_write ?Q drive lba count words s \<or>
      \<not> steady P busy \<and> (\<exists>s'. ata_write P drive lba count words s = Some (-1, s') \<and> drives s' = drives s)"
    using transfer_steadied [of P drive lba count words True s busy] by (auto simp: ata_write_def)
  show ?thesis
  proof (intro conjI, goal_cases)
    case 1
    show ?case
    proof (cases "ata_read P drive lba count words s = ata_read ?Q drive lba count words s")
      case True
      show ?thesis unfolding True using rd1 r(1) by auto
    next
      case False
      with rd obtain ws s' where "ata_read P drive lba count words s = Some (-1, ws, s')" "drives s' = drives s" "\<not> steady P busy" by blast
      then show ?thesis by (intro exI [of _ "-1"] exI [of _ ws] exI [of _ s']) simp
    qed
  next
    case 2
    show ?case
    proof (cases "ata_write P drive lba count words s = ata_write ?Q drive lba count words s")
      case True
      show ?thesis unfolding True using wr2 r(2) by (auto simp: store_sectors_def)
    next
      case False
      with wr obtain s' where "ata_write P drive lba count words s = Some (-1, s')" "drives s' = drives s" "\<not> steady P busy" by blast
      then show ?thesis by (intro exI [of _ "-1"] exI [of _ s']) simp
    qed
  qed
qed

theorem ata_transfers_witness:
  "\<exists>s'. ata_write (slow_ports 0x80) 0 998 2 (replicate 512 7) slow_ata = Some (0, s') \<and>
     content (\<lambda>d. sane (fst d)) s' 0 997 = replicate 256 0 \<and> content (\<lambda>d. sane (fst d)) s' 0 998 = replicate 256 7 \<and>
     content (\<lambda>d. sane (fst d)) s' 0 999 = replicate 256 7"
proof -
  have x: "(0x80 :: u8) AND 0x80 \<noteq> 0" "(0x80 :: u8) AND 0x21 = 0" by simp_all
  note r = slow_ready [OF x(1)]
  have "unat (998 :: u32) + unat (2 :: u32) \<le> unat (ata_sector_count 0 slow_ata)" "length (replicate 512 (7 :: u16)) = unat (2 :: u32) * 256"
    using r(3) by simp_all
  from ata_transfers [OF r(1) _ this, THEN conjunct2] obtain rc s' where
    w: "ata_write (slow_ports 0x80) 0 998 2 (replicate 512 7) slow_ata = Some (rc, s')"
      "if rc = 0 then ata_ready (slow_ports 0x80) (\<lambda>d. sane (fst d)) slow_busy s' \<and>
         (\<forall>i l. content (\<lambda>d. sane (fst d)) s' i l = (if i = 0 \<and> unat (998 :: u32) \<le> l \<and> l < unat (998 :: u32) + unat (2 :: u32)
            then take 256 (drop ((l - unat (998 :: u32)) * 256) (replicate 512 7)) else content (\<lambda>d. sane (fst d)) slow_ata i l))
       else rc = -1 \<and> \<not> steady (slow_ports 0x80) slow_busy" using r(2) by auto
  have "rc = 0" using w(2) slow_steady [OF x(2)] by (auto split: if_splits)
  with w show ?thesis by (auto simp: r(4))
qed

text \<open>Property C29: whatever the hardware answers, also when no drive is there or it never becomes ready,
  a transfer returns, with 0 or -1; it stays within its buffer, and the table of the drives is
  left alone.\<close>

theorem ata_returns:
  assumes "unat count * 256 \<le> length words"
  shows "(\<exists>rc ws s'. ata_read P drive lba count words s = Some (rc, ws, s') \<and> rc \<in> {0, -1} \<and> length ws = length words \<and> drives s' = drives s) \<and>
    (\<exists>rc s'. ata_write P drive lba count words s = Some (rc, s') \<and> rc \<in> {0, -1} \<and> drives s' = drives s)"
  using ata_any [OF assms, of P drive lba False s] ata_any [OF assms, of P drive lba True s]
  by (auto simp: ata_read_def ata_write_def)

text \<open>Ports that read as all ones, as where nothing is attached.\<close>

definition dead_ports :: "unit ports" where
  "dead_ports = \<lparr>inb = (\<lambda>p d. (0xFF, ())), outb = (\<lambda>p x d. ()), inw = (\<lambda>p d. (0xFFFF, ())), outw = (\<lambda>p x d. ())\<rparr>"

theorem ata_returns_witness:
  "\<exists>rc s'. ata_write dead_ports 0 5 2 (replicate 512 0) \<lparr>hw = (), drives = replicate 2 (found (Some demo_ident))\<rparr> = Some (rc, s') \<and>
     rc \<in> {0, -1} \<and> drives s' = replicate 2 (found (Some demo_ident))"
  using ata_returns [of 2 "replicate 512 0" dead_ports 0 5 "\<lparr>hw = (), drives = replicate 2 (found (Some demo_ident))\<rparr>"] by simp

end
