(* ===== verification/Persist.thy ===== *)
theory Persist
  imports Users Ata
begin

text \<open>
  The snapshot layer of \<open>fs/persist.c\<close>: the accounts and the tree are written to the data disk as
  one run of sectors behind a superblock, and read back when the disk is mounted.  A byte of a
  buffer is a \<open>char\<close>.  \<open>None\<close> is undefined behaviour, such as an access outside a buffer, or a
  panic of the heap.
\<close>

section \<open>State\<close>

datatype persist_state_t = PERSIST_NO_DISK | PERSIST_EMPTY | PERSIST_LOADED | PERSIST_ERROR

record 'd persist = users_state +
  disk :: "'d ata"
  p_state :: persist_state_t
  dirty :: bool
  bytes_used :: u32
  save_count :: u32
  sealed :: bool
  data_drive :: nat
  data_base :: u32
  data_where :: string

definition ATA_SECTOR_SIZE :: u32 where "ATA_SECTOR_SIZE = 512"
definition MAX_PAYLOAD :: u32 where "MAX_PAYLOAD = 1024 * 1024"
definition PERSIST_VERSION :: u32 where "PERSIST_VERSION = 1"
definition KIND_FILE :: u8 where "KIND_FILE = 1"
definition KIND_DIR :: u8 where "KIND_DIR = 2"
definition INSTALL_DATA_LBA :: u32 where "INSTALL_DATA_LBA = 2048"

record super_t =
  magic :: string
  version :: u32
  payload_bytes :: u32
  super_nodes :: u32
  super_users :: u32
  super_checksum :: u32
  super_saves :: u32

definition MAGIC :: string where "MAGIC = ''LOSFS'' @ [NUL, NUL, NUL]"

definition SUPER_LBA :: "'d persist \<Rightarrow> u32" where "SUPER_LBA s = data_base s"
definition PAYLOAD_LBA :: "'d persist \<Rightarrow> u32" where "PAYLOAD_LBA s = data_base s + 1"

subsection \<open>Bytes and words\<close>

text \<open>How integers lie in memory (little endian), and the packed superblock with its padding.\<close>

definition byte_at :: "nat \<Rightarrow> u32 \<Rightarrow> char" where
  "byte_at i v = char_of (unat v div 256 ^ i)"

definition le_bytes :: "nat \<Rightarrow> u32 \<Rightarrow> string" where
  "le_bytes n v = map (\<lambda>i. byte_at i v) [0..<n]"

primrec le_value :: "string \<Rightarrow> nat" where
  "le_value [] = 0"
| "le_value (c # cs) = of_char c + 256 * le_value cs"

fun words_of :: "string \<Rightarrow> u16 list" where
  "words_of (a # b # bs) = of_nat (le_value [a, b]) # words_of bs"
| "words_of bs = []"

definition bytes_of :: "u16 list \<Rightarrow> string" where
  "bytes_of ws = concat (map (\<lambda>w. le_bytes 2 (ucast w)) ws)"

definition super_bytes :: "super_t \<Rightarrow> string" where
  "super_bytes b = magic b @ le_bytes 4 (version b) @ le_bytes 4 (payload_bytes b) @ le_bytes 4 (super_nodes b) @
     le_bytes 4 (super_users b) @ le_bytes 4 (super_checksum b) @ le_bytes 4 (super_saves b) @ replicate 480 NUL"

definition field :: "nat \<Rightarrow> string \<Rightarrow> u32" where
  "field off bs = of_nat (le_value (take 4 (drop off bs)))"

definition super_of :: "string \<Rightarrow> super_t" where
  "super_of bs = \<lparr>magic = take 8 bs, version = field 8 bs, payload_bytes = field 12 bs, super_nodes = field 16 bs,
     super_users = field 20 bs, super_checksum = field 24 bs, super_saves = field 28 bs\<rparr>"

definition checksum :: "string \<Rightarrow> u32" where
  "checksum bs = fold (\<lambda>c hash. (hash XOR of_char c) * 16777619) bs 2166136261"

definition sectors_for :: "u32 \<Rightarrow> u32" where
  "sectors_for bytes = (bytes + ATA_SECTOR_SIZE - 1) div ATA_SECTOR_SIZE"

section \<open>Writing\<close>

text \<open>\<open>w_bytes\<close> are the first \<open>used\<close> bytes of the buffer.\<close>

record writer =
  w_bytes :: string
  capacity :: u32
  used :: u32
  overflow :: bool

definition put_bytes :: "string \<Rightarrow> writer \<Rightarrow> writer option" where
  "put_bytes bs w =
     (if used w + of_nat (length bs) > capacity w then Some (w\<lparr>overflow := True\<rparr>)
      else if length (w_bytes w) + length bs \<le> unat (capacity w)
      then Some (w\<lparr>w_bytes := w_bytes w @ bs, used := used w + of_nat (length bs)\<rparr>)
      else None)"

definition put_u8 :: "u8 \<Rightarrow> writer \<Rightarrow> writer option" where "put_u8 v = put_bytes (le_bytes 1 (ucast v))"
definition put_u16 :: "u16 \<Rightarrow> writer \<Rightarrow> writer option" where "put_u16 v = put_bytes (le_bytes 2 (ucast v))"
definition put_u32 :: "u32 \<Rightarrow> writer \<Rightarrow> writer option" where "put_u32 v = put_bytes (le_bytes 4 v)"

text \<open>\<open>put_bytes (w, s, length)\<close> reads the first \<open>length\<close> bytes of the string.\<close>

definition put_string :: "string \<Rightarrow> writer \<Rightarrow> writer option" where
  "put_string t w = do {
     let n = (of_nat (length t) :: u8);
     w \<leftarrow> put_u8 n w;
     put_bytes (take (unat n) t) w
   }"

definition write_node :: "ptr \<Rightarrow> 'a fs_state_scheme \<Rightarrow> writer \<Rightarrow> u32 \<Rightarrow> (writer \<times> u32) option" where
  "write_node node s w count = do {
     path \<leftarrow> fs_abspath node [] FS_PATH_MAX s;
     if path = [] then Some (w, count)
     else do {
       n \<leftarrow> nodes s node;
       let path_len = (of_nat (length path) :: u16);
       let data_len = (if n_type n = FS_FILE then n_size n else 0);
       w \<leftarrow> put_u8 (if n_type n = FS_DIR then KIND_DIR else KIND_FILE) w;
       w \<leftarrow> put_u16 path_len w;
       w \<leftarrow> put_u32 data_len w;
       w \<leftarrow> put_bytes (take (unat path_len) path) w;
       w \<leftarrow> (if data_len \<noteq> 0 \<and> n_data n \<noteq> NULL
             then do { bs \<leftarrow> buf_read (n_data n) (unat data_len) s; put_bytes bs w }
             else Some w);
       Some (w, count + 1)
     }
   }"

text \<open>The loop of \<open>write_tree\<close>, with the recursive call written out.\<close>

partial_function (option) write_siblings :: "'a fs_state_scheme \<Rightarrow> ptr \<Rightarrow> writer \<Rightarrow> u32 \<Rightarrow> (writer \<times> u32) option" where
  "write_siblings s child w count =
     (if child = NULL then Some (w, count)
      else do {
        n \<leftarrow> nodes s child;
        (w, count) \<leftarrow> write_node child s w count;
        (w, count) \<leftarrow> (if n_type n = FS_DIR then write_siblings s (n_children n) w count else Some (w, count));
        write_siblings s (n_next n) w count
      })"

declare write_siblings.simps [code]

definition write_tree :: "ptr \<Rightarrow> 'a fs_state_scheme \<Rightarrow> writer \<Rightarrow> u32 \<Rightarrow> (writer \<times> u32) option" where
  "write_tree dir s w count = do { n \<leftarrow> nodes s dir; write_siblings s (n_children n) w count }"

definition write_user :: "user \<Rightarrow> writer \<Rightarrow> writer option" where
  "write_user u w = do {
     w \<leftarrow> put_string (u_name u) w;
     w \<leftarrow> put_string (u_home u) w;
     w \<leftarrow> put_u32 (u_uid u) w;
     w \<leftarrow> put_u32 (u_gid u) w;
     put_u32 (u_hash u) w
   }"

fun write_users :: "int list \<Rightarrow> 'a users_state_scheme \<Rightarrow> writer \<Rightarrow> u32 \<Rightarrow> (writer \<times> u32) option" where
  "write_users [] s w count = Some (w, count)"
| "write_users (i # is) s w count =
     (case users_at i s of
        None \<Rightarrow> write_users is s w count
      | Some k \<Rightarrow> do { w \<leftarrow> write_user (users s ! k) w; write_users is s w (count + 1) })"

definition where_text :: "u32 \<Rightarrow> string" where
  "where_text base = (if base = 0 then ''primary slave, sector 0'' else ''boot disk, data area'')"

definition persist_save :: "'d ports \<Rightarrow> 'd persist \<Rightarrow> (int \<times> 'd persist) option" where
  "persist_save P s =
     (if sealed s then Some (-5, s)
      else if p_state s = PERSIST_NO_DISK then Some (0, s)
      else do {
        (buffer, s) \<leftarrow> kmalloc MAX_PAYLOAD s;
        if buffer = NULL then Some (-1, s)
        else do {
          let w = \<lparr>w_bytes = [], capacity = MAX_PAYLOAD, used = 0, overflow = False\<rparr>;
          (w, user_count) \<leftarrow> write_users [0..users_count s - 1] s w 0;
          (w, node_count) \<leftarrow> write_tree (root_node s) s w 0;
          if overflow w then do { s \<leftarrow> heap_release buffer s; Some (-2, s) }
          else do {
            let secs = sectors_for (used w);
            let secs = (if secs = 0 then 1 else secs);
            let padded = secs * ATA_SECTOR_SIZE;
            let bytes = w_bytes w @ replicate (unat (padded - used w)) NUL;
            let super = \<lparr>magic = MAGIC, version = PERSIST_VERSION, payload_bytes = used w, super_nodes = node_count,
                         super_users = user_count, super_checksum = checksum (w_bytes w), super_saves = save_count s + 1\<rparr>;
            let s = s\<lparr>save_count := save_count s + 1\<rparr>;
            (result, d) \<leftarrow> ata_write P (data_drive s) (PAYLOAD_LBA s) secs (words_of bytes) (disk s);
            let s = s\<lparr>disk := d\<rparr>;
            s \<leftarrow> heap_release buffer s;
            if result \<noteq> 0 then Some (-3, s)
            else do {
              (result, d) \<leftarrow> ata_write P (data_drive s) (SUPER_LBA s) 1 (words_of (super_bytes super)) (disk s);
              let s = s\<lparr>disk := d\<rparr>;
              if result \<noteq> 0 then Some (-4, s)
              else Some (0, s\<lparr>bytes_used := used w, p_state := PERSIST_LOADED, dirty := False,
                             data_where := where_text (data_base s)\<rparr>)
            }
          }
        }
      })"

section \<open>Reading\<close>

text \<open>\<open>r_buffer\<close> is the whole allocation behind \<open>buffer\<close>, \<open>r_length\<close> the number of bytes to be read.\<close>

record reader =
  r_buffer :: string
  r_length :: u32
  r_pos :: u32
  r_bad :: bool

definition peek :: "u32 \<Rightarrow> reader \<Rightarrow> string option" where
  "peek n r = (if unat (r_pos r) + unat n \<le> length (r_buffer r)
     then Some (take (unat n) (drop (unat (r_pos r)) (r_buffer r))) else None)"

definition take_bytes :: "u32 \<Rightarrow> reader \<Rightarrow> (string option \<times> reader) option" where
  "take_bytes n r =
     (if r_pos r + n > r_length r then Some (None, r\<lparr>r_bad := True\<rparr>)
      else do { bs \<leftarrow> peek n r; Some (Some bs, r\<lparr>r_pos := r_pos r + n\<rparr>) })"

text \<open>The integers keep their initial value 0 when nothing is left to read.\<close>

definition int_of :: "string option \<Rightarrow> nat" where
  "int_of bs = (case bs of None \<Rightarrow> 0 | Some bs \<Rightarrow> le_value bs)"

definition take_u8 :: "reader \<Rightarrow> (u8 \<times> reader) option" where
  "take_u8 r = do { (bs, r) \<leftarrow> take_bytes 1 r; Some (of_nat (int_of bs), r) }"

definition take_u16 :: "reader \<Rightarrow> (u16 \<times> reader) option" where
  "take_u16 r = do { (bs, r) \<leftarrow> take_bytes 2 r; Some (of_nat (int_of bs), r) }"

definition take_u32 :: "reader \<Rightarrow> (u32 \<times> reader) option" where
  "take_u32 r = do { (bs, r) \<leftarrow> take_bytes 4 r; Some (of_nat (int_of bs), r) }"

text \<open>The C string in a buffer that holds \<open>bs\<close> and a terminator.\<close>

definition c_string :: "string \<Rightarrow> string" where
  "c_string bs = takeWhile (\<lambda>c. c \<noteq> NUL) bs"

definition take_string :: "nat \<Rightarrow> reader \<Rightarrow> (string option \<times> reader) option" where
  "take_string out_size r = do {
     (n, r) \<leftarrow> take_u8 r;
     if r_bad r \<or> unat n \<ge> out_size then Some (None, r\<lparr>r_bad := True\<rparr>)
     else do { (bs, r) \<leftarrow> take_bytes (ucast n) r; Some (map_option c_string bs, r) }
   }"

definition probe :: "'d ports \<Rightarrow> nat \<Rightarrow> u32 \<Rightarrow> 'd ata \<Rightarrow> (bool \<times> 'd ata) option" where
  "probe P drive base d =
     (if \<not> ata_present drive d then Some (False, d)
      else if ata_sector_count drive d \<le> base + 1 then Some (False, d)
      else do {
        (result, ws, d) \<leftarrow> ata_read P drive base 1 (replicate 256 0) d;
        Some (result = 0 \<and> magic (super_of (bytes_of ws)) = MAGIC, d)
      })"

definition choose_location :: "'d ports \<Rightarrow> 'd persist \<Rightarrow> (bool \<times> 'd persist) option" where
  "choose_location P s = do {
     (yes, d) \<leftarrow> probe P ATA_SLAVE 0 (disk s);
     let s = s\<lparr>disk := d\<rparr>;
     if yes then Some (True, s\<lparr>data_drive := ATA_SLAVE, data_base := 0, data_where := ''primary slave, sector 0''\<rparr>)
     else do {
       (yes, d) \<leftarrow> probe P ATA_MASTER INSTALL_DATA_LBA (disk s);
       let s = s\<lparr>disk := d\<rparr>;
       if yes then Some (True, s\<lparr>data_drive := ATA_MASTER, data_base := INSTALL_DATA_LBA, data_where := ''boot disk, data area''\<rparr>)
       else if ata_present ATA_SLAVE (disk s)
       then Some (True, s\<lparr>data_drive := ATA_SLAVE, data_base := 0, data_where := ''primary slave, sector 0 (blank)''\<rparr>)
       else if ata_present ATA_MASTER (disk s) \<and> ata_sector_count ATA_MASTER (disk s) > INSTALL_DATA_LBA + 64
       then Some (True, s\<lparr>data_drive := ATA_MASTER, data_base := INSTALL_DATA_LBA, data_where := ''boot disk, data area (blank)''\<rparr>)
       else Some (False, s)
     }
   }"

text \<open>The two loops of \<open>persist_mount\<close>; \<open>k\<close> records are left and \<open>x\<close> is the residue of \<open>fs_create\<close>.\<close>

fun read_users :: "char \<Rightarrow> nat \<Rightarrow> reader \<Rightarrow> 'a users_state_scheme \<Rightarrow> (reader \<times> 'a users_state_scheme) option" where
  "read_users x 0 r s = Some (r, s)"
| "read_users x (Suc k) r s =
     (if r_bad r then Some (r, s)
      else do {
        (name, r) \<leftarrow> take_string USER_NAME_MAX r;
        (case name of None \<Rightarrow> Some (r, s) | Some name \<Rightarrow> do {
          (home, r) \<leftarrow> take_string USER_HOME_MAX r;
          (case home of None \<Rightarrow> Some (r, s) | Some home \<Rightarrow> do {
            (uid, r) \<leftarrow> take_u32 r;
            (gid, r) \<leftarrow> take_u32 r;
            (hash, r) \<leftarrow> take_u32 r;
            if r_bad r then Some (r, s)
            else do { (rc, s) \<leftarrow> users_import x name home uid gid hash s; read_users x k r s }
          })
        })
      })"

definition open_node :: "char \<Rightarrow> string \<Rightarrow> fs_type \<Rightarrow> 'a fs_state_scheme \<Rightarrow> (ptr \<times> 'a fs_state_scheme) option" where
  "open_node x path ty s = do {
     (node, s) \<leftarrow> fs_create x path ty s;
     if node \<noteq> NULL then Some (node, s) else do { node \<leftarrow> fs_resolve path s; Some (node, s) }
   }"

fun read_nodes :: "char \<Rightarrow> nat \<Rightarrow> reader \<Rightarrow> 'a fs_state_scheme \<Rightarrow> (reader \<times> 'a fs_state_scheme) option" where
  "read_nodes x 0 r s = Some (r, s)"
| "read_nodes x (Suc k) r s =
     (if r_bad r then Some (r, s)
      else do {
        (kind, r) \<leftarrow> take_u8 r;
        (path_len, r) \<leftarrow> take_u16 r;
        (data_len, r) \<leftarrow> take_u32 r;
        if r_bad r \<or> path_len = 0 \<or> unat path_len \<ge> FS_PATH_MAX then Some (r\<lparr>r_bad := True\<rparr>, s)
        else do {
          (path, r) \<leftarrow> take_bytes (ucast path_len) r;
          (case path of None \<Rightarrow> Some (r, s) | Some path \<Rightarrow> do {
            (node, s) \<leftarrow> open_node x (c_string path) (if kind = KIND_DIR then FS_DIR else FS_FILE) s;
            if data_len = 0 then read_nodes x k r s
            else if r_pos r + data_len > r_length r then Some (r\<lparr>r_bad := True\<rparr>, s)
            else do {
              s \<leftarrow> (if node = NULL then Some s
                    else do {
                      n \<leftarrow> nodes s node;
                      if n_type n \<noteq> FS_FILE then Some s
                      else do { bs \<leftarrow> peek data_len r; (rc, s) \<leftarrow> fs_write_n node bs False s; Some s }
                    });
              read_nodes x k (r\<lparr>r_pos := r_pos r + data_len\<rparr>) s
            }
          })
        }
      })"

text \<open>Restoring from a payload that is there and whole, up to the release of its buffer.\<close>

definition restore :: "char \<Rightarrow> super_t \<Rightarrow> string \<Rightarrow> 'a users_state_scheme \<Rightarrow> (bool \<times> 'a users_state_scheme) option" where
  "restore x super bytes s = do {
     let r = \<lparr>r_buffer = bytes, r_length = payload_bytes super, r_pos = 0, r_bad = False\<rparr>;
     s \<leftarrow> fs_reset s;
     (r, s) \<leftarrow> read_users x (unat (super_users super)) r s;
     (r, s) \<leftarrow> read_nodes x (unat (super_nodes super)) r s;
     Some (r_bad r, s)
   }"

text \<open>\<open>medium\<close> is the answer of \<open>install_booted_from_medium\<close>.\<close>

definition persist_mount :: "'d ports \<Rightarrow> char \<Rightarrow> bool \<Rightarrow> 'd persist \<Rightarrow> (persist_state_t \<times> 'd persist) option" where
  "persist_mount P x medium s = do {
     d \<leftarrow> ata_init P (disk s);
     let s = s\<lparr>sealed := False, disk := d\<rparr>;
     if medium
     then Some (PERSIST_NO_DISK, s\<lparr>data_where := ''none, running from the install medium'', p_state := PERSIST_NO_DISK\<rparr>)
     else do {
       (found_one, s) \<leftarrow> choose_location P s;
       if \<not> found_one then Some (PERSIST_NO_DISK, s\<lparr>data_where := ''none'', p_state := PERSIST_NO_DISK\<rparr>)
       else do {
         (result, ws, d) \<leftarrow> ata_read P (data_drive s) (SUPER_LBA s) 1 (replicate 256 0) (disk s);
         let s = s\<lparr>disk := d\<rparr>;
         let super = super_of (bytes_of ws);
         if result \<noteq> 0 then Some (PERSIST_ERROR, s\<lparr>p_state := PERSIST_ERROR\<rparr>)
         else if magic super \<noteq> MAGIC then Some (PERSIST_EMPTY, s\<lparr>p_state := PERSIST_EMPTY\<rparr>)
         else if version super \<noteq> PERSIST_VERSION \<or> payload_bytes super = 0 \<or> payload_bytes super > MAX_PAYLOAD
         then Some (PERSIST_ERROR, s\<lparr>p_state := PERSIST_ERROR\<rparr>)
         else do {
           let secs = sectors_for (payload_bytes super);
           (buffer, s) \<leftarrow> kmalloc (secs * ATA_SECTOR_SIZE) s;
           if buffer = NULL then Some (PERSIST_ERROR, s\<lparr>p_state := PERSIST_ERROR\<rparr>)
           else do {
             (result, ws, d) \<leftarrow> ata_read P (data_drive s) (PAYLOAD_LBA s) secs (replicate (unat secs * 256) 0) (disk s);
             let s = s\<lparr>disk := d\<rparr>;
             let bytes = bytes_of ws;
             if result \<noteq> 0 \<or> checksum (take (unat (payload_bytes super)) bytes) \<noteq> super_checksum super
             then do { s \<leftarrow> heap_release buffer s; Some (PERSIST_ERROR, s\<lparr>p_state := PERSIST_ERROR\<rparr>) }
             else do {
               (bad, s) \<leftarrow> restore x super bytes s;
               s \<leftarrow> heap_release buffer s;
               if bad then Some (PERSIST_ERROR, s\<lparr>p_state := PERSIST_ERROR\<rparr>)
               else Some (PERSIST_LOADED, s\<lparr>bytes_used := payload_bytes super, save_count := super_saves super,
                      p_state := PERSIST_LOADED, dirty := False\<rparr>)
             }
           }
         }
       }
     }
   }"

section \<open>Formatting and flushing\<close>

definition blank_super :: super_t where
  "blank_super = \<lparr>magic = replicate 8 NUL, version = 0, payload_bytes = 0, super_nodes = 0, super_users = 0,
     super_checksum = 0, super_saves = 0\<rparr>"

definition persist_format :: "'d ports \<Rightarrow> 'd persist \<Rightarrow> (int \<times> 'd persist) option" where
  "persist_format P s =
     (if p_state s = PERSIST_NO_DISK then Some (-1, s)
      else do {
        (result, d) \<leftarrow> ata_write P (data_drive s) (SUPER_LBA s) 1 (words_of (super_bytes blank_super)) (disk s);
        let s = s\<lparr>disk := d\<rparr>;
        if result \<noteq> 0 then Some (-2, s)
        else Some (0, s\<lparr>p_state := PERSIST_EMPTY, bytes_used := 0, save_count := 0, dirty := False, sealed := True\<rparr>)
      })"

definition persist_mark_dirty :: "'d persist \<Rightarrow> 'd persist" where
  "persist_mark_dirty s = s\<lparr>dirty := True\<rparr>"

definition persist_flush :: "'d ports \<Rightarrow> 'd persist \<Rightarrow> (int \<times> 'd persist) option" where
  "persist_flush P s = (if \<not> dirty s then Some (0, s) else persist_save P s)"

definition persist_available :: "'d persist \<Rightarrow> bool" where
  "persist_available s \<longleftrightarrow> p_state s \<noteq> PERSIST_NO_DISK"

definition persist_bytes_capacity :: u32 where "persist_bytes_capacity = MAX_PAYLOAD"

end
