(* ===== verification/Persist_Codec.thy ===== *)
theory Persist_Codec
  imports Persist Users_Spec Ata_Spec
begin

text \<open>
  The byte level of the snapshot: integers, words and the superblock read back as they were
  written, and what the writer has put into its buffer the reader takes out again.
\<close>

section \<open>Integers, words and the superblock\<close>

lemma le_bytes_length [simp]: "length (le_bytes n v) = n"
  by (simp add: le_bytes_def)

lemma le_value_bytes: "le_value (le_bytes n v) = unat v mod 256 ^ n"
proof -
  have "le_value (map (\<lambda>i. char_of (x div 256 ^ i)) [0..<n]) = x mod 256 ^ n" for x :: nat
  proof (induction n arbitrary: x)
    case (Suc n)
    have "map (\<lambda>i. char_of (x div 256 ^ i)) [0..<Suc n] = char_of x # map (\<lambda>i. char_of (x div 256 div 256 ^ i)) [0..<n]"
      by (simp add: map_upt_Suc div_mult2_eq del: upt_Suc)
    then have "le_value (map (\<lambda>i. char_of (x div 256 ^ i)) [0..<Suc n]) = x mod 256 + 256 * (x div 256 mod 256 ^ n)"
      using Suc.IH [of "x div 256"] by simp
    also have "\<dots> = x mod 256 ^ Suc n" by (simp add: mod_mult2_eq)
    finally show ?case .
  qed simp
  then show ?thesis by (simp add: le_bytes_def byte_at_def)
qed

lemma le_value_32: "le_value (le_bytes 4 v) = unat v"
  using u32_bound [of v] by (simp add: le_value_bytes)

lemma le_value_16: "le_value (le_bytes 2 (ucast (v :: u16))) = unat v"
proof -
  have "unat v < 2 ^ LENGTH(16)" by (rule unsigned_less)
  then show ?thesis by (simp add: le_value_bytes unsigned_ucast_eq take_bit_eq_mod)
qed

lemma le_value_8: "le_value (le_bytes 1 (ucast (v :: u8))) = unat v"
proof -
  have "unat v < 2 ^ LENGTH(8)" by (rule unsigned_less)
  then show ?thesis by (simp add: le_value_bytes unsigned_ucast_eq take_bit_eq_mod)
qed

lemma word_bytes: "le_bytes 2 (ucast (of_nat (le_value [a, b]) :: u16)) = [a, b]"
proof -
  have ab: "of_char a < (256 :: nat)" "of_char b < (256 :: nat)" by simp_all
  have "unat (ucast (of_nat (le_value [a, b]) :: u16) :: u32) = of_char a + 256 * of_char b"
  proof -
    have "of_char a + 256 * of_char b < (65536 :: nat)" using ab by linarith
    then have "le_value [a, b] < 65536" by simp
    then have "unat (ucast (of_nat (le_value [a, b]) :: u16) :: u32) = le_value [a, b]"
      by (simp add: unsigned_ucast_eq take_bit_eq_mod unat_of_nat del: le_value.simps)
    then show ?thesis by simp
  qed
  moreover have "(of_char a + 256 * of_char b) div 256 = (of_char b :: nat)" using ab(1) by simp
  moreover have "char_of (of_char a + 256 * of_char b :: nat) = a"
    using char_of_mod_256 [of "of_char a + 256 * of_char b :: nat"] ab(1) by (simp del: char_of_mod_256)
  ultimately show ?thesis by (simp add: le_bytes_def byte_at_def upt_rec numeral_2_eq_2)
qed

lemma bytes_words: "even (length bs) \<Longrightarrow> bytes_of (words_of bs) = bs"
  by (induction bs rule: words_of.induct) (simp_all add: bytes_of_def word_bytes del: le_value.simps)

lemma words_length: "length (words_of bs) = length bs div 2"
  by (induction bs rule: words_of.induct) simp_all

lemma bytes_length: "length (bytes_of ws) = 2 * length ws"
  by (induction ws) (simp_all add: bytes_of_def)

lemma super_length: "length (magic b) = 8 \<Longrightarrow> length (super_bytes b) = 512"
  by (simp add: super_bytes_def)

lemma field_at: "length xs = off \<Longrightarrow> field off (xs @ le_bytes 4 v @ ys) = v"
  by (simp add: field_def le_value_32)

lemma super_roundtrip:
  assumes "length (magic b) = 8" shows "super_of (super_bytes b) = b"
proof -
  obtain m v p n u c k where b: "b = \<lparr>magic = m, version = v, payload_bytes = p, super_nodes = n, super_users = u,
      super_checksum = c, super_saves = k\<rparr>" by (cases b) auto
  have m: "length m = 8" using assms b by simp
  let ?z = "replicate 480 NUL"
  note f = field_at [of "m" 8 v "le_bytes 4 p @ le_bytes 4 n @ le_bytes 4 u @ le_bytes 4 c @ le_bytes 4 k @ ?z"]
    field_at [of "m @ le_bytes 4 v" 12 p "le_bytes 4 n @ le_bytes 4 u @ le_bytes 4 c @ le_bytes 4 k @ ?z"]
    field_at [of "m @ le_bytes 4 v @ le_bytes 4 p" 16 n "le_bytes 4 u @ le_bytes 4 c @ le_bytes 4 k @ ?z"]
    field_at [of "m @ le_bytes 4 v @ le_bytes 4 p @ le_bytes 4 n" 20 u "le_bytes 4 c @ le_bytes 4 k @ ?z"]
    field_at [of "m @ le_bytes 4 v @ le_bytes 4 p @ le_bytes 4 n @ le_bytes 4 u" 24 c "le_bytes 4 k @ ?z"]
    field_at [of "m @ le_bytes 4 v @ le_bytes 4 p @ le_bytes 4 n @ le_bytes 4 u @ le_bytes 4 c" 28 k ?z]
  have s: "super_bytes b = m @ le_bytes 4 v @ le_bytes 4 p @ le_bytes 4 n @ le_bytes 4 u @ le_bytes 4 c @ le_bytes 4 k @ ?z"
    by (simp only: b super_bytes_def super_t.simps)
  show ?thesis unfolding super_of_def s unfolding b using m f by simp
qed

section \<open>The writer\<close>

definition w_ok :: "writer \<Rightarrow> bool" where
  "w_ok w \<longleftrightarrow> capacity w = MAX_PAYLOAD \<and> length (w_bytes w) \<le> 1048576 \<and> used w = of_nat (length (w_bytes w))"

text \<open>From \<open>w\<close> to \<open>w'\<close> the bytes \<open>bs\<close> were written, unless the buffer was too small for them.\<close>

definition wrote :: "string \<Rightarrow> writer \<Rightarrow> writer \<Rightarrow> bool" where
  "wrote bs w w' \<longleftrightarrow> w_ok w' \<and>
     (if overflow w' then overflow w \<or> length (w_bytes w) + length bs > 1048576
      else \<not> overflow w \<and> w_bytes w' = w_bytes w @ bs)"

lemma wrote_nil: "w_ok w \<Longrightarrow> wrote [] w w"
  by (simp add: wrote_def)

lemma wrote_trans: "wrote as w w1 \<Longrightarrow> wrote bs w1 w2 \<Longrightarrow> wrote (as @ bs) w w2"
  by (auto simp: wrote_def split: if_splits)

lemma wrote_ok: "wrote bs w w' \<Longrightarrow> w_ok w'"
  by (simp add: wrote_def)

lemma put_bytes_ok:
  assumes "w_ok w" "length bs < 4293918720"
  shows "\<exists>w'. put_bytes bs w = Some w' \<and> wrote bs w w'"
proof -
  have u: "unat (used w + of_nat (length bs)) = length (w_bytes w) + length bs"
    using assms by (simp add: w_ok_def unat_plus_exact unat_of_nat_exact)
  then have "used w + of_nat (length bs) > capacity w \<longleftrightarrow> length (w_bytes w) + length bs > 1048576"
    using assms(1) by (simp add: w_ok_def MAX_PAYLOAD_def word_less_nat_alt)
  with assms(1) show ?thesis by (auto simp: put_bytes_def wrote_def w_ok_def MAX_PAYLOAD_def)
qed

lemma put_int_ok:
  "w_ok w \<Longrightarrow> \<exists>w'. put_u8 a w = Some w' \<and> wrote (le_bytes 1 (ucast a)) w w'"
  "w_ok w \<Longrightarrow> \<exists>w'. put_u16 b w = Some w' \<and> wrote (le_bytes 2 (ucast b)) w w'"
  "w_ok w \<Longrightarrow> \<exists>w'. put_u32 c w = Some w' \<and> wrote (le_bytes 4 c) w w'"
  unfolding put_u8_def put_u16_def put_u32_def by (rule put_bytes_ok; simp)+

definition enc_string :: "string \<Rightarrow> string" where
  "enc_string t = le_bytes 1 (ucast (of_nat (length t) :: u8)) @ t"

lemma put_string_ok:
  assumes "w_ok w" "length t < 256"
  shows "\<exists>w'. put_string t w = Some w' \<and> wrote (enc_string t) w w'"
proof -
  have n: "unat (of_nat (length t) :: u8) = length t" using assms(2) by (simp add: unat_of_nat)
  obtain w1 where w1: "put_u8 (of_nat (length t)) w = Some w1" "wrote (le_bytes 1 (ucast (of_nat (length t) :: u8))) w w1"
    using put_int_ok(1) [OF assms(1)] by blast
  obtain w2 where w2: "put_bytes t w1 = Some w2" "wrote t w1 w2"
    using put_bytes_ok [OF wrote_ok [OF w1(2)], of t] assms(2) by auto
  from wrote_trans [OF w1(2) w2(2)] w1(1) w2(1) n show ?thesis by (simp add: put_string_def enc_string_def Let_def)
qed

type_synonym account_rec = "string \<times> string \<times> u32 \<times> u32 \<times> u32"

definition account_of :: "user \<Rightarrow> account_rec" where
  "account_of u = (u_name u, u_home u, u_uid u, u_gid u, u_hash u)"

fun enc_account :: "account_rec \<Rightarrow> string" where
  "enc_account (name, home, uid, gid, hash) =
     enc_string name @ enc_string home @ le_bytes 4 uid @ le_bytes 4 gid @ le_bytes 4 hash"

lemma write_user_ok:
  assumes "w_ok w" "length (u_name u) < 256" "length (u_home u) < 256"
  shows "\<exists>w'. write_user u w = Some w' \<and> wrote (enc_account (account_of u)) w w'"
proof -
  obtain w1 where 1: "put_string (u_name u) w = Some w1" "wrote (enc_string (u_name u)) w w1"
    using put_string_ok [OF assms(1,2)] by blast
  obtain w2 where 2: "put_string (u_home u) w1 = Some w2" "wrote (enc_string (u_home u)) w1 w2"
    using put_string_ok [OF wrote_ok [OF 1(2)] assms(3)] by blast
  obtain w3 where 3: "put_u32 (u_uid u) w2 = Some w3" "wrote (le_bytes 4 (u_uid u)) w2 w3"
    using put_int_ok(3) [OF wrote_ok [OF 2(2)]] by blast
  obtain w4 where 4: "put_u32 (u_gid u) w3 = Some w4" "wrote (le_bytes 4 (u_gid u)) w3 w4"
    using put_int_ok(3) [OF wrote_ok [OF 3(2)]] by blast
  obtain w5 where 5: "put_u32 (u_hash u) w4 = Some w5" "wrote (le_bytes 4 (u_hash u)) w4 w5"
    using put_int_ok(3) [OF wrote_ok [OF 4(2)]] by blast
  from wrote_trans [OF 1(2) wrote_trans [OF 2(2) wrote_trans [OF 3(2) wrote_trans [OF 4(2) 5(2)]]]] 1(1) 2(1) 3(1) 4(1) 5(1)
  show ?thesis by (simp add: write_user_def account_of_def)
qed

section \<open>The reader\<close>

text \<open>\<open>r\<close> stands before \<open>todo\<close>, the part of the payload not yet read.\<close>

definition rd_at :: "reader \<Rightarrow> string \<Rightarrow> bool" where
  "rd_at r todo \<longleftrightarrow> \<not> r_bad r \<and> (\<exists>pre pad. r_buffer r = pre @ todo @ pad \<and> r_pos r = of_nat (length pre) \<and>
     r_length r = of_nat (length pre + length todo) \<and> length pre + length todo \<le> 1048576)"

lemma rd_peek:
  assumes "rd_at r (bs @ todo)" "n = of_nat (length bs)"
  shows "\<not> r_pos r + n > r_length r" "peek n r = Some bs" "rd_at (r\<lparr>r_pos := r_pos r + n\<rparr>) todo"
proof -
  from assms(1) obtain pre pad where r: "\<not> r_bad r" "r_buffer r = pre @ (bs @ todo) @ pad" "r_pos r = of_nat (length pre)"
    "r_length r = of_nat (length pre + length (bs @ todo))" "length pre + length (bs @ todo) \<le> 1048576" by (auto simp: rd_at_def)
  have u: "unat (r_pos r) = length pre" "unat n = length bs" "unat (r_length r) = length pre + length bs + length todo"
    "unat (r_pos r + n) = length pre + length bs"
    using r(3-5) assms(2) by (simp_all add: unat_plus_exact unat_of_nat)
  show "\<not> r_pos r + n > r_length r" using u by (simp add: word_less_nat_alt)
  show "peek n r = Some bs" using u r(2) by (simp add: peek_def)
  have "r_pos r + n = of_nat (length (pre @ bs))" using r(3) assms(2) by simp
  moreover have "r_buffer r = (pre @ bs) @ todo @ pad" using r(2) by simp
  moreover have "r_length r = of_nat (length (pre @ bs) + length todo)" "length (pre @ bs) + length todo \<le> 1048576"
    using r(4,5) by (simp_all add: add.assoc)
  ultimately show "rd_at (r\<lparr>r_pos := r_pos r + n\<rparr>) todo" unfolding rd_at_def using r(1) by (simp, metis append.assoc)
qed

lemma rd_good: "rd_at r todo \<Longrightarrow> \<not> r_bad r"
  by (simp add: rd_at_def)

lemma take_bytes_ok:
  assumes "rd_at r (bs @ todo)" "n = of_nat (length bs)"
  shows "\<exists>r'. take_bytes n r = Some (Some bs, r') \<and> rd_at r' todo"
  using rd_peek [OF assms] by (simp add: take_bytes_def)

lemma take_int_ok:
  "rd_at r (le_bytes 1 (ucast (a :: u8)) @ todo) \<Longrightarrow> \<exists>r'. take_u8 r = Some (a, r') \<and> rd_at r' todo"
  "rd_at r (le_bytes 2 (ucast (b :: u16)) @ todo) \<Longrightarrow> \<exists>r'. take_u16 r = Some (b, r') \<and> rd_at r' todo"
  "rd_at r (le_bytes 4 c @ todo) \<Longrightarrow> \<exists>r'. take_u32 r = Some (c, r') \<and> rd_at r' todo"
proof -
  show "\<exists>r'. take_u8 r = Some (a, r') \<and> rd_at r' todo" if "rd_at r (le_bytes 1 (ucast a) @ todo)"
    using take_bytes_ok [OF that, of 1] le_value_8 [of a] by (auto simp: take_u8_def int_of_def)
  show "\<exists>r'. take_u16 r = Some (b, r') \<and> rd_at r' todo" if "rd_at r (le_bytes 2 (ucast b) @ todo)"
    using take_bytes_ok [OF that, of 2] le_value_16 [of b] by (auto simp: take_u16_def int_of_def)
  show "\<exists>r'. take_u32 r = Some (c, r') \<and> rd_at r' todo" if "rd_at r (le_bytes 4 c @ todo)"
    using take_bytes_ok [OF that, of 4] le_value_32 [of c] by (auto simp: take_u32_def int_of_def)
qed

lemma c_string_id: "NUL \<notin> set t \<Longrightarrow> c_string t = t"
  by (simp add: c_string_def takeWhile_no_NUL)

lemma take_string_ok:
  assumes "rd_at r (enc_string t @ todo)" "length t < k" "k \<le> 256" "NUL \<notin> set t"
  shows "\<exists>r'. take_string k r = Some (Some t, r') \<and> rd_at r' todo"
proof -
  have n: "unat (of_nat (length t) :: u8) = length t" using assms(2,3) by (simp add: unat_of_nat)
  from take_int_ok(1) [of r "of_nat (length t)" "t @ todo"] assms(1) obtain r1 where
    1: "take_u8 r = Some (of_nat (length t), r1)" "rd_at r1 (t @ todo)" by (auto simp: enc_string_def)
  have "ucast (of_nat (length t) :: u8) = (of_nat (length t) :: u32)"
    by (rule word_unat_eq_iff [THEN iffD2]) (use assms(2,3) in \<open>simp add: unsigned_ucast_eq unat_of_nat take_bit_eq_mod\<close>)
  with take_bytes_ok [OF 1(2) refl] obtain r2 where
    2: "take_bytes (ucast (of_nat (length t) :: u8)) r1 = Some (Some t, r2)" "rd_at r2 todo" by auto
  from 1 2 n assms(2) rd_good [OF 1(2)] c_string_id [OF assms(4)] show ?thesis by (simp add: take_string_def)
qed

end
