(* ===== verification/Persist_Tree.thy ===== *)
theory Persist_Tree
  imports Persist_Codec
begin

text \<open>
  The records of a snapshot: which ones \<open>persist_save\<close> writes for the accounts and for the tree,
  and what reading them back does.
\<close>

section \<open>Node records\<close>

type_synonym node_rec = "string \<times> fs_type \<times> string"

fun enc_node :: "node_rec \<Rightarrow> string" where
  "enc_node (path, ty, bs) =
     le_bytes 1 (ucast (if ty = FS_DIR then KIND_DIR else KIND_FILE)) @ le_bytes 2 (ucast (of_nat (length path) :: u16)) @
     le_bytes 4 (of_nat (length bs)) @ path @ bs"

text \<open>The record of a node; there is none when \<open>fs_abspath\<close> writes no path.\<close>

definition node_recs :: "'a fs_state_scheme \<Rightarrow> ptr \<Rightarrow> node_rec list" where
  "node_recs s p =
     (case (fs_abspath p [] FS_PATH_MAX s, nodes s p) of
        (Some path, Some n) \<Rightarrow>
          if path = [] then [] else [(path, n_type n, if n_type n = FS_FILE then contents s n else [])]
      | _ \<Rightarrow> [])"

lemma join_parts_length: "length out < sz \<Longrightarrow> length (join_parts sz out xs) < sz"
  by (induction sz out xs rule: join_parts.induct) auto

lemma join_parts_chars: "c \<in> set (join_parts sz out xs) \<Longrightarrow> c \<in> set out \<or> c = CHR ''/'' \<or> (\<exists>x\<in>set xs. c \<in> set x)"
  by (induction sz out xs rule: join_parts.induct) (auto split: if_splits)

lemma names_no_NUL:
  "tree_ok N r K d \<Longrightarrow> names_ok N K \<Longrightarrow> N p = Some n \<Longrightarrow> p \<noteq> r \<Longrightarrow> name_ok (n_name n)"
proof -
  assume a: "tree_ok N r K d" "names_ok N K" "N p = Some n" "p \<noteq> r"
  from tree_parent [OF a(1,3,4)] have "n_parent n \<in> dom N" "p \<in> set (K (n_parent n))" by auto
  with a(2,3) show "name_ok (n_name n)" by (force simp: names_ok_def)
qed

lemma abs_parts_NUL:
  assumes "tree_ok N r K d" "names_ok N K"
  shows "p \<in> dom N \<Longrightarrow> \<exists>ps. abs_parts N p k = Some ps \<and> (\<forall>x\<in>set ps. NUL \<notin> set x)"
proof (induction k arbitrary: p)
  case (Suc k)
  then obtain n where n: "N p = Some n" by auto
  have nz: "p \<noteq> 0" using tree_null [OF assms(1)] n by auto
  show ?case
  proof (cases "n_parent n = 0")
    case True
    with n nz show ?thesis by simp
  next
    case False
    then have r: "p \<noteq> r" using tree_parent_nonnull [OF assms(1) n] by simp
    from tree_parent [OF assms(1) n r] Suc.IH [of "n_parent n"] names_no_NUL [OF assms n r] n nz False show ?thesis
      by (auto simp: name_ok_def)
  qed
qed simp

lemma abspath_shape:
  assumes "fs_inv s L" "p \<in> dom (nodes s)"
  shows "\<exists>path. fs_abspath p [] FS_PATH_MAX s = Some path \<and> length path < 256 \<and> NUL \<notin> set path"
proof -
  obtain K d where t: "tree_ok (nodes s) (root_node s) K d" and nm: "names_ok (nodes s) K" using assms(1) by (rule fs_inv_tree)
  from abs_parts_NUL [OF t nm assms(2), of 32] obtain ps where ps: "abs_parts (nodes s) p 32 = Some ps" "\<forall>x\<in>set ps. NUL \<notin> set x" by blast
  have "p \<noteq> 0" using tree_null [OF t] assms(2) by auto
  with ps(1) have "fs_abspath p [] FS_PATH_MAX s = Some (if ps = [] then take 255 ''/'' else join_parts 256 [] (rev ps))"
    by (simp add: fs_abspath_def FS_PATH_MAX_def)
  moreover have "length (join_parts 256 [] (rev ps)) < 256" by (rule join_parts_length) simp
  moreover have "NUL \<notin> set (join_parts 256 [] (rev ps))" using join_parts_chars [of NUL 256 "[]" "rev ps"] ps(2) by auto
  ultimately show ?thesis by auto
qed

lemma file_contents:
  assumes "fs_inv s L" "nodes s p = Some n"
  shows "length (contents s n) = unat (n_size n)" "n_data n = 0 \<Longrightarrow> n_size n = 0"
    and "n_data n \<noteq> 0 \<Longrightarrow> buf_read (n_data n) (unat (n_size n)) s = Some (contents s n)"
proof -
  have d: "data_ok (bufs s) n" by (rule owned_data [OF fs_inv_owned [OF assms(1)] assms(2)])
  then show z: "n_size n = 0" if "n_data n = 0" using that by (simp add: data_ok_def)
  show "buf_read (n_data n) (unat (n_size n)) s = Some (contents s n)" if "n_data n \<noteq> 0"
    using d that by (auto simp: data_ok_def buf_read_def contents_def)
  have "bufs s 0 = None" using owned_null [OF fs_inv_owned [OF assms(1)]] .
  then show "length (contents s n) = unat (n_size n)"
    using d z by (cases "n_data n = 0") (auto simp: data_ok_def contents_def)
qed

lemma write_node_ok:
  assumes inv: "fs_inv s L" and p: "nodes s p = Some n" and w: "w_ok w"
  shows "\<exists>w'. write_node p s w count = Some (w', count + of_nat (length (node_recs s p))) \<and>
    wrote (concat (map enc_node (node_recs s p))) w w'"
proof -
  have pd: "p \<in> dom (nodes s)" using p by auto
  from abspath_shape [OF inv pd] obtain path where a: "fs_abspath p [] FS_PATH_MAX s = Some path" "length path < 256" by blast
  show ?thesis
  proof (cases "path = []")
    case True
    with a p w show ?thesis by (simp add: write_node_def node_recs_def wrote_nil)
  next
    case False
    let ?bs = "if n_type n = FS_FILE then contents s n else []"
    have r: "node_recs s p = [(path, n_type n, ?bs)]" using a(1) p False by (simp add: node_recs_def)
    note fc = file_contents [OF inv p]
    have pl: "unat (of_nat (length path) :: u16) = length path" using a(2) by (simp add: unat_of_nat)
    have dl: "(if n_type n = FS_FILE then n_size n else 0) = of_nat (length ?bs)"
      using fc(1) by simp
    obtain w1 where 1: "put_u8 (if n_type n = FS_DIR then KIND_DIR else KIND_FILE) w = Some w1"
      "wrote (le_bytes 1 (ucast (if n_type n = FS_DIR then KIND_DIR else KIND_FILE))) w w1" using put_int_ok(1) [OF w] by blast
    obtain w2 where 2: "put_u16 (of_nat (length path)) w1 = Some w2" "wrote (le_bytes 2 (ucast (of_nat (length path) :: u16))) w1 w2"
      using put_int_ok(2) [OF wrote_ok [OF 1(2)]] by blast
    obtain w3 where 3: "put_u32 (of_nat (length ?bs)) w2 = Some w3" "wrote (le_bytes 4 (of_nat (length ?bs))) w2 w3"
      using put_int_ok(3) [OF wrote_ok [OF 2(2)]] by blast
    obtain w4 where 4: "put_bytes path w3 = Some w4" "wrote path w3 w4"
      using put_bytes_ok [OF wrote_ok [OF 3(2)], of path] a(2) by auto
    have "length ?bs < 4293918720" using fc(1) file_size [OF inv p] by simp
    with put_bytes_ok [OF wrote_ok [OF 4(2)]] obtain w5 where 5: "put_bytes ?bs w4 = Some w5" "wrote ?bs w4 w5" by blast
    have c: "wrote (enc_node (path, n_type n, ?bs)) w w5"
      using wrote_trans [OF 1(2) wrote_trans [OF 2(2) wrote_trans [OF 3(2) wrote_trans [OF 4(2) 5(2)]]]] by simp
    show ?thesis
    proof (cases "(if n_type n = FS_FILE then n_size n else 0) = 0")
      case True
      then have e: "?bs = []" using fc(1) by (auto split: if_splits)
      have "wrote (enc_node (path, n_type n, ?bs)) w w4"
        using wrote_trans [OF 1(2) wrote_trans [OF 2(2) wrote_trans [OF 3(2) 4(2)]]] unfolding e by simp
      moreover have "write_node p s w count = Some (w4, count + 1)"
        using a(1) False p 1(1) 2(1) 3(1) 4(1) pl True dl by (simp add: write_node_def Let_def)
      ultimately show ?thesis unfolding r by auto
    next
      case nz: False
      then have f: "n_type n = FS_FILE" "n_size n \<noteq> 0" by (auto split: if_splits)
      then have "write_node p s w count = Some (w5, count + 1)"
        using a(1) False p 1(1) 2(1) 3(1) 4(1) 5(1) pl dl fc(2,3) by (auto simp: write_node_def Let_def)
      with c show ?thesis unfolding r by auto
    qed
  qed
qed

section \<open>The whole tree\<close>

definition recs_of :: "'a fs_state_scheme \<Rightarrow> ptr list \<Rightarrow> node_rec list" where
  "recs_of s ps = concat (map (node_recs s) ps)"

definition enc_nodes :: "node_rec list \<Rightarrow> string" where
  "enc_nodes rs = concat (map enc_node rs)"

lemma recs_of_simps [simp]: "recs_of s [] = []" "recs_of s (p # ps) = node_recs s p @ recs_of s ps"
  "recs_of s (ps @ qs) = recs_of s ps @ recs_of s qs"
  by (simp_all add: recs_of_def)

lemma enc_nodes_simps [simp]: "enc_nodes [] = []" "enc_nodes (r # rs) = enc_node r @ enc_nodes rs"
  "enc_nodes (rs @ ts) = enc_nodes rs @ enc_nodes ts"
  by (simp_all add: enc_nodes_def)

lemma file_no_children:
  assumes "fs_inv s L" "nodes s p = Some n" "n_type n = FS_FILE" shows "n_children n = 0"
proof -
  obtain K d where t: "tree_ok (nodes s) (root_node s) K d" using assms(1) by (rule fs_inv_tree)
  from tree_chain [OF t assms(2)] tree_file_kids [OF t assms(2,3)] show ?thesis by simp
qed

lemma write_siblings_ok:
  assumes inv: "fs_inv s L"
  shows "reps (nodes s) child ts \<Longrightarrow> w_ok w \<Longrightarrow>
    \<exists>w'. write_siblings s child w count = Some (w', count + of_nat (length (recs_of s (addrs ts)))) \<and>
      wrote (enc_nodes (recs_of s (addrs ts))) w w'"
proof (induction "nodes s" child ts arbitrary: w count rule: reps.induct)
  case (1 p)
  then show ?case by (simp add: write_siblings.simps wrote_nil)
next
  case (2 p a cs ts)
  then obtain n where n: "p = a" "a \<noteq> 0" "nodes s a = Some n" "reps (nodes s) (n_children n) cs" "reps (nodes s) (n_next n) ts" by auto
  from write_node_ok [OF inv n(3) "2.prems"(2), of count] obtain w1 where
    1: "write_node a s w count = Some (w1, count + of_nat (length (node_recs s a)))" "wrote (enc_nodes (node_recs s a)) w w1"
    by (auto simp: enc_nodes_def)
  let ?c1 = "count + of_nat (length (node_recs s a))" and ?c2 = "count + of_nat (length (node_recs s a)) + of_nat (length (recs_of s (addrs cs)))"
  have "\<exists>w2. (if n_type n = FS_DIR then write_siblings s (n_children n) w1 ?c1 else Some (w1, ?c1)) = Some (w2, ?c2) \<and>
      wrote (enc_nodes (recs_of s (addrs cs))) w1 w2"
  proof (cases "n_type n = FS_DIR")
    case True
    with "2.hyps"(1) [OF n(4) wrote_ok [OF 1(2)], of ?c1] show ?thesis by simp
  next
    case False
    then have "n_type n = FS_FILE" by (cases "n_type n") auto
    with file_no_children [OF inv n(3)] n(4) have "cs = []" by (cases cs) (auto elim: reps.elims)
    with False wrote_nil [OF wrote_ok [OF 1(2)]] show ?thesis by simp
  qed
  then obtain w2 where 2: "(if n_type n = FS_DIR then write_siblings s (n_children n) w1 ?c1 else Some (w1, ?c1)) = Some (w2, ?c2)"
    "wrote (enc_nodes (recs_of s (addrs cs))) w1 w2" by blast
  from "2.hyps"(2) [OF n(5) wrote_ok [OF 2(2)], of ?c2] obtain w3 where
    3: "write_siblings s (n_next n) w2 ?c2 = Some (w3, ?c2 + of_nat (length (recs_of s (addrs ts))))"
      "wrote (enc_nodes (recs_of s (addrs ts))) w2 w3" by blast
  from wrote_trans [OF 1(2) wrote_trans [OF 2(2) 3(2)]] have "wrote (enc_nodes (recs_of s (addrs (GT a cs # ts)))) w w3" by simp
  moreover have "write_siblings s p w count = Some (w3, count + of_nat (length (recs_of s (addrs (GT a cs # ts)))))"
    by (subst write_siblings.simps) (use n(1-3) 1(1) 2(1) 3(1) in \<open>simp add: add.assoc\<close>)
  ultimately show ?case by blast
qed

text \<open>Every node comes after its parent, when the nodes \<open>seen\<close> came before.\<close>

primrec parents_first :: "(ptr \<Rightarrow> fs_node option) \<Rightarrow> ptr set \<Rightarrow> ptr list \<Rightarrow> bool" where
  "parents_first N seen [] \<longleftrightarrow> True"
| "parents_first N seen (p # ps) \<longleftrightarrow> (\<exists>n. N p = Some n \<and> n_parent n \<in> seen) \<and> parents_first N (insert p seen) ps"

lemma parents_first_append:
  "parents_first N S (ps @ qs) \<longleftrightarrow> parents_first N S ps \<and> parents_first N (set ps \<union> S) qs"
  by (induction ps arbitrary: S) auto

lemma parents_first_mono: "parents_first N S ps \<Longrightarrow> S \<subseteq> T \<Longrightarrow> parents_first N T ps"
  by (induction ps arbitrary: S T) (auto, meson insert_mono subsetD)

lemma reps_parents_first:
  "reps N p ts \<Longrightarrow> tree_ok N r K d \<Longrightarrow> chain N n_next p as 0 \<Longrightarrow>
     \<forall>a\<in>set as. \<exists>n. N a = Some n \<and> n_parent n = q \<Longrightarrow> q \<in> S \<Longrightarrow> parents_first N S (addrs ts)"
proof (induction N p ts arbitrary: as q S rule: reps.induct)
  case (1 N p)
  then show ?case by simp
next
  case (2 N p a cs ts)
  from "2.prems"(1) obtain n where n: "p = a" "a \<noteq> 0" "N a = Some n" "reps N (n_children n) cs" "reps N (n_next n) ts" by auto
  from "2.prems"(3) n(1-3) obtain bs where as: "as = a # bs" "chain N n_next (n_next n) bs 0" by (cases as) auto
  have q: "n_parent n = q" using "2.prems"(4) as n(3) by simp
  have a: "a \<in> dom N" using n(3) by auto
  have "\<forall>c\<in>set (K a). \<exists>m. N c = Some m \<and> n_parent m = a" using tree_kid [OF "2.prems"(2) a] by blast
  from "2.IH"(1) [OF n(4) "2.prems"(2) tree_chain [OF "2.prems"(2) n(3)] this, of "insert a S"]
  have c: "parents_first N (insert a S) (addrs cs)" by simp
  have "\<forall>a\<in>set bs. \<exists>n. N a = Some n \<and> n_parent n = q" using "2.prems"(4) as by simp
  from "2.IH"(2) [OF n(5) "2.prems"(2) as(2) this, of "set (addrs cs) \<union> insert a S"] "2.prems"(5)
  have "parents_first N (set (addrs cs) \<union> insert a S) (addrs ts)" by simp
  with c n(3) q "2.prems"(5) show ?case by (simp add: parents_first_append)
qed

text \<open>The nodes below the root, each once, every directory before what is in it.\<close>

definition listing :: "'a fs_state_scheme \<Rightarrow> ptr list \<Rightarrow> bool" where
  "listing s ps \<longleftrightarrow> distinct ps \<and> set ps = dom (nodes s) - {root_node s} \<and> parents_first (nodes s) {root_node s} ps"

lemma root_listing:
  assumes "fs_inv s L"
  shows "\<exists>n ts. nodes s (root_node s) = Some n \<and> reps (nodes s) (n_children n) ts \<and> listing s (addrs ts)"
proof -
  obtain K d where t: "tree_ok (nodes s) (root_node s) K d" and nm: "names_ok (nodes s) K" using assms by (rule fs_inv_tree)
  from tree_root [OF t] obtain n where n: "nodes s (root_node s) = Some n" by blast
  from reps_exists [OF t nm n] below_root [OF t nm] obtain ts where ts: "reps (nodes s) (n_children n) ts"
    "set (addrs ts) = dom (nodes s) - {root_node s}" "distinct (addrs ts)" by auto
  have rd: "root_node s \<in> dom (nodes s)" using n by auto
  have "\<forall>c\<in>set (K (root_node s)). \<exists>m. nodes s c = Some m \<and> n_parent m = root_node s" using tree_kid [OF t rd] by blast
  from reps_parents_first [OF ts(1) t tree_chain [OF t n] this, of "{root_node s}"] ts n show ?thesis by (auto simp: listing_def)
qed

lemma write_tree_ok:
  assumes inv: "fs_inv s L" and w: "w_ok w"
  shows "\<exists>ps w'. listing s ps \<and> write_tree (root_node s) s w count = Some (w', count + of_nat (length (recs_of s ps))) \<and>
    wrote (enc_nodes (recs_of s ps)) w w'"
proof -
  from root_listing [OF inv] obtain n ts where n: "nodes s (root_node s) = Some n" "reps (nodes s) (n_children n) ts" "listing s (addrs ts)" by blast
  from write_siblings_ok [OF inv n(2) w, of count] n(1,3) show ?thesis by (auto simp: write_tree_def)
qed

section \<open>The accounts\<close>

definition accounts :: "'a users_state_scheme \<Rightarrow> account_rec list" where
  "accounts s = map account_of (filter u_active (users s))"

definition enc_accounts :: "account_rec list \<Rightarrow> string" where
  "enc_accounts us = concat (map enc_account us)"

lemma enc_accounts_simps [simp]: "enc_accounts [] = []" "enc_accounts (u # us) = enc_account u @ enc_accounts us"
  by (simp_all add: enc_accounts_def)

text \<open>\<open>users_at\<close> numbers the active slots.\<close>

lemma users_at_loop_nth:
  "users_at_loop us is (int k) (int m) = (if m \<le> k \<and> k - m < length (filter (\<lambda>i. u_active (us ! i)) is)
     then Some (filter (\<lambda>i. u_active (us ! i)) is ! (k - m)) else None)"
proof (induction "is" arbitrary: m)
  case (Cons i "is")
  show ?case
  proof (cases "u_active (us ! i)")
    case True
    show ?thesis
    proof (cases "m = k")
      case False
      have "users_at_loop us (i # is) (int k) (int m) = users_at_loop us is (int k) (int (Suc m))"
        using True False by (simp add: add.commute)
      with Cons.IH [of "Suc m"] True False show ?thesis by (auto simp: nth_Cons' Suc_diff_le)
    qed (use True in simp)
  qed (use Cons.IH [of m] in simp)
qed simp

lemma active_slots: "length us = USER_MAX \<Longrightarrow> map (\<lambda>i. us ! i) (filter (\<lambda>i. u_active (us ! i)) [0..<USER_MAX]) = filter u_active us"
  by (metis (no_types, lifting) filter_map comp_def map_nth filter_cong)

lemma write_users_list:
  "\<forall>k\<in>set ks. users_at (int k) s = Some (f k) \<and> length (u_name (users s ! f k)) < 256 \<and> length (u_home (users s ! f k)) < 256 \<Longrightarrow>
   w_ok w \<Longrightarrow> \<exists>w'. write_users (map int ks) s w c = Some (w', c + of_nat (length ks)) \<and>
     wrote (enc_accounts (map (\<lambda>k. account_of (users s ! f k)) ks)) w w'"
proof (induction ks arbitrary: w c)
  case Nil
  then show ?case by (simp add: wrote_nil)
next
  case (Cons k ks)
  from write_user_ok [OF Cons.prems(2), of "users s ! f k"] Cons.prems(1) obtain w1 where
    1: "write_user (users s ! f k) w = Some w1" "wrote (enc_account (account_of (users s ! f k))) w w1" by auto
  from Cons.IH [OF _ wrote_ok [OF 1(2)], of "c + 1"] Cons.prems(1) obtain w2 where
    2: "write_users (map int ks) s w1 (c + 1) = Some (w2, c + 1 + of_nat (length ks))"
      "wrote (enc_accounts (map (\<lambda>k. account_of (users s ! f k)) ks)) w1 w2" by auto
  from 1(1) 2(1) Cons.prems(1) wrote_trans [OF 1(2) 2(2)] show ?case by (simp add: add.assoc)
qed

lemma upto_map_int: "[0..int n - 1] = map int [0..<n]"
  by (induction n) (simp_all add: upto_rec2)

lemma write_users_ok:
  assumes ok: "users_ok s" and w: "w_ok w"
  shows "\<exists>w'. write_users [0..users_count s - 1] s w 0 = Some (w', of_nat (length (accounts s))) \<and>
    wrote (enc_accounts (accounts s)) w w'"
proof -
  define sl where "sl = filter (\<lambda>i. u_active (users s ! i)) [0..<USER_MAX]"
  have len: "length (users s) = USER_MAX" using ok by (simp add: users_ok_def)
  have at: "users_at (int k) s = Some (sl ! k)" if "k < length sl" for k
    using users_at_loop_nth [of "users s" "[0..<USER_MAX]" k 0] that by (simp add: users_at_def sl_def)
  have good: "length (u_name (users s ! (sl ! k))) < 256 \<and> length (u_home (users s ! (sl ! k))) < 256" if "k < length sl" for k
  proof -
    have "sl ! k \<in> set sl" using that by simp
    then have "sl ! k < USER_MAX" "u_active (users s ! (sl ! k))" by (simp_all add: sl_def)
    with ok have "valid_name (u_name (users s ! (sl ! k)))" "length (u_home (users s ! (sl ! k))) < USER_HOME_MAX"
      by (simp_all add: users_ok_def)
    then show ?thesis by (simp add: valid_name_def USER_NAME_MAX_def USER_HOME_MAX_def)
  qed
  have c: "users_count s = int (length sl)" by (simp add: users_count_def sl_def)
  have acc: "accounts s = map (\<lambda>k. account_of (users s ! (sl ! k))) [0..<length sl]"
  proof -
    have "accounts s = map account_of (map ((!) (users s)) sl)"
      using active_slots [OF len] by (simp add: accounts_def sl_def)
    also have "\<dots> = map (\<lambda>k. account_of (users s ! (sl ! k))) [0..<length sl]" by (rule nth_equalityI) simp_all
    finally show ?thesis .
  qed
  from write_users_list [of "[0..<length sl]" s "\<lambda>k. sl ! k" w 0] at good w
  show ?thesis unfolding c upto_map_int acc by auto
qed

section \<open>Reading them back\<close>

fun import_all :: "char \<Rightarrow> account_rec list \<Rightarrow> 'a users_state_scheme \<Rightarrow> 'a users_state_scheme option" where
  "import_all x [] s = Some s"
| "import_all x ((name, home, uid, gid, hash) # us) s = do { (rc, s) \<leftarrow> users_import x name home uid gid hash s; import_all x us s }"

fun replay_nodes :: "char \<Rightarrow> node_rec list \<Rightarrow> 'a fs_state_scheme \<Rightarrow> 'a fs_state_scheme option" where
  "replay_nodes x [] s = Some s"
| "replay_nodes x ((path, ty, bs) # rs) s = do {
     (node, s) \<leftarrow> open_node x path ty s;
     s \<leftarrow> (if bs = [] \<or> node = NULL then Some s
           else do {
             n \<leftarrow> nodes s node;
             if n_type n \<noteq> FS_FILE then Some s else do { (rc, s) \<leftarrow> fs_write_n node bs False s; Some s }
           });
     replay_nodes x rs s
   }"

definition good_account :: "account_rec \<Rightarrow> bool" where
  "good_account u = (case u of (name, home, _) \<Rightarrow>
     length name < USER_NAME_MAX \<and> length home < USER_HOME_MAX \<and> NUL \<notin> set name \<and> NUL \<notin> set home)"

definition good_node :: "node_rec \<Rightarrow> bool" where
  "good_node r = (case r of (path, _, _) \<Rightarrow> path \<noteq> [] \<and> length path < FS_PATH_MAX \<and> NUL \<notin> set path)"

lemma read_users_ok:
  "rd_at r (enc_accounts us @ todo) \<Longrightarrow> \<forall>u\<in>set us. good_account u \<Longrightarrow>
     \<exists>r'. rd_at r' todo \<and> (\<forall>s :: 'a users_state_scheme. read_users x (length us) r s = do { s \<leftarrow> import_all x us s; Some (r', s) })"
proof (induction us arbitrary: r)
  case Nil
  then show ?case by auto
next
  case (Cons u us)
  obtain name home uid gid hash where u: "u = (name, home, uid, gid, hash)" by (cases u) auto
  have g: "length name < USER_NAME_MAX" "length home < USER_HOME_MAX" "NUL \<notin> set name" "NUL \<notin> set home"
    using Cons.prems(2) u by (auto simp: good_account_def)
  have "rd_at r (enc_string name @ enc_string home @ le_bytes 4 uid @ le_bytes 4 gid @ le_bytes 4 hash @ enc_accounts us @ todo)"
    using Cons.prems(1) u by simp
  from take_string_ok [OF this g(1) _ g(3)] obtain r1 where
    1: "take_string USER_NAME_MAX r = Some (Some name, r1)"
      "rd_at r1 (enc_string home @ le_bytes 4 uid @ le_bytes 4 gid @ le_bytes 4 hash @ enc_accounts us @ todo)"
    by (auto simp: USER_NAME_MAX_def)
  from take_string_ok [OF 1(2) g(2) _ g(4)] obtain r2 where
    2: "take_string USER_HOME_MAX r1 = Some (Some home, r2)" "rd_at r2 (le_bytes 4 uid @ le_bytes 4 gid @ le_bytes 4 hash @ enc_accounts us @ todo)"
    by (auto simp: USER_HOME_MAX_def)
  from take_int_ok(3) [OF 2(2)] obtain r3 where 3: "take_u32 r2 = Some (uid, r3)" "rd_at r3 (le_bytes 4 gid @ le_bytes 4 hash @ enc_accounts us @ todo)"
    by blast
  from take_int_ok(3) [OF 3(2)] obtain r4 where 4: "take_u32 r3 = Some (gid, r4)" "rd_at r4 (le_bytes 4 hash @ enc_accounts us @ todo)" by blast
  from take_int_ok(3) [OF 4(2)] obtain r5 where 5: "take_u32 r4 = Some (hash, r5)" "rd_at r5 (enc_accounts us @ todo)" by blast
  from Cons.IH [OF 5(2)] Cons.prems(2) obtain r' where
    r': "rd_at r' todo" "\<And>s :: 'a users_state_scheme. read_users x (length us) r5 s = do { s \<leftarrow> import_all x us s; Some (r', s) }" by auto
  have "read_users x (length (u # us)) r s = do { s \<leftarrow> import_all x (u # us) s; Some (r', s) }" for s :: "'a users_state_scheme"
    unfolding u using 1(1) 2(1) 3(1) 4(1) 5(1) rd_good [OF 5(2)] rd_good [OF Cons.prems(1)] r'(2)
    by (simp add: bind_assoc split_def)
  with r'(1) show ?case by blast
qed

lemma read_nodes_ok:
  "rd_at r (enc_nodes rs @ todo) \<Longrightarrow> \<forall>n\<in>set rs. good_node n \<Longrightarrow>
     \<exists>r'. rd_at r' todo \<and> (\<forall>s :: 'a fs_state_scheme. read_nodes x (length rs) r s = do { s \<leftarrow> replay_nodes x rs s; Some (r', s) })"
proof (induction rs arbitrary: r)
  case Nil
  then show ?case by auto
next
  case (Cons n rs)
  obtain path ty bs where n: "n = (path, ty, bs)" by (cases n) auto
  have g: "path \<noteq> []" "length path < 256" "NUL \<notin> set path" using Cons.prems(2) n by (auto simp: good_node_def FS_PATH_MAX_def)
  let ?k = "if ty = FS_DIR then KIND_DIR else KIND_FILE"
  have "rd_at r (le_bytes 1 (ucast ?k) @ le_bytes 2 (ucast (of_nat (length path) :: u16)) @ le_bytes 4 (of_nat (length bs)) @
      path @ bs @ enc_nodes rs @ todo)" using Cons.prems(1) n by simp
  from take_int_ok(1) [OF this] obtain r1 where 1: "take_u8 r = Some (?k, r1)"
    "rd_at r1 (le_bytes 2 (ucast (of_nat (length path) :: u16)) @ le_bytes 4 (of_nat (length bs)) @ path @ bs @ enc_nodes rs @ todo)" by blast
  from take_int_ok(2) [OF 1(2)] obtain r2 where 2: "take_u16 r1 = Some (of_nat (length path), r2)"
    "rd_at r2 (le_bytes 4 (of_nat (length bs)) @ path @ bs @ enc_nodes rs @ todo)" by blast
  from take_int_ok(3) [OF 2(2)] obtain r3 where 3: "take_u32 r2 = Some (of_nat (length bs), r3)"
    "rd_at r3 (path @ bs @ enc_nodes rs @ todo)" by blast
  have len: "length bs < 4294967296" using 3(2) by (auto simp: rd_at_def)
  have pl: "unat (of_nat (length path) :: u16) = length path" "(of_nat (length path) :: u16) \<noteq> 0"
  proof -
    show "unat (of_nat (length path) :: u16) = length path" using g(2) by (simp add: unat_of_nat)
    then show "(of_nat (length path) :: u16) \<noteq> 0" using g(1) by (metis length_0_conv unat_0)
  qed
  have uc: "ucast (of_nat (length path) :: u16) = (of_nat (length path) :: u32)"
    by (rule word_unat_eq_iff [THEN iffD2]) (use g(2) in \<open>simp add: unsigned_ucast_eq unat_of_nat take_bit_eq_mod\<close>)
  from take_bytes_ok [OF 3(2) refl] uc obtain r4 where 4: "take_bytes (ucast (of_nat (length path) :: u16)) r3 = Some (Some path, r4)"
    "rd_at r4 (bs @ enc_nodes rs @ todo)" by auto
  note pk = rd_peek [OF 4(2) refl]
  let ?r5 = "r4\<lparr>r_pos := r_pos r4 + of_nat (length bs)\<rparr>"
  have r5: "rd_at (if bs = [] then r4 else ?r5) (enc_nodes rs @ todo)" using 4(2) pk(3) by auto
  from Cons.IH [OF r5] Cons.prems(2) obtain r' where
    r': "rd_at r' todo" "\<And>s :: 'a fs_state_scheme. read_nodes x (length rs) (if bs = [] then r4 else ?r5) s = do { s \<leftarrow> replay_nodes x rs s; Some (r', s) }" by auto
  have k: "(if ?k = KIND_DIR then FS_DIR else FS_FILE) = ty" by (cases ty) (simp_all add: KIND_DIR_def KIND_FILE_def)
  have z: "(of_nat (length bs) :: u32) = 0 \<longleftrightarrow> bs = []" using len by simp
  have b: "\<not> r_bad r" "\<not> r_bad r3" using rd_good [OF Cons.prems(1)] rd_good [OF 3(2)] by simp_all
  have step: "read_nodes x (length (n # rs)) r s = do {
      (node, s) \<leftarrow> open_node x path ty s;
      if bs = [] then read_nodes x (length rs) r4 s
      else do {
        s \<leftarrow> (if node = NULL then Some s
              else do { n \<leftarrow> nodes s node; if n_type n \<noteq> FS_FILE then Some s else do { (rc, s) \<leftarrow> fs_write_n node bs False s; Some s } });
        read_nodes x (length rs) ?r5 s
      } }" for s :: "'a fs_state_scheme"
    using 1(1) 2(1) 3(1) 4(1) b pl g(2) k z pk(1,2) c_string_id [OF g(3)]
    by (simp add: FS_PATH_MAX_def split_def cong: if_cong)
  have "read_nodes x (length (n # rs)) r s = do { s \<leftarrow> replay_nodes x (n # rs) s; Some (r', s) }" for s :: "'a fs_state_scheme"
  proof (cases "bs = []")
    case True
    with step [of s] r'(2) show ?thesis unfolding n by (simp add: bind_assoc split_def)
  next
    case False
    have e: "read_nodes x (length rs) ?r5 = (\<lambda>s :: 'a fs_state_scheme. do { s \<leftarrow> replay_nodes x rs s; Some (r', s) })"
      by (rule ext) (use r'(2) False in simp)
    show ?thesis by (subst step) (use False in \<open>simp add: n bind_assoc split_def e\<close>)
  qed
  with r'(1) show ?case by blast
qed

end
