(* ===== verification/Persist_Spec.thy ===== *)
theory Persist_Spec
  imports Persist_Tree
begin

text \<open>
  What the snapshot layer guarantees on a healthy drive: a save that succeeds is read back record
  by record at the next mount, a damaged snapshot leaves the running system alone, and a formatted
  disk stays formatted.
\<close>

section \<open>Sizes\<close>

lemma sectors_for_unat: "n \<le> 1048576 \<Longrightarrow> unat (sectors_for (of_nat n)) = (n + 511) div 512"
proof -
  assume n: "n \<le> 1048576"
  have "of_nat n + ATA_SECTOR_SIZE - 1 = (of_nat (n + 511) :: u32)" by (simp add: ATA_SECTOR_SIZE_def)
  moreover have "unat (of_nat (n + 511) :: u32) = n + 511" using n by (intro unat_of_nat_exact) simp
  ultimately show ?thesis unfolding sectors_for_def by (simp only: unat_div) (simp add: ATA_SECTOR_SIZE_def)
qed

text \<open>The number of sectors of a payload, and the payload padded to it.\<close>

definition n_sectors :: "nat \<Rightarrow> nat" where
  "n_sectors n = (if n = 0 then 1 else (n + 511) div 512)"

definition padded_to :: "string \<Rightarrow> string" where
  "padded_to bs = bs @ replicate (n_sectors (length bs) * 512 - length bs) NUL"

lemma n_sectors_bounds: "n \<le> 1048576 \<Longrightarrow> n \<le> n_sectors n * 512 \<and> n_sectors n \<le> 2048 \<and> 0 < n_sectors n"
proof -
  assume n: "n \<le> 1048576"
  have "n \<le> (n + 511) div 512 * 512" using div_mult_mod_eq [of "n + 511" 512] mod_less_divisor [of 512 "n + 511"] by linarith
  moreover have "(n + 511) div 512 \<le> (1048576 + 511) div 512" using n by (intro div_le_mono) simp
  moreover have "0 < n \<Longrightarrow> 0 < (n + 511) div 512" by (simp add: div_greater_zero_iff)
  ultimately show ?thesis by (auto simp: n_sectors_def)
qed

lemma padded_length: "length bs \<le> 1048576 \<Longrightarrow> length (padded_to bs) = n_sectors (length bs) * 512"
  using n_sectors_bounds [of "length bs"] by (simp add: padded_to_def)

lemma padded_words:
  assumes "length bs \<le> 1048576"
  shows "length (words_of (padded_to bs)) = n_sectors (length bs) * 256" "bytes_of (words_of (padded_to bs)) = padded_to bs"
  using padded_length [OF assms] by (simp_all add: words_length bytes_words)

lemma write_sizes:
  assumes "length bs \<le> 1048576" "u = (of_nat (length bs) :: u32)"
  defines "secs \<equiv> (if sectors_for u = 0 then 1 else sectors_for u)"
  shows "unat secs = n_sectors (length bs)" "bs @ replicate (unat (secs * ATA_SECTOR_SIZE - u)) NUL = padded_to bs"
proof -
  have s: "unat (sectors_for u) = (length bs + 511) div 512" using sectors_for_unat [OF assms(1)] assms(2) by simp
  show n: "unat secs = n_sectors (length bs)"
  proof (cases "length bs = 0")
    case True
    then have "unat (sectors_for u) = 0" using s by simp
    then have "sectors_for u = 0" by (simp add: unat_eq_0)
    with True show ?thesis by (simp add: secs_def n_sectors_def)
  next
    case False
    then have "512 \<le> length bs + 511" by (cases bs) auto
    then have "0 < (length bs + 511) div 512" by (simp only: div_greater_zero_iff) simp
    then have "sectors_for u \<noteq> 0" using s by (metis unat_0 less_irrefl)
    with s False show ?thesis by (simp add: secs_def n_sectors_def)
  qed
  note b = n_sectors_bounds [OF assms(1)]
  have "secs * ATA_SECTOR_SIZE = of_nat (n_sectors (length bs) * 512)"
    unfolding n [symmetric] by (simp add: ATA_SECTOR_SIZE_def)
  then have "unat (secs * ATA_SECTOR_SIZE) = n_sectors (length bs) * 512" using b by (simp add: unat_of_nat_exact del: of_nat_mult)
  moreover have "unat u = length bs" using assms(1,2) by (simp add: unat_of_nat_exact)
  ultimately have "unat (secs * ATA_SECTOR_SIZE - u) = n_sectors (length bs) * 512 - length bs" using b by (simp add: unat_minus_exact)
  then show "bs @ replicate (unat (secs * ATA_SECTOR_SIZE - u)) NUL = padded_to bs" by (simp add: padded_to_def)
qed

section \<open>A good state\<close>

text \<open>What the drives hold, apart from the table of the driver.\<close>

definition idents :: "('d \<Rightarrow> ata_view) \<Rightarrow> 'd ata \<Rightarrow> nat \<Rightarrow> u16 list option" where
  "idents view d = v_ident (view (hw d))"

definition has_super :: "(nat \<Rightarrow> u16 list option) \<Rightarrow> (nat \<Rightarrow> nat \<Rightarrow> u16 list) \<Rightarrow> nat \<Rightarrow> nat \<Rightarrow> bool" where
  "has_super ident media drive base \<longleftrightarrow>
     (case ident drive of None \<Rightarrow> False
      | Some w \<Rightarrow> base + 1 < unat (ident_sectors w) \<and> magic (super_of (bytes_of (media drive base))) = MAGIC)"

text \<open>The data area is the slave's, or the one on the master while the slave has no snapshot.\<close>

definition placed :: "('d \<Rightarrow> ata_view) \<Rightarrow> 'd persist \<Rightarrow> bool" where
  "placed view s \<longleftrightarrow> ata_present (data_drive s) (disk s) \<and>
     (data_drive s = ATA_SLAVE \<and> data_base s = 0 \<or>
      data_drive s = ATA_MASTER \<and> data_base s = INSTALL_DATA_LBA \<and>
        \<not> has_super (idents view (disk s)) (content view (disk s)) ATA_SLAVE 0)"

definition persist_ok :: "'d ports \<Rightarrow> ('d \<Rightarrow> ata_view) \<Rightarrow> ('d \<Rightarrow> nat) \<Rightarrow> (ptr \<Rightarrow> nat option) \<Rightarrow> 'd persist \<Rightarrow> bool" where
  "persist_ok P view busy A s \<longleftrightarrow> files_ok A s \<and> users_ok s \<and>
     (\<forall>u\<in>set (users s). u_active u \<longrightarrow> NUL \<notin> set (u_home u)) \<and>
     ata_ok P view busy (disk s) \<and> (p_state s \<noteq> PERSIST_NO_DISK \<longrightarrow> placed view s)"

lemma payload_start: "d \<le> 2048 \<Longrightarrow> unat (of_nat d + 1 :: u32) = d + 1"
  by (simp add: unat_plus_exact unat_of_nat_exact)

lemma ata_ok_idents:
  assumes "ata_ok P view busy d" "ata_present drive d"
  shows "\<exists>w. idents view d drive = Some w \<and> ata_sector_count drive d = ident_sectors w"
  using assms by (auto simp: ata_ok_def ata_present_def idents_def ata_sector_count_def ATA_SLAVE_def)

section \<open>Saving\<close>

text \<open>The superblock and the payload of a snapshot of the nodes \<open>ps\<close>.\<close>

definition payload :: "'d persist \<Rightarrow> ptr list \<Rightarrow> string" where
  "payload s ps = enc_accounts (accounts s) @ enc_nodes (recs_of s ps)"

definition superblock :: "'d persist \<Rightarrow> ptr list \<Rightarrow> super_t" where
  "superblock s ps = \<lparr>magic = MAGIC, version = PERSIST_VERSION, payload_bytes = of_nat (length (payload s ps)),
     super_nodes = of_nat (length (recs_of s ps)), super_users = of_nat (length (accounts s)),
     super_checksum = checksum (payload s ps), super_saves = save_count s + 1\<rparr>"

text \<open>The disk \<open>d\<close> carries that snapshot, at the place \<open>s\<close> keeps its own.\<close>

definition carries :: "('d \<Rightarrow> ata_view) \<Rightarrow> 'd persist \<Rightarrow> ptr list \<Rightarrow> (nat \<Rightarrow> nat \<Rightarrow> u16 list) \<Rightarrow> bool" where
  "carries view s ps media \<longleftrightarrow> length (payload s ps) \<le> 1048576 \<and>
     (\<exists>w. idents view (disk s) (data_drive s) = Some w \<and>
        unat (data_base s) + 1 + n_sectors (length (payload s ps)) \<le> unat (ident_sectors w)) \<and>
     media (data_drive s) (unat (data_base s)) = words_of (super_bytes (superblock s ps)) \<and>
     sectors_of media (data_drive s) (unat (data_base s) + 1) (n_sectors (length (payload s ps))) = words_of (padded_to (payload s ps))"

lemma sectors_one: "sectors_of media drive lba 1 = media drive lba"
  by (simp add: sectors_of_def)

lemma kmalloc_files:
  assumes "files_ok A s" "unat n + 7 < 4294967296"
  shows "\<exists>p s'. kmalloc n s = Some (p, s') \<and> mem_frame s s' \<and>
     (if p = NULL then s' = s else \<exists>k. A p = None \<and> files_ok (A(p \<mapsto> k)) s')"
proof -
  from assms(1) obtain L cwd where s: "fs_inv s L" "others s L = A" "node_path s cwd (current_dir s)" by (auto simp: files_ok_def)
  from kmalloc_alloc_law [OF fs_inv_mem [OF s(1)] assms(2)] obtain p s' where
    k: "kmalloc n s = Some (p, s')" "mem_frame s s'" "if p = NULL then s' = s else L p = None \<and> (\<exists>k\<ge>unat n. mem_holds s' (L(p \<mapsto> k)))"
    by blast
  show ?thesis
  proof (cases "p = NULL")
    case True
    with k show ?thesis by simp
  next
    case False
    with k(3) obtain m where m: "L p = None" "mem_holds s' (L(p \<mapsto> m))" by auto
    note f = mem_frame_fs [OF k(2)] and ow = fs_inv_owned [OF s(1)]
    have pn: "nodes s p = None" using owned_node [OF ow, of p] m(1) by (cases "nodes s p") auto
    have pb: "bufs s p = None" using owned_buf [OF ow, of p] m(1) by (cases "bufs s p") auto
    have ow': "owned (nodes s) (bufs s) (L(p \<mapsto> m))"
    proof -
      have "q \<in> dom (nodes s) \<union> dom (bufs s) \<Longrightarrow> (L(p \<mapsto> m)) q = L q" for q using pn pb by auto
      with ow show ?thesis unfolding owned_def by (smt (verit) Un_iff domI)
    qed
    have inv: "fs_inv s' (L(p \<mapsto> m))" using s(1) m(2) ow' f by (simp add: fs_inv_def)
    have "p \<in> - (dom (nodes s) \<union> dom (bufs s))" using pn pb by auto
    then have "others s' (L(p \<mapsto> m)) = A(p \<mapsto> m)"
      unfolding s(2) [symmetric] others_def using f by (simp add: restrict_fun_upd fun_upd_restrict_conv)
    moreover have "node_path s' cwd (current_dir s')" using s(3) f by (simp add: node_path_def)
    moreover have "A p = None" using s(2) m(1) by (auto simp: others_def restrict_map_def)
    ultimately show ?thesis using inv k(1,2) False by (auto simp: files_ok_def)
  qed
qed

lemma release_files:
  assumes "files_ok (A(p \<mapsto> k)) s" "A p = None"
  shows "\<exists>s'. heap_release p s = Some s' \<and> mem_frame s s' \<and> files_ok A s'"
proof -
  from assms(1) obtain L cwd where s: "fs_inv s L" "others s L = A(p \<mapsto> k)" "node_path s cwd (current_dir s)" by (auto simp: files_ok_def)
  have o: "L p = Some k" "p \<notin> dom (nodes s)" "p \<notin> dom (bufs s)"
  proof -
    have "others s L p = Some k" using s(2) by simp
    then show "L p = Some k" "p \<notin> dom (nodes s)" "p \<notin> dom (bufs s)" by (auto simp: others_def restrict_map_def split: if_splits)
  qed
  from heap_release_ok [OF fs_inv_mem [OF s(1)] o(1)] obtain s' where r: "heap_release p s = Some s'" "mem_frame s s'"
    "mem_holds s' (L(p := None))" by blast
  note f = mem_frame_fs [OF r(2)] and ow = fs_inv_owned [OF s(1)]
  have ow': "owned (nodes s) (bufs s) (L(p := None))"
  proof -
    have "q \<in> dom (nodes s) \<union> dom (bufs s) \<Longrightarrow> (L(p := None)) q = L q" for q using o(2,3) by auto
    with ow show ?thesis unfolding owned_def by (smt (verit) Un_iff domI)
  qed
  have inv: "fs_inv s' (L(p := None))" using s(1) r(3) ow' f by (simp add: fs_inv_def)
  have "others s' (L(p := None)) = (others s L)(p := None)" unfolding others_def using f by (auto simp: restrict_map_def fun_eq_iff)
  also have "\<dots> = A" unfolding s(2) using assms(2) by (simp add: fun_upd_idem)
  finally have "others s' (L(p := None)) = A" .
  moreover have "node_path s' cwd (current_dir s')" using s(3) f by (simp add: node_path_def)
  ultimately show ?thesis using inv r(1,2) by (auto simp: files_ok_def)
qed

text \<open>What the records depend on.\<close>

definition same_fs :: "'a users_state_scheme \<Rightarrow> 'a users_state_scheme \<Rightarrow> bool" where
  "same_fs s s' \<longleftrightarrow> nodes s' = nodes s \<and> bufs s' = bufs s \<and> root_node s' = root_node s \<and> current_dir s' = current_dir s \<and>
     node_count s' = node_count s \<and> users s' = users s \<and> logged_in s' = logged_in s \<and> next_uid s' = next_uid s"

lemma mem_frame_same: "mem_frame s s' \<Longrightarrow> same_fs s s'"
  by (auto simp: mem_frame_def same_fs_def)

lemma same_fs_trans: "same_fs s t \<Longrightarrow> same_fs t u \<Longrightarrow> same_fs s u"
  by (simp add: same_fs_def)

lemma same_fs_records:
  assumes "same_fs s s'"
  shows "accounts s' = accounts s" "recs_of s' ps = recs_of s ps" "listing s' ps = listing s ps" "users_ok s' = users_ok s"
    "users_count s' = users_count s" "write_users is s' w c = write_users is s w c"
proof -
  have n: "node_recs s' p = node_recs s p" for p
    using assms by (auto simp: node_recs_def fs_abspath_def same_fs_def contents_def split: option.splits)
  have "map (node_recs s') ps = map (node_recs s) ps" by (simp add: n)
  then show "recs_of s' ps = recs_of s ps" by (simp only: recs_of_def)
  show "accounts s' = accounts s" "listing s' ps = listing s ps" "users_ok s' = users_ok s" "users_count s' = users_count s"
    using assms by (simp_all add: same_fs_def accounts_def listing_def users_ok_def users_count_def)
  show "write_users is s' w c = write_users is s w c"
    using assms by (induction "is" arbitrary: w c) (simp_all add: same_fs_def users_at_def split: option.splits)
qed

text \<open>Putting a snapshot on the disk: the payload, then the superblock.\<close>

lemma snapshot_written:
  assumes ok: "ata_ok P view busy d" and pr: "ata_present drive d" and base: "base = 0 \<or> base = INSTALL_DATA_LBA"
    and pay: "length bs \<le> 1048576" and secs: "unat secs = n_sectors (length bs)" and mg: "length (magic sb) = 8"
  shows "if unat base + 1 + n_sectors (length bs) \<le> unat (ata_sector_count drive d)
    then \<exists>d' d''. ata_write P drive (base + 1) secs (words_of (padded_to bs)) d = Some (0, d') \<and>
       ata_write P drive base 1 (words_of (super_bytes sb)) d' = Some (0, d'') \<and> ata_ok P view busy d'' \<and>
       drives d'' = drives d \<and> idents view d'' = idents view d \<and>
       content view d'' drive (unat base) = words_of (super_bytes sb) \<and>
       sectors_of (content view d'') drive (unat base + 1) (n_sectors (length bs)) = words_of (padded_to bs) \<and>
       (\<forall>i. i \<noteq> drive \<longrightarrow> content view d'' i = content view d i) \<and>
       (\<forall>l. l < unat base \<longrightarrow> content view d'' drive l = content view d drive l)
    else ata_write P drive (base + 1) secs (words_of (padded_to bs)) d = Some (-1, d)"
proof -
  note b = n_sectors_bounds [OF pay]
  have base': "unat base \<le> 2048" "unat (base + 1) = unat base + 1"
    using base by (auto simp: INSTALL_DATA_LBA_def unat_plus_exact)
  have sl: "length (words_of (super_bytes sb)) = 256" using mg by (simp add: words_length super_length)
  show ?thesis
  proof (cases "unat base + 1 + n_sectors (length bs) \<le> unat (ata_sector_count drive d)")
    case True
    have "0 < unat (ata_sector_count drive d)" "unat (base + 1) + unat secs \<le> unat (ata_sector_count drive d)"
      "length (words_of (padded_to bs)) = unat secs * 256" "unat base + unat (1 :: u32) \<le> unat (ata_sector_count drive d)"
      "length (words_of (super_bytes sb)) = unat (1 :: u32) * 256"
      "unat (base + 1) + unat secs \<le> unat base \<or> unat base + unat (1 :: u32) \<le> unat (base + 1)"
      using True base' secs sl padded_words [OF pay] by simp_all
    from disk.wr_wr [OF ok this] True secs base'(2) show ?thesis by (auto simp: idents_def sectors_one [unfolded One_nat_def])
  next
    case False
    have "unat (base + 1) + unat secs < 4294967296" "unat (ata_sector_count drive d) < unat (base + 1) + unat secs" "secs \<noteq> 0"
    proof -
      show "unat (base + 1) + unat secs < 4294967296" "unat (ata_sector_count drive d) < unat (base + 1) + unat secs"
        using b False base' secs by simp_all
      show "secs \<noteq> 0" using b secs by (metis unat_0 less_irrefl)
    qed
    then have "transfer P drive (base + 1) secs (words_of (padded_to bs)) True d = Some (-1, words_of (padded_to bs), d)"
      by (intro ata_refuses) blast
    with False show ?thesis by (simp add: ata_write_def)
  qed
qed

lemma MAGIC_length [simp]: "length MAGIC = 8"
  by (simp add: MAGIC_def)

lemma persist_save_result:
  assumes ok: "persist_ok P view busy A s" and live: "\<not> sealed s" "p_state s \<noteq> PERSIST_NO_DISK"
  shows "\<exists>ps rc s'. listing s ps \<and> persist_save P s = Some (rc, s') \<and> same_fs s s' \<and>
    (if kmalloc MAX_PAYLOAD s = Some (NULL, s) then rc = -1 else if length (payload s ps) > 1048576 then rc = -2
     else if unat (data_base s) + 1 + n_sectors (length (payload s ps)) \<le> unat (ata_sector_count (data_drive s) (disk s)) then rc = 0 else rc = -3) \<and>
    persist_ok P view busy A s' \<and> data_drive s' = data_drive s \<and> data_base s' = data_base s \<and>
    (rc = 0 \<longrightarrow> carries view s ps (content view (disk s')) \<and> idents view (disk s') = idents view (disk s) \<and>
       p_state s' = PERSIST_LOADED \<and> \<not> dirty s' \<and> save_count s' = save_count s + 1) \<and>
    (\<forall>i l. i \<noteq> data_drive s \<or> l < unat (data_base s) \<longrightarrow> content view (disk s') i l = content view (disk s) i l) \<and>
    sealed s' = sealed s \<and> (rc \<noteq> 0 \<longrightarrow> disk s' = disk s \<and> p_state s' = p_state s \<and> dirty s' = dirty s)"
proof -
  have f: "files_ok A s" and u: "users_ok s" and dk: "ata_ok P view busy (disk s)" and pl: "placed view s"
    using ok live(2) by (simp_all add: persist_ok_def)
  from kmalloc_files [OF f, of MAX_PAYLOAD] obtain b s1 where
    k: "kmalloc MAX_PAYLOAD s = Some (b, s1)" "mem_frame s s1"
      "if b = NULL then s1 = s else \<exists>k. A b = None \<and> files_ok (A(b \<mapsto> k)) s1" by (auto simp: MAX_PAYLOAD_def)
  obtain H uu where s1: "s1 = s\<lparr>hdr := H, heap_used := uu\<rparr>" using k(2) by (auto simp: mem_frame_def)
  note sf = mem_frame_same [OF k(2)]
  show ?thesis
  proof (cases "b = NULL")
    case True
    then have "persist_save P s = Some (-1, s)" using k(1,3) live by (simp add: persist_save_def)
    moreover obtain ps where "listing s ps" using f root_listing by (auto simp: files_ok_def)
    moreover have "kmalloc MAX_PAYLOAD s = Some (NULL, s)" using k(1,3) True by simp
    ultimately show ?thesis using ok by (auto simp: same_fs_def)
  next
    case False
    with k(3) obtain k' where fk: "A b = None" "files_ok (A(b \<mapsto> k')) s1" by auto
    from fk(2) obtain L where inv: "fs_inv s1 L" by (auto simp: files_ok_def)
    let ?w0 = "\<lparr>w_bytes = [], capacity = MAX_PAYLOAD, used = 0, overflow = False\<rparr>"
    have w0: "w_ok ?w0" by (simp add: w_ok_def)
    have u1: "users_ok s1" using u same_fs_records(4) [OF sf] by simp
    from write_users_ok [OF u1 w0] obtain w1 where
      1: "write_users [0..users_count s1 - 1] s1 ?w0 0 = Some (w1, of_nat (length (accounts s1)))" "wrote (enc_accounts (accounts s1)) ?w0 w1" by blast
    from write_tree_ok [OF inv wrote_ok [OF 1(2)], of 0] obtain ps w2 where
      2: "listing s1 ps" "write_tree (root_node s1) s1 w1 0 = Some (w2, of_nat (length (recs_of s1 ps)))"
        "wrote (enc_nodes (recs_of s1 ps)) w1 w2" by auto
    note eq = same_fs_records [OF sf]
    have ls: "listing s ps" using 2(1) eq(3) by simp
    have w: "wrote (payload s ps) ?w0 w2" using wrote_trans [OF 1(2) 2(3)] eq(1,2) by (simp add: payload_def)
    show ?thesis
    proof (cases "overflow w2")
      case True
      from release_files [OF fk(2,1)] obtain s2 where r: "heap_release b s1 = Some s2" "mem_frame s1 s2" "files_ok A s2" by blast
      obtain H2 u2 where s2: "s2 = s\<lparr>hdr := H2, heap_used := u2\<rparr>" using r(2) s1 by (auto simp: mem_frame_def)
      have "persist_save P s = Some (-2, s2)" using live k(1) False 1(1) 2(2) True r(1) by (simp add: persist_save_def)
      moreover have "length (payload s ps) > 1048576" using w True by (simp add: wrote_def)
      moreover have "kmalloc MAX_PAYLOAD s \<noteq> Some (NULL, s)" using k(1) False by simp
      moreover have "same_fs s s2" using same_fs_trans [OF sf mem_frame_same [OF r(2)]] .
      moreover have "persist_ok P view busy A s2" using ok r(3) s2 by (simp add: persist_ok_def users_ok_def placed_def)
      ultimately show ?thesis using ls s2 by auto
    next
      case no: False
      have wb: "w_bytes w2 = payload s ps" "used w2 = of_nat (length (payload s ps))" "length (payload s ps) \<le> 1048576"
        using w no by (auto simp: wrote_def w_ok_def)
      define secs where "secs = (if sectors_for (used w2) = 0 then 1 else sectors_for (used w2))"
      have sz: "unat secs = n_sectors (length (payload s ps))"
        "payload s ps @ replicate (unat (secs * ATA_SECTOR_SIZE - used w2)) NUL = padded_to (payload s ps)"
        using write_sizes [OF wb(3,2)] by (simp_all add: secs_def)
      have kn: "kmalloc MAX_PAYLOAD s \<noteq> Some (NULL, s)" using k(1) False by simp
      let ?sb = "superblock s ps"
      have sb: "?sb = \<lparr>magic = MAGIC, version = PERSIST_VERSION, payload_bytes = used w2, super_nodes = of_nat (length (recs_of s1 ps)),
          super_users = of_nat (length (accounts s1)), super_checksum = checksum (w_bytes w2), super_saves = save_count s1 + 1\<rparr>"
        using wb(1,2) eq(1,2) s1 by (simp add: superblock_def)
      have mg: "length (magic ?sb) = 8" by (simp add: superblock_def)
      have pr: "ata_present (data_drive s) (disk s)" "data_base s = 0 \<or> data_base s = INSTALL_DATA_LBA" using pl by (auto simp: placed_def)
      note sw = snapshot_written [OF dk pr wb(3) sz(1) mg]
      define s3 where "s3 d = s1\<lparr>save_count := save_count s1 + 1, disk := d\<rparr>" for d
      have "files_ok (A(b \<mapsto> k')) (s3 d)" for d
        using fk(2) files_ok_cong [of "s3 d" s1] by (simp add: s3_def)
      from release_files [OF this fk(1)] obtain rel where
        rel: "\<And>d. heap_release b (s3 d) = Some (rel d)" "\<And>d. mem_frame (s3 d) (rel d)" "\<And>d. files_ok A (rel d)" by metis
      have relf: "\<exists>H u. rel d = s\<lparr>save_count := save_count s + 1, disk := d, hdr := H, heap_used := u\<rparr>" for d
        using rel(2) [of d] s1 by (auto simp: mem_frame_def s3_def)
      have save: "persist_save P s = do {
          (result, d) \<leftarrow> ata_write P (data_drive s) (data_base s + 1) secs (words_of (padded_to (payload s ps))) (disk s);
          s \<leftarrow> heap_release b (s3 d);
          if result \<noteq> 0 then Some (-3, s)
          else do {
            (result, d) \<leftarrow> ata_write P (data_drive s) (SUPER_LBA s) 1 (words_of (super_bytes ?sb)) (disk s);
            let s = s\<lparr>disk := d\<rparr>;
            if result \<noteq> 0 then Some (-4, s)
            else Some (0, s\<lparr>bytes_used := used w2, p_state := PERSIST_LOADED, dirty := False, data_where := where_text (data_base s)\<rparr>)
          } }"
        unfolding sb using live k(1) False 1(1) 2(2) no wb(1) sz(2)
        by (simp add: persist_save_def Let_def secs_def [symmetric] s3_def PAYLOAD_LBA_def s1 cong: if_cong)
      show ?thesis
      proof (cases "unat (data_base s) + 1 + n_sectors (length (payload s ps)) \<le> unat (ata_sector_count (data_drive s) (disk s))")
        case True
        with sw obtain d1 d2 where d: "ata_write P (data_drive s) (data_base s + 1) secs (words_of (padded_to (payload s ps))) (disk s) = Some (0, d1)"
          "ata_write P (data_drive s) (data_base s) 1 (words_of (super_bytes ?sb)) d1 = Some (0, d2)" "ata_ok P view busy d2"
          "drives d2 = drives (disk s)" "idents view d2 = idents view (disk s)"
          "content view d2 (data_drive s) (unat (data_base s)) = words_of (super_bytes ?sb)"
          "sectors_of (content view d2) (data_drive s) (unat (data_base s) + 1) (n_sectors (length (payload s ps))) = words_of (padded_to (payload s ps))"
          "\<forall>i. i \<noteq> data_drive s \<longrightarrow> content view d2 i = content view (disk s) i"
          "\<forall>l. l < unat (data_base s) \<longrightarrow> content view d2 (data_drive s) l = content view (disk s) (data_drive s) l" by auto
        have untouched: "i \<noteq> data_drive s \<or> l < unat (data_base s) \<longrightarrow> content view d2 i l = content view (disk s) i l" for i l
          using d(8,9) by (cases "i = data_drive s") simp_all
        from relf [of d1] obtain H1 u1 where r1: "rel d1 = s\<lparr>save_count := save_count s + 1, disk := d1, hdr := H1, heap_used := u1\<rparr>" by blast
        let ?s' = "(rel d1)\<lparr>disk := d2, bytes_used := used w2, p_state := PERSIST_LOADED, dirty := False, data_where := where_text (data_base s)\<rparr>"
        have "persist_save P s = Some (0, ?s')" unfolding save using d(1,2) rel(1) [of d1] r1 by (simp add: SUPER_LBA_def)
        moreover have "same_fs s ?s'" using r1 by (simp add: same_fs_def)
        moreover have "persist_ok P view busy A ?s'"
        proof -
          have "files_ok A ?s'" using rel(3) [of d1] files_ok_cong [of ?s' "rel d1"] by simp
          moreover have "data_drive s = ATA_MASTER \<Longrightarrow> has_super (idents view d2) (content view d2) ATA_SLAVE 0 =
              has_super (idents view (disk s)) (content view (disk s)) ATA_SLAVE 0"
            using d(5,8) by (simp add: has_super_def ATA_SLAVE_def ATA_MASTER_def cong: option.case_cong)
          then have "placed view ?s'" using pl d(4) r1 by (auto simp: placed_def ata_present_def)
          ultimately show ?thesis using ok d(3) r1 by (simp add: persist_ok_def users_ok_def)
        qed
        moreover have "carries view s ps (content view (disk ?s'))"
          using wb(3) d(6,7) True ata_ok_idents [OF dk pr(1)] by (auto simp: carries_def)
        ultimately show ?thesis using ls r1 d(5) kn wb(3) True untouched by (intro exI [of _ ps] exI [of _ 0] exI [of _ ?s']) simp
      next
        case False
        with sw have d: "ata_write P (data_drive s) (data_base s + 1) secs (words_of (padded_to (payload s ps))) (disk s) = Some (-1, disk s)" by simp
        from relf [of "disk s"] obtain H1 u1 where
          r1: "rel (disk s) = s\<lparr>save_count := save_count s + 1, disk := disk s, hdr := H1, heap_used := u1\<rparr>" by blast
        have "persist_save P s = Some (-3, rel (disk s))" unfolding save using d rel(1) [of "disk s"] by simp
        moreover have "same_fs s (rel (disk s))" using r1 by (simp add: same_fs_def)
        moreover have "persist_ok P view busy A (rel (disk s))"
          using ok rel(3) [of "disk s"] r1 by (simp add: persist_ok_def users_ok_def placed_def)
        ultimately show ?thesis using ls r1 kn wb(3) False by (intro exI [of _ ps] exI [of _ "-3"] exI [of _ "rel (disk s)"]) simp
      qed
    qed
  qed
qed

end
