(* ===== verification/Persist_Mount.thy ===== *)
theory Persist_Mount
  imports Persist_Spec
begin

text \<open>
  Mounting: how \<open>persist_mount\<close> finds a snapshot, when it accepts it, and that a snapshot written
  by \<open>persist_save\<close> is replayed record by record.
\<close>

section \<open>Finding the snapshot\<close>

lemma present_found:
  assumes "drives d = map found [ident ATA_MASTER, ident ATA_SLAVE]" "drive \<le> 1"
  shows "ata_present drive d \<longleftrightarrow> (\<exists>w. ident drive = Some w \<and> ident_sectors w \<noteq> 0)"
    and "ident drive = Some w \<Longrightarrow> ata_sector_count drive d = ident_sectors w"
proof -
  have "drives d ! drive = found (ident drive)" using assms by (cases drive) (auto simp: ATA_MASTER_def ATA_SLAVE_def)
  then show "ata_present drive d \<longleftrightarrow> (\<exists>w. ident drive = Some w \<and> ident_sectors w \<noteq> 0)"
    "ident drive = Some w \<Longrightarrow> ata_sector_count drive d = ident_sectors w"
    using assms(2) by (auto simp: ata_sector_count_def ata_present_def ATA_SLAVE_def found_def no_drive_def split: option.splits)
qed

text \<open>The drives after \<open>ata_init\<close> and any reads.\<close>

definition drives_ok ::
  "'d ports \<Rightarrow> ('d \<Rightarrow> ata_view) \<Rightarrow> ('d \<Rightarrow> nat) \<Rightarrow> (nat \<Rightarrow> u16 list option) \<Rightarrow> (nat \<Rightarrow> nat \<Rightarrow> u16 list) \<Rightarrow> 'd ata \<Rightarrow> bool" where
  "drives_ok P view busy ident media d \<longleftrightarrow> ata_ok P view busy d \<and> idents view d = ident \<and> content view d = media \<and>
     drives d = map found [ident ATA_MASTER, ident ATA_SLAVE]"

lemma drives_read:
  assumes d: "drives_ok P view busy ident media d" and w: "ident drive = Some w" and i: "drive \<le> 1"
    and rng: "unat lba + unat n \<le> unat (ident_sectors w)" "0 < unat n" and len: "length buf = unat n * 256"
  shows "\<exists>d'. ata_read P drive lba n buf d = Some (0, sectors_of media drive (unat lba) (unat n), d') \<and> drives_ok P view busy ident media d'"
proof -
  have ok: "ata_ok P view busy d" and dr: "drives d = map found [ident ATA_MASTER, ident ATA_SLAVE]"
    and m: "content view d = media" "idents view d = ident" using d by (simp_all add: drives_ok_def)
  have c: "ata_sector_count drive d = ident_sectors w" by (rule present_found(2) [OF dr i w])
  have "0 < unat (ata_sector_count drive d)" "unat lba + unat n \<le> unat (ata_sector_count drive d)" "unat n * 256 \<le> length buf"
    using c rng len by simp_all
  from disk.rd_law [OF ok this] len m dr show ?thesis by (auto simp: drives_ok_def idents_def)
qed

lemma probe_ok:
  assumes d: "drives_ok P view busy ident media d" and i: "drive \<le> 1" and b: "unat base \<le> 2048"
  shows "\<exists>d'. probe P drive base d = Some (has_super ident media drive (unat base), d') \<and> drives_ok P view busy ident media d'"
proof -
  have dr: "drives d = map found [ident ATA_MASTER, ident ATA_SLAVE]" using d by (simp add: drives_ok_def)
  note pf = present_found [where ident = ident, OF dr i]
  have b1: "unat (base + 1) = unat base + 1" using b by (simp add: unat_plus_exact)
  show ?thesis
  proof (cases "ata_present drive d")
    case False
    with pf(1) have "\<not> has_super ident media drive (unat base)" by (auto simp: has_super_def split: option.splits)
    with False d show ?thesis by (simp add: probe_def)
  next
    case True
    with pf(1) obtain w where w: "ident drive = Some w" by blast
    have c: "ata_sector_count drive d = ident_sectors w" by (rule pf(2) [OF w])
    show ?thesis
    proof (cases "unat base + 1 < unat (ident_sectors w)")
      case False
      with w c True d b1 show ?thesis by (simp add: probe_def has_super_def word_le_nat_alt)
    next
      case lt: True
      from drives_read [OF d w i, of base 1 "replicate 256 0"] lt obtain d' where
        r: "ata_read P drive base 1 (replicate 256 0) d = Some (0, media drive (unat base), d')" "drives_ok P view busy ident media d'"
        by (auto simp: sectors_one [unfolded One_nat_def])
      then show ?thesis using True c lt b1 w by (simp add: probe_def has_super_def word_le_nat_alt)
    qed
  qed
qed

definition located :: "(nat \<Rightarrow> u16 list option) \<Rightarrow> (nat \<Rightarrow> nat \<Rightarrow> u16 list) \<Rightarrow> nat \<Rightarrow> u32 \<Rightarrow> bool" where
  "located ident media drive base \<longleftrightarrow> has_super ident media drive (unat base) \<and>
     (drive = ATA_SLAVE \<and> base = 0 \<or> drive = ATA_MASTER \<and> base = INSTALL_DATA_LBA \<and> \<not> has_super ident media ATA_SLAVE 0)"

lemma choose_ok:
  assumes d: "drives_ok P view busy ident media (disk s)" and l: "located ident media drive base"
  shows "\<exists>d'. choose_location P s = Some (True, s\<lparr>disk := d', data_drive := drive, data_base := base, data_where := where_text base\<rparr>) \<and>
    drives_ok P view busy ident media d'"
proof -
  from probe_ok [OF d, of ATA_SLAVE 0] obtain d1 where
    1: "probe P ATA_SLAVE 0 (disk s) = Some (has_super ident media ATA_SLAVE 0, d1)" "drives_ok P view busy ident media d1"
    by (auto simp: ATA_SLAVE_def)
  show ?thesis
  proof (cases "has_super ident media ATA_SLAVE 0")
    case True
    with l have "drive = ATA_SLAVE" "base = 0" by (auto simp: located_def)
    with 1 True show ?thesis by (auto simp: choose_location_def where_text_def)
  next
    case False
    with l have m: "drive = ATA_MASTER" "base = INSTALL_DATA_LBA" "has_super ident media ATA_MASTER (unat INSTALL_DATA_LBA)"
      by (auto simp: located_def)
    from probe_ok [OF 1(2), of ATA_MASTER INSTALL_DATA_LBA] m(3) obtain d2 where
      2: "probe P ATA_MASTER INSTALL_DATA_LBA d1 = Some (True, d2)" "drives_ok P view busy ident media d2"
      by (auto simp: ATA_MASTER_def INSTALL_DATA_LBA_def)
    have "INSTALL_DATA_LBA \<noteq> 0" by (simp add: INSTALL_DATA_LBA_def)
    with 1(1) 2 m False show ?thesis by (auto simp: choose_location_def where_text_def)
  qed
qed

section \<open>Accepting it\<close>

text \<open>The superblock at a place, and the bytes of the payload behind it.\<close>

definition super_at :: "(nat \<Rightarrow> nat \<Rightarrow> u16 list) \<Rightarrow> nat \<Rightarrow> u32 \<Rightarrow> super_t" where
  "super_at media drive base = super_of (bytes_of (media drive (unat base)))"

definition payload_at :: "(nat \<Rightarrow> nat \<Rightarrow> u16 list) \<Rightarrow> nat \<Rightarrow> u32 \<Rightarrow> string" where
  "payload_at media drive base =
     bytes_of (sectors_of media drive (unat base + 1) (n_sectors (unat (payload_bytes (super_at media drive base)))))"

definition header_ok :: "super_t \<Rightarrow> bool" where
  "header_ok sb \<longleftrightarrow> version sb = PERSIST_VERSION \<and> payload_bytes sb \<noteq> 0 \<and> payload_bytes sb \<le> MAX_PAYLOAD"

text \<open>The machine after a reboot: drives at rest with the contents \<open>media\<close>, everything else new.\<close>

definition rebooted ::
  "'d ports \<Rightarrow> ('d \<Rightarrow> ata_view) \<Rightarrow> ('d \<Rightarrow> nat) \<Rightarrow> (nat \<Rightarrow> u16 list option) \<Rightarrow> (nat \<Rightarrow> nat \<Rightarrow> u16 list) \<Rightarrow> 'd persist \<Rightarrow> bool" where
  "rebooted P view busy ident media s \<longleftrightarrow> healthy P view busy \<and> busy (hw (disk s)) = 0 \<and> at_rest (view (hw (disk s))) ident media"

text \<open>\<open>persist_mount\<close> from the payload on, with the reads done.\<close>

definition mount_payload :: "char \<Rightarrow> super_t \<Rightarrow> string \<Rightarrow> 'd ata \<Rightarrow> 'd persist \<Rightarrow> (persist_state_t \<times> 'd persist) option" where
  "mount_payload x sb bytes d s = do {
     (buffer, s) \<leftarrow> kmalloc (sectors_for (payload_bytes sb) * ATA_SECTOR_SIZE) s;
     if buffer = NULL then Some (PERSIST_ERROR, s\<lparr>p_state := PERSIST_ERROR\<rparr>)
     else do {
       let s = s\<lparr>disk := d\<rparr>;
       if checksum (take (unat (payload_bytes sb)) bytes) \<noteq> super_checksum sb
       then do { s \<leftarrow> heap_release buffer s; Some (PERSIST_ERROR, s\<lparr>p_state := PERSIST_ERROR\<rparr>) }
       else do {
         (bad, s) \<leftarrow> restore x sb bytes s;
         s \<leftarrow> heap_release buffer s;
         if bad then Some (PERSIST_ERROR, s\<lparr>p_state := PERSIST_ERROR\<rparr>)
         else Some (PERSIST_LOADED, s\<lparr>bytes_used := payload_bytes sb, save_count := super_saves sb, p_state := PERSIST_LOADED, dirty := False\<rparr>)
       }
     }
   }"

lemma sectors_for_payload: "v \<noteq> 0 \<Longrightarrow> v \<le> MAX_PAYLOAD \<Longrightarrow> unat (sectors_for v) = n_sectors (unat v) \<and> unat v \<le> 1048576"
proof -
  assume v: "v \<noteq> 0" "v \<le> MAX_PAYLOAD"
  then have b: "unat v \<le> 1048576" by (simp add: word_le_nat_alt MAX_PAYLOAD_def)
  have "unat (sectors_for v) = (unat v + 511) div 512" using sectors_for_unat [OF b] by simp
  moreover have "unat v \<noteq> 0" using v(1) by (simp add: unat_eq_0)
  ultimately show ?thesis using b by (simp add: n_sectors_def)
qed

lemma kmalloc_frame: "kmalloc n s = Some (p, t) \<Longrightarrow> mem_frame s t"
  using mem_frame_refl [of s] unfolding kmalloc_def mem_frame_def Let_def
  by (auto split: if_splits Option.bind_splits)

lemma mount_start:
  assumes r: "rebooted P view busy ident media s" and l: "located ident media drive base"
  shows "\<exists>d. drives_ok P view busy ident media d \<and>
    (let sb = super_at media drive base;
         s1 = s\<lparr>sealed := False, data_drive := drive, data_base := base, data_where := where_text base, disk := d\<rparr>
     in magic sb = MAGIC \<and>
       (\<not> header_ok sb \<longrightarrow> persist_mount P x False s = Some (PERSIST_ERROR, s1\<lparr>p_state := PERSIST_ERROR\<rparr>)) \<and>
       (header_ok sb \<longrightarrow> (\<forall>w. ident drive = Some w \<longrightarrow> unat base + 1 + n_sectors (unat (payload_bytes sb)) \<le> unat (ident_sectors w) \<longrightarrow>
          (\<exists>d'. drives_ok P view busy ident media d' \<and>
            persist_mount P x False s = mount_payload x sb (payload_at media drive base) d' s1))))"
proof -
  have h: "healthy P view busy" "busy (hw (disk s)) = 0" "at_rest (view (hw (disk s))) ident media" using r by (simp_all add: rebooted_def)
  from ata_init_found [OF h] obtain d0 where d0: "ata_init P (disk s) = Some d0" "drives_ok P view busy ident media d0"
    by (auto simp: drives_ok_def idents_def ATA_MASTER_def ATA_SLAVE_def)
  let ?s0 = "s\<lparr>sealed := False, disk := d0\<rparr>"
  have "drives_ok P view busy ident media (disk ?s0)" using d0(2) by simp
  from choose_ok [OF this l] obtain d1 where c: "choose_location P ?s0 =
      Some (True, ?s0\<lparr>disk := d1, data_drive := drive, data_base := base, data_where := where_text base\<rparr>)" "drives_ok P view busy ident media d1"
    by blast
  have hs: "has_super ident media drive (unat base)" and dr: "drive \<le> 1" and b: "unat base \<le> 2048"
    using l by (auto simp: located_def ATA_SLAVE_def ATA_MASTER_def INSTALL_DATA_LBA_def)
  from hs obtain w where w: "ident drive = Some w" "unat base + 1 < unat (ident_sectors w)" "magic (super_at media drive base) = MAGIC"
    by (auto simp: has_super_def super_at_def split: option.splits)
  from drives_read [OF c(2) w(1) dr, of base 1 "replicate 256 0"] w(2) obtain d2 where
    r1: "ata_read P drive base 1 (replicate 256 0) d1 = Some (0, media drive (unat base), d2)" "drives_ok P view busy ident media d2"
    by (auto simp: sectors_one [unfolded One_nat_def])
  let ?sb = "super_at media drive base"
  let ?s1 = "s\<lparr>sealed := False, data_drive := drive, data_base := base, data_where := where_text base, disk := d2\<rparr>"
  have bad: "persist_mount P x False s = Some (PERSIST_ERROR, ?s1\<lparr>p_state := PERSIST_ERROR\<rparr>)" if "\<not> header_ok ?sb"
    using that d0(1) c(1) r1(1) w(3) by (auto simp: persist_mount_def SUPER_LBA_def super_at_def header_ok_def not_le Let_def)
  have good: "\<exists>d'. drives_ok P view busy ident media d' \<and> persist_mount P x False s = mount_payload x ?sb (payload_at media drive base) d' ?s1"
    if hd: "header_ok ?sb" and rng: "unat base + 1 + n_sectors (unat (payload_bytes ?sb)) \<le> unat (ident_sectors w)"
  proof -
    let ?n = "sectors_for (payload_bytes ?sb)"
    have n: "unat ?n = n_sectors (unat (payload_bytes ?sb))" "0 < unat ?n"
      using hd sectors_for_payload [of "payload_bytes ?sb"] n_sectors_bounds [of "unat (payload_bytes ?sb)"] by (auto simp: header_ok_def)
    have le: "\<not> MAX_PAYLOAD < payload_bytes (super_of (bytes_of (media drive (unat base))))"
      using hd by (auto simp: header_ok_def super_at_def not_less)
    have b1: "unat (base + 1) = unat base + 1" using b by (simp add: unat_plus_exact)
    from drives_read [OF r1(2) w(1) dr, of "base + 1" ?n "replicate (unat ?n * 256) 0"] n rng b1 obtain d3 where
      r2: "ata_read P drive (base + 1) ?n (replicate (unat ?n * 256) 0) d2 = Some (0, sectors_of media drive (unat base + 1) (unat ?n), d3)"
        "drives_ok P view busy ident media d3" by auto
    have "persist_mount P x False s = mount_payload x ?sb (payload_at media drive base) d3 ?s1"
    proof (cases "kmalloc (?n * ATA_SECTOR_SIZE) ?s1")
      case None
      then show ?thesis using d0(1) c(1) r1(1) w(3) hd le
        by (simp add: persist_mount_def mount_payload_def SUPER_LBA_def super_at_def header_ok_def Let_def)
    next
      case (Some pt)
      obtain p t where pt: "pt = (p, t)" by force
      have f: "disk t = d2" "data_drive t = drive" "data_base t = base"
        using kmalloc_frame [OF Some [unfolded pt]] by (auto simp: mem_frame_def)
      show ?thesis using d0(1) c(1) r1(1) w(3) hd le Some r2(1) f n(1)
        by (simp add: persist_mount_def mount_payload_def SUPER_LBA_def PAYLOAD_LBA_def super_at_def payload_at_def header_ok_def Let_def pt)
    qed
    then show ?thesis using r2(2) by blast
  qed
  show ?thesis using r1(2) bad good w by (auto simp: Let_def)
qed

end

