(* ===== verification/Persist_Replay.thy ===== *)
theory Persist_Replay
  imports Persist_Mount
begin

text \<open>
  What replaying the records of a snapshot on the bare tree of \<open>fs_reset\<close> gives: the accounts
  that were saved, and the tree that was saved, as far as the heap has room for it.
\<close>

section \<open>The accounts\<close>

definition bare :: "'a fs_state_scheme \<Rightarrow> bool" where
  "bare s \<longleftrightarrow> fs_view s = [[] \<mapsto> Dir]"

lemma fs_view_cong: "nodes t = nodes s \<Longrightarrow> bufs t = bufs s \<Longrightarrow> root_node t = root_node s \<Longrightarrow> fs_view t = fs_view s"
proof -
  assume a: "nodes t = nodes s" "bufs t = bufs s" "root_node t = root_node s"
  then have "entry_of t = entry_of s" by (intro ext) (simp add: entry_of_def contents_def)
  with a show ?thesis by (intro ext) (simp add: fs_view_def split: option.split)
qed

lemma passwd_comps: "path_comps passwd_path = [''etc'', ''passwd'']"
  using path_comps_string [of "[''etc'', ''passwd'']"]
  by (simp add: path_string_def passwd_path_def name_ok_def FS_NAME_MAX_def FS_PATH_MAX_def)

text \<open>On the bare tree there is no \<open>/etc\<close>, so the copy of the accounts is not written.\<close>

lemma sync_bare:
  assumes ok: "files_ok A s" and b: "bare s"
  shows "sync_passwd_file x s = Some s"
proof -
  from ok obtain L cwd where s: "fs_inv s L" "node_path s cwd (current_dir s)" by (auto simp: files_ok_def)
  have st: "abs_start cwd passwd_path = []" by (simp add: abs_start_def passwd_path_def)
  have w: "abs_resolve (fs_view s) cwd passwd_path = None" "abs_target (fs_view s) cwd passwd_path = None"
    using b by (simp_all add: abs_resolve_def abs_target_def passwd_comps st bare_def)
  from fs_resolve_ok [OF s, of passwd_path] w(1) have r: "fs_resolve passwd_path s = Some 0" by simp
  have f: "NUL \<notin> set passwd_path" "x = NUL \<or> (\<forall>c\<in>set (path_comps passwd_path). length c < FS_NAME_MAX - 1)"
    using passwd_fits [of x] by (simp_all add: path_fits_def)
  from fs_create_ok [OF s f, of FS_FILE] w(2) have "fs_create x passwd_path FS_FILE s = Some (0, s)" by fastforce
  with r show ?thesis by (simp add: sync_passwd_file_def)
qed

definition user_of :: "account_rec \<Rightarrow> user" where
  "user_of a = (case a of (name, home, uid, gid, hash) \<Rightarrow>
     \<lparr>u_name = name, u_home = take 63 home, u_uid = uid, u_gid = gid, u_hash = hash, u_active = True\<rparr>)"

definition idle :: "user list \<Rightarrow> bool" where
  "idle us \<longleftrightarrow> (\<forall>u\<in>set us. \<not> u_active u)"

lemma free_slot_first:
  assumes "length us + length rest = USER_MAX" "\<forall>u\<in>set us. u_active u" "idle rest"
  shows "free_slot (us @ rest) = (if rest = [] then None else Some (length us))"
proof (cases rest)
  case Nil
  with assms show ?thesis by (auto simp: free_slot_def find_upt_None)
next
  case (Cons r rs)
  have "find (\<lambda>i. \<not> u_active ((us @ rest) ! i)) [0..<USER_MAX] = Some (length us)"
    unfolding find_Some_iff using assms Cons
    by (intro exI [of _ "length us"]) (auto simp: idle_def nth_append)
  with Cons show ?thesis by (simp add: free_slot_def)
qed

lemma import_bare:
  "files_ok A s \<Longrightarrow> users_ok s \<Longrightarrow> bare s \<Longrightarrow> users s = map user_of pre @ rest \<Longrightarrow> idle rest \<Longrightarrow>
     \<forall>a\<in>set us. valid_name (fst a) \<Longrightarrow> distinct (map fst (pre @ us)) \<Longrightarrow> length (pre @ us) \<le> USER_MAX \<Longrightarrow>
     \<exists>s'. import_all x us s = Some s' \<and> files_ok A s' \<and> users_ok s' \<and> (\<exists>u n. s' = s\<lparr>users := u, next_uid := n\<rparr>) \<and>
       (\<exists>rest'. users s' = map user_of (pre @ us) @ rest' \<and> idle rest')"
proof (induction us arbitrary: s pre rest)
  case Nil
  have "s = s\<lparr>users := users s, next_uid := next_uid s\<rparr>" by simp
  then have "\<exists>u n. s = s\<lparr>users := u, next_uid := n\<rparr>" by blast
  with Nil show ?case by auto
next
  case (Cons a us)
  obtain name home uid gid hash where a: "a = (name, home, uid, gid, hash)" by (cases a) auto
  have len: "length (users s) = USER_MAX" using Cons.prems(2) by (simp add: users_ok_def)
  have v: "valid_name name" using Cons.prems(6) a by simp
  have ne: "name \<noteq> []" using v by (simp add: valid_name_def)
  obtain r0 rest0 where rest: "rest = r0 # rest0" using Cons.prems(4,8) len by (cases rest) auto
  have act: "u_active (user_of a)" for a by (cases a) (simp add: user_of_def)
  have fs: "free_slot (users s) = Some (length pre)"
    using free_slot_first [of "map user_of pre" rest] len Cons.prems(4,5) rest by (auto simp: act)
  have fd: "users_find name s = None"
  proof -
    have "u_name (users s ! i) \<noteq> name" if "i < USER_MAX" "u_active (users s ! i)" for i
    proof -
      have "i < length pre" using that Cons.prems(4,5) len by (auto simp: nth_append idle_def split: if_splits)
      then have "users s ! i = user_of (pre ! i)" "pre ! i \<in> set pre" using Cons.prems(4) by (simp_all add: nth_append)
      then have "u_name (users s ! i) \<in> fst ` set pre" by (cases "pre ! i") (auto simp: user_of_def intro: rev_image_eqI)
      then show ?thesis using Cons.prems(7) a by auto
    qed
    then show ?thesis using users_find_None [OF ne] by blast
  qed
  define n where "n = (if uid \<ge> next_uid s then uid + 1 else next_uid s)"
  let ?s = "s\<lparr>users := (users s)[length pre := user_of a], next_uid := n\<rparr>"
  have fok: "files_ok A ?s" using Cons.prems(1) by (subst files_ok_cong [where s = s]) simp_all
  have b: "bare ?s"
  proof -
    have "fs_view ?s = fs_view s" by (rule fs_view_cong) simp_all
    with Cons.prems(3) show ?thesis by (simp add: bare_def)
  qed
  have im: "users_import x name home uid gid hash s = Some (0, ?s)"
    using v fd fs sync_bare [OF fok b, of x] valid_name_ok(4) [OF v]
    by (simp add: users_import_def a user_of_def n_def Let_def USER_NAME_MAX_def USER_HOME_MAX_def)
  have uok: "users_ok ?s"
    using users_import_ok [OF Cons.prems(1,2), of x name home uid gid hash] im by auto
  have us: "users ?s = map user_of (pre @ [a]) @ rest0" 
    using Cons.prems(4) rest list_update_length [of "map user_of pre" r0 rest0 "user_of a"] by simp
  from Cons.IH [OF fok uok b us] Cons.prems(5-8) rest obtain s' where
    s': "import_all x us ?s = Some s'" "files_ok A s'" "users_ok s'" "\<exists>u n. s' = ?s\<lparr>users := u, next_uid := n\<rparr>"
      "\<exists>rest'. users s' = map user_of ((pre @ [a]) @ us) @ rest' \<and> idle rest'" by (auto simp: idle_def)
  from s'(4) obtain u k where "s' = ?s\<lparr>users := u, next_uid := k\<rparr>" by blast
  then have "s' = s\<lparr>users := u, next_uid := k\<rparr>" by simp
  moreover have "import_all x (a # us) s = Some s'" unfolding a using im s'(1) by (simp add: a)
  ultimately show ?case using s'(2,3,5) by auto
qed

lemma account_user: "length (fst (snd a)) < USER_HOME_MAX \<Longrightarrow> account_of (user_of a) = a"
  by (cases a) (simp add: account_of_def user_of_def USER_HOME_MAX_def)

section \<open>The tree\<close>

text \<open>Everything in \<open>V'\<close> is as in \<open>V\<close>, except that a file may be empty instead.\<close>

definition restored :: "afs \<Rightarrow> afs \<Rightarrow> bool" where
  "restored V V' \<longleftrightarrow> (\<forall>ys. V' ys = None \<or> V' ys = V ys \<or> V' ys = Some (File []) \<and> (\<exists>bs. V ys = Some (File bs)))"

text \<open>The paths a snapshot can name: printed in full by \<open>fs_abspath\<close> and read back as they are.\<close>

definition can_name :: "char \<Rightarrow> string list \<Rightarrow> bool" where
  "can_name x ys \<longleftrightarrow> length ys \<le> 32 \<and> length (path_string ys) + 1 < FS_PATH_MAX \<and> ''.'' \<notin> set ys \<and> ''..'' \<notin> set ys \<and>
     (x = NUL \<or> (\<forall>c\<in>set ys. length c < FS_NAME_MAX - 1))"

definition nameable :: "char \<Rightarrow> 'a fs_state_scheme \<Rightarrow> bool" where
  "nameable x s \<longleftrightarrow> (\<forall>ys. fs_view s ys \<noteq> None \<longrightarrow> can_name x ys)"

text \<open>The heap refuses a request of at most a mebibyte and a bit.\<close>

definition short_of_memory :: "'a fs_state_scheme \<Rightarrow> bool" where
  "short_of_memory s \<longleftrightarrow> (\<exists>n. unat n \<le> 1048700 \<and> kmalloc n s = Some (NULL, s))"

text \<open>That happens in the course of replaying \<open>rs\<close>.\<close>

definition starved :: "char \<Rightarrow> node_rec list \<Rightarrow> 'a fs_state_scheme \<Rightarrow> bool" where
  "starved x rs s \<longleftrightarrow> (\<exists>rs1 rs2 t. rs = rs1 @ rs2 \<and> replay_nodes x rs1 s = Some t \<and> short_of_memory t)"

lemma abs_walk_plain:
  "abs_walk V cur zs = Some r \<Longrightarrow> ''.'' \<notin> set zs \<Longrightarrow> ''..'' \<notin> set zs \<Longrightarrow> r = cur @ zs \<and> (zs \<noteq> [] \<longrightarrow> V r \<noteq> None)"
proof (induction zs arbitrary: cur)
  case (Cons z zs)
  then have "abs_walk V (cur @ [z]) zs = Some r" "V (cur @ [z]) \<noteq> None" by (auto split: if_splits)
  with Cons.IH [of "cur @ [z]"] Cons.prems show ?case by (cases zs) auto
qed simp

definition replay_node :: "char \<Rightarrow> node_rec \<Rightarrow> 'a fs_state_scheme \<Rightarrow> 'a fs_state_scheme option" where
  "replay_node x r s = (case r of (path, ty, bs) \<Rightarrow> do {
     (node, s) \<leftarrow> open_node x path ty s;
     if bs = [] \<or> node = NULL then Some s
     else do {
       n \<leftarrow> nodes s node;
       if n_type n \<noteq> FS_FILE then Some s else do { (rc, s) \<leftarrow> fs_write_n node bs False s; Some s }
     }
   })"

lemma replay_nodes_Cons: "replay_nodes x (r # rs) s = do { s \<leftarrow> replay_node x r s; replay_nodes x rs s }"
  by (cases r) (simp only: replay_nodes.simps replay_node_def prod.case, simp add: bind_assoc split_def)

lemma replay_nodes_append: "replay_nodes x (rs @ ts) s = do { s \<leftarrow> replay_nodes x rs s; replay_nodes x ts s }"
  by (induction rs arbitrary: s) (simp_all add: replay_nodes_Cons bind_assoc)

text \<open>One record, for a path that is not there yet.\<close>

lemma replay_node_ok:
  assumes ok: "files_ok A t" and y: "ys \<noteq> []" "can_name x ys" "\<forall>c\<in>set ys. name_ok c" and new: "fs_view t ys = None"
    and bs: "ty = FS_FILE \<Longrightarrow> length bs \<le> 1048576"
  shows "\<exists>t'. replay_node x (path_string ys, ty, if ty = FS_FILE then bs else []) t = Some t' \<and> files_ok A t' \<and> fs_frame t t' \<and>
    (fs_view t' = (fs_view t)(ys \<mapsto> if ty = FS_FILE then File bs else Dir) \<or>
     (fs_view t' = fs_view t \<or> ty = FS_FILE \<and> fs_view t' = (fs_view t)(ys \<mapsto> File [])) \<and>
     (fs_view t (butlast ys) = Some Dir \<longrightarrow> short_of_memory t'))"
proof -
  from ok obtain L cwd where t: "fs_inv t L" "node_path t cwd (current_dir t)" "others t L = A" by (auto simp: files_ok_def)
  let ?p = "path_string ys"
  have dots: "''.'' \<notin> set ys" "''..'' \<notin> set ys" "length ?p < FS_PATH_MAX" using y(2) by (simp_all add: can_name_def)
  have dotsb: "''.'' \<notin> set (butlast ys)" "''..'' \<notin> set (butlast ys)" using dots in_set_butlastD by fastforce+
  have pc: "path_comps ?p = ys" by (rule path_comps_string [OF y(3) dots(3)])
  have st: "abs_start cwd ?p = []" using y(1) by (cases ys) (simp_all add: abs_start_def path_string_def)
  have nul: "NUL \<notin> set ?p" using y(1,3) by (auto simp: path_string_def name_ok_def)
  have res: "x = NUL \<or> (\<forall>c\<in>set (path_comps ?p). length c < FS_NAME_MAX - 1)" using y(2) pc by (simp add: can_name_def)
  have tgt: "xs = ys" if "abs_target (fs_view t) cwd ?p = Some xs" for xs
  proof -
    from that obtain r where "abs_walk (fs_view t) [] (butlast ys) = Some r" "xs = r @ [last ys]"
      using y(1) by (auto simp: abs_target_def pc st Let_def)
    with abs_walk_plain [OF this(1) dotsb] y(1) show ?thesis by simp
  qed
  have nores: "fs_resolve ?p t = Some 0"
  proof -
    have "abs_resolve (fs_view t) cwd ?p = None"
    proof (rule ccontr)
      assume "abs_resolve (fs_view t) cwd ?p \<noteq> None"
      then obtain r where "abs_walk (fs_view t) [] ys = Some r" by (auto simp: abs_resolve_def pc st)
      with abs_walk_plain [OF this dots(1,2)] y(1) new show False by auto
    qed
    with fs_resolve_ok [OF t(1,2), of ?p] show ?thesis by auto
  qed
  have walkb: "abs_target (fs_view t) cwd ?p = Some ys" if "fs_view t (butlast ys) = Some Dir"
  proof -
    from that obtain u where "node_path t ([] @ butlast ys) u" using fs_view_None [OF t(1)] by force
    from abs_walk_path [OF t(1) this dotsb] y(1) show ?thesis by (simp add: abs_target_def pc st Let_def)
  qed
  from fs_create_ok [OF t(1,2) nul res, of ty] obtain p t1 where c: "fs_create x ?p ty t = Some (p, t1)" "fs_frame t t1"
    "p = 0 \<longrightarrow> t1 = t \<and> (\<forall>xs. abs_target (fs_view t) cwd ?p = Some xs \<and> fs_view t (butlast xs) = Some Dir \<and>
          fs_view t xs = None \<longrightarrow> kcalloc 1 sizeof_fs_node t = Some (0, t))"
    "p \<noteq> 0 \<longrightarrow> (\<exists>xs. abs_target (fs_view t) cwd ?p = Some xs \<and> fs_view t (butlast xs) = Some Dir \<and> fs_view t xs = None \<and>
       fs_view t1 = (fs_view t)(xs \<mapsto> new_entry ty) \<and> node_path t1 xs p \<and>
       (\<forall>q zs. node_path t zs q \<longrightarrow> node_path t1 zs q) \<and> dom (nodes t1) = insert p (dom (nodes t)) \<and> bufs t1 = bufs t \<and>
       (\<exists>k. fs_inv t1 (L(p \<mapsto> k)) \<and> L p = None \<and> others t1 (L(p \<mapsto> k)) = others t L))" by blast
  show ?thesis
  proof (cases "p = 0")
    case True
    with c(3) have t1: "t1 = t" by simp
    have "replay_node x (?p, ty, if ty = FS_FILE then bs else []) t = Some t"
      using c(1) True t1 nores by (simp add: replay_node_def open_node_def)
    moreover have "short_of_memory t" if "fs_view t (butlast ys) = Some Dir"
    proof -
      have "kcalloc 1 sizeof_fs_node t = Some (0, t)" using c(3) True walkb [OF that] that new by blast
      then have "kmalloc 60 t = Some (NULL, t)" by (auto simp: kcalloc_def sizeof_fs_node_def split: if_splits Option.bind_splits)
      then show ?thesis unfolding short_of_memory_def by (intro exI [of _ 60]) simp
    qed
    ultimately show ?thesis using ok fs_frame_refl by blast
  next
    case False
    with c(4) obtain k where n: "fs_view t1 = (fs_view t)(ys \<mapsto> new_entry ty)" "node_path t1 ys p"
      "fs_inv t1 (L(p \<mapsto> k))" "others t1 (L(p \<mapsto> k)) = A" "node_path t1 cwd (current_dir t)" using tgt t(2,3) by metis
    have cur: "current_dir t1 = current_dir t" using fs_frame_globals [OF c(2)] by simp
    have ok1: "files_ok A t1" using n(3-5) cur by (auto simp: files_ok_def)
    have o: "open_node x ?p ty t = Some (p, t1)" using c(1) False by (simp add: open_node_def)
    show ?thesis
    proof (cases "ty = FS_FILE \<and> bs \<noteq> []")
      case no: False
      then have "replay_node x (?p, ty, if ty = FS_FILE then bs else []) t = Some t1" using o by (auto simp: replay_node_def)
      moreover have "new_entry ty = (if ty = FS_FILE then File bs else Dir)" using no by (cases ty) (auto simp: new_entry_def)
      ultimately show ?thesis using ok1 c(2) n(1) by auto
    next
      case True
      from n(1) have "fs_view t1 ys = Some (File [])" using True by (simp add: new_entry_def)
      then obtain m where m: "nodes t1 p = Some m" "entry_of t1 m = File []" using n(2) node_path_fun unfolding fs_view_Some by metis
      then have mf: "n_type m = FS_FILE" by (cases "n_type m") (auto simp: entry_of_def)
      have small: "(if False then unat (n_size m) else 0) + length bs + 72 < 4294967296" using bs True by simp
      from fs_write_n_ok [OF n(3,2) m(1) mf small] obtain rc t2 where w: "fs_write_n p bs False t1 = Some (rc, t2)" "fs_frame t1 t2"
        "rc = -1 \<and> t2 = t1 \<and> kmalloc (0 + of_nat (length bs) + 1 + 64) t1 = Some (0, t1) \<or>
         rc = 0 \<and> (\<exists>L'. fs_inv t2 L' \<and> others t2 L' = A) \<and> fs_view t2 = (fs_view t1)(ys \<mapsto> File bs) \<and>
           (\<forall>zs q. node_path t2 zs q = node_path t1 zs q)" using n(4) by auto
      have r: "replay_node x (?p, ty, if ty = FS_FILE then bs else []) t = Some t2"
        using o True False m(1) mf w(1) by (simp add: replay_node_def)
      have fr: "fs_frame t t2" using fs_frame_trans [OF c(2) w(2)] .
      have "new_entry ty = File []" using True by (simp add: new_entry_def)
      note v1 = n(1) [unfolded this]
      from w(3) show ?thesis
      proof (elim disjE conjE exE)
        assume a: "t2 = t1" "kmalloc (0 + of_nat (length bs) + 1 + 64) t1 = Some (0, t1)"
        have "0 + of_nat (length bs) + 1 + 64 = (of_nat (length bs + 65) :: u32)" by simp
        moreover have "unat (of_nat (length bs + 65) :: u32) \<le> 1048700" using bs True by (simp add: unat_of_nat_exact del: of_nat_add)
        ultimately have "short_of_memory t2" using a unfolding short_of_memory_def by metis
        with r fr ok1 v1 a(1) True show ?thesis by auto
      next
        fix L' assume a: "fs_inv t2 L'" "others t2 L' = A" "fs_view t2 = (fs_view t1)(ys \<mapsto> File bs)"
          "\<forall>zs q. node_path t2 zs q = node_path t1 zs q"
        have "files_ok A t2" using a n(5) fs_frame_globals [OF fr] by (auto simp: files_ok_def)
        moreover have "fs_view t2 = (fs_view t)(ys \<mapsto> File bs)" using a(3) v1 by simp
        ultimately show ?thesis using r fr True by auto
      qed
    qed
  qed
qed

text \<open>
  The records of the nodes \<open>qs\<close> have been replayed: of the others nothing is there, and of these
  everything, unless the heap refused a request on the way (\<open>hungry\<close>).
\<close>

definition replayed :: "'a fs_state_scheme \<Rightarrow> ptr set \<Rightarrow> bool \<Rightarrow> 'b fs_state_scheme \<Rightarrow> bool" where
  "replayed s S hungry t \<longleftrightarrow> restored (fs_view s) (fs_view t) \<and>
     (\<forall>p ys. node_path s ys p \<longrightarrow> (if p \<in> S then hungry \<or> fs_view t ys = fs_view s ys else fs_view t ys = None))"

lemma replayed_mono: "replayed s S h t \<Longrightarrow> (h \<Longrightarrow> h') \<Longrightarrow> replayed s S h' t"
  unfolding replayed_def by (metis (full_types))

lemma replayedD:
  "replayed s S h t \<Longrightarrow> node_path s ys p \<Longrightarrow> p \<in> S \<Longrightarrow> h \<or> fs_view t ys = fs_view s ys"
  "replayed s S h t \<Longrightarrow> node_path s ys p \<Longrightarrow> p \<notin> S \<Longrightarrow> fs_view t ys = None"
  unfolding replayed_def by metis+

lemma node_parent_path:
  assumes inv: "fs_inv s L" and p: "nodes s p = Some n" "p \<noteq> root_node s" "node_path s ys p"
  shows "ys \<noteq> []" "node_path s (butlast ys) (n_parent n)" "fs_view s (butlast ys) = Some Dir"
proof -
  obtain K d where t: "tree_ok (nodes s) (root_node s) K d" using inv by (rule fs_inv_tree)
  show y: "ys \<noteq> []" using p(2,3) by auto
  show u: "node_path s (butlast ys) (n_parent n)"
    using node_path_parent [OF inv p(3,1)] tree_parent_nonnull [OF t p(1)] p(2) by simp
  from tree_parent_dir [OF t p(1,2)] obtain m where "nodes s (n_parent n) = Some m" "n_type m = FS_DIR" by blast
  with fs_view_node [OF u] show "fs_view s (butlast ys) = Some Dir" by (simp add: entry_of_def)
qed

lemma nameable_rec:
  assumes inv: "fs_inv s L" and nm: "nameable x s" and n: "nodes s p = Some n" "p \<noteq> root_node s" and y: "node_path s ys p"
  shows "node_recs s p = [(path_string ys, n_type n, if n_type n = FS_FILE then contents s n else [])]" "can_name x ys"
proof -
  show can: "can_name x ys" using nm fs_view_node [OF y n(1)] by (simp add: nameable_def)
  have "fs_abspath p [] FS_PATH_MAX s = Some (path_string ys)" using fs_abspath_path [OF inv y] can by (simp add: can_name_def)
  moreover have "path_string ys \<noteq> []" using node_parent_path(1) [OF inv n y] by (cases ys) (simp_all add: path_string_def)
  ultimately show "node_recs s p = [(path_string ys, n_type n, if n_type n = FS_FILE then contents s n else [])]"
    using n(1) by (simp add: node_recs_def)
qed

lemma replay_listing:
  fixes s :: "'a fs_state_scheme" and t :: "'b fs_state_scheme"
  assumes inv: "fs_inv s L" and nm: "nameable x s" and size: "\<forall>p n. nodes s p = Some n \<longrightarrow> n_type n = FS_FILE \<longrightarrow> length (contents s n) \<le> 1048576"
  shows "files_ok A t \<Longrightarrow> replayed s S hungry t \<Longrightarrow> parents_first (nodes s) S ps \<Longrightarrow> distinct ps \<Longrightarrow> set ps \<inter> S = {} \<Longrightarrow>
     root_node s \<in> S \<Longrightarrow>
     \<exists>t'. replay_nodes x (recs_of s ps) t = Some t' \<and> files_ok A t' \<and> fs_frame t t' \<and>
       replayed s (S \<union> set ps) (hungry \<or> starved x (recs_of s ps) t) t'"
proof (induction ps arbitrary: S hungry t)
  case Nil
  have "replayed s S (hungry \<or> h) t" for h by (rule replayed_mono [OF Nil(2)]) simp
  with Nil show ?case by (auto intro: fs_frame_refl)
next
  case (Cons p ps)
  from Cons.prems(3) obtain n where n: "nodes s p = Some n" "n_parent n \<in> S" by auto
  have pr: "p \<noteq> root_node s" "p \<notin> S" using Cons.prems(5,6) by auto
  from node_path_exists [OF inv n(1)] obtain ys where y: "node_path s ys p" by blast
  note par = node_parent_path [OF inv n(1) pr(1) y]
  have v: "fs_view s ys = Some (entry_of s n)" by (rule fs_view_node [OF y n(1)])
  note rec = nameable_rec(1) [OF inv nm n(1) pr(1) y] and can = nameable_rec(2) [OF inv nm n(1) pr(1) y]
  have names: "\<forall>c\<in>set ys. name_ok c" by (rule node_path_names [OF inv y])
  have new: "fs_view t ys = None" by (rule replayedD(2) [OF Cons.prems(2) y pr(2)])
  let ?r = "(path_string ys, n_type n, if n_type n = FS_FILE then contents s n else [])"
  have cs: "n_type n = FS_FILE \<Longrightarrow> length (contents s n) \<le> 1048576" using size n(1) by blast
  from replay_node_ok [OF Cons.prems(1) par(1) can names new cs, of "n_type n"] obtain t1 where
    t1: "replay_node x ?r t = Some t1" "files_ok A t1" "fs_frame t t1"
    "fs_view t1 = (fs_view t)(ys \<mapsto> if n_type n = FS_FILE then File (contents s n) else Dir) \<or>
     (fs_view t1 = fs_view t \<or> n_type n = FS_FILE \<and> fs_view t1 = (fs_view t)(ys \<mapsto> File [])) \<and>
     (fs_view t (butlast ys) = Some Dir \<longrightarrow> short_of_memory t1)" by blast
  have e: "entry_of s n = (if n_type n = FS_FILE then File (contents s n) else Dir)" by (cases "n_type n") (simp_all add: entry_of_def)
  have upar: "hungry \<or> fs_view t (butlast ys) = Some Dir" using replayedD(1) [OF Cons.prems(2) par(2) n(2)] par(3) by simp
  define h1 where "h1 \<longleftrightarrow> hungry \<or> short_of_memory t1"
  have ex: "fs_view t1 zs = fs_view t zs" if "zs \<noteq> ys" for zs using t1(4) that by auto
  have here: "fs_view t1 ys = fs_view s ys \<or> h1 \<and> (fs_view t1 ys = None \<or> n_type n = FS_FILE \<and> fs_view t1 ys = Some (File []))"
    using t1(4) v e upar new by (auto simp: h1_def)
  have "restored (fs_view s) (fs_view t1)"
    unfolding restored_def
  proof
    fix zs
    show "fs_view t1 zs = None \<or> fs_view t1 zs = fs_view s zs \<or> fs_view t1 zs = Some (File []) \<and> (\<exists>bs. fs_view s zs = Some (File bs))"
    proof (cases "zs = ys")
      case True
      with here v e show ?thesis by auto
    next
      case False
      with ex Cons.prems(2) show ?thesis by (simp add: replayed_def restored_def)
    qed
  qed
  moreover have "if q \<in> insert p S then h1 \<or> fs_view t1 zs = fs_view s zs else fs_view t1 zs = None" if q: "node_path s zs q" for q zs
  proof (cases "q = p")
    case True
    then have "zs = ys" using q y node_path_inj [OF inv] by blast
    with True here show ?thesis by auto
  next
    case False
    then have "zs \<noteq> ys" using q y node_path_fun by blast
    with replayedD [OF Cons.prems(2) q] False ex [of zs] show ?thesis by (auto simp: h1_def)
  qed
  ultimately have "replayed s (insert p S) h1 t1" unfolding replayed_def by blast
  from Cons.IH [OF t1(2) this] Cons.prems(3-6) obtain t2 where
    t2: "replay_nodes x (recs_of s ps) t1 = Some t2" "files_ok A t2" "fs_frame t1 t2"
      "replayed s (insert p S \<union> set ps) (h1 \<or> starved x (recs_of s ps) t1) t2" by auto
  have rr: "replay_nodes x [?r] t = Some t1" using t1(1) by (simp only: replay_nodes_Cons) simp
  have all: "replay_nodes x (recs_of s (p # ps)) t = Some t2"
    using t2(1) rr by (simp only: recs_of_simps rec replay_nodes_append) simp
  have st: "starved x (recs_of s (p # ps)) t" if "short_of_memory t1 \<or> starved x (recs_of s ps) t1"
    using that
  proof
    assume "short_of_memory t1"
    then show ?thesis using rr unfolding starved_def recs_of_simps rec by blast
  next
    assume "starved x (recs_of s ps) t1"
    then obtain rs1 rs2 u where "recs_of s ps = rs1 @ rs2" "replay_nodes x rs1 t1 = Some u" "short_of_memory u" by (auto simp: starved_def)
    moreover from this have "replay_nodes x ([?r] @ rs1) t = Some u" using rr by (simp only: replay_nodes_append) simp
    ultimately show ?thesis unfolding starved_def recs_of_simps rec by (metis append.assoc)
  qed
  have "replayed s (S \<union> set (p # ps)) (hungry \<or> starved x (recs_of s (p # ps)) t) t2"
  proof -
    have "S \<union> set (p # ps) = insert p S \<union> set ps" by simp
    moreover have "h1 \<or> starved x (recs_of s ps) t1 \<Longrightarrow> hungry \<or> starved x (recs_of s (p # ps)) t" using st by (auto simp: h1_def)
    ultimately show ?thesis using replayed_mono [OF t2(4)] by metis
  qed
  with all show ?case using t2(2) fs_frame_trans [OF t1(3) t2(3)] by blast
qed

end
