(* ===== verification/Persist_Props.thy ===== *)
theory Persist_Props
  imports Persist_Replay
begin

text \<open>
  The properties of the snapshot layer: what \<open>persist_save\<close> achieves, that the next mount gives
  back what was saved, that a damaged snapshot is refused, and that a formatted disk stays blank.
\<close>

section \<open>Restoring a saved snapshot\<close>

definition rebuild :: "char \<Rightarrow> account_rec list \<Rightarrow> node_rec list \<Rightarrow> 'a users_state_scheme \<Rightarrow> 'a users_state_scheme option" where
  "rebuild x us rs s = do { s \<leftarrow> fs_reset s; s \<leftarrow> import_all x us s; replay_nodes x rs s }"

lemma enc_nodes_length: "length rs \<le> length (enc_nodes rs)"
  by (induction rs) auto

lemma enc_nodes_contents: "(path, ty, bs) \<in> set rs \<Longrightarrow> length bs \<le> length (enc_nodes rs)"
  by (induction rs) auto

lemma good_accounts:
  assumes "users_ok s" "\<forall>u\<in>set (users s). u_active u \<longrightarrow> NUL \<notin> set (u_home u)" "a \<in> set (accounts s)"
  shows "good_account a" "valid_name (fst a)" "length (fst (snd a)) < USER_HOME_MAX"
proof -
  from assms(3) obtain u where u: "u \<in> set (users s)" "u_active u" "a = account_of u" by (auto simp: accounts_def)
  then obtain i where i: "i < USER_MAX" "users s ! i = u" using assms(1) by (auto simp: in_set_conv_nth users_ok_def)
  have v: "valid_name (u_name u)" "length (u_home u) < USER_HOME_MAX" using assms(1) i u(2) by (auto simp: users_ok_def)
  from v u(3) show "valid_name (fst a)" "length (fst (snd a)) < USER_HOME_MAX" by (simp_all add: account_of_def)
  show "good_account a" using v u assms(2) valid_name_ok(2,4) [OF v(1)] by (simp add: good_account_def account_of_def USER_NAME_MAX_def)
qed

lemma accounts_distinct:
  assumes "users_ok s" shows "distinct (map fst (accounts s))" "length (accounts s) \<le> USER_MAX"
proof -
  let ?us = "users s"
  have len: "length ?us = USER_MAX" using assms by (simp add: users_ok_def)
  then show "length (accounts s) \<le> USER_MAX" using length_filter_le [of u_active ?us] by (simp add: accounts_def)
  have "distinct (map u_name (filter u_active us))"
    if "\<forall>i<length us. \<forall>j<length us. u_active (us ! i) \<longrightarrow> u_active (us ! j) \<longrightarrow> u_name (us ! i) = u_name (us ! j) \<longrightarrow> i = j" for us :: "user list"
    using that
  proof (induction us)
    case (Cons u us)
    have 1: "\<forall>i<length us. \<forall>j<length us. u_active (us ! i) \<longrightarrow> u_active (us ! j) \<longrightarrow> u_name (us ! i) = u_name (us ! j) \<longrightarrow> i = j"
    proof (intro allI impI)
      fix i j assume "i < length us" "j < length us" "u_active (us ! i)" "u_active (us ! j)" "u_name (us ! i) = u_name (us ! j)"
      with Cons.prems [rule_format, of "Suc i" "Suc j"] show "i = j" by simp
    qed
    have "u_name v \<noteq> u_name u" if "v \<in> set us" "u_active v" "u_active u" for v
    proof -
      from that(1) obtain j where "j < length us" "us ! j = v" by (auto simp: in_set_conv_nth)
      with Cons.prems [rule_format, of "0" "Suc j"] that show ?thesis by auto
    qed
    with Cons.IH [OF 1] show ?case by (simp add: image_iff) metis
  qed simp
  then have "distinct (map u_name (filter u_active ?us))" using assms len by (simp add: users_ok_def)
  moreover have "map fst (accounts s) = map u_name (filter u_active ?us)" by (simp add: accounts_def account_of_def)
  ultimately show "distinct (map fst (accounts s))" by simp
qed

lemma good_recs:
  assumes "fs_inv s L" "r \<in> set (recs_of s ps)" shows "good_node r"
proof -
  from assms(2) obtain p where p: "r \<in> set (node_recs s p)" by (auto simp: recs_of_def)
  then have n: "fs_abspath p [] FS_PATH_MAX s = Some (fst r) \<and> fst r \<noteq> [] \<and> p \<in> dom (nodes s)"
    by (cases "fs_abspath p [] FS_PATH_MAX s"; cases "nodes s p") (auto simp: node_recs_def split: if_splits)
  with abspath_shape [OF assms(1), of p] show ?thesis by (cases r) (auto simp: good_node_def FS_PATH_MAX_def)
qed

lemma restore_carried:
  fixes s :: "'d persist" and t :: "'b users_state_scheme"
  assumes f: "fs_inv s L" and u: "users_ok s" "\<forall>u\<in>set (users s). u_active u \<longrightarrow> NUL \<notin> set (u_home u)"
    and len: "length (payload s ps) \<le> 1048576"
  shows "restore x (superblock s ps) (padded_to (payload s ps)) t = map_option (Pair False) (rebuild x (accounts s) (recs_of s ps) t)"
proof -
  let ?us = "accounts s" and ?rs = "recs_of s ps"
  let ?r = "\<lparr>r_buffer = padded_to (payload s ps), r_length = of_nat (length (payload s ps)), r_pos = 0, r_bad = False\<rparr>"
  have "length ?rs \<le> 1048576" using len enc_nodes_length [of ?rs] by (simp add: payload_def)
  moreover have "length ?us \<le> 8" using accounts_distinct(2) [OF u(1)] by (simp add: USER_MAX_def)
  ultimately have n: "unat (super_users (superblock s ps)) = length ?us" "unat (super_nodes (superblock s ps)) = length ?rs"
    by (simp_all add: superblock_def unat_of_nat_exact)
  have "r_buffer ?r = [] @ payload s ps @ replicate (n_sectors (length (payload s ps)) * 512 - length (payload s ps)) NUL"
    by (simp add: padded_to_def)
  then have "rd_at ?r (payload s ps)" unfolding rd_at_def using len
    by (intro conjI exI [of _ "[]"] exI [of _ "replicate (n_sectors (length (payload s ps)) * 512 - length (payload s ps)) NUL"]) simp_all
  then have r0: "rd_at ?r (enc_accounts ?us @ enc_nodes ?rs @ [])" by (simp add: payload_def)
  have "\<forall>a\<in>set ?us. good_account a" using good_accounts(1) [OF u] by blast
  from read_users_ok [OF r0 this] obtain r1 where r1: "rd_at r1 (enc_nodes ?rs @ [])"
    "\<And>t :: 'b users_state_scheme. read_users x (length ?us) ?r t = do { t \<leftarrow> import_all x ?us t; Some (r1, t) }" by blast
  have "\<forall>r\<in>set ?rs. good_node r" using good_recs [OF f] by blast
  from read_nodes_ok [OF r1(1) this] obtain r2 where r2: "rd_at r2 []"
    "\<And>t :: 'b users_state_scheme. read_nodes x (length ?rs) r1 t = do { t \<leftarrow> replay_nodes x ?rs t; Some (r2, t) }" by metis
  have "payload_bytes (superblock s ps) = of_nat (length (payload s ps))" by (simp add: superblock_def)
  then show ?thesis
    using n r1(2) r2(2) rd_good [OF r2(1)]
    by (cases "fs_reset t") (auto simp: restore_def rebuild_def Let_def bind_assoc map_conv_bind_option split: Option.bind_splits)
qed


text \<open>The fields of the snapshot layer, which the filesystem and the accounts leave alone.\<close>

definition same_layer :: "'d persist \<Rightarrow> 'd persist \<Rightarrow> bool" where
  "same_layer s t \<longleftrightarrow> disk t = disk s \<and> p_state t = p_state s \<and> dirty t = dirty s \<and> bytes_used t = bytes_used s \<and>
     save_count t = save_count s \<and> sealed t = sealed s \<and> data_drive t = data_drive s \<and> data_base t = data_base s \<and>
     data_where t = data_where s"

lemma frame_layer: "fs_frame s t \<Longrightarrow> same_layer s t" "mem_frame s t \<Longrightarrow> same_layer s t"
  by (auto simp: fs_frame_def mem_frame_def same_layer_def)

lemma layer_trans: "same_layer s t \<Longrightarrow> same_layer t u \<Longrightarrow> same_layer s u"
  by (simp add: same_layer_def)

lemma reset_files:
  assumes "files_ok A s"
  shows "\<exists>s'. fs_reset s = Some s' \<and> files_ok A s' \<and> bare s' \<and> fs_frame s (s'\<lparr>current_dir := current_dir s\<rparr>)"
proof -
  from assms obtain L cwd where s: "fs_inv s L" "others s L = A" by (auto simp: files_ok_def)
  from fs_reset_ok [OF s(1)] obtain s' D where r: "fs_reset s = Some s'" "fs_inv s' (L |` (- D))" "others s' (L |` (- D)) = A"
    "fs_view s' = [[] \<mapsto> Dir]" "root_node s' = root_node s" "current_dir s' = root_node s"
    "fs_frame s (s'\<lparr>current_dir := current_dir s\<rparr>)" using s(2) by blast
  have "node_path s' [] (current_dir s')" using r(5,6) by simp
  with r(2,3) have "files_ok A s'" unfolding files_ok_def by blast
  with r show ?thesis by (simp add: bare_def)
qed

lemma rebuild_ok:
  fixes s t :: "'d persist"
  assumes f: "fs_inv s L" and nm: "nameable x s" and ls: "listing s ps" and len: "length (payload s ps) \<le> 1048576"
    and u: "users_ok s" "\<forall>u\<in>set (users s). u_active u \<longrightarrow> NUL \<notin> set (u_home u)"
    and t: "files_ok A t" "users_ok t" "idle (users t)"
  shows "\<exists>t'. rebuild x (accounts s) (recs_of s ps) t = Some t' \<and> files_ok A t' \<and> users_ok t' \<and> same_layer t t' \<and>
    accounts t' = accounts s \<and> restored (fs_view s) (fs_view t') \<and>
    (fs_view t' = fs_view s \<or> (\<exists>rs1 rs2 v. recs_of s ps = rs1 @ rs2 \<and> rebuild x (accounts s) rs1 t = Some v \<and> short_of_memory v))"
proof -
  from reset_files [OF t(1)] obtain t1 where t1: "fs_reset t = Some t1" "files_ok A t1" "bare t1"
    "fs_frame t (t1\<lparr>current_dir := current_dir t\<rparr>)" by blast
  have us: "users t1 = users t" "users_ok t1" and l1: "same_layer t t1"
    using fs_frame_users [OF t1(4)] frame_layer(1) [OF t1(4)] t(2) users_ok_cong [of t1 t] by (simp_all add: same_layer_def)
  have va: "\<forall>a\<in>set (accounts s). valid_name (fst a)" using good_accounts(2) [OF u] by blast
  have "users t1 = map user_of [] @ users t" using us(1) by simp
  from import_bare [where x = x, OF t1(2) us(2) t1(3) this t(3) va] accounts_distinct [OF u(1)] obtain t2 where
    t2: "import_all x (accounts s) t1 = Some t2" "files_ok A t2" "users_ok t2" "\<exists>u n. t2 = t1\<lparr>users := u, next_uid := n\<rparr>"
      "\<exists>rest'. users t2 = map user_of (accounts s) @ rest' \<and> idle rest'" by auto
  from t2(4) obtain uu n where e2: "t2 = t1\<lparr>users := uu, next_uid := n\<rparr>" by blast
  have b2: "fs_view t2 = [[] \<mapsto> Dir]" using t1(3) fs_view_cong [of t2 t1] e2 by (simp add: bare_def)
  have l2: "same_layer t t2" using l1 e2 by (simp add: same_layer_def)
  have acc2: "accounts t2 = accounts s"
  proof -
    from t2(5) obtain rest where r: "users t2 = map user_of (accounts s) @ rest" "idle rest" by blast
    have "filter u_active rest = []" using r(2) by (auto simp: idle_def filter_empty_conv)
    moreover have "filter u_active (map user_of as) = map user_of as" for as
      by (rule filter_True) (auto simp: user_of_def split: prod.splits)
    moreover have "map account_of (map user_of (accounts s)) = accounts s"
      using good_accounts(3) [OF u] account_user by (simp add: map_idI)
    ultimately show ?thesis unfolding accounts_def [of t2] r(1) filter_append by (simp only: append_Nil2)
  qed
  from fs_inv_root [OF f] obtain rn where rn: "nodes s (root_node s) = Some rn" "n_type rn = FS_DIR" by blast
  have size: "\<forall>p n. nodes s p = Some n \<longrightarrow> n_type n = FS_FILE \<longrightarrow> length (contents s n) \<le> 1048576"
  proof (intro allI impI)
    fix p n assume p: "nodes s p = Some n" "n_type n = FS_FILE"
    then have r: "p \<noteq> root_node s" using rn by auto
    from node_path_exists [OF f p(1)] obtain ys where "node_path s ys p" by blast
    from nameable_rec(1) [OF f nm p(1) r this] p(2) have "(path_string ys, FS_FILE, contents s n) \<in> set (node_recs s p)" by simp
    moreover have "p \<in> set ps" using ls p(1) r by (auto simp: listing_def)
    ultimately have "(path_string ys, FS_FILE, contents s n) \<in> set (recs_of s ps)" by (auto simp: recs_of_def)
    from enc_nodes_contents [OF this] len show "length (contents s n) \<le> 1048576" by (simp add: payload_def)
  qed
  have rootv: "fs_view s [] = Some Dir" using fs_view_node [of s "[]", OF _ rn(1)] rn(2) by (simp add: entry_of_def)
  have l3: "parents_first (nodes s) {root_node s} ps" "distinct ps" "set ps \<inter> {root_node s} = {}" "root_node s \<in> {root_node s}"
    using ls by (auto simp: listing_def)
  have "replayed s {root_node s} False t2" unfolding replayed_def restored_def b2
  proof (intro conjI allI impI)
    fix ys
    show "[[] \<mapsto> Dir] ys = None \<or> [[] \<mapsto> Dir] ys = fs_view s ys \<or> [[] \<mapsto> Dir] ys = Some (File []) \<and> (\<exists>bs. fs_view s ys = Some (File bs))"
      using rootv by auto
  next
    fix p ys assume p: "node_path s ys p"
    then have "ys = [] \<longleftrightarrow> p = root_node s" using node_path_inj [OF f p, of "[]"] by auto
    then show "if p \<in> {root_node s} then False \<or> [[] \<mapsto> Dir] ys = fs_view s ys else [[] \<mapsto> Dir] ys = None" using rootv by auto
  qed
  from replay_listing [OF f nm size t2(2) this l3] obtain t3 where
    t3: "replay_nodes x (recs_of s ps) t2 = Some t3" "files_ok A t3" "fs_frame t2 t3"
      "replayed s ({root_node s} \<union> set ps) (starved x (recs_of s ps) t2) t3" by auto
  have rb: "rebuild x (accounts s) rs t = replay_nodes x rs t2" for rs using t1(1) t2(1) by (simp add: rebuild_def)
  have "users_ok t3" "accounts t3 = accounts s"
    using fs_frame_users [OF t3(3)] users_ok_cong [of t3 t2] t2(3) acc2 by (simp_all add: accounts_def)
  moreover have "same_layer t t3" using layer_trans [OF l2 frame_layer(1) [OF t3(3)]] .
  moreover have "restored (fs_view s) (fs_view t3)" using t3(4) by (simp add: replayed_def)
  moreover have "fs_view t3 = fs_view s \<or> starved x (recs_of s ps) t2"
  proof (cases "starved x (recs_of s ps) t2")
    case False
    have "fs_view t3 ys = fs_view s ys" for ys
    proof (cases "fs_view s ys")
      case None
      with \<open>restored (fs_view s) (fs_view t3)\<close> show ?thesis by (auto simp: restored_def dest!: spec [of _ ys])
    next
      case (Some e)
      then obtain p n where p: "node_path s ys p" "nodes s p = Some n" by (auto simp: fs_view_Some)
      then have "p \<in> {root_node s} \<union> set ps" using ls by (auto simp: listing_def)
      from replayedD(1) [OF t3(4) p(1) this] False show ?thesis by simp
    qed
    then show ?thesis by blast
  qed simp
  ultimately show ?thesis using rb t3(1,2) unfolding starved_def by metis
qed

section \<open>Mounting\<close>

text \<open>The heap runs short while the snapshot of the accounts \<open>us\<close> and nodes \<open>rs\<close> is restored from a
  payload of \<open>n\<close> bytes found at a place: the buffer is there, and then a request is refused.\<close>

definition mount_starves :: "char \<Rightarrow> nat \<Rightarrow> u32 \<Rightarrow> account_rec list \<Rightarrow> node_rec list \<Rightarrow> nat \<Rightarrow> 'd persist \<Rightarrow> bool" where
  "mount_starves x drive base us rs n t \<longleftrightarrow> (\<exists>d d' b m rs1 rs2 v. rs = rs1 @ rs2 \<and>
     kmalloc (of_nat (n_sectors n * 512))
       (t\<lparr>sealed := False, data_drive := drive, data_base := base, data_where := where_text base, disk := d\<rparr>) = Some (b, m) \<and>
     rebuild x us rs1 (m\<lparr>disk := d'\<rparr>) = Some v \<and> short_of_memory v)"

lemma located_carried:
  assumes c: "carries view s ps media" and id: "ident = idents view (disk s)"
    and pl: "data_drive s = ATA_SLAVE \<and> data_base s = 0 \<or>
      data_drive s = ATA_MASTER \<and> data_base s = INSTALL_DATA_LBA \<and> \<not> has_super ident media ATA_SLAVE 0"
    and ne: "accounts s \<noteq> []"
  shows "located ident media (data_drive s) (data_base s)" "super_at media (data_drive s) (data_base s) = superblock s ps"
    "header_ok (superblock s ps)" "payload_at media (data_drive s) (data_base s) = padded_to (payload s ps)"
    "\<exists>w. ident (data_drive s) = Some w \<and> unat (data_base s) + 1 + n_sectors (unat (payload_bytes (superblock s ps))) \<le> unat (ident_sectors w)"
    "unat (payload_bytes (superblock s ps)) = length (payload s ps)"
proof -
  from c obtain w where w: "length (payload s ps) \<le> 1048576" "ident (data_drive s) = Some w"
    "unat (data_base s) + 1 + n_sectors (length (payload s ps)) \<le> unat (ident_sectors w)"
    "media (data_drive s) (unat (data_base s)) = words_of (super_bytes (superblock s ps))"
    "sectors_of media (data_drive s) (unat (data_base s) + 1) (n_sectors (length (payload s ps))) = words_of (padded_to (payload s ps))"
    using id by (auto simp: carries_def)
  have mg: "length (magic (superblock s ps)) = 8" by (simp add: superblock_def)
  have sb: "super_of (bytes_of (media (data_drive s) (unat (data_base s)))) = superblock s ps"
    using super_roundtrip [OF mg] super_length [OF mg] by (simp add: w(4) bytes_words)
  show sa: "super_at media (data_drive s) (data_base s) = superblock s ps" by (simp add: super_at_def sb)
  show pb: "unat (payload_bytes (superblock s ps)) = length (payload s ps)" using w(1) by (simp add: superblock_def unat_of_nat_exact)
  have "payload s ps \<noteq> []"
  proof -
    obtain a as where "accounts s = a # as" using ne by (cases "accounts s") auto
    then show ?thesis by (cases a) (auto simp: payload_def enc_string_def le_bytes_def upt_conv_Cons)
  qed
  then have "payload_bytes (superblock s ps) \<noteq> 0" using pb by (metis length_0_conv unat_0)
  then show "header_ok (superblock s ps)"
    using w(1) pb by (simp add: header_ok_def word_le_nat_alt MAX_PAYLOAD_def) (simp add: superblock_def)
  have "0 < n_sectors (length (payload s ps))" using n_sectors_bounds [OF w(1)] by simp
  then have "has_super ident media (data_drive s) (unat (data_base s))"
    using w(2,3) sb by (simp add: has_super_def) (simp add: superblock_def)
  with pl show "located ident media (data_drive s) (data_base s)" by (auto simp: located_def)
  show "payload_at media (data_drive s) (data_base s) = padded_to (payload s ps)"
    using sa pb w(5) padded_words [OF w(1)] by (simp add: payload_at_def)
  show "\<exists>w. ident (data_drive s) = Some w \<and> unat (data_base s) + 1 + n_sectors (unat (payload_bytes (superblock s ps))) \<le> unat (ident_sectors w)"
    using w(2,3) pb by auto
qed

text \<open>The state after a mount that found the place.\<close>

lemma mounted_ok:
  assumes d: "drives_ok P view busy ident media (disk t)" and l: "located ident media (data_drive t) (data_base t)"
    and t: "files_ok A t" "users_ok t" "\<forall>u\<in>set (users t). u_active u \<longrightarrow> NUL \<notin> set (u_home u)"
  shows "persist_ok P view busy A t"
proof -
  have e: "idents view (disk t) = ident" "content view (disk t) = media" and dr: "drives (disk t) = map found [ident ATA_MASTER, ident ATA_SLAVE]"
    and ok: "ata_ok P view busy (disk t)" using d by (simp_all add: drives_ok_def)
  from l obtain w where w: "ident (data_drive t) = Some w" "unat (data_base t) + 1 < unat (ident_sectors w)"
    by (auto simp: located_def has_super_def split: option.splits)
  have i: "data_drive t \<le> 1" using l by (auto simp: located_def ATA_SLAVE_def ATA_MASTER_def)
  have "ident_sectors w \<noteq> 0" using w(2) by auto
  with present_found(1) [where ident = ident, OF dr i] w(1) have "ata_present (data_drive t) (disk t)" by auto
  with l t ok show ?thesis by (auto simp: persist_ok_def placed_def e located_def)
qed


lemma mount_carried:
  fixes s t :: "'d persist"
  assumes s: "persist_ok P view busy A s" "listing s ps" "nameable x s" "accounts s \<noteq> []"
    and c: "carries view s ps media" and id: "ident = idents view (disk s)"
    and pl: "data_drive s = ATA_SLAVE \<and> data_base s = 0 \<or>
      data_drive s = ATA_MASTER \<and> data_base s = INSTALL_DATA_LBA \<and> \<not> has_super ident media ATA_SLAVE 0"
    and t: "rebooted P view busy ident media t" "files_ok B t" "users_ok t" "idle (users t)"
  shows "\<exists>st t'. persist_mount P x False t = Some (st, t') \<and> persist_ok P view busy B t' \<and> p_state t' = st \<and> \<not> sealed t' \<and>
    content view (disk t') = media \<and>
    (st = PERSIST_ERROR \<and> same_fs t t' \<and> short_of_memory (t'\<lparr>p_state := p_state t\<rparr>) \<or>
     st = PERSIST_LOADED \<and> accounts t' = accounts s \<and> save_count t' = save_count s + 1 \<and> \<not> dirty t' \<and>
     restored (fs_view s) (fs_view t') \<and>
     (fs_view t' = fs_view s \<or>
      mount_starves x (data_drive s) (data_base s) (accounts s) (recs_of s ps) (length (payload s ps)) t))"
proof -
  note lc = located_carried [OF c id pl s(4)]
  let ?sb = "superblock s ps" and ?n = "length (payload s ps)"
  have len: "?n \<le> 1048576" using c by (simp add: carries_def)
  obtain L where f: "fs_inv s L" using s(1) by (auto simp: persist_ok_def files_ok_def)
  have u: "users_ok s" "\<forall>u\<in>set (users s). u_active u \<longrightarrow> NUL \<notin> set (u_home u)" using s(1) by (simp_all add: persist_ok_def)
  from mount_start [OF t(1) lc(1), of x] lc(2,3,4,5) obtain d d' where
    d: "drives_ok P view busy ident media d" "drives_ok P view busy ident media d'"
    "persist_mount P x False t = mount_payload x ?sb (padded_to (payload s ps)) d'
       (t\<lparr>sealed := False, data_drive := data_drive s, data_base := data_base s, data_where := where_text (data_base s), disk := d\<rparr>)"
    by (auto simp: Let_def)
  let ?s1 = "t\<lparr>sealed := False, data_drive := data_drive s, data_base := data_base s, data_where := where_text (data_base s), disk := d\<rparr>"
  have f1: "files_ok B ?s1" using t(2) by (subst files_ok_cong [where s = t]) simp_all
  have b: "payload_bytes ?sb \<noteq> 0" "payload_bytes ?sb \<le> MAX_PAYLOAD" using lc(3) by (simp_all add: header_ok_def)
  note sp = sectors_for_payload [OF b]
  have ns: "n_sectors ?n \<le> 2048" using n_sectors_bounds [OF len] by simp
  have req: "sectors_for (payload_bytes ?sb) * ATA_SECTOR_SIZE = of_nat (n_sectors ?n * 512)"
  proof -
    have "sectors_for (payload_bytes ?sb) = of_nat (unat (sectors_for (payload_bytes ?sb)))" by simp
    also have "\<dots> = of_nat (n_sectors ?n)" using sp lc(6) by simp
    finally show ?thesis by (simp add: ATA_SECTOR_SIZE_def)
  qed
  have rn: "unat (of_nat (n_sectors ?n * 512) :: u32) \<le> 1048576" using ns by (simp add: unat_of_nat_exact del: of_nat_mult)
  then have "unat (of_nat (n_sectors ?n * 512) :: u32) + 7 < 4294967296" by simp
  from kmalloc_files [OF f1 this] obtain bf s2 where
    k: "kmalloc (of_nat (n_sectors ?n * 512)) ?s1 = Some (bf, s2)" "mem_frame ?s1 s2"
      "if bf = NULL then s2 = ?s1 else \<exists>k. B bf = None \<and> files_ok (B(bf \<mapsto> k)) s2" by blast
  have ul: "\<forall>u\<in>set (users t). u_active u \<longrightarrow> NUL \<notin> set (u_home u)" using t(4) by (auto simp: idle_def)
  show ?thesis
  proof (cases "bf = NULL")
    case True
    let ?t' = "?s1\<lparr>p_state := PERSIST_ERROR\<rparr>"
    have "persist_mount P x False t = Some (PERSIST_ERROR, ?t')" using d(3) k(1,3) True by (simp add: mount_payload_def req)
    moreover have "persist_ok P view busy B ?t'"
    proof (rule mounted_ok)
      show "files_ok B ?t'" using t(2) by (subst files_ok_cong [where s = t]) simp_all
      show "users_ok ?t'" using t(3) by (simp add: users_ok_def)
    qed (use d(1) lc(1) ul in simp_all)
    moreover have "short_of_memory (?t'\<lparr>p_state := p_state t\<rparr>)"
    proof -
      have "?t'\<lparr>p_state := p_state t\<rparr> = ?s1" by simp
      then show ?thesis using k(1,3) True rn unfolding short_of_memory_def by (intro exI [of _ "of_nat (n_sectors ?n * 512)"]) simp
    qed
    ultimately show ?thesis using d(1) by (intro exI conjI) (assumption | simp add: same_fs_def drives_ok_def)+
  next
    case False
    with k(3) obtain kk where fk: "B bf = None" "files_ok (B(bf \<mapsto> kk)) s2" by auto
    let ?s3 = "s2\<lparr>disk := d'\<rparr>"
    have sf: "same_fs ?s1 s2" by (rule mem_frame_same [OF k(2)])
    have f3: "files_ok (B(bf \<mapsto> kk)) ?s3" using fk(2) by (subst files_ok_cong [where s = s2]) simp_all
    have u3: "users_ok ?s3" "idle (users ?s3)" using sf t(3,4) users_ok_cong [of s2 t] by (simp_all add: same_fs_def users_ok_def)
    from rebuild_ok [OF f s(3,2) len u f3 u3] obtain s4 where
      r: "rebuild x (accounts s) (recs_of s ps) ?s3 = Some s4" "files_ok (B(bf \<mapsto> kk)) s4" "users_ok s4" "same_layer ?s3 s4"
        "accounts s4 = accounts s" "restored (fs_view s) (fs_view s4)"
        "fs_view s4 = fs_view s \<or> (\<exists>rs1 rs2 v. recs_of s ps = rs1 @ rs2 \<and> rebuild x (accounts s) rs1 ?s3 = Some v \<and> short_of_memory v)"
      by blast
    from release_files [OF r(2) fk(1)] obtain s5 where h: "heap_release bf s4 = Some s5" "mem_frame s4 s5" "files_ok B s5" by blast
    note s45 = mem_frame_same [OF h(2)]
    have v45: "fs_view s5 = fs_view s4" using s45 by (intro fs_view_cong) (simp_all add: same_fs_def)
    have lay: "same_layer ?s3 s5" by (rule layer_trans [OF r(4) frame_layer(2) [OF h(2)]])
    have l2: "same_layer ?s1 s2" by (rule frame_layer(2) [OF k(2)])
    let ?t' = "s5\<lparr>bytes_used := payload_bytes ?sb, save_count := super_saves ?sb, p_state := PERSIST_LOADED, dirty := False\<rparr>"
    have ck: "checksum (take (unat (payload_bytes ?sb)) (padded_to (payload s ps))) = super_checksum ?sb"
      using lc(6) by (simp add: padded_to_def superblock_def)
    have "persist_mount P x False t = Some (PERSIST_LOADED, ?t')"
      using d(3) k(1) False ck r(1) h(1) restore_carried [OF f u len, of x ?s3]
      by (simp add: mount_payload_def req)
    moreover have "persist_ok P view busy B ?t'"
    proof (rule mounted_ok)
      show "files_ok B ?t'" using h(3) by (subst files_ok_cong [where s = s5]) simp_all
      show "users_ok ?t'" using r(3) s45 users_ok_cong [of ?t' s4] by (simp add: same_fs_def)
      show "drives_ok P view busy ident media (disk ?t')" using d(2) lay by (simp add: same_layer_def)
      show "located ident media (data_drive ?t') (data_base ?t')" using lc(1) lay l2 by (simp add: same_layer_def)
      show "\<forall>u\<in>set (users ?t'). u_active u \<longrightarrow> NUL \<notin> set (u_home u)"
      proof (intro ballI impI)
        fix v assume "v \<in> set (users ?t')" "u_active v"
        then have "account_of v \<in> set (accounts s4)" using s45 by (auto simp: accounts_def same_fs_def)
        then have "account_of v \<in> set (accounts s)" using r(5) by simp
        from good_accounts(1) [OF u this] show "NUL \<notin> set (u_home v)" by (simp add: good_account_def account_of_def)
      qed
    qed
    moreover have "fs_view ?t' = fs_view s4" using v45 fs_view_cong [of ?t' s5] by simp
    moreover have "accounts ?t' = accounts s" using r(5) s45 by (simp add: accounts_def same_fs_def)
    moreover have "save_count ?t' = save_count s + 1" by (simp add: superblock_def)
    moreover have "content view (disk ?t') = media" using d(2) lay by (simp add: drives_ok_def same_layer_def)
    moreover have "\<not> sealed ?t'" using lay l2 by (simp add: same_layer_def)
    moreover have "fs_view s4 = fs_view s \<or> mount_starves x (data_drive s) (data_base s) (accounts s) (recs_of s ps) ?n t"
      using r(7) k(1) unfolding mount_starves_def by metis
    ultimately show ?thesis using r(6) by (intro exI [of _ PERSIST_LOADED] exI [of _ ?t']) simp
  qed
qed

section \<open>Formatting\<close>

text \<open>What may happen to the layer until the next boot: its operations in any order, and anything that
  the rest of the kernel does to its own state.\<close>

inductive session_step :: "'d ports \<Rightarrow> 'd persist \<Rightarrow> 'd persist \<Rightarrow> bool" for P where
  step_mark: "session_step P s (persist_mark_dirty s)"
| step_save: "persist_save P s = Some (rc, s') \<Longrightarrow> session_step P s s'"
| step_flush: "persist_flush P s = Some (rc, s') \<Longrightarrow> session_step P s s'"
| step_format: "persist_format P s = Some (rc, s') \<Longrightarrow> session_step P s s'"
| step_work: "same_layer s s' \<Longrightarrow> session_step P s s'"

lemma blank_words: "words_of (super_bytes blank_super) = replicate 256 0"
proof -
  have "words_of (replicate (2 * n) NUL) = replicate n 0" for n by (induction n) simp_all
  moreover have z: "le_bytes 4 0 = replicate 4 NUL" by (simp add: le_bytes_def byte_at_def upt_conv_Cons numeral_eq_Suc char_of_def)
  have "super_bytes blank_super = replicate (2 * 256) NUL"
    unfolding super_bytes_def blank_super_def super_t.simps z by (simp only: replicate_add [symmetric]) simp
  ultimately show ?thesis by metis
qed

lemma blank_no_magic: "magic (super_of (bytes_of (replicate 256 0))) \<noteq> MAGIC"
proof -
  have m: "length (magic blank_super) = 8" by (simp add: blank_super_def)
  from super_length [OF m] have "even (length (super_bytes blank_super))" by simp
  from bytes_words [OF this] have "bytes_of (replicate 256 0) = super_bytes blank_super" by (simp only: blank_words)
  with super_roundtrip [OF m] show ?thesis by (simp add: blank_super_def MAGIC_def numeral_eq_Suc)
qed

text \<open>The layer after a format: sealed, and its place blank.\<close>

definition wiped :: "'d ports \<Rightarrow> ('d \<Rightarrow> ata_view) \<Rightarrow> ('d \<Rightarrow> nat) \<Rightarrow> nat \<Rightarrow> u32 \<Rightarrow> (nat \<Rightarrow> u16 list option) \<Rightarrow>
    (nat \<Rightarrow> nat \<Rightarrow> u16 list) \<Rightarrow> 'd persist \<Rightarrow> bool" where
  "wiped P view busy drive base ident media s \<longleftrightarrow> ata_ok P view busy (disk s) \<and> idents view (disk s) = ident \<and> sealed s \<and>
     data_drive s = drive \<and> data_base s = base \<and> ata_present drive (disk s) \<and> unat base < unat (ata_sector_count drive (disk s)) \<and>
     content view (disk s) = media \<and> media drive (unat base) = replicate 256 0"

lemma format_writes:
  assumes "ata_ok P view busy (disk s)" "ata_present (data_drive s) (disk s)" "p_state s \<noteq> PERSIST_NO_DISK"
    and "unat (data_base s) < unat (ata_sector_count (data_drive s) (disk s))"
  shows "\<exists>s'. persist_format P s = Some (0, s') \<and> wiped P view busy (data_drive s) (data_base s) (idents view (disk s))
    ((content view (disk s))(data_drive s := (content view (disk s) (data_drive s))(unat (data_base s) := replicate 256 0))) s'"
proof -
  have "0 < unat (ata_sector_count (data_drive s) (disk s))"
    "unat (data_base s) + unat (1 :: u32) \<le> unat (ata_sector_count (data_drive s) (disk s))"
    "unat (1 :: u32) * 256 \<le> length (words_of (super_bytes blank_super))" using assms(4) by (simp_all add: blank_words)
  from disk.wr_law [OF assms(1) this] obtain d where
    d: "ata_write P (data_drive s) (data_base s) 1 (words_of (super_bytes blank_super)) (disk s) = Some (0, d)" "ata_ok P view busy d"
    "(\<lambda>i. unat (ata_sector_count i d)) = (\<lambda>i. unat (ata_sector_count i (disk s)))"
    "drives d = drives (disk s)" "idents view d = idents view (disk s)"
    "content view d = (content view (disk s))(data_drive s := store_sectors (unat (data_base s)) (unat (1 :: u32)) (words_of (super_bytes blank_super))
       (content view (disk s) (data_drive s)))" by (auto simp: idents_def)
  have st: "store_sectors (unat (data_base s)) (Suc 0) (words_of (super_bytes blank_super)) m = m(unat (data_base s) := replicate 256 0)" for m
    by (auto simp: store_sectors_def blank_words fun_eq_iff)
  have "ata_present (data_drive s) d" using assms(2) d(4) by (simp add: ata_present_def)
  moreover have "ata_sector_count (data_drive s) d = ata_sector_count (data_drive s) (disk s)"
    using d(4) by (simp add: ata_sector_count_def ata_present_def)
  ultimately show ?thesis using d(1,2,5,6) assms(3,4) by (simp add: persist_format_def SUPER_LBA_def wiped_def st)
qed

lemma wiped_step:
  assumes s: "wiped P view busy drive base ident media s" and st: "session_step P s s'"
  shows "wiped P view busy drive base ident media s'"
  using st
proof (cases rule: session_step.cases)
  case step_mark
  with s show ?thesis by (simp add: wiped_def persist_mark_dirty_def)
next
  case (step_save rc)
  with s show ?thesis by (auto simp: wiped_def persist_save_def)
next
  case (step_flush rc)
  with s show ?thesis by (auto simp: wiped_def persist_flush_def persist_save_def split: if_splits)
next
  case (step_format rc)
  show ?thesis
  proof (cases "p_state s = PERSIST_NO_DISK")
    case True
    with step_format s show ?thesis by (simp add: persist_format_def)
  next
    case False
    have "(media(drive := (media drive)(unat base := replicate 256 0))) = media" using s by (auto simp: wiped_def fun_upd_idem_iff)
    with format_writes [of P view busy s] False s step_format show ?thesis by (auto simp: wiped_def)
  qed
next
  case step_work
  with s show ?thesis by (simp add: wiped_def same_layer_def)
qed

lemma wiped_steps: "(session_step P)\<^sup>*\<^sup>* s s' \<Longrightarrow> wiped P view busy drive base ident media s \<Longrightarrow> wiped P view busy drive base ident media s'"
  by (induction rule: rtranclp_induct) (auto intro: wiped_step)

text \<open>Neither place where \<open>choose_location\<close> looks holds a superblock.\<close>

definition no_snapshot :: "(nat \<Rightarrow> nat \<Rightarrow> u16 list) \<Rightarrow> bool" where
  "no_snapshot media \<longleftrightarrow> magic (super_of (bytes_of (media ATA_SLAVE 0))) \<noteq> MAGIC \<and>
     magic (super_of (bytes_of (media ATA_MASTER (unat INSTALL_DATA_LBA)))) \<noteq> MAGIC"

lemma mount_blank:
  assumes r: "rebooted P view busy ident media t" and no: "no_snapshot media"
  shows "\<exists>st t'. persist_mount P x False t = Some (st, t') \<and> st \<in> {PERSIST_NO_DISK, PERSIST_EMPTY} \<and> p_state t' = st \<and> same_fs t t' \<and>
    content view (disk t') = media \<and> drives_ok P view busy ident media (disk t') \<and>
    (\<exists>d i b loc. t' = t\<lparr>sealed := False, disk := d, data_drive := i, data_base := b, data_where := loc, p_state := st\<rparr>) \<and>
    (st \<noteq> PERSIST_NO_DISK \<longrightarrow> placed view t')"
proof -
  have h: "healthy P view busy" "busy (hw (disk t)) = 0" "at_rest (view (hw (disk t))) ident media" using r by (simp_all add: rebooted_def)
  from ata_init_found [OF h] obtain d0 where d0: "ata_init P (disk t) = Some d0" "drives_ok P view busy ident media d0"
    by (auto simp: drives_ok_def idents_def ATA_MASTER_def ATA_SLAVE_def)
  have ns: "\<not> has_super ident media ATA_SLAVE 0" "\<not> has_super ident media ATA_MASTER (unat INSTALL_DATA_LBA)"
    using no by (auto simp: no_snapshot_def has_super_def split: option.splits)
  from probe_ok [OF d0(2), of ATA_SLAVE 0] ns(1) obtain d1 where
    1: "probe P ATA_SLAVE 0 d0 = Some (False, d1)" "drives_ok P view busy ident media d1" by (auto simp: ATA_SLAVE_def)
  from probe_ok [OF 1(2), of ATA_MASTER INSTALL_DATA_LBA] ns(2) obtain d2 where
    2: "probe P ATA_MASTER INSTALL_DATA_LBA d1 = Some (False, d2)" "drives_ok P view busy ident media d2"
    by (auto simp: ATA_MASTER_def INSTALL_DATA_LBA_def)
  have dr: "drives d2 = map found [ident ATA_MASTER, ident ATA_SLAVE]" using 2(2) by (simp add: drives_ok_def)
  have rd: "\<exists>d3. ata_read P drive base 1 (replicate 256 0) d2 = Some (0, media drive (unat base), d3) \<and> drives_ok P view busy ident media d3"
    if p: "ata_present drive d2" "drive \<le> 1" "unat base < unat (ata_sector_count drive d2)" for drive base
  proof -
    from present_found(1) [where ident = ident, OF dr p(2)] p(1) obtain w where w: "ident drive = Some w" by blast
    have "ata_sector_count drive d2 = ident_sectors w" by (rule present_found(2) [OF dr p(2) w])
    with drives_read [OF 2(2) w p(2), of base 1 "replicate 256 0"] p(3) show ?thesis by (auto simp: sectors_one [unfolded One_nat_def])
  qed
  consider "ata_present ATA_SLAVE d2"
    | "\<not> ata_present ATA_SLAVE d2" "ata_present ATA_MASTER d2 \<and> ata_sector_count ATA_MASTER d2 > INSTALL_DATA_LBA + 64"
    | "\<not> ata_present ATA_SLAVE d2" "\<not> (ata_present ATA_MASTER d2 \<and> ata_sector_count ATA_MASTER d2 > INSTALL_DATA_LBA + 64)" by blast
  then obtain st d i b loc where m: "persist_mount P x False t = Some (st, t\<lparr>sealed := False, disk := d, data_drive := i, data_base := b, data_where := loc, p_state := st\<rparr>)"
    "drives_ok P view busy ident media d"
    "st = PERSIST_NO_DISK \<or> st = PERSIST_EMPTY \<and> ata_present i d \<and> (i = ATA_SLAVE \<and> b = 0 \<or> i = ATA_MASTER \<and> b = INSTALL_DATA_LBA)"
  proof cases
    case c: 1
    then have "0 < unat (ata_sector_count ATA_SLAVE d2)"
      using present_found [where ident = ident, OF dr, of ATA_SLAVE] by (auto simp: ATA_SLAVE_def unat_gt_0)
    with rd [OF c, of 0] obtain d3 where d3: "ata_read P ATA_SLAVE 0 1 (replicate 256 0) d2 = Some (0, media ATA_SLAVE 0, d3)"
      "drives_ok P view busy ident media d3" by (auto simp: ATA_SLAVE_def)
    have "ata_present ATA_SLAVE d3" using c d3(2) dr by (simp add: drives_ok_def ata_present_def)
    then show ?thesis using that [where st = PERSIST_EMPTY and d = d3 and i = ATA_SLAVE and b = 0 and loc = "''primary slave, sector 0 (blank)''"] d0(1) 1(1) 2(1) c no d3
      by (simp add: persist_mount_def choose_location_def SUPER_LBA_def no_snapshot_def Let_def)
  next
    case c: 2
    have "unat INSTALL_DATA_LBA < unat (ata_sector_count ATA_MASTER d2)"
      using c(2) by (simp add: INSTALL_DATA_LBA_def word_less_nat_alt)
    with rd [of ATA_MASTER INSTALL_DATA_LBA] c(2) obtain d3 where d3:
      "ata_read P ATA_MASTER INSTALL_DATA_LBA 1 (replicate 256 0) d2 = Some (0, media ATA_MASTER (unat INSTALL_DATA_LBA), d3)"
      "drives_ok P view busy ident media d3" by (auto simp: ATA_MASTER_def)
    have "ata_present ATA_MASTER d3" using c(2) d3(2) dr by (simp add: drives_ok_def ata_present_def)
    then show ?thesis using that [where st = PERSIST_EMPTY and d = d3 and i = ATA_MASTER and b = INSTALL_DATA_LBA and loc = "''boot disk, data area (blank)''"] d0(1) 1(1) 2(1) c no d3
      by (simp add: persist_mount_def choose_location_def SUPER_LBA_def no_snapshot_def Let_def)
  next
    case c: 3
    have "persist_mount P x False t = Some (PERSIST_NO_DISK, t\<lparr>sealed := False, disk := d2, data_where := ''none'', p_state := PERSIST_NO_DISK\<rparr>)"
      using c d0(1) 1(1) 2(1) by (auto simp: persist_mount_def choose_location_def Let_def)
    with 2(2) show ?thesis
      by (intro that [where st = PERSIST_NO_DISK and d = d2 and i = "data_drive t" and b = "data_base t" and loc = "''none''"]) simp_all
  qed
  define t' where "t' = t\<lparr>sealed := False, disk := d, data_drive := i, data_base := b, data_where := loc, p_state := st\<rparr>"
  have f: "disk t' = d" "p_state t' = st" "data_drive t' = i" "data_base t' = b" "same_fs t t'" by (simp_all add: t'_def same_fs_def)
  have "placed view t'" if "st \<noteq> PERSIST_NO_DISK" using m(3) that ns(1) m(2) by (auto simp: f placed_def drives_ok_def)
  moreover have "st \<in> {PERSIST_NO_DISK, PERSIST_EMPTY}" using m(3) by blast
  moreover have "content view (disk t') = media" "drives_ok P view busy ident media (disk t')" using m(2) by (simp_all add: f drives_ok_def)
  ultimately show ?thesis using m(1) [folded t'_def] f(2,5) t'_def by blast
qed

section \<open>A machine with a data disk\<close>

definition machine :: "user list \<Rightarrow> ata_view ata \<Rightarrow> ata_view persist" where
  "machine us d = \<lparr>regions = [], region_count = 0, total_usable = 0,
     hdr = [HEAP_BASE \<mapsto> \<lparr>b_magic = BLOCK_MAGIC, b_size = 4194284, b_free = True, b_next = NULL, b_prev = NULL\<rparr>],
     heap_head = HEAP_BASE, heap_size = 4194304, heap_used = 0,
     nodes = Map.empty, bufs = Map.empty, root_node = NULL, current_dir = NULL, node_count = 0,
     users = us, logged_in = None, next_uid = 1000, disk = d, p_state = PERSIST_EMPTY, dirty = True, bytes_used = 0, save_count = 0, sealed = False,
     data_drive = ATA_SLAVE, data_base = 0, data_where = ''primary slave, sector 0 (blank)''\<rparr>"

definition demo_machine :: "ata_view persist" where
  "demo_machine = machine (account ''root'' ''thunder'' True 0 # replicate 7 zero_user) demo_ata"

lemma demo_fresh: "fs_fresh demo_machine Map.empty"
proof -
  have "heap_rep demo_machine [(4194284, True)]"
    by (simp add: heap_rep_def demo_machine_def machine_def HEAP_BASE_def sizeof_block_def Let_def at_or_null_def)
  then have "mem_holds demo_machine Map.empty"
    unfolding mem_holds_def by (intro exI [of _ "[(4194284, True)]"] conjI) simp_all
  then show ?thesis by (simp add: fs_fresh_def demo_machine_def machine_def)
qed

lemma demo_boots:
  "do { s \<leftarrow> fs_reset (machine us d); (p, t) \<leftarrow> kmalloc MAX_PAYLOAD s; (q, u) \<leftarrow> kmalloc 512 s; Some (root_node s, p, q) } =
     Some (0x200014, 0x200068, 0x200068)"
  by code_simp

lemma demo_account: "accounts demo_machine = [(''root'', ''/root'', 0, 0, hash_password ''thunder'')]"
  by (simp add: accounts_def demo_machine_def machine_def account_of_def account_def zero_user_def)

lemma demo_state:
  "\<exists>A s. persist_ok demo_ports sane (\<lambda>_. 0) A s \<and> same_layer demo_machine s \<and> users s = users demo_machine \<and> logged_in s = None \<and>
     bare s \<and> dom (nodes s) = {root_node s} \<and> kmalloc MAX_PAYLOAD s \<noteq> Some (NULL, s) \<and> kmalloc 512 s \<noteq> Some (NULL, s)"
proof -
  from demo_boots [of "account ''root'' ''thunder'' True 0 # replicate 7 zero_user" demo_ata] obtain s t u where run: "fs_reset demo_machine = Some s"
    "root_node s = 0x200014" "kmalloc MAX_PAYLOAD s = Some (0x200068, t)" "kmalloc 512 s = Some (0x200068, u)"
    by (auto simp: Option.bind_eq_Some_conv demo_machine_def)
  from root_new_ok [OF demo_fresh] obtain p s1 where new: "node_new ''/'' FS_DIR NULL demo_machine = Some (p, s1)"
    "p \<noteq> 0 \<Longrightarrow> \<exists>k. fs_inv (s1\<lparr>root_node := p, current_dir := p\<rparr>) [p \<mapsto> k] \<and>
       fs_view (s1\<lparr>root_node := p, current_dir := p\<rparr>) = [[] \<mapsto> Dir]" by fastforce
  have "fs_reset demo_machine = Some (s1\<lparr>root_node := p, current_dir := p\<rparr>)"
    using new(1) by (simp add: fs_reset_def demo_machine_def machine_def)
  then have s: "s = s1\<lparr>root_node := p, current_dir := p\<rparr>" "p = 0x200014" using run(1,2) by auto
  with new(2) obtain k where i: "fs_inv s [p \<mapsto> k]" "fs_view s = [[] \<mapsto> Dir]" by auto
  have fr: "same_layer demo_machine s \<and> users s = users demo_machine \<and> logged_in s = logged_in demo_machine"
  proof -
    from new(1) s(2) obtain m N where "kcalloc 1 sizeof_fs_node demo_machine = Some (p, m)" "s1 = m\<lparr>nodes := N, node_count := node_count m + 1\<rparr>"
      by (auto simp: node_new_def Let_def split: if_splits Option.bind_splits)
    moreover from this have "mem_frame demo_machine m" using kmalloc_frame by (auto simp: kcalloc_def split: if_splits Option.bind_splits)
    ultimately show ?thesis unfolding s(1) by (auto simp: mem_frame_def same_layer_def)
  qed
  have "node_path s [] (current_dir s)" using s(1) by simp
  with i(1) have f: "files_ok (others s [p \<mapsto> k]) s" unfolding files_ok_def by blast
  have dom: "q = root_node s" if "q \<in> dom (nodes s)" for q
  proof -
    from that obtain n where n: "nodes s q = Some n" by blast
    from node_path_exists [OF i(1) n] obtain ys where y: "node_path s ys q" by blast
    from fs_view_node [OF y n] i(2) have "ys = []" by (auto split: if_splits)
    with y show ?thesis by simp
  qed
  have d: "dom (nodes s) = {root_node s}" using dom fs_inv_root [OF i(1)] by auto
  have v: "valid_name ''root''" by (simp add: valid_name_def USER_NAME_MAX_def name_char_def is_digit_def)
  have us: "users s = account ''root'' ''thunder'' True 0 # replicate 7 zero_user" "logged_in s = None" using fr by (simp_all add: demo_machine_def machine_def)
  have "users_ok s" using v by (simp add: users_ok_def us nth_Cons' account_def zero_user_def USER_MAX_def USER_HOME_MAX_def)
  moreover have "\<forall>u\<in>set (users s). u_active u \<longrightarrow> NUL \<notin> set (u_home u)" by (simp add: us account_def zero_user_def)
  moreover have "disk s = demo_ata" "data_drive s = ATA_SLAVE" "data_base s = 0" using fr by (simp_all add: same_layer_def demo_machine_def machine_def)
  moreover from this have "placed sane s" using demo_ata_ok(2) by (simp add: placed_def ATA_SLAVE_def)
  ultimately have "persist_ok demo_ports sane (\<lambda>_. 0) (others s [p \<mapsto> k]) s"
    using f demo_ata_ok(1) by (simp add: persist_ok_def)
  moreover have "kmalloc MAX_PAYLOAD s \<noteq> Some (NULL, s)" "kmalloc 512 s \<noteq> Some (NULL, s)" using run(3,4) by simp_all
  ultimately show ?thesis using fr d us(2) i(2) unfolding bare_def by blast
qed

lemma demo_saved:
  "\<exists>A s s'. persist_ok demo_ports sane (\<lambda>_. 0) A s \<and> \<not> sealed s \<and> p_state s = PERSIST_EMPTY \<and> bare s \<and> listing s [] \<and>
     kmalloc MAX_PAYLOAD s \<noteq> Some (NULL, s) \<and> length (payload s []) = 23 \<and> unat (ata_sector_count (data_drive s) (disk s)) = 1000 \<and>
     data_base s = 0 \<and> accounts s = [(''root'', ''/root'', 0, 0, hash_password ''thunder'')] \<and> logged_in s = None \<and>
     persist_save demo_ports s = Some (0, s') \<and> persist_ok demo_ports sane (\<lambda>_. 0) A s' \<and> logged_in s' = None"
proof -
  obtain A s where s: "persist_ok demo_ports sane (\<lambda>_. 0) A s" "same_layer demo_machine s" "users s = users demo_machine" "logged_in s = None"
    "bare s" "dom (nodes s) = {root_node s}" "kmalloc MAX_PAYLOAD s \<noteq> Some (NULL, s)" using demo_state by blast
  have l: "\<not> sealed s" "p_state s = PERSIST_EMPTY" "data_drive s = ATA_SLAVE" "data_base s = 0" "disk s = demo_ata"
    using s(2) by (simp_all add: same_layer_def demo_machine_def machine_def)
  have ls: "listing s []" using s(6) by (simp add: listing_def)
  have ps: "ps = []" if "listing s ps" for ps using that s(6) by (simp add: listing_def)
  have acc: "accounts s = [(''root'', ''/root'', 0, 0, hash_password ''thunder'')]"
    using demo_account s(3) by (simp add: accounts_def)
  have pay: "length (payload s []) = 23" by (simp add: payload_def acc enc_string_def)
  have sc: "unat (ata_sector_count (data_drive s) (disk s)) = 1000" using demo_ata_ok(4) l by (simp add: ATA_SLAVE_def)
  have "p_state s \<noteq> PERSIST_NO_DISK" using l by simp
  from persist_save_result [OF s(1) l(1) this] ps obtain rc s' where r: "persist_save demo_ports s = Some (rc, s')" "same_fs s s'"
    "persist_ok demo_ports sane (\<lambda>_. 0) A s'" "rc = 0" using s(7) pay sc l(4) by (fastforce simp: n_sectors_def)
  then have "logged_in s' = None" using s(4) by (simp add: same_fs_def)
  with s(1,4,5,7) l(1,2,4) ls pay sc acc r(1,3,4) show ?thesis by blast
qed

section \<open>Properties\<close>

text \<open>Property C30: on a well-formed system with a healthy data disk, one that is as documented and keeps ERR
  and DF clear while it is busy, \<open>persist_save\<close> returns: -1 exactly when
  there is no memory for the buffer, -2 exactly when the snapshot exceeds a mebibyte, -3 exactly when
  it does not fit the drive, and otherwise 0, and then the drive carries the superblock and the
  payload of all accounts and all nodes below the root, each after its parent, and nothing is
  marked dirty. The tree, the accounts and the heap of the others are left alone.\<close>

theorem persist_save_outcome:
  assumes "persist_ok P view busy A s" "\<not> sealed s" "p_state s \<noteq> PERSIST_NO_DISK"
  shows "\<exists>ps rc s'. listing s ps \<and> persist_save P s = Some (rc, s') \<and> same_fs s s' \<and> persist_ok P view busy A s' \<and>
    (if kmalloc MAX_PAYLOAD s = Some (NULL, s) then rc = -1 else if length (payload s ps) > 1048576 then rc = -2
     else if unat (data_base s) + 1 + n_sectors (length (payload s ps)) \<le> unat (ata_sector_count (data_drive s) (disk s))
     then rc = 0 \<and> carries view s ps (content view (disk s')) \<and> \<not> dirty s' \<and> save_count s' = save_count s + 1
     else rc = -3)"
proof -
  from persist_save_result [OF assms] obtain ps rc s' where r: "listing s ps" "persist_save P s = Some (rc, s')" "same_fs s s'"
    "if kmalloc MAX_PAYLOAD s = Some (NULL, s) then rc = -1 else if length (payload s ps) > 1048576 then rc = -2
     else if unat (data_base s) + 1 + n_sectors (length (payload s ps)) \<le> unat (ata_sector_count (data_drive s) (disk s)) then rc = 0 else rc = -3"
    "persist_ok P view busy A s'"
    "rc = 0 \<longrightarrow> carries view s ps (content view (disk s')) \<and> \<not> dirty s' \<and> save_count s' = save_count s + 1" by auto
  show ?thesis
    by (rule exI [of _ ps], rule exI [of _ rc], rule exI [of _ s']) (use r in \<open>simp split: if_splits\<close>)
qed

theorem persist_save_outcome_witness:
  "\<exists>s s'. persist_save demo_ports s = Some (0, s') \<and> carries sane s [] (content sane (disk s')) \<and>
     accounts s = [(''root'', ''/root'', 0, 0, hash_password ''thunder'')] \<and> save_count s' = save_count s + 1"
proof -
  obtain A s where s: "persist_ok demo_ports sane (\<lambda>_. 0) A s" "\<not> sealed s" "p_state s = PERSIST_EMPTY" "listing s []"
    "kmalloc MAX_PAYLOAD s \<noteq> Some (NULL, s)" "length (payload s []) = 23" "unat (ata_sector_count (data_drive s) (disk s)) = 1000"
    "data_base s = 0" "accounts s = [(''root'', ''/root'', 0, 0, hash_password ''thunder'')]" using demo_saved by blast
  have ps: "ps = []" if "listing s ps" for ps using that s(4) unfolding listing_def by (metis set_empty)
  have "p_state s \<noteq> PERSIST_NO_DISK" using s(3) by simp
  from persist_save_outcome [OF s(1,2) this] ps s(5-8) obtain s' where
    "persist_save demo_ports s = Some (0, s')" "carries sane s [] (content sane (disk s'))" "save_count s' = save_count s + 1"
    by (fastforce simp: n_sectors_def)
  with s(9) show ?thesis by blast
qed

text \<open>Property C4: after a successful save and a reboot, on the drives as they were left, \<open>persist_mount\<close>
  returns with exactly the accounts that were saved, and with the tree that was saved, unless the
  heap refuses an allocation while the tree is built (stated as: some request of at most 1048700 bytes
  would be refused at some point, which is more than any that is made); then nodes can be missing and files empty,
  but nothing else is there. Without memory for the buffer it reports an error and leaves the tree
  alone. The paths must be ones a snapshot can name (at most 32 levels, less than 255 characters,
  no component \<open>.\<close> or \<open>..\<close>), and there must be an account.\<close>

theorem persist_roundtrip:
  assumes "persist_ok P view busy A s" "\<not> sealed s" "p_state s \<noteq> PERSIST_NO_DISK" "accounts s \<noteq> []" "nameable x s"
    and "persist_save P s = Some (0, s')"
    and "rebooted P view busy (idents view (disk s')) (content view (disk s')) t" "files_ok B t" "users_ok t" "idle (users t)"
  shows "\<exists>ps st t'. listing s ps \<and> persist_mount P x False t = Some (st, t') \<and> persist_ok P view busy B t' \<and>
    (st = PERSIST_ERROR \<and> same_fs t t' \<and> short_of_memory (t'\<lparr>p_state := p_state t\<rparr>) \<or>
     st = PERSIST_LOADED \<and> accounts t' = accounts s \<and> save_count t' = save_count s + 1 \<and> restored (fs_view s) (fs_view t') \<and>
     (fs_view t' = fs_view s \<or>
      mount_starves x (data_drive s) (data_base s) (accounts s) (recs_of s ps) (length (payload s ps)) t))"
proof -
  from persist_save_result [OF assms(1-3)] assms(6) obtain ps where ps: "listing s ps" "persist_ok P view busy A s'"
    "carries view s ps (content view (disk s'))" "idents view (disk s') = idents view (disk s)" "p_state s' = PERSIST_LOADED"
    "data_drive s' = data_drive s" "data_base s' = data_base s" by auto
  have "data_drive s = ATA_SLAVE \<and> data_base s = 0 \<or> data_drive s = ATA_MASTER \<and> data_base s = INSTALL_DATA_LBA \<and>
      \<not> has_super (idents view (disk s')) (content view (disk s')) ATA_SLAVE 0"
    using ps(2,5-7) by (auto simp: persist_ok_def placed_def)
  from mount_carried [OF assms(1) ps(1) assms(5,4) ps(3,4) this assms(7-10)] ps(1) show ?thesis by blast
qed

theorem persist_roundtrip_witness:
  "\<exists>(s :: ata_view persist) s' t st t'. persist_save demo_ports s = Some (0, s') \<and> accounts t = [] \<and>
     persist_mount demo_ports NUL False t = Some (st, t') \<and>
     (st = PERSIST_ERROR \<or> accounts t' = [(''root'', ''/root'', 0, 0, hash_password ''thunder'')] \<and> save_count t' = save_count s + 1)"
proof -
  obtain A s s' where s: "persist_ok demo_ports sane (\<lambda>_. 0) A s" "\<not> sealed s" "p_state s = PERSIST_EMPTY" "bare s"
    "accounts s = [(''root'', ''/root'', 0, 0, hash_password ''thunder'')]" "persist_save demo_ports s = Some (0, s')"
    "persist_ok demo_ports sane (\<lambda>_. 0) A s'" "logged_in s' = None" using demo_saved by blast
  define t where "t = s'\<lparr>users := replicate 8 zero_user\<rparr>"
  have n: "p_state s \<noteq> PERSIST_NO_DISK" "accounts s \<noteq> []" using s(3,5) by simp_all
  have nm: "nameable NUL s" using s(4) by (auto simp: nameable_def bare_def can_name_def path_string_def FS_PATH_MAX_def)
  have r: "rebooted demo_ports sane (\<lambda>_. 0) (idents sane (disk s')) (content sane (disk s')) t"
    using s(7) by (simp add: rebooted_def t_def persist_ok_def ata_ok_def at_rest_def idents_def content_def)
  have f: "files_ok A t" using s(7) unfolding t_def by (subst files_ok_cong [where s = s']) (simp_all add: persist_ok_def)
  have u: "users_ok t" "idle (users t)" "accounts t = []"
    using s(8) by (simp_all add: t_def users_ok_def zero_user_def USER_MAX_def idle_def accounts_def)
  from persist_roundtrip [OF s(1,2) n nm s(6) r f u(1,2)] s(5) obtain st t' where
    "persist_mount demo_ports NUL False t = Some (st, t')"
    "st = PERSIST_ERROR \<or> accounts t' = [(''root'', ''/root'', 0, 0, hash_password ''thunder'')] \<and> save_count t' = save_count s + 1" by auto
  with s(6) u(3) show ?thesis by blast
qed

text \<open>Property C31: a snapshot whose version or size is wrong, or whose payload does not have the recorded
  checksum, is refused with PERSIST_ERROR before anything is replaced: the tree, the accounts,
  the working directory and the disk are as before, and the buffer is given back.\<close>

theorem damaged_snapshot_refused:
  assumes "rebooted P view busy ident media t" "files_ok B t" "located ident media drive base"
    and "\<not> header_ok (super_at media drive base) \<or>
      (\<exists>w. ident drive = Some w \<and> unat base + 1 + n_sectors (unat (payload_bytes (super_at media drive base))) \<le> unat (ident_sectors w)) \<and>
      checksum (take (unat (payload_bytes (super_at media drive base))) (payload_at media drive base)) \<noteq> super_checksum (super_at media drive base)"
  shows "\<exists>t'. persist_mount P x False t = Some (PERSIST_ERROR, t') \<and> p_state t' = PERSIST_ERROR \<and> same_fs t t' \<and> files_ok B t' \<and>
    content view (disk t') = media"
proof -
  let ?sb = "super_at media drive base"
  from mount_start [OF assms(1,3), of x] obtain d where d: "drives_ok P view busy ident media d"
    "\<not> header_ok ?sb \<longrightarrow> persist_mount P x False t = Some (PERSIST_ERROR,
       t\<lparr>sealed := False, data_drive := drive, data_base := base, data_where := where_text base, disk := d, p_state := PERSIST_ERROR\<rparr>)"
    "header_ok ?sb \<longrightarrow> (\<forall>w. ident drive = Some w \<longrightarrow> unat base + 1 + n_sectors (unat (payload_bytes ?sb)) \<le> unat (ident_sectors w) \<longrightarrow>
       (\<exists>d'. drives_ok P view busy ident media d' \<and> persist_mount P x False t = mount_payload x ?sb (payload_at media drive base) d'
         (t\<lparr>sealed := False, data_drive := drive, data_base := base, data_where := where_text base, disk := d\<rparr>)))"
    by (auto simp: Let_def)
  let ?s1 = "t\<lparr>sealed := False, data_drive := drive, data_base := base, data_where := where_text base, disk := d\<rparr>"
  have f0: "files_ok B ?s1" using assms(2) by (subst files_ok_cong [where s = t]) simp_all
  have f1: "files_ok B (?s1\<lparr>p_state := p\<rparr>)" for p using assms(2) by (subst files_ok_cong [where s = t]) simp_all
  show ?thesis
  proof (cases "header_ok ?sb")
    case False
    then show ?thesis using d(1,2) f1 [of PERSIST_ERROR] by (simp add: same_fs_def drives_ok_def)
  next
    case True
    with assms(4) obtain w where w: "ident drive = Some w" "unat base + 1 + n_sectors (unat (payload_bytes ?sb)) \<le> unat (ident_sectors w)"
      "checksum (take (unat (payload_bytes ?sb)) (payload_at media drive base)) \<noteq> super_checksum ?sb" by blast
    from d(3) True w(1,2) obtain d' where d': "drives_ok P view busy ident media d'"
      "persist_mount P x False t = mount_payload x ?sb (payload_at media drive base) d' ?s1" by blast
    have b: "payload_bytes ?sb \<noteq> 0" "payload_bytes ?sb \<le> MAX_PAYLOAD" using True by (simp_all add: header_ok_def)
    have "unat (sectors_for (payload_bytes ?sb)) \<le> 2048"
      using sectors_for_payload [OF b] n_sectors_bounds [of "unat (payload_bytes ?sb)"] by simp
    then have "unat (sectors_for (payload_bytes ?sb) * ATA_SECTOR_SIZE) + 7 < 4294967296"
      using unat_mult_lem [of "sectors_for (payload_bytes ?sb)" ATA_SECTOR_SIZE] by (simp add: ATA_SECTOR_SIZE_def)
    from kmalloc_files [OF f0 this] obtain bf s2 where
      k: "kmalloc (sectors_for (payload_bytes ?sb) * ATA_SECTOR_SIZE) ?s1 = Some (bf, s2)" "mem_frame ?s1 s2"
        "if bf = NULL then s2 = ?s1 else \<exists>k. B bf = None \<and> files_ok (B(bf \<mapsto> k)) s2" by auto
    show ?thesis
    proof (cases "bf = NULL")
      case True
      then show ?thesis using d'(2) k(1,3) d(1) f1 [of PERSIST_ERROR] by (simp add: mount_payload_def same_fs_def drives_ok_def)
    next
      case False
      with k(3) obtain kk where fk: "B bf = None" "files_ok (B(bf \<mapsto> kk)) s2" by auto
      have "files_ok (B(bf \<mapsto> kk)) (s2\<lparr>disk := d'\<rparr>)" using fk(2) by (subst files_ok_cong [where s = s2]) simp_all
      from release_files [OF this fk(1)] obtain s3 where h: "heap_release bf (s2\<lparr>disk := d'\<rparr>) = Some s3" "mem_frame (s2\<lparr>disk := d'\<rparr>) s3"
        "files_ok B s3" by blast
      have "persist_mount P x False t = Some (PERSIST_ERROR, s3\<lparr>p_state := PERSIST_ERROR\<rparr>)"
        using d'(2) k(1) False w(3) h(1) by (simp add: mount_payload_def)
      moreover have "same_fs t (s3\<lparr>p_state := PERSIST_ERROR\<rparr>)"
        using mem_frame_same [OF k(2)] mem_frame_same [OF h(2)] by (simp add: same_fs_def)
      moreover have "files_ok B (s3\<lparr>p_state := PERSIST_ERROR\<rparr>)" using h(3) by (subst files_ok_cong [where s = s3]) simp_all
      moreover have "disk s3 = d'" using h(2) by (auto simp: mem_frame_def)
      ultimately show ?thesis using d'(1) by (simp add: drives_ok_def)
    qed
  qed
qed

text \<open>A slave whose first sector holds a superblock of a version of the future.\<close>

definition strange_super :: super_t where
  "strange_super = \<lparr>magic = MAGIC, version = 7, payload_bytes = 100, super_nodes = 0, super_users = 0, super_checksum = 0, super_saves = 1\<rparr>"

definition strange_disk :: "ata_view ata" where
  "strange_disk = \<lparr>hw = demo_view\<lparr>v_media := (\<lambda>drive lba. if drive = 1 \<and> lba = 0 then words_of (super_bytes strange_super) else replicate 256 0)\<rparr>,
     drives = []\<rparr>"

theorem damaged_snapshot_refused_witness:
  "\<exists>(t :: ata_view persist) t'. disk t = strange_disk \<and> persist_mount demo_ports NUL False t = Some (PERSIST_ERROR, t') \<and> same_fs t t'"
proof -
  obtain A s where s: "persist_ok demo_ports sane (\<lambda>_. 0) A s" using demo_state by blast
  define t where "t = s\<lparr>disk := strange_disk\<rparr>"
  let ?id = "\<lambda>i. if i \<le> 1 then Some demo_ident else None"
  let ?media = "\<lambda>drive lba. if drive = 1 \<and> lba = 0 then words_of (super_bytes strange_super) else replicate 256 0"
  have m: "length (magic strange_super) = 8" by (simp add: strange_super_def)
  have w: "length (words_of (super_bytes strange_super)) = 256" using super_length [OF m] by (simp add: words_length)
  have vo: "view_ok (hw strange_disk)" using demo_start(1) w by (simp add: view_ok_def strange_disk_def demo_view_def)
  have r: "rebooted demo_ports sane (\<lambda>_. 0) ?id ?media t"
    using demo_healthy vo by (simp add: rebooted_def t_def) (simp add: strange_disk_def at_rest_def demo_view_def)
  have f: "files_ok A t" using s unfolding t_def by (subst files_ok_cong [where s = s]) (simp_all add: persist_ok_def)
  have sa: "super_at ?media 1 0 = strange_super"
    using super_roundtrip [OF m] super_length [OF m] by (simp add: super_at_def bytes_words)
  have "has_super ?id ?media 1 0" using sa demo_size by (simp add: has_super_def super_at_def) (simp add: strange_super_def)
  then have l: "located ?id ?media 1 0" by (simp add: located_def ATA_SLAVE_def)
  have "\<not> header_ok (super_at ?media 1 0)" unfolding sa by (simp add: header_ok_def strange_super_def PERSIST_VERSION_def)
  then have "\<not> header_ok (super_at ?media 1 0) \<or> (\<exists>w. ?id 1 = Some w \<and>
      unat (0 :: u32) + 1 + n_sectors (unat (payload_bytes (super_at ?media 1 0))) \<le> unat (ident_sectors w)) \<and>
      checksum (take (unat (payload_bytes (super_at ?media 1 0))) (payload_at ?media 1 0)) \<noteq> super_checksum (super_at ?media 1 0)" by blast
  from damaged_snapshot_refused [OF r f l this, of NUL] obtain t' where
    "persist_mount demo_ports NUL False t = Some (PERSIST_ERROR, t')" "same_fs t t'" by blast
  moreover have "disk t = strange_disk" by (simp add: t_def)
  ultimately show ?thesis by blast
qed

text \<open>Property C32: after \<open>persist_format\<close> has succeeded nothing reaches the disk until the next boot, whatever
  the system does and however often it saves, flushes or formats: \<open>persist_save\<close> refuses, the
  superblock stays blank and every other sector stays as it was; and the next mount restores
  nothing, provided the other place a snapshot can be at is blank as well.\<close>

theorem format_lasts:
  assumes "ata_ok P view busy (disk s)" "placed view s" "p_state s \<noteq> PERSIST_NO_DISK"
    and "unat (data_base s) < unat (ata_sector_count (data_drive s) (disk s))"
  shows "\<exists>s1. persist_format P s = Some (0, s1) \<and> (\<forall>s2. (session_step P)\<^sup>*\<^sup>* s1 s2 \<longrightarrow>
    persist_save P s2 = Some (-5, s2) \<and>
    content view (disk s2) = (content view (disk s))(data_drive s := (content view (disk s) (data_drive s))(unat (data_base s) := replicate 256 0)) \<and>
    (\<forall>x t. rebooted P view busy (idents view (disk s2)) (content view (disk s2)) t \<longrightarrow>
      (if data_drive s = ATA_SLAVE then magic (super_of (bytes_of (content view (disk s) ATA_MASTER (unat INSTALL_DATA_LBA)))) \<noteq> MAGIC
       else magic (super_of (bytes_of (content view (disk s) ATA_SLAVE 0))) \<noteq> MAGIC) \<longrightarrow>
      (\<exists>st t'. persist_mount P x False t = Some (st, t') \<and> st \<in> {PERSIST_NO_DISK, PERSIST_EMPTY} \<and> same_fs t t')))"
proof -
  let ?m = "content view (disk s)"
  let ?media = "?m(data_drive s := (?m (data_drive s))(unat (data_base s) := replicate 256 0))"
  have pr: "ata_present (data_drive s) (disk s)" using assms(2) by (simp add: placed_def)
  from format_writes [OF assms(1) pr assms(3,4)] obtain s1 where
    s1: "persist_format P s = Some (0, s1)" "wiped P view busy (data_drive s) (data_base s) (idents view (disk s)) ?media s1" by blast
  have later: "persist_save P s2 = Some (-5, s2) \<and> content view (disk s2) = ?media" if "(session_step P)\<^sup>*\<^sup>* s1 s2" for s2
    using wiped_steps [OF that s1(2)] by (simp add: wiped_def persist_save_def)
  have "no_snapshot ?media" if "if data_drive s = ATA_SLAVE then magic (super_of (bytes_of (?m ATA_MASTER (unat INSTALL_DATA_LBA)))) \<noteq> MAGIC
       else magic (super_of (bytes_of (?m ATA_SLAVE 0))) \<noteq> MAGIC"
  proof -
    consider "data_drive s = 1" "data_base s = 0" | "data_drive s = 0" "data_base s = INSTALL_DATA_LBA"
      using assms(2) by (auto simp: placed_def ATA_SLAVE_def ATA_MASTER_def)
    then show ?thesis
    proof cases
      case 1
      with that show ?thesis using blank_no_magic by (simp add: no_snapshot_def ATA_SLAVE_def ATA_MASTER_def)
    next
      case 2
      with that show ?thesis using blank_no_magic by (simp add: no_snapshot_def ATA_SLAVE_def ATA_MASTER_def)
    qed
  qed
  note blank = this
  show ?thesis
  proof (intro exI [of _ s1] conjI allI impI)
    show "persist_format P s = Some (0, s1)" by (rule s1(1))
  next
    fix s2 assume "(session_step P)\<^sup>*\<^sup>* s1 s2"
    with later show "persist_save P s2 = Some (-5, s2)" "content view (disk s2) = ?media" by blast+
  next
    fix s2 x t assume st: "(session_step P)\<^sup>*\<^sup>* s1 s2" and r: "rebooted P view busy (idents view (disk s2)) (content view (disk s2)) t"
      and other: "if data_drive s = ATA_SLAVE then magic (super_of (bytes_of (?m ATA_MASTER (unat INSTALL_DATA_LBA)))) \<noteq> MAGIC
       else magic (super_of (bytes_of (?m ATA_SLAVE 0))) \<noteq> MAGIC"
    have "no_snapshot (content view (disk s2))" using later [OF st] blank [OF other] by simp
    from mount_blank [OF r this]
    show "\<exists>st t'. persist_mount P x False t = Some (st, t') \<and> st \<in> {PERSIST_NO_DISK, PERSIST_EMPTY} \<and> same_fs t t'" by blast
  qed
qed

theorem format_lasts_witness:
  "\<exists>(s :: ata_view persist) s1. persist_format demo_ports s = Some (0, s1) \<and> persist_save demo_ports (persist_mark_dirty s1) = Some (-5, persist_mark_dirty s1) \<and>
     content sane (disk (persist_mark_dirty s1)) 1 0 = replicate 256 0"
proof -
  have d: "disk demo_machine = demo_ata" "data_drive demo_machine = 1" "data_base demo_machine = 0" "p_state demo_machine = PERSIST_EMPTY"
    by (simp_all add: demo_machine_def machine_def ATA_SLAVE_def)
  have "ata_ok demo_ports sane (\<lambda>_. 0) (disk demo_machine)" "placed sane demo_machine" "p_state demo_machine \<noteq> PERSIST_NO_DISK"
    "unat (data_base demo_machine) < unat (ata_sector_count (data_drive demo_machine) (disk demo_machine))"
    using demo_ata_ok by (simp_all add: d placed_def ATA_SLAVE_def)
  from format_lasts [OF this] obtain s1 where s1: "persist_format demo_ports demo_machine = Some (0, s1)"
    "\<And>s2. (session_step demo_ports)\<^sup>*\<^sup>* s1 s2 \<Longrightarrow> persist_save demo_ports s2 = Some (-5, s2) \<and> content sane (disk s2) 1 0 = replicate 256 0"
    by (auto simp: d)
  have "(session_step demo_ports)\<^sup>*\<^sup>* s1 (persist_mark_dirty s1)" by (blast intro: step_mark)
  from s1(2) [OF this] s1(1) show ?thesis by blast
qed

end
