(* ===== verification/Machine.thy ===== *)
theory Machine
  imports Persist_Props Console Rtc Board
begin

text \<open>
  The machine as the programs of the kernel see it (the shell, the installer, the boot): the snapshot
  layer with the filesystem, the accounts and the disks below it, the scheduler, the screen, the line
  editor with the keys still to come, the mouse, and what the installer keeps of the kernel image (its
  copy, unless there was no memory for it, and its length) and the flag the loader left.  Output goes to the screen through the formatter
  and the VGA driver.
\<close>

section \<open>State\<close>

record 'd machine =
  sys :: "'d persist"
  sch :: sched
  display :: vga
  con :: console
  keystrokes :: "int list"
  rodent :: mouse
  session_open :: bool
  boot_flag :: u32
  image_copy :: "string option"
  image_bytes :: u32

text \<open>
  What a program meets from outside while it runs: the build stamp, the byte left on the stack for
  \<open>fs_create\<close>, the time and the stack pointer at a call of the scheduler, the addresses of the entry
  points, and what becomes of the scheduler while the others run until the program is resumed.
\<close>

record around =
  stamp :: string
  residue :: char
  now :: u64
  esp_now :: u32
  bootstrap_at :: u32
  worker_at :: u32
  ticker_at :: u32
  session_at :: u32
  meanwhile :: "sched \<Rightarrow> sched"

definition VGA_BLUE :: u8 where "VGA_BLUE = 1"
definition VGA_RED :: u8 where "VGA_RED = 4"
definition VGA_DARK_GREY :: u8 where "VGA_DARK_GREY = 8"
definition VGA_LIGHT_BLUE :: u8 where "VGA_LIGHT_BLUE = 9"
definition VGA_LIGHT_GREEN :: u8 where "VGA_LIGHT_GREEN = 10"
definition VGA_LIGHT_CYAN :: u8 where "VGA_LIGHT_CYAN = 11"
definition VGA_LIGHT_RED :: u8 where "VGA_LIGHT_RED = 12"
definition VGA_YELLOW :: u8 where "VGA_YELLOW = 14"
definition VGA_WHITE :: u8 where "VGA_WHITE = 15"

definition LOS_VERSION :: string where "LOS_VERSION = ''1.0.0.0''"
definition LOS_URL :: string where "LOS_URL = ''https://github.com/gggoshaa/LightningOS''"
definition PASSWORD_MAX :: nat where "PASSWORD_MAX = 64"

section \<open>Output and input\<close>

definition put_text :: "string \<Rightarrow> vga \<Rightarrow> vga" where
  "put_text s = vga_write (map of_char s)"

definition say :: "string \<Rightarrow> 'd machine \<Rightarrow> 'd machine" where
  "say s m = m\<lparr>display := put_text s (display m)\<rparr>"

definition colour :: "u8 \<Rightarrow> 'd machine \<Rightarrow> 'd machine" where
  "colour fg m = m\<lparr>display := vga_set_color fg VGA_BLACK (display m)\<rparr>"

definition wipe :: "'d machine \<Rightarrow> 'd machine" where
  "wipe m = m\<lparr>display := vga_clear (display m)\<rparr>"

definition print :: "string \<Rightarrow> vararg list \<Rightarrow> 'd machine \<Rightarrow> 'd machine option" where
  "print fmt args m = do { s \<leftarrow> kprintf fmt args; Some (say s m) }"

definition read_line ::
  "nat \<Rightarrow> console_echo_t \<Rightarrow> bool \<Rightarrow> (vga \<Rightarrow> vga) option \<Rightarrow> 'd machine \<Rightarrow> (bool \<times> string \<times> 'd machine) option" where
  "read_line sz echo use_history prompt m = do {
     (ok, line, v, ks) \<leftarrow> console_read_line sz echo use_history prompt (keystrokes m) (con m) (display m);
     Some (ok, line, m\<lparr>display := v, keystrokes := ks\<rparr>)
   }"

section \<open>Calls into the other parts\<close>

definition on_sys :: "('d persist \<Rightarrow> ('a \<times> 'd persist) option) \<Rightarrow> 'd machine \<Rightarrow> ('a \<times> 'd machine) option" where
  "on_sys f m = do { (r, s) \<leftarrow> f (sys m); Some (r, m\<lparr>sys := s\<rparr>) }"

definition mark_dirty :: "'d machine \<Rightarrow> 'd machine" where
  "mark_dirty m = m\<lparr>sys := persist_mark_dirty (sys m)\<rparr>"

definition on_ports :: "('d \<Rightarrow> 'd) \<Rightarrow> 'd machine \<Rightarrow> 'd machine" where
  "on_ports f m = m\<lparr>sys := (sys m)\<lparr>disk := (disk (sys m))\<lparr>hw := f (hw (disk (sys m)))\<rparr>\<rparr>\<rparr>"

definition users_current :: "'d machine \<Rightarrow> user option" where
  "users_current m = map_option (\<lambda>i. users (sys m) ! i) (logged_in (sys m))"

definition BOOT_FLAG_CD :: u32 where "BOOT_FLAG_CD = 0x4F534943"

definition install_booted_from_medium :: "'d machine \<Rightarrow> bool" where
  "install_booted_from_medium m \<longleftrightarrow> boot_flag m = BOOT_FLAG_CD"

definition install_image_sectors :: "'d machine \<Rightarrow> u32" where
  "install_image_sectors m = (image_bytes m + ATA_SECTOR_SIZE - 1) div ATA_SECTOR_SIZE"

text \<open>\<open>sleep_ms\<close> and \<open>task_yield\<close>, up to where the program runs again.\<close>

definition pause :: "around \<Rightarrow> u32 \<Rightarrow> 'd machine \<Rightarrow> 'd machine option" where
  "pause G ms m =
     (if task_running (sch m)
      then do { (e, t) \<leftarrow> task_sleep_ms ms (now G) (now G) (esp_now G) (sch m); Some (m\<lparr>sch := meanwhile G t\<rparr>) }
      else Some m)"

definition give_way :: "around \<Rightarrow> 'd machine \<Rightarrow> 'd machine option" where
  "give_way G m = do { (e, t) \<leftarrow> task_yield (now G) (esp_now G) (sch m); Some (m\<lparr>sch := meanwhile G t\<rparr>) }"

definition str :: "string \<Rightarrow> vararg" where "str s = VStr (Some s)"

section \<open>Leaving for good\<close>

text \<open>\<open>Off\<close>: the machine restarts, is switched off or halts, or the program never runs again.\<close>

datatype 'm outcome = Back 'm | Off 'm

text \<open>The loop of \<open>machine_reboot\<close> that drains the keyboard controller.\<close>

partial_function (option) drain_8042 :: "'d ports \<Rightarrow> 'd \<Rightarrow> 'd option" where
  "drain_8042 P d =
     (let (status, d) = inb P 0x64 d;
          d = (if status AND 0x01 \<noteq> 0 then snd (inb P 0x60 d) else d)
      in if status AND 0x02 \<noteq> 0 then drain_8042 P d else Some d)"

declare drain_8042.simps [code]

text \<open>After the pulse on the reset line the processor only halts.\<close>

definition pulse_reset :: "'d ports \<Rightarrow> 'd machine \<Rightarrow> 'd machine outcome option" where
  "pulse_reset P m = do {
     d \<leftarrow> drain_8042 P (hw (disk (sys m)));
     Some (Off (on_ports (\<lambda>_. outb P 0x64 0xFE d) m))
   }"

end
