(* ===== verification/Shell_Files.thy ===== *)
theory Shell_Files
  imports Machine
begin

text \<open>
  The file commands of \<open>kernel/shell.c\<close>, the prompt and the permission checks.  \<open>None\<close> is undefined
  behaviour of a part below; \<open>G\<close> is what the shell meets from outside.
\<close>

section \<open>Helpers\<close>

definition current_path :: "'a fs_state_scheme \<Rightarrow> string option" where
  "current_path s = do {
     p \<leftarrow> fs_abspath (current_dir s) [] FS_PATH_MAX s;
     Some (if p = [] then ''/'' else p)
   }"

definition display_path :: "'d machine \<Rightarrow> string option" where
  "display_path m = do {
     path \<leftarrow> current_path (sys m);
     (case users_current m of
        Some u \<Rightarrow> if inside (u_home u) path
                  then ksnprintf FS_PATH_MAX ''~%s'' [str (drop (length (u_home u)) path)]
                  else Some (take (FS_PATH_MAX - 1) path)
      | None \<Rightarrow> Some (take (FS_PATH_MAX - 1) path))
   }"

text \<open>The prompt as what it does to the screen, which is what the line editor calls after Ctrl-L.\<close>

definition print_prompt :: "'d machine \<Rightarrow> (vga \<Rightarrow> vga) option" where
  "print_prompt m = do {
     shown \<leftarrow> display_path m;
     let root = users_is_root (sys m);
     who \<leftarrow> kprintf ''%s@lightning'' [str (case users_current m of Some u \<Rightarrow> u_name u | None \<Rightarrow> ''nobody'')];
     path \<leftarrow> kprintf ''%s'' [str shown];
     mark \<leftarrow> kprintf ''%s '' [str (if root then ''#'' else ''$'')];
     Some (put_text mark \<circ> vga_set_color VGA_LIGHT_GREY VGA_BLACK \<circ> put_text path \<circ> vga_set_color VGA_LIGHT_BLUE VGA_BLACK \<circ>
           put_text '':'' \<circ> vga_set_color VGA_LIGHT_GREY VGA_BLACK \<circ> put_text who \<circ>
           vga_set_color (if root then VGA_LIGHT_RED else VGA_LIGHT_GREEN) VGA_BLACK)
   }"

definition print_error :: "string \<Rightarrow> string \<Rightarrow> 'd machine \<Rightarrow> 'd machine option" where
  "print_error command message m = do {
     m \<leftarrow> print (''%s: %s'' @ [LF]) [str command, str message] (colour VGA_LIGHT_RED m);
     Some (colour VGA_LIGHT_GREY m)
   }"

definition human_size :: "u64 \<Rightarrow> string option" where
  "human_size bytes =
     (if bytes \<ge> 1024 * 1024 then ksnprintf 24 ''%u MiB'' [VInt (ucast (drop_bit 20 bytes))]
      else if bytes \<ge> 1024 then ksnprintf 24 ''%u KiB'' [VInt (ucast (drop_bit 10 bytes))]
      else ksnprintf 24 ''%u B'' [VInt (ucast bytes)])"

text \<open>The part of a path before its last slash, and the part after it.\<close>

definition split_last :: "string \<Rightarrow> (string \<times> string) option" where
  "split_last path =
     (case dropWhile not_slash (rev path) of [] \<Rightarrow> None | _ # front \<Rightarrow> Some (rev front, rev (takeWhile not_slash (rev path))))"

definition parent_and_name :: "string \<Rightarrow> 'a fs_state_scheme \<Rightarrow> (ptr \<times> string) option" where
  "parent_and_name path s =
     (case split_last path of
        Some (dir, name) \<Rightarrow> do { p \<leftarrow> fs_resolve (if dir = [] then ''/'' else dir) s; Some (p, name) }
      | None \<Rightarrow> Some (current_dir s, path))"

text \<open>The inner \<open>None\<close>: there is no such path, \<open>false\<close> in the code.\<close>

definition target_abspath :: "string \<Rightarrow> 'a fs_state_scheme \<Rightarrow> string option option" where
  "target_abspath path s = do {
     node \<leftarrow> fs_resolve path s;
     if node \<noteq> NULL
     then do { p \<leftarrow> fs_abspath node [] FS_PATH_MAX s; Some (Some (if p = [] then ''/'' else p)) }
     else do {
       (parent, name) \<leftarrow> parent_and_name (take (FS_PATH_MAX - 1) path) s;
       if parent = NULL then Some None
       else do {
         n \<leftarrow> nodes s parent;
         if n_type n \<noteq> FS_DIR \<or> name = [] then Some None
         else do {
           p \<leftarrow> fs_abspath parent [] FS_PATH_MAX s;
           let p = (if p = [] then ''/'' else p);
           out \<leftarrow> ksnprintf FS_PATH_MAX ''%s%s%s'' [str p, str (if p = ''/'' then [] else ''/''), str name];
           Some (Some out)
         }
       }
     }
   }"

definition may_write :: "string \<Rightarrow> string \<Rightarrow> 'd machine \<Rightarrow> (bool \<times> 'd machine) option" where
  "may_write command path m = do {
     abspath \<leftarrow> target_abspath path (sys m);
     (case abspath of
        None \<Rightarrow> do { m \<leftarrow> print_error command ''no such file or directory'' m; Some (False, m) }
      | Some a \<Rightarrow>
          if users_may_write a (sys m) then Some (True, m)
          else do { m \<leftarrow> print_error command ''permission denied'' m; Some (False, m) })
   }"

definition require_root :: "string \<Rightarrow> 'd machine \<Rightarrow> (bool \<times> 'd machine) option" where
  "require_root command m =
     (if users_is_root (sys m) then Some (True, m)
      else do { m \<leftarrow> print_error command ''only root may do that'' m; Some (False, m) })"

text \<open>A value past the range of \<open>int\<close> is undefined in C.\<close>

fun parse_digits :: "string \<Rightarrow> int \<Rightarrow> int option" where
  "parse_digits [] value = Some value"
| "parse_digits (c # s) value =
     (if is_digit c
      then let value = value * 10 + (of_char c - 48) in if value < 2 ^ 31 then parse_digits s value else None
      else Some value)"

definition parse_int :: "string \<Rightarrow> int option" where
  "parse_int s = parse_digits s 0"

section \<open>Looking around\<close>

text \<open>\<open>argv\<close> are the words of the line, the name of the command among them.\<close>

definition path_arg :: "string list \<Rightarrow> 'a fs_state_scheme \<Rightarrow> ptr option" where
  "path_arg argv s = (if length argv > 1 then fs_resolve (argv ! 1) s else Some (current_dir s))"

partial_function (option) ls_children :: "ptr \<Rightarrow> int \<Rightarrow> int \<Rightarrow> 'd machine \<Rightarrow> (int \<times> int \<times> 'd machine) option" where
  "ls_children child files dirs m =
     (if child = NULL then Some (files, dirs, m)
      else do {
        n \<leftarrow> nodes (sys m) child;
        if n_type n = FS_DIR
        then do {
          m \<leftarrow> print (''drwxr-xr-x  %6s  %s/'' @ [LF]) [str ''-'', str (n_name n)] (colour VGA_LIGHT_BLUE m);
          ls_children (n_next n) files (dirs + 1) m
        }
        else do {
          m \<leftarrow> print (''-rw-r--r--  %6u  %s'' @ [LF]) [VInt (n_size n), str (n_name n)] (colour VGA_LIGHT_GREY m);
          ls_children (n_next n) (files + 1) dirs m
        }
      })"

declare ls_children.simps [code]

definition cmd_ls :: "string list \<Rightarrow> 'd machine \<Rightarrow> 'd machine option" where
  "cmd_ls argv m = do {
     dir \<leftarrow> path_arg argv (sys m);
     if dir = NULL then print_error ''ls'' ''no such file or directory'' m
     else do {
       n \<leftarrow> nodes (sys m) dir;
       if n_type n = FS_FILE then print (''%s'' @ [LF]) [str (n_name n)] m
       else do {
         (files, dirs, m) \<leftarrow> ls_children (n_children n) 0 0 m;
         m \<leftarrow> print (''%d directories, %d files'' @ [LF]) [VInt (of_int dirs), VInt (of_int files)] (colour VGA_DARK_GREY m);
         Some (colour VGA_LIGHT_GREY m)
       }
     }
   }"

text \<open>The loop of \<open>tree_walk\<close>, with the recursive call written out.\<close>

partial_function (option) tree_siblings :: "ptr \<Rightarrow> nat \<Rightarrow> 'd machine \<Rightarrow> 'd machine option" where
  "tree_siblings child depth m =
     (if child = NULL then Some m
      else do {
        n \<leftarrow> nodes (sys m) child;
        let m = (say ''  '' ^^ depth) m;
        m \<leftarrow> (if n_type n = FS_DIR
              then do {
                m \<leftarrow> print (''+- %s/'' @ [LF]) [str (n_name n)] (colour VGA_LIGHT_BLUE m);
                tree_siblings (n_children n) (depth + 1) (colour VGA_LIGHT_GREY m)
              }
              else print (''+- %s'' @ [LF]) [str (n_name n)] m);
        tree_siblings (n_next n) depth m
      })"

declare tree_siblings.simps [code]

definition tree_walk :: "ptr \<Rightarrow> nat \<Rightarrow> 'd machine \<Rightarrow> 'd machine option" where
  "tree_walk dir depth m = do { n \<leftarrow> nodes (sys m) dir; tree_siblings (n_children n) depth m }"

definition cmd_tree :: "string list \<Rightarrow> 'd machine \<Rightarrow> 'd machine option" where
  "cmd_tree argv m = do {
     dir \<leftarrow> path_arg argv (sys m);
     ok \<leftarrow> (if dir = NULL then Some False else do { n \<leftarrow> nodes (sys m) dir; Some (n_type n = FS_DIR) });
     if \<not> ok then print_error ''tree'' ''not a directory'' m
     else do {
       m \<leftarrow> tree_walk dir 0 (say (''.'' @ [LF]) m);
       print ([LF] @ ''%d nodes in the filesystem'' @ [LF]) [VInt (of_int (fs_count_nodes (sys m)))] m
     }
   }"

definition set_cwd :: "ptr \<Rightarrow> 'd machine \<Rightarrow> 'd machine option" where
  "set_cwd dir m = do { s \<leftarrow> fs_set_cwd dir (sys m); Some (m\<lparr>sys := s\<rparr>) }"

definition cmd_cd :: "string list \<Rightarrow> 'd machine \<Rightarrow> 'd machine option" where
  "cmd_cd argv m =
     (if length argv < 2
      then do {
        dir \<leftarrow> (case users_current m of Some u \<Rightarrow> fs_resolve (u_home u) (sys m) | None \<Rightarrow> Some (root_node (sys m)));
        set_cwd (if dir \<noteq> NULL then dir else root_node (sys m)) m
      }
      else do {
        dir \<leftarrow> fs_resolve (argv ! 1) (sys m);
        if dir = NULL then print_error ''cd'' ''no such file or directory'' m
        else do {
          n \<leftarrow> nodes (sys m) dir;
          if n_type n \<noteq> FS_DIR then print_error ''cd'' ''not a directory'' m
          else set_cwd dir m
        }
      })"

text \<open>The C string at the start of a buffer, and one of its bytes.\<close>

definition buf_text :: "ptr \<Rightarrow> 'a fs_state_scheme \<Rightarrow> string option" where
  "buf_text b s = do { (cap, c) \<leftarrow> bufs s b; if NUL \<in> set c then Some (c_string c) else None }"

definition buf_char :: "ptr \<Rightarrow> nat \<Rightarrow> 'a fs_state_scheme \<Rightarrow> char option" where
  "buf_char b i s = do { (cap, c) \<leftarrow> bufs s b; if i < length c then Some (c ! i) else None }"

definition cmd_cat :: "string list \<Rightarrow> 'd machine \<Rightarrow> 'd machine option" where
  "cmd_cat argv m =
     (if length argv < 2 then print_error ''cat'' ''usage: cat <file>'' m
      else do {
        file \<leftarrow> fs_resolve (argv ! 1) (sys m);
        if file = NULL then print_error ''cat'' ''no such file or directory'' m
        else do {
          n \<leftarrow> nodes (sys m) file;
          if n_type n \<noteq> FS_FILE then print_error ''cat'' ''is a directory'' m
          else do {
            m \<leftarrow> (if n_data n \<noteq> NULL then do { t \<leftarrow> buf_text (n_data n) (sys m); Some (say t m) } else Some m);
            last_one \<leftarrow> (if n_size n \<noteq> 0 then buf_char (n_data n) (unat (n_size n - 1)) (sys m) else Some LF);
            Some (if last_one \<noteq> LF then say [LF] m else m)
          }
        }
      })"

section \<open>Changing the tree\<close>

definition rtrim :: "string \<Rightarrow> string" where
  "rtrim s = rev (dropWhile (\<lambda>c. c = CHR '' '') (rev s))"

text \<open>The line before a redirection, whether it appends, and its target; \<open>None\<close> without one.\<close>

definition redirection :: "string \<Rightarrow> (string \<times> bool \<times> string) option" where
  "redirection args =
     (case dropWhile (\<lambda>c. c \<noteq> CHR ''>'') args of
        [] \<Rightarrow> None
      | _ # rest \<Rightarrow>
          let app = (rest \<noteq> [] \<and> hd rest = CHR ''>'');
              target = (if app then tl rest else rest)
          in Some (rtrim (takeWhile (\<lambda>c. c \<noteq> CHR ''>'') args), app, rtrim (dropWhile (\<lambda>c. c = CHR '' '') target)))"

definition cmd_echo :: "around \<Rightarrow> string \<Rightarrow> 'd machine \<Rightarrow> 'd machine option" where
  "cmd_echo G args m =
     (case redirection args of
        None \<Rightarrow> print (''%s'' @ [LF]) [str args] m
      | Some (args, app, target) \<Rightarrow>
          if target = [] then print_error ''echo'' ''missing redirection target'' m
          else do {
            (ok, m) \<leftarrow> may_write ''echo'' target m;
            if \<not> ok then Some m
            else do {
              file \<leftarrow> fs_resolve target (sys m);
              (file, m) \<leftarrow> (if file = NULL then on_sys (fs_create (residue G) target FS_FILE) m else Some (file, m));
              if file = NULL then print_error ''echo'' ''cannot create file'' m
              else do {
                n \<leftarrow> nodes (sys m) file;
                if n_type n \<noteq> FS_FILE then print_error ''echo'' ''is a directory'' m
                else do {
                  buffer \<leftarrow> ksnprintf (LINE_MAX + 2) (''%s'' @ [LF]) [str args];
                  (rc, m) \<leftarrow> on_sys (fs_write file buffer app) m;
                  if rc \<noteq> 0 then print_error ''echo'' ''write failed'' m else Some (mark_dirty m)
                }
              }
            }
          })"

definition cmd_mkdir :: "around \<Rightarrow> string list \<Rightarrow> 'd machine \<Rightarrow> 'd machine option" where
  "cmd_mkdir G argv m =
     (if length argv < 2 then print_error ''mkdir'' ''usage: mkdir <directory>'' m
      else do {
        (ok, m) \<leftarrow> may_write ''mkdir'' (argv ! 1) m;
        if \<not> ok then Some m
        else do {
          (p, m) \<leftarrow> on_sys (fs_create (residue G) (argv ! 1) FS_DIR) m;
          if p \<noteq> NULL then Some (mark_dirty m) else print_error ''mkdir'' ''cannot create directory'' m
        }
      })"

definition cmd_touch :: "around \<Rightarrow> string list \<Rightarrow> 'd machine \<Rightarrow> 'd machine option" where
  "cmd_touch G argv m =
     (if length argv < 2 then print_error ''touch'' ''usage: touch <file>'' m
      else do {
        p \<leftarrow> fs_resolve (argv ! 1) (sys m);
        if p \<noteq> NULL then Some m
        else do {
          (ok, m) \<leftarrow> may_write ''touch'' (argv ! 1) m;
          if \<not> ok then Some m
          else do {
            (p, m) \<leftarrow> on_sys (fs_create (residue G) (argv ! 1) FS_FILE) m;
            if p \<noteq> NULL then Some (mark_dirty m) else print_error ''touch'' ''cannot create file'' m
          }
        }
      })"

definition cmd_rm :: "string list \<Rightarrow> 'd machine \<Rightarrow> 'd machine option" where
  "cmd_rm argv m =
     (if length argv < 2 then print_error ''rm'' ''usage: rm <path>'' m
      else do {
        (ok, m) \<leftarrow> may_write ''rm'' (argv ! 1) m;
        if \<not> ok then Some m
        else do {
          (result, m) \<leftarrow> on_sys (fs_remove (argv ! 1)) m;
          if result = 0 then Some (mark_dirty m)
          else if result = -2 then print_error ''rm'' ''cannot remove the current directory'' m
          else print_error ''rm'' ''no such file or directory'' m
        }
      })"

end
