(* ===== verification/Install.thy ===== *)
theory Install
  imports Shell_Files
begin

text \<open>
  The installer of \<open>kernel/install.c\<close>: the copy of the kernel image taken at boot, what it writes onto
  the disk, and its menu.  \<open>boot_sector\<close> is the boot sector that the build bakes into the kernel,
  \<open>img\<close> the bytes of the kernel between the two symbols of the linker script.
\<close>

section \<open>The image and the target\<close>

definition INSTALL_KERNEL_LBA :: u32 where "INSTALL_KERNEL_LBA = 1"
definition INSTALL_KERNEL_MAX :: u32 where "INSTALL_KERNEL_MAX = 256"

definition install_capture_image :: "string \<Rightarrow> 'd machine \<Rightarrow> 'd machine option" where
  "install_capture_image img m = do {
     let bytes = (of_nat (length img) :: u32);
     (p, s) \<leftarrow> kmalloc bytes (sys m);
     Some (m\<lparr>sys := s, image_bytes := bytes, image_copy := (if p = NULL then None else Some img)\<rparr>)
   }"

definition install_find_target :: "'d ata \<Rightarrow> nat option" where
  "install_find_target d =
     (if ata_present ATA_MASTER d then Some ATA_MASTER
      else if ata_present ATA_SLAVE d then Some ATA_SLAVE else None)"

definition write_disk :: "'d ports \<Rightarrow> nat \<Rightarrow> u32 \<Rightarrow> u32 \<Rightarrow> string \<Rightarrow> 'd persist \<Rightarrow> (int \<times> 'd persist) option" where
  "write_disk P drive lba count bytes s = do {
     (rc, d) \<leftarrow> ata_write P drive lba count (words_of bytes) (disk s);
     Some (rc, s\<lparr>disk := d\<rparr>)
   }"

definition install_to_disk :: "'d ports \<Rightarrow> string \<Rightarrow> nat \<Rightarrow> 'd machine \<Rightarrow> (int \<times> 'd machine) option" where
  "install_to_disk P boot_sector drive m =
     (let secs = install_image_sectors m
      in case image_copy m of
          None \<Rightarrow> Some (-1, m)
        | Some img \<Rightarrow>
            if image_bytes m = 0 then Some (-1, m)
            else if \<not> ata_present drive (disk (sys m)) then Some (-2, m)
            else if secs > INSTALL_KERNEL_MAX then Some (-3, m)
            else if ata_sector_count drive (disk (sys m)) < INSTALL_DATA_LBA + 64 then Some (-4, m)
            else do {
              (rc, m) \<leftarrow> on_sys (write_disk P drive 0 1 boot_sector) m;
              if rc \<noteq> 0 then Some (-5, m)
              else do {
                let padded = secs * ATA_SECTOR_SIZE;
                (p, m) \<leftarrow> on_sys (kmalloc padded) m;
                if p = NULL then Some (-6, m)
                else do {
                  let bytes = img @ replicate (unat (padded - image_bytes m)) NUL;
                  (result, m) \<leftarrow> on_sys (write_disk P drive INSTALL_KERNEL_LBA secs bytes) m;
                  s \<leftarrow> heap_release p (sys m);
                  let m = m\<lparr>sys := s\<rparr>;
                  if result \<noteq> 0 then Some (-7, m)
                  else do {
                    (rc, m) \<leftarrow> on_sys (write_disk P drive INSTALL_DATA_LBA 1 (replicate 512 NUL)) m;
                    if rc \<noteq> 0 then Some (-8, m) else Some (0, m)
                  }
                }
              }
            })"

section \<open>The screens\<close>

definition header :: "'d machine \<Rightarrow> 'd machine option" where
  "header m = do {
     let m = wipe (colour VGA_LIGHT_GREY m);
     title \<leftarrow> ksnprintf (nat VGA_WIDTH + 1) ''  %s %s installer'' [str LOS_NAME, str LOS_RELEASE];
     let title = title @ replicate (nat VGA_WIDTH - length title) (CHR '' '');
     let m = say title (m\<lparr>display := vga_set_color VGA_WHITE VGA_BLUE (display m)\<rparr>);
     Some (say [LF] (colour VGA_LIGHT_GREY m))
   }"

definition describe_disk :: "nat \<Rightarrow> 'd machine \<Rightarrow> 'd machine option" where
  "describe_disk drive m =
     (let d = disk (sys m); secs = ata_sector_count drive d
      in print (''  %-14s %-22s %u sectors (%u MiB)'' @ [LF])
           [str (if drive = ATA_MASTER then ''primary master'' else ''primary slave''), str (ata_model drive d),
            VInt secs, VInt (secs div 2048)] m)"

definition wait_enter :: "'d machine \<Rightarrow> 'd machine option" where
  "wait_enter m = do { (ok, line, m) \<leftarrow> read_line 8 CONSOLE_ECHO_HIDDEN False None m; Some m }"

definition do_install :: "'d ports \<Rightarrow> string \<Rightarrow> 'd machine \<Rightarrow> 'd machine option" where
  "do_install P boot_sector m = do {
     m \<leftarrow> header m;
     (case install_find_target (disk (sys m)) of
        None \<Rightarrow>
          wait_enter (say ([LF] @ ''  Press Enter to go back.'' @ [LF])
            (say (''  Attach one to the primary IDE channel and start again.'' @ [LF])
              (colour VGA_LIGHT_GREY (say (''  No hard disk found.'' @ [LF, LF]) (colour VGA_LIGHT_RED m)))))
      | Some target \<Rightarrow> do {
          m \<leftarrow> describe_disk target (say (''  Target disk'' @ [LF, LF]) m);
          let m = say ([LF] @ ''  Will be written:'' @ [LF, LF]) m;
          m \<leftarrow> print (''    sector %-6u  boot sector (512 bytes)'' @ [LF]) [VInt (INSTALL_KERNEL_LBA - 1)] m;
          m \<leftarrow> print (''    sector %-6u  kernel, %u sectors (%u bytes)'' @ [LF])
                [VInt INSTALL_KERNEL_LBA, VInt (install_image_sectors m), VInt (image_bytes m)] m;
          m \<leftarrow> print (''    sector %-6u  data area, starts empty'' @ [LF]) [VInt INSTALL_DATA_LBA] m;
          let m = say ([LF] @ ''  Everything currently on that disk will be lost.'' @ [LF]) (colour VGA_YELLOW m);
          let m = say ([LF] @ ''  Type YES to install, anything else to cancel: '') (colour VGA_LIGHT_GREY m);
          (ok, answer, m) \<leftarrow> read_line 8 CONSOLE_ECHO_PLAIN False None m;
          if \<not> ok \<or> answer \<noteq> ''YES''
          then wait_enter (say ([LF] @ ''  Press Enter to go back.'' @ [LF]) (say ([LF] @ ''  Cancelled, nothing was written.'' @ [LF]) m))
          else do {
            (result, m) \<leftarrow> install_to_disk P boot_sector target (say ([LF] @ ''  Writing...'' @ [LF]) m);
            m \<leftarrow> (if result = 0
                  then do {
                    let m = colour VGA_LIGHT_GREY (say ([LF] @ ''  Installation complete.'' @ [LF, LF]) (colour VGA_LIGHT_GREEN m));
                    let m = say (''  Remove the install medium and reboot. The installed system'' @ [LF]) m;
                    Some (say (''  will start its own first time setup.'' @ [LF]) m)
                  }
                  else do {
                    m \<leftarrow> print ([LF] @ ''  Installation failed (code %d).'' @ [LF]) [VInt (of_int result)] (colour VGA_LIGHT_RED m);
                    let m = colour VGA_LIGHT_GREY m;
                    Some (say (if result = -3 then ''  The kernel grew past what the boot sector can load.'' @ [LF]
                               else if result = -4 then ''  The disk is too small.'' @ [LF]
                               else ''  The disk could not be written.'' @ [LF]) m)
                  });
            wait_enter (say ([LF] @ ''  Press Enter to go back to the menu.'' @ [LF]) m)
          }
        })
   }"

definition reboot_now :: "'d ports \<Rightarrow> around \<Rightarrow> 'd machine \<Rightarrow> 'd machine outcome option" where
  "reboot_now P G m = do { m \<leftarrow> pause G 500 (say ([LF] @ ''  Rebooting...'' @ [LF]) m); pulse_reset P m }"

definition menu_item :: "string \<Rightarrow> string \<Rightarrow> vararg list \<Rightarrow> 'd machine \<Rightarrow> 'd machine option" where
  "menu_item key fmt args m = print fmt args (colour VGA_LIGHT_GREY (say key (colour VGA_LIGHT_CYAN m)))"

definition show_menu :: "'d machine \<Rightarrow> 'd machine option" where
  "show_menu m = do {
     m \<leftarrow> header m;
     let m = say (''  Booted from the install medium.'' @ [LF, LF]) m;
     let d = disk (sys m);
     m \<leftarrow> (if ata_present ATA_MASTER d \<or> ata_present ATA_SLAVE d
           then do {
             let m = say (''  Disks found:'' @ [LF, LF]) m;
             m \<leftarrow> (if ata_present ATA_MASTER d then describe_disk ATA_MASTER m else Some m);
             (if ata_present ATA_SLAVE d then describe_disk ATA_SLAVE m else Some m)
           }
           else Some (colour VGA_LIGHT_GREY (say (''  No hard disk detected.'' @ [LF]) (colour VGA_YELLOW m))));
     m \<leftarrow> menu_item ''    1'' (''  Install %s onto a hard disk'' @ [LF]) [str LOS_NAME] (say [LF] m);
     m \<leftarrow> menu_item ''    2'' (''  Try it without installing (changes are lost on reboot)'' @ [LF]) [] m;
     m \<leftarrow> menu_item ''    3'' (''  Reboot'' @ [LF]) [] m;
     Some (say ([LF] @ ''  Choice: '') m)
   }"

text \<open>\<open>G\<close> is what is around at a restart from the menu.\<close>

partial_function (option) install_run_menu :: "'d ports \<Rightarrow> around \<Rightarrow> string \<Rightarrow> 'd machine \<Rightarrow> 'd machine outcome option" where
  "install_run_menu P G boot_sector m = do {
     m \<leftarrow> show_menu m;
     (ok, choice, m) \<leftarrow> read_line 8 CONSOLE_ECHO_PLAIN False None m;
     if \<not> ok then install_run_menu P G boot_sector m
     else if choice = ''1'' then do { m \<leftarrow> do_install P boot_sector m; install_run_menu P G boot_sector m }
     else if choice = ''2'' then Some (Back (wipe (colour VGA_LIGHT_GREY m)))
     else if choice = ''3'' then reboot_now P G m
     else install_run_menu P G boot_sector m
   }"

declare install_run_menu.simps [code]

end
