(* ===== verification/Shell_System.thy ===== *)
theory Shell_System
  imports Shell_Files
begin

text \<open>
  The other commands of \<open>kernel/shell.c\<close>: information, tasks, accounts and power.
\<close>

section \<open>Information\<close>

definition los_logo :: "string list" where
  "los_logo = map (map (\<lambda>c. if c = CHR ''#'' then CHR 0xDB else c))
    [''#                                                    #######  #####'',
     ''#       #  ####  #    # ##### #    # # #    #  ####  #     # #     #'',
     ''#       # #    # #    #   #   ##   # # ##   # #    # #     # #'',
     ''#       # #      ######   #   # #  # # # #  # #      #     #  #####'',
     ''#       # #  ### #    #   #   #  # # # #  # # #  ### #     #       #'',
     ''#       # #    # #    #   #   #   ## # #   ## #    # #     # #     #'',
     ''####### #  ####  #    #   #   #    # # #    #  ####  #######  #####'']"

fun print_rows :: "string list \<Rightarrow> 'd machine \<Rightarrow> 'd machine option" where
  "print_rows [] m = Some m"
| "print_rows (r # rs) m = do { m \<leftarrow> print (''  %s'' @ [LF]) [str r] m; print_rows rs m }"

definition shell_banner :: "'d machine \<Rightarrow> 'd machine option" where
  "shell_banner m = do {
     m \<leftarrow> print_rows los_logo (colour VGA_YELLOW m);
     m \<leftarrow> print (''  %s %s '' @ [CHR 0x22] @ ''%s'' @ [CHR 0x22] @ '' on %s'' @ [LF, LF])
           [str LOS_NAME, str LOS_RELEASE, str LOS_CODENAME, str LOS_ARCH] (colour VGA_DARK_GREY m);
     Some (colour VGA_LIGHT_GREY m)
   }"

definition help_general :: "(string \<times> string) list" where
  "help_general =
    [(''help'', ''show this list''),
     (''uname -a'', ''kernel name, version and build date''),
     (''version'', ''full version and build details''),
     (''banner'', ''print the logo''),
     (''clear'', ''clear the screen''),
     (''history'', ''recently entered commands''),
     (''color f b'', ''set foreground/background colour (0-15)''),
     (''free'', ''heap and RAM usage''),
     (''meminfo'', ''BIOS memory map''),
     (''lsdev'', ''drivers and their state''),
     (''df'', ''disks and snapshot usage''),
     (''sync'', ''write the filesystem to disk now''),
     (''ps'', ''running tasks and their CPU time''),
     (''spawn k s'', ''background task: worker|ticker, for s seconds''),
     (''kill pid'', ''terminate a task''),
     (''uptime'', ''time since boot''),
     (''date'', ''read the CMOS real time clock''),
     (''sleep ms'', ''busy wait on the timer'')]"

definition help_files :: "(string \<times> string) list" where
  "help_files =
    [(''ls [path]'', ''list a directory''),
     (''tree'', ''show the directory tree''),
     (''cd <dir>'', ''change the working directory''),
     (''pwd'', ''print the working directory''),
     (''cat <f>'', ''print a file''),
     (''echo ...'', ''print text, supports > and >> redirection''),
     (''mkdir <d>'', ''create a directory''),
     (''touch <f>'', ''create an empty file''),
     (''rm <path>'', ''remove a file or directory'')]"

definition help_accounts :: "(string \<times> string) list" where
  "help_accounts =
    [(''whoami'', ''print the current user''),
     (''id'', ''print uid and gid''),
     (''users'', ''list accounts''),
     (''su [user]'', ''switch user (default root)''),
     (''passwd [u]'', ''change a password''),
     (''useradd u'', ''create an account (root only)''),
     (''userdel u'', ''remove an account (root only)''),
     (''mkfs'', ''wipe the data disk and reboot (root only)''),
     (''logout'', ''end the session, back to login''),
     (''reboot'', ''restart the machine''),
     (''shutdown'', ''power the machine off'')]"

fun print_help :: "(string \<times> string) list \<Rightarrow> 'd machine \<Rightarrow> 'd machine option" where
  "print_help [] m = Some m"
| "print_help ((name, help) # hs) m = do {
     m \<leftarrow> print ''  %-11s'' [str name] (colour VGA_LIGHT_CYAN m);
     m \<leftarrow> print ('' %s'' @ [LF]) [str help] (colour VGA_LIGHT_GREY m);
     print_help hs m
   }"

definition help_section :: "string \<Rightarrow> (string \<times> string) list \<Rightarrow> 'd machine \<Rightarrow> 'd machine option" where
  "help_section title hs m = print_help hs (colour VGA_LIGHT_GREY (say ([LF] @ title @ [LF]) (colour VGA_YELLOW m)))"

definition cmd_help :: "'d machine \<Rightarrow> 'd machine option" where
  "cmd_help m = do {
     let m = say (''LightningOS shell (lsh). Built-in commands:'' @ [LF]) m;
     m \<leftarrow> help_section '' system'' help_general m;
     m \<leftarrow> help_section '' files'' help_files m;
     m \<leftarrow> help_section '' accounts and power'' help_accounts m;
     let m = colour VGA_DARK_GREY m;
     let m = say ([LF] @ '' Scroll back with the mouse wheel or PageUp/PageDown.'' @ [LF]) m;
     let m = say ('' Ctrl-L clears, Ctrl-C cancels a line, Ctrl-U erases it,'' @ [LF]) m;
     let m = say ('' arrows browse the command history.'' @ [LF]) m;
     Some (colour VGA_LIGHT_GREY m)
   }"

definition cmd_free :: "'d machine \<Rightarrow> 'd machine option" where
  "cmd_free m = do {
     ram \<leftarrow> human_size (total_usable (sys m));
     total \<leftarrow> human_size (ucast (heap_size (sys m)));
     used \<leftarrow> human_size (ucast (heap_used (sys m)));
     avail \<leftarrow> human_size (ucast (mem_heap_free (sys m)));
     m \<leftarrow> print (''Physical RAM reported by BIOS : %s'' @ [LF]) [str ram] m;
     m \<leftarrow> print (''Kernel heap                   : %s'' @ [LF]) [str total] m;
     m \<leftarrow> print (''  used                        : %s'' @ [LF]) [str used] m;
     print (''  free                        : %s'' @ [LF]) [str avail] m
   }"

definition region_name :: "u32 \<Rightarrow> string" where
  "region_name ty =
     (if ty = 1 then ''usable'' else if ty = 2 then ''reserved'' else if ty = 3 then ''ACPI data''
      else if ty = 4 then ''ACPI NVS'' else if ty = 5 then ''bad'' else ''unknown'')"

fun print_regions :: "int list \<Rightarrow> 'd machine \<Rightarrow> 'd machine option" where
  "print_regions [] m = Some m"
| "print_regions (i # is) m = do {
     let (base, len, ty) = (case mem_region_info i (sys m) of Some r \<Rightarrow> r | None \<Rightarrow> (0, 0, 0));
     length_text \<leftarrow> human_size len;
     m \<leftarrow> print (''0x%08x%08x   %-20s %s'' @ [LF])
           [VInt (ucast (drop_bit 32 base)), VInt (ucast base), str length_text, str (region_name ty)] m;
     print_regions is m
   }"

definition cmd_meminfo :: "'d machine \<Rightarrow> 'd machine option" where
  "cmd_meminfo m =
     (let count = region_count (sys m)
      in if count = 0 then Some (say (''no BIOS memory map available'' @ [LF]) m)
         else do {
           m \<leftarrow> print (''%-20s %-20s %s'' @ [LF]) [str ''BASE'', str ''LENGTH'', str ''TYPE''] m;
           print_regions [0..count - 1] m
         })"

definition vga_scrollback_lines :: "vga \<Rightarrow> int" where "vga_scrollback_lines v = scrollback_count v"

definition device_row :: "string \<Rightarrow> string \<Rightarrow> string \<Rightarrow> 'd machine \<Rightarrow> 'd machine option" where
  "device_row dev driver state m = print (''%-12s %-22s %s'' @ [LF]) [str dev, str driver, str state] m"

definition cmd_lsdev :: "'d machine \<Rightarrow> 'd machine option" where
  "cmd_lsdev m = do {
     m \<leftarrow> device_row ''DEVICE'' ''DRIVER'' ''STATE'' m;
     m \<leftarrow> device_row ''console'' ''VGA text 80x25'' ''active'' m;
     m \<leftarrow> print (''%-12s %-22s %d lines of scrollback'' @ [LF])
           [str ''scrollback'', str ''vga'', VInt (of_int (vga_scrollback_lines (display m)))] m;
     m \<leftarrow> device_row ''keyboard'' ''PS/2 set 1, IRQ1'' ''active'' m;
     m \<leftarrow> (if \<not> mouse_present (rodent m)
           then do {
             m \<leftarrow> device_row ''mouse'' ''PS/2, IRQ12'' ''not detected'' (colour VGA_YELLOW m);
             Some (colour VGA_LIGHT_GREY m)
           }
           else if mouse_device_id (rodent m) = 3
           then do {
             m \<leftarrow> device_row ''mouse'' ''IntelliMouse, IRQ12'' ''wheel scrolling enabled'' (colour VGA_LIGHT_GREEN m);
             Some (colour VGA_LIGHT_GREY m)
           }
           else print (''%-12s %-22s id=%d, no wheel'' @ [LF])
                  [str ''mouse'', str ''PS/2, IRQ12'', VInt (of_int (mouse_device_id (rodent m)))] m);
     m \<leftarrow> print (''%-12s %-22s %d Hz'' @ [LF]) [str ''timer'', str ''8253 PIT, IRQ0'', VInt TIMER_HZ] m;
     m \<leftarrow> device_row ''rtc'' ''MC146818 CMOS'' ''read only'' m;
     device_row ''serial'' ''16550 COM1 38400'' ''kernel log'' m
   }"

definition cmd_sync :: "'d ports \<Rightarrow> 'd machine \<Rightarrow> 'd machine option" where
  "cmd_sync P m =
     (if \<not> persist_available (sys m) then print_error ''sync'' ''no data disk attached, nothing to write to'' m
      else do {
        (result, m) \<leftarrow> on_sys (persist_save P) m;
        if result = 0
        then print (''filesystem and accounts written to disk (%u bytes)'' @ [LF]) [VInt (bytes_used (sys m))] m
        else if result = -2 then print_error ''sync'' ''snapshot is larger than the reserved area'' m
        else if result = -5 then print_error ''sync'' ''the disk was wiped by mkfs, reboot first'' m
        else print_error ''sync'' ''write failed'' m
      })"

definition state_text :: "persist_state_t \<Rightarrow> string" where
  "state_text st =
     (case st of PERSIST_LOADED \<Rightarrow> ''mounted'' | PERSIST_EMPTY \<Rightarrow> ''empty, never written''
      | PERSIST_ERROR \<Rightarrow> ''unreadable'' | PERSIST_NO_DISK \<Rightarrow> ''no data disk'')"

definition disk_rows :: "string \<Rightarrow> nat \<Rightarrow> 'd machine \<Rightarrow> 'd machine option" where
  "disk_rows label drive m =
     (let d = disk (sys m)
      in do {
        m \<leftarrow> print (label @ '' : %s'' @ [LF]) [str (if ata_present drive d then ata_model drive d else ''none'')] m;
        if ata_present drive d
        then print (''               %u sectors (%u MiB)'' @ [LF])
               [VInt (ata_sector_count drive d), VInt (ata_sector_count drive d div 2048)] m
        else Some m
      })"

definition cmd_df :: "'d machine \<Rightarrow> 'd machine option" where
  "cmd_df m = do {
     m \<leftarrow> disk_rows ''Boot disk   '' ATA_MASTER m;
     m \<leftarrow> disk_rows ''Data disk   '' ATA_SLAVE m;
     m \<leftarrow> print (''Snapshot     : %s'' @ [LF]) [str (state_text (p_state (sys m)))] m;
     m \<leftarrow> print (''Location     : %s'' @ [LF]) [str (data_where (sys m))] m;
     m \<leftarrow> print (''Used         : %u of %u bytes reserved'' @ [LF])
           [VInt (bytes_used (sys m)), VInt persist_bytes_capacity] m;
     m \<leftarrow> print (''Saves        : %u'' @ [LF]) [VInt (save_count (sys m))] m;
     print (''Unsaved      : %s'' @ [LF]) [str (if dirty (sys m) then ''yes'' else ''no'')] m
   }"

section \<open>Tasks\<close>

fun print_tasks :: "u32 \<Rightarrow> int list \<Rightarrow> 'd machine \<Rightarrow> 'd machine option" where
  "print_tasks up [] m = Some m"
| "print_tasks up (i # is) m =
     (case task_at i (sch m) of
        None \<Rightarrow> print_tasks up is m
      | Some k \<Rightarrow> do {
          let t = tasks (sch m) ! k;
          let ticks = (ucast (tk_cpu_ticks t) :: u32);
          let percent = (if up \<noteq> 0 then ticks div (up div 100 + 1) else 0);
          let m = (if Some k = task_current (sch m) then colour VGA_LIGHT_GREEN m
                   else if tk_state t = TASK_SLEEPING then colour VGA_DARK_GREY m else m);
          m \<leftarrow> print (''%4u %-14s %-9s %8u %6u%% %8u'' @ [LF])
                [VInt (tk_id t), str (tk_name t), str (task_state_name (tk_state t)), VInt ticks, VInt percent,
                 VInt (ucast (tk_switches t))] m;
          print_tasks up is (colour VGA_LIGHT_GREY m)
        })"

definition cmd_ps :: "around \<Rightarrow> 'd machine \<Rightarrow> 'd machine option" where
  "cmd_ps G m = do {
     let total = (ucast (now G) :: u32);
     m \<leftarrow> print (''%4s %-14s %-9s %8s %7s %8s'' @ [LF])
           [str ''PID'', str ''NAME'', str ''STATE'', str ''TICKS'', str ''CPU%'', str ''SWITCHES''] m;
     m \<leftarrow> print_tasks total [0..task_count (sch m) - 1] m;
     m \<leftarrow> print (''%d tasks, %u ticks since boot, preemptive round robin at %d Hz'' @ [LF])
           [VInt (of_int (task_count (sch m))), VInt total, VInt TIMER_HZ] (colour VGA_DARK_GREY m);
     Some (colour VGA_LIGHT_GREY m)
   }"

text \<open>
  The two demonstration tasks: the worker looks at the clock until its deadline (\<open>looks\<close> are the
  times it sees, the rest of them is the result), the ticker sleeps a second at a time.
\<close>

fun worker_loop :: "u64 \<Rightarrow> u64 list \<Rightarrow> u64 list option" where
  "worker_loop deadline [] = None"
| "worker_loop deadline (t # ts) = (if t < deadline then worker_loop deadline ts else Some ts)"

fun worker_task :: "u32 \<Rightarrow> u64 list \<Rightarrow> u64 list option" where
  "worker_task seconds [] = None"
| "worker_task seconds (t # ts) = worker_loop (t + ucast seconds * ucast TIMER_HZ) ts"

definition ticker_task :: "u32 \<Rightarrow> u32 list" where
  "ticker_task seconds = replicate (unat seconds) 1000"

definition cmd_spawn :: "around \<Rightarrow> string list \<Rightarrow> 'd machine \<Rightarrow> 'd machine option" where
  "cmd_spawn G argv m = do {
     let kind = (if length argv > 1 then argv ! 1 else ''worker'');
     seconds \<leftarrow> (if length argv > 2 then parse_int (argv ! 2) else Some 15);
     let seconds = (if seconds \<le> 0 then 15 else seconds);
     (case (if kind = ''worker'' then Some (worker_at G) else if kind = ''ticker'' then Some (ticker_at G) else None) of
        None \<Rightarrow> print_error ''spawn'' ''usage: spawn <worker|ticker> [seconds]'' m
      | Some entry \<Rightarrow> do {
          (task, s, t) \<leftarrow> task_spawn (bootstrap_at G) kind entry (of_int seconds) (sys m) (sch m);
          let m = m\<lparr>sys := s, sch := t\<rparr>;
          (case task of
             None \<Rightarrow> print_error ''spawn'' ''no free task slot or no memory for a stack'' m
           | Some i \<Rightarrow> print (''started %s as pid %u, running for %d seconds'' @ [LF])
                         [str kind, VInt (tk_id (tasks t ! i)), VInt (of_int seconds)] m)
        })
   }"

text \<open>A shell that kills its own task does not run again: another task is current afterwards.\<close>

definition cmd_kill :: "around \<Rightarrow> string list \<Rightarrow> 'd machine \<Rightarrow> 'd machine outcome option" where
  "cmd_kill G argv m =
     (if length argv < 2 then map_option Back (print_error ''kill'' ''usage: kill <pid>'' m)
      else do {
        pid \<leftarrow> parse_int (argv ! 1);
        (rc, e, t) \<leftarrow> task_kill (of_int pid) (now G) (esp_now G) (sch m);
        if current t \<noteq> current (sch m) then Some (Off (m\<lparr>sch := t\<rparr>))
        else map_option Back
          (let m = m\<lparr>sch := t\<rparr>
           in if rc = 0 then print (''pid %u terminated'' @ [LF]) [VInt (of_int pid)] m
              else if rc = -2 then print_error ''kill'' ''the idle task cannot be killed'' m
              else print_error ''kill'' ''no such task'' m)
      })"

section \<open>Time and versions\<close>

definition cmd_uptime :: "around \<Rightarrow> 'd machine \<Rightarrow> 'd machine option" where
  "cmd_uptime G m =
     (let ticks = (ucast (now G) :: u32); seconds = ticks div TIMER_HZ
      in print (''up %u:%02u:%02u (%u ticks at %d Hz)'' @ [LF])
           [VInt (seconds div 3600), VInt ((seconds div 60) mod 60), VInt (seconds mod 60), VInt ticks, VInt TIMER_HZ] m)"

definition cmd_date :: "'d ports \<Rightarrow> 'd machine \<Rightarrow> 'd machine option" where
  "cmd_date P m = do {
     (t, d) \<leftarrow> rtc_read P (hw (disk (sys m)));
     print (''%04u-%02u-%02u %02u:%02u:%02u UTC'' @ [LF])
       [VInt (ucast (t_year t)), VInt (ucast (t_month t)), VInt (ucast (t_day t)),
        VInt (ucast (t_hour t)), VInt (ucast (t_minute t)), VInt (ucast (t_second t))] (on_ports (\<lambda>_. d) m)
   }"

definition cmd_uname :: "around \<Rightarrow> string list \<Rightarrow> 'd machine \<Rightarrow> 'd machine option" where
  "cmd_uname G argv m =
     (if length argv > 1 \<and> argv ! 1 = ''-a''
      then print (''%s %s (%s) %s %s'' @ [LF]) [str LOS_NAME, str LOS_VERSION, str LOS_CODENAME, str LOS_ARCH, str (stamp G)] m
      else print (''%s'' @ [LF]) [str LOS_NAME] m)"

definition cmd_version :: "around \<Rightarrow> 'd machine \<Rightarrow> 'd machine option" where
  "cmd_version G m = do {
     m \<leftarrow> print (''%s %s '' @ [CHR 0x22] @ ''%s'' @ [CHR 0x22, LF, LF]) [str LOS_NAME, str LOS_RELEASE, str LOS_CODENAME] (colour VGA_YELLOW m);
     let m = colour VGA_LIGHT_GREY m;
     m \<leftarrow> print (''  Version      : %s'' @ [LF]) [str LOS_VERSION] m;
     m \<leftarrow> print (''  Codename     : %s'' @ [LF]) [str LOS_CODENAME] m;
     m \<leftarrow> print (''  Architecture : %s, 32-bit protected mode'' @ [LF]) [str LOS_ARCH] m;
     m \<leftarrow> print (''  Built        : %s'' @ [LF]) [str (stamp G)] m;
     m \<leftarrow> print (''  Kernel image : %u bytes in %u sectors'' @ [LF]) [VInt (image_bytes m), VInt (install_image_sectors m)] m;
     m \<leftarrow> print (''  Booted from  : %s'' @ [LF])
           [str (if install_booted_from_medium m then ''the install medium'' else ''a hard disk'')] m;
     print (''  Source       : %s'' @ [LF]) [str LOS_URL] m
   }"

definition cmd_color :: "string list \<Rightarrow> 'd machine \<Rightarrow> 'd machine option" where
  "cmd_color argv m =
     (if length argv < 3 then print_error ''color'' ''usage: color <fg 0-15> <bg 0-15>'' m
      else do {
        fg \<leftarrow> parse_int (argv ! 1);
        bg \<leftarrow> parse_int (argv ! 2);
        if fg < 0 \<or> fg > 15 \<or> bg < 0 \<or> bg > 15 then print_error ''color'' ''values must be between 0 and 15'' m
        else print (''colour set to fg=%d bg=%d'' @ [LF]) [VInt (of_int fg), VInt (of_int bg)]
               (m\<lparr>display := vga_set_color (of_int fg) (of_int bg) (display m)\<rparr>)
      })"

fun print_history :: "int list \<Rightarrow> 'd machine \<Rightarrow> 'd machine option" where
  "print_history [] m = Some m"
| "print_history (i # is) m = do {
     m \<leftarrow> (case console_history_at i (con m) of
             None \<Rightarrow> Some m
           | Some entry \<Rightarrow> print (''%4d  %s'' @ [LF]) [VInt (of_int (i + 1)), str entry] m);
     print_history is m
   }"

definition cmd_history :: "'d machine \<Rightarrow> 'd machine option" where
  "cmd_history m =
     (let total = console_history_count (con m)
      in print_history [(if total > 16 then total - 16 else 0)..total - 1] m)"

section \<open>Accounts\<close>

fun print_users :: "int list \<Rightarrow> 'd machine \<Rightarrow> 'd machine option" where
  "print_users [] m = Some m"
| "print_users (i # is) m =
     (case users_at i (sys m) of
        None \<Rightarrow> print_users is m
      | Some k \<Rightarrow> do {
          let u = users (sys m) ! k;
          let me = (logged_in (sys m) = Some k);
          m \<leftarrow> print (''%-16s %6u %6u  %s%s'' @ [LF])
                [str (u_name u), VInt (u_uid u), VInt (u_gid u), str (u_home u), str (if me then ''   (you)'' else [])]
                (if me then colour VGA_LIGHT_GREEN m else m);
          print_users is (colour VGA_LIGHT_GREY m)
        })"

definition cmd_users :: "'d machine \<Rightarrow> 'd machine option" where
  "cmd_users m = do {
     m \<leftarrow> print (''%-16s %6s %6s  %s'' @ [LF]) [str ''USER'', str ''UID'', str ''GID'', str ''HOME''] m;
     print_users [0..users_count (sys m) - 1] m
   }"

definition read_new_password :: "string \<Rightarrow> 'd machine \<Rightarrow> (string option \<times> 'd machine) option" where
  "read_new_password who m = do {
     m \<leftarrow> print ''New password for %s: '' [str who] m;
     (ok, out, m) \<leftarrow> read_line PASSWORD_MAX CONSOLE_ECHO_STARS False None m;
     if \<not> ok then Some (None, m)
     else if length out < PASSWORD_MIN
     then do { m \<leftarrow> print_error ''passwd'' ''password is too short'' m; Some (None, m) }
     else do {
       (ok, again, m) \<leftarrow> read_line PASSWORD_MAX CONSOLE_ECHO_STARS False None (say ''Retype new password: '' m);
       if \<not> ok then Some (None, m)
       else if out \<noteq> again
       then do { m \<leftarrow> print_error ''passwd'' ''passwords do not match'' m; Some (None, m) }
       else Some (Some out, m)
     }
   }"

definition cmd_useradd :: "around \<Rightarrow> string list \<Rightarrow> 'd machine \<Rightarrow> 'd machine option" where
  "cmd_useradd G argv m = do {
     (ok, m) \<leftarrow> require_root ''useradd'' m;
     if \<not> ok then Some m
     else if length argv < 2 then print_error ''useradd'' ''usage: useradd <name>'' m
     else if users_count (sys m) \<ge> int USER_MAX then print_error ''useradd'' ''the account table is full'' m
     else do {
       (password, m) \<leftarrow> read_new_password (argv ! 1) m;
       (case password of
          None \<Rightarrow> Some m
        | Some pw \<Rightarrow> do {
            (rc, m) \<leftarrow> on_sys (users_add (residue G) (persist_available (sys m)) (argv ! 1) (Some pw) False) m;
            if rc = 0
            then do {
              m \<leftarrow> print (''created %s with home /home/%s'' @ [LF]) [str (argv ! 1), str (argv ! 1)] m;
              Some (mark_dirty m)
            }
            else print_error ''useradd''
              (if rc = -1 then ''invalid user name'' else if rc = -2 then ''that name is taken''
               else if rc = -3 then ''password is too short'' else ''cannot create the account'') m
          })
     }
   }"

definition cmd_userdel :: "around \<Rightarrow> string list \<Rightarrow> 'd machine \<Rightarrow> 'd machine option" where
  "cmd_userdel G argv m = do {
     (ok, m) \<leftarrow> require_root ''userdel'' m;
     if \<not> ok then Some m
     else if length argv < 2 then print_error ''userdel'' ''usage: userdel <name>'' m
     else do {
       (rc, m) \<leftarrow> on_sys (users_delete (residue G) (argv ! 1)) m;
       if rc = 0
       then do {
         m \<leftarrow> print (''removed %s (the home directory is left in place)'' @ [LF]) [str (argv ! 1)] m;
         Some (mark_dirty m)
       }
       else print_error ''userdel''
         (if rc = -1 then ''no such user'' else if rc = -2 then ''root cannot be removed''
          else if rc = -3 then ''that account is logged in'' else ''cannot remove the account'') m
     }
   }"

definition change_password :: "string \<Rightarrow> 'd machine \<Rightarrow> 'd machine option" where
  "change_password name m = do {
     (password, m) \<leftarrow> read_new_password name m;
     (case password of
        None \<Rightarrow> Some m
      | Some pw \<Rightarrow>
          let (rc, s) = users_set_password name (Some pw) (sys m); m = m\<lparr>sys := s\<rparr>
          in if rc = 0
             then do { m \<leftarrow> print (''password updated for %s'' @ [LF]) [str name] m; Some (mark_dirty m) }
             else print_error ''passwd'' ''cannot change the password'' m)
   }"

definition cmd_passwd :: "string list \<Rightarrow> 'd machine \<Rightarrow> 'd machine option" where
  "cmd_passwd argv m =
     (let me = users_current m;
          name = (if length argv > 1 then argv ! 1 else case me of Some u \<Rightarrow> u_name u | None \<Rightarrow> [])
      in if users_find name (sys m) = None then print_error ''passwd'' ''no such user'' m
         else if me \<noteq> None \<and> name \<noteq> u_name (the me)
         then do {
           (ok, m) \<leftarrow> require_root ''passwd'' m;
           if ok then change_password name m else Some m
         }
         else do {
           (ok, check, m) \<leftarrow> read_line PASSWORD_MAX CONSOLE_ECHO_HIDDEN False None (say ''Current password: '' m);
           if \<not> users_check_password me (Some check) then print_error ''passwd'' ''authentication failure'' m
           else change_password name m
         })"

definition cmd_su :: "string list \<Rightarrow> 'd machine \<Rightarrow> 'd machine option" where
  "cmd_su argv m =
     (let name = (if length argv > 1 then argv ! 1 else ''root'')
      in if users_find name (sys m) = None then print_error ''su'' ''no such user'' m
         else do {
           (ok, password, m) \<leftarrow> read_line PASSWORD_MAX CONSOLE_ECHO_HIDDEN False None (say ''Password: '' m);
           (result, m) \<leftarrow> on_sys (users_switch name (Some password)) m;
           if result = 0 then print (''now running as %s'' @ [LF]) [str name] m
           else print_error ''su'' ''authentication failure'' m
         })"

section \<open>Power\<close>

definition machine_reboot :: "'d ports \<Rightarrow> around \<Rightarrow> 'd machine \<Rightarrow> 'd machine outcome option" where
  "machine_reboot P G m = do { m \<leftarrow> pause G 400 m; pulse_reset P m }"

definition cmd_reboot :: "'d ports \<Rightarrow> around \<Rightarrow> 'd machine \<Rightarrow> 'd machine outcome option" where
  "cmd_reboot P G m = do {
     m \<leftarrow> (if dirty (sys m)
           then do { (rc, m) \<leftarrow> on_sys (persist_save P) (say (''Writing unsaved changes to disk...'' @ [LF]) m); Some m }
           else Some m);
     machine_reboot P G (say (''Rebooting...'' @ [LF]) m)
   }"

definition cmd_mkfs :: "'d ports \<Rightarrow> around \<Rightarrow> 'd machine \<Rightarrow> 'd machine outcome option" where
  "cmd_mkfs P G m = do {
     (ok, m) \<leftarrow> require_root ''mkfs'' m;
     if \<not> ok then Some (Back m)
     else if \<not> persist_available (sys m) then map_option Back (print_error ''mkfs'' ''no data disk attached'' m)
     else do {
       let m = say (''This erases every file and account on the data disk.'' @ [LF]) (colour VGA_YELLOW m);
       let m = say ''Type YES to confirm: '' (colour VGA_LIGHT_GREY m);
       (ok, answer, m) \<leftarrow> read_line 8 CONSOLE_ECHO_PLAIN False None m;
       if \<not> ok \<or> answer \<noteq> ''YES'' then Some (Back (say (''mkfs cancelled, nothing was written.'' @ [LF]) m))
       else do {
         (rc, m) \<leftarrow> on_sys (persist_format P) m;
         if rc \<noteq> 0 then map_option Back (print_error ''mkfs'' ''the data disk could not be wiped'' m)
         else machine_reboot P G
           (colour VGA_LIGHT_GREY (say (''Data disk wiped. Restarting into first time setup...'' @ [LF]) (colour VGA_LIGHT_GREEN m)))
       }
     }
   }"

definition cmd_shutdown :: "'d ports \<Rightarrow> around \<Rightarrow> 'd machine \<Rightarrow> 'd machine outcome option" where
  "cmd_shutdown P G m = do {
     let m = say (''Stopping the shell session...'' @ [LF]) (colour VGA_LIGHT_GREY m);
     m \<leftarrow> (if sealed (sys m) then Some (say (''Data disk was wiped by mkfs, leaving it empty.'' @ [LF]) m)
           else if persist_available (sys m)
           then do {
             (rc, m) \<leftarrow> on_sys (persist_save P) (say (''Writing the filesystem to disk...'' @ [LF]) m);
             if rc \<noteq> 0 then print_error ''shutdown'' ''the snapshot could not be written'' m else Some m
           }
           else Some (say (''No data disk, nothing to write.'' @ [LF]) m));
     m \<leftarrow> pause G 600 (say (''Powering off.'' @ [LF]) m);
     let m = on_ports (outw P 0x4004 0x3400 \<circ> outw P 0xB004 0x2000 \<circ> outw P 0x604 0x2000) m;
     let m = say ([LF] @ ''ACPI power off is not available on this machine.'' @ [LF]) (colour VGA_YELLOW m);
     let m = say (''It is now safe to close the window.'' @ [LF]) m;
     Some (Off (colour VGA_LIGHT_GREY m))
   }"

end
