(* ===== verification/Shell.thy ===== *)
theory Shell
  imports Shell_System Lib_String
begin

text \<open>
  The dispatcher and the session loop of \<open>kernel/shell.c\<close>.
\<close>

definition ARGS_MAX :: nat where "ARGS_MAX = 16"

text \<open>What \<open>str_split\<close> leaves of a line, by the theorem on it in the theory of the string routines.\<close>

definition split_line :: "string \<Rightarrow> string list" where
  "split_line line = map (map (\<lambda>b. char_of (unat b))) (split_args ARGS_MAX (map of_char line))"

definition unknown_command :: "string \<Rightarrow> 'd machine \<Rightarrow> 'd machine option" where
  "unknown_command name m = do {
     m \<leftarrow> print (''lsh: command not found: %s'' @ [LF]) [str name] (colour VGA_LIGHT_RED m);
     Some (say (''Type '' @ [CHR 0x27] @ ''help'' @ [CHR 0x27] @ '' for the list of built-in commands.'' @ [LF]) (colour VGA_LIGHT_GREY m))
   }"

text \<open>The commands that always come back.\<close>

definition execute_plain :: "'d ports \<Rightarrow> around \<Rightarrow> string \<Rightarrow> string list \<Rightarrow> 'd machine \<Rightarrow> 'd machine option" where
  "execute_plain P G raw argv m =
     (let name = argv ! 0
      in if name = ''help'' \<or> name = ''?'' then cmd_help m
         else if name = ''ls'' \<or> name = ''dir'' then cmd_ls argv m
         else if name = ''tree'' then cmd_tree argv m
         else if name = ''cd'' then cmd_cd argv m
         else if name = ''pwd'' then do { path \<leftarrow> current_path (sys m); print (''%s'' @ [LF]) [str path] m }
         else if name = ''cat'' then cmd_cat argv m
         else if name = ''echo'' then cmd_echo G (dropWhile (\<lambda>c. c = CHR '' '') (drop (length ''echo'') raw)) m
         else if name = ''mkdir'' then cmd_mkdir G argv m
         else if name = ''touch'' then cmd_touch G argv m
         else if name = ''rm'' then cmd_rm argv m
         else if name = ''clear'' then Some (wipe m)
         else if name = ''free'' then cmd_free m
         else if name = ''meminfo'' then cmd_meminfo m
         else if name = ''lsdev'' then cmd_lsdev m
         else if name = ''sync'' then cmd_sync P m
         else if name = ''df'' then cmd_df m
         else if name = ''ps'' then cmd_ps G m
         else if name = ''spawn'' then cmd_spawn G argv m
         else if name = ''yield'' then give_way G m
         else if name = ''uptime'' then cmd_uptime G m
         else if name = ''date'' then cmd_date P m
         else if name = ''uname'' then cmd_uname G argv m
         else if name = ''version'' then cmd_version G m
         else if name = ''whoami''
         then print (''%s'' @ [LF]) [str (case users_current m of Some u \<Rightarrow> u_name u | None \<Rightarrow> ''nobody'')] m
         else if name = ''id''
         then (case users_current m of
             Some u \<Rightarrow> print (''uid=%u(%s) gid=%u(%s) home=%s'' @ [LF])
               [VInt (u_uid u), str (u_name u), VInt (u_gid u), str (u_name u), str (u_home u)] m
           | None \<Rightarrow> Some m)
         else if name = ''users'' \<or> name = ''who'' then cmd_users m
         else if name = ''useradd'' then cmd_useradd G argv m
         else if name = ''userdel'' then cmd_userdel G argv m
         else if name = ''passwd'' then cmd_passwd argv m
         else if name = ''su'' then cmd_su argv m
         else if name = ''hostname'' then Some (say (''lightning'' @ [LF]) m)
         else if name = ''color'' then cmd_color argv m
         else if name = ''history'' then cmd_history m
         else if name = ''banner'' then shell_banner m
         else if name = ''sleep''
         then do { ms \<leftarrow> (if length argv > 1 then parse_int (argv ! 1) else Some 0); pause G (of_int ms) m }
         else if name = ''logout'' \<or> name = ''exit'' then Some (m\<lparr>session_open := False\<rparr>)
         else unknown_command name m)"

definition execute :: "'d ports \<Rightarrow> around \<Rightarrow> string \<Rightarrow> 'd machine \<Rightarrow> 'd machine outcome option" where
  "execute P G line m =
     (let raw = take (LINE_MAX - 1) line; argv = split_line line
      in if argv = [] then Some (Back m)
         else if argv ! 0 = ''kill'' then cmd_kill G argv m
         else if argv ! 0 = ''mkfs'' then cmd_mkfs P G m
         else if argv ! 0 = ''reboot'' then cmd_reboot P G m
         else if argv ! 0 = ''shutdown'' \<or> argv ! 0 = ''poweroff'' \<or> argv ! 0 = ''halt'' then cmd_shutdown P G m
         else map_option Back (execute_plain P G raw argv m))"

section \<open>The session\<close>

text \<open>A line that was entered: history, command, and what it changed written out straight away.\<close>

definition run_line :: "'d ports \<Rightarrow> around \<Rightarrow> string \<Rightarrow> 'd machine \<Rightarrow> 'd machine outcome option" where
  "run_line P G line m = do {
     r \<leftarrow> execute P G line (m\<lparr>con := console_history_push (Some line) (con m)\<rparr>);
     (case r of
        Off m \<Rightarrow> Some (Off m)
      | Back m \<Rightarrow> do {
          (rc, m) \<leftarrow> on_sys (persist_flush P) m;
          map_option Back (if rc \<noteq> 0 then print_error ''sync'' ''could not write changes to disk'' m else Some m)
        })
   }"

definition shell_turn :: "'d ports \<Rightarrow> around \<Rightarrow> 'd machine \<Rightarrow> 'd machine outcome option" where
  "shell_turn P G m = do {
     prompt \<leftarrow> print_prompt m;
     (ok, line, m) \<leftarrow> read_line LINE_MAX CONSOLE_ECHO_PLAIN True (Some prompt) (m\<lparr>display := prompt (display m)\<rparr>);
     if \<not> ok \<or> line = [] then Some (Back m) else run_line P G line m
   }"

text \<open>\<open>G\<close> gives the surroundings of each turn.\<close>

partial_function (option) session_loop :: "'d ports \<Rightarrow> (nat \<Rightarrow> around) \<Rightarrow> nat \<Rightarrow> 'd machine \<Rightarrow> 'd machine outcome option" where
  "session_loop P G n m =
     (if \<not> session_open m then Some (Back m)
      else do {
        r \<leftarrow> shell_turn P (G n) m;
        (case r of Off m \<Rightarrow> Some (Off m) | Back m \<Rightarrow> session_loop P G (n + 1) m)
      })"

declare session_loop.simps [code]

definition shell_start :: "'d machine \<Rightarrow> 'd machine option" where
  "shell_start m = do {
     m \<leftarrow> (case users_current m of
             None \<Rightarrow> Some m
           | Some u \<Rightarrow> do {
               home \<leftarrow> fs_resolve (u_home u) (sys m);
               set_cwd (if home \<noteq> NULL then home else root_node (sys m)) m
             });
     m \<leftarrow> shell_banner (wipe m);
     motd \<leftarrow> fs_resolve ''/etc/motd'' (sys m);
     m \<leftarrow> (if motd = NULL then Some m
           else do {
             n \<leftarrow> nodes (sys m) motd;
             if n_data n \<noteq> NULL then do { t \<leftarrow> buf_text (n_data n) (sys m); Some (say t m) } else Some m
           });
     let m = (if \<not> mouse_present (rodent m)
              then say (''No PS/2 mouse detected - use PageUp/PageDown to scroll.'' @ [LF]) m else m);
     Some ((say [LF] m)\<lparr>session_open := True\<rparr>)
   }"

definition shell_run :: "'d ports \<Rightarrow> (nat \<Rightarrow> around) \<Rightarrow> 'd machine \<Rightarrow> 'd machine outcome option" where
  "shell_run P G m = do {
     m \<leftarrow> shell_start m;
     r \<leftarrow> session_loop P G 0 m;
     (case r of
        Off m \<Rightarrow> Some (Off m)
      | Back m \<Rightarrow> Some (Back (say (''logout'' @ [LF]) (m\<lparr>sys := users_logout (sys m)\<rparr>))))
   }"

end
