(* ===== verification/Shell_Frame.thy ===== *)
theory Shell_Frame
  imports Shell
begin

text \<open>
  What the commands of the shell leave alone, by one rule for each operation they are made of.
  \<open>ends r Q\<close>: if \<open>r\<close> is a result, \<open>Q\<close> holds of it.  \<open>moves R m m'\<close>: between the two machines the
  system changed as \<open>R\<close> says, the editor and the image of the kernel did not, and a screen in order
  stayed in order.
\<close>

section \<open>Results\<close>

definition ends :: "'a option \<Rightarrow> ('a \<Rightarrow> bool) \<Rightarrow> bool" where
  "ends r Q \<longleftrightarrow> (\<forall>x. r = Some x \<longrightarrow> Q x)"

named_theorems wp \<open>how the operations of the shell end\<close>

lemma ends_Some [simp]: "ends (Some x) Q = Q x"
  by (simp add: ends_def)

lemma ends_None [simp]: "ends None Q"
  by (simp add: ends_def)

lemma ends_SomeI [wp]: "Q x \<Longrightarrow> ends (Some x) Q" by simp

lemma ends_NoneI [wp]: "ends None Q" by simp

lemma ends_bind [wp]: "ends r (\<lambda>x. ends (f x) Q) \<Longrightarrow> ends (r \<bind> f) Q"
  by (cases r) simp_all

lemma ends_map [wp]: "ends r (\<lambda>x. Q (f x)) \<Longrightarrow> ends (map_option f r) Q"
  by (cases r) simp_all

lemma ends_if [wp]: "(b \<Longrightarrow> ends x Q) \<Longrightarrow> (\<not> b \<Longrightarrow> ends y Q) \<Longrightarrow> ends (if b then x else y) Q"
  by simp

lemma ends_let [wp]: "(\<And>x. x = v \<Longrightarrow> ends (f x) Q) \<Longrightarrow> ends (let x = v in f x) Q"
  by simp

lemma ends_case [wp]: "(x = None \<Longrightarrow> ends a Q) \<Longrightarrow> (\<And>y. x = Some y \<Longrightarrow> ends (f y) Q) \<Longrightarrow> ends (case x of None \<Rightarrow> a | Some y \<Rightarrow> f y) Q"
  by (cases x) simp_all

lemma ends_prod [wp]: "(\<And>a b. x = (a, b) \<Longrightarrow> ends (f a b) Q) \<Longrightarrow> ends (case x of (a, b) \<Rightarrow> f a b) Q"
  by (cases x) simp

lemma ends_mono: "ends r Q \<Longrightarrow> (\<And>x. Q x \<Longrightarrow> Q' x) \<Longrightarrow> ends r Q'"
  by (simp add: ends_def)

lemma ends_any: "(\<And>x. r = Some x \<Longrightarrow> Q x) \<Longrightarrow> ends r Q"
  by (simp add: ends_def)

lemma ends_use: "r = Some x \<Longrightarrow> ends r Q \<Longrightarrow> Q x"
  by (simp add: ends_def)

text \<open>Operations that give a value only.\<close>

lemmas ends_values [wp] =
  ends_any [where r = "nodes s p" for s p] ends_any [where r = "fs_resolve path s" for path s]
  ends_any [where r = "fs_abspath p out sz s" for p out sz s] ends_any [where r = "current_path s" for s]
  ends_any [where r = "human_size n" for n] ends_any [where r = "path_arg argv s" for argv s]
  ends_any [where r = "buf_text b s" for b s] ends_any [where r = "buf_char b i s" for b i s]
  ends_any [where r = "parse_int s" for s] ends_any [where r = "ksnprintf n fmt args" for n fmt args]
  ends_any [where r = "target_abspath path s" for path s]

section \<open>Printing and reading\<close>

definition neat :: "'d machine \<Rightarrow> bool" where
  "neat m \<longleftrightarrow> console_ok (con m) \<and> vga_inv (display m)"

definition moves :: "('d persist \<Rightarrow> 'd persist \<Rightarrow> bool) \<Rightarrow> 'd machine \<Rightarrow> 'd machine \<Rightarrow> bool" where
  "moves R m m' \<longleftrightarrow> R (sys m) (sys m') \<and> con m' = con m \<and> rodent m' = rodent m \<and> boot_flag m' = boot_flag m \<and>
     image_copy m' = image_copy m \<and> image_bytes m' = image_bytes m \<and> (neat m \<longrightarrow> neat m')"

lemma sys_printed [simp]: "sys (say s m) = sys m" "sys (colour c m) = sys m" "sys (wipe m) = sys m"
  by (simp_all add: say_def colour_def wipe_def)

named_theorems mv \<open>what keeps a machine in line with an earlier one\<close>

lemma moves_refl [mv]: "R (sys m) (sys m) \<Longrightarrow> moves R m m"
  by (simp add: moves_def)

lemma moves_say [mv]: "moves R m0 m \<Longrightarrow> moves R m0 (say s m)"
  by (simp add: moves_def neat_def say_def put_text_def vga_inv_ops)

lemma moves_colour [mv]: "moves R m0 m \<Longrightarrow> moves R m0 (colour c m)"
  by (simp add: moves_def neat_def colour_def vga_set_color_inv)

lemma moves_set_color [mv]: "moves R m0 m \<Longrightarrow> moves R m0 (m\<lparr>display := vga_set_color fg bg (display m)\<rparr>)"
  by (simp add: moves_def neat_def vga_set_color_inv)

lemma moves_wipe [mv]: "moves R m0 m \<Longrightarrow> moves R m0 (wipe m)"
  by (simp add: moves_def neat_def wipe_def vga_inv_ops)

lemma moves_indent [mv]: "moves R m0 m \<Longrightarrow> moves R m0 ((say s ^^ n) m)"
  by (induction n) (simp_all add: moves_say)

lemma moves_sch [mv]: "moves R m0 m \<Longrightarrow> moves R m0 (m\<lparr>sch := t\<rparr>)"
  by (simp add: moves_def neat_def)

lemma moves_open [mv]: "moves R m0 m \<Longrightarrow> moves R m0 (m\<lparr>session_open := b\<rparr>)"
  by (simp add: moves_def neat_def)

lemma moves_sys [mv]: "moves R m0 m \<Longrightarrow> (R (sys m0) (sys m) \<Longrightarrow> R' (sys m0) s) \<Longrightarrow> moves R' m0 (m\<lparr>sys := s\<rparr>)"
  by (simp add: moves_def neat_def)

lemma moves_typed [mv]: "moves R m0 m \<Longrightarrow> (neat m \<Longrightarrow> vga_inv v) \<Longrightarrow> moves R m0 (m\<lparr>display := v, keystrokes := ks\<rparr>)"
  by (simp add: moves_def neat_def)

lemma moves_mono: "moves R m0 m \<Longrightarrow> (R (sys m0) (sys m) \<Longrightarrow> R' (sys m0) (sys m)) \<Longrightarrow> moves R' m0 m"
  by (simp add: moves_def)

text \<open>After an operation that leaves the system alone.\<close>

lemma moves_after: "moves (=) m m' \<Longrightarrow> moves R m0 m \<Longrightarrow> moves R m0 m'"
  by (simp add: moves_def)

lemma moves_neat: "moves R m m' \<Longrightarrow> neat m \<Longrightarrow> neat m'"
  by (simp add: moves_def)

lemma moves_on: "moves R m m' \<Longrightarrow> R (sys m) (sys m')"
  by (simp add: moves_def)

lemma ends_print [wp]: "(\<And>s. Q (say s m)) \<Longrightarrow> ends (print fmt args m) Q"
  by (auto simp: print_def ends_def bind_eq_Some_conv)

lemma ends_error [wp]: "(\<And>s. Q (colour VGA_LIGHT_GREY (say s (colour VGA_LIGHT_RED m)))) \<Longrightarrow> ends (print_error c t m) Q"
  by (auto simp: print_error_def print_def ends_def bind_eq_Some_conv)

lemma ends_on_sys [wp]: "(\<And>r s. f (sys m) = Some (r, s) \<Longrightarrow> Q (r, m\<lparr>sys := s\<rparr>)) \<Longrightarrow> ends (on_sys f m) Q"
  by (auto simp: on_sys_def ends_def bind_eq_Some_conv)

lemma read_line_screen:
  assumes "read_line sz echo hist p m = Some (ok, line, m')" "0 < sz" "\<forall>f w. p = Some f \<longrightarrow> vga_inv w \<longrightarrow> vga_inv (f w)"
  shows "\<exists>v ks. m' = m\<lparr>display := v, keystrokes := ks\<rparr> \<and> (neat m \<longrightarrow> vga_inv v)"
proof -
  obtain v ks where r: "console_read_line sz echo hist p (keystrokes m) (con m) (display m) = Some (ok, line, v, ks)"
    "m' = m\<lparr>display := v, keystrokes := ks\<rparr>"
    using assms(1) by (auto simp: read_line_def bind_eq_Some_conv)
  have "vga_inv v" if n: "neat m"
  proof -
    have a: "console_ok (con m)" "vga_inv (display m)" using n by (simp_all add: neat_def)
    show ?thesis
    proof (cases "dropWhile (\<lambda>k. \<not> ends_line k) (keystrokes m)")
      case Nil
      with console_read_line_edits [OF a assms(2,3), where keys = "keystrokes m" and echo = echo and use_history = hist] r(1)
      show ?thesis by (simp only: list.case) simp
    next
      case (Cons k ks)
      with console_read_line_edits [OF a assms(2,3), where keys = "keystrokes m" and echo = echo and use_history = hist] r(1)
      show ?thesis by (simp only: list.case) auto
    qed
  qed
  with r(2) show ?thesis by blast
qed

lemma ends_read [wp]:
  assumes "0 < sz" "\<And>ok line v ks. (neat m \<Longrightarrow> vga_inv v) \<Longrightarrow> Q (ok, line, m\<lparr>display := v, keystrokes := ks\<rparr>)"
  shows "ends (read_line sz echo hist None m) Q"
proof (rule ends_any)
  fix r
  assume r: "read_line sz echo hist None m = Some r"
  obtain ok line m' where "r = (ok, line, m')" by (cases r)
  with read_line_screen [of sz echo hist None m ok line m'] r assms show "Q r" by auto
qed

section \<open>Loops that only print\<close>

lemma ls_children_moves: "ls_children child files dirs m = Some r \<Longrightarrow> moves (=) m (snd (snd r))"
proof (erule ls_children.raw_induct [rotated])
  fix f child files dirs m r
  assume IH: "\<And>child files dirs m r. f child files dirs m = Some r \<Longrightarrow> moves (=) (m :: 'a machine) (snd (snd r))"
    and r: "(if child = NULL then Some (files, dirs, m)
      else do {
        n \<leftarrow> nodes (sys m) child;
        if n_type n = FS_DIR
        then print (''drwxr-xr-x  %6s  %s/'' @ [LF]) [str ''-'', str (n_name n)] (colour VGA_LIGHT_BLUE m) \<bind> f (n_next n) files (dirs + 1)
        else print (''-rw-r--r--  %6u  %s'' @ [LF]) [VInt (n_size n), str (n_name n)] (colour VGA_LIGHT_GREY m) \<bind> f (n_next n) (files + 1) dirs
      }) = Some r"
  have "ends (f p k l x) (\<lambda>r. moves (=) x (snd (snd r)))" for p k l x
    using IH by (simp add: ends_def)
  note after = ends_mono [OF this]
  have "ends (if child = NULL then Some (files, dirs, m)
      else do {
        n \<leftarrow> nodes (sys m) child;
        if n_type n = FS_DIR
        then print (''drwxr-xr-x  %6s  %s/'' @ [LF]) [str ''-'', str (n_name n)] (colour VGA_LIGHT_BLUE m) \<bind> f (n_next n) files (dirs + 1)
        else print (''-rw-r--r--  %6u  %s'' @ [LF]) [VInt (n_size n), str (n_name n)] (colour VGA_LIGHT_GREY m) \<bind> f (n_next n) (files + 1) dirs
      }) (\<lambda>r. moves (=) m (snd (snd r)))"
    by (intro wp after) (auto elim!: moves_after intro!: mv)
  with r show "moves (=) m (snd (snd r))" by (simp only: ends_Some)
qed

lemma ends_ls [wp]: "(\<And>k l x. moves (=) m x \<Longrightarrow> Q (k, l, x)) \<Longrightarrow> ends (ls_children child files dirs m) Q"
  using ls_children_moves [of child files dirs m] by (force simp: ends_def)

lemma tree_siblings_moves: "tree_siblings child depth m = Some x \<Longrightarrow> moves (=) m x"
proof (erule tree_siblings.raw_induct [rotated])
  fix f child depth m x
  assume IH: "\<And>child depth m x. f child depth m = Some x \<Longrightarrow> moves (=) (m :: 'a machine) x"
    and r: "(if child = NULL then Some m
      else do {
        n \<leftarrow> nodes (sys m) child;
        let m = (say ''  '' ^^ depth) m;
        m \<leftarrow> (if n_type n = FS_DIR
              then do {
                m \<leftarrow> print (''+- %s/'' @ [LF]) [str (n_name n)] (colour VGA_LIGHT_BLUE m);
                f (n_children n) (depth + 1) (colour VGA_LIGHT_GREY m)
              }
              else print (''+- %s'' @ [LF]) [str (n_name n)] m);
        f (n_next n) depth m
      }) = Some x"
  have "ends (f p k x) (moves (=) x)" for p k x
    using IH by (simp add: ends_def)
  note after = ends_mono [OF this]
  have "ends (if child = NULL then Some m
      else do {
        n \<leftarrow> nodes (sys m) child;
        let m = (say ''  '' ^^ depth) m;
        m \<leftarrow> (if n_type n = FS_DIR
              then do {
                m \<leftarrow> print (''+- %s/'' @ [LF]) [str (n_name n)] (colour VGA_LIGHT_BLUE m);
                f (n_children n) (depth + 1) (colour VGA_LIGHT_GREY m)
              }
              else print (''+- %s'' @ [LF]) [str (n_name n)] m);
        f (n_next n) depth m
      }) (moves (=) m)"
    by (intro wp after) (auto elim!: moves_after intro!: mv)
  with r show "moves (=) m x" by (simp only: ends_Some)
qed

lemma ends_tree [wp]: "(\<And>x. moves (=) m x \<Longrightarrow> Q x) \<Longrightarrow> ends (tree_siblings child depth m) Q"
  using tree_siblings_moves [of child depth m] by (simp add: ends_def)

text \<open>The loops over lists.\<close>

lemma ends_rows [wp]: "(\<And>x. moves (=) m x \<Longrightarrow> Q x) \<Longrightarrow> ends (print_rows rs m) Q"
proof (induction rs arbitrary: m Q)
  case (Cons r rs)
  show ?case by (simp only: print_rows.simps, intro wp Cons.IH Cons.prems) (auto elim!: moves_after intro!: mv)
qed (simp add: moves_refl)

lemma ends_help [wp]: "(\<And>x. moves (=) m x \<Longrightarrow> Q x) \<Longrightarrow> ends (print_help hs m) Q"
proof (induction hs arbitrary: m Q)
  case (Cons h hs)
  obtain a b where h: "h = (a, b)" by (cases h)
  show ?case by (simp only: h print_help.simps, intro wp Cons.IH Cons.prems) (auto elim!: moves_after intro!: mv)
qed (simp add: moves_refl)

lemma ends_regions [wp]: "(\<And>x. moves (=) m x \<Longrightarrow> Q x) \<Longrightarrow> ends (print_regions is m) Q"
proof (induction "is" arbitrary: m Q)
  case (Cons i "is")
  show ?case by (simp only: print_regions.simps, intro wp Cons.IH Cons.prems) (auto elim!: moves_after intro!: mv)
qed (simp add: moves_refl)

lemma ends_history [wp]: "(\<And>x. moves (=) m x \<Longrightarrow> Q x) \<Longrightarrow> ends (print_history is m) Q"
proof (induction "is" arbitrary: m Q)
  case (Cons i "is")
  show ?case by (simp only: print_history.simps, intro wp Cons.IH Cons.prems) (auto elim!: moves_after intro!: mv)
qed (simp add: moves_refl)

lemma ends_users [wp]: "(\<And>x. moves (=) m x \<Longrightarrow> Q x) \<Longrightarrow> ends (print_users is m) Q"
proof (induction "is" arbitrary: m Q)
  case (Cons i "is")
  show ?case by (simp only: print_users.simps, intro wp Cons.IH Cons.prems) (auto elim!: moves_after intro!: mv)
qed (simp add: moves_refl)

lemma ends_tasks [wp]: "(\<And>x. moves (=) m x \<Longrightarrow> Q x) \<Longrightarrow> ends (print_tasks up is m) Q"
proof (induction "is" arbitrary: m Q)
  case (Cons i "is")
  show ?case by (simp only: print_tasks.simps, intro wp Cons.IH Cons.prems) (auto elim!: moves_after intro!: mv)
qed (simp add: moves_refl)

section \<open>Commands that only print\<close>

text \<open>\<open>still r m\<close>: the result \<open>r\<close> of a command run on \<open>m\<close> has the system of \<open>m\<close>.\<close>

abbreviation still :: "'d machine option \<Rightarrow> 'd machine \<Rightarrow> bool" where
  "still r m \<equiv> ends r (moves (=) m)"

lemma still_banner: "still (shell_banner m) m"
  unfolding shell_banner_def by (intro wp) (auto elim!: moves_after intro!: mv)

lemmas ends_banner [wp] = ends_mono [OF still_banner]

lemma still_section: "still (help_section title hs m) m"
  unfolding help_section_def by (intro wp) (auto elim!: moves_after intro!: mv)

lemmas ends_section [wp] = ends_mono [OF still_section]

lemma ends_device [wp]: "(\<And>s. Q (say s m)) \<Longrightarrow> ends (device_row a b c m) Q"
  unfolding device_row_def by (intro wp)

lemma still_disk: "still (disk_rows label drive m) m"
  unfolding disk_rows_def Let_def by (intro wp) (auto elim!: moves_after intro!: mv)

lemmas ends_disk [wp] = ends_mono [OF still_disk]

lemma still_ls: "still (cmd_ls argv m) m"
  unfolding cmd_ls_def by (intro wp) (auto elim!: moves_after intro!: mv)

lemma still_tree: "still (cmd_tree argv m) m"
  unfolding cmd_tree_def tree_walk_def by (intro wp) (auto elim!: moves_after intro!: mv)

lemma still_cat: "still (cmd_cat argv m) m"
  unfolding cmd_cat_def by (intro wp) (auto intro!: mv)

lemma still_help: "still (cmd_help m) m"
  unfolding cmd_help_def by (intro wp) (auto elim!: moves_after intro!: mv)

lemma still_free: "still (cmd_free m) m"
  unfolding cmd_free_def by (intro wp) (auto intro!: mv)

lemma still_meminfo: "still (cmd_meminfo m) m"
  unfolding cmd_meminfo_def by (intro wp) (auto elim!: moves_after intro!: mv)

lemma still_lsdev: "still (cmd_lsdev m) m"
  unfolding cmd_lsdev_def by (intro wp) (auto intro!: mv)

lemma still_df: "still (cmd_df m) m"
  unfolding cmd_df_def by (intro wp) (auto elim!: moves_after intro!: mv)

lemma still_ps: "still (cmd_ps G m) m"
  unfolding cmd_ps_def by (intro wp) (auto elim!: moves_after intro!: mv)

lemma still_uptime: "still (cmd_uptime G m) m"
  unfolding cmd_uptime_def by (intro wp) (auto intro!: mv)

lemma still_uname: "still (cmd_uname G argv m) m"
  unfolding cmd_uname_def by (intro wp) (auto intro!: mv)

lemma still_version: "still (cmd_version G m) m"
  unfolding cmd_version_def by (intro wp) (auto intro!: mv)

lemma still_color: "still (cmd_color argv m) m"
  unfolding cmd_color_def by (intro wp) (auto intro!: mv)

lemma still_history: "still (cmd_history m) m"
  unfolding cmd_history_def by (intro wp) (auto elim!: moves_after intro!: mv)

lemma still_users: "still (cmd_users m) m"
  unfolding cmd_users_def by (intro wp) (auto elim!: moves_after intro!: mv)

lemma still_unknown: "still (unknown_command name m) m"
  unfolding unknown_command_def by (intro wp) (auto intro!: mv)

lemma still_kill: "ends (cmd_kill G argv m) (\<lambda>r. case r of Back x \<Rightarrow> moves (=) m x | Off x \<Rightarrow> moves (=) m x)"
  unfolding cmd_kill_def
  by (intro wp ends_any [where r = "task_kill pid n e t" for pid n e t]) (auto intro!: mv)

lemma still_pause: "still (pause G ms m) m"
  unfolding pause_def by (auto simp: ends_def bind_eq_Some_conv intro!: mv)

lemma still_give_way: "still (give_way G m) m"
  unfolding give_way_def by (auto simp: ends_def bind_eq_Some_conv intro!: mv)

lemma still_new_password: "ends (read_new_password who m) (\<lambda>(p, x). moves (=) m x)"
  unfolding read_new_password_def by (intro wp) (auto simp: PASSWORD_MAX_def intro!: mv)

lemmas ends_new_password [wp] = ends_mono [OF still_new_password]

lemma still_root: "ends (require_root command m) (\<lambda>(ok, x). ok = users_is_root (sys m) \<and> moves (=) m x)"
  unfolding require_root_def by (intro wp) (auto intro!: mv)

lemmas ends_root [wp] = ends_mono [OF still_root]

lemma still_may_write:
  "ends (may_write command path m) (\<lambda>(ok, x). moves (=) m x \<and>
     (ok \<longrightarrow> (\<exists>a. target_abspath path (sys m) = Some (Some a) \<and> users_may_write a (sys m))))"
  unfolding may_write_def by (intro wp) (auto intro!: mv)

lemmas ends_may_write [wp] = ends_mono [OF still_may_write]

end
