(* ===== verification/Shell_Guard.thy ===== *)
theory Shell_Guard
  imports Shell_Frame
begin

text \<open>
  What an everyday account can change through the shell: the commands that leave the files and
  the accounts as they are, and the permission check of the others.
\<close>

section \<open>Operations that keep files and accounts\<close>

definition tree_kept :: "'a users_state_scheme \<Rightarrow> 'a users_state_scheme \<Rightarrow> bool" where
  "tree_kept s t \<longleftrightarrow> nodes t = nodes s \<and> bufs t = bufs s \<and> root_node t = root_node s \<and> users t = users s"

lemma kept_refl [simp]: "tree_kept s s"
  by (simp add: tree_kept_def)

lemma kept_trans: "tree_kept s t \<Longrightarrow> tree_kept t u \<Longrightarrow> tree_kept s u"
  by (simp add: tree_kept_def)

lemma kept_frame: "mem_frame s t \<Longrightarrow> tree_kept s t"
  by (auto simp: mem_frame_def tree_kept_def)

lemma kept_view: "tree_kept s t \<Longrightarrow> fs_view t = fs_view s"
proof -
  assume k: "tree_kept s t"
  then have "entry_of t = entry_of s" by (simp add: tree_kept_def entry_of_def contents_def fun_eq_iff)
  moreover have "nodes t = nodes s" "root_node t = root_node s" using k by (simp_all add: tree_kept_def)
  ultimately show ?thesis by (intro ext) (simp only: fs_view_def)
qed

lemma mem_frameI: "mem_frame s (s\<lparr>hdr := H, heap_used := u\<rparr>)"
  by (auto simp: mem_frame_def)

lemma ends_kmalloc [wp]: "(\<And>p t. mem_frame s t \<Longrightarrow> Q (p, t)) \<Longrightarrow> ends (kmalloc n s) Q"
  by (auto simp: ends_def dest: kmalloc_frame)

lemma ends_release [wp]: "(\<And>t. mem_frame s t \<Longrightarrow> Q t) \<Longrightarrow> ends (heap_release p s) Q"
proof -
  assume Q: "\<And>t. mem_frame s t \<Longrightarrow> Q t"
  have "ends (kfree p s) (\<lambda>r. case r of Inl _ \<Rightarrow> True | Inr t \<Rightarrow> mem_frame s t)"
    unfolding kfree_def
    by (intro wp ends_any [where r = "hdr s blk" for blk] ends_any [where r = "coalesce blk H" for blk H])
      (simp_all add: mem_frame_refl mem_frameI)
  then show ?thesis using Q by (auto simp: ends_def heap_release_def split: option.splits sum.splits)
qed

lemma kept_cwd: "ends (fs_set_cwd dir s) (tree_kept s)"
  unfolding fs_set_cwd_def by (intro wp) (simp_all add: tree_kept_def)

lemma kept_switch: "ends (users_switch name pw s) (\<lambda>(rc, t). tree_kept s t)"
proof -
  have l: "tree_kept s (s\<lparr>logged_in := Some i\<rparr>)" for i by (simp add: tree_kept_def)
  show ?thesis
    unfolding users_switch_def by (intro wp ends_mono [OF kept_cwd]) (use kept_trans [OF l] in simp_all)
qed

text \<open>The layer above may change.\<close>

lemma kept_layer [mv]:
  "tree_kept s t \<Longrightarrow> tree_kept s (t\<lparr>disk := d\<rparr>)"
  "tree_kept s t \<Longrightarrow> tree_kept s (t\<lparr>save_count := n\<rparr>)"
  "tree_kept s t \<Longrightarrow> tree_kept s (t\<lparr>bytes_used := b, p_state := st, dirty := x, data_where := w\<rparr>)"
  "tree_kept s t \<Longrightarrow> tree_kept s (t\<lparr>dirty := x\<rparr>)"
  by (simp_all add: tree_kept_def)

lemma kept_mem: "mem_frame t u \<Longrightarrow> tree_kept s t \<Longrightarrow> tree_kept s u"
  by (auto simp: mem_frame_def tree_kept_def)

lemma kept_save: "ends (persist_save P s) (\<lambda>(rc, t). tree_kept s t)"
  unfolding persist_save_def
  by (intro wp ends_any [where r = "write_users is s w n" for "is" s w n] ends_any [where r = "write_tree p s w n" for p s w n]
      ends_any [where r = "ata_write P drive lba n ws d" for drive lba n ws d])
    (auto elim!: kept_mem intro!: mv)

lemma kept_flush: "ends (persist_flush P s) (\<lambda>(rc, t). tree_kept s t)"
  using kept_save [of P s] by (simp add: persist_flush_def)

section \<open>Commands that keep files and accounts\<close>

abbreviation keeps_tree :: "'d machine option \<Rightarrow> 'd machine \<Rightarrow> bool" where
  "keeps_tree r m \<equiv> ends r (moves tree_kept m)"

lemma moves_same: "moves (=) m0 m \<Longrightarrow> moves tree_kept m0 m"
  by (erule moves_mono) simp

lemma kept_cd: "keeps_tree (cmd_cd argv m) m"
  unfolding cmd_cd_def set_cwd_def by (intro wp ends_mono [OF kept_cwd]) (auto intro!: mv)

lemma kept_sync: "keeps_tree (cmd_sync P m) m"
  unfolding cmd_sync_def
  by (intro wp) (auto intro!: mv dest: ends_use [OF _ kept_save])

lemma kept_date: "keeps_tree (cmd_date P m) m"
  unfolding cmd_date_def on_ports_def
  by (intro wp ends_any [where r = "rtc_read P d" for d]) (auto intro!: mv)

lemma spawn_frame: "ends (task_spawn b name entry arg s t) (\<lambda>(task, s', t'). mem_frame s s')"
  unfolding task_spawn_def
  by (intro wp ends_any [where r = "list_insert i t" for i t]) (auto intro: mem_frame_refl)

lemma kept_spawn: "keeps_tree (cmd_spawn G argv m) m"
  unfolding cmd_spawn_def
  by (intro wp ends_any [where r = "task_spawn b name entry arg s t" for b name entry arg s t])
    (auto intro!: mv kept_frame intro: mem_frame_refl dest: ends_use [OF _ spawn_frame])

lemma kept_su: "keeps_tree (cmd_su argv m) m"
  unfolding cmd_su_def
  by (intro wp) (auto simp: PASSWORD_MAX_def intro!: mv dest: ends_use [OF _ kept_switch])

text \<open>The ways to leave.\<close>

definition machine_of :: "'d machine outcome \<Rightarrow> 'd machine" where
  "machine_of r = (case r of Back m \<Rightarrow> m | Off m \<Rightarrow> m)"

lemma machine_of_simps [simp]: "machine_of (Back m) = m" "machine_of (Off m) = m"
  by (simp_all add: machine_of_def)

lemma moves_ports [mv]: "moves tree_kept m0 m \<Longrightarrow> moves tree_kept m0 (on_ports f m)"
  unfolding on_ports_def by (erule moves_sys) (simp add: kept_layer)

lemma kept_reset: "moves tree_kept m0 m \<Longrightarrow> ends (pulse_reset P m) (\<lambda>r. moves tree_kept m0 (machine_of r))"
  unfolding pulse_reset_def by (intro wp ends_any [where r = "drain_8042 P d" for d]) (simp add: mv)

lemma kept_reboot: "ends (cmd_reboot P G m) (\<lambda>r. moves tree_kept m (machine_of r))"
  unfolding cmd_reboot_def machine_reboot_def
  by (intro wp ends_mono [OF still_pause] kept_reset)
    (auto elim!: moves_after intro!: mv dest: ends_use [OF _ kept_save])

lemma kept_shutdown: "ends (cmd_shutdown P G m) (\<lambda>r. moves tree_kept m (machine_of r))"
  unfolding cmd_shutdown_def
  by (intro wp ends_mono [OF still_pause])
    (auto elim!: moves_after intro!: mv dest: ends_use [OF _ kept_save])

section \<open>The dispatcher\<close>

text \<open>What holds after each command holds after every line.\<close>

lemma execute_ends:
  fixes m :: "'d machine"
  assumes Q: "\<And>x. moves (=) m x \<Longrightarrow> Q (Back x) \<and> Q (Off x)"
    and cmds: "\<And>args. split_line line ! 0 = ''echo'' \<Longrightarrow>
        args = dropWhile (\<lambda>c. c = CHR '' '') (drop (length ''echo'') (take (LINE_MAX - 1) line)) \<Longrightarrow> ends (cmd_echo G args m) (\<lambda>x. Q (Back x))"
      "ends (cmd_mkdir G (split_line line) m) (\<lambda>x. Q (Back x))" "ends (cmd_touch G (split_line line) m) (\<lambda>x. Q (Back x))"
      "split_line line ! 0 = ''rm'' \<Longrightarrow> ends (cmd_rm (split_line line) m) (\<lambda>x. Q (Back x))" "ends (cmd_useradd G (split_line line) m) (\<lambda>x. Q (Back x))"
      "ends (cmd_userdel G (split_line line) m) (\<lambda>x. Q (Back x))" "ends (cmd_passwd (split_line line) m) (\<lambda>x. Q (Back x))"
      "ends (cmd_cd (split_line line) m) (\<lambda>x. Q (Back x))" "ends (cmd_sync P m) (\<lambda>x. Q (Back x))" "ends (cmd_date P m) (\<lambda>x. Q (Back x))"
      "ends (cmd_spawn G (split_line line) m) (\<lambda>x. Q (Back x))" "ends (cmd_su (split_line line) m) (\<lambda>x. Q (Back x))"
      "ends (cmd_mkfs P G m) Q" "ends (cmd_reboot P G m) Q" "ends (cmd_shutdown P G m) Q"
  shows "ends (execute P G line m) Q"
proof -
  have s: "moves (=) m x \<Longrightarrow> Q (Back x)" for x using Q by blast
  note still = still_help still_ls still_tree still_cat still_free still_meminfo still_lsdev still_df still_ps still_give_way
    still_uptime still_uname still_version still_users still_color still_history still_banner still_pause still_unknown
  have plain: "ends (execute_plain P G (take (LINE_MAX - 1) line) (split_line line) m) (\<lambda>x. Q (Back x))"
    unfolding execute_plain_def Let_def
    by (intro wp cmds still [THEN ends_mono]) (auto intro!: mv s)
  have kill: "ends (cmd_kill G (split_line line) m) Q"
    using still_kill [of G "split_line line" m] by (rule ends_mono) (auto dest: Q split: outcome.splits)
  show ?thesis
    unfolding execute_def Let_def
    by (intro wp cmds kill ends_mono [OF plain]) (auto intro!: mv s)
qed

text \<open>
  For a relation that holds when files and accounts are kept: what holds of the commands that may
  change them holds of every line.
\<close>

lemma execute_moves:
  fixes m :: "'d machine"
  assumes R: "\<And>t. tree_kept (sys m) t \<Longrightarrow> R (sys m) t"
    and cmds: "\<And>args. args = dropWhile (\<lambda>c. c = CHR '' '') (drop (length ''echo'') (take (LINE_MAX - 1) line)) \<Longrightarrow> ends (cmd_echo G args m) (moves R m)"
      "ends (cmd_mkdir G (split_line line) m) (moves R m)" "ends (cmd_touch G (split_line line) m) (moves R m)"
      "ends (cmd_rm (split_line line) m) (moves R m)" "ends (cmd_useradd G (split_line line) m) (moves R m)"
      "ends (cmd_userdel G (split_line line) m) (moves R m)" "ends (cmd_passwd (split_line line) m) (moves R m)"
      "ends (cmd_mkfs P G m) (\<lambda>r. moves R m (machine_of r))"
  shows "ends (execute P G line m) (\<lambda>r. moves R m (machine_of r))"
proof -
  have k: "moves tree_kept m x \<Longrightarrow> moves R m x" for x by (erule moves_mono) (rule R)
  have s: "moves (=) m x \<Longrightarrow> moves R m x" for x by (erule k [OF moves_same])
  show ?thesis
    by (rule execute_ends; (simp only: machine_of_simps)?)
      (auto intro: s cmds kept_cd [THEN ends_mono, OF k] kept_sync [THEN ends_mono, OF k] kept_date [THEN ends_mono, OF k]
        kept_spawn [THEN ends_mono, OF k] kept_su [THEN ends_mono, OF k]
        kept_reboot [THEN ends_mono, OF k] kept_shutdown [THEN ends_mono, OF k])
qed

lemma flush_moves: "ends (on_sys (persist_flush P) m) (\<lambda>(rc, x). moves tree_kept m x)"
  by (intro wp) (auto intro!: mv dest: ends_use [OF _ kept_flush])

section \<open>Well-formedness\<close>

text \<open>Every command, whoever runs it.\<close>

abbreviation anything :: "'d persist \<Rightarrow> 'd persist \<Rightarrow> bool" where
  "anything \<equiv> \<lambda>_ _. True"

lemma any_trans: "moves R m x \<Longrightarrow> moves anything m0 m \<Longrightarrow> moves anything m0 x"
  by (simp add: moves_def)

lemma any_echo: "ends (cmd_echo G args m) (moves anything m)"
  unfolding cmd_echo_def mark_dirty_def
  by (intro wp) (auto elim!: any_trans intro!: mv)

lemma any_files:
  "ends (cmd_mkdir G argv m) (moves anything m)" "ends (cmd_touch G argv m) (moves anything m)" "ends (cmd_rm argv m) (moves anything m)"
  unfolding cmd_mkdir_def cmd_touch_def cmd_rm_def mark_dirty_def
  by (intro wp; auto elim!: any_trans intro!: mv)+

lemma any_accounts:
  "ends (cmd_useradd G argv m) (moves anything m)" "ends (cmd_userdel G argv m) (moves anything m)"
  "ends (change_password name m) (moves anything m)"
  unfolding cmd_useradd_def cmd_userdel_def change_password_def mark_dirty_def Let_def
  by (intro wp; auto elim!: any_trans intro!: mv)+

lemma any_passwd: "ends (cmd_passwd argv m) (moves anything m)"
  unfolding cmd_passwd_def
  by (intro wp any_accounts [THEN ends_mono]) (auto simp: PASSWORD_MAX_def elim!: any_trans intro!: mv)

lemma any_mkfs: "ends (cmd_mkfs P G m) (\<lambda>r. moves anything m (machine_of r))"
  unfolding cmd_mkfs_def machine_reboot_def
  by (intro wp ends_mono [OF still_pause] ends_mono [OF kept_reset [OF moves_refl]]) (auto elim!: any_trans intro!: mv)

end
