(* ===== verification/Shell_Confine.thy ===== *)
theory Shell_Confine
  imports Shell_Guard "HOL-Library.Sublist"
begin

text \<open>
  The permission check of the shell against the map of paths: what \<open>may_write\<close> lets through lies in
  the home directory of the account or in \<open>/tmp\<close>.
\<close>

section \<open>Paths as strings\<close>

definition slashed :: "string list \<Rightarrow> string" where
  "slashed xs = concat (map (\<lambda>x. CHR ''/'' # x) xs)"

lemma slashed_simps [simp]: "slashed [] = []" "slashed (x # xs) = CHR ''/'' # x @ slashed xs"
  "slashed (xs @ ys) = slashed xs @ slashed ys"
  by (simp_all add: slashed_def)

lemma path_string_slashed: "xs \<noteq> [] \<Longrightarrow> path_string xs = slashed xs"
  by (simp add: path_string_def slashed_def)

definition slash_free :: "string list \<Rightarrow> bool" where
  "slash_free xs \<longleftrightarrow> (\<forall>x\<in>set xs. \<forall>c\<in>set x. not_slash c)"

lemma cut_slash:
  assumes "x @ u = y @ v" "\<forall>c\<in>set x. not_slash c" "\<forall>c\<in>set y. not_slash c"
    "u = [] \<or> hd u = CHR ''/''" "v = [] \<or> hd v = CHR ''/''"
  shows "x = y \<and> u = v"
proof -
  have t: "takeWhile not_slash (z @ w) = z" if "\<forall>c\<in>set z. not_slash c" "w = [] \<or> hd w = CHR ''/''" for z w
    using that by (cases w) (auto simp: takeWhile_append2 not_slash_def)
  from t [OF assms(2,4)] t [OF assms(3,5)] assms(1) have "x = y" by simp
  with assms(1) show ?thesis by simp
qed

lemma slashed_prefix:
  "slashed hs @ z = slashed ws \<Longrightarrow> z = [] \<or> hd z = CHR ''/'' \<Longrightarrow> slash_free hs \<Longrightarrow> slash_free ws \<Longrightarrow> prefix hs ws"
proof (induction hs arbitrary: ws)
  case (Cons h hs)
  then obtain w ws' where w: "ws = w # ws'" by (cases ws) auto
  have tails: "slashed xs @ z = [] \<or> hd (slashed xs @ z) = CHR ''/''" "slashed xs = [] \<or> hd (slashed xs) = CHR ''/''" for xs
    using Cons.prems(2) by (cases xs; simp)+
  have "h @ (slashed hs @ z) = w @ slashed ws'" using Cons.prems(1) w by simp
  from cut_slash [OF this _ _ tails] Cons.prems(3,4) w have "h = w" "slashed hs @ z = slashed ws'"
    by (simp_all add: slash_free_def)
  with Cons.IH [of ws'] Cons.prems(2-4) w show ?case by (simp add: slash_free_def)
qed simp

lemma inside_slashed:
  assumes "inside (slashed hs) (slashed ws)" "slash_free hs" "slash_free ws"
  shows "prefix hs ws"
proof (rule slashed_prefix [OF _ _ assms(2,3)])
  show "slashed hs @ drop (length (slashed hs)) (slashed ws) = slashed ws"
    using assms(1) by (metis append_take_drop_id inside_def)
  show "drop (length (slashed hs)) (slashed ws) = [] \<or> hd (drop (length (slashed hs)) (slashed ws)) = CHR ''/''"
    using assms(1) by (simp add: inside_def)
qed

lemma inside_take: "inside d (take n x) \<Longrightarrow> length d < n \<Longrightarrow> inside d x"
  by (auto simp: inside_def min_def drop_take split: if_splits)

lemma inside_longer: "inside d (x @ y) \<Longrightarrow> length d < length x \<Longrightarrow> inside d x"
  by (auto simp: inside_def)

text \<open>A path that does not start with a slash.\<close>

lemma join_parts_take: "\<exists>k. join_parts sz out xs = out @ slashed (take k xs) \<and>
    (k < length xs \<longrightarrow> sz \<le> length out + length (slashed (take k xs)) + length (xs ! k) + 2)"
proof (induction xs arbitrary: out)
  case (Cons x xs)
  show ?case
  proof (cases "length out + length x + 2 \<ge> sz")
    case True
    then show ?thesis by (intro exI [of _ 0]) simp
  next
    case False
    from Cons.IH [of "out @ ''/'' @ x"] obtain k where k: "join_parts sz (out @ ''/'' @ x) xs = (out @ ''/'' @ x) @ slashed (take k xs)"
      "k < length xs \<longrightarrow> sz \<le> length (out @ ''/'' @ x) + length (slashed (take k xs)) + length (xs ! k) + 2" by blast
    with False show ?thesis by (intro exI [of _ "Suc k"]) (simp add: add.assoc)
  qed
qed simp

text \<open>What the shell prints of a node at most 32 levels deep: its path, or the start of it.\<close>

lemma abspath_start:
  assumes inv: "fs_inv s L" and p: "node_path s xs p" and deep: "length xs \<le> 32"
  shows "\<exists>a k. fs_abspath p [] FS_PATH_MAX s = Some a \<and>
    (if xs = [] then a = ''/'' else a = slashed (take k xs) \<and> (k < length xs \<longrightarrow> 223 \<le> length a))"
proof -
  from node_path_dom [OF inv p] fs_inv_null [OF inv] have p0: "p \<noteq> 0" by auto
  have parts: "abs_parts (nodes s) p 32 = Some (rev xs)" using abs_parts_path [OF inv p, of 32] deep by simp
  obtain k where k: "join_parts FS_PATH_MAX [] xs = slashed (take k xs)"
    "k < length xs \<longrightarrow> FS_PATH_MAX \<le> length (slashed (take k xs)) + length (xs ! k) + 2"
    using join_parts_take [of FS_PATH_MAX "[]" xs] by auto
  have names: "\<forall>x\<in>set xs. length x < FS_NAME_MAX" using node_path_names [OF inv p] by (simp add: name_ok_def)
  have "k < length xs \<longrightarrow> 223 \<le> length (slashed (take k xs))"
  proof
    assume "k < length xs"
    with k(2) names show "223 \<le> length (slashed (take k xs))"
      using nth_mem [of k xs] by (fastforce simp: FS_PATH_MAX_def FS_NAME_MAX_def)
  qed
  with p0 parts k(1) show ?thesis by (auto simp: fs_abspath_def FS_PATH_MAX_def)
qed

section \<open>Splitting off the last component\<close>

lemma split_last_Some: "split_last b = Some (dir, name) \<Longrightarrow> b = dir @ CHR ''/'' # name \<and> (\<forall>c\<in>set name. not_slash c)"
proof -
  assume s: "split_last b = Some (dir, name)"
  then obtain c front where d: "dropWhile not_slash (rev b) = c # front" "dir = rev front"
    "name = rev (takeWhile not_slash (rev b))" by (auto simp: split_last_def split: list.splits)
  have "\<not> not_slash c" using hd_dropWhile [of not_slash "rev b"] d(1) by simp
  then have "c = CHR ''/''" by (simp add: not_slash_def)
  moreover have "rev b = takeWhile not_slash (rev b) @ dropWhile not_slash (rev b)" by simp
  then have "b = rev (dropWhile not_slash (rev b)) @ rev (takeWhile not_slash (rev b))"
    by (metis rev_append rev_rev_ident)
  ultimately show ?thesis using d by (auto dest: set_takeWhileD)
qed

lemma split_last_None: "split_last b = None \<Longrightarrow> \<forall>c\<in>set b. not_slash c"
  by (auto simp: split_last_def dropWhile_eq_Nil_conv split: list.splits)

lemma components_last:
  "name \<noteq> [] \<Longrightarrow> \<forall>c\<in>set name. not_slash c \<Longrightarrow>
     components (dir @ CHR ''/'' # name) = components dir @ [take (FS_NAME_MAX - 1) name]"
proof (induction dir rule: components.induct)
  case (1 dir)
  let ?b = "dropWhile (\<lambda>c. \<not> not_slash c) dir" and ?x = "CHR ''/'' # name"
  have name: "dropWhile (\<lambda>c. \<not> not_slash c) name = name" "takeWhile not_slash name = name" "dropWhile not_slash name = []"
    using "1.prems" by (cases name; simp)+
  show ?case
  proof (cases "?b = []")
    case True
    then have "\<forall>c\<in>set dir. \<not> not_slash c" by (simp add: dropWhile_eq_Nil_conv)
    then have d: "dropWhile (\<lambda>c. \<not> not_slash c) (dir @ ?x) = name"
      using name by (simp add: dropWhile_append2 not_slash_def)
    have "components (dir @ ?x) = [take (FS_NAME_MAX - 1) name]"
      using components_Cons [of "dir @ ?x"] d name "1.prems" by (simp add: components_Nil)
    moreover have "components dir = []" using True by (simp only: components_Nil)
    ultimately show ?thesis by simp
  next
    case False
    then have d: "dropWhile (\<lambda>c. \<not> not_slash c) (dir @ ?x) = ?b @ ?x"
      by (metis dropWhile_append1 dropWhile_eq_Nil_conv)
    have t: "takeWhile not_slash (z @ ?x) = takeWhile not_slash z \<and> dropWhile not_slash (z @ ?x) = dropWhile not_slash z @ ?x" for z
      by (induction z) (simp_all add: not_slash_def)
    have "components (dir @ ?x) = take (FS_NAME_MAX - 1) (takeWhile not_slash ?b) # components (dropWhile not_slash ?b @ ?x)"
      using components_Cons [of "dir @ ?x"] d t [of ?b] False by simp
    also have "components (dropWhile not_slash ?b @ ?x) = components (dropWhile not_slash ?b) @ [take (FS_NAME_MAX - 1) name]"
      using "1.IH" [OF refl False "1.prems"] .
    finally show ?thesis using components_Cons [OF False] by simp
  qed
qed

lemma components_single:
  "name \<noteq> [] \<Longrightarrow> \<forall>c\<in>set name. not_slash c \<Longrightarrow> components name = [take (FS_NAME_MAX - 1) name]"
  using components_last [of name "[]"] components_tl [of "CHR ''/'' # name"] by (simp add: components_Nil)

section \<open>The target of a command\<close>

lemma resolve_path:
  assumes "fs_inv s L" "node_path s cwd (current_dir s)" "fs_resolve path s = Some p" "p \<noteq> NULL"
  shows "\<exists>xs. abs_resolve (fs_view s) cwd path = Some xs \<and> node_path s xs p"
  using fs_resolve_ok [OF assms(1,2), of path] assms(3,4) by (auto split: option.splits)

lemma parent_target:
  assumes inv: "fs_inv s L" and cwd: "node_path s cwd (current_dir s)"
    and pn: "parent_and_name (take (FS_PATH_MAX - 1) path) s = Some (p, name)" and p: "p \<noteq> NULL" and name: "name \<noteq> []"
  shows "\<exists>us. node_path s us p \<and> abs_target (fs_view s) cwd path = Some (us @ [take (FS_NAME_MAX - 1) name]) \<and>
    (\<forall>c\<in>set name. not_slash c) \<and> set name \<subseteq> set path"
proof (cases "split_last (take (FS_PATH_MAX - 1) path)")
  case None
  let ?b = "take (FS_PATH_MAX - 1) path"
  from None pn have n: "p = current_dir s" "name = ?b" by (simp_all add: parent_and_name_def)
  note free = split_last_None [OF None]
  have "path \<noteq> []" using n(2) name by auto
  then have "hd path \<in> set ?b" by (cases path) (simp_all add: FS_PATH_MAX_def)
  with free have "abs_start cwd path = cwd" by (auto simp: abs_start_def not_slash_def)
  moreover have "path_comps path = [take (FS_NAME_MAX - 1) name]"
    using components_single [of name] name free n(2) by (simp add: path_comps_def)
  ultimately have "abs_target (fs_view s) cwd path = Some (cwd @ [take (FS_NAME_MAX - 1) name])"
    by (simp add: abs_target_def)
  moreover have "set name \<subseteq> set path" using n(2) set_take_subset by metis
  ultimately show ?thesis using cwd n free by blast
next
  case (Some dn)
  obtain dir nm where dn: "dn = (dir, nm)" by (cases dn)
  let ?b = "take (FS_PATH_MAX - 1) path"
  let ?d = "if dir = [] then ''/'' else dir"
  have "do { q \<leftarrow> fs_resolve ?d s; Some (q, nm) } = Some (p, name)" using pn Some dn by (simp add: parent_and_name_def)
  then have r: "fs_resolve ?d s = Some p" and nm: "nm = name" by (cases "fs_resolve ?d s"; simp)+
  from split_last_Some [of ?b dir name] Some dn nm have b: "?b = dir @ CHR ''/'' # name" and free: "\<forall>c\<in>set name. not_slash c" by auto
  from resolve_path [OF inv cwd r p] obtain us where us: "abs_resolve (fs_view s) cwd ?d = Some us" "node_path s us p" by blast
  have comps: "path_comps path = components dir @ [take (FS_NAME_MAX - 1) name]"
    using components_last [OF name free, of dir] b by (simp add: path_comps_def)
  have ne: "path \<noteq> []" using b by (metis append_is_Nil_conv list.discI take_Nil)
  then have pth: "path \<noteq> []" "hd path = hd ?b" by (simp_all add: FS_PATH_MAX_def)
  have "abs_walk (fs_view s) (abs_start cwd path) (components dir) = Some us"
  proof (cases "dir = []")
    case True
    with b pth have "abs_start cwd path = []" by (simp add: abs_start_def)
    moreover have "components [] = []" by (simp add: components_Nil)
    moreover have "path_comps ''/'' = []" by (simp add: path_comps_def components_Nil FS_PATH_MAX_def not_slash_def)
    ultimately show ?thesis using us(1) True by (simp add: abs_resolve_def abs_start_def)
  next
    case False
    with b pth have "abs_start cwd path = abs_start cwd dir" by (simp add: abs_start_def)
    moreover have "length dir \<le> FS_PATH_MAX - 1"
      using arg_cong [OF b, of length] by simp
    then have "path_comps dir = components dir" by (simp add: path_comps_def)
    ultimately show ?thesis using us(1) False by (simp add: abs_resolve_def)
  qed
  with comps have "abs_target (fs_view s) cwd path = Some (us @ [take (FS_NAME_MAX - 1) name])" by (simp add: abs_target_def)
  moreover have "set name \<subseteq> set path"
    using arg_cong [OF b, of set] set_take_subset [of "FS_PATH_MAX - 1" path] by auto
  ultimately show ?thesis using us(2) free by blast
qed

section \<open>The check\<close>

text \<open>A place accounts may own: a short path other than the root.\<close>

definition place :: "string list \<Rightarrow> bool" where
  "place hs \<longleftrightarrow> hs \<noteq> [] \<and> (\<forall>h\<in>set hs. name_ok h) \<and> length (path_string hs) < USER_HOME_MAX"

lemma place_facts:
  assumes "place hs"
  shows "path_string hs = slashed hs" "slash_free hs" "length (slashed hs) < 64" "1 < length (slashed hs)" "\<not> inside (slashed hs) ''/''"
proof -
  show p: "path_string hs = slashed hs" using assms by (simp add: place_def path_string_slashed)
  show "slash_free hs" using assms by (auto simp: place_def slash_free_def name_ok_def not_slash_def)
  show "length (slashed hs) < 64" using assms p by (simp add: place_def USER_HOME_MAX_def)
  show l: "1 < length (slashed hs)" using assms by (cases hs) (auto simp: place_def name_ok_def)
  show "\<not> inside (slashed hs) ''/''"
  proof
    assume "inside (slashed hs) ''/''"
    then have "length (slashed hs) = length (take (length (slashed hs)) ''/'')" by (simp add: inside_def)
    with l show False by simp
  qed
qed

lemma names_slash_free: "fs_inv s L \<Longrightarrow> node_path s xs p \<Longrightarrow> slash_free xs"
  using node_path_names by (fastforce simp: slash_free_def name_ok_def not_slash_def)

lemma inside_start:
  assumes "place hs" "slash_free xs" "inside (slashed hs) (slashed (take k xs))"
  shows "prefix hs xs"
proof -
  have "slash_free (take k xs)" using assms(2) by (auto simp: slash_free_def dest: in_set_takeD)
  from inside_slashed [OF assms(3) place_facts(2) [OF assms(1)] this] have "prefix hs (take k xs)" .
  then show ?thesis using take_is_prefix prefix_order.trans by blast
qed

lemma existing_target:
  assumes inv: "fs_inv s L" and xs: "node_path s xs p" "length xs \<le> 32" and p: "fs_resolve path s = Some p"
    and t: "target_abspath path s = Some (Some a)" and hs: "place hs" and i: "inside (path_string hs) a"
  shows "prefix hs xs"
proof -
  from node_path_dom [OF inv xs(1)] fs_inv_null [OF inv] have p0: "p \<noteq> NULL" by auto
  from abspath_start [OF inv xs] obtain b k where b: "fs_abspath p [] FS_PATH_MAX s = Some b"
    "if xs = [] then b = ''/'' else b = slashed (take k xs)" by metis
  have a: "a = (if b = [] then ''/'' else b)" using t p p0 b(1) by (auto simp: target_abspath_def)
  note place = place_facts [OF hs]
  have "b \<noteq> []" "xs \<noteq> []" using a i place(1,5) b(2) by (auto split: if_splits)
  with a b(2) i place(1) have "inside (slashed hs) (slashed (take k xs))" by simp
  from inside_start [OF hs names_slash_free [OF inv xs(1)] this] show ?thesis .
qed

lemma abs_walk_append: "abs_walk V c (xs @ ys) = abs_walk V c xs \<bind> (\<lambda>d. abs_walk V d ys)"
  by (induction xs arbitrary: c) auto

lemma resolve_target:
  assumes "abs_resolve V cwd path = Some ys" "abs_target V cwd path = Some xs" "V xs = None" "prefix hs ys"
  shows "prefix hs xs"
proof -
  define cs where "cs = path_comps path"
  from assms(2) have ne: "cs \<noteq> []" by (auto simp: abs_target_def cs_def Let_def split: if_splits)
  from assms(2) ne obtain us where us: "abs_walk V (abs_start cwd path) (butlast cs) = Some us" "xs = us @ [last cs]"
    by (auto simp: abs_target_def Let_def simp flip: cs_def)
  have "abs_walk V (abs_start cwd path) (butlast cs @ [last cs]) = Some ys"
    using assms(1) ne by (simp add: abs_resolve_def flip: cs_def)
  with us have "abs_walk V us [last cs] = Some ys" by (simp add: abs_walk_append)
  then have "ys = us \<or> ys = butlast us" using us(2) assms(3) by (auto split: if_splits)
  then have "prefix ys us" using prefixeq_butlast by blast
  with assms(4) us(2) show ?thesis using prefix_order.trans by (metis append_prefixD prefix_order.refl prefix_prefix)
qed

lemma slashed_no_NUL: "\<forall>x\<in>set xs. name_ok x \<Longrightarrow> NUL \<notin> set (slashed xs)"
  by (induction xs) (auto simp: name_ok_def)

lemma joined_path:
  assumes "NUL \<notin> set p" "NUL \<notin> set q" "NUL \<notin> set r"
  shows "ksnprintf FS_PATH_MAX ''%s%s%s'' [str p, str q, str r] = Some (take (FS_PATH_MAX - 1) (p @ q @ r))"
proof -
  have "kprintf ''%s%s%s'' [str p, str q, str r] = Some (p @ q @ r)" by (simp add: printf_simps str_def)
  from ksnprintf_Some [OF this, of FS_PATH_MAX]
  have "ksnprintf FS_PATH_MAX ''%s%s%s'' [str p, str q, str r] =
      Some (takeWhile (\<lambda>c. c \<noteq> NUL) (take (FS_PATH_MAX - 1) (p @ q @ r)))" by (simp add: FS_PATH_MAX_def)
  moreover have "NUL \<notin> set (take (FS_PATH_MAX - 1) (p @ q @ r))" using assms by (auto dest: in_set_takeD)
  ultimately show ?thesis using takeWhile_no_NUL by metis
qed

lemma parent_string:
  assumes inv: "fs_inv s L" and us: "node_path s us p" "length us \<le> 32" and b: "fs_abspath p [] FS_PATH_MAX s = Some b"
    and hs: "place hs" and name: "\<forall>c\<in>set name. not_slash c"
    and p': "p' = (if b = [] then ''/'' else b)" and i: "inside (slashed hs) (p' @ (if p' = ''/'' then [] else ''/'') @ name)"
  shows "prefix hs (us @ [take (FS_NAME_MAX - 1) name])"
proof -
  note place = place_facts [OF hs]
  have free: "slash_free us" by (rule names_slash_free [OF inv us(1)])
  from abspath_start [OF inv us] b obtain k where
    k: "if us = [] then b = ''/'' else b = slashed (take k us) \<and> (k < length us \<longrightarrow> 223 \<le> length b)" by auto
  have whole: "prefix hs (us @ [take (FS_NAME_MAX - 1) name])" if "inside (slashed hs) (slashed (us @ [name]))"
  proof -
    have "slash_free (us @ [name])" using free name by (simp add: slash_free_def)
    from inside_slashed [OF that place(2) this] have "hs = us @ [name] \<or> prefix hs us" by simp
    moreover have "length name < FS_NAME_MAX" if "hs = us @ [name]"
      using hs that by (simp add: place_def name_ok_def)
    ultimately show ?thesis by (auto simp: FS_NAME_MAX_def)
  qed
  show ?thesis
  proof (cases "us = []")
    case True
    with k p' i whole show ?thesis by simp
  next
    case False
    have names: "\<forall>x\<in>set us. x \<noteq> []" using node_path_names [OF inv us(1)] by (auto simp: name_ok_def)
    have b': "b = slashed (take k us)" "k < length us \<longrightarrow> 223 \<le> length b" using k False by metis+
    have "k \<noteq> 0" using b' False by (cases k) auto
    then obtain x xs where x: "take k us = x # xs" "x \<noteq> []" using False names by (cases us) (auto simp: neq_Nil_conv take_Cons')
    then have "b \<noteq> []" "b \<noteq> ''/''" using b'(1) by auto
    with i p' have i': "inside (slashed hs) (b @ slashed [name])" by simp
    show ?thesis
    proof (cases "k < length us")
      case True
      with b' place(3) have "inside (slashed hs) b" by (intro inside_longer [OF i']) simp
      with inside_start [OF hs free] b'(1) show ?thesis by simp
    next
      case False
      with b'(1) i' whole show ?thesis by simp
    qed
  qed
qed

lemma new_target:
  assumes inv: "fs_inv s L" and cwd: "node_path s cwd (current_dir s)" and shallow: "\<forall>zs. fs_view s zs \<noteq> None \<longrightarrow> length zs \<le> 32"
    and path: "NUL \<notin> set path" and t: "target_abspath path s = Some (Some a)" and hs: "place hs" and i: "inside (path_string hs) a"
    and xs: "abs_target (fs_view s) cwd path = Some xs" "fs_view s xs = None"
  shows "prefix hs xs"
proof -
  have deep: "length zs \<le> 32" if "node_path s zs q" for zs q using shallow fs_view_None [OF inv] that by blast
  from fs_resolve_ok [OF inv cwd, of path] obtain q where q: "fs_resolve path s = Some q" by blast
  show ?thesis
  proof (cases "q = NULL")
    case False
    from resolve_path [OF inv cwd q False] obtain ys where ys: "abs_resolve (fs_view s) cwd path = Some ys" "node_path s ys q" by blast
    from existing_target [OF inv ys(2) deep [OF ys(2)] q t hs i] have "prefix hs ys" .
    from resolve_target [OF ys(1) xs this] show ?thesis .
  next
    case True
    with t q obtain p name where pn: "parent_and_name (take (FS_PATH_MAX - 1) path) s = Some (p, name)"
      by (cases "parent_and_name (take (FS_PATH_MAX - 1) path) s") (auto simp: target_abspath_def)
    with t q True have p: "p \<noteq> NULL" by (auto simp: target_abspath_def)
    from t q True pn p obtain n where n: "nodes s p = Some n" by (cases "nodes s p") (simp_all add: target_abspath_def)
    with t q True pn p have name: "name \<noteq> []" by (auto simp: target_abspath_def split: if_splits)
    from parent_target [OF inv cwd pn p name] obtain us where us: "node_path s us p"
      "abs_target (fs_view s) cwd path = Some (us @ [take (FS_NAME_MAX - 1) name])" "\<forall>c\<in>set name. not_slash c" "set name \<subseteq> set path" by blast
    from abspath_start [OF inv us(1) deep [OF us(1)]] obtain b k where b: "fs_abspath p [] FS_PATH_MAX s = Some b"
      "if us = [] then b = ''/'' else b = slashed (take k us)" by metis
    define p' where "p' = (if b = [] then ''/'' else b)"
    have nul: "NUL \<notin> set p'" "NUL \<notin> set name"
    proof -
      have "NUL \<notin> set (slashed (take k us))"
        using node_path_names [OF inv us(1)] by (intro slashed_no_NUL) (auto dest: in_set_takeD)
      then show "NUL \<notin> set p'" using b(2) by (auto simp: p'_def split: if_splits)
      show "NUL \<notin> set name" using us(4) path by blast
    qed
    have "a = take (FS_PATH_MAX - 1) (p' @ (if p' = ''/'' then [] else ''/'') @ name)"
      using t q True pn p n name b(1) nul joined_path [of p' "if p' = ''/'' then [] else ''/''" name]
      by (auto simp: target_abspath_def Let_def simp flip: p'_def split: if_splits)
    moreover note place = place_facts [OF hs]
    ultimately have "inside (slashed hs) (take (FS_PATH_MAX - 1) (p' @ (if p' = ''/'' then [] else ''/'') @ name))"
      using i by simp
    from inside_take [OF this] place(3)
    have "inside (slashed hs) (p' @ (if p' = ''/'' then [] else ''/'') @ name)" by (simp add: FS_PATH_MAX_def)
    from parent_string [OF inv us(1) deep [OF us(1)] b(1) hs us(3) p'_def this] us(2) xs(1) show ?thesis by simp
  qed
qed

section \<open>What an account may change\<close>

definition own :: "string list \<Rightarrow> string list \<Rightarrow> bool" where
  "own hs xs \<longleftrightarrow> prefix hs xs \<or> prefix [''tmp''] xs"

definition confined :: "nat \<Rightarrow> string list \<Rightarrow> 'a users_state_scheme \<Rightarrow> 'a users_state_scheme \<Rightarrow> bool" where
  "confined i hs s t \<longleftrightarrow> (\<forall>xs. \<not> own hs xs \<longrightarrow> fs_view t xs = fs_view s xs) \<and> length (users t) = length (users s) \<and>
     (\<forall>j. j \<noteq> i \<longrightarrow> users t ! j = users s ! j) \<and> (users t ! i)\<lparr>u_hash := 0\<rparr> = (users s ! i)\<lparr>u_hash := 0\<rparr>"

lemma own_below: "own hs xs \<Longrightarrow> prefix xs ys \<Longrightarrow> own hs ys"
  using prefix_order.trans by (fastforce simp: own_def)

lemma confined_kept: "tree_kept s t \<Longrightarrow> confined i hs s t"
  using kept_view [of s t] by (simp add: confined_def tree_kept_def)

lemma confined_refl [simp]: "confined i hs s s"
  by (simp add: confined_kept)

lemma confined_trans: "confined i hs s t \<Longrightarrow> confined i hs t u \<Longrightarrow> confined i hs s u"
  by (simp add: confined_def)

lemma confined_after: "confined i hs s t \<Longrightarrow> tree_kept t u \<Longrightarrow> confined i hs s u"
  using kept_view [of t u] by (simp add: confined_def tree_kept_def)

text \<open>Account \<open>i\<close>, not an administrator, with its home at \<open>hs\<close>, on a tree not deeper than the shell can print.\<close>

definition bounded :: "nat \<Rightarrow> string list \<Rightarrow> 'a users_state_scheme \<Rightarrow> bool" where
  "bounded i hs s \<longleftrightarrow> (\<exists>A. files_ok A s) \<and> users_ok s \<and> logged_in s = Some i \<and> u_uid (users s ! i) \<noteq> 0 \<and>
     u_home (users s ! i) = path_string hs \<and> place hs \<and> (\<forall>zs. fs_view s zs \<noteq> None \<longrightarrow> length zs \<le> 32)"

lemma bounded_files:
  assumes "bounded i hs s"
  obtains L cwd where "fs_inv s L" "node_path s cwd (current_dir s)"
  using assms by (auto simp: bounded_def files_ok_def)

lemma bounded_root: "bounded i hs s \<Longrightarrow> \<not> users_is_root s"
  by (simp add: bounded_def users_is_root_def)

lemma tmp_place: "place [''tmp'']"
  by (simp add: place_def name_ok_def path_string_def FS_NAME_MAX_def USER_HOME_MAX_def)

lemma bounded_write: "bounded i hs s \<Longrightarrow> users_may_write a s \<Longrightarrow> \<exists>ds\<in>{hs, [''tmp'']}. place ds \<and> inside (path_string ds) a"
  using tmp_place by (auto simp: users_may_write_def bounded_root) (auto simp: bounded_def path_string_def)

lemma allowed_existing:
  assumes b: "bounded i hs s" and a: "target_abspath path s = Some (Some a)" "users_may_write a s"
    and p: "fs_resolve path s = Some p" "node_path s xs p"
  shows "own hs xs"
proof -
  obtain L cwd where f: "fs_inv s L" "node_path s cwd (current_dir s)" using bounded_files [OF b] .
  from bounded_write [OF b a(2)] obtain ds where ds: "ds \<in> {hs, [''tmp'']}" "place ds" "inside (path_string ds) a" by blast
  have "length xs \<le> 32" using b fs_view_None [OF f(1)] p(2) unfolding bounded_def by blast
  from existing_target [OF f(1) p(2) this p(1) a(1) ds(2,3)] ds(1) show ?thesis by (auto simp: own_def)
qed

lemma allowed_new:
  assumes b: "bounded i hs s" and a: "target_abspath path s = Some (Some a)" "users_may_write a s" and path: "NUL \<notin> set path"
    and cwd: "node_path s cwd (current_dir s)" and xs: "abs_target (fs_view s) cwd path = Some xs" "fs_view s xs = None"
  shows "own hs xs"
proof -
  obtain L where f: "fs_inv s L" using bounded_files [OF b] .
  from bounded_write [OF b a(2)] obtain ds where ds: "ds \<in> {hs, [''tmp'']}" "place ds" "inside (path_string ds) a" by blast
  have "\<forall>zs. fs_view s zs \<noteq> None \<longrightarrow> length zs \<le> 32" using b by (simp add: bounded_def)
  from new_target [OF f cwd this path a(1) ds(2,3) xs] ds(1) show ?thesis by (auto simp: own_def)
qed

text \<open>The operations on the tree.\<close>

lemma confined_frame:
  assumes "fs_frame s t" "\<And>xs. \<not> own hs xs \<Longrightarrow> fs_view t xs = fs_view s xs"
  shows "confined i hs s t"
  using assms fs_frame_users [of s t] by (simp add: confined_def)

lemma create_confined:
  assumes b: "bounded i hs s" and a: "target_abspath path s = Some (Some a)" "users_may_write a s" and fits: "path_fits r path"
  shows "ends (fs_create r path ty s) (\<lambda>(p, t). confined i hs s t \<and>
    (p \<noteq> NULL \<longrightarrow> (\<exists>xs L. own hs xs \<and> fs_inv t L \<and> node_path t xs p \<and> fs_frame s t)))"
proof -
  obtain L cwd where f: "fs_inv s L" "node_path s cwd (current_dir s)" using bounded_files [OF b] .
  have pf: "NUL \<notin> set path" "r = NUL \<or> (\<forall>c\<in>set (path_comps path). length c < FS_NAME_MAX - 1)"
    using fits by (simp_all add: path_fits_def)
  from fs_create_ok [OF f pf, of ty] obtain p t where c: "fs_create r path ty s = Some (p, t)" "fs_frame s t"
    "p = 0 \<longrightarrow> t = s"
    "p \<noteq> 0 \<longrightarrow> (\<exists>xs k. abs_target (fs_view s) cwd path = Some xs \<and> fs_view s xs = None \<and>
       fs_view t = (fs_view s)(xs \<mapsto> new_entry ty) \<and> node_path t xs p \<and> fs_inv t (L(p \<mapsto> k)))" by blast
  show ?thesis
  proof (cases "p = 0")
    case True
    with c show ?thesis using confined_kept [OF kept_refl] by simp
  next
    case False
    with c(4) obtain xs k where x: "abs_target (fs_view s) cwd path = Some xs" "fs_view s xs = None"
      "fs_view t = (fs_view s)(xs \<mapsto> new_entry ty)" "node_path t xs p" "fs_inv t (L(p \<mapsto> k))" by blast
    from allowed_new [OF b a pf(1) f(2) x(1,2)] have o: "own hs xs" .
    have "confined i hs s t" by (rule confined_frame [OF c(2)]) (use o x(3) in auto)
    with c(1,2) x(4,5) o show ?thesis by auto
  qed
qed

lemma write_confined:
  assumes inv: "fs_inv s L" and xs: "node_path s xs f" "own hs xs" and small: "length bytes \<le> 1000000"
  shows "ends (fs_write f bytes app s) (\<lambda>(rc, t). confined i hs s t)"
proof -
  from node_path_dom [OF inv xs(1)] obtain n where n: "nodes s f = Some n" by blast
  have f0: "f \<noteq> 0" using n fs_inv_null [OF inv] by auto
  show ?thesis
  proof (cases "n_type n = FS_FILE")
    case False
    with n f0 show ?thesis using confined_kept [OF kept_refl] by (simp add: fs_write_def fs_write_n_def)
  next
    case True
    have "(if app then unat (n_size n) else 0) + length bytes + 72 < 4294967296"
      using file_size [OF inv n] small by simp
    from fs_write_n_ok [OF inv xs(1) n True this] obtain rc t where w: "fs_write_n f bytes app s = Some (rc, t)" "fs_frame s t"
      "t = s \<or> fs_view t = (fs_view s)(xs \<mapsto> File ((if app then contents s n else []) @ bytes))" by blast
    have "confined i hs s t" by (rule confined_frame [OF w(2)]) (use w(3) xs(2) in auto)
    with w(1) show ?thesis by (simp add: fs_write_def)
  qed
qed

lemma remove_confined:
  assumes b: "bounded i hs s" and a: "target_abspath path s = Some (Some a)" "users_may_write a s"
  shows "ends (fs_remove path s) (\<lambda>(rc, t). confined i hs s t)"
proof -
  obtain L cwd where f: "fs_inv s L" "node_path s cwd (current_dir s)" using bounded_files [OF b] .
  from fs_remove_ok [OF f, of path] obtain rc t where r: "fs_remove path s = Some (rc, t)" "fs_frame s t"
    "t = s \<or> (\<exists>xs. abs_resolve (fs_view s) cwd path = Some xs \<and> fs_view t = (\<lambda>ys. if prefix xs ys then None else fs_view s ys))"
    by (auto split: option.splits if_splits)
  have "confined i hs s t"
  proof (cases "t = s")
    case True
    then show ?thesis using confined_kept [OF kept_refl] by simp
  next
    case False
    with r(3) obtain xs where x: "abs_resolve (fs_view s) cwd path = Some xs" "fs_view t = (\<lambda>ys. if prefix xs ys then None else fs_view s ys)" by blast
    from fs_resolve_ok [OF f, of path] x(1) obtain p where "fs_resolve path s = Some p" "node_path s xs p" by auto
    from allowed_existing [OF b a this] have "own hs xs" .
    then show ?thesis using own_below x(2) by (intro confined_frame [OF r(2)]) auto
  qed
  with r(1) show ?thesis by simp
qed

section \<open>The commands\<close>

lemma confined_dirty: "confined i hs s t \<Longrightarrow> confined i hs s (t\<lparr>dirty := d\<rparr>)"
  by (erule confined_after) (simp add: tree_kept_def)

lemma moves_confined [mv]: "moves (=) m0 m \<Longrightarrow> confined i hs (sys m0) s \<Longrightarrow> moves (confined i hs) m0 (m\<lparr>sys := s\<rparr>)"
  by (erule moves_sys)

lemma moves_quiet: "moves (=) m0 m \<Longrightarrow> moves (confined i hs) m0 m"
  by (erule moves_mono) (simp add: confined_kept)

lemma moves_sys_eq: "moves (=) m0 m \<Longrightarrow> sys m = sys m0"
  by (simp add: moves_def)

lemma confined_rm:
  assumes b: "bounded i hs (sys m)"
  shows "ends (cmd_rm argv m) (moves (confined i hs) m)"
proof -
  have r: "confined i hs (sys m) t" if "moves (=) m x" "target_abspath (argv ! Suc 0) (sys m) = Some (Some a)"
    "users_may_write a (sys m)" "fs_remove (argv ! Suc 0) (sys x) = Some (rc, t)" for x a rc t
    using remove_confined [OF b that(2,3)] that(4) moves_sys_eq [OF that(1)] by (simp add: ends_def)
  show ?thesis
    unfolding cmd_rm_def mark_dirty_def persist_mark_dirty_def
    by (intro wp) (auto intro!: mv confined_dirty intro: confined_kept moves_quiet r)
qed

lemma confined_create:
  assumes b: "bounded i hs (sys m)" and fits: "\<forall>w\<in>set argv. path_fits (residue G) w"
  shows "ends (cmd_mkdir G argv m) (moves (confined i hs) m)" "ends (cmd_touch G argv m) (moves (confined i hs) m)"
proof -
  have r: "confined i hs (sys m) t" if "\<not> length argv < 2" "moves (=) m x" "target_abspath (argv ! Suc 0) (sys m) = Some (Some a)"
    "users_may_write a (sys m)" "fs_create (residue G) (argv ! Suc 0) ty (sys x) = Some (p, t)" for x a p t ty
    using create_confined [OF b that(3,4), of "residue G" ty] fits that(1,5) moves_sys_eq [OF that(2)] by (auto simp: ends_def)
  show "ends (cmd_mkdir G argv m) (moves (confined i hs) m)"
    unfolding cmd_mkdir_def mark_dirty_def persist_mark_dirty_def
    by (intro wp) (auto intro!: mv confined_dirty intro: confined_kept moves_quiet r)
  show "ends (cmd_touch G argv m) (moves (confined i hs) m)"
    unfolding cmd_touch_def mark_dirty_def persist_mark_dirty_def
    by (intro wp) (auto intro!: mv confined_dirty intro: confined_kept moves_quiet r)
qed

lemma confined_admin:
  assumes b: "bounded i hs (sys m)"
  shows "ends (cmd_useradd G argv m) (moves (confined i hs) m)" "ends (cmd_userdel G argv m) (moves (confined i hs) m)"
    "ends (cmd_mkfs P G m) (\<lambda>r. moves (confined i hs) m (machine_of r))"
proof -
  have n: "users_is_root (sys m) = False" using bounded_root [OF b] by simp
  have q: "ends (require_root command m) (\<lambda>(ok, x). \<not> ok \<and> moves (=) m x)" for command
    using still_root [of command m] n by (auto simp: ends_def)
  have fail: "ends (require_root command m \<bind> f) Q" if "\<And>x. moves (=) m x \<Longrightarrow> ends (f (False, x)) Q" for command f and Q :: "'z \<Rightarrow> bool"
    by (rule ends_bind, rule ends_mono [OF q]) (auto intro: that)
  show "ends (cmd_useradd G argv m) (moves (confined i hs) m)"
    unfolding cmd_useradd_def by (rule fail) (simp add: moves_quiet)
  show "ends (cmd_userdel G argv m) (moves (confined i hs) m)"
    unfolding cmd_userdel_def by (rule fail) (simp add: moves_quiet)
  show "ends (cmd_mkfs P G m) (\<lambda>r. moves (confined i hs) m (machine_of r))"
    unfolding cmd_mkfs_def by (rule fail) (simp add: moves_quiet)
qed

lemma password_confined:
  assumes u: "users_ok s" "logged_in s = Some i" and w: "users_set_password (u_name (users s ! i)) (Some pw) s = (rc, t)"
  shows "confined i hs s t"
proof -
  have i: "i < USER_MAX" "u_active (users s ! i)" "length (users s) = USER_MAX" using u by (auto simp: users_ok_def)
  have "u_name (users s ! i) \<noteq> []" using u(1) i(1,2) valid_name_ok(5) by (auto simp: users_ok_def)
  from users_find_unique [OF u(1) this i(1,2) refl] have f: "users_find (u_name (users s ! i)) s = Some i" .
  show ?thesis
  proof (cases "t = s")
    case True
    then show ?thesis by (simp add: confined_kept)
  next
    case False
    with w f obtain h where t: "t = s\<lparr>users := (users s)[i := (users s ! i)\<lparr>u_hash := h\<rparr>]\<rparr>"
      by (auto simp: users_set_password_def split: if_splits)
    have "entry_of t = entry_of s" by (simp add: t entry_of_def contents_def fun_eq_iff)
    moreover have "nodes t = nodes s" "root_node t = root_node s" by (simp_all add: t)
    ultimately have "fs_view t = fs_view s" by (intro ext) (simp only: fs_view_def)
    with t i show ?thesis by (simp add: confined_def)
  qed
qed

lemma confined_passwd:
  assumes b: "bounded i hs (sys m)"
  shows "ends (cmd_passwd argv m) (moves (confined i hs) m)"
proof -
  have u: "users_ok (sys m)" "logged_in (sys m) = Some i" using b by (simp_all add: bounded_def)
  then have me: "users_current m = Some (users (sys m) ! i)" by (simp add: users_current_def)
  have n: "users_is_root (sys m) = False" using bounded_root [OF b] by simp
  have p: "confined i hs (sys m) t"
    if "moves (=) m x" "users_set_password (u_name (users (sys m) ! i)) (Some pw) (sys x) = (rc, t)" for x pw rc t
    using password_confined [OF u] that(2) moves_sys_eq [OF that(1)] by simp
  have own_change: "ends (change_password (u_name (users (sys m) ! i)) x) (moves (confined i hs) m)" if x: "moves (=) m x" for x
    unfolding change_password_def mark_dirty_def persist_mark_dirty_def
  proof (rule ends_bind, rule ends_mono [OF still_new_password])
    fix r :: "string option \<times> 'a machine"
    assume r: "case r of (p, y) \<Rightarrow> moves (=) x y"
    obtain q y where q: "r = (q, y)" by (cases r)
    with r moves_after x have y: "moves (=) m y" by auto
    obtain rc t where w: "users_set_password (u_name (users (sys m) ! i)) (Some (the q)) (sys y) = (rc, t)" by (rule prod.exhaust)
    with p [OF y] have t: "confined i hs (sys m) t" by blast
    show "ends (case r of (password, y) \<Rightarrow> (case password of None \<Rightarrow> Some y
      | Some pw \<Rightarrow> let (rc, s) = users_set_password (u_name (users (sys m) ! i)) (Some pw) (sys y); z = y\<lparr>sys := s\<rparr>
          in if rc = 0
             then do { z \<leftarrow> print (''password updated for %s'' @ [LF]) [str (u_name (users (sys m) ! i))] z; Some (z\<lparr>sys := (sys z)\<lparr>dirty := True\<rparr>\<rparr>) }
             else print_error ''passwd'' ''cannot change the password'' z)) (moves (confined i hs) m)"
    proof (cases q)
      case None
      with q y show ?thesis by (simp add: moves_quiet)
    next
      case (Some pw)
      with w have w': "users_set_password (u_name (users (sys m) ! i)) (Some pw) (sys y) = (rc, t)" by simp
      have z: "moves (confined i hs) m (y\<lparr>sys := t\<rparr>)" using y t by (rule moves_confined)
      have d: "moves (confined i hs) m (z\<lparr>sys := (sys z)\<lparr>dirty := True\<rparr>\<rparr>)" if "moves (confined i hs) m z" for z
        using that confined_dirty by (rule moves_sys)
      show ?thesis unfolding q Some prod.case option.case Let_def w'
        by (intro wp d mv z)
    qed
  qed
  show ?thesis
    unfolding cmd_passwd_def Let_def me
    by (intro wp own_change) (auto simp: n PASSWORD_MAX_def elim!: moves_after intro!: mv intro: moves_quiet own_change)
qed

lemma ksnprintf_length: "ksnprintf n fmt args = Some b \<Longrightarrow> length b \<le> n"
proof -
  assume k: "ksnprintf n fmt args = Some b"
  have keep: "length (fst (x :: string \<times> nat)) = length (fst x)" for x by simp
  obtain c where c: "kvsnprintf (replicate n NUL) fmt args = Some c" "b = takeWhile (\<lambda>c. c \<noteq> NUL) c"
    using k by (auto simp: ksnprintf_def)
  have "length c = n"
    using kvsnprintf_console [of "replicate n NUL" fmt args] c(1) by (cases "kprintf fmt args") (auto split: if_splits)
  with c(2) length_takeWhile_le show ?thesis by metis
qed

lemma confined_echo:
  assumes b: "bounded i hs (sys m)" and fits: "\<forall>a app target. redirection args = Some (a, app, target) \<longrightarrow> path_fits (residue G) target"
  shows "ends (cmd_echo G args m) (moves (confined i hs) m)"
proof (cases "redirection args")
  case None
  then show ?thesis unfolding cmd_echo_def by (simp, intro wp) (simp add: mv)
next
  case (Some r)
  obtain a app target where r: "r = (a, app, target)" by (cases r)
  have pf: "path_fits (residue G) target" using fits Some r by blast
  define put where "put f x = do {
      n \<leftarrow> nodes (sys x) f;
      if n_type n \<noteq> FS_FILE then print_error ''echo'' ''is a directory'' x
      else do {
        words \<leftarrow> ksnprintf (LINE_MAX + 2) (''%s'' @ [LF]) [str a];
        (rc, x) \<leftarrow> on_sys (fs_write f words app) x;
        if rc \<noteq> 0 then print_error ''echo'' ''write failed'' x else Some (mark_dirty x)
      }
    }" for f and x :: "'a machine"
  have put: "ends (put f x) (moves (confined i hs) m)"
    if x: "moves (confined i hs) m x" and f: "fs_inv (sys x) L" "node_path (sys x) xs f" "own hs xs" for f x xs L
  proof -
    have w: "confined i hs (sys m) t" if "ksnprintf (LINE_MAX + 2) (''%s'' @ [LF]) [str a] = Some words"
      "fs_write f words app (sys x) = Some (rc, t)" for words rc t
    proof -
      have "length words \<le> 1000000" using ksnprintf_length [OF that(1)] by (simp add: LINE_MAX_def)
      from write_confined [OF f this] that(2) have "confined i hs (sys x) t" by (auto simp: ends_def)
      with moves_on [OF x] confined_trans show ?thesis by blast
    qed
    have z: "moves (confined i hs) m (x\<lparr>sys := t\<rparr>)" if "confined i hs (sys m) t" for t
      using x that by (rule moves_sys)
    show ?thesis unfolding put_def mark_dirty_def persist_mark_dirty_def
      by (intro wp) (use x in \<open>auto intro!: moves_say moves_colour z confined_dirty intro: w\<close>)
  qed
  have run: "cmd_echo G args m =
      (if target = [] then print_error ''echo'' ''missing redirection target'' m
       else do {
         (ok, x) \<leftarrow> may_write ''echo'' target m;
         if \<not> ok then Some x
         else do {
           f \<leftarrow> fs_resolve target (sys x);
           (f, x) \<leftarrow> (if f = NULL then on_sys (fs_create (residue G) target FS_FILE) x else Some (f, x));
           if f = NULL then print_error ''echo'' ''cannot create file'' x else put f x
         }
       })"
    by (simp only: cmd_echo_def Some r put_def option.case prod.case)
  have old: "ends (put f x) (moves (confined i hs) m)"
    if x: "moves (=) m x" and c: "target_abspath target (sys m) = Some (Some p)" "users_may_write p (sys m)"
      "fs_resolve target (sys x) = Some f" "f \<noteq> NULL" for f x p
  proof -
    have e: "sys x = sys m" by (rule moves_sys_eq [OF x])
    obtain L cwd where f: "fs_inv (sys m) L" "node_path (sys m) cwd (current_dir (sys m))" using bounded_files [OF b] .
    from resolve_path [OF f _ c(4)] c(3) e obtain xs where xs: "node_path (sys m) xs f" by auto
    from allowed_existing [OF b c(1,2) _ xs] c(3) e have "own hs xs" by simp
    from put [OF moves_quiet [OF x] _ _ this, of L] f xs e show ?thesis by simp
  qed
  have new: "moves (confined i hs) m (x\<lparr>sys := t\<rparr>) \<and> (f \<noteq> NULL \<longrightarrow> ends (put f (x\<lparr>sys := t\<rparr>)) (moves (confined i hs) m))"
    if x: "moves (=) m x" and c: "target_abspath target (sys m) = Some (Some p)" "users_may_write p (sys m)"
      "fs_create (residue G) target FS_FILE (sys x) = Some (f, t)" for f x p t
  proof -
    have e: "sys x = sys m" by (rule moves_sys_eq [OF x])
    from create_confined [OF b c(1,2) pf, of FS_FILE] c(3) e have t: "confined i hs (sys m) t"
      "f \<noteq> NULL \<longrightarrow> (\<exists>xs L. own hs xs \<and> fs_inv t L \<and> node_path t xs f)" by (auto simp: ends_def)
    have z: "moves (confined i hs) m (x\<lparr>sys := t\<rparr>)" using x t(1) by (rule moves_confined)
    with t(2) put [OF z] show ?thesis by auto
  qed
  show ?thesis
    unfolding run by (intro wp) (auto intro!: moves_say moves_colour intro: moves_quiet mv old dest: new)
qed

section \<open>The words of a line\<close>

text \<open>A line whose names are safe from the byte that \<open>fs_create\<close> leaves uninitialised.\<close>

definition line_fits :: "char \<Rightarrow> string \<Rightarrow> bool" where
  "line_fits r line \<longleftrightarrow> NUL \<notin> set line \<and>
     (r = NUL \<or> (\<forall>u. sublist u line \<longrightarrow> (\<forall>c\<in>set u. not_slash c) \<longrightarrow> length u < FS_NAME_MAX - 1))"

lemma sublist_parts:
  "sublist (takeWhile f xs) xs" "sublist (dropWhile f xs) xs" "sublist (take n xs) xs" "sublist (drop n xs) xs"
  by (simp_all add: prefix_imp_sublist suffix_imp_sublist takeWhile_is_prefix take_is_prefix suffix_dropWhile suffix_drop)

lemmas sublist_in = sublist_order.order_trans [OF _ sublist_parts(1)] sublist_order.order_trans [OF _ sublist_parts(2)]
  sublist_order.order_trans [OF _ sublist_parts(3)] sublist_order.order_trans [OF _ sublist_parts(4)]

lemma components_sublist: "c \<in> set (components buf) \<Longrightarrow> sublist c buf \<and> (\<forall>x\<in>set c. not_slash x)"
proof (induction buf rule: components.induct)
  case (1 buf)
  let ?b = "dropWhile (\<lambda>c. \<not> not_slash c) buf"
  show ?case
  proof (cases "?b = []")
    case True
    then have "components buf = []" by (simp only: components_Nil)
    with "1.prems" show ?thesis by simp
  next
    case False
    with "1.prems" consider "c = take (FS_NAME_MAX - 1) (takeWhile not_slash ?b)" | "c \<in> set (components (dropWhile not_slash ?b))"
      using components_Cons [OF False] by auto
    then show ?thesis
    proof cases
      case 1
      then have "sublist c buf" using sublist_parts(3) by (blast intro: sublist_in)
      with 1 show ?thesis by (auto dest: in_set_takeD set_takeWhileD)
    next
      case 2
      with "1.IH" [OF refl False] show ?thesis by (blast intro: sublist_in)
    qed
  qed
qed

lemma fits_part:
  assumes "line_fits r line" "sublist path line" shows "path_fits r path"
proof -
  have "length c < FS_NAME_MAX - 1" if r: "r \<noteq> NUL" and c: "c \<in> set (path_comps path)" for c
  proof -
    have "sublist c (take (FS_PATH_MAX - 1) path)" "\<forall>x\<in>set c. not_slash x"
      using components_sublist c by (auto simp: path_comps_def)
    then have "sublist c line" using assms(2) sublist_in(3) sublist_order.order_trans by blast
    with assms(1) r \<open>\<forall>x\<in>set c. not_slash x\<close> show ?thesis by (simp add: line_fits_def)
  qed
  moreover have "NUL \<notin> set path" using assms set_mono_sublist by (fastforce simp: line_fits_def)
  ultimately show ?thesis by (auto simp: path_fits_def)
qed

lemma split_args_sublist: "w \<in> set (split_args n cs) \<Longrightarrow> sublist w cs"
proof (induction n arbitrary: cs)
  case (Suc n)
  show ?case
  proof (cases "dropWhile is_space cs")
    case Nil
    with Suc.prems show ?thesis by simp
  next
    case (Cons d ds)
    have s: "sublist (d # ds) cs" using sublist_parts(2) [of is_space cs] Cons by simp
    from Suc.prems Cons consider "w = d # ds" | "w = takeWhile (\<lambda>c. \<not> is_space c) (d # ds)"
      | "w \<in> set (split_args n (dropWhile (\<lambda>c. \<not> is_space c) (d # ds)))"
      by (auto simp del: takeWhile.simps dropWhile.simps split: if_splits)
    then show ?thesis
    proof cases
      case 1
      with s show ?thesis by simp
    next
      case 2
      with s sublist_parts(1) sublist_order.order_trans show ?thesis by blast
    next
      case 3
      with Suc.IH sublist_in(2) s sublist_order.order_trans show ?thesis by blast
    qed
  qed
qed simp

lemma byte_char: "char_of (unat (of_char c :: u8)) = c"
proof -
  have "(of_char c :: u8) = of_nat (of_char c :: nat)" by (simp only: of_nat_of_char)
  moreover have "(of_char c :: nat) < 2 ^ LENGTH(8)" by simp
  ultimately have "unat (of_char c :: u8) = (of_char c :: nat)" by (simp only: unat_of_nat take_bit_eq_mod mod_less)
  then show ?thesis by simp
qed

lemma split_line_sublist: "w \<in> set (split_line line) \<Longrightarrow> sublist w line"
proof -
  assume "w \<in> set (split_line line)"
  then obtain u where u: "u \<in> set (split_args ARGS_MAX (map of_char line))" "w = map (\<lambda>b :: u8. char_of (unat b)) u"
    by (auto simp: split_line_def)
  from map_mono_sublist [OF split_args_sublist [OF u(1)], of "\<lambda>b :: u8. char_of (unat b)"] u(2)
  show ?thesis by (simp add: comp_def byte_char)
qed

lemma rtrim_sublist: "sublist (rtrim s) s"
proof -
  have "suffix (dropWhile (\<lambda>c. c = CHR '' '') (rev s)) (rev s)" by (rule suffix_dropWhile)
  then have "prefix (rtrim s) s" by (simp add: rtrim_def suffix_to_prefix)
  then show ?thesis by (rule prefix_imp_sublist)
qed

lemma redirection_sublist: "redirection args = Some (a, app, target) \<Longrightarrow> sublist target args"
proof -
  assume r: "redirection args = Some (a, app, target)"
  then obtain c rest where c: "dropWhile (\<lambda>c. c \<noteq> CHR ''>'') args = c # rest" by (auto simp: redirection_def split: list.splits)
  have s: "sublist (c # rest) args" using sublist_parts(2) [of "\<lambda>c. c \<noteq> CHR ''>''" args] c by simp
  then have t: "sublist rest args" "sublist (tl rest) args"
    using sublist_order.order_trans [of rest "c # rest"] sublist_order.order_trans [of "tl rest" rest]
    by (auto intro: suffix_imp_sublist suffix_ConsI suffix_tl)
  define x where "x = (if rest \<noteq> [] \<and> hd rest = CHR ''>'' then tl rest else rest)"
  note parts = r [unfolded redirection_def c list.case Let_def option.inject prod.inject]
  from parts [THEN conjunct2, THEN conjunct2] have e: "target = rtrim (dropWhile (\<lambda>c. c = CHR '' '') x)"
    unfolding x_def by (rule sym)
  have "sublist x args" using t by (auto simp: x_def)
  moreover have "sublist target x" unfolding e by (rule sublist_order.order_trans [OF rtrim_sublist sublist_parts(2)])
  ultimately show ?thesis by (rule sublist_order.order_trans [rotated])
qed

section \<open>Every line\<close>

lemma execute_confined:
  assumes b: "bounded i hs (sys m)" and fits: "line_fits (residue G) line"
  shows "ends (execute P G line m) (\<lambda>r. moves (confined i hs) m (machine_of r))"
proof -
  have argv: "\<forall>w\<in>set (split_line line). path_fits (residue G) w" using fits_part [OF fits] split_line_sublist by blast
  have echo: "ends (cmd_echo G args m) (moves (confined i hs) m)"
    if a: "args = dropWhile (\<lambda>c. c = CHR '' '') (drop (length ''echo'') (take (LINE_MAX - 1) line))" for args
  proof (rule confined_echo [OF b], intro allI impI)
    fix x app target assume "redirection args = Some (x, app, target)"
    from redirection_sublist [OF this] have "sublist target line" unfolding a using sublist_in by metis
    then show "path_fits (residue G) target" by (rule fits_part [OF fits])
  qed
  show ?thesis
    by (intro execute_moves confined_kept echo confined_create [OF b argv] confined_rm [OF b] confined_admin [OF b] confined_passwd [OF b])
qed

lemma run_line_confined:
  assumes b: "bounded i hs (sys m)" and fits: "line_fits (residue G) line"
  shows "ends (run_line P G line m) (\<lambda>r. confined i hs (sys m) (sys (machine_of r)))"
proof -
  let ?m = "m\<lparr>con := console_history_push (Some line) (con m)\<rparr>"
  have b': "bounded i hs (sys ?m)" using b by simp
  have flushed: "ends (on_sys (persist_flush P) x \<bind> f) Q"
    if "confined i hs (sys m) (sys x)" "\<And>rc y. confined i hs (sys m) (sys y) \<Longrightarrow> ends (f (rc, y)) Q" for x f and Q :: "'z \<Rightarrow> bool"
    by (rule ends_bind, rule ends_mono [OF flush_moves]) (auto intro!: that(2) confined_after [OF that(1)] dest: moves_on)
  show ?thesis
    unfolding run_line_def
  proof (rule ends_bind, rule ends_mono [OF execute_confined [OF b' fits]])
    fix r assume "moves (confined i hs) ?m (machine_of r)"
    from moves_on [OF this] have c: "confined i hs (sys m) (sys (machine_of r))" by simp
    show "ends (case r of Back x \<Rightarrow> on_sys (persist_flush P) x \<bind>
        (\<lambda>(rc, x). map_option Back (if rc \<noteq> 0 then print_error ''sync'' ''could not write changes to disk'' x else Some x)) | Off x \<Rightarrow> Some (Off x))
        (\<lambda>r. confined i hs (sys m) (sys (machine_of r)))"
    proof (cases r)
      case (Off x)
      with c show ?thesis by simp
    next
      case (Back x)
      with c have "confined i hs (sys m) (sys x)" by simp
      then show ?thesis unfolding Back outcome.case by (rule flushed) (simp only: prod.case, intro wp, auto)
    qed
  qed
qed

end
