(* ===== verification/Shell_Session.thy ===== *)
theory Shell_Session
  imports Shell_Confine
begin

text \<open>
  A session of the shell as steps: one for the prompt, one for each key, one for the line that a key
  ends.  \<open>session_loop\<close> is what these steps lead to.  The line editor and the screen stay well formed
  through all of them, in sessions that never end as well.
\<close>

section \<open>The screen through a session\<close>

lemma prompt_screen: "print_prompt m = Some f \<Longrightarrow> vga_inv v \<Longrightarrow> vga_inv (f v)"
  by (auto simp: print_prompt_def bind_eq_Some_conv put_text_def Let_def comp_def vga_inv_ops vga_set_color_inv)

lemma execute_neat: "ends (execute P G line m) (\<lambda>r. moves anything m (machine_of r))"
  by (intro execute_moves any_echo any_files any_accounts any_passwd any_mkfs) simp

lemma run_line_neat: "neat m \<Longrightarrow> ends (run_line P G line m) (\<lambda>r. neat (machine_of r))"
proof -
  assume n: "neat m"
  let ?m = "m\<lparr>con := console_history_push (Some line) (con m)\<rparr>"
  have p: "neat ?m" using n push_recent(2) by (auto simp: neat_def)
  have after: "ends (on_sys (persist_flush P) x \<bind> (\<lambda>(rc, x). map_option Back
      (if rc \<noteq> 0 then print_error ''sync'' ''could not write changes to disk'' x else Some x))) (\<lambda>r. neat (machine_of r))"
    if x: "neat x" for x
  proof (rule ends_bind, rule ends_mono [OF flush_moves], simp only: split_paired_all prod.case, intro wp)
    fix rc y s
    assume m: "moves tree_kept x y"
    show "neat (machine_of (Back y))" using moves_neat [OF m x] by simp
    show "neat (machine_of (Back (colour VGA_LIGHT_GREY (say s (colour VGA_LIGHT_RED y)))))"
      using moves_neat [OF moves_colour [OF moves_say [OF moves_colour [OF m]]] x] by simp
  qed
  show ?thesis unfolding run_line_def
  proof (rule ends_bind, rule ends_mono [OF execute_neat])
    fix r assume r: "moves anything ?m (machine_of r)"
    then have n: "neat (machine_of r)" using moves_neat p by blast
    show "ends (case r of Back x \<Rightarrow> on_sys (persist_flush P) x \<bind> (\<lambda>(rc, x). map_option Back
      (if rc \<noteq> 0 then print_error ''sync'' ''could not write changes to disk'' x else Some x)) | Off x \<Rightarrow> Some (Off x)) (\<lambda>r. neat (machine_of r))"
      using n after by (cases r) simp_all
  qed
qed

section \<open>The steps of a session\<close>

text \<open>
  \<open>Prompt n m\<close> is the machine before turn \<open>n\<close>; \<open>Typing n f m e\<close> is inside \<open>console_read_line\<close>, with the
  prompt \<open>f\<close>, the locals \<open>e\<close> and in them the screen; \<open>keystrokes m\<close> are the keys still to come.
\<close>

datatype 'd session = Prompt nat "'d machine" | Typing nat "vga \<Rightarrow> vga" "'d machine" edit | Ended "'d machine outcome"

definition fresh_edit :: "'d machine \<Rightarrow> vga \<Rightarrow> edit" where
  "fresh_edit m v = \<lparr>ed_vga = v, ed_out = [], ed_length = 0, ed_drawn = 0, ed_browse = history_total (con m)\<rparr>"

abbreviation typed :: "(vga \<Rightarrow> vga) \<Rightarrow> 'd machine \<Rightarrow> int \<Rightarrow> edit \<Rightarrow> bool option \<times> edit" where
  "typed f m k e \<equiv> read_key (con m) 255 CONSOLE_ECHO_PLAIN True (Some f) k e"

text \<open>The line is there: nothing for an empty one or after Ctrl-C, else its command.\<close>

definition entered :: "'d ports \<Rightarrow> around \<Rightarrow> bool \<Rightarrow> edit \<Rightarrow> 'd machine \<Rightarrow> 'd machine outcome option" where
  "entered P G ok e m =
     (let m = m\<lparr>display := ed_vga e\<rparr> in if \<not> ok \<or> ed_out e = [] then Some (Back m) else run_line P G (ed_out e) m)"

inductive session_step :: "'d ports \<Rightarrow> (nat \<Rightarrow> around) \<Rightarrow> 'd session \<Rightarrow> 'd session \<Rightarrow> bool" for P G where
  closed: "\<not> session_open m \<Longrightarrow> session_step P G (Prompt n m) (Ended (Back m))"
| prompt: "session_open m \<Longrightarrow> print_prompt m = Some f \<Longrightarrow> session_step P G (Prompt n m) (Typing n f m (fresh_edit m (f (display m))))"
| key: "keystrokes m = k # ks \<Longrightarrow> typed f m k e = (None, e') \<Longrightarrow> session_step P G (Typing n f m e) (Typing n f (m\<lparr>keystrokes := ks\<rparr>) e')"
| line: "keystrokes m = k # ks \<Longrightarrow> typed f m k e = (Some ok, e') \<Longrightarrow> entered P (G n) ok e' (m\<lparr>keystrokes := ks\<rparr>) = Some (Back y) \<Longrightarrow>
    session_step P G (Typing n f m e) (Prompt (n + 1) y)"
| off: "keystrokes m = k # ks \<Longrightarrow> typed f m k e = (Some ok, e') \<Longrightarrow> entered P (G n) ok e' (m\<lparr>keystrokes := ks\<rparr>) = Some (Off y) \<Longrightarrow>
    session_step P G (Typing n f m e) (Ended (Off y))"

inductive session_reaches :: "'d ports \<Rightarrow> (nat \<Rightarrow> around) \<Rightarrow> 'd session \<Rightarrow> 'd session \<Rightarrow> bool" for P G x where
  here: "session_reaches P G x x"
| next_step: "session_reaches P G x y \<Longrightarrow> session_step P G y z \<Longrightarrow> session_reaches P G x z"

lemma session_reaches_trans: "session_reaches P G y z \<Longrightarrow> session_reaches P G x y \<Longrightarrow> session_reaches P G x z"
  by (induction rule: session_reaches.induct) (auto intro: session_reaches.intros)

lemma session_reaches_step: "session_step P G x y \<Longrightarrow> session_reaches P G x y"
  by (blast intro: session_reaches.intros)

section \<open>The invariant of the steps\<close>

fun session_ok :: "'d session \<Rightarrow> bool" where
  "session_ok (Prompt n m) = (console_ok (con m) \<and> vga_inv (display m))"
| "session_ok (Typing n f m e) = (console_ok (con m) \<and> vga_inv (ed_vga e) \<and>
     ed_length e = int (length (ed_out e)) \<and> length (ed_out e) < LINE_MAX \<and> ed_drawn e = ed_length e \<and>
     history_total (con m) - int (length (recent (con m))) \<le> ed_browse e \<and> ed_browse e \<le> history_total (con m))"
| "session_ok (Ended r) = (console_ok (con (machine_of r)) \<and> vga_inv (display (machine_of r)))"

definition steady_state :: "'d session \<Rightarrow> bool" where
  "steady_state x = (case x of Prompt n m \<Rightarrow> neat m | Ended r \<Rightarrow> neat (machine_of r)
     | Typing n f m e \<Rightarrow> console_ok (con m) \<and> (\<forall>v. vga_inv v \<longrightarrow> vga_inv (f v)) \<and> (\<exists>st. edits (con m) 255 CONSOLE_ECHO_PLAIN e st))"

lemma steady_state_ok: "steady_state x \<Longrightarrow> session_ok x"
  by (cases x) (auto simp: steady_state_def neat_def edits_def LINE_MAX_def)

lemma ending_key:
  shows "fst (read_key c limit echo h p k e) \<noteq> None \<longleftrightarrow> ends_line k"
    "vga_inv (ed_vga e) \<Longrightarrow> read_key c limit echo h p k e = (Some b, e') \<Longrightarrow> vga_inv (ed_vga e')"
proof -
  show n: "fst (read_key c limit echo h p k e) \<noteq> None \<longleftrightarrow> ends_line k" by (cases "k = 10"; cases "k = 3") (simp_all add: read_key_def ends_line_def key_defs)
  assume v: "vga_inv (ed_vga e)" "read_key c limit echo h p k e = (Some b, e')"
  with n have "k = 10 \<or> k = 3" by (simp add: ends_line_def)
  with v show "vga_inv (ed_vga e')" by (elim disjE) (auto simp: read_key_def cut_out_def on_vga_def vga_inv_ops)
qed

lemma entered_neat:
  assumes "console_ok (con m)" "vga_inv (ed_vga e)" "entered P G ok e m = Some r"
  shows "neat (machine_of r)"
proof -
  have "neat (m\<lparr>display := ed_vga e\<rparr>)" using assms(1,2) by (simp add: neat_def)
  with assms(3) run_line_neat [of "m\<lparr>display := ed_vga e\<rparr>" P G "ed_out e"] show ?thesis
    by (auto simp: entered_def ends_def Let_def split: if_splits)
qed

lemma step_ok: "session_step P G x y \<Longrightarrow> steady_state x \<Longrightarrow> steady_state y"
proof (induction rule: session_step.induct)
  case (closed m n)
  then show ?case by (simp add: steady_state_def)
next
  case (prompt m f n)
  then have n: "console_ok (con m)" "vga_inv (display m)" by (simp_all add: steady_state_def neat_def)
  have "edits (con m) 255 CONSOLE_ECHO_PLAIN (fresh_edit m (f (display m))) ([], length (recent (con m)))"
    using prompt_screen [OF prompt(2) n(2)] by (simp add: edits_def fresh_edit_def)
  with n prompt_screen [OF prompt(2)] show ?case by (auto simp: steady_state_def)
next
  case (key m k ks f e e' n)
  then obtain st where a: "console_ok (con m)" "\<forall>v. vga_inv v \<longrightarrow> vga_inv (f v)" "edits (con m) 255 CONSOLE_ECHO_PLAIN e st"
    by (auto simp: steady_state_def)
  have "\<not> ends_line k" using ending_key(1) [of "con m" 255 CONSOLE_ECHO_PLAIN True "Some f" k e] key(2) by simp
  from read_key_edits [OF a(1,3) _ this, of "Some f" True] a(2) key(2) have
    "edits (con m) 255 CONSOLE_ECHO_PLAIN e' (edit_step (recent (con m)) 255 True k st)" by auto
  then have "\<exists>st. edits (con m) 255 CONSOLE_ECHO_PLAIN e' st" by (rule exI)
  with a(1,2) show ?case by (simp only: steady_state_def session.case) simp
next
  case (line m k ks f e ok e' n y)
  then obtain st where a: "console_ok (con m)" "edits (con m) 255 CONSOLE_ECHO_PLAIN e st" by (auto simp: steady_state_def)
  then have "vga_inv (ed_vga e)" by (simp add: edits_def)
  from ending_key(2) [OF this line(2)] have "vga_inv (ed_vga e')" .
  with entered_neat [OF _ this line(3)] a(1) show ?case by (simp add: steady_state_def)
next
  case (off m k ks f e ok e' n y)
  then obtain st where a: "console_ok (con m)" "edits (con m) 255 CONSOLE_ECHO_PLAIN e st" by (auto simp: steady_state_def)
  then have "vga_inv (ed_vga e)" by (simp add: edits_def)
  from ending_key(2) [OF this off(2)] have "vga_inv (ed_vga e')" .
  with entered_neat [OF _ this off(3)] a(1) show ?case by (simp add: steady_state_def)
qed

lemma reached_ok: "session_reaches P G x y \<Longrightarrow> steady_state x \<Longrightarrow> session_ok y"
proof -
  have "session_reaches P G x y \<Longrightarrow> steady_state x \<Longrightarrow> steady_state y"
    by (induction rule: session_reaches.induct) (auto intro: step_ok)
  then show "session_reaches P G x y \<Longrightarrow> steady_state x \<Longrightarrow> session_ok y" by (blast intro: steady_state_ok)
qed

section \<open>The loop and the steps\<close>

definition after_turn :: "'d ports \<Rightarrow> (nat \<Rightarrow> around) \<Rightarrow> nat \<Rightarrow> 'd machine outcome option \<Rightarrow> 'd machine outcome option" where
  "after_turn P G n r = r \<bind> (\<lambda>r. case r of Off m \<Rightarrow> Some (Off m) | Back m \<Rightarrow> session_loop P G (n + 1) m)"

text \<open>What the loop still comes to.\<close>

fun resume :: "'d ports \<Rightarrow> (nat \<Rightarrow> around) \<Rightarrow> 'd session \<Rightarrow> 'd machine outcome option" where
  "resume P G (Prompt n m) = session_loop P G n m"
| "resume P G (Ended r) = Some r"
| "resume P G (Typing n f m e) = after_turn P G n
     (read_keys (con m) 255 CONSOLE_ECHO_PLAIN True (Some f) (keystrokes m) e \<bind>
        (\<lambda>(ok, e', ks). entered P (G n) ok e' (m\<lparr>keystrokes := ks\<rparr>)))"

lemma session_loop_prompt: "session_open m \<Longrightarrow> session_loop P G n m = after_turn P G n (shell_turn P (G n) m)"
  by (subst session_loop.simps) (simp add: after_turn_def del: One_nat_def)

lemma display_last: "m\<lparr>keystrokes := ks, display := v\<rparr> = m\<lparr>display := v, keystrokes := ks\<rparr>"
  by (cases m) simp

lemma shell_turn_typing:
  "print_prompt m = Some f \<Longrightarrow> shell_turn P G m =
     read_keys (con m) 255 CONSOLE_ECHO_PLAIN True (Some f) (keystrokes m) (fresh_edit m (f (display m))) \<bind>
       (\<lambda>(ok, e', ks). entered P G ok e' (m\<lparr>keystrokes := ks\<rparr>))"
  by (auto simp: shell_turn_def read_line_def console_read_line_def fresh_edit_def LINE_MAX_def entered_def Let_def display_last split: Option.bind_splits option.splits)

lemma step_resume: "session_step P G x y \<Longrightarrow> resume P G x = resume P G y"
proof (induction rule: session_step.induct)
  case (closed m n)
  then show ?case by (simp add: session_loop.simps)
next
  case (prompt m f n)
  then show ?case by (simp add: session_loop_prompt shell_turn_typing fresh_edit_def)
qed (simp_all add: after_turn_def)

lemma reaches_resume: "session_reaches P G x y \<Longrightarrow> resume P G x = resume P G y"
  by (induction rule: session_reaches.induct) (simp_all add: step_resume)

lemma keys_reach:
  "read_keys (con m) 255 CONSOLE_ECHO_PLAIN True (Some f) (keystrokes m) e = Some (ok, e', ks) \<Longrightarrow>
     \<exists>k e0. session_reaches P G (Typing n f m e) (Typing n f (m\<lparr>keystrokes := k # ks\<rparr>) e0) \<and> typed f m k e0 = (Some ok, e')"
proof (induction "keystrokes m" arbitrary: m e)
  case Nil
  from Nil.prems show ?case by (simp add: Nil.hyps [symmetric])
next
  case (Cons k rest)
  obtain b e1 where t: "typed f m k e = (b, e1)" by force
  show ?case
  proof (cases b)
    case None
    let ?m = "m\<lparr>keystrokes := rest\<rparr>"
    have s: "session_step P G (Typing n f m e) (Typing n f ?m e1)" by (rule key [OF Cons.hyps(2) [symmetric]]) (use t None in simp)
    have "read_keys (con ?m) 255 CONSOLE_ECHO_PLAIN True (Some f) (keystrokes ?m) e1 = Some (ok, e', ks)"
      using Cons.prems t None by (simp add: Cons.hyps(2) [symmetric])
    from Cons.hyps(1) [OF _ this] obtain k0 e0 where
      "session_reaches P G (Typing n f ?m e1) (Typing n f (?m\<lparr>keystrokes := k0 # ks\<rparr>) e0)" "typed f ?m k0 e0 = (Some ok, e')" by auto
    with session_reaches_trans [OF _ session_reaches_step [OF s]] show ?thesis by auto
  next
    case (Some b0)
    with Cons.prems t have "b0 = ok" "e1 = e'" "rest = ks" by (simp_all add: Cons.hyps(2) [symmetric])
    moreover have "m\<lparr>keystrokes := k # rest\<rparr> = m" by (simp add: Cons.hyps(2))
    ultimately show ?thesis using t Some session_reaches.here by metis
  qed
qed

lemma turn_reach:
  assumes o: "session_open m" and t: "shell_turn P (G n) m = Some r"
  shows "session_reaches P G (Prompt n m) (case r of Back y \<Rightarrow> Prompt (n + 1) y | Off y \<Rightarrow> Ended (Off y))"
proof -
  obtain f where f: "print_prompt m = Some f" using t by (auto simp: shell_turn_def bind_eq_Some_conv)
  obtain ok e' ks where k: "read_keys (con m) 255 CONSOLE_ECHO_PLAIN True (Some f) (keystrokes m) (fresh_edit m (f (display m))) =
      Some (ok, e', ks)" "entered P (G n) ok e' (m\<lparr>keystrokes := ks\<rparr>) = Some r"
    using t by (auto simp: shell_turn_typing [OF f] bind_eq_Some_conv)
  from keys_reach [OF k(1), of P G n] obtain k0 e0 where
    r: "session_reaches P G (Typing n f m (fresh_edit m (f (display m)))) (Typing n f (m\<lparr>keystrokes := k0 # ks\<rparr>) e0)"
      "typed f m k0 e0 = (Some ok, e')" by blast
  have "session_step P G (Typing n f (m\<lparr>keystrokes := k0 # ks\<rparr>) e0) (case r of Back y \<Rightarrow> Prompt (n + 1) y | Off y \<Rightarrow> Ended (Off y))"
    using k(2) r(2) by (cases r) (auto intro: session_step.line session_step.off simp del: One_nat_def Suc_eq_plus1)
  then show ?thesis using session_reaches_trans [OF r(1) session_reaches_step [OF session_step.prompt [OF o f]]] session_reaches.next_step by blast
qed

lemma session_loop_reaches: "session_loop P G n m = Some r \<Longrightarrow> session_reaches P G (Prompt n m) (Ended r)"
proof (erule session_loop.raw_induct [where Pa = "\<lambda>(((P, G), n), m) r. session_reaches P G (Prompt n m) (Ended r)", rotated, simplified])
  fix f P G n m r
  assume IH: "\<And>P G n m r. f P G n m = Some r \<Longrightarrow> session_reaches P G (Prompt n m) (Ended (r :: 'a machine outcome))"
    and r: "(if \<not> session_open m then Some (Back m)
      else do { r \<leftarrow> shell_turn P (G n) m; (case r of Off m \<Rightarrow> Some (Off m) | Back m \<Rightarrow> f P G (n + 1) m) }) = Some r"
  show "session_reaches P G (Prompt n m) (Ended r)"
  proof (cases "session_open m")
    case False
    with r show ?thesis by (auto intro: session_reaches_step closed)
  next
    case True
    with r obtain q where q: "shell_turn P (G n) m = Some q" "(case q of Off m \<Rightarrow> Some (Off m) | Back m \<Rightarrow> f P G (n + 1) m) = Some r"
      by (auto simp: bind_eq_Some_conv simp del: One_nat_def)
    note t = turn_reach [of m P G n, OF True q(1)]
    show ?thesis
    proof (cases q)
      case (Back y)
      with q(2) IH have "session_reaches P G (Prompt (n + 1) y) (Ended r)" by simp
      with t Back show ?thesis by (simp add: session_reaches_trans)
    next
      case (Off y)
      with q(2) t show ?thesis by auto
    qed
  qed
qed

lemma session_loop_steps: "session_loop P G n m = Some r \<longleftrightarrow> session_reaches P G (Prompt n m) (Ended r)"
  using session_loop_reaches reaches_resume [of P G "Prompt n m" "Ended r"] by auto

end
