(* ===== verification/Shell_Spec.thy ===== *)
theory Shell_Spec
  imports Shell_Session
begin

text \<open>
  The properties of the shell: what an everyday account can change, and the state of the screen.
\<close>

section \<open>A session on a concrete machine\<close>

definition demo_table :: "user list" where
  "demo_table = account ''root'' ''thunder'' True 0 # account ''eve'' ''apple'' False 1000 # replicate 6 zero_user"

text \<open>The second account is logged in, over a given filesystem, with a data disk.\<close>

definition demo_system :: "fs_state \<Rightarrow> ata_view persist" where
  "demo_system s = users_state.extend (fs_state.extend s \<lparr>users = demo_table, logged_in = Some 1, next_uid = 1001\<rparr>)
     \<lparr>disk = demo_ata, p_state = PERSIST_EMPTY, dirty = False, bytes_used = 0, save_count = 0, sealed = False,
      data_drive = ATA_SLAVE, data_base = 0, data_where = ''primary slave, sector 0 (blank)''\<rparr>"

definition demo_session :: "fs_state \<Rightarrow> int list \<Rightarrow> ata_view machine" where
  "demo_session s ks =
     \<lparr>sys = demo_system s, sch = no_sched, display = vga_init raw_vga, con = fresh_console, keystrokes = ks, rodent = wheel_mouse,
      session_open = True, boot_flag = 0, image_copy = None, image_bytes = 0\<rparr>"

definition demo_around :: around where
  "demo_around = \<lparr>stamp = ''2024-01-01'', residue = NUL, now = 0, esp_now = 0, bootstrap_at = 0, worker_at = 0, ticker_at = 0,
     session_at = 0, meanwhile = id\<rparr>"

lemma demo_system_fs:
  assumes "fs_inv s L" "node_path s [] (current_dir s)"
  shows "files_ok (others s L) (demo_system s)" "fs_view (demo_system s) = fs_view s" "fs_inv (demo_system s) L"
    "node_path (demo_system s) [] (current_dir (demo_system s))"
proof -
  show inv: "fs_inv (demo_system s) L"
    using assms by (simp add: demo_system_def fs_inv_def mem_holds_def heap_rep_def fs_state.defs users_state.defs)
  show cwd: "node_path (demo_system s) [] (current_dir (demo_system s))"
    using assms by (simp add: demo_system_def fs_state.defs users_state.defs)
  have "others (demo_system s) L = others s L" by (simp add: demo_system_def others_def fs_state.defs users_state.defs)
  with inv cwd show "files_ok (others s L) (demo_system s)" unfolding files_ok_def by blast
  have "entry_of (demo_system s) = entry_of s" by (simp add: demo_system_def entry_of_def contents_def fun_eq_iff fs_state.defs users_state.defs)
  moreover have "nodes (demo_system s) = nodes s" "root_node (demo_system s) = root_node s"
    by (simp_all add: demo_system_def fs_state.defs users_state.defs)
  ultimately show "fs_view (demo_system s) = fs_view s" by (intro ext) (simp only: fs_view_def)
qed

lemma demo_system_users:
  "users_ok (demo_system s)" "logged_in (demo_system s) = Some 1" "users (demo_system s) ! 1 = account ''eve'' ''apple'' False 1000"
  "\<not> dirty (demo_system s)"
proof -
  have u: "users (demo_system s) = demo_table" "logged_in (demo_system s) = Some 1"
    by (simp_all add: demo_system_def users_state.defs fs_state.defs)
  have v: "valid_name ''root''" "valid_name ''eve''" by (simp_all add: valid_name_def USER_NAME_MAX_def name_char_def is_digit_def)
  show "users_ok (demo_system s)"
    using v by (simp add: users_ok_def u demo_table_def nth_Cons' account_def zero_user_def USER_MAX_def USER_HOME_MAX_def)
  show "logged_in (demo_system s) = Some 1" by (rule u(2))
  show "users (demo_system s) ! 1 = account ''eve'' ''apple'' False 1000" by (simp add: u demo_table_def)
  show "\<not> dirty (demo_system s)" by (simp add: demo_system_def fs_state.defs users_state.defs)
qed

text \<open>\<open>exit\<close> typed at the prompt.\<close>

lemma exit_typed:
  assumes g: "print_prompt m = Some g" and m: "con m = fresh_console" "vga_inv (display m)" "keystrokes m = [101, 120, 105, 116, 10]"
  shows "\<exists>v. read_line LINE_MAX CONSOLE_ECHO_PLAIN True (Some g) (m\<lparr>display := g (display m)\<rparr>) =
    Some (True, ''exit'', m\<lparr>display := v, keystrokes := []\<rparr>)"
proof -
  have gv: "vga_inv v \<Longrightarrow> vga_inv (g v)" for v using prompt_screen [OF g] .
  have keys: "dropWhile (\<lambda>k. \<not> ends_line k) [101, 120, 105, 116, 10] = [10]"
    "takeWhile (\<lambda>k. \<not> ends_line k) [101, 120, 105, 116, 10] = [101, 120, 105, 116]" by (simp_all add: ends_line_def)
  have line: "edit_line [] (min LINE_MAX LINE_MAX - 1) True [101, 120, 105, 116] ([], length ([] :: string list)) = (''exit'', 0)" by code_simp
  have gs: "\<forall>f w. Some g = Some f \<longrightarrow> vga_inv w \<longrightarrow> vga_inv (f w)" using gv by simp
  from console_read_line_edits [OF fresh_console_ok(1) gv [OF m(2)] _ gs, where keys = "[101, 120, 105, 116, 10]" and echo = CONSOLE_ECHO_PLAIN and use_history = True and sz = LINE_MAX]
  obtain v where "console_read_line LINE_MAX CONSOLE_ECHO_PLAIN True (Some g) [101, 120, 105, 116, 10] fresh_console (g (display m)) =
      Some (True, ''exit'', v, [])" unfolding keys fresh_console_ok(2) line by (auto simp: LINE_MAX_def)
  then show ?thesis using m by (intro exI [of _ v]) (simp add: read_line_def)
qed

lemma demo_exit:
  assumes inv: "fs_inv s L" and cwd: "node_path s [] (current_dir s)"
  shows "\<exists>m. session_loop demo_ports (\<lambda>_. demo_around) 0 (demo_session s [101, 120, 105, 116, 10]) = Some (Back m) \<and> \<not> session_open m"
proof -
  let ?s = "demo_system s" and ?m = "demo_session s [101, 120, 105, 116, 10]"
  note f = demo_system_fs [OF inv cwd] and u = demo_system_users [of s]
  have "fs_abspath (current_dir ?s) [] FS_PATH_MAX ?s = Some ''/''"
    using fs_abspath_path [OF f(3,4), of FS_PATH_MAX "[]"] by (simp add: path_string_def FS_PATH_MAX_def)
  then have path: "current_path ?s = Some ''/''" by (simp add: current_path_def)
  have p: "\<exists>y. kprintf ''%s@lightning'' [str a] = Some y" "\<exists>y. kprintf ''%s'' [str a] = Some y" "\<exists>y. kprintf ''%s '' [str a] = Some y" for a
    by (simp_all add: printf_simps str_def)
  have eve: "users_current ?m = Some (account ''eve'' ''apple'' False 1000)" "\<not> users_is_root ?s"
    using u by (simp_all add: demo_session_def users_current_def users_is_root_def account_def)
  have m: "sys ?m = ?s" by (simp add: demo_session_def)
  have "display_path ?m = Some ''/''" using path eve by (simp add: display_path_def m account_def inside_def FS_PATH_MAX_def)
  then have "\<exists>g. print_prompt ?m = Some g"
    using p(1) [of "''eve''"] p(2) [of "''/''"] p(3) [of "''$''"] eve by (auto simp: print_prompt_def m account_def Let_def)
  then obtain g where g: "print_prompt ?m = Some g" by blast
  obtain v where v: "read_line LINE_MAX CONSOLE_ECHO_PLAIN True (Some g) (?m\<lparr>display := g (display ?m)\<rparr>) =
      Some (True, ''exit'', ?m\<lparr>display := v, keystrokes := []\<rparr>)"
    using exit_typed [OF g] vga_init_inv(1) [OF raw_vga_arrays] by (auto simp: demo_session_def)
  have words: "split_line ''exit'' = [''exit'']" by code_simp
  obtain m where "shell_turn demo_ports demo_around ?m = Some (Back m)" "\<not> session_open m"
    using g v words u(4)
    by (auto simp: shell_turn_def demo_session_def run_line_def execute_def execute_plain_def Let_def on_sys_def persist_flush_def)
  moreover have "session_open ?m" by (simp add: demo_session_def)
  ultimately have "session_loop demo_ports (\<lambda>_. demo_around) 0 ?m = Some (Back m)"
    by (subst session_loop.simps) (simp, subst session_loop.simps, simp)
  with \<open>\<not> session_open m\<close> show ?thesis by blast
qed

section \<open>Properties\<close>

text \<open>Property C1: whatever line an everyday account enters, the files and directories outside its home
  directory and outside \<open>/tmp\<close> are afterwards what they were, and so are all accounts, but for its own
  password: on a well-formed system whose tree the shell can print (32 levels), for a line that does not
  reach the byte that \<open>fs_create\<close> leaves uninitialised: where that byte is not zero, it must not have 31
  characters in a row without a slash.\<close>

theorem shell_confines:
  assumes "files_ok A (sys m)" "users_ok (sys m)" "logged_in (sys m) = Some i" "u_uid (users (sys m) ! i) \<noteq> 0"
    "u_home (users (sys m) ! i) = path_string hs" "place hs" "\<forall>zs. fs_view (sys m) zs \<noteq> None \<longrightarrow> length zs \<le> 32"
    "line_fits (residue G) line" "run_line P G line m = Some r"
  shows "(\<forall>xs. \<not> prefix hs xs \<longrightarrow> \<not> prefix [''tmp''] xs \<longrightarrow> fs_view (sys (machine_of r)) xs = fs_view (sys m) xs) \<and>
    length (users (sys (machine_of r))) = length (users (sys m)) \<and>
    (\<forall>j. j \<noteq> i \<longrightarrow> users (sys (machine_of r)) ! j = users (sys m) ! j) \<and>
    (users (sys (machine_of r)) ! i)\<lparr>u_hash := 0\<rparr> = (users (sys m) ! i)\<lparr>u_hash := 0\<rparr>"
proof -
  have "bounded i hs (sys m)" using assms(1-7) by (auto simp: bounded_def)
  from ends_use [OF assms(9) run_line_confined [where P = P, OF this assms(8)]] show ?thesis
    by (simp add: confined_def own_def)
qed

lemma demo_refused:
  assumes inv: "fs_inv s L" and cwd: "node_path s [] (current_dir s)" and d: "node_path s [''d''] q"
  shows "\<exists>r. run_line demo_ports demo_around ''rm /d'' (demo_session s []) = Some r"
proof -
  let ?s = "demo_system s"
  note f = demo_system_fs [OF inv cwd] and u = demo_system_users [of s]
  have q: "node_path ?s [''d''] q" using d by (simp add: demo_system_def node_path_def fs_state.defs users_state.defs)
  from node_path_dom [OF f(3) q] fs_inv_null [OF f(3)] have q0: "q \<noteq> NULL" by auto
  have pc: "path_comps ''/d'' = [''d'']" using path_comps_string [of "[''d'']"] by (simp add: path_string_def name_ok_def FS_NAME_MAX_def FS_PATH_MAX_def)
  have "fs_view ?s [''d''] \<noteq> None" using fs_view_None [OF f(3)] q by blast
  then have "abs_resolve (fs_view ?s) [] ''/d'' = Some [''d'']" by (auto simp: abs_resolve_def pc abs_start_def)
  with fs_resolve_ok [OF f(3,4), of "''/d''"] q node_path_fun have res: "fs_resolve ''/d'' ?s = Some q" by fastforce
  have "fs_abspath q [] FS_PATH_MAX ?s = Some ''/d''"
    using fs_abspath_path [OF f(3) q, of FS_PATH_MAX "[]"] by (simp add: path_string_def FS_PATH_MAX_def)
  with res q0 have "target_abspath ''/d'' ?s = Some (Some ''/d'')" by (simp add: target_abspath_def)
  moreover have "\<not> users_may_write ''/d'' ?s"
    using u by (simp add: users_may_write_def users_is_root_def account_def inside_def)
  moreover have "\<exists>y. kprintf (''%s: %s'' @ [LF]) [str ''rm'', str ''permission denied''] = Some y" by (simp add: printf_simps str_def)
  moreover have "split_line ''rm /d'' = [''rm'', ''/d'']" by code_simp
  ultimately show ?thesis using u(4)
    by (auto simp: run_line_def execute_def Let_def execute_plain_def cmd_rm_def may_write_def print_error_def print_def
        demo_session_def on_sys_def persist_flush_def)
qed

theorem shell_confines_witness:
  "\<exists>s r. fs_view (sys (demo_session s [])) [''d''] = Some Dir \<and> run_line demo_ports demo_around ''rm /d'' (demo_session s []) = Some r \<and>
     fs_view (sys (machine_of r)) [''d''] = Some Dir"
proof -
  obtain s :: fs_state and L where d: "fs_inv s L" "node_path s [] (current_dir s)"
    "fs_view s = [[] \<mapsto> Dir, [''d''] \<mapsto> Dir, [''d'', ''f''] \<mapsto> File [], [''d'', ''e''] \<mapsto> Dir]" using demo_fs by blast
  have "fs_view s [''d''] \<noteq> None" using d(3) by simp
  then obtain q where q: "node_path s [''d''] q" using fs_view_None [OF d(1), of "[''d'']"] by auto
  let ?m = "demo_session s []"
  have m: "sys ?m = demo_system s" by (simp add: demo_session_def)
  note f = demo_system_fs [OF d(1,2)] and u = demo_system_users [of s]
  from demo_refused [OF d(1,2) q] obtain r where r: "run_line demo_ports demo_around ''rm /d'' ?m = Some r" by blast
  have h: "u_uid (users (sys ?m) ! 1) \<noteq> 0" "u_home (users (sys ?m) ! 1) = path_string [''home'', ''eve'']"
    using u(3) by (simp_all add: m account_def path_string_def)
  have p: "place [''home'', ''eve'']" by (simp add: place_def name_ok_def path_string_def FS_NAME_MAX_def USER_HOME_MAX_def)
  have "\<forall>zs. fs_view (sys ?m) zs \<noteq> None \<longrightarrow> length zs \<le> 32" by (simp add: m f(2) d(3))
  moreover have "line_fits (residue demo_around) ''rm /d''" by (simp add: line_fits_def demo_around_def)
  moreover have "files_ok (others s L) (sys ?m)" "users_ok (sys ?m)" "logged_in (sys ?m) = Some 1" using f(1) u(1,2) by (simp_all add: m)
  ultimately have "fs_view (sys (machine_of r)) [''d''] = fs_view (sys ?m) [''d'']"
    using shell_confines [OF _ _ _ h p _ _ r] by fastforce
  with r d(3) f(2) m show ?thesis by (intro exI [of _ s] exI [of _ r]) simp
qed

text \<open>Property C38: however long a session goes on and whatever is typed, at every prompt, after every key
  and when it ends, if it ever does, the line editor and the screen are well formed: the ring of the
  history with its sixteen lines that fit their buffers; the cells of the screen, of the scrollback and
  of video memory, the cursor and the view, also while the view is scrolled back; and during the entry of
  a line its text, which fits the buffer with its terminator, the part of it drawn, and the place in the
  history.  These states are those of \<open>session_loop\<close>: it ends with \<open>r\<close> exactly when the steps lead to
  that end.\<close>

theorem session_well_formed:
  assumes "console_ok (con m)" "vga_inv (display m)"
  shows "(\<forall>x. session_reaches P G (Prompt 0 m) x \<longrightarrow> session_ok x) \<and>
    (\<forall>r. session_loop P G 0 m = Some r \<longleftrightarrow> session_reaches P G (Prompt 0 m) (Ended r))"
  using reached_ok [of P G "Prompt 0 m"] assms session_loop_steps [of P G 0 m] by (simp add: steady_state_def neat_def)

theorem session_well_formed_witness:
  "\<exists>s m. session_reaches demo_ports (\<lambda>_. demo_around) (Prompt 0 (demo_session s [101, 120, 105, 116, 10])) (Ended (Back m)) \<and>
     console_ok (con m) \<and> vga_inv (display m)"
proof -
  obtain s :: fs_state and L where d: "fs_inv s L" "node_path s [] (current_dir s)" using demo_fs by blast
  from demo_exit [OF d] obtain m where m: "session_loop demo_ports (\<lambda>_. demo_around) 0 (demo_session s [101, 120, 105, 116, 10]) = Some (Back m)" by blast
  have "console_ok (con (demo_session s [101, 120, 105, 116, 10]))" "vga_inv (display (demo_session s [101, 120, 105, 116, 10]))"
    using fresh_console_ok(1) vga_init_inv(1) [OF raw_vga_arrays] by (simp_all add: demo_session_def)
  from session_well_formed [OF this, of demo_ports "\<lambda>_. demo_around"] m have
    "session_reaches demo_ports (\<lambda>_. demo_around) (Prompt 0 (demo_session s [101, 120, 105, 116, 10])) (Ended (Back m))" "session_ok (Ended (Back m))" by blast+
  then show ?thesis by auto
qed

end
