(* ===== verification/Install_Spec.thy ===== *)
theory Install_Spec
  imports Install Shell_Spec
begin

text \<open>
  What the installer leaves on a disk, and what the installed system makes of it at its first start.
\<close>

section \<open>The image\<close>

text \<open>The copy of the image, if there is one, is the whole image.\<close>

definition captured :: "'d machine \<Rightarrow> bool" where
  "captured m \<longleftrightarrow> (\<forall>img. image_copy m = Some img \<longrightarrow> image_bytes m = of_nat (length img) \<and> length img + 511 < 4294967296)"

lemma install_capture_image_captured:
  "length img + 511 < 4294967296 \<Longrightarrow> install_capture_image img m = Some m' \<Longrightarrow> captured m'"
  by (auto simp: install_capture_image_def captured_def Let_def split: if_splits Option.bind_splits)

lemma image_sectors:
  assumes "image_bytes m = of_nat (length img)" "length img + 511 < 4294967296"
  shows "unat (install_image_sectors m) = (length img + 511) div 512" "unat (image_bytes m) = length img"
proof -
  have "image_bytes m + ATA_SECTOR_SIZE - 1 = (of_nat (length img + 511) :: u32)" using assms(1) by (simp add: ATA_SECTOR_SIZE_def)
  moreover have "unat (of_nat (length img + 511) :: u32) = length img + 511" using assms(2) by (intro unat_of_nat_exact) simp
  ultimately show "unat (install_image_sectors m) = (length img + 511) div 512"
    unfolding install_image_sectors_def by (simp only: unat_div) (simp add: ATA_SECTOR_SIZE_def)
  show "unat (image_bytes m) = length img" using assms by (simp add: unat_of_nat_exact)
qed

lemma image_padded:
  assumes "image_bytes m = of_nat (length img)" "length img + 511 < 4294967296" "img \<noteq> []" "length img \<le> 131072"
  shows "unat (install_image_sectors m) = n_sectors (length img)" "n_sectors (length img) \<le> 256" "0 < n_sectors (length img)"
    "img @ replicate (unat (install_image_sectors m * ATA_SECTOR_SIZE - image_bytes m)) NUL = padded_to img"
    "install_image_sectors m * ATA_SECTOR_SIZE = of_nat (n_sectors (length img) * 512)"
proof -
  note s = image_sectors [OF assms(1,2)]
  show n: "unat (install_image_sectors m) = n_sectors (length img)" using s assms(3) by (simp add: n_sectors_def)
  have "(length img + 511) div 512 \<le> (131072 + 511) div 512" using assms(4) by (intro div_le_mono) simp
  then show b: "n_sectors (length img) \<le> 256" by (simp add: n_sectors_def)
  have "length img \<le> 1048576" using assms(4) by simp
  note nb = n_sectors_bounds [OF this]
  then show "0 < n_sectors (length img)" by simp
  show m: "install_image_sectors m * ATA_SECTOR_SIZE = of_nat (n_sectors (length img) * 512)"
    unfolding n [symmetric] by (simp add: ATA_SECTOR_SIZE_def)
  then have "unat (install_image_sectors m * ATA_SECTOR_SIZE) = n_sectors (length img) * 512"
    using b by (simp add: unat_of_nat_exact del: of_nat_mult)
  then show "img @ replicate (unat (install_image_sectors m * ATA_SECTOR_SIZE - image_bytes m)) NUL = padded_to img"
    using nb s(2) by (simp add: padded_to_def unat_minus_exact)
qed

lemma image_too_big:
  assumes "image_bytes m = of_nat (length img)" "length img + 511 < 4294967296"
  shows "install_image_sectors m > INSTALL_KERNEL_MAX \<longleftrightarrow> length img > 131072"
proof -
  have "256 < (k + 511) div 512 \<longleftrightarrow> 131072 < k" for k :: nat
    using div_mult_mod_eq [of "k + 511" 512] mod_less_divisor [of 512 "k + 511"] by linarith
  from this [of "length img"] show ?thesis
    using image_sectors(1) [OF assms] by (simp only: word_less_nat_alt INSTALL_KERNEL_MAX_def) simp
qed

section \<open>Writing\<close>

text \<open>The heap does not look at the disks.\<close>

lemma kmalloc_disk: "kmalloc n (s\<lparr>disk := d\<rparr>) = map_option (\<lambda>(p, t). (p, t\<lparr>disk := d\<rparr>)) (kmalloc n s)"
  by (cases "find_fit (hdr s) ((n + 7) AND NOT 7) (heap_head s)") (auto simp: kmalloc_def Let_def split: Option.bind_splits)

lemma write_disk_ok:
  assumes "ata_ok P view busy (disk s)" "ata_present drive (disk s)" "unat lba + unat n \<le> unat (ata_sector_count drive (disk s))"
    "length bytes = unat n * 512"
  shows "\<exists>d. write_disk P drive lba n bytes s = Some (0, s\<lparr>disk := d\<rparr>) \<and> ata_ok P view busy d \<and> drives d = drives (disk s) \<and>
    idents view d = idents view (disk s) \<and>
    content view d = (content view (disk s))(drive := store_sectors (unat lba) (unat n) (words_of bytes) (content view (disk s) drive))"
proof -
  have "unat n * 256 \<le> length (words_of bytes)" using assms(4) by (simp add: words_length)
  from ata_write_sectors [OF assms(1-3) this] show ?thesis by (auto simp: write_disk_def idents_def)
qed

text \<open>What is on the drive after the boot sector, and after everything.\<close>

definition with_boot :: "string \<Rightarrow> (nat \<Rightarrow> u16 list) \<Rightarrow> nat \<Rightarrow> u16 list" where
  "with_boot boot_sector old = old(0 := words_of boot_sector)"

definition installed :: "string \<Rightarrow> string \<Rightarrow> (nat \<Rightarrow> u16 list) \<Rightarrow> nat \<Rightarrow> u16 list" where
  "installed boot_sector img old l =
     (if l = 0 then words_of boot_sector
      else if l \<le> n_sectors (length img) then take 256 (drop ((l - 1) * 256) (words_of (padded_to img)))
      else if l = 2048 then replicate 256 0 else old l)"

lemma store_one: "length ws = 256 \<Longrightarrow> store_sectors l 1 ws m = m(l := ws)"
  by (auto simp: store_sectors_def fun_eq_iff)

lemma store_installed:
  "n_sectors (length img) \<le> 256 \<Longrightarrow>
     (store_sectors 1 (n_sectors (length img)) (words_of (padded_to img)) (with_boot b old))(2048 := replicate 256 0) = installed b img old"
  by (auto simp: store_sectors_def with_boot_def installed_def fun_eq_iff)

lemma words_of_zero: "words_of (replicate 512 NUL) = replicate 256 0"
  by code_simp

text \<open>The installation of an image that fits, on a drive that is large enough.\<close>

lemma install_fits:
  assumes f: "files_ok A (sys m)" and dk: "ata_ok P view busy (disk (sys m))" and boot: "length boot_sector = 512"
    and img: "image_copy m = Some img" "image_bytes m = of_nat (length img)" "img \<noteq> []" "length img \<le> 131072"
    and drive: "ata_present drive (disk (sys m))" "2112 \<le> unat (ata_sector_count drive (disk (sys m)))"
  shows "\<exists>rc m'. install_to_disk P boot_sector drive m = Some (rc, m') \<and> m' = m\<lparr>sys := sys m'\<rparr> \<and> same_fs (sys m) (sys m') \<and>
    files_ok A (sys m') \<and> ata_ok P view busy (disk (sys m')) \<and> idents view (disk (sys m')) = idents view (disk (sys m)) \<and>
    (if kmalloc (of_nat (n_sectors (length img) * 512)) (sys m) = Some (NULL, sys m)
     then rc = -6 \<and> content view (disk (sys m')) =
        (content view (disk (sys m)))(drive := with_boot boot_sector (content view (disk (sys m)) drive))
     else rc = 0 \<and> content view (disk (sys m')) =
        (content view (disk (sys m)))(drive := installed boot_sector img (content view (disk (sys m)) drive)))"
proof -
  let ?s = "sys m"
  have lt: "length img + 511 < 4294967296" using img(4) by simp
  note pad = image_padded [OF img(2) lt img(3,4)]
  have big: "\<not> install_image_sectors m > INSTALL_KERNEL_MAX" using image_too_big [OF img(2) lt] img(4) by simp
  have nz: "image_bytes m \<noteq> 0" using image_sectors(2) [OF img(2) lt] img(3) by (metis length_0_conv unat_0)
  have small: "\<not> ata_sector_count drive (disk ?s) < INSTALL_DATA_LBA + 64" using drive(2) by (simp add: word_less_nat_alt INSTALL_DATA_LBA_def)
  have "unat (0 :: u32) + unat (1 :: u32) \<le> unat (ata_sector_count drive (disk ?s))" "length boot_sector = unat (1 :: u32) * 512" using drive(2) boot by simp_all
  from write_disk_ok [OF dk drive(1) this] obtain d1 where d1: "write_disk P drive 0 1 boot_sector ?s = Some (0, ?s\<lparr>disk := d1\<rparr>)" "ata_ok P view busy d1"
    "drives d1 = drives (disk ?s)" "idents view d1 = idents view (disk ?s)"
    "content view d1 = (content view (disk ?s))(drive := with_boot boot_sector (content view (disk ?s) drive))"
    using boot by (auto simp: store_one words_length with_boot_def simp del: One_nat_def)
  have p1: "ata_present i d1 = ata_present i (disk ?s)" "ata_sector_count i d1 = ata_sector_count i (disk ?s)" for i
    using d1(3) by (simp_all add: ata_present_def ata_sector_count_def)
  let ?n = "of_nat (n_sectors (length img) * 512) :: u32"
  have n7: "unat ?n + 7 < 4294967296" using pad(2) by (simp add: unat_of_nat_exact del: of_nat_mult)
  have "files_ok A (?s\<lparr>disk := d1\<rparr>)" using f by (subst files_ok_cong [where s = ?s]) simp_all
  from kmalloc_files [OF this n7] obtain p s2 where k: "kmalloc ?n (?s\<lparr>disk := d1\<rparr>) = Some (p, s2)" "mem_frame (?s\<lparr>disk := d1\<rparr>) s2"
    "if p = NULL then s2 = ?s\<lparr>disk := d1\<rparr> else \<exists>k. A p = None \<and> files_ok (A(p \<mapsto> k)) s2" by blast
  obtain H u where s2: "s2 = ?s\<lparr>disk := d1, hdr := H, heap_used := u\<rparr>" using k(2) by (auto simp: mem_frame_def)
  have null: "kmalloc ?n ?s = Some (NULL, ?s) \<longleftrightarrow> p = NULL"
  proof
    assume "kmalloc ?n ?s = Some (NULL, ?s)"
    with k(1) kmalloc_disk [where n = ?n and s = ?s and d = d1] show "p = NULL" by simp
  next
    assume p: "p = NULL"
    from kmalloc_files [OF f n7] obtain q t where q: "kmalloc ?n ?s = Some (q, t)" "if q = NULL then t = ?s else True" by (metis (full_types))
    with k(1) kmalloc_disk [where n = ?n and s = ?s and d = d1] p show "kmalloc ?n ?s = Some (NULL, ?s)" by (auto split: if_splits)
  qed
  show ?thesis
  proof (cases "p = NULL")
    case True
    let ?m = "m\<lparr>sys := ?s\<lparr>disk := d1\<rparr>\<rparr>"
    have "install_to_disk P boot_sector drive m = Some (-6, ?m)"
      using img(1) nz drive(1) big small d1(1) k(1,3) True by (simp add: install_to_disk_def on_sys_def pad(5) Let_def)
    with null True d1 k(3) \<open>files_ok A (?s\<lparr>disk := d1\<rparr>)\<close> show ?thesis by (auto simp: same_fs_def)
  next
    case False
    with k(3) obtain kk where fk: "A p = None" "files_ok (A(p \<mapsto> kk)) s2" by auto
    have dk2: "disk s2 = d1" by (simp add: s2)
    have "ata_ok P view busy (disk s2)" "ata_present drive (disk s2)" using d1(2) drive(1) p1 dk2 by simp_all
    moreover have "unat INSTALL_KERNEL_LBA + unat (install_image_sectors m) \<le> unat (ata_sector_count drive (disk s2))"
      using pad(1,2) drive(2) p1 dk2 by (simp add: INSTALL_KERNEL_LBA_def)
    moreover have "length (padded_to img) = unat (install_image_sectors m) * 512" using padded_length [of img] img(4) pad(1) by simp
    ultimately obtain d2 where d2: "write_disk P drive INSTALL_KERNEL_LBA (install_image_sectors m) (padded_to img) s2 = Some (0, s2\<lparr>disk := d2\<rparr>)"
      "ata_ok P view busy d2" "drives d2 = drives d1" "idents view d2 = idents view d1"
      "content view d2 = (content view d1)(drive := store_sectors 1 (n_sectors (length img)) (words_of (padded_to img)) (content view d1 drive))"
      using write_disk_ok [of P view busy s2 drive INSTALL_KERNEL_LBA "install_image_sectors m" "padded_to img"] pad(1) dk2
      by (auto simp: INSTALL_KERNEL_LBA_def)
    have "files_ok (A(p \<mapsto> kk)) (s2\<lparr>disk := d2\<rparr>)" using fk(2) by (subst files_ok_cong [where s = s2]) simp_all
    from release_files [OF this fk(1)] obtain s3 where r: "heap_release p (s2\<lparr>disk := d2\<rparr>) = Some s3" "mem_frame (s2\<lparr>disk := d2\<rparr>) s3" "files_ok A s3" by blast
    obtain H3 u3 where s3: "s3 = ?s\<lparr>disk := d2, hdr := H3, heap_used := u3\<rparr>" using r(2) s2 by (auto simp: mem_frame_def)
    have dk3: "disk s3 = d2" by (simp add: s3)
    have p2: "ata_present i d2 = ata_present i (disk ?s)" "ata_sector_count i d2 = ata_sector_count i (disk ?s)" for i
      using d2(3) d1(3) by (simp_all add: ata_present_def ata_sector_count_def)
    have "unat INSTALL_DATA_LBA + unat (1 :: u32) \<le> unat (ata_sector_count drive (disk s3))" "length (replicate 512 NUL) = unat (1 :: u32) * 512"
      using drive(2) p2 dk3 by (simp_all add: INSTALL_DATA_LBA_def)
    moreover have "ata_ok P view busy (disk s3)" "ata_present drive (disk s3)" using d2(2) drive(1) p2 dk3 by simp_all
    ultimately obtain d3 where d3: "write_disk P drive INSTALL_DATA_LBA 1 (replicate 512 NUL) s3 = Some (0, s3\<lparr>disk := d3\<rparr>)"
      "ata_ok P view busy d3" "idents view d3 = idents view d2"
      "content view d3 = (content view d2)(drive := (content view d2 drive)(2048 := replicate 256 0))"
      using write_disk_ok [of P view busy s3 drive INSTALL_DATA_LBA 1 "replicate 512 NUL"] dk3
      by (auto simp: store_one words_of_zero INSTALL_DATA_LBA_def simp del: One_nat_def)
    let ?m = "m\<lparr>sys := s3\<lparr>disk := d3\<rparr>\<rparr>"
    have kk: "img @ replicate (unat (install_image_sectors m * ATA_SECTOR_SIZE - image_bytes m)) NUL = padded_to img"
      by (rule pad(4))
    have pn: "kmalloc (install_image_sectors m * ATA_SECTOR_SIZE) (?s\<lparr>disk := d1\<rparr>) = Some (p, s2)" using k(1) pad(5) by simp
    have "install_to_disk P boot_sector drive m = Some (0, ?m)"
      using img(1) nz drive(1) big small d1(1) pn False d2(1) r(1) d3(1)
      by (simp add: install_to_disk_def on_sys_def kk Let_def)
    moreover have "content view d3 = (content view (disk ?s))(drive := installed boot_sector img (content view (disk ?s) drive))"
      using d3(4) d2(5) d1(5) store_installed [OF pad(2), of boot_sector "content view (disk ?s) drive"] by simp
    moreover have "files_ok A (s3\<lparr>disk := d3\<rparr>)" using r(3) by (subst files_ok_cong [where s = s3]) simp_all
    moreover have "same_fs ?s (s3\<lparr>disk := d3\<rparr>)" by (simp add: s3 same_fs_def)
    ultimately show ?thesis using null False d3(2,3) d2(4) d1(4) by auto
  qed
qed

text \<open>Every outcome.\<close>

lemma install_outcome:
  assumes f: "files_ok A (sys m)" and dk: "ata_ok P view busy (disk (sys m))" and boot: "length boot_sector = 512" and cap: "captured m"
  shows "\<exists>rc m'. install_to_disk P boot_sector drive m = Some (rc, m') \<and> m' = m\<lparr>sys := sys m'\<rparr> \<and> same_fs (sys m) (sys m') \<and>
    files_ok A (sys m') \<and> ata_ok P view busy (disk (sys m')) \<and> idents view (disk (sys m')) = idents view (disk (sys m)) \<and>
    (case image_copy m of
       None \<Rightarrow> rc = -1 \<and> m' = m
     | Some img \<Rightarrow>
         if img = [] then rc = -1 \<and> m' = m
         else if \<not> ata_present drive (disk (sys m)) then rc = -2 \<and> m' = m
         else if 131072 < length img then rc = -3 \<and> m' = m
         else if unat (ata_sector_count drive (disk (sys m))) < 2112 then rc = -4 \<and> m' = m
         else if kmalloc (of_nat (n_sectors (length img) * 512)) (sys m) = Some (NULL, sys m)
         then rc = -6 \<and> content view (disk (sys m')) =
            (content view (disk (sys m)))(drive := with_boot boot_sector (content view (disk (sys m)) drive))
         else rc = 0 \<and> content view (disk (sys m')) =
            (content view (disk (sys m)))(drive := installed boot_sector img (content view (disk (sys m)) drive)))"
proof -
  have same: "same_fs (sys m) (sys m)" by (simp add: same_fs_def)
  show ?thesis
  proof (cases "image_copy m")
    case None
    then show ?thesis using f dk same by (simp add: install_to_disk_def Let_def)
  next
    case (Some img)
    with cap have img: "image_bytes m = of_nat (length img)" "length img + 511 < 4294967296" by (auto simp: captured_def)
    have z: "image_bytes m = 0 \<longleftrightarrow> img = []" using image_sectors(2) [OF img] by (auto simp: unat_eq_0 [symmetric])
    have big: "install_image_sectors m > INSTALL_KERNEL_MAX \<longleftrightarrow> 131072 < length img" by (rule image_too_big [OF img])
    have small: "ata_sector_count drive (disk (sys m)) < INSTALL_DATA_LBA + 64 \<longleftrightarrow> unat (ata_sector_count drive (disk (sys m))) < 2112"
      by (simp add: word_less_nat_alt INSTALL_DATA_LBA_def)
    show ?thesis
    proof (cases "img = [] \<or> \<not> ata_present drive (disk (sys m)) \<or> 131072 < length img \<or> unat (ata_sector_count drive (disk (sys m))) < 2112")
      case True
      let ?rc = "if img = [] then -1 else if \<not> ata_present drive (disk (sys m)) then -2 else if 131072 < length img then -3 else -4"
      note def = install_to_disk_def [of P boot_sector drive m, unfolded Let_def Some option.case z big small]
      from True consider "img = []" | "img \<noteq> []" "\<not> ata_present drive (disk (sys m))"
        | "img \<noteq> []" "ata_present drive (disk (sys m))" "131072 < length img"
        | "img \<noteq> []" "ata_present drive (disk (sys m))" "\<not> 131072 < length img" "unat (ata_sector_count drive (disk (sys m))) < 2112" by blast
      then have "install_to_disk P boot_sector drive m = Some (?rc, m)" by cases (simp_all add: def)
      then show ?thesis using Some f dk same True by (intro exI [of _ ?rc] exI [of _ m] conjI) (simp_all, auto)
    next
      case False
      with install_fits [OF f dk boot Some img(1), of drive] Some show ?thesis by simp
    qed
  qed
qed

section \<open>The first start of the installed system\<close>

lemma blank_magic: "magic (super_of (bytes_of (replicate 256 0))) \<noteq> MAGIC"
proof -
  have z: "le_bytes 2 0 = [NUL, NUL]" by (simp add: le_bytes_def byte_at_def upt_conv_Cons numeral_eq_Suc char_of_def)
  have s: "replicate 256 (0 :: u16) = 0 # replicate 255 0" using replicate_Suc [of 255 "0 :: u16"] by simp
  have "bytes_of (replicate 256 0) = NUL # NUL # bytes_of (replicate 255 0)" unfolding s by (simp only: bytes_of_def) (simp add: z)
  then show ?thesis by (simp add: super_of_def MAGIC_def)
qed

lemma choose_blank:
  assumes d: "drives_ok P view busy ident media (disk s)" and i: "drive \<le> 1" "ident (1 - drive) = None"
    and w: "ident drive = Some w" "2112 \<le> unat (ident_sectors w)"
    and blank: "\<not> has_super ident media drive (if drive = ATA_MASTER then 2048 else 0)"
  defines "base \<equiv> (if drive = ATA_MASTER then INSTALL_DATA_LBA else 0)"
  shows "if drive = ATA_MASTER \<and> unat (ident_sectors w) = 2112
    then \<exists>d'. choose_location P s = Some (False, s\<lparr>disk := d'\<rparr>) \<and> drives_ok P view busy ident media d'
    else \<exists>d' loc. choose_location P s = Some (True, s\<lparr>disk := d', data_drive := drive, data_base := base, data_where := loc\<rparr>) \<and>
      drives_ok P view busy ident media d'"
proof -
  from probe_ok [OF d, of ATA_SLAVE 0] obtain d1 where
    1: "probe P ATA_SLAVE 0 (disk s) = Some (has_super ident media ATA_SLAVE 0, d1)" "drives_ok P view busy ident media d1"
    by (auto simp: ATA_SLAVE_def)
  from probe_ok [OF 1(2), of ATA_MASTER INSTALL_DATA_LBA] obtain d2 where
    2: "probe P ATA_MASTER INSTALL_DATA_LBA d1 = Some (has_super ident media ATA_MASTER 2048, d2)" "drives_ok P view busy ident media d2"
    by (auto simp: ATA_MASTER_def INSTALL_DATA_LBA_def)
  have dr: "drives d2 = map found [ident ATA_MASTER, ident ATA_SLAVE]" using 2(2) by (simp add: drives_ok_def)
  note pf = present_found [where ident = ident, OF dr]
  have wn: "ident_sectors w \<noteq> 0" using w(2) by (metis not_numeral_le_zero unat_0)
  show ?thesis
  proof (cases "drive = ATA_MASTER")
    case True
    then have n: "ident ATA_SLAVE = None" "ident ATA_MASTER = Some w" using i(2) w(1) by (simp_all add: ATA_MASTER_def ATA_SLAVE_def)
    then have h: "\<not> has_super ident media ATA_SLAVE 0" "\<not> has_super ident media ATA_MASTER 2048" using blank True by (simp_all add: has_super_def)
    have p: "\<not> ata_present ATA_SLAVE d2" "ata_present ATA_MASTER d2" "ata_sector_count ATA_MASTER d2 = ident_sectors w"
      using pf(1) [of ATA_SLAVE] pf(1) [of ATA_MASTER] pf(2) [of ATA_MASTER w] n wn by (simp_all add: ATA_MASTER_def ATA_SLAVE_def)
    have c: "INSTALL_DATA_LBA + 64 < ident_sectors w \<longleftrightarrow> unat (ident_sectors w) \<noteq> 2112"
      using w(2) by (auto simp: word_less_nat_alt INSTALL_DATA_LBA_def)
    show ?thesis using True 1(1) 2 h p c by (auto simp: choose_location_def base_def)
  next
    case False
    with i(1) have s: "drive = ATA_SLAVE" "drive \<noteq> ATA_MASTER" by (auto simp: ATA_MASTER_def ATA_SLAVE_def)
    then have n: "ident ATA_MASTER = None" "ident ATA_SLAVE = Some w" using i(2) w(1) by (simp_all add: ATA_MASTER_def ATA_SLAVE_def)
    then have h: "\<not> has_super ident media ATA_SLAVE 0" "\<not> has_super ident media ATA_MASTER 2048" using blank s by (simp_all add: has_super_def)
    have p: "ata_present ATA_SLAVE d2" using pf(1) [of ATA_SLAVE] n wn by (simp add: ATA_SLAVE_def)
    show ?thesis using s 1(1) 2 h p by (auto simp: choose_location_def base_def)
  qed
qed

text \<open>Mounting a drive that has no snapshot where the data area is chosen.\<close>

lemma mount_fresh:
  assumes r: "rebooted P view busy ident media s" and i: "drive \<le> 1" "ident (1 - drive) = None"
    and w: "ident drive = Some w" "2112 \<le> unat (ident_sectors w)"
    and blank: "\<not> has_super ident media drive (if drive = ATA_MASTER then 2048 else 0)"
  defines "base \<equiv> (if drive = ATA_MASTER then INSTALL_DATA_LBA else 0)"
  shows "\<exists>d loc. drives_ok P view busy ident media d \<and> persist_mount P x False s =
    (if drive = ATA_MASTER \<and> unat (ident_sectors w) = 2112
     then Some (PERSIST_NO_DISK, s\<lparr>sealed := False, disk := d, data_where := loc, p_state := PERSIST_NO_DISK\<rparr>)
     else Some (PERSIST_EMPTY, s\<lparr>sealed := False, disk := d, data_drive := drive, data_base := base, data_where := loc, p_state := PERSIST_EMPTY\<rparr>))"
proof -
  have h: "healthy P view busy" "busy (hw (disk s)) = 0" "at_rest (view (hw (disk s))) ident media" using r by (simp_all add: rebooted_def)
  from ata_init_found [OF h] obtain d0 where d0: "ata_init P (disk s) = Some d0" "drives_ok P view busy ident media d0"
    by (auto simp: drives_ok_def idents_def ATA_MASTER_def ATA_SLAVE_def)
  let ?s0 = "s\<lparr>sealed := False, disk := d0\<rparr>"
  have "drives_ok P view busy ident media (disk ?s0)" using d0(2) by simp
  note c = choose_blank [OF this i w blank, folded base_def]
  show ?thesis
  proof (cases "drive = ATA_MASTER \<and> unat (ident_sectors w) = 2112")
    case True
    with c obtain d' where "choose_location P ?s0 = Some (False, ?s0\<lparr>disk := d'\<rparr>)" "drives_ok P view busy ident media d'" by auto
    with True d0(1) show ?thesis by (auto simp: persist_mount_def)
  next
    case False
    with c obtain d' loc where c: "choose_location P ?s0 = Some (True, ?s0\<lparr>disk := d', data_drive := drive, data_base := base, data_where := loc\<rparr>)"
      "drives_ok P view busy ident media d'" by auto
    have b: "unat base = (if drive = ATA_MASTER then 2048 else 0)" by (simp add: base_def INSTALL_DATA_LBA_def)
    from drives_read [OF c(2) w(1) i(1), of base 1 "replicate 256 0"] w(2) b obtain d2 where
      r1: "ata_read P drive base 1 (replicate 256 0) d' = Some (0, media drive (unat base), d2)" "drives_ok P view busy ident media d2"
      by (auto simp: sectors_one [unfolded One_nat_def] split: if_splits)
    have "magic (super_of (bytes_of (media drive (unat base)))) \<noteq> MAGIC" using blank w b by (auto simp: has_super_def)
    then have "persist_mount P x False s = Some (PERSIST_EMPTY,
        s\<lparr>sealed := False, disk := d2, data_drive := drive, data_base := base, data_where := loc, p_state := PERSIST_EMPTY\<rparr>)"
      using d0(1) c(1) r1(1) by (simp add: persist_mount_def SUPER_LBA_def)
    then show ?thesis using False r1(2) by (intro exI [of _ d2] exI [of _ loc]) simp
  qed
qed

text \<open>An installation that succeeds.\<close>

lemma install_success:
  assumes "files_ok A (sys m)" "ata_ok P view busy (disk (sys m))" "length boot_sector = 512" "captured m"
    and "install_to_disk P boot_sector drive m = Some (0, m')"
  shows "\<exists>img w. image_copy m = Some img \<and> n_sectors (length img) \<le> 256 \<and> idents view (disk (sys m)) drive = Some w \<and> 2112 \<le> unat (ident_sectors w) \<and>
    drive \<le> 1 \<and> idents view (disk (sys m')) = idents view (disk (sys m)) \<and>
    content view (disk (sys m')) = (content view (disk (sys m)))(drive := installed boot_sector img (content view (disk (sys m)) drive))"
proof -
  note o = install_outcome [OF assms(1-4), of drive]
  show ?thesis
  proof (cases "image_copy m")
    case None
    with o assms(5) show ?thesis by simp
  next
    case (Some img)
    with o assms(5) have c: "img \<noteq> []" "ata_present drive (disk (sys m))" "length img \<le> 131072" "2112 \<le> unat (ata_sector_count drive (disk (sys m)))"
      "content view (disk (sys m')) = (content view (disk (sys m)))(drive := installed boot_sector img (content view (disk (sys m)) drive))"
      "idents view (disk (sys m')) = idents view (disk (sys m))" by (auto split: if_splits)
    from assms(4) Some have i: "image_bytes m = of_nat (length img)" "length img + 511 < 4294967296" by (auto simp: captured_def)
    from ata_ok_idents [OF assms(2) c(2)] obtain w where
      w: "idents view (disk (sys m)) drive = Some w" "ata_sector_count drive (disk (sys m)) = ident_sectors w" by blast
    moreover have "drive \<le> 1" using c(2) by (auto simp: ata_present_def ATA_SLAVE_def)
    ultimately show ?thesis using Some c image_padded(2) [OF i c(1,3)] by auto
  qed
qed

lemma installed_blank:
  assumes "n_sectors (length img) \<le> 256" "length boot_sector = 512" "take 8 boot_sector \<noteq> MAGIC" "drive \<le> 1"
    and "media drive = installed boot_sector img old"
  shows "\<not> has_super ident media drive (if drive = ATA_MASTER then 2048 else 0)"
proof -
  have "\<not> magic (super_of (bytes_of (words_of boot_sector))) = MAGIC" using assms(2,3) by (simp add: bytes_words super_of_def)
  with assms(1,5) blank_magic show ?thesis by (auto simp: has_super_def installed_def split: option.splits)
qed

text \<open>The first save after that start.\<close>

lemma first_save:
  assumes ok: "persist_ok P view busy B t" and live: "\<not> sealed t" "p_state t = PERSIST_EMPTY"
    and save: "persist_save P t = Some (0, t')" and boot: "length boot_sector = 512" "take 8 boot_sector \<noteq> MAGIC"
  shows "\<forall>l < unat (data_base t). content view (disk t') (data_drive t) l = content view (disk t) (data_drive t) l"
    and "content view (disk t') (data_drive t) (unat (data_base t)) \<noteq> words_of boot_sector"
proof -
  have "p_state t \<noteq> PERSIST_NO_DISK" using live by simp
  from persist_save_result [OF ok live(1) this] save obtain ps where
    ps: "carries view t ps (content view (disk t'))"
      "\<forall>i l. i \<noteq> data_drive t \<or> l < unat (data_base t) \<longrightarrow> content view (disk t') i l = content view (disk t) i l" by auto
  from ps(2) show "\<forall>l < unat (data_base t). content view (disk t') (data_drive t) l = content view (disk t) (data_drive t) l" by simp
  have len: "length (super_bytes (superblock t ps)) = 512" by (simp add: super_length superblock_def)
  have "boot_sector = super_bytes (superblock t ps)" if "words_of (super_bytes (superblock t ps)) = words_of boot_sector"
    using arg_cong [OF that, of bytes_of] len boot(1) by (simp add: bytes_words)
  moreover have "take 8 (super_bytes (superblock t ps)) = MAGIC" by (simp add: super_bytes_def superblock_def)
  ultimately show "content view (disk t') (data_drive t) (unat (data_base t)) \<noteq> words_of boot_sector"
    using ps(1) boot(2) by (auto simp: carries_def)
qed

section \<open>A machine with one empty disk\<close>

definition big_ident :: "u16 list" where
  "big_ident = (replicate 256 0)[60 := 4000]"

definition lone_ata :: "nat \<Rightarrow> ata_view ata" where
  "lone_ata drive = \<lparr>hw = demo_view\<lparr>v_ident := (\<lambda>i. if i = drive then Some big_ident else None)\<rparr>,
     drives = map (\<lambda>i. if i = drive then found (Some big_ident) else no_drive) [0, 1]\<rparr>"

lemma lone_ata_ok:
  assumes "drive \<le> 1"
  shows "ata_ok demo_ports sane (\<lambda>_. 0) (lone_ata drive)" "ata_present drive (lone_ata drive)"
    "unat (ata_sector_count drive (lone_ata drive)) = 4000" "idents sane (lone_ata drive) = (\<lambda>i. if i = drive then Some big_ident else None)"
proof -
  have sz: "unat (ident_sectors big_ident) = 4000" by (simp add: ident_sectors_def big_ident_def nth_list_update)
  let ?v = "demo_view\<lparr>v_ident := (\<lambda>i. if i = drive then Some big_ident else None)\<rparr>"
  have v: "view_ok ?v" using sz by (simp add: view_ok_def demo_view_def) (simp add: big_ident_def)
  have f: "found (Some big_ident) = \<lparr>present = True, sectors = ident_sectors big_ident, model = copy_model big_ident\<rparr>"
    using sz by (auto simp: found_def)
  have d: "drive = 0 \<or> drive = 1" using assms by auto
  show "ata_ok demo_ports sane (\<lambda>_. 0) (lone_ata drive)"
    using d demo_healthy v by (auto simp: ata_ok_def lone_ata_def f no_drive_def demo_view_def le_Suc_eq nth_Cons')
  show "ata_present drive (lone_ata drive)" using d by (auto simp: ata_present_def lone_ata_def f ATA_SLAVE_def)
  then show "unat (ata_sector_count drive (lone_ata drive)) = 4000"
    using d sz by (auto simp: ata_sector_count_def lone_ata_def f)
  show "idents sane (lone_ata drive) = (\<lambda>i. if i = drive then Some big_ident else None)"
    using v by (simp add: idents_def lone_ata_def)
qed

definition demo_boot :: string where
  "demo_boot = replicate 512 (CHR ''B'')"

definition installer :: "ata_view persist \<Rightarrow> nat \<Rightarrow> ata_view machine" where
  "installer s drive = \<lparr>sys = s\<lparr>disk := lone_ata drive\<rparr>, sch = no_sched, display = vga_init raw_vga, con = fresh_console, keystrokes = [],
     rodent = wheel_mouse, session_open = False, boot_flag = BOOT_FLAG_CD, image_copy = Some ''kernel'', image_bytes = 6\<rparr>"

lemma demo_installer:
  assumes "drive \<le> 1"
  shows "\<exists>A s. files_ok A (sys (installer s drive)) \<and> ata_ok demo_ports sane (\<lambda>_. 0) (disk (sys (installer s drive))) \<and> captured (installer s drive) \<and>
    kmalloc 512 (sys (installer s drive)) \<noteq> Some (NULL, sys (installer s drive)) \<and> users_ok (sys (installer s drive)) \<and>
    (\<forall>u\<in>set (users (sys (installer s drive))). u_active u \<longrightarrow> NUL \<notin> set (u_home u))"
proof -
  obtain A s where s: "persist_ok demo_ports sane (\<lambda>_. 0) A s" "kmalloc 512 s \<noteq> Some (NULL, s)" using demo_state by blast
  have f: "files_ok A s" "users_ok s" "\<forall>u\<in>set (users s). u_active u \<longrightarrow> NUL \<notin> set (u_home u)" using s(1) by (simp_all add: persist_ok_def)
  let ?t = "s\<lparr>disk := lone_ata drive\<rparr>"
  have "files_ok A ?t" using f(1) by (subst files_ok_cong [where s = s]) simp_all
  moreover have "kmalloc 512 ?t \<noteq> Some (NULL, ?t)"
  proof -
    have "(512 :: u32) = 512" "unat (512 :: u32) + 7 < 4294967296" by simp_all
    from kmalloc_files [OF f(1) this(2)] s(2) obtain p t where "kmalloc 512 s = Some (p, t)" "p \<noteq> NULL" by (auto split: if_splits)
    then show ?thesis using kmalloc_disk [where n = 512 and s = s and d = "lone_ata drive"] by simp
  qed
  ultimately show ?thesis using f lone_ata_ok(1) [OF assms]
    by (intro exI [of _ A] exI [of _ s]) (simp add: installer_def captured_def users_ok_def)
qed

lemma demo_boot_ok: "length demo_boot = 512" "take 8 demo_boot \<noteq> MAGIC"
proof -
  have "take 8 demo_boot = CHR ''B'' # replicate 7 (CHR ''B'')" by (simp add: demo_boot_def numeral_eq_Suc)
  then show "take 8 demo_boot \<noteq> MAGIC" by (simp only: MAGIC_def) simp
qed (simp add: demo_boot_def)

section \<open>Properties\<close>

text \<open>Property C39: the installer returns one of its codes: without a copy of the image, without the drive, for
  an image over 256 sectors or a drive below 2112 (the codes -1 to -4) it writes nothing; without memory for
  the padded image (-6) it has overwritten the boot sector and nothing else; otherwise the drive holds the boot sector in sector 0, the image from
  sector 1 on, padded with zeros, and a blank sector at the data area, and every other sector of both
  drives is as before. Files, accounts and the heap of the others are left alone.\<close>

theorem install_result:
  assumes "files_ok A (sys m)" "ata_ok P view busy (disk (sys m))" "length boot_sector = 512" "captured m"
  shows "\<exists>rc m'. install_to_disk P boot_sector drive m = Some (rc, m') \<and> same_fs (sys m) (sys m') \<and> files_ok A (sys m') \<and>
    ata_ok P view busy (disk (sys m')) \<and>
    (case image_copy m of
       None \<Rightarrow> rc = -1 \<and> m' = m
     | Some img \<Rightarrow>
         if img = [] then rc = -1 \<and> m' = m
         else if \<not> ata_present drive (disk (sys m)) then rc = -2 \<and> m' = m
         else if 131072 < length img then rc = -3 \<and> m' = m
         else if unat (ata_sector_count drive (disk (sys m))) < 2112 then rc = -4 \<and> m' = m
         else if kmalloc (of_nat (n_sectors (length img) * 512)) (sys m) = Some (NULL, sys m)
         then rc = -6 \<and> content view (disk (sys m')) =
            (content view (disk (sys m)))(drive := with_boot boot_sector (content view (disk (sys m)) drive))
         else rc = 0 \<and> content view (disk (sys m')) =
            (content view (disk (sys m)))(drive := installed boot_sector img (content view (disk (sys m)) drive)))"
  using install_outcome [OF assms, of drive] by blast

theorem install_result_witness:
  "\<exists>m m'. install_to_disk demo_ports demo_boot 0 m = Some (0, m') \<and> content sane (disk (sys m')) 0 0 = words_of demo_boot \<and>
     content sane (disk (sys m')) 0 1 = words_of (padded_to ''kernel'') \<and> content sane (disk (sys m')) 0 2048 = replicate 256 0"
proof -
  obtain A s where m: "files_ok A (sys (installer s 0))" "ata_ok demo_ports sane (\<lambda>_. 0) (disk (sys (installer s 0)))" "captured (installer s 0)"
    "kmalloc 512 (sys (installer s 0)) \<noteq> Some (NULL, sys (installer s 0))" using demo_installer [of 0] by auto
  have n: "n_sectors (length ''kernel'') = 1" by (simp add: n_sectors_def)
  have l: "length (words_of (padded_to ''kernel'')) = 256" using padded_words(1) [of "''kernel''"] n by simp
  have i: "image_copy (installer s 0) = Some ''kernel''" "disk (sys (installer s 0)) = lone_ata 0" by (simp_all add: installer_def)
  from install_result [OF m(1,2) demo_boot_ok(1) m(3), of 0] obtain m' where
    "install_to_disk demo_ports demo_boot 0 (installer s 0) = Some (0, m')"
    "content sane (disk (sys m')) = (content sane (lone_ata 0))(0 := installed demo_boot ''kernel'' (content sane (lone_ata 0) 0))"
    using i n m(4) lone_ata_ok(2,3) [of 0] by auto
  then show ?thesis using n l by (intro exI conjI) (auto simp: installed_def)
qed

text \<open>Property C40: what the installed system makes of the disk when it starts from it, alone on the channel.
  On the primary master it finds a blank data area, and its first save leaves the boot sector and the
  kernel alone; a drive of exactly 2112 sectors is accepted by the installer but has no data area for
  the installed system. On the primary slave the data area is taken to be at sector 0, so the first
  save destroys the boot sector.\<close>

theorem installed_first_start:
  assumes "files_ok A (sys m)" "ata_ok P view busy (disk (sys m))" "length boot_sector = 512" "captured m" "take 8 boot_sector \<noteq> MAGIC"
    and "install_to_disk P boot_sector drive m = Some (0, m')" "idents view (disk (sys m)) (1 - drive) = None"
    and "rebooted P view busy (idents view (disk (sys m'))) (content view (disk (sys m'))) t" "files_ok B t" "users_ok t"
    and "\<forall>u\<in>set (users t). u_active u \<longrightarrow> NUL \<notin> set (u_home u)"
  shows "\<exists>st t'. persist_mount P x False t = Some (st, t') \<and> same_fs t t' \<and> persist_ok P view busy B t' \<and>
    (if drive = ATA_MASTER \<and> unat (ata_sector_count drive (disk (sys m))) = 2112 then st = PERSIST_NO_DISK
     else st = PERSIST_EMPTY \<and> data_drive t' = drive \<and>
       (\<forall>t''. persist_save P t' = Some (0, t'') \<longrightarrow>
          (if drive = ATA_MASTER then \<forall>l < 2048. content view (disk t'') drive l = content view (disk (sys m')) drive l
           else content view (disk t'') drive 0 \<noteq> words_of boot_sector)))"
proof -
  from install_success [OF assms(1-4,6)] obtain img w where i: "image_copy m = Some img" "n_sectors (length img) \<le> 256"
    "idents view (disk (sys m')) drive = Some w" "2112 \<le> unat (ident_sectors w)" "drive \<le> 1" "idents view (disk (sys m')) = idents view (disk (sys m))"
    "content view (disk (sys m')) drive = installed boot_sector img (content view (disk (sys m)) drive)" by auto
  have other: "idents view (disk (sys m')) (1 - drive) = None" using assms(7) i(6) by simp
  note blank = installed_blank [OF i(2) assms(3,5) i(5), of "content view (disk (sys m'))", OF i(7)]
  have "ata_present drive (disk (sys m))"
    using install_outcome [OF assms(1-4), of drive] assms(6) i(1) by (auto split: if_splits)
  from ata_ok_idents [OF assms(2) this] i(3,6) have sc: "ata_sector_count drive (disk (sys m)) = ident_sectors w" by auto
  let ?base = "if drive = ATA_MASTER then INSTALL_DATA_LBA else 0" and ?none = "drive = ATA_MASTER \<and> unat (ident_sectors w) = 2112"
  from mount_fresh [OF assms(8) i(5) other i(3,4) blank, of x] obtain d loc where
    d: "drives_ok P view busy (idents view (disk (sys m'))) (content view (disk (sys m'))) d" and
    r: "persist_mount P x False t = (if ?none
     then Some (PERSIST_NO_DISK, t\<lparr>sealed := False, disk := d, data_where := loc, p_state := PERSIST_NO_DISK\<rparr>)
     else Some (PERSIST_EMPTY, t\<lparr>sealed := False, disk := d, data_drive := drive, data_base := ?base, data_where := loc, p_state := PERSIST_EMPTY\<rparr>))"
    by blast
  have dk: "ata_ok P view busy d" "idents view d = idents view (disk (sys m'))" "content view d = content view (disk (sys m'))"
    "drives d = map found [idents view (disk (sys m')) ATA_MASTER, idents view (disk (sys m')) ATA_SLAVE]" using d by (simp_all add: drives_ok_def)
  have pres: "ata_present drive d" using present_found(1) [OF dk(4) i(5)] i(3,4) by (metis not_numeral_le_zero unat_0)
  have base: "unat ?base = (if drive = ATA_MASTER then 2048 else 0)" by (simp add: INSTALL_DATA_LBA_def)
  show ?thesis
  proof (cases ?none)
    case True
    let ?t = "t\<lparr>sealed := False, disk := d, data_where := loc, p_state := PERSIST_NO_DISK\<rparr>"
    have "files_ok B ?t" using assms(9) by (subst files_ok_cong [where s = t]) simp_all
    then have "persist_ok P view busy B ?t" using assms(10,11) dk(1) by (simp add: persist_ok_def users_ok_def)
    moreover have "same_fs t ?t" by (simp add: same_fs_def)
    ultimately show ?thesis using r True sc by (intro exI [of _ PERSIST_NO_DISK] exI [of _ ?t]) simp
  next
    case False
    let ?t = "t\<lparr>sealed := False, disk := d, data_drive := drive, data_base := ?base, data_where := loc, p_state := PERSIST_EMPTY\<rparr>"
    have "files_ok B ?t" using assms(9) by (subst files_ok_cong [where s = t]) simp_all
    moreover have "placed view ?t"
    proof (cases "drive = ATA_MASTER")
      case True
      with other have "idents view d ATA_SLAVE = None" by (simp add: dk(2) ATA_MASTER_def ATA_SLAVE_def)
      with True pres show ?thesis by (simp add: placed_def has_super_def)
    next
      case False
      with i(5) have "drive = ATA_SLAVE" by (auto simp: ATA_MASTER_def ATA_SLAVE_def)
      with False pres show ?thesis by (simp add: placed_def)
    qed
    ultimately have ok: "persist_ok P view busy B ?t" using assms(10,11) dk(1) by (simp add: persist_ok_def users_ok_def)
    have live: "\<not> sealed ?t" "p_state ?t = PERSIST_EMPTY" by simp_all
    have save: "if drive = ATA_MASTER then \<forall>l < 2048. content view (disk t'') drive l = content view (disk (sys m')) drive l
           else content view (disk t'') drive 0 \<noteq> words_of boot_sector" if s: "persist_save P ?t = Some (0, t'')" for t''
      using first_save [OF ok live s assms(3,5)] base dk(3) by (cases "drive = ATA_MASTER") simp_all
    have sm: "same_fs t ?t" by (simp add: same_fs_def)
    have mnt: "persist_mount P x False t = Some (PERSIST_EMPTY, ?t)" using r False by (simp only: if_False)
    have none: "(drive = ATA_MASTER \<and> unat (ata_sector_count drive (disk (sys m))) = 2112) = False" using False sc by simp
    show ?thesis unfolding none if_False
      by (intro exI [of _ PERSIST_EMPTY] exI [of _ ?t] conjI allI impI, rule mnt, rule sm, rule ok, rule refl, simp, erule save)
  qed
qed

theorem installed_first_start_witness:
  "\<exists>(m :: ata_view machine) m' t'. install_to_disk demo_ports demo_boot 1 m = Some (0, m') \<and> content sane (disk (sys m')) 1 0 = words_of demo_boot \<and>
     persist_mount demo_ports NUL False (sys m') = Some (PERSIST_EMPTY, t') \<and> data_drive t' = 1 \<and>
     (\<exists>B. persist_ok demo_ports sane (\<lambda>_. 0) B t')"
proof -
  obtain A s where m: "files_ok A (sys (installer s 1))" "ata_ok demo_ports sane (\<lambda>_. 0) (disk (sys (installer s 1)))" "captured (installer s 1)"
    "kmalloc 512 (sys (installer s 1)) \<noteq> Some (NULL, sys (installer s 1))" "users_ok (sys (installer s 1))"
    "\<forall>u\<in>set (users (sys (installer s 1))). u_active u \<longrightarrow> NUL \<notin> set (u_home u)" using demo_installer [of 1] by auto
  have n: "n_sectors (length ''kernel'') = 1" by (simp add: n_sectors_def)
  have i: "image_copy (installer s 1) = Some ''kernel''" "disk (sys (installer s 1)) = lone_ata 1" by (simp_all add: installer_def)
  from install_outcome [OF m(1,2) demo_boot_ok(1) m(3), of 1] obtain m' where
    r: "install_to_disk demo_ports demo_boot 1 (installer s 1) = Some (0, m')" "same_fs (sys (installer s 1)) (sys m')" "files_ok A (sys m')"
    "ata_ok demo_ports sane (\<lambda>_. 0) (disk (sys m'))"
    "content sane (disk (sys m')) = (content sane (lone_ata 1))(1 := installed demo_boot ''kernel'' (content sane (lone_ata 1) 1))"
    using i n m(4) lone_ata_ok(2,3) [of 1] by auto
  have "idents sane (disk (sys (installer s 1))) (1 - 1) = None" using lone_ata_ok(4) [of 1] i(2) by simp
  moreover have "rebooted demo_ports sane (\<lambda>_. 0) (idents sane (disk (sys m'))) (content sane (disk (sys m'))) (sys m')"
    using r(4) by (simp add: rebooted_def ata_ok_def at_rest_def idents_def content_def)
  moreover have "users_ok (sys m')" "\<forall>u\<in>set (users (sys m')). u_active u \<longrightarrow> NUL \<notin> set (u_home u)"
    using m(5,6) r(2) by (simp_all add: same_fs_def users_ok_def)
  ultimately obtain t' where "persist_mount demo_ports NUL False (sys m') = Some (PERSIST_EMPTY, t')" "data_drive t' = 1"
    "persist_ok demo_ports sane (\<lambda>_. 0) A t'"
    using installed_first_start [OF m(1,2) demo_boot_ok(1) m(3) demo_boot_ok(2) r(1) _ _ r(3), of NUL] by (auto simp: ATA_MASTER_def)
  moreover have "content sane (disk (sys m')) 1 0 = words_of demo_boot" using r(5) by (simp add: installed_def)
  ultimately show ?thesis using r(1) by blast
qed

end
