(* ===== verification/Shell_Durable.thy ===== *)
theory Shell_Durable
  imports Shell_Spec
begin

text \<open>
  The shell and the data disk: after every line either the disk carries the tree and the accounts, or
  the system knows that it does not.
\<close>

section \<open>What the disk carries\<close>

definition backed :: "'d ports \<Rightarrow> ('d \<Rightarrow> ata_view) \<Rightarrow> ('d \<Rightarrow> nat) \<Rightarrow> 'd persist \<Rightarrow> bool" where
  "backed P view busy s \<longleftrightarrow> (\<exists>A. persist_ok P view busy A s) \<and> \<not> sealed s \<and> p_state s \<noteq> PERSIST_NO_DISK"

text \<open>The snapshot on the disk is one of the present tree and accounts, whatever its number.\<close>

definition on_disk :: "('d \<Rightarrow> ata_view) \<Rightarrow> 'd persist \<Rightarrow> bool" where
  "on_disk view s \<longleftrightarrow> (\<exists>ps n. listing s ps \<and> carries view (s\<lparr>save_count := n\<rparr>) ps (content view (disk s)))"

definition settled :: "('d \<Rightarrow> ata_view) \<Rightarrow> 'd persist \<Rightarrow> 'd persist \<Rightarrow> bool" where
  "settled view s t \<longleftrightarrow> tree_kept s t \<and> content view (disk t) = content view (disk s) \<and> idents view (disk t) = idents view (disk s) \<and>
     data_drive t = data_drive s \<and> data_base t = data_base s \<and> dirty t = dirty s"

text \<open>A file that \<open>echo\<close> has created and then could not write.\<close>

definition stray :: "'d persist \<Rightarrow> 'd persist \<Rightarrow> bool" where
  "stray s t \<longleftrightarrow> users t = users s \<and> disk t = disk s \<and> data_drive t = data_drive s \<and> data_base t = data_base s \<and> dirty t = dirty s \<and>
     (\<exists>xs. fs_view s xs = None \<and> fs_view t = (fs_view s)(xs \<mapsto> File []))"

lemma settled_refl [simp]: "settled view s s"
  by (simp add: settled_def)

lemma kept_records:
  assumes "tree_kept s t"
  shows "accounts t = accounts s" "recs_of t ps = recs_of s ps" "listing t ps = listing s ps"
proof -
  have "node_recs t p = node_recs s p" for p
    using assms by (auto simp: node_recs_def fs_abspath_def tree_kept_def contents_def split: option.splits)
  then have "map (node_recs t) ps = map (node_recs s) ps" by simp
  then show "recs_of t ps = recs_of s ps" by (simp only: recs_of_def)
  show "accounts t = accounts s" "listing t ps = listing s ps" using assms by (simp_all add: tree_kept_def accounts_def listing_def)
qed

lemma count_records:
  "accounts (s\<lparr>save_count := n\<rparr>) = accounts s" "recs_of (s\<lparr>save_count := n\<rparr>) ps = recs_of s ps"
  using kept_records [of s "s\<lparr>save_count := n\<rparr>"] by (simp_all add: tree_kept_def)

lemma on_disk_settled: "settled view s t \<Longrightarrow> on_disk view s \<Longrightarrow> on_disk view t"
proof -
  assume s: "settled view s t" and "on_disk view s"
  then obtain ps n where p: "listing s ps" "carries view (s\<lparr>save_count := n\<rparr>) ps (content view (disk s))" by (auto simp: on_disk_def)
  have k: "tree_kept s t" using s by (simp add: settled_def)
  note r = kept_records [OF k]
  have pay: "payload (t\<lparr>save_count := n\<rparr>) ps = payload (s\<lparr>save_count := n\<rparr>) ps" by (simp add: payload_def count_records r)
  have "superblock (t\<lparr>save_count := n\<rparr>) ps = superblock (s\<lparr>save_count := n\<rparr>) ps"
    unfolding superblock_def pay by (simp add: count_records r)
  then have "carries view (t\<lparr>save_count := n\<rparr>) ps (content view (disk t))"
    using p(2) s unfolding carries_def pay settled_def by simp
  with p(1) r(3) show ?thesis by (auto simp: on_disk_def)
qed

section \<open>Staying ready\<close>

lemma persist_step:
  assumes "persist_ok P view busy A s" "files_ok B t" "users_ok t" "\<forall>u\<in>set (users t). u_active u \<longrightarrow> NUL \<notin> set (u_home u)"
    and "disk t = disk s" "p_state t = p_state s" "data_drive t = data_drive s" "data_base t = data_base s"
  shows "persist_ok P view busy B t"
  using assms by (simp add: persist_ok_def placed_def)

lemma persist_frame:
  assumes ok: "persist_ok P view busy A s" and f: "fs_frame s t" "files_ok B t"
  shows "persist_ok P view busy B t"
proof (rule persist_step [OF ok f(2)])
  show "users_ok t" using ok users_frame_ok [OF f(1)] by (simp add: persist_ok_def)
  show "\<forall>u\<in>set (users t). u_active u \<longrightarrow> NUL \<notin> set (u_home u)" using ok fs_frame_users [OF f(1)] by (simp add: persist_ok_def)
qed (use f(1) in \<open>auto simp: fs_frame_def\<close>)

text \<open>The layer outside the filesystem and the accounts.\<close>

lemma kept_layer_of:
  "fs_frame (s\<lparr>users := us, next_uid := n\<rparr>) t \<Longrightarrow> disk t = disk s \<and> p_state t = p_state s \<and> data_drive t = data_drive s \<and>
     data_base t = data_base s \<and> sealed t = sealed s \<and> dirty t = dirty s"
  "fs_frame (s\<lparr>users := us\<rparr>) t \<Longrightarrow> disk t = disk s \<and> p_state t = p_state s \<and> data_drive t = data_drive s \<and>
     data_base t = data_base s \<and> sealed t = sealed s \<and> dirty t = dirty s"
  by (auto simp: fs_frame_def)

lemma ready_frame: "backed P view busy s \<Longrightarrow> fs_frame s t \<Longrightarrow> (\<And>A. files_ok A s \<Longrightarrow> files_ok A t) \<Longrightarrow> backed P view busy t"
proof -
  assume r: "backed P view busy s" and f: "fs_frame s t" "\<And>A. files_ok A s \<Longrightarrow> files_ok A t"
  from r obtain A where a: "persist_ok P view busy A s" by (auto simp: backed_def)
  then have "files_ok A s" by (simp add: persist_ok_def)
  from persist_frame [OF a f(1) f(2) [OF this]] r f(1) show ?thesis by (auto simp: backed_def fs_frame_def)
qed

lemma ready_files: "backed P view busy s \<Longrightarrow> \<exists>A. files_ok A s"
  by (auto simp: backed_def persist_ok_def)

lemma ready_dirty: "backed P view busy s \<Longrightarrow> backed P view busy (s\<lparr>dirty := d\<rparr>)"
proof -
  assume r: "backed P view busy s"
  then obtain A where a: "persist_ok P view busy A s" by (auto simp: backed_def)
  then have "files_ok A (s\<lparr>dirty := d\<rparr>)" by (subst files_ok_cong [where s = s]) (simp_all add: persist_ok_def)
  with a have "persist_ok P view busy A (s\<lparr>dirty := d\<rparr>)"
    by (intro persist_step [OF a]) (simp_all add: persist_ok_def users_ok_def)
  with r show ?thesis by (auto simp: backed_def)
qed

section \<open>The record of a line\<close>

text \<open>\<open>e\<close> tells whether the line is an \<open>echo\<close>.\<close>

definition led :: "'d ports \<Rightarrow> ('d \<Rightarrow> ata_view) \<Rightarrow> ('d \<Rightarrow> nat) \<Rightarrow> bool \<Rightarrow> 'd persist \<Rightarrow> 'd persist \<Rightarrow> bool" where
  "led P view busy e s t \<longleftrightarrow> backed P view busy t \<and> (settled view s t \<or> dirty t \<or> on_disk view t \<or> e \<and> stray s t)"

lemma led_refl: "backed P view busy s \<Longrightarrow> led P view busy e s s"
  by (simp add: led_def)

lemma led_settled: "backed P view busy t \<Longrightarrow> settled view s t \<Longrightarrow> led P view busy e s t"
  by (simp add: led_def)

lemma led_dirty: "backed P view busy t \<Longrightarrow> led P view busy e s (t\<lparr>dirty := True\<rparr>)"
  using ready_dirty [of P view busy t True] by (simp add: led_def)

lemma moves_led: "moves (=) m0 m \<Longrightarrow> led P view busy e (sys m0) s \<Longrightarrow> moves (led P view busy e) m0 (m\<lparr>sys := s\<rparr>)"
  by (erule moves_sys)

lemma moves_quiet_led: "moves (=) m0 m \<Longrightarrow> backed P view busy (sys m0) \<Longrightarrow> moves (led P view busy e) m0 m"
  by (erule moves_mono) (metis led_refl)

section \<open>Files\<close>

lemma create_ready:
  assumes r: "backed P view busy s" and fits: "path_fits c path"
  shows "ends (fs_create c path ty s) (\<lambda>(p, t). backed P view busy t \<and> (p = NULL \<longrightarrow> t = s) \<and> (ty = FS_FILE \<longrightarrow> p \<noteq> NULL \<longrightarrow> settled view s t \<or> stray s t))"
proof -
  obtain A where A: "files_ok A s" using ready_files [OF r] by blast
  then obtain L cwd where f: "fs_inv s L" "node_path s cwd (current_dir s)" by (auto simp: files_ok_def)
  have pf: "NUL \<notin> set path" "c = NUL \<or> (\<forall>c\<in>set (path_comps path). length c < FS_NAME_MAX - 1)"
    using fits by (simp_all add: path_fits_def)
  from fs_create_ok [OF f pf, of ty] obtain p t where t: "fs_create c path ty s = Some (p, t)" "fs_frame s t" "p = 0 \<longrightarrow> t = s"
    "p \<noteq> 0 \<longrightarrow> (\<exists>xs. fs_view s xs = None \<and> fs_view t = (fs_view s)(xs \<mapsto> new_entry ty))" by blast
  have "files_ok B t" if "files_ok B s" for B
    using files_create [OF that fits, of ty] t(1) by auto
  from ready_frame [OF r t(2) this] have "backed P view busy t" .
  moreover have "stray s t" if "ty = FS_FILE" "p \<noteq> 0"
    using t(2,4) that by (auto simp: stray_def new_entry_def fs_frame_def)
  ultimately show ?thesis using t(1,3) by simp
qed

lemma write_ready:
  assumes r: "backed P view busy s" and p: "p \<noteq> NULL" and small: "length bytes \<le> 1000000"
  shows "ends (fs_write p bytes app s) (\<lambda>(rc, t). backed P view busy t \<and> (rc \<noteq> 0 \<longrightarrow> t = s))"
proof (cases "nodes s p")
  case None
  with p show ?thesis by (simp add: fs_write_def fs_write_n_def)
next
  case (Some n)
  show ?thesis
  proof (cases "n_type n = FS_FILE")
    case False
    with Some p r show ?thesis by (simp add: fs_write_def fs_write_n_def)
  next
    case True
    obtain A where A: "files_ok A s" using ready_files [OF r] by blast
    then obtain L where L: "fs_inv s L" by (auto simp: files_ok_def)
    from node_path_exists [OF L Some] obtain xs where xs: "node_path s xs p" by blast
    have "(if app then unat (n_size n) else 0) + length bytes + 72 < 4294967296" using file_size [OF L Some] small by simp
    from fs_write_n_ok [OF L xs Some True this] obtain rc t where w: "fs_write_n p bytes app s = Some (rc, t)" "fs_frame s t" "rc \<noteq> 0 \<longrightarrow> t = s"
      by blast
    have "files_ok B t" if "files_ok B s" for B
      using files_write [OF that _ small, of p app] Some w(1) by (auto simp: fs_write_def)
    from ready_frame [OF r w(2) this] w(1,3) show ?thesis by (simp add: fs_write_def)
  qed
qed

text \<open>\<open>fs_remove\<close> spares the working directory, but not the directories above it.\<close>

definition spares_cwd :: "string \<Rightarrow> 'a fs_state_scheme \<Rightarrow> bool" where
  "spares_cwd path s \<longleftrightarrow> (\<forall>cwd xs. node_path s cwd (current_dir s) \<longrightarrow> abs_resolve (fs_view s) cwd path = Some xs \<longrightarrow>
     xs = [] \<or> \<not> strict_prefix xs cwd)"

lemma remove_led:
  assumes r: "backed P view busy s" and spares: "spares_cwd path s"
  shows "ends (fs_remove path s) (\<lambda>(rc, t). (rc \<noteq> 0 \<longrightarrow> t = s) \<and> led P view busy e s (t\<lparr>dirty := True\<rparr>))"
proof -
  obtain A where A: "persist_ok P view busy A s" using r by (auto simp: backed_def)
  then obtain L cwd where f: "fs_inv s L" "node_path s cwd (current_dir s)" "others s L = A" by (auto simp: files_ok_def persist_ok_def)
  have "\<exists>rc t. fs_remove path s = Some (rc, t) \<and> fs_frame s t \<and>
      (t = s \<or> rc = 0 \<and> node_path t cwd (current_dir s) \<and> (\<exists>L'. fs_inv t L' \<and> others t L' = A))"
  proof (cases "abs_resolve (fs_view s) cwd path")
    case None
    with fs_remove_ok [OF f(1,2), of path] show ?thesis by auto
  next
    case (Some xs)
    with spares f(2) have "xs = [] \<or> \<not> strict_prefix xs cwd" by (auto simp: spares_cwd_def)
    then have "xs = [] \<or> xs = cwd \<or> \<not> prefix xs cwd" by (auto simp: strict_prefix_def)
    with fs_remove_ok [OF f(1,2), of path] f(2,3) Some show ?thesis by (cases "xs = []"; cases "xs = cwd") auto
  qed
  then obtain rc t where t: "fs_remove path s = Some (rc, t)" "fs_frame s t"
    "t = s \<or> rc = 0 \<and> node_path t cwd (current_dir s) \<and> (\<exists>L'. fs_inv t L' \<and> others t L' = A)" by blast
  then have t4: "rc \<noteq> 0 \<longrightarrow> t = s" by blast
  have "backed P view busy t"
  proof (cases "t = s")
    case True
    with r show ?thesis by simp
  next
    case False
    with t(3) obtain L' where L': "fs_inv t L'" "others t L' = A" "node_path t cwd (current_dir s)" by blast
    have "current_dir t = current_dir s" using t(2) by (auto simp: fs_frame_def)
    with L' have "files_ok A t" by (auto simp: files_ok_def)
    from persist_frame [OF A t(2) this] r t(2) show ?thesis by (auto simp: backed_def fs_frame_def)
  qed
  with t(1) t4 show ?thesis by (simp add: led_dirty)
qed

section \<open>Accounts\<close>

lemma ready_accounts:
  assumes r: "backed P view busy s" and t: "\<And>A. files_ok A s \<Longrightarrow> files_ok A t" "users_ok t"
    and h: "\<forall>u\<in>set (users t). u_active u \<longrightarrow> NUL \<notin> set (u_home u)"
    and l: "disk t = disk s \<and> p_state t = p_state s \<and> data_drive t = data_drive s \<and> data_base t = data_base s \<and> sealed t = sealed s \<and> dirty t = dirty s"
  shows "backed P view busy t"
proof -
  from r obtain A where a: "persist_ok P view busy A s" by (auto simp: backed_def)
  then have "files_ok A s" by (simp add: persist_ok_def)
  from persist_step [OF a t(1) [OF this] t(2) h] l r show ?thesis by (auto simp: backed_def)
qed

lemma ready_homes: "backed P view busy s \<Longrightarrow> \<forall>u\<in>set (users s). u_active u \<longrightarrow> NUL \<notin> set (u_home u)"
  by (auto simp: backed_def persist_ok_def)

lemma ready_users: "backed P view busy s \<Longrightarrow> users_ok s"
  by (auto simp: backed_def persist_ok_def)

lemma add_ready:
  assumes r: "backed P view busy s" and fits: "valid_name name \<longrightarrow> c = NUL \<or> length name < FS_NAME_MAX - 1"
  shows "ends (users_add c d name (Some pw) False s) (\<lambda>(rc, t). backed P view busy t \<and> (rc \<noteq> 0 \<longrightarrow> t = s))"
proof (cases "valid_name name")
  case False
  with r show ?thesis by (simp add: users_add_def)
next
  case True
  with fits have fit: "c = NUL \<or> length name < FS_NAME_MAX - 1" by blast
  obtain A where A: "files_ok A s" using ready_files [OF r] by blast
  note u = ready_users [OF r]
  from users_add_full [OF A u fit, of d pw False] obtain rc t where o: "users_add c d name (Some pw) False s = Some (rc, t)" "users_ok t"
    "if rc = 0 then \<exists>i uid. free_slot (users s) = Some i \<and> uid = (if False then 0 else next_uid s) \<and>
       users t = (users s)[i := account name pw False uid] \<and>
       next_uid t = (if False then next_uid s else next_uid s + 1) \<and> logged_in t = logged_in s else t = s"
    "\<exists>us n. fs_frame (s\<lparr>users := us, next_uid := n\<rparr>) t" by blast
  have "rc \<noteq> 0 \<longrightarrow> t = s" using o(3) by simp
  moreover have "rc = 0 \<longrightarrow> (\<exists>i uid. users t = (users s)[i := account name pw False uid])" using o(3) by (cases "rc = 0") (simp_all, blast?)
  ultimately have t: "users_add c d name (Some pw) False s = Some (rc, t)" "users_ok t" "rc \<noteq> 0 \<longrightarrow> t = s"
    "rc = 0 \<longrightarrow> (\<exists>i uid. users t = (users s)[i := account name pw False uid])"
    "\<exists>us n. fs_frame (s\<lparr>users := us, next_uid := n\<rparr>) t" using o by blast+
  show ?thesis
  proof (cases "rc = 0")
    case False
    with t r show ?thesis by simp
  next
    case True
    have f: "files_ok B t" if "files_ok B s" for B using users_add_full [OF that u fit, of d pw False] t(1) by auto
    from True t(4) obtain i uid where i: "users t = (users s)[i := account name pw False uid]" by blast
    have "NUL \<notin> set (u_home (account name pw False uid))" using valid_name_ok(2) [OF \<open>valid_name name\<close>] by (simp add: account_def)
    then have "\<forall>u\<in>set (users t). u_active u \<longrightarrow> NUL \<notin> set (u_home u)"
      using ready_homes [OF r] i by (auto dest!: set_update_subset_insert [THEN subsetD])
    moreover from t(5) obtain us n where "fs_frame (s\<lparr>users := us, next_uid := n\<rparr>) t" by blast
    ultimately have "backed P view busy t" using ready_accounts [OF r f t(2)] kept_layer_of(1) by blast
    with t(1) True show ?thesis by simp
  qed
qed

lemma delete_ready:
  assumes r: "backed P view busy s"
  shows "ends (users_delete c name s) (\<lambda>(rc, t). backed P view busy t \<and> (rc \<noteq> 0 \<longrightarrow> t = s))"
proof -
  obtain A where A: "files_ok A s" using ready_files [OF r] by blast
  note u = ready_users [OF r]
  from users_delete_full [OF A u, of c name] obtain rc t where o: "users_delete c name s = Some (rc, t)" "users_ok t"
    "if rc = 0 then \<exists>i. users_find name s = Some i \<and> u_uid (users s ! i) \<noteq> 0 \<and> logged_in s \<noteq> Some i \<and>
       users t = (users s)[i := (users s ! i)\<lparr>u_active := False\<rparr>] \<and> logged_in t = logged_in s else t = s"
    "\<exists>us. fs_frame (s\<lparr>users := us\<rparr>) t" by blast
  have "rc \<noteq> 0 \<longrightarrow> t = s" using o(3) by simp
  moreover have "rc = 0 \<longrightarrow> (\<exists>i. users t = (users s)[i := (users s ! i)\<lparr>u_active := False\<rparr>])" using o(3) by (cases "rc = 0") (simp_all, blast?)
  ultimately have t: "users_delete c name s = Some (rc, t)" "users_ok t" "rc \<noteq> 0 \<longrightarrow> t = s"
    "rc = 0 \<longrightarrow> (\<exists>i. users t = (users s)[i := (users s ! i)\<lparr>u_active := False\<rparr>])" "\<exists>us. fs_frame (s\<lparr>users := us\<rparr>) t" using o by blast+
  show ?thesis
  proof (cases "rc = 0")
    case False
    with t r show ?thesis by simp
  next
    case True
    have f: "files_ok B t" if "files_ok B s" for B using users_delete_full [OF that u, of c name] t(1) by auto
    from True t(4) obtain i where i: "users t = (users s)[i := (users s ! i)\<lparr>u_active := False\<rparr>]" by blast
    then have "\<forall>u\<in>set (users t). u_active u \<longrightarrow> NUL \<notin> set (u_home u)"
      using ready_homes [OF r] by (auto dest!: set_update_subset_insert [THEN subsetD])
    moreover from t(5) obtain us where "fs_frame (s\<lparr>users := us\<rparr>) t" by blast
    ultimately have "backed P view busy t" using ready_accounts [OF r f t(2)] kept_layer_of(2) by blast
    with t(1) True show ?thesis by simp
  qed
qed

lemma password_ready:
  assumes r: "backed P view busy s" and w: "users_set_password name (Some pw) s = (rc, t)"
  shows "backed P view busy t \<and> (rc \<noteq> 0 \<longrightarrow> t = s)"
proof (cases "t = s")
  case True
  with r show ?thesis by simp
next
  case False
  with w obtain i h where i: "users_find name s = Some i" "t = s\<lparr>users := (users s)[i := (users s ! i)\<lparr>u_hash := h\<rparr>]\<rparr>" "rc = 0"
    by (auto simp: users_set_password_def split: option.splits if_splits)
  obtain A where A: "files_ok A s" using ready_files [OF r] by blast
  have f: "files_ok B t" if "files_ok B s" for B using that unfolding i(2) by (subst files_ok_cong [where s = s]) simp_all
  have u: "users_ok t" using users_set_password_ok [OF A ready_users [OF r], of name "Some pw"] w by auto
  have lt: "i < length (users s)" using users_find_Some [OF i(1)] ready_users [OF r] by (simp add: users_ok_def)
  then have "users s ! i \<in> set (users s)" by simp
  then have h: "\<forall>u\<in>set (users t). u_active u \<longrightarrow> NUL \<notin> set (u_home u)"
    using ready_homes [OF r] unfolding i(2) by (auto dest!: set_update_subset_insert [THEN subsetD])
  have "disk t = disk s \<and> p_state t = p_state s \<and> data_drive t = data_drive s \<and> data_base t = data_base s \<and> sealed t = sealed s \<and> dirty t = dirty s"
    by (simp add: i(2))
  from ready_accounts [OF r f u h this] i(3) show ?thesis by simp
qed

section \<open>Directory, session and stacks\<close>

text \<open>Changes that leave the records alone.\<close>

lemma settledI:
  assumes "nodes t = nodes s" "bufs t = bufs s" "root_node t = root_node s" "users t = users s"
    and "disk t = disk s" "data_drive t = data_drive s" "data_base t = data_base s" "dirty t = dirty s"
  shows "settled view s t"
  using assms by (simp add: settled_def tree_kept_def)

lemma cwd_ready:
  assumes r: "backed P view busy s"
  shows "ends (fs_set_cwd p s) (\<lambda>t. backed P view busy t \<and> settled view s t)"
proof (cases "p = NULL \<or> nodes s p = None \<or> n_type (the (nodes s p)) \<noteq> FS_DIR")
  case True
  with r show ?thesis by (cases "nodes s p") (auto simp: fs_set_cwd_def)
next
  case False
  then obtain n where n: "p \<noteq> NULL" "nodes s p = Some n" "n_type n = FS_DIR" by auto
  let ?t = "s\<lparr>current_dir := p\<rparr>"
  have f: "files_ok A ?t" if a: "files_ok A s" for A
  proof -
    from a obtain L where s: "fs_inv s L" "others s L = A" by (auto simp: files_ok_def)
    from node_path_exists [OF s(1) n(2)] obtain xs where xs: "node_path s xs p" by blast
    have "fs_inv ?t L" "node_path ?t xs p" "others ?t L = A"
      using s xs by (simp_all add: fs_inv_def mem_holds_def heap_rep_def others_def node_path_def)
    then show ?thesis unfolding files_ok_def by (intro exI [of _ L] exI [of _ xs]) simp
  qed
  have u: "users_ok ?t" using ready_users [OF r] by (simp add: users_ok_def)
  have "backed P view busy ?t" by (rule ready_accounts [OF r f u]) (use ready_homes [OF r] in simp_all)
  moreover have "settled view s ?t" by (rule settledI) simp_all
  ultimately show ?thesis using n by (simp add: fs_set_cwd_def)
qed

lemma settled_trans: "settled view s t \<Longrightarrow> settled view t u \<Longrightarrow> settled view s u"
  by (simp add: settled_def tree_kept_def)

lemma switch_ready:
  assumes r: "backed P view busy s"
  shows "ends (users_switch name (Some pw) s) (\<lambda>(rc, t). backed P view busy t \<and> settled view s t)"
proof (cases "users_find name s = None \<or> \<not> users_check_password (Some (users s ! the (users_find name s))) (Some pw)")
  case True
  with r show ?thesis by (cases "users_find name s") (auto simp: users_switch_def)
next
  case False
  then obtain i where i: "users_find name s = Some i" "users_check_password (Some (users s ! i)) (Some pw)" by auto
  let ?s = "s\<lparr>logged_in := Some i\<rparr>"
  have f: "files_ok A ?s" if "files_ok A s" for A using that by (subst files_ok_cong [where s = s]) simp_all
  have u: "users_ok ?s" using ready_users [OF r] users_find_Some [OF i(1)] by (auto simp: users_ok_def)
  have rs: "backed P view busy ?s" by (rule ready_accounts [OF r f u]) (use ready_homes [OF r] in simp_all)
  have st: "settled view s ?s" by (rule settledI) simp_all
  have "ends (fs_set_cwd p ?s) (\<lambda>t. backed P view busy t \<and> settled view s t)" for p
    by (rule ends_mono [OF cwd_ready [OF rs]]) (use settled_trans [OF st] in blast)
  note step = ends_mono [OF this]
  have e: "users_switch name (Some pw) s = do { home \<leftarrow> fs_resolve (u_home (users s ! i)) ?s; t \<leftarrow> fs_set_cwd home ?s; Some (0, t) }"
    using i by (simp add: users_switch_def Let_def)
  show ?thesis unfolding e by (rule ends_bind, rule ends_any, rule ends_bind, rule step) simp
qed

lemma mem_frame_settled: "mem_frame s t \<Longrightarrow> settled view s t"
  using kept_frame [of s t] by (intro settledI) (auto simp: mem_frame_def tree_kept_def)

lemma spawn_persist:
  assumes A: "persist_ok P view busy A s"
  shows "ends (task_spawn b name entry arg s x) (\<lambda>(task, t, x'). (\<exists>B. persist_ok P view busy B t) \<and> mem_frame s t)"
proof -
  from A have fA: "files_ok A s" by (simp add: persist_ok_def)
  from kmalloc_files [OF fA, of TASK_STACK_SIZE] obtain p t where
    k: "kmalloc TASK_STACK_SIZE s = Some (p, t)" "mem_frame s t" "if p = NULL then t = s else \<exists>k. A p = None \<and> files_ok (A(p \<mapsto> k)) t"
    by (auto simp: TASK_STACK_SIZE_def)
  from k(3) obtain B where B: "files_ok B t" using fA by (auto split: if_splits)
  obtain H u where t: "t = s\<lparr>hdr := H, heap_used := u\<rparr>" using k(2) by (auto simp: mem_frame_def)
  have "users_ok t" using A by (simp add: t users_ok_def persist_ok_def)
  from persist_step [OF A B this] A have "persist_ok P view busy B t" by (simp add: t persist_ok_def)
  with A k(2) show ?thesis
    unfolding task_spawn_def k(1) bind.bind_lunit prod.case
    by (intro wp ends_any [where r = "list_insert i y" for i y]) (auto simp: mem_frame_refl)
qed

lemma spawn_ready:
  assumes r: "backed P view busy s"
  shows "ends (task_spawn b name entry arg s x) (\<lambda>(task, t, x'). backed P view busy t \<and> settled view s t)"
proof -
  obtain A where "persist_ok P view busy A s" using r by (auto simp: backed_def)
  note step = ends_mono [OF spawn_persist [OF this]]
  have "sealed t = sealed s \<and> p_state t = p_state s" if "mem_frame s t" for t using that by (auto simp: mem_frame_def)
  then show ?thesis by (intro step) (use r mem_frame_settled in \<open>auto simp: backed_def\<close>)
qed

section \<open>Saving, formatting and the clock\<close>

lemma save_led:
  assumes r: "backed P view busy s"
  shows "ends (persist_save P s) (\<lambda>(rc, t). backed P view busy t \<and> rc \<in> {0, -1, -2, -3} \<and>
    (if rc = 0 then on_disk view t else settled view s t))"
proof -
  from r obtain A where a: "persist_ok P view busy A s" and l: "\<not> sealed s" "p_state s \<noteq> PERSIST_NO_DISK" by (auto simp: backed_def)
  from persist_save_result [OF a l] obtain ps rc t where t: "listing s ps" "persist_save P s = Some (rc, t)" "same_fs s t"
    "persist_ok P view busy A t" "data_drive t = data_drive s" "data_base t = data_base s"
    "rc = 0 \<longrightarrow> carries view s ps (content view (disk t)) \<and> idents view (disk t) = idents view (disk s) \<and> p_state t = PERSIST_LOADED"
    "sealed t = sealed s" "rc \<noteq> 0 \<longrightarrow> disk t = disk s \<and> p_state t = p_state s \<and> dirty t = dirty s"
    "if kmalloc MAX_PAYLOAD s = Some (NULL, s) then rc = -1 else if length (payload s ps) > 1048576 then rc = -2
     else if unat (data_base s) + 1 + n_sectors (length (payload s ps)) \<le> unat (ata_sector_count (data_drive s) (disk s)) then rc = 0 else rc = -3" by blast
  have rc: "rc \<in> {0, -1, -2, -3}" using t(10) by (simp split: if_splits)
  have b: "backed P view busy t" using t(4,7-9) l by (cases "rc = 0") (auto simp: backed_def)
  note q = same_fs_records [OF t(3)]
  have "on_disk view t" if "rc = 0"
  proof -
    let ?t = "t\<lparr>save_count := save_count s\<rparr>"
    have pay: "payload ?t ps = payload s ps" by (simp add: payload_def count_records q(1,2))
    have "superblock ?t ps = superblock s ps" unfolding superblock_def pay by (simp add: count_records q(1,2))
    then have "carries view ?t ps (content view (disk t))"
      using t(5-7) that unfolding carries_def pay by simp
    with t(1) q(3) show ?thesis by (auto simp: on_disk_def)
  qed
  moreover have "settled view s t" if "rc \<noteq> 0" using that t(3,5,6,9) by (intro settledI) (simp_all add: same_fs_def)
  ultimately show ?thesis using b t(2) rc by simp
qed

lemma format_refused:
  assumes r: "backed P view busy s"
  shows "ends (persist_format P s) (\<lambda>(rc, t). rc \<noteq> 0 \<longrightarrow> backed P view busy t \<and> settled view s t)"
proof -
  from r have dk: "ata_ok P view busy (disk s)" "placed view s" "p_state s \<noteq> PERSIST_NO_DISK" by (auto simp: backed_def persist_ok_def)
  have pr: "ata_present (data_drive s) (disk s)" "unat (SUPER_LBA s) \<le> 2048"
    using dk(2) by (auto simp: placed_def SUPER_LBA_def INSTALL_DATA_LBA_def)
  have len: "unat (1 :: u32) * 256 \<le> length (words_of (super_bytes blank_super))" by (simp add: blank_words)
  show ?thesis
  proof (cases "unat (SUPER_LBA s) + unat (1 :: u32) \<le> unat (ata_sector_count (data_drive s) (disk s))")
    case True
    from ata_write_sectors [OF dk(1) pr(1) True len] dk(3) show ?thesis by (auto simp: persist_format_def Let_def)
  next
    case False
    have "unat (SUPER_LBA s) + unat (1 :: u32) < 4294967296 \<and> unat (ata_sector_count (data_drive s) (disk s)) < unat (SUPER_LBA s) + unat (1 :: u32)"
      using False pr(2) by simp
    then have "transfer P (data_drive s) (SUPER_LBA s) 1 (words_of (super_bytes blank_super)) True (disk s) =
        Some (-1, words_of (super_bytes blank_super), disk s)"
      by (intro ata_refuses disjI2 conjI) simp_all
    with dk(3) r show ?thesis by (simp add: persist_format_def ata_write_def)
  qed
qed

text \<open>The clock is not part of the drives.\<close>

definition clock_apart :: "'d ports \<Rightarrow> ('d \<Rightarrow> ata_view) \<Rightarrow> bool" where
  "clock_apart P view \<longleftrightarrow> (\<forall>d r. view (outb P CMOS_ADDRESS r d) = view d \<and> view (snd (inb P CMOS_DATA d)) = view d)"

lemma cmos_apart: "clock_apart P view \<Longrightarrow> view (snd (cmos_read P reg d)) = view d"
  by (simp add: clock_apart_def cmos_read_def)

definition leaves_view :: "('d \<Rightarrow> ata_view) \<Rightarrow> 'd ports \<Rightarrow> 'd \<Rightarrow> 'd \<Rightarrow> bool" where
  "leaves_view view P d d' \<longleftrightarrow> (clock_apart P view \<longrightarrow> view d' = view d)"

lemma wait_leaves: "wait_update P d = Some d' \<Longrightarrow> leaves_view view P d d'"
proof (erule wait_update.raw_induct [where Pa = "\<lambda>(P, d) d'. leaves_view view P d d'", rotated, simplified])
  fix f P d d'
  assume IH: "\<And>P d d'. f P d = Some d' \<Longrightarrow> leaves_view view P d d'"
    and r: "(case update_in_progress P d of (busy, d) \<Rightarrow> if busy \<noteq> 0 then f P d else Some d) = Some d'"
  show "leaves_view view P d d'" unfolding leaves_view_def
  proof
    assume c: "clock_apart P view"
    obtain v e where e: "cmos_read P 0x0A d = (v, e)" by (rule prod.exhaust)
    with cmos_apart [OF c, of "0x0A" d] have ve: "view e = view d" by simp
    from r e have "(if v AND 0x80 \<noteq> 0 then f P e else Some e) = Some d'" by (simp add: update_in_progress_def)
    then consider "f P e = Some d'" | "e = d'" by (cases "v AND 0x80 = 0") simp_all
    then show "view d' = view d"
    proof cases
      case 1
      from IH [OF this] c ve show ?thesis by (simp add: leaves_view_def)
    qed (use ve in simp)
  qed
qed

lemma wait_apart: "wait_update P d = Some d' \<Longrightarrow> clock_apart P view \<Longrightarrow> view d' = view d"
  using wait_leaves [of P d d' view] by (simp add: leaves_view_def)

lemma rtc_apart:
  assumes c: "clock_apart P view"
  shows "ends (rtc_read P d) (\<lambda>(t, d'). view d' = view d)"
proof (rule ends_any)
  fix r assume r: "rtc_read P d = Some r"
  then obtain d0 where d0: "wait_update P d = Some d0" by (auto simp: rtc_read_def bind_eq_Some_conv)
  have v: "view d0 = view d" using wait_apart [OF d0 c] .
  obtain x1 d1 where 1: "cmos_read P 0x00 d0 = (x1, d1)" by (rule prod.exhaust)
  obtain x2 d2 where 2: "cmos_read P 0x02 d1 = (x2, d2)" by (rule prod.exhaust)
  obtain x3 d3 where 3: "cmos_read P 0x04 d2 = (x3, d3)" by (rule prod.exhaust)
  obtain x4 d4 where 4: "cmos_read P 0x07 d3 = (x4, d4)" by (rule prod.exhaust)
  obtain x5 d5 where 5: "cmos_read P 0x08 d4 = (x5, d5)" by (rule prod.exhaust)
  obtain x6 d6 where 6: "cmos_read P 0x09 d5 = (x6, d6)" by (rule prod.exhaust)
  obtain x7 d7 where 7: "cmos_read P 0x32 d6 = (x7, d7)" by (rule prod.exhaust)
  obtain x8 d8 where 8: "cmos_read P 0x0B d7 = (x8, d8)" by (rule prod.exhaust)
  have same: "view e = view d'" if "cmos_read P reg d' = (x, e)" for reg d' x e using cmos_apart [OF c, of reg d'] that by simp
  have "view d8 = view d" using v same [OF 1] same [OF 2] same [OF 3] same [OF 4] same [OF 5] same [OF 6] same [OF 7] same [OF 8] by simp
  moreover have "snd r = d8" using r d0 1 2 3 4 5 6 7 8 by (auto simp: rtc_read_def)
  ultimately show "case r of (t, d') \<Rightarrow> view d' = view d" by (cases r) simp
qed

lemma ports_backed:
  assumes r: "backed P view busy s" and v: "view d = view (hw (disk s))"
  shows "backed P view busy (s\<lparr>disk := (disk s)\<lparr>hw := d\<rparr>\<rparr>) \<and> settled view s (s\<lparr>disk := (disk s)\<lparr>hw := d\<rparr>\<rparr>)"
proof -
  let ?t = "s\<lparr>disk := (disk s)\<lparr>hw := d\<rparr>\<rparr>"
  from r obtain A where a: "persist_ok P view busy A s" by (auto simp: backed_def)
  have f: "files_ok A ?t" using a by (subst files_ok_cong [where s = s]) (simp_all add: persist_ok_def)
  have c: "content view (disk ?t) = content view (disk s)" "idents view (disk ?t) = idents view (disk s)" using v by (simp_all add: content_def idents_def)
  have "placed view ?t = placed view s" using c by (simp add: placed_def ata_present_def)
  moreover have "ata_ok P view busy (disk ?t)" using a v by (simp add: persist_ok_def ata_ok_def)
  ultimately have "persist_ok P view busy A ?t" using a f by (simp add: persist_ok_def users_ok_def)
  with r c show ?thesis by (auto simp: backed_def settled_def tree_kept_def)
qed

section \<open>The commands\<close>

lemma led_error [mv]: "moves R m0 m \<Longrightarrow> moves R m0 (colour VGA_LIGHT_GREY (say s (colour VGA_LIGHT_RED m)))"
  by (intro mv)

lemma led_create:
  assumes r: "backed P view busy (sys m)" and fits: "\<forall>w\<in>set argv. path_fits (residue G) w"
  shows "ends (cmd_mkdir G argv m) (moves (led P view busy e) m)" "ends (cmd_touch G argv m) (moves (led P view busy e) m)"
proof -
  have c: "backed P view busy t \<and> (p = NULL \<longrightarrow> t = sys m)"
    if "\<not> length argv < 2" "moves (=) m x" "fs_create (residue G) (argv ! Suc 0) ty (sys x) = Some (p, t)" for x p t ty
    using create_ready [OF r, of "residue G" "argv ! Suc 0" ty] fits that moves_sys_eq [OF that(2)] by (auto simp: ends_def)
  have ok: "moves (led P view busy e) m (x\<lparr>sys := t\<lparr>dirty := True\<rparr>\<rparr>)"
    if "\<not> length argv < 2" "moves (=) m x" "fs_create (residue G) (argv ! Suc 0) ty (sys x) = Some (p, t)" for x p t ty
    using c [OF that] by (intro moves_led [OF that(2)] led_dirty) blast
  have no: "moves (led P view busy e) m (x\<lparr>sys := t\<rparr>)"
    if "\<not> length argv < 2" "moves (=) m x" "fs_create (residue G) (argv ! Suc 0) ty (sys x) = Some (NULL, t)" for x t ty
    using c [OF that] led_refl [OF r] by (intro moves_led [OF that(2)]) simp
  show "ends (cmd_mkdir G argv m) (moves (led P view busy e) m)"
    unfolding cmd_mkdir_def mark_dirty_def persist_mark_dirty_def
    by (intro wp) (auto intro!: moves_say moves_colour intro: moves_quiet_led [OF _ r] moves_refl ok no)
  show "ends (cmd_touch G argv m) (moves (led P view busy e) m)"
    unfolding cmd_touch_def mark_dirty_def persist_mark_dirty_def
    by (intro wp) (auto intro!: moves_say moves_colour intro: moves_quiet_led [OF _ r] moves_refl ok no)
qed

lemma led_rm:
  assumes r: "backed P view busy (sys m)" and spares: "2 \<le> length argv \<longrightarrow> spares_cwd (argv ! 1) (sys m)"
  shows "ends (cmd_rm argv m) (moves (led P view busy e) m)"
proof -
  have c: "(rc \<noteq> 0 \<longrightarrow> t = sys m) \<and> led P view busy e (sys m) (t\<lparr>dirty := True\<rparr>)"
    if "moves (=) m x" "fs_remove path (sys x) = Some (rc, t)" "spares_cwd path (sys m)" for x path rc t
    using remove_led [OF r that(3)] that(2) moves_sys_eq [OF that(1)] by (auto simp: ends_def)
  have ok: "moves (led P view busy e) m (x\<lparr>sys := t\<lparr>dirty := True\<rparr>\<rparr>)" if "moves (=) m x" "fs_remove path (sys x) = Some (0, t)" "spares_cwd path (sys m)" for x path t
    using c [OF that] by (intro moves_led [OF that(1)]) blast
  have no: "moves (led P view busy e) m (x\<lparr>sys := t\<rparr>)" if "moves (=) m x" "fs_remove path (sys x) = Some (rc, t)" "spares_cwd path (sys m)" "rc \<noteq> 0" for x path rc t
    using c [OF that(1-3)] that(4) led_refl [OF r] by (intro moves_led [OF that(1)]) simp
  show ?thesis
    unfolding cmd_rm_def mark_dirty_def persist_mark_dirty_def
    by (intro wp) (use spares in \<open>auto simp: not_less intro!: moves_say moves_colour intro: moves_quiet_led [OF _ r] moves_refl ok no\<close>)
qed

lemma led_echo:
  assumes r: "backed P view busy (sys m)" and e: e and fits: "\<forall>a app target. redirection args = Some (a, app, target) \<longrightarrow> path_fits (residue G) target"
  shows "ends (cmd_echo G args m) (moves (led P view busy e) m)"
proof (cases "redirection args")
  case None
  then show ?thesis unfolding cmd_echo_def by (simp, intro wp) (simp add: mv led_refl [OF r])
next
  case (Some d)
  obtain a app target where red: "d = (a, app, target)" by (cases d)
  have pf: "path_fits (residue G) target" using fits Some red by blast
  define put where "put f x = do {
      n \<leftarrow> nodes (sys x) f;
      if n_type n \<noteq> FS_FILE then print_error ''echo'' ''is a directory'' x
      else do {
        words \<leftarrow> ksnprintf (LINE_MAX + 2) (''%s'' @ [LF]) [str a];
        (rc, x) \<leftarrow> on_sys (fs_write f words app) x;
        if rc \<noteq> 0 then print_error ''echo'' ''write failed'' x else Some (mark_dirty x)
      }
    }" for f and x :: "'a machine"
  have put: "ends (put f x) (moves (led P view busy e) m)"
    if x: "moves (led P view busy e) m x" and b: "backed P view busy (sys x)" and f: "f \<noteq> NULL" for f x
  proof -
    have w: "backed P view busy t \<and> (rc \<noteq> 0 \<longrightarrow> t = sys x)" if "ksnprintf (LINE_MAX + 2) (''%s'' @ [LF]) [str a] = Some words"
      "fs_write f words app (sys x) = Some (rc, t)" for words rc t
    proof -
      have "length words \<le> 1000000" using ksnprintf_length [OF that(1)] by (simp add: LINE_MAX_def)
      from write_ready [OF b f this, of app] that(2) show ?thesis by (auto simp: ends_def)
    qed
    have ok: "moves (led P view busy e) m (x\<lparr>sys := t\<lparr>dirty := True\<rparr>\<rparr>)" if "ksnprintf (LINE_MAX + 2) (''%s'' @ [LF]) [str a] = Some words"
      "fs_write f words app (sys x) = Some (0, t)" for words t
      by (rule moves_sys [OF x]) (use w [OF that] led_dirty in blast)
    have no: "moves (led P view busy e) m (x\<lparr>sys := t\<rparr>)" if "ksnprintf (LINE_MAX + 2) (''%s'' @ [LF]) [str a] = Some words"
      "fs_write f words app (sys x) = Some (rc, t)" "rc \<noteq> 0" for words rc t
      using x w [OF that(1,2)] that(3) by simp
    show ?thesis unfolding put_def mark_dirty_def persist_mark_dirty_def
      by (intro wp) (use x in \<open>auto intro!: moves_say moves_colour intro: ok no\<close>)
  qed
  have run: "cmd_echo G args m =
      (if target = [] then print_error ''echo'' ''missing redirection target'' m
       else do {
         (ok, x) \<leftarrow> may_write ''echo'' target m;
         if \<not> ok then Some x
         else do {
           f \<leftarrow> fs_resolve target (sys x);
           (f, x) \<leftarrow> (if f = NULL then on_sys (fs_create (residue G) target FS_FILE) x else Some (f, x));
           if f = NULL then print_error ''echo'' ''cannot create file'' x else put f x
         }
       })"
    by (simp only: cmd_echo_def Some red put_def option.case prod.case)
  have old: "ends (put f x) (moves (led P view busy e) m)" if x: "moves (=) m x" and f: "f \<noteq> NULL" for f x
    using put [OF moves_quiet_led [OF x r] _ f] r moves_sys_eq [OF x] by simp
  have new: "moves (led P view busy e) m (x\<lparr>sys := t\<rparr>) \<and> (f \<noteq> NULL \<longrightarrow> ends (put f (x\<lparr>sys := t\<rparr>)) (moves (led P view busy e) m))"
    if x: "moves (=) m x" and c: "fs_create (residue G) target FS_FILE (sys x) = Some (f, t)" for f x t
  proof -
    have same: "sys x = sys m" by (rule moves_sys_eq [OF x])
    from create_ready [OF r pf, of FS_FILE] c same have t: "backed P view busy t" "f = NULL \<longrightarrow> t = sys m"
      "f \<noteq> NULL \<longrightarrow> settled view (sys m) t \<or> stray (sys m) t" by (auto simp: ends_def)
    have "led P view busy e (sys m) t" using t led_refl [OF r] by (cases "f = NULL") (auto simp: led_def e)
    from moves_led [OF x this] have z: "moves (led P view busy e) m (x\<lparr>sys := t\<rparr>)" .
    with put [OF z] t(1) show ?thesis by simp
  qed
  show ?thesis
    unfolding run by (intro wp) (auto intro!: moves_say moves_colour intro: moves_quiet_led [OF _ r] moves_refl led_refl [OF r] old dest: new)
qed

lemma led_accounts:
  assumes r: "backed P view busy (sys m)" and fits: "\<forall>w\<in>set argv. valid_name w \<longrightarrow> residue G = NUL \<or> length w < FS_NAME_MAX - 1"
  shows "ends (cmd_useradd G argv m) (moves (led P view busy e) m)" "ends (cmd_userdel G argv m) (moves (led P view busy e) m)"
proof -
  have a: "backed P view busy t \<and> (rc \<noteq> 0 \<longrightarrow> t = sys m)"
    if "\<not> length argv < 2" "moves (=) m x" "users_add (residue G) d (argv ! Suc 0) (Some pw) False (sys x) = Some (rc, t)" for x d pw rc t
    using add_ready [OF r, of "argv ! Suc 0" "residue G" d pw] fits that moves_sys_eq [OF that(2)] by (auto simp: ends_def)
  have d: "backed P view busy t \<and> (rc \<noteq> 0 \<longrightarrow> t = sys m)"
    if "moves (=) m x" "users_delete (residue G) (argv ! Suc 0) (sys x) = Some (rc, t)" for x rc t
    using delete_ready [OF r, of "residue G" "argv ! Suc 0"] that moves_sys_eq [OF that(1)] by (auto simp: ends_def)
  have ok: "moves (led P view busy e) m ((say s (x\<lparr>sys := t\<rparr>))\<lparr>sys := t\<lparr>dirty := True\<rparr>\<rparr>)" if "moves (=) m x" "backed P view busy t" for x t s
    using moves_led [OF moves_say [OF that(1), of s] led_dirty [OF that(2)]] by (simp add: say_def)
  have no: "moves (led P view busy e) m (x\<lparr>sys := sys m\<rparr>)" if "moves (=) m x" for x
    using led_refl [OF r] by (intro moves_led [OF that])
  show "ends (cmd_useradd G argv m) (moves (led P view busy e) m)"
    unfolding cmd_useradd_def mark_dirty_def persist_mark_dirty_def Let_def
    by (intro wp) (auto elim!: moves_after intro!: moves_say moves_colour intro: moves_quiet_led [OF _ r] moves_refl ok no dest: a)
  show "ends (cmd_userdel G argv m) (moves (led P view busy e) m)"
    unfolding cmd_userdel_def mark_dirty_def persist_mark_dirty_def Let_def
    by (intro wp) (auto elim!: moves_after intro!: moves_say moves_colour intro: moves_quiet_led [OF _ r] moves_refl ok no dest: d)
qed

lemma led_change:
  assumes r: "backed P view busy (sys m)" and x: "moves (=) m x"
  shows "ends (change_password name x) (moves (led P view busy e) m)"
  unfolding change_password_def mark_dirty_def persist_mark_dirty_def
proof (rule ends_bind, rule ends_mono [OF still_new_password])
  fix q :: "string option \<times> 'a machine"
  assume q: "case q of (p, y) \<Rightarrow> moves (=) x y"
  obtain p y where p: "q = (p, y)" by (cases q)
  with q moves_after x have y: "moves (=) m y" by auto
  show "ends (case q of (password, y) \<Rightarrow> (case password of None \<Rightarrow> Some y
    | Some pw \<Rightarrow> let (rc, s) = users_set_password name (Some pw) (sys y); z = y\<lparr>sys := s\<rparr>
        in if rc = 0
           then do { z \<leftarrow> print (''password updated for %s'' @ [LF]) [str name] z; Some (z\<lparr>sys := (sys z)\<lparr>dirty := True\<rparr>\<rparr>) }
           else print_error ''passwd'' ''cannot change the password'' z)) (moves (led P view busy e) m)"
  proof (cases p)
    case None
    with p y show ?thesis by (simp add: moves_quiet_led [OF _ r])
  next
    case (Some pw)
    obtain rc t where w: "users_set_password name (Some pw) (sys y) = (rc, t)" by (rule prod.exhaust)
    have b: "backed P view busy t" "rc \<noteq> 0 \<longrightarrow> t = sys m" using password_ready [OF r, of name pw rc t] w moves_sys_eq [OF y] by auto
    have ok: "moves (led P view busy e) m ((say s (y\<lparr>sys := t\<rparr>))\<lparr>sys := t\<lparr>dirty := True\<rparr>\<rparr>)" for s
      using moves_led [OF moves_say [OF y, of s] led_dirty [OF b(1)]] by (simp add: say_def)
    have no: "moves (led P view busy e) m (y\<lparr>sys := sys m\<rparr>)" using led_refl [OF r] by (intro moves_led [OF y])
    show ?thesis unfolding p Some prod.case option.case Let_def w
      by (intro wp) (use b(2) ok no in \<open>auto intro!: moves_say moves_colour\<close>)
  qed
qed

lemma led_passwd: "backed P view busy (sys m) \<Longrightarrow> ends (cmd_passwd argv m) (moves (led P view busy e) m)"
  unfolding cmd_passwd_def Let_def
  by (intro wp led_change) (auto simp: PASSWORD_MAX_def elim!: moves_after intro!: mv led_refl led_change intro: moves_quiet_led)

lemma led_cd:
  assumes r: "backed P view busy (sys m)"
  shows "ends (cmd_cd argv m) (moves (led P view busy e) m)"
proof -
  have "moves (led P view busy e) m (m\<lparr>sys := t\<rparr>)" if "fs_set_cwd p (sys m) = Some t" for p t
    using cwd_ready [OF r, of p] that by (intro moves_led [OF moves_refl]) (auto simp: ends_def led_settled)
  then show ?thesis
    unfolding cmd_cd_def set_cwd_def
    by (intro wp ends_any [where r = "fs_set_cwd p s" for p s]) (auto intro!: moves_say moves_colour intro: moves_refl led_refl [OF r])
qed

lemma led_sync:
  assumes r: "backed P view busy (sys m)"
  shows "ends (cmd_sync P m) (moves (led P view busy e) m)"
proof -
  have "moves (led P view busy e) m (m\<lparr>sys := t\<rparr>)" if "persist_save P (sys m) = Some (rc, t)" for rc t
    using save_led [OF r] that by (intro moves_led [OF moves_refl]) (auto simp: ends_def led_def split: if_splits)
  then show ?thesis
    unfolding cmd_sync_def by (intro wp) (auto intro!: moves_say moves_colour intro: moves_refl led_refl [OF r])
qed

lemma led_date:
  assumes r: "backed P view busy (sys m)" and c: "clock_apart P view"
  shows "ends (cmd_date P m) (moves (led P view busy e) m)"
proof -
  have "moves (led P view busy e) m (on_ports (\<lambda>_. d) m)" if "rtc_read P (hw (disk (sys m))) = Some (t, d)" for t d
  proof -
    have "view d = view (hw (disk (sys m)))" using rtc_apart [OF c, of "hw (disk (sys m))"] that by (simp add: ends_def)
    from ports_backed [OF r this] show ?thesis unfolding on_ports_def by (intro moves_led [OF moves_refl]) (auto intro: led_settled)
  qed
  then show ?thesis
    unfolding cmd_date_def by (intro wp ends_any [where r = "rtc_read P d" for d]) (auto intro!: moves_say)
qed

lemma led_spawn:
  assumes r: "backed P view busy (sys m)"
  shows "ends (cmd_spawn G argv m) (moves (led P view busy e) m)"
proof -
  have "moves (led P view busy e) m (m\<lparr>sys := s, sch := x\<rparr>)" if "task_spawn b name entry a (sys m) (sch m) = Some (task, s, x)" for b name entry a task s x
    using spawn_ready [OF r, of b name entry a "sch m"] that
    by (intro moves_sch moves_led [OF moves_refl]) (auto simp: ends_def intro: led_settled)
  then show ?thesis
    unfolding cmd_spawn_def Let_def
    by (intro wp ends_any [where r = "task_spawn b name entry a s t" for b name entry a s t])
      (auto intro!: moves_say moves_colour intro: moves_refl led_refl [OF r])
qed

lemma led_su:
  assumes r: "backed P view busy (sys m)"
  shows "ends (cmd_su argv m) (moves (led P view busy e) m)"
proof -
  have l: "led P view busy e (sys m) t" if "users_switch name (Some pw) (sys m) = Some (rc, t)" for name pw rc t
    using switch_ready [OF r, of name pw] that by (auto simp: ends_def intro: led_settled)
  show ?thesis
    unfolding cmd_su_def Let_def
    by (intro wp) (auto simp: PASSWORD_MAX_def intro!: moves_say moves_colour mv intro: moves_refl led_refl [OF r] l)
qed

text \<open>Leaving for good is not followed further.\<close>

definition back_led :: "'d ports \<Rightarrow> ('d \<Rightarrow> ata_view) \<Rightarrow> ('d \<Rightarrow> nat) \<Rightarrow> bool \<Rightarrow> 'd machine \<Rightarrow> 'd machine outcome \<Rightarrow> bool" where
  "back_led P view busy e m r \<longleftrightarrow> (case r of Back x \<Rightarrow> moves (led P view busy e) m x | Off x \<Rightarrow> True)"

lemma back_led_simps [simp]: "back_led P view busy e m (Back x) = moves (led P view busy e) m x" "back_led P view busy e m (Off x)"
  by (simp_all add: back_led_def)

lemma reboot_off [wp]: "(\<And>x. Q (Off x)) \<Longrightarrow> ends (machine_reboot P G m) Q"
  unfolding machine_reboot_def pulse_reset_def
  by (intro wp ends_any [where r = "pause G n x" for n x] ends_any [where r = "drain_8042 P d" for d])

lemma led_off: "ends (cmd_reboot P G m) (back_led P view busy e m')" "ends (cmd_shutdown P G m) (back_led P view busy e m')"
  unfolding cmd_reboot_def cmd_shutdown_def
  by (intro wp ends_any [where r = "pause G n x" for n x]; simp)+

lemma led_mkfs:
  assumes r: "backed P view busy (sys m)"
  shows "ends (cmd_mkfs P G m) (back_led P view busy e m)"
proof -
  have l: "led P view busy e (sys m) t" if "persist_format P (sys x) = Some (rc, t)" "rc \<noteq> 0" "moves (=) m x" for x rc t
    using format_refused [OF r] that(1,2) moves_sys_eq [OF that(3)] by (auto simp: ends_def intro: led_settled)
  show ?thesis
    unfolding cmd_mkfs_def Let_def
    by (intro wp) (auto elim!: moves_after intro!: moves_say moves_colour mv intro: moves_quiet_led [OF _ r] led_refl [OF r] l)
qed

text \<open>What the line has to leave alone: names long enough to reach the uninitialised byte, and directories above
  the working directory.\<close>

definition line_spares :: "string \<Rightarrow> 'a fs_state_scheme \<Rightarrow> bool" where
  "line_spares line s \<longleftrightarrow> (\<forall>w ws. split_line line = ''rm'' # w # ws \<longrightarrow> spares_cwd w s)"

definition is_echo :: "string \<Rightarrow> bool" where
  "is_echo line \<longleftrightarrow> (\<exists>ws. split_line line = ''echo'' # ws)"

lemma execute_led:
  assumes r: "backed P view busy (sys m)" and c: "clock_apart P view" and fits: "line_fits (residue G) line"
    and spares: "line_spares line (sys m)"
  shows "ends (execute P G line m) (back_led P view busy (is_echo line) m)"
proof (cases "split_line line = []")
  case True
  then show ?thesis by (simp add: execute_def ends_def moves_refl led_refl [OF r])
next
  case False
  then have head: "split_line line ! 0 = w \<Longrightarrow> \<exists>ws. split_line line = w # ws" for w by (cases "split_line line") auto
  have argv: "\<forall>w\<in>set (split_line line). path_fits (residue G) w" using fits_part [OF fits] split_line_sublist by blast
  have names: "\<forall>w\<in>set (split_line line). valid_name w \<longrightarrow> residue G = NUL \<or> length w < FS_NAME_MAX - 1"
  proof (intro ballI impI)
    fix w assume w: "w \<in> set (split_line line)" "valid_name w"
    have "\<forall>c\<in>set w. not_slash c" using valid_name_ok(3) [OF w(2)] by (auto simp: not_slash_def)
    with split_line_sublist [OF w(1)] fits show "residue G = NUL \<or> length w < FS_NAME_MAX - 1" by (auto simp: line_fits_def)
  qed
  have rm: "ends (cmd_rm (split_line line) m) (moves (led P view busy e) m)" if "split_line line ! 0 = ''rm''" for e
  proof (rule led_rm [OF r], intro impI)
    assume "2 \<le> length (split_line line)"
    with head [OF that] obtain w ws where "split_line line = ''rm'' # w # ws" by (auto simp: numeral_2_eq_2 Suc_le_length_iff)
    with spares show "spares_cwd (split_line line ! 1) (sys m)" by (auto simp: line_spares_def)
  qed
  have echo: "ends (cmd_echo G args m) (moves (led P view busy (is_echo line)) m)"
    if w: "split_line line ! 0 = ''echo''" and a: "args = dropWhile (\<lambda>c. c = CHR '' '') (drop (length ''echo'') (take (LINE_MAX - 1) line))" for args
  proof (rule led_echo [OF r])
    show "is_echo line" using head [OF w] by (auto simp: is_echo_def)
    show "\<forall>x app target. redirection args = Some (x, app, target) \<longrightarrow> path_fits (residue G) target"
    proof (intro allI impI)
    fix x app target assume "redirection args = Some (x, app, target)"
    from redirection_sublist [OF this] have "sublist target line" unfolding a using sublist_in by metis
    then show "path_fits (residue G) target" by (rule fits_part [OF fits])
    qed
  qed
  show ?thesis
    by (rule execute_ends)
      (auto intro: moves_quiet_led [OF _ r] echo led_create [OF r argv] rm led_accounts [OF r names] led_passwd [OF r]
        led_cd [OF r] led_sync [OF r] led_date [OF r c] led_spawn [OF r] led_su [OF r] led_mkfs [OF r] led_off)
qed

text \<open>
  The disk carries an earlier tree and the present accounts; the present tree has besides it only empty
  files, at places in \<open>F\<close>.
\<close>

definition behind :: "'d ports \<Rightarrow> ('d \<Rightarrow> ata_view) \<Rightarrow> ('d \<Rightarrow> nat) \<Rightarrow> string list set \<Rightarrow> 'd persist \<Rightarrow> bool" where
  "behind P view busy F s \<longleftrightarrow> (\<exists>s0. backed P view busy s0 \<and> on_disk view s0 \<and> users s0 = users s \<and>
     content view (disk s0) = content view (disk s) \<and> idents view (disk s0) = idents view (disk s) \<and>
     data_drive s0 = data_drive s \<and> data_base s0 = data_base s \<and>
     (\<forall>xs. fs_view s xs = fs_view s0 xs \<or> xs \<in> F \<and> fs_view s0 xs = None \<and> fs_view s xs = Some (File [])))"

lemma behind_on_disk: "backed P view busy s \<Longrightarrow> on_disk view s \<Longrightarrow> behind P view busy F s"
  unfolding behind_def by (rule exI [of _ s]) simp

lemma behind_mono: "behind P view busy F s \<Longrightarrow> F \<subseteq> F' \<Longrightarrow> behind P view busy F' s"
  unfolding behind_def by blast

lemma behind_settled:
  assumes "behind P view busy F s" "settled view s t"
  shows "behind P view busy F t"
proof -
  have v: "fs_view t = fs_view s" using assms(2) fs_view_cong [of t s] by (simp add: settled_def tree_kept_def)
  have k: "users t = users s" "content view (disk t) = content view (disk s)" "idents view (disk t) = idents view (disk s)"
    "data_drive t = data_drive s" "data_base t = data_base s" using assms(2) by (simp_all add: settled_def tree_kept_def)
  show ?thesis using assms(1) unfolding behind_def v k .
qed

lemma behind_stray:
  assumes "behind P view busy F s" "stray s t"
  shows "behind P view busy (F \<union> {xs. fs_view s xs = None \<and> fs_view t xs = Some (File [])}) t"
proof -
  from assms(1) obtain s0 where s0: "backed P view busy s0" "on_disk view s0" "users s0 = users s"
     "content view (disk s0) = content view (disk s)" "idents view (disk s0) = idents view (disk s)" "data_drive s0 = data_drive s" "data_base s0 = data_base s"
     "\<forall>xs. fs_view s xs = fs_view s0 xs \<or> xs \<in> F \<and> fs_view s0 xs = None \<and> fs_view s xs = Some (File [])" unfolding behind_def by blast
  from assms(2) obtain xs where xs: "fs_view s xs = None" "fs_view t = (fs_view s)(xs \<mapsto> File [])" by (auto simp: stray_def)
  from s0(8) xs(1) have n: "fs_view s0 xs = None" by (metis option.distinct(1))
  show ?thesis unfolding behind_def
    by (rule exI [of _ s0]) (use assms(2) s0 xs n in \<open>auto simp: stray_def\<close>)
qed

text \<open>The save at the end of the line.\<close>

definition save_refused :: "'d ports \<Rightarrow> 'd persist \<Rightarrow> bool" where
  "save_refused P s \<longleftrightarrow> dirty s \<and> (\<exists>t rc. persist_save P t = Some (rc, s) \<and> rc \<in> {-1, -2, -3})"

lemma flush_led:
  assumes t: "led P view busy e s t" and s: "behind P view busy F s \<or> dirty s" and f: "persist_flush P t = Some (rc, u)"
  shows "backed P view busy u \<and>
    (behind P view busy (if e then F \<union> {xs. fs_view s xs = None \<and> fs_view u xs = Some (File [])} else F) u \<or> save_refused P u)"
proof -
  have b: "backed P view busy t" "settled view s t \<or> dirty t \<or> on_disk view t \<or> e \<and> stray s t" using t by (auto simp: led_def)
  show ?thesis
  proof (cases "dirty t")
    case False
    then have u: "u = t" using f by (simp add: persist_flush_def)
    consider "settled view s t" | "on_disk view t" | "e" "stray s t" using b(2) False by blast
    then show ?thesis
    proof cases
      case 1
      with False s have "behind P view busy F s" by (simp add: settled_def)
      from behind_settled [OF this 1] have "behind P view busy F u" unfolding u .
      then have "behind P view busy (if e then F \<union> {xs. fs_view s xs = None \<and> fs_view u xs = Some (File [])} else F) u"
        by (rule behind_mono) simp
      with b(1) u show ?thesis by blast
    next
      case 2
      with behind_on_disk [OF b(1)] b(1) u show ?thesis by blast
    next
      case 3
      with False s have "behind P view busy F s" by (simp add: stray_def)
      from behind_stray [OF this 3(2)] b(1) u 3(1) show ?thesis by simp
    qed
  next
    case True
    with f have sv: "persist_save P t = Some (rc, u)" by (simp add: persist_flush_def)
    from save_led [OF b(1)] sv have u: "backed P view busy u" "rc \<in> {0, -1, -2, -3}" "if rc = 0 then on_disk view u else settled view t u"
      by (auto simp: ends_def)
    show ?thesis
    proof (cases "rc = 0")
      case True
      with u behind_on_disk [OF u(1)] show ?thesis by simp
    next
      case False
      with u sv \<open>dirty t\<close> show ?thesis by (auto simp: settled_def save_refused_def)
    qed
  qed
qed

lemma line_led:
  assumes r: "backed P view busy (sys m)" and s: "behind P view busy F (sys m) \<or> dirty (sys m)" and c: "clock_apart P view"
    and fits: "line_fits (residue G) line" and spares: "line_spares line (sys m)" and run: "run_line P G line m = Some (Back m')"
  shows "backed P view busy (sys m') \<and>
    (behind P view busy (if is_echo line then F \<union> {xs. fs_view (sys m) xs = None \<and> fs_view (sys m') xs = Some (File [])} else F) (sys m') \<or>
     save_refused P (sys m'))"
proof -
  let ?m = "m\<lparr>con := console_history_push (Some line) (con m)\<rparr>"
  from run obtain r where r: "execute P G line ?m = Some r" by (auto simp: run_line_def bind_eq_Some_conv)
  have "backed P view busy (sys ?m)" "line_spares line (sys ?m)" using assms(1) spares by simp_all
  from execute_led [OF this(1) c fits this(2)] r have b: "back_led P view busy (is_echo line) ?m r" by (simp add: ends_def)
  show ?thesis
  proof (cases r)
    case (Off x)
    with run r show ?thesis by (simp add: run_line_def)
  next
    case (Back x)
    with b have l: "led P view busy (is_echo line) (sys m) (sys x)" using moves_on by fastforce
    from run r Back obtain rc u where u: "persist_flush P (sys x) = Some (rc, u)" "sys m' = u"
      by (auto simp: run_line_def on_sys_def print_error_def print_def bind_eq_Some_conv split: if_splits)
    from flush_led [OF l s u(1)] show ?thesis unfolding u(2) .
  qed
qed

section \<open>The turns of a session\<close>

text \<open>The line that the keys of a turn make, if it is not empty and not given up with Ctrl-C.\<close>

definition typed_line :: "'d machine \<Rightarrow> string option" where
  "typed_line m = do {
     prompt \<leftarrow> print_prompt m;
     (ok, line, x) \<leftarrow> read_line LINE_MAX CONSOLE_ECHO_PLAIN True (Some prompt) (m\<lparr>display := prompt (display m)\<rparr>);
     if ok \<and> line \<noteq> [] then Some line else None
   }"

definition careful :: "around \<Rightarrow> 'd machine \<Rightarrow> bool" where
  "careful G m \<longleftrightarrow> (\<forall>line. typed_line m = Some line \<longrightarrow> line_fits (residue G) line \<and> line_spares line (sys m))"

text \<open>The empty files that there are after a turn and were not there before, when its line was an \<open>echo\<close>.\<close>

definition echoed :: "'d machine \<Rightarrow> 'd machine \<Rightarrow> string list set" where
  "echoed m m' = (if \<exists>line. typed_line m = Some line \<and> is_echo line
     then {xs. fs_view (sys m) xs = None \<and> fs_view (sys m') xs = Some (File [])} else {})"

text \<open>
  \<open>careful_turns P G m n E x\<close>: from the prompt of \<open>m\<close> the session has come, in \<open>n\<close> turns, to the prompt of
  \<open>x\<close>, and \<open>E\<close> are the empty files its \<open>echo\<close> lines have created.
\<close>

inductive careful_turns :: "'d ports \<Rightarrow> (nat \<Rightarrow> around) \<Rightarrow> 'd machine \<Rightarrow> nat \<Rightarrow> string list set \<Rightarrow> 'd machine \<Rightarrow> bool" for P G m where
  no_turn: "careful_turns P G m 0 {} m"
| one_more: "careful_turns P G m n E x \<Longrightarrow> session_open x \<Longrightarrow> careful (G n) x \<Longrightarrow> shell_turn P (G n) x = Some (Back y) \<Longrightarrow>
    careful_turns P G m (n + 1) (E \<union> echoed x y) y"

lemma turn_led:
  assumes r: "backed P view busy (sys m)" and s: "behind P view busy F (sys m) \<or> dirty (sys m)" and c: "clock_apart P view"
    and g: "careful G m" and run: "shell_turn P G m = Some (Back m')"
  shows "backed P view busy (sys m') \<and> (behind P view busy (F \<union> echoed m m') (sys m') \<or> save_refused P (sys m') \<or> sys m' = sys m)"
proof -
  obtain f ok line x where t: "print_prompt m = Some f"
    "read_line LINE_MAX CONSOLE_ECHO_PLAIN True (Some f) (m\<lparr>display := f (display m)\<rparr>) = Some (ok, line, x)"
    "(if \<not> ok \<or> line = [] then Some (Back x) else run_line P G line x) = Some (Back m')"
    using run by (auto simp: shell_turn_def bind_eq_Some_conv)
  have x: "sys x = sys m" using t(2) by (auto simp: read_line_def bind_eq_Some_conv)
  show ?thesis
  proof (cases "\<not> ok \<or> line = []")
    case True
    with t(3) r x show ?thesis by simp
  next
    case False
    with t(1,2) have l: "typed_line m = Some line" by (simp add: typed_line_def)
    with g x have i: "line_fits (residue G) line" "line_spares line (sys x)" by (auto simp: careful_def)
    have e: "echoed m m' = (if is_echo line then {xs. fs_view (sys x) xs = None \<and> fs_view (sys m') xs = Some (File [])} else {})"
      using l x by (simp add: echoed_def)
    from t(3) False have run: "run_line P G line x = Some (Back m')" by simp
    have "backed P view busy (sys x)" "behind P view busy F (sys x) \<or> dirty (sys x)" using r s x by simp_all
    from line_led [OF this c i run] show ?thesis unfolding e by (cases "is_echo line") auto
  qed
qed

lemma careful_session: "careful_turns P G m n E x \<Longrightarrow> session_reaches P G (Prompt 0 m) (Prompt n x)"
proof (induction rule: careful_turns.induct)
  case no_turn
  show ?case by (rule session_reaches.here)
next
  case (one_more n E x y)
  from turn_reach [of x P G n, OF one_more(2,4)] session_reaches_trans [OF _ one_more(5)] show ?case by simp
qed

section \<open>A machine with unsaved changes\<close>

definition unsaved :: "ata_view persist \<Rightarrow> ata_view machine" where
  "unsaved s = \<lparr>sys = s, sch = no_sched, display = vga_init raw_vga, con = fresh_console, keystrokes = [101, 120, 105, 116, 10], rodent = wheel_mouse,
     session_open = True, boot_flag = 0, image_copy = None, image_bytes = 0\<rparr>"

lemma demo_unsaved:
  "\<exists>s s'. backed demo_ports sane (\<lambda>_. 0) s \<and> dirty s \<and> persist_save demo_ports s = Some (0, s') \<and>
     print_prompt (unsaved s) \<noteq> None"
proof -
  obtain A s where s: "persist_ok demo_ports sane (\<lambda>_. 0) A s" "same_layer demo_machine s" "users s = users demo_machine" "logged_in s = None"
    "bare s" "dom (nodes s) = {root_node s}" "kmalloc MAX_PAYLOAD s \<noteq> Some (NULL, s)" using demo_state by blast
  have l: "\<not> sealed s" "p_state s \<noteq> PERSIST_NO_DISK" "data_base s = 0" "dirty s" "data_drive s = ATA_SLAVE" "disk s = demo_ata"
    using s(2) by (simp_all add: same_layer_def demo_machine_def machine_def)
  have ps: "ps = []" if "listing s ps" for ps using that s(6) by (simp add: listing_def)
  have acc: "accounts s = [(''root'', ''/root'', 0, 0, hash_password ''thunder'')]" using demo_account s(3) by (simp add: accounts_def)
  have pay: "length (payload s []) = 23" by (simp add: payload_def acc enc_string_def)
  have sc: "unat (ata_sector_count (data_drive s) (disk s)) = 1000" using demo_ata_ok(4) l by (simp add: ATA_SLAVE_def)
  from persist_save_result [OF s(1) l(1,2)] ps obtain s' where r: "persist_save demo_ports s = Some (0, s')" "persist_ok demo_ports sane (\<lambda>_. 0) A s'"
    using s(7) pay sc l(3) by (fastforce simp: n_sectors_def)
  obtain L cwd where f: "fs_inv s L" "node_path s cwd (current_dir s)" using s(1) by (auto simp: persist_ok_def files_ok_def)
  from node_path_dom [OF f] s(6) have "current_dir s = root_node s" by auto
  then have "node_path s [] (current_dir s)" by (simp add: node_path_def)
  from fs_abspath_path [OF f(1) this, of FS_PATH_MAX "[]"] have path: "current_path s = Some ''/''"
    by (simp add: current_path_def path_string_def FS_PATH_MAX_def)
  have "\<exists>y. kprintf ''%s@lightning'' [str a] = Some y" "\<exists>y. kprintf ''%s'' [str a] = Some y" "\<exists>y. kprintf ''%s '' [str a] = Some y" for a
    by (simp_all add: printf_simps str_def)
  note p = this
  have u: "users_current (unsaved s) = None" using s(4) by (simp add: users_current_def unsaved_def)
  have "display_path (unsaved s) = Some ''/''" using path u by (simp add: display_path_def unsaved_def FS_PATH_MAX_def)
  then have "print_prompt (unsaved s) \<noteq> None"
    using p(1) [of "''nobody''"] p(2) [of "''/''"] p(3) [of "''$''"] p(3) [of "''#''"] u by (auto simp: print_prompt_def Let_def)
  with s(1) l r(1) show ?thesis by (auto simp: backed_def)
qed

lemma demo_ports_clock: "clock_apart demo_ports sane"
proof -
  have "sane (spec_reg 0x70 r (sane d)) = sane d" for r d using sane_ok [of d] by (simp add: spec_reg_def)
  then show ?thesis using sane_ok by (simp add: clock_apart_def demo_ports_def CMOS_ADDRESS_def CMOS_DATA_def Let_def)
qed

section \<open>Property\<close>

text \<open>Property C2: through a whole session on a system with a data disk the disk keeps up with the shell.
  Let the disk carry the tree and the accounts at the start, or the system be marked dirty; then at every
  later prompt, after any number of turns, the system is well formed, and the disk carries the present
  accounts and the present tree, in which only empty files that \<open>echo\<close> lines have created may be missing
  (\<open>echo\<close> created the file and could not write it); or a save has been tried and refused (no memory, too
  large, or no room on the drive) and the system is marked dirty, so it is tried again after the next
  line; or the system has not changed at all since a start that was dirty.  The lines typed are
  arbitrary, but for two defects: where the byte that \<open>fs_create\<close> leaves uninitialised is not zero, a line
  must not have 31 characters in a row without a slash, and an \<open>rm\<close> must not name a directory above the
  working directory, which \<open>fs_remove\<close> frees with the working directory in it.  Lines that end in a reboot, a shutdown or a format are not followed further.\<close>

theorem shell_durable:
  assumes "backed P view busy (sys m)" "behind P view busy F (sys m) \<or> dirty (sys m)" "clock_apart P view"
    and "careful_turns P G m n E x"
  shows "session_reaches P G (Prompt 0 m) (Prompt n x) \<and> backed P view busy (sys x) \<and>
    (behind P view busy (F \<union> E) (sys x) \<or> save_refused P (sys x) \<or> dirty (sys m) \<and> sys x = sys m)"
  using assms(4)
proof (induction rule: careful_turns.induct)
  case no_turn
  with assms(1,2) session_reaches.here show ?case by auto
next
  case (one_more n E x y)
  then have x: "backed P view busy (sys x)" "behind P view busy (F \<union> E) (sys x) \<or> save_refused P (sys x) \<or> dirty (sys m) \<and> sys x = sys m" by simp_all
  then have "behind P view busy (F \<union> E) (sys x) \<or> dirty (sys x)" by (auto simp: save_refused_def)
  from turn_led [OF x(1) this assms(3) one_more(3,4)] have y: "backed P view busy (sys y)"
    "behind P view busy (F \<union> E \<union> echoed x y) (sys y) \<or> save_refused P (sys y) \<or> sys y = sys x" by simp_all
  have "behind P view busy (F \<union> (E \<union> echoed x y)) (sys y) \<or> save_refused P (sys y) \<or> dirty (sys m) \<and> sys y = sys m"
  proof -
    have "behind P view busy (F \<union> (E \<union> echoed x y)) (sys x)" if "behind P view busy (F \<union> E) (sys x)"
      using that by (rule behind_mono) blast
    with y(2) x(2) show ?thesis by (auto simp: Un_assoc)
  qed
  with y(1) careful_session [OF careful_turns.one_more [OF one_more(1-4)]] show ?case by simp
qed

theorem shell_durable_witness:
  "\<exists>m y E. dirty (sys m) \<and> careful_turns demo_ports (\<lambda>_. demo_around) m 1 E y \<and> persist_save demo_ports (sys m) = Some (0, sys y) \<and>
     backed demo_ports sane (\<lambda>_. 0) (sys y)"
proof -
  obtain s s' g where s: "backed demo_ports sane (\<lambda>_. 0) s" "dirty s" "persist_save demo_ports s = Some (0, s')"
    "print_prompt (unsaved s) = Some g" using demo_unsaved by blast
  let ?m = "unsaved s"
  have m: "con ?m = fresh_console" "display ?m = vga_init raw_vga" "keystrokes ?m = [101, 120, 105, 116, 10]" "sys ?m = s" "session_open ?m"
    by (simp_all add: unsaved_def)
  from exit_typed [OF s(4) m(1) _ m(3)] obtain v where
    v: "read_line LINE_MAX CONSOLE_ECHO_PLAIN True (Some g) (?m\<lparr>display := g (display ?m)\<rparr>) = Some (True, ''exit'', ?m\<lparr>display := v, keystrokes := []\<rparr>)"
    using vga_init_inv(1) [OF raw_vga_arrays] m(2) by auto
  have words: "split_line ''exit'' = [''exit'']" by code_simp
  obtain y where y: "run_line demo_ports demo_around ''exit'' (?m\<lparr>display := v, keystrokes := []\<rparr>) = Some (Back y)" "sys y = s'"
    using words s(2,3) m(4) by (auto simp: run_line_def execute_def execute_plain_def Let_def on_sys_def persist_flush_def)
  have "careful demo_around ?m" using s(4) v words
    by (auto simp: careful_def typed_line_def line_fits_def line_spares_def demo_around_def)
  moreover have "shell_turn demo_ports demo_around ?m = Some (Back y)" using s(4) v y(1) by (simp add: shell_turn_def)
  ultimately have t: "careful_turns demo_ports (\<lambda>_. demo_around) ?m (0 + 1) ({} \<union> echoed ?m y) y"
    by (intro careful_turns.one_more careful_turns.no_turn m(5))
  have "backed demo_ports sane (\<lambda>_. 0) (sys ?m)" "behind demo_ports sane (\<lambda>_. 0) {} (sys ?m) \<or> dirty (sys ?m)" using s(1,2) m by simp_all
  from shell_durable [OF this demo_ports_clock t] have "backed demo_ports sane (\<lambda>_. 0) (sys y)" by blast
  with t m(4) y(2) s(2,3) show ?thesis by (intro exI [of _ ?m] exI [of _ y] exI [of _ "echoed ?m y"]) simp
qed

end
