(* ===== verification/Login.thy ===== *)
theory Login
  imports Machine
begin

text \<open>
  The interactive parts of \<open>kernel/users.c\<close> at the console: what they print, and the lines they read
  through the line editor.  The theory \<open>Users\<close> has their control flow over the replies alone; the theory
  \<open>Boot_Wizard\<close> shows which accounts the keys typed at the wizard stand for.
\<close>

section \<open>Questions\<close>

text \<open>A message in red.\<close>

definition complain :: "string \<Rightarrow> vararg list \<Rightarrow> 'd machine \<Rightarrow> 'd machine option" where
  "complain fmt args m = do { m \<leftarrow> print fmt args (colour VGA_LIGHT_RED m); Some (colour VGA_LIGHT_GREY m) }"

partial_function (option) password_screen :: "string \<Rightarrow> 'd machine \<Rightarrow> (string option \<times> 'd machine) option" where
  "password_screen who m = do {
     m \<leftarrow> print ''  New password for %s: '' [str who] m;
     (ok, out, m) \<leftarrow> read_line PASSWORD_MAX CONSOLE_ECHO_STARS False None m;
     if \<not> ok then Some (None, m)
     else if length out < PASSWORD_MIN
     then do {
       m \<leftarrow> complain (''  Password must be at least %d characters.'' @ [LF]) [VInt (of_nat PASSWORD_MIN)] m;
       password_screen who m
     }
     else do {
       (ok, again, m) \<leftarrow> read_line PASSWORD_MAX CONSOLE_ECHO_STARS False None (say ''  Repeat password:      '' m);
       if \<not> ok then Some (None, m)
       else if out \<noteq> again
       then do { m \<leftarrow> complain (''  Passwords do not match, try again.'' @ [LF]) [] m; password_screen who m }
       else Some (Some out, m)
     }
   }"

section \<open>The first boot\<close>

partial_function (option) root_screen :: "'d machine \<Rightarrow> (string \<times> 'd machine) option" where
  "root_screen m = do {
     (password, m) \<leftarrow> password_screen ''root'' m;
     (case password of None \<Rightarrow> root_screen m | Some p \<Rightarrow> Some (p, m))
   }"

partial_function (option) everyday_screen :: "char \<Rightarrow> 'd machine \<Rightarrow> 'd machine option" where
  "everyday_screen r m = do {
     (ok, name, m) \<leftarrow> read_line USER_NAME_MAX CONSOLE_ECHO_PLAIN False None (say ''  Username: '' m);
     if \<not> ok \<or> name = [] then Some m
     else if \<not> valid_name name
     then do {
       m \<leftarrow> complain (''  Use letters, digits, '' @ [CHR 0x27] @ ''-'' @ [CHR 0x27] @ '' and '' @ [CHR 0x27] @ ''_'' @ [CHR 0x27] @
              '', starting with a letter.'' @ [LF]) [] m;
       everyday_screen r m
     }
     else if users_find name (sys m) \<noteq> None
     then do { m \<leftarrow> complain (''  That name is taken.'' @ [LF]) [] m; everyday_screen r m }
     else do {
       (password, m) \<leftarrow> password_screen name m;
       (case password of
          None \<Rightarrow> everyday_screen r m
        | Some p \<Rightarrow> do {
            (rc, m) \<leftarrow> on_sys (users_add r (persist_available (sys m)) name (Some p) False) m;
            if rc = 0
            then do {
              m \<leftarrow> print ([LF] @ ''  %s created, home directory /home/%s'' @ [LF]) [str name, str name] (colour VGA_LIGHT_GREEN m);
              Some (colour VGA_LIGHT_GREY m)
            }
            else Some m
          })
     }
   }"

definition setup_screen :: "char \<Rightarrow> 'd machine \<Rightarrow> 'd machine option" where
  "setup_screen r m = do {
     m \<leftarrow> print (''  %s %s first boot setup'' @ [LF]) [str LOS_NAME, str LOS_RELEASE] (colour VGA_LIGHT_CYAN (wipe m));
     let m = say (''  ------------------------------------------------------------'' @ [LF]) (colour VGA_DARK_GREY m);
     let m = say (if persist_available (sys m)
                  then ''  Accounts are written to the data disk and kept across reboots.'' @ [LF, LF]
                  else ''  No data disk: accounts live in RAM and this runs every boot.'' @ [LF, LF]) m;
     let m = say (''  Step 1 of 2: the administrator account (root).'' @ [LF, LF]) (colour VGA_LIGHT_GREY m);
     (password, m) \<leftarrow> root_screen m;
     (rc, m) \<leftarrow> on_sys (users_add r (persist_available (sys m)) ''root'' (Some password) True) m;
     let m = colour VGA_LIGHT_GREY (say ([LF] @ ''  root created.'' @ [LF, LF]) (colour VGA_LIGHT_GREEN m));
     let m = say (''  Step 2 of 2: an everyday account. Leave the name empty to skip.'' @ [LF, LF]) m;
     m \<leftarrow> everyday_screen r m;
     let m = say ([LF] @ ''  Setup complete. Press Enter to reach the login prompt.'' @ [LF]) m;
     (ok, line, m) \<leftarrow> read_line USER_NAME_MAX CONSOLE_ECHO_HIDDEN False None m;
     Some m
   }"

section \<open>Logging in\<close>

partial_function (option) login_screen :: "around \<Rightarrow> 'd machine \<Rightarrow> 'd machine option" where
  "login_screen G m = do {
     m \<leftarrow> print ([LF] @ ''%s %s (tty1)'' @ [LF, LF]) [str LOS_NAME, str LOS_RELEASE] (colour VGA_LIGHT_GREY m);
     (ok, name, m) \<leftarrow> read_line USER_NAME_MAX CONSOLE_ECHO_PLAIN False None (say ''lightning login: '' m);
     if \<not> ok \<or> name = [] then login_screen G m
     else do {
       (ok, password, m) \<leftarrow> read_line PASSWORD_MAX CONSOLE_ECHO_HIDDEN False None (say ''Password: '' m);
       (rc, m) \<leftarrow> on_sys (users_switch name (Some password)) m;
       if rc = 0 then Some (say ([LF] @ ''Last login: now on tty1'' @ [LF]) (colour VGA_LIGHT_GREY m))
       else do {
         m \<leftarrow> pause G 1500 (colour VGA_LIGHT_GREY (say ([LF] @ ''Login incorrect'' @ [LF]) (colour VGA_LIGHT_RED m)));
         login_screen G m
       }
     }
   }"

declare password_screen.simps [code] root_screen.simps [code] everyday_screen.simps [code] login_screen.simps [code]

end
