(* ===== verification/Panic.thy ===== *)
theory Panic
  imports Machine
begin

text \<open>
  The panic screens of \<open>kernel/panic.c\<close> and the exception dispatcher of \<open>kernel/idt.c\<close>, which always
  ends in one of them: the machine halts with the screen as it is.
\<close>

record registers =
  ds :: u32
  edi :: u32
  esi :: u32
  ebp :: u32
  esp_dummy :: u32
  ebx :: u32
  edx :: u32
  ecx :: u32
  eax :: u32
  int_no :: u32
  err_code :: u32
  eip :: u32
  cs :: u32
  eflags :: u32
  useresp :: u32
  ss :: u32

definition banner :: "string \<Rightarrow> 'd machine \<Rightarrow> 'd machine option" where
  "banner message m =
     print ([LF] @ ''  *** KERNEL PANIC ***'' @ [LF, LF] @ ''  %s'' @ [LF]) [str message]
       (wipe (m\<lparr>display := vga_set_color VGA_WHITE VGA_RED (display m)\<rparr>))"

definition panic :: "string \<Rightarrow> 'd machine \<Rightarrow> 'd machine outcome option" where
  "panic message m = do { m \<leftarrow> banner message m; Some (Off (say ([LF] @ ''  System halted.'' @ [LF]) m)) }"

text \<open>\<open>cr2\<close> is what the processor holds in that register.\<close>

definition panic_regs :: "u32 \<Rightarrow> string \<Rightarrow> registers \<Rightarrow> 'd machine \<Rightarrow> 'd machine outcome option" where
  "panic_regs cr2 message r m = do {
     m \<leftarrow> banner message m;
     m \<leftarrow> print ([LF] @ ''  int=%d  err=0x%08x  eip=0x%08x  cs=0x%04x  eflags=0x%08x'' @ [LF])
           [VInt (int_no r), VInt (err_code r), VInt (eip r), VInt (cs r), VInt (eflags r)] m;
     m \<leftarrow> print (''  eax=0x%08x ebx=0x%08x ecx=0x%08x edx=0x%08x'' @ [LF])
           [VInt (eax r), VInt (ebx r), VInt (ecx r), VInt (edx r)] m;
     m \<leftarrow> print (''  esi=0x%08x edi=0x%08x ebp=0x%08x esp=0x%08x'' @ [LF])
           [VInt (esi r), VInt (edi r), VInt (ebp r), VInt (esp_dummy r)] m;
     m \<leftarrow> (if int_no r = 14 then print (''  faulting address: 0x%08x'' @ [LF]) [VInt cr2] m else Some m);
     Some (Off (say ([LF] @ ''  System halted.'' @ [LF]) m))
   }"

definition exception_names :: "string list" where
  "exception_names =
    [''Divide by zero'', ''Debug'', ''Non-maskable interrupt'', ''Breakpoint'', ''Overflow'',
     ''Bound range exceeded'', ''Invalid opcode'', ''Device not available'', ''Double fault'',
     ''Coprocessor segment overrun'', ''Invalid TSS'', ''Segment not present'', ''Stack segment fault'',
     ''General protection fault'', ''Page fault'', ''Reserved'', ''x87 floating point exception'',
     ''Alignment check'', ''Machine check'', ''SIMD floating point exception'', ''Virtualization exception'',
     ''Control protection exception''] @ replicate 8 ''Reserved'' @
    [''Hypervisor injection exception'', ''Security exception'']"

definition isr_handler :: "u32 \<Rightarrow> registers \<Rightarrow> 'd machine \<Rightarrow> 'd machine outcome option" where
  "isr_handler cr2 r m =
     panic_regs cr2 (if int_no r < 32 then exception_names ! unat (int_no r) else ''Unknown interrupt'') r m"

end
