(* ===== verification/Kernel.thy ===== *)
theory Kernel
  imports Install Shell Serial Login Panic
begin

text \<open>
  The boot: \<open>kmain\<close> of \<open>kernel/kernel.c\<close>, which brings the parts up in order, and the tasks it leaves
  running.
\<close>

section \<open>State\<close>

text \<open>The machine with the tables of the processor, the clock tick, the keyboard and the serial line.\<close>

record 'd kernel =
  mach :: "'d machine"
  segments :: gdt_state
  gates :: idt_state
  clock :: u64
  typing :: kbd
  serial_ready :: bool

text \<open>
  What the linker and the loader decide, and what the boot meets: the addresses of the tables, of the
  entry points and of the handlers, the memory map of the BIOS, the bytes of the image and of the boot
  sector, and the tick counts after the halts of the first wait.
\<close>

record linkage =
  gdt_at :: u32
  idt_at :: u32
  stubs_at :: "u32 list"
  yield_at :: u32
  handlers_at :: handlers
  e820_count :: u16
  e820_map :: "nat \<Rightarrow> e820_entry"
  image_data :: string
  boot_code :: string
  halts :: "u64 list"

definition on_mach :: "('d machine \<Rightarrow> 'd machine option) \<Rightarrow> 'd kernel \<Rightarrow> 'd kernel option" where
  "on_mach f k = do { m \<leftarrow> f (mach k); Some (k\<lparr>mach := m\<rparr>) }"

text \<open>The part of the state the interrupt handlers work on, and putting it back.\<close>

definition board_of :: "'d kernel \<Rightarrow> 'd board" where
  "board_of k = \<lparr>b_hw = hw (disk (sys (mach k))), b_idt = gates k, b_ticks = clock k, b_kbd = typing k,
     b_mouse = rodent (mach k), b_screen = display (mach k), b_sched = sch (mach k)\<rparr>"

definition put_board :: "'d board \<Rightarrow> 'd kernel \<Rightarrow> 'd kernel" where
  "put_board b k = k\<lparr>gates := b_idt b, clock := b_ticks b, typing := b_kbd b,
     mach := (on_ports (\<lambda>_. b_hw b) (mach k))\<lparr>rodent := b_mouse b, display := b_screen b, sch := b_sched b\<rparr>\<rparr>"

section \<open>Progress lines\<close>

definition step :: "string \<Rightarrow> 'd machine \<Rightarrow> 'd machine option" where
  "step what m = do {
     m \<leftarrow> print ''[    ] %s'' [str what] (colour VGA_LIGHT_GREY m);
     let m = m\<lparr>display := vga_set_cursor (cursor_row (display m)) 1 (display m)\<rparr>;
     let m = colour VGA_LIGHT_GREY (say '' OK '' (colour VGA_LIGHT_GREEN m));
     Some (m\<lparr>display := vga_set_cursor (cursor_row (display m) + 1) 0 (display m)\<rparr>)
   }"

section \<open>Bringing the parts up\<close>

definition boot_screen :: "'d ports \<Rightarrow> 'd kernel \<Rightarrow> 'd kernel option" where
  "boot_screen P k = do {
     let m = (mach k)\<lparr>display := vga_init (display (mach k))\<rparr>;
     let (ready, d) = serial_init P (hw (disk (sys m)));
     let m = on_ports (\<lambda>_. d) m;
     m \<leftarrow> print (''%s %s '' @ [CHR 0x22] @ ''%s'' @ [CHR 0x22] @ '' booting on %s'' @ [LF, LF])
           [str LOS_NAME, str LOS_RELEASE, str LOS_CODENAME, str LOS_ARCH] (colour VGA_WHITE m);
     m \<leftarrow> step ''VGA text console 80x25 with 512 lines of scrollback'' (colour VGA_LIGHT_GREY m);
     m \<leftarrow> step ''Serial console on COM1'' m;
     Some (k\<lparr>mach := m, serial_ready := ready\<rparr>)
   }"

definition boot_tables :: "'d ports \<Rightarrow> linkage \<Rightarrow> 'd kernel \<Rightarrow> 'd kernel option" where
  "boot_tables P L k = do {
     k \<leftarrow> on_mach (step ''Global descriptor table'') (k\<lparr>segments := gdt_init (gdt_at L) (segments k)\<rparr>);
     let (g, d) = idt_init P (idt_at L) (stubs_at L) (yield_at L) (gates k) (hw (disk (sys (mach k))));
     on_mach (\<lambda>m. step ''Interrupt descriptor table and PIC remap'' (on_ports (\<lambda>_. d) m)) (k\<lparr>gates := g\<rparr>)
   }"

text \<open>The kernel stops in \<open>mem_init\<close> when there is too little memory.\<close>

definition boot_memory :: "linkage \<Rightarrow> 'd kernel \<Rightarrow> 'd kernel outcome option" where
  "boot_memory L k =
     (case mem_init (e820_count L) (e820_map L) (sys (mach k)) of
        None \<Rightarrow> do {
          r \<leftarrow> panic ''not enough RAM to create the kernel heap'' (mach k);
          Some (case r of Off m \<Rightarrow> Off (k\<lparr>mach := m\<rparr>) | Back m \<Rightarrow> Back (k\<lparr>mach := m\<rparr>))
        }
      | Some s \<Rightarrow> map_option Back (on_mach (\<lambda>m. do {
            m \<leftarrow> step ''Physical memory map and kernel heap'' (m\<lparr>sys := s\<rparr>);
            m \<leftarrow> install_capture_image (image_data L) m;
            step ''Kernel image captured for the installer'' m
          }) k))"

definition boot_drivers :: "'d ports \<Rightarrow> linkage \<Rightarrow> 'd kernel \<Rightarrow> 'd kernel option" where
  "boot_drivers P L k = do {
     k \<leftarrow> on_mach (step ''Programmable interval timer at 100 Hz'') (put_board (timer_init P (timer_at (handlers_at L)) (board_of k)) k);
     k \<leftarrow> on_mach (step ''PS/2 keyboard driver'')
           (k\<lparr>typing := keyboard_init (typing k), gates := irq_install_handler 1 (keyboard_at (handlers_at L)) (gates k)\<rparr>);
     let (r, g, d) = mouse_init P (mouse_at (handlers_at L)) (rodent (mach k)) (gates k) (hw (disk (sys (mach k))));
     let m = (on_ports (\<lambda>_. d) (mach k))\<lparr>rodent := r\<rparr>;
     m \<leftarrow> step (if mouse_present (rodent m)
                then if mouse_device_id (rodent m) = 3 then ''PS/2 mouse with scroll wheel'' else ''PS/2 mouse without a wheel''
                else ''No PS/2 mouse (PageUp/PageDown still scroll)'') m;
     Some (k\<lparr>mach := m, gates := g\<rparr>)
   }"

definition boot_files :: "'d ports \<Rightarrow> around \<Rightarrow> 'd machine \<Rightarrow> 'd machine option" where
  "boot_files P G m = do {
     s \<leftarrow> fs_init (residue G) (stamp G) (sys m);
     m \<leftarrow> step ''Root filesystem skeleton'' (m\<lparr>sys := s\<rparr>);
     m \<leftarrow> step ''Account database'' (m\<lparr>sys := users_init (sys m)\<rparr>);
     (st, m) \<leftarrow> on_sys (persist_mount P (residue G) (install_booted_from_medium m)) m;
     (case st of
        PERSIST_LOADED \<Rightarrow> step ''Data disk mounted, previous session restored'' m
      | PERSIST_EMPTY \<Rightarrow> step ''Data disk found, no snapshot on it yet'' m
      | PERSIST_ERROR \<Rightarrow> do {
          m \<leftarrow> step ''Data disk unreadable, continuing in RAM only'' (colour VGA_YELLOW m);
          Some (colour VGA_LIGHT_GREY m)
        }
      | PERSIST_NO_DISK \<Rightarrow> step ''No data disk, changes will not survive a reboot'' m)
   }"

section \<open>Starting the session\<close>

definition boot_setup :: "'d ports \<Rightarrow> around \<Rightarrow> 'd machine \<Rightarrow> 'd machine option" where
  "boot_setup P G m =
     (if users_setup_needed (sys m)
      then do {
        m \<leftarrow> setup_screen (residue G) m;
        (rc, m) \<leftarrow> on_sys (persist_save P) m;
        Some m
      }
      else Some m)"

definition start_session :: "around \<Rightarrow> 'd machine \<Rightarrow> 'd machine outcome option" where
  "start_session G m = do {
     (task, s, t) \<leftarrow> task_spawn (bootstrap_at G) ''session'' (session_at G) 0 (sys m) (task_init (sch m));
     let m = m\<lparr>sys := s, sch := t\<rparr>;
     if task = None then panic ''could not start the session task'' m else Some (Back m)
   }"

text \<open>
  Up to the idle loop.  Enabling interrupts is the \<open>halts\<close> of the wait: the ticks it sees; the other
  interrupts of that time are not followed.
\<close>

definition kmain :: "'d ports \<Rightarrow> linkage \<Rightarrow> around \<Rightarrow> 'd kernel \<Rightarrow> 'd kernel outcome option" where
  "kmain P L G k = do {
     k \<leftarrow> boot_screen P k;
     k \<leftarrow> boot_tables P L k;
     r \<leftarrow> boot_memory L k;
     (case r of
        Off k \<Rightarrow> Some (Off k)
      | Back k \<Rightarrow> do {
          k \<leftarrow> boot_drivers P L k;
          k \<leftarrow> on_mach (boot_files P G) k;
          k \<leftarrow> on_mach (step ''Interrupts enabled'') k;
          (rest, b) \<leftarrow> sleep_ms 500 (halts L) (now G) (esp_now G) (board_of k);
          let k = put_board b k;
          r \<leftarrow> (if install_booted_from_medium (mach k) then install_run_menu P G (boot_code L) (mach k) else Some (Back (mach k)));
          (case r of
             Off m \<Rightarrow> Some (Off (k\<lparr>mach := m\<rparr>))
           | Back m \<Rightarrow> do {
               m \<leftarrow> boot_setup P G m;
               r \<leftarrow> start_session G m;
               Some (case r of Off m \<Rightarrow> Off (k\<lparr>mach := m\<rparr>) | Back m \<Rightarrow> Back (k\<lparr>mach := m\<rparr>))
             })
        })
   }"

section \<open>The tasks\<close>

text \<open>One turn of the idle loop, before the halt.\<close>

definition idle_turn :: "'d machine \<Rightarrow> 'd machine option" where
  "idle_turn m = do { (s, t) \<leftarrow> task_reap (sys m) (sch m); Some (m\<lparr>sys := s, sch := t\<rparr>) }"

text \<open>The session task until the machine goes off, for at most \<open>n\<close> sessions; \<open>G\<close> gives the surroundings of each.\<close>

fun session_task :: "'d ports \<Rightarrow> (nat \<Rightarrow> nat \<Rightarrow> around) \<Rightarrow> nat \<Rightarrow> 'd machine \<Rightarrow> 'd machine outcome option" where
  "session_task P G 0 m = Some (Back m)"
| "session_task P G (Suc n) m = do {
     m \<leftarrow> login_screen (G n 0) m;
     r \<leftarrow> shell_run P (\<lambda>i. G n (Suc i)) m;
     (case r of Off m \<Rightarrow> Some (Off m) | Back m \<Rightarrow> session_task P G n m)
   }"

end
