(* ===== verification/Boot_Steps.thy ===== *)
theory Boot_Steps
  imports Shell_Durable Install_Spec Kernel
begin

text \<open>
  The boot of \<open>kernel/kernel.c\<close> up to the first question to the user: what each part of it leaves of the
  machine.  The drivers before the disk driver do not reach the drives (\<open>same_drives\<close>), the heap has room
  for the root directory (\<open>roomy\<close>), and on blank disks the system that results has no account
  (\<open>pristine\<close>).
\<close>

section \<open>The ports of the boot\<close>

definition same_drives :: "('d \<Rightarrow> ata_view) \<Rightarrow> ('d \<Rightarrow> nat) \<Rightarrow> 'd \<Rightarrow> 'd \<Rightarrow> bool" where
  "same_drives view busy d d' \<longleftrightarrow> view d' = view d \<and> busy d' = busy d"

text \<open>The ports outside the two blocks of the disk controller do not reach the drives.\<close>

definition ports_apart :: "'d ports \<Rightarrow> ('d \<Rightarrow> ata_view) \<Rightarrow> ('d \<Rightarrow> nat) \<Rightarrow> bool" where
  "ports_apart P view busy \<longleftrightarrow> (\<forall>p d. p \<noteq> 0x3F6 \<longrightarrow> p < 0x1F0 \<or> 0x1F7 < p \<longrightarrow>
     same_drives view busy d (snd (inb P p d)) \<and> (\<forall>b. same_drives view busy d (outb P p b d)))"

lemma same_refl: "same_drives view busy d d"
  by (simp add: same_drives_def)

lemma same_trans: "same_drives view busy a b \<Longrightarrow> same_drives view busy b c \<Longrightarrow> same_drives view busy a c"
  by (simp add: same_drives_def)

lemma same_in:
  "ports_apart P view busy \<Longrightarrow> p \<noteq> 0x3F6 \<Longrightarrow> p < 0x1F0 \<or> 0x1F7 < p \<Longrightarrow> inb P p d = (b, d') \<Longrightarrow> same_drives view busy d0 d \<Longrightarrow>
     same_drives view busy d0 d'"
  unfolding ports_apart_def using same_trans by (metis snd_conv)

lemma same_out:
  "ports_apart P view busy \<Longrightarrow> p \<noteq> 0x3F6 \<Longrightarrow> p < 0x1F0 \<or> 0x1F7 < p \<Longrightarrow> same_drives view busy d0 d \<Longrightarrow>
     same_drives view busy d0 (outb P p b d)"
  unfolding ports_apart_def using same_trans by metis

lemmas port_numbers = COM1_def PIC1_DATA_def PIC2_DATA_def PIC1_COMMAND_def PIC2_COMMAND_def PIT_COMMAND_def PIT_CHANNEL0_def
  PS2_DATA_def PS2_STATUS_def PS2_COMMAND_def

lemma serial_quiet:
  "ports_apart P view busy \<Longrightarrow> same_drives view busy d0 d \<Longrightarrow> same_drives view busy d0 (snd (serial_init P d))"
  by (auto simp: serial_init_def Let_def port_numbers intro!: same_out)

lemma pic_quiet:
  "ports_apart P view busy \<Longrightarrow> same_drives view busy d0 d \<Longrightarrow> same_drives view busy d0 (pic_remap P d)"
  by (auto simp: pic_remap_def io_wait_def port_numbers split: prod.splits intro!: same_out elim!: same_in [rotated 3])

lemma idt_quiet:
  "ports_apart P view busy \<Longrightarrow> same_drives view busy d0 d \<Longrightarrow> idt_init P table stubs y s d = (g, d') \<Longrightarrow> same_drives view busy d0 d'"
  by (auto simp: idt_init_def Let_def port_numbers intro!: same_out pic_quiet)

lemma mask_quiet:
  "ports_apart P view busy \<Longrightarrow> same_drives view busy d0 d \<Longrightarrow> same_drives view busy d0 (irq_set_masked P irq masked d)"
  by (auto simp: irq_set_masked_def Let_def port_numbers split: prod.splits if_splits intro!: same_out elim!: same_in [rotated 3])

lemma wait_quiet:
  "ports_apart P view busy \<Longrightarrow> same_drives view busy d0 d \<Longrightarrow> wait_writable P d = (r, d') \<Longrightarrow> same_drives view busy d0 d'"
  "ports_apart P view busy \<Longrightarrow> same_drives view busy d0 d \<Longrightarrow> wait_readable P d = (r, d') \<Longrightarrow> same_drives view busy d0 d'"
proof -
  assume P: "ports_apart P view busy" and s: "same_drives view busy d0 d"
  have w: "wait_writable_loop P n d = (r, d') \<Longrightarrow> same_drives view busy d0 d'" for n
    using s
  proof (induction n arbitrary: d)
    case (Suc n)
    obtain v d1 where v: "inb P PS2_STATUS d = (v, d1)" by (cases "inb P PS2_STATUS d")
    have "same_drives view busy d0 d1" by (rule same_in [OF P _ _ v Suc.prems(2)]) (simp_all add: port_numbers)
    with Suc v show ?case by (auto split: if_splits)
  qed simp
  then show "wait_writable P d = (r, d') \<Longrightarrow> same_drives view busy d0 d'" unfolding wait_writable_def by blast
  have "wait_readable_loop P n d = (r, d') \<Longrightarrow> same_drives view busy d0 d'" for n
    using s
  proof (induction n arbitrary: d)
    case (Suc n)
    obtain v d1 where v: "inb P PS2_STATUS d = (v, d1)" by (cases "inb P PS2_STATUS d")
    have "same_drives view busy d0 d1" by (rule same_in [OF P _ _ v Suc.prems(2)]) (simp_all add: port_numbers)
    with Suc v show ?case by (auto split: if_splits)
  qed simp
  then show "wait_readable P d = (r, d') \<Longrightarrow> same_drives view busy d0 d'" unfolding wait_readable_def by blast
qed

text \<open>The rule for a pair bound by \<open>let\<close>.\<close>

definition quietly :: "('d \<Rightarrow> ata_view) \<Rightarrow> ('d \<Rightarrow> nat) \<Rightarrow> 'd \<Rightarrow> 'a \<times> 'd \<Rightarrow> bool" where
  "quietly view busy d r \<longleftrightarrow> same_drives view busy d (snd r)"

lemma quietly_simps:
  "quietly view busy d (x, e) = same_drives view busy d e"
  "quietly view busy d (if c then a else b) = (if c then quietly view busy d a else quietly view busy d b)"
  by (simp_all add: quietly_def)

lemma data_quiet:
  assumes P: "ports_apart P view busy" and s: "same_drives view busy d0 d"
  shows "quietly view busy d0 (read_data P d)"
proof -
  obtain r d1 where 1: "wait_readable P d = (r, d1)" by (cases "wait_readable P d")
  obtain v d2 where 2: "inb P PS2_DATA d1 = (v, d2)" by (cases "inb P PS2_DATA d1")
  note q = wait_quiet(2) [OF P s 1]
  have "same_drives view busy d0 d2" by (rule same_in [OF P _ _ 2 q]) (simp_all add: port_numbers)
  with 1 2 q show ?thesis by (simp add: read_data_def Let_def quietly_simps)
qed

lemma command_quiet:
  assumes P: "ports_apart P view busy" and s: "same_drives view busy d0 d"
  shows "quietly view busy d0 (mouse_command P x d)"
proof -
  obtain r d1 where 1: "wait_writable P d = (r, d1)" by (cases "wait_writable P d")
  note q1 = wait_quiet(1) [OF P s 1]
  obtain r' d2 where 2: "wait_writable P (outb P PS2_COMMAND 0xD4 d1) = (r', d2)" by (cases "wait_writable P (outb P PS2_COMMAND 0xD4 d1)")
  have o: "same_drives view busy d0 (outb P PS2_COMMAND 0xD4 d1)" by (rule same_out [OF P _ _ q1]) (simp_all add: port_numbers)
  note q2 = wait_quiet(1) [OF P o 2]
  have "same_drives view busy d0 (outb P PS2_DATA x d2)" by (rule same_out [OF P _ _ q2]) (simp_all add: port_numbers)
  from data_quiet [OF P this] 1 2 q1 q2 show ?thesis by (simp add: mouse_command_def Let_def quietly_simps)
qed


lemma command_same: "ports_apart P view busy \<Longrightarrow> mouse_command P x d = (a, d') \<Longrightarrow> same_drives view busy d0 d \<Longrightarrow> same_drives view busy d0 d'"
  using command_quiet [of P view busy d0 d x] by (simp add: quietly_def)

lemma data_same: "ports_apart P view busy \<Longrightarrow> read_data P d = (a, d') \<Longrightarrow> same_drives view busy d0 d \<Longrightarrow> same_drives view busy d0 d'"
  using data_quiet [of P view busy d0 d] by (simp add: quietly_def)

lemma wait_same: "ports_apart P view busy \<Longrightarrow> wait_writable P d = (a, d') \<Longrightarrow> same_drives view busy d0 d \<Longrightarrow> same_drives view busy d0 d'"
  by (rule wait_quiet(1))

lemma controller_out:
  assumes "ports_apart P view busy" "same_drives view busy d0 d"
  shows "same_drives view busy d0 (outb P PS2_COMMAND x d)" "same_drives view busy d0 (outb P PS2_DATA x d)"
  by (rule same_out [OF assms(1) _ _ assms(2)]; simp add: port_numbers)+

lemma rate_same:
  assumes P: "ports_apart P view busy" and s: "same_drives view busy d0 d"
  shows "same_drives view busy d0 (snd (set_sample_rate P x d))"
proof -
  obtain a d1 where 1: "mouse_command P 0xF3 d = (a, d1)" by (cases "mouse_command P 0xF3 d")
  note q = command_same [OF P 1 s]
  from q command_quiet [OF P q] show ?thesis by (simp add: set_sample_rate_def quietly_def 1)
qed

lemma wheel_same:
  assumes P: "ports_apart P view busy" and s: "same_drives view busy d0 d"
  shows "same_drives view busy d0 (snd (enable_wheel P m d))"
proof -
  let ?d = "snd (set_sample_rate P 80 (snd (set_sample_rate P 100 (snd (set_sample_rate P 200 d)))))"
  have d: "same_drives view busy d0 ?d" by (intro rate_same [OF P] s)
  obtain a d1 where 1: "mouse_command P 0xF2 ?d = (a, d1)" by (cases "mouse_command P 0xF2 ?d")
  obtain i d2 where 2: "read_data P d1 = (i, d2)" by (cases "read_data P d1")
  note q = command_same [OF P 1 d]
  from q data_same [OF P 2 q] show ?thesis by (simp add: enable_wheel_def Let_def 1 2)
qed

lemma wheel_pair: "ports_apart P view busy \<Longrightarrow> enable_wheel P m d = (a, d') \<Longrightarrow> same_drives view busy d0 d \<Longrightarrow> same_drives view busy d0 d'"
  using wheel_same [of P view busy d0 d m] by simp

definition answered :: "('d \<Rightarrow> ata_view) \<Rightarrow> ('d \<Rightarrow> nat) \<Rightarrow> 'd \<Rightarrow> 'a \<times> 'b \<times> 'd \<Rightarrow> bool" where
  "answered view busy d r \<longleftrightarrow> same_drives view busy d (snd (snd r))"

lemma answered_if: "(c \<Longrightarrow> answered view busy d a) \<Longrightarrow> (\<not> c \<Longrightarrow> answered view busy d b) \<Longrightarrow> answered view busy d (if c then a else b)"
  by simp

lemma answered_case:
  "same_drives view busy d (snd f) \<Longrightarrow> (\<And>a e. same_drives view busy d e \<Longrightarrow> answered view busy d (g a e)) \<Longrightarrow>
     answered view busy d (case f of (a, e) \<Rightarrow> g a e)"
  by (cases f) simp

lemma answered_end: "same_drives view busy d e \<Longrightarrow> answered view busy d (a, b, e)"
  by (simp add: answered_def)

lemma mouse_quiet:
  assumes P: "ports_apart P view busy" and s: "same_drives view busy d0 d"
  shows "answered view busy d0 (mouse_init P c m g d)"
proof -
  have w: "same_drives view busy d0 e \<Longrightarrow> same_drives view busy d0 (snd (wait_writable P e))" for e
    by (cases "wait_writable P e") (simp add: wait_same [OF P])
  have r: "same_drives view busy d0 e \<Longrightarrow> same_drives view busy d0 (snd (read_data P e))" for e
    using data_quiet [OF P] by (simp add: quietly_def)
  have k: "same_drives view busy d0 e \<Longrightarrow> same_drives view busy d0 (snd (mouse_command P x e))" for x e
    using command_quiet [OF P] by (simp add: quietly_def)
  show ?thesis unfolding mouse_init_def Let_def
    by (intro answered_case answered_if answered_end w r k controller_out [OF P] wheel_same [OF P] mask_quiet [OF P] s)
qed


section \<open>Progress\<close>

text \<open>What the boot does to the machine before the heap is there: the screen, the mouse and what hangs on other ports.\<close>

definition aside :: "('d \<Rightarrow> ata_view) \<Rightarrow> ('d \<Rightarrow> nat) \<Rightarrow> 'd machine \<Rightarrow> 'd machine \<Rightarrow> bool" where
  "aside view busy m m' \<longleftrightarrow> vga_inv (display m') \<and>
     (\<exists>d v r. m' = (on_ports (\<lambda>_. d) m)\<lparr>display := v, rodent := r\<rparr> \<and> same_drives view busy (hw (disk (sys m))) d)"

lemma aside_screen: "vga_inv v \<Longrightarrow> aside view busy m (m\<lparr>display := v\<rparr>)"
  unfolding aside_def
  by (intro conjI exI [of _ "hw (disk (sys m))"] exI [of _ v] exI [of _ "rodent m"]) (simp_all add: on_ports_def same_refl)

lemma aside_refl: "vga_inv (display m) \<Longrightarrow> aside view busy m m"
  using aside_screen [of "display m" view busy m] by simp

lemma aside_trans:
  assumes "aside view busy a b" "aside view busy b c" shows "aside view busy a c"
proof -
  from assms obtain d v r d' v' r' where s: "b = (on_ports (\<lambda>_. d) a)\<lparr>display := v, rodent := r\<rparr>" "same_drives view busy (hw (disk (sys a))) d"
    "c = (on_ports (\<lambda>_. d') b)\<lparr>display := v', rodent := r'\<rparr>" "same_drives view busy (hw (disk (sys b))) d'" "vga_inv (display c)"
    unfolding aside_def by blast
  have "c = (on_ports (\<lambda>_. d') a)\<lparr>display := v', rodent := r'\<rparr>" by (simp add: s(1,3) on_ports_def)
  moreover have "same_drives view busy (hw (disk (sys a))) d'" using s(1,2,4) by (simp add: same_drives_def on_ports_def)
  ultimately show ?thesis using s(5) unfolding aside_def by blast
qed

lemma aside_ports:
  assumes "vga_inv (display m)" "same_drives view busy (hw (disk (sys m))) d" shows "aside view busy m ((on_ports (\<lambda>_. d) m)\<lparr>rodent := r\<rparr>)"
proof -
  have "(on_ports (\<lambda>_. d) m)\<lparr>rodent := r\<rparr> = (on_ports (\<lambda>_. d) m)\<lparr>display := display m, rodent := r\<rparr>" by (simp add: on_ports_def)
  with assms show ?thesis unfolding aside_def by (metis (no_types) assms(1) machine.select_convs(3) machine.surjective machine.update_convs(3) machine.update_convs(6))
qed

lemma aside_fields:
  assumes "aside view busy m m'"
  shows "vga_inv (display m')" "sch m' = sch m" "con m' = con m" "boot_flag m' = boot_flag m" "keystrokes m' = keystrokes m"
    "same_drives view busy (hw (disk (sys m))) (hw (disk (sys m')))"
    "\<exists>d. sys m' = (sys m)\<lparr>disk := (disk (sys m))\<lparr>hw := d\<rparr>\<rparr>"
  using assms by (auto simp: aside_def on_ports_def)

lemma screen_steps:
  "vga_inv (display m) \<Longrightarrow> vga_inv (display (say s m))" "vga_inv (display m) \<Longrightarrow> vga_inv (display (colour c m))"
  by (simp_all add: say_def put_text_def colour_def vga_inv_ops vga_set_color_inv)

lemma step_runs: "\<exists>v. step what m = Some (m\<lparr>display := v\<rparr>) \<and> (vga_inv (display m) \<longrightarrow> vga_inv v)"
proof -
  have "kprintf ''[    ] %s'' [str what] = Some (''[    ] '' @ what)"
    by (simp add: printf_simps str_def)
  then show ?thesis by (auto simp: step_def print_def Let_def say_def colour_def put_text_def vga_inv_ops vga_set_color_inv vga_set_cursor_inv(1))
qed


lemma step_aside: "vga_inv (display m) \<Longrightarrow> \<exists>m'. step what m = Some m' \<and> aside view busy m m'"
  using step_runs [of what m] aside_screen by metis

section \<open>Before the heap\<close>

text \<open>On the whole machine the tick counter stays as well.\<close>

definition along :: "('d \<Rightarrow> ata_view) \<Rightarrow> ('d \<Rightarrow> nat) \<Rightarrow> 'd kernel \<Rightarrow> 'd kernel \<Rightarrow> bool" where
  "along view busy k k' \<longleftrightarrow> aside view busy (mach k) (mach k') \<and> clock k' = clock k"

lemma along_trans: "along view busy a b \<Longrightarrow> along view busy b c \<Longrightarrow> along view busy a c"
  using aside_trans by (auto simp: along_def)

lemma along_step: "vga_inv (display (mach k)) \<Longrightarrow> \<exists>k'. on_mach (step what) k = Some k' \<and> along view busy k k'"
  using step_aside [of "mach k" what view busy] by (auto simp: on_mach_def along_def)

lemma boot_screen_runs:
  assumes P: "ports_apart P view busy" and v: "vga_arrays (display (mach k))"
  shows "\<exists>k'. boot_screen P k = Some k' \<and> along view busy k k'"
proof -
  let ?m0 = "(mach k)\<lparr>display := vga_init (display (mach k))\<rparr>"
  obtain ready d where d: "serial_init P (hw (disk (sys ?m0))) = (ready, d)" by (cases "serial_init P (hw (disk (sys ?m0)))")
  let ?m1 = "on_ports (\<lambda>_. d) ?m0"
  have 0: "vga_inv (display ?m0)" using vga_init_inv(1) [OF v] by simp
  have "same_drives view busy (hw (disk (sys ?m0))) d" using serial_quiet [OF P same_refl, of "hw (disk (sys ?m0))"] d by simp
  then have "aside view busy ?m0 ((on_ports (\<lambda>_. d) ?m0)\<lparr>rodent := rodent (mach k)\<rparr>)" by (rule aside_ports [OF 0])
  then have 1: "aside view busy (mach k) ?m1" using aside_trans [OF aside_screen] 0 by (fastforce simp: on_ports_def)
  let ?fmt = "''%s %s '' @ [CHR 0x22] @ ''%s'' @ [CHR 0x22] @ '' booting on %s'' @ [LF, LF]"
  obtain out where out: "kprintf ?fmt [str LOS_NAME, str LOS_RELEASE, str LOS_CODENAME, str LOS_ARCH] = Some out"
    by (simp add: printf_simps str_def)
  let ?m2 = "colour VGA_LIGHT_GREY (say out (colour VGA_WHITE ?m1))"
  have e: "?m2 = ?m1\<lparr>display := display ?m2\<rparr>" by (simp add: say_def colour_def)
  have v2: "vga_inv (display ?m2)" using aside_fields(1) [OF 1] by (intro screen_steps)
  have 2: "aside view busy (mach k) ?m2" using aside_trans [OF 1 aside_screen [OF v2]] e by simp
  from step_aside [OF v2] obtain m3 where 3: "step ''VGA text console 80x25 with 512 lines of scrollback'' ?m2 = Some m3" "aside view busy ?m2 m3" by blast
  from step_aside [OF aside_fields(1) [OF 3(2)]] obtain m4 where 4: "step ''Serial console on COM1'' m3 = Some m4" "aside view busy m3 m4" by blast
  have "boot_screen P k = Some (k\<lparr>mach := m4, serial_ready := ready\<rparr>)"
    using d out 3(1) 4(1) unfolding boot_screen_def print_def by simp
  with aside_trans [OF aside_trans [OF 2 3(2)] 4(2)] show ?thesis by (auto simp: along_def)
qed

lemma boot_tables_runs:
  assumes P: "ports_apart P view busy" and v: "vga_inv (display (mach k))"
  shows "\<exists>k'. boot_tables P L k = Some k' \<and> along view busy k k'"
proof -
  let ?k0 = "k\<lparr>segments := gdt_init (gdt_at L) (segments k)\<rparr>"
  have 0: "along view busy k ?k0" using aside_refl [OF v] by (simp add: along_def)
  from along_step [of ?k0] v obtain k1 where 1: "on_mach (step ''Global descriptor table'') ?k0 = Some k1" "along view busy ?k0 k1" by fastforce
  have v1: "vga_inv (display (mach k1))" using 1(2) aside_fields(1) by (auto simp: along_def)
  let ?i = "idt_init P (idt_at L) (stubs_at L) (yield_at L) (gates k1) (hw (disk (sys (mach k1))))"
  obtain g d where d: "?i = (g, d)" by (cases ?i)
  let ?m2 = "on_ports (\<lambda>_. d) (mach k1)"
  from aside_ports [OF v1 idt_quiet [OF P same_refl d], of "rodent (mach k1)"] have 2: "aside view busy (mach k1) ?m2" by (simp add: on_ports_def)
  from step_aside [OF aside_fields(1) [OF 2]] obtain m3 where 3: "step ''Interrupt descriptor table and PIC remap'' ?m2 = Some m3" "aside view busy ?m2 m3" by blast
  have "boot_tables P L k = Some (k1\<lparr>gates := g, mach := m3\<rparr>)" using 1(1) d 3(1) unfolding boot_tables_def by (simp add: on_mach_def)
  moreover have "along view busy k1 (k1\<lparr>gates := g, mach := m3\<rparr>)" using aside_trans [OF 2 3(2)] by (simp add: along_def)
  ultimately show ?thesis using along_trans [OF along_trans [OF 0 1(2)]] by blast
qed

lemma boot_drivers_runs:
  assumes P: "ports_apart P view busy" and v: "vga_inv (display (mach k))"
  shows "\<exists>k'. boot_drivers P L k = Some k' \<and> along view busy k k'"
proof -
  let ?b = "timer_init P (timer_at (handlers_at L)) (board_of k)"
  let ?k0 = "put_board ?b k"
  have "same_drives view busy (hw (disk (sys (mach k)))) (b_hw ?b)"
    by (auto simp: timer_init_def Let_def board_of_def port_numbers intro!: same_out [OF P] same_refl)
  from aside_ports [OF v this, of "rodent (mach k)"]
  have 0: "along view busy k ?k0" by (simp add: along_def put_board_def timer_init_def board_of_def on_ports_def Let_def)
  from 0 have "vga_inv (display (mach ?k0))" using aside_fields(1) by (auto simp: along_def)
  from along_step [OF this] obtain k1 where
    1: "on_mach (step ''Programmable interval timer at 100 Hz'') ?k0 = Some k1" "along view busy ?k0 k1" by blast
  let ?k2 = "k1\<lparr>typing := keyboard_init (typing k1), gates := irq_install_handler 1 (keyboard_at (handlers_at L)) (gates k1)\<rparr>"
  from 1(2) have v1: "vga_inv (display (mach ?k2))" using aside_fields(1) by (auto simp: along_def)
  have 2: "along view busy k1 ?k2" using aside_refl [of "mach k1"] v1 by (simp add: along_def)
  from along_step [OF v1] obtain k3 where 3: "on_mach (step ''PS/2 keyboard driver'') ?k2 = Some k3" "along view busy ?k2 k3" by blast
  from 3(2) have v3: "vga_inv (display (mach k3))" using aside_fields(1) by (auto simp: along_def)
  let ?i = "mouse_init P (mouse_at (handlers_at L)) (rodent (mach k3)) (gates k3) (hw (disk (sys (mach k3))))"
  obtain r g d where d: "?i = (r, g, d)" by (cases ?i)
  have "same_drives view busy (hw (disk (sys (mach k3)))) d" using mouse_quiet [OF P same_refl] d by (metis answered_def snd_conv)
  from aside_ports [OF v3 this] have 4: "aside view busy (mach k3) ((on_ports (\<lambda>_. d) (mach k3))\<lparr>rodent := r\<rparr>)" .
  from step_aside [OF aside_fields(1) [OF 4]] obtain m5 where
    5: "step (if mouse_present r then if mouse_device_id r = 3 then ''PS/2 mouse with scroll wheel'' else ''PS/2 mouse without a wheel''
              else ''No PS/2 mouse (PageUp/PageDown still scroll)'') ((on_ports (\<lambda>_. d) (mach k3))\<lparr>rodent := r\<rparr>) = Some m5"
      "aside view busy ((on_ports (\<lambda>_. d) (mach k3))\<lparr>rodent := r\<rparr>) m5" by blast
  have "boot_drivers P L k = Some (k3\<lparr>mach := m5, gates := g\<rparr>)"
    using 1(1) 3(1) d 5(1) unfolding boot_drivers_def by (auto simp: Let_def split: if_splits)
  moreover have "along view busy k3 (k3\<lparr>mach := m5, gates := g\<rparr>)" using aside_trans [OF 4 5(2)] by (simp add: along_def)
  ultimately show ?thesis using along_trans [OF along_trans [OF along_trans [OF along_trans [OF 0 1(2)] 2] 3(2)]] by blast
qed

section \<open>Memory\<close>

text \<open>There is room for the root directory.\<close>

definition roomy :: "'a mem_state_scheme \<Rightarrow> bool" where
  "roomy s \<longleftrightarrow> (\<exists>xs c ys. heap_rep s xs \<and> heap_alloc 64 2097152 xs = Some (c, ys) \<and> 2097152 \<le> c \<and> c < 4294967276)"

lemma roomy_root: "roomy s \<Longrightarrow> kcalloc 1 sizeof_fs_node s \<noteq> Some (0, s)"
proof -
  assume "roomy s"
  then obtain xs c ys where a: "heap_rep s xs" "heap_alloc 64 2097152 xs = Some (c, ys)" "2097152 \<le> c" "c < 4294967276" by (auto simp: roomy_def)
  have r: "round8 60 = 64" by (subst round8_exact) simp_all
  have "(of_nat (c + 20) :: u32) \<noteq> 0" using a(3,4) by (subst of_nat_u32_eq_0) simp_all
  with kmalloc_refines [OF a(1), of 60] a(2) show ?thesis by (auto simp: r HEAP_BASE_nat kcalloc_def sizeof_fs_node_def)
qed

lemma image_room:
  assumes h: "heap_rep s [(n, True)]" and n: "1048556 \<le> n" and b: "unat b \<le> 524288"
  shows "\<exists>p s'. kmalloc b s = Some (p, s') \<and> mem_frame s s' \<and> (\<exists>R. mem_holds s' R) \<and> roomy s'"
proof -
  have len: "n + 2097172 \<le> 4294967295" using h by (auto simp: heap_rep_def Let_def HEAP_BASE_nat)
  have room: "(\<exists>R. mem_holds t R) \<and> roomy t"
    if "heap_rep t xs" "heap_alloc 64 2097152 xs = Some (c, ys)" "2097152 \<le> c" "c < 4294967276" for t :: "'a mem_state_scheme" and xs c ys
    using that unfolding roomy_def mem_holds_def by blast
  show ?thesis
  proof (cases "b = 0")
    case True
    then have "kmalloc b s = Some (NULL, s)" by (simp add: kmalloc_def)
    moreover have "heap_alloc 64 2097152 [(n, True)] = Some (2097152, cut_block 64 n @ [])" using n by simp
    ultimately show ?thesis using room [OF h] mem_frame_refl [of s] by fastforce
  next
    case False
    define k where "k = round8 b"
    have k: "k \<le> 524295" unfolding k_def using b by (subst round8_exact) simp_all
    have a: "heap_alloc k 2097152 [(n, True)] = Some (2097152, [(k, False), (n - k - 20, True)])" using k n by (simp add: cut_block_def)
    from kmalloc_refines [OF h False, folded k_def, unfolded HEAP_BASE_nat(1) a option.case prod.case] obtain H u where 1: "kmalloc b s = Some (of_nat (2097152 + 20), s\<lparr>hdr := H, heap_used := u\<rparr>)"
      "heap_rep (s\<lparr>hdr := H, heap_used := u\<rparr>) [(k, False), (n - k - 20, True)]" by blast
    have "heap_alloc 64 2097152 [(k, False), (n - k - 20, True)] = Some (2097172 + k, (k, False) # cut_block 64 (n - k - 20))"
      using k n by simp
    from room [OF 1(2) this] k 1(1) show ?thesis by (auto simp: mem_frame_def)
  qed
qed

text \<open>The machine before the boot: the variables are zero, and the loader did not come from an install medium.\<close>

definition powered_on :: "'d kernel \<Rightarrow> bool" where
  "powered_on k \<longleftrightarrow> vga_arrays (display (mach k)) \<and> nodes (sys (mach k)) = Map.empty \<and> bufs (sys (mach k)) = Map.empty \<and>
     node_count (sys (mach k)) = 0 \<and> \<not> started (sch (mach k)) \<and> \<not> install_booted_from_medium (mach k)"

definition enough_memory :: "linkage \<Rightarrow> bool" where
  "enough_memory L \<longleftrightarrow> HEAP_MIN_SIZE \<le> usable_heap_size (map (e820_map L) [0..<unat (if e820_count L > E820_MAX then E820_MAX else e820_count L)]) \<and> length (image_data L) \<le> 524288"

text \<open>What the boot leaves alone besides: the line editor, the keys, the flag and the scheduler.\<close>

definition same_session :: "'d machine \<Rightarrow> 'd machine \<Rightarrow> bool" where
  "same_session m m' \<longleftrightarrow> vga_inv (display m') \<and> sch m' = sch m \<and> con m' = con m \<and> keystrokes m' = keystrokes m \<and> boot_flag m' = boot_flag m"

lemma same_session_trans: "same_session a b \<Longrightarrow> same_session b c \<Longrightarrow> same_session a c"
  by (simp add: same_session_def)

lemma aside_session: "aside view busy m m' \<Longrightarrow> same_session m m'"
  using aside_fields [of view busy m m'] by (simp add: same_session_def)

lemma step_session: "vga_inv (display m) \<Longrightarrow> \<exists>m'. step what m = Some m' \<and> same_session m m' \<and> sys m' = sys m"
  using step_runs [of what m] by (auto simp: same_session_def)

lemma boot_memory_runs:
  assumes v: "vga_inv (display (mach k))" and e: "enough_memory L"
    and f: "nodes (sys (mach k)) = Map.empty" "bufs (sys (mach k)) = Map.empty" "node_count (sys (mach k)) = 0"
  shows "\<exists>k' R. boot_memory L k = Some (Back k') \<and> clock k' = clock k \<and> same_session (mach k) (mach k') \<and>
    disk (sys (mach k')) = disk (sys (mach k)) \<and> fs_fresh (sys (mach k')) R \<and>
    roomy (sys (mach k'))"
proof -
  let ?s = "sys (mach k)" and ?b = "of_nat (length (image_data L)) :: u32"
  have "HEAP_MIN_SIZE \<le> usable_heap_size (regions (read_memory_map (e820_count L) (e820_map L) ?s))"
    using e by (auto simp: enough_memory_def read_memory_map_def Let_def)
  then obtain s1 where 1: "mem_init (e820_count L) (e820_map L) ?s = Some s1" "disk s1 = disk ?s" "nodes s1 = nodes ?s" "bufs s1 = bufs ?s"
    "node_count s1 = node_count ?s" by (simp add: mem_init_def Let_def not_less read_memory_map_def)
  from mem_init_ok [OF 1(1)] have h: "1048576 \<le> unat (heap_size s1)" "heap_rep s1 [(unat (heap_size s1) - 20, True)]" by blast+
  have b: "unat ?b \<le> 524288" using e by (simp add: enough_memory_def unat_of_nat_exact)
  have "1048556 \<le> unat (heap_size s1) - 20" using h(1) by linarith
  from image_room [OF h(2) this b] obtain p s2 R where
    2: "kmalloc ?b s1 = Some (p, s2)" "mem_frame s1 s2" "mem_holds s2 R" "roomy s2" by blast
  have d2: "disk s2 = disk ?s" using 2(2) 1(2) by (auto simp: mem_frame_def)
  have fr: "fs_fresh s2 R" using mem_frame_fs [OF 2(2)] 2(3) 1 f by (simp add: fs_fresh_def)
  from step_session [of "(mach k)\<lparr>sys := s1\<rparr>"] v obtain m1 where
    m1: "step ''Physical memory map and kernel heap'' ((mach k)\<lparr>sys := s1\<rparr>) = Some m1" "same_session (mach k) m1" "sys m1 = s1"
    by (fastforce simp: same_session_def)
  let ?c = "if p = NULL then None else Some (image_data L)"
  let ?m2 = "m1\<lparr>sys := s2, image_bytes := ?b, image_copy := ?c\<rparr>"
  have c2: "install_capture_image (image_data L) m1 = Some ?m2" using 2(1) m1(3) by (simp add: install_capture_image_def Let_def)
  have s2: "same_session (mach k) ?m2" using m1(2) by (simp add: same_session_def)
  then have "vga_inv (display ?m2)" by (simp only: same_session_def)
  from step_session [OF this] obtain m3 where m3: "step ''Kernel image captured for the installer'' ?m2 = Some m3" "same_session ?m2 m3" "sys m3 = sys ?m2" by blast
  have "boot_memory L k = Some (Back (k\<lparr>mach := m3\<rparr>))"
    using 1(1) m1(1) c2 m3(1) by (simp add: boot_memory_def on_mach_def)
  with same_session_trans [OF s2 m3(2)] m3(3) d2 fr 2(4) show ?thesis by (intro exI [of _ "k\<lparr>mach := m3\<rparr>"] exI [of _ R]) simp
qed

section \<open>Files and accounts\<close>

text \<open>A system without accounts, on blank disks or none.\<close>

definition pristine ::
  "'d ports \<Rightarrow> ('d \<Rightarrow> ata_view) \<Rightarrow> ('d \<Rightarrow> nat) \<Rightarrow> (nat \<Rightarrow> nat \<Rightarrow> u16 list) \<Rightarrow> 'd persist \<Rightarrow> bool" where
  "pristine P view busy media s \<longleftrightarrow> (\<exists>A. persist_ok P view busy A s) \<and> \<not> sealed s \<and> users s = replicate USER_MAX zero_user \<and> next_uid s = 1000 \<and>
     content view (disk s) = media \<and> p_state s \<in> {PERSIST_NO_DISK, PERSIST_EMPTY}"

lemma boot_files_runs:
  assumes f: "fs_fresh (sys m) R" "kcalloc 1 sizeof_fs_node (sys m) \<noteq> Some (0, sys m)"
    and r: "rebooted P view busy ident media (sys m)" "no_snapshot media" and v: "vga_inv (display m)" "\<not> install_booted_from_medium m"
  shows "\<exists>m'. boot_files P G m = Some m' \<and> same_session m m' \<and> pristine P view busy media (sys m')"
proof -
  from fs_init_starting [OF f, of "residue G" "stamp G"] obtain s1 L1 q where
    1: "fs_init (residue G) (stamp G) (sys m) = Some s1" "starting s1 L1 R" "fs_frame ((sys m)\<lparr>root_node := q, current_dir := q\<rparr>) s1" by blast
  have d1: "disk s1 = disk (sys m)" using 1(3) by (auto simp: fs_frame_def)
  have f1: "files_ok R s1" using 1(2) node_path_root [of s1] unfolding files_ok_def starting_def by metis
  from step_session [of "m\<lparr>sys := s1\<rparr>"] v(1) obtain m1 where
    m1: "step ''Root filesystem skeleton'' (m\<lparr>sys := s1\<rparr>) = Some m1" "same_session m m1" "sys m1 = s1" by (fastforce simp: same_session_def)
  let ?s2 = "users_init s1"
  from step_session [of "m1\<lparr>sys := ?s2\<rparr>"] m1(2) obtain m2 where
    m2: "step ''Account database'' (m1\<lparr>sys := ?s2\<rparr>) = Some m2" "same_session m m2" "sys m2 = ?s2" by (fastforce simp: same_session_def)
  have medium: "install_booted_from_medium m2 = False" using v(2) m2(2) by (simp add: install_booted_from_medium_def same_session_def)
  have "rebooted P view busy ident media ?s2" using r(1) d1 by (simp add: rebooted_def users_init_def)
  from mount_blank [OF this r(2), of "residue G"] obtain st s3 where
    3: "persist_mount P (residue G) False ?s2 = Some (st, s3)" "st \<in> {PERSIST_NO_DISK, PERSIST_EMPTY}" "p_state s3 = st"
      "drives_ok P view busy ident media (disk s3)" "st \<noteq> PERSIST_NO_DISK \<longrightarrow> placed view s3" "content view (disk s3) = media"
      "\<exists>d i b loc. s3 = ?s2\<lparr>sealed := False, disk := d, data_drive := i, data_base := b, data_where := loc, p_state := st\<rparr>" by blast
  from 3(7) obtain d i b loc where s3: "s3 = ?s2\<lparr>sealed := False, disk := d, data_drive := i, data_base := b, data_where := loc, p_state := st\<rparr>" by blast
  have f3: "files_ok R s3" using users_init_ok [OF f1] unfolding s3 by (subst files_ok_cong [where s = ?s2]) simp_all
  have u3: "users_ok s3" using users_init_ok [OF f1] by (simp add: s3 users_ok_def)
  have us: "users s3 = replicate USER_MAX zero_user" "next_uid s3 = 1000" "\<not> sealed s3" by (simp_all add: s3 users_init_def)
  have "persist_ok P view busy R s3" using f3 u3 3(3-5) us(1) by (auto simp: persist_ok_def drives_ok_def zero_user_def)
  then have p3: "pristine P view busy media s3" using us 3(2,3,6) by (auto simp: pristine_def)
  let ?m3 = "m2\<lparr>sys := s3\<rparr>"
  have s: "same_session m ?m3" using m2(2) by (simp add: same_session_def)
  have v3: "vga_inv (display ?m3)" using s by (simp only: same_session_def)
  have e: "boot_files P G m = (if st = PERSIST_EMPTY then step ''Data disk found, no snapshot on it yet'' ?m3
      else step ''No data disk, changes will not survive a reboot'' ?m3)"
    using 1(1) m1(1,3) m2(1,3) 3(1,2) medium by (auto simp: boot_files_def on_sys_def)
  have "\<exists>m'. boot_files P G m = Some m' \<and> same_session ?m3 m' \<and> sys m' = s3"
    using step_session [OF v3] unfolding e by (cases "st = PERSIST_EMPTY") simp_all
  with p3 same_session_trans [OF s] show ?thesis by blast
qed

end
