(* ===== verification/Boot_Wizard.thy ===== *)
theory Boot_Wizard
  imports Boot_Steps
begin

text \<open>
  The questions of the first boot: which accounts the keys typed stand for, and that the wizard arrives
  at exactly these.
\<close>

section \<open>What the keys stand for\<close>

text \<open>
  The line that the keys make in a buffer of \<open>sz\<close> characters, up to Enter, or \<open>None\<close> when it is given up
  with Ctrl-C; and the keys after it.  Without a key that ends the line there is no answer.
\<close>

definition next_line :: "nat \<Rightarrow> int list \<Rightarrow> (string option \<times> int list) option" where
  "next_line sz keys = (case dropWhile (\<lambda>k. \<not> ends_line k) keys of
       [] \<Rightarrow> None
     | k # ks \<Rightarrow> Some (if k = 10 then Some (fst (edit_line [] (sz - 1) False (takeWhile (\<lambda>k. \<not> ends_line k) keys) ([], 0))) else None, ks))"

lemma next_line_shorter: "next_line sz keys = Some (r, ks) \<Longrightarrow> length ks < length keys"
proof -
  assume "next_line sz keys = Some (r, ks)"
  then obtain k where "dropWhile (\<lambda>k. \<not> ends_line k) keys = k # ks" by (auto simp: next_line_def split: list.splits)
  then have "length (k # ks) \<le> length keys" by (metis length_dropWhile_le)
  then show "length ks < length keys" by simp
qed

text \<open>A new password: of four characters at least, and typed twice; Ctrl-C gives the question up.\<close>

function password_entered :: "int list \<Rightarrow> (string option \<times> int list) option" where
  "password_entered keys = (case next_line PASSWORD_MAX keys of
       None \<Rightarrow> None
     | Some (None, ks) \<Rightarrow> Some (None, ks)
     | Some (Some p, ks) \<Rightarrow>
         if length p < PASSWORD_MIN then password_entered ks
         else (case next_line PASSWORD_MAX ks of
             None \<Rightarrow> None
           | Some (None, ks) \<Rightarrow> Some (None, ks)
           | Some (Some q, ks) \<Rightarrow> if p = q then Some (Some p, ks) else password_entered ks))"
  by pat_completeness auto
termination by (relation "measure length") (auto dest!: next_line_shorter)

declare password_entered.simps [simp del]

lemma password_entered_shorter: "password_entered keys = Some (r, ks) \<Longrightarrow> length ks < length keys"
proof (induction "length keys" arbitrary: keys rule: less_induct)
  case less
  have again: "length ks < length keys" if "password_entered ks' = Some (r, ks)" "length ks' < length keys" for ks'
    using less.hyps [OF that(2,1)] that(2) by simp
  from less.prems show ?case
    by (subst (asm) password_entered.simps)
      (auto split: option.splits if_splits dest!: next_line_shorter; meson again less_trans)
qed

text \<open>The administrator needs one.\<close>

function root_entered :: "int list \<Rightarrow> (string \<times> int list) option" where
  "root_entered keys = (case password_entered keys of
       None \<Rightarrow> None
     | Some (None, ks) \<Rightarrow> root_entered ks
     | Some (Some p, ks) \<Rightarrow> Some (p, ks))"
  by pat_completeness auto
termination by (relation "measure length") (auto dest: password_entered_shorter)

text \<open>An everyday account: none for an empty name or Ctrl-C; a name that is not one, or is root's, is
  asked again, and so is the name when the password is given up.\<close>

function everyday_entered :: "int list \<Rightarrow> ((string \<times> string) option \<times> int list) option" where
  "everyday_entered keys = (case next_line USER_NAME_MAX keys of
       None \<Rightarrow> None
     | Some (None, ks) \<Rightarrow> Some (None, ks)
     | Some (Some name, ks) \<Rightarrow>
         if name = [] then Some (None, ks)
         else if \<not> valid_name name \<or> name = ''root'' then everyday_entered ks
         else (case password_entered ks of
             None \<Rightarrow> None
           | Some (None, ks) \<Rightarrow> everyday_entered ks
           | Some (Some p, ks) \<Rightarrow> Some (Some (name, p), ks)))"
  by pat_completeness auto
termination by (relation "measure length") (auto dest!: password_entered_shorter next_line_shorter)

declare root_entered.simps [simp del] everyday_entered.simps [simp del]

definition root_only :: "string \<Rightarrow> user list" where
  "root_only pw = (replicate USER_MAX zero_user)[0 := account ''root'' pw True 0]"

definition enrolled_with :: "string \<Rightarrow> (string \<times> string) option \<Rightarrow> user list" where
  "enrolled_with pw u = (case u of None \<Rightarrow> root_only pw | Some (name, p) \<Rightarrow> (root_only pw)[1 := account name p False 1000])"

text \<open>The table of the accounts, when the keys answer all questions and the last one for Enter, and the keys left over.\<close>

definition accounts_entered :: "int list \<Rightarrow> (user list \<times> int list) option" where
  "accounts_entered keys = do {
     (pw, ks) \<leftarrow> root_entered keys;
     (u, ks) \<leftarrow> everyday_entered ks;
     (_, ks) \<leftarrow> next_line USER_NAME_MAX ks;
     Some (enrolled_with pw u, ks)
   }"

section \<open>The questions on the screen\<close>

lemma edit_no_history: "fst (edit_line hs l False keys (t, j)) = fst (edit_line [] l False keys (t, i))"
proof (induction keys arbitrary: t)
  case (Cons k keys)
  have "edit_step hs l False k (t, j) = (fst (edit_step [] l False k (t, i)), j)" "edit_step [] l False k (t, i) = (fst (edit_step [] l False k (t, i)), i)"
    by (simp_all add: edit_step_def)
  with Cons.IH [of "fst (edit_step [] l False k (t, i))"] show ?case unfolding edit_line_def by (simp only: fold_simps)
qed (simp add: edit_line_def)

lemma keys_printed [simp]: "keystrokes (say s m) = keystrokes m" "keystrokes (colour c m) = keystrokes m" "keystrokes (wipe m) = keystrokes m"
  by (simp_all add: say_def colour_def wipe_def)

lemma read_next:
  assumes n: "neat m" and sz: "0 < sz" "sz \<le> LINE_MAX"
  shows "next_line sz (keystrokes m) = None \<Longrightarrow> read_line sz echo False None m = None"
    "next_line sz (keystrokes m) = Some (r, ks) \<Longrightarrow>
       \<exists>y. read_line sz echo False None m = Some (r \<noteq> None, (case r of None \<Rightarrow> [] | Some t \<Rightarrow> t), y) \<and> moves (=) m y \<and> keystrokes y = ks"
proof -
  have a: "console_ok (con m)" "vga_inv (display m)" using n by (simp_all add: neat_def)
  note e = console_read_line_edits [OF a sz(1), where prompt = None and keys = "keystrokes m" and echo = echo and use_history = False]
  have l: "min sz LINE_MAX = sz" using sz(2) by simp
  show "read_line sz echo False None m = None" if "next_line sz (keystrokes m) = None"
  proof -
    from that have "dropWhile (\<lambda>k. \<not> ends_line k) (keystrokes m) = []" by (simp add: next_line_def split: list.splits)
    with e show ?thesis by (simp add: read_line_def)
  qed
  assume "next_line sz (keystrokes m) = Some (r, ks)"
  then obtain k where k: "dropWhile (\<lambda>k. \<not> ends_line k) (keystrokes m) = k # ks"
    "r = (if k = 10 then Some (fst (edit_line [] (sz - 1) False (takeWhile (\<lambda>k. \<not> ends_line k) (keystrokes m)) ([], 0))) else None)"
    by (auto simp: next_line_def split: list.splits)
  from e k(1) obtain v where
    v: "console_read_line sz echo False None (keystrokes m) (con m) (display m) = Some (k = 10, if k = 10 then
         fst (edit_line (recent (con m)) (sz - 1) False (takeWhile (\<lambda>k. \<not> ends_line k) (keystrokes m)) ([], length (recent (con m)))) else [], v, ks)"
      "vga_inv v" by (auto simp: l)
  have "read_line sz echo False None m = Some (r \<noteq> None, (case r of None \<Rightarrow> [] | Some t \<Rightarrow> t), m\<lparr>display := v, keystrokes := ks\<rparr>)"
    using v(1) k(2) by (simp add: read_line_def edit_no_history [where hs = "recent (con m)" and i = 0])
  moreover have "moves (=) m (m\<lparr>display := v, keystrokes := ks\<rparr>)" by (intro moves_typed moves_refl) (simp_all add: v(2))
  ultimately show "\<exists>y. read_line sz echo False None m = Some (r \<noteq> None, (case r of None \<Rightarrow> [] | Some t \<Rightarrow> t), y) \<and> moves (=) m y \<and> keystrokes y = ks"
    by auto
qed

lemma wizard_sizes: "PASSWORD_MAX = 64" "PASSWORD_MIN = 4" "USER_NAME_MAX = 32" "LINE_MAX = 256"
  by (simp_all add: PASSWORD_MAX_def PASSWORD_MIN_def USER_NAME_MAX_def LINE_MAX_def)

lemma moves_join: "moves (=) m x \<Longrightarrow> moves R x y \<Longrightarrow> moves R m y"
  by (simp add: moves_def)

lemma complain_says:
  assumes "\<exists>s. kprintf fmt args = Some s"
  shows "\<exists>y. complain fmt args m = Some y \<and> moves (=) m y \<and> keystrokes y = keystrokes m"
  using assms by (auto simp: complain_def print_def intro!: mv)

lemma print_says:
  assumes "\<exists>s. kprintf fmt args = Some s"
  shows "\<exists>y. print fmt args m = Some y \<and> moves (=) m y \<and> keystrokes y = keystrokes m"
  using assms by (auto simp: print_def intro!: mv)

lemma password_screen_exact:
  "neat m \<Longrightarrow> (case password_entered (keystrokes m) of
     None \<Rightarrow> password_screen who m = None
   | Some (p, ks) \<Rightarrow> \<exists>y. password_screen who m = Some (p, y) \<and> moves (=) m y \<and> keystrokes y = ks)"
proof (induction "length (keystrokes m)" arbitrary: m rule: less_induct)
  case less
  have f: "\<exists>s. kprintf ''  New password for %s: '' [str who] = Some s"
    "\<exists>s. kprintf (''  Passwords do not match, try again.'' @ [LF]) [] = Some s"
    by (simp_all add: printf_simps str_def)
  have four: "\<exists>s. kprintf (''  Password must be at least %d characters.'' @ [LF]) [VInt (of_nat PASSWORD_MIN)] = Some s"
  proof -
    have "kprintf (''  Password must be at least %d characters.'' @ [LF]) [VInt 4] = Some (''  Password must be at least 4 characters.'' @ [LF])"
      by code_simp
    then show ?thesis by (simp add: wizard_sizes)
  qed
  from print_says [OF f(1)] obtain x where x: "print ''  New password for %s: '' [str who] m = Some x" "moves (=) m x" "keystrokes x = keystrokes m" by blast
  have nx: "neat x" using moves_neat [OF x(2) less.prems] .
  have sz: "0 < PASSWORD_MAX" "PASSWORD_MAX \<le> LINE_MAX" by (simp_all add: wizard_sizes)
  note rd = read_next [OF nx sz, unfolded x(3), where echo = CONSOLE_ECHO_STARS]
  have again: ?case if "moves (=) m z" "length (keystrokes z) < length (keystrokes m)" "password_screen who m = password_screen who z"
      "password_entered (keystrokes m) = password_entered (keystrokes z)" for z
    using less.hyps [OF that(2) moves_neat [OF that(1) less.prems]] that(1,3,4) moves_join by (auto split: option.splits) blast
  show ?case
  proof (cases "next_line PASSWORD_MAX (keystrokes m)")
    case None
    with rd(1) x(1) show ?thesis by (simp add: password_entered.simps [of "keystrokes m"] password_screen.simps [of who m])
  next
    case (Some a)
    obtain r ks where a: "a = (r, ks)" by (cases a)
    have sh: "length ks < length (keystrokes m)" using next_line_shorter Some a by simp
    from rd(2) Some a obtain y where y: "read_line PASSWORD_MAX CONSOLE_ECHO_STARS False None x = Some (r \<noteq> None, (case r of None \<Rightarrow> [] | Some t \<Rightarrow> t), y)"
      "moves (=) x y" "keystrokes y = ks" by blast
    have my: "moves (=) m y" using moves_join x(2) y(2) by blast
    have ny: "neat y" using moves_neat [OF my less.prems] .
    show ?thesis
    proof (cases r)
      case None
      with Some a x(1) y my show ?thesis by (simp add: password_entered.simps [of "keystrokes m"] password_screen.simps [of who m])
    next
      case (Some p)
      note rp = Some
      show ?thesis
      proof (cases "length p < PASSWORD_MIN")
        case True
        from complain_says [OF four, of y] obtain z where z: "complain (''  Password must be at least %d characters.'' @ [LF]) [VInt (of_nat PASSWORD_MIN)] y = Some z"
          "moves (=) y z" "keystrokes z = keystrokes y" by blast
        show ?thesis
        proof (rule again)
          show "moves (=) m z" using moves_join my z(2) by blast
          show "length (keystrokes z) < length (keystrokes m)" using sh z(3) y(3) by simp
          show "password_screen who m = password_screen who z"
            using x(1) y(1) z(1) rp True by (simp add: password_screen.simps [of who m])
          show "password_entered (keystrokes m) = password_entered (keystrokes z)"
            using \<open>next_line PASSWORD_MAX (keystrokes m) = Some a\<close> a rp True z(3) y(3) by (simp add: password_entered.simps [of "keystrokes m"])
        qed
      next
        case False
        let ?y = "say ''  Repeat password:      '' y"
        have my2: "moves (=) m ?y" using my by (rule moves_say)
        have ny2: "neat ?y" using moves_neat [OF my2 less.prems] .
        have ky: "keystrokes ?y = ks" using y(3) by simp
        note rd2 = read_next [OF ny2 sz, unfolded ky, where echo = CONSOLE_ECHO_STARS]
        have e: "password_entered (keystrokes m) = (case next_line PASSWORD_MAX ks of None \<Rightarrow> None | Some (None, ks) \<Rightarrow> Some (None, ks)
           | Some (Some q, ks) \<Rightarrow> if p = q then Some (Some p, ks) else password_entered ks)"
          using \<open>next_line PASSWORD_MAX (keystrokes m) = Some a\<close> a rp False by (simp add: password_entered.simps [of "keystrokes m"])
        have s: "password_screen who m = do {
            (ok, again, m) \<leftarrow> read_line PASSWORD_MAX CONSOLE_ECHO_STARS False None ?y;
            if \<not> ok then Some (None, m)
            else if p \<noteq> again
            then do { m \<leftarrow> complain (''  Passwords do not match, try again.'' @ [LF]) [] m; password_screen who m }
            else Some (Some p, m) }"
          using x(1) y(1) rp False by (simp add: password_screen.simps [of who m])
        show ?thesis
        proof (cases "next_line PASSWORD_MAX ks")
          case None
          with rd2(1) show ?thesis unfolding e s by simp
        next
          case (Some b)
          obtain r2 ks2 where b: "b = (r2, ks2)" by (cases b)
          have sh2: "length ks2 < length (keystrokes m)" using next_line_shorter [of PASSWORD_MAX ks] Some b sh by fastforce
          from rd2(2) Some b obtain w where w: "read_line PASSWORD_MAX CONSOLE_ECHO_STARS False None ?y = Some (r2 \<noteq> None, (case r2 of None \<Rightarrow> [] | Some t \<Rightarrow> t), w)"
            "moves (=) ?y w" "keystrokes w = ks2" by blast
          have mw: "moves (=) m w" using moves_join my2 w(2) by blast
          show ?thesis
          proof (cases "r2 = None \<or> r2 = Some p")
            case True
            with mw w Some b show ?thesis unfolding e s by auto
          next
            case False
            then obtain q where q: "r2 = Some q" "q \<noteq> p" by auto
            from complain_says [OF f(2), of w] obtain z where z: "complain (''  Passwords do not match, try again.'' @ [LF]) [] w = Some z"
              "moves (=) w z" "keystrokes z = keystrokes w" by blast
            show ?thesis
            proof (rule again)
              show "moves (=) m z" using moves_join mw z(2) by blast
              show "length (keystrokes z) < length (keystrokes m)" using sh2 z(3) w(3) by simp
              show "password_screen who m = password_screen who z" unfolding s using w(1) q z(1) by simp
              show "password_entered (keystrokes m) = password_entered (keystrokes z)" unfolding e using Some b q z(3) w(3) by simp
            qed
          qed
        qed
      qed
    qed
  qed
qed

lemma root_screen_exact:
  "neat m \<Longrightarrow> (case root_entered (keystrokes m) of
     None \<Rightarrow> root_screen m = None
   | Some (p, ks) \<Rightarrow> \<exists>y. root_screen m = Some (p, y) \<and> moves (=) m y \<and> keystrokes y = ks)"
proof (induction "length (keystrokes m)" arbitrary: m rule: less_induct)
  case less
  note p = password_screen_exact [OF less.prems, of "''root''"]
  show ?case
  proof (cases "password_entered (keystrokes m)")
    case None
    with p show ?thesis by (simp add: root_entered.simps [of "keystrokes m"] root_screen.simps [of m])
  next
    case (Some a)
    obtain r ks where a: "a = (r, ks)" by (cases a)
    from p Some a obtain y where y: "password_screen ''root'' m = Some (r, y)" "moves (=) m y" "keystrokes y = ks" by auto
    show ?thesis
    proof (cases r)
      case None
      have "length (keystrokes y) < length (keystrokes m)" using password_entered_shorter Some a y(3) by simp
      from less.hyps [OF this moves_neat [OF y(2) less.prems]] None Some a y moves_join [OF y(2)] show ?thesis
        by (simp add: root_entered.simps [of "keystrokes m"] root_screen.simps [of m] split: option.splits) blast
    next
      case (Some p)
      with \<open>password_entered (keystrokes m) = Some a\<close> a y show ?thesis
        by (simp add: root_entered.simps [of "keystrokes m"] root_screen.simps [of m])
    qed
  qed
qed

end
