(* ===== verification/Boot_Spec.thy ===== *)
theory Boot_Spec
  imports Boot_Wizard
begin

text \<open>
  The first boot: the wizard that creates the accounts, the first save and the session task.
\<close>

section \<open>The wizard\<close>

lemma ends_complain [wp]: "(\<And>s. Q (colour VGA_LIGHT_GREY (say s (colour VGA_LIGHT_RED m)))) \<Longrightarrow> ends (complain fmt args m) Q"
  by (auto simp: complain_def print_def ends_def bind_eq_Some_conv)

definition long_enough :: "string option \<Rightarrow> bool" where
  "long_enough p \<longleftrightarrow> (\<forall>q. p = Some q \<longrightarrow> PASSWORD_MIN \<le> length q)"

lemma password_moves: "password_screen who m = Some r \<Longrightarrow> long_enough (fst r) \<and> moves (=) m (snd r)"
proof (erule password_screen.raw_induct [rotated], goal_cases)
  case (1 f who m r)
  have "ends (f who x) (\<lambda>r. long_enough (fst r) \<and> moves (=) x (snd r))" for x using 1(1) by (simp add: ends_def)
  note again = ends_mono [OF this]
  show ?case
    by (rule ends_use [OF 1(2), where Q = "\<lambda>r. long_enough (fst r) \<and> moves (=) m (snd r)"])
      (intro wp again, auto simp: long_enough_def PASSWORD_MAX_def not_less elim!: moves_join [rotated] intro!: mv)
qed

lemma ends_password [wp]: "(\<And>p x. long_enough p \<Longrightarrow> moves (=) m x \<Longrightarrow> Q (p, x)) \<Longrightarrow> ends (password_screen who m) Q"
  using password_moves [of who m] by (force simp: ends_def)

lemma root_moves: "root_screen m = Some r \<Longrightarrow> PASSWORD_MIN \<le> length (fst r) \<and> moves (=) m (snd r)"
proof (erule root_screen.raw_induct [rotated], goal_cases)
  case (1 f m r)
  have "ends (f x) (\<lambda>r. PASSWORD_MIN \<le> length (fst r) \<and> moves (=) x (snd r))" for x using 1(1) by (simp add: ends_def)
  note again = ends_mono [OF this]
  show ?case
    by (rule ends_use [OF 1(2), where Q = "\<lambda>r. PASSWORD_MIN \<le> length (fst r) \<and> moves (=) m (snd r)"])
      (intro wp again, auto simp: long_enough_def elim: moves_join)
qed

lemma ends_root_screen [wp]: "(\<And>p x. PASSWORD_MIN \<le> length p \<Longrightarrow> moves (=) m x \<Longrightarrow> Q (p, x)) \<Longrightarrow> ends (root_screen m) Q"
  using root_moves [of m] by (force simp: ends_def)

text \<open>The accounts of the first boot: the administrator, and at most one more.\<close>

definition enrolled :: "user list \<Rightarrow> bool" where
  "enrolled us \<longleftrightarrow> (\<exists>pw. PASSWORD_MIN \<le> length pw \<and> (us = root_only pw \<or>
     (\<exists>name p. valid_name name \<and> name \<noteq> ''root'' \<and> PASSWORD_MIN \<le> length p \<and> us = (root_only pw)[1 := account name p False 1000])))"

text \<open>Between the steps of the wizard: \<open>s\<close> is the system the wizard began with.\<close>

definition staged :: "'d ports \<Rightarrow> ('d \<Rightarrow> ata_view) \<Rightarrow> ('d \<Rightarrow> nat) \<Rightarrow> 'd persist \<Rightarrow> 'd persist \<Rightarrow> bool" where
  "staged P view busy s t \<longleftrightarrow> (\<exists>A. persist_ok P view busy A t) \<and> sealed t = sealed s \<and> disk t = disk s \<and> p_state t = p_state s"

definition founded :: "'d ports \<Rightarrow> ('d \<Rightarrow> ata_view) \<Rightarrow> ('d \<Rightarrow> nat) \<Rightarrow> 'd persist \<Rightarrow> 'd persist \<Rightarrow> bool" where
  "founded P view busy s t \<longleftrightarrow> staged P view busy s t \<and> next_uid t = 1000 \<and> (\<exists>pw. PASSWORD_MIN \<le> length pw \<and> users t = root_only pw)"

definition peopled :: "'d ports \<Rightarrow> ('d \<Rightarrow> ata_view) \<Rightarrow> ('d \<Rightarrow> nat) \<Rightarrow> 'd persist \<Rightarrow> 'd persist \<Rightarrow> bool" where
  "peopled P view busy s t \<longleftrightarrow> staged P view busy s t \<and> enrolled (users t)"

lemma founded_peopled: "founded P view busy s t \<Longrightarrow> peopled P view busy s t"
  by (auto simp: founded_def peopled_def enrolled_def)

lemma add_staged:
  assumes s: "staged P view busy s0 s" and fits: "r = NUL \<or> length name < FS_NAME_MAX - 1" and v: "valid_name name"
    and n: "users_find name s = None" "PASSWORD_MIN \<le> length pw" "free_slot (users s) = Some i"
  shows "\<exists>t. users_add r d name (Some pw) admin s = Some (0, t) \<and> staged P view busy s0 t \<and>
    users t = (users s)[i := account name pw admin (if admin then 0 else next_uid s)] \<and> next_uid t = (if admin then next_uid s else next_uid s + 1)"
proof -
  obtain A where A: "persist_ok P view busy A s" using s by (auto simp: staged_def)
  then have f: "files_ok A s" and u: "users_ok s" by (simp_all add: persist_ok_def)
  from users_add_full [OF f u fits, of d pw admin] v n obtain t us m where
    t: "users_add r d name (Some pw) admin s = Some (0, t)" "files_ok A t" "users_ok t"
      "users t = (users s)[i := account name pw admin (if admin then 0 else next_uid s)]" "next_uid t = (if admin then next_uid s else next_uid s + 1)"
      "fs_frame (s\<lparr>users := us, next_uid := m\<rparr>) t"
    by (auto simp: not_less [symmetric])
  note k = kept_layer_of(1) [OF t(6)]
  have "NUL \<notin> set (u_home (account name pw admin (if admin then 0 else next_uid s)))" using valid_name_ok(2) [OF v] by (auto simp: account_def)
  then have "\<forall>u\<in>set (users t). u_active u \<longrightarrow> NUL \<notin> set (u_home u)"
    using A t(4) by (auto simp: persist_ok_def dest!: set_update_subset_insert [THEN subsetD])
  from persist_step [OF A t(2,3) this] k have "persist_ok P view busy A t" by blast
  with t k s show ?thesis by (auto simp: staged_def)
qed

lemma root_founded:
  assumes "staged P view busy s0 s" "users s = replicate USER_MAX zero_user" "next_uid s = 1000" "PASSWORD_MIN \<le> length pw"
  shows "\<exists>t. users_add r d ''root'' (Some pw) True s = Some (0, t) \<and> founded P view busy s0 t \<and> users t = root_only pw"
proof -
  have v: "valid_name ''root''" by code_simp
  have n: "users_find ''root'' s = None" "free_slot (users s) = Some 0"
    by (simp_all add: assms(2) users_find_def free_slot_def zero_user_def USER_MAX_def find_None_iff upt_rec)
  from add_staged [OF assms(1) _ v n(1) assms(4) n(2), of r d True] show ?thesis
    using assms by (auto simp: founded_def root_only_def FS_NAME_MAX_def)
qed

lemma everyday_peopled:
  assumes f: "founded P view busy s0 s" and n: "valid_name name" "users_find name s = None" "PASSWORD_MIN \<le> length pw"
  shows "\<exists>t. users_add NUL d name (Some pw) False s = Some (0, t) \<and> peopled P view busy s0 t \<and>
    users t = (users s)[1 := account name pw False 1000]"
proof -
  from f obtain q where q: "PASSWORD_MIN \<le> length q" "users s = root_only q" "next_uid s = 1000" "staged P view busy s0 s" by (auto simp: founded_def)
  have free: "free_slot (users s) = Some 1"
    by (simp add: q(2) root_only_def free_slot_def zero_user_def account_def USER_MAX_def upt_rec)
  have "name \<noteq> ''root''"
    using n(2) by (auto simp: users_find_def q(2) root_only_def account_def USER_MAX_def upt_rec find_None_iff)
  with add_staged [OF q(4) _ n free, of NUL d False] q n show ?thesis by (auto simp: peopled_def enrolled_def)
qed

lemma everyday_moves:
  "everyday_screen r m = Some x \<Longrightarrow> r = NUL \<longrightarrow> moves (\<lambda>s t. founded P view busy s0 s \<longrightarrow> peopled P view busy s0 t) m x"
proof (erule everyday_screen.raw_induct [rotated], goal_cases)
  case (1 f r m x)
  let ?R = "\<lambda>s t. founded P view busy s0 s \<longrightarrow> peopled P view busy s0 t"
  have "ends (f r y) (\<lambda>x. r = NUL \<longrightarrow> moves ?R y x)" for y using 1(1) by (simp add: ends_def)
  note again = ends_mono [OF this]
  have idle: "moves (=) m y \<Longrightarrow> moves ?R m y" for y by (erule moves_mono) (metis founded_peopled)
  have add: "moves ?R m (m'\<lparr>sys := t\<rparr>)" if "moves (=) m m'" "users_add NUL d name (Some p) False (sys m') = Some (rc, t)" "valid_name name"
      "users_find name (sys m) = None" "PASSWORD_MIN \<le> length p" for m' t d name p rc
    using that(1) by (rule moves_sys) (use everyday_peopled [OF _ that(3-5), of P view busy s0 d] that(2) moves_on [OF that(1)] in fastforce)
  have join: "moves ?R y z \<Longrightarrow> moves (=) m y \<Longrightarrow> moves ?R m z" for y z by (rule moves_join)
  note print_moves = moves_say moves_colour moves_typed [where R = "(=)"] moves_refl [where R = "(=)"]
  show ?case
    by (rule ends_use [OF 1(2), where Q = "\<lambda>x. r = NUL \<longrightarrow> moves ?R m x"])
      (intro wp again, auto simp: long_enough_def USER_NAME_MAX_def elim!: join moves_after intro!: print_moves add intro: idle)
qed


text \<open>With the administrator alone in the table, the only name taken is his.\<close>

lemma root_only_find: "users s = root_only q \<Longrightarrow> users_find name s = None \<longleftrightarrow> name \<noteq> ''root''"
  by (auto simp: users_find_def root_only_def account_def zero_user_def USER_MAX_def upt_rec find_None_iff)

lemma everyday_screen_exact:
  "neat m \<Longrightarrow> founded P view busy s0 (sys m) \<Longrightarrow> users (sys m) = root_only q \<Longrightarrow> (case everyday_entered (keystrokes m) of
     None \<Rightarrow> everyday_screen NUL m = None
   | Some (u, ks) \<Rightarrow> \<exists>y. everyday_screen NUL m = Some y \<and> keystrokes y = ks \<and> users (sys y) = enrolled_with q u)"
proof (induction "length (keystrokes m)" arbitrary: m rule: less_induct)
  case less
  note n = less.prems(1) and f = less.prems(2,3)
  let ?m = "say ''  Username: '' m"
  have mm: "moves (=) m ?m" by (intro mv) simp
  have sz: "0 < USER_NAME_MAX" "USER_NAME_MAX \<le> LINE_MAX" by (simp_all add: wizard_sizes)
  note rd = read_next [OF moves_neat [OF mm n] sz, unfolded keys_printed, where echo = CONSOLE_ECHO_PLAIN]
  have again: ?case if "moves (=) m z" "length (keystrokes z) < length (keystrokes m)" "everyday_screen NUL m = everyday_screen NUL z"
      "everyday_entered (keystrokes m) = everyday_entered (keystrokes z)" for z
    unfolding that(3,4) by (rule less.hyps [OF that(2) moves_neat [OF that(1) n]]) (use f moves_sys_eq [OF that(1)] in simp_all)
  have c: "\<exists>s. kprintf (''  Use letters, digits, '' @ [CHR 0x27] @ ''-'' @ [CHR 0x27] @ '' and '' @ [CHR 0x27] @ ''_'' @ [CHR 0x27] @
              '', starting with a letter.'' @ [LF]) [] = Some s" "\<exists>s. kprintf (''  That name is taken.'' @ [LF]) [] = Some s"
    by (simp_all add: printf_simps)
  have made: "\<exists>s. kprintf ([LF] @ ''  %s created, home directory /home/%s'' @ [LF]) [str name, str name] = Some s" for name
    by (simp add: printf_simps str_def)
  show ?case
  proof (cases "next_line USER_NAME_MAX (keystrokes m)")
    case None
    with rd(1) show ?thesis by (simp add: everyday_entered.simps [of "keystrokes m"] everyday_screen.simps [of NUL m])
  next
    case (Some a)
    note line = Some
    obtain r ks where a: "a = (r, ks)" by (cases a)
    have sh: "length ks < length (keystrokes m)" using next_line_shorter line a by simp
    from rd(2) line a obtain y where y: "read_line USER_NAME_MAX CONSOLE_ECHO_PLAIN False None ?m = Some (r \<noteq> None, (case r of None \<Rightarrow> [] | Some t \<Rightarrow> t), y)"
      "moves (=) ?m y" "keystrokes y = ks" by blast
    have my: "moves (=) m y" using moves_join mm y(2) by blast
    have sy: "sys y = sys m" by (rule moves_sys_eq [OF my])
    note unf = everyday_entered.simps [of "keystrokes m"] everyday_screen.simps [of NUL m]
    consider "r = None \<or> r = Some []" | name where "r = Some name" "name \<noteq> []" "\<not> valid_name name"
      | "r = Some ''root''" | name where "r = Some name" "name \<noteq> []" "valid_name name" "name \<noteq> ''root''" by (cases r) auto
    then show ?thesis
    proof cases
      case 1
      with line a y sy f show ?thesis by (auto simp: unf enrolled_with_def)
    next
      case 2
      from complain_says [OF c(1), of y] obtain z where z: "complain (''  Use letters, digits, '' @ [CHR 0x27] @ ''-'' @ [CHR 0x27] @ '' and '' @ [CHR 0x27] @ ''_'' @ [CHR 0x27] @
              '', starting with a letter.'' @ [LF]) [] y = Some z" "moves (=) y z" "keystrokes z = keystrokes y" by blast
      show ?thesis
        by (rule again [of z]) (use 2 line a y(1,3) z sh moves_join [OF my] in \<open>simp_all add: unf\<close>)
    next
      case 3
      from complain_says [OF c(2), of y] obtain z where z: "complain (''  That name is taken.'' @ [LF]) [] y = Some z"
        "moves (=) y z" "keystrokes z = keystrokes y" by blast
      have v: "valid_name ''root''" by code_simp
      have t: "users_find ''root'' (sys y) \<noteq> None" using root_only_find [OF f(2)] sy by simp
      show ?thesis
        by (rule again [of z]) (use 3 line a y(1,3) z sh moves_join [OF my] v t in \<open>simp_all add: unf\<close>)
    next
      case 4
      have free: "users_find name (sys y) = None" using root_only_find [OF f(2)] sy 4(4) by simp
      note p = password_screen_exact [OF moves_neat [OF my n], of name]
      have e: "everyday_entered (keystrokes m) = (case password_entered (keystrokes y) of None \<Rightarrow> None
          | Some (None, ks) \<Rightarrow> everyday_entered ks | Some (Some p, ks) \<Rightarrow> Some (Some (name, p), ks))"
        using 4 line a y(3) by (simp add: unf(1))
      have s: "everyday_screen NUL m = do {
          (password, m) \<leftarrow> password_screen name y;
          (case password of
             None \<Rightarrow> everyday_screen NUL m
           | Some p \<Rightarrow> do {
               (rc, m) \<leftarrow> on_sys (users_add NUL (persist_available (sys m)) name (Some p) False) m;
               if rc = 0
               then do {
                 m \<leftarrow> print ([LF] @ ''  %s created, home directory /home/%s'' @ [LF]) [str name, str name] (colour VGA_LIGHT_GREEN m);
                 Some (colour VGA_LIGHT_GREY m)
               }
               else Some m
             }) }"
        using 4 y(1) free by (simp add: unf(2))
      show ?thesis
      proof (cases "password_entered (keystrokes y)")
        case None
        with p show ?thesis unfolding e s by simp
      next
        case (Some b)
        obtain pw ks2 where b: "b = (pw, ks2)" by (cases b)
        from p Some b obtain x where x: "password_screen name y = Some (pw, x)" "moves (=) y x" "keystrokes x = ks2" by auto
        have mx: "moves (=) m x" using moves_join my x(2) by blast
        show ?thesis
        proof (cases pw)
          case None
          have "length ks2 < length (keystrokes m)" using password_entered_shorter [of "keystrokes y"] Some b y(3) sh by fastforce
          with None Some b x show ?thesis by (intro again [of x] mx) (simp_all add: e s)
        next
          case (Some w)
          have long: "PASSWORD_MIN \<le> length w" using password_moves [OF x(1)] Some by (simp add: long_enough_def)
          from everyday_peopled [OF f(1) 4(3) _ long, of "persist_available (sys x)"] free sy obtain t where
            t: "users_add NUL (persist_available (sys x)) name (Some w) False (sys m) = Some (0, t)" "users t = (users (sys m))[1 := account name w False 1000]" by auto
          have sx: "sys x = sys m" by (rule moves_sys_eq [OF mx])
          from print_says [OF made, of name "colour VGA_LIGHT_GREEN (x\<lparr>sys := t\<rparr>)"] obtain z where
            z: "print ([LF] @ ''  %s created, home directory /home/%s'' @ [LF]) [str name, str name] (colour VGA_LIGHT_GREEN (x\<lparr>sys := t\<rparr>)) = Some z"
              "moves (=) (colour VGA_LIGHT_GREEN (x\<lparr>sys := t\<rparr>)) z" "keystrokes z = keystrokes x" by auto
          have "everyday_screen NUL m = Some (colour VGA_LIGHT_GREY z)"
            unfolding s using x(1) Some t(1) sx z(1) by (simp add: on_sys_def)
          moreover have "sys z = t" using moves_sys_eq [OF z(2)] by simp
          ultimately show ?thesis
            using \<open>password_entered (keystrokes y) = Some b\<close> b Some x(3) z(3) t(2) f(2) by (simp add: e enrolled_with_def)
        qed
      qed
    qed
  qed
qed

lemma ends_everyday:
  "(\<And>x. moves (\<lambda>s t. founded P view busy s0 s \<longrightarrow> peopled P view busy s0 t) m x \<Longrightarrow> Q x) \<Longrightarrow> ends (everyday_screen NUL m) Q"
  using everyday_moves [of NUL m _ P view busy s0] by (force simp: ends_def)

lemma setup_ends:
  assumes p: "pristine P view busy media (sys m)"
  shows "ends (setup_screen NUL m) (moves (\<lambda>s t. peopled P view busy s t) m)"
proof -
  let ?s = "sys m"
  have st: "staged P view busy ?s ?s" "users ?s = replicate USER_MAX zero_user" "next_uid ?s = 1000" using p by (auto simp: staged_def pristine_def)
  have root: "moves (founded P view busy) m (x\<lparr>sys := t\<rparr>)"
    if "moves (=) m x" "users_add NUL d ''root'' (Some pw) True (sys x) = Some (rc, t)" "PASSWORD_MIN \<le> length pw" for x t d pw rc
    using that(1) by (rule moves_sys) (use root_founded [OF st that(3), of NUL d] that(2) moves_on [OF that(1)] in fastforce)
  have last: "moves (peopled P view busy) m y" if "moves (founded P view busy) m x"
      "moves (\<lambda>s t. founded P view busy ?s s \<longrightarrow> peopled P view busy ?s t) x y" for x y
    using that by (simp add: moves_def)
  note steps = moves_say moves_colour moves_wipe moves_typed
  show ?thesis unfolding setup_screen_def
    by (intro wp ends_everyday [of P view busy ?s])
      (auto simp: USER_NAME_MAX_def elim!: last [rotated] moves_after intro!: steps root moves_refl [where R = "(=)"])
qed

lemma setup_screen_exact:
  assumes n: "neat m" and p: "pristine P view busy media (sys m)"
  shows "case accounts_entered (keystrokes m) of
      None \<Rightarrow> setup_screen NUL m = None
    | Some (us, ks) \<Rightarrow> \<exists>y. setup_screen NUL m = Some y \<and> keystrokes y = ks \<and> users (sys y) = us"
proof -
  have "\<exists>s. kprintf (''  %s %s first boot setup'' @ [LF]) [str LOS_NAME, str LOS_RELEASE] = Some s" by (simp add: printf_simps str_def)
  then obtain s where s: "kprintf (''  %s %s first boot setup'' @ [LF]) [str LOS_NAME, str LOS_RELEASE] = Some s" by blast
  define a where "a = say (''  Step 1 of 2: the administrator account (root).'' @ [LF, LF]) (colour VGA_LIGHT_GREY
     (say (if persist_available (sys m)
           then ''  Accounts are written to the data disk and kept across reboots.'' @ [LF, LF]
           else ''  No data disk: accounts live in RAM and this runs every boot.'' @ [LF, LF])
       (say (''  ------------------------------------------------------------'' @ [LF]) (colour VGA_DARK_GREY
         (say s (colour VGA_LIGHT_CYAN (wipe m)))))))"
  define after where "after b t = say (''  Step 2 of 2: an everyday account. Leave the name empty to skip.'' @ [LF, LF])
    (colour VGA_LIGHT_GREY (say ([LF] @ ''  root created.'' @ [LF, LF]) (colour VGA_LIGHT_GREEN (b\<lparr>sys := t\<rparr>))))"
    for b :: "'a machine" and t
  have ma: "moves (=) m a" unfolding a_def by (intro mv) simp
  have ka: "keystrokes a = keystrokes m" by (simp add: a_def)
  have run: "setup_screen NUL m = do {
      (password, b) \<leftarrow> root_screen a;
      (rc, t) \<leftarrow> users_add NUL (persist_available (sys b)) ''root'' (Some password) True (sys b);
      x \<leftarrow> everyday_screen NUL (after b t);
      (ok, line, y) \<leftarrow> read_line USER_NAME_MAX CONSOLE_ECHO_HIDDEN False None
        (say ([LF] @ ''  Setup complete. Press Enter to reach the login prompt.'' @ [LF]) x);
      Some y }"
    unfolding setup_screen_def print_def s bind.bind_lunit Let_def sys_printed a_def [symmetric]
    by (simp add: on_sys_def after_def split_beta split: Option.bind_splits)
  note r = root_screen_exact [OF moves_neat [OF ma n], unfolded ka]
  show ?thesis
  proof (cases "root_entered (keystrokes m)")
    case None
    with r run show ?thesis by (simp add: accounts_entered_def)
  next
    case (Some q)
    obtain pw ks where q: "q = (pw, ks)" by (cases q)
    from r Some q obtain b where b: "root_screen a = Some (pw, b)" "moves (=) a b" "keystrokes b = ks" by auto
    have mb: "moves (=) m b" using moves_join ma b(2) by blast
    have sb: "sys b = sys m" by (rule moves_sys_eq [OF mb])
    have long: "PASSWORD_MIN \<le> length pw" using root_moves [OF b(1)] by simp
    have "staged P view busy (sys m) (sys m)" "users (sys m) = replicate USER_MAX zero_user" "next_uid (sys m) = 1000"
      using p by (auto simp: staged_def pristine_def)
    from root_founded [OF this long, of NUL "persist_available (sys m)"] obtain t where
      t: "users_add NUL (persist_available (sys m)) ''root'' (Some pw) True (sys m) = Some (0, t)" "founded P view busy (sys m) t" "users t = root_only pw" by blast
    let ?c = "after b t"
    have c: "neat ?c" "sys ?c = t" "keystrokes ?c = ks"
    proof -
      have "moves (\<lambda>_ _. True) m (b\<lparr>sys := t\<rparr>)" using moves_mono [OF mb] by (intro moves_sys [OF mb]) simp
      then have "moves (\<lambda>_ _. True) m ?c" unfolding after_def by (intro moves_say moves_colour)
      then show "neat ?c" by (rule moves_neat [OF _ n])
      show "sys ?c = t" "keystrokes ?c = ks" using b(3) by (simp_all add: after_def)
    qed
    have fc: "founded P view busy (sys m) (sys ?c)" "users (sys ?c) = root_only pw" using c(2) t(2,3) by simp_all
    note e = everyday_screen_exact [OF c(1) fc, unfolded c(3)]
    have run2: "setup_screen NUL m = do {
        x \<leftarrow> everyday_screen NUL ?c;
        (ok, line, y) \<leftarrow> read_line USER_NAME_MAX CONSOLE_ECHO_HIDDEN False None
          (say ([LF] @ ''  Setup complete. Press Enter to reach the login prompt.'' @ [LF]) x);
        Some y }" unfolding run using b(1) sb t(1) by simp
    show ?thesis
    proof (cases "everyday_entered ks")
      case None
      with e run2 Some q show ?thesis by (simp add: accounts_entered_def)
    next
      case (Some v)
      note everyday = Some
      obtain u ks2 where v: "v = (u, ks2)" by (cases v)
      from e Some v obtain x where x: "everyday_screen NUL ?c = Some x" "keystrokes x = ks2" "users (sys x) = enrolled_with pw u" by auto
      let ?x = "say ([LF] @ ''  Setup complete. Press Enter to reach the login prompt.'' @ [LF]) x"
      have "moves (\<lambda>s t. founded P view busy (sys m) s \<longrightarrow> peopled P view busy (sys m) t) ?c x" using everyday_moves [OF x(1)] by simp
      from moves_neat [OF moves_say [OF this] c(1)] have nx: "neat ?x" .
      have sz: "0 < USER_NAME_MAX" "USER_NAME_MAX \<le> LINE_MAX" by (simp_all add: wizard_sizes)
      note rd = read_next [OF nx sz, unfolded keys_printed x(2), where echo = CONSOLE_ECHO_HIDDEN]
      show ?thesis
      proof (cases "next_line USER_NAME_MAX ks2")
        case None
        with rd(1) run2 x(1) everyday v \<open>root_entered (keystrokes m) = Some q\<close> q show ?thesis by (simp add: accounts_entered_def)
      next
        case (Some z)
        obtain l ks3 where z: "z = (l, ks3)" by (cases z)
        from rd(2) Some z obtain y where y: "read_line USER_NAME_MAX CONSOLE_ECHO_HIDDEN False None ?x = Some (l \<noteq> None, (case l of None \<Rightarrow> [] | Some t \<Rightarrow> t), y)"
          "moves (=) ?x y" "keystrokes y = ks3" by blast
        have "sys y = sys x" using moves_sys_eq [OF y(2)] by simp
        with Some z y(1,3) run2 x(1,3) everyday v \<open>root_entered (keystrokes m) = Some q\<close> q show ?thesis by (simp add: accounts_entered_def)
      qed
    qed
  qed
qed

section \<open>The session task\<close>

definition session_ready :: "around \<Rightarrow> 'd machine \<Rightarrow> bool" where
  "session_ready G m \<longleftrightarrow> (\<exists>R. task_inv (sys m) (sch m) R) \<and>
     (\<exists>i<16. tk_state (tasks (sch m) ! i) = TASK_READY \<and> tk_name (tasks (sch m) ! i) = ''session'' \<and>
        tk_entry (tasks (sch m) ! i) = session_at G)"

lemma panic_runs: "\<exists>m'. panic what m = Some (Off m')"
proof -
  have "\<exists>s. kprintf ([LF] @ ''  *** KERNEL PANIC ***'' @ [LF, LF] @ ''  %s'' @ [LF]) [str what] = Some s"
    by (simp add: printf_simps str_def)
  then show ?thesis by (auto simp: panic_def banner_def print_def)
qed

lemma start_session_runs:
  assumes A: "persist_ok P view busy A (sys m)"
  shows "\<exists>r. start_session G m = Some r \<and>
    (case r of Off _ \<Rightarrow> kmalloc TASK_STACK_SIZE (sys m) = Some (NULL, sys m)
     | Back m' \<Rightarrow> (\<exists>s t. m' = m\<lparr>sys := s, sch := t\<rparr>) \<and> mem_frame (sys m) (sys m') \<and> (\<exists>B. persist_ok P view busy B (sys m')) \<and> session_ready G m')"
proof -
  from A obtain L where "mem_holds (sys m) L" by (auto simp: persist_ok_def files_ok_def dest: fs_inv_mem)
  then have inv: "task_inv (sys m) (task_init (sch m)) L" by (rule task_init_ok)
  have free: "tk_state (tasks (task_init (sch m)) ! 1) = TASK_UNUSED" by (simp add: task_init_def TASK_MAX_def zero_task_def nth_list_update)
  from task_spawn_ok [OF inv, of "bootstrap_at G" "''session''" "session_at G" 0] obtain r s t where
    sp: "task_spawn (bootstrap_at G) ''session'' (session_at G) 0 (sys m) (task_init (sch m)) = Some (r, s, t)"
    "case r of None \<Rightarrow> s = sys m \<and> t = task_init (sch m) \<and>
         ((\<forall>i<16. tk_state (tasks (task_init (sch m)) ! i) \<noteq> TASK_UNUSED) \<or> kmalloc TASK_STACK_SIZE (sys m) = Some (0, sys m))
     | Some i \<Rightarrow> i < 16 \<and> (\<exists>stack k. task_inv s t (L(stack \<mapsto> k)) \<and> tk_state (tasks t ! i) = TASK_READY \<and>
         tk_name (tasks t ! i) = take 23 ''session'' \<and> tk_entry (tasks t ! i) = session_at G)"
    by (fastforce split: option.splits)
  from spawn_persist [OF A, of "bootstrap_at G" "''session''" "session_at G" 0 "task_init (sch m)"] sp(1)
  have p: "\<exists>B. persist_ok P view busy B s" "mem_frame (sys m) s" by (simp_all add: ends_def)
  show ?thesis
  proof (cases r)
    case None
    obtain x where "panic ''could not start the session task'' (m\<lparr>sys := s, sch := t\<rparr>) = Some (Off x)" using panic_runs by blast
    moreover have "kmalloc TASK_STACK_SIZE (sys m) = Some (NULL, sys m)" using sp(2) None free by (force simp: less_Suc_eq)
    ultimately show ?thesis using sp(1) None by (simp add: start_session_def)
  next
    case (Some i)
    with sp(2) have "session_ready G (m\<lparr>sys := s, sch := t\<rparr>)" by (auto simp: session_ready_def)
    with sp(1) Some p show ?thesis by (simp add: start_session_def) blast
  qed
qed

section \<open>The whole boot\<close>

text \<open>
  The machine the wizard and the first save have led to, with the accounts \<open>us\<close> and the keys \<open>ks\<close> still to
  come: \<open>no_save\<close> says that the disks are to be as they were.
\<close>

definition at_login ::
  "'d ports \<Rightarrow> ('d \<Rightarrow> ata_view) \<Rightarrow> ('d \<Rightarrow> nat) \<Rightarrow> around \<Rightarrow> (nat \<Rightarrow> nat \<Rightarrow> u16 list) \<Rightarrow> bool \<Rightarrow> user list \<Rightarrow> int list \<Rightarrow> 'd machine \<Rightarrow> bool" where
  "at_login P view busy G media no_save us ks m \<longleftrightarrow> neat m \<and> (\<exists>A. persist_ok P view busy A (sys m)) \<and> users (sys m) = us \<and> keystrokes m = ks \<and>
     (if no_save then content view (disk (sys m)) = media else on_disk view (sys m)) \<and> session_ready G m"

lemma setup_save:
  assumes p: "peopled P view busy s0 s" and s0: "pristine P view busy media s0"
  shows "\<exists>rc t. persist_save P s = Some (rc, t) \<and> (\<exists>A. persist_ok P view busy A t) \<and> users t = users s \<and>
    (if p_state s0 = PERSIST_NO_DISK \<or> rc \<noteq> 0 then content view (disk t) = media else on_disk view t) \<and> rc \<in> {0, -1, -2, -3}"
proof (cases "p_state s0 = PERSIST_NO_DISK")
  case True
  with p s0 have "persist_save P s = Some (0, s)" by (simp add: persist_save_def peopled_def staged_def pristine_def)
  with p s0 True show ?thesis by (auto simp: peopled_def staged_def pristine_def)
next
  case False
  with p s0 have b: "backed P view busy s" by (auto simp: backed_def peopled_def staged_def pristine_def)
  then obtain A where A: "persist_ok P view busy A s" and l: "\<not> sealed s" "p_state s \<noteq> PERSIST_NO_DISK" by (auto simp: backed_def)
  from persist_save_result [OF A l] obtain rc t where t: "persist_save P s = Some (rc, t)" "same_fs s t" "persist_ok P view busy A t"
    "rc \<noteq> 0 \<longrightarrow> disk t = disk s" by blast
  from save_led [OF b] t(1) have "rc \<in> {0, -1, -2, -3}" "rc = 0 \<longrightarrow> on_disk view t" by (simp_all add: ends_def)
  moreover have "disk s = disk s0" "content view (disk s0) = media" using p s0 by (simp_all add: peopled_def staged_def pristine_def)
  ultimately show ?thesis using t False by (auto simp: same_fs_def)
qed

lemma wait_over: "\<exists>t\<in>set ts. target \<le> t \<Longrightarrow> \<exists>rest. sleep_loop target now' ts = Some rest"
proof (induction ts arbitrary: now')
  case (Cons t ts)
  show ?case
  proof (cases "target \<le> t")
    case True
    then have "\<not> t < target" by (simp add: not_less)
    then have "sleep_loop target t ts = Some ts" by (subst sleep_loop.simps) simp
    then show ?thesis by (subst sleep_loop.simps) simp
  next
    case False
    with Cons show ?thesis by (subst sleep_loop.simps) auto
  qed
qed simp

lemma on_mach_session:
  assumes "\<exists>m'. f (mach k) = Some m' \<and> same_session (mach k) m' \<and> Q m'"
  shows "\<exists>k'. on_mach f k = Some k' \<and> clock k' = clock k \<and> same_session (mach k) (mach k') \<and> Q (mach k')"
  using assms by (auto simp: on_mach_def)

text \<open>Up to the wizard.\<close>

lemma boot_arrives:
  assumes on: "powered_on k" "enough_memory L" and P: "ports_apart P view busy"
    and r: "rebooted P view busy ident media (sys (mach k))" "no_snapshot media"
    and h: "\<exists>t\<in>set (halts L). clock k + 50 \<le> t"
  shows "\<exists>k'. same_session (mach k) (mach k') \<and> pristine P view busy media (sys (mach k')) \<and>
    kmain P L G k = do {
      m \<leftarrow> setup_screen (residue G) (mach k');
      (rc, m) \<leftarrow> on_sys (persist_save P) m;
      r \<leftarrow> start_session G m;
      Some (case r of Off m \<Rightarrow> Off (k'\<lparr>mach := m\<rparr>) | Back m \<Rightarrow> Back (k'\<lparr>mach := m\<rparr>))
    }"
proof -
  have p: "vga_arrays (display (mach k))" "nodes (sys (mach k)) = Map.empty" "bufs (sys (mach k)) = Map.empty"
    "node_count (sys (mach k)) = 0" "\<not> started (sch (mach k))" "\<not> install_booted_from_medium (mach k)" using on(1) by (simp_all add: powered_on_def)
  from boot_screen_runs [OF P p(1)] obtain k1 where 1: "boot_screen P k = Some k1" "along view busy k k1" by blast
  have v1: "vga_inv (display (mach k1))" using 1(2) aside_fields(1) by (auto simp: along_def)
  from boot_tables_runs [OF P v1, of L] obtain k2 where 2: "boot_tables P L k1 = Some k2" "along view busy k1 k2" by blast
  note a2 = along_trans [OF 1(2) 2(2)]
  note f2 = aside_fields [of view busy "mach k" "mach k2"]
  have v2: "vga_inv (display (mach k2))" using a2 f2 by (simp add: along_def)
  have e2: "nodes (sys (mach k2)) = Map.empty" "bufs (sys (mach k2)) = Map.empty" "node_count (sys (mach k2)) = 0"
    using f2(7) a2 p(2-4) by (auto simp: along_def)
  from boot_memory_runs [OF v2 on(2) e2] obtain k3 R where 3: "boot_memory L k2 = Some (Back k3)" "clock k3 = clock k2"
    "same_session (mach k2) (mach k3)" "disk (sys (mach k3)) = disk (sys (mach k2))" "fs_fresh (sys (mach k3)) R"
    "roomy (sys (mach k3))" by blast
  have v3: "vga_inv (display (mach k3))" using 3(3) by (simp add: same_session_def)
  from boot_drivers_runs [OF P v3, of L] obtain k4 where 4: "boot_drivers P L k3 = Some k4" "along view busy k3 k4" by blast
  note f4 = aside_fields [of view busy "mach k3" "mach k4"]
  have s4: "same_session (mach k) (mach k4)"
    using a2 3(3) 4(2) aside_session same_session_trans unfolding along_def by metis
  have v4: "vga_inv (display (mach k4))" "\<not> install_booted_from_medium (mach k4)"
    using s4 p(6) by (simp_all add: same_session_def install_booted_from_medium_def)
  from f4(7) 4(2) obtain d where d: "sys (mach k4) = (sys (mach k3))\<lparr>disk := (disk (sys (mach k3)))\<lparr>hw := d\<rparr>\<rparr>" by (auto simp: along_def)
  have fr: "fs_fresh (sys (mach k4)) R" using 3(5) by (simp add: d fs_fresh_def mem_holds_def heap_rep_def)
  have room: "kcalloc 1 sizeof_fs_node (sys (mach k4)) \<noteq> Some (0, sys (mach k4))"
    using 3(6) by (intro roomy_root) (simp add: d roomy_def heap_rep_def)
  have "same_drives view busy (hw (disk (sys (mach k)))) (hw (disk (sys (mach k4))))"
    using f2(6) f4(6) a2 4(2) 3(4) by (simp add: along_def same_drives_def)
  then have r4: "rebooted P view busy ident media (sys (mach k4))" using r(1) by (simp add: rebooted_def same_drives_def)
  from on_mach_session [where k = k4 and f = "boot_files P G" and Q = "\<lambda>m. pristine P view busy media (sys m)", OF boot_files_runs [OF fr room r4 r(2) v4]] obtain k5 where
    5: "on_mach (boot_files P G) k4 = Some k5" "clock k5 = clock k4" "same_session (mach k4) (mach k5)" "pristine P view busy media (sys (mach k5))" by blast
  have v5: "vga_inv (display (mach k5))" using 5(3) by (simp add: same_session_def)
  from on_mach_session [where k = k5 and f = "step ''Interrupts enabled''" and Q = "\<lambda>m. sys m = sys (mach k5)", OF step_session [OF v5]] obtain k6 where
    6: "on_mach (step ''Interrupts enabled'') k5 = Some k6" "clock k6 = clock k5" "same_session (mach k5) (mach k6)" "sys (mach k6) = sys (mach k5)" by blast
  have s6: "same_session (mach k) (mach k6)" using s4 5(3) 6(3) same_session_trans by blast
  have c6: "clock k6 = clock k" using 6(2) 5(2) 4(2) 3(2) a2 by (simp add: along_def)
  have idle: "\<not> task_running (b_sched (board_of k6))" using s6 p(5) by (simp add: board_of_def task_running_def same_session_def)
  have "clock k + ucast (500 div (1000 div TIMER_HZ) :: u32) = clock k + 50" by (simp add: TIMER_HZ_def)
  moreover from wait_over [OF h] obtain rest where "sleep_loop (clock k + 50) (clock k) (halts L) = Some rest" by blast
  ultimately have 7: "sleep_ms 500 (halts L) (now G) (esp_now G) (board_of k6) = Some (rest, board_of k6)"
    using c6 idle by (simp add: sleep_ms_def board_of_def del: sleep_loop.simps)
  have same: "put_board (board_of k6) k6 = k6" by (simp add: put_board_def board_of_def on_ports_def)
  have medium: "\<not> install_booted_from_medium (mach k6)" using s6 p(6) by (simp add: same_session_def install_booted_from_medium_def)
  have pr: "pristine P view busy media (sys (mach k6))" using 5(4) 6(4) by simp
  then have "users_setup_needed (sys (mach k6))"
    by (simp add: pristine_def users_setup_needed_def users_count_def zero_user_def USER_MAX_def upt_rec)
  moreover have "(case y of (a, x) \<Rightarrow> Some x) \<bind> f = (case y of (a, x) \<Rightarrow> f x)" for y :: "int \<times> 'a machine" and f :: "'a machine \<Rightarrow> 'a kernel outcome option"
    by (cases y) simp
  ultimately have "kmain P L G k = do {
      m \<leftarrow> setup_screen (residue G) (mach k6);
      (rc, m) \<leftarrow> on_sys (persist_save P) m;
      r \<leftarrow> start_session G m;
      Some (case r of Off m \<Rightarrow> Off (k6\<lparr>mach := m\<rparr>) | Back m \<Rightarrow> Back (k6\<lparr>mach := m\<rparr>))
    }"
    by (simp add: kmain_def 1(1) 2(1) 3(1) 4(1) 5(1) 6(1) 7 same medium boot_setup_def)
  with s6 pr show ?thesis by blast
qed

section \<open>A first boot\<close>

definition demo_linkage :: linkage where
  "demo_linkage = \<lparr>gdt_at = 0, idt_at = 0, stubs_at = replicate 48 0, yield_at = 0,
     handlers_at = \<lparr>timer_at = 1, keyboard_at = 2, mouse_at = 3\<rparr>, e820_count = 1,
     e820_map = (\<lambda>_. \<lparr>e_base = 0, e_length = 0x1000000, e_type = 1, e_acpi = 0\<rparr>),
     image_data = ''kernel'', boot_code = [], halts = [50]\<rparr>"

text \<open>The password \<open>toor\<close> twice, the name \<open>eve\<close> with the password \<open>kiwi\<close> twice, the last Enter, and the first
  key of a login.\<close>

definition demo_kernel :: "ata_view kernel" where
  "demo_kernel = \<lparr>mach = \<lparr>sys = demo_machine, sch = no_sched, display = raw_vga, con = fresh_console,
       keystrokes = [116, 111, 111, 114, 10, 116, 111, 111, 114, 10,
         101, 118, 101, 10, 107, 105, 119, 105, 10, 107, 105, 119, 105, 10, 10, 114], rodent = wheel_mouse,
       session_open = False, boot_flag = 0, image_copy = None, image_bytes = 0\<rparr>,
     segments = \<lparr>gdt = [], gdt_limit = 0, gdt_base = 0\<rparr>,
     gates = \<lparr>idt = [], idt_limit = 0, idt_base = 0, irq_handlers = []\<rparr>, clock = 0,
     typing = \<lparr>buffer = replicate 128 0, head = 0, tail = 0, shift_down = False, caps_lock = False, ctrl_down = False, extended = False\<rparr>,
     serial_ready = False\<rparr>"

lemma demo_accounts:
  "accounts_entered [116, 111, 111, 114, 10, 116, 111, 111, 114, 10, 101, 118, 101, 10, 107, 105, 119, 105, 10, 107, 105, 119, 105, 10, 10, 114] =
     Some ((root_only ''toor'')[1 := account ''eve'' ''kiwi'' False 1000], [114])"
proof -
  have n: "next_line PASSWORD_MAX ([116, 111, 111, 114, 10] @ ks) = Some (Some ''toor'', ks)"
    "next_line PASSWORD_MAX ([107, 105, 119, 105, 10] @ ks) = Some (Some ''kiwi'', ks)"
    "next_line USER_NAME_MAX ([101, 118, 101, 10] @ ks) = Some (Some ''eve'', ks)"
    "next_line USER_NAME_MAX ([10] @ ks) = Some (Some [], ks)" for ks
  proof -
    have "fst (edit_line [] (PASSWORD_MAX - 1) False [116, 111, 111, 114] ([], 0)) = ''toor''"
      "fst (edit_line [] (PASSWORD_MAX - 1) False [107, 105, 119, 105] ([], 0)) = ''kiwi''"
      "fst (edit_line [] (USER_NAME_MAX - 1) False [101, 118, 101] ([], 0)) = ''eve''"
      "fst (edit_line [] (USER_NAME_MAX - 1) False [] ([], 0)) = []" by code_simp+
    then show "next_line PASSWORD_MAX ([116, 111, 111, 114, 10] @ ks) = Some (Some ''toor'', ks)"
      "next_line PASSWORD_MAX ([107, 105, 119, 105, 10] @ ks) = Some (Some ''kiwi'', ks)"
      "next_line USER_NAME_MAX ([101, 118, 101, 10] @ ks) = Some (Some ''eve'', ks)"
      "next_line USER_NAME_MAX ([10] @ ks) = Some (Some [], ks)" by (simp_all add: next_line_def ends_line_def)
  qed
  have v: "valid_name ''eve''" by code_simp
  have long: "length ''toor'' < PASSWORD_MIN \<longleftrightarrow> False" "length ''kiwi'' < PASSWORD_MIN \<longleftrightarrow> False" by (simp_all add: wizard_sizes)
  have "password_entered ([116, 111, 111, 114, 10] @ [116, 111, 111, 114, 10] @ ks) = Some (Some ''toor'', ks)"
    "password_entered ([107, 105, 119, 105, 10] @ [107, 105, 119, 105, 10] @ ks) = Some (Some ''kiwi'', ks)" for ks
    by (simp_all only: password_entered.simps [of "_ @ _"] n long option.case prod.case if_False simp_thms if_True)
  then have r: "root_entered ([116, 111, 111, 114, 10] @ [116, 111, 111, 114, 10] @ ks) = Some (''toor'', ks)"
    and e: "everyday_entered ([101, 118, 101, 10] @ [107, 105, 119, 105, 10] @ [107, 105, 119, 105, 10] @ ks) = Some (Some (''eve'', ''kiwi''), ks)" for ks
    using v by (simp_all only: root_entered.simps [of "_ @ _"] everyday_entered.simps [of "_ @ _"] n) simp_all
  have "accounts_entered (([116, 111, 111, 114, 10] @ [116, 111, 111, 114, 10] @
      ([101, 118, 101, 10] @ [107, 105, 119, 105, 10] @ [107, 105, 119, 105, 10] @ ([10] @ [114])))) =
     Some ((root_only ''toor'')[1 := account ''eve'' ''kiwi'' False 1000], [114])"
    unfolding accounts_entered_def r by (simp only: bind.bind_lunit prod.case e n) (simp add: enrolled_with_def)
  then show ?thesis by simp
qed

lemma demo_apart: "ports_apart demo_ports sane (\<lambda>_. 0)"
proof -
  have r: "spec_reg p b v = v" if "p < 0x1F0 \<or> 0x1F7 < p" for p b v
    using that by (auto simp: spec_reg_def)
  have "p \<noteq> 0x1F7" if "p < 0x1F0 \<or> 0x1F7 < p" for p :: u16 using that by auto
  with r sane_ok show ?thesis by (simp add: ports_apart_def same_drives_def demo_ports_def Let_def)
qed

lemma demo_powered: "powered_on demo_kernel" "enough_memory demo_linkage"
  "rebooted demo_ports sane (\<lambda>_. 0) (\<lambda>i. if i \<le> 1 then Some demo_ident else None) (\<lambda>_ _. replicate 256 0) (sys (mach demo_kernel))"
  "no_snapshot (\<lambda>_ _. replicate 256 0)"
proof -
  show "powered_on demo_kernel"
    using raw_vga_arrays
    by (simp add: powered_on_def demo_kernel_def demo_machine_def machine_def no_sched_def install_booted_from_medium_def BOOT_FLAG_CD_def)
  show "enough_memory demo_linkage"
    by (simp add: enough_memory_def demo_linkage_def E820_MAX_def E820_TYPE_USABLE_def HEAP_BASE_def HEAP_MAX_SIZE_def HEAP_MIN_SIZE_def Let_def)
  show "rebooted demo_ports sane (\<lambda>_. 0) (\<lambda>i. if i \<le> 1 then Some demo_ident else None) (\<lambda>_ _. replicate 256 0) (sys (mach demo_kernel))"
    using demo_healthy demo_start by (simp add: rebooted_def demo_kernel_def demo_machine_def machine_def demo_ata_def)
  show "no_snapshot (\<lambda>_ _. replicate 256 0)" using blank_no_magic by (simp add: no_snapshot_def)
qed

section \<open>Property\<close>

text \<open>Property C3: started from the disk, without a snapshot on either drive, with enough memory and a first wait that ends,
  the kernel always arrives at the questions of the first boot, with a well-formed system without accounts and
  the drives untouched.  What happens then is decided by the keys typed, read by \<open>accounts_entered\<close>: when
  they run out before all questions are answered, the kernel waits; else it goes on by itself, and the table has
  exactly the accounts entered - the administrator with the password typed twice, and the everyday account
  with the name and the password typed, if one was - before the save and when the boot is over.  The save has
  put them and the tree on the data disk unless there is none or the save is refused, the keys not used are
  left to the login, and the session task is ready; only when there is no memory for its stack the kernel stops.
  The drives behave as documented and keep ERR and DF clear while they are busy (\<open>healthy\<close>), the other ports do not reach them, and the byte \<open>fs_create\<close> leaves
  uninitialised is zero.\<close>

theorem kmain_first_boot:
  assumes "powered_on k" "enough_memory L" "console_ok (con (mach k))" "residue G = NUL"
    and "ports_apart P view busy" "rebooted P view busy ident media (sys (mach k))" "no_snapshot media"
    and "\<exists>t\<in>set (halts L). clock k + 50 \<le> t"
  shows "\<exists>m. same_session (mach k) m \<and> pristine P view busy media (sys m) \<and>
    (case accounts_entered (keystrokes (mach k)) of
       None \<Rightarrow> setup_screen NUL m = None \<and> kmain P L G k = None
     | Some (us, ks) \<Rightarrow> enrolled us \<and>
         (\<exists>m1 rc s r. setup_screen NUL m = Some m1 \<and> users (sys m1) = us \<and> persist_save P (sys m1) = Some (rc, s) \<and> kmain P L G k = Some r \<and>
           (case r of
              Off _ \<Rightarrow> kmalloc TASK_STACK_SIZE s = Some (NULL, s)
            | Back k' \<Rightarrow> at_login P view busy G media (p_state (sys m) = PERSIST_NO_DISK \<or> rc \<noteq> 0) us ks (mach k'))))"
proof -
  from boot_arrives [OF assms(1,2,5-8), of G] obtain k1 where k1: "same_session (mach k) (mach k1)" "pristine P view busy media (sys (mach k1))"
    "kmain P L G k = do {
      m \<leftarrow> setup_screen NUL (mach k1);
      (rc, m) \<leftarrow> on_sys (persist_save P) m;
      r \<leftarrow> start_session G m;
      Some (case r of Off m \<Rightarrow> Off (k1\<lparr>mach := m\<rparr>) | Back m \<Rightarrow> Back (k1\<lparr>mach := m\<rparr>))
    }" by (auto simp: assms(4))
  let ?m = "mach k1"
  have n: "neat ?m" and keys: "keystrokes ?m = keystrokes (mach k)" using k1(1) assms(3) by (simp_all add: same_session_def neat_def)
  note wizard = setup_screen_exact [OF n k1(2), unfolded keys]
  show ?thesis
  proof (cases "accounts_entered (keystrokes (mach k))")
    case None
    with k1 wizard show ?thesis by (intro exI [of _ ?m]) simp
  next
    case (Some q)
    obtain us ks where q: "q = (us, ks)" by (cases q)
    with Some wizard obtain m1 where m1: "setup_screen NUL ?m = Some m1" "keystrokes m1 = ks" "users (sys m1) = us" by auto
    from ends_use [OF m1(1) setup_ends [OF k1(2)]] have w: "peopled P view busy (sys ?m) (sys m1)" "neat m1"
      using moves_on moves_neat n by blast+
    from setup_save [OF w(1) k1(2)] obtain rc s A where s: "persist_save P (sys m1) = Some (rc, s)" "persist_ok P view busy A s" "users s = users (sys m1)"
      "if p_state (sys ?m) = PERSIST_NO_DISK \<or> rc \<noteq> 0 then content view (disk s) = media else on_disk view s" by blast
    let ?m2 = "m1\<lparr>sys := s\<rparr>"
    have "persist_ok P view busy A (sys ?m2)" using s(2) by simp
    from start_session_runs [OF this, of G] obtain r where r: "start_session G ?m2 = Some r"
      "case r of Off _ \<Rightarrow> kmalloc TASK_STACK_SIZE (sys ?m2) = Some (NULL, sys ?m2)
       | Back m' \<Rightarrow> (\<exists>x y. m' = ?m2\<lparr>sys := x, sch := y\<rparr>) \<and> mem_frame (sys ?m2) (sys m') \<and> (\<exists>B. persist_ok P view busy B (sys m')) \<and> session_ready G m'" by blast
    have k: "kmain P L G k = Some (case r of Off m \<Rightarrow> Off (k1\<lparr>mach := m\<rparr>) | Back m \<Rightarrow> Back (k1\<lparr>mach := m\<rparr>))"
      using k1(3) m1(1) s(1) r(1) by (simp add: on_sys_def)
    have e: "enrolled us" using w(1) m1(3) by (simp add: peopled_def)
    have "case (case r of Off m \<Rightarrow> Off (k1\<lparr>mach := m\<rparr>) | Back m \<Rightarrow> Back (k1\<lparr>mach := m\<rparr>)) of
        Off _ \<Rightarrow> kmalloc TASK_STACK_SIZE s = Some (NULL, s)
      | Back k' \<Rightarrow> at_login P view busy G media (p_state (sys ?m) = PERSIST_NO_DISK \<or> rc \<noteq> 0) us ks (mach k')"
    proof (cases r)
      case (Off x)
      with r(2) show ?thesis by simp
    next
      case (Back m')
      from r(2) [unfolded Back outcome.case] obtain x y where
        m': "m' = ?m2\<lparr>sys := x, sch := y\<rparr>" "mem_frame (sys ?m2) (sys m')" "\<exists>B. persist_ok P view busy B (sys m')" "session_ready G m'" by blast
      have st: "settled view s (sys m')" using mem_frame_settled [OF m'(2), of view] by simp
      have "users (sys m') = users s" "content view (disk (sys m')) = content view (disk s)" "on_disk view s \<Longrightarrow> on_disk view (sys m')"
        using st on_disk_settled [OF st] by (simp_all add: settled_def tree_kept_def)
      moreover have "neat m'" "keystrokes m' = ks" using w(2) m'(1) m1(2) by (simp_all add: neat_def)
      ultimately show ?thesis using m'(3,4) s(3,4) m1(3) Back by (auto simp: at_login_def split: if_splits)
    qed
    with k1(1,2) m1(1,3) s(1) k e Some q show ?thesis by (intro exI [of _ ?m]) auto
  qed
qed

theorem kmain_first_boot_witness:
  "\<exists>r. kmain demo_ports demo_linkage demo_around demo_kernel = Some r \<and>
     (case r of Off _ \<Rightarrow> True
      | Back k' \<Rightarrow> users (sys (mach k')) = (root_only ''toor'')[1 := account ''eve'' ''kiwi'' False 1000] \<and> keystrokes (mach k') = [114])"
proof -
  have h: "console_ok (con (mach demo_kernel))" "residue demo_around = NUL" "\<exists>t\<in>set (halts demo_linkage). clock demo_kernel + 50 \<le> t"
    using fresh_console_ok(1) by (simp_all add: demo_kernel_def demo_around_def demo_linkage_def)
  have keys: "accounts_entered (keystrokes (mach demo_kernel)) = Some ((root_only ''toor'')[1 := account ''eve'' ''kiwi'' False 1000], [114])"
    using demo_accounts by (simp add: demo_kernel_def)
  from kmain_first_boot [OF demo_powered(1,2) h(1,2) demo_apart demo_powered(3,4) h(3)] show ?thesis
    unfolding keys option.case prod.case
  proof (elim exE conjE)
    fix m m1 rc s r
    assume "kmain demo_ports demo_linkage demo_around demo_kernel = Some r"
      "case r of Off _ \<Rightarrow> kmalloc TASK_STACK_SIZE s = Some (NULL, s)
       | Back k' \<Rightarrow> at_login demo_ports sane (\<lambda>_. 0) demo_around (\<lambda>_ _. replicate 256 0) (p_state (sys m) = PERSIST_NO_DISK \<or> rc \<noteq> 0)
           ((root_only ''toor'')[1 := account ''eve'' ''kiwi'' False 1000]) [114] (mach k')"
    then show ?thesis by (cases r) (auto simp: at_login_def)
  qed
qed

end
