(* ===== verification/Spec2Isabelle.thy ===== *)
theory Spec2Isabelle
  imports Kernel_Mem Lib_Printf Ramfs_Spec Task_Spec Lib_String Keyboard Vga Console Rtc Serial Board Users_Spec Ata_Spec Persist_Props Install_Spec Shell_Durable Boot_Spec
begin

text \<open>
  LightningOS, a 32-bit kernel for the PC in C: what it does, checked.

  The program and its parts.  The boot loader leaves a memory map and the kernel image in memory and
  calls \<open>kmain\<close> (\<open>src/kernel/kernel.c\<close>), which brings up the screen, the descriptor tables, the heap, the
  drivers, the filesystem, the accounts and the snapshot layer, runs the installer when it was started
  from the install medium, asks for the first accounts on a new system, and starts the session task:
  login, then the shell, again and again.  Everything lives in memory: the tree of files is made of
  heap allocations, the accounts are a table of eight, and the shell writes both to the data disk after
  every line that changed them.  The timer interrupt switches between at most sixteen tasks.

  Theories, from the bottom up, with the files of \<open>src/\<close> they model.

  \<^item> \<open>Los_Prelude\<close>: the integers of the machine (\<open>include/types.h\<close>) as words, chains of pointers through a
    partial store, results.  \<open>Io\<close>: the port instructions (\<open>include/io.h\<close>); what they do to the hardware is the
    parameter \<open>ports\<close> of everything that uses them.
  \<^item> \<open>Kernel_Mem\<close> (\<open>kernel/mem.c\<close>): block headers at addresses, first fit, splitting, coalescing.  The locale
    \<open>allocator\<close> states what a client of a heap relies on and is interpreted on \<open>kmalloc\<close> and \<open>kfree\<close>.
  \<^item> \<open>Lib_String\<close> (\<open>lib/string.c\<close>) on a memory of bytes; \<open>Lib_Printf\<close> (\<open>lib/printf.c\<close>).
  \<^item> \<open>Ramfs\<close> (\<open>fs/ramfs.c\<close>): nodes and buffers at addresses, \<open>None\<close> for an access to memory that is not
    theirs.  \<open>Ramfs_Data\<close>, \<open>Ramfs_Tree\<close>, \<open>Ramfs_Own\<close>, \<open>Ramfs_Remove\<close> and \<open>Ramfs_Paths\<close> prove its invariant
    \<open>fs_inv\<close> (a tree of sibling lists, each allocation owned once) and that each operation implements one
    on the map from paths to entries \<open>fs_view\<close>; \<open>Ramfs_Spec\<close> has the properties, \<open>Fs_Service\<close> the locale
    \<open>file_service\<close> the layers above rely on, interpreted on the operations.
  \<^item> \<open>Users\<close> and \<open>Login\<close> (\<open>kernel/users.c\<close>): the account table over the filesystem, and its screens.
    \<open>Users_Spec\<close>: the invariant \<open>users_ok\<close>, login, user ids.
  \<^item> \<open>Ata\<close> (\<open>drivers/ata.c\<close>): the polled driver.  \<open>Ata_Spec\<close>: what drives do at their ports according to
    the standard (\<open>documented\<close>), and the locale \<open>block_device\<close>, interpreted on the driver over drives that
    are \<open>healthy\<close>: documented, and \<open>steady\<close>, which means that ERR and DF read as zero also while the drive is
    busy.  The standard does not promise the latter, and \<open>wait_drq\<close> needs it: \<open>ata_transfers\<close> holds for
    documented drives and says that a transfer fails only on a drive that is not steady, \<open>ata_read_premature_error\<close>
    shows such a failure.  The theories above assume healthy drives.
  \<^item> \<open>Persist\<close> (\<open>fs/persist.c\<close>): codec, superblock, save, mount, format, flush.  \<open>Persist_Codec\<close>,
    \<open>Persist_Tree\<close>, \<open>Persist_Replay\<close>, \<open>Persist_Spec\<close>, \<open>Persist_Mount\<close>: bytes, records, replaying them, saving
    and mounting; \<open>Persist_Props\<close> has the properties.
  \<^item> \<open>Task\<close>, \<open>Task_Ring\<close>, \<open>Task_Spec\<close> (\<open>kernel/task.c\<close>): the run list as links in a table, its abstraction as a
    ring, the invariant over all reachable states, round robin, isolation and freeing.
  \<^item> \<open>Keyboard\<close> (\<open>drivers/keyboard.c\<close>) with the locale \<open>key_queue\<close>, \<open>Mouse\<close> (\<open>drivers/mouse.c\<close>), \<open>Vga\<close>
    (\<open>drivers/vga.c\<close>), \<open>Serial\<close> (\<open>drivers/serial.c\<close>), \<open>Rtc\<close> (\<open>drivers/rtc.c\<close>), \<open>Console\<close> (\<open>kernel/console.c\<close>):
    each driver with its properties, the terminal and the line editor refined to abstract ones.
  \<^item> \<open>Interrupts\<close> (\<open>kernel/gdt.c\<close>, the set-up of \<open>kernel/idt.c\<close>) and \<open>Board\<close> (\<open>drivers/timer.c\<close>, the
    dispatchers of \<open>kernel/idt.c\<close>): gates, controllers, and what an interrupt runs and resumes.
  \<^item> \<open>Machine\<close>: the state the programs share.  \<open>Shell_Files\<close>, \<open>Shell_System\<close>, \<open>Shell\<close> (\<open>kernel/shell.c\<close>,
    \<open>kernel/banner.c\<close>): every command, the dispatcher, the session.  \<open>Shell_Frame\<close>: one rule for each operation, from
    which \<open>Shell_Guard\<close>, \<open>Shell_Confine\<close> and \<open>Shell_Spec\<close> get what an everyday account can change.
    \<open>Shell_Session\<close>: a session as steps of prompt, key and line (\<open>session_step\<close>), with their invariant for the
    screen and the line editor; \<open>session_loop\<close> ends exactly where the steps do.  \<open>Shell_Durable\<close>: the data disk
    keeps up with the session, turn by turn.
  \<^item> \<open>Install\<close> (\<open>kernel/install.c\<close>) and \<open>Install_Spec\<close>: what the installer writes and what the installed
    system makes of it at its first start.  \<open>Panic\<close> (\<open>kernel/panic.c\<close>), \<open>Kernel\<close> (\<open>kernel/kernel.c\<close>).
    \<open>Boot_Steps\<close>, \<open>Boot_Wizard\<close> and \<open>Boot_Spec\<close>: the first boot, \<open>kmain\<close> as a whole, which composes all the
    others; \<open>accounts_entered\<close> reads off the keys typed which accounts the wizard has to create.

  State and results.  Each component has a record; a component that works on another extends its record
  (\<open>mem_state\<close>, \<open>fs_state\<close>, \<open>users_state\<close>, \<open>persist\<close>), so that its operations act on that state as the code
  acts on its static variables.  Operations return an option: \<open>None\<close> is an access the C code must not make, a
  loop that does not end, or undefined arithmetic; the error codes are the integers of the code.  Programs that
  may leave for good return an \<open>outcome\<close>.

  Loops.  Loops over the structures of the kernel are \<open>partial_function\<close>s, so that a cycle is the value
  \<open>None\<close>, and the properties say that the result is \<open>Some\<close>.  The loops with a bound in the code have that
  bound: \<open>POLL_LIMIT\<close> polls of the disk, 100000 polls of the mouse controller,
  the rounds of the password hash, the table sizes.  They need no further fuel.  \<open>session_task\<close> takes the
  number of sessions to run.

  Assumptions on what is not in \<open>src/\<close>.  Hardware is described by its documentation: drives that are
  \<open>documented\<close> (and, above the driver, \<open>steady\<close>), a clock chip, a pair of interrupt controllers, a UART; each
  has an instance that meets it, and the theorems
  \<open>ata_returns\<close>, \<open>mouse_stream\<close> and those of the keyboard hold for any behaviour.  Bytes that C leaves
  uninitialised (\<open>residue\<close>), the build stamp, addresses that the linker chooses, and what other tasks do while
  a program sleeps are parameters.

  Not modelled.  The assembly files (loaders, interrupt stubs, the loading of the tables) and the inline
  assembly of \<open>include/lock.h\<close>, since they are not C: an operation between \<open>cli\<close> and \<open>sti\<close> is one step.  The
  build scripts and tools.  \<open>kcalloc\<close> is \<open>kmalloc\<close> of the product: its zeroing is the zero record with which
  the typed store of the client starts.  Field widths of the formatter are natural numbers, without the
  overflow of an \<open>int\<close> at ten digits.  The copy of the screen output on the serial line is left out of the machine, and so
  are the interrupts between the steps of a program other than through \<open>meanwhile\<close>, the keys and the ticks.
\<close>

end
